(* ===== verification/Prelude.thy ===== *)
theory Prelude
  imports Main "HOL-Library.Word" "HOL-Library.Monad_Syntax"
begin

text \<open>
  Shared vocabulary of the development: the Rust machine integers, bytes and big/little endian
  codecs, slices, clocks, and the ordered maps and double-ended queues of the Rust standard library,
  with the lemmas about them that every component uses.

  Conventions. A Rust \<open>Result<T, E>\<close> is \<open>'e + 'a\<close> (\<open>Inl\<close> is \<open>Err\<close>). A Rust \<open>Option<T>\<close> is
  \<open>'a option\<close>. Where an expression of the source can panic (an index, a slice or an \<open>expect\<close>), the
  model of the operation has type \<open>'a option\<close> and \<open>None\<close> is the panic. \<open>usize\<close> and the
  extended \<open>u64\<close> packet index are \<open>nat\<close>; header fields and bytes are words of their width.
  \<open>Instant\<close> and \<open>Duration\<close> are \<open>nat\<close> nanoseconds, so \<open>saturating_duration_since\<close> is
  the truncating subtraction of \<open>nat\<close>.
\<close>

unbundle bit_operations_syntax

named_theorems codec \<open>round trips of the integer codecs\<close>
named_theorems inv_intros \<open>introduction rules of component invariants\<close>

section \<open>Machine types\<close>

type_synonym u8 = "8 word"
type_synonym u16 = "16 word"
type_synonym u32 = "32 word"
type_synonym u64 = "64 word"
type_synonym bytes = "u8 list"
type_synonym instant = nat
type_synonym duration = nat

abbreviation u16_max :: nat where "u16_max \<equiv> 65535"
abbreviation u32_max :: nat where "u32_max \<equiv> 4294967295"
abbreviation u64_max :: nat where "u64_max \<equiv> 18446744073709551615"

definition millis :: "nat \<Rightarrow> duration" where
  "millis n = n * 1000000"

definition secs :: "nat \<Rightarrow> duration" where
  "secs n = n * 1000000000"

definition sat_add_u64 :: "nat \<Rightarrow> nat \<Rightarrow> nat" where
  "sat_add_u64 a b = min (a + b) u64_max"

lemma sat_add_u64_le: "sat_add_u64 a b \<le> u64_max"
  by (simp add: sat_add_u64_def)

lemma sat_add_u64_exact: "a + b \<le> u64_max \<Longrightarrow> sat_add_u64 a b = a + b"
  by (simp add: sat_add_u64_def)

definition div_ceil :: "nat \<Rightarrow> nat \<Rightarrow> nat" where
  "div_ceil a b = (a + b - 1) div b"

section \<open>Integer codecs\<close>

definition be16 :: "u16 \<Rightarrow> bytes" where
  "be16 w = [ucast (drop_bit 8 w), ucast w]"

definition be32 :: "u32 \<Rightarrow> bytes" where
  "be32 w = [ucast (drop_bit 24 w), ucast (drop_bit 16 w), ucast (drop_bit 8 w), ucast w]"

definition be64 :: "u64 \<Rightarrow> bytes" where
  "be64 w = map (\<lambda>i. ucast (drop_bit (56 - 8 * i) w)) [0..<8]"

definition le16 :: "u16 \<Rightarrow> bytes" where
  "le16 w = [ucast w, ucast (drop_bit 8 w)]"

definition le32 :: "u32 \<Rightarrow> bytes" where
  "le32 w = [ucast w, ucast (drop_bit 8 w), ucast (drop_bit 16 w), ucast (drop_bit 24 w)]"

definition le64 :: "u64 \<Rightarrow> bytes" where
  "le64 w = map (\<lambda>i. ucast (drop_bit (8 * i) w)) [0..<8]"

definition from_be16 :: "u8 \<Rightarrow> u8 \<Rightarrow> u16" where
  "from_be16 a b = push_bit 8 (ucast a) OR ucast b"

definition from_be32 :: "u8 \<Rightarrow> u8 \<Rightarrow> u8 \<Rightarrow> u8 \<Rightarrow> u32" where
  "from_be32 a b c d =
     push_bit 24 (ucast a) OR push_bit 16 (ucast b) OR push_bit 8 (ucast c) OR ucast d"

definition from_le16 :: "u8 \<Rightarrow> u8 \<Rightarrow> u16" where
  "from_le16 a b = from_be16 b a"

definition from_le32 :: "u8 \<Rightarrow> u8 \<Rightarrow> u8 \<Rightarrow> u8 \<Rightarrow> u32" where
  "from_le32 a b c d = from_be32 d c b a"

lemma from_be16_be16 [codec]: "from_be16 (ucast (drop_bit 8 w)) (ucast w) = w"
  unfolding from_be16_def
  by (rule bit_word_eqI) (auto simp: bit_simps)

lemma from_be32_be32 [codec]:
  "from_be32 (ucast (drop_bit 24 w)) (ucast (drop_bit 16 w)) (ucast (drop_bit 8 w)) (ucast w) = w"
proof (rule bit_word_eqI)
  fix n assume "n < LENGTH(32)"
  then consider "n < 8" | "8 \<le> n" "n < 16" | "16 \<le> n" "n < 24" | "24 \<le> n" "n < 32"
    by fastforce
  then show "bit (from_be32 (ucast (drop_bit 24 w)) (ucast (drop_bit 16 w)) (ucast (drop_bit 8 w))
      (ucast w)) n = bit w n"
    by cases (auto simp: from_be32_def bit_simps)
qed

lemma byte_bit_beyond: "8 \<le> n \<Longrightarrow> \<not> bit (a :: u8) n"
  using bit_imp_le_length [of a n] by fastforce

lemma be16_from_be16 [codec]: "be16 (from_be16 a b) = [a, b]"
  unfolding be16_def from_be16_def
  by (auto intro!: bit_word_eqI simp: bit_simps byte_bit_beyond)

lemma be32_from_be32 [codec]: "be32 (from_be32 a b c d) = [a, b, c, d]"
  unfolding be32_def from_be32_def
  by (auto intro!: bit_word_eqI simp: bit_simps byte_bit_beyond)

lemma length_be [simp]: "length (be16 a) = 2" "length (be32 b) = 4" "length (be64 c) = 8"
  by (simp_all add: be16_def be32_def be64_def)

lemma length_le [simp]: "length (le16 a) = 2" "length (le32 b) = 4" "length (le64 c) = 8"
  by (simp_all add: le16_def le32_def le64_def)

section \<open>Buffers\<close>

text \<open>\<open>Vec::resize\<close> with zeros.\<close>

definition resize :: "nat \<Rightarrow> bytes \<Rightarrow> bytes" where
  "resize n bs = take n bs @ replicate (n - length bs) 0"

lemma length_resize [simp]: "length (resize n bs) = n"
  by (simp add: resize_def)

text \<open>\<open>copy_from_slice\<close> into a range of a buffer.\<close>

definition write_at :: "nat \<Rightarrow> bytes \<Rightarrow> bytes \<Rightarrow> bytes" where
  "write_at i bs xs = take i xs @ bs @ drop (i + length bs) xs"

lemma nth_write_at:
  assumes "i + length bs \<le> length xs" and "k < length xs"
  shows "write_at i bs xs ! k = (if i \<le> k \<and> k < i + length bs then bs ! (k - i) else xs ! k)"
  using assms by (auto simp: write_at_def nth_append min_def)

lemma length_write_at: "i + length bs \<le> length xs \<Longrightarrow> length (write_at i bs xs) = length xs"
  by (simp add: write_at_def)

section \<open>Queues\<close>

text \<open>\<open>iter().position(p)\<close>, \<open>VecDeque::remove(i)\<close> and \<open>iter_mut().find(p)\<close> with an update of the entry found.\<close>

fun find_position :: "('a \<Rightarrow> bool) \<Rightarrow> 'a list \<Rightarrow> nat option" where
  "find_position p [] = None"
| "find_position p (x # xs) = (if p x then Some 0 else map_option Suc (find_position p xs))"

definition remove_at :: "nat \<Rightarrow> 'a list \<Rightarrow> 'a list" where
  "remove_at i xs = take i xs @ drop (Suc i) xs"

definition insert_at :: "nat \<Rightarrow> 'a \<Rightarrow> 'a list \<Rightarrow> 'a list" where
  "insert_at i x xs = take i xs @ x # drop i xs"

fun update_first :: "('a \<Rightarrow> bool) \<Rightarrow> ('a \<Rightarrow> 'a) \<Rightarrow> 'a list \<Rightarrow> 'a list" where
  "update_first p f [] = []"
| "update_first p f (x # xs) = (if p x then f x # xs else x # update_first p f xs)"

lemma find_position_SomeD:
  "find_position p xs = Some i \<Longrightarrow> i < length xs \<and> p (xs ! i) \<and> (\<forall>j<i. \<not> p (xs ! j))"
proof (induction xs arbitrary: i)
  case (Cons x xs)
  then show ?case by (auto split: if_splits simp: nth_Cons split: nat.splits)
qed simp

lemma find_position_None: "find_position p xs = None \<longleftrightarrow> (\<forall>x\<in>set xs. \<not> p x)"
  by (induction xs) auto

lemma find_position_split:
  assumes "find_position p xs = Some i"
  obtains ys x zs where "xs = ys @ x # zs" and "length ys = i" and "p x" and "\<forall>y\<in>set ys. \<not> p y"
    and "remove_at i xs = ys @ zs"
proof -
  from find_position_SomeD [OF assms] have i: "i < length xs" "p (xs ! i)" "\<forall>j<i. \<not> p (xs ! j)" by auto
  show thesis
  proof (rule that)
    show "xs = take i xs @ xs ! i # drop (Suc i) xs" using i(1) by (rule id_take_nth_drop)
    show "length (take i xs) = i" using i(1) by simp
    show "\<forall>y\<in>set (take i xs). \<not> p y" using i by (auto simp: in_set_conv_nth)
  qed (simp_all add: i remove_at_def)
qed

lemma length_remove_at: "i < length xs \<Longrightarrow> length (remove_at i xs) = length xs - 1"
  by (auto simp: remove_at_def)

lemma set_remove_at: "set (remove_at i xs) \<subseteq> set xs"
  by (auto simp: remove_at_def dest: in_set_takeD in_set_dropD)

lemma length_update_first [simp]: "length (update_first p f xs) = length xs"
  by (induction xs) auto

lemma update_first_split:
  assumes "\<exists>x\<in>set xs. p x"
  obtains ys x zs where "xs = ys @ x # zs" and "p x" and "\<forall>y\<in>set ys. \<not> p y"
    and "update_first p f xs = ys @ f x # zs"
proof -
  have "\<exists>ys x zs. xs = ys @ x # zs \<and> p x \<and> (\<forall>y\<in>set ys. \<not> p y) \<and> update_first p f xs = ys @ f x # zs"
    using assms
  proof (induction xs)
    case (Cons a xs)
    show ?case
    proof (cases "p a")
      case True
      then show ?thesis by (intro exI [of _ "[]"]) auto
    next
      case False
      with Cons obtain ys x zs where "xs = ys @ x # zs" "p x" "\<forall>y\<in>set ys. \<not> p y"
        "update_first p f xs = ys @ f x # zs" by auto
      with False show ?thesis by (intro exI [of _ "a # ys"]) auto
    qed
  qed simp
  then show thesis using that by blast
qed

lemma update_first_none: "\<forall>x\<in>set xs. \<not> p x \<Longrightarrow> update_first p f xs = xs"
  by (induction xs) auto

section \<open>Runs of a state machine\<close>

text \<open>Components are driven by sequences of operations. A step that keeps an invariant keeps it along every run, and
  where a step may panic (\<open>None\<close>) a step that is defined under the invariant makes every run defined.\<close>

locale state_machine =
  fixes step :: "'op \<Rightarrow> 's \<Rightarrow> 's" and inv :: "'s \<Rightarrow> bool"
  assumes step_inv: "inv s \<Longrightarrow> inv (step op s)"
begin

lemma run_keeps: "inv s \<Longrightarrow> inv (fold step ops s)"
  by (induction ops arbitrary: s) (simp_all add: step_inv)

end

fun run_steps :: "('op \<Rightarrow> 's \<Rightarrow> 's option) \<Rightarrow> 'op list \<Rightarrow> 's \<Rightarrow> 's option" where
  "run_steps step [] s = Some s"
| "run_steps step (op # ops) s = (case step op s of None \<Rightarrow> None | Some s \<Rightarrow> run_steps step ops s)"

lemma run_steps_append: "run_steps step (xs @ ys) s = Option.bind (run_steps step xs s) (run_steps step ys)"
  by (induction xs arbitrary: s) (auto split: option.split)

locale panic_free =
  fixes step :: "'op \<Rightarrow> 's \<Rightarrow> 's option" and inv :: "'s \<Rightarrow> bool" and allowed :: "'op \<Rightarrow> bool"
  assumes step_defined: "inv s \<Longrightarrow> allowed op \<Longrightarrow> \<exists>s'. step op s = Some s' \<and> inv s'"
begin

lemma run_defined: "inv s \<Longrightarrow> \<forall>op\<in>set ops. allowed op \<Longrightarrow> \<exists>s'. run_steps step ops s = Some s' \<and> inv s'"
proof (induction ops arbitrary: s)
  case (Cons op ops)
  from step_defined [OF Cons.prems(1), of op] Cons.prems(2) obtain s1 where "step op s = Some s1" "inv s1" by auto
  with Cons.IH [of s1] Cons.prems(2) show ?case by simp
qed simp

end

end
