(* ===== verification/Gf256.thy ===== *)
theory Gf256
  imports Prelude
begin

text \<open>
  The arithmetic of GF(256) used by the video forward error correction: the logarithm and exponent
  tables (\<open>gf256_tables\<close>), multiplication, inversion and the two vector kernels. The tables are
  built by the loops of the source; the lemmas show that they hold the powers of the generator
  \<open>x\<close> modulo \<open>0x11d\<close> and their logarithms, that multiplication is multiplication by a power of
  \<open>x\<close>, and that bytes with XOR and \<open>gf256_multiply\<close> form a field (the class instance \<open>gf :: field\<close>).
\<close>

section \<open>Model\<close>

record Gf256Tables =
  exponent :: "u8 list"
  logarithm :: "u8 list"

definition gf_advance :: "u16 \<Rightarrow> u16" where
  "gf_advance value =
     (let value = push_bit 1 value
      in if value AND 0x100 \<noteq> 0 then value XOR 0x11d else value)"

definition fill_slot :: "nat \<Rightarrow> u8 list \<times> u8 list \<times> u16 \<Rightarrow> u8 list \<times> u8 list \<times> u16" where
  "fill_slot pw s = (case s of (e, l, value) \<Rightarrow>
     (e[pw := ucast value], l[unat value := of_nat pw], gf_advance value))"

definition gf256_tables :: Gf256Tables where
  "gf256_tables =
     (let (e, l, _) = fold fill_slot [0..<255] (replicate 512 0, replicate 256 0, 1);
          e' = fold (\<lambda>pw e. e[pw := e ! (pw - 255)]) [255..<512] e
      in \<lparr> exponent = e', logarithm = l \<rparr>)"

definition gf256_multiply :: "u8 \<Rightarrow> u8 \<Rightarrow> u8" where
  "gf256_multiply left right =
     (if left = 0 \<or> right = 0 then 0
      else exponent gf256_tables !
             (unat (logarithm gf256_tables ! unat left) + unat (logarithm gf256_tables ! unat right)))"

definition gf256_inverse :: "u8 \<Rightarrow> u8 option" where
  "gf256_inverse value =
     (if value \<noteq> 0
      then Some (exponent gf256_tables ! (255 - unat (logarithm gf256_tables ! unat value)))
      else None)"

definition gf256_axpy :: "bytes \<Rightarrow> bytes \<Rightarrow> u8 \<Rightarrow> bytes" where
  "gf256_axpy destination source coefficient =
     (if coefficient = 0 then destination
      else if coefficient = 1
      then map2 (\<lambda>d s. d XOR s) destination source @ drop (length source) destination
      else map2 (\<lambda>d s. d XOR gf256_multiply coefficient s) destination source
             @ drop (length source) destination)"

definition gf256_scale :: "bytes \<Rightarrow> u8 \<Rightarrow> bytes" where
  "gf256_scale bs coefficient =
     (if coefficient = 1 then bs else map (\<lambda>byte. gf256_multiply byte coefficient) bs)"

section \<open>Powers of the generator\<close>

definition xtime :: "u8 \<Rightarrow> u8" where
  "xtime v = push_bit 1 v XOR (if bit v 7 then 0x1d else 0)"

abbreviation gpow :: "nat \<Rightarrow> u8" where
  "gpow n \<equiv> (xtime ^^ n) 1"

lemma xtime_xor: "xtime (a XOR b) = xtime a XOR xtime b"
  unfolding xtime_def by (auto intro!: bit_word_eqI simp: bit_simps)

lemma xtime_0 [simp]: "xtime 0 = 0"
  by (simp add: xtime_def)

lemma funpow_xtime_xor: "(xtime ^^ n) (a XOR b) = (xtime ^^ n) a XOR (xtime ^^ n) b"
  by (induction n) (simp_all add: xtime_xor)

lemma funpow_xtime_0 [simp]: "(xtime ^^ n) 0 = 0"
  by (induction n) simp_all

lemma xtime_eq_0: "xtime v = 0 \<Longrightarrow> v = 0"
proof (rule ccontr)
  assume z: "xtime v = 0" and "v \<noteq> 0"
  have b0: "bit (xtime v) 0 = bit v 7"
    unfolding xtime_def by (simp add: bit_0 even_xor_iff)
  with z have "\<not> bit v 7" by simp
  with z have "push_bit 1 v = 0" by (simp add: xtime_def)
  have "\<not> bit v n" for n
  proof (cases "n < 7")
    case True
    have "bit (push_bit 1 v) (Suc n) \<longleftrightarrow> bit v n"
      unfolding bit_push_bit_iff using True by simp
    with \<open>push_bit 1 v = 0\<close> show ?thesis by simp
  next
    case False
    with \<open>\<not> bit v 7\<close> show ?thesis
      by (cases "n = 7") (simp_all add: byte_bit_beyond)
  qed
  then have "v = 0" by (intro bit_word_eqI) simp
  with \<open>v \<noteq> 0\<close> show False by simp
qed

lemma xtime_inject: "xtime a = xtime b \<longleftrightarrow> a = b"
proof
  assume "xtime a = xtime b"
  then have "xtime (a XOR b) = 0" by (simp add: xtime_xor)
  then have "a XOR b = 0" by (rule xtime_eq_0)
  then show "a = b" by (metis xor.right_neutral xor.left_commute xor_self_eq)
qed simp

lemma funpow_xtime_inject: "(xtime ^^ n) a = (xtime ^^ n) b \<longleftrightarrow> a = b"
  by (induction n) (simp_all add: xtime_inject)

lemma gpow_nonzero: "gpow n \<noteq> 0"
  using funpow_xtime_inject [of n 1 0] by simp

lemma funpow_numeral_step: "(f ^^ numeral k) x = (f ^^ pred_numeral k) (f x)"
  by (simp add: numeral_eq_Suc funpow_Suc_right del: funpow.simps)

lemma gpow_15: "gpow 15 = 38"
  by (simp add: xtime_def funpow_numeral_step)

lemma gpow_51: "gpow 51 = 10"
  by (simp add: xtime_def funpow_numeral_step)

lemma gpow_85: "gpow 85 = 214"
  by (simp add: xtime_def funpow_numeral_step)

lemma gpow_255: "gpow 255 = 1"
  by (simp add: xtime_def funpow_numeral_step)

lemma gpow_add: "gpow (m + n) = (xtime ^^ m) (gpow n)"
  by (simp add: funpow_add)

lemma gpow_one_diff:
  assumes "gpow m = gpow n" and "m \<le> n"
  shows "gpow (n - m) = 1"
  using assms gpow_add [of m "n - m"] funpow_xtime_inject [of m 1 "gpow (n - m)"] by simp

lemma gpow_one_add: "gpow m = 1 \<Longrightarrow> gpow (n + m) = gpow n"
  by (simp add: gpow_add)

lemma gpow_one_mult: "gpow d = 1 \<Longrightarrow> gpow (n + k * d) = gpow n"
proof (induction k)
  case (Suc k)
  have "gpow (n + Suc k * d) = gpow ((n + k * d) + d)" by (simp add: algebra_simps)
  with Suc show ?case by (simp only: gpow_one_add)
qed simp

lemma gpow_one_dvd: "gpow d = 1 \<Longrightarrow> d dvd n \<Longrightarrow> gpow n = 1"
  using gpow_one_mult [of d 0] by (auto simp: dvd_def mult.commute)

lemma gpow_one_gcd: "gpow a = 1 \<Longrightarrow> gpow b = 1 \<Longrightarrow> gpow (gcd a b) = 1"
proof (induction a b rule: gcd_nat_induct)
  case (step m n)
  have "gpow (m mod n) = 1"
    using gpow_one_mult [OF step.prems(2), of "m mod n" "m div n"] step.prems(1) by simp
  then have "gpow (gcd n (m mod n)) = 1" using step.IH step.prems(2) by blast
  then show ?case by (simp only: gcd_red_nat [of m n])
qed simp

lemma proper_divisor_255:
  assumes "(g :: nat) dvd 255" and "g \<noteq> 255"
  shows "g dvd 15 \<or> g dvd 51 \<or> g dvd 85"
proof -
  from assms(1) obtain k where k: "255 = g * k" by (auto simp: dvd_def)
  have small: "g < 16 \<or> k < 16"
  proof (rule ccontr)
    assume "\<not> (g < 16 \<or> k < 16)"
    then have "16 * 16 \<le> g * k" by (intro mult_le_mono) auto
    with k show False by simp
  qed
  have range: "0 < g" "0 < k" "k \<noteq> 1" using k assms(2) by (auto intro: Nat.gr0I)
  from small show ?thesis
  proof
    assume "g < 16"
    with range(1) have "g \<in> {1, 2, 3, 4, 5, 6, 7, 8, 9, 10, 11, 12, 13, 14, 15}"
      unfolding insert_iff empty_iff by presburger
    then show ?thesis using assms(1) by auto
  next
    assume "k < 16"
    with range have "k \<in> {2, 3, 4, 5, 6, 7, 8, 9, 10, 11, 12, 13, 14, 15}"
      unfolding insert_iff empty_iff by presburger
    then have "g = 85 \<or> g = 51 \<or> g = 17"
      using k by (elim insertE emptyE; simp; presburger?)
    then show ?thesis by auto
  qed
qed

lemma gpow_order:
  assumes "0 < d" and "d < 255"
  shows "gpow d \<noteq> 1"
proof
  assume "gpow d = 1"
  then have one: "gpow (gcd d 255) = 1" using gpow_255 by (rule gpow_one_gcd)
  have "gcd d 255 \<noteq> 255"
    using assms gcd_le1_nat [of d 255] by linarith
  then consider "gcd d 255 dvd 15" | "gcd d 255 dvd 51" | "gcd d 255 dvd 85"
    using proper_divisor_255 [of "gcd d 255"] by auto
  then have "gpow 15 = 1 \<or> gpow 51 = 1 \<or> gpow 85 = 1"
    using gpow_one_dvd [OF one] by cases auto
  then show False by (simp add: gpow_15 gpow_51 gpow_85)
qed

lemma gpow_inj: "inj_on gpow {..<255}"
proof (rule linorder_inj_onI)
  fix m n :: nat
  assume "m < n" and "m \<in> {..<255}" and "n \<in> {..<255}"
  then show "gpow m \<noteq> gpow n"
    using gpow_one_diff [of m n] gpow_order [of "n - m"] by fastforce
qed auto

lemma gpow_onto: "gpow ` {..<255} = UNIV - {0}"
proof (rule card_seteq)
  show "gpow ` {..<255} \<subseteq> UNIV - {0}" using gpow_nonzero by auto
  have "card (UNIV :: u8 set) = 256" by (simp add: card_word)
  then have "card (UNIV - {0 :: u8}) = 255" by (simp add: card_Diff_singleton)
  then show "card (UNIV - {0 :: u8}) \<le> card (gpow ` {..<255})"
    by (simp add: card_image [OF gpow_inj])
qed simp

lemma gpow_cases:
  assumes "v \<noteq> 0"
  obtains i where "i < 255" and "v = gpow i"
  using assms gpow_onto by blast

section \<open>The tables hold the powers and their logarithms\<close>

lemma bit_u16_cases: "n < LENGTH(16) \<Longrightarrow> n \<in> {0, 1, 2, 3, 4, 5, 6, 7, 8, 9, 10, 11, 12, 13, 14, 15}"
  unfolding insert_iff empty_iff len_of_numeral_defs(2) by simp presburger

lemma gf_advance_xtime: "gf_advance (ucast v) = ucast (xtime v)"
proof -
  have carry: "(push_bit 1 (ucast v) :: u16) AND 0x100 = (if bit v 7 then 0x100 else 0)"
    by (rule bit_word_eqI, drule bit_u16_cases)
       (auto simp: bit_simps simp del: push_bit_Suc)
  show ?thesis
    unfolding gf_advance_def Let_def carry xtime_def
    by (rule bit_word_eqI, drule bit_u16_cases)
       (auto simp: bit_simps byte_bit_beyond simp del: push_bit_Suc)
qed

lemma unat_gpow_less: "unat (v :: u8) < 256"
  using unsigned_less [of v] by simp

text \<open>Loop invariant of the first table loop after \<open>n\<close> iterations.\<close>

lemma fill_tables:
  assumes "n \<le> 255"
  shows "\<exists>e l. fold fill_slot [0..<n] (replicate 512 0, replicate 256 0, 1) = (e, l, ucast (gpow n)) \<and>
    length e = 512 \<and> length l = 256 \<and>
    (\<forall>i < n. e ! i = gpow i \<and> l ! unat (gpow i) = of_nat i)"
  using assms
proof (induction n)
  case 0
  show ?case by simp
next
  case (Suc n)
  then obtain e l where fold: "fold fill_slot [0..<n] (replicate 512 0, replicate 256 0, 1) = (e, l, ucast (gpow n))"
    and len: "length e = 512" "length l = 256"
    and inv: "\<forall>i < n. e ! i = gpow i \<and> l ! unat (gpow i) = of_nat i"
    by auto
  have un: "unat (ucast (gpow n) :: u16) = unat (gpow n)"
    using unat_gpow_less [of "gpow n"] by (simp add: unsigned_ucast_eq take_bit_nat_eq_self)
  have uc: "(ucast (ucast (gpow n) :: u16) :: u8) = gpow n"
    by (rule bit_word_eqI) (simp add: bit_simps)
  have ne: "unat (gpow i) \<noteq> unat (gpow n)" if "i < n" for i
    using that Suc.prems inj_onD [OF gpow_inj, of i n] by (auto simp: word_unat_eq_iff)
  have slot: "fill_slot n (e, l, ucast (gpow n)) =
      (e[n := gpow n], l[unat (gpow n) := of_nat n], ucast (gpow (Suc n)))"
    by (simp add: fill_slot_def un uc gf_advance_xtime)
  have "e[n := gpow n] ! i = gpow i \<and> l[unat (gpow n) := of_nat n] ! unat (gpow i) = of_nat i"
    if "i < Suc n" for i
    using that inv len Suc.prems unat_gpow_less [of "gpow n"] ne [of i]
    by (cases "i = n") auto
  then show ?case
    using fold len slot by simp
qed

text \<open>The second loop extends the exponents periodically.\<close>

lemma extend_exponents:
  assumes "length e = 512" and "\<forall>i < 255. e ! i = gpow i" and "255 \<le> n" and "n \<le> 512"
  shows "length (fold (\<lambda>pw e. e[pw := e ! (pw - 255)]) [255..<n] e) = 512 \<and>
    (\<forall>i < n. fold (\<lambda>pw e. e[pw := e ! (pw - 255)]) [255..<n] e ! i = gpow i)"
  using assms(3,4)
proof (induction n rule: dec_induct)
  case base
  show ?case using assms(1,2) by simp
next
  case (step n)
  have "gpow (n - 255) = gpow n"
    using gpow_one_add [OF gpow_255, of "n - 255"] step.hyps(1) by simp
  with step show ?case by (auto simp: nth_list_update less_Suc_eq)
qed

lemma gf256_tables_exponent: "i < 512 \<Longrightarrow> exponent gf256_tables ! i = gpow i"
  and gf256_tables_logarithm: "j < 255 \<Longrightarrow> logarithm gf256_tables ! unat (gpow j) = of_nat j"
proof -
  obtain e l where f: "fold fill_slot [0..<255] (replicate 512 0, replicate 256 0, 1) = (e, l, ucast (gpow 255))"
    and len: "length e = 512" and inv: "\<forall>i < 255. e ! i = gpow i \<and> l ! unat (gpow i) = of_nat i"
    using fill_tables [of 255] by blast
  have pre: "\<forall>i < 255. e ! i = gpow i" using inv by blast
  have le: "(255 :: nat) \<le> 512" by simp
  note ext = extend_exponents [OF len pre le order.refl, THEN conjunct2, rule_format]
  show "exponent gf256_tables ! i = gpow i" if "i < 512"
    using ext [OF that] by (simp only: gf256_tables_def f Let_def prod.case Gf256Tables.select_convs)
  show "logarithm gf256_tables ! unat (gpow j) = of_nat j" if "j < 255"
    using inv that by (simp only: gf256_tables_def f Let_def prod.case Gf256Tables.select_convs)
qed

section \<open>Multiplication and inversion\<close>

lemma log_gpow: "j < 255 \<Longrightarrow> unat (logarithm gf256_tables ! unat (gpow j)) = j"
  by (simp add: gf256_tables_logarithm unat_of_nat)

lemma gf256_multiply_zero [simp]: "gf256_multiply 0 b = 0" "gf256_multiply a 0 = 0"
  by (simp_all add: gf256_multiply_def)

lemma gf256_multiply_gpow:
  assumes "i < 255" and "j < 255"
  shows "gf256_multiply (gpow i) (gpow j) = gpow (i + j)"
  using assms gf256_tables_exponent [of "i + j"]
  by (simp add: gf256_multiply_def gpow_nonzero log_gpow)

lemma gf256_multiply_funpow:
  assumes "i < 255"
  shows "gf256_multiply (gpow i) b = (xtime ^^ i) b"
proof (cases "b = 0")
  case False
  then obtain j where "j < 255" and "b = gpow j" by (rule gpow_cases)
  with assms show ?thesis by (simp add: gf256_multiply_gpow gpow_add)
qed simp

lemma gf256_multiply_comm: "gf256_multiply a b = gf256_multiply b a"
  by (simp add: gf256_multiply_def add.commute)

lemma gf256_multiply_one [simp]: "gf256_multiply 1 b = b" "gf256_multiply b 1 = b"
  using gf256_multiply_funpow [of 0 b] by (simp_all add: gf256_multiply_comm [of b 1])

lemma gf256_multiply_xor: "gf256_multiply a (b XOR c) = gf256_multiply a b XOR gf256_multiply a c"
proof (cases "a = 0")
  case False
  then obtain i where "i < 255" and "a = gpow i" by (rule gpow_cases)
  then show ?thesis by (simp add: gf256_multiply_funpow funpow_xtime_xor)
qed simp

lemma gf256_multiply_assoc:
  "gf256_multiply (gf256_multiply a b) c = gf256_multiply a (gf256_multiply b c)"
proof (cases "a = 0 \<or> b = 0")
  case False
  then obtain i j where i: "i < 255" "a = gpow i" and j: "j < 255" "b = gpow j"
    by (metis gpow_cases)
  define k where "k = (i + j) mod 255"
  have k: "k < 255" "gpow (i + j) = gpow k"
    using gpow_one_mult [OF gpow_255, of k "(i + j) div 255"] by (simp_all add: k_def)
  have "(xtime ^^ i) ((xtime ^^ j) c) = (xtime ^^ k) c" if "c \<noteq> 0"
  proof -
    from that obtain m where "c = gpow m" by (rule gpow_cases)
    then show ?thesis
      using k(2) gpow_add [of "i + j" m] gpow_add [of k m] gpow_add [of m "i + j"] gpow_add [of m k]
      by (simp add: funpow_add add.commute)
  qed
  moreover have "gf256_multiply a b = gpow k"
    using i j k(2) by (simp only: gf256_multiply_gpow)
  ultimately show ?thesis
    using i j k(1) by (cases "c = 0") (simp_all only: gf256_multiply_funpow gf256_multiply_zero simp_thms)
qed auto

lemma gf256_multiply_xor_left:
  "gf256_multiply (a XOR b) c = gf256_multiply a c XOR gf256_multiply b c"
  using gf256_multiply_xor [of c a b] by (simp add: gf256_multiply_comm)

lemma gf256_inverse_Some:
  assumes "v \<noteq> 0"
  obtains w where "gf256_inverse v = Some w" and "gf256_multiply v w = 1"
proof -
  from assms obtain i where i: "i < 255" "v = gpow i" by (rule gpow_cases)
  have "gf256_inverse v = Some (gpow (255 - i))"
    using i assms by (simp add: gf256_inverse_def log_gpow gf256_tables_exponent)
  moreover have "gf256_multiply v (gpow (255 - i)) = 1"
    using i gpow_255 by (simp add: gf256_multiply_funpow gpow_add [symmetric])
  ultimately show thesis by (rule that)
qed

lemma gf256_inverse_None [simp]: "gf256_inverse v = None \<longleftrightarrow> v = 0"
  by (simp add: gf256_inverse_def)

section \<open>Bytes as a field\<close>

typedef gf = "UNIV :: u8 set" ..

setup_lifting type_definition_gf

instantiation gf :: field
begin

lift_definition zero_gf :: gf is 0 .
lift_definition one_gf :: gf is 1 .
lift_definition plus_gf :: "gf \<Rightarrow> gf \<Rightarrow> gf" is "\<lambda>a b. a XOR b" .
lift_definition minus_gf :: "gf \<Rightarrow> gf \<Rightarrow> gf" is "\<lambda>a b. a XOR b" .
lift_definition uminus_gf :: "gf \<Rightarrow> gf" is "\<lambda>a. a" .
lift_definition times_gf :: "gf \<Rightarrow> gf \<Rightarrow> gf" is gf256_multiply .
lift_definition inverse_gf :: "gf \<Rightarrow> gf" is
  "\<lambda>a. case gf256_inverse a of None \<Rightarrow> 0 | Some w \<Rightarrow> w" .

definition divide_gf :: "gf \<Rightarrow> gf \<Rightarrow> gf" where
  "divide_gf a b = a * inverse b"

instance
proof
  fix a b c :: gf
  show "a * b * c = a * (b * c)" by transfer (rule gf256_multiply_assoc)
  show "a * b = b * a" by transfer (rule gf256_multiply_comm)
  show "1 * a = a" by transfer simp
  show "a + b + c = a + (b + c)" by transfer (simp add: xor.assoc)
  show "a + b = b + a" by transfer (simp add: xor.commute)
  show "0 + a = a" by transfer simp
  show "- a + a = 0" by transfer simp
  show "a - b = a + - b" by transfer simp
  show "(a + b) * c = a * c + b * c"
    by transfer (rule gf256_multiply_xor_left)
  show "(0 :: gf) \<noteq> 1" by transfer simp
  show "a \<noteq> 0 \<Longrightarrow> inverse a * a = 1"
    by transfer (metis gf256_inverse_Some gf256_multiply_comm option.simps(5))
  show "a div b = a * inverse b" by (simp add: divide_gf_def)
  show "inverse (0 :: gf) = 0" by transfer (simp add: gf256_inverse_def)
qed

end

lemma gf_add_self [simp]: "(a :: gf) + a = 0"
  by transfer simp

lemma Abs_gf_xor: "Abs_gf (a XOR b) = Abs_gf a + Abs_gf b"
  by (simp add: plus_gf.abs_eq eq_onp_same_args)

lemma Abs_gf_multiply: "Abs_gf (gf256_multiply a b) = Abs_gf a * Abs_gf b"
  by (simp add: times_gf.abs_eq eq_onp_same_args)

lemma Abs_gf_inverse_Some: "gf256_inverse a = Some b \<Longrightarrow> Abs_gf b = inverse (Abs_gf a)"
  by (simp add: inverse_gf.abs_eq eq_onp_same_args)

lemma Abs_gf_zero_iff: "Abs_gf a = 0 \<longleftrightarrow> a = 0"
  by (simp add: zero_gf_def Abs_gf_inject)

lemma Abs_gf_eq_iff: "Abs_gf a = Abs_gf b \<longleftrightarrow> a = b"
  by (simp add: Abs_gf_inject)

lemmas Abs_gf_simps = Abs_gf_xor Abs_gf_multiply Abs_gf_zero_iff Abs_gf_eq_iff

section \<open>The tables compute multiplication modulo the field polynomial\<close>

text \<open>Shift-and-add multiplication modulo \<open>x^8 + x^4 + x^3 + x^2 + 1\<close>, with no tables.\<close>

fun schoolbook :: "nat \<Rightarrow> u8 \<Rightarrow> u8 \<Rightarrow> u8" where
  "schoolbook 0 a b = 0"
| "schoolbook (Suc n) a b = (if bit b n then (xtime ^^ n) a else 0) XOR schoolbook n a b"

lemma gpow_small: "n < 8 \<Longrightarrow> gpow n = 2 ^ n"
proof -
  assume "n < 8"
  then have "n \<in> {0, 1, 2, 3, 4, 5, 6, 7}" unfolding insert_iff empty_iff by presburger
  then show ?thesis by (auto simp: xtime_def funpow_numeral_step)
qed

lemma take_bit_Suc_xor: "take_bit (Suc n) (b :: u8) = (if bit b n then 2 ^ n else 0) XOR take_bit n b" if "n < 8"
  using that by (intro bit_word_eqI) (auto simp: bit_simps less_Suc_eq)

lemma schoolbook_take_bit: "n \<le> 8 \<Longrightarrow> schoolbook n a b = gf256_multiply a (take_bit n b)"
proof (induction n)
  case (Suc n)
  then have "gf256_multiply a (2 ^ n) = (xtime ^^ n) a"
    using gf256_multiply_funpow [of n a] gpow_small [of n] by (simp add: gf256_multiply_comm [of a])
  with Suc show ?case by (simp add: take_bit_Suc_xor gf256_multiply_xor)
qed simp

text \<open>
  C40: the logarithm and exponent tables that the code builds implement multiplication in the field of
  256 elements: table multiplication is shift-and-add multiplication modulo the polynomial 0x11d.
\<close>

theorem gf256_multiply_schoolbook: "gf256_multiply a b = schoolbook 8 a b"
  using schoolbook_take_bit [of 8 a b] by (simp add: take_bit_word_eq_self)

text \<open>Bytes under XOR and table multiplication satisfy the field laws the erasure decoder divides by:
  multiplication is commutative, associative and distributes over XOR, and inversion fails on zero only
  and otherwise yields the multiplicative inverse.
\<close>

lemma gf256_field_laws:
  "gf256_multiply a b = gf256_multiply b a
   \<and> gf256_multiply (gf256_multiply a b) c = gf256_multiply a (gf256_multiply b c)
   \<and> gf256_multiply a (b XOR c) = gf256_multiply a b XOR gf256_multiply a c
   \<and> gf256_multiply 1 a = a
   \<and> (case gf256_inverse a of None \<Rightarrow> a = 0 | Some i \<Rightarrow> a \<noteq> 0 \<and> gf256_multiply a i = 1)"
proof -
  have "case gf256_inverse a of None \<Rightarrow> a = 0 | Some i \<Rightarrow> a \<noteq> 0 \<and> gf256_multiply a i = 1"
  proof (cases "a = 0")
    case False
    then show ?thesis by (rule gf256_inverse_Some) (simp add: False)
  qed (simp add: gf256_inverse_def)
  then show ?thesis
    by (intro conjI gf256_multiply_comm gf256_multiply_assoc gf256_multiply_xor gf256_multiply_one)
qed

end
