(* ===== verification/Linear.thy ===== *)
theory Linear
  imports Main
begin

text \<open>
  Square linear systems over a field, as used to justify the erasure decoder: what it means for
  a vector to solve a system, when a coefficient matrix is regular, that linear row operations keep
  both, that a regular matrix reduced up to a column always has a pivot in that column, and that a
  Cauchy matrix is regular. A matrix is a function of row and column, restricted to indices below
  \<open>n\<close>.
\<close>

definition solves :: "nat \<Rightarrow> (nat \<Rightarrow> nat \<Rightarrow> 'a::field) \<Rightarrow> (nat \<Rightarrow> 'a) \<Rightarrow> (nat \<Rightarrow> 'a) \<Rightarrow> bool" where
  "solves n A X B \<longleftrightarrow> (\<forall>i < n. (\<Sum>k < n. A i k * X k) = B i)"

definition regular :: "nat \<Rightarrow> (nat \<Rightarrow> nat \<Rightarrow> 'a::field) \<Rightarrow> bool" where
  "regular n A \<longleftrightarrow> (\<forall>v. solves n A v (\<lambda>_. 0) \<longrightarrow> (\<forall>k < n. v k = 0))"

definition reduced :: "nat \<Rightarrow> nat \<Rightarrow> (nat \<Rightarrow> nat \<Rightarrow> 'a::field) \<Rightarrow> bool" where
  "reduced c n A \<longleftrightarrow> (\<forall>i < n. \<forall>k < c. A i k = (if i = k then 1 else 0))"

section \<open>Linear row operations\<close>

text \<open>
  A row operation acts on every column of the system: it is linear, depends on the rows below
  \<open>n\<close> only, and loses no information.
\<close>

definition row_operation :: "nat \<Rightarrow> ((nat \<Rightarrow> 'a::field) \<Rightarrow> nat \<Rightarrow> 'a) \<Rightarrow> bool" where
  "row_operation n T \<longleftrightarrow>
     (\<forall>f g. \<forall>i < n. T (\<lambda>j. f j + g j) i = T f i + T g i) \<and>
     (\<forall>f a. \<forall>i < n. T (\<lambda>j. f j * a) i = T f i * a) \<and>
     (\<forall>f g. (\<forall>j < n. f j = g j) \<longrightarrow> (\<forall>i < n. T f i = T g i)) \<and>
     (\<forall>f. (\<forall>i < n. T f i = 0) \<longrightarrow> (\<forall>j < n. f j = 0))"

lemma row_operation_add: "row_operation n T \<Longrightarrow> i < n \<Longrightarrow> T (\<lambda>j. f j + g j) i = T f i + T g i"
  and row_operation_mult: "row_operation n T \<Longrightarrow> i < n \<Longrightarrow> T (\<lambda>j. f j * a) i = T f i * a"
  and row_operation_cong: "row_operation n T \<Longrightarrow> (\<And>j. j < n \<Longrightarrow> f j = g j) \<Longrightarrow> i < n \<Longrightarrow> T f i = T g i"
  and row_operation_inj: "row_operation n T \<Longrightarrow> (\<And>i. i < n \<Longrightarrow> T f i = 0) \<Longrightarrow> j < n \<Longrightarrow> f j = 0"
  unfolding row_operation_def by blast+

lemma row_operation_sum:
  assumes "row_operation n T" and "finite S" and "i < n"
  shows "T (\<lambda>j. \<Sum>k \<in> S. A j k * X k) i = (\<Sum>k \<in> S. T (\<lambda>j. A j k) i * X k)"
  using assms(2)
proof (induction S rule: finite_induct)
  case empty
  show ?case using row_operation_mult [OF assms(1,3), of "\<lambda>_. 0" 0] by simp
next
  case (insert x S)
  then show ?case
    using row_operation_add [OF assms(1,3), of "\<lambda>j. A j x * X x" "\<lambda>j. \<Sum>k \<in> S. A j k * X k"]
      row_operation_mult [OF assms(1,3), of "\<lambda>j. A j x" "X x"]
    by simp
qed

lemma row_operation_solves:
  assumes "row_operation n T" and "solves n A X B"
  shows "solves n (\<lambda>i k. T (\<lambda>j. A j k) i) X (T B)"
  unfolding solves_def
proof (intro allI impI)
  fix i assume "i < n"
  have "T (\<lambda>j. \<Sum>k < n. A j k * X k) i = T B i"
    using assms(2) \<open>i < n\<close> by (intro row_operation_cong [OF assms(1)]) (auto simp: solves_def)
  then show "(\<Sum>k < n. T (\<lambda>j. A j k) i * X k) = T B i"
    by (simp add: row_operation_sum [OF assms(1) _ \<open>i < n\<close>])
qed

lemma row_operation_regular:
  assumes T: "row_operation n T" and A: "regular n A"
  shows "regular n (\<lambda>i k. T (\<lambda>j. A j k) i)"
  unfolding regular_def
proof (intro allI impI)
  fix v k
  assume v: "solves n (\<lambda>i k. T (\<lambda>j. A j k) i) v (\<lambda>_. 0)" and "k < n"
  have "T (\<lambda>j. \<Sum>k < n. A j k * v k) i = 0" if "i < n" for i
    using v that unfolding solves_def by (simp add: row_operation_sum [OF T _ that])
  then have "\<forall>j < n. (\<Sum>k < n. A j k * v k) = 0"
    using row_operation_inj [OF T] by blast
  with A \<open>k < n\<close> show "v k = 0" unfolding regular_def solves_def by blast
qed

text \<open>The operation of one pivot step: swap rows, scale the pivot row, clear the column.\<close>

definition pivot_step :: "nat \<Rightarrow> nat \<Rightarrow> 'a \<Rightarrow> (nat \<Rightarrow> 'a) \<Rightarrow> (nat \<Rightarrow> 'a::field) \<Rightarrow> nat \<Rightarrow> 'a" where
  "pivot_step c p s w f i =
     (let g = (\<lambda>j. f (if j = c then p else if j = p then c else j))
      in if i = c then g c * s else g i - w i * (g c * s))"

lemma row_operation_pivot_step:
  assumes "c < n" and "p < n" and "s \<noteq> 0"
  shows "row_operation n (pivot_step c p s w)"
  unfolding row_operation_def
proof (intro conjI allI impI)
  fix f g :: "nat \<Rightarrow> 'a" and a i j
  show "pivot_step c p s w (\<lambda>j. f j + g j) i = pivot_step c p s w f i + pivot_step c p s w g i"
    by (simp add: pivot_step_def Let_def algebra_simps)
  show "pivot_step c p s w (\<lambda>j. f j * a) i = pivot_step c p s w f i * a"
    by (simp add: pivot_step_def Let_def algebra_simps)
  show "\<forall>j < n. f j = g j \<Longrightarrow> i < n \<Longrightarrow> pivot_step c p s w f i = pivot_step c p s w g i"
    using assms by (simp add: pivot_step_def Let_def)
  assume z: "\<forall>i < n. pivot_step c p s w f i = 0" and "j < n"
  have "f p = 0"
    using z assms(1,3) by (auto simp: pivot_step_def)
  have rest: "f (if j = c then p else if j = p then c else j) = 0" if "j < n" for j
    using z that \<open>f p = 0\<close> by (auto simp: pivot_step_def Let_def split: if_splits)
  show "f j = 0"
    using rest [OF \<open>j < n\<close>] rest [OF \<open>c < n\<close>] rest [OF \<open>p < n\<close>]
    by (auto split: if_splits)
qed

section \<open>Pivots exist\<close>

lemma regular_has_pivot:
  assumes "regular n A" and "reduced c n A" and "c < n"
  shows "\<exists>i. c \<le> i \<and> i < n \<and> A i c \<noteq> 0"
proof (rule ccontr)
  assume "\<not> ?thesis"
  then have below: "A i c = 0" if "c \<le> i" "i < n" for i using that by blast
  define v where "v k = (if k = c then 1 else if k < c then - A k c else 0)" for k
  have "(\<Sum>k < n. A i k * v k) = 0" if "i < n" for i
  proof -
    have "(\<Sum>k < n. A i k * v k) = (\<Sum>k < Suc c. A i k * v k)"
      using assms(3) by (intro sum.mono_neutral_right) (auto simp: v_def)
    also have "\<dots> = (\<Sum>k < c. A i k * v k) + A i c"
      by (simp add: v_def)
    also have "(\<Sum>k < c. A i k * v k) = (\<Sum>k < c. if k = i then - A i c else 0)"
      using that assms(2,3) by (intro sum.cong) (auto simp: v_def reduced_def)
    also have "(\<Sum>k < c. if k = i then - A i c else 0) + A i c = (if i < c then - A i c else 0) + A i c"
      by (simp add: sum.delta)
    also have "\<dots> = 0"
      using that below [of i] by simp
    finally show ?thesis .
  qed
  then have "v c = 0"
    using assms(1,3) unfolding regular_def solves_def by blast
  then show False by (simp add: v_def)
qed

lemma reduced_solution: "reduced n n A \<Longrightarrow> solves n A X B \<Longrightarrow> k < n \<Longrightarrow> B k = X k"
proof -
  assume "reduced n n A" and "solves n A X B" and "k < n"
  then have "B k = (\<Sum>j < n. A k j * X j)" by (simp add: solves_def)
  also have "\<dots> = (\<Sum>j < n. if j = k then X k else 0)"
    using \<open>reduced n n A\<close> \<open>k < n\<close> by (intro sum.cong) (auto simp: reduced_def)
  also have "\<dots> = X k" using \<open>k < n\<close> by (simp add: sum.delta)
  finally show ?thesis .
qed

section \<open>Cauchy matrices\<close>

lemma cauchy_kernel:
  fixes x y v :: "nat \<Rightarrow> 'a::field"
  assumes "inj_on x {..<n}" and "inj_on y {..<n}"
    and "\<And>i k. i < n \<Longrightarrow> k < n \<Longrightarrow> x i \<noteq> y k"
    and "\<And>i. i < n \<Longrightarrow> (\<Sum>k < n. v k / (x i - y k)) = 0"
    and "k < n"
  shows "v k = 0"
  using assms
proof (induction n arbitrary: v k)
  case (Suc n)
  define u where "u j = v j * (y j - y n) / (x n - y j)" for j
  have ne: "x i - y j \<noteq> 0" if "i < Suc n" "j < Suc n" for i j
    using Suc.prems(3) [OF that] by simp
  have scaled: "(\<Sum>j < n. v j * (x i - y n) / (x i - y j)) = - v n" if "i < Suc n" for i
  proof -
    have "0 = (x i - y n) * (\<Sum>j < Suc n. v j / (x i - y j))"
      using Suc.prems(4) [OF that] by simp
    also have "\<dots> = (\<Sum>j < n. v j * (x i - y n) / (x i - y j)) + v n"
      using ne [OF that, of n] by (simp add: sum_distrib_left distrib_left mult.commute)
    finally show ?thesis by (simp add: eq_neg_iff_add_eq_0)
  qed
  have rows: "(\<Sum>j < n. u j / (x i - y j)) = 0" if "i < n" for i
  proof -
    have "x n - x i \<noteq> 0"
      using Suc.prems(1) that by (auto dest: inj_onD [of x "{..<Suc n}" n i])
    have "(x n - x i) * (\<Sum>j < n. u j / (x i - y j)) =
        (\<Sum>j < n. v j * (x i - y n) / (x i - y j) - v j * (x n - y n) / (x n - y j))"
      unfolding sum_distrib_left
    proof (intro sum.cong refl)
      fix j assume "j \<in> {..<n}"
      then have "x i - y j \<noteq> 0" "x n - y j \<noteq> 0" using ne that by auto
      then have "v j * (x i - y n) / (x i - y j) - v j * (x n - y n) / (x n - y j) =
          (v j * (x i - y n) * (x n - y j) - v j * (x n - y n) * (x i - y j)) / ((x i - y j) * (x n - y j))"
        by (rule diff_frac_eq)
      also have "v j * (x i - y n) * (x n - y j) - v j * (x n - y n) * (x i - y j) =
          (x n - x i) * (v j * (y j - y n))"
        by (simp add: algebra_simps)
      finally show "(x n - x i) * (u j / (x i - y j)) =
          v j * (x i - y n) / (x i - y j) - v j * (x n - y n) / (x n - y j)"
        by (simp only: u_def times_divide_eq_right divide_divide_eq_left
            mult.commute [of "x i - y j"])
    qed
    also have "\<dots> = 0"
      using scaled [of i] scaled [of n] that by (simp add: sum_subtractf)
    finally show ?thesis using \<open>x n - x i \<noteq> 0\<close> by simp
  qed
  have sub: "{..<n} \<subseteq> {..<Suc n}" by auto
  have u_zero: "u j = 0" if "j < n" for j
    using inj_on_subset [OF Suc.prems(1) sub] inj_on_subset [OF Suc.prems(2) sub] _ rows that
    by (rule Suc.IH) (simp add: Suc.prems(3))
  have small: "v j = 0" if "j < n" for j
  proof -
    have "y j \<noteq> y n"
      using that inj_onD [OF Suc.prems(2), of j n] by auto
    then show ?thesis
      using u_zero [OF that] ne [of n j] that by (simp add: u_def)
  qed
  moreover have "v n = 0"
    using scaled [of n] small by simp
  ultimately show ?case using Suc.prems(5) by (cases "k = n") auto
qed simp

end
