(* ===== verification/NvstTypes.thy ===== *)
theory NvstTypes
  imports Prelude
begin

text \<open>
  The data types of the NVST receive path (\<open>nvst.rs\<close>): codecs, access units, receiver states, drop
  reasons, recovery notices and receive events. Constructors and fields carry the names of the
  source; record fields have a short prefix because field names are global in HOL.
\<close>

section \<open>Addresses\<close>

text \<open>\<open>std::net::IpAddr\<close> by its octets, and \<open>std::net::SocketAddr\<close>.\<close>

datatype IpAddr = V4 bytes | V6 bytes

record SocketAddr =
  sa_ip :: IpAddr
  sa_port :: u16

section \<open>Codecs and access units\<close>

datatype NvstVideoCodec = H264 | H265 | Av1

record EncodedVideoAccessUnit =
  au_codec :: NvstVideoCodec
  au_timestamp :: u32
  au_frame_index :: u32
  au_first_stream_packet_index :: u32
  au_keyframe :: bool
  au_contiguous :: bool
  au_bytes :: bytes

section \<open>Receive decisions\<close>

datatype NvstReceiverState = Running | Paused | RecoveryRequired | Stopped

datatype NvstUnsupportedFeature = FecRepair

datatype RtpParseError =
    TooShort
  | InvalidVersion
  | InvalidCsrcLength
  | InvalidExtensionLength
  | MissingAuthenticationTag
  | InvalidPadding
  | MissingNvVideoHeader

datatype NvstDropReason =
    UnexpectedSource SocketAddr SocketAddr
  | DropPaused
  | DropStopped
  | DropRecoveryRequired
  | MalformedRtp RtpParseError
  | AuthenticationFailed
  | ReplayRejected
  | UnexpectedPayloadType u8 u8
  | UnexpectedSsrc u32 u32
  | StaleRtpPacket nat
  | DuplicateRtpPacket nat
  | Unsupported NvstUnsupportedFeature
  | AwaitingStartOfFrame
  | FrameDiscontinuity
  | MissingAnnexBStartCode
  | InvalidLastPacketPayloadLength nat nat nat
  | AccessUnitTooLarge nat
  | MalformedRedAudio
  | MediaConsumerBackpressured
  | MediaConsumerClosed

datatype NvstRecovery =
    PacketGap nat nat
  | Timeout duration
  | FrameProgress duration "u32 option"

datatype NvstReceiveEvent =
    Frame EncodedVideoAccessUnit
  | TransportReady string
  | InputReady u16
  | InputQueued
  | InputUnavailable string
  | MicrophoneError string
  | Cursor bytes
  | CursorCapture bool
  | Dropped NvstDropReason
  | RecoveryNeeded NvstRecovery
  | FrameProgressStall duration "u32 option" bool
  | FrameProgressResumed
  | Lifecycle NvstReceiverState

record NvstFrameProgressPolicy =
  fp_stall :: duration
  fp_keyframe_grace :: duration

datatype NvstFrameProgressStage = Tracking | KeyframePending | StageRecoveryRequired

record NvstFrameProgress =
  pr_authenticated_packets :: nat
  pr_last_authenticated_packet :: "instant option"
  pr_assembled_frames_total :: nat
  pr_last_assembled_frame_index :: "u32 option"
  pr_last_assembled_at :: "instant option"
  pr_stage :: NvstFrameProgressStage

datatype NvstFrameProgressEvent =
    KeyframeRequested duration "u32 option"
  | ProgressRecoveryNeeded duration "u32 option"

end
