(* ===== verification/Cauchy.thy ===== *)
theory Cauchy
  imports Gf256 Linear NvstTypes
begin

text \<open>
  The systematic Cauchy Reed-Solomon erasure decoder (\<open>reconstruct_nvst_cauchy_data\<close>): the coefficient
  matrix, the subtraction of the known data shards, the in-place Gauss-Jordan elimination over packet
  shards, and the proof that it restores the missing data shards of every block that has as many
  received parity shards as missing data shards.
\<close>

section \<open>Model\<close>

definition nvst_cauchy_coefficient :: "nat \<Rightarrow> nat \<Rightarrow> nat \<Rightarrow> u8 option" where
  "nvst_cauchy_coefficient data_index parity_index parity_shards =
     (if parity_shards + data_index \<le> 255 \<and> parity_index \<le> 255
      then gf256_inverse (of_nat (parity_shards + data_index) XOR of_nat parity_index)
      else None)"

abbreviation unsupported_repair :: NvstDropReason where
  "unsupported_repair \<equiv> Unsupported FecRepair"

fun collect_results :: "('a \<Rightarrow> 'e + 'b) \<Rightarrow> 'a list \<Rightarrow> 'e + 'b list" where
  "collect_results f [] = Inr []"
| "collect_results f (x # xs) =
     (case f x of Inl e \<Rightarrow> Inl e
      | Inr y \<Rightarrow> (case collect_results f xs of Inl e \<Rightarrow> Inl e | Inr ys \<Rightarrow> Inr (y # ys)))"

definition coefficient_or_err :: "nat \<Rightarrow> nat \<Rightarrow> nat \<Rightarrow> NvstDropReason + u8" where
  "coefficient_or_err parity_shards parity_index data_index =
     (case nvst_cauchy_coefficient data_index parity_index parity_shards of
        None \<Rightarrow> Inl unsupported_repair | Some c \<Rightarrow> Inr c)"

text \<open>The inner loop over the data shards: every known shard is added to the parity row.\<close>

fun subtract_known :: "nat \<Rightarrow> nat \<Rightarrow> nat \<Rightarrow> (nat \<times> bytes option) list \<Rightarrow> bytes \<Rightarrow> NvstDropReason + bytes" where
  "subtract_known parity_shards shard_len parity_index [] row = Inr row"
| "subtract_known parity_shards shard_len parity_index ((data_index, None) # rest) row =
     subtract_known parity_shards shard_len parity_index rest row"
| "subtract_known parity_shards shard_len parity_index ((data_index, Some known) # rest) row =
     (case coefficient_or_err parity_shards parity_index data_index of
        Inl e \<Rightarrow> Inl e
      | Inr coefficient \<Rightarrow>
          (let known_len = min (length known) shard_len
           in subtract_known parity_shards shard_len parity_index rest
                (gf256_axpy (take known_len row) (take known_len known) coefficient
                   @ drop known_len row)))"

type_synonym matrix = "bytes list"

definition swap_rows :: "nat \<Rightarrow> nat \<Rightarrow> matrix \<Rightarrow> matrix" where
  "swap_rows i j m = m[i := m ! j, j := m ! i]"

definition eliminate_row :: "nat \<Rightarrow> nat \<Rightarrow> matrix \<times> matrix \<Rightarrow> matrix \<times> matrix" where
  "eliminate_row column row s = (case s of (m, recovered) \<Rightarrow>
     if row = column then (m, recovered)
     else let coefficient = m ! row ! column
          in if coefficient = 0 then (m, recovered)
             else (m[row := take column (m ! row)
                        @ gf256_axpy (drop column (m ! row)) (drop column (m ! column)) coefficient],
                   recovered[row := gf256_axpy (recovered ! row) (recovered ! column) coefficient]))"

definition eliminate_column :: "nat \<Rightarrow> matrix \<times> matrix \<Rightarrow> NvstDropReason + matrix \<times> matrix" where
  "eliminate_column column s = (case s of (m, recovered) \<Rightarrow>
     (case find (\<lambda>row. m ! row ! column \<noteq> 0) [column..<length m] of
        None \<Rightarrow> Inl unsupported_repair
      | Some pivot \<Rightarrow>
          (let m1 = swap_rows column pivot m;
               r1 = swap_rows column pivot recovered
           in case gf256_inverse (m1 ! column ! column) of
                None \<Rightarrow> Inl unsupported_repair
              | Some inverse_c \<Rightarrow>
                  (let m2 = m1[column := take column (m1 ! column)
                                 @ gf256_scale (drop column (m1 ! column)) inverse_c];
                       r2 = r1[column := gf256_scale (r1 ! column) inverse_c]
                   in Inr (fold (eliminate_row column) [0..<length m] (m2, r2))))))"

fun eliminate :: "nat list \<Rightarrow> matrix \<times> matrix \<Rightarrow> NvstDropReason + matrix \<times> matrix" where
  "eliminate [] s = Inr s"
| "eliminate (column # columns) s =
     (case eliminate_column column s of Inl e \<Rightarrow> Inl e | Inr s' \<Rightarrow> eliminate columns s')"

definition missing_data :: "'a option list \<Rightarrow> nat \<Rightarrow> nat list" where
  "missing_data shards data_shards = filter (\<lambda>i. shards ! i = None) [0..<data_shards]"

definition received_parity :: "'a option list \<Rightarrow> nat \<Rightarrow> nat \<Rightarrow> nat list" where
  "received_parity shards data_shards parity_shards =
     filter (\<lambda>i. shards ! (data_shards + i) \<noteq> None) [0..<parity_shards]"

definition coefficient_matrix :: "nat \<Rightarrow> nat list \<Rightarrow> nat list \<Rightarrow> NvstDropReason + matrix" where
  "coefficient_matrix parity_shards parity_rows missing =
     collect_results (\<lambda>parity_index. collect_results (coefficient_or_err parity_shards parity_index) missing)
       parity_rows"

definition parity_remainders ::
    "bytes option list \<Rightarrow> nat \<Rightarrow> nat \<Rightarrow> nat \<Rightarrow> nat list \<Rightarrow> NvstDropReason + matrix" where
  "parity_remainders shards data_shards parity_shards shard_len parity_rows =
     collect_results
       (\<lambda>parity_index. subtract_known parity_shards shard_len parity_index
          (enumerate 0 (take data_shards shards))
          (resize shard_len (the (shards ! (data_shards + parity_index)))))
       parity_rows"

definition restore_shards :: "nat list \<Rightarrow> matrix \<Rightarrow> bytes option list \<Rightarrow> bytes option list" where
  "restore_shards missing recovered shards =
     fold (\<lambda>(i, bs) shards. shards[i := Some bs]) (zip missing recovered) shards"

definition reconstruct_nvst_cauchy_data ::
    "bytes option list \<Rightarrow> nat \<Rightarrow> nat \<Rightarrow> nat \<Rightarrow> NvstDropReason + bytes option list" where
  "reconstruct_nvst_cauchy_data shards data_shards parity_shards shard_len =
     (if data_shards = 0 \<or> parity_shards = 0 \<or> data_shards + parity_shards > 255
         \<or> length shards \<noteq> data_shards + parity_shards
      then Inl unsupported_repair
      else
        let missing = missing_data shards data_shards
        in if missing = [] then Inr shards
        else
          let parity_rows = take (length missing) (received_parity shards data_shards parity_shards)
          in if length parity_rows \<noteq> length missing then Inl unsupported_repair
          else case coefficient_matrix parity_shards parity_rows missing of
            Inl e \<Rightarrow> Inl e
          | Inr m \<Rightarrow>
             (case parity_remainders shards data_shards parity_shards shard_len parity_rows of
               Inl e \<Rightarrow> Inl e
             | Inr recovered \<Rightarrow>
                 (case eliminate [0..<length missing] (m, recovered) of
                    Inl e \<Rightarrow> Inl e
                  | Inr (_, solved) \<Rightarrow> Inr (restore_shards missing solved shards))))"

section \<open>Entries of the vector kernels\<close>

lemma length_gf256_axpy [simp]: "length s \<le> length d \<Longrightarrow> length (gf256_axpy d s c) = length d"
  by (simp add: gf256_axpy_def)

lemma nth_gf256_axpy:
  assumes "length s = length d" and "i < length d"
  shows "gf256_axpy d s c ! i = d ! i XOR gf256_multiply c (s ! i)"
  using assms by (simp add: gf256_axpy_def nth_append)

lemma length_gf256_scale [simp]: "length (gf256_scale bs c) = length bs"
  by (simp add: gf256_scale_def)

lemma nth_gf256_scale: "i < length bs \<Longrightarrow> gf256_scale bs c ! i = gf256_multiply (bs ! i) c"
  by (simp add: gf256_scale_def)

section \<open>One elimination step\<close>

definition ent :: "matrix \<Rightarrow> nat \<Rightarrow> nat \<Rightarrow> gf" where
  "ent m i k = Abs_gf (m ! i ! k)"

definition shape :: "nat \<Rightarrow> nat \<Rightarrow> matrix \<Rightarrow> bool" where
  "shape n w m \<longleftrightarrow> length m = n \<and> (\<forall>i < n. length (m ! i) = w)"

lemma shape_update: "shape n w m \<Longrightarrow> length row = w \<Longrightarrow> shape n w (m[i := row])"
  by (cases "i < n") (auto simp: shape_def nth_list_update list_update_beyond)

lemma shape_swap_rows: "shape n w m \<Longrightarrow> i < n \<Longrightarrow> j < n \<Longrightarrow> shape n w (swap_rows i j m)"
  by (auto simp: shape_def swap_rows_def nth_list_update)

lemma nth_swap_rows:
  "i < length m \<Longrightarrow> j < length m \<Longrightarrow> k < length m \<Longrightarrow>
   swap_rows i j m ! k = m ! (if k = i then j else if k = j then i else k)"
  by (auto simp: swap_rows_def nth_list_update)

definition cleared_row :: "nat \<Rightarrow> matrix \<Rightarrow> nat \<Rightarrow> bytes" where
  "cleared_row c m i =
     (if i = c \<or> m ! i ! c = 0 then m ! i
      else take c (m ! i) @ gf256_axpy (drop c (m ! i)) (drop c (m ! c)) (m ! i ! c))"

definition cleared_shard :: "nat \<Rightarrow> matrix \<Rightarrow> matrix \<Rightarrow> nat \<Rightarrow> bytes" where
  "cleared_shard c m r i =
     (if i = c \<or> m ! i ! c = 0 then r ! i else gf256_axpy (r ! i) (r ! c) (m ! i ! c))"

lemma eliminate_rows:
  assumes "shape n n m" and "shape n l r" and "c < n" and "N \<le> n"
  shows "fold (eliminate_row c) [0..<N] (m, r) =
    (map (\<lambda>i. if i < N then cleared_row c m i else m ! i) [0..<n],
     map (\<lambda>i. if i < N then cleared_shard c m r i else r ! i) [0..<n])"
  using assms(4)
proof (induction N)
  case 0
  then show ?case
    using assms(1,2) by (auto simp: shape_def intro!: nth_equalityI)
next
  case (Suc N)
  then show ?case
    using assms(1-3)
    by (auto simp: eliminate_row_def Let_def cleared_row_def cleared_shard_def shape_def
        nth_list_update less_Suc_eq intro!: nth_equalityI)
qed

lemma cleared_row_entry:
  assumes "shape n n m" and "c < n" and "i < n" and "k < n"
  shows "length (cleared_row c m i) = n"
    and "Abs_gf (cleared_row c m i ! k) =
      (if i = c \<or> k < c then ent m i k else ent m i k + ent m i c * ent m c k)"
proof -
  have len: "length (m ! i) = n" "length (m ! c) = n" using assms by (auto simp: shape_def)
  then show "length (cleared_row c m i) = n"
    using assms by (simp add: cleared_row_def)
  show "Abs_gf (cleared_row c m i ! k) =
      (if i = c \<or> k < c then ent m i k else ent m i k + ent m i c * ent m c k)"
    using len assms
    by (auto simp: cleared_row_def ent_def nth_append nth_gf256_axpy Abs_gf_simps zero_gf_def [symmetric])
qed

lemma cleared_shard_entry:
  assumes "shape n n m" and "shape n l r" and "c < n" and "i < n" and "b < l"
  shows "length (cleared_shard c m r i) = l"
    and "Abs_gf (cleared_shard c m r i ! b) =
      (if i = c then ent r i b else ent r i b + ent m i c * ent r c b)"
proof -
  have len: "length (r ! i) = l" "length (r ! c) = l" using assms by (auto simp: shape_def)
  then show "length (cleared_shard c m r i) = l"
    using assms by (simp add: cleared_shard_def)
  show "Abs_gf (cleared_shard c m r i ! b) =
      (if i = c then ent r i b else ent r i b + ent m i c * ent r c b)"
    using len assms
    by (auto simp: cleared_shard_def ent_def nth_gf256_axpy Abs_gf_simps zero_gf_def [symmetric])
qed

lemma gf_minus: "(a :: gf) - b = a + b"
  by transfer simp

lemma solves_cong:
  assumes "\<And>i k. i < n \<Longrightarrow> k < n \<Longrightarrow> A i k = A' i k" and "\<And>i. i < n \<Longrightarrow> B i = B' i"
  shows "solves n A X B \<longleftrightarrow> solves n A' X B'"
proof -
  have "(\<Sum>k < n. A i k * X k) = (\<Sum>k < n. A' i k * X k)" if "i < n" for i
    using assms(1) [OF that] by (intro sum.cong) auto
  then show ?thesis unfolding solves_def using assms(2) by auto
qed

lemma regular_cong:
  assumes "\<And>i k. i < n \<Longrightarrow> k < n \<Longrightarrow> A i k = A' i k"
  shows "regular n A \<longleftrightarrow> regular n A'"
  unfolding regular_def using solves_cong [of n A A'] assms by simp

lemma eliminate_column_step:
  assumes m: "shape n n m" and r: "shape n l r" and "c < n"
    and red: "reduced c n (ent m)" and reg: "regular n (ent m)"
  shows "\<exists>m' r'. eliminate_column c (m, r) = Inr (m', r') \<and> shape n n m' \<and> shape n l r' \<and>
    reduced (Suc c) n (ent m') \<and> regular n (ent m') \<and>
    (\<forall>X b. b < l \<longrightarrow> solves n (ent m) X (\<lambda>i. ent r i b) \<longrightarrow> solves n (ent m') X (\<lambda>i. ent r' i b))"
proof -
  have "\<exists>row \<in> set [c..<n]. m ! row ! c \<noteq> 0"
    using regular_has_pivot [OF reg red \<open>c < n\<close>] unfolding ent_def Abs_gf_zero_iff by auto
  then obtain p where find: "find (\<lambda>row. m ! row ! c \<noteq> 0) [c..<n] = Some p"
    by (cases "find (\<lambda>row. m ! row ! c \<noteq> 0) [c..<n]") (auto simp: find_None_iff)
  then have p: "c \<le> p" "p < n" "m ! p ! c \<noteq> 0" by (auto simp: find_Some_iff)
  have ln: "length m = n" "length r = n" using m r by (auto simp: shape_def)
  define m1 where "m1 = swap_rows c p m"
  define r1 where "r1 = swap_rows c p r"
  have s1: "shape n n m1" "shape n l r1"
    using shape_swap_rows [OF m \<open>c < n\<close> p(2)] shape_swap_rows [OF r \<open>c < n\<close> p(2)]
    by (simp_all add: m1_def r1_def)
  have m1_nth: "m1 ! i = m ! (if i = c then p else if i = p then c else i)" if "i < n" for i
    using that p \<open>c < n\<close> ln by (simp add: m1_def nth_swap_rows)
  have r1_nth: "r1 ! i = r ! (if i = c then p else if i = p then c else i)" if "i < n" for i
    using that p \<open>c < n\<close> ln by (simp add: r1_def nth_swap_rows)
  obtain v where v: "gf256_inverse (m1 ! c ! c) = Some v"
    using m1_nth [OF \<open>c < n\<close>] p(3) by (metis gf256_inverse_None option.exhaust)
  define t where "t = Abs_gf v"
  have t: "t = inverse (ent m p c)"
    using Abs_gf_inverse_Some [OF v] m1_nth [OF \<open>c < n\<close>] by (simp add: t_def ent_def)
  have t_nz: "t \<noteq> 0" "ent m p c \<noteq> 0" using p(3) by (simp_all add: t ent_def Abs_gf_zero_iff)
  define m2 where "m2 = m1[c := take c (m1 ! c) @ gf256_scale (drop c (m1 ! c)) v]"
  define r2 where "r2 = r1[c := gf256_scale (r1 ! c) v]"
  have s2: "shape n n m2" "shape n l r2"
    unfolding m2_def r2_def using s1 \<open>c < n\<close> by (auto simp: shape_def nth_list_update)
  define m3 where "m3 = map (cleared_row c m2) [0..<n]"
  define r3 where "r3 = map (cleared_shard c m2 r2) [0..<n]"
  have "fold (eliminate_row c) [0..<n] (m2, r2) = (m3, r3)"
    using eliminate_rows [OF s2 \<open>c < n\<close> order.refl]
    by (auto simp: m3_def r3_def intro!: nth_equalityI)
  then have res: "eliminate_column c (m, r) = Inr (m3, r3)"
    unfolding eliminate_column_def prod.case ln find option.case Let_def
      m1_def [symmetric] r1_def [symmetric] v m2_def [symmetric] r2_def [symmetric]
    by simp
  have s3: "shape n n m3" "shape n l r3"
    using cleared_row_entry(1) [OF s2(1) \<open>c < n\<close> _ \<open>c < n\<close>] s2(2) \<open>c < n\<close>
    by (auto simp: shape_def m3_def r3_def cleared_shard_def)
  define w where "w i = ent m2 i c" for i
  have e2: "ent m2 i k = (if i = c then ent m p k * t else ent m (if i = p then c else i) k)"
    if "i < n" "k < n" for i k
    using that s1(1) \<open>c < n\<close> m1_nth red p unfolding t_def
    by (auto simp: ent_def m2_def shape_def nth_list_update nth_append nth_gf256_scale Abs_gf_multiply
        reduced_def)
  have f2: "ent r2 i b = (if i = c then ent r p b * t else ent r (if i = p then c else i) b)"
    if "i < n" "b < l" for i b
    using that s1(2) \<open>c < n\<close> r1_nth unfolding t_def
    by (auto simp: ent_def r2_def shape_def nth_list_update nth_gf256_scale Abs_gf_multiply)
  define T where "T = pivot_step c p t w"
  have op: "row_operation n T"
    unfolding T_def using \<open>c < n\<close> p(2) t_nz(1) by (rule row_operation_pivot_step)
  have e3: "ent m3 i k = (if i = c \<or> k < c then ent m2 i k else ent m2 i k + ent m2 i c * ent m2 c k)"
    if "i < n" "k < n" for i k
    unfolding cleared_row_entry(2) [OF s2(1) \<open>c < n\<close> that, symmetric]
    using that(1) by (simp add: ent_def m3_def)
  have f3: "ent r3 i b = (if i = c then ent r2 i b else ent r2 i b + ent m2 i c * ent r2 c b)"
    if "i < n" "b < l" for i b
    unfolding cleared_shard_entry(2) [OF s2 \<open>c < n\<close> that, symmetric]
    using that(1) by (simp add: ent_def r3_def)
  have col: "ent m3 i k = T (\<lambda>j. ent m j k) i" if "i < n" "k < n" for i k
    using that p \<open>c < n\<close> red
    by (auto simp: T_def pivot_step_def e3 e2 w_def gf_minus reduced_def)
  have rhs: "ent r3 i b = T (\<lambda>j. ent r j b) i" if "i < n" "b < l" for i b
    using that \<open>c < n\<close> by (auto simp: T_def pivot_step_def f3 f2 e2 w_def gf_minus)
  have "reduced (Suc c) n (ent m3)"
    unfolding reduced_def
  proof (intro allI impI)
    fix i k assume "i < n" and "k < Suc c"
    then show "ent m3 i k = (if i = k then 1 else 0)"
      using col [of i k] p \<open>c < n\<close> red t_nz t
      by (cases "k = c") (auto simp: T_def pivot_step_def w_def e2 gf_minus reduced_def)
  qed
  moreover have "regular n (ent m3)"
    using row_operation_regular [OF op reg] col
      regular_cong [of n "ent m3" "\<lambda>i k. T (\<lambda>j. ent m j k) i"] by simp
  moreover have "solves n (ent m3) X (\<lambda>i. ent r3 i b)"
    if "b < l" and "solves n (ent m) X (\<lambda>i. ent r i b)" for X b
    using row_operation_solves [OF op that(2)] col rhs that(1)
      solves_cong [of n "ent m3" "\<lambda>i k. T (\<lambda>j. ent m j k) i" "\<lambda>i. ent r3 i b" "T (\<lambda>i. ent r i b)"]
    by simp
  ultimately show ?thesis using res s3 by blast
qed

lemma eliminate_columns:
  assumes "shape n n m" and "shape n l r" and "c \<le> n"
    and "reduced c n (ent m)" and "regular n (ent m)"
  shows "\<exists>m' r'. eliminate [c..<n] (m, r) = Inr (m', r') \<and> shape n l r' \<and>
    (\<forall>X b. b < l \<longrightarrow> solves n (ent m) X (\<lambda>i. ent r i b) \<longrightarrow> (\<forall>k < n. ent r' k b = X k))"
  using assms
proof (induction "n - c" arbitrary: c m r)
  case 0
  then have "reduced n n (ent m)" "c = n" by simp_all
  then show ?case using 0 reduced_solution [of n "ent m"] by auto
next
  case (Suc d)
  then have "c < n" by simp
  from eliminate_column_step [OF Suc.prems(1,2) this Suc.prems(4,5)]
  obtain m' r' where step: "eliminate_column c (m, r) = Inr (m', r')" and s: "shape n n m'" "shape n l r'"
    and inv: "reduced (Suc c) n (ent m')" "regular n (ent m')"
    and keep: "\<forall>X b. b < l \<longrightarrow> solves n (ent m) X (\<lambda>i. ent r i b) \<longrightarrow> solves n (ent m') X (\<lambda>i. ent r' i b)"
    by blast
  have "d = n - Suc c" "Suc c \<le> n" using Suc.hyps(2) \<open>c < n\<close> by auto
  from Suc.hyps(1) [OF this(1) s this(2) inv] obtain m'' r'' where
    "eliminate [Suc c..<n] (m', r') = Inr (m'', r'')" "shape n l r''"
    "\<forall>X b. b < l \<longrightarrow> solves n (ent m') X (\<lambda>i. ent r' i b) \<longrightarrow> (\<forall>k < n. ent r'' k b = X k)"
    by blast
  then show ?case
    using step keep \<open>c < n\<close> by (auto simp: upt_conv_Cons)
qed

section \<open>The Cauchy coefficients\<close>

definition cgf :: "nat \<Rightarrow> nat \<Rightarrow> nat \<Rightarrow> gf" where
  "cgf p i j = 1 / (Abs_gf (of_nat i) - Abs_gf (of_nat (p + j)))"

lemma xor_zero_iff: "(a :: u8) XOR b = 0 \<longleftrightarrow> a = b"
  by (metis Abs_gf_eq_iff Abs_gf_xor Abs_gf_zero_iff gf_minus right_minus_eq)

lemma of_nat_u8_eq: "i < 256 \<Longrightarrow> j < 256 \<Longrightarrow> (of_nat i :: u8) = of_nat j \<longleftrightarrow> i = j"
  by (simp add: of_nat_eq_iff word_of_nat_eq_iff take_bit_nat_eq_self)

lemma coefficient_Some:
  assumes "i < p" and "j < d" and "d + p \<le> 255"
  obtains c where "nvst_cauchy_coefficient j i p = Some c" and "Abs_gf c = cgf p i j"
proof -
  have "of_nat (p + j) XOR (of_nat i :: u8) \<noteq> 0"
    using assms of_nat_u8_eq [of "p + j" i] by (auto simp: xor_zero_iff)
  then obtain c where c: "gf256_inverse (of_nat (p + j) XOR of_nat i) = Some c"
    by (metis gf256_inverse_None option.exhaust)
  have "Abs_gf c = cgf p i j"
    using Abs_gf_inverse_Some [OF c]
    by (simp add: cgf_def Abs_gf_xor gf_minus inverse_eq_divide add.commute)
  moreover have "nvst_cauchy_coefficient j i p = Some c"
    using assms c by (simp add: nvst_cauchy_coefficient_def)
  ultimately show thesis using that by blast
qed

lemma cauchy_regular:
  assumes "distinct is" and "distinct js" and "length is = n" and "length js = n"
    and "set is \<subseteq> {..<p}" and "set js \<subseteq> {..<d}" and "d + p \<le> 255"
  shows "regular n (\<lambda>i k. cgf p (is ! i) (js ! k))"
  unfolding regular_def
proof (intro allI impI)
  fix v k
  assume s: "solves n (\<lambda>i k. cgf p (is ! i) (js ! k)) v (\<lambda>_. 0)" and "k < n"
  let ?x = "\<lambda>i. Abs_gf (of_nat (is ! i))" and ?y = "\<lambda>k. Abs_gf (of_nat (p + js ! k))"
  have range: "is ! i < p" "js ! i < d" if "i < n" for i
    using that assms(3-6) by (auto simp: subset_iff)
  have eq: "?x i = ?x j \<longleftrightarrow> is ! i = is ! j" "?y i = ?y j \<longleftrightarrow> js ! i = js ! j" "?x i = ?y j \<longleftrightarrow> is ! i = p + js ! j"
    if "i < n" "j < n" for i j
    using range [OF that(1)] range [OF that(2)] assms(7)
    by (auto simp: Abs_gf_eq_iff of_nat_u8_eq simp del: of_nat_add)
  show "v k = 0"
  proof (rule cauchy_kernel [of ?x n ?y])
    show "inj_on ?x {..<n}" "inj_on ?y {..<n}"
      using eq assms(1-4) by (auto simp: inj_on_def nth_eq_iff_index_eq)
    show "?x i \<noteq> ?y k" if "i < n" "k < n" for i k
      using eq(3) [OF that] range [OF that(1)] by simp
    show "(\<Sum>k < n. v k / (?x i - ?y k)) = 0" if "i < n" for i
      using s that by (simp add: solves_def cgf_def)
  qed fact
qed

section \<open>Reconstruction restores the data\<close>

text \<open>Reference encoder: parity shard \<open>i\<close> is the Cauchy combination of the data shards.\<close>

definition cauchy_parity_shard :: "bytes list \<Rightarrow> nat \<Rightarrow> nat \<Rightarrow> nat \<Rightarrow> bytes" where
  "cauchy_parity_shard data parity_shards shard_len parity_index =
     fold (\<lambda>j acc. gf256_axpy acc (data ! j) (the (nvst_cauchy_coefficient j parity_index parity_shards)))
       [0..<length data] (replicate shard_len 0)"

lemma collect_results_Inr:
  "(\<And>x. x \<in> set xs \<Longrightarrow> f x = Inr (g x)) \<Longrightarrow> collect_results f xs = Inr (map g xs)"
  by (induction xs) auto

lemma parity_shard_entry:
  assumes "i < p" and "length data + p \<le> 255" and "\<forall>j < length data. length (data ! j) = l"
  shows "length (cauchy_parity_shard data p l i) = l"
    and "b < l \<Longrightarrow> Abs_gf (cauchy_parity_shard data p l i ! b) = (\<Sum>j < length data. cgf p i j * Abs_gf (data ! j ! b))"
proof -
  let ?f = "\<lambda>j acc. gf256_axpy acc (data ! j) (the (nvst_cauchy_coefficient j i p))"
  have *: "length (fold ?f [0..<k] (replicate l 0)) = l \<and>
      (b < l \<longrightarrow> Abs_gf (fold ?f [0..<k] (replicate l 0) ! b) = (\<Sum>j < k. cgf p i j * Abs_gf (data ! j ! b)))"
    if "k \<le> length data" for k b
    using that
  proof (induction k)
    case 0
    show ?case by (simp add: zero_gf_def)
  next
    case (Suc k)
    then obtain c where "nvst_cauchy_coefficient k i p = Some c" "Abs_gf c = cgf p i k"
      using coefficient_Some [OF assms(1) _ assms(2), of k] by auto
    with Suc assms(3) show ?case
      by (simp add: nth_gf256_axpy Abs_gf_simps)
  qed
  show "length (cauchy_parity_shard data p l i) = l"
    using * [OF order.refl] by (simp add: cauchy_parity_shard_def)
  show "b < l \<Longrightarrow> Abs_gf (cauchy_parity_shard data p l i ! b) = (\<Sum>j < length data. cgf p i j * Abs_gf (data ! j ! b))"
    using * [OF order.refl, of b] by (simp add: cauchy_parity_shard_def)
qed

lemma subtract_known_entry:
  assumes "i < p" and "d + p \<le> 255" and "length row = l"
    and "\<And>j k. (j, Some k) \<in> set xs \<Longrightarrow> j < d \<and> length k = l"
  shows "\<exists>row'. subtract_known p l i xs row = Inr row' \<and> length row' = l \<and>
    (\<forall>b < l. Abs_gf (row' ! b) = Abs_gf (row ! b) +
      sum_list (map (\<lambda>(j, s). case s of None \<Rightarrow> 0 | Some k \<Rightarrow> cgf p i j * Abs_gf (k ! b)) xs))"
  using assms(3,4)
proof (induction xs arbitrary: row)
  case Nil
  then show ?case by simp
next
  case (Cons x xs)
  obtain j s where x: "x = (j, s)" by (cases x)
  show ?case
  proof (cases s)
    case None
    with Cons x show ?thesis by auto
  next
    case (Some known)
    then have j: "j < d" "length known = l" using Cons.prems(2) [of j known] x by auto
    then obtain c where c: "nvst_cauchy_coefficient j i p = Some c" "Abs_gf c = cgf p i j"
      using coefficient_Some [OF assms(1) _ assms(2)] by blast
    define row1 where "row1 = gf256_axpy row known c"
    have r1: "length row1 = l" "\<forall>b < l. Abs_gf (row1 ! b) = Abs_gf (row ! b) + cgf p i j * Abs_gf (known ! b)"
      using j Cons.prems(1) c(2) by (auto simp: row1_def nth_gf256_axpy Abs_gf_simps)
    have "subtract_known p l i (x # xs) row = subtract_known p l i xs row1"
      using c(1) j Cons.prems(1) Some x by (simp add: coefficient_or_err_def row1_def)
    moreover obtain row' where "subtract_known p l i xs row1 = Inr row'" "length row' = l"
      "\<forall>b < l. Abs_gf (row' ! b) = Abs_gf (row1 ! b) +
        sum_list (map (\<lambda>(j, s). case s of None \<Rightarrow> 0 | Some k \<Rightarrow> cgf p i j * Abs_gf (k ! b)) xs)"
    proof -
      have "\<And>j k. (j, Some k) \<in> set xs \<Longrightarrow> j < d \<and> length k = l"
        using Cons.prems(2) by (meson list.set_intros(2))
      from Cons.IH [OF r1(1) this] show ?thesis using that by blast
    qed
    ultimately show ?thesis
      using r1(2) x Some by (auto simp: add.assoc)
  qed
qed

lemma sum_list_enumerate:
  "sum_list (map (\<lambda>(j, s). f j s) (enumerate 0 xs)) = (\<Sum>j < length xs. f j (xs ! j) :: gf)"
  by (simp add: sum_list_sum_nth nth_enumerate_eq atLeast0LessThan)

lemma fold_restore:
  assumes "set is \<subseteq> {..<length xs}" and "j < length xs"
  shows "fold (\<lambda>(i, bs) xs. xs[i := Some bs]) (map (\<lambda>i. (i, f i)) is) xs ! j =
    (if j \<in> set is then Some (f j) else xs ! j)"
  using assms by (induction "is" arbitrary: xs) auto

lemma length_fold_restore:
  "length (fold (\<lambda>(i, bs) xs. xs[i := Some bs]) ps xs) = length xs"
  by (induction ps arbitrary: xs) (auto simp: case_prod_beta)

text \<open>
  The hypotheses of the reconstruction theorem. The decoder works byte position by byte position, and a
  parity packet agrees with the encoding on some positions only (its RTP envelope is its own), so the
  agreement is stated for a set \<open>B\<close> of positions.
\<close>

definition received_shards_on :: "nat set \<Rightarrow> bytes list \<Rightarrow> nat \<Rightarrow> nat \<Rightarrow> bytes option list \<Rightarrow> bool" where
  "received_shards_on B data p l shards \<longleftrightarrow>
     0 < length data \<and> 0 < p \<and> length data + p \<le> 255 \<and>
     (\<forall>j < length data. length (data ! j) = l) \<and>
     length shards = length data + p \<and>
     (\<forall>j < length data. \<forall>s. shards ! j = Some s \<longrightarrow> length s = l \<and> (\<forall>b\<in>B. b < l \<longrightarrow> s ! b = data ! j ! b)) \<and>
     (\<forall>i < p. \<forall>s. shards ! (length data + i) = Some s \<longrightarrow>
        length s = l \<and> (\<forall>b\<in>B. b < l \<longrightarrow> s ! b = cauchy_parity_shard data p l i ! b))"

definition received_shards :: "bytes list \<Rightarrow> nat \<Rightarrow> nat \<Rightarrow> bytes option list \<Rightarrow> bool" where
  "received_shards data p l shards \<longleftrightarrow>
     0 < length data \<and> 0 < p \<and> length data + p \<le> 255 \<and>
     (\<forall>j < length data. length (data ! j) = l) \<and>
     length shards = length data + p \<and>
     (\<forall>j < length data. shards ! j \<in> {None, Some (data ! j)}) \<and>
     (\<forall>i < p. shards ! (length data + i) \<in> {None, Some (cauchy_parity_shard data p l i)})"

lemma received_shards_onD:
  assumes "received_shards_on B data p l shards"
  shows "0 < length data" "0 < p" "length data + p \<le> 255" "length shards = length data + p"
    and "\<forall>j < length data. length (data ! j) = l"
    and "j < length data \<Longrightarrow> shards ! j = Some s \<Longrightarrow> length s = l"
    and "j < length data \<Longrightarrow> shards ! j = Some s \<Longrightarrow> b \<in> B \<Longrightarrow> b < l \<Longrightarrow> s ! b = data ! j ! b"
    and "i < p \<Longrightarrow> shards ! (length data + i) = Some s \<Longrightarrow> length s = l"
    and "i < p \<Longrightarrow> shards ! (length data + i) = Some s \<Longrightarrow> b \<in> B \<Longrightarrow> b < l
      \<Longrightarrow> s ! b = cauchy_parity_shard data p l i ! b"
  using assms by (auto simp: received_shards_on_def)

lemma received_shards_on_all:
  "received_shards data p l shards \<Longrightarrow> received_shards_on UNIV data p l shards"
  using parity_shard_entry(1) [of _ p data l] unfolding received_shards_def received_shards_on_def by fastforce

lemma known_part:
  assumes rs: "received_shards_on B data p l shards" and "i < p" and "b < l" and "b \<in> B"
  shows "Abs_gf (cauchy_parity_shard data p l i ! b) +
      (\<Sum>j < length data. case shards ! j of None \<Rightarrow> 0 | Some k \<Rightarrow> cgf p i j * Abs_gf (k ! b)) =
      sum_list (map (\<lambda>j. cgf p i j * Abs_gf (data ! j ! b)) (missing_data shards (length data)))"
proof -
  note d = received_shards_onD [OF rs]
  have "Abs_gf (cauchy_parity_shard data p l i ! b) +
      (\<Sum>j < length data. case shards ! j of None \<Rightarrow> 0 | Some k \<Rightarrow> cgf p i j * Abs_gf (k ! b)) =
      (\<Sum>j < length data. cgf p i j * Abs_gf (data ! j ! b) +
         (case shards ! j of None \<Rightarrow> 0 | Some k \<Rightarrow> cgf p i j * Abs_gf (k ! b)))"
    using parity_shard_entry(2) [OF assms(2) d(3,5) assms(3)] by (simp add: sum.distrib)
  also have "\<dots> = (\<Sum>j < length data. if shards ! j = None then cgf p i j * Abs_gf (data ! j ! b) else 0)"
  proof (intro sum.cong refl)
    fix j assume j: "j \<in> {..<length data}"
    show "cgf p i j * Abs_gf (data ! j ! b) + (case shards ! j of None \<Rightarrow> 0 | Some k \<Rightarrow> cgf p i j * Abs_gf (k ! b)) =
        (if shards ! j = None then cgf p i j * Abs_gf (data ! j ! b) else 0)"
      using j d(7) [OF _ _ assms(4,3), of j] by (cases "shards ! j") simp_all
  qed
  also have "\<dots> = (\<Sum>j \<in> {j \<in> {..<length data}. shards ! j = None}. cgf p i j * Abs_gf (data ! j ! b))"
    by (rule sum.inter_filter [symmetric]) simp
  also have "{j \<in> {..<length data}. shards ! j = None} = set (missing_data shards (length data))"
    by (auto simp: missing_data_def)
  finally show ?thesis by (simp add: sum_list_distinct_conv_sum_set missing_data_def)
qed

lemma parity_remainder:
  assumes rs: "received_shards_on B data p l shards" and i: "i < p"
    and present: "shards ! (length data + i) \<noteq> None"
  shows "\<exists>row. subtract_known p l i (enumerate 0 (take (length data) shards))
        (resize l (the (shards ! (length data + i)))) = Inr row \<and> length row = l \<and>
      (\<forall>b\<in>B. b < l \<longrightarrow> Abs_gf (row ! b) =
        sum_list (map (\<lambda>j. cgf p i j * Abs_gf (data ! j ! b)) (missing_data shards (length data))))"
proof -
  note d = received_shards_onD [OF rs]
  from present obtain s where s: "shards ! (length data + i) = Some s" by blast
  note len = d(8) [OF i s]
  have row: "resize l (the (shards ! (length data + i))) = s" using s len by (simp add: resize_def)
  have entries: "j < length data \<and> length k = l"
    if "(j, Some k) \<in> set (enumerate 0 (take (length data) shards))" for j k
    using that d(6) [of j k] d(4) by (auto simp: in_set_enumerate_eq)
  have sum: "sum_list (map (\<lambda>(j, s). case s of None \<Rightarrow> 0 | Some k \<Rightarrow> cgf p i j * Abs_gf (k ! b))
        (enumerate 0 (take (length data) shards))) =
      (\<Sum>j < length data. case shards ! j of None \<Rightarrow> 0 | Some k \<Rightarrow> cgf p i j * Abs_gf (k ! b))" for b
    using d(4) by (simp add: sum_list_enumerate min_def)
  obtain row' where row': "subtract_known p l i (enumerate 0 (take (length data) shards)) s = Inr row'"
      "length row' = l"
      "\<forall>b < l. Abs_gf (row' ! b) = Abs_gf (s ! b) +
        sum_list (map (\<lambda>(j, s). case s of None \<Rightarrow> 0 | Some k \<Rightarrow> cgf p i j * Abs_gf (k ! b))
          (enumerate 0 (take (length data) shards)))"
    using subtract_known_entry [OF i d(3) len, of "enumerate 0 (take (length data) shards)"] entries
    by blast
  have "\<forall>b\<in>B. b < l \<longrightarrow> Abs_gf (row' ! b) =
      sum_list (map (\<lambda>j. cgf p i j * Abs_gf (data ! j ! b)) (missing_data shards (length data)))"
    using row'(3) d(9) [OF i s] known_part [OF rs i] unfolding sum by simp
  with row' show ?thesis unfolding row by blast
qed

lemma collect_results_ex:
  assumes "\<And>x. x \<in> set xs \<Longrightarrow> \<exists>y. f x = Inr y \<and> P x y"
  shows "\<exists>ys. collect_results f xs = Inr ys \<and> length ys = length xs \<and> (\<forall>k < length xs. P (xs ! k) (ys ! k))"
  using assms
proof (induction xs)
  case (Cons x xs)
  then obtain y ys where "f x = Inr y" "P x y" "collect_results f xs = Inr ys"
    "length ys = length xs" "\<forall>k < length xs. P (xs ! k) (ys ! k)"
    by (metis list.set_intros)
  then show ?case by (auto simp: nth_Cons split: nat.splits)
qed simp

lemma coefficient_matrix_ex:
  assumes "set is \<subseteq> {..<p}" and "set js \<subseteq> {..<d}" and "d + p \<le> 255" and "length is = length js"
  shows "\<exists>m. coefficient_matrix p is js = Inr m \<and> shape (length js) (length js) m \<and>
    (\<forall>i < length js. \<forall>k < length js. ent m i k = cgf p (is ! i) (js ! k))"
proof -
  have "\<exists>row. collect_results (coefficient_or_err p i) js = Inr row \<and>
      length row = length js \<and> (\<forall>k < length js. Abs_gf (row ! k) = cgf p i (js ! k))"
    if "i \<in> set is" for i
    using that
  proof (intro collect_results_ex)
    fix j assume "j \<in> set js"
    with that assms obtain c where "nvst_cauchy_coefficient j i p = Some c" "Abs_gf c = cgf p i j"
      using coefficient_Some [of i p j d] by auto
    then show "\<exists>y. coefficient_or_err p i j = Inr y \<and> Abs_gf y = cgf p i j"
      by (simp add: coefficient_or_err_def)
  qed
  then have "\<exists>m. collect_results (\<lambda>i. collect_results (coefficient_or_err p i) js) is = Inr m \<and>
      length m = length is \<and> (\<forall>i < length is. length (m ! i) = length js \<and>
        (\<forall>k < length js. Abs_gf (m ! i ! k) = cgf p (is ! i) (js ! k)))"
    by (rule collect_results_ex)
  then show ?thesis
    unfolding coefficient_matrix_def shape_def ent_def assms(4) by blast
qed

lemma missing_data_range: "set (missing_data shards d) \<subseteq> {..<d}" "distinct (missing_data shards d)"
  by (auto simp: missing_data_def)

lemma received_parity_range:
  "set (take n (received_parity shards d p)) \<subseteq> {..<p}" "distinct (take n (received_parity shards d p))"
  "i \<in> set (take n (received_parity shards d p)) \<Longrightarrow> shards ! (d + i) \<noteq> None"
  by (auto simp: received_parity_def dest!: in_set_takeD)

lemma solve_missing:
  assumes rs: "received_shards_on B data p l shards"
    and missing: "missing = missing_data shards (length data)"
    and rows: "rows = take (length missing) (received_parity shards (length data) p)"
    and len: "length rows = length missing"
  shows "\<exists>m r m' r'. coefficient_matrix p rows missing = Inr m \<and>
    parity_remainders shards (length data) p l rows = Inr r \<and>
    eliminate [0..<length missing] (m, r) = Inr (m', r') \<and> shape (length missing) l r' \<and>
    (\<forall>k < length missing. \<forall>b\<in>B. b < l \<longrightarrow> r' ! k ! b = data ! (missing ! k) ! b)"
proof -
  let ?n = "length missing"
  note d = received_shards_onD [OF rs]
  note miss = missing_data_range [of shards "length data", folded missing]
  note rows_p = received_parity_range [where n = ?n and shards = shards and d = "length data" and p = p, folded rows]
  from coefficient_matrix_ex [OF rows_p(1) miss(1) d(3) len] obtain m where
    m: "coefficient_matrix p rows missing = Inr m" "shape ?n ?n m"
    and entm: "\<And>i k. i < ?n \<Longrightarrow> k < ?n \<Longrightarrow> ent m i k = cgf p (rows ! i) (missing ! k)" by blast
  have "\<exists>r. parity_remainders shards (length data) p l rows = Inr r \<and> length r = length rows \<and>
      (\<forall>k < length rows. length (r ! k) = l \<and> (\<forall>b\<in>B. b < l \<longrightarrow> Abs_gf (r ! k ! b) =
        sum_list (map (\<lambda>j. cgf p (rows ! k) j * Abs_gf (data ! j ! b)) missing)))"
    unfolding parity_remainders_def missing
    by (rule collect_results_ex) (use rows_p in \<open>intro parity_remainder [OF rs], auto\<close>)
  then obtain r where r: "parity_remainders shards (length data) p l rows = Inr r" "shape ?n l r"
    and entr: "\<And>k b. k < ?n \<Longrightarrow> b < l \<Longrightarrow> b \<in> B \<Longrightarrow> ent r k b =
        sum_list (map (\<lambda>j. cgf p (rows ! k) j * Abs_gf (data ! j ! b)) missing)"
    using len by (auto simp: shape_def ent_def)
  have reg: "regular ?n (ent m)"
    using cauchy_regular [OF rows_p(2) miss(2) len refl rows_p(1) miss(1) d(3)] entm
      regular_cong [of ?n "ent m" "\<lambda>i k. cgf p (rows ! i) (missing ! k)"] by simp
  have sol: "solves ?n (ent m) (\<lambda>k. Abs_gf (data ! (missing ! k) ! b)) (\<lambda>i. ent r i b)" if "b < l" "b \<in> B" for b
    using that entm entr by (auto simp: solves_def sum_list_sum_nth atLeast0LessThan intro!: sum.cong)
  have red: "reduced 0 ?n (ent m)" by (simp add: reduced_def)
  from eliminate_columns [OF m(2) r(2) le0 red reg] obtain m' r' where
    el: "eliminate [0..<?n] (m, r) = Inr (m', r')" and s': "shape ?n l r'"
    and "\<forall>X b. b < l \<longrightarrow> solves ?n (ent m) X (\<lambda>i. ent r i b) \<longrightarrow> (\<forall>k < ?n. ent r' k b = X k)"
    by blast
  then have "ent r' k b = Abs_gf (data ! (missing ! k) ! b)" if "k < ?n" "b \<in> B" "b < l" for k b
    using sol [OF that(3,2)] that by blast
  then have "\<forall>k < ?n. \<forall>b\<in>B. b < l \<longrightarrow> r' ! k ! b = data ! (missing ! k) ! b"
    by (auto simp: ent_def Abs_gf_eq_iff)
  with m(1) r(1) el s' show ?thesis by blast
qed

lemma length_restore: "length (restore_shards missing r shards) = length shards"
  by (simp add: restore_shards_def length_fold_restore)

lemma restore_nth:
  assumes "distinct missing" and "set missing \<subseteq> {..<length shards}" and "length r = length missing"
    and "j < length shards"
  shows "restore_shards missing r shards ! j =
    (if \<exists>k < length missing. missing ! k = j then Some (r ! (THE k. k < length missing \<and> missing ! k = j)) else shards ! j)"
proof -
  let ?at = "\<lambda>j. THE k. k < length missing \<and> missing ! k = j"
  have at: "?at (missing ! k) = k" if "k < length missing" for k
    using that assms(1) by (intro the_equality) (auto simp: nth_eq_iff_index_eq)
  have "zip missing r = map (\<lambda>i. (i, r ! ?at i)) missing"
    using assms(3) at by (intro nth_equalityI) auto
  then show ?thesis
    using fold_restore [OF assms(2,4), of "\<lambda>i. r ! ?at i"] by (simp add: restore_shards_def in_set_conv_nth)
qed

lemma restored_entries:
  assumes rs: "received_shards_on B data p l shards" and missing: "missing = missing_data shards (length data)"
    and r: "shape (length missing) l r" "\<forall>k < length missing. \<forall>b\<in>B. b < l \<longrightarrow> r ! k ! b = data ! (missing ! k) ! b"
    and j: "j < length data"
  shows "\<exists>bs. restore_shards missing r shards ! j = Some bs \<and> length bs = l \<and>
    (\<forall>b\<in>B. b < l \<longrightarrow> bs ! b = data ! j ! b) \<and> (shards ! j \<noteq> None \<longrightarrow> shards ! j = Some bs)"
proof -
  note d = received_shards_onD [OF rs]
  have dist: "distinct missing" and sub: "set missing \<subseteq> {..<length shards}" and len: "length r = length missing"
    using missing_data_range [of shards "length data"] missing d(4) r(1) by (auto simp: shape_def)
  note nth = restore_nth [OF dist sub len, of j]
  show ?thesis
  proof (cases "shards ! j")
    case None
    then have "j \<in> set missing" using j missing by (simp add: missing_data_def)
    then obtain k where k: "k < length missing" "missing ! k = j" by (auto simp: in_set_conv_nth)
    then have "(THE k. k < length missing \<and> missing ! k = j) = k"
      using dist by (intro the_equality) (auto simp: nth_eq_iff_index_eq)
    with nth k j d(4) have "restore_shards missing r shards ! j = Some (r ! k)" by auto
    with k r None show ?thesis by (auto simp: shape_def)
  next
    case (Some s)
    then have "j \<notin> set missing" using missing by (simp add: missing_data_def)
    then have "restore_shards missing r shards ! j = Some s"
      using nth j d(4) Some by (auto simp: in_set_conv_nth)
    with Some d(6,7) [OF j Some] show ?thesis by simp
  qed
qed

text \<open>The decoder succeeds, fills every data slot and is right on every position of \<open>B\<close>.\<close>

lemma reconstruct_on:
  assumes rs: "received_shards_on B data p l shards"
    and enough: "length (missing_data shards (length data)) \<le> length (received_parity shards (length data) p)"
  shows "\<exists>out. reconstruct_nvst_cauchy_data shards (length data) p l = Inr out \<and> length out = length shards \<and>
    (\<forall>j < length data. \<exists>bs. out ! j = Some bs \<and> length bs = l \<and> (\<forall>b\<in>B. b < l \<longrightarrow> bs ! b = data ! j ! b) \<and>
       (shards ! j \<noteq> None \<longrightarrow> shards ! j = Some bs)) \<and>
    (\<forall>j. length data \<le> j \<longrightarrow> j < length shards \<longrightarrow> out ! j = shards ! j)"
proof -
  let ?missing = "missing_data shards (length data)"
  note d = received_shards_onD [OF rs]
  have len: "length (take (length ?missing) (received_parity shards (length data) p)) = length ?missing"
    using enough by simp
  show ?thesis
  proof (cases "?missing = []")
    case True
    then have "\<forall>j < length data. shards ! j \<noteq> None" by (simp add: missing_data_def filter_empty_conv)
    with True d show ?thesis by (auto simp: reconstruct_nvst_cauchy_data_def)
  next
    case False
    from solve_missing [OF rs refl refl len] obtain m r m' r' where
      sol: "coefficient_matrix p (take (length ?missing) (received_parity shards (length data) p)) ?missing = Inr m"
      "parity_remainders shards (length data) p l (take (length ?missing) (received_parity shards (length data) p)) = Inr r"
      "eliminate [0..<length ?missing] (m, r) = Inr (m', r')"
      and r': "shape (length ?missing) l r'"
      "\<forall>k < length ?missing. \<forall>b\<in>B. b < l \<longrightarrow> r' ! k ! b = data ! (?missing ! k) ! b" by blast
    have "reconstruct_nvst_cauchy_data shards (length data) p l = Inr (restore_shards ?missing r' shards)"
      using False d len sol by (auto simp: reconstruct_nvst_cauchy_data_def Let_def)
    moreover have "restore_shards ?missing r' shards ! j = shards ! j" if "length data \<le> j" "j < length shards" for j
    proof -
      have "j \<notin> set ?missing" using that(1) missing_data_range(1) [of shards "length data"] by auto
      moreover have "set ?missing \<subseteq> {..<length shards}" "length r' = length ?missing"
        using missing_data_range(1) [of shards "length data"] d(4) r'(1) by (auto simp: shape_def)
      ultimately show ?thesis
        using restore_nth [OF missing_data_range(2) [of shards "length data"] _ _ that(2)] by (auto simp: in_set_conv_nth)
    qed
    ultimately show ?thesis
      using restored_entries [OF rs refl r'] by (auto simp: length_restore)
  qed
qed

text \<open>
  C4: a received FEC block whose present shards agree with an encoding of \<open>data\<close>, and which has at
  least as many received parity shards as missing data shards, is repaired: reconstruction succeeds
  and yields exactly the original data shards, leaving the parity slots as they were.
\<close>

theorem reconstruct_restores_data:
  assumes rs: "received_shards data p l shards"
    and enough: "length (missing_data shards (length data)) \<le> length (received_parity shards (length data) p)"
  shows "reconstruct_nvst_cauchy_data shards (length data) p l =
    Inr (map Some data @ drop (length data) shards)"
proof -
  note on = received_shards_on_all [OF rs]
  from reconstruct_on [OF on enough] obtain out where
    out: "reconstruct_nvst_cauchy_data shards (length data) p l = Inr out" "length out = length shards"
    and restored: "\<And>j. j < length data \<Longrightarrow> \<exists>bs. out ! j = Some bs \<and> length bs = l \<and> (\<forall>b < l. bs ! b = data ! j ! b)"
    and rest: "\<And>j. length data \<le> j \<Longrightarrow> j < length shards \<Longrightarrow> out ! j = shards ! j"
    by (metis UNIV_I)
  have "out ! j = Some (data ! j)" if "j < length data" for j
    using restored [OF that] received_shards_onD(5) [OF on] that by (auto intro!: nth_equalityI)
  then have "out = map Some data @ drop (length data) shards"
    using out(2) rest received_shards_onD(4) [OF on] by (intro nth_equalityI) (auto simp: nth_append)
  with out(1) show ?thesis by simp
qed

theorem reconstruct_restores_data_witness:
  "reconstruct_nvst_cauchy_data [None, Some [3], Some (cauchy_parity_shard [[5], [3]] 2 1 0), None] 2 2 1 =
     Inr [Some [5], Some [3], Some (cauchy_parity_shard [[5], [3]] 2 1 0), None]"
proof -
  let ?shards = "[None, Some [3], Some (cauchy_parity_shard [[5], [3]] 2 1 0), None]"
  have "received_shards [[5], [3]] 2 1 ?shards"
    by (simp add: received_shards_def All_less_Suc numeral_2_eq_2)
  moreover have "missing_data ?shards 2 = [0]" "received_parity ?shards 2 2 = [0]"
    by (simp_all add: missing_data_def received_parity_def upt_rec)
  ultimately show ?thesis
    using reconstruct_restores_data [of "[[5], [3]]" 2 1 ?shards] by (simp add: numeral_2_eq_2)
qed

text \<open>
  On shards of one length the decoder fails exactly when the shape is not supported (no data, no
  parity, more than 255 shards, a wrong number of slots) or fewer parity shards arrived than data shards
  are missing. The pivot search and the inversions inside it never fail.
\<close>

theorem reconstruct_succeeds_iff:
  assumes "\<forall>s. Some s \<in> set shards \<longrightarrow> length s = l"
  shows "(\<exists>out. reconstruct_nvst_cauchy_data shards d p l = Inr out) \<longleftrightarrow>
    0 < d \<and> 0 < p \<and> d + p \<le> 255 \<and> length shards = d + p
    \<and> length (missing_data shards d) \<le> length (received_parity shards d p)"
proof (cases "0 < d \<and> 0 < p \<and> d + p \<le> 255 \<and> length shards = d + p")
  case True
  let ?data = "replicate d (replicate l 0)"
  from True assms have on: "received_shards_on {} ?data p l shards"
    by (auto simp: received_shards_on_def) (metis nth_mem trans_less_add1, metis nat_add_left_cancel_less nth_mem)
  have "length (missing_data shards d) \<le> length (received_parity shards d p)" (is ?enough)
    if "reconstruct_nvst_cauchy_data shards d p l = Inr out" for out
    using that True by (auto simp: reconstruct_nvst_cauchy_data_def Let_def split: if_splits)
  moreover have "\<exists>out. reconstruct_nvst_cauchy_data shards d p l = Inr out" if ?enough
    using reconstruct_on [OF on] that by auto
  ultimately show ?thesis using True by blast
qed (auto simp: reconstruct_nvst_cauchy_data_def)

theorem reconstruct_succeeds_iff_witness:
  "\<not> (\<exists>out. reconstruct_nvst_cauchy_data [None, Some [3], None] 2 1 1 = Inr out)"
  using reconstruct_succeeds_iff [of "[None, Some [3], None]" 1 2 1]
  by (simp add: missing_data_def received_parity_def upt_rec)

end
