(* ===== verification/Rtp.thy ===== *)
theory Rtp
  imports NvstTypes
begin

text \<open>
  RTP framing of the NVST video stream: the fixed header and extension parser (\<open>RtpHeader::parse\<close>), the
  payload slice, the GameStream metadata of the \<open>0x4753\<close> extension (\<open>NvVideoPacket\<close>), and the layout
  of a packet inside its FEC block (\<open>FecPacketLayout\<close>). The lemmas bound every offset that later stages
  use to slice a packet, and relate the two readings of the FEC word.
\<close>

section \<open>RTP header\<close>

definition RTP_FIXED_HEADER_LEN :: nat where "RTP_FIXED_HEADER_LEN = 12"
definition NV_VIDEO_PACKET_LEN :: nat where "NV_VIDEO_PACKET_LEN = 16"
definition GS_VIDEO_EXTENSION_PROFILE :: u16 where "GS_VIDEO_EXTENSION_PROFILE = 0x4753"
definition STREAM_PACKET_INDEX_MASK :: u32 where "STREAM_PACKET_INDEX_MASK = 0x00ffffff"
definition FLAG_CONTAINS_PIC_DATA :: u8 where "FLAG_CONTAINS_PIC_DATA = 1"
definition FLAG_EOF :: u8 where "FLAG_EOF = 2"
definition FLAG_SOF :: u8 where "FLAG_SOF = 4"

lemmas rtp_consts = RTP_FIXED_HEADER_LEN_def NV_VIDEO_PACKET_LEN_def GS_VIDEO_EXTENSION_PROFILE_def

record RtpHeader =
  rh_payload_type :: u8
  rh_sequence_number :: u16
  rh_timestamp :: u32
  rh_ssrc :: u32
  rh_payload_offset :: nat
  rh_has_padding :: bool
  rh_gs_video_header :: "bytes option"

definition be16_at :: "bytes \<Rightarrow> nat \<Rightarrow> u16" where
  "be16_at p i = from_be16 (p ! i) (p ! (i + 1))"

definition be32_at :: "bytes \<Rightarrow> nat \<Rightarrow> u32" where
  "be32_at p i = from_be32 (p ! i) (p ! (i + 1)) (p ! (i + 2)) (p ! (i + 3))"

definition le32_at :: "bytes \<Rightarrow> nat \<Rightarrow> u32" where
  "le32_at p i = from_le32 (p ! i) (p ! (i + 1)) (p ! (i + 2)) (p ! (i + 3))"

text \<open>The extension block: its end and, for the GameStream profile, its sixteen bytes.\<close>

definition parse_extension :: "bytes \<Rightarrow> nat \<Rightarrow> RtpParseError + nat \<times> bytes option" where
  "parse_extension packet payload_offset =
     (if length packet < payload_offset + 4 then Inl InvalidExtensionLength
      else let profile = be16_at packet payload_offset;
               words = unat (be16_at packet (payload_offset + 2));
               extension_end = payload_offset + (words * 4 + 4)
           in if length packet < extension_end then Inl InvalidExtensionLength
              else if profile = GS_VIDEO_EXTENSION_PROFILE
              then if words * 4 \<noteq> NV_VIDEO_PACKET_LEN then Inl InvalidExtensionLength
                   else Inr (extension_end,
                          Some (take NV_VIDEO_PACKET_LEN (drop (payload_offset + 4) packet)))
              else Inr (extension_end, None))"

definition RtpHeader_parse :: "bytes \<Rightarrow> RtpParseError + RtpHeader" where
  "RtpHeader_parse packet =
     (if length packet < RTP_FIXED_HEADER_LEN then Inl TooShort
      else let first = packet ! 0 in
        if drop_bit 6 first \<noteq> 2 then Inl InvalidVersion
        else let csrc_count = unat (first AND 0x0f);
                 payload_offset = RTP_FIXED_HEADER_LEN + csrc_count * 4
        in if length packet < payload_offset then Inl InvalidCsrcLength
        else case (if first AND 0x10 \<noteq> 0 then parse_extension packet payload_offset
                   else Inr (payload_offset, None)) of
          Inl e \<Rightarrow> Inl e
        | Inr (offset, gs) \<Rightarrow>
            Inr \<lparr> rh_payload_type = packet ! 1 AND 0x7f,
                  rh_sequence_number = be16_at packet 2,
                  rh_timestamp = be32_at packet 4,
                  rh_ssrc = be32_at packet 8,
                  rh_payload_offset = offset,
                  rh_has_padding = (first AND 0x20 \<noteq> 0),
                  rh_gs_video_header = gs \<rparr>)"

definition RtpHeader_payload :: "RtpHeader \<Rightarrow> bytes \<Rightarrow> RtpParseError + bytes" where
  "RtpHeader_payload h packet =
     (if length packet < rh_payload_offset h then Inl TooShort
      else if rh_has_padding h
      then if packet = [] then Inl InvalidPadding
           else let padding = unat (last packet)
                in if padding = 0 \<or> padding > length packet - rh_payload_offset h
                   then Inl InvalidPadding
                   else Inr (drop (rh_payload_offset h) (take (length packet - padding) packet))
      else Inr (drop (rh_payload_offset h) packet))"

datatype RtpPacketOrigin = Authenticated | RecoveredData

record RtpPacket =
  pk_index :: nat
  pk_header :: RtpHeader
  pk_plaintext :: bytes
  pk_origin :: RtpPacketOrigin

section \<open>GameStream video metadata\<close>

record NvVideoPacket =
  nv_stream_packet_index :: u32
  nv_frame_index :: u32
  nv_flags :: u8
  nv_fec_current_block :: u8
  nv_fec_last_block :: u8
  nv_is_fec :: bool

definition NvVideoPacket_parse :: "RtpHeader \<Rightarrow> bytes \<Rightarrow> RtpParseError + NvVideoPacket \<times> bytes" where
  "NvVideoPacket_parse header payload =
     (case rh_gs_video_header header of
        None \<Rightarrow> Inl MissingNvVideoHeader
      | Some extension \<Rightarrow>
          let packet_word = le32_at extension 0;
              flags_word = le32_at extension 8;
              fec_word = le32_at extension 12;
              multi_fec_blocks = extension ! 11;
              fec_percentage = drop_bit 4 fec_word AND 0xff;
              fec_index = drop_bit 12 fec_word AND 0x3ff;
              fec_source_packets = drop_bit 22 fec_word AND 0x3ff
          in Inr (\<lparr> nv_stream_packet_index = drop_bit 8 packet_word AND STREAM_PACKET_INDEX_MASK,
                    nv_frame_index = le32_at extension 4,
                    nv_flags = ucast (flags_word AND 0x0f),
                    nv_fec_current_block = drop_bit 4 multi_fec_blocks AND 0x03,
                    nv_fec_last_block = drop_bit 6 multi_fec_blocks AND 0x03,
                    nv_is_fec = (fec_percentage \<noteq> 0 \<and> fec_index \<ge> fec_source_packets) \<rparr>, payload))"

definition is_start_of_frame :: "NvVideoPacket \<Rightarrow> bool" where
  "is_start_of_frame p \<longleftrightarrow> nv_flags p AND FLAG_SOF \<noteq> 0 \<and> nv_fec_current_block p = 0"

definition is_end_of_frame :: "NvVideoPacket \<Rightarrow> bool" where
  "is_end_of_frame p \<longleftrightarrow>
     nv_flags p AND FLAG_EOF \<noteq> 0 \<and> nv_fec_current_block p = nv_fec_last_block p"

section \<open>Position of a packet in its FEC block\<close>

record FecPacketLayout =
  fl_frame_index :: u32
  fl_block_index :: u8
  fl_last_block_index :: u8
  fl_shard_index :: nat
  fl_data_shards :: nat
  fl_parity_shards :: nat

definition FecPacketLayout_from_packet :: "RtpPacket \<Rightarrow> FecPacketLayout option" where
  "FecPacketLayout_from_packet packet =
     (case rh_gs_video_header (pk_header packet) of
        None \<Rightarrow> None
      | Some extension \<Rightarrow>
          let frame_index = le32_at extension 4;
              fec_word = le32_at extension 12;
              repair_percent = unat (drop_bit 4 fec_word AND 0xff);
              shard_index = unat (drop_bit 12 fec_word AND 0x3ff);
              data_shards = unat (drop_bit 22 fec_word AND 0x3ff)
          in if data_shards = 0 \<or> repair_percent = 0 then None
             else let parity_shards = div_ceil (data_shards * repair_percent) 100;
                      total_shards = data_shards + parity_shards
                  in if parity_shards = 0 \<or> shard_index \<ge> total_shards \<or> total_shards > 1023 then None
                     else Some \<lparr> fl_frame_index = frame_index,
                                 fl_block_index = drop_bit 4 (extension ! 11) AND 0x03,
                                 fl_last_block_index = drop_bit 6 (extension ! 11) AND 0x03,
                                 fl_shard_index = shard_index,
                                 fl_data_shards = data_shards,
                                 fl_parity_shards = parity_shards \<rparr>)"

section \<open>Bounds\<close>

lemma parse_extension_bounds:
  assumes "parse_extension packet off = Inr (off', gs)"
  shows "off + 4 \<le> off'" and "off' \<le> length packet" and "off' < off + 4 * 65536 + 4"
    and "4 dvd off \<Longrightarrow> 4 dvd off'"
    and "gs = Some e \<Longrightarrow> length e = 16 \<and> off' = off + 20 \<and> e = take 16 (drop (off + 4) packet)"
proof -
  define words where "words = unat (be16_at packet (off + 2))"
  have w: "words < 65536" using unsigned_less [of "be16_at packet (off + 2)"] by (simp add: words_def)
  have off': "off' = off + (words * 4 + 4)" and le: "off' \<le> length packet"
    and gs: "gs = Some e \<Longrightarrow> words * 4 = 16 \<and> e = take 16 (drop (off + 4) packet)"
    using assms
    by (auto simp: parse_extension_def Let_def rtp_consts words_def split: if_splits)
  show "off + 4 \<le> off'" "off' \<le> length packet" "off' < off + 4 * 65536 + 4"
    using off' le w by auto
  show "4 dvd off \<Longrightarrow> 4 dvd off'" using off' by presburger
  show "gs = Some e \<Longrightarrow> length e = 16 \<and> off' = off + 20 \<and> e = take 16 (drop (off + 4) packet)"
    using gs off' le by auto
qed

lemma unat_and_le: "unat (a AND b) \<le> unat (b :: 'a::len word)"
  using word_and_le1 [of a b] by (simp add: word_le_nat_alt)

lemma RtpHeader_parse_cases:
  assumes "RtpHeader_parse packet = Inr h"
  obtains csrc offset gs where "csrc \<le> 15" and "12 + csrc * 4 \<le> length packet"
    and "(offset = 12 + csrc * 4 \<and> gs = None) \<or> parse_extension packet (12 + csrc * 4) = Inr (offset, gs)"
    and "h = \<lparr> rh_payload_type = packet ! 1 AND 0x7f, rh_sequence_number = be16_at packet 2,
               rh_timestamp = be32_at packet 4, rh_ssrc = be32_at packet 8, rh_payload_offset = offset,
               rh_has_padding = (packet ! 0 AND 0x20 \<noteq> 0), rh_gs_video_header = gs \<rparr>"
proof -
  define csrc where "csrc = unat (packet ! 0 AND 0x0f)"
  have "csrc \<le> 15" using unat_and_le [of "packet ! 0" "0x0f"] by (simp add: csrc_def)
  moreover have "12 + csrc * 4 \<le> length packet"
    using assms
    by (auto simp: RtpHeader_parse_def Let_def rtp_consts csrc_def split: if_splits)
  moreover obtain offset gs where
    "(offset = 12 + csrc * 4 \<and> gs = None) \<or> parse_extension packet (12 + csrc * 4) = Inr (offset, gs)"
    and "h = \<lparr> rh_payload_type = packet ! 1 AND 0x7f, rh_sequence_number = be16_at packet 2,
               rh_timestamp = be32_at packet 4, rh_ssrc = be32_at packet 8, rh_payload_offset = offset,
               rh_has_padding = (packet ! 0 AND 0x20 \<noteq> 0), rh_gs_video_header = gs \<rparr>"
    using assms
    by (auto simp: RtpHeader_parse_def Let_def rtp_consts csrc_def [symmetric]
        split: if_splits sum.splits prod.splits)
  ultimately show thesis by (rule that)
qed

lemma RtpHeader_parse_offset:
  assumes "RtpHeader_parse packet = Inr h"
  shows "12 \<le> rh_payload_offset h" and "rh_payload_offset h \<le> length packet"
    and "4 dvd rh_payload_offset h" and "rh_payload_offset h \<le> 76 + 4 * 65536"
    and "rh_gs_video_header h = Some e \<Longrightarrow>
      length e = 16 \<and> 32 \<le> rh_payload_offset h \<and> e = take 16 (drop (rh_payload_offset h - 16) packet)"
proof -
  from assms obtain csrc offset gs where c: "csrc \<le> 15" "12 + csrc * 4 \<le> length packet"
    and ext: "(offset = 12 + csrc * 4 \<and> gs = None) \<or> parse_extension packet (12 + csrc * 4) = Inr (offset, gs)"
    and h: "rh_payload_offset h = offset" "rh_gs_video_header h = gs"
    by (rule RtpHeader_parse_cases) auto
  have d: "4 dvd 12 + csrc * 4" by presburger
  from ext show "12 \<le> rh_payload_offset h" "rh_payload_offset h \<le> length packet"
    "4 dvd rh_payload_offset h" "rh_payload_offset h \<le> 76 + 4 * 65536"
    using c d h parse_extension_bounds(1-4) [of packet "12 + csrc * 4" offset gs] by auto
  show "rh_gs_video_header h = Some e \<Longrightarrow>
      length e = 16 \<and> 32 \<le> rh_payload_offset h \<and> e = take 16 (drop (rh_payload_offset h - 16) packet)"
    using ext c h parse_extension_bounds(5) [of packet "12 + csrc * 4" offset gs e] by auto
qed

text \<open>The reference serialiser of a GameStream video packet, used to state that parsing inverts it.\<close>

definition gs_datagram :: "nat \<Rightarrow> bytes \<Rightarrow> bool \<Rightarrow> u8 \<Rightarrow> u16 \<Rightarrow> u32 \<Rightarrow> u32 \<Rightarrow> bytes \<Rightarrow> bytes \<Rightarrow> bytes" where
  "gs_datagram n csrcs marker payload_type seq ts ssrc extension payload =
     [0x90 OR of_nat n, (if marker then 0x80 else 0) OR payload_type] @ be16 seq @ be32 ts @ be32 ssrc
       @ csrcs @ be16 GS_VIDEO_EXTENSION_PROFILE @ be16 4 @ extension @ payload"

lemma first_byte:
  assumes "n < 16"
  shows "drop_bit 6 (0x90 OR of_nat n :: u8) = 2" "unat ((0x90 OR of_nat n) AND 0x0f :: u8) = n"
proof -
  from assms have "n \<in> {0, 1, 2, 3, 4, 5, 6, 7, 8, 9, 10, 11, 12, 13, 14, 15}"
    unfolding insert_iff empty_iff by presburger
  then show "drop_bit 6 (0x90 OR of_nat n :: u8) = 2" "unat ((0x90 OR of_nat n) AND 0x0f :: u8) = n"
    by auto
qed

lemma first_byte_bits:
  assumes "n < 16"
  shows "(0x90 OR of_nat n) AND 0x10 \<noteq> (0 :: u8)" "(0x90 OR of_nat n) AND 0x20 = (0 :: u8)"
proof -
  from assms have "n \<in> {0, 1, 2, 3, 4, 5, 6, 7, 8, 9, 10, 11, 12, 13, 14, 15}"
    unfolding insert_iff empty_iff by presburger
  then show "(0x90 OR of_nat n) AND 0x10 \<noteq> (0 :: u8)" "(0x90 OR of_nat n) AND 0x20 = (0 :: u8)"
    by auto
qed

lemma payload_type_mask: "pt < 128 \<Longrightarrow> ((if marker then 0x80 else 0) OR pt) AND 0x7f = (pt :: u8)"
proof -
  assume "pt < 128"
  then have "unat pt < 2 ^ 7" by (simp add: word_less_nat_alt)
  then have t: "take_bit 7 pt = pt"
    by (simp add: word_eq_iff_unsigned [where 'a = nat] unsigned_take_bit_eq take_bit_nat_eq_self)
  have m: "(0x7f :: u8) = mask 7" by (simp add: mask_eq_exp_minus_1)
  have "take_bit 7 (0x80 :: u8) = 0" by simp
  with t show ?thesis
    unfolding m take_bit_eq_mask [symmetric] take_bit_or by (cases marker) simp_all
qed

lemma gs_datagram_parse:
  assumes "n < 16" and "length csrcs = 4 * n" and "length extension = 16" and "pt < 128"
  shows "RtpHeader_parse (gs_datagram n csrcs marker pt seq ts ssrc extension payload) =
    Inr \<lparr> rh_payload_type = pt, rh_sequence_number = seq, rh_timestamp = ts, rh_ssrc = ssrc,
      rh_payload_offset = 32 + 4 * n, rh_has_padding = False, rh_gs_video_header = Some extension \<rparr>"
proof -
  let ?p = "gs_datagram n csrcs marker pt seq ts ssrc extension payload"
  have len: "length ?p = 32 + 4 * n + length payload"
    using assms by (simp add: gs_datagram_def)
  have hd: "?p ! 0 = 0x90 OR of_nat n" "?p ! 1 = (if marker then 0x80 else 0) OR pt"
    by (simp_all add: gs_datagram_def)
  have f: "be16_at ?p 2 = seq" "be32_at ?p 4 = ts" "be32_at ?p 8 = ssrc"
    by (simp_all add: gs_datagram_def be16_def be32_def be16_at_def be32_at_def codec)
  have "be16_at ?p (12 + n * 4) = GS_VIDEO_EXTENSION_PROFILE" "be16_at ?p (12 + n * 4 + 2) = 4"
    using assms by (simp_all add: gs_datagram_def be16_def be32_def be16_at_def nth_append codec
        from_be16_def GS_VIDEO_EXTENSION_PROFILE_def)
  moreover obtain prefix where "?p = prefix @ extension @ payload" "length prefix = 12 + n * 4 + 4"
    by (rule that [of "[0x90 OR of_nat n, (if marker then 0x80 else 0) OR pt] @ be16 seq @ be32 ts
          @ be32 ssrc @ csrcs @ be16 GS_VIDEO_EXTENSION_PROFILE @ be16 4"])
      (use assms in \<open>simp_all add: gs_datagram_def\<close>)
  then have "take 16 (drop (12 + n * 4 + 4) ?p) = extension" using assms(3) by simp
  ultimately have e: "be16_at ?p (12 + n * 4) = GS_VIDEO_EXTENSION_PROFILE"
    "be16_at ?p (12 + n * 4 + 2) = 4" "take 16 (drop (12 + n * 4 + 4) ?p) = extension"
    by blast+
  have "parse_extension ?p (12 + n * 4) = Inr (32 + 4 * n, Some extension)"
    unfolding parse_extension_def e Let_def rtp_consts using len by simp
  then show ?thesis
    unfolding RtpHeader_parse_def hd f Let_def rtp_consts first_byte [OF assms(1)]
    using len assms(1,4) by (simp add: first_byte_bits payload_type_mask)
qed

text \<open>
  Parsing inverts the wire format of a GameStream video packet: every field, the extension block
  and the payload come back unchanged.
\<close>

theorem RtpHeader_parse_roundtrip:
  assumes "n < 16" and "length csrcs = 4 * n" and "length extension = 16" and "pt < 128"
  shows "RtpHeader_parse (gs_datagram n csrcs marker pt seq ts ssrc extension payload) =
    Inr \<lparr> rh_payload_type = pt, rh_sequence_number = seq, rh_timestamp = ts, rh_ssrc = ssrc,
      rh_payload_offset = 32 + 4 * n, rh_has_padding = False, rh_gs_video_header = Some extension \<rparr>"
  using assms by (rule gs_datagram_parse)

theorem RtpHeader_parse_roundtrip_witness:
  "RtpHeader_parse (gs_datagram 1 [0, 0, 0, 9] True 96 258 7 11 (replicate 16 5) [1, 2]) =
    Inr \<lparr> rh_payload_type = 96, rh_sequence_number = 258, rh_timestamp = 7, rh_ssrc = 11,
      rh_payload_offset = 36, rh_has_padding = False, rh_gs_video_header = Some (replicate 16 5) \<rparr>"
  using RtpHeader_parse_roundtrip [of 1 "[0, 0, 0, 9]" "replicate 16 5" 96 True 258 7 11 "[1, 2]"] by simp

lemma RtpHeader_payload_slice:
  assumes "RtpHeader_payload h packet = Inr payload"
  obtains padding where "packet = take (rh_payload_offset h) packet @ payload @ padding"
    and "\<not> rh_has_padding h \<Longrightarrow> padding = []"
    and "rh_has_padding h \<Longrightarrow> padding \<noteq> [] \<and> length padding = unat (last packet)"
proof -
  have cut: "xs = take k xs @ drop k (take m xs) @ drop m xs" if "k \<le> m" for k m and xs :: bytes
    using that by (metis append.assoc append_take_drop_id min.absorb1 take_take)
  define m where "m = (if rh_has_padding h then length packet - unat (last packet) else length packet)"
  have "payload = drop (rh_payload_offset h) (take m packet)" and "rh_payload_offset h \<le> m"
    and "rh_has_padding h \<Longrightarrow> 0 < unat (last packet) \<and> unat (last packet) \<le> length packet"
    using assms by (auto simp: RtpHeader_payload_def Let_def m_def unat_gt_0 split: if_splits)
  then show thesis
    by (intro that [of "drop m packet"]) (use cut in \<open>auto simp: m_def\<close>)
qed

text \<open>A datagram that parses has a payload offset inside the packet, aligned to a word, past the fixed
  header and, when the GameStream extension is present, past the sixteen bytes of it, which are the
  bytes right before the payload; the payload type has seven bits. So no later slice can panic.
\<close>

lemma RtpHeader_parse_bounds:
  assumes "RtpHeader_parse packet = Inr h"
  shows "12 \<le> rh_payload_offset h \<and> rh_payload_offset h \<le> length packet \<and> 4 dvd rh_payload_offset h
    \<and> rh_payload_offset h \<le> 76 + 4 * 65536 \<and> rh_payload_type h < 128
    \<and> (\<forall>e. rh_gs_video_header h = Some e \<longrightarrow> length e = 16 \<and> 32 \<le> rh_payload_offset h
           \<and> e = take 16 (drop (rh_payload_offset h - 16) packet))"
proof -
  have "(w AND 0x7f :: u8) < 128" for w
    using unat_and_le [of w "0x7f"] by (simp add: word_less_nat_alt)
  moreover have "rh_payload_type h = packet ! 1 AND 0x7f"
    using assms by (rule RtpHeader_parse_cases) simp
  ultimately have "rh_payload_type h < 128" by simp
  with RtpHeader_parse_offset [OF assms] show ?thesis by blast
qed

theorem RtpHeader_parse_bounds_witness:
  "rh_payload_offset (projr (RtpHeader_parse (0x80 # 96 # replicate 12 1))) \<le> 14"
proof -
  have "RtpHeader_parse (0x80 # 96 # replicate 12 1) = Inr (projr (RtpHeader_parse (0x80 # 96 # replicate 12 1)))"
    by (simp add: RtpHeader_parse_def rtp_consts)
  from RtpHeader_parse_bounds [OF this] show ?thesis by simp
qed

section \<open>Agreement of the two readings of the FEC word\<close>

lemma div_ceil_pos: "0 < a \<Longrightarrow> 0 < b \<Longrightarrow> 0 < div_ceil a b"
  by (simp add: div_ceil_def div_greater_zero_iff)

lemma FecPacketLayout_bounds:
  assumes "FecPacketLayout_from_packet packet = Some layout"
  shows "0 < fl_data_shards layout" and "0 < fl_parity_shards layout"
    and "fl_shard_index layout < fl_data_shards layout + fl_parity_shards layout"
    and "fl_data_shards layout + fl_parity_shards layout \<le> 1023"
    and "fl_block_index layout < 4" and "fl_last_block_index layout < 4"
proof -
  have 3: "(w AND 3 :: u8) < 4" for w :: u8
    using unat_and_le [of w 3] by (simp add: word_less_nat_alt)
  show "0 < fl_data_shards layout" "0 < fl_parity_shards layout"
    "fl_shard_index layout < fl_data_shards layout + fl_parity_shards layout"
    "fl_data_shards layout + fl_parity_shards layout \<le> 1023"
    "fl_block_index layout < 4" "fl_last_block_index layout < 4"
    using assms 3
    by (auto simp: FecPacketLayout_from_packet_def Let_def split: option.splits if_splits)
qed

lemma FecPacketLayout_agrees_is_fec:
  assumes "FecPacketLayout_from_packet packet = Some layout"
    and "NvVideoPacket_parse (pk_header packet) payload = Inr (nv, rest)"
  shows "nv_is_fec nv \<longleftrightarrow> fl_data_shards layout \<le> fl_shard_index layout"
    and "nv_fec_current_block nv = fl_block_index layout"
    and "nv_fec_last_block nv = fl_last_block_index layout"
    and "nv_frame_index nv = fl_frame_index layout"
  using assms
  by (auto simp: FecPacketLayout_from_packet_def NvVideoPacket_parse_def Let_def word_le_nat_alt
      unat_eq_0 split: option.splits if_splits)

end
