(* ===== verification/Replay.thy ===== *)
theory Replay
  imports NvstTypes
begin

text \<open>
  The SRTP replay window (\<open>ReplayWindow\<close>): extended packet index recovery from a sixteen-bit sequence
  number, the bitmap test and the in-place multiword shift of a commit. The bitmap is refined to the set
  of committed indices; the contract that the SRTP receiver relies on is the locale \<open>replay_filter\<close>, and
  the window is an instance of it.
\<close>

section \<open>Model\<close>

definition MAX_REORDER_WINDOW :: nat where "MAX_REORDER_WINDOW = 2048"
definition SRTP_REPLAY_WINDOW_PACKETS :: nat where "SRTP_REPLAY_WINDOW_PACKETS = MAX_REORDER_WINDOW"
definition SRTP_REPLAY_WINDOW_WORDS :: nat where
  "SRTP_REPLAY_WINDOW_WORDS = div_ceil SRTP_REPLAY_WINDOW_PACKETS 64"

lemma replay_packets: "SRTP_REPLAY_WINDOW_PACKETS = 2048" and replay_words: "SRTP_REPLAY_WINDOW_WORDS = 32"
  by (simp_all add: SRTP_REPLAY_WINDOW_WORDS_def SRTP_REPLAY_WINDOW_PACKETS_def MAX_REORDER_WINDOW_def
      div_ceil_def)

record ReplayWindow =
  rw_highest_index :: "nat option"
  rw_seen :: "u64 list"

definition ReplayWindow_default :: ReplayWindow where
  "ReplayWindow_default =
     \<lparr> rw_highest_index = None, rw_seen = replicate SRTP_REPLAY_WINDOW_WORDS 0 \<rparr>"

text \<open>\<open>u64\<close> arithmetic is written out: \<open>checked_add\<close>, \<open>checked_sub\<close> and the truncating \<open><<\<close>.\<close>

definition guess_packet_index :: "ReplayWindow \<Rightarrow> u16 \<Rightarrow> NvstDropReason + nat" where
  "guess_packet_index w sequence_number =
     (case rw_highest_index w of
        None \<Rightarrow> Inr (unat sequence_number)
      | Some highest_index \<Rightarrow>
          let roc = drop_bit 16 highest_index;
              highest_sequence = highest_index AND 0xffff;
              delta = int (unat sequence_number) - int highest_sequence;
              guessed_roc =
                (if delta < -32768 then (if roc + 1 > u64_max then Inl ReplayRejected else Inr (roc + 1))
                 else if delta > 32768 then (if roc = 0 then Inl ReplayRejected else Inr (roc - 1))
                 else Inr roc)
          in case guessed_roc of
               Inl e \<Rightarrow> Inl e
             | Inr r \<Rightarrow> Inr (take_bit 64 (push_bit 16 r) OR unat sequence_number))"

definition replay_check :: "ReplayWindow \<Rightarrow> nat \<Rightarrow> NvstDropReason + unit" where
  "replay_check w index =
     (case rw_highest_index w of
        None \<Rightarrow> Inr ()
      | Some highest_index \<Rightarrow>
          if index > highest_index then Inr ()
          else let age = highest_index - index
               in if age \<ge> SRTP_REPLAY_WINDOW_PACKETS
                     \<or> rw_seen w ! (age div 64) AND push_bit (age mod 64) 1 \<noteq> 0
                  then Inl ReplayRejected
                  else Inr ())"

text \<open>One word of the shifted bitmap, read from the words that the descending loop has not yet overwritten.\<close>

definition shifted_word :: "nat \<Rightarrow> nat \<Rightarrow> u64 list \<Rightarrow> nat \<Rightarrow> u64" where
  "shifted_word word_shift bit_shift seen destination =
     (if destination < word_shift then 0
      else let source = destination - word_shift;
               shifted = push_bit bit_shift (seen ! source)
           in if bit_shift \<noteq> 0 \<and> source > 0
              then shifted OR drop_bit (64 - bit_shift) (seen ! (source - 1))
              else shifted)"

definition shift_seen :: "nat \<Rightarrow> u64 list \<Rightarrow> u64 list" where
  "shift_seen advance seen =
     fold (\<lambda>destination s. s[destination := shifted_word (advance div 64) (advance mod 64) s destination])
       (rev [0..<SRTP_REPLAY_WINDOW_WORDS]) seen"

definition replay_commit :: "ReplayWindow \<Rightarrow> nat \<Rightarrow> ReplayWindow option" where
  "replay_commit w index =
     (case rw_highest_index w of
        None \<Rightarrow> Some \<lparr> rw_highest_index = Some index,
                      rw_seen = (map (\<lambda>_. 0) (rw_seen w))[0 := 1] \<rparr>
      | Some highest_index \<Rightarrow>
          if index > highest_index
          then let advance = index - highest_index;
                   seen = (if advance \<ge> SRTP_REPLAY_WINDOW_PACKETS then map (\<lambda>_. 0) (rw_seen w)
                           else shift_seen advance (rw_seen w))
               in Some \<lparr> rw_highest_index = Some index, rw_seen = seen[0 := seen ! 0 OR 1] \<rparr>
          else let age = highest_index - index
               in if age div 64 \<ge> length (rw_seen w) then None
                  else Some (w\<lparr> rw_seen := (rw_seen w)[age div 64 :=
                         rw_seen w ! (age div 64) OR push_bit (age mod 64) 1] \<rparr>))"

section \<open>The contract of a replay filter\<close>

locale replay_filter =
  fixes start :: 'w
    and accepts :: "'w \<Rightarrow> nat \<Rightarrow> bool"
    and commit :: "'w \<Rightarrow> nat \<Rightarrow> 'w option"
    and tracks :: "'w \<Rightarrow> nat set \<Rightarrow> bool"
    and depth :: nat
  assumes start_tracks: "tracks start {}"
    and accepts_fresh: "\<lbrakk>tracks w S; accepts w i\<rbrakk> \<Longrightarrow> i \<notin> S"
    and fresh_accepts: "\<lbrakk>tracks w S; i \<notin> S; \<forall>j\<in>S. j < i + depth\<rbrakk> \<Longrightarrow> accepts w i"
    and commit_tracks: "\<lbrakk>tracks w S; accepts w i\<rbrakk> \<Longrightarrow> \<exists>w'. commit w i = Some w' \<and> tracks w' (insert i S)"
begin

text \<open>The indices a sequence of tests and commits lets through, and the window it leaves.\<close>

fun run :: "'w \<Rightarrow> nat list \<Rightarrow> nat list \<times> 'w option" where
  "run w [] = ([], Some w)"
| "run w (i # is) =
     (if accepts w i then
        (case commit w i of
           None \<Rightarrow> ([], None)
         | Some w' \<Rightarrow> (case run w' is of (ok, r) \<Rightarrow> (i # ok, r)))
      else run w is)"

lemma run_tracks:
  assumes "tracks w S"
  shows "\<exists>ok w'. run w is = (ok, Some w') \<and> distinct ok \<and> set ok \<inter> S = {} \<and> set ok \<subseteq> set is
    \<and> tracks w' (set ok \<union> S)"
  using assms
proof (induction "is" arbitrary: w S)
  case Nil
  then show ?case by simp
next
  case (Cons i "is")
  show ?case
  proof (cases "accepts w i")
    case False
    with Cons.IH [OF Cons.prems] show ?thesis by auto
  next
    case True
    with commit_tracks Cons.prems obtain w' where w': "commit w i = Some w'" "tracks w' (insert i S)"
      by blast
    from Cons.IH [OF w'(2)] obtain ok w'' where ok: "run w' is = (ok, Some w'')" "distinct ok"
      "set ok \<inter> insert i S = {}" "set ok \<subseteq> set is" "tracks w'' (set ok \<union> insert i S)" by blast
    with w' True accepts_fresh [OF Cons.prems True] show ?thesis by auto
  qed
qed

text \<open>No index passes twice, and the run never panics.\<close>

lemma run_distinct: "\<exists>ok w'. run start is = (ok, Some w') \<and> distinct ok \<and> set ok \<subseteq> set is \<and> tracks w' (set ok)"
  using run_tracks [OF start_tracks, of "is"] by auto

text \<open>When every index stays within the depth of the ones before it, nothing fresh is lost.\<close>

lemma run_complete:
  assumes "tracks w S" and "\<forall>i\<in>S \<union> set is. \<forall>j\<in>S \<union> set is. j < i + depth" and "distinct is"
    and "set is \<inter> S = {}"
  shows "fst (run w is) = is"
  using assms
proof (induction "is" arbitrary: w S)
  case Nil
  then show ?case by simp
next
  case (Cons i "is")
  have "accepts w i" using Cons.prems by (intro fresh_accepts [of w S]) auto
  moreover from this commit_tracks Cons.prems(1) obtain w' where
    w': "commit w i = Some w'" "tracks w' (insert i S)" by blast
  moreover have "fst (run w' is) = is"
    using Cons.prems by (intro Cons.IH [OF w'(2)]) auto
  ultimately show ?case by (cases "run w' is") simp
qed

end

section \<open>The bitmap as a set\<close>

definition seen_bit :: "u64 list \<Rightarrow> nat \<Rightarrow> bool" where
  "seen_bit seen age \<longleftrightarrow> bit (seen ! (age div 64)) (age mod 64)"

lemma in_place_descending:
  fixes g :: "'a list \<Rightarrow> nat \<Rightarrow> 'a"
  assumes local: "\<And>s s' d. (\<And>j. j \<le> d \<Longrightarrow> s ! j = s' ! j) \<Longrightarrow> g s d = g s' d"
    and "n \<le> length seen"
  shows "length (fold (\<lambda>d s. s[d := g s d]) (rev [0..<n]) seen) = length seen \<and>
    (\<forall>d < length seen. fold (\<lambda>d s. s[d := g s d]) (rev [0..<n]) seen ! d =
      (if d < n then g seen d else seen ! d))"
  using assms(2)
proof (induction n arbitrary: seen)
  case 0
  then show ?case by simp
next
  case (Suc n)
  have keep: "g (seen[n := x]) d = g seen d" if "d < n" for d x
    using that by (intro local) simp
  show ?case
    using Suc.IH [of "seen[n := g seen n]"] Suc.prems keep by (auto simp: less_Suc_eq nth_list_update)
qed

lemma shift_seen_nth:
  assumes "length seen = SRTP_REPLAY_WINDOW_WORDS"
  shows "length (shift_seen advance seen) = SRTP_REPLAY_WINDOW_WORDS"
    and "d < SRTP_REPLAY_WINDOW_WORDS \<Longrightarrow>
      shift_seen advance seen ! d = shifted_word (advance div 64) (advance mod 64) seen d"
proof -
  have loc: "shifted_word a b s d = shifted_word a b s' d" if "\<And>j. j \<le> d \<Longrightarrow> s ! j = s' ! j" for a b s s' d
    using that by (simp add: shifted_word_def Let_def)
  show "length (shift_seen advance seen) = SRTP_REPLAY_WINDOW_WORDS"
    and "d < SRTP_REPLAY_WINDOW_WORDS \<Longrightarrow>
      shift_seen advance seen ! d = shifted_word (advance div 64) (advance mod 64) seen d"
    using in_place_descending [of "shifted_word (advance div 64) (advance mod 64)", OF loc,
        of SRTP_REPLAY_WINDOW_WORDS seen] assms
    by (auto simp: shift_seen_def)
qed

lemma shifted_word_bit:
  assumes "b < 64" and "s < 64"
  shows "bit (shifted_word ws s seen d) b \<longleftrightarrow>
    64 * ws + s \<le> 64 * d + b \<and> seen_bit seen (64 * d + b - (64 * ws + s))"
proof -
  have high: "\<not> bit (w :: u64) n" if "64 \<le> n" for w n
    using that bit_imp_le_length [of w n] by fastforce
  consider "d < ws" | "ws \<le> d" "s \<le> b" | "ws = d" "b < s" | "ws < d" "b < s" by linarith
  then show ?thesis
  proof cases
    case 1
    then show ?thesis using assms by (simp add: shifted_word_def)
  next
    case 2
    then obtain e where d: "d = ws + e" by (auto simp: le_iff_add)
    have "64 * d + b - (64 * ws + s) = e * 64 + (b - s)" using 2 d by simp
    moreover have "(e * 64 + (b - s)) div 64 = e" "(e * 64 + (b - s)) mod 64 = b - s" using assms by simp_all
    ultimately show ?thesis
      using 2 d assms by (auto simp: shifted_word_def Let_def seen_bit_def bit_simps high)
  next
    case 3
    then show ?thesis using assms by (simp add: shifted_word_def Let_def bit_simps)
  next
    case 4
    then obtain e where d: "d = ws + Suc e" using less_imp_Suc_add by fastforce
    define r where "r = 64 + b - s"
    have "r < 64" using 4 by (simp add: r_def)
    then have "(e * 64 + r) div 64 = e" "(e * 64 + r) mod 64 = r" by simp_all
    moreover have "64 * d + b - (64 * ws + s) = e * 64 + r" using 4 d assms by (simp add: r_def)
    moreover have "64 - s + b = r" using assms by (simp add: r_def)
    ultimately show ?thesis
      using 4 d assms by (auto simp: shifted_word_def Let_def seen_bit_def bit_simps add.commute)
  qed
qed

lemma shift_seen_bit:
  assumes "length seen = SRTP_REPLAY_WINDOW_WORDS" and "age < SRTP_REPLAY_WINDOW_PACKETS"
  shows "seen_bit (shift_seen advance seen) age \<longleftrightarrow> advance \<le> age \<and> seen_bit seen (age - advance)"
proof -
  have "age div 64 < SRTP_REPLAY_WINDOW_WORDS" using assms(2) by (simp add: replay_packets replay_words)
  with assms(1) have "seen_bit (shift_seen advance seen) age \<longleftrightarrow>
    bit (shifted_word (advance div 64) (advance mod 64) seen (age div 64)) (age mod 64)"
    by (simp add: seen_bit_def shift_seen_nth)
  also have "\<dots> \<longleftrightarrow> advance \<le> age \<and> seen_bit seen (age - advance)"
    by (subst shifted_word_bit) simp_all
  finally show ?thesis .
qed

lemma seen_bit_set:
  assumes "i div 64 < length seen"
  shows "seen_bit (seen[i div 64 := seen ! (i div 64) OR push_bit (i mod 64) 1]) j \<longleftrightarrow> j = i \<or> seen_bit seen j"
proof -
  have "j = i \<longleftrightarrow> j div 64 = i div 64 \<and> j mod 64 = i mod 64" by (metis div_mult_mod_eq)
  then show ?thesis
    using assms bit_imp_le_length [of "push_bit (i mod 64) (1 :: u64)" "j mod 64"]
    by (auto simp: seen_bit_def nth_list_update bit_simps)
qed

text \<open>The window tracks the committed set: the highest index, and the last 2048 of them by age.\<close>

definition replay_tracks :: "ReplayWindow \<Rightarrow> nat set \<Rightarrow> bool" where
  "replay_tracks w S \<longleftrightarrow> length (rw_seen w) = SRTP_REPLAY_WINDOW_WORDS \<and>
     (case rw_highest_index w of
        None \<Rightarrow> S = {}
      | Some h \<Rightarrow> h \<in> S \<and> (\<forall>i\<in>S. i \<le> h) \<and>
          (\<forall>age < SRTP_REPLAY_WINDOW_PACKETS. seen_bit (rw_seen w) age \<longleftrightarrow> age \<le> h \<and> h - age \<in> S))"

definition replay_accepts :: "ReplayWindow \<Rightarrow> nat \<Rightarrow> bool" where
  "replay_accepts w index \<longleftrightarrow> replay_check w index = Inr ()"

lemma replay_check_iff:
  "replay_accepts w i \<longleftrightarrow>
     (case rw_highest_index w of
        None \<Rightarrow> True
      | Some h \<Rightarrow> h < i \<or> (h - i < SRTP_REPLAY_WINDOW_PACKETS \<and> \<not> seen_bit (rw_seen w) (h - i)))"
  by (simp add: replay_accepts_def replay_check_def Let_def and_exp_eq_0_iff_not_bit seen_bit_def
      split: option.splits)

lemma replay_accepts_tracked:
  assumes "replay_tracks w S"
  shows "replay_accepts w i \<longleftrightarrow> S = {} \<or> (i \<notin> S \<and> (\<forall>j\<in>S. j < i + SRTP_REPLAY_WINDOW_PACKETS))"
proof (cases "rw_highest_index w")
  case None
  with assms show ?thesis by (simp add: replay_check_iff replay_tracks_def)
next
  case (Some h)
  with assms have h: "h \<in> S" "\<forall>i\<in>S. i \<le> h" and
    seen: "\<And>age. age < SRTP_REPLAY_WINDOW_PACKETS \<Longrightarrow> seen_bit (rw_seen w) age \<longleftrightarrow> age \<le> h \<and> h - age \<in> S"
    by (auto simp: replay_tracks_def)
  from h have max: "(\<forall>j\<in>S. j < i + SRTP_REPLAY_WINDOW_PACKETS) \<longleftrightarrow> h < i + SRTP_REPLAY_WINDOW_PACKETS"
    by (meson le_less_trans)
  show ?thesis
  proof (cases "h < i")
    case True
    with h have "i \<notin> S" by fastforce
    with True Some max show ?thesis by (simp add: replay_check_iff)
  next
    case False
    then have "h - (h - i) = i" "h - i < SRTP_REPLAY_WINDOW_PACKETS \<longleftrightarrow> h < i + SRTP_REPLAY_WINDOW_PACKETS"
      by auto
    with False Some h max seen [of "h - i"] show ?thesis by (auto simp: replay_check_iff)
  qed
qed

lemma zero_seen: "length seen = SRTP_REPLAY_WINDOW_WORDS \<Longrightarrow> age < SRTP_REPLAY_WINDOW_PACKETS
    \<Longrightarrow> \<not> seen_bit (map (\<lambda>_. 0) seen) age"
  by (simp add: seen_bit_def replay_packets replay_words)

lemma mark_newest:
  "length seen = SRTP_REPLAY_WINDOW_WORDS \<Longrightarrow> seen_bit (seen[0 := seen ! 0 OR 1]) j \<longleftrightarrow> j = 0 \<or> seen_bit seen j"
  using seen_bit_set [of 0 seen j] by (simp add: replay_words)

lemma advance_seen:
  assumes "length seen = SRTP_REPLAY_WINDOW_WORDS" and "age < SRTP_REPLAY_WINDOW_PACKETS"
  shows "seen_bit (if advance \<ge> SRTP_REPLAY_WINDOW_PACKETS then map (\<lambda>_. 0) seen else shift_seen advance seen) age
    \<longleftrightarrow> advance \<le> age \<and> seen_bit seen (age - advance)"
  using assms by (auto simp: zero_seen shift_seen_bit)

lemma replay_commit_advance:
  assumes "replay_tracks w S" and "rw_highest_index w = Some h" and "h < i"
  shows "\<exists>w'. replay_commit w i = Some w' \<and> replay_tracks w' (insert i S)"
proof -
  define seen where "seen = (if i - h \<ge> SRTP_REPLAY_WINDOW_PACKETS then map (\<lambda>_. 0) (rw_seen w)
    else shift_seen (i - h) (rw_seen w))"
  from assms have len: "length (rw_seen w) = SRTP_REPLAY_WINDOW_WORDS" and S: "h \<in> S" "\<forall>j\<in>S. j \<le> h"
    and old: "\<And>age. age < SRTP_REPLAY_WINDOW_PACKETS \<Longrightarrow> seen_bit (rw_seen w) age \<longleftrightarrow> age \<le> h \<and> h - age \<in> S"
    by (auto simp: replay_tracks_def)
  have len': "length seen = SRTP_REPLAY_WINDOW_WORDS" using len by (simp add: seen_def shift_seen_nth)
  have bits: "seen_bit (seen[0 := seen ! 0 OR 1]) age \<longleftrightarrow> age = 0 \<or> (i - h \<le> age \<and> seen_bit (rw_seen w) (age - (i - h)))"
    if "age < SRTP_REPLAY_WINDOW_PACKETS" for age
    unfolding mark_newest [OF len'] unfolding seen_def advance_seen [OF len that] ..
  have new: "seen_bit (seen[0 := seen ! 0 OR 1]) age \<longleftrightarrow> age \<le> i \<and> i - age \<in> insert i S"
    if "age < SRTP_REPLAY_WINDOW_PACKETS" for age
  proof (cases "i - h \<le> age")
    case True
    then have "h - (age - (i - h)) = i - age" "age - (i - h) \<le> h \<longleftrightarrow> age \<le> i" using assms(3) by auto
    with True that assms(3) old [of "age - (i - h)"] show ?thesis by (auto simp: bits)
  next
    case False
    then have "i - age \<notin> S" using S by fastforce
    with False that assms(3) show ?thesis by (auto simp: bits)
  qed
  have "replay_commit w i = Some \<lparr> rw_highest_index = Some i, rw_seen = seen[0 := seen ! 0 OR 1] \<rparr>"
    using assms by (simp add: replay_commit_def seen_def Let_def)
  moreover have "\<forall>j\<in>insert i S. j \<le> i" using S assms(3) by fastforce
  ultimately show ?thesis using new len' by (simp add: replay_tracks_def)
qed

lemma replay_commit_within:
  assumes "replay_tracks w S" and "rw_highest_index w = Some h" and "i \<le> h" and "replay_accepts w i"
  shows "\<exists>w'. replay_commit w i = Some w' \<and> replay_tracks w' (insert i S)"
proof -
  define age where "age = h - i"
  from assms have age: "age < SRTP_REPLAY_WINDOW_PACKETS" by (simp add: replay_check_iff age_def)
  from assms have len: "length (rw_seen w) = SRTP_REPLAY_WINDOW_WORDS" and S: "h \<in> S" "\<forall>j\<in>S. j \<le> h"
    and old: "\<And>age. age < SRTP_REPLAY_WINDOW_PACKETS \<Longrightarrow> seen_bit (rw_seen w) age \<longleftrightarrow> age \<le> h \<and> h - age \<in> S"
    by (auto simp: replay_tracks_def)
  have slot: "age div 64 < length (rw_seen w)" using age len by (simp add: replay_packets replay_words)
  have "j = age \<longleftrightarrow> j \<le> h \<and> h - j = i" for j using assms(3) by (auto simp: age_def)
  then have new: "seen_bit ((rw_seen w)[age div 64 := rw_seen w ! (age div 64) OR push_bit (age mod 64) 1]) j
      \<longleftrightarrow> j \<le> h \<and> h - j \<in> insert i S" if "j < SRTP_REPLAY_WINDOW_PACKETS" for j
    using that old [of j] seen_bit_set [OF slot, of j] by auto
  have "replay_commit w i = Some (w\<lparr> rw_seen := (rw_seen w)[age div 64 :=
      rw_seen w ! (age div 64) OR push_bit (age mod 64) 1] \<rparr>)"
    using assms slot by (simp add: replay_commit_def age_def Let_def)
  then show ?thesis using new len S assms(2,3) by (simp add: replay_tracks_def)
qed

lemma replay_commit_first:
  assumes "replay_tracks w S" and "rw_highest_index w = None"
  shows "\<exists>w'. replay_commit w i = Some w' \<and> replay_tracks w' (insert i S)"
proof -
  from assms have len: "length (rw_seen w) = SRTP_REPLAY_WINDOW_WORDS" and "S = {}"
    by (auto simp: replay_tracks_def)
  have mark: "(map (\<lambda>_. 0) (rw_seen w))[0 := 1] = (map (\<lambda>_. 0) (rw_seen w))[0 := map (\<lambda>_. 0) (rw_seen w) ! 0 OR 1]"
    using len by (simp add: replay_words)
  have "seen_bit ((map (\<lambda>_. 0) (rw_seen w))[0 := 1]) age \<longleftrightarrow> age = 0" if "age < SRTP_REPLAY_WINDOW_PACKETS" for age
    unfolding mark using mark_newest [of "map (\<lambda>_. 0) (rw_seen w)" age] zero_seen [OF len that] len
    by (simp only: length_map) blast
  then show ?thesis using assms(2) len \<open>S = {}\<close>
    by (auto simp: replay_commit_def replay_tracks_def)
qed

lemma replay_commit_tracks:
  assumes "replay_tracks w S" and "replay_accepts w i"
  shows "\<exists>w'. replay_commit w i = Some w' \<and> replay_tracks w' (insert i S)"
  using replay_commit_first [OF assms(1)] replay_commit_advance [OF assms(1)]
    replay_commit_within [OF assms(1) _ _ assms(2)]
  by (cases "rw_highest_index w") (auto simp: not_less [symmetric])

interpretation srtp: replay_filter ReplayWindow_default replay_accepts replay_commit replay_tracks
    SRTP_REPLAY_WINDOW_PACKETS
proof unfold_locales
  show "replay_tracks ReplayWindow_default {}"
    by (simp add: replay_tracks_def ReplayWindow_default_def)
qed (auto simp: replay_accepts_tracked intro: replay_commit_tracks)

section \<open>Properties\<close>

text \<open>
  Whatever sequence of packet indices is tested and committed, starting from the default window, the
  commits never panic and no index is accepted twice.
\<close>

theorem replay_accepts_each_once:
  "\<exists>ok w. srtp.run ReplayWindow_default indices = (ok, Some w) \<and> distinct ok \<and> set ok \<subseteq> set indices"
  using srtp.run_distinct [of indices] by blast

text \<open>
  After any such run the bitmap test is exactly the test on the set of accepted indices: an index
  passes if it has not been accepted and lies less than 2048 packets behind the newest accepted one.
\<close>

theorem replay_check_exact:
  assumes "srtp.run ReplayWindow_default indices = (ok, Some w)"
  shows "replay_check w i = (if ok = [] \<or> i \<notin> set ok \<and> Max (set ok) < i + 2048 then Inr () else Inl ReplayRejected)"
proof -
  have "replay_tracks w (set ok)" using srtp.run_distinct [of indices] assms by auto
  then have "replay_check w i = Inr () \<longleftrightarrow> ok = [] \<or> i \<notin> set ok \<and> Max (set ok) < i + 2048"
    using replay_accepts_tracked [of w "set ok" i] by (auto simp: replay_accepts_def replay_packets)
  moreover have "replay_check w i = Inr () \<or> replay_check w i = Inl ReplayRejected"
    by (simp add: replay_check_def Let_def split: option.splits)
  ultimately show ?thesis by auto
qed

theorem replay_check_exact_witness:
  "replay_check (the (snd (srtp.run ReplayWindow_default [7, 9, 7]))) 7 = Inl ReplayRejected
   \<and> replay_check (the (snd (srtp.run ReplayWindow_default [7, 9, 7]))) 8 = Inr ()"
proof -
  have "\<exists>w. srtp.run ReplayWindow_default [7, 9, 7] = ([7, 9], Some w)"
    by (simp add: replay_accepts_def replay_check_def replay_commit_def ReplayWindow_default_def replay_words
        replay_packets shift_seen_def shifted_word_def upt_rec Let_def)
  then obtain w where w: "srtp.run ReplayWindow_default [7, 9, 7] = ([7, 9], Some w)" ..
  show ?thesis using replay_check_exact [OF w, of 7] replay_check_exact [OF w, of 8] w by simp
qed

text \<open>
  The in-place loop of a commit, which overwrites the words from the oldest to the newest, is the shift
  of the whole bitmap: a bit of the new bitmap is the bit of the old one, younger by the advance.
\<close>

theorem shift_seen_is_shift:
  assumes "length seen = SRTP_REPLAY_WINDOW_WORDS" and "age < SRTP_REPLAY_WINDOW_PACKETS"
  shows "bit (shift_seen advance seen ! (age div 64)) (age mod 64) \<longleftrightarrow>
    advance \<le> age \<and> bit (seen ! ((age - advance) div 64)) ((age - advance) mod 64)"
  using shift_seen_bit [OF assms] by (simp add: seen_bit_def)

theorem shift_seen_is_shift_witness:
  "bit (shift_seen 65 (replicate 32 1) ! 1) 1"
  using shift_seen_is_shift [of "replicate 32 1" 65 65] by (simp add: replay_words replay_packets)

lemma pack_index: "s < 65536 \<Longrightarrow> r * 65536 + s \<le> u64_max \<Longrightarrow> take_bit 64 (push_bit 16 r) OR s = r * 65536 + s" for r s :: nat
proof -
  assume s: "s < 65536" and "r * 65536 + s \<le> u64_max"
  then have "take_bit 64 (push_bit 16 r) = push_bit 16 r" by (simp add: take_bit_nat_eq_self push_bit_eq_mult)
  moreover have "\<not> bit (push_bit 16 r) n \<or> \<not> bit s n" for n
    using s bit_take_bit_iff [of 16 s n] by (auto simp: bit_simps take_bit_nat_eq_self)
  ultimately show ?thesis by (simp add: disjunctive_add [symmetric] push_bit_eq_mult)
qed

text \<open>
  The sequence number on the wire determines the extended index: if the packet is less than half the
  sequence space away from the newest accepted one, before or after it and across any number of wraps,
  the guess is the index of the sender.
\<close>

theorem guess_packet_index_correct:
  assumes "rw_highest_index w = Some h" and "h \<le> u64_max" and "i \<le> u64_max"
    and "i \<le> h + 32767" and "h \<le> i + 32767"
  shows "guess_packet_index w (of_nat i) = Inr i"
proof -
  define r s q t where "r = h div 65536" and "s = h mod 65536" and "q = i div 65536" and "t = i mod 65536"
  note defs = r_def s_def q_def t_def
  have h: "h = r * 65536 + s" "s < 65536" and i: "i = q * 65536 + t" "t < 65536" by (simp_all add: defs)
  have seq: "unat (of_nat i :: u16) = t" by (simp add: unsigned_of_nat take_bit_nat_def t_def)
  have roc: "drop_bit 16 h = r" "h AND 0xffff = s"
    using take_bit_eq_mask [of 16 h] by (simp_all add: drop_bit_nat_def take_bit_nat_def mask_eq_exp_minus_1 defs)
  consider "int t - int s < -32768" "q = r + 1" | "int t - int s > 32768" "r = q + 1"
    | "\<not> int t - int s < -32768" "\<not> int t - int s > 32768" "q = r"
    using assms(4,5) h i by linarith
  then show ?thesis
  proof cases
    case 1
    then have "\<not> r + 1 > u64_max" using i assms(3) by simp
    with 1 show ?thesis
      using assms(1) seq roc pack_index [of t q] i assms(3) by (simp add: guess_packet_index_def Let_def)
  next
    case 2
    then show ?thesis
      using assms(1) seq roc pack_index [of t q] i assms(3) by (simp add: guess_packet_index_def Let_def)
  next
    case 3
    then show ?thesis
      using assms(1) seq roc pack_index [of t q] i assms(3) by (simp add: guess_packet_index_def Let_def)
  qed
qed

theorem guess_packet_index_correct_witness:
  "guess_packet_index \<lparr> rw_highest_index = Some 131070, rw_seen = replicate 32 0 \<rparr> (of_nat 131075) = Inr 131075"
  using guess_packet_index_correct [of "\<lparr> rw_highest_index = Some 131070, rw_seen = replicate 32 0 \<rparr>" 131070 131075]
  by simp

end
