(* ===== verification/OrderedMap.thy ===== *)
theory OrderedMap
  imports Prelude
begin

text \<open>
  \<open>std::collections::BTreeMap\<close> with the operations the transport uses: \<open>get\<close>, \<open>insert\<close>, \<open>remove\<close>,
  \<open>first_key_value\<close>, \<open>last_key_value\<close> and \<open>len\<close>. The locale \<open>ordered_map\<close> is the contract the reorder
  buffers rely on; the association lists sorted by key implement it.
\<close>

section \<open>The contract\<close>

locale ordered_map =
  fixes empty :: 'm
    and get :: "'m \<Rightarrow> 'k::linorder \<Rightarrow> 'v option"
    and put :: "'k \<Rightarrow> 'v \<Rightarrow> 'm \<Rightarrow> 'm"
    and remove :: "'k \<Rightarrow> 'm \<Rightarrow> 'm"
    and first :: "'m \<Rightarrow> ('k \<times> 'v) option"
    and len :: "'m \<Rightarrow> nat"
    and invar :: "'m \<Rightarrow> bool"
  assumes get_empty: "get empty = (\<lambda>_. None)"
    and get_put: "invar m \<Longrightarrow> get (put k v m) = (get m)(k \<mapsto> v)"
    and get_remove: "invar m \<Longrightarrow> get (remove k m) = (get m)(k := None)"
    and first_get: "invar m \<Longrightarrow> first m = Some (k, v) \<Longrightarrow> get m k = Some v"
    and first_least: "invar m \<Longrightarrow> first m = Some (k, v) \<Longrightarrow> get m j \<noteq> None \<Longrightarrow> k \<le> j"
    and first_none: "invar m \<Longrightarrow> first m = None \<longleftrightarrow> get m = (\<lambda>_. None)"
    and finite_dom: "finite (dom (get m))"
    and len_card: "invar m \<Longrightarrow> len m = card (dom (get m))"
    and invar_empty: "invar empty"
    and invar_put: "invar m \<Longrightarrow> invar (put k v m)"
    and invar_remove: "invar m \<Longrightarrow> invar (remove k m)"
begin

lemma len_put_fresh: "invar m \<Longrightarrow> get m k = None \<Longrightarrow> len (put k v m) = Suc (len m)"
  using finite_dom [of m] by (simp add: len_card invar_put get_put card_insert_if domIff)

lemma len_put_le: "invar m \<Longrightarrow> len (put k v m) \<le> Suc (len m)"
  using finite_dom [of m] by (simp add: len_card invar_put get_put card_insert_if)

lemma len_remove: "invar m \<Longrightarrow> get m k \<noteq> None \<Longrightarrow> len m = Suc (len (remove k m))"
  using card.remove [OF finite_dom [of m], of k] by (simp add: len_card invar_remove get_remove domIff)

lemma len_zero: "invar m \<Longrightarrow> len m = 0 \<longleftrightarrow> get m = (\<lambda>_. None)"
  using finite_dom [of m] by (simp add: len_card)

lemma first_some: "invar m \<Longrightarrow> get m k \<noteq> None \<Longrightarrow> \<exists>j v. first m = Some (j, v) \<and> j \<le> k"
  by (cases "first m") (auto simp: first_none dest: first_least)

text \<open>Taking the least entry out leaves larger keys only.\<close>

lemma remove_first_greater:
  assumes "invar m" and "first m = Some (k, v)" and "get (remove k m) j \<noteq> None"
  shows "k < j"
  using assms first_least [of m k v j] by (auto simp: get_remove split: if_splits)

end

section \<open>Sorted association lists\<close>

type_synonym ('k, 'v) btree = "('k \<times> 'v) list"

definition bt_get :: "('k, 'v) btree \<Rightarrow> 'k \<Rightarrow> 'v option" where
  "bt_get m k = map_of m k"

fun bt_insert :: "'k::linorder \<Rightarrow> 'v \<Rightarrow> ('k, 'v) btree \<Rightarrow> ('k, 'v) btree" where
  "bt_insert k v [] = [(k, v)]"
| "bt_insert k v ((k', v') # m) =
     (if k < k' then (k, v) # (k', v') # m
      else if k = k' then (k, v) # m
      else (k', v') # bt_insert k v m)"

definition bt_remove :: "'k \<Rightarrow> ('k, 'v) btree \<Rightarrow> ('k, 'v) btree" where
  "bt_remove k m = filter (\<lambda>e. fst e \<noteq> k) m"

definition bt_first :: "('k, 'v) btree \<Rightarrow> ('k \<times> 'v) option" where
  "bt_first m = (case m of [] \<Rightarrow> None | e # _ \<Rightarrow> Some e)"

definition bt_last :: "('k, 'v) btree \<Rightarrow> ('k \<times> 'v) option" where
  "bt_last m = (if m = [] then None else Some (last m))"

abbreviation bt_contains_key :: "('k, 'v) btree \<Rightarrow> 'k \<Rightarrow> bool" where
  "bt_contains_key m k \<equiv> bt_get m k \<noteq> None"

definition bt_ok :: "('k::linorder, 'v) btree \<Rightarrow> bool" where
  "bt_ok m \<longleftrightarrow> sorted_wrt (<) (map fst m)"

lemma bt_insert_map_of: "map_of (bt_insert k v m) = (map_of m)(k \<mapsto> v)" if "bt_ok m"
  using that
proof (induction k v m rule: bt_insert.induct)
  case (2 k v k' v' m)
  have "map_of m k = None" if "k < k'"
    using that 2(2) by (fastforce simp: bt_ok_def map_of_eq_None_iff)
  with 2 show ?case by (auto simp: fun_eq_iff bt_ok_def)
qed simp

lemma bt_insert_keys: "set (map fst (bt_insert k v m)) = insert k (set (map fst m))"
  by (induction k v m rule: bt_insert.induct) auto

lemma bt_ok_insert: "bt_ok m \<Longrightarrow> bt_ok (bt_insert k v m)"
proof (induction k v m rule: bt_insert.induct)
  case (2 k v k' v' m)
  then show ?case using bt_insert_keys [of k v m] by (auto simp: bt_ok_def)
qed (simp add: bt_ok_def)

lemma bt_remove_map_of: "map_of (bt_remove k m) = (map_of m)(k := None)"
  by (induction m) (auto simp: bt_remove_def fun_eq_iff)

lemma bt_ok_remove: "bt_ok m \<Longrightarrow> bt_ok (bt_remove k m)"
  by (auto simp: bt_ok_def bt_remove_def sorted_wrt_map intro: sorted_wrt_filter)

lemma bt_ok_distinct: "bt_ok m \<Longrightarrow> distinct (map fst m)"
  by (simp add: bt_ok_def strict_sorted_iff)

lemma bt_first_least: "bt_ok m \<Longrightarrow> bt_first m = Some (k, v) \<Longrightarrow> map_of m j = Some u \<Longrightarrow> k \<le> j"
  by (cases m) (fastforce simp: bt_ok_def bt_first_def split: if_splits dest: map_of_SomeD)+

interpretation bt: ordered_map "[] :: ('k::linorder, 'v) btree" bt_get bt_insert bt_remove bt_first length bt_ok
proof unfold_locales
  fix m :: "('k, 'v) btree" and k j :: 'k and v :: 'v
  show "bt_get [] = (\<lambda>_. None)" by (simp add: bt_get_def fun_eq_iff)
  show "bt_ok m \<Longrightarrow> bt_get (bt_insert k v m) = (bt_get m)(k \<mapsto> v)"
    by (simp add: bt_get_def fun_eq_iff bt_insert_map_of)
  show "bt_ok m \<Longrightarrow> bt_get (bt_remove k m) = (bt_get m)(k := None)"
    by (simp add: bt_get_def fun_eq_iff bt_remove_map_of)
  show "bt_ok m \<Longrightarrow> bt_first m = Some (k, v) \<Longrightarrow> bt_get m k = Some v"
    by (simp add: bt_get_def bt_first_def split: list.splits)
  show "bt_ok m \<Longrightarrow> bt_first m = Some (k, v) \<Longrightarrow> bt_get m j \<noteq> None \<Longrightarrow> k \<le> j"
    by (auto simp: bt_get_def intro: bt_first_least)
  show "bt_ok m \<Longrightarrow> (bt_first m = None) = (bt_get m = (\<lambda>_. None))"
    by (cases m) (auto simp: bt_get_def bt_first_def fun_eq_iff)
  have dom: "dom (bt_get m) = set (map fst m)"
    by (simp add: bt_get_def dom_map_of_conv_image_fst [symmetric] dom_def)
  then show "finite (dom (bt_get m))" by simp
  show "bt_ok m \<Longrightarrow> length m = card (dom (bt_get m))"
    unfolding dom using distinct_card [OF bt_ok_distinct, of m] by simp
  show "bt_ok []" by (simp add: bt_ok_def)
qed (simp_all add: bt_ok_insert bt_ok_remove)

lemma bt_last_greatest:
  assumes "bt_ok m" and "bt_last m = Some (k, v)" and "bt_get m j \<noteq> None"
  shows "j \<le> k"
proof -
  from assms(2) obtain m' where m: "m = m' @ [(k, v)]"
    by (auto simp: bt_last_def split: if_splits) (metis append_butlast_last_id)
  from assms(3) have "j \<in> set (map fst m)" by (auto simp: bt_get_def map_of_eq_None_iff)
  with assms(1) show ?thesis by (auto simp: m bt_ok_def sorted_wrt_append)
qed

lemma bt_first_length: "bt_first m = Some (k, v) \<Longrightarrow> length (bt_remove k m) < length m"
  by (cases m) (auto simp: bt_first_def bt_remove_def less_Suc_eq_le)

lemma bt_remove_length: "bt_get m k \<noteq> None \<Longrightarrow> length (bt_remove k m) < length m"
proof -
  assume "bt_get m k \<noteq> None"
  then have "\<exists>e\<in>set m. fst e = k" by (force simp: bt_get_def dest!: map_of_SomeD)
  then show ?thesis unfolding bt_remove_def by (auto intro: length_filter_less)
qed

lemma bt_first_contains: "bt_first m = Some (k, v) \<Longrightarrow> bt_get m k = Some v"
  by (auto simp: bt_first_def bt_get_def split: list.splits)

end
