(* ===== verification/Reorder.thy ===== *)
theory Reorder
  imports Rtp Replay OrderedMap
begin

text \<open>
  The RTP reorder buffer (\<open>RtpReorderBuffer\<close>): packets wait for the expected index, a gap is waited for
  until it times out or leaves the window, and everything contiguous is drained. The locale
  \<open>reorder_stage\<close> states what the assembler relies on, for this buffer and for the FEC one.
\<close>

section \<open>The contract of a reorder stage\<close>

locale reorder_stage =
  fixes push :: "'s \<Rightarrow> 'i \<Rightarrow> 's"
    and released :: "'s \<Rightarrow> 'i \<Rightarrow> 'p list"
    and index :: "'p \<Rightarrow> nat"
    and frontier :: "'s \<Rightarrow> nat"
    and admissible :: "'i \<Rightarrow> bool"
    and invar :: "'s \<Rightarrow> bool"
  assumes push_invar: "\<lbrakk>invar s; admissible i\<rbrakk> \<Longrightarrow> invar (push s i)"
    and released_increasing: "\<lbrakk>invar s; admissible i\<rbrakk> \<Longrightarrow> sorted_wrt (<) (map index (released s i))"
    and released_lower: "\<lbrakk>invar s; admissible i; p \<in> set (released s i)\<rbrakk> \<Longrightarrow> frontier s \<le> index p"
    and released_upper: "\<lbrakk>invar s; admissible i; p \<in> set (released s i)\<rbrakk> \<Longrightarrow> index p < frontier (push s i)"
    and frontier_mono: "\<lbrakk>invar s; admissible i\<rbrakk> \<Longrightarrow> frontier s \<le> frontier (push s i)"
begin

fun deliver :: "'s \<Rightarrow> 'i list \<Rightarrow> 'p list" where
  "deliver s [] = []"
| "deliver s (i # is) = released s i @ deliver (push s i) is"

lemma deliver_ordered:
  assumes "invar s" and "\<forall>i\<in>set is. admissible i"
  shows "sorted_wrt (<) (map index (deliver s is)) \<and> (\<forall>p\<in>set (deliver s is). frontier s \<le> index p)"
  using assms
proof (induction "is" arbitrary: s)
  case Nil
  then show ?case by simp
next
  case (Cons i "is")
  then have IH: "sorted_wrt (<) (map index (deliver (push s i) is))"
    "\<forall>p\<in>set (deliver (push s i) is). frontier (push s i) \<le> index p"
    using push_invar by auto
  have "index p < index q" if "p \<in> set (released s i)" "q \<in> set (deliver (push s i) is)" for p q
    using that IH(2) released_upper [of s i p] Cons.prems by fastforce
  moreover have "frontier s \<le> index q" if "q \<in> set (deliver (push s i) is)" for q
    using that IH(2) frontier_mono [of s i] Cons.prems by fastforce
  ultimately show ?case
    using IH(1) Cons.prems released_increasing [of s i] released_lower [of s i]
    by (auto simp: sorted_wrt_append)
qed

text \<open>Over any run, indices leave the stage in strictly increasing order: in order, and none twice.\<close>

lemma deliver_increasing:
  "\<lbrakk>invar s; \<forall>i\<in>set is. admissible i\<rbrakk> \<Longrightarrow> sorted_wrt (<) (map index (deliver s is))"
  using deliver_ordered by blast

end

section \<open>Model\<close>

definition MJOLNIR_REORDER_DEQUEUE_TIMEOUT :: duration where
  "MJOLNIR_REORDER_DEQUEUE_TIMEOUT = millis 52"

record RtpReorderBuffer =
  rb_next_index :: "nat option"
  rb_packets :: "(nat, RtpPacket) btree"
  rb_max_packets :: nat
  rb_gap_wait :: "(nat \<times> instant) option"

record ReorderResult =
  rr_ready :: "RtpPacket list"
  rr_nack :: "(nat \<times> nat) option"
  rr_recovery :: "NvstRecovery option"
  rr_dropped :: "NvstDropReason option"
  rr_fec_repaired :: nat

definition RtpReorderBuffer_new :: "nat \<Rightarrow> RtpReorderBuffer" where
  "RtpReorderBuffer_new max_packets =
     \<lparr> rb_next_index = None, rb_packets = [], rb_max_packets = max_packets, rb_gap_wait = None \<rparr>"

definition RtpReorderBuffer_reset :: "RtpReorderBuffer \<Rightarrow> RtpReorderBuffer" where
  "RtpReorderBuffer_reset b = b\<lparr> rb_next_index := None, rb_packets := [], rb_gap_wait := None \<rparr>"

definition dropped_result :: "NvstDropReason option \<Rightarrow> ReorderResult" where
  "dropped_result d =
     \<lparr> rr_ready = [], rr_nack = None, rr_recovery = None, rr_dropped = d, rr_fec_repaired = 0 \<rparr>"

text \<open>The inner \<open>while let\<close>: contiguous packets move from the map to \<open>ready\<close>.\<close>

function drain :: "nat \<Rightarrow> (nat, RtpPacket) btree \<Rightarrow> RtpPacket list \<Rightarrow>
    nat \<times> (nat, RtpPacket) btree \<times> RtpPacket list" where
  "drain next packets ready =
     (case bt_get packets next of
        None \<Rightarrow> (next, packets, ready)
      | Some packet \<Rightarrow> drain (next + 1) (bt_remove next packets) (ready @ [packet]))"
  by pat_completeness auto
termination
  by (relation "measure (\<lambda>(_, packets, _). length packets)") (auto simp: bt_remove_length)

declare drain.simps [simp del]

record reorder_state =
  lo_next :: nat
  lo_packets :: "(nat, RtpPacket) btree"
  lo_gap_wait :: "(nat \<times> instant) option"
  lo_ready :: "RtpPacket list"
  lo_nack :: "(nat \<times> nat) option"
  lo_recovery :: "NvstRecovery option"

text \<open>When the gap at \<open>expected\<close> was first seen: the clock restarts when another index is awaited.\<close>

definition gap_started :: "(nat \<times> instant) option \<Rightarrow> nat \<Rightarrow> instant \<Rightarrow> instant" where
  "gap_started gap_wait expected now =
     (case gap_wait of
        Some (waiting_for, started) \<Rightarrow> if waiting_for = expected then started else now
      | None \<Rightarrow> now)"

lemma drain_length: "drain n m r = (n', m', r') \<Longrightarrow> length m' \<le> length m \<and> (bt_get m n \<noteq> None \<longrightarrow> length m' < length m)"
proof (induction n m r rule: drain.induct)
  case (1 n m r)
  then show ?case
    using bt_remove_length [of m n] by (subst (asm) (2) drain.simps) (fastforce split: option.splits)
qed

function reorder_loop :: "nat \<Rightarrow> instant \<Rightarrow> reorder_state \<Rightarrow> reorder_state" where
  "reorder_loop max_packets now st =
     (case drain (lo_next st) (lo_packets st) (lo_ready st) of (expected, packets, ready) \<Rightarrow>
        let st = st\<lparr> lo_next := expected, lo_packets := packets, lo_ready := ready \<rparr>
        in case bt_first packets of
             None \<Rightarrow> st\<lparr> lo_gap_wait := None \<rparr>
           | Some (first_available, _) \<Rightarrow>
               let started = gap_started (lo_gap_wait st) expected now;
                   gap_exceeded_window =
                     (first_available - expected \<ge> max_packets \<or> length packets \<ge> max_packets);
                   gap_timed_out = (now - started \<ge> MJOLNIR_REORDER_DEQUEUE_TIMEOUT)
               in if \<not> gap_exceeded_window \<and> \<not> gap_timed_out
                  then st\<lparr> lo_gap_wait := Some (expected, started),
                           lo_nack := Some (expected, first_available - 1) \<rparr>
                  else reorder_loop max_packets now
                    (st\<lparr> lo_recovery := Some (PacketGap expected (first_available - 1)),
                         lo_ready := [], lo_next := first_available, lo_gap_wait := None,
                         lo_nack := None \<rparr>))"
  by pat_completeness auto
termination
proof (relation "measure (\<lambda>(_, _, st).
    2 * length (lo_packets st) + (if bt_get (lo_packets st) (lo_next st) = None then 1 else 0))", goal_cases)
  case 1
  then show ?case by simp
next
  case (2 max_packets now st expected y packets ready st' fp first_available p started e t)
  then have d: "drain (lo_next st) (lo_packets st) (lo_ready st) = (expected, packets, ready)" by simp
  have "bt_get packets first_available \<noteq> None" using 2 bt_first_contains by fastforce
  with drain_length [OF d] 2 show ?case by auto
qed

declare reorder_loop.simps [simp del]

definition RtpReorderBuffer_push ::
    "RtpReorderBuffer \<Rightarrow> RtpPacket \<Rightarrow> instant \<Rightarrow> RtpReorderBuffer \<times> ReorderResult" where
  "RtpReorderBuffer_push b packet now =
     (let index = pk_index packet;
          next_index = (case rb_next_index b of None \<Rightarrow> index | Some n \<Rightarrow> n);
          b = b\<lparr> rb_next_index := Some next_index \<rparr>
      in if index < next_index then (b, dropped_result (Some (StaleRtpPacket index)))
      else if bt_contains_key (rb_packets b) index then (b, dropped_result (Some (DuplicateRtpPacket index)))
      else let jump = (length (rb_packets b) = 0 \<and> index - next_index \<ge> rb_max_packets b);
               st = reorder_loop (rb_max_packets b) now
                 \<lparr> lo_next = (if jump then index else next_index),
                   lo_packets = bt_insert index packet (rb_packets b),
                   lo_gap_wait = (if jump then None else rb_gap_wait b),
                   lo_ready = [], lo_nack = None,
                   lo_recovery = (if jump then Some (PacketGap next_index (index - 1)) else None) \<rparr>
           in (b\<lparr> rb_next_index := Some (lo_next st), rb_packets := lo_packets st,
                  rb_gap_wait := lo_gap_wait st \<rparr>,
               \<lparr> rr_ready = lo_ready st, rr_nack = lo_nack st, rr_recovery = lo_recovery st,
                 rr_dropped = None, rr_fec_repaired = 0 \<rparr>))"

section \<open>Invariant of the drain loop\<close>

definition keyed :: "(nat, RtpPacket) btree \<Rightarrow> bool" where
  "keyed m \<longleftrightarrow> bt_ok m \<and> (\<forall>k p. bt_get m k = Some p \<longrightarrow> pk_index p = k)"

definition held :: "(nat, RtpPacket) btree \<Rightarrow> RtpPacket set" where
  "held m = ran (bt_get m)"

definition all_from :: "nat \<Rightarrow> (nat, RtpPacket) btree \<Rightarrow> bool" where
  "all_from n m \<longleftrightarrow> (\<forall>k. bt_get m k \<noteq> None \<longrightarrow> n \<le> k)"

definition in_order :: "nat \<Rightarrow> nat \<Rightarrow> RtpPacket list \<Rightarrow> bool" where
  "in_order lo hi ps \<longleftrightarrow> lo \<le> hi \<and> sorted_wrt (<) (map pk_index ps) \<and> (\<forall>p\<in>set ps. lo \<le> pk_index p \<and> pk_index p < hi)"

lemma keyed_insert: "keyed m \<Longrightarrow> keyed (bt_insert (pk_index p) p m)"
  by (auto simp: keyed_def bt.invar_put bt.get_put)

lemma keyed_remove: "keyed m \<Longrightarrow> keyed (bt_remove k m)"
  by (auto simp: keyed_def bt.invar_remove bt.get_remove)

lemma held_insert: "keyed m \<Longrightarrow> bt_get m k = None \<Longrightarrow> held (bt_insert k p m) = insert p (held m)"
  by (simp add: held_def keyed_def bt.get_put)

lemma held_remove: "keyed m \<Longrightarrow> bt_get m k = Some p \<Longrightarrow> held m = insert p (held (bt_remove k m))"
  by (force simp: held_def keyed_def bt.get_remove ran_def)

lemma in_order_snoc: "in_order lo n ps \<Longrightarrow> pk_index p = n \<Longrightarrow> in_order lo (n + 1) (ps @ [p])"
  by (fastforce simp: in_order_def sorted_wrt_append)

lemma all_from_remove: "keyed m \<Longrightarrow> all_from n m \<Longrightarrow> all_from (n + 1) (bt_remove n m)"
  by (auto simp: all_from_def keyed_def bt.get_remove Suc_le_eq le_less)

lemma drain_correct:
  assumes "drain n m r = (n', m', r')" and "keyed m" and "all_from n m" and "in_order lo n r"
  shows "keyed m' \<and> all_from n' m' \<and> bt_get m' n' = None \<and> in_order lo n' r' \<and> n \<le> n'
    \<and> set r' \<union> held m' = set r \<union> held m"
  using assms
proof (induction n m r rule: drain.induct)
  case (1 n m r)
  show ?case
  proof (cases "bt_get m n")
    case None
    with 1 show ?thesis by (subst (asm) (2) drain.simps) auto
  next
    case (Some p)
    then have p: "pk_index p = n" using 1(3) by (auto simp: keyed_def)
    have "drain (n + 1) (bt_remove n m) (r @ [p]) = (n', m', r')"
      using 1(2) Some by (subst (asm) drain.simps) simp
    from 1(1) [OF Some this keyed_remove [OF 1(3)] all_from_remove [OF 1(3,4)] in_order_snoc [OF 1(5) p]]
    show ?thesis using held_remove [OF 1(3) Some] by auto
  qed
qed

text \<open>What holds when the loop of a push ends.\<close>

definition loop_done :: "nat \<Rightarrow> instant \<Rightarrow> reorder_state \<Rightarrow> bool" where
  "loop_done max_packets now st \<longleftrightarrow> bt_get (lo_packets st) (lo_next st) = None \<and>
     (case bt_first (lo_packets st) of
        None \<Rightarrow> lo_gap_wait st = None
      | Some (f, _) \<Rightarrow> lo_next st < f \<and> f - lo_next st < max_packets \<and> length (lo_packets st) < max_packets \<and>
          (\<exists>t. lo_gap_wait st = Some (lo_next st, t) \<and> now - t < MJOLNIR_REORDER_DEQUEUE_TIMEOUT))"

lemma reorder_loop_correct:
  assumes "reorder_loop max_packets now st = st'" and "keyed (lo_packets st)"
    and "all_from (lo_next st) (lo_packets st)" and "in_order lo (lo_next st) (lo_ready st)"
  shows "keyed (lo_packets st') \<and> all_from (lo_next st') (lo_packets st') \<and> in_order lo (lo_next st') (lo_ready st')
    \<and> lo_next st \<le> lo_next st' \<and> loop_done max_packets now st'
    \<and> set (lo_ready st') \<union> held (lo_packets st') \<subseteq> set (lo_ready st) \<union> held (lo_packets st)
    \<and> (lo_recovery st' = None \<longrightarrow> lo_recovery st = None
         \<and> set (lo_ready st') \<union> held (lo_packets st') = set (lo_ready st) \<union> held (lo_packets st))"
  using assms
proof (induction max_packets now st rule: reorder_loop.induct)
  case (1 max_packets now st)
  obtain n m r where d: "drain (lo_next st) (lo_packets st) (lo_ready st) = (n, m, r)"
    by (cases "drain (lo_next st) (lo_packets st) (lo_ready st)")
  note post = drain_correct [OF d 1(3-5)]
  note unfold = 1(2) [unfolded reorder_loop.simps [of max_packets now st], simplified d Let_def, simplified]
  show ?case
  proof (cases "bt_first m")
    case None
    with unfold have "st' = st\<lparr> lo_next := n, lo_packets := m, lo_ready := r, lo_gap_wait := None \<rparr>" by simp
    with post None show ?thesis by (simp add: loop_done_def)
  next
    case (Some e)
    then obtain f p where first: "bt_first m = Some (f, p)" by (cases e) auto
    have f: "n < f" "bt_get m f \<noteq> None"
      using post bt_first_contains [OF first] by (auto simp: all_from_def le_less)
    let ?wait = "f - n < max_packets \<and> length m < max_packets
      \<and> now - gap_started (lo_gap_wait st) n now < MJOLNIR_REORDER_DEQUEUE_TIMEOUT"
    show ?thesis
    proof (cases ?wait)
      case True
      with unfold first have "st' = st\<lparr> lo_next := n, lo_packets := m, lo_ready := r,
          lo_gap_wait := Some (n, gap_started (lo_gap_wait st) n now), lo_nack := Some (n, f - 1) \<rparr>" by auto
      with post first f True show ?thesis by (simp add: loop_done_def)
    next
      case False
      let ?st = "st\<lparr> lo_packets := m, lo_recovery := Some (PacketGap n (f - 1)), lo_ready := [], lo_next := f,
        lo_gap_wait := None, lo_nack := None \<rparr>"
      have rec: "reorder_loop max_packets now ?st = st'" using unfold first False by auto
      have pre: "keyed (lo_packets ?st)" "all_from (lo_next ?st) (lo_packets ?st)" "in_order lo (lo_next ?st) (lo_ready ?st)"
        using post f bt.first_least [OF _ first] by (auto simp: all_from_def in_order_def keyed_def)
      note IH = 1(1) [OF d [symmetric] refl refl first refl refl refl refl]
      have "keyed (lo_packets st') \<and> all_from (lo_next st') (lo_packets st') \<and> in_order lo (lo_next st') (lo_ready st')
        \<and> f \<le> lo_next st' \<and> loop_done max_packets now st' \<and> set (lo_ready st') \<union> held (lo_packets st') \<subseteq> held m
        \<and> lo_recovery st' \<noteq> None"
        using IH False rec pre by (simp add: not_less)
      with post f(1) show ?thesis by auto
    qed
  qed
qed

section \<open>Properties\<close>

definition reorder_frontier :: "RtpReorderBuffer \<Rightarrow> nat" where
  "reorder_frontier b = (case rb_next_index b of None \<Rightarrow> 0 | Some n \<Rightarrow> n)"

definition reorder_ok :: "RtpReorderBuffer \<Rightarrow> bool" where
  "reorder_ok b \<longleftrightarrow> keyed (rb_packets b) \<and> all_from (reorder_frontier b) (rb_packets b) \<and>
     (rb_next_index b = None \<longrightarrow> rb_packets b = [])"

lemma reorder_ok_new: "reorder_ok (RtpReorderBuffer_new n)" and reorder_ok_reset: "reorder_ok (RtpReorderBuffer_reset b)"
  by (simp_all add: reorder_ok_def RtpReorderBuffer_new_def RtpReorderBuffer_reset_def keyed_def all_from_def
      bt.invar_empty bt.get_empty)

lemma push_dropped:
  assumes "reorder_ok b" and "rr_dropped (snd (RtpReorderBuffer_push b packet now)) = Some d"
  shows "reorder_ok (fst (RtpReorderBuffer_push b packet now))"
    and "rb_packets (fst (RtpReorderBuffer_push b packet now)) = rb_packets b"
    and "rr_ready (snd (RtpReorderBuffer_push b packet now)) = []"
    and "reorder_frontier b \<le> reorder_frontier (fst (RtpReorderBuffer_push b packet now))"
  using assms
  by (auto simp: RtpReorderBuffer_push_def Let_def dropped_result_def reorder_ok_def reorder_frontier_def
      bt.get_empty split: if_splits option.splits)

text \<open>What an accepted push does, with the final state of its loop.\<close>

definition accepted_push :: "RtpReorderBuffer \<Rightarrow> RtpPacket \<Rightarrow> instant \<Rightarrow> RtpReorderBuffer \<Rightarrow> ReorderResult \<Rightarrow> reorder_state \<Rightarrow> bool" where
  "accepted_push b packet now b' r st \<longleftrightarrow>
     keyed (lo_packets st) \<and> all_from (lo_next st) (lo_packets st)
     \<and> in_order (case rb_next_index b of None \<Rightarrow> pk_index packet | Some n \<Rightarrow> n) (lo_next st) (lo_ready st)
     \<and> loop_done (rb_max_packets b) now st
     \<and> set (lo_ready st) \<union> held (lo_packets st) \<subseteq> insert packet (held (rb_packets b))
     \<and> (lo_recovery st = None \<longrightarrow> set (lo_ready st) \<union> held (lo_packets st) = insert packet (held (rb_packets b)))
     \<and> b' = b\<lparr> rb_next_index := Some (lo_next st), rb_packets := lo_packets st, rb_gap_wait := lo_gap_wait st \<rparr>
     \<and> r = \<lparr> rr_ready = lo_ready st, rr_nack = lo_nack st, rr_recovery = lo_recovery st, rr_dropped = None,
             rr_fec_repaired = 0 \<rparr>"

lemma push_accepted:
  assumes "reorder_ok b" and push: "RtpReorderBuffer_push b packet now = (b', r)" and "rr_dropped r = None"
  shows "\<exists>st. accepted_push b packet now b' r st"
proof -
  define nxt where "nxt = (case rb_next_index b of None \<Rightarrow> pk_index packet | Some n \<Rightarrow> n)"
  define jump where "jump \<longleftrightarrow> length (rb_packets b) = 0 \<and> pk_index packet - nxt \<ge> rb_max_packets b"
  define st0 where "st0 = \<lparr> lo_next = (if jump then pk_index packet else nxt),
      lo_packets = bt_insert (pk_index packet) packet (rb_packets b),
      lo_gap_wait = (if jump then None else rb_gap_wait b), lo_ready = [], lo_nack = None,
      lo_recovery = (if jump then Some (PacketGap nxt (pk_index packet - 1)) else None) \<rparr>"
  define st where "st = reorder_loop (rb_max_packets b) now st0"
  let ?b' = "b\<lparr> rb_next_index := Some (lo_next st), rb_packets := lo_packets st, rb_gap_wait := lo_gap_wait st \<rparr>"
  let ?r = "\<lparr> rr_ready = lo_ready st, rr_nack = lo_nack st, rr_recovery = lo_recovery st, rr_dropped = None,
              rr_fec_repaired = 0 \<rparr>"
  have eq: "RtpReorderBuffer_push b packet now =
    (if pk_index packet < nxt then (b\<lparr> rb_next_index := Some nxt \<rparr>, dropped_result (Some (StaleRtpPacket (pk_index packet))))
     else if bt_contains_key (rb_packets b) (pk_index packet)
     then (b\<lparr> rb_next_index := Some nxt \<rparr>, dropped_result (Some (DuplicateRtpPacket (pk_index packet))))
     else (?b', ?r))"
    by (simp add: RtpReorderBuffer_push_def Let_def st_def st0_def jump_def nxt_def)
  then have fresh: "bt_get (rb_packets b) (pk_index packet) = None" and le: "nxt \<le> pk_index packet"
    and b': "b' = ?b'" and r: "r = ?r"
    using push assms(3) by (auto simp: dropped_result_def split: if_splits)
  from assms(1) have k: "keyed (rb_packets b)" and from_b: "all_from nxt (rb_packets b)"
    by (auto simp: reorder_ok_def reorder_frontier_def nxt_def all_from_def bt.get_empty split: option.splits)
  have pre: "keyed (lo_packets st0)" "all_from (lo_next st0) (lo_packets st0)" "in_order nxt (lo_next st0) (lo_ready st0)"
    using k from_b le by (auto simp: st0_def keyed_insert all_from_def in_order_def jump_def
        keyed_def bt.get_put bt.get_empty bt_ok_insert)
  note post = reorder_loop_correct [OF st_def [symmetric] pre]
  have "set (lo_ready st0) \<union> held (lo_packets st0) = insert packet (held (rb_packets b))"
    using held_insert [OF k fresh] by (simp add: st0_def)
  with post b' r have "accepted_push b packet now b' r st" by (simp add: accepted_push_def nxt_def)
  then show ?thesis ..
qed

lemma push_ok:
  assumes "reorder_ok b"
  shows "reorder_ok (fst (RtpReorderBuffer_push b packet now)) \<and>
    in_order (reorder_frontier b) (reorder_frontier (fst (RtpReorderBuffer_push b packet now)))
      (rr_ready (snd (RtpReorderBuffer_push b packet now)))"
proof (cases "rr_dropped (snd (RtpReorderBuffer_push b packet now))")
  case (Some d)
  with push_dropped [OF assms Some] show ?thesis by (simp add: in_order_def)
next
  case None
  obtain b' r where push: "RtpReorderBuffer_push b packet now = (b', r)" by (cases "RtpReorderBuffer_push b packet now")
  with None have "rr_dropped r = None" by simp
  from push_accepted [OF assms push this] obtain st where st: "accepted_push b packet now b' r st" ..
  have "reorder_frontier b \<le> (case rb_next_index b of None \<Rightarrow> pk_index packet | Some n \<Rightarrow> n)"
    by (simp add: reorder_frontier_def split: option.splits)
  moreover have "reorder_frontier b' = lo_next st" "rb_packets b' = lo_packets st" "rb_next_index b' \<noteq> None"
    "rr_ready r = lo_ready st"
    using st by (simp_all add: accepted_push_def reorder_frontier_def)
  ultimately show ?thesis
    using st unfolding push fst_conv snd_conv accepted_push_def reorder_ok_def in_order_def by fastforce
qed

interpretation rtp: reorder_stage "\<lambda>b (packet, now). fst (RtpReorderBuffer_push b packet now)"
    "\<lambda>b (packet, now). rr_ready (snd (RtpReorderBuffer_push b packet now))" pk_index reorder_frontier
    "\<lambda>_. True" reorder_ok
  by unfold_locales (use push_ok in \<open>auto simp: in_order_def split: prod.splits\<close>)

text \<open>
  Whatever packets arrive, in whatever order and at whatever times, the packets the reorder buffer
  hands on carry strictly increasing indices: none is out of order and none is handed on twice.
\<close>

theorem reorder_delivers_in_order:
  "sorted_wrt (<) (map pk_index (rtp.deliver (RtpReorderBuffer_new max_packets) arrivals))"
  using rtp.deliver_increasing [OF reorder_ok_new] by simp

text \<open>
  A push that neither drops the packet nor reports a gap loses nothing: what it hands on together
  with what stays buffered is exactly what was buffered before together with the new packet.
\<close>

theorem reorder_push_conserves:
  assumes "reorder_ok b" and "RtpReorderBuffer_push b packet now = (b', r)"
    and "rr_dropped r = None" and "rr_recovery r = None"
  shows "set (rr_ready r) \<union> held (rb_packets b') = insert packet (held (rb_packets b))"
  using push_accepted [OF assms(1-3)] assms(4) by (auto simp: accepted_push_def)

text \<open>A packet with a given index, for the examples below.\<close>

definition sample_packet :: "nat \<Rightarrow> RtpPacket" where
  "sample_packet i = \<lparr> pk_index = i,
     pk_header = \<lparr> rh_payload_type = 96, rh_sequence_number = of_nat i, rh_timestamp = 0, rh_ssrc = 7,
       rh_payload_offset = 12, rh_has_padding = False, rh_gs_video_header = None \<rparr>,
     pk_plaintext = [], pk_origin = Authenticated \<rparr>"

lemmas reorder_eval = RtpReorderBuffer_push_def RtpReorderBuffer_new_def reorder_loop.simps drain.simps bt_get_def
  bt_remove_def bt_first_def gap_started_def dropped_result_def MJOLNIR_REORDER_DEQUEUE_TIMEOUT_def millis_def
  sample_packet_def

definition sample_buffer :: RtpReorderBuffer where
  "sample_buffer = fst (RtpReorderBuffer_push (RtpReorderBuffer_new 8) (sample_packet 5) 0)"

lemma sample_buffer_ok: "reorder_ok sample_buffer"
  unfolding sample_buffer_def using push_ok [OF reorder_ok_new] by blast

lemma sample_push:
  "RtpReorderBuffer_push sample_buffer (sample_packet 7) 2 =
     (\<lparr> rb_next_index = Some 6, rb_packets = [(7, sample_packet 7)], rb_max_packets = 8, rb_gap_wait = Some (6, 2) \<rparr>,
      \<lparr> rr_ready = [], rr_nack = Some (6, 6), rr_recovery = None, rr_dropped = None, rr_fec_repaired = 0 \<rparr>)"
  by (simp add: sample_buffer_def reorder_eval)

theorem reorder_push_conserves_witness:
  "held (rb_packets (fst (RtpReorderBuffer_push sample_buffer (sample_packet 7) 2)))
     = insert (sample_packet 7) (held (rb_packets sample_buffer))"
  using reorder_push_conserves [OF sample_buffer_ok sample_push] by (simp add: sample_push)

text \<open>After every accepted push the buffer is bounded: it is empty, or it holds fewer than
  \<open>max_packets\<close> packets behind a gap narrower than the window that has been waited for less than the
  dequeue timeout of 52 ms. No gap is waited for longer.
\<close>

lemma reorder_push_bounded:
  assumes "reorder_ok b" and "RtpReorderBuffer_push b packet now = (b', r)" and "rr_dropped r = None"
  shows "rb_packets b' = [] \<or>
    (length (rb_packets b') < rb_max_packets b \<and>
     (\<exists>expected started first p. rb_next_index b' = Some expected \<and> rb_gap_wait b' = Some (expected, started)
        \<and> now - started < millis 52 \<and> bt_first (rb_packets b') = Some (first, p)
        \<and> expected < first \<and> first - expected < rb_max_packets b))"
proof -
  from push_accepted [OF assms] obtain st where "accepted_push b packet now b' r st" ..
  then have "loop_done (rb_max_packets b) now st" and
    "b' = b\<lparr> rb_next_index := Some (lo_next st), rb_packets := lo_packets st, rb_gap_wait := lo_gap_wait st \<rparr>"
    by (simp_all add: accepted_push_def)
  then show ?thesis
    by (cases "rb_packets b'")
      (auto simp: loop_done_def bt_first_def MJOLNIR_REORDER_DEQUEUE_TIMEOUT_def split: list.splits)
qed

theorem reorder_push_bounded_witness:
  "length (rb_packets (fst (RtpReorderBuffer_push sample_buffer (sample_packet 7) 2))) < 8"
  using reorder_push_bounded [OF sample_buffer_ok sample_push] by (auto simp: sample_push sample_buffer_def reorder_eval)

end
