(* ===== verification/FecBlock.thy ===== *)
theory FecBlock
  imports Cauchy Rtp
begin

text \<open>
  One FEC block (\<open>FecBlock\<close>): the slots of its data and parity packets, the runs of missing data it asks
  for, and \<open>finish\<close>, which hands on the data packets of a complete block or rebuilds the missing ones from
  parity. The main lemma carries the decoder theorem to whole packets: a rebuilt packet is byte for byte
  the packet that was sent.
\<close>

section \<open>Model\<close>

record FecBlock =
  fb_layout :: FecPacketLayout
  fb_base_index :: nat
  fb_shards :: "RtpPacket option list"
  fb_repair_failed :: bool

definition FecBlock_new :: "FecPacketLayout \<Rightarrow> nat \<Rightarrow> FecBlock" where
  "FecBlock_new layout packet_index =
     \<lparr> fb_layout = layout,
       fb_base_index = packet_index - fl_shard_index layout,
       fb_shards = replicate (fl_data_shards layout + fl_parity_shards layout) None,
       fb_repair_failed = False \<rparr>"

definition FecBlock_matches :: "FecBlock \<Rightarrow> FecPacketLayout \<Rightarrow> nat \<Rightarrow> bool" where
  "FecBlock_matches b layout packet_index \<longleftrightarrow>
     fl_frame_index (fb_layout b) = fl_frame_index layout
     \<and> fl_block_index (fb_layout b) = fl_block_index layout
     \<and> fl_last_block_index (fb_layout b) = fl_last_block_index layout
     \<and> fl_data_shards (fb_layout b) = fl_data_shards layout
     \<and> fl_parity_shards (fb_layout b) = fl_parity_shards layout
     \<and> fb_base_index b = packet_index - fl_shard_index layout"

abbreviation data_slots :: "FecBlock \<Rightarrow> RtpPacket option list" where
  "data_slots b \<equiv> take (fl_data_shards (fb_layout b)) (fb_shards b)"

definition position_none :: "'a option list \<Rightarrow> nat option" where
  "position_none xs = find (\<lambda>i. xs ! i = None) [0..<length xs]"

definition rposition_none :: "'a option list \<Rightarrow> nat option" where
  "rposition_none xs = find (\<lambda>i. xs ! i = None) (rev [0..<length xs])"

definition missing_data_range :: "FecBlock \<Rightarrow> (nat \<times> nat) option" where
  "missing_data_range b =
     (case position_none (data_slots b) of
        None \<Rightarrow> None
      | Some first \<Rightarrow>
          let last = (case rposition_none (data_slots b) of None \<Rightarrow> first | Some l \<Rightarrow> l)
          in Some (fb_base_index b + first, fb_base_index b + last))"

definition first_missing_data_run :: "FecBlock \<Rightarrow> (nat \<times> nat) option" where
  "first_missing_data_run b =
     (case position_none (data_slots b) of
        None \<Rightarrow> None
      | Some first \<Rightarrow>
          let len = length (takeWhile (\<lambda>shard. shard = None) (drop first (data_slots b)))
          in Some (fb_base_index b + first, fb_base_index b + first + (len - 1)))"

text \<open>\<open>None\<close> is the panic of an index past the slots.\<close>

definition FecBlock_insert :: "FecBlock \<Rightarrow> FecPacketLayout \<Rightarrow> RtpPacket \<Rightarrow> (FecBlock \<times> NvstDropReason option) option" where
  "FecBlock_insert b layout packet =
     (let i = fl_shard_index layout
      in if i \<ge> length (fb_shards b) then None
         else if fb_shards b ! i \<noteq> None then Some (b, Some (DuplicateRtpPacket (pk_index packet)))
         else Some (b\<lparr> fb_shards := (fb_shards b)[i := Some packet], fb_repair_failed := False \<rparr>, None))"

definition has_enough_shards :: "FecBlock \<Rightarrow> bool" where
  "has_enough_shards b \<longleftrightarrow>
     length (filter (\<lambda>shard. shard \<noteq> None) (fb_shards b)) \<ge> fl_data_shards (fb_layout b)"

definition stamp_shard :: "FecPacketLayout \<Rightarrow> nat \<Rightarrow> nat \<Rightarrow> bytes \<Rightarrow> nat \<Rightarrow> bytes \<Rightarrow> bytes" where
  "stamp_shard layout base_index extension_start envelope index plaintext =
     (let sequence = (of_nat (base_index + index) :: u16);
          p = write_at 0 envelope plaintext;
          p = write_at 2 (be16 sequence) p;
          p = write_at (extension_start + 4) (le32 (fl_frame_index layout)) p
      in p[extension_start + 11 :=
             push_bit 6 (fl_last_block_index layout) OR push_bit 4 (fl_block_index layout)])"

definition repair_packet :: "FecPacketLayout \<Rightarrow> nat \<Rightarrow> nat \<Rightarrow> bytes \<Rightarrow> nat \<Rightarrow> bytes option \<Rightarrow> NvstDropReason + RtpPacket" where
  "repair_packet layout base_index extension_start envelope index shard =
     (case shard of
        None \<Rightarrow> Inl unsupported_repair
      | Some plaintext \<Rightarrow>
          if length plaintext < extension_start + NV_VIDEO_PACKET_LEN
          then Inl (MalformedRtp InvalidExtensionLength)
          else
            let plaintext = stamp_shard layout base_index extension_start envelope index plaintext
            in case RtpHeader_parse plaintext of
                 Inl e \<Rightarrow> Inl (MalformedRtp e)
               | Inr header \<Rightarrow>
                   (case rh_gs_video_header header of
                      None \<Rightarrow> Inl (MalformedRtp MissingNvVideoHeader)
                    | Some extension \<Rightarrow>
                        if (extension ! 8 AND 0x0f) AND NOT (FLAG_SOF OR FLAG_EOF OR FLAG_CONTAINS_PIC_DATA) \<noteq> 0
                        then Inl unsupported_repair
                        else Inr \<lparr> pk_index = base_index + index, pk_header = header,
                                   pk_plaintext = plaintext, pk_origin = RecoveredData \<rparr>))"

text \<open>The loop over the data slots: present packets stay, missing ones are rebuilt, the first error ends it.\<close>

fun repair_slots :: "FecPacketLayout \<Rightarrow> nat \<Rightarrow> nat \<Rightarrow> bytes \<Rightarrow> nat \<Rightarrow> bytes option list \<Rightarrow> RtpPacket option list
    \<Rightarrow> NvstDropReason + RtpPacket option list" where
  "repair_slots layout base es envelope index (shard # shards) (Some packet # slots) =
     (case repair_slots layout base es envelope (index + 1) shards slots of
        Inl e \<Rightarrow> Inl e | Inr rest \<Rightarrow> Inr (Some packet # rest))"
| "repair_slots layout base es envelope index (shard # shards) (None # slots) =
     (case repair_packet layout base es envelope index shard of
        Inl e \<Rightarrow> Inl e
      | Inr recovered \<Rightarrow>
          (case repair_slots layout base es envelope (index + 1) shards slots of
             Inl e \<Rightarrow> Inl e | Inr rest \<Rightarrow> Inr (Some recovered # rest)))"
| "repair_slots layout base es envelope index shards slots = Inr slots"

definition present :: "'a option list \<Rightarrow> 'a list" where
  "present xs = List.map_filter (\<lambda>x. x) xs"

definition FecBlock_finish :: "FecBlock \<Rightarrow> nat \<Rightarrow> (NvstDropReason + RtpPacket list \<times> nat) option" where
  "FecBlock_finish b shard_len =
     (let layout = fb_layout b;
          missing = length (filter (\<lambda>shard. shard = None) (data_slots b))
      in if missing = 0 then Some (Inr (present (data_slots b), 0))
      else if \<exists>packet\<in>set (present (fb_shards b)). length (pk_plaintext packet) > shard_len
      then Some (Inl unsupported_repair)
      else case present (fb_shards b) of
        [] \<Rightarrow> Some (Inl unsupported_repair)
      | template # _ \<Rightarrow>
          (case reconstruct_nvst_cauchy_data
                  (map (map_option (\<lambda>packet. resize shard_len (pk_plaintext packet))) (fb_shards b))
                  (fl_data_shards layout) (fl_parity_shards layout) shard_len of
             Inl e \<Rightarrow> Some (Inl e)
           | Inr shard_bytes \<Rightarrow>
               if rh_payload_offset (pk_header template) < NV_VIDEO_PACKET_LEN
               then Some (Inl (MalformedRtp InvalidExtensionLength))
               else let extension_start = rh_payload_offset (pk_header template) - NV_VIDEO_PACKET_LEN
               in if extension_start > length (pk_plaintext template) then None
               else case repair_slots layout (fb_base_index b) extension_start
                           (take extension_start (pk_plaintext template)) 0
                           (take (fl_data_shards layout) shard_bytes) (data_slots b) of
                 Inl e \<Rightarrow> Some (Inl e)
               | Inr slots \<Rightarrow> Some (Inr (present slots, missing))))"

section \<open>Slots\<close>

lemma position_none_Some:
  "position_none xs = Some i \<Longrightarrow> i < length xs \<and> xs ! i = None \<and> (\<forall>j < i. xs ! j \<noteq> None)"
  by (auto simp: position_none_def find_Some_iff)

lemma position_none_None: "position_none xs = None \<longleftrightarrow> (\<forall>i < length xs. xs ! i \<noteq> None)"
  by (auto simp: position_none_def find_None_iff)

lemma rposition_none_Some: "rposition_none xs = Some i \<Longrightarrow> i < length xs \<and> xs ! i = None"
proof -
  assume "rposition_none xs = Some i"
  then obtain k where k: "k < length xs" "i = rev [0..<length xs] ! k" "xs ! i = None"
    by (auto simp: rposition_none_def find_Some_iff)
  then have "i \<in> set (rev [0..<length xs])" by (metis length_rev length_upt minus_nat.diff_0 nth_mem)
  with k(3) show ?thesis by simp
qed

lemma rposition_none_None: "rposition_none xs = None \<longleftrightarrow> (\<forall>i < length xs. xs ! i \<noteq> None)"
  by (auto simp: rposition_none_def find_None_iff)

lemma present_all: "\<forall>x\<in>set xs. x \<noteq> None \<Longrightarrow> present xs = map the xs"
  by (induction xs) (auto simp: present_def List.map_filter_simps)

lemma set_present: "set (present xs) = {x. Some x \<in> set xs}"
  by (induction xs) (auto simp: present_def List.map_filter_simps split: option.splits)

lemma length_present: "length (present xs) = length (filter (\<lambda>x. x \<noteq> None) xs)"
  by (induction xs) (auto simp: present_def List.map_filter_simps split: option.splits)

lemma count_missing: "length (filter (\<lambda>x. x = None) (take d xs)) = length (missing_data xs d)" if "d \<le> length xs"
proof -
  have "take d xs = map ((!) xs) [0..<d]" using that by (intro nth_equalityI) auto
  then show ?thesis by (simp add: missing_data_def filter_map o_def)
qed

lemma missing_none_iff:
  "d \<le> length xs \<Longrightarrow> length (filter (\<lambda>x. x = None) (take d xs)) = 0 \<longleftrightarrow> position_none (take d xs) = None"
  by (auto simp: position_none_None filter_empty_conv all_set_conv_all_nth)

text \<open>The two readings of what is missing: a run inside a range, both starting at the first empty slot.\<close>

lemma first_missing_data_run_Some:
  "first_missing_data_run b = None \<longleftrightarrow> position_none (data_slots b) = None"
  "missing_data_range b = None \<longleftrightarrow> position_none (data_slots b) = None"
  by (simp_all add: first_missing_data_run_def missing_data_range_def Let_def split: option.splits)

section \<open>Invariant\<close>

definition packet_ok :: "RtpPacket \<Rightarrow> bool" where
  "packet_ok p \<longleftrightarrow> rh_payload_offset (pk_header p) \<le> length (pk_plaintext p)"

definition block_ok :: "FecBlock \<Rightarrow> bool" where
  "block_ok b \<longleftrightarrow> 0 < fl_data_shards (fb_layout b) \<and> 0 < fl_parity_shards (fb_layout b)
     \<and> length (fb_shards b) = fl_data_shards (fb_layout b) + fl_parity_shards (fb_layout b)
     \<and> (\<forall>p. Some p \<in> set (fb_shards b) \<longrightarrow> packet_ok p)
     \<and> (fb_repair_failed b \<longrightarrow> position_none (data_slots b) \<noteq> None)"

lemma block_ok_new:
  assumes "0 < fl_data_shards layout" and "0 < fl_parity_shards layout"
  shows "block_ok (FecBlock_new layout i)"
  using assms by (auto simp: block_ok_def FecBlock_new_def)

lemma insert_no_panic:
  assumes "block_ok b" and "FecBlock_matches b layout i"
    and "fl_shard_index layout < fl_data_shards layout + fl_parity_shards layout" and "packet_ok packet"
  shows "\<exists>b' d. FecBlock_insert b layout packet = Some (b', d) \<and> block_ok b' \<and> fb_layout b' = fb_layout b
    \<and> fb_base_index b' = fb_base_index b
    \<and> (d = None \<longrightarrow> fb_shards b ! fl_shard_index layout = None
         \<and> fb_shards b' = (fb_shards b)[fl_shard_index layout := Some packet] \<and> \<not> fb_repair_failed b')
    \<and> (d \<noteq> None \<longrightarrow> b' = b)"
  using assms
  by (auto simp: FecBlock_insert_def FecBlock_matches_def block_ok_def Let_def dest: set_update_subset_insert [THEN subsetD])

section \<open>Repair of single packets\<close>

lemma repair_slots_Inr:
  assumes "repair_slots layout base es envelope index shards slots = Inr out" and "length shards = length slots"
  shows "length out = length slots \<and> (\<forall>k < length slots.
    (slots ! k \<noteq> None \<longrightarrow> out ! k = slots ! k) \<and>
    (slots ! k = None \<longrightarrow> (\<exists>q. repair_packet layout base es envelope (index + k) (shards ! k) = Inr q \<and> out ! k = Some q)))"
  using assms
proof (induction layout base es envelope index shards slots arbitrary: out rule: repair_slots.induct)
  case (1 layout base es envelope index shard shards packet slots)
  then obtain rest where "repair_slots layout base es envelope (index + 1) shards slots = Inr rest"
    "out = Some packet # rest" by (auto split: sum.splits)
  with 1(1) [of rest] 1(3) show ?case by (auto simp: nth_Cons split: nat.splits)
next
  case (2 layout base es envelope index shard shards slots)
  then obtain q rest where "repair_packet layout base es envelope index shard = Inr q"
    "repair_slots layout base es envelope (index + 1) shards slots = Inr rest" "out = Some q # rest"
    by (auto split: sum.splits)
  with 2(1) [of q rest] 2(3) show ?case by (auto simp: nth_Cons split: nat.splits)
qed simp_all

lemma repair_slots_ok:
  assumes "length shards = length slots"
    and "\<And>k. k < length slots \<Longrightarrow> slots ! k = None \<Longrightarrow>
      repair_packet layout base es envelope (index + k) (shards ! k) = Inr (f (index + k))"
  shows "repair_slots layout base es envelope index shards slots =
    Inr (map (\<lambda>k. if slots ! k = None then Some (f (index + k)) else slots ! k) [0..<length slots])"
  using assms
proof (induction slots arbitrary: index shards)
  case Nil
  then show ?case by simp
next
  case (Cons x slots)
  then obtain shard rest where s: "shards = shard # rest" by (cases shards) auto
  have "repair_slots layout base es envelope (index + 1) rest slots =
    Inr (map (\<lambda>k. if slots ! k = None then Some (f (index + Suc k)) else slots ! k) [0..<length slots])"
    using Cons.prems(1) Cons.prems(2) [of "Suc _"] s Cons.IH [of rest "index + 1"] by simp
  then show ?case
    using s Cons.prems(2) [of 0] by (cases x) (auto simp: map_upt_Suc simp del: upt_Suc)
qed

text \<open>What a data packet on the wire has to do with the block: envelope, sequence number and coordinates.\<close>

definition sent_packet :: "FecPacketLayout \<Rightarrow> nat \<Rightarrow> nat \<Rightarrow> bytes \<Rightarrow> nat \<Rightarrow> bytes \<Rightarrow> bool" where
  "sent_packet layout base es envelope j bs \<longleftrightarrow> es + 16 \<le> length bs
     \<and> (\<forall>k < es. bs ! k = (if k = 2 \<or> k = 3 then be16 (of_nat (base + j)) ! (k - 2) else envelope ! k))
     \<and> (\<forall>k < 4. bs ! (es + 4 + k) = le32 (fl_frame_index layout) ! k)
     \<and> bs ! (es + 11) = push_bit 6 (fl_last_block_index layout) OR push_bit 4 (fl_block_index layout)"

lemma stamp_restores:
  assumes sent: "sent_packet layout base es envelope j orig" and "length bs = length orig"
    and agree: "\<And>k. es \<le> k \<Longrightarrow> k < length orig \<Longrightarrow> bs ! k = orig ! k"
    and "length envelope = es" and "4 \<le> es"
  shows "stamp_shard layout base es envelope j bs = orig"
proof -
  have len: "es + 16 \<le> length orig" using sent by (simp add: sent_packet_def)
  define p1 where "p1 = write_at 0 envelope bs"
  define p2 where "p2 = write_at 2 (be16 (of_nat (base + j))) p1"
  define p3 where "p3 = write_at (es + 4) (le32 (fl_frame_index layout)) p2"
  have l1: "length p1 = length orig" using assms len by (simp add: p1_def length_write_at)
  then have l2: "length p2 = length orig" using len by (simp add: p2_def length_write_at)
  then have l3: "length p3 = length orig" using len by (simp add: p3_def length_write_at)
  have "p3 ! k = orig ! k" if "k < length orig" "k \<noteq> es + 11" for k
  proof -
    have n1: "p1 ! k = (if k < es then envelope ! k else bs ! k)"
      using assms len that by (simp add: p1_def nth_write_at)
    have n2: "p2 ! k = (if k = 2 \<or> k = 3 then be16 (of_nat (base + j)) ! (k - 2) else p1 ! k)"
      using l1 len that by (auto simp: p2_def nth_write_at)
    have n3: "p3 ! k = (if es + 4 \<le> k \<and> k < es + 8 then le32 (fl_frame_index layout) ! (k - (es + 4)) else p2 ! k)"
      using l2 len that by (auto simp: p3_def nth_write_at)
    consider "k < es" | "es \<le> k" "\<not> (es + 4 \<le> k \<and> k < es + 8)" | "es + 4 \<le> k" "k < es + 8" by linarith
    then show ?thesis
    proof cases
      case 1
      then show ?thesis using sent n1 n2 n3 by (simp add: sent_packet_def)
    next
      case 2
      then have "k \<noteq> 2" "k \<noteq> 3" "\<not> k < es" using assms(5) by auto
      with 2 show ?thesis using agree [of k] that(1) n1 n2 n3 by auto
    next
      case 3
      then obtain r where "k = es + 4 + r" "r < 4" by (metis add.assoc add_less_cancel_left le_iff_add numeral_Bit0)
      with 3 show ?thesis using sent n3 by (simp add: sent_packet_def)
    qed
  qed
  then have "p3[es + 11 := push_bit 6 (fl_last_block_index layout) OR push_bit 4 (fl_block_index layout)] = orig"
    using l3 len sent by (intro nth_equalityI) (auto simp: nth_list_update sent_packet_def)
  then show ?thesis by (simp add: stamp_shard_def Let_def p1_def p2_def p3_def)
qed

section \<open>Finishing a block\<close>

text \<open>Reading the bytes of the slots keeps what is missing and what has arrived.\<close>

lemma missing_data_map: "d \<le> length xs \<Longrightarrow> missing_data (map (map_option f) xs) d = missing_data xs d"
  unfolding missing_data_def by (rule filter_cong) auto

lemma enough_parity:
  assumes "length xs = d + p" and "d \<le> length (filter (\<lambda>x. x \<noteq> None) xs)"
  shows "length (missing_data xs d) \<le> length (received_parity xs d p)"
proof -
  have "xs = map ((!) xs) [0..<d] @ map (\<lambda>i. xs ! (d + i)) [0..<p]"
    using assms(1) by (intro nth_equalityI) (auto simp: nth_append)
  then have "filter (\<lambda>x. x \<noteq> None) xs =
      map ((!) xs) (filter (\<lambda>i. xs ! i \<noteq> None) [0..<d]) @ map (\<lambda>i. xs ! (d + i)) (received_parity xs d p)"
    by (metis (no_types, lifting) filter_append filter_map o_def filter_cong received_parity_def)
  with assms(2) have "d \<le> length (filter (\<lambda>i. xs ! i \<noteq> None) [0..<d]) + length (received_parity xs d p)" by simp
  moreover have "length (missing_data xs d) + length (filter (\<lambda>i. xs ! i \<noteq> None) [0..<d]) = d"
    using sum_length_filter_compl [of "\<lambda>i. xs ! i = None" "[0..<d]"] by (simp add: missing_data_def)
  ultimately show ?thesis by simp
qed

lemma finish_no_panic:
  assumes "block_ok b"
  shows "FecBlock_finish b shard_len \<noteq> None"
proof -
  have "length (pk_plaintext t) \<ge> rh_payload_offset (pk_header t) - NV_VIDEO_PACKET_LEN"
    if "present (fb_shards b) = t # ts" for t ts
  proof -
    have "Some t \<in> set (fb_shards b)" using that set_present [of "fb_shards b"] by auto
    with assms show ?thesis by (auto simp: block_ok_def packet_ok_def)
  qed
  then show ?thesis
    by (auto simp: FecBlock_finish_def Let_def not_less split: if_splits list.splits sum.splits)
qed

text \<open>A failed finish means data is missing, and leaves something to ask for.\<close>

lemma finish_error_missing:
  assumes "block_ok b" and "FecBlock_finish b shard_len = Some (Inl e)"
  shows "position_none (data_slots b) \<noteq> None"
  using assms missing_none_iff [of "fl_data_shards (fb_layout b)" "fb_shards b"]
  by (auto simp: FecBlock_finish_def block_ok_def Let_def)

lemma repair_packet_Inr:
  "repair_packet layout base es envelope i shard = Inr q \<Longrightarrow>
     pk_index q = base + i \<and> packet_ok q \<and> pk_origin q = RecoveredData"
  by (auto simp: repair_packet_def Let_def packet_ok_def dest: RtpHeader_parse_offset(2)
      split: option.splits if_splits sum.splits)

text \<open>A finished block hands on one packet per data slot, the received ones as they were.\<close>

lemma length_reconstruct:
  "reconstruct_nvst_cauchy_data shards d p l = Inr out \<Longrightarrow> length out = length shards"
  by (auto simp: reconstruct_nvst_cauchy_data_def Let_def length_restore split: if_splits sum.splits)

lemma finish_slots:
  assumes ok: "block_ok b" and fin: "FecBlock_finish b shard_len = Some (Inr (ready, n))"
  defines "d \<equiv> fl_data_shards (fb_layout b)"
  shows "length ready = d \<and> n = length (filter (\<lambda>s. s = None) (data_slots b)) \<and>
    (\<forall>k < d. fb_shards b ! k = Some (ready ! k) \<or>
       (fb_shards b ! k = None \<and> pk_index (ready ! k) = fb_base_index b + k \<and> packet_ok (ready ! k)
         \<and> pk_origin (ready ! k) = RecoveredData))"
proof (cases "length (filter (\<lambda>s. s = None) (data_slots b)) = 0")
  case True
  then have all: "\<forall>s\<in>set (data_slots b). s \<noteq> None" by (simp add: filter_empty_conv)
  with True fin have "ready = map the (data_slots b)" "n = 0" by (auto simp: FecBlock_finish_def Let_def present_all)
  moreover have "fb_shards b ! k \<noteq> None" if "k < d" for k
    using all ok that by (auto simp: block_ok_def d_def all_set_conv_all_nth)
  ultimately show ?thesis using True ok by (auto simp: block_ok_def d_def)
next
  case False
  let ?bytes = "map (map_option (\<lambda>packet. resize shard_len (pk_plaintext packet))) (fb_shards b)"
  from fin False obtain shards es env slots where
    rec: "reconstruct_nvst_cauchy_data ?bytes d (fl_parity_shards (fb_layout b)) shard_len = Inr shards"
    and rep: "repair_slots (fb_layout b) (fb_base_index b) es env 0 (take d shards) (data_slots b) = Inr slots"
    and res: "ready = present slots" "n = length (filter (\<lambda>s. s = None) (data_slots b))"
    by (auto simp: FecBlock_finish_def Let_def d_def split: if_splits list.splits sum.splits)
  have len: "length (data_slots b) = d" "length (take d shards) = length (data_slots b)"
    using length_reconstruct [OF rec] ok by (simp_all add: block_ok_def d_def)
  note slots = repair_slots_Inr [OF rep len(2)]
  have "slots ! k \<noteq> None" if "k < d" for k using slots that len by (cases "data_slots b ! k") auto
  then have all: "\<forall>s\<in>set slots. s \<noteq> None" using slots len by (auto simp: all_set_conv_all_nth)
  have "fb_shards b ! k = Some (the (slots ! k)) \<or> (fb_shards b ! k = None \<and> pk_index (the (slots ! k)) = fb_base_index b + k
      \<and> packet_ok (the (slots ! k)) \<and> pk_origin (the (slots ! k)) = RecoveredData)" if "k < d" for k
  proof -
    have k: "data_slots b ! k = fb_shards b ! k" "k < length (data_slots b)" using that len(1) by (simp_all add: d_def)
    show ?thesis
    proof (cases "fb_shards b ! k")
      case None
      with slots k obtain q where "repair_packet (fb_layout b) (fb_base_index b) es env (0 + k) (take d shards ! k) = Inr q"
        "slots ! k = Some q" by metis
      with repair_packet_Inr None show ?thesis by force
    next
      case (Some p)
      with slots k have "slots ! k = Some p" by (metis option.distinct(1))
      with Some show ?thesis by simp
    qed
  qed
  with res slots len present_all [OF all] show ?thesis by simp
qed

section \<open>Erasure recovery of whole packets\<close>

text \<open>
  A block received from a sender that encoded the packets \<open>data\<close>, each padded to \<open>l\<close> bytes: data slots hold
  packets as sent, parity slots agree with the code from the video metadata on, and every data packet
  carries the envelope of the first received packet and the coordinates of the block.
\<close>

definition flags_valid :: "bytes \<Rightarrow> bool" where
  "flags_valid extension \<longleftrightarrow>
     (extension ! 8 AND 0x0f) AND NOT (FLAG_SOF OR FLAG_EOF OR FLAG_CONTAINS_PIC_DATA) = 0"

definition received_block :: "FecBlock \<Rightarrow> nat \<Rightarrow> bytes list \<Rightarrow> (nat \<Rightarrow> RtpHeader) \<Rightarrow> bool" where
  "received_block b l data headers \<longleftrightarrow>
     (let d = length data; p = fl_parity_shards (fb_layout b); shards = fb_shards b;
          template = hd (present shards);
          es = rh_payload_offset (pk_header template) - 16
      in fl_data_shards (fb_layout b) = d \<and> 0 < d \<and> 0 < p \<and> d + p \<le> 255 \<and> length shards = d + p
         \<and> (\<forall>q\<in>set (present shards). length (pk_plaintext q) \<le> l) \<and> (\<forall>j < d. length (data ! j) = l)
         \<and> 20 \<le> rh_payload_offset (pk_header template) \<and> packet_ok template
         \<and> (\<forall>j < d. \<forall>q. shards ! j = Some q \<longrightarrow> resize l (pk_plaintext q) = data ! j)
         \<and> (\<forall>i < p. \<forall>q. shards ! (d + i) = Some q \<longrightarrow>
              (\<forall>k. es \<le> k \<longrightarrow> k < l \<longrightarrow> resize l (pk_plaintext q) ! k = cauchy_parity_shard data p l i ! k))
         \<and> (\<forall>j < d. sent_packet (fb_layout b) (fb_base_index b) es (take es (pk_plaintext template)) j (data ! j))
         \<and> (\<forall>j < d. RtpHeader_parse (data ! j) = Inr (headers j)
              \<and> (\<exists>e. rh_gs_video_header (headers j) = Some e \<and> flags_valid e)))"

definition as_sent :: "FecBlock \<Rightarrow> bytes list \<Rightarrow> (nat \<Rightarrow> RtpHeader) \<Rightarrow> nat \<Rightarrow> RtpPacket" where
  "as_sent b data headers j =
     (case fb_shards b ! j of
        Some q \<Rightarrow> q
      | None \<Rightarrow> \<lparr> pk_index = fb_base_index b + j, pk_header = headers j, pk_plaintext = data ! j,
                  pk_origin = RecoveredData \<rparr>)"

lemma repair_packet_sent:
  assumes "sent_packet layout base es envelope j orig" and "length bs = length orig"
    and "\<And>k. es \<le> k \<Longrightarrow> k < length orig \<Longrightarrow> bs ! k = orig ! k" and "length envelope = es" and "4 \<le> es"
    and "RtpHeader_parse orig = Inr h" and "rh_gs_video_header h = Some e" and "flags_valid e"
  shows "repair_packet layout base es envelope j (Some bs) =
    Inr \<lparr> pk_index = base + j, pk_header = h, pk_plaintext = orig, pk_origin = RecoveredData \<rparr>"
  using stamp_restores [OF assms(1-5)] assms
  by (simp add: repair_packet_def sent_packet_def NV_VIDEO_PACKET_LEN_def flags_valid_def)

lemma received_block_shards:
  assumes "received_block b l data headers"
  defines "es \<equiv> rh_payload_offset (pk_header (hd (present (fb_shards b)))) - 16"
  shows "received_shards_on {es..} data (fl_parity_shards (fb_layout b)) l
    (map (map_option (\<lambda>packet. resize l (pk_plaintext packet))) (fb_shards b))"
  using assms by (auto simp: received_block_def received_shards_on_def Let_def)

lemma enough_present:
  assumes "received_block b l data headers" and "has_enough_shards b"
  shows "present (fb_shards b) \<noteq> []"
    and "length (missing_data (fb_shards b) (length data)) \<le> length (received_parity (fb_shards b) (length data) (fl_parity_shards (fb_layout b)))"
proof -
  from assms have "0 < length data" "length data \<le> length (filter (\<lambda>s. s \<noteq> None) (fb_shards b))"
    "length (fb_shards b) = length data + fl_parity_shards (fb_layout b)"
    by (auto simp: received_block_def has_enough_shards_def Let_def)
  then show "present (fb_shards b) \<noteq> []"
    and "length (missing_data (fb_shards b) (length data)) \<le> length (received_parity (fb_shards b) (length data) (fl_parity_shards (fb_layout b)))"
    using length_present [of "fb_shards b"] enough_parity by fastforce+
qed

lemma received_parity_map: "d + p \<le> length xs \<Longrightarrow> received_parity (map (map_option f) xs) d p = received_parity xs d p"
  unfolding received_parity_def by (rule filter_cong) auto

text \<open>The rebuilt slots of a received block.\<close>

lemma repair_received:
  assumes rb: "received_block b l data headers" and "has_enough_shards b"
  defines "es \<equiv> rh_payload_offset (pk_header (hd (present (fb_shards b)))) - 16"
  shows "\<exists>out. reconstruct_nvst_cauchy_data (map (map_option (\<lambda>packet. resize l (pk_plaintext packet))) (fb_shards b))
      (length data) (fl_parity_shards (fb_layout b)) l = Inr out \<and>
    repair_slots (fb_layout b) (fb_base_index b) es (take es (pk_plaintext (hd (present (fb_shards b))))) 0
      (take (length data) out) (data_slots b) = Inr (map (\<lambda>j. Some (as_sent b data headers j)) [0..<length data])"
proof -
  let ?d = "length data" and ?p = "fl_parity_shards (fb_layout b)"
  let ?bytes = "map (map_option (\<lambda>packet. resize l (pk_plaintext packet))) (fb_shards b)"
  let ?env = "take es (pk_plaintext (hd (present (fb_shards b))))"
  have on: "received_shards_on {es..} data ?p l ?bytes"
    using received_block_shards [OF rb] by (simp add: es_def)
  have len: "length (fb_shards b) = ?d + ?p" "fl_data_shards (fb_layout b) = ?d" and es: "4 \<le> es" "length ?env = es"
    and sizes: "\<And>j. j < ?d \<Longrightarrow> length (data ! j) = l"
    and sent: "\<And>j. j < ?d \<Longrightarrow> sent_packet (fb_layout b) (fb_base_index b) es ?env j (data ! j)"
    and parse: "\<And>j. j < ?d \<Longrightarrow> RtpHeader_parse (data ! j) = Inr (headers j)
      \<and> (\<exists>e. rh_gs_video_header (headers j) = Some e \<and> flags_valid e)"
    using rb by (auto simp: received_block_def Let_def es_def packet_ok_def)
  have "length (missing_data ?bytes ?d) \<le> length (received_parity ?bytes ?d ?p)"
    using enough_present(2) [OF rb assms(2)] len by (simp add: missing_data_map received_parity_map)
  from reconstruct_on [OF on this] obtain out where
    out: "reconstruct_nvst_cauchy_data ?bytes ?d ?p l = Inr out" "length out = length ?bytes"
    and all: "\<forall>j < ?d. \<exists>bs. out ! j = Some bs \<and> length bs = l \<and> (\<forall>k\<in>{es..}. k < l \<longrightarrow> bs ! k = data ! j ! k) \<and>
       (?bytes ! j \<noteq> None \<longrightarrow> ?bytes ! j = Some bs)"
    by (elim exE conjE)
  have bs: "\<exists>bs. out ! j = Some bs \<and> length bs = l \<and> (\<forall>k\<in>{es..}. k < l \<longrightarrow> bs ! k = data ! j ! k)" if "j < ?d" for j
    using all [rule_format, OF that] by (elim exE conjE) (intro exI conjI)
  have "repair_packet (fb_layout b) (fb_base_index b) es ?env (0 + j) (take ?d out ! j) = Inr (as_sent b data headers (0 + j))"
    if "j < length (data_slots b)" "data_slots b ! j = None" for j
  proof -
    from that len have j: "j < ?d" "fb_shards b ! j = None" by auto
    from bs [OF j(1)] obtain w where w: "out ! j = Some w" "length w = l" "\<And>k. es \<le> k \<Longrightarrow> k < l \<Longrightarrow> w ! k = data ! j ! k" by auto
    from parse [OF j(1)] obtain e where "rh_gs_video_header (headers j) = Some e" "flags_valid e" by blast
    then show ?thesis
      using repair_packet_sent [OF sent [OF j(1)], of w "headers j" e] w sizes [OF j(1)] es j parse [OF j(1)]
      by (simp add: as_sent_def)
  qed
  moreover have "length (take ?d out) = length (data_slots b)" using out(2) len by simp
  ultimately have "repair_slots (fb_layout b) (fb_base_index b) es ?env 0 (take ?d out) (data_slots b) =
      Inr (map (\<lambda>k. if data_slots b ! k = None then Some (as_sent b data headers (0 + k)) else data_slots b ! k)
        [0..<length (data_slots b)])"
    by (intro repair_slots_ok)
  also have "\<dots> = Inr (map (\<lambda>j. Some (as_sent b data headers j)) [0..<?d])"
    using len by (auto simp: as_sent_def)
  finally show ?thesis using out(1) by blast
qed

text \<open>
  C6: erasure recovery of whole packets. When as many packets of a block arrived as it has data packets,
  finishing the block succeeds and yields, in order, every data packet: the received ones as they were,
  and in place of each lost one a packet with the index, the parsed header and the exact bytes that were
  sent, although the envelope bytes of parity packets are no parity.
\<close>

theorem finish_restores_sent_packets:
  assumes "received_block b l data headers" and "has_enough_shards b"
  shows "FecBlock_finish b l = Some (Inr (map (as_sent b data headers) [0..<length data],
    length (missing_data (fb_shards b) (length data))))"
proof -
  let ?d = "length data" and ?m = "length (filter (\<lambda>shard. shard = None) (data_slots b))"
  have len: "length (fb_shards b) = ?d + fl_parity_shards (fb_layout b)" "fl_data_shards (fb_layout b) = ?d"
    and small: "\<not> (\<exists>packet\<in>set (present (fb_shards b)). length (pk_plaintext packet) > l)"
    and off: "\<not> rh_payload_offset (pk_header (hd (present (fb_shards b)))) < 16"
      "\<not> rh_payload_offset (pk_header (hd (present (fb_shards b)))) - 16 > length (pk_plaintext (hd (present (fb_shards b))))"
    using assms(1) by (auto simp: received_block_def Let_def packet_ok_def not_less)
  have count: "?m = length (missing_data (fb_shards b) ?d)" using count_missing [of ?d "fb_shards b"] len by simp
  show ?thesis
  proof (cases "?m = 0")
    case True
    then have all: "\<forall>s\<in>set (data_slots b). s \<noteq> None" by (simp add: filter_empty_conv)
    then have "map the (data_slots b) = map (as_sent b data headers) [0..<?d]"
      using len by (intro nth_equalityI) (auto simp: as_sent_def all_set_conv_all_nth split: option.splits)
    with True count all show ?thesis by (simp add: FecBlock_finish_def Let_def present_all)
  next
    case False
    obtain t ts where t: "present (fb_shards b) = t # ts"
      using enough_present(1) [OF assms] by (cases "present (fb_shards b)") auto
    from repair_received [OF assms] obtain out where
      rec: "reconstruct_nvst_cauchy_data (map (map_option (\<lambda>packet. resize l (pk_plaintext packet))) (fb_shards b))
        ?d (fl_parity_shards (fb_layout b)) l = Inr out"
      and rep: "repair_slots (fb_layout b) (fb_base_index b) (rh_payload_offset (pk_header t) - 16)
        (take (rh_payload_offset (pk_header t) - 16) (pk_plaintext t)) 0 (take ?d out) (data_slots b)
        = Inr (map (\<lambda>j. Some (as_sent b data headers j)) [0..<?d])" unfolding t list.sel by blast
    have "present (map (\<lambda>j. Some (as_sent b data headers j)) [0..<?d]) = map (as_sent b data headers) [0..<?d]"
      by (subst present_all) auto
    moreover have "missing_data (fb_shards b) ?d \<noteq> []" using False count by auto
    ultimately show ?thesis
      using False small off rec rep count len(2)
      unfolding FecBlock_finish_def Let_def NV_VIDEO_PACKET_LEN_def t list.sel by simp
  qed
qed

text \<open>A block of one data and one parity packet whose data packet is lost.\<close>

definition sample_extension :: bytes where
  "sample_extension = [0, 0, 0, 0, 0, 0, 0, 0, 5, 0, 0, 0, 0, 0, 0, 0]"

definition sample_bytes :: "u16 \<Rightarrow> bytes" where
  "sample_bytes seq = gs_datagram 0 [] False 96 seq 7 11 sample_extension [42]"

definition sample_header :: "u16 \<Rightarrow> RtpHeader" where
  "sample_header seq = \<lparr> rh_payload_type = 96, rh_sequence_number = seq, rh_timestamp = 7, rh_ssrc = 11,
     rh_payload_offset = 32, rh_has_padding = False, rh_gs_video_header = Some sample_extension \<rparr>"

definition sample_block :: FecBlock where
  "sample_block = \<lparr> fb_layout = \<lparr> fl_frame_index = 0, fl_block_index = 0, fl_last_block_index = 0,
       fl_shard_index = 1, fl_data_shards = 1, fl_parity_shards = 1 \<rparr>,
     fb_base_index = 5,
     fb_shards = [None, Some \<lparr> pk_index = 6, pk_header = sample_header 6, pk_plaintext = sample_bytes 6,
       pk_origin = Authenticated \<rparr>],
     fb_repair_failed = False \<rparr>"

lemma single_parity: "length bs = l \<Longrightarrow> cauchy_parity_shard [bs] 1 l 0 = bs"
proof -
  assume l: "length bs = l"
  obtain w where "gf256_inverse 1 = Some w" "gf256_multiply 1 w = 1" by (rule gf256_inverse_Some [of 1]) simp_all
  then have "nvst_cauchy_coefficient 0 0 1 = Some 1" by (simp add: nvst_cauchy_coefficient_def)
  with l show ?thesis
    by (auto simp: cauchy_parity_shard_def gf256_axpy_def intro!: nth_equalityI)
qed

lemma sample_bytes_length: "length (sample_bytes seq) = 33"
  by (simp add: sample_bytes_def gs_datagram_def sample_extension_def)

lemma sample_bytes_list: "sample_bytes seq = [0x90, 96, ucast (drop_bit 8 seq), ucast seq, 0, 0, 0, 7, 0, 0, 0, 11,
    0x47, 0x53, 0, 4, 0, 0, 0, 0, 0, 0, 0, 0, 5, 0, 0, 0, 0, 0, 0, 0, 42]"
  by (simp add: sample_bytes_def gs_datagram_def sample_extension_def be16_def be32_def GS_VIDEO_EXTENSION_PROFILE_def)

lemma sample_parse: "RtpHeader_parse (sample_bytes seq) = Inr (sample_header seq)"
  unfolding sample_bytes_def sample_header_def
  by (subst gs_datagram_parse) (simp_all add: sample_extension_def)

lemma sample_received: "received_block sample_block 33 [sample_bytes 5] (\<lambda>_. sample_header 5)"
proof -
  have "sent_packet (fb_layout sample_block) 5 16 (take 16 (sample_bytes 6)) 0 (sample_bytes 5)"
    unfolding sent_packet_def sample_bytes_list
    by (simp add: sample_block_def be16_def le32_def All_less_Suc eval_nat_numeral)
  moreover have "flags_valid sample_extension"
    by (simp add: flags_valid_def sample_extension_def FLAG_SOF_def FLAG_EOF_def FLAG_CONTAINS_PIC_DATA_def)
  moreover have "sample_bytes 6 ! k = sample_bytes 5 ! k" if "16 \<le> k" for k
  proof -
    from that obtain r where "k = 16 + r" by (auto simp: le_iff_add)
    then show ?thesis unfolding sample_bytes_list by simp
  qed
  ultimately show ?thesis
    using single_parity [of "sample_bytes 5" 33]
    by (simp add: received_block_def sample_block_def present_def List.map_filter_simps packet_ok_def sample_bytes_length
        sample_header_def sample_parse resize_def)
qed

theorem finish_restores_sent_packets_witness:
  "FecBlock_finish sample_block 33 = Some (Inr ([\<lparr> pk_index = 5, pk_header = sample_header 5,
     pk_plaintext = sample_bytes 5, pk_origin = RecoveredData \<rparr>], 1))"
proof -
  have "has_enough_shards sample_block" by (simp add: has_enough_shards_def sample_block_def)
  from finish_restores_sent_packets [OF sample_received this] show ?thesis
    by (simp add: as_sent_def sample_block_def missing_data_def)
qed

end
