(* ===== verification/FecReorder.thy ===== *)
theory FecReorder
  imports FecBlock Reorder
begin

text \<open>
  The FEC reorder buffer (\<open>FecReorderBuffer\<close>): packets are collected per block, complete blocks are
  finished in order, an incomplete head block is waited for while its missing run is requested again.
  The push never panics, and for a sender whose blocks do not overlap it is a \<open>reorder_stage\<close>.
\<close>

section \<open>Model\<close>

definition MAX_PENDING_FEC_BLOCKS :: nat where "MAX_PENDING_FEC_BLOCKS = 128"
definition NVST_FEC_RTP_HEADER_ALLOWANCE :: nat where "NVST_FEC_RTP_HEADER_ALLOWANCE = 16"

record FecReorderBuffer =
  fr_blocks :: "(nat, FecBlock) btree"
  fr_completed_through :: "nat option"
  fr_gap_wait :: "(nat \<times> instant) option"
  fr_shard_len :: nat

definition FecReorderBuffer_new :: "nat \<Rightarrow> FecReorderBuffer" where
  "FecReorderBuffer_new video_packet_size =
     \<lparr> fr_blocks = [], fr_completed_through = None, fr_gap_wait = None,
       fr_shard_len = video_packet_size + NVST_FEC_RTP_HEADER_ALLOWANCE \<rparr>"

definition FecReorderBuffer_reset :: "FecReorderBuffer \<Rightarrow> FecReorderBuffer" where
  "FecReorderBuffer_reset b = b\<lparr> fr_blocks := [], fr_completed_through := None, fr_gap_wait := None \<rparr>"

text \<open>The index past the last shard of a block.\<close>

definition block_end :: "nat \<Rightarrow> FecBlock \<Rightarrow> nat" where
  "block_end base b = base + (fl_data_shards (fb_layout b) + fl_parity_shards (fb_layout b))"

definition behind_gap :: "FecReorderBuffer \<Rightarrow> nat \<Rightarrow> bool" where
  "behind_gap b base = (case fr_completed_through b of None \<Rightarrow> False | Some expected \<Rightarrow> base > expected)"

text \<open>
  One turn of the loop: it ends with a state and result (\<open>Inl\<close>), or continues with them (\<open>Inr\<close>);
  \<open>None\<close> is a failed \<open>expect\<close>.
\<close>

definition fec_gap :: "instant \<Rightarrow> nat \<Rightarrow> nat \<Rightarrow> FecReorderBuffer \<times> ReorderResult
    \<Rightarrow> (FecReorderBuffer \<times> ReorderResult) + (FecReorderBuffer \<times> ReorderResult)" where
  "fec_gap now base expected s = (case s of (b, r) \<Rightarrow>
     let started = gap_started (fr_gap_wait b) expected now
     in if now - started < MJOLNIR_REORDER_DEQUEUE_TIMEOUT
           \<and> base - expected < MAX_REORDER_WINDOW
           \<and> length (fr_blocks b) < MAX_PENDING_FEC_BLOCKS
        then Inl (b\<lparr> fr_gap_wait := Some (expected, started) \<rparr>, r\<lparr> rr_nack := Some (expected, base - 1) \<rparr>)
        else Inr (b\<lparr> fr_completed_through := Some base, fr_gap_wait := None \<rparr>,
                  r\<lparr> rr_recovery := Some (PacketGap expected (base - 1)), rr_ready := [], rr_nack := None \<rparr>))"

definition fec_complete :: "instant \<Rightarrow> nat \<Rightarrow> FecBlock \<Rightarrow> FecReorderBuffer \<times> ReorderResult
    \<Rightarrow> ((FecReorderBuffer \<times> ReorderResult) + (FecReorderBuffer \<times> ReorderResult)) option" where
  "fec_complete now base completed s = (case s of (b, r) \<Rightarrow>
     let blocks = bt_remove base (fr_blocks b);
         repair_backup = (case missing_data_range completed of None \<Rightarrow> None | Some _ \<Rightarrow> Some completed)
     in case FecBlock_finish completed (fr_shard_len b) of
          None \<Rightarrow> None
        | Some (Inr (ready, repaired)) \<Rightarrow>
            Some (Inr (b\<lparr> fr_blocks := blocks, fr_completed_through := Some (block_end base completed),
                          fr_gap_wait := None \<rparr>,
                       r\<lparr> rr_ready := rr_ready r @ ready, rr_fec_repaired := rr_fec_repaired r + repaired \<rparr>))
        | Some (Inl reason) \<Rightarrow>
            (case repair_backup of
               None \<Rightarrow> None
             | Some pending \<Rightarrow>
                 let pending = pending\<lparr> fb_repair_failed := True \<rparr>
                 in case first_missing_data_run pending of
                      None \<Rightarrow> None
                    | Some (first_missing, last_missing) \<Rightarrow>
                        Some (Inl (b\<lparr> fr_blocks := bt_insert base pending blocks,
                                      fr_gap_wait := Some (first_missing, now) \<rparr>,
                                   r\<lparr> rr_nack := Some (first_missing, last_missing) \<rparr>))))"

definition fec_wait :: "instant \<Rightarrow> nat \<Rightarrow> FecBlock \<Rightarrow> FecReorderBuffer \<times> ReorderResult
    \<Rightarrow> ((FecReorderBuffer \<times> ReorderResult) + (FecReorderBuffer \<times> ReorderResult)) option" where
  "fec_wait now base head s = (case s of (b, r) \<Rightarrow>
     (case first_missing_data_run head of
        None \<Rightarrow> None
      | Some (first_missing, last_missing) \<Rightarrow>
          let started = gap_started (fr_gap_wait b) first_missing now;
              block_span = (case bt_last (fr_blocks b) of None \<Rightarrow> 0 | Some (last_base, _) \<Rightarrow> last_base - base)
          in if now - started < MJOLNIR_REORDER_DEQUEUE_TIMEOUT
                \<and> block_span < MAX_REORDER_WINDOW
                \<and> length (fr_blocks b) < MAX_PENDING_FEC_BLOCKS
             then Some (Inl (b\<lparr> fr_gap_wait := Some (first_missing, started) \<rparr>,
                             r\<lparr> rr_nack := Some (first_missing, last_missing) \<rparr>))
             else case missing_data_range head of
                    None \<Rightarrow> None
                  | Some (first_missing_index, last_missing_index) \<Rightarrow>
                      Some (Inr (b\<lparr> fr_blocks := bt_remove base (fr_blocks b),
                                    fr_completed_through := Some (block_end base head), fr_gap_wait := None \<rparr>,
                                 r\<lparr> rr_recovery := Some (PacketGap first_missing_index last_missing_index),
                                    rr_ready := [], rr_nack := None \<rparr>))))"

definition fec_turn :: "instant \<Rightarrow> FecReorderBuffer \<times> ReorderResult
    \<Rightarrow> ((FecReorderBuffer \<times> ReorderResult) + (FecReorderBuffer \<times> ReorderResult)) option" where
  "fec_turn now s = (case s of (b, r) \<Rightarrow>
     (case bt_first (fr_blocks b) of
        None \<Rightarrow> Some (Inl (b\<lparr> fr_gap_wait := None \<rparr>, r))
      | Some (base, head) \<Rightarrow>
          if behind_gap b base then Some (fec_gap now base (the (fr_completed_through b)) (b, r))
          else if has_enough_shards head \<and> \<not> fb_repair_failed head then fec_complete now base head (b, r)
          else if length (fr_blocks b) = 1 then Some (Inl (b, r))
          else fec_wait now base head (b, r)))"

definition fec_measure :: "FecReorderBuffer \<Rightarrow> nat" where
  "fec_measure b = 2 * length (fr_blocks b) +
     (case bt_first (fr_blocks b) of None \<Rightarrow> 0 | Some (base, _) \<Rightarrow> if behind_gap b base then 1 else 0)"

lemma fec_measure_removed:
  assumes "bt_first (fr_blocks b) = Some (base, head)" and "fr_blocks b' = bt_remove base (fr_blocks b)"
  shows "fec_measure b' < fec_measure b"
proof -
  have "fec_measure b' \<le> 2 * length (fr_blocks b') + 1"
    by (simp add: fec_measure_def split: option.splits)
  moreover have "2 * length (fr_blocks b) \<le> fec_measure b" by (simp add: fec_measure_def)
  moreover have "length (fr_blocks b') < length (fr_blocks b)"
    unfolding assms(2) using assms(1) by (rule bt_first_length)
  ultimately show ?thesis by linarith
qed

lemma fec_turn_decreases:
  assumes "fec_turn now (b, r) = Some (Inr (b', r'))"
  shows "fec_measure b' < fec_measure b"
proof -
  obtain base head where first: "bt_first (fr_blocks b) = Some (base, head)"
    using assms by (auto simp: fec_turn_def split: option.splits)
  show ?thesis
  proof (cases "behind_gap b base")
    case True
    then have "fr_blocks b' = fr_blocks b" "fr_completed_through b' = Some base"
      using assms first by (auto simp: fec_turn_def fec_gap_def Let_def split: if_splits)
    with True first show ?thesis by (simp add: fec_measure_def behind_gap_def)
  next
    case False
    then have "fr_blocks b' = bt_remove base (fr_blocks b)"
      using assms first
      by (auto simp: fec_turn_def fec_complete_def fec_wait_def Let_def split: if_splits option.splits sum.splits)
    with first show ?thesis by (rule fec_measure_removed)
  qed
qed

function fec_loop :: "instant \<Rightarrow> FecReorderBuffer \<times> ReorderResult \<Rightarrow> (FecReorderBuffer \<times> ReorderResult) option" where
  "fec_loop now s =
     (case fec_turn now s of
        None \<Rightarrow> None
      | Some (Inl result) \<Rightarrow> Some result
      | Some (Inr s') \<Rightarrow> fec_loop now s')"
  by pat_completeness auto
termination
  by (relation "measure (\<lambda>(_, b, _). fec_measure b)") (auto dest: fec_turn_decreases)

declare fec_loop.simps [simp del]

text \<open>\<open>entry(packet_base).or_insert_with(..)\<close>: the block the packet goes to.\<close>

definition target_block :: "FecReorderBuffer \<Rightarrow> FecPacketLayout \<Rightarrow> nat \<Rightarrow> FecBlock" where
  "target_block b layout packet_index =
     (case bt_get (fr_blocks b) (packet_index - fl_shard_index layout) of
        Some block \<Rightarrow> block
      | None \<Rightarrow> FecBlock_new layout packet_index)"

definition FecReorderBuffer_push ::
    "FecReorderBuffer \<Rightarrow> RtpPacket \<Rightarrow> FecPacketLayout \<Rightarrow> instant \<Rightarrow> (FecReorderBuffer \<times> ReorderResult) option" where
  "FecReorderBuffer_push b packet layout now =
     (let packet_base = pk_index packet - fl_shard_index layout
      in if (case fr_completed_through b of None \<Rightarrow> False | Some through \<Rightarrow> pk_index packet < through)
         then Some (b, dropped_result None)
         else
           let block = target_block b layout (pk_index packet);
               b = b\<lparr> fr_blocks := bt_insert packet_base block (fr_blocks b) \<rparr>
           in if \<not> FecBlock_matches block layout (pk_index packet)
              then Some (b, dropped_result (Some unsupported_repair))
              else case FecBlock_insert block layout packet of
                     None \<Rightarrow> None
                   | Some (block, dropped) \<Rightarrow>
                       let b = b\<lparr> fr_blocks := bt_insert packet_base block (fr_blocks b) \<rparr>
                       in if dropped \<noteq> None then Some (b, dropped_result dropped)
                          else fec_loop now (b, dropped_result None))"

section \<open>No panic\<close>

definition fec_ok :: "FecReorderBuffer \<Rightarrow> bool" where
  "fec_ok b \<longleftrightarrow> bt_ok (fr_blocks b) \<and>
     (\<forall>base blk. bt_get (fr_blocks b) base = Some blk \<longrightarrow> block_ok blk \<and> fb_base_index blk = base)"

lemma fec_ok_new: "fec_ok (FecReorderBuffer_new n)" and fec_ok_reset: "fec_ok (FecReorderBuffer_reset b)"
  by (simp_all add: fec_ok_def FecReorderBuffer_new_def FecReorderBuffer_reset_def bt.invar_empty bt.get_empty)

lemma fec_ok_insert:
  "fec_ok b \<Longrightarrow> block_ok blk \<Longrightarrow> fb_base_index blk = base \<Longrightarrow> fr_blocks b' = bt_insert base blk (fr_blocks b) \<Longrightarrow> fec_ok b'"
  by (auto simp: fec_ok_def bt.get_put bt.invar_put split: if_splits)

lemma fec_ok_remove: "fec_ok b \<Longrightarrow> fr_blocks b' = bt_remove base (fr_blocks b) \<Longrightarrow> fec_ok b'"
  by (auto simp: fec_ok_def bt.get_remove bt.invar_remove split: if_splits)

lemma fec_ok_same: "fec_ok b \<Longrightarrow> fr_blocks b' = fr_blocks b \<Longrightarrow> fec_ok b'"
  by (simp add: fec_ok_def)

lemma incomplete_missing:
  assumes "block_ok blk" and "\<not> (has_enough_shards blk \<and> \<not> fb_repair_failed blk)"
  shows "position_none (data_slots blk) \<noteq> None"
proof
  assume none: "position_none (data_slots blk) = None"
  then have "\<forall>s\<in>set (data_slots blk). s \<noteq> None" by (auto simp: position_none_None all_set_conv_all_nth)
  then have "filter (\<lambda>s. s \<noteq> None) (data_slots blk) = data_slots blk" by simp
  moreover have "length (filter (\<lambda>s. s \<noteq> None) (fb_shards blk)) \<ge> length (filter (\<lambda>s. s \<noteq> None) (data_slots blk))"
    by (metis append_take_drop_id filter_append le_add1 length_append)
  ultimately have "has_enough_shards blk" using assms(1) by (simp add: has_enough_shards_def block_ok_def)
  with assms none show False by (auto simp: block_ok_def)
qed

definition outcome :: "'a + 'a \<Rightarrow> 'a" where
  "outcome res = (case res of Inl x \<Rightarrow> x | Inr x \<Rightarrow> x)"

lemma outcome_simps [simp]: "outcome (Inl x) = x" "outcome (Inr x) = x"
  by (simp_all add: outcome_def)

lemma repair_failed_ok:
  "block_ok blk \<Longrightarrow> position_none (data_slots blk) \<noteq> None \<Longrightarrow> block_ok (blk\<lparr> fb_repair_failed := True \<rparr>)"
  by (simp add: block_ok_def)

lemma fec_complete_ok:
  assumes "fec_ok b" and "block_ok head" and "fb_base_index head = base"
  shows "\<exists>res. fec_complete now base head (b, r) = Some res \<and> fec_ok (fst (outcome res))"
proof -
  from finish_no_panic [OF assms(2)] obtain out where out: "FecBlock_finish head (fr_shard_len b) = Some out" by blast
  show ?thesis
  proof (cases out)
    case (Inr x)
    with out assms(1) show ?thesis
      by (auto simp: fec_complete_def Let_def split: prod.splits intro: fec_ok_remove)
  next
    case (Inl e)
    with finish_error_missing [OF assms(2)] out have miss: "position_none (data_slots head) \<noteq> None" by simp
    then have "missing_data_range head \<noteq> None" "first_missing_data_run (head\<lparr> fb_repair_failed := True \<rparr>) \<noteq> None"
      by (simp_all only: first_missing_data_run_Some) simp_all
    then obtain f l where fl: "missing_data_range head \<noteq> None"
      "first_missing_data_run (head\<lparr> fb_repair_failed := True \<rparr>) = Some (f, l)" by auto
    let ?b = "b\<lparr> fr_blocks := bt_insert base (head\<lparr> fb_repair_failed := True \<rparr>) (bt_remove base (fr_blocks b)),
      fr_gap_wait := Some (f, now) \<rparr>"
    have "fec_ok (b\<lparr> fr_blocks := bt_remove base (fr_blocks b) \<rparr>)" using assms(1) by (rule fec_ok_remove) simp
    then have "fec_ok ?b"
      by (rule fec_ok_insert [OF _ repair_failed_ok [OF assms(2) miss]]) (simp_all add: assms(3))
    with out Inl fl show ?thesis by (auto simp: fec_complete_def Let_def)
  qed
qed

lemma fec_wait_ok:
  assumes "fec_ok b" and "position_none (data_slots head) \<noteq> None"
  shows "\<exists>res. fec_wait now base head (b, r) = Some res \<and> fec_ok (fst (outcome res))"
proof -
  from assms(2) obtain f l f' l' where "first_missing_data_run head = Some (f, l)" "missing_data_range head = Some (f', l')"
    using first_missing_data_run_Some [of head] by fastforce
  with assms(1) show ?thesis
    by (auto simp: fec_wait_def Let_def intro: fec_ok_remove fec_ok_same)
qed

lemma fec_turn_ok:
  assumes "fec_ok b"
  shows "\<exists>res. fec_turn now (b, r) = Some res \<and> fec_ok (fst (outcome res))"
proof (cases "bt_first (fr_blocks b)")
  case None
  with assms show ?thesis by (auto simp: fec_turn_def intro: fec_ok_same)
next
  case (Some e)
  then obtain base head where first: "bt_first (fr_blocks b) = Some (base, head)" by (cases e) auto
  then have head: "block_ok head" "fb_base_index head = base"
    using assms bt_first_contains by (fastforce simp: fec_ok_def)+
  have "fec_ok (fst (outcome (fec_gap now base expected (b, r))))" for expected
    using assms by (auto simp: fec_gap_def Let_def intro: fec_ok_same)
  then show ?thesis
    using first assms fec_complete_ok [OF assms head] fec_wait_ok [OF assms incomplete_missing [OF head(1)]]
    by (auto simp: fec_turn_def)
qed

lemma fec_loop_ok: "fec_ok b \<Longrightarrow> \<exists>b' r'. fec_loop now (b, r) = Some (b', r') \<and> fec_ok b'"
proof (induction now "(b, r)" arbitrary: b r rule: fec_loop.induct)
  case (1 now b r)
  from fec_turn_ok [OF 1(2), of now r] obtain res where res: "fec_turn now (b, r) = Some res" "fec_ok (fst (outcome res))" by blast
  then show ?case
    using 1(1) by (cases res) (auto simp: fec_loop.simps [of now "(b, r)"])
qed

lemma target_block_ok:
  assumes "fec_ok b" and "0 < fl_data_shards layout" and "0 < fl_parity_shards layout"
  shows "block_ok (target_block b layout i)" and "fb_base_index (target_block b layout i) = i - fl_shard_index layout"
  using assms block_ok_new [of layout i]
  by (auto simp: fec_ok_def FecBlock_new_def target_block_def split: option.splits)

lemma fec_push_ok:
  assumes "fec_ok b" and "packet_ok packet" and "FecPacketLayout_from_packet packet = Some layout"
  shows "\<exists>b' r. FecReorderBuffer_push b packet layout now = Some (b', r) \<and> fec_ok b'"
proof -
  note l = FecPacketLayout_bounds [OF assms(3)]
  let ?base = "pk_index packet - fl_shard_index layout"
  define block where "block = target_block b layout (pk_index packet)"
  note blk = target_block_ok [OF assms(1) l(1,2), of "pk_index packet", folded block_def]
  let ?b1 = "b\<lparr> fr_blocks := bt_insert ?base block (fr_blocks b) \<rparr>"
  have ok1: "fec_ok ?b1" using assms(1) blk by (rule fec_ok_insert) simp
  show ?thesis
  proof (cases "FecBlock_matches block layout (pk_index packet)")
    case False
    with ok1 assms(1) show ?thesis
      by (auto simp: FecReorderBuffer_push_def Let_def block_def [symmetric] split: option.splits)
  next
    case True
    from insert_no_panic [OF blk(1) True l(3) assms(2)] obtain block' d where
      ins: "FecBlock_insert block layout packet = Some (block', d)" "block_ok block'" "fb_base_index block' = ?base"
      using blk(2) by auto
    have ok2: "fec_ok (?b1\<lparr> fr_blocks := bt_insert ?base block' (fr_blocks ?b1) \<rparr>)"
      using ok1 ins(2,3) by (rule fec_ok_insert) simp
    from True ins(1) assms(1) ok2 fec_loop_ok [OF ok2, of now "dropped_result None"] show ?thesis
      by (auto simp: FecReorderBuffer_push_def Let_def block_def [symmetric] split: option.splits)
  qed
qed

text \<open>
  Pushing a packet into the FEC reorder buffer never panics: the slot index, the slices of a finish
  and the three \<open>expect\<close> calls of the loop are safe, for every layout the parser accepts and every packet
  whose payload offset lies inside it; and the loop ends.
\<close>

theorem fec_push_no_panic:
  assumes "fec_ok b" and "packet_ok packet" and "FecPacketLayout_from_packet packet = Some layout"
  shows "\<exists>b' r. FecReorderBuffer_push b packet layout now = Some (b', r) \<and> fec_ok b'"
  using assms by (rule fec_push_ok)

text \<open>A parity packet of a block of one data and one parity packet, the first arrival of a stream.\<close>

definition parity_extension :: bytes where
  "parity_extension = [0, 0, 0, 0, 0, 0, 0, 0, 5, 0, 0, 0, 0x40, 0x16, 0x40, 0]"

definition parity_packet :: RtpPacket where
  "parity_packet = \<lparr> pk_index = 6,
     pk_header = \<lparr> rh_payload_type = 96, rh_sequence_number = 6, rh_timestamp = 7, rh_ssrc = 11,
       rh_payload_offset = 32, rh_has_padding = False, rh_gs_video_header = Some parity_extension \<rparr>,
     pk_plaintext = gs_datagram 0 [] False 96 6 7 11 parity_extension [42], pk_origin = Authenticated \<rparr>"

definition parity_layout :: FecPacketLayout where
  "parity_layout = \<lparr> fl_frame_index = 0, fl_block_index = 0, fl_last_block_index = 0,
     fl_shard_index = 1, fl_data_shards = 1, fl_parity_shards = 1 \<rparr>"

lemma parity_packet_layout: "FecPacketLayout_from_packet parity_packet = Some parity_layout"
  by (simp add: FecPacketLayout_from_packet_def parity_packet_def parity_extension_def le32_at_def from_le32_def
      from_be32_def div_ceil_def parity_layout_def)

lemma parity_packet_ok: "packet_ok parity_packet"
  by (simp add: packet_ok_def parity_packet_def gs_datagram_def parity_extension_def)

theorem fec_push_no_panic_witness:
  "FecReorderBuffer_push (FecReorderBuffer_new 17) parity_packet parity_layout 0 \<noteq> None"
  using fec_push_no_panic [OF fec_ok_new parity_packet_ok parity_packet_layout, of 17 0] by auto

section \<open>In-order delivery\<close>

text \<open>
  A sender's plan: the first index and the number of packets of each of its blocks. Blocks do not
  overlap. A cut is an index that no block of the plan straddles.
\<close>

definition well_planned :: "(nat \<times> nat) set \<Rightarrow> bool" where
  "well_planned plan \<longleftrightarrow> (\<forall>s n s' n'. (s, n) \<in> plan \<longrightarrow> (s', n') \<in> plan \<longrightarrow>
     (s = s' \<longrightarrow> n = n') \<and> (s < s' \<longrightarrow> s + n \<le> s'))"

definition cut :: "(nat \<times> nat) set \<Rightarrow> nat \<Rightarrow> bool" where
  "cut plan c \<longleftrightarrow> (\<forall>s n. (s, n) \<in> plan \<longrightarrow> s + n \<le> c \<or> c \<le> s)"

lemma cut_start: "well_planned plan \<Longrightarrow> (s, n) \<in> plan \<Longrightarrow> cut plan s"
  and cut_end: "well_planned plan \<Longrightarrow> (s, n) \<in> plan \<Longrightarrow> cut plan (s + n)"
  unfolding well_planned_def cut_def by (metis linorder_neqE_nat order.trans le_add1 order.refl)+

definition fec_frontier :: "FecReorderBuffer \<Rightarrow> nat" where
  "fec_frontier b = (case fr_completed_through b of None \<Rightarrow> 0 | Some c \<Rightarrow> c)"

definition aligned :: "nat \<Rightarrow> FecBlock \<Rightarrow> bool" where
  "aligned base blk \<longleftrightarrow> (\<forall>i < length (fb_shards blk). \<forall>p. fb_shards blk ! i = Some p \<longrightarrow> pk_index p = base + i)"

definition block_total :: "FecBlock \<Rightarrow> nat" where
  "block_total blk = fl_data_shards (fb_layout blk) + fl_parity_shards (fb_layout blk)"

definition planned :: "(nat \<times> nat) set \<Rightarrow> FecReorderBuffer \<Rightarrow> bool" where
  "planned plan b \<longleftrightarrow> well_planned plan \<and> cut plan (fec_frontier b) \<and>
     (\<forall>base blk. bt_get (fr_blocks b) base = Some blk \<longrightarrow>
        (base, block_total blk) \<in> plan \<and> fec_frontier b \<le> base \<and> aligned base blk)"

lemma finish_in_order:
  assumes "block_ok blk" and "aligned base blk" and "fb_base_index blk = base"
    and "FecBlock_finish blk l = Some (Inr (ready, n))"
  shows "map pk_index ready = [base..<base + fl_data_shards (fb_layout blk)]"
proof -
  note slots = finish_slots [OF assms(1,4)]
  show ?thesis
  proof (rule nth_equalityI)
    show "length (map pk_index ready) = length [base..<base + fl_data_shards (fb_layout blk)]" using slots by simp
    fix k assume "k < length (map pk_index ready)"
    then have k: "k < fl_data_shards (fb_layout blk)" "k < length ready" "k < length (fb_shards blk)"
      using slots assms(1) by (simp_all add: block_ok_def)
    then show "map pk_index ready ! k = [base..<base + fl_data_shards (fb_layout blk)] ! k"
      using slots assms(2,3) by (auto simp: aligned_def)
  qed
qed

lemma in_order_append:
  assumes "in_order lo m ps" and "m \<le> base" and "map pk_index qs = [base..<base + d]" and "base + d \<le> hi"
  shows "in_order lo hi (ps @ qs)"
proof -
  have q: "base \<le> pk_index q \<and> pk_index q < base + d" if "q \<in> set qs" for q
    using that assms(3) by (metis atLeastLessThan_iff image_eqI list.set_map set_upt)
  have "pk_index p < pk_index q" if "p \<in> set ps" "q \<in> set qs" for p q
    using that q assms(1,2) by (fastforce simp: in_order_def)
  with assms q show ?thesis by (fastforce simp: in_order_def sorted_wrt_append)
qed

text \<open>One turn keeps the plan, moves the frontier forward only and hands packets on in order.\<close>

definition turn_post :: "(nat \<times> nat) set \<Rightarrow> nat \<Rightarrow> FecReorderBuffer \<Rightarrow> FecReorderBuffer \<times> ReorderResult \<Rightarrow> bool" where
  "turn_post plan lo b s \<longleftrightarrow> planned plan (fst s) \<and> fec_frontier b \<le> fec_frontier (fst s)
     \<and> in_order lo (fec_frontier (fst s)) (rr_ready (snd s))"

lemma planned_same:
  "planned plan b \<Longrightarrow> fr_blocks b' = fr_blocks b \<Longrightarrow> fr_completed_through b' = fr_completed_through b \<Longrightarrow> planned plan b'"
  by (simp add: planned_def fec_frontier_def)

lemma planned_remove_first:
  assumes "planned plan b" and "fec_ok b" and first: "bt_first (fr_blocks b) = Some (base, head)"
    and "fr_blocks b' = bt_remove base (fr_blocks b)" and "fr_completed_through b' = Some (block_end base head)"
  shows "planned plan b'" and "fec_frontier b \<le> fec_frontier b'"
proof -
  have ok: "bt_ok (fr_blocks b)" using assms(2) by (simp add: fec_ok_def)
  have head: "(base, block_total head) \<in> plan" "fec_frontier b \<le> base" and wp: "well_planned plan"
    using assms(1) bt_first_contains [OF first] by (auto simp: planned_def)
  have fr: "fec_frontier b' = base + block_total head"
    using assms(5) by (simp add: fec_frontier_def block_end_def block_total_def)
  have later: "base + block_total head \<le> k" if "bt_get (bt_remove base (fr_blocks b)) k = Some blk" for k blk
  proof -
    have "base < k" using bt.remove_first_greater [OF ok first, of k] that by simp
    moreover have "(k, block_total blk) \<in> plan"
      using that assms(1) ok by (auto simp: planned_def bt.get_remove split: if_splits)
    ultimately show ?thesis using wp head(1) by (auto simp: well_planned_def)
  qed
  show "fec_frontier b \<le> fec_frontier b'" using fr head(2) by simp
  show "planned plan b'"
    using assms(1,4) later wp head cut_end [OF wp head(1)] ok fr
    by (auto simp: planned_def bt.get_remove split: if_splits)
qed

lemma fec_gap_planned:
  assumes "planned plan b" and "bt_first (fr_blocks b) = Some (base, head)" and "fec_ok b"
    and "fr_completed_through b = Some expected" and "in_order lo (fec_frontier b) (rr_ready r)"
  shows "turn_post plan lo b (outcome (fec_gap now base expected (b, r)))"
proof -
  have ok: "bt_ok (fr_blocks b)" using assms(3) by (simp add: fec_ok_def)
  have head: "(base, block_total head) \<in> plan" "fec_frontier b \<le> base" and wp: "well_planned plan"
    using assms(1) bt_first_contains [OF assms(2)] by (auto simp: planned_def)
  have least: "base \<le> k" if "bt_get (fr_blocks b) k = Some blk" for k blk
    using bt.first_least [OF ok assms(2)] that by simp
  have "planned plan (b\<lparr> fr_completed_through := Some base, fr_gap_wait := None \<rparr>)"
    using assms(1) least cut_start [OF wp head(1)] by (auto simp: planned_def fec_frontier_def)
  moreover have "planned plan (b\<lparr> fr_gap_wait := w \<rparr>)" for w using assms(1) by (rule planned_same) simp_all
  moreover have "in_order lo base []" using assms(5) head(2) by (simp add: in_order_def)
  ultimately show ?thesis
    using assms(5) head(2) by (simp add: fec_gap_def Let_def turn_post_def fec_frontier_def)
qed

lemma fec_complete_planned:
  assumes pl: "planned plan b" and first: "bt_first (fr_blocks b) = Some (base, head)" and ok: "fec_ok b"
    and ord: "in_order lo (fec_frontier b) (rr_ready r)" and res: "fec_complete now base head (b, r) = Some res"
  shows "turn_post plan lo b (outcome res)"
proof -
  have head: "block_ok head" "fb_base_index head = base" "aligned base head" "fec_frontier b \<le> base"
    "(base, block_total head) \<in> plan" "bt_get (fr_blocks b) base = Some head"
    using bt_first_contains [OF first] ok pl by (auto simp: fec_ok_def planned_def)
  have bt: "bt_ok (fr_blocks b)" using ok by (simp add: fec_ok_def)
  from res obtain out where out: "FecBlock_finish head (fr_shard_len b) = Some out"
    by (auto simp: fec_complete_def Let_def split: option.splits)
  show ?thesis
  proof (cases out)
    case (Inr x)
    then obtain ready n where x: "out = Inr (ready, n)" by (cases x) auto
    let ?b = "b\<lparr> fr_blocks := bt_remove base (fr_blocks b), fr_completed_through := Some (block_end base head), fr_gap_wait := None \<rparr>"
    have "map pk_index ready = [base..<base + fl_data_shards (fb_layout head)]"
      using finish_in_order [OF head(1,3,2)] out x by blast
    then have "in_order lo (block_end base head) (rr_ready r @ ready)"
      using in_order_append [OF ord head(4), of ready "fl_data_shards (fb_layout head)"] by (simp add: block_end_def)
    moreover have "planned plan ?b" "fec_frontier b \<le> fec_frontier ?b"
      by (rule planned_remove_first [OF pl ok first]; simp)+
    moreover have "fst (outcome res) = ?b" "rr_ready (snd (outcome res)) = rr_ready r @ ready"
      using res out x by (auto simp: fec_complete_def Let_def)
    ultimately show ?thesis by (simp add: turn_post_def fec_frontier_def)
  next
    case (Inl e)
    then have st: "fr_blocks (fst (outcome res)) = bt_insert base (head\<lparr> fb_repair_failed := True \<rparr>) (bt_remove base (fr_blocks b))"
      "fr_completed_through (fst (outcome res)) = fr_completed_through b" "rr_ready (snd (outcome res)) = rr_ready r"
      using res out by (auto simp: fec_complete_def Let_def split: option.splits)
    have get: "bt_get (fr_blocks (fst (outcome res))) = (bt_get (fr_blocks b))(base \<mapsto> head\<lparr> fb_repair_failed := True \<rparr>)"
      unfolding st(1) using bt by (auto simp: bt.get_put bt.get_remove bt.invar_remove fun_eq_iff)
    have "planned plan (fst (outcome res))"
      using pl head unfolding planned_def get fec_frontier_def st(2)
      by (auto simp: aligned_def block_total_def)
    with st ord show ?thesis by (simp add: turn_post_def fec_frontier_def)
  qed
qed

lemma fec_wait_planned:
  assumes pl: "planned plan b" and first: "bt_first (fr_blocks b) = Some (base, head)" and ok: "fec_ok b"
    and ord: "in_order lo (fec_frontier b) (rr_ready r)" and res: "fec_wait now base head (b, r) = Some res"
  shows "turn_post plan lo b (outcome res)"
proof (cases res)
  case (Inl x)
  with res have "fr_blocks (fst x) = fr_blocks b" "fr_completed_through (fst x) = fr_completed_through b" "rr_ready (snd x) = rr_ready r"
    by (auto simp: fec_wait_def Let_def split: option.splits if_splits)
  with Inl ord planned_same [OF pl, of "fst x"] show ?thesis by (simp add: turn_post_def fec_frontier_def)
next
  case (Inr x)
  with res have x: "fr_blocks (fst x) = bt_remove base (fr_blocks b)" "fr_completed_through (fst x) = Some (block_end base head)"
    "rr_ready (snd x) = []"
    by (auto simp: fec_wait_def Let_def split: option.splits if_splits)
  note p = planned_remove_first [OF pl ok first x(1,2)]
  moreover have "in_order lo (fec_frontier (fst x)) []" using ord p(2) by (simp add: in_order_def)
  ultimately show ?thesis using Inr x(3) by (simp add: turn_post_def)
qed

lemma fec_turn_planned:
  assumes "planned plan b" and "fec_ok b" and "in_order lo (fec_frontier b) (rr_ready r)"
    and res: "fec_turn now (b, r) = Some res"
  shows "turn_post plan lo b (outcome res)"
proof (cases "bt_first (fr_blocks b)")
  case None
  then have "outcome res = (b\<lparr> fr_gap_wait := None \<rparr>, r)" using res by (auto simp: fec_turn_def)
  with assms(3) planned_same [OF assms(1), of "b\<lparr> fr_gap_wait := None \<rparr>"] show ?thesis
    by (simp add: turn_post_def fec_frontier_def)
next
  case (Some e)
  then obtain base head where first: "bt_first (fr_blocks b) = Some (base, head)" by (cases e) auto
  show ?thesis
  proof (cases "behind_gap b base")
    case True
    then obtain expected where e: "fr_completed_through b = Some expected"
      by (auto simp: behind_gap_def split: option.splits)
    with True res first have "res = fec_gap now base expected (b, r)" by (simp add: fec_turn_def)
    with fec_gap_planned [OF assms(1) first assms(2) e assms(3)] show ?thesis by simp
  next
    case no_gap: False
    show ?thesis
    proof (cases "has_enough_shards head \<and> \<not> fb_repair_failed head")
      case True
      with no_gap res first have "fec_complete now base head (b, r) = Some res" by (simp add: fec_turn_def)
      with fec_complete_planned [OF assms(1) first assms(2,3)] show ?thesis by blast
    next
      case False
      show ?thesis
      proof (cases "length (fr_blocks b) = 1")
        case True
        with False no_gap res first have "res = Inl (b, r)" by (auto simp: fec_turn_def split: if_splits)
        with assms show ?thesis by (simp add: turn_post_def)
      next
        case l: False
        with False no_gap res first have "fec_wait now base head (b, r) = Some res"
          by (auto simp: fec_turn_def split: if_splits)
        with fec_wait_planned [OF assms(1) first assms(2,3)] show ?thesis by blast
      qed
    qed
  qed
qed

lemma fec_loop_planned:
  assumes "planned plan b" and "fec_ok b" and "in_order lo (fec_frontier b) (rr_ready r)" and "fec_loop now (b, r) = Some s"
  shows "turn_post plan lo b s"
  using assms
proof (induction now "(b, r)" arbitrary: b r rule: fec_loop.induct)
  case (1 now b r)
  from fec_turn_ok [OF 1(3), of now r] obtain res where res: "fec_turn now (b, r) = Some res" "fec_ok (fst (outcome res))" by blast
  have post: "turn_post plan lo b (outcome res)" using fec_turn_planned [OF 1(2-4) res(1)] .
  show ?case
  proof (cases res)
    case (Inl s')
    with 1(5) res post show ?thesis by (simp add: fec_loop.simps [of now "(b, r)"])
  next
    case (Inr s')
    obtain b' r' where s': "s' = (b', r')" by (cases s')
    from 1(5) res Inr s' have "fec_loop now (b', r') = Some s" by (simp add: fec_loop.simps [of now "(b, r)"])
    from 1(1) [OF res(1) Inr [unfolded s'] _ _ _ this] post res(2) Inr s' have "turn_post plan lo b' s" by (simp add: turn_post_def)
    with post Inr s' show ?thesis by (auto simp: turn_post_def)
  qed
qed

text \<open>An arrival of the plan: its block is a block of the plan and it sits at its own place in it.\<close>

definition arrival_planned :: "(nat \<times> nat) set \<Rightarrow> RtpPacket \<times> FecPacketLayout \<times> instant \<Rightarrow> bool" where
  "arrival_planned plan arrival = (case arrival of (packet, layout, now) \<Rightarrow>
     packet_ok packet \<and> FecPacketLayout_from_packet packet = Some layout \<and> fl_shard_index layout \<le> pk_index packet
     \<and> (pk_index packet - fl_shard_index layout, fl_data_shards layout + fl_parity_shards layout) \<in> plan)"

lemma planned_put:
  assumes "planned plan b" and "fec_ok b" and "(base, block_total blk) \<in> plan" and "fec_frontier b \<le> base" and "aligned base blk"
    and "fr_blocks b' = bt_insert base blk (fr_blocks b)" and "fr_completed_through b' = fr_completed_through b"
  shows "planned plan b'"
  using assms by (auto simp: planned_def fec_ok_def bt.get_put fec_frontier_def split: if_splits)

lemma arrival_above_frontier:
  assumes "planned plan b" and "(s, n) \<in> plan" and "fec_frontier b \<le> i" and "s \<le> i" and "i < s + n"
  shows "fec_frontier b \<le> s"
proof -
  have "s + n \<le> fec_frontier b \<or> fec_frontier b \<le> s" using assms(1,2) by (simp add: planned_def cut_def)
  with assms(3-5) show ?thesis by linarith
qed

lemma target_block_planned:
  assumes "planned plan b" and "(i - fl_shard_index layout, fl_data_shards layout + fl_parity_shards layout) \<in> plan"
  shows "aligned (i - fl_shard_index layout) (target_block b layout i)"
    and "(i - fl_shard_index layout, block_total (target_block b layout i)) \<in> plan"
  using assms by (auto simp: target_block_def FecBlock_new_def aligned_def planned_def block_total_def split: option.splits)

lemma aligned_insert:
  assumes "aligned base blk" and "pk_index packet = base + i" and "fb_shards blk' = (fb_shards blk)[i := Some packet]"
  shows "aligned base blk'"
  unfolding aligned_def assms(3)
proof (intro allI impI)
  fix k p
  assume k: "k < length ((fb_shards blk)[i := Some packet])" and p: "(fb_shards blk)[i := Some packet] ! k = Some p"
  then show "pk_index p = base + k" using assms(1,2) by (cases "k = i") (simp_all add: aligned_def)
qed

lemma fec_push_planned:
  assumes pl: "planned plan b" and ok: "fec_ok b" and ad: "arrival_planned plan (packet, layout, now)"
    and push: "FecReorderBuffer_push b packet layout now = Some s"
  shows "turn_post plan (fec_frontier b) b s"
proof -
  let ?i = "pk_index packet" and ?base = "pk_index packet - fl_shard_index layout"
  from ad have a: "packet_ok packet" "FecPacketLayout_from_packet packet = Some layout" "fl_shard_index layout \<le> ?i"
    "(?base, fl_data_shards layout + fl_parity_shards layout) \<in> plan" by (auto simp: arrival_planned_def)
  note l = FecPacketLayout_bounds [OF a(2)]
  define block where "block = target_block b layout ?i"
  note blk = target_block_ok [OF ok l(1,2), of ?i, folded block_def] target_block_planned [OF pl a(4), folded block_def]
  have empty: "in_order (fec_frontier b) (fec_frontier b) []" by (simp add: in_order_def)
  show ?thesis
  proof (cases "case fr_completed_through b of None \<Rightarrow> False | Some through \<Rightarrow> ?i < through")
    case True
    with push pl empty show ?thesis by (auto simp: FecReorderBuffer_push_def turn_post_def dropped_result_def)
  next
    case False
    then have "fec_frontier b \<le> ?i" by (auto simp: fec_frontier_def split: option.splits)
    then have fr: "fec_frontier b \<le> ?base" using l(3) a(3) by (intro arrival_above_frontier [OF pl a(4)]) auto
    let ?b1 = "b\<lparr> fr_blocks := bt_insert ?base block (fr_blocks b) \<rparr>"
    have b1: "planned plan ?b1" by (rule planned_put [OF pl ok blk(4) fr blk(3)]) simp_all
    have ok1: "fec_ok ?b1" using ok blk(1,2) by (rule fec_ok_insert) simp
    show ?thesis
    proof (cases "FecBlock_matches block layout ?i")
      case nm: False
      with False push b1 empty show ?thesis
        by (auto simp: FecReorderBuffer_push_def Let_def block_def [symmetric] turn_post_def dropped_result_def fec_frontier_def)
    next
      case m: True
      from insert_no_panic [OF blk(1) m l(3) a(1)] obtain block' d where
        ins: "FecBlock_insert block layout packet = Some (block', d)" "block_ok block'" "fb_base_index block' = ?base"
        "fb_layout block' = fb_layout block"
        and sh: "d = None \<longrightarrow> fb_shards block' = (fb_shards block)[fl_shard_index layout := Some packet]" "d \<noteq> None \<longrightarrow> block' = block"
        using blk(2) by auto
      have al: "aligned ?base block'"
      proof (cases "d = None")
        case True
        then have "fb_shards block' = (fb_shards block)[fl_shard_index layout := Some packet]" using sh(1) by blast
        moreover have "pk_index packet = ?base + fl_shard_index layout" using a(3) by simp
        ultimately show ?thesis using aligned_insert [OF blk(3)] by blast
      next
        case False
        then show ?thesis using sh(2) blk(3) by blast
      qed
      let ?b2 = "?b1\<lparr> fr_blocks := bt_insert ?base block' (fr_blocks ?b1) \<rparr>"
      have b2: "planned plan ?b2"
        by (rule planned_put [OF b1 ok1 _ _ al]) (use blk(4) ins(4) fr in \<open>simp_all add: block_total_def fec_frontier_def\<close>)
      have ok2: "fec_ok ?b2" using ok1 ins(2,3) by (rule fec_ok_insert) simp
      have "in_order (fec_frontier b) (fec_frontier ?b2) (rr_ready (dropped_result None))"
        using empty by (simp add: dropped_result_def fec_frontier_def)
      note loop = fec_loop_planned [OF b2 ok2 this, of now s]
      show ?thesis
        using False m push ins(1) loop b2 empty
        by (auto simp: FecReorderBuffer_push_def Let_def block_def [symmetric] turn_post_def dropped_result_def fec_frontier_def
            split: if_splits)
    qed
  qed
qed

definition fec_step :: "FecReorderBuffer \<Rightarrow> RtpPacket \<times> FecPacketLayout \<times> instant \<Rightarrow> FecReorderBuffer \<times> ReorderResult" where
  "fec_step b arrival = (case arrival of (packet, layout, now) \<Rightarrow> the (FecReorderBuffer_push b packet layout now))"

lemma fec_step_ok:
  assumes "planned plan b" and "fec_ok b" and "arrival_planned plan arrival"
  shows "fec_ok (fst (fec_step b arrival))" and "turn_post plan (fec_frontier b) b (fec_step b arrival)"
proof -
  obtain packet layout now where arr: "arrival = (packet, layout, now)" by (cases arrival)
  from assms(3) arr have a: "packet_ok packet" "FecPacketLayout_from_packet packet = Some layout"
    by (simp_all add: arrival_planned_def)
  from fec_push_ok [OF assms(2) a] obtain b' r where "FecReorderBuffer_push b packet layout now = Some (b', r)" "fec_ok b'" by blast
  then show "fec_ok (fst (fec_step b arrival))" and "turn_post plan (fec_frontier b) b (fec_step b arrival)"
    using fec_push_planned [OF assms(1,2), of packet layout now] assms(3) arr by (simp_all add: fec_step_def)
qed

interpretation fec: reorder_stage "\<lambda>b a. fst (fec_step b a)" "\<lambda>b a. rr_ready (snd (fec_step b a))" pk_index fec_frontier
    "arrival_planned plan" "\<lambda>b. planned plan b \<and> fec_ok b" for plan
  by unfold_locales (use fec_step_ok in \<open>fastforce simp: turn_post_def in_order_def\<close>)+

text \<open>
  C13: for a sender whose blocks do not overlap, the FEC reorder buffer hands on strictly increasing packet
  indices, whatever is lost, duplicated or reordered and whenever packets arrive: received and rebuilt
  packets leave it in order, none of them twice.
\<close>

theorem fec_delivers_in_order:
  assumes "well_planned plan" and "\<forall>a\<in>set arrivals. arrival_planned plan a"
  shows "sorted_wrt (<) (map pk_index (fec.deliver (FecReorderBuffer_new packet_size) arrivals))"
proof -
  have "planned plan (FecReorderBuffer_new packet_size)"
    using assms(1) by (simp add: planned_def FecReorderBuffer_new_def fec_frontier_def cut_def bt.get_empty)
  then show ?thesis using fec.deliver_increasing [of plan] fec_ok_new assms(2) by blast
qed

theorem fec_delivers_in_order_witness:
  "sorted_wrt (<) (map pk_index (fec.deliver (FecReorderBuffer_new 17) [(parity_packet, parity_layout, 0)]))"
proof -
  have "well_planned {(5, 2)}" by (simp add: well_planned_def)
  moreover have "arrival_planned {(5, 2)} (parity_packet, parity_layout, 0)"
    using parity_packet_ok parity_packet_layout
    by (simp add: arrival_planned_def parity_packet_def [THEN arg_cong [of _ _ pk_index]] parity_layout_def)
  ultimately show ?thesis using fec_delivers_in_order [of "{(5, 2)}" "[(parity_packet, parity_layout, 0)]" 17] by simp
qed

end
