(* ===== verification/Assembler.thy ===== *)
theory Assembler
  imports Rtp
begin

text \<open>
  Access unit assembly (\<open>VideoAccessUnitAssembler\<close>): Annex B start codes, the frame header that precedes
  the picture, keyframe detection, the trailing access unit delimiter, and the push that collects the
  packets of a frame. Logging keeps its flags in the state and is otherwise left out.
\<close>

section \<open>Annex B\<close>

text \<open>\<open>windows(3).enumerate()\<close> from the front of the slice.\<close>

fun find_annex_b_from :: "nat \<Rightarrow> bytes \<Rightarrow> (nat \<times> nat) option" where
  "find_annex_b_from offset (a # b # c # rest) =
     (if a = 0 \<and> b = 0 \<and> c = 1 then Some (offset, 3)
      else if a = 0 \<and> b = 0 \<and> c = 0 \<and> rest \<noteq> [] \<and> hd rest = 1 then Some (offset, 4)
      else find_annex_b_from (offset + 1) (b # c # rest))"
| "find_annex_b_from offset _ = None"

definition find_annex_b_start_code :: "bytes \<Rightarrow> (nat \<times> nat) option" where
  "find_annex_b_start_code bs = find_annex_b_from 0 bs"

lemma find_from_Some:
  "find_annex_b_from n bs = Some (i, len) \<Longrightarrow>
     n \<le> i \<and> i - n + len \<le> length bs \<and> (len = 3 \<or> len = 4)
     \<and> take len (drop (i - n) bs) = (if len = 3 then [0, 0, 1] else [0, 0, 0, 1])"
proof (induction n bs rule: find_annex_b_from.induct)
  case (1 offset a b c rest)
  show ?case
  proof (cases "a = 0 \<and> b = 0 \<and> (c = 1 \<or> c = 0 \<and> rest \<noteq> [] \<and> hd rest = 1)")
    case True
    with "1.prems" show ?thesis by (cases rest) (auto split: if_splits)
  next
    case False
    then have rec: "find_annex_b_from (offset + 1) (b # c # rest) = Some (i, len)"
      using "1.prems" by (simp split: if_splits)
    have "\<not> (a = 0 \<and> b = 0 \<and> c = 1)" "\<not> (a = 0 \<and> b = 0 \<and> c = 0 \<and> rest \<noteq> [] \<and> hd rest = 1)" using False by auto
    from "1.IH" [OF this rec] show ?thesis
      by (cases "i - offset") (auto simp: Suc_diff_le diff_Suc split: nat.splits)
  qed
qed simp_all

lemma start_code_bound: "find_annex_b_start_code bs = Some (i, len) \<Longrightarrow> 3 \<le> len \<and> i + len \<le> length bs"
  using find_from_Some [of 0 bs i len] by (auto simp: find_annex_b_start_code_def)

text \<open>
  The \<open>while let\<close> scan of the two callers: start and first byte of every NAL unit from \<open>offset\<close> on.
\<close>

function annex_b_nals :: "bytes \<Rightarrow> nat \<Rightarrow> (nat \<times> nat) list" where
  "annex_b_nals bs offset =
     (case find_annex_b_start_code (drop offset bs) of
        None \<Rightarrow> []
      | Some (start, prefix_len) \<Rightarrow>
          (offset + start, offset + start + prefix_len) # annex_b_nals bs (offset + start + prefix_len))"
  by pat_completeness auto
termination
  by (relation "measure (\<lambda>(bs, offset). length bs - offset)") (auto dest!: start_code_bound)

declare annex_b_nals.simps [simp del]

definition is_aud :: "NvstVideoCodec \<Rightarrow> u8 \<Rightarrow> bool" where
  "is_aud codec header =
     (case codec of
        H264 \<Rightarrow> header AND 0x1f = 9
      | H265 \<Rightarrow> drop_bit 1 header AND 0x3f = 35
      | Av1 \<Rightarrow> False)"

definition strip_trailing_access_unit_delimiter :: "NvstVideoCodec \<Rightarrow> bytes \<Rightarrow> bytes" where
  "strip_trailing_access_unit_delimiter codec bs =
     (if codec = Av1 then bs
      else let nals = annex_b_nals bs 0
           in if nals \<noteq> [] \<and> snd (last nals) < length bs \<and> is_aud codec (bs ! snd (last nals))
              then take (fst (last nals)) bs
              else bs)"

definition MAX_GS_FRAME_HEADER_BYTES :: nat where "MAX_GS_FRAME_HEADER_BYTES = 64"
definition GS_SHORT_FRAME_HEADER_BYTES :: nat where "GS_SHORT_FRAME_HEADER_BYTES = 8"
definition GFN_EXTENDED_FRAME_HEADER_BYTES :: nat where "GFN_EXTENDED_FRAME_HEADER_BYTES = 20"

text \<open>\<open>slice.get(n..)\<close>.\<close>

definition get_from :: "nat \<Rightarrow> bytes \<Rightarrow> bytes option" where
  "get_from n bs = (if n \<le> length bs then Some (drop n bs) else None)"

definition video_picture_payload :: "NvstVideoCodec \<Rightarrow> bytes \<Rightarrow> bytes option" where
  "video_picture_payload codec payload =
     (if codec = Av1
      then case payload of
             [] \<Rightarrow> None
           | first # _ \<Rightarrow>
               if first = 0x01 then get_from GS_SHORT_FRAME_HEADER_BYTES payload
               else if first = 0x81 then get_from GFN_EXTENDED_FRAME_HEADER_BYTES payload
               else None
      else let search_len = min (length payload) (MAX_GS_FRAME_HEADER_BYTES + 4)
           in case find_annex_b_start_code (take search_len payload) of
                None \<Rightarrow> None
              | Some (offset, _) \<Rightarrow> Some (drop offset payload))"

definition is_random_access_nal :: "NvstVideoCodec \<Rightarrow> u8 \<Rightarrow> bool" where
  "is_random_access_nal codec nal_header =
     (case codec of
        H264 \<Rightarrow> nal_header AND 0x1f = 5
      | H265 \<Rightarrow> 16 \<le> drop_bit 1 nal_header AND 0x3f \<and> drop_bit 1 nal_header AND 0x3f \<le> 21
      | Av1 \<Rightarrow> False)"

definition video_access_unit_is_keyframe :: "NvstVideoCodec \<Rightarrow> bytes \<Rightarrow> bool \<Rightarrow> bool" where
  "video_access_unit_is_keyframe codec bs frame_header_hint =
     (if codec = Av1 then frame_header_hint
      else list_ex (\<lambda>(_, nal_start). nal_start < length bs \<and> is_random_access_nal codec (bs ! nal_start))
             (annex_b_nals bs 0))"

section \<open>Assembler\<close>

record VideoAccessUnitAssembler =
  va_codec :: NvstVideoCodec
  va_current_frame :: "u32 option"
  va_first_stream_packet_index :: "u32 option"
  va_keyframe_hint :: bool
  va_last_packet_payload_length :: "nat option"
  va_expected_access_unit_length :: "nat option"
  va_invalid_av1_length_logged :: bool
  va_first_start_payload_logged :: bool
  va_first_access_unit_logged :: bool
  va_bytes :: bytes
  va_max_access_unit_bytes :: nat

definition Assembler_new :: "NvstVideoCodec \<Rightarrow> nat \<Rightarrow> VideoAccessUnitAssembler" where
  "Assembler_new codec max_access_unit_bytes =
     \<lparr> va_codec = codec, va_current_frame = None, va_first_stream_packet_index = None,
       va_keyframe_hint = False, va_last_packet_payload_length = None,
       va_expected_access_unit_length = None, va_invalid_av1_length_logged = False,
       va_first_start_payload_logged = False, va_first_access_unit_logged = False,
       va_bytes = [], va_max_access_unit_bytes = max_access_unit_bytes \<rparr>"

definition Assembler_reset :: "VideoAccessUnitAssembler \<Rightarrow> VideoAccessUnitAssembler" where
  "Assembler_reset a =
     a\<lparr> va_current_frame := None, va_first_stream_packet_index := None, va_keyframe_hint := False,
        va_last_packet_payload_length := None, va_expected_access_unit_length := None, va_bytes := [] \<rparr>"

text \<open>The start-of-frame branch: reset, frame header, length hints.\<close>

definition av1_length_hints :: "bytes \<Rightarrow> VideoAccessUnitAssembler \<Rightarrow> VideoAccessUnitAssembler" where
  "av1_length_hints payload a =
     (if payload \<noteq> [] \<and> hd payload = 0x01
      then a\<lparr> va_last_packet_payload_length :=
               (if 6 \<le> length payload then Some (unat (from_le16 (payload ! 4) (payload ! 5))) else None) \<rparr>
      else if payload \<noteq> [] \<and> hd payload = 0x81
      then a\<lparr> va_expected_access_unit_length :=
               (if 20 \<le> length payload
                then Some (unat (le32_at payload 16)) else None) \<rparr>
      else a)"

definition start_frame :: "VideoAccessUnitAssembler \<Rightarrow> NvVideoPacket \<Rightarrow> bytes
    \<Rightarrow> VideoAccessUnitAssembler \<times> (NvstDropReason + nat \<times> bytes)" where
  "start_frame a header payload =
     (let a = (Assembler_reset a)\<lparr> va_keyframe_hint := (3 < length payload \<and> payload ! 3 = 2) \<rparr>
      in case video_picture_payload (va_codec a) payload of
           None \<Rightarrow> (a, Inl MissingAnnexBStartCode)
         | Some picture_payload \<Rightarrow>
             let a = a\<lparr> va_first_start_payload_logged := True \<rparr>;
                 a = (if va_codec a = Av1 then av1_length_hints payload a else a)
             in (a\<lparr> va_current_frame := Some (nv_frame_index header),
                    va_first_stream_packet_index := Some (nv_stream_packet_index header) \<rparr>,
                 Inr (length payload - length picture_payload, picture_payload)))"

text \<open>The exact length of the last AV1 packet, when the short header gave one.\<close>

definition trim_last_packet :: "VideoAccessUnitAssembler \<Rightarrow> NvVideoPacket \<Rightarrow> nat \<Rightarrow> bytes
    \<Rightarrow> VideoAccessUnitAssembler \<times> bytes" where
  "trim_last_packet a header frame_header_size picture_payload =
     (if va_codec a = Av1 \<and> is_end_of_frame header
      then case va_last_packet_payload_length a of
             None \<Rightarrow> (a, picture_payload)
           | Some reported \<Rightarrow>
               if frame_header_size \<le> reported \<and> 0 < reported - frame_header_size
                  \<and> reported - frame_header_size \<le> length picture_payload
               then (a, take (reported - frame_header_size) picture_payload)
               else (a\<lparr> va_invalid_av1_length_logged := True \<rparr>, picture_payload)
      else (a, picture_payload))"

text \<open>The end-of-frame branch, with the collected bytes taken out of the assembler.\<close>

definition finish_frame :: "VideoAccessUnitAssembler \<Rightarrow> NvVideoPacket \<Rightarrow> u32 \<Rightarrow> nat
    \<Rightarrow> (VideoAccessUnitAssembler \<times> (NvstDropReason + EncodedVideoAccessUnit option)) option" where
  "finish_frame a header timestamp frame_header_size =
     (let bs = va_bytes a;
          a = a\<lparr> va_bytes := [] \<rparr>;
          invalid = (va_codec a = Av1 \<and>
            (case va_expected_access_unit_length a of
               None \<Rightarrow> False | Some reported \<Rightarrow> \<not> (0 < reported \<and> reported \<le> length bs)))
      in if invalid
         then Some (Assembler_reset a,
                Inl (InvalidLastPacketPayloadLength (the (va_expected_access_unit_length a)) frame_header_size (length bs)))
         else
           let bs = (if va_codec a = Av1
                     then (case va_expected_access_unit_length a of None \<Rightarrow> bs | Some reported \<Rightarrow> take reported bs)
                     else bs);
               bs = strip_trailing_access_unit_delimiter (va_codec a) bs;
               a = a\<lparr> va_first_access_unit_logged := True, va_current_frame := None \<rparr>
           in case va_first_stream_packet_index a of
                None \<Rightarrow> None
              | Some first \<Rightarrow>
                  Some (a\<lparr> va_first_stream_packet_index := None \<rparr>,
                    Inr (Some \<lparr> au_codec = va_codec a, au_timestamp = timestamp,
                      au_frame_index = nv_frame_index header, au_first_stream_packet_index = first,
                      au_keyframe = video_access_unit_is_keyframe (va_codec a) bs (va_keyframe_hint a),
                      au_contiguous = True, au_bytes = bs \<rparr>)))"

definition Assembler_push :: "VideoAccessUnitAssembler \<Rightarrow> NvVideoPacket \<Rightarrow> u32 \<Rightarrow> bytes
    \<Rightarrow> (VideoAccessUnitAssembler \<times> (NvstDropReason + EncodedVideoAccessUnit option)) option" where
  "Assembler_push a header timestamp payload =
     (if nv_is_fec header then Some (a, Inl (Unsupported FecRepair))
      else case (if is_start_of_frame header then start_frame a header payload
                 else if va_current_frame a \<noteq> Some (nv_frame_index header)
                 then (Assembler_reset a, Inl AwaitingStartOfFrame)
                 else (a, Inr (0, payload))) of
        (a, Inl e) \<Rightarrow> Some (a, Inl e)
      | (a, Inr (frame_header_size, picture_payload)) \<Rightarrow>
          (case trim_last_packet a header frame_header_size picture_payload of (a, picture_payload) \<Rightarrow>
             let remaining = va_max_access_unit_bytes a - length (va_bytes a)
             in if length picture_payload > remaining
                then Some (Assembler_reset a, Inl (AccessUnitTooLarge (va_max_access_unit_bytes a)))
                else let a = a\<lparr> va_bytes := va_bytes a @ picture_payload \<rparr>
                     in if \<not> is_end_of_frame header then Some (a, Inr None)
                        else finish_frame a header timestamp frame_header_size))"

section \<open>Start codes\<close>

text \<open>A start code at a position: three bytes, or four when a zero precedes.\<close>

definition start_code_at :: "bytes \<Rightarrow> nat \<Rightarrow> bool" where
  "start_code_at bs i \<longleftrightarrow> take 3 (drop i bs) = [0, 0, 1] \<or> take 4 (drop i bs) = [0, 0, 0, 1]"

lemma start_code_at_Suc: "start_code_at (x # bs) (Suc i) = start_code_at bs i"
  by (simp add: start_code_at_def)

lemma start_code_at_0: "start_code_at (a # b # c # rest) 0 \<longleftrightarrow>
    a = 0 \<and> b = 0 \<and> (c = 1 \<or> c = 0 \<and> rest \<noteq> [] \<and> hd rest = 1)"
  by (cases rest) (auto simp: start_code_at_def eval_nat_numeral)

lemma start_code_at_short: "length bs < 3 \<Longrightarrow> \<not> start_code_at bs i"
  by (auto simp: start_code_at_def dest!: arg_cong [of _ _ length])

lemma find_from_exact:
  "find_annex_b_from n bs =
     (if \<exists>i. start_code_at bs i
      then let i = (LEAST i. start_code_at bs i) in Some (n + i, if take 3 (drop i bs) = [0, 0, 1] then 3 else 4)
      else None)"
proof (induction n bs rule: find_annex_b_from.induct)
  case (1 offset a b c rest)
  let ?bs = "a # b # c # rest"
  show ?case
  proof (cases "start_code_at ?bs 0")
    case True
    then have "(LEAST i. start_code_at ?bs i) = 0" by (intro Least_equality) simp_all
    moreover have "\<exists>i. start_code_at ?bs i" using True by blast
    ultimately show ?thesis using True by (auto simp: start_code_at_0 Let_def eval_nat_numeral)
  next
    case False
    then have ex: "(\<exists>i. start_code_at ?bs i) \<longleftrightarrow> (\<exists>i. start_code_at (b # c # rest) i)"
      by (metis not0_implies_Suc start_code_at_Suc)
    have least: "(LEAST i. start_code_at ?bs i) = Suc (LEAST i. start_code_at (b # c # rest) i)"
      if "start_code_at (b # c # rest) j" for j
      using Least_Suc [of "start_code_at ?bs" "Suc j"] that False by (simp add: start_code_at_Suc)
    have not: "\<not> (a = 0 \<and> b = 0 \<and> c = 1)" "\<not> (a = 0 \<and> b = 0 \<and> c = 0 \<and> rest \<noteq> [] \<and> hd rest = 1)"
      using False by (auto simp: start_code_at_0)
    then have "find_annex_b_from offset ?bs = find_annex_b_from (offset + 1) (b # c # rest)" by auto
    with "1.IH" [OF not] ex least show ?thesis by (auto simp: Let_def)
  qed
qed (use start_code_at_short in \<open>auto simp: eval_nat_numeral\<close>)

text \<open>The start code search is exact: it fails only when the bytes hold no start code, and otherwise
  returns the first position of one, with its length.
\<close>

lemma find_annex_b_start_code_exact:
  "find_annex_b_start_code bs =
     (if \<exists>i. start_code_at bs i
      then let i = (LEAST i. start_code_at bs i) in Some (i, if take 3 (drop i bs) = [0, 0, 1] then 3 else 4)
      else None)"
  unfolding find_annex_b_start_code_def using find_from_exact [of 0 bs] by simp

section \<open>Invariant and bounds\<close>

definition assembler_ok :: "VideoAccessUnitAssembler \<Rightarrow> bool" where
  "assembler_ok a \<longleftrightarrow> length (va_bytes a) \<le> va_max_access_unit_bytes a \<and>
     (va_current_frame a \<noteq> None \<longrightarrow> va_first_stream_packet_index a \<noteq> None) \<and>
     (va_current_frame a = None \<longrightarrow> va_bytes a = [])"

lemma assembler_ok_new: "assembler_ok (Assembler_new codec n)"
  and assembler_ok_reset: "assembler_ok (Assembler_reset a)"
  by (simp_all add: assembler_ok_def Assembler_new_def Assembler_reset_def)

lemma Assembler_reset_keeps [simp]:
  "va_max_access_unit_bytes (Assembler_reset a) = va_max_access_unit_bytes a"
  "va_codec (Assembler_reset a) = va_codec a" "va_current_frame (Assembler_reset a) = None" "va_bytes (Assembler_reset a) = []"
  by (simp_all add: Assembler_reset_def)

lemma av1_length_hints_keeps [simp]:
  "va_max_access_unit_bytes (av1_length_hints p a) = va_max_access_unit_bytes a"
  "va_codec (av1_length_hints p a) = va_codec a" "va_bytes (av1_length_hints p a) = va_bytes a"
  "va_current_frame (av1_length_hints p a) = va_current_frame a"
  by (simp_all add: av1_length_hints_def)

lemma start_frame_ok:
  assumes "start_frame a header payload = (a', res)"
  shows "assembler_ok a'" and "va_max_access_unit_bytes a' = va_max_access_unit_bytes a" and "va_codec a' = va_codec a"
    and "va_bytes a' = []"
    and "res = Inr (n, pic) \<Longrightarrow> va_current_frame a' = Some (nv_frame_index header)
      \<and> va_first_stream_packet_index a' = Some (nv_stream_packet_index header)
      \<and> video_picture_payload (va_codec a) payload = Some pic"
  using assms by (auto simp: start_frame_def assembler_ok_def Let_def split: option.splits if_splits)

lemma strip_prefix: "\<exists>n. strip_trailing_access_unit_delimiter codec bs = take n bs"
  by (auto simp: strip_trailing_access_unit_delimiter_def Let_def intro: exI [of _ "length bs"])

lemma strip_length: "length (strip_trailing_access_unit_delimiter codec bs) \<le> length bs"
  using strip_prefix [of codec bs] by auto

definition push_post :: "VideoAccessUnitAssembler \<Rightarrow> NvVideoPacket \<Rightarrow> VideoAccessUnitAssembler \<Rightarrow>
    NvstDropReason + EncodedVideoAccessUnit option \<Rightarrow> bool" where
  "push_post a header a' res \<longleftrightarrow> assembler_ok a' \<and> va_codec a' = va_codec a
     \<and> va_max_access_unit_bytes a' = va_max_access_unit_bytes a
     \<and> (\<forall>au. res = Inr (Some au) \<longrightarrow> length (au_bytes au) \<le> va_max_access_unit_bytes a
          \<and> au_frame_index au = nv_frame_index header \<and> au_codec au = va_codec a)"

lemma finish_frame_ok:
  assumes "assembler_ok a" and "va_current_frame a \<noteq> None"
  shows "\<exists>a' res. finish_frame a header timestamp n = Some (a', res) \<and> push_post a header a' res"
proof -
  from assms obtain first where f: "va_first_stream_packet_index a = Some first" by (auto simp: assembler_ok_def)
  have len: "length (strip_trailing_access_unit_delimiter codec bs) \<le> va_max_access_unit_bytes a"
    if "length bs \<le> length (va_bytes a)" for codec bs
    using strip_length [of codec bs] that assms(1) by (simp add: assembler_ok_def)
  show ?thesis
    using f len [of "va_bytes a"] len [of "take _ (va_bytes a)"] assembler_ok_reset
    by (auto simp: finish_frame_def Let_def push_post_def assembler_ok_def split: option.splits)
qed

lemma trim_last_packet_keeps:
  assumes "trim_last_packet a header n pic = (a', pic')"
  shows "va_bytes a' = va_bytes a" "va_max_access_unit_bytes a' = va_max_access_unit_bytes a" "va_codec a' = va_codec a"
    "va_current_frame a' = va_current_frame a" "va_first_stream_packet_index a' = va_first_stream_packet_index a"
    "length pic' \<le> length pic" "va_codec a \<noteq> Av1 \<Longrightarrow> a' = a \<and> pic' = pic"
  using assms by (auto simp: trim_last_packet_def split: if_splits option.splits)

text \<open>Collecting one picture payload into a running frame.\<close>

lemma collect_ok:
  assumes "assembler_ok a" and "va_current_frame a \<noteq> None" and "trim_last_packet a header n pic = (a1, pic1)"
  shows "\<exists>a' res. (let remaining = va_max_access_unit_bytes a1 - length (va_bytes a1)
      in if length pic1 > remaining then Some (Assembler_reset a1, Inl (AccessUnitTooLarge (va_max_access_unit_bytes a1)))
         else let a2 = a1\<lparr> va_bytes := va_bytes a1 @ pic1 \<rparr>
              in if \<not> is_end_of_frame header then Some (a2, Inr None) else finish_frame a2 header timestamp n) = Some (a', res)
    \<and> push_post a header a' res"
proof -
  note keep = trim_last_packet_keeps [OF assms(3)]
  have a2: "assembler_ok (a1\<lparr> va_bytes := va_bytes a1 @ pic1 \<rparr>)"
    if "\<not> length pic1 > va_max_access_unit_bytes a1 - length (va_bytes a1)"
    using that assms(1,2) keep by (auto simp: assembler_ok_def)
  have "\<exists>a' res. finish_frame (a1\<lparr> va_bytes := va_bytes a1 @ pic1 \<rparr>) header timestamp n = Some (a', res) \<and> push_post a header a' res"
    if "\<not> length pic1 > va_max_access_unit_bytes a1 - length (va_bytes a1)"
    using finish_frame_ok [OF a2 [OF that], of header timestamp n] assms(2) keep by (auto simp: push_post_def)
  then show ?thesis
    using a2 keep assembler_ok_reset by (auto simp: Let_def push_post_def)
qed

lemma Assembler_push_ok:
  assumes "assembler_ok a"
  shows "\<exists>a' res. Assembler_push a header timestamp payload = Some (a', res) \<and> push_post a header a' res"
proof (cases "nv_is_fec header")
  case True
  with assms show ?thesis by (simp add: Assembler_push_def push_post_def)
next
  case no_fec: False
  obtain a0 sel where sel: "(if is_start_of_frame header then start_frame a header payload
      else if va_current_frame a \<noteq> Some (nv_frame_index header) then (Assembler_reset a, Inl AwaitingStartOfFrame)
      else (a, Inr (0, payload))) = (a0, sel)" by (meson surj_pair)
  have a0: "assembler_ok a0" "va_max_access_unit_bytes a0 = va_max_access_unit_bytes a" "va_codec a0 = va_codec a"
    and running: "\<And>n pic. sel = Inr (n, pic) \<Longrightarrow> va_current_frame a0 \<noteq> None"
    using sel assms start_frame_ok [of a header payload a0 sel] assembler_ok_reset by (auto split: if_splits)
  show ?thesis
  proof (cases sel)
    case (Inl e)
    with sel no_fec a0 show ?thesis by (auto simp: Assembler_push_def push_post_def)
  next
    case (Inr x)
    obtain n pic where x: "x = (n, pic)" by (cases x)
    obtain a1 pic1 where t: "trim_last_packet a0 header n pic = (a1, pic1)" by (meson surj_pair)
    from Inr x have "va_current_frame a0 \<noteq> None" using running by blast
    from collect_ok [OF a0(1) this t, of timestamp] Inr x obtain a' res where
      "Assembler_push a header timestamp payload = Some (a', res)" "push_post a0 header a' res"
      using sel no_fec t by (auto simp: Assembler_push_def)
    with a0 show ?thesis by (auto simp: push_post_def)
  qed
qed

text \<open>
  Pushing a packet never panics, keeps the assembler well formed, and never holds or emits more than
  \<open>max_access_unit_bytes\<close>; an emitted access unit carries the codec and the frame index of its packets.
\<close>

theorem Assembler_push_bounded:
  assumes "assembler_ok a"
  shows "\<exists>a' res. Assembler_push a header timestamp payload = Some (a', res) \<and> assembler_ok a'
    \<and> length (va_bytes a') \<le> va_max_access_unit_bytes a
    \<and> (\<forall>au. res = Inr (Some au) \<longrightarrow> length (au_bytes au) \<le> va_max_access_unit_bytes a
         \<and> au_frame_index au = nv_frame_index header \<and> au_codec au = va_codec a)"
  using Assembler_push_ok [OF assms, of header timestamp payload]
  by (auto simp: push_post_def assembler_ok_def)

theorem Assembler_push_bounded_witness:
  "\<exists>a' res. Assembler_push (Assembler_new H264 4) \<lparr> nv_stream_packet_index = 0, nv_frame_index = 3, nv_flags = 7,
     nv_fec_current_block = 0, nv_fec_last_block = 0, nv_is_fec = False \<rparr> 9 [0, 0, 1, 5] = Some (a', res)
     \<and> length (va_bytes a') \<le> 4"
  using Assembler_push_bounded [OF assembler_ok_new [of H264 4],
      of "\<lparr> nv_stream_packet_index = 0, nv_frame_index = 3, nv_flags = 7, nv_fec_current_block = 0,
           nv_fec_last_block = 0, nv_is_fec = False \<rparr>" 9 "[0, 0, 1, 5]"]
  by (auto simp: Assembler_new_def)

section \<open>Assembly of a frame\<close>

text \<open>Pushing the packets of a list one after the other, with the results in order.\<close>

fun assemble :: "VideoAccessUnitAssembler \<Rightarrow> u32 \<Rightarrow> (NvVideoPacket \<times> bytes) list
    \<Rightarrow> (VideoAccessUnitAssembler \<times> (NvstDropReason + EncodedVideoAccessUnit option) list) option" where
  "assemble a timestamp [] = Some (a, [])"
| "assemble a timestamp ((header, payload) # packets) =
     (case Assembler_push a header timestamp payload of
        None \<Rightarrow> None
      | Some (a, res) \<Rightarrow>
          (case assemble a timestamp packets of
             None \<Rightarrow> None
           | Some (a, ress) \<Rightarrow> Some (a, res # ress)))"

definition running :: "VideoAccessUnitAssembler \<Rightarrow> u32 \<Rightarrow> u32 \<Rightarrow> bool \<Rightarrow> bytes \<Rightarrow> bool" where
  "running a frame first hint bs \<longleftrightarrow> va_codec a \<noteq> Av1 \<and> va_current_frame a = Some frame
     \<and> va_first_stream_packet_index a = Some first \<and> va_keyframe_hint a = hint \<and> va_bytes a = bs"

definition inner_packet :: "u32 \<Rightarrow> NvVideoPacket \<Rightarrow> bool" where
  "inner_packet frame h \<longleftrightarrow> nv_frame_index h = frame \<and> \<not> nv_is_fec h \<and> \<not> is_start_of_frame h \<and> \<not> is_end_of_frame h"

lemma push_start:
  assumes "is_start_of_frame h" and "\<not> is_end_of_frame h" and "\<not> nv_is_fec h" and "va_codec a \<noteq> Av1"
    and "video_picture_payload (va_codec a) payload = Some pic" and "length pic \<le> va_max_access_unit_bytes a"
  shows "\<exists>a'. Assembler_push a h timestamp payload = Some (a', Inr None)
    \<and> running a' (nv_frame_index h) (nv_stream_packet_index h) (3 < length payload \<and> payload ! 3 = 2) pic
    \<and> va_codec a' = va_codec a \<and> va_max_access_unit_bytes a' = va_max_access_unit_bytes a"
  using assms
  by (auto simp: Assembler_push_def start_frame_def trim_last_packet_def running_def Assembler_reset_def Let_def)

lemma push_inner:
  assumes "running a frame first hint bs" and "inner_packet frame h" and "length bs + length payload \<le> va_max_access_unit_bytes a"
  shows "Assembler_push a h timestamp payload = Some (a\<lparr> va_bytes := bs @ payload \<rparr>, Inr None)"
    and "running (a\<lparr> va_bytes := bs @ payload \<rparr>) frame first hint (bs @ payload)"
  using assms by (auto simp: Assembler_push_def trim_last_packet_def running_def inner_packet_def Let_def)

lemma push_end:
  assumes "running a frame first hint bs" and "is_end_of_frame h" and "\<not> is_start_of_frame h" and "\<not> nv_is_fec h"
    and "nv_frame_index h = frame" and "length bs + length payload \<le> va_max_access_unit_bytes a"
  defines "unit_bytes \<equiv> strip_trailing_access_unit_delimiter (va_codec a) (bs @ payload)"
  shows "\<exists>a'. Assembler_push a h timestamp payload = Some (a', Inr (Some \<lparr> au_codec = va_codec a, au_timestamp = timestamp,
      au_frame_index = frame, au_first_stream_packet_index = first,
      au_keyframe = video_access_unit_is_keyframe (va_codec a) unit_bytes hint, au_contiguous = True, au_bytes = unit_bytes \<rparr>))"
  using assms
  by (auto simp: Assembler_push_def trim_last_packet_def finish_frame_def running_def Let_def)

lemma assemble_inner:
  assumes "running a frame first hint bs" and "\<forall>(h, p)\<in>set packets. inner_packet frame h"
    and "length bs + length (concat (map snd packets)) \<le> va_max_access_unit_bytes a"
  shows "assemble a timestamp (packets @ rest) =
    (case assemble (a\<lparr> va_bytes := bs @ concat (map snd packets) \<rparr>) timestamp rest of
       None \<Rightarrow> None | Some (a', ress) \<Rightarrow> Some (a', replicate (length packets) (Inr None) @ ress))"
  using assms
proof (induction packets arbitrary: a bs)
  case Nil
  then have "a\<lparr> va_bytes := bs \<rparr> = a" by (auto simp: running_def)
  then show ?case by (simp split: option.splits)
next
  case (Cons hp packets)
  obtain h p where hp: "hp = (h, p)" by (cases hp)
  with Cons.prems have h: "inner_packet frame h" and len: "length bs + length p \<le> va_max_access_unit_bytes a" by auto
  note step = push_inner [OF Cons.prems(1) h len]
  have "\<forall>(h, p)\<in>set packets. inner_packet frame h"
    "length (bs @ p) + length (concat (map snd packets)) \<le> va_max_access_unit_bytes (a\<lparr> va_bytes := bs @ p \<rparr>)"
    using Cons.prems hp by auto
  from Cons.IH [OF step(2) this] show ?case
    using step(1) hp by (auto split: option.splits)
qed


definition sample_nv :: "u8 \<Rightarrow> NvVideoPacket" where
  "sample_nv flags = \<lparr> nv_stream_packet_index = 40, nv_frame_index = 3, nv_flags = flags,
     nv_fec_current_block = 0, nv_fec_last_block = 0, nv_is_fec = False \<rparr>"


end
