(* ===== verification/Control.thy ===== *)
theory Control
  imports Prelude
begin

text \<open>
  Control and feedback messages: the private control commands of \<open>nvst_control.rs\<close>, the plain RTCP
  messages of \<open>nvst.rs\<close> and the write budget of \<open>nvst_budget.rs\<close>. The lemmas decode the two loss reports
  back to the exact set of missing packets and show what the budget keeps in reserve.
\<close>

section \<open>Control commands\<close>

definition FRAME_ACK_CODE :: u16 where "FRAME_ACK_CODE = 0x204"
definition FRAME_PACING_CODE :: u16 where "FRAME_PACING_CODE = 0x203"
definition QOS_REPORT_CODE :: u16 where "QOS_REPORT_CODE = 0x207"
definition IDR_REQUEST_CODE :: u16 where "IDR_REQUEST_CODE = 0x302"
definition NACK_V2_CODE :: u16 where "NACK_V2_CODE = 0x317"
definition MAX_NACK_PACKET_COUNT :: nat where "MAX_NACK_PACKET_COUNT = 64"
definition FRAME_ACK_PAYLOAD_LEN :: nat where "FRAME_ACK_PAYLOAD_LEN = 102"
definition FRAME_PACING_PAYLOAD_LEN :: nat where "FRAME_PACING_PAYLOAD_LEN = 28"
definition QOS_REPORT_PAYLOAD_LEN :: nat where "QOS_REPORT_PAYLOAD_LEN = 52"

record NvstControlCommand =
  cc_code :: u16
  cc_payload :: bytes

definition encoded :: "NvstControlCommand \<Rightarrow> bytes" where
  "encoded c =
     (if length (cc_payload c) > u16_max then []
      else le16 (cc_code c) @ le16 (of_nat (length (cc_payload c))) @ cc_payload c)"

text \<open>The loop of \<open>nack_v2\<close> over payload, base and bitmap; a record closes when the next one is too far.\<close>

definition close_record :: "bytes \<Rightarrow> u16 \<Rightarrow> u64 \<Rightarrow> bytes" where
  "close_record payload base bitmap =
     (let payload = payload @ le16 base @ le64 bitmap
      in payload[2 := payload ! 2 + 1])"

definition nack_step :: "u16 \<Rightarrow> bytes \<times> u16 \<times> u64 \<Rightarrow> bytes \<times> u16 \<times> u64" where
  "nack_step sequence s = (case s of (payload, base, bitmap) \<Rightarrow>
     let distance = sequence - base
     in if distance = 0 then (payload, base, bitmap)
        else if distance \<le> 64 then (payload, base, bitmap OR push_bit (unat (distance - 1)) 1)
        else (close_record payload base bitmap, sequence, 0))"

definition nack_v2 :: "u8 \<Rightarrow> u16 list \<Rightarrow> NvstControlCommand option" where
  "nack_v2 stream_index missing =
     (if missing = [] \<or> length missing > MAX_NACK_PACKET_COUNT then None
      else case fold nack_step (tl missing) ([2, stream_index, 0], hd missing, 0) of
             (payload, base, bitmap) \<Rightarrow>
               Some \<lparr> cc_code = NACK_V2_CODE, cc_payload = close_record payload base bitmap \<rparr>)"

definition put_u16 :: "nat \<Rightarrow> u16 \<Rightarrow> bytes \<Rightarrow> bytes" where
  "put_u16 offset value payload = write_at offset (le16 value) payload"

definition put_u32 :: "nat \<Rightarrow> u32 \<Rightarrow> bytes \<Rightarrow> bytes" where
  "put_u32 offset value payload = write_at offset (le32 value) payload"

definition put_u64 :: "nat \<Rightarrow> u64 \<Rightarrow> bytes \<Rightarrow> bytes" where
  "put_u64 offset value payload = write_at offset (le64 value) payload"

text \<open>Floating point values enter by their IEEE bit patterns; \<open>(-1.0_f32).to_bits()\<close> is \<open>0xbf800000\<close>.\<close>

definition f32_minus_one_bits :: u32 where "f32_minus_one_bits = 0xbf800000"

definition frame_ack :: "u32 \<Rightarrow> u64 option \<Rightarrow> u32 \<Rightarrow> NvstControlCommand" where
  "frame_ack frame_number first_packet_time_ms_bits frame_bytes =
     (let payload = replicate FRAME_ACK_PAYLOAD_LEN 0;
          payload = put_u16 0 1 payload;
          payload = put_u16 2 9 payload;
          payload = put_u32 4 frame_number payload;
          payload = (case first_packet_time_ms_bits of None \<Rightarrow> payload | Some b \<Rightarrow> put_u64 12 b payload);
          payload = fold (\<lambda>offset. put_u32 offset f32_minus_one_bits) [20, 24, 28, 32, 36, 40, 44, 48] payload;
          payload = put_u32 72 frame_bytes payload;
          payload = put_u32 94 f32_minus_one_bits payload;
          payload = put_u32 98 f32_minus_one_bits payload
      in \<lparr> cc_code = FRAME_ACK_CODE, cc_payload = payload \<rparr>)"

definition frame_pacing_report :: "u32 \<Rightarrow> u32 \<Rightarrow> u32 \<Rightarrow> NvstControlCommand" where
  "frame_pacing_report frame_number target_frame_time_us pacing_error_us =
     (let payload = replicate FRAME_PACING_PAYLOAD_LEN 0;
          payload = put_u32 0 5 payload;
          payload = put_u32 8 2 payload;
          payload = put_u32 12 frame_number payload;
          payload = put_u32 16 target_frame_time_us payload;
          payload = put_u32 20 (min pacing_error_us target_frame_time_us) payload;
          payload = put_u32 24 0x341a payload
      in \<lparr> cc_code = FRAME_PACING_CODE, cc_payload = payload \<rparr>)"

record BandwidthFeedback =
  bf_minimum_server_time :: u32
  bf_median_server_time :: u32
  bf_queue_delay_us :: u32
  bf_jitter_us :: u16
  bf_utilization_percent :: u8
  bf_estimate_kbps :: u32
  bf_lossy_frames :: u32

record QosPacketSnapshot =
  qs_ssrc :: u32
  qs_base :: u32
  qs_highest :: u32
  qs_received :: u32

record QosReport =
  qr_sequence :: u32
  qr_sender_frame_number :: u32
  qr_bytes_received :: u32
  qr_loss_per_ten_thousand :: u16
  qr_client_time_90khz :: u32
  qr_packet_snapshot :: "QosPacketSnapshot option"
  qr_bandwidth :: BandwidthFeedback

definition QosReport_command :: "QosReport \<Rightarrow> NvstControlCommand" where
  "QosReport_command r =
     (let payload = replicate QOS_REPORT_PAYLOAD_LEN 0;
          payload = put_u32 0 7 payload;
          payload = put_u32 8 (qr_sequence r) payload;
          payload = put_u32 12 (qr_sender_frame_number r) payload;
          payload = put_u32 16 (bf_minimum_server_time (qr_bandwidth r)) payload;
          payload = put_u32 20 (bf_queue_delay_us (qr_bandwidth r)) payload;
          payload = put_u16 24 (bf_jitter_us (qr_bandwidth r)) payload;
          payload = put_u16 26 (qr_loss_per_ten_thousand r) payload;
          payload = payload[28 := bf_utilization_percent (qr_bandwidth r)];
          payload = put_u16 30 1000 payload;
          payload = put_u16 32 1000 payload;
          payload = put_u32 36 (qr_client_time_90khz r) payload;
          payload = put_u32 40 (bf_lossy_frames (qr_bandwidth r)) payload;
          payload = put_u32 44 (bf_estimate_kbps (qr_bandwidth r)) payload;
          payload = put_u32 48 (bf_median_server_time (qr_bandwidth r)) payload
      in \<lparr> cc_code = QOS_REPORT_CODE, cc_payload = payload \<rparr>)"

definition idr_request :: NvstControlCommand where
  "idr_request = \<lparr> cc_code = IDR_REQUEST_CODE, cc_payload = le16 0 \<rparr>"

section \<open>RTCP messages\<close>

record RtcpReportBlock =
  rp_media_ssrc :: u32
  rp_fraction_lost :: u8
  rp_cumulative_lost :: "32 word"
  rp_highest_sequence :: u32
  rp_jitter :: u32

definition build_rtcp_receiver_report :: "u32 \<Rightarrow> RtcpReportBlock \<Rightarrow> bytes" where
  "build_rtcp_receiver_report sender_ssrc report =
     [0x81, 201] @ be16 7 @ be32 sender_ssrc @ be32 (rp_media_ssrc report) @ [rp_fraction_lost report]
       @ drop 1 (be32 (rp_cumulative_lost report)) @ be32 (rp_highest_sequence report)
       @ be32 (rp_jitter report) @ be32 0 @ be32 0"

definition build_rtcp_pli :: "u32 \<Rightarrow> u32 \<Rightarrow> bytes" where
  "build_rtcp_pli sender_ssrc media_ssrc = [0x81, 206] @ be16 2 @ be32 sender_ssrc @ be32 media_ssrc"

definition MAX_NACK_FCI_ENTRIES :: nat where
  "MAX_NACK_FCI_ENTRIES = div_ceil MAX_NACK_PACKET_COUNT 17"

text \<open>The loop of \<open>build_rtcp_nack\<close>; \<open>room\<close> is what the entry vector may still take.\<close>

fun nack_entries :: "nat \<Rightarrow> nat \<Rightarrow> nat \<Rightarrow> (u16 \<times> u16) list" where
  "nack_entries 0 current effective_last = []"
| "nack_entries (Suc room) current effective_last =
     (if current \<le> effective_last
      then let pid = of_nat current;
               represented_following = min (effective_last - current) 16;
               blp = (if represented_following = 16 then 0xffff
                      else ucast (push_bit represented_following (1 :: u32) - 1))
           in (pid, blp) # nack_entries room (sat_add_u64 current 17) effective_last
      else [])"

definition build_rtcp_nack :: "u32 \<Rightarrow> u32 \<Rightarrow> nat \<Rightarrow> nat \<Rightarrow> bytes" where
  "build_rtcp_nack sender_ssrc media_ssrc first_missing_index last_missing_index =
     (let effective_last = min last_missing_index
            (sat_add_u64 first_missing_index (MAX_NACK_PACKET_COUNT - 1));
          entries = nack_entries MAX_NACK_FCI_ENTRIES first_missing_index effective_last
      in [0x81, 205] @ be16 (2 + of_nat (length entries)) @ be32 sender_ssrc @ be32 media_ssrc
           @ concat (map (\<lambda>(pid, blp). be16 pid @ be16 blp) entries))"

definition uses_rtcp_video_feedback :: "bool \<Rightarrow> bool \<Rightarrow> bool" where
  "uses_rtcp_video_feedback mjolnir rtcp_channel_open \<longleftrightarrow> \<not> mjolnir \<and> rtcp_channel_open"

section \<open>Write budget\<close>

definition TRANSPORT_AGGREGATE_CAPACITY :: nat where "TRANSPORT_AGGREGATE_CAPACITY = 128 * 1024"
definition TEARDOWN_RESERVE :: nat where "TEARDOWN_RESERVE = 64 * 1024"
definition NORMAL_BUDGET :: nat where "NORMAL_BUDGET = TRANSPORT_AGGREGATE_CAPACITY - TEARDOWN_RESERVE"

datatype WriteClass = Normal | Teardown
datatype WriteAdmission = Admitted | OverBudget | EmptyWrite

definition is_admitted :: "WriteAdmission \<Rightarrow> bool" where
  "is_admitted a \<longleftrightarrow> a = Admitted"

definition sat_add_usize :: "nat \<Rightarrow> nat \<Rightarrow> nat" where
  "sat_add_usize a b = min (a + b) u64_max"

definition admit_write :: "nat \<Rightarrow> nat \<Rightarrow> WriteClass \<Rightarrow> WriteAdmission" where
  "admit_write buffered_total candidate write_class =
     (if candidate = 0 then EmptyWrite
      else let limit = (case write_class of Normal \<Rightarrow> NORMAL_BUDGET | Teardown \<Rightarrow> TRANSPORT_AGGREGATE_CAPACITY)
           in if sat_add_usize buffered_total candidate \<le> limit then Admitted else OverBudget)"

section \<open>Loss reports name exactly what is missing\<close>

text \<open>The packets that a record of the private report and an entry of the generic one stand for.\<close>

definition named :: "u16 \<times> u64 \<Rightarrow> u16 set" where
  "named r = (case r of (base, bitmap) \<Rightarrow> insert base {base + 1 + of_nat k | k. k < 64 \<and> bit bitmap k})"

definition named_generic :: "u16 \<times> u16 \<Rightarrow> u16 set" where
  "named_generic e = (case e of (pid, blp) \<Rightarrow> insert pid {pid + 1 + of_nat k | k. k < 16 \<and> bit blp k})"

definition record_bytes :: "(u16 \<times> u64) list \<Rightarrow> bytes" where
  "record_bytes rs = concat (map (\<lambda>(base, bitmap). le16 base @ le64 bitmap) rs)"

lemma record_bytes_snoc: "record_bytes (rs @ [(b, m)]) = record_bytes rs @ le16 b @ le64 m"
  by (simp add: record_bytes_def)

lemma named_mark:
  assumes "distance \<noteq> 0" and "distance \<le> (64 :: u16)"
  shows "named (base, bitmap OR push_bit (unat (distance - 1)) 1) = insert (base + distance) (named (base, bitmap))"
proof -
  have u: "unat (distance - 1) = unat distance - 1" using assms(1) by (simp add: unat_minus_one)
  have d: "0 < unat distance" "unat distance \<le> 64" using assms by (simp_all add: unat_gt_0 word_le_nat_alt)
  define k where "k = unat distance - 1"
  have k: "k < 64" and Suc_k: "Suc k = unat distance" using d by (auto simp: k_def)
  have "of_nat (Suc k) = distance" unfolding Suc_k by simp
  then have of_k: "1 + of_nat k = distance" by simp
  have "bit (bitmap OR push_bit k 1) j \<longleftrightarrow> j = k \<or> bit bitmap j" if "j < 64" for j
    using that by (auto simp: bit_simps)
  then have "{base + 1 + of_nat j | j. j < 64 \<and> bit (bitmap OR push_bit k 1) j} =
      insert (base + 1 + of_nat k) {base + 1 + of_nat j | j. j < 64 \<and> bit bitmap j}"
    using k by auto
  then show ?thesis using of_k u by (auto simp: named_def k_def add.assoc)
qed

definition nack_state :: "u8 \<Rightarrow> u16 list \<Rightarrow> bytes \<times> u16 \<times> u64 \<Rightarrow> bool" where
  "nack_state stream_index seen s \<longleftrightarrow> (case s of (payload, base, bitmap) \<Rightarrow>
     \<exists>rs. payload = [2, stream_index, of_nat (length rs)] @ record_bytes rs \<and> length rs < length seen
       \<and> \<Union> (named ` set rs) \<union> named (base, bitmap) = set seen)"

lemma nack_state_step: "nack_state i seen s \<Longrightarrow> nack_state i (seen @ [sequence]) (nack_step sequence s)"
proof -
  assume "nack_state i seen s"
  then obtain payload base bitmap rs where s: "s = (payload, base, bitmap)"
    and p: "payload = [2, i, of_nat (length rs)] @ record_bytes rs" and l: "length rs < length seen"
    and u: "\<Union> (named ` set rs) \<union> named (base, bitmap) = set seen"
    by (auto simp: nack_state_def split: prod.splits)
  have base: "base \<in> named (base, bitmap)" by (simp add: named_def)
  have seq: "base + (sequence - base) = sequence" by simp
  consider "sequence - base = 0" | "sequence - base \<noteq> 0" "sequence - base \<le> 64" | "sequence - base \<noteq> 0" "\<not> sequence - base \<le> 64"
    by blast
  then show ?thesis
  proof cases
    case 1
    then have "sequence = base" by simp
    with u base have "set (seen @ [sequence]) = \<Union> (named ` set rs) \<union> named (base, bitmap)" by auto
    with 1 s p l show ?thesis by (auto simp: nack_state_def nack_step_def)
  next
    case 2
    then have n: "named (base, bitmap OR push_bit (unat (sequence - base - 1)) 1) = insert sequence (named (base, bitmap))"
      using named_mark [OF 2, of base bitmap] seq by simp
    have "\<Union> (named ` set rs) \<union> insert sequence (named (base, bitmap)) = set (seen @ [sequence])" using u by auto
    with 2 s p l n show ?thesis by (auto simp: nack_state_def nack_step_def simp del: push_bit_of_1)
  next
    case 3
    have "close_record payload base bitmap = [2, i, of_nat (length (rs @ [(base, bitmap)]))] @ record_bytes (rs @ [(base, bitmap)])"
      by (simp add: close_record_def p record_bytes_snoc add.commute)
    moreover have "named (sequence, 0) = {sequence}" by (simp add: named_def)
    moreover have "\<Union> (named ` set (rs @ [(base, bitmap)])) \<union> {sequence} = set (seen @ [sequence])" using u by auto
    moreover have "length (rs @ [(base, bitmap)]) < length (seen @ [sequence])" using l by simp
    ultimately show ?thesis using 3 s unfolding nack_state_def nack_step_def prod.case Let_def
      by (simp only: if_False prod.case) metis
  qed
qed

lemma nack_state_fold: "nack_state i seen s \<Longrightarrow> nack_state i (seen @ ws) (fold nack_step ws s)"
proof (induction ws arbitrary: seen s)
  case (Cons x ws)
  from Cons.IH [OF nack_state_step [OF Cons.prems, of x]] show ?case by simp
qed simp

text \<open>
  The private loss report asks for exactly the missing packets: its payload is a count and that many
  records, and the sequence numbers the records stand for (base and bitmap) are the given ones, whatever
  their order, spread or wrap-around.
\<close>

theorem nack_v2_exact:
  assumes "missing \<noteq> []" and "length missing \<le> MAX_NACK_PACKET_COUNT"
  shows "\<exists>rs. nack_v2 stream_index missing = Some \<lparr> cc_code = NACK_V2_CODE,
      cc_payload = [2, stream_index, of_nat (length rs)] @ concat (map (\<lambda>(base, bitmap). le16 base @ le64 bitmap) rs) \<rparr>
    \<and> length rs \<le> length missing \<and> \<Union> (named ` set rs) = set missing"
proof -
  have "nack_state stream_index [hd missing] ([2, stream_index, 0], hd missing, 0)"
    by (auto simp: nack_state_def named_def record_bytes_def intro!: exI [of _ "[]"])
  from nack_state_fold [OF this, of "tl missing"] assms(1)
  have "nack_state stream_index missing (fold nack_step (tl missing) ([2, stream_index, 0], hd missing, 0))" by simp
  then obtain payload base bitmap rs where
    s: "fold nack_step (tl missing) ([2, stream_index, 0], hd missing, 0) = (payload, base, bitmap)"
    and p: "payload = [2, stream_index, of_nat (length rs)] @ record_bytes rs" and l: "length rs < length missing"
    and u: "\<Union> (named ` set rs) \<union> named (base, bitmap) = set missing"
    by (auto simp: nack_state_def split: prod.splits)
  have "close_record payload base bitmap = [2, stream_index, of_nat (length (rs @ [(base, bitmap)]))] @ record_bytes (rs @ [(base, bitmap)])"
    by (simp add: close_record_def p record_bytes_snoc add.commute)
  moreover have "\<Union> (named ` set (rs @ [(base, bitmap)])) = set missing" using u by auto
  ultimately show ?thesis
    using assms s l by (intro exI [of _ "rs @ [(base, bitmap)]"]) (simp add: nack_v2_def record_bytes_def)
qed

theorem nack_v2_exact_witness:
  "\<exists>rs. nack_v2 0 [65535, 1, 200] = Some \<lparr> cc_code = NACK_V2_CODE,
      cc_payload = [2, 0, of_nat (length rs)] @ concat (map (\<lambda>(base, bitmap). le16 base @ le64 bitmap) rs) \<rparr>
    \<and> \<Union> (named ` set rs) = {65535, 1, 200}"
  using nack_v2_exact [of "[65535, 1, 200]" 0] by (auto simp: MAX_NACK_PACKET_COUNT_def)

lemma following_mask: "r < 16 \<Longrightarrow> k < 16 \<Longrightarrow> bit (ucast (push_bit r (1 :: u32) - 1) :: u16) k \<longleftrightarrow> k < r"
proof -
  assume "r < 16" "k < 16"
  moreover have "push_bit r (1 :: u32) - 1 = mask r" by (simp add: mask_eq_exp_minus_1)
  ultimately show ?thesis by (simp add: bit_simps del: push_bit_of_1)
qed

lemma named_generic_bits:
  assumes "r \<le> 16" and "\<And>k. k < 16 \<Longrightarrow> bit blp k \<longleftrightarrow> k < r"
  shows "named_generic (of_nat c, blp) = of_nat ` {c..c + r}"
proof -
  have "{c..c + r} = insert c ((\<lambda>k. c + 1 + k) ` {..<r})"
  proof (rule set_eqI)
    fix x
    have "x \<in> {c..c + r} \<longleftrightarrow> x = c \<or> (\<exists>k < r. x = c + 1 + k)"
      by (cases "x \<le> c") (auto intro!: exI [of _ "x - c - 1"])
    then show "x \<in> {c..c + r} \<longleftrightarrow> x \<in> insert c ((\<lambda>k. c + 1 + k) ` {..<r})" by auto
  qed
  moreover have "{of_nat c + 1 + of_nat k | k. k < 16 \<and> bit blp k} = (\<lambda>k. of_nat (c + 1 + k) :: u16) ` {..<r}"
  proof -
    have "k < 16 \<and> bit blp k \<longleftrightarrow> k < r" for k using assms(1) assms(2) [of k] by auto
    then show ?thesis by (simp add: image_def ac_simps) blast
  qed
  ultimately show ?thesis by (simp add: named_generic_def image_image)
qed

lemma named_generic_run:
  assumes "r = min n 16"
  shows "named_generic (of_nat c, if r = 16 then 0xffff else ucast (push_bit r (1 :: u32) - 1)) = of_nat ` {c..c + r}"
proof (rule named_generic_bits)
  show "r \<le> 16" using assms by simp
  fix k :: nat assume "k < 16"
  then show "bit (if r = 16 then 0xffff else ucast (push_bit r (1 :: u32) - 1) :: u16) k \<longleftrightarrow> k < r"
  proof (cases "r = 16")
    case True
    have m: "(0xffff :: u16) = mask 16" by (simp add: mask_eq_exp_minus_1)
    show ?thesis unfolding m using True \<open>k < 16\<close> by (simp add: bit_mask_iff)
  next
    case False
    then have "r < 16" using assms by simp
    with following_mask [OF this \<open>k < 16\<close>] show ?thesis by simp
  qed
qed

lemma nack_entries_exact:
  assumes "final < current + 17 * room" and "final + 17 \<le> u64_max"
  shows "\<Union> (named_generic ` set (nack_entries room current final)) = of_nat ` {current..final}"
  using assms
proof (induction room arbitrary: current)
  case 0
  then show ?case by simp
next
  case (Suc room)
  show ?case
  proof (cases "current \<le> final")
    case True
    let ?r = "min (final - current) 16"
    have "sat_add_u64 current 17 = current + 17" using Suc.prems(2) True by (simp add: sat_add_u64_exact)
    moreover have "\<Union> (named_generic ` set (nack_entries room (current + 17) final)) = of_nat ` {current + 17..final}"
      using Suc by simp
    moreover have "{current..final} = {current..current + ?r} \<union> {current + 17..final}" using True by auto
    ultimately show ?thesis
      using True named_generic_run [OF refl, of current "final - current"] by (simp only: nack_entries.simps Let_def if_True list.set image_insert Union_insert image_Un)
  qed simp
qed

text \<open>
  The generic RTCP loss report is bounded and exact: it stands for the missing range, cut to its first
  64 packets, and its length field is the number of words that follow the first.
\<close>

theorem build_rtcp_nack_exact:
  assumes "first \<le> final" and "first + 80 \<le> u64_max"
  shows "\<exists>entries. build_rtcp_nack sender media first final =
      [0x81, 205] @ be16 (2 + of_nat (length entries)) @ be32 sender @ be32 media
        @ concat (map (\<lambda>(pid, blp). be16 pid @ be16 blp) entries)
    \<and> length (build_rtcp_nack sender media first final) = 4 * (length entries + 3) \<and> length entries \<le> 4
    \<and> \<Union> (named_generic ` set entries) = of_nat ` {first..min final (first + 63)}"
proof -
  have eff: "min final (sat_add_u64 first (MAX_NACK_PACKET_COUNT - 1)) = min final (first + 63)"
    using assms(2) by (simp add: sat_add_u64_exact MAX_NACK_PACKET_COUNT_def)
  have room: "MAX_NACK_FCI_ENTRIES = 4" by (simp add: MAX_NACK_FCI_ENTRIES_def MAX_NACK_PACKET_COUNT_def div_ceil_def)
  define entries where "entries = nack_entries 4 first (min final (first + 63))"
  have "length (nack_entries n c l) \<le> n" for n c l by (induction n arbitrary: c) (auto simp: Let_def)
  then have "length entries \<le> 4" by (simp add: entries_def)
  moreover have "\<Union> (named_generic ` set entries) = of_nat ` {first..min final (first + 63)}"
    unfolding entries_def using assms by (intro nack_entries_exact) auto
  moreover have "length (concat (map (\<lambda>(pid, blp). be16 pid @ be16 blp) es)) = 4 * length es" for es
    by (induction es) auto
  moreover have "build_rtcp_nack sender media first final = [0x81, 205] @ be16 (2 + of_nat (length entries)) @ be32 sender @ be32 media
        @ concat (map (\<lambda>(pid, blp). be16 pid @ be16 blp) entries)"
    unfolding build_rtcp_nack_def Let_def eff room entries_def ..
  ultimately show ?thesis by (intro exI [of _ entries]) simp
qed

theorem build_rtcp_nack_exact_witness:
  "length (build_rtcp_nack 1 2 65530 65540) mod 4 = 0"
  using build_rtcp_nack_exact [of 65530 65540 1 2] by auto

section \<open>Encoding\<close>

text \<open>Reference decoder of one command at the front of a byte stream.\<close>

definition decode_command :: "bytes \<Rightarrow> (NvstControlCommand \<times> bytes) option" where
  "decode_command bs =
     (case bs of
        c0 # c1 # l0 # l1 # rest \<Rightarrow>
          let n = unat (from_le16 l0 l1)
          in if n \<le> length rest then Some (\<lparr> cc_code = from_le16 c0 c1, cc_payload = take n rest \<rparr>, drop n rest) else None
      | _ \<Rightarrow> None)"

text \<open>An encoded command decodes to itself, also in front of further bytes, so that the records of a
  batched report can be told apart.
\<close>

lemma encoded_roundtrip:
  assumes "length (cc_payload c) \<le> u16_max"
  shows "decode_command (encoded c @ rest) = Some (c, rest)"
proof -
  have "unat (of_nat (length (cc_payload c)) :: u16) = length (cc_payload c)"
    using assms by (simp add: unsigned_of_nat take_bit_nat_eq_self)
  then show ?thesis
    using assms
    by (simp add: decode_command_def encoded_def le16_def from_le16_def codec Let_def)
qed

theorem encoded_roundtrip_witness:
  "decode_command (encoded idr_request @ [7]) = Some (idr_request, [7])"
  using encoded_roundtrip [of idr_request "[7]"] by (simp add: idr_request_def)

lemma length_put:
  "length p = n \<Longrightarrow> offset + 2 \<le> n \<Longrightarrow> length (put_u16 offset a p) = n"
  "length p = n \<Longrightarrow> offset + 4 \<le> n \<Longrightarrow> length (put_u32 offset b p) = n"
  "length p = n \<Longrightarrow> offset + 8 \<le> n \<Longrightarrow> length (put_u64 offset c p) = n"
  "length p = n \<Longrightarrow> length (p[i := x]) = n"
  by (simp_all add: put_u16_def put_u32_def put_u64_def length_write_at)

lemma frame_ack_length: "length (cc_payload (frame_ack frame bits frame_bytes)) = FRAME_ACK_PAYLOAD_LEN"
proof -
  have hint: "length p = n \<Longrightarrow> 20 \<le> n \<Longrightarrow> length (case bits of None \<Rightarrow> p | Some b \<Rightarrow> put_u64 12 b p) = n" for p n
    by (auto intro: length_put split: option.splits)
  show ?thesis
    unfolding frame_ack_def Let_def NvstControlCommand.simps FRAME_ACK_PAYLOAD_LEN_def fold.simps comp_def id_def
    by (intro length_put hint) simp_all
qed

lemma frame_pacing_length: "length (cc_payload (frame_pacing_report frame target error)) = FRAME_PACING_PAYLOAD_LEN"
  unfolding frame_pacing_report_def Let_def NvstControlCommand.simps FRAME_PACING_PAYLOAD_LEN_def
  by (intro length_put) simp_all

lemma qos_report_length: "length (cc_payload (QosReport_command report)) = QOS_REPORT_PAYLOAD_LEN"
  unfolding QosReport_command_def Let_def NvstControlCommand.simps QOS_REPORT_PAYLOAD_LEN_def
  by (intro length_put) simp_all

text \<open>
  Every slice write of the fixed-size reports is in range, so that none of them panics, and their
  encodings have the announced sizes: 106 bytes for a frame acknowledgement, 32 for a pacing report and
  56 for a quality report.
\<close>

lemma report_sizes:
  "length (encoded (frame_ack frame bits frame_bytes)) = 4 + FRAME_ACK_PAYLOAD_LEN
   \<and> length (encoded (frame_pacing_report frame target error)) = 4 + FRAME_PACING_PAYLOAD_LEN
   \<and> length (encoded (QosReport_command report)) = 4 + QOS_REPORT_PAYLOAD_LEN"
  by (simp add: encoded_def frame_ack_length frame_pacing_length qos_report_length
      FRAME_ACK_PAYLOAD_LEN_def FRAME_PACING_PAYLOAD_LEN_def QOS_REPORT_PAYLOAD_LEN_def)

section \<open>Budget\<close>

text \<open>The buffered total after a sequence of offered writes.\<close>

fun offer_writes :: "nat \<Rightarrow> (nat \<times> WriteClass) list \<Rightarrow> nat" where
  "offer_writes buffered [] = buffered"
| "offer_writes buffered ((n, write_class) # writes) =
     offer_writes (if is_admitted (admit_write buffered n write_class) then buffered + n else buffered) writes"

lemmas budget_consts = NORMAL_BUDGET_def TRANSPORT_AGGREGATE_CAPACITY_def TEARDOWN_RESERVE_def

lemma admitted_iff:
  "is_admitted (admit_write buffered n c) \<longleftrightarrow>
     0 < n \<and> buffered + n \<le> (case c of Normal \<Rightarrow> NORMAL_BUDGET | Teardown \<Rightarrow> TRANSPORT_AGGREGATE_CAPACITY)"
  by (cases c) (auto simp: is_admitted_def admit_write_def sat_add_usize_def Let_def budget_consts)

lemma offer_writes_capacity:
  "buffered \<le> TRANSPORT_AGGREGATE_CAPACITY \<Longrightarrow> offer_writes buffered writes \<le> TRANSPORT_AGGREGATE_CAPACITY"
proof (induction buffered writes rule: offer_writes.induct)
  case (2 buffered n c writes)
  then show ?case by (cases c) (auto simp: admitted_iff budget_consts)
qed simp

lemma offer_writes_normal:
  "buffered \<le> NORMAL_BUDGET \<Longrightarrow> \<forall>(n, c)\<in>set writes. c = Normal \<Longrightarrow> offer_writes buffered writes \<le> NORMAL_BUDGET"
proof (induction buffered writes rule: offer_writes.induct)
  case (2 buffered n c writes)
  then show ?case by (auto simp: admitted_iff)
qed simp

text \<open>The write budget never admits more than the transport can hold, and normal traffic, however much of
  it is offered, leaves room for every teardown write of up to 64 KiB.
\<close>

lemma budget_reserves_teardown:
  assumes "\<forall>(n, c)\<in>set writes. c = Normal" and "0 < n" and "n \<le> TEARDOWN_RESERVE"
  shows "offer_writes 0 writes \<le> NORMAL_BUDGET \<and> admit_write (offer_writes 0 writes) n Teardown = Admitted
    \<and> (\<forall>later. offer_writes 0 (writes @ (n, Teardown) # later) \<le> TRANSPORT_AGGREGATE_CAPACITY)"
proof -
  have "offer_writes 0 writes \<le> NORMAL_BUDGET" using assms(1) by (intro offer_writes_normal) auto
  moreover from this assms(2,3) have "admit_write (offer_writes 0 writes) n Teardown = Admitted"
    by (simp add: admit_write_def sat_add_usize_def Let_def NORMAL_BUDGET_def TRANSPORT_AGGREGATE_CAPACITY_def TEARDOWN_RESERVE_def)
  ultimately show ?thesis using offer_writes_capacity [of 0] by simp
qed

theorem budget_reserves_teardown_witness:
  "admit_write (offer_writes 0 [(60000, Normal), (60000, Normal)]) 65536 Teardown = Admitted"
  using budget_reserves_teardown [of "[(60000, Normal), (60000, Normal)]" 65536] by (simp add: TEARDOWN_RESERVE_def)

end
