(* ===== verification/Srtp.thy ===== *)
theory Srtp
  imports FecBlock Replay Control
begin

text \<open>
  SRTP reception (\<open>SrtpReceiver\<close>), the SRTCP sender and the ciphers around them. The primitives come
  from third-party crates and are parameters: the record \<open>crypto\<close> holds the AES block function, the two
  counter mode key streams, GHASH and HMAC-SHA1. What the code relies on, the output lengths, is the
  hypothesis \<open>crypto_ok\<close>.
\<close>

section \<open>Primitives\<close>

record crypto =
  cr_aes_block :: "bytes \<Rightarrow> bytes \<Rightarrow> bytes"
  cr_ctr32 :: "bytes \<Rightarrow> bytes \<Rightarrow> nat \<Rightarrow> u8"
  cr_ctr128 :: "bytes \<Rightarrow> bytes \<Rightarrow> nat \<Rightarrow> u8"
  cr_ghash :: "bytes \<Rightarrow> bytes \<Rightarrow> bytes"
  cr_hmac_sha1 :: "bytes \<Rightarrow> bytes \<Rightarrow> bytes"

definition crypto_ok :: "crypto \<Rightarrow> bool" where
  "crypto_ok c \<longleftrightarrow> (\<forall>h m. length (cr_ghash c h m) = 16) \<and> (\<forall>k m. length (cr_hmac_sha1 c k m) = 20)"

text \<open>\<open>apply_keystream\<close> from a position of the key stream on.\<close>

definition apply_keystream :: "(nat \<Rightarrow> u8) \<Rightarrow> nat \<Rightarrow> bytes \<Rightarrow> bytes" where
  "apply_keystream ks position bs = map2 (\<lambda>i b. b XOR ks (position + i)) [0..<length bs] bs"

text \<open>\<open>update_padded\<close>: the message is filled up with zeros to whole blocks.\<close>

definition pad_block :: "bytes \<Rightarrow> bytes" where
  "pad_block bs = bs @ replicate ((16 - length bs mod 16) mod 16) 0"

section \<open>Model\<close>

definition SRTP_AES_CM_HMAC_SHA1_80_TAG_LEN :: nat where "SRTP_AES_CM_HMAC_SHA1_80_TAG_LEN = 10"
definition SRTP_AEAD_AES_GCM_TAG_LEN :: nat where "SRTP_AEAD_AES_GCM_TAG_LEN = 16"
definition SRTP_AEAD_AES_GCM_8_TAG_LEN :: nat where "SRTP_AEAD_AES_GCM_8_TAG_LEN = 8"
definition GFN_SRTP_KEY_LABEL :: u8 where "GFN_SRTP_KEY_LABEL = 0x00"
definition GFN_SRTP_SALT_LABEL :: u8 where "GFN_SRTP_SALT_LABEL = 0x02"
definition GFN_SRTCP_KEY_LABEL :: u8 where "GFN_SRTCP_KEY_LABEL = 0x03"
definition GFN_SRTCP_SALT_LABEL :: u8 where "GFN_SRTCP_SALT_LABEL = 0x05"
definition SRTCP_ENCRYPTED_FLAG :: u32 where "SRTCP_ENCRYPTED_FLAG = 0x80000000"
definition RTCP_SENDER_SSRC :: u32 where "RTCP_SENDER_SSRC = 0x4f4e4f57"
definition SRTCP_RR_INTERVAL :: duration where "SRTCP_RR_INTERVAL = secs 1"

text \<open>Master key, master salt and tag length.\<close>

datatype NvstSrtpMaterial =
    MatAeadAes128Gcm bytes bytes nat
  | MatAeadAes256Gcm bytes bytes nat
  | MatAesCm128HmacSha1 bytes bytes nat
  | MatAesCm256HmacSha1 bytes bytes nat

text \<open>Session key, authentication key for the counter mode suites, session salt and tag length.\<close>

datatype SrtpCipher =
    AeadAes128Gcm bytes bytes nat
  | AeadAes256Gcm bytes bytes nat
  | AesCm128HmacSha1 bytes bytes bytes nat
  | AesCm256HmacSha1 bytes bytes bytes nat

record SrtpReceiver =
  sr_cipher :: SrtpCipher
  sr_replay :: ReplayWindow

text \<open>
  The key derivation: the salt fills the front of the block, and the label goes to its eighth byte. The
  two functions of the source differ only in the key length, which the cipher takes from the key.
\<close>

definition derive_aes_cm_key :: "crypto \<Rightarrow> nat \<Rightarrow> bytes \<Rightarrow> bytes \<Rightarrow> u8 \<Rightarrow> bytes" where
  "derive_aes_cm_key c n master_key master_salt label =
     (let iv = master_salt @ replicate (16 - length master_salt) 0;
          iv = iv[7 := iv ! 7 XOR label]
      in map (cr_ctr128 c master_key iv) [0..<n])"

definition SrtpReceiver_from_material :: "crypto \<Rightarrow> NvstSrtpMaterial \<Rightarrow> SrtpReceiver" where
  "SrtpReceiver_from_material c material =
     \<lparr> sr_cipher =
         (case material of
            MatAeadAes128Gcm k s t \<Rightarrow>
              AeadAes128Gcm (derive_aes_cm_key c 16 k s GFN_SRTP_KEY_LABEL)
                (derive_aes_cm_key c 12 k s GFN_SRTP_SALT_LABEL) t
          | MatAeadAes256Gcm k s t \<Rightarrow>
              AeadAes256Gcm (derive_aes_cm_key c 32 k s GFN_SRTP_KEY_LABEL)
                (derive_aes_cm_key c 12 k s GFN_SRTP_SALT_LABEL) t
          | MatAesCm128HmacSha1 k s t \<Rightarrow>
              AesCm128HmacSha1 (derive_aes_cm_key c 16 k s 0x00) (derive_aes_cm_key c 20 k s 0x01)
                (derive_aes_cm_key c 14 k s 0x02) t
          | MatAesCm256HmacSha1 k s t \<Rightarrow>
              AesCm256HmacSha1 (derive_aes_cm_key c 32 k s 0x00) (derive_aes_cm_key c 20 k s 0x01)
                (derive_aes_cm_key c 14 k s 0x02) t),
       sr_replay = ReplayWindow_default \<rparr>"

text \<open>\<open>for (target, source) in iv[i..].iter_mut().zip(source) { *target ^= source }\<close>\<close>

definition xor_at :: "nat \<Rightarrow> bytes \<Rightarrow> bytes \<Rightarrow> bytes" where
  "xor_at i bs iv = take i iv @ map2 (\<lambda>t s. t XOR s) (take (length bs) (drop i iv)) bs @ drop (i + length bs) iv"

definition srtp_aes_cm_iv :: "bytes \<Rightarrow> u32 \<Rightarrow> nat \<Rightarrow> bytes" where
  "srtp_aes_cm_iv session_salt ssrc packet_index =
     (let iv = session_salt @ replicate (16 - length session_salt) 0;
          iv = xor_at 4 (be32 ssrc) iv
      in xor_at 8 (drop 2 (be64 (of_nat packet_index))) iv)"

definition srtp_gcm_iv :: "bytes \<Rightarrow> u32 \<Rightarrow> u32 \<Rightarrow> u16 \<Rightarrow> bytes" where
  "srtp_gcm_iv session_salt ssrc roc sequence_number =
     xor_at 10 (be16 sequence_number) (xor_at 6 (be32 roc) (xor_at 2 (be32 ssrc) session_salt))"

definition srtcp_gcm_iv :: "bytes \<Rightarrow> u32 \<Rightarrow> u32 \<Rightarrow> bytes" where
  "srtcp_gcm_iv session_salt ssrc srtcp_index = xor_at 6 (be32 srtcp_index) (xor_at 2 (be32 ssrc) session_salt)"

text \<open>
  Tag and key stream of one message; the tag mask takes the first sixteen bytes of the stream, so the
  cipher continues at position 16. \<open>None\<close> is the \<open>unreachable!\<close> for other key lengths.
\<close>

definition aes_gcm_tag_and_ctr :: "crypto \<Rightarrow> bytes \<Rightarrow> bytes \<Rightarrow> bytes \<Rightarrow> bytes \<Rightarrow> (bytes \<times> (nat \<Rightarrow> u8)) option" where
  "aes_gcm_tag_and_ctr c encryption_key iv aad ciphertext =
     (if length encryption_key \<noteq> 16 \<and> length encryption_key \<noteq> 32 then None
      else let j0 = iv @ [0, 0, 0, 1];
               hash_key = cr_aes_block c encryption_key (replicate 16 0);
               ks = cr_ctr32 c encryption_key j0;
               tag_mask = apply_keystream ks 0 (replicate 16 0);
               len_block = be64 (of_nat (length aad * 8)) @ be64 (of_nat (length ciphertext * 8));
               tag = cr_ghash c hash_key (pad_block aad @ pad_block ciphertext @ len_block)
           in Some (map2 (\<lambda>b m. b XOR m) tag tag_mask, ks))"

definition unprotect_aes_gcm :: "crypto \<Rightarrow> bytes \<Rightarrow> RtpHeader \<Rightarrow> u32 \<Rightarrow> bytes \<Rightarrow> bytes \<Rightarrow> nat
    \<Rightarrow> (NvstDropReason + bytes) option" where
  "unprotect_aes_gcm c datagram header roc encryption_key session_salt tag_len =
     (if length datagram < tag_len then Some (Inl (MalformedRtp MissingAuthenticationTag))
      else let ciphertext_end = length datagram - tag_len
      in if ciphertext_end < rh_payload_offset header then Some (Inl (MalformedRtp MissingAuthenticationTag))
      else let iv = srtp_gcm_iv session_salt (rh_ssrc header) roc (rh_sequence_number header);
               aad = take (rh_payload_offset header) datagram;
               ciphertext = drop (rh_payload_offset header) (take ciphertext_end datagram);
               received_tag = drop ciphertext_end datagram
      in case aes_gcm_tag_and_ctr c encryption_key iv aad ciphertext of
           None \<Rightarrow> None
         | Some (expected_tag, ks) \<Rightarrow>
             if tag_len > length expected_tag then None
             else if take tag_len expected_tag \<noteq> received_tag then Some (Inl AuthenticationFailed)
             else Some (Inr (aad @ apply_keystream ks 16 ciphertext)))"

text \<open>The sender's side, which the source has for its tests.\<close>

definition protect_aes_gcm :: "crypto \<Rightarrow> bytes \<Rightarrow> nat \<Rightarrow> bytes \<Rightarrow> bytes \<Rightarrow> nat \<Rightarrow> bytes option" where
  "protect_aes_gcm c packet payload_offset encryption_key iv tag_len =
     (let aad = take payload_offset packet
      in case aes_gcm_tag_and_ctr c encryption_key iv aad [] of
           None \<Rightarrow> None
         | Some (_, ks) \<Rightarrow>
             let packet = aad @ apply_keystream ks 16 (drop payload_offset packet)
             in case aes_gcm_tag_and_ctr c encryption_key iv aad (drop payload_offset packet) of
                  None \<Rightarrow> None
                | Some (tag, _) \<Rightarrow>
                    if tag_len > length tag then None else Some (packet @ take tag_len tag))"

definition unprotect_aes_cm_hmac_sha1 :: "crypto \<Rightarrow> bytes \<Rightarrow> RtpHeader \<Rightarrow> nat \<Rightarrow> u32 \<Rightarrow> bytes \<Rightarrow> bytes \<Rightarrow> bytes \<Rightarrow> nat
    \<Rightarrow> (NvstDropReason + bytes) option" where
  "unprotect_aes_cm_hmac_sha1 c datagram header packet_index roc encryption_key authentication_key session_salt tag_len =
     (if length datagram < tag_len then Some (Inl (MalformedRtp MissingAuthenticationTag))
      else let authenticated_len = length datagram - tag_len
      in if authenticated_len < rh_payload_offset header then Some (Inl (MalformedRtp MissingAuthenticationTag))
      else let expected_tag = cr_hmac_sha1 c authentication_key (take authenticated_len datagram @ be32 roc);
               received_tag = drop authenticated_len datagram
      in if tag_len > length expected_tag then None
      else if take tag_len expected_tag \<noteq> received_tag then Some (Inl AuthenticationFailed)
      else let iv = srtp_aes_cm_iv session_salt (rh_ssrc header) packet_index
      in if length encryption_key \<noteq> 16 \<and> length encryption_key \<noteq> 32 then None
      else Some (Inr (take (rh_payload_offset header) datagram
             @ apply_keystream (cr_ctr128 c encryption_key iv) 0
                 (drop (rh_payload_offset header) (take authenticated_len datagram)))))"

definition unprotect_with :: "crypto \<Rightarrow> SrtpCipher \<Rightarrow> bytes \<Rightarrow> RtpHeader \<Rightarrow> nat \<Rightarrow> u32 \<Rightarrow> (NvstDropReason + bytes) option" where
  "unprotect_with c cipher datagram header packet_index roc =
     (case cipher of
        AeadAes128Gcm k s t \<Rightarrow> unprotect_aes_gcm c datagram header roc k s t
      | AeadAes256Gcm k s t \<Rightarrow> unprotect_aes_gcm c datagram header roc k s t
      | AesCm128HmacSha1 k a s t \<Rightarrow> unprotect_aes_cm_hmac_sha1 c datagram header packet_index roc k a s t
      | AesCm256HmacSha1 k a s t \<Rightarrow> unprotect_aes_cm_hmac_sha1 c datagram header packet_index roc k a s t)"

definition SrtpReceiver_unprotect :: "crypto \<Rightarrow> SrtpReceiver \<Rightarrow> bytes \<Rightarrow> (SrtpReceiver \<times> (NvstDropReason + RtpPacket)) option" where
  "SrtpReceiver_unprotect c r datagram =
     (case RtpHeader_parse datagram of
        Inl e \<Rightarrow> Some (r, Inl (MalformedRtp e))
      | Inr header \<Rightarrow>
     (case guess_packet_index (sr_replay r) (rh_sequence_number header) of
        Inl e \<Rightarrow> Some (r, Inl e)
      | Inr packet_index \<Rightarrow>
          let roc = drop_bit 16 packet_index
          in if roc > u32_max then Some (r, Inl ReplayRejected)
          else case unprotect_with c (sr_cipher r) datagram header packet_index (of_nat roc) of
            None \<Rightarrow> None
          | Some (Inl e) \<Rightarrow> Some (r, Inl e)
          | Some (Inr plaintext) \<Rightarrow>
              (case replay_check (sr_replay r) packet_index of
                 Inl e \<Rightarrow> Some (r, Inl e)
               | Inr _ \<Rightarrow>
              (case RtpHeader_payload header plaintext of
                 Inl e \<Rightarrow> Some (r, Inl (MalformedRtp e))
               | Inr _ \<Rightarrow>
              (case replay_commit (sr_replay r) packet_index of
                 None \<Rightarrow> None
               | Some w \<Rightarrow>
                   Some (r\<lparr> sr_replay := w \<rparr>,
                     Inr \<lparr> pk_index = packet_index, pk_header = header, pk_plaintext = plaintext,
                            pk_origin = Authenticated \<rparr>))))))"

section \<open>SRTCP receiver reports\<close>

definition protect_srtcp_receiver_report_gcm :: "crypto \<Rightarrow> RtcpReportBlock \<Rightarrow> u32 \<Rightarrow> bytes \<Rightarrow> bytes \<Rightarrow> nat \<Rightarrow> bytes option" where
  "protect_srtcp_receiver_report_gcm c report srtcp_index encryption_key session_salt tag_len =
     (let packet = [0x81, 201] @ be16 7 @ be32 RTCP_SENDER_SSRC @ be32 (rp_media_ssrc report)
            @ [rp_fraction_lost report] @ drop 1 (be32 (rp_cumulative_lost report))
            @ be32 (rp_highest_sequence report) @ be32 (rp_jitter report) @ be32 0 @ be32 0;
          e_index = SRTCP_ENCRYPTED_FLAG OR (srtcp_index AND NOT SRTCP_ENCRYPTED_FLAG);
          iv = srtcp_gcm_iv session_salt RTCP_SENDER_SSRC srtcp_index;
          packet = packet[8 := packet ! 8 OR 0x80]
      in case aes_gcm_tag_and_ctr c encryption_key iv [] [] of
           None \<Rightarrow> None
         | Some (_, ks) \<Rightarrow>
             let packet = take 8 packet @ apply_keystream ks 16 (drop 8 packet);
                 aad = take 8 packet @ drop 8 (take 16 packet)
             in case aes_gcm_tag_and_ctr c encryption_key iv aad (drop 8 packet) of
                  None \<Rightarrow> None
                | Some (tag, _) \<Rightarrow>
                    if tag_len > length tag then None else Some (packet @ take tag_len tag @ be32 e_index))"

record SrtcpSender =
  ss_encryption_key :: bytes
  ss_session_salt :: bytes
  ss_tag_len :: nat
  ss_next_index :: u32
  ss_last_sent :: "instant option"

definition SrtcpSender_from_material :: "crypto \<Rightarrow> NvstSrtpMaterial \<Rightarrow> SrtcpSender option" where
  "SrtcpSender_from_material c material =
     (case material of
        MatAeadAes128Gcm k s t \<Rightarrow>
          Some \<lparr> ss_encryption_key = derive_aes_cm_key c 16 k s GFN_SRTCP_KEY_LABEL,
                 ss_session_salt = derive_aes_cm_key c 12 k s GFN_SRTCP_SALT_LABEL,
                 ss_tag_len = t, ss_next_index = 0, ss_last_sent = None \<rparr>
      | MatAeadAes256Gcm k s t \<Rightarrow>
          Some \<lparr> ss_encryption_key = derive_aes_cm_key c 32 k s GFN_SRTCP_KEY_LABEL,
                 ss_session_salt = derive_aes_cm_key c 12 k s GFN_SRTCP_SALT_LABEL,
                 ss_tag_len = t, ss_next_index = 0, ss_last_sent = None \<rparr>
      | _ \<Rightarrow> None)"

text \<open>The outer \<open>option\<close> is the panic, the inner one the answer.\<close>

definition SrtcpSender_poll :: "crypto \<Rightarrow> SrtcpSender \<Rightarrow> RtcpReportBlock option \<Rightarrow> instant \<Rightarrow> (SrtcpSender \<times> bytes option) option" where
  "SrtcpSender_poll c s report now =
     (case report of
        None \<Rightarrow> Some (s, None)
      | Some report \<Rightarrow>
          if (case ss_last_sent s of None \<Rightarrow> False | Some sent \<Rightarrow> now - sent < SRTCP_RR_INTERVAL)
          then Some (s, None)
          else
            let index = ss_next_index s;
                s = s\<lparr> ss_last_sent := Some now, ss_next_index := ss_next_index s + 1 \<rparr>
            in case protect_srtcp_receiver_report_gcm c report index (ss_encryption_key s) (ss_session_salt s) (ss_tag_len s) of
                 None \<Rightarrow> None
               | Some packet \<Rightarrow> Some (s, Some packet))"

section \<open>Lengths and key streams\<close>

lemma length_apply_keystream [simp]: "length (apply_keystream ks p bs) = length bs"
  by (simp add: apply_keystream_def)

lemma nth_apply_keystream: "i < length bs \<Longrightarrow> apply_keystream ks p bs ! i = bs ! i XOR ks (p + i)"
  by (simp add: apply_keystream_def)

lemma apply_keystream_twice [simp]: "apply_keystream ks p (apply_keystream ks p bs) = bs"
  by (intro nth_equalityI) (simp_all add: nth_apply_keystream xor.assoc)

lemma length_derive [simp]: "length (derive_aes_cm_key c n k s l) = n"
  by (simp add: derive_aes_cm_key_def Let_def)

definition cipher_ok :: "SrtpCipher \<Rightarrow> bool" where
  "cipher_ok cipher = (case cipher of
      AeadAes128Gcm k s t \<Rightarrow> length k = 16 \<and> length s = 12 \<and> t \<le> 16
    | AeadAes256Gcm k s t \<Rightarrow> length k = 32 \<and> length s = 12 \<and> t \<le> 16
    | AesCm128HmacSha1 k a s t \<Rightarrow> length k = 16 \<and> length a = 20 \<and> length s = 14 \<and> t \<le> 20
    | AesCm256HmacSha1 k a s t \<Rightarrow> length k = 32 \<and> length a = 20 \<and> length s = 14 \<and> t \<le> 20)"

definition material_ok :: "NvstSrtpMaterial \<Rightarrow> bool" where
  "material_ok m = (case m of
      MatAeadAes128Gcm k s t \<Rightarrow> length k = 16 \<and> length s = 12 \<and> t \<le> 16
    | MatAeadAes256Gcm k s t \<Rightarrow> length k = 32 \<and> length s = 12 \<and> t \<le> 16
    | MatAesCm128HmacSha1 k s t \<Rightarrow> length k = 16 \<and> length s = 14 \<and> t \<le> 20
    | MatAesCm256HmacSha1 k s t \<Rightarrow> length k = 32 \<and> length s = 14 \<and> t \<le> 20)"

lemma from_material_ok: "material_ok m \<Longrightarrow> cipher_ok (sr_cipher (SrtpReceiver_from_material c m))"
  by (cases m) (simp_all add: material_ok_def cipher_ok_def SrtpReceiver_from_material_def)

lemma gcm_tag_some:
  assumes "crypto_ok c" and "length key = 16 \<or> length key = 32"
  obtains tag where "aes_gcm_tag_and_ctr c key iv aad ct = Some (tag, cr_ctr32 c key (iv @ [0, 0, 0, 1]))" and "length tag = 16"
  using assms by (auto simp: aes_gcm_tag_and_ctr_def crypto_ok_def Let_def)

lemma unprotect_gcm_ok:
  assumes "crypto_ok c" and "length k = 16 \<or> length k = 32" and "t \<le> 16"
  shows "\<exists>res. unprotect_aes_gcm c datagram header roc k s t = Some res
    \<and> (\<forall>p. res = Inr p \<longrightarrow> rh_payload_offset header \<le> length p)"
proof -
  define n where "n = length datagram - t"
  obtain tag where "aes_gcm_tag_and_ctr c k (srtp_gcm_iv s (rh_ssrc header) roc (rh_sequence_number header))
      (take (rh_payload_offset header) datagram) (drop (rh_payload_offset header) (take n datagram))
      = Some (tag, cr_ctr32 c k (srtp_gcm_iv s (rh_ssrc header) roc (rh_sequence_number header) @ [0, 0, 0, 1]))" "length tag = 16"
    by (rule gcm_tag_some [OF assms(1,2)])
  with assms(3) show ?thesis
    by (auto simp: unprotect_aes_gcm_def Let_def n_def)
qed

lemma unprotect_cm_ok:
  assumes "crypto_ok c" and "length k = 16 \<or> length k = 32" and "t \<le> 20"
  shows "\<exists>res. unprotect_aes_cm_hmac_sha1 c datagram header i roc k a s t = Some res
    \<and> (\<forall>p. res = Inr p \<longrightarrow> rh_payload_offset header \<le> length p)"
  using assms by (auto simp: unprotect_aes_cm_hmac_sha1_def crypto_ok_def Let_def)

lemma unprotect_with_ok:
  assumes "crypto_ok c" and "cipher_ok cipher"
  shows "\<exists>res. unprotect_with c cipher datagram header i roc = Some res
    \<and> (\<forall>p. res = Inr p \<longrightarrow> rh_payload_offset header \<le> length p)"
  using assms unprotect_gcm_ok [OF assms(1)] unprotect_cm_ok [OF assms(1)]
  by (cases cipher) (simp_all add: unprotect_with_def cipher_ok_def)

section \<open>No replay\<close>

definition receiver_tracks :: "SrtpReceiver \<Rightarrow> nat set \<Rightarrow> bool" where
  "receiver_tracks r S \<longleftrightarrow> cipher_ok (sr_cipher r) \<and> replay_tracks (sr_replay r) S"

definition received_ok :: "RtpPacket \<Rightarrow> bool" where
  "received_ok p \<longleftrightarrow> packet_ok p \<and> pk_index p < 2 ^ 48 \<and> pk_origin p = Authenticated
     \<and> (\<exists>payload. RtpHeader_payload (pk_header p) (pk_plaintext p) = Inr payload)
     \<and> (\<forall>e. rh_gs_video_header (pk_header p) = Some e \<longrightarrow> length e = 16)"

definition step_post :: "SrtpReceiver \<Rightarrow> nat set \<Rightarrow> SrtpReceiver \<Rightarrow> NvstDropReason + RtpPacket \<Rightarrow> bool" where
  "step_post r S r' res = (case res of
       Inl e \<Rightarrow> r' = r
     | Inr p \<Rightarrow> received_ok p \<and> pk_index p \<notin> S \<and> receiver_tracks r' (insert (pk_index p) S))"

text \<open>The last stage of a reception: test, payload check and commit.\<close>

lemma accept_step:
  assumes r: "receiver_tracks r S" and parse: "RtpHeader_parse datagram = Inr h"
    and i: "drop_bit 16 i \<le> u32_max" and len: "rh_payload_offset h \<le> length plain"
    and check: "replay_check (sr_replay r) i = Inr ()" and pay: "RtpHeader_payload h plain = Inr v"
  shows "\<exists>w. replay_commit (sr_replay r) i = Some w \<and> step_post r S (r\<lparr> sr_replay := w \<rparr>)
    (Inr \<lparr> pk_index = i, pk_header = h, pk_plaintext = plain, pk_origin = Authenticated \<rparr>)"
proof -
  have acc: "replay_accepts (sr_replay r) i" using check by (simp add: replay_accepts_def)
  have tr: "replay_tracks (sr_replay r) S" and ci: "cipher_ok (sr_cipher r)" using r by (simp_all add: receiver_tracks_def)
  obtain w where w: "replay_commit (sr_replay r) i = Some w" "replay_tracks w (insert i S)"
    using srtp.commit_tracks [OF tr acc] by blast
  have "i < 2 ^ 48" using i by (simp add: drop_bit_nat_def)
  moreover have "\<forall>e. rh_gs_video_header h = Some e \<longrightarrow> length e = 16" using RtpHeader_parse_offset(5) [OF parse] by blast
  moreover have "i \<notin> S" using srtp.accepts_fresh [OF tr acc] .
  ultimately show ?thesis
    using w ci pay len by (simp add: step_post_def received_ok_def packet_ok_def receiver_tracks_def)
qed

lemma unprotect_step:
  assumes c: "crypto_ok c" and r: "receiver_tracks r S"
  shows "\<exists>r' res. SrtpReceiver_unprotect c r datagram = Some (r', res) \<and> step_post r S r' res"
proof (cases "RtpHeader_parse datagram")
  case (Inl e)
  then show ?thesis by (simp add: SrtpReceiver_unprotect_def step_post_def)
next
  case parse: (Inr h)
  show ?thesis
  proof (cases "guess_packet_index (sr_replay r) (rh_sequence_number h)")
    case (Inl e)
    with parse show ?thesis by (simp add: SrtpReceiver_unprotect_def step_post_def)
  next
    case guess: (Inr i)
    have "cipher_ok (sr_cipher r)" using r by (simp add: receiver_tracks_def)
    from unprotect_with_ok [OF c this] obtain out where
      out: "unprotect_with c (sr_cipher r) datagram h i (of_nat (drop_bit 16 i)) = Some out"
      "\<forall>p. out = Inr p \<longrightarrow> rh_payload_offset h \<le> length p" by blast
    show ?thesis
    proof (cases "drop_bit 16 i \<le> u32_max \<and> (\<exists>plain v. out = Inr plain \<and> replay_check (sr_replay r) i = Inr ()
        \<and> RtpHeader_payload h plain = Inr v)")
      case True
      then obtain plain v where t: "drop_bit 16 i \<le> u32_max" "out = Inr plain" "replay_check (sr_replay r) i = Inr ()"
        "RtpHeader_payload h plain = Inr v" by blast
      from accept_step [OF r parse t(1) _ t(3,4)] out(2) t(2) obtain w where
        "replay_commit (sr_replay r) i = Some w" "step_post r S (r\<lparr> sr_replay := w \<rparr>)
          (Inr \<lparr> pk_index = i, pk_header = h, pk_plaintext = plain, pk_origin = Authenticated \<rparr>)" by blast
      with t parse guess out(1) show ?thesis by (simp add: SrtpReceiver_unprotect_def Let_def not_less)
    next
      case False
      then have "\<exists>e. SrtpReceiver_unprotect c r datagram = Some (r, Inl e)"
        using parse guess out(1)
        by (cases out) (auto simp: SrtpReceiver_unprotect_def Let_def not_less split: sum.splits)
      then show ?thesis by (auto simp: step_post_def)
    qed
  qed
qed

text \<open>The packets a receiver accepts out of a sequence of datagrams.\<close>

fun unprotect_all :: "crypto \<Rightarrow> SrtpReceiver \<Rightarrow> bytes list \<Rightarrow> (SrtpReceiver \<times> RtpPacket list) option" where
  "unprotect_all c r [] = Some (r, [])"
| "unprotect_all c r (datagram # datagrams) =
     (case SrtpReceiver_unprotect c r datagram of
        None \<Rightarrow> None
      | Some (r', res) \<Rightarrow>
          (case unprotect_all c r' datagrams of
             None \<Rightarrow> None
           | Some (r'', ps) \<Rightarrow> Some (r'', (case res of Inl _ \<Rightarrow> ps | Inr p \<Rightarrow> p # ps))))"

lemma unprotect_all_tracks:
  assumes "crypto_ok c" and "receiver_tracks r S"
  shows "\<exists>r' ps. unprotect_all c r datagrams = Some (r', ps) \<and> distinct (map pk_index ps)
    \<and> pk_index ` set ps \<inter> S = {} \<and> (\<forall>p\<in>set ps. received_ok p)"
  using assms(2)
proof (induction datagrams arbitrary: r S)
  case Nil
  then show ?case by simp
next
  case (Cons d ds)
  from unprotect_step [OF assms(1) Cons.prems, of d] obtain r' res where
    step: "SrtpReceiver_unprotect c r d = Some (r', res)" and "step_post r S r' res" by blast
  then have post: "case res of Inl e \<Rightarrow> r' = r
     | Inr p \<Rightarrow> received_ok p \<and> pk_index p \<notin> S \<and> receiver_tracks r' (insert (pk_index p) S)" by (simp add: step_post_def)
  show ?case
  proof (cases res)
    case (Inl e)
    with post Cons.IH [OF Cons.prems] step show ?thesis by auto
  next
    case (Inr p)
    with post have p: "received_ok p" "pk_index p \<notin> S" "receiver_tracks r' (insert (pk_index p) S)" by simp_all
    from Cons.IH [OF p(3)] step Inr p(1,2) show ?thesis by auto
  qed
qed

lemma from_material_tracks: "material_ok m \<Longrightarrow> receiver_tracks (SrtpReceiver_from_material c m) {}"
  using srtp.start_tracks from_material_ok [of m c] by (simp add: receiver_tracks_def SrtpReceiver_from_material_def)

text \<open>
  C12: a receiver set up from valid key material never panics on any sequence of datagrams, and hands on no
  packet index twice, however often and in whatever order datagrams are repeated; what it hands on has an
  index of 48 bits and a payload inside the packet.
\<close>

theorem srtp_receiver_no_replay:
  assumes "crypto_ok c" and "material_ok m"
  shows "\<exists>r ps. unprotect_all c (SrtpReceiver_from_material c m) datagrams = Some (r, ps) \<and> distinct (map pk_index ps)
    \<and> (\<forall>p\<in>set ps. pk_index p < 2 ^ 48 \<and> rh_payload_offset (pk_header p) \<le> length (pk_plaintext p))"
  using unprotect_all_tracks [OF assms(1) from_material_tracks [OF assms(2)], of c datagrams]
  by (auto simp: received_ok_def packet_ok_def)

text \<open>Primitives that satisfy the hypothesis, for the examples.\<close>

definition sample_crypto :: crypto where
  "sample_crypto = \<lparr> cr_aes_block = (\<lambda>k b. b), cr_ctr32 = (\<lambda>k iv n. of_nat n + hd k), cr_ctr128 = (\<lambda>k iv n. of_nat n),
     cr_ghash = (\<lambda>h m. replicate 16 (of_nat (length m))), cr_hmac_sha1 = (\<lambda>k m. replicate 20 (of_nat (length m))) \<rparr>"

lemma sample_crypto_ok: "crypto_ok sample_crypto"
  by (simp add: crypto_ok_def sample_crypto_def)

theorem srtp_receiver_no_replay_witness:
  "unprotect_all sample_crypto (SrtpReceiver_from_material sample_crypto
     (MatAeadAes128Gcm (replicate 16 1) (replicate 12 2) 16)) [[0x80], [0x80]] \<noteq> None"
  using srtp_receiver_no_replay [OF sample_crypto_ok, of "MatAeadAes128Gcm (replicate 16 1) (replicate 12 2) 16" "[[0x80], [0x80]]"]
  by (auto simp: material_ok_def)

section \<open>Round trip\<close>

text \<open>The header of a packet is determined by the bytes before its payload.\<close>

lemma parse_extension_prefix:
  assumes "parse_extension p off = Inr (off', gs)" and "take off' p = take off' q" and "off' \<le> length q"
  shows "parse_extension q off = Inr (off', gs)"
proof -
  note b = parse_extension_bounds(1,2) [OF assms(1)]
  have nth: "p ! i = q ! i" if "i < off'" for i
    using arg_cong [OF assms(2), of "\<lambda>xs. xs ! i"] that by simp
  have "be16_at p off = be16_at q off" "be16_at p (off + 2) = be16_at q (off + 2)"
    using b(1) nth by (simp_all add: be16_at_def)
  moreover have "take 16 (drop (off + 4) p) = take 16 (drop (off + 4) q)" if "off' = off + 20"
  proof -
    have "take 16 (drop (off + 4) r) = drop (off + 4) (take off' r)" for r :: bytes using that by (simp add: drop_take)
    with assms(2) show ?thesis by metis
  qed
  ultimately show ?thesis
    using assms(1,3) b by (auto simp: parse_extension_def Let_def rtp_consts split: if_splits)
qed

lemma RtpHeader_parse_prefix:
  assumes h: "RtpHeader_parse p = Inr h" and "take (rh_payload_offset h) p = take (rh_payload_offset h) q"
    and "rh_payload_offset h \<le> length q"
  shows "RtpHeader_parse q = Inr h"
proof -
  note b = RtpHeader_parse_offset(1,2) [OF h]
  have nth: "p ! i = q ! i" if "i < rh_payload_offset h" for i
    using arg_cong [OF assms(2), of "\<lambda>xs. xs ! i"] that by simp
  have fields: "p ! 0 = q ! 0" "p ! 1 = q ! 1" "be16_at p 2 = be16_at q 2" "be32_at p 4 = be32_at q 4" "be32_at p 8 = be32_at q 8"
    using b(1) nth by (simp_all add: be16_at_def be32_at_def)
  define off where "off = 12 + unat (p ! 0 AND 0x0f) * 4"
  have "parse_extension q off = Inr (rh_payload_offset h, rh_gs_video_header h)" if "p ! 0 AND 0x10 \<noteq> 0"
    using h that assms(2,3) parse_extension_prefix [of p off "rh_payload_offset h" "rh_gs_video_header h" q]
    by (auto simp: RtpHeader_parse_def Let_def rtp_consts off_def split: if_splits sum.splits)
  moreover have "rh_payload_offset h = off" "rh_gs_video_header h = None" if "p ! 0 AND 0x10 = 0"
    using h that by (auto simp: RtpHeader_parse_def Let_def rtp_consts off_def split: if_splits)
  moreover have "off \<le> rh_payload_offset h"
    using h parse_extension_bounds(1) [of p off]
    by (fastforce simp: RtpHeader_parse_def Let_def rtp_consts off_def split: if_splits sum.splits)
  ultimately show ?thesis
    using h b assms(3) fields
    by (auto simp: RtpHeader_parse_def Let_def rtp_consts off_def split: if_splits sum.splits)
qed

lemma protect_unprotect_gcm:
  assumes prot: "protect_aes_gcm c packet off k (srtp_gcm_iv s (rh_ssrc h) roc (rh_sequence_number h)) t = Some datagram"
    and "rh_payload_offset h = off" and "off \<le> length packet"
  shows "unprotect_aes_gcm c datagram h roc k s t = Some (Inr packet)"
    and "take off datagram = take off packet" and "off \<le> length datagram"
proof -
  let ?iv = "srtp_gcm_iv s (rh_ssrc h) roc (rh_sequence_number h)"
  let ?ks = "cr_ctr32 c k (?iv @ [0, 0, 0, 1])"
  define ct where "ct = apply_keystream ?ks 16 (drop off packet)"
  have stream: "ks = ?ks" if "aes_gcm_tag_and_ctr c k ?iv aad msg = Some (tag, ks)" for aad msg tag ks
    using that by (auto simp: aes_gcm_tag_and_ctr_def Let_def split: if_splits)
  from prot obtain tag0 where t0: "aes_gcm_tag_and_ctr c k ?iv (take off packet) [] = Some (tag0, ?ks)"
    using stream by (cases "aes_gcm_tag_and_ctr c k ?iv (take off packet) []") (auto simp: protect_aes_gcm_def)
  have cut: "drop off (take off packet @ ct) = ct" using assms(3) by simp
  from prot obtain tag where tag: "aes_gcm_tag_and_ctr c k ?iv (take off packet) ct = Some (tag, ?ks)"
    and t: "t \<le> length tag" and d: "datagram = take off packet @ ct @ take t tag"
    unfolding protect_aes_gcm_def Let_def t0 option.case prod.case ct_def [symmetric] cut
    using stream by (cases "aes_gcm_tag_and_ctr c k ?iv (take off packet) ct") (auto split: if_splits)
  have len: "length ct = length packet - off" by (simp add: ct_def)
  show "take off datagram = take off packet" "off \<le> length datagram" using d assms(3) by simp_all
  have "length datagram - t = length packet" using d len assms(3) t by simp
  moreover have "drop off (take (length packet) datagram) = ct" "drop (length packet) datagram = take t tag"
    using d len assms(3) by simp_all
  moreover have "take off packet @ apply_keystream ?ks 16 ct = packet" by (simp add: ct_def)
  ultimately show "unprotect_aes_gcm c datagram h roc k s t = Some (Inr packet)"
    using d assms(2,3) tag t len by (simp add: unprotect_aes_gcm_def Let_def)
qed

lemma unprotect_protected:
  assumes "sr_cipher r = AeadAes256Gcm k s t \<or> sr_cipher r = AeadAes128Gcm k s t"
    and "RtpHeader_parse packet = Inr h" and "RtpHeader_payload h packet = Inr payload"
    and "guess_packet_index (sr_replay r) (rh_sequence_number h) = Inr i" and "i < 2 ^ 48"
    and "replay_tracks (sr_replay r) S" and "replay_check (sr_replay r) i = Inr ()"
    and "protect_aes_gcm c packet (rh_payload_offset h) k
      (srtp_gcm_iv s (rh_ssrc h) (of_nat (i div 65536)) (rh_sequence_number h)) t = Some datagram"
  shows "\<exists>r'. SrtpReceiver_unprotect c r datagram =
      Some (r', Inr \<lparr> pk_index = i, pk_header = h, pk_plaintext = packet, pk_origin = Authenticated \<rparr>)
    \<and> replay_tracks (sr_replay r') (insert i S)"
proof -
  note un = protect_unprotect_gcm [OF assms(8) refl RtpHeader_parse_offset(2) [OF assms(2)]]
  have parse: "RtpHeader_parse datagram = Inr h"
    using RtpHeader_parse_prefix [OF assms(2)] un(2,3) by simp
  have roc: "drop_bit 16 i = i div 65536" "\<not> drop_bit 16 i > u32_max" using assms(5) by (simp_all add: drop_bit_nat_def)
  have "unprotect_with c (sr_cipher r) datagram h i (of_nat (drop_bit 16 i)) = Some (Inr packet)"
    using assms(1) un(1) roc(1) by (auto simp: unprotect_with_def)
  moreover obtain w where "replay_commit (sr_replay r) i = Some w" "replay_tracks w (insert i S)"
    using srtp.commit_tracks [OF assms(6)] assms(7) by (auto simp: replay_accepts_def)
  ultimately show ?thesis
    using parse assms(3,4,7) roc(2) by (simp add: SrtpReceiver_unprotect_def Let_def)
qed


lemma protect_some:
  assumes "crypto_ok c" and "length k = 16 \<or> length k = 32" and "t \<le> 16"
  shows "\<exists>d. protect_aes_gcm c packet off k iv t = Some d"
proof -
  obtain tag0 where t0: "aes_gcm_tag_and_ctr c k iv (take off packet) [] = Some (tag0, cr_ctr32 c k (iv @ [0, 0, 0, 1]))"
    by (rule gcm_tag_some [OF assms(1,2)])
  obtain tag where "aes_gcm_tag_and_ctr c k iv (take off packet)
      (drop off (take off packet @ apply_keystream (cr_ctr32 c k (iv @ [0, 0, 0, 1])) 16 (drop off packet)))
      = Some (tag, cr_ctr32 c k (iv @ [0, 0, 0, 1]))" "length tag = 16"
    by (rule gcm_tag_some [OF assms(1,2)])
  with t0 assms(3) show ?thesis by (simp add: protect_aes_gcm_def)
qed


section \<open>Nonces\<close>

lemma xor_left_cancel: "a XOR b = a XOR c \<longleftrightarrow> b = (c :: 'a::len word)"
  by (metis xor.assoc xor_self_eq xor.left_neutral)

lemma be16_inject: "be16 a = be16 b \<longleftrightarrow> a = b"
proof -
  have read: "from_be16 (be16 w ! 0) (be16 w ! 1) = w" for w by (simp add: be16_def codec)
  show ?thesis using read [of a] read [of b] by metis
qed

lemma be32_inject: "be32 a = be32 b \<longleftrightarrow> a = b"
proof -
  have read: "from_be32 (be32 w ! 0) (be32 w ! 1) (be32 w ! 2) (be32 w ! 3) = w" for w by (simp add: be32_def codec)
  show ?thesis using read [of a] read [of b] by metis
qed

lemma length_xor_at: "i + length bs \<le> length xs \<Longrightarrow> length (xor_at i bs xs) = length xs"
  by (simp add: xor_at_def)

lemma nth_xor_at:
  assumes "i + length bs \<le> length xs" and "k < length xs"
  shows "xor_at i bs xs ! k = (if i \<le> k \<and> k < i + length bs then xs ! k XOR bs ! (k - i) else xs ! k)"
  using assms by (auto simp: xor_at_def nth_append min_def)

text \<open>Each field is XORed into bytes of its own, so it can be read back out of the nonce.\<close>

lemma srtp_gcm_iv_fields:
  assumes "length salt = 12"
  shows "k < 4 \<Longrightarrow> srtp_gcm_iv salt ssrc roc seq ! (2 + k) = salt ! (2 + k) XOR be32 ssrc ! k"
    and "k < 4 \<Longrightarrow> srtp_gcm_iv salt ssrc roc seq ! (6 + k) = salt ! (6 + k) XOR be32 roc ! k"
    and "k < 2 \<Longrightarrow> srtp_gcm_iv salt ssrc roc seq ! (10 + k) = salt ! (10 + k) XOR be16 seq ! k"
    and "length (srtp_gcm_iv salt ssrc roc seq) = 12"
  using assms by (simp_all add: srtp_gcm_iv_def nth_xor_at length_xor_at)

lemma srtcp_gcm_iv_fields:
  assumes "length salt = 12"
  shows "k < 4 \<Longrightarrow> srtcp_gcm_iv salt ssrc i ! (2 + k) = salt ! (2 + k) XOR be32 ssrc ! k"
    and "k < 4 \<Longrightarrow> srtcp_gcm_iv salt ssrc i ! (6 + k) = salt ! (6 + k) XOR be32 i ! k"
  using assms by (simp_all add: srtcp_gcm_iv_def nth_xor_at length_xor_at)

text \<open>
  Nonces do not repeat: under one session salt, packets that differ in the stream, the rollover counter
  or the sequence number get different GCM nonces, and so do SRTCP reports with different indices.
\<close>

theorem gcm_nonces_distinct:
  assumes "length salt = 12"
  shows "(srtp_gcm_iv salt ssrc roc seq = srtp_gcm_iv salt ssrc' roc' seq' \<longleftrightarrow> ssrc = ssrc' \<and> roc = roc' \<and> seq = seq')
    \<and> (srtcp_gcm_iv salt ssrc i = srtcp_gcm_iv salt ssrc' i' \<longleftrightarrow> ssrc = ssrc' \<and> i = i')"
proof -
  note f = srtp_gcm_iv_fields [OF assms] and g = srtcp_gcm_iv_fields [OF assms]
  have 1: "be32 ssrc = be32 ssrc' \<and> be32 roc = be32 roc' \<and> be16 seq = be16 seq'"
    if "srtp_gcm_iv salt ssrc roc seq = srtp_gcm_iv salt ssrc' roc' seq'"
    using that f [where ssrc = ssrc and roc = roc and seq = seq] f [where ssrc = ssrc' and roc = roc' and seq = seq']
    by (intro conjI nth_equalityI) (auto simp: xor_left_cancel)
  have 2: "be32 ssrc = be32 ssrc' \<and> be32 i = be32 i'" if "srtcp_gcm_iv salt ssrc i = srtcp_gcm_iv salt ssrc' i'"
    using that g [where ssrc = ssrc and i = i] g [where ssrc = ssrc' and i = i']
    by (intro conjI nth_equalityI) (auto simp: xor_left_cancel)
  from 1 2 show ?thesis by (auto simp: be16_inject be32_inject)
qed

theorem gcm_nonces_distinct_witness:
  "srtp_gcm_iv (replicate 12 7) 1 0 65535 \<noteq> srtp_gcm_iv (replicate 12 7) 1 1 65535"
  using gcm_nonces_distinct [of "replicate 12 7" 1 0 65535 1 1 65535 0 0] by simp

section \<open>Receiver reports\<close>

lemma srtcp_report_size:
  assumes "crypto_ok c" and "length k = 16 \<or> length k = 32" and "t \<le> 16"
  shows "\<exists>packet. protect_srtcp_receiver_report_gcm c report i k s t = Some packet \<and> length packet = 36 + t
    \<and> drop (32 + t) packet = be32 (SRTCP_ENCRYPTED_FLAG OR (i AND NOT SRTCP_ENCRYPTED_FLAG))
    \<and> take 8 packet = [0x81, 201] @ be16 7 @ be32 RTCP_SENDER_SSRC"
proof -
  let ?iv = "srtcp_gcm_iv s RTCP_SENDER_SSRC i"
  define ks where "ks = cr_ctr32 c k (?iv @ [0, 0, 0, 1])"
  have some: "\<exists>tag. aes_gcm_tag_and_ctr c k ?iv aad ct = Some (tag, ks) \<and> length tag = 16" for aad ct
    using gcm_tag_some [OF assms(1,2), of ?iv aad ct] by (auto simp: ks_def)
  define p0 where "p0 = [0x81, 201] @ be16 7 @ be32 RTCP_SENDER_SSRC @ be32 (rp_media_ssrc report)
            @ [rp_fraction_lost report] @ drop 1 (be32 (rp_cumulative_lost report))
            @ be32 (rp_highest_sequence report) @ be32 (rp_jitter report) @ be32 0 @ be32 0"
  define p1 where "p1 = p0[8 := p0 ! 8 OR 0x80]"
  define p2 where "p2 = take 8 p1 @ apply_keystream ks 16 (drop 8 p1)"
  have len: "length p0 = 32" by (simp add: p0_def)
  then have len2: "length p1 = 32" "length p2 = 32" by (simp_all add: p1_def p2_def)
  have "take 8 p1 = take 8 p0" by (simp add: p1_def)
  also have "take 8 p0 = [0x81, 201] @ be16 7 @ be32 RTCP_SENDER_SSRC" by (simp add: p0_def)
  finally have head: "take 8 p2 = [0x81, 201] @ be16 7 @ be32 RTCP_SENDER_SSRC" using len2 by (simp add: p2_def)
  obtain tag0 where t0: "aes_gcm_tag_and_ctr c k ?iv [] [] = Some (tag0, ks)" using some by blast
  obtain tag where t1: "aes_gcm_tag_and_ctr c k ?iv (take 8 p2 @ drop 8 (take 16 p2)) (drop 8 p2) = Some (tag, ks)" "length tag = 16"
    using some by blast
  have "protect_srtcp_receiver_report_gcm c report i k s t =
      Some (p2 @ take t tag @ be32 (SRTCP_ENCRYPTED_FLAG OR (i AND NOT SRTCP_ENCRYPTED_FLAG)))"
    unfolding protect_srtcp_receiver_report_gcm_def p0_def [symmetric] Let_def p1_def [symmetric] t0 option.case prod.case
      p2_def [symmetric] t1(1)
    using t1(2) assms(3) by simp
  with len2 head t1(2) assms(3) show ?thesis by simp
qed

text \<open>
  A sender made from valid GCM material answers every poll without a panic: nothing without a report or
  within a second of the last one, and otherwise a report of fixed size that carries the next index,
  which then advances.
\<close>

theorem srtcp_poll_behaviour:
  assumes "crypto_ok c" and "material_ok m" and "SrtcpSender_from_material c m = Some s0"
    and "ss_encryption_key s = ss_encryption_key s0" and "ss_tag_len s = ss_tag_len s0"
  shows "SrtcpSender_poll c s None now = Some (s, None)
    \<and> (\<forall>sent. ss_last_sent s = Some sent \<and> now < sent + secs 1 \<longrightarrow> SrtcpSender_poll c s (Some report) now = Some (s, None))
    \<and> ((\<forall>sent. ss_last_sent s = Some sent \<longrightarrow> sent + secs 1 \<le> now) \<longrightarrow>
        (\<exists>packet. SrtcpSender_poll c s (Some report) now =
            Some (s\<lparr> ss_last_sent := Some now, ss_next_index := ss_next_index s + 1 \<rparr>, Some packet)
          \<and> length packet = 36 + ss_tag_len s
          \<and> drop (32 + ss_tag_len s) packet = be32 (SRTCP_ENCRYPTED_FLAG OR (ss_next_index s AND NOT SRTCP_ENCRYPTED_FLAG))))"
proof -
  have k: "length (ss_encryption_key s) = 16 \<or> length (ss_encryption_key s) = 32" "ss_tag_len s \<le> 16"
    using assms(2-5) by (cases m; force simp: material_ok_def SrtcpSender_from_material_def)+
  from srtcp_report_size [OF assms(1) k, of report "ss_next_index s" "ss_session_salt s"] show ?thesis
    by (auto simp: SrtcpSender_poll_def SRTCP_RR_INTERVAL_def secs_def Let_def split: option.splits)
qed

theorem srtcp_poll_behaviour_witness:
  "SrtcpSender_poll sample_crypto (the (SrtcpSender_from_material sample_crypto
     (MatAeadAes256Gcm (replicate 32 1) (replicate 12 2) 8))) None 0 \<noteq> None"
proof -
  let ?m = "MatAeadAes256Gcm (replicate 32 1) (replicate 12 2) 8"
  have m: "material_ok ?m" by (simp add: material_ok_def)
  have s: "SrtcpSender_from_material sample_crypto ?m = Some (the (SrtcpSender_from_material sample_crypto ?m))"
    by (simp add: SrtcpSender_from_material_def)
  show ?thesis using srtcp_poll_behaviour [OF sample_crypto_ok m s refl refl] by blast
qed

end
