(* ===== verification/FrameStage.thy ===== *)
theory FrameStage
  imports Prelude "HOL-Library.Multiset"
begin

text \<open>
  Per-frame stage timing, \<open>frame_stage_timing.rs\<close>: the stamps of assembled frames wait in a bounded
  queue for their admission, and the delays of the three stages are kept in bounded windows that
  \<open>snapshot\<close> summarises by nearest-rank percentiles. The \<open>u64\<close> counters saturate. The conversion of
  nanoseconds to an \<open>f64\<close> of milliseconds is the parameter \<open>to_ms\<close>.
\<close>

section \<open>Model\<close>

definition STAGE_SAMPLE_CAPACITY :: nat where "STAGE_SAMPLE_CAPACITY = 256"
definition DELIVERY_STAMP_CAPACITY :: nat where "DELIVERY_STAMP_CAPACITY = 512"

record 'f StageSummary =
  p50_ms :: 'f
  p95_ms :: 'f
  max_ms :: 'f

record FrameStageTimingsAccumulator =
  fa_delivered :: "(u32 \<times> instant) list"
  fa_delivery_to_admission :: "nat list"
  fa_admission_to_control_queue :: "nat list"
  fa_assembled_to_control_queue :: "nat list"
  fa_assembled_frames_total :: nat
  fa_admitted_frames_total :: nat
  fa_queued_ack_frames_total :: nat
  fa_undelivered_frames_total :: nat
  fa_last_assembled_at :: "instant option"
  fa_last_admitted_at :: "instant option"
  fa_last_ack_queued_at :: "instant option"
  fa_unmatched_deliveries :: nat
  fa_unmatched_admissions :: nat
  fa_epoch_started_at :: "instant option"

definition Accumulator_default :: FrameStageTimingsAccumulator where
  "Accumulator_default =
     \<lparr> fa_delivered = [], fa_delivery_to_admission = [], fa_admission_to_control_queue = [],
       fa_assembled_to_control_queue = [], fa_assembled_frames_total = 0, fa_admitted_frames_total = 0,
       fa_queued_ack_frames_total = 0, fa_undelivered_frames_total = 0, fa_last_assembled_at = None,
       fa_last_admitted_at = None, fa_last_ack_queued_at = None, fa_unmatched_deliveries = 0,
       fa_unmatched_admissions = 0, fa_epoch_started_at = None \<rparr>"

text \<open>The loops \<open>while samples.len() >= capacity { pop_front }\<close> keep the newest entries.\<close>

fun pop_front_while_full :: "nat \<Rightarrow> 'a list \<Rightarrow> 'a list" where
  "pop_front_while_full cap [] = []"
| "pop_front_while_full cap (x # xs) =
     (if length (x # xs) \<ge> cap then pop_front_while_full cap xs else x # xs)"

definition push_sample :: "nat list \<Rightarrow> duration \<Rightarrow> nat list" where
  "push_sample samples v = pop_front_while_full STAGE_SAMPLE_CAPACITY samples @ [min v u64_max]"

fun drop_oldest_stamps :: "(u32 \<times> instant) list \<Rightarrow> nat \<Rightarrow> (u32 \<times> instant) list \<times> nat" where
  "drop_oldest_stamps [] unmatched = ([], unmatched)"
| "drop_oldest_stamps (x # xs) unmatched =
     (if length (x # xs) \<ge> DELIVERY_STAMP_CAPACITY
      then drop_oldest_stamps xs (sat_add_u64 unmatched 1) else (x # xs, unmatched))"

definition record_assembly ::
  "u32 \<Rightarrow> instant \<Rightarrow> FrameStageTimingsAccumulator \<Rightarrow> FrameStageTimingsAccumulator" where
  "record_assembly frame_index at a =
     (let (delivered, unmatched) =
            (case find_position (\<lambda>e. fst e = frame_index) (fa_delivered a) of
               Some i \<Rightarrow> (remove_at i (fa_delivered a), sat_add_u64 (fa_unmatched_deliveries a) 1)
             | None \<Rightarrow> (fa_delivered a, fa_unmatched_deliveries a));
          (delivered, unmatched) = drop_oldest_stamps delivered unmatched
      in a\<lparr> fa_delivered := delivered @ [(frame_index, at)],
            fa_unmatched_deliveries := unmatched,
            fa_assembled_frames_total := sat_add_u64 (fa_assembled_frames_total a) 1,
            fa_last_assembled_at := Some at \<rparr>)"

definition retire_undelivered ::
  "u32 \<Rightarrow> FrameStageTimingsAccumulator \<Rightarrow> FrameStageTimingsAccumulator" where
  "retire_undelivered frame_index a =
     a\<lparr> fa_delivered := (case find_position (\<lambda>e. fst e = frame_index) (fa_delivered a) of
                           Some i \<Rightarrow> remove_at i (fa_delivered a)
                         | None \<Rightarrow> fa_delivered a),
        fa_undelivered_frames_total := sat_add_u64 (fa_undelivered_frames_total a) 1 \<rparr>"

definition record_admission ::
  "u32 \<Rightarrow> instant \<Rightarrow> FrameStageTimingsAccumulator \<Rightarrow> instant option \<times> FrameStageTimingsAccumulator"
  where
  "record_admission frame_index at a =
     (let a = a\<lparr> fa_admitted_frames_total := sat_add_u64 (fa_admitted_frames_total a) 1,
                 fa_last_admitted_at := Some at \<rparr>
      in case find_position (\<lambda>e. fst e = frame_index) (fa_delivered a) of
           None \<Rightarrow> (None, a\<lparr> fa_unmatched_admissions := sat_add_u64 (fa_unmatched_admissions a) 1 \<rparr>)
         | Some i \<Rightarrow>
             let delivered_at = snd (fa_delivered a ! i)
             in (Some delivered_at,
                 a\<lparr> fa_delivered := remove_at i (fa_delivered a),
                    fa_delivery_to_admission :=
                      push_sample (fa_delivery_to_admission a) (at - delivered_at) \<rparr>))"

definition record_ack_queued ::
  "instant option \<Rightarrow> instant \<Rightarrow> instant \<Rightarrow> FrameStageTimingsAccumulator \<Rightarrow> FrameStageTimingsAccumulator"
  where
  "record_ack_queued assembled_at admitted_at at a =
     (let a = a\<lparr> fa_queued_ack_frames_total := sat_add_u64 (fa_queued_ack_frames_total a) 1,
                 fa_last_ack_queued_at := Some at \<rparr>
      in if (case fa_epoch_started_at a of None \<Rightarrow> False | Some e \<Rightarrow> admitted_at < e) then a
         else let a = a\<lparr> fa_admission_to_control_queue :=
                           push_sample (fa_admission_to_control_queue a) (at - admitted_at) \<rparr>
              in case assembled_at of
                   None \<Rightarrow> a
                 | Some s \<Rightarrow> a\<lparr> fa_assembled_to_control_queue :=
                                   push_sample (fa_assembled_to_control_queue a) (at - s) \<rparr>)"

definition reset_epoch ::
  "instant \<Rightarrow> FrameStageTimingsAccumulator \<Rightarrow> FrameStageTimingsAccumulator" where
  "reset_epoch at a =
     a\<lparr> fa_delivered := [],
        fa_unmatched_deliveries := sat_add_u64 (fa_unmatched_deliveries a) (length (fa_delivered a)),
        fa_epoch_started_at := Some at \<rparr>"

definition percentile_rank :: "nat list \<Rightarrow> nat \<Rightarrow> nat" where
  "percentile_rank sorted_samples percentile = max (div_ceil (length sorted_samples * percentile) 100) 1"

definition percentile_ms :: "(nat \<Rightarrow> 'f) \<Rightarrow> nat list \<Rightarrow> nat \<Rightarrow> 'f" where
  "percentile_ms to_ms sorted_samples percentile =
     to_ms (sorted_samples ! (min (percentile_rank sorted_samples percentile) (length sorted_samples) - 1))"

definition summarize :: "(nat \<Rightarrow> 'f) \<Rightarrow> nat list \<Rightarrow> 'f StageSummary option" where
  "summarize to_ms samples =
     (if samples = [] then None
      else let s = sort samples
           in Some \<lparr> p50_ms = percentile_ms to_ms s 50, p95_ms = percentile_ms to_ms s 95,
                     max_ms = to_ms (last s) \<rparr>)"

record 'f FrameStageTimings =
  ft_delivery_to_admission :: "'f StageSummary option"
  ft_admission_to_control_queue :: "'f StageSummary option"
  ft_assembled_to_control_queue :: "'f StageSummary option"
  ft_delivery_window_samples :: nat
  ft_ack_window_samples :: nat
  ft_assembled_frames_total :: nat
  ft_admitted_frames_total :: nat
  ft_queued_ack_frames_total :: nat
  ft_undelivered_frames_total :: nat
  ft_last_assembled_at :: "instant option"
  ft_last_admitted_at :: "instant option"
  ft_last_ack_queued_at :: "instant option"
  ft_pending_deliveries :: nat
  ft_unmatched_deliveries :: nat
  ft_unmatched_admissions :: nat

definition timings_is_empty :: "'f FrameStageTimings \<Rightarrow> bool" where
  "timings_is_empty t \<longleftrightarrow> ft_delivery_to_admission t = None \<and> ft_admission_to_control_queue t = None
     \<and> ft_assembled_to_control_queue t = None"

definition has_progress :: "'f FrameStageTimings \<Rightarrow> bool" where
  "has_progress t \<longleftrightarrow> ft_assembled_frames_total t > 0"

definition snapshot :: "(nat \<Rightarrow> 'f) \<Rightarrow> FrameStageTimingsAccumulator \<Rightarrow> 'f FrameStageTimings" where
  "snapshot to_ms a =
     \<lparr> ft_delivery_to_admission = summarize to_ms (fa_delivery_to_admission a),
       ft_admission_to_control_queue = summarize to_ms (fa_admission_to_control_queue a),
       ft_assembled_to_control_queue = summarize to_ms (fa_assembled_to_control_queue a),
       ft_delivery_window_samples = length (fa_delivery_to_admission a),
       ft_ack_window_samples = length (fa_admission_to_control_queue a),
       ft_assembled_frames_total = fa_assembled_frames_total a,
       ft_admitted_frames_total = fa_admitted_frames_total a,
       ft_queued_ack_frames_total = fa_queued_ack_frames_total a,
       ft_undelivered_frames_total = fa_undelivered_frames_total a,
       ft_last_assembled_at = fa_last_assembled_at a,
       ft_last_admitted_at = fa_last_admitted_at a,
       ft_last_ack_queued_at = fa_last_ack_queued_at a,
       ft_pending_deliveries = length (fa_delivered a),
       ft_unmatched_deliveries = fa_unmatched_deliveries a,
       ft_unmatched_admissions = fa_unmatched_admissions a \<rparr>"

section \<open>Runs of the accumulator\<close>

datatype stage_op =
    Assembly u32 instant
  | Retire u32
  | Admission u32 instant
  | AckQueued "instant option" instant instant
  | Epoch instant

fun stage_step :: "stage_op \<Rightarrow> FrameStageTimingsAccumulator \<Rightarrow> FrameStageTimingsAccumulator" where
  "stage_step (Assembly k t) a = record_assembly k t a"
| "stage_step (Retire k) a = retire_undelivered k a"
| "stage_step (Admission k t) a = snd (record_admission k t a)"
| "stage_step (AckQueued s d t) a = record_ack_queued s d t a"
| "stage_step (Epoch t) a = reset_epoch t a"

definition stage_run :: "stage_op list \<Rightarrow> FrameStageTimingsAccumulator" where
  "stage_run ops = fold stage_step ops Accumulator_default"

section \<open>Bounds\<close>

lemma pop_front_while_full_drop:
  "0 < cap \<Longrightarrow> pop_front_while_full cap xs = drop (Suc (length xs) - cap) xs"
  by (induction xs) (auto simp: Suc_diff_le)

lemma push_sample_newest:
  "push_sample samples v = drop (Suc (length samples) - STAGE_SAMPLE_CAPACITY) samples @ [min v u64_max]"
  by (simp add: push_sample_def pop_front_while_full_drop STAGE_SAMPLE_CAPACITY_def)

lemma push_sample_length: "length (push_sample samples v) \<le> STAGE_SAMPLE_CAPACITY"
  unfolding push_sample_newest by (simp add: STAGE_SAMPLE_CAPACITY_def)

lemma drop_oldest_stamps_eq:
  "drop_oldest_stamps xs n =
     (drop (Suc (length xs) - DELIVERY_STAMP_CAPACITY) xs,
      ((\<lambda>k. sat_add_u64 k 1) ^^ (Suc (length xs) - DELIVERY_STAMP_CAPACITY)) n)"
proof (induction xs arbitrary: n)
  case (Cons x xs)
  show ?case
  proof (cases "length (x # xs) \<ge> DELIVERY_STAMP_CAPACITY")
    case True
    then have "Suc (length (x # xs)) - DELIVERY_STAMP_CAPACITY
        = Suc (Suc (length xs) - DELIVERY_STAMP_CAPACITY)" by simp
    then show ?thesis using True Cons funpow_swap1 [of "\<lambda>k. sat_add_u64 k 1"] by simp
  qed simp
qed (simp add: DELIVERY_STAMP_CAPACITY_def)

text \<open>With at most a full queue one stamp is dropped at most, so the loop counts what it drops.\<close>

lemma drop_oldest_stamps_full:
  assumes "length xs \<le> DELIVERY_STAMP_CAPACITY"
  shows "drop_oldest_stamps xs n =
     (if length xs = DELIVERY_STAMP_CAPACITY then (tl xs, sat_add_u64 n 1) else (xs, n))"
  using assms by (auto simp: drop_oldest_stamps_eq drop_Suc)

definition stage_ok :: "FrameStageTimingsAccumulator \<Rightarrow> bool" where
  "stage_ok a \<longleftrightarrow> length (fa_delivered a) \<le> DELIVERY_STAMP_CAPACITY
     \<and> distinct (map fst (fa_delivered a))
     \<and> length (fa_delivery_to_admission a) \<le> STAGE_SAMPLE_CAPACITY
     \<and> length (fa_admission_to_control_queue a) \<le> STAGE_SAMPLE_CAPACITY
     \<and> length (fa_assembled_to_control_queue a) \<le> STAGE_SAMPLE_CAPACITY"

lemma stage_ok_default: "stage_ok Accumulator_default"
  by (simp add: stage_ok_def Accumulator_default_def)

lemma remove_at_keys:
  assumes "find_position (\<lambda>e. fst e = k) xs = Some i" and "distinct (map fst xs)"
  shows "distinct (map fst (remove_at i xs))" and "k \<notin> fst ` set (remove_at i xs)"
    and "length xs = Suc (length (remove_at i xs))"
proof -
  obtain ys x zs where *: "xs = ys @ x # zs" "fst x = k" "\<forall>y\<in>set ys. fst y \<noteq> k"
    "remove_at i xs = ys @ zs"
    using find_position_split [OF assms(1)] by metis
  show "distinct (map fst (remove_at i xs))" using assms(2) * by simp
  show "k \<notin> fst ` set (remove_at i xs)" using assms(2) *(2) unfolding *(4) unfolding *(1) by (auto simp: image_iff)
  show "length xs = Suc (length (remove_at i xs))" using * by simp
qed

text \<open>What assembling a frame does to the stamps: the older stamp of the frame goes, the oldest stamp goes
  when the queue is full, the new stamp is last, and each stamp lost is counted.\<close>

lemma record_assembly_stamps:
  assumes "stage_ok a"
  obtains d n where "fa_delivered (record_assembly k t a) = d @ [(k, t)]"
    and "fa_unmatched_deliveries (record_assembly k t a) = n"
    and "length d < DELIVERY_STAMP_CAPACITY" and "distinct (map fst d)" and "k \<notin> fst ` set d"
    and "n = fa_unmatched_deliveries a \<and> length d = length (fa_delivered a)
      \<or> n = sat_add_u64 (fa_unmatched_deliveries a) 1 \<and> Suc (length d) = length (fa_delivered a)"
proof (cases "find_position (\<lambda>e. fst e = k) (fa_delivered a)")
  case None
  then have fresh: "k \<notin> fst ` set (fa_delivered a)" by (auto simp: find_position_None)
  show ?thesis
  proof (cases "length (fa_delivered a) = DELIVERY_STAMP_CAPACITY")
    case True
    then have "fa_delivered a \<noteq> []" by (auto simp: DELIVERY_STAMP_CAPACITY_def)
    then show ?thesis
      using that [of "tl (fa_delivered a)"] True fresh assms None
      by (auto simp: record_assembly_def drop_oldest_stamps_full stage_ok_def map_tl distinct_tl
          DELIVERY_STAMP_CAPACITY_def dest: list.set_sel(2))
  next
    case False
    then show ?thesis using that [of "fa_delivered a"] fresh assms None
      by (auto simp: record_assembly_def drop_oldest_stamps_full stage_ok_def)
  qed
next
  case (Some i)
  from assms have d: "distinct (map fst (fa_delivered a))" by (simp add: stage_ok_def)
  note r = remove_at_keys [OF Some d]
  from r(3) assms have l: "length (remove_at i (fa_delivered a)) < DELIVERY_STAMP_CAPACITY"
    by (simp add: stage_ok_def)
  show ?thesis
  proof (rule that [of "remove_at i (fa_delivered a)"])
    show "fa_delivered (record_assembly k t a) = remove_at i (fa_delivered a) @ [(k, t)]"
      using l Some by (simp add: record_assembly_def drop_oldest_stamps_full)
    show "fa_unmatched_deliveries (record_assembly k t a) = sat_add_u64 (fa_unmatched_deliveries a) 1"
      using l Some by (simp add: record_assembly_def drop_oldest_stamps_full)
  qed (use r l in auto)
qed

lemma record_assembly_ok: "stage_ok a \<Longrightarrow> stage_ok (record_assembly k t a)"
  by (rule record_assembly_stamps [of a k t], assumption)
    (auto simp: stage_ok_def record_assembly_def split: prod.splits option.splits)

lemma stage_step_ok: "stage_ok a \<Longrightarrow> stage_ok (stage_step x a)"
proof (cases x)
  case (Assembly k t)
  assume "stage_ok a"
  with Assembly show ?thesis by (simp add: record_assembly_ok)
next
  case (Retire k)
  assume "stage_ok a"
  with Retire show ?thesis
    using remove_at_keys [of k "fa_delivered a"]
    by (cases "find_position (\<lambda>e. fst e = k) (fa_delivered a)")
      (auto simp: retire_undelivered_def stage_ok_def)
next
  case (Admission k t)
  assume "stage_ok a"
  with Admission show ?thesis
    using remove_at_keys [of k "fa_delivered a"]
    by (cases "find_position (\<lambda>e. fst e = k) (fa_delivered a)")
      (auto simp: record_admission_def stage_ok_def push_sample_length Let_def)
qed (auto simp: stage_ok_def record_ack_queued_def reset_epoch_def Let_def
    push_sample_length split: option.splits)

lemma stage_run_snoc: "stage_run (ops @ [x]) = stage_step x (stage_run ops)"
  by (simp add: stage_run_def)

lemma stage_run_ok: "stage_ok (stage_run ops)"
  by (induction ops rule: rev_induct)
    (simp_all add: stage_run_snoc stage_step_ok, simp add: stage_run_def stage_ok_default)

text \<open>After any sequence of operations, at most 512 stamps are pending, no frame is pending twice,
  and each of the three sample windows holds at most 256 samples.\<close>

lemma frame_stage_bounded:
  "length (fa_delivered (stage_run ops)) \<le> 512
   \<and> distinct (map fst (fa_delivered (stage_run ops)))
   \<and> length (fa_delivery_to_admission (stage_run ops)) \<le> 256
   \<and> length (fa_admission_to_control_queue (stage_run ops)) \<le> 256
   \<and> length (fa_assembled_to_control_queue (stage_run ops)) \<le> 256"
  using stage_run_ok [of ops]
  by (simp add: stage_ok_def STAGE_SAMPLE_CAPACITY_def DELIVERY_STAMP_CAPACITY_def)

section \<open>Accounting of the frames\<close>

text \<open>As long as no counter saturates every assembled frame is pending, admitted, counted as unmatched, or
  was retired; \<open>undelivered_frames_total\<close> also counts retirements of frames that were not pending.\<close>

definition stage_balance :: "nat \<Rightarrow> FrameStageTimingsAccumulator \<Rightarrow> bool" where
  "stage_balance n a \<longleftrightarrow>
     fa_unmatched_admissions a \<le> fa_admitted_frames_total a
     \<and> fa_assembled_frames_total a \<le> n \<and> fa_admitted_frames_total a \<le> n
     \<and> fa_undelivered_frames_total a \<le> n
     \<and> length (fa_delivered a) + fa_unmatched_deliveries a
         + (fa_admitted_frames_total a - fa_unmatched_admissions a) \<le> fa_assembled_frames_total a
     \<and> fa_assembled_frames_total a \<le> length (fa_delivered a) + fa_unmatched_deliveries a
         + (fa_admitted_frames_total a - fa_unmatched_admissions a) + fa_undelivered_frames_total a"

lemma sat_add_one: "k < u64_max \<Longrightarrow> sat_add_u64 k 1 = Suc k"
  by (simp add: sat_add_u64_def)

lemma stage_step_balance:
  assumes "stage_ok a" and b: "stage_balance n a" and n: "n < u64_max"
  shows "stage_balance (Suc n) (stage_step x a)"
proof -
  from b n have s: "sat_add_u64 (fa_assembled_frames_total a) 1 = Suc (fa_assembled_frames_total a)"
    "sat_add_u64 (fa_admitted_frames_total a) 1 = Suc (fa_admitted_frames_total a)"
    "sat_add_u64 (fa_undelivered_frames_total a) 1 = Suc (fa_undelivered_frames_total a)"
    "sat_add_u64 (fa_unmatched_admissions a) 1 = Suc (fa_unmatched_admissions a)"
    "sat_add_u64 (fa_unmatched_deliveries a) 1 = Suc (fa_unmatched_deliveries a)"
    "sat_add_u64 (fa_unmatched_deliveries a) (length (fa_delivered a))
       = fa_unmatched_deliveries a + length (fa_delivered a)"
    by (auto simp: stage_balance_def sat_add_one sat_add_u64_exact)
  have len: "length (fa_delivered a) = Suc (length (remove_at i (fa_delivered a)))"
    if "find_position (\<lambda>e. fst e = k) (fa_delivered a) = Some i" for k i
    using remove_at_keys(3) [OF that] assms(1) by (simp add: stage_ok_def)
  show ?thesis
  proof (cases x)
    case (Assembly k t)
    have t: "fa_assembled_frames_total (record_assembly k t a) = Suc (fa_assembled_frames_total a)"
      "fa_admitted_frames_total (record_assembly k t a) = fa_admitted_frames_total a"
      "fa_undelivered_frames_total (record_assembly k t a) = fa_undelivered_frames_total a"
      "fa_unmatched_admissions (record_assembly k t a) = fa_unmatched_admissions a"
      using s by (auto simp: record_assembly_def split: option.splits prod.splits)
    obtain d where d: "fa_delivered (record_assembly k t a) = d @ [(k, t)]"
      "fa_unmatched_deliveries (record_assembly k t a) + length d
         = fa_unmatched_deliveries a + length (fa_delivered a)"
      by (rule record_assembly_stamps [OF assms(1), of k t]) (use s(5) in auto)
    show ?thesis using b t d Assembly by (auto simp: stage_balance_def)
  next
    case (Retire k)
    show ?thesis
    proof (cases "find_position (\<lambda>e. fst e = k) (fa_delivered a)")
      case (Some i)
      then show ?thesis using b s Retire len [OF Some]
        by (auto simp: retire_undelivered_def stage_balance_def)
    qed (use b s Retire in \<open>auto simp: retire_undelivered_def stage_balance_def\<close>)
  next
    case (Admission k t)
    show ?thesis
    proof (cases "find_position (\<lambda>e. fst e = k) (fa_delivered a)")
      case (Some i)
      then show ?thesis using b s Admission len [OF Some]
        by (auto simp: record_admission_def stage_balance_def Let_def)
    qed (use b s Admission in \<open>auto simp: record_admission_def stage_balance_def Let_def\<close>)
  qed (use b s in \<open>auto simp: stage_balance_def record_ack_queued_def reset_epoch_def Let_def
         split: option.splits\<close>)
qed

lemma stage_run_balance: "length ops \<le> u64_max \<Longrightarrow> stage_balance (length ops) (stage_run ops)"
proof (induction ops rule: rev_induct)
  case (snoc x ops)
  then show ?case
    using stage_step_balance [OF stage_run_ok, of "length ops" ops x] by (simp add: stage_run_snoc)
qed (simp add: stage_run_def stage_balance_def Accumulator_default_def)

text \<open>Frames are accounted for. With fewer than \<open>2^64\<close> operations, the frames assembled are those
  pending, plus those whose stamp was dropped, plus those admitted with a stamp, up to the frames retired.\<close>

theorem frame_stage_accounting:
  assumes "length ops \<le> u64_max"
  shows "let t = snapshot to_ms (stage_run ops);
             placed = ft_pending_deliveries t + ft_unmatched_deliveries t
                        + (ft_admitted_frames_total t - ft_unmatched_admissions t)
         in placed \<le> ft_assembled_frames_total t
            \<and> ft_assembled_frames_total t \<le> placed + ft_undelivered_frames_total t
            \<and> ft_unmatched_admissions t \<le> ft_admitted_frames_total t"
  using stage_run_balance [OF assms] by (auto simp: stage_balance_def snapshot_def Let_def)

theorem frame_stage_accounting_witness:
  "let t = snapshot id (stage_run [Assembly 1 10, Assembly 2 20, Admission 1 30, Retire 2, Admission 9 40])
   in ft_pending_deliveries t + ft_unmatched_deliveries t
        + (ft_admitted_frames_total t - ft_unmatched_admissions t) \<le> ft_assembled_frames_total t
      \<and> ft_assembled_frames_total t = 2 \<and> ft_undelivered_frames_total t = 1"
  using frame_stage_accounting [of "[Assembly 1 10, Assembly 2 20, Admission 1 30, Retire 2, Admission 9 40]" id]
  by (simp add: Let_def snapshot_def stage_run_def Accumulator_default_def record_assembly_def
      record_admission_def retire_undelivered_def sat_add_u64_def remove_at_def DELIVERY_STAMP_CAPACITY_def)

section \<open>Percentiles\<close>

lemma length_filter_sort: "length (filter P (sort xs)) = length (filter P (xs :: nat list))"
  by (metis mset_filter mset_sort size_mset)

lemma sorted_filter_le_nth:
  assumes "sorted (ys :: nat list)" and "k < length ys"
  shows "Suc k \<le> length (filter (\<lambda>x. x \<le> ys ! k) ys)"
proof -
  have "\<forall>x\<in>set (take (Suc k) ys). x \<le> ys ! k"
    using assms by (auto simp: in_set_conv_nth sorted_iff_nth_mono)
  then have "filter (\<lambda>x. x \<le> ys ! k) (take (Suc k) ys) = take (Suc k) ys" by (rule filter_True)
  then have "filter (\<lambda>x. x \<le> ys ! k) (take (Suc k) ys @ drop (Suc k) ys)
      = take (Suc k) ys @ filter (\<lambda>x. x \<le> ys ! k) (drop (Suc k) ys)" by (simp only: filter_append)
  then have "filter (\<lambda>x. x \<le> ys ! k) ys = take (Suc k) ys @ filter (\<lambda>x. x \<le> ys ! k) (drop (Suc k) ys)"
    by (simp only: append_take_drop_id)
  then show ?thesis using assms(2) by simp
qed

lemma sorted_filter_below_nth:
  assumes "sorted (ys :: nat list)" and "k < length ys" and "w < ys ! k"
  shows "length (filter (\<lambda>x. x \<le> w) ys) \<le> k"
proof -
  have "\<forall>x\<in>set (drop k ys). \<not> x \<le> w"
  proof
    fix x assume "x \<in> set (drop k ys)"
    then obtain j where "j < length ys - k" and "x = ys ! (k + j)" by (auto simp: in_set_conv_nth)
    then have "ys ! k \<le> x" using assms(1) by (simp add: sorted_iff_nth_mono)
    then show "\<not> x \<le> w" using assms(3) by simp
  qed
  then have "filter (\<lambda>x. x \<le> w) (drop k ys) = []" by simp
  then have "filter (\<lambda>x. x \<le> w) ys = filter (\<lambda>x. x \<le> w) (take k ys)"
    by (metis append_Nil2 append_take_drop_id filter_append)
  then show ?thesis
    by (metis length_filter_le length_take min.cobounded2 order_trans)
qed

lemma percentile_rank_bounds:
  assumes "xs \<noteq> []" and "0 < p" and "p \<le> 100"
  defines "r \<equiv> percentile_rank xs p"
  shows "1 \<le> r" and "r \<le> length xs" and "length xs * p \<le> 100 * r" and "100 * (r - 1) < length xs * p"
proof -
  have n: "0 < length xs * p" using assms by simp
  have "1 \<le> (length xs * p + 99) div 100" using n by linarith
  then have r: "r = (length xs * p + 99) div 100"
    unfolding r_def percentile_rank_def div_ceil_def by (simp add: max_absorb1)
  show "1 \<le> r" using n unfolding r by linarith
  have "length xs * p \<le> length xs * 100" using assms(3) by simp
  then show "r \<le> length xs" unfolding r by linarith
  show "length xs * p \<le> 100 * r" unfolding r by linarith
  show "100 * (r - 1) < length xs * p" unfolding r using n by linarith
qed

text \<open>\<open>percentile_ms\<close> of the sorted window is the nearest-rank percentile: some sample \<open>v\<close>, at or below
  which at least \<open>p\<close> percent of the samples lie, while every smaller sample has fewer at or below it. The
  index is always inside the slice.\<close>

lemma percentile_nearest_rank:
  assumes "samples \<noteq> []" and "0 < p" and "p \<le> 100"
  shows "\<exists>v. percentile_ms to_ms (sort samples) p = to_ms v \<and> v \<in> set samples
    \<and> length samples * p \<le> 100 * length (filter (\<lambda>x. x \<le> v) samples)
    \<and> (\<forall>w. w < v \<longrightarrow> 100 * length (filter (\<lambda>x. x \<le> w) samples) < length samples * p)"
proof -
  let ?ys = "sort samples" and ?r = "percentile_rank (sort samples) p"
  have ne: "?ys \<noteq> []" using assms(1) by (metis length_0_conv length_sort)
  note r = percentile_rank_bounds [OF ne assms(2,3)]
  let ?v = "?ys ! (?r - 1)"
  have k: "?r - 1 < length ?ys" using r(1,2) by linarith
  have v: "percentile_ms to_ms ?ys p = to_ms ?v"
    using r(2) by (simp add: percentile_ms_def min_absorb1)
  have "?v \<in> set samples" using nth_mem [OF k] by simp
  moreover have "length samples * p \<le> 100 * length (filter (\<lambda>x. x \<le> ?v) samples)"
  proof -
    have "?r \<le> length (filter (\<lambda>x. x \<le> ?v) ?ys)"
      using sorted_filter_le_nth [OF sorted_sort k] r(1) by simp
    then show ?thesis using r(3) by (simp add: length_filter_sort)
  qed
  moreover have "100 * length (filter (\<lambda>x. x \<le> w) samples) < length samples * p" if "w < ?v" for w
  proof -
    have "length (filter (\<lambda>x. x \<le> w) ?ys) \<le> ?r - 1"
      by (rule sorted_filter_below_nth [OF sorted_sort k that])
    then show ?thesis using r(4) by (simp add: length_filter_sort)
  qed
  ultimately show ?thesis using v by blast
qed

theorem percentile_nearest_rank_witness:
  "\<exists>v. percentile_ms id (sort [30, 10, 20, 40]) 50 = v \<and> v \<in> {30, 10, 20, 40}"
  using percentile_nearest_rank [of "[30, 10, 20, 40]" 50 id] by auto

end
