(* ===== verification/Bandwidth.thy ===== *)
theory Bandwidth
  imports Control "HOL-Library.Multiset"
begin

text \<open>
  The bandwidth estimator of \<open>nvst_bandwidth.rs\<close>. Its arithmetic on \<open>f64\<close> is the parameter \<open>fl\<close>, a record
  of the operations the source uses, so every fact below holds for IEEE doubles and does not depend on
  rounding. The control of the estimator (unwrapping of the RTP clock, ring of transit times, frame
  boundaries, counters) is modelled exactly.
\<close>

section \<open>Floating point operations\<close>

text \<open>\<open>fl_lit n d\<close> is the literal \<open>n / d\<close>; \<open>fl_of\<close> is \<open>as f64\<close> of an unsigned integer; \<open>fl_secs\<close> is
  \<open>Duration::as_secs_f64\<close>; \<open>fl_to m\<close> is the saturating cast to an unsigned type with greatest value \<open>m\<close>;
  \<open>fl_bits\<close> is \<open>f64::to_bits\<close>; \<open>fl_key\<close> orders values the way \<open>f64::total_cmp\<close> does.\<close>

record 'f float_ops =
  fl_lit :: "nat \<Rightarrow> nat \<Rightarrow> 'f"
  fl_of :: "nat \<Rightarrow> 'f"
  fl_secs :: "duration \<Rightarrow> 'f"
  fl_add :: "'f \<Rightarrow> 'f \<Rightarrow> 'f"
  fl_sub :: "'f \<Rightarrow> 'f \<Rightarrow> 'f"
  fl_mul :: "'f \<Rightarrow> 'f \<Rightarrow> 'f"
  fl_div :: "'f \<Rightarrow> 'f \<Rightarrow> 'f"
  fl_min :: "'f \<Rightarrow> 'f \<Rightarrow> 'f"
  fl_max :: "'f \<Rightarrow> 'f \<Rightarrow> 'f"
  fl_abs :: "'f \<Rightarrow> 'f"
  fl_mul_add :: "'f \<Rightarrow> 'f \<Rightarrow> 'f \<Rightarrow> 'f"
  fl_bits :: "'f \<Rightarrow> u64"
  fl_less :: "'f \<Rightarrow> 'f \<Rightarrow> bool"
  fl_leq :: "'f \<Rightarrow> 'f \<Rightarrow> bool"
  fl_to :: "nat \<Rightarrow> 'f \<Rightarrow> nat"
  fl_key :: "'f \<Rightarrow> int"

definition fl_millis :: "'f float_ops \<Rightarrow> duration \<Rightarrow> 'f" where
  "fl_millis fl d = fl_mul fl (fl_secs fl d) (fl_lit fl 1000 1)"

section \<open>Model\<close>

definition TRANSIT_SAMPLES :: nat where "TRANSIT_SAMPLES = 16"

record PacketBandwidthSample =
  pb_frame_number :: u32
  pb_sequence :: u32
  pb_timestamp :: u32
  pb_bytes :: nat
  pb_started :: bool
  pb_ended :: bool
  pb_received_at :: instant

record 'f FrameSample =
  fs_number :: u32
  fs_first_at :: instant
  fs_last_at :: instant
  fs_first_timestamp :: nat
  fs_last_timestamp :: nat
  fs_last_sequence :: u32
  fs_bytes :: nat
  fs_sender_gap_ms :: 'f
  fs_started :: bool
  fs_ended :: bool
  fs_contiguous :: bool

record 'f BandwidthEstimator =
  be_first_arrival :: "instant option"
  be_last_timestamp :: "(u32 \<times> nat) option"
  be_minimum_transit_ms :: "'f option"
  be_previous_transit_ms :: "'f option"
  be_jitter_ms :: 'f
  be_transits :: "'f list"
  be_transit_count :: nat
  be_transit_next :: nat
  be_latest_transit_ms :: 'f
  be_active_frame :: "'f FrameSample option"
  be_frames_observed :: nat
  be_lossy_frames :: nat
  be_average_frame_ms :: "'f option"
  be_average_receive_kbps :: "'f option"
  be_average_utilization_percent :: "'f option"

definition BandwidthEstimator_default :: "'f float_ops \<Rightarrow> 'f BandwidthEstimator" where
  "BandwidthEstimator_default fl =
     \<lparr> be_first_arrival = None, be_last_timestamp = None, be_minimum_transit_ms = None,
       be_previous_transit_ms = None, be_jitter_ms = fl_lit fl 0 1,
       be_transits = replicate TRANSIT_SAMPLES (fl_lit fl 0 1), be_transit_count = 0, be_transit_next = 0,
       be_latest_transit_ms = fl_lit fl 0 1, be_active_frame = None, be_frames_observed = 0,
       be_lossy_frames = 0, be_average_frame_ms = None, be_average_receive_kbps = None,
       be_average_utilization_percent = None \<rparr>"

definition sat_add_u32 :: "nat \<Rightarrow> nat \<Rightarrow> nat" where
  "sat_add_u32 a b = min (a + b) u32_max"

definition observe_parity :: "u32 \<Rightarrow> u32 \<Rightarrow> 'f BandwidthEstimator \<Rightarrow> 'f BandwidthEstimator" where
  "observe_parity frame_number sequence e =
     (case be_active_frame e of
        None \<Rightarrow> e
      | Some frame \<Rightarrow>
          if fs_number frame = frame_number \<and> sequence > fs_last_sequence frame then
            e\<lparr> be_active_frame := Some (frame\<lparr>
                 fs_contiguous := (fs_contiguous frame \<and> sequence = fs_last_sequence frame + 1),
                 fs_last_sequence := sequence \<rparr>) \<rparr>
          else e)"

definition smooth :: "'f float_ops \<Rightarrow> 'f option \<Rightarrow> 'f \<Rightarrow> 'f" where
  "smooth fl previous v = (case previous of
     None \<Rightarrow> v
   | Some p \<Rightarrow> fl_add fl (fl_mul fl p (fl_lit fl 875 1000)) (fl_mul fl v (fl_lit fl 125 1000)))"

text \<open>The extended RTP time of a sample, \<open>None\<close> when the sample is older than the newest one.\<close>

definition extend_timestamp :: "(u32 \<times> nat) option \<Rightarrow> u32 \<Rightarrow> nat option" where
  "extend_timestamp last_timestamp timestamp = (case last_timestamp of
     Some (l, extended) \<Rightarrow>
       (if sint (timestamp - l) < 0 then None else Some (extended + unat (timestamp - l)))
   | None \<Rightarrow> Some (unat timestamp))"

definition transit_ms :: "'f float_ops \<Rightarrow> instant \<Rightarrow> instant \<Rightarrow> nat \<Rightarrow> 'f" where
  "transit_ms fl first at extended =
     fl_sub fl (fl_millis fl (at - first)) (fl_div fl (fl_of fl extended) (fl_lit fl 90 1))"

definition note_transit :: "'f float_ops \<Rightarrow> 'f \<Rightarrow> 'f BandwidthEstimator \<Rightarrow> 'f BandwidthEstimator" where
  "note_transit fl t e =
     e\<lparr> be_minimum_transit_ms :=
          Some (fl_min fl (case be_minimum_transit_ms e of None \<Rightarrow> t | Some m \<Rightarrow> m) t),
        be_latest_transit_ms := t,
        be_jitter_ms := (case be_previous_transit_ms e of
            None \<Rightarrow> be_jitter_ms e
          | Some p \<Rightarrow> fl_add fl (be_jitter_ms e)
              (fl_div fl (fl_sub fl (fl_abs fl (fl_sub fl t p)) (be_jitter_ms e)) (fl_lit fl 16 1))),
        be_previous_transit_ms := Some t,
        be_transits := (be_transits e)[be_transit_next e := t],
        be_transit_next := (be_transit_next e + 1) mod TRANSIT_SAMPLES,
        be_transit_count := min (be_transit_count e + 1) TRANSIT_SAMPLES \<rparr>"

definition continue_frame ::
  "'f float_ops \<Rightarrow> PacketBandwidthSample \<Rightarrow> nat \<Rightarrow> 'f FrameSample \<Rightarrow> 'f FrameSample" where
  "continue_frame fl s extended frame =
     (if pb_sequence s \<le> fs_last_sequence frame then frame\<lparr> fs_contiguous := False \<rparr>
      else let sender_gap = fl_div fl (fl_of fl (extended - fs_last_timestamp frame)) (fl_lit fl 90 1);
               receive_gap = fl_millis fl (pb_received_at s - fs_last_at frame)
           in frame\<lparr>
                fs_contiguous := (fs_contiguous frame \<and> pb_sequence s = fs_last_sequence frame + 1),
                fs_sender_gap_ms := (if fl_leq fl (fl_lit fl 1 1) sender_gap
                   then fl_add fl (fs_sender_gap_ms frame) (fl_min fl sender_gap receive_gap)
                   else fs_sender_gap_ms frame),
                fs_last_at := pb_received_at s,
                fs_last_timestamp := extended,
                fs_last_sequence := pb_sequence s,
                fs_bytes := sat_add_u64 (fs_bytes frame) (pb_bytes s),
                fs_ended := (fs_ended frame \<or> pb_ended s) \<rparr>)"

definition close_complete_frame ::
  "'f float_ops \<Rightarrow> nat \<Rightarrow> 'f FrameSample \<Rightarrow> 'f BandwidthEstimator \<Rightarrow> 'f BandwidthEstimator" where
  "close_complete_frame fl extended previous e =
     (let frame_ms = fl_div fl (fl_of fl (extended - fs_first_timestamp previous)) (fl_lit fl 90 1);
          received_ms = fl_max fl
            (fl_sub fl (fl_millis fl (fs_last_at previous - fs_first_at previous)) (fs_sender_gap_ms previous))
            (fl_lit fl 1 2)
      in if fl_less fl (fl_lit fl 0 1) frame_ms \<and> fl_less fl frame_ms (fl_lit fl 1000 1) then
           let average_frame = smooth fl (be_average_frame_ms e) frame_ms;
               observed = sat_add_u32 (be_frames_observed e) 1
           in e\<lparr> be_average_frame_ms := Some average_frame,
                 be_average_receive_kbps := Some (smooth fl (be_average_receive_kbps e)
                   (fl_div fl (fl_mul fl (fl_of fl (fs_bytes previous)) (fl_lit fl 8 1)) received_ms)),
                 be_average_utilization_percent := Some (smooth fl (be_average_utilization_percent e)
                   (fl_min fl (fl_div fl (fl_mul fl (fl_lit fl 100 1) received_ms) average_frame)
                      (fl_lit fl 100 1))),
                 be_frames_observed := observed,
                 be_minimum_transit_ms := (if observed mod 60 = 0
                   then map_option (\<lambda>m. fl_add fl m (fl_lit fl 1 2)) (be_minimum_transit_ms e)
                   else be_minimum_transit_ms e) \<rparr>
         else e)"

definition frame_complete :: "'f FrameSample \<Rightarrow> bool" where
  "frame_complete f \<longleftrightarrow> fs_started f \<and> fs_ended f \<and> fs_contiguous f"

definition open_frame :: "'f float_ops \<Rightarrow> PacketBandwidthSample \<Rightarrow> nat \<Rightarrow> 'f FrameSample" where
  "open_frame fl s extended =
     \<lparr> fs_number = pb_frame_number s, fs_first_at = pb_received_at s, fs_last_at = pb_received_at s,
       fs_first_timestamp = extended, fs_last_timestamp = extended, fs_last_sequence = pb_sequence s,
       fs_bytes = pb_bytes s, fs_sender_gap_ms = fl_lit fl 0 1, fs_started = pb_started s,
       fs_ended = pb_ended s, fs_contiguous = True \<rparr>"

text \<open>The frame part of \<open>observe\<close>, after the transit time has been noted.\<close>

definition observe_frame ::
  "'f float_ops \<Rightarrow> PacketBandwidthSample \<Rightarrow> nat \<Rightarrow> 'f BandwidthEstimator \<Rightarrow> 'f BandwidthEstimator" where
  "observe_frame fl s extended e =
     (case be_active_frame e of
        None \<Rightarrow> e\<lparr> be_active_frame := Some (open_frame fl s extended) \<rparr>
      | Some previous \<Rightarrow>
          if fs_number previous = pb_frame_number s
          then e\<lparr> be_active_frame := Some (continue_frame fl s extended previous) \<rparr>
          else
            let distance = pb_frame_number s - fs_number previous
            in if distance = 0 \<or> distance \<ge> 0x80000000 then e
               else
                 let e = e\<lparr> be_lossy_frames := sat_add_u32 (be_lossy_frames e) (unat distance - 1) \<rparr>;
                     e = (if frame_complete previous then close_complete_frame fl extended previous e
                          else e\<lparr> be_lossy_frames := sat_add_u32 (be_lossy_frames e) 1 \<rparr>)
                 in e\<lparr> be_active_frame := Some (open_frame fl s extended) \<rparr>)"

definition observe ::
  "'f float_ops \<Rightarrow> PacketBandwidthSample \<Rightarrow> 'f BandwidthEstimator \<Rightarrow> 'f BandwidthEstimator" where
  "observe fl s e =
     (let first = (case be_first_arrival e of None \<Rightarrow> pb_received_at s | Some f \<Rightarrow> f);
          e = e\<lparr> be_first_arrival := Some first \<rparr>
      in case extend_timestamp (be_last_timestamp e) (pb_timestamp s) of
           None \<Rightarrow> e
         | Some extended \<Rightarrow>
             let e = e\<lparr> be_last_timestamp := Some (pb_timestamp s, extended) \<rparr>;
                 e = note_transit fl (transit_ms fl first (pb_received_at s) extended) e
             in observe_frame fl s extended e)"

definition server_time :: "'f float_ops \<Rightarrow> 'f \<Rightarrow> 'f \<Rightarrow> u32" where
  "server_time fl now_ms transit =
     of_nat (fl_to fl u64_max
       (fl_mul fl (fl_max fl (fl_sub fl now_ms transit) (fl_lit fl 0 1)) (fl_lit fl 90 1))) AND 0x7fffffff"

definition BandwidthFeedback_default :: BandwidthFeedback where
  "BandwidthFeedback_default = \<lparr> bf_minimum_server_time = 0, bf_median_server_time = 0, bf_queue_delay_us = 0,
     bf_jitter_us = 0, bf_utilization_percent = 0, bf_estimate_kbps = 0, bf_lossy_frames = 0 \<rparr>"

text \<open>\<open>report\<close> sorts the filled part of the ring and indexes its middle; \<open>None\<close> is the panic of the
  slice, of the subtraction \<open>transit_count - 1\<close> or of the index.\<close>

definition median_transit :: "'f float_ops \<Rightarrow> 'f BandwidthEstimator \<Rightarrow> 'f option" where
  "median_transit fl e =
     (let n = be_transit_count e
      in if n > length (be_transits e) \<or> n = 0 then None
         else let samples = sort_key (fl_key fl) (take n (be_transits e)) @ drop n (be_transits e)
              in if (n - 1) div 2 < length samples then Some (samples ! ((n - 1) div 2)) else None)"

definition report :: "'f float_ops \<Rightarrow> instant \<Rightarrow> 'f BandwidthEstimator \<Rightarrow> BandwidthFeedback option" where
  "report fl at e =
     (case (be_first_arrival e, be_minimum_transit_ms e) of
        (Some first, Some minimum) \<Rightarrow>
          (case median_transit fl e of
             None \<Rightarrow> None
           | Some median \<Rightarrow>
               let now_ms = fl_millis fl (at - first)
               in Some \<lparr> bf_minimum_server_time = server_time fl now_ms minimum,
                    bf_median_server_time = server_time fl now_ms median,
                    bf_queue_delay_us = of_nat (fl_to fl u32_max (fl_mul fl
                      (fl_max fl (fl_sub fl (be_latest_transit_ms e) minimum) (fl_lit fl 0 1)) (fl_lit fl 1000 1))),
                    bf_jitter_us = of_nat (fl_to fl u16_max
                      (fl_min fl (fl_mul fl (be_jitter_ms e) (fl_lit fl 1000 1)) (fl_of fl u16_max))),
                    bf_utilization_percent = (if be_frames_observed e \<ge> 100
                      then of_nat (fl_to fl 255 (case be_average_utilization_percent e of
                             None \<Rightarrow> fl_lit fl 0 1 | Some u \<Rightarrow> u)) else 0),
                    bf_estimate_kbps = (if be_frames_observed e \<ge> 100
                      then of_nat (fl_to fl u32_max (case be_average_receive_kbps e of
                             None \<Rightarrow> fl_lit fl 0 1 | Some u \<Rightarrow> u)) else 0),
                    bf_lossy_frames = of_nat (be_lossy_frames e) \<rparr>)
      | _ \<Rightarrow> Some BandwidthFeedback_default)"

section \<open>Runs of the estimator\<close>

datatype bandwidth_event = Parity u32 u32 | Packet PacketBandwidthSample

fun bandwidth_step :: "'f float_ops \<Rightarrow> bandwidth_event \<Rightarrow> 'f BandwidthEstimator \<Rightarrow> 'f BandwidthEstimator"
  where
  "bandwidth_step fl (Parity n q) e = observe_parity n q e"
| "bandwidth_step fl (Packet s) e = observe fl s e"

definition bandwidth_run :: "'f float_ops \<Rightarrow> bandwidth_event list \<Rightarrow> 'f BandwidthEstimator" where
  "bandwidth_run fl evs = fold (bandwidth_step fl) evs (BandwidthEstimator_default fl)"

text \<open>The transit time an event contributes, if it contributes one, and those of a whole run.\<close>

fun event_transit :: "'f float_ops \<Rightarrow> bandwidth_event \<Rightarrow> 'f BandwidthEstimator \<Rightarrow> 'f list" where
  "event_transit fl (Parity n q) e = []"
| "event_transit fl (Packet s) e =
     (case extend_timestamp (be_last_timestamp e) (pb_timestamp s) of
        None \<Rightarrow> []
      | Some extended \<Rightarrow>
          [transit_ms fl (case be_first_arrival e of None \<Rightarrow> pb_received_at s | Some f \<Rightarrow> f)
             (pb_received_at s) extended])"

fun transit_history :: "'f float_ops \<Rightarrow> bandwidth_event list \<Rightarrow> 'f BandwidthEstimator \<Rightarrow> 'f list" where
  "transit_history fl [] e = []"
| "transit_history fl (x # xs) e = event_transit fl x e @ transit_history fl xs (bandwidth_step fl x e)"

definition newest :: "nat \<Rightarrow> 'a list \<Rightarrow> 'a list" where
  "newest n xs = drop (length xs - n) xs"

lemma newest_snoc: "newest n (newest n xs @ [x]) = newest n (xs @ [x])"
  by (cases "length xs \<le> n") (auto simp: newest_def Suc_diff_le)

lemma length_newest: "length (newest n xs) = min n (length xs)"
  by (auto simp: newest_def)

section \<open>The ring of transit times\<close>

definition ring_ok :: "'f BandwidthEstimator \<Rightarrow> bool" where
  "ring_ok e \<longleftrightarrow> length (be_transits e) = TRANSIT_SAMPLES \<and> be_transit_count e \<le> TRANSIT_SAMPLES
     \<and> be_transit_next e < TRANSIT_SAMPLES
     \<and> (be_transit_count e < TRANSIT_SAMPLES \<longrightarrow> be_transit_next e = be_transit_count e)"

text \<open>The contents of the ring from the oldest to the newest.\<close>

definition ring_recent :: "'f BandwidthEstimator \<Rightarrow> 'f list" where
  "ring_recent e =
     (if be_transit_count e < TRANSIT_SAMPLES then take (be_transit_count e) (be_transits e)
      else drop (be_transit_next e) (be_transits e) @ take (be_transit_next e) (be_transits e))"

lemma ring_recent_length: "ring_ok e \<Longrightarrow> length (ring_recent e) = be_transit_count e"
  by (auto simp: ring_ok_def ring_recent_def)

lemma mset_rotate_split: "mset (drop k xs @ take k xs) = mset xs"
  by (metis append_take_drop_id mset_append union_commute)

lemma ring_recent_mset: "ring_ok e \<Longrightarrow> mset (ring_recent e) = mset (take (be_transit_count e) (be_transits e))"
  by (auto simp: ring_ok_def ring_recent_def mset_rotate_split simp del: mset_append)

lemma ring_ok_note: "ring_ok e \<Longrightarrow> ring_ok (note_transit fl t e)"
  by (auto simp: ring_ok_def note_transit_def TRANSIT_SAMPLES_def min_def)

lemma note_transit_recent:
  assumes "ring_ok e"
  shows "ring_recent (note_transit fl t e) = newest TRANSIT_SAMPLES (ring_recent e @ [t])"
proof -
  let ?r = "be_transits e" and ?k = "be_transit_next e" and ?n = "be_transit_count e"
  from assms have r: "length ?r = TRANSIT_SAMPLES" "?k < TRANSIT_SAMPLES" "?n \<le> TRANSIT_SAMPLES"
    and kn: "?n < TRANSIT_SAMPLES \<Longrightarrow> ?k = ?n" by (auto simp: ring_ok_def)
  have upd: "take (Suc ?k) (?r[?k := t]) = take ?k ?r @ [t]"
    using r by (simp add: take_Suc_conv_app_nth)
  show ?thesis
  proof (cases "Suc ?n < TRANSIT_SAMPLES")
    case True
    then show ?thesis using r kn upd
      by (simp add: ring_recent_def note_transit_def newest_def)
  next
    case False
    show ?thesis
    proof (cases "?n < TRANSIT_SAMPLES")
      case True
      with False have n: "Suc ?n = TRANSIT_SAMPLES" by simp
      then have "take (Suc ?n) (?r[?k := t]) = take ?n ?r @ [t]" using upd kn by simp
      then have "?r[?k := t] = take ?n ?r @ [t]" using n r by simp
      then show ?thesis using n True r kn
        by (simp add: ring_recent_def note_transit_def newest_def mod_Suc)
    next
      case full: False
      have d: "drop (Suc ?k) (?r[?k := t]) = drop (Suc ?k) ?r" by simp
      have "drop ?k ?r = ?r ! ?k # drop (Suc ?k) ?r" using r by (simp add: Cons_nth_drop_Suc)
      then have new: "newest TRANSIT_SAMPLES (ring_recent e @ [t]) = drop (Suc ?k) ?r @ take ?k ?r @ [t]"
        using full r by (simp add: ring_recent_def newest_def)
      show ?thesis
      proof (cases "Suc ?k = TRANSIT_SAMPLES")
        case True
        then have "?r[?k := t] = take ?k ?r @ [t]" using upd r by simp
        then show ?thesis using True full r new
          by (simp add: ring_recent_def note_transit_def)
      next
        case False
        then have "(?k + 1) mod TRANSIT_SAMPLES = Suc ?k" using r by simp
        then show ?thesis using full r new upd d
          by (simp add: ring_recent_def note_transit_def)
      qed
    qed
  qed
qed

section \<open>Invariant\<close>

definition bandwidth_ok :: "'f BandwidthEstimator \<Rightarrow> bool" where
  "bandwidth_ok e \<longleftrightarrow> ring_ok e
     \<and> (be_minimum_transit_ms e \<noteq> None \<longrightarrow> be_transit_count e > 0)
     \<and> (case be_last_timestamp e of None \<Rightarrow> True | Some (l, x) \<Rightarrow> x mod 2 ^ 32 = unat l)"

lemma observe_frame_keeps:
  "be_transits (observe_frame fl s x e) = be_transits e"
  "be_transit_count (observe_frame fl s x e) = be_transit_count e"
  "be_transit_next (observe_frame fl s x e) = be_transit_next e"
  "be_last_timestamp (observe_frame fl s x e) = be_last_timestamp e"
  "be_minimum_transit_ms (observe_frame fl s x e) \<noteq> None \<longleftrightarrow> be_minimum_transit_ms e \<noteq> None"
  by (auto simp: observe_frame_def close_complete_frame_def Let_def split: option.splits)

lemma observe_parity_keeps:
  "be_transits (observe_parity n q e) = be_transits e"
  "be_transit_count (observe_parity n q e) = be_transit_count e"
  "be_transit_next (observe_parity n q e) = be_transit_next e"
  "be_last_timestamp (observe_parity n q e) = be_last_timestamp e"
  "be_minimum_transit_ms (observe_parity n q e) = be_minimum_transit_ms e"
  by (auto simp: observe_parity_def split: option.splits)

lemma ring_congs:
  assumes "be_transits e' = be_transits e" "be_transit_count e' = be_transit_count e"
    "be_transit_next e' = be_transit_next e"
  shows "ring_ok e' \<longleftrightarrow> ring_ok e" and "ring_recent e' = ring_recent e"
  using assms by (simp_all add: ring_ok_def ring_recent_def)

lemma word_u32_bound: "unat (w :: u32) < 4294967296"
  using unsigned_less [of w] by simp

lemma extend_timestamp_mod:
  assumes "extend_timestamp l t = Some x" and "case l of None \<Rightarrow> True | Some (p, y) \<Rightarrow> y mod 2 ^ 32 = unat p"
  shows "x mod 2 ^ 32 = unat t"
proof (cases l)
  case None
  then show ?thesis using assms(1) word_u32_bound [of t] by (auto simp: extend_timestamp_def)
next
  case (Some py)
  obtain p y where py: "py = (p, y)" by force
  with Some assms have y: "y mod 2 ^ 32 = unat p" and x: "x = y + unat (t - p)"
    by (auto simp: extend_timestamp_def split: if_splits)
  have "x mod 2 ^ 32 = (unat p + unat (t - p)) mod 2 ^ 32" unfolding x y [symmetric] by (simp add: mod_add_left_eq)
  also have "\<dots> = unat (p + (t - p))" using unat_word_ariths(1) [of p "t - p"] by simp
  finally show ?thesis by simp
qed

lemma observe_accepts:
  assumes "extend_timestamp (be_last_timestamp e) (pb_timestamp s) = Some x"
  obtains e0 where "observe fl s e = observe_frame fl s x (note_transit fl
      (transit_ms fl (case be_first_arrival e of None \<Rightarrow> pb_received_at s | Some f \<Rightarrow> f) (pb_received_at s) x) e0)"
    and "be_transits e0 = be_transits e" "be_transit_count e0 = be_transit_count e"
      "be_transit_next e0 = be_transit_next e" "be_last_timestamp e0 = Some (pb_timestamp s, x)"
  using assms
  by (intro that [of "e\<lparr> be_first_arrival :=
        Some (case be_first_arrival e of None \<Rightarrow> pb_received_at s | Some f \<Rightarrow> f),
      be_last_timestamp := Some (pb_timestamp s, x) \<rparr>"])
    (simp_all add: observe_def Let_def)

lemma observe_rejects:
  "extend_timestamp (be_last_timestamp e) (pb_timestamp s) = None \<Longrightarrow> observe fl s e =
     e\<lparr> be_first_arrival := Some (case be_first_arrival e of None \<Rightarrow> pb_received_at s | Some f \<Rightarrow> f) \<rparr>"
  by (simp add: observe_def Let_def)

lemma bandwidth_step_ok:
  assumes "bandwidth_ok e"
  shows "bandwidth_ok (bandwidth_step fl v e)
    \<and> ring_recent (bandwidth_step fl v e) = newest TRANSIT_SAMPLES (ring_recent e @ event_transit fl v e)"
proof (cases v)
  case (Parity n q)
  then show ?thesis
    using assms ring_congs [of "observe_parity n q e" e] ring_recent_length [of e]
    by (auto simp: bandwidth_ok_def observe_parity_keeps newest_def ring_ok_def)
next
  case (Packet s)
  show ?thesis
  proof (cases "extend_timestamp (be_last_timestamp e) (pb_timestamp s)")
    case None
    then show ?thesis using assms Packet ring_recent_length [of e]
      by (auto simp: observe_rejects bandwidth_ok_def ring_ok_def ring_recent_def newest_def)
  next
    case (Some x)
    obtain e0 t where o: "observe fl s e = observe_frame fl s x (note_transit fl t e0)"
      and t: "event_transit fl v e = [t]"
      and e0: "be_transits e0 = be_transits e" "be_transit_count e0 = be_transit_count e"
        "be_transit_next e0 = be_transit_next e" "be_last_timestamp e0 = Some (pb_timestamp s, x)"
      by (rule observe_accepts [OF Some, of fl]) (use Some Packet in auto)
    let ?n = "note_transit fl t e0"
    have r0: "ring_ok e0" "ring_recent e0 = ring_recent e"
      using ring_congs [OF e0(1-3)] assms by (auto simp: bandwidth_ok_def)
    have c: "ring_ok (observe_frame fl s x ?n)" "ring_recent (observe_frame fl s x ?n) = ring_recent ?n"
      using ring_congs [of "observe_frame fl s x ?n" ?n] ring_ok_note [OF r0(1)]
      by (auto simp: observe_frame_keeps)
    have "x mod 2 ^ 32 = unat (pb_timestamp s)"
      using extend_timestamp_mod [OF Some] assms by (simp add: bandwidth_ok_def)
    then show ?thesis using c r0 o t Packet note_transit_recent [OF r0(1), of fl t] e0(4)
      by (auto simp: bandwidth_ok_def observe_frame_keeps) (auto simp: note_transit_def TRANSIT_SAMPLES_def)
  qed
qed

lemma newest_append: "newest n (newest n xs @ ys) = newest n (xs @ ys)"
  by (induction ys rule: rev_induct)
    (metis append_Nil2 length_newest min.left_idem newest_def diff_is_0_eq' drop0 min.cobounded1,
     metis append_assoc newest_snoc)

lemma bandwidth_fold_ok:
  assumes "bandwidth_ok e"
  shows "bandwidth_ok (fold (bandwidth_step fl) evs e)
    \<and> ring_recent (fold (bandwidth_step fl) evs e)
        = newest TRANSIT_SAMPLES (ring_recent e @ transit_history fl evs e)"
  using assms
proof (induction evs arbitrary: e)
  case Nil
  then show ?case using ring_recent_length [of e]
    by (auto simp: bandwidth_ok_def ring_ok_def newest_def)
next
  case (Cons v evs)
  from bandwidth_step_ok [OF Cons.prems, of fl v] Cons.IH [of "bandwidth_step fl v e"]
  show ?case by (simp add: newest_append)
qed

lemma bandwidth_ok_default: "bandwidth_ok (BandwidthEstimator_default fl)"
  by (simp add: bandwidth_ok_def ring_ok_def BandwidthEstimator_default_def TRANSIT_SAMPLES_def)

lemma bandwidth_run_ok:
  "bandwidth_ok (bandwidth_run fl evs)"
  "ring_recent (bandwidth_run fl evs)
     = newest TRANSIT_SAMPLES (transit_history fl evs (BandwidthEstimator_default fl))"
  using bandwidth_fold_ok [OF bandwidth_ok_default, of fl evs]
  by (simp_all add: bandwidth_run_def ring_recent_def BandwidthEstimator_default_def TRANSIT_SAMPLES_def)

lemma report_some: "bandwidth_ok e \<Longrightarrow> report fl at e \<noteq> None"
proof -
  assume "bandwidth_ok e"
  then have "median_transit fl e \<noteq> None" if "be_minimum_transit_ms e \<noteq> None"
    using that by (auto simp: bandwidth_ok_def ring_ok_def median_transit_def Let_def)
  then show ?thesis by (auto simp: report_def Let_def split: option.splits)
qed

section \<open>Properties\<close>

text \<open>Building the bandwidth feedback never panics, whatever packets were observed and whatever the
  clock reads: the filled part of the ring is a slice of it and its middle index exists.\<close>

lemma bandwidth_report_no_panic: "report fl at (bandwidth_run fl evs) \<noteq> None"
  by (rule report_some [OF bandwidth_run_ok(1)])

text \<open>The median of a report is the lower median of the sixteen newest transit times. When
  \<open>total_cmp\<close> separates different values, sorting the ring in storage order or in arrival order agrees.\<close>

theorem median_of_newest_transits:
  assumes "inj (fl_key fl)"
    and "h = newest TRANSIT_SAMPLES (transit_history fl evs (BandwidthEstimator_default fl))"
    and "h \<noteq> []"
  shows "median_transit fl (bandwidth_run fl evs) = Some (sort_key (fl_key fl) h ! ((length h - 1) div 2))"
proof -
  let ?e = "bandwidth_run fl evs" and ?n = "be_transit_count (bandwidth_run fl evs)"
  have ok: "ring_ok ?e" using bandwidth_run_ok(1) [of fl evs] by (simp add: bandwidth_ok_def)
  have h: "h = ring_recent ?e" using assms(2) bandwidth_run_ok(2) [of fl evs] by simp
  then have n: "length h = ?n" using ring_recent_length [OF ok] by simp
  have "sort_key (fl_key fl) h = sort_key (fl_key fl) (take ?n (be_transits ?e))"
  proof (rule properties_for_sort_key)
    show "mset (sort_key (fl_key fl) (take ?n (be_transits ?e))) = mset h"
      using ring_recent_mset [OF ok] h by simp
    fix k assume "k \<in> set (sort_key (fl_key fl) (take ?n (be_transits ?e)))"
    have only: "filter (\<lambda>x. fl_key fl k = fl_key fl x) xs = replicate (count (mset xs) k) k" for xs
      using assms(1) by (induction xs) (auto dest: injD)
    show "filter (\<lambda>x. fl_key fl k = fl_key fl x) (sort_key (fl_key fl) (take ?n (be_transits ?e)))
        = filter (\<lambda>x. fl_key fl k = fl_key fl x) h"
      using ring_recent_mset [OF ok] h by (simp only: only mset_sort)
  qed simp
  moreover have "0 < ?n" using assms(3) unfolding n [symmetric] by simp
  ultimately show ?thesis using ok n
    by (auto simp: median_transit_def ring_ok_def Let_def nth_append)
qed

text \<open>Integers stand for doubles in the concrete run below.\<close>

definition int_float_ops :: "int float_ops" where
  "int_float_ops =
     \<lparr> fl_lit = (\<lambda>n d. int (n div d)), fl_of = int, fl_secs = (\<lambda>d. int (d div 1000000000)), fl_add = (+),
       fl_sub = (-), fl_mul = (*), fl_div = (div), fl_min = min, fl_max = max, fl_abs = abs, fl_mul_add = (\<lambda>a b c. a * b + c), fl_bits = of_int,
       fl_less = (<), fl_leq = (\<le>), fl_to = (\<lambda>m x. min m (nat x)), fl_key = id \<rparr>"

definition two_packets :: "bandwidth_event list" where
  "two_packets =
     [Packet \<lparr> pb_frame_number = 1, pb_sequence = 1, pb_timestamp = 90, pb_bytes = 10, pb_started = True,
               pb_ended = False, pb_received_at = 5 \<rparr>,
      Packet \<lparr> pb_frame_number = 1, pb_sequence = 2, pb_timestamp = 900, pb_bytes = 10, pb_started = False,
               pb_ended = True, pb_received_at = 2000000005 \<rparr>]"

theorem median_of_newest_transits_witness:
  "median_transit int_float_ops (bandwidth_run int_float_ops two_packets) = Some (- 1)"
proof -
  have h: "newest TRANSIT_SAMPLES
      (transit_history int_float_ops two_packets (BandwidthEstimator_default int_float_ops)) = [- 1, 1990]"
    by (simp add: two_packets_def int_float_ops_def BandwidthEstimator_default_def newest_def
        TRANSIT_SAMPLES_def extend_timestamp_def transit_ms_def fl_millis_def observe_def Let_def
        observe_frame_def note_transit_def open_frame_def)
  have "inj (fl_key int_float_ops)" by (simp add: int_float_ops_def)
  from median_of_newest_transits [OF this h [symmetric]] show ?thesis
    by (simp add: int_float_ops_def)
qed

text \<open>The 32-bit RTP clock is unwrapped correctly. If the newest sample was sent at extended time \<open>t\<close>,
  a sample less than \<open>2^31\<close> ticks later is given its own extended time, and an older one is dropped.\<close>

lemma extend_timestamp_correct:
  assumes "t' < t + 2 ^ 31" and "t < t' + 2 ^ 31"
  shows "extend_timestamp (Some (of_nat t, t)) (of_nat t') = (if t \<le> t' then Some t' else None)"
proof -
  let ?d = "of_nat t' - of_nat t :: u32"
  have s: "sint ?d = int t' - int t"
  proof -
    have "?d = word_of_int (int t' - int t)" by simp
    then have "sint ?d = signed_take_bit 31 (int t' - int t)" by (simp only: sint_sbintrunc') simp
    also have "\<dots> = int t' - int t" using assms by (intro signed_take_bit_int_eq_self) simp_all
    finally show ?thesis .
  qed
  have "unat ?d = t' - t" if "t \<le> t'"
  proof -
    have "?d = of_nat (t' - t)" using that by (simp add: of_nat_diff)
    then show ?thesis using assms(1) by (simp add: unat_of_nat)
  qed
  then show ?thesis using s by (simp add: extend_timestamp_def)
qed

theorem extend_timestamp_correct_witness:
  "extend_timestamp (Some (of_nat 0xfffffff0, 0xfffffff0)) (of_nat 0x100000010) = Some 0x100000010
   \<and> extend_timestamp (Some (of_nat 0x100000010, 0x100000010)) (of_nat 0xfffffff0) = None"
  using extend_timestamp_correct [of "0x100000010" "0xfffffff0"] extend_timestamp_correct [of "0xfffffff0" "0x100000010"]
  by simp

end
