(* ===== verification/Nack.thy ===== *)
theory Nack
  imports Prelude
begin

text \<open>
  The queue of missing packet ranges behind \<open>NvstFeedbackState::pending_nacks\<close> in \<open>nvst.rs\<close>:
  \<open>request_nack\<close> opens or widens a range, \<open>resolve_nack\<close> cuts a received packet out of it, \<open>take_nack\<close>
  chooses what to ask for next and \<open>mark_nack_send_failed\<close> gives an attempt back. The lemmas follow the
  set of packets the queue covers through each operation.
\<close>

section \<open>Model\<close>

definition NACK_RETRY_INTERVAL :: duration where "NACK_RETRY_INTERVAL = millis 4"
definition DEFAULT_NACK_RTT :: duration where "DEFAULT_NACK_RTT = millis 30"
definition NACK_TRACKING_TIMEOUT :: duration where "NACK_TRACKING_TIMEOUT = millis 52"
definition MAX_NACK_ATTEMPTS :: nat where "MAX_NACK_ATTEMPTS = 3"
definition MAX_PENDING_NACK_RANGES :: nat where "MAX_PENDING_NACK_RANGES = 16"
definition NACK_PACKETS_PER_REQUEST :: nat where "NACK_PACKETS_PER_REQUEST = 64"

record PendingNackRange =
  nr_first :: nat
  nr_last :: nat
  nr_requested_at :: instant
  nr_last_sent_at :: "instant option"
  nr_attempts :: nat

definition fresh_range :: "nat \<Rightarrow> nat \<Rightarrow> instant \<Rightarrow> PendingNackRange" where
  "fresh_range first final now = \<lparr> nr_first = first, nr_last = final, nr_requested_at = now,
     nr_last_sent_at = None, nr_attempts = 0 \<rparr>"

definition range_touches :: "nat \<Rightarrow> nat \<Rightarrow> PendingNackRange \<Rightarrow> bool" where
  "range_touches first final q \<longleftrightarrow>
     first \<le> sat_add_u64 (nr_last q) 1 \<and> sat_add_u64 final 1 \<ge> nr_first q"

definition widen_range :: "nat \<Rightarrow> nat \<Rightarrow> instant \<Rightarrow> PendingNackRange \<Rightarrow> PendingNackRange" where
  "widen_range first final now q =
     (let first = min (nr_first q) first; final = max (nr_last q) final
      in if first \<noteq> nr_first q \<or> final \<noteq> nr_last q then fresh_range first final now else q)"

definition request_nack ::
  "nat \<Rightarrow> nat \<Rightarrow> instant \<Rightarrow> PendingNackRange list \<Rightarrow> PendingNackRange list" where
  "request_nack first final now pending =
     (if first > final then pending
      else if \<exists>q\<in>set pending. range_touches first final q
        then update_first (range_touches first final) (widen_range first final now) pending
      else (if length pending = MAX_PENDING_NACK_RANGES then tl pending else pending)
             @ [fresh_range first final now])"

text \<open>One range of the loop of \<open>resolve_nack\<close>: what is left of it, and whether it had been asked for.\<close>

definition resolve_range :: "nat \<Rightarrow> PendingNackRange \<Rightarrow> PendingNackRange list \<times> bool" where
  "resolve_range received q =
     (if received < nr_first q \<or> received > nr_last q then ([q], False)
      else ((if nr_first q < received then [q\<lparr> nr_last := received - 1 \<rparr>] else [])
              @ (if received < nr_last q then [q\<lparr> nr_first := received + 1 \<rparr>] else []),
            nr_last_sent_at q \<noteq> None))"

fun resolve_loop :: "nat \<Rightarrow> PendingNackRange list \<Rightarrow> PendingNackRange list \<Rightarrow> bool \<Rightarrow> bool \<times> PendingNackRange list"
  where
  "resolve_loop received [] updated resolved = (resolved, updated)"
| "resolve_loop received (q # pending) updated resolved =
     (case resolve_range received q of
        (left, was_sent) \<Rightarrow> resolve_loop received pending (updated @ left) (resolved \<or> was_sent))"

definition resolve_nack :: "nat \<Rightarrow> PendingNackRange list \<Rightarrow> bool \<times> PendingNackRange list" where
  "resolve_nack received pending = resolve_loop received pending [] False"

definition retry_policy :: "duration option \<Rightarrow> duration \<times> nat" where
  "retry_policy retry_rtt = (case retry_rtt of
     None \<Rightarrow> (NACK_RETRY_INTERVAL, MAX_NACK_ATTEMPTS)
   | Some rtt \<Rightarrow>
       (rtt + NACK_RETRY_INTERVAL,
        if rtt = 0 then MAX_NACK_ATTEMPTS
        else min (max (NACK_TRACKING_TIMEOUT div rtt) 1) MAX_NACK_ATTEMPTS))"

definition range_live :: "instant \<Rightarrow> PendingNackRange \<Rightarrow> bool" where
  "range_live now q \<longleftrightarrow> now - nr_requested_at q < NACK_TRACKING_TIMEOUT"

definition range_due :: "instant \<Rightarrow> duration \<Rightarrow> nat \<Rightarrow> PendingNackRange \<Rightarrow> bool" where
  "range_due now retry_interval max_attempts q \<longleftrightarrow>
     nr_attempts q < max_attempts
     \<and> (case nr_last_sent_at q of None \<Rightarrow> True | Some t \<Rightarrow> now - t \<ge> retry_interval)"

definition send_last :: "PendingNackRange \<Rightarrow> nat" where
  "send_last q = min (nr_last q) (sat_add_u64 (nr_first q) (NACK_PACKETS_PER_REQUEST - 1))"

definition sent_range :: "instant \<Rightarrow> PendingNackRange \<Rightarrow> PendingNackRange" where
  "sent_range now q = q\<lparr> nr_last := send_last q, nr_last_sent_at := Some now,
     nr_attempts := min (nr_attempts q + 1) 255 \<rparr>"

definition take_nack ::
  "instant \<Rightarrow> duration option \<Rightarrow> PendingNackRange list \<Rightarrow> (nat \<times> nat) option \<times> PendingNackRange list"
  where
  "take_nack now retry_rtt pending =
     (let (retry_interval, max_attempts) = retry_policy retry_rtt;
          pending = filter (range_live now) pending
      in case find_position (range_due now retry_interval max_attempts) pending of
           None \<Rightarrow> (None, pending)
         | Some index \<Rightarrow>
             let q = pending ! index;
                 pending = remove_at index pending;
                 pending = (if send_last q < nr_last q
                   then insert_at index (q\<lparr> nr_first := send_last q + 1, nr_last_sent_at := None,
                          nr_attempts := 0 \<rparr>) pending
                   else pending);
                 q = sent_range now q
             in (Some (nr_first q, nr_last q), insert_at index q pending))"

definition mark_nack_send_failed :: "nat \<Rightarrow> nat \<Rightarrow> PendingNackRange list \<Rightarrow> PendingNackRange list" where
  "mark_nack_send_failed first final pending =
     update_first (\<lambda>q. nr_first q = first \<and> nr_last q = final)
       (\<lambda>q. q\<lparr> nr_last_sent_at := None, nr_attempts := nr_attempts q - 1 \<rparr>) pending"

definition clear_nacks :: "PendingNackRange list \<Rightarrow> PendingNackRange list" where
  "clear_nacks pending = []"

section \<open>The packets a queue covers\<close>

definition range_set :: "PendingNackRange \<Rightarrow> nat set" where
  "range_set q = {nr_first q .. nr_last q}"

definition covered :: "PendingNackRange list \<Rightarrow> nat set" where
  "covered pending = (\<Union>q\<in>set pending. range_set q)"

lemma covered_simps [simp]:
  "covered [] = {}" "covered (q # p) = range_set q \<union> covered p" "covered (p @ p') = covered p \<union> covered p'"
  by (auto simp: covered_def)

text \<open>Every queued range is a non-empty interval of \<open>u64\<close> indices with at most the permitted attempts.\<close>

definition nacks_ok :: "PendingNackRange list \<Rightarrow> bool" where
  "nacks_ok pending \<longleftrightarrow>
     (\<forall>q\<in>set pending. nr_first q \<le> nr_last q \<and> nr_last q \<le> u64_max \<and> nr_attempts q \<le> MAX_NACK_ATTEMPTS)"

lemma nacks_ok_simps [simp]:
  "nacks_ok []" "nacks_ok (p @ p') \<longleftrightarrow> nacks_ok p \<and> nacks_ok p'"
  "nacks_ok (q # p) \<longleftrightarrow> nr_first q \<le> nr_last q \<and> nr_last q \<le> u64_max
     \<and> nr_attempts q \<le> MAX_NACK_ATTEMPTS \<and> nacks_ok p"
  by (auto simp: nacks_ok_def)

lemma nacks_ok_filter: "nacks_ok p \<Longrightarrow> nacks_ok (filter P p)"
  by (auto simp: nacks_ok_def)

subsection \<open>Requesting\<close>

lemma widen_covers:
  assumes "range_touches first final q" and "nr_first q \<le> nr_last q" and "nr_last q \<le> u64_max"
    and "first \<le> final" and "final \<le> u64_max"
  shows "range_set (widen_range first final now q) = range_set q \<union> {first..final}"
  using assms by (auto simp: widen_range_def range_set_def range_touches_def sat_add_u64_def fresh_range_def
      Let_def min_def max_def split: if_splits)

lemma widen_ok:
  assumes "nr_first q \<le> nr_last q" "nr_last q \<le> u64_max" "nr_attempts q \<le> MAX_NACK_ATTEMPTS"
    "first \<le> final" "final \<le> u64_max"
  shows "nacks_ok [widen_range first final now q]"
  using assms by (auto simp: widen_range_def fresh_range_def Let_def min_def max_def)

lemma request_nack_merge:
  assumes ok: "nacks_ok pending" and b: "first \<le> final" "final \<le> u64_max"
    and t: "\<exists>q\<in>set pending. range_touches first final q"
  shows "covered (request_nack first final now pending) = covered pending \<union> {first..final}
    \<and> nacks_ok (request_nack first final now pending)
    \<and> length (request_nack first final now pending) = length pending"
proof -
  obtain ys q zs where *: "pending = ys @ q # zs" "range_touches first final q"
    "update_first (range_touches first final) (widen_range first final now) pending
       = ys @ widen_range first final now q # zs"
    by (rule update_first_split [OF t])
  show ?thesis
    using ok b t * widen_covers [OF *(2), of now] widen_ok [of q first final now]
    by (auto simp: request_nack_def)
qed

lemma request_nack_push:
  assumes ok: "nacks_ok pending" and b: "first \<le> final" "final \<le> u64_max"
    and t: "\<not> (\<exists>q\<in>set pending. range_touches first final q)"
  shows "covered (request_nack first final now pending)
      = covered (if length pending = MAX_PENDING_NACK_RANGES then tl pending else pending) \<union> {first..final}
    \<and> nacks_ok (request_nack first final now pending)"
proof -
  have "nacks_ok (tl pending)" using ok by (cases pending) auto
  with assms show ?thesis by (auto simp: request_nack_def fresh_range_def range_set_def)
qed

text \<open>\<open>request_nack\<close> adds exactly the missing packets to those being asked for. Nothing already queued is
  lost unless the queue is at its limit and the packets touch no queued range, when the oldest range makes room.\<close>

lemma request_nack_covers:
  assumes "nacks_ok pending" and "first \<le> final" and "final \<le> u64_max"
  shows "covered (request_nack first final now pending) =
      covered (if length pending = 16 \<and> \<not> (\<exists>q\<in>set pending. range_touches first final q)
               then tl pending else pending) \<union> {first..final}"
  using request_nack_merge [OF assms, of now] request_nack_push [OF assms, of now]
  by (cases "\<exists>q\<in>set pending. range_touches first final q") (simp_all add: MAX_PENDING_NACK_RANGES_def)

theorem request_nack_covers_witness:
  "covered (request_nack 12 20 7 [fresh_range 3 5 1, fresh_range 8 11 2]) = {3..5} \<union> {8..11} \<union> {12..20}"
  using request_nack_covers [of "[fresh_range 3 5 1, fresh_range 8 11 2]" 12 20 7]
  by (simp add: fresh_range_def range_set_def)

subsection \<open>Resolving\<close>

lemma resolve_loop_acc:
  "resolve_loop r pending acc b =
     (b \<or> (\<exists>q\<in>set pending. snd (resolve_range r q)), acc @ concat (map (fst \<circ> resolve_range r) pending))"
  by (induction pending arbitrary: acc b) (auto split: prod.splits)

lemma resolve_nack_alt:
  "resolve_nack r pending =
     (\<exists>q\<in>set pending. snd (resolve_range r q), concat (map (fst \<circ> resolve_range r) pending))"
  by (simp add: resolve_nack_def resolve_loop_acc)

lemma resolve_range_covered: "covered (fst (resolve_range r q)) = range_set q - {r}"
  by (auto simp: resolve_range_def range_set_def)

lemma resolve_range_ok: "nacks_ok [q] \<Longrightarrow> nacks_ok (fst (resolve_range r q))"
  by (auto simp: resolve_range_def)

lemma resolve_range_length: "length (fst (resolve_range r q)) \<le> 2"
  by (simp add: resolve_range_def)

lemma resolve_nack_ok:
  assumes "nacks_ok pending"
  shows "nacks_ok (snd (resolve_nack r pending))"
    and "covered (snd (resolve_nack r pending)) = covered pending - {r}"
  using assms unfolding resolve_nack_alt
  by (induction pending) (use resolve_range_ok resolve_range_covered in auto)

text \<open>\<open>resolve_nack\<close> removes exactly the packet that arrived from the packets being asked for, in every
  range that holds it, and it reports a recovery exactly when such a range had been sent to the server.\<close>

theorem resolve_nack_exact:
  "covered (snd (resolve_nack received pending)) = covered pending - {received}
   \<and> (fst (resolve_nack received pending)
       \<longleftrightarrow> (\<exists>q\<in>set pending. received \<in> range_set q \<and> nr_last_sent_at q \<noteq> None))"
proof
  show "covered (snd (resolve_nack received pending)) = covered pending - {received}"
    unfolding resolve_nack_alt by (induction pending) (use resolve_range_covered in auto)
  show "fst (resolve_nack received pending)
      \<longleftrightarrow> (\<exists>q\<in>set pending. received \<in> range_set q \<and> nr_last_sent_at q \<noteq> None)"
    unfolding resolve_nack_alt fst_conv
    by (rule bex_cong) (auto simp: resolve_range_def range_set_def)
qed

subsection \<open>Taking\<close>

lemma retry_policy_attempts: "1 \<le> snd (retry_policy r)" "snd (retry_policy r) \<le> MAX_NACK_ATTEMPTS"
  by (auto simp: retry_policy_def MAX_NACK_ATTEMPTS_def split: option.splits)

lemma take_nack_none:
  "fst (take_nack now r pending) = None \<longleftrightarrow>
     (\<forall>q\<in>set pending. range_live now q \<longrightarrow> \<not> range_due now (fst (retry_policy r)) (snd (retry_policy r)) q)"
proof -
  have "fst (take_nack now r pending) = None \<longleftrightarrow>
      find_position (range_due now (fst (retry_policy r)) (snd (retry_policy r))) (filter (range_live now) pending) = None"
    by (simp add: take_nack_def Let_def split: prod.splits option.splits)
  then show ?thesis by (auto simp: find_position_None)
qed

text \<open>The queue around the chosen range before and after \<open>take_nack\<close>.\<close>

lemma take_nack_some:
  assumes "fst (take_nack now r pending) = Some (a, b)"
  obtains ys q zs where "filter (range_live now) pending = ys @ q # zs"
    and "range_due now (fst (retry_policy r)) (snd (retry_policy r)) q"
    and "a = nr_first q" and "b = send_last q"
    and "snd (take_nack now r pending) = ys @ sent_range now q #
      (if send_last q < nr_last q
       then [q\<lparr> nr_first := send_last q + 1, nr_last_sent_at := None, nr_attempts := 0 \<rparr>] else []) @ zs"
proof -
  let ?p = "filter (range_live now) pending"
  let ?due = "range_due now (fst (retry_policy r)) (snd (retry_policy r))"
  from assms obtain i where i: "find_position ?due ?p = Some i"
    by (auto simp: take_nack_def Let_def split: prod.splits option.splits)
  from i obtain ys q zs where s: "?p = ys @ q # zs" "length ys = i" "?due q" "remove_at i ?p = ys @ zs"
    by (rule find_position_split)
  have "?p ! i = q" unfolding s(1) s(2) [symmetric] by simp
  with assms s i show thesis
    by (intro that [OF s(1,3)])
      (auto simp: take_nack_def Let_def insert_at_def sent_range_def split: prod.splits)
qed

lemma send_last_bounds:
  assumes "nr_first q \<le> nr_last q" and "nr_last q \<le> u64_max"
  shows "nr_first q \<le> send_last q" and "send_last q \<le> nr_last q" and "send_last q < nr_first q + 64"
  using assms by (auto simp: send_last_def sat_add_u64_def NACK_PACKETS_PER_REQUEST_def)

lemma take_nack_keeps:
  assumes ok: "nacks_ok pending"
  shows "nacks_ok (snd (take_nack now r pending))
    \<and> covered (snd (take_nack now r pending)) = covered (filter (range_live now) pending)"
proof (cases "fst (take_nack now r pending)")
  case None
  then have "snd (take_nack now r pending) = filter (range_live now) pending"
    by (auto simp: take_nack_def Let_def split: prod.splits option.splits)
  then show ?thesis using nacks_ok_filter [OF ok] by simp
next
  case (Some ab)
  obtain a b where "ab = (a, b)" by force
  with Some have "fst (take_nack now r pending) = Some (a, b)" by simp
  then obtain ys q zs where s: "filter (range_live now) pending = ys @ q # zs"
    and due: "range_due now (fst (retry_policy r)) (snd (retry_policy r)) q"
    and n: "snd (take_nack now r pending) = ys @ sent_range now q #
      (if send_last q < nr_last q
       then [q\<lparr> nr_first := send_last q + 1, nr_last_sent_at := None, nr_attempts := 0 \<rparr>] else []) @ zs"
    by (rule take_nack_some)
  have f: "nacks_ok (ys @ q # zs)" using nacks_ok_filter [OF ok, of "range_live now"] s by simp
  then have q: "nr_first q \<le> nr_last q" "nr_last q \<le> u64_max" by auto
  have "nr_attempts q + 1 \<le> MAX_NACK_ATTEMPTS"
    using due retry_policy_attempts(2) [of r] by (simp add: range_due_def)
  then show ?thesis
    using f n s send_last_bounds [OF q] by (auto simp: sent_range_def range_set_def)
qed

definition take_answer_ok :: "instant \<Rightarrow> nat \<Rightarrow> nat \<Rightarrow> PendingNackRange list \<Rightarrow> PendingNackRange list \<Rightarrow> bool"
  where
  "take_answer_ok now a b pending pending' \<longleftrightarrow> a \<le> b \<and> b < a + 64
     \<and> (\<exists>q\<in>set pending. a = nr_first q \<and> b \<le> nr_last q \<and> now < nr_requested_at q + millis 52
          \<and> nr_attempts q < 3
          \<and> (\<forall>t. nr_last_sent_at q = Some t \<longrightarrow> t + NACK_RETRY_INTERVAL \<le> now)
          \<and> q\<lparr> nr_last := b, nr_last_sent_at := Some now, nr_attempts := nr_attempts q + 1 \<rparr> \<in> set pending')"

lemma take_nack_answer:
  assumes "nacks_ok pending" and "fst (take_nack now r pending) = Some (a, b)"
  shows "take_answer_ok now a b pending (snd (take_nack now r pending))"
proof -
  obtain ys q zs where s: "filter (range_live now) pending = ys @ q # zs"
    and due: "range_due now (fst (retry_policy r)) (snd (retry_policy r)) q"
    and q: "a = nr_first q" "b = send_last q" and n: "sent_range now q \<in> set (snd (take_nack now r pending))"
    by (rule take_nack_some [OF assms(2)]) auto
  have "q \<in> set (filter (range_live now) pending)" unfolding s by simp
  then have live: "q \<in> set pending" "range_live now q" by auto
  then have okq: "nr_first q \<le> nr_last q" "nr_last q \<le> u64_max" using assms(1) by (auto simp: nacks_ok_def)
  have att: "nr_attempts q < 3"
    using due retry_policy_attempts(2) [of r] by (simp add: range_due_def MAX_NACK_ATTEMPTS_def)
  have "NACK_RETRY_INTERVAL \<le> fst (retry_policy r)" by (auto simp: retry_policy_def split: option.splits)
  then have gap: "\<forall>t. nr_last_sent_at q = Some t \<longrightarrow> t + NACK_RETRY_INTERVAL \<le> now"
    using due by (auto simp: range_due_def NACK_RETRY_INTERVAL_def millis_def)
  have "now < nr_requested_at q + millis 52"
    using live(2) by (auto simp: range_live_def NACK_TRACKING_TIMEOUT_def millis_def)
  moreover have "sent_range now q
      = q\<lparr> nr_last := b, nr_last_sent_at := Some now, nr_attempts := nr_attempts q + 1 \<rparr>"
    using att q by (simp add: sent_range_def)
  ultimately show ?thesis
    using send_last_bounds [OF okq] live(1) att gap n q unfolding take_answer_ok_def by auto
qed

text \<open>What \<open>take_nack\<close> asks for. It answers nothing exactly when no live range is due; otherwise it answers a
  non-empty run of at most 64 packets from the front of a live range, one that was requested less than 52 ms
  ago, was asked for fewer than three times and not within the retry interval. The run is queued as sent with
  one attempt more, and no live packet is dropped from the queue.\<close>

theorem take_nack_correct:
  assumes "nacks_ok pending" and "take_nack now r pending = (answer, pending')"
  shows "covered pending' = covered (filter (range_live now) pending)
    \<and> (answer = None \<longleftrightarrow> (\<forall>q\<in>set pending. range_live now q
          \<longrightarrow> \<not> range_due now (fst (retry_policy r)) (snd (retry_policy r)) q))
    \<and> (\<forall>a b. answer = Some (a, b) \<longrightarrow> a \<le> b \<and> b < a + 64
          \<and> (\<exists>q\<in>set pending. a = nr_first q \<and> b \<le> nr_last q \<and> now < nr_requested_at q + millis 52
               \<and> nr_attempts q < 3
               \<and> (\<forall>t. nr_last_sent_at q = Some t \<longrightarrow> t + NACK_RETRY_INTERVAL \<le> now)
               \<and> q\<lparr> nr_last := b, nr_last_sent_at := Some now, nr_attempts := nr_attempts q + 1 \<rparr> \<in> set pending'))"
  using take_nack_keeps [OF assms(1), of now r] take_nack_none [of now r pending]
    take_nack_answer [OF assms(1), of now r] assms(2)
  by (simp add: take_answer_ok_def)

theorem take_nack_correct_witness:
  "\<exists>pending'. take_nack 5 None [fresh_range 10 100 1] = (Some (10, 73), pending') \<and> covered pending' = {10..100}"
proof -
  define p where "p = take_nack 5 None [fresh_range 10 100 1]"
  have ok: "nacks_ok [fresh_range 10 100 1]" by (simp add: fresh_range_def)
  have live: "range_live 5 (fresh_range 10 100 1)"
    by (simp add: range_live_def fresh_range_def NACK_TRACKING_TIMEOUT_def millis_def)
  have "fst p = Some (10, 73)"
    by (simp add: p_def take_nack_def retry_policy_def range_live_def fresh_range_def range_due_def Let_def
        NACK_TRACKING_TIMEOUT_def MAX_NACK_ATTEMPTS_def millis_def sent_range_def send_last_def
        sat_add_u64_def NACK_PACKETS_PER_REQUEST_def)
  moreover have "covered (snd p) = {10..100}"
    using take_nack_correct [OF ok, of 5 None "fst p" "snd p"] live
    by (simp add: p_def range_set_def fresh_range_def)
  ultimately show ?thesis unfolding p_def [symmetric] by (metis prod.collapse)
qed

subsection \<open>Runs\<close>

datatype nack_op =
    Request nat nat instant
  | Resolve nat
  | Take instant "duration option"
  | SendFailed nat nat
  | Clear

fun nack_op_ok :: "nack_op \<Rightarrow> bool" where
  "nack_op_ok (Request a b t) = (b \<le> u64_max)"
| "nack_op_ok _ = True"

fun nack_run_step :: "nack_op \<Rightarrow> PendingNackRange list \<Rightarrow> PendingNackRange list" where
  "nack_run_step (Request a b t) p = request_nack a b t p"
| "nack_run_step (Resolve i) p = snd (resolve_nack i p)"
| "nack_run_step (Take t r) p = snd (take_nack t r p)"
| "nack_run_step (SendFailed a b) p = mark_nack_send_failed a b p"
| "nack_run_step Clear p = clear_nacks p"

lemma mark_nack_send_failed_ok:
  "nacks_ok p \<Longrightarrow> nacks_ok (mark_nack_send_failed a b p) \<and> covered (mark_nack_send_failed a b p) = covered p"
  unfolding mark_nack_send_failed_def by (induction p) (auto simp: range_set_def)

lemma nack_run_step_ok: "nacks_ok p \<Longrightarrow> nack_op_ok x \<Longrightarrow> nacks_ok (nack_run_step x p)"
proof (cases x)
  case (Request a b t)
  assume "nacks_ok p" and "nack_op_ok x"
  with Request show ?thesis
    using request_nack_merge [of p a b t] request_nack_push [of p a b t]
    by (cases "a \<le> b") (auto simp: request_nack_def not_le)
qed (use resolve_nack_ok take_nack_keeps mark_nack_send_failed_ok in \<open>auto simp: clear_nacks_def\<close>)

text \<open>After any sequence of operations with 64-bit indices, every queued range is a non-empty interval that
  was attempted at most three times, and after a packet arrives no request for it remains.\<close>

theorem nack_queue_invariant:
  assumes "\<forall>x\<in>set ops. nack_op_ok x"
  shows "nacks_ok (fold nack_run_step ops []) \<and> i \<notin> covered (nack_run_step (Resolve i) (fold nack_run_step ops []))"
proof -
  have ok: "nacks_ok (fold nack_run_step ops [])"
    using assms by (induction ops rule: rev_induct) (auto simp: nack_run_step_ok)
  then show ?thesis using resolve_nack_ok(2) [OF ok, of i] by simp
qed

theorem nack_queue_invariant_witness:
  "nacks_ok (fold nack_run_step [Request 3 9 0, Take 1 None, Resolve 5, SendFailed 3 4] [])"
  using nack_queue_invariant [of "[Request 3 9 0, Take 1 None, Resolve 5, SendFailed 3 4]"] by simp

text \<open>The limit of sixteen ranges is tested with \<open>==\<close>. \<open>resolve_nack\<close> and \<open>take_nack\<close> split ranges, so the queue can
  pass the limit, and from then on every \<open>request_nack\<close> lengthens it.\<close>

definition separate_requests :: "nat \<Rightarrow> nack_op list" where
  "separate_requests n = map (\<lambda>i. Request (10 * i) (10 * i + 2) 0) [0..<n]"

text \<open>The limit of sixteen pending ranges does not hold once a range has been split: sixteen separate ranges,
  one of them split by a packet that arrives in its middle, and four more requests leave twenty-one ranges.\<close>

theorem nack_limit_bypassed:
  "length (fold nack_run_step (separate_requests 16) []) = MAX_PENDING_NACK_RANGES
   \<and> length (fold nack_run_step (separate_requests 16 @ [Resolve 71] @ map (\<lambda>i. Request (10 * i) (10 * i + 2) 0) [16..<20]) []) = 21"
  by (simp add: separate_requests_def request_nack_def range_touches_def sat_add_u64_def fresh_range_def
      MAX_PENDING_NACK_RANGES_def resolve_nack_def resolve_range_def upt_rec)

end
