(* ===== verification/Feedback.thy ===== *)
theory Feedback
  imports NvstTypes Nack FrameStage Bandwidth
begin

text \<open>
  \<open>NvstFeedbackState\<close> of \<open>nvst.rs\<close>, the state the video receiver and the bundle worker share: stream
  counters for RTCP and QoS reports, pending NACK ranges, frames to acknowledge, ping samples and the
  key frame request. Each method takes its locks one after another, so a method is one transition of the
  record. The haptics field is passed through by the source and is not part of the model.
\<close>

section \<open>Data\<close>

definition KEYFRAME_REQUEST_COOLDOWN :: duration where "KEYFRAME_REQUEST_COOLDOWN = millis 250"
definition MAX_PENDING_FRAME_ACKS :: nat where "MAX_PENDING_FRAME_ACKS = 512"
definition STREAM_PING_TIMEOUT :: duration where "STREAM_PING_TIMEOUT = secs 5"
definition RECENT_NETWORK_MAX_SAMPLE_GAP :: duration where "RECENT_NETWORK_MAX_SAMPLE_GAP = secs 3"
definition RECENT_NETWORK_SAMPLE_INTERVAL :: duration where "RECENT_NETWORK_SAMPLE_INTERVAL = secs 1"

record FramePacketTiming =
  pt_frame_number :: u32
  pt_first_at :: instant
  pt_assembled :: bool

record CompletedFrameFeedback =
  cf_frame_number :: u32
  cf_bytes :: u32
  cf_accepted_at :: instant
  cf_assembled_at :: "instant option"
  cf_packet_timing :: "FramePacketTiming option"

definition CompletedFrameFeedback_command ::
  "'f float_ops \<Rightarrow> instant \<Rightarrow> CompletedFrameFeedback \<Rightarrow> NvstControlCommand" where
  "CompletedFrameFeedback_command fl origin f =
     frame_ack (cf_frame_number f)
       (map_option (\<lambda>t. fl_bits fl (fl_millis fl (pt_first_at t - origin))) (cf_packet_timing f)) (cf_bytes f)"

record 'f ReceptionTiming =
  rt_first_arrival :: "instant option"
  rt_first_rtp_timestamp :: u32
  rt_last_rtp_timestamp :: u32
  rt_latest_rtp_timestamp :: "u32 option"
  rt_qos_packet_snapshot :: "QosPacketSnapshot option"
  rt_last_transit :: int
  rt_jitter :: 'f
  rt_bandwidth :: "'f BandwidthEstimator"

definition ReceptionTiming_default :: "'f float_ops \<Rightarrow> 'f ReceptionTiming" where
  "ReceptionTiming_default fl =
     \<lparr> rt_first_arrival = None, rt_first_rtp_timestamp = 0, rt_last_rtp_timestamp = 0,
       rt_latest_rtp_timestamp = None, rt_qos_packet_snapshot = None, rt_last_transit = 0,
       rt_jitter = fl_lit fl 0 1, rt_bandwidth = BandwidthEstimator_default fl \<rparr>"

record NetworkCounters =
  nc_ssrc :: u32
  nc_base :: u32
  nc_highest :: u32
  nc_received :: u32

datatype StreamSocket = Bundle | Video

record 'f NvstFeedbackState =
  nf_video_ssrc :: u32
  nf_highest_sequence :: u32
  nf_base_sequence :: u32
  nf_received_packets :: u32
  nf_report_prior :: "u32 \<times> u32"
  nf_recent_network_metrics :: "(instant \<times> NetworkCounters) option"
  nf_bundle_receive_bytes :: nat
  nf_video_receive_bytes :: nat
  nf_reception_timing :: "'f ReceptionTiming"
  nf_ice_ping :: "(instant \<times> duration) option"
  nf_video_ping :: "(instant \<times> duration) option"
  nf_bundle_ping :: "(instant \<times> duration) option"
  nf_keyframe_needed :: bool
  nf_pending_nacks :: "PendingNackRange list"
  nf_last_sender_frame :: u32
  nf_completed_frame_bytes :: u64
  nf_pending_frame_acks :: "CompletedFrameFeedback list"
  nf_frame_packet_timings :: "FramePacketTiming list"
  nf_frame_stage_timings :: FrameStageTimingsAccumulator

definition NvstFeedbackState_default :: "'f float_ops \<Rightarrow> 'f NvstFeedbackState" where
  "NvstFeedbackState_default fl =
     \<lparr> nf_video_ssrc = 0, nf_highest_sequence = 0, nf_base_sequence = 0xffffffff, nf_received_packets = 0,
       nf_report_prior = (0, 0), nf_recent_network_metrics = None, nf_bundle_receive_bytes = 0,
       nf_video_receive_bytes = 0, nf_reception_timing = ReceptionTiming_default fl, nf_ice_ping = None,
       nf_video_ping = None, nf_bundle_ping = None, nf_keyframe_needed = False, nf_pending_nacks = [],
       nf_last_sender_frame = 0, nf_completed_frame_bytes = 0, nf_pending_frame_acks = [],
       nf_frame_packet_timings = [], nf_frame_stage_timings = Accumulator_default \<rparr>"

section \<open>Sockets and pings\<close>

definition record_socket_receive ::
  "StreamSocket \<Rightarrow> bool \<Rightarrow> bool \<Rightarrow> nat \<Rightarrow> 'f NvstFeedbackState \<Rightarrow> 'f NvstFeedbackState" where
  "record_socket_receive socket peer_matches authenticated len s =
     (if \<not> peer_matches \<or> \<not> authenticated then s
      else case socket of
             Bundle \<Rightarrow> s\<lparr> nf_bundle_receive_bytes := sat_add_u64 (nf_bundle_receive_bytes s) len \<rparr>
           | Video \<Rightarrow> s\<lparr> nf_video_receive_bytes := sat_add_u64 (nf_video_receive_bytes s) len \<rparr>)"

definition socket_receive_bytes :: "'f NvstFeedbackState \<Rightarrow> nat" where
  "socket_receive_bytes s = sat_add_u64 (nf_bundle_receive_bytes s) (nf_video_receive_bytes s)"

text \<open>The two fields of str0m's \<open>CandidatePairStats\<close> that are read.\<close>

record CandidatePairStats =
  cp_responses_received :: nat
  cp_current_round_trip_time :: "duration option"

definition update_ice_ping ::
  "CandidatePairStats option \<Rightarrow> nat \<Rightarrow> instant \<Rightarrow> 'f NvstFeedbackState \<Rightarrow> nat \<times> 'f NvstFeedbackState" where
  "update_ice_ping pair previous_responses now s = (case pair of
     None \<Rightarrow> (0, s\<lparr> nf_ice_ping := None \<rparr>)
   | Some pair \<Rightarrow>
       if cp_responses_received pair \<noteq> previous_responses
       then (cp_responses_received pair,
             s\<lparr> nf_ice_ping := map_option (\<lambda>elapsed. (now, elapsed)) (cp_current_round_trip_time pair) \<rparr>)
       else (previous_responses, s))"

definition publish_ping :: "bool \<Rightarrow> instant \<Rightarrow> duration \<Rightarrow> 'f NvstFeedbackState \<Rightarrow> 'f NvstFeedbackState" where
  "publish_ping video now elapsed s =
     (if video then s\<lparr> nf_video_ping := Some (now, elapsed) \<rparr>
      else s\<lparr> nf_bundle_ping := Some (now, elapsed) \<rparr>)"

definition ping_sample :: "instant \<Rightarrow> (instant \<times> duration) option \<Rightarrow> duration option" where
  "ping_sample now sample = (case sample of
     None \<Rightarrow> None
   | Some (received, elapsed) \<Rightarrow> if now - received < STREAM_PING_TIMEOUT then Some elapsed else None)"

definition ping :: "instant \<Rightarrow> 'f NvstFeedbackState \<Rightarrow> duration option" where
  "ping now s =
     (case ping_sample now (nf_ice_ping s) of
        Some e \<Rightarrow> Some e
      | None \<Rightarrow> (case ping_sample now (nf_video_ping s) of
                   Some e \<Rightarrow> Some e
                 | None \<Rightarrow> ping_sample now (nf_bundle_ping s)))"

definition ping_ms :: "'f float_ops \<Rightarrow> instant \<Rightarrow> 'f NvstFeedbackState \<Rightarrow> 'f option" where
  "ping_ms fl now s = map_option (fl_millis fl) (ping now s)"

section \<open>Reception\<close>

record VideoPacketNote =
  vn_frame_number :: u32
  vn_sequence :: u32
  vn_bytes :: nat
  vn_started :: bool
  vn_ended :: bool
  vn_parity :: bool

definition note_video ::
  "'f float_ops \<Rightarrow> u32 \<Rightarrow> instant \<Rightarrow> VideoPacketNote option \<Rightarrow> 'f BandwidthEstimator \<Rightarrow> 'f BandwidthEstimator"
  where
  "note_video fl rtp_timestamp now video e = (case video of
     None \<Rightarrow> e
   | Some v \<Rightarrow>
       if vn_parity v then observe_parity (vn_frame_number v) (vn_sequence v) e
       else observe fl \<lparr> pb_frame_number = vn_frame_number v, pb_sequence = vn_sequence v,
              pb_timestamp = rtp_timestamp, pb_bytes = vn_bytes v, pb_started = vn_started v,
              pb_ended = vn_ended v, pb_received_at = now \<rparr> e)"

definition advance_snapshot :: "u32 \<Rightarrow> u32 \<Rightarrow> QosPacketSnapshot option \<Rightarrow> QosPacketSnapshot" where
  "advance_snapshot ssrc highest_sequence prior =
     (case prior of
        Some previous \<Rightarrow>
          if qs_ssrc previous = ssrc \<and> qs_received previous < 0xffffffff
          then previous\<lparr> qs_highest := max (qs_highest previous) highest_sequence,
                         qs_received := qs_received previous + 1 \<rparr>
          else \<lparr> qs_ssrc = ssrc, qs_base = highest_sequence, qs_highest = highest_sequence, qs_received = 1 \<rparr>
      | None \<Rightarrow> \<lparr> qs_ssrc = ssrc, qs_base = highest_sequence, qs_highest = highest_sequence, qs_received = 1 \<rparr>)"

definition update_jitter ::
  "'f float_ops \<Rightarrow> u32 \<Rightarrow> instant \<Rightarrow> 'f ReceptionTiming \<Rightarrow> 'f ReceptionTiming" where
  "update_jitter fl rtp_timestamp now t = (case rt_first_arrival t of
     None \<Rightarrow> t\<lparr> rt_first_arrival := Some now, rt_first_rtp_timestamp := rtp_timestamp,
                 rt_last_rtp_timestamp := rtp_timestamp \<rparr>
   | Some first_arrival \<Rightarrow>
       if rt_last_rtp_timestamp t = rtp_timestamp then t
       else
         let arrival_ticks = int (fl_to fl (2 ^ 63 - 1)
               (fl_mul_add fl (fl_secs fl (now - first_arrival)) (fl_lit fl 90000 1) (fl_lit fl 0 1)));
             rtp_ticks = uint (rtp_timestamp - rt_first_rtp_timestamp t);
             transit = arrival_ticks - rtp_ticks;
             delta = fl_of fl (nat \<bar>transit - rt_last_transit t\<bar>)
         in t\<lparr> rt_last_rtp_timestamp := rtp_timestamp, rt_last_transit := transit,
               rt_jitter := fl_add fl (rt_jitter t)
                 (fl_div fl (fl_sub fl delta (rt_jitter t)) (fl_lit fl 16 1)) \<rparr>)"

definition publish_timing ::
  "'f float_ops \<Rightarrow> u32 \<Rightarrow> u32 \<Rightarrow> u32 \<Rightarrow> instant \<Rightarrow> VideoPacketNote option \<Rightarrow> 'f ReceptionTiming \<Rightarrow> 'f ReceptionTiming"
  where
  "publish_timing fl ssrc highest_sequence rtp_timestamp now video t =
     (let t = (case rt_qos_packet_snapshot t of
                 Some previous \<Rightarrow>
                   if qs_ssrc previous \<noteq> ssrc
                   then t\<lparr> rt_bandwidth := BandwidthEstimator_default fl, rt_first_arrival := None,
                           rt_latest_rtp_timestamp := None, rt_jitter := fl_lit fl 0 1, rt_last_transit := 0 \<rparr>
                   else t
               | None \<Rightarrow> t);
          t = t\<lparr> rt_bandwidth := note_video fl rtp_timestamp now video (rt_bandwidth t) \<rparr>;
          t = t\<lparr> rt_qos_packet_snapshot :=
                   Some (advance_snapshot ssrc highest_sequence (rt_qos_packet_snapshot t)) \<rparr>;
          t = (if (case rt_latest_rtp_timestamp t of
                     None \<Rightarrow> True | Some latest \<Rightarrow> sint (rtp_timestamp - latest) > 0)
               then t\<lparr> rt_latest_rtp_timestamp := Some rtp_timestamp \<rparr> else t)
      in update_jitter fl rtp_timestamp now t)"

definition publish_stream_packet ::
  "'f float_ops \<Rightarrow> u32 \<Rightarrow> u32 \<Rightarrow> u32 \<Rightarrow> instant \<Rightarrow> VideoPacketNote option \<Rightarrow> 'f NvstFeedbackState \<Rightarrow> 'f NvstFeedbackState"
  where
  "publish_stream_packet fl ssrc highest_sequence rtp_timestamp now video s =
     s\<lparr> nf_video_ssrc := ssrc,
        nf_base_sequence := (if nf_base_sequence s = 0xffffffff then highest_sequence else nf_base_sequence s),
        nf_highest_sequence := max (nf_highest_sequence s) highest_sequence,
        nf_received_packets := nf_received_packets s + 1,
        nf_reception_timing :=
          publish_timing fl ssrc highest_sequence rtp_timestamp now video (nf_reception_timing s) \<rparr>"

section \<open>Key frames and NACK\<close>

definition request_keyframe :: "'f NvstFeedbackState \<Rightarrow> 'f NvstFeedbackState" where
  "request_keyframe s = s\<lparr> nf_keyframe_needed := True \<rparr>"

definition keyframe_request_pending :: "'f NvstFeedbackState \<Rightarrow> bool" where
  "keyframe_request_pending s = nf_keyframe_needed s"

definition stream_snapshot :: "'f NvstFeedbackState \<Rightarrow> (u32 \<times> u32) option" where
  "stream_snapshot s =
     (if nf_video_ssrc s \<noteq> 0 then Some (nf_video_ssrc s, nf_highest_sequence s) else None)"

definition keyframe_request_routes ::
  "instant \<Rightarrow> instant \<Rightarrow> bool \<Rightarrow> bool \<Rightarrow> 'f NvstFeedbackState \<Rightarrow> bool \<times> bool" where
  "keyframe_request_routes now last_attempt rtcp_open control_open s =
     (if \<not> keyframe_request_pending s \<or> now - last_attempt < KEYFRAME_REQUEST_COOLDOWN then (False, False)
      else (rtcp_open \<and> stream_snapshot s \<noteq> None, control_open))"

definition feedback_request_nack :: "nat \<Rightarrow> nat \<Rightarrow> instant \<Rightarrow> 'f NvstFeedbackState \<Rightarrow> 'f NvstFeedbackState" where
  "feedback_request_nack a b now s = s\<lparr> nf_pending_nacks := request_nack a b now (nf_pending_nacks s) \<rparr>"

definition feedback_resolve_nack :: "nat \<Rightarrow> 'f NvstFeedbackState \<Rightarrow> bool \<times> 'f NvstFeedbackState" where
  "feedback_resolve_nack i s = (case resolve_nack i (nf_pending_nacks s) of
     (resolved, pending) \<Rightarrow> (resolved, s\<lparr> nf_pending_nacks := pending \<rparr>))"

definition feedback_take_nack ::
  "instant \<Rightarrow> duration option \<Rightarrow> 'f NvstFeedbackState \<Rightarrow> (nat \<times> nat) option \<times> 'f NvstFeedbackState" where
  "feedback_take_nack now rtt s = (case take_nack now rtt (nf_pending_nacks s) of
     (answer, pending) \<Rightarrow> (answer, s\<lparr> nf_pending_nacks := pending \<rparr>))"

definition feedback_nack_failed :: "nat \<Rightarrow> nat \<Rightarrow> 'f NvstFeedbackState \<Rightarrow> 'f NvstFeedbackState" where
  "feedback_nack_failed a b s = s\<lparr> nf_pending_nacks := mark_nack_send_failed a b (nf_pending_nacks s) \<rparr>"

definition feedback_clear_nacks :: "'f NvstFeedbackState \<Rightarrow> 'f NvstFeedbackState" where
  "feedback_clear_nacks s = s\<lparr> nf_pending_nacks := clear_nacks (nf_pending_nacks s) \<rparr>"

section \<open>Frames\<close>

definition publish_completed_frame :: "EncodedVideoAccessUnit \<Rightarrow> 'f NvstFeedbackState \<Rightarrow> 'f NvstFeedbackState"
  where
  "publish_completed_frame frame s =
     s\<lparr> nf_last_sender_frame := au_frame_index frame,
        nf_completed_frame_bytes := nf_completed_frame_bytes s + of_nat (length (au_bytes frame)),
        nf_keyframe_needed := (nf_keyframe_needed s \<and> \<not> au_keyframe frame) \<rparr>"

definition publish_assembled_frame :: "u32 \<Rightarrow> instant \<Rightarrow> 'f NvstFeedbackState \<Rightarrow> 'f NvstFeedbackState" where
  "publish_assembled_frame frame_number assembled_at s =
     s\<lparr> nf_frame_stage_timings := record_assembly frame_number assembled_at (nf_frame_stage_timings s) \<rparr>"

text \<open>\<open>iter_mut().rev().find(p)\<close> with an update of the entry found.\<close>

definition update_newest :: "('a \<Rightarrow> bool) \<Rightarrow> ('a \<Rightarrow> 'a) \<Rightarrow> 'a list \<Rightarrow> 'a list" where
  "update_newest p f xs = rev (update_first p f (rev xs))"

definition record_packet_timing :: "u32 \<Rightarrow> instant \<Rightarrow> FramePacketTiming list \<Rightarrow> FramePacketTiming list" where
  "record_packet_timing frame_number received_at timings =
     (if \<exists>t\<in>set timings. pt_frame_number t = frame_number
      then update_newest (\<lambda>t. pt_frame_number t = frame_number)
             (\<lambda>t. if pt_assembled t then t else t\<lparr> pt_first_at := min (pt_first_at t) received_at \<rparr>) timings
      else (if length timings = MAX_PENDING_FRAME_ACKS then tl timings else timings)
             @ [\<lparr> pt_frame_number = frame_number, pt_first_at = received_at, pt_assembled = False \<rparr>])"

definition record_frame_packet :: "u32 \<Rightarrow> instant \<Rightarrow> 'f NvstFeedbackState \<Rightarrow> 'f NvstFeedbackState" where
  "record_frame_packet frame_number received_at s =
     s\<lparr> nf_frame_packet_timings := record_packet_timing frame_number received_at (nf_frame_packet_timings s) \<rparr>"

definition complete_frame_packets :: "u32 \<Rightarrow> 'f NvstFeedbackState \<Rightarrow> 'f NvstFeedbackState" where
  "complete_frame_packets frame_number s =
     s\<lparr> nf_frame_packet_timings := update_newest (\<lambda>t. pt_frame_number t = frame_number)
          (\<lambda>t. t\<lparr> pt_assembled := True \<rparr>) (nf_frame_packet_timings s) \<rparr>"

definition retire_undelivered_frame :: "u32 \<Rightarrow> 'f NvstFeedbackState \<Rightarrow> 'f NvstFeedbackState" where
  "retire_undelivered_frame frame_number s =
     s\<lparr> nf_frame_packet_timings :=
          filter (\<lambda>t. pt_frame_number t \<noteq> frame_number) (nf_frame_packet_timings s),
        nf_frame_stage_timings := retire_undelivered frame_number (nf_frame_stage_timings s) \<rparr>"

definition publish_accepted_frame :: "u32 \<Rightarrow> u32 \<Rightarrow> instant \<Rightarrow> 'f NvstFeedbackState \<Rightarrow> 'f NvstFeedbackState"
  where
  "publish_accepted_frame frame_number frame_bytes accepted_at s =
     (let timings = nf_frame_packet_timings s;
          (packet_timing, timings) =
            (case find_position (\<lambda>t. pt_frame_number t = frame_number \<and> pt_assembled t) timings of
               None \<Rightarrow> (None, timings)
             | Some i \<Rightarrow> (Some (timings ! i), remove_at i timings));
          (assembled_at, stage) = record_admission frame_number accepted_at (nf_frame_stage_timings s);
          pending = nf_pending_frame_acks s
      in s\<lparr> nf_frame_packet_timings := timings,
            nf_frame_stage_timings := stage,
            nf_pending_frame_acks :=
              (if length pending = MAX_PENDING_FRAME_ACKS then tl pending else pending)
                @ [\<lparr> cf_frame_number = frame_number, cf_bytes = frame_bytes, cf_accepted_at = accepted_at,
                     cf_assembled_at = assembled_at, cf_packet_timing = packet_timing \<rparr>] \<rparr>)"

definition last_assembled_frame_at :: "'f NvstFeedbackState \<Rightarrow> instant option" where
  "last_assembled_frame_at s = fa_last_assembled_at (nf_frame_stage_timings s)"

definition reset_frame_stage_epoch :: "'f float_ops \<Rightarrow> instant \<Rightarrow> 'f NvstFeedbackState \<Rightarrow> 'f NvstFeedbackState"
  where
  "reset_frame_stage_epoch fl now s =
     s\<lparr> nf_frame_stage_timings := reset_epoch now (nf_frame_stage_timings s),
        nf_reception_timing :=
          (nf_reception_timing s)\<lparr> rt_bandwidth := BandwidthEstimator_default fl \<rparr> \<rparr>"

definition take_completed_frame ::
  "'f NvstFeedbackState \<Rightarrow> CompletedFrameFeedback option \<times> 'f NvstFeedbackState" where
  "take_completed_frame s = (case nf_pending_frame_acks s of
     [] \<Rightarrow> (None, s)
   | f # rest \<Rightarrow> (Some f, s\<lparr> nf_pending_frame_acks := rest \<rparr>))"

definition completed_frame_snapshot :: "'f NvstFeedbackState \<Rightarrow> u32 \<times> u32" where
  "completed_frame_snapshot s = (nf_last_sender_frame s, ucast (nf_completed_frame_bytes s))"

section \<open>Reports\<close>

definition snapshots_comparable :: "QosPacketSnapshot \<Rightarrow> QosPacketSnapshot \<Rightarrow> bool" where
  "snapshots_comparable prior current \<longleftrightarrow>
     qs_ssrc prior = qs_ssrc current \<and> qs_base prior = qs_base current
     \<and> qs_highest current \<ge> qs_highest prior \<and> qs_received current \<ge> qs_received prior"

definition interval_loss :: "QosPacketSnapshot \<Rightarrow> QosPacketSnapshot \<Rightarrow> u16" where
  "interval_loss prior current =
     (let expected = unat (qs_highest current - qs_highest prior);
          received = unat (qs_received current - qs_received prior)
      in if expected = 0 then 0 else of_nat (((expected - received) * 10000) div expected))"

definition qos_loss :: "QosPacketSnapshot option \<Rightarrow> QosPacketSnapshot option \<Rightarrow> u16" where
  "qos_loss previous current = (case (previous, current) of
     (Some p, Some c) \<Rightarrow> if snapshots_comparable p c then interval_loss p c else 0
   | _ \<Rightarrow> 0)"

definition qos_report_at ::
  "'f float_ops \<Rightarrow> QosReport \<Rightarrow> duration \<Rightarrow> instant \<Rightarrow> 'f NvstFeedbackState \<Rightarrow> QosReport option" where
  "qos_report_at fl previous elapsed now s =
     (let packet_snapshot = rt_qos_packet_snapshot (nf_reception_timing s)
      in case report fl now (rt_bandwidth (nf_reception_timing s)) of
           None \<Rightarrow> None
         | Some bandwidth \<Rightarrow> Some
             \<lparr> qr_sequence = qr_sequence previous + 1,
               qr_sender_frame_number = fst (completed_frame_snapshot s),
               qr_bytes_received = snd (completed_frame_snapshot s),
               qr_loss_per_ten_thousand = qos_loss (qr_packet_snapshot previous) packet_snapshot,
               qr_client_time_90khz = of_nat (elapsed div 1000000 * 90),
               qr_packet_snapshot = packet_snapshot,
               qr_bandwidth = bandwidth \<rparr>)"

definition fl_clamp :: "'f float_ops \<Rightarrow> 'f \<Rightarrow> 'f \<Rightarrow> 'f \<Rightarrow> 'f" where
  "fl_clamp fl lo hi x = (if fl_less fl x lo then lo else if fl_less fl hi x then hi else x)"

definition jitter_ticks :: "'f float_ops \<Rightarrow> 'f NvstFeedbackState \<Rightarrow> u32" where
  "jitter_ticks fl s = of_nat (fl_to fl u32_max
     (fl_clamp fl (fl_lit fl 0 1) (fl_of fl u32_max) (rt_jitter (nf_reception_timing s))))"

definition expected_packets :: "'f NvstFeedbackState \<Rightarrow> u32" where
  "expected_packets s = nf_highest_sequence s - nf_base_sequence s + 1"

definition clamp_int :: "int \<Rightarrow> int \<Rightarrow> int \<Rightarrow> int" where
  "clamp_int lo hi x = (if x < lo then lo else if hi < x then hi else x)"

definition cumulative_lost :: "'f NvstFeedbackState \<Rightarrow> int" where
  "cumulative_lost s =
     clamp_int (- 0x800000) 0x7fffff (uint (expected_packets s) - uint (nf_received_packets s))"

definition fraction_lost :: "u32 \<Rightarrow> u32 \<Rightarrow> u8" where
  "fraction_lost expected_interval received_interval =
     (let lost_interval = unat expected_interval - unat received_interval
      in if expected_interval = 0 then 0
         else of_nat (min (lost_interval * 256 div unat expected_interval) 255))"

definition report_snapshot ::
  "'f float_ops \<Rightarrow> bool \<Rightarrow> 'f NvstFeedbackState \<Rightarrow> RtcpReportBlock option \<times> 'f NvstFeedbackState" where
  "report_snapshot fl update_interval s =
     (if nf_video_ssrc s = 0 \<or> nf_base_sequence s = 0xffffffff then (None, s)
      else
        let expected = expected_packets s;
            received = nf_received_packets s;
            (fraction, s') =
              (if update_interval
               then (fraction_lost (expected - fst (nf_report_prior s)) (received - snd (nf_report_prior s)),
                     s\<lparr> nf_report_prior := (expected, received) \<rparr>)
               else (0, s))
        in (Some \<lparr> rp_media_ssrc = nf_video_ssrc s, rp_fraction_lost = fraction,
                   rp_cumulative_lost = word_of_int (cumulative_lost s),
                   rp_highest_sequence = nf_highest_sequence s, rp_jitter = jitter_ticks fl s' \<rparr>, s'))"

definition network_metrics :: "'f float_ops \<Rightarrow> 'f NvstFeedbackState \<Rightarrow> ('f \<times> 'f) option" where
  "network_metrics fl s = (case fst (report_snapshot fl False s) of
     None \<Rightarrow> None
   | Some block \<Rightarrow>
       let expected = sat_add_u32 (unat (rp_highest_sequence block) - unat (nf_base_sequence s)) 1;
           loss = fl_div fl (fl_mul fl (fl_of fl (nat (sint (rp_cumulative_lost block)))) (fl_lit fl 100 1))
                    (fl_of fl (max expected 1))
       in Some (fl_div fl (fl_of fl (unat (rp_jitter block))) (fl_lit fl 90 1),
                fl_clamp fl (fl_lit fl 0 1) (fl_lit fl 100 1) loss))"

text \<open>\<open>RecentNetworkMetrics::sample\<close>: the loss percentage since the previous sample, and the new previous sample.\<close>

definition recent_sample ::
  "'f float_ops \<Rightarrow> instant \<Rightarrow> NetworkCounters \<Rightarrow> (instant \<times> NetworkCounters) option
   \<Rightarrow> 'f option \<times> (instant \<times> NetworkCounters) option" where
  "recent_sample fl now c previous =
     (if nc_ssrc c = 0 \<or> nc_base c = 0xffffffff \<or> nc_highest c < nc_base c then (None, None)
      else case previous of
        None \<Rightarrow> (None, Some (now, c))
      | Some (sampled_at, p) \<Rightarrow>
          if now < sampled_at then (None, previous)
          else if nc_ssrc c \<noteq> nc_ssrc p \<or> nc_base c \<noteq> nc_base p \<or> nc_highest c < nc_highest p
                  \<or> nc_received c < nc_received p then (None, Some (now, c))
          else if nc_received c = nc_received p then (None, previous)
          else if now - sampled_at > RECENT_NETWORK_MAX_SAMPLE_GAP then (None, Some (now, c))
          else if now - sampled_at < RECENT_NETWORK_SAMPLE_INTERVAL then (None, previous)
          else
            let expected = unat (nc_highest c - nc_highest p);
                received = unat (nc_received c - nc_received p)
            in (if expected > 0
                then Some (fl_div fl (fl_mul fl (fl_of fl (expected - received)) (fl_lit fl 100 1)) (fl_of fl expected))
                else None, Some (now, c)))"

definition recent_network_metrics ::
  "'f float_ops \<Rightarrow> instant \<Rightarrow> 'f NvstFeedbackState \<Rightarrow> ('f \<times> 'f) option \<times> 'f NvstFeedbackState" where
  "recent_network_metrics fl now s =
     (let counters = \<lparr> nc_ssrc = nf_video_ssrc s, nc_base = nf_base_sequence s,
                       nc_highest = nf_highest_sequence s, nc_received = nf_received_packets s \<rparr>;
          (loss, previous) = recent_sample fl now counters (nf_recent_network_metrics s);
          s = s\<lparr> nf_recent_network_metrics := previous \<rparr>
      in (map_option (\<lambda>loss. (fl_div fl (fl_of fl (unat (jitter_ticks fl s))) (fl_lit fl 90 1), loss)) loss, s))"

section \<open>Runs of the feedback state\<close>

datatype feedback_op =
    StreamPacket u32 u32 u32 instant "VideoPacketNote option"
  | RequestKeyframe
  | RequestNack nat nat instant
  | ResolveNack nat
  | TakeNack instant "duration option"
  | NackFailed nat nat
  | ClearNacks
  | CompletedFrame EncodedVideoAccessUnit
  | AssembledFrame u32 instant
  | FramePacket u32 instant
  | CompletePackets u32
  | RetireFrame u32
  | AcceptedFrame u32 u32 instant
  | StageEpoch instant
  | TakeFrame
  | Report bool
  | RecentMetrics instant
  | Ping bool instant duration
  | IcePing "CandidatePairStats option" nat instant
  | SocketReceive StreamSocket bool bool nat

fun feedback_step :: "'f float_ops \<Rightarrow> feedback_op \<Rightarrow> 'f NvstFeedbackState \<Rightarrow> 'f NvstFeedbackState" where
  "feedback_step fl (StreamPacket ssrc seq ts now video) s = publish_stream_packet fl ssrc seq ts now video s"
| "feedback_step fl RequestKeyframe s = request_keyframe s"
| "feedback_step fl (RequestNack a b t) s = feedback_request_nack a b t s"
| "feedback_step fl (ResolveNack i) s = snd (feedback_resolve_nack i s)"
| "feedback_step fl (TakeNack t r) s = snd (feedback_take_nack t r s)"
| "feedback_step fl (NackFailed a b) s = feedback_nack_failed a b s"
| "feedback_step fl ClearNacks s = feedback_clear_nacks s"
| "feedback_step fl (CompletedFrame f) s = publish_completed_frame f s"
| "feedback_step fl (AssembledFrame n t) s = publish_assembled_frame n t s"
| "feedback_step fl (FramePacket n t) s = record_frame_packet n t s"
| "feedback_step fl (CompletePackets n) s = complete_frame_packets n s"
| "feedback_step fl (RetireFrame n) s = retire_undelivered_frame n s"
| "feedback_step fl (AcceptedFrame n b t) s = publish_accepted_frame n b t s"
| "feedback_step fl (StageEpoch t) s = reset_frame_stage_epoch fl t s"
| "feedback_step fl TakeFrame s = snd (take_completed_frame s)"
| "feedback_step fl (Report u) s = snd (report_snapshot fl u s)"
| "feedback_step fl (RecentMetrics t) s = snd (recent_network_metrics fl t s)"
| "feedback_step fl (Ping v t d) s = publish_ping v t d s"
| "feedback_step fl (IcePing p n t) s = snd (update_ice_ping p n t s)"
| "feedback_step fl (SocketReceive k p a n) s = record_socket_receive k p a n s"

fun feedback_op_ok :: "feedback_op \<Rightarrow> bool" where
  "feedback_op_ok (RequestNack a b t) = (b \<le> u64_max)"
| "feedback_op_ok _ = True"

section \<open>Invariant\<close>

definition feedback_ok :: "'f NvstFeedbackState \<Rightarrow> bool" where
  "feedback_ok s \<longleftrightarrow> length (nf_pending_frame_acks s) \<le> MAX_PENDING_FRAME_ACKS
     \<and> length (nf_frame_packet_timings s) \<le> MAX_PENDING_FRAME_ACKS
     \<and> distinct (map pt_frame_number (nf_frame_packet_timings s))
     \<and> nacks_ok (nf_pending_nacks s)
     \<and> stage_ok (nf_frame_stage_timings s)
     \<and> bandwidth_ok (rt_bandwidth (nf_reception_timing s))"

definition timings_ok :: "FramePacketTiming list \<Rightarrow> bool" where
  "timings_ok ts \<longleftrightarrow> length ts \<le> MAX_PENDING_FRAME_ACKS \<and> distinct (map pt_frame_number ts)"

lemma map_update_first: "(\<And>x. g (f x) = g x) \<Longrightarrow> map g (update_first p f xs) = map g xs"
  by (induction xs) auto

lemma map_update_newest: "(\<And>x. g (f x) = g x) \<Longrightarrow> map g (update_newest p f xs) = map g xs"
  unfolding update_newest_def by (simp add: rev_map [symmetric] map_update_first)

lemma length_update_newest [simp]: "length (update_newest p f xs) = length xs"
  by (simp add: update_newest_def)

lemma record_packet_timing_ok: "timings_ok ts \<Longrightarrow> timings_ok (record_packet_timing n t ts)"
proof (cases "\<exists>x\<in>set ts. pt_frame_number x = n")
  case True
  assume "timings_ok ts"
  with True show ?thesis by (simp add: record_packet_timing_def timings_ok_def map_update_newest)
next
  case False
  assume "timings_ok ts"
  moreover have "n \<notin> pt_frame_number ` set (tl ts)" using False by (cases ts) auto
  ultimately show ?thesis using False
    by (auto simp: record_packet_timing_def timings_ok_def map_tl distinct_tl MAX_PENDING_FRAME_ACKS_def)
qed

lemma remove_timing_ok:
  assumes "find_position p ts = Some i" and "timings_ok ts"
  shows "timings_ok (remove_at i ts)"
proof -
  obtain ys x zs where "ts = ys @ x # zs" "remove_at i ts = ys @ zs"
    using assms(1) by (rule find_position_split)
  then show ?thesis using assms(2) by (auto simp: timings_ok_def)
qed

lemma filter_timing_ok: "timings_ok ts \<Longrightarrow> timings_ok (filter p ts)"
  by (auto simp: timings_ok_def distinct_map_filter intro: order_trans [OF length_filter_le])

lemma feedback_ok_alt:
  "feedback_ok s \<longleftrightarrow> length (nf_pending_frame_acks s) \<le> MAX_PENDING_FRAME_ACKS
     \<and> timings_ok (nf_frame_packet_timings s) \<and> nacks_ok (nf_pending_nacks s)
     \<and> stage_ok (nf_frame_stage_timings s) \<and> bandwidth_ok (rt_bandwidth (nf_reception_timing s))"
  by (auto simp: feedback_ok_def timings_ok_def)

lemma publish_timing_ok:
  assumes "bandwidth_ok (rt_bandwidth t)"
  shows "bandwidth_ok (rt_bandwidth (publish_timing fl ssrc seq ts now video t))"
proof -
  have noted: "bandwidth_ok (note_video fl ts now video e)" if "bandwidth_ok e" for e
  proof (cases video)
    case (Some v)
    then show ?thesis
      using bandwidth_step_ok [OF that, of fl "Parity (vn_frame_number v) (vn_sequence v)"]
        bandwidth_step_ok [OF that, of fl "Packet \<lparr> pb_frame_number = vn_frame_number v,
          pb_sequence = vn_sequence v, pb_timestamp = ts, pb_bytes = vn_bytes v, pb_started = vn_started v,
          pb_ended = vn_ended v, pb_received_at = now \<rparr>"]
      by (simp add: note_video_def)
  qed (simp add: note_video_def that)
  have keep: "rt_bandwidth (update_jitter fl ts now t') = rt_bandwidth t'" for t'
    by (simp add: update_jitter_def Let_def split: option.splits)
  show ?thesis
    using noted [OF assms] noted [OF bandwidth_ok_default [of fl]]
    by (simp add: publish_timing_def Let_def keep split: option.splits)
qed

lemma accepted_frame_ok:
  assumes "feedback_ok s"
  shows "feedback_ok (publish_accepted_frame n b t s)"
proof -
  have "stage_ok (snd (record_admission n t (nf_frame_stage_timings s)))"
    using stage_step_ok [of "nf_frame_stage_timings s" "Admission n t"] assms by (simp add: feedback_ok_def)
  moreover have "timings_ok (nf_frame_packet_timings (publish_accepted_frame n b t s))"
    using assms by (auto simp: publish_accepted_frame_def feedback_ok_alt Let_def remove_timing_ok
        split: option.splits prod.splits)
  ultimately show ?thesis using assms
    by (auto simp: publish_accepted_frame_def feedback_ok_alt Let_def MAX_PENDING_FRAME_ACKS_def
        split: option.splits prod.splits)
qed

lemmas feedback_stage_ok =
  stage_step_ok [of "nf_frame_stage_timings s" "Assembly n t" for s n t, simplified]
  stage_step_ok [of "nf_frame_stage_timings s" "Retire n" for s n, simplified]
  stage_step_ok [of "nf_frame_stage_timings s" "Epoch t" for s t, simplified]

lemmas feedback_step_defs =
  publish_stream_packet_def request_keyframe_def feedback_request_nack_def feedback_resolve_nack_def
  feedback_take_nack_def feedback_nack_failed_def feedback_clear_nacks_def publish_completed_frame_def
  publish_assembled_frame_def record_frame_packet_def complete_frame_packets_def
  retire_undelivered_frame_def reset_frame_stage_epoch_def take_completed_frame_def report_snapshot_def
  recent_network_metrics_def publish_ping_def update_ice_ping_def record_socket_receive_def

lemma feedback_nacks:
  assumes "nacks_ok p"
  shows "b \<le> u64_max \<Longrightarrow> nacks_ok (request_nack a b t p)" and "nacks_ok (snd (resolve_nack i p))"
    and "nacks_ok (snd (take_nack t r p))" and "nacks_ok (mark_nack_send_failed a b p)"
    and "nacks_ok (clear_nacks p)"
  using nack_run_step_ok [OF assms, of "Request a b t"] nack_run_step_ok [OF assms, of "Resolve i"]
    nack_run_step_ok [OF assms, of "Take t r"] nack_run_step_ok [OF assms, of "SendFailed a b"]
    nack_run_step_ok [OF assms, of Clear]
  by simp_all

lemma feedback_step_ok: "feedback_ok s \<Longrightarrow> feedback_op_ok x \<Longrightarrow> feedback_ok (feedback_step fl x s)"
proof (cases x)
  case (AcceptedFrame n b t)
  assume "feedback_ok s"
  then show ?thesis using AcceptedFrame by (simp add: accepted_frame_ok)
next
  case (FramePacket n t)
  assume "feedback_ok s"
  then show ?thesis using FramePacket
    by (simp add: record_frame_packet_def feedback_ok_alt record_packet_timing_ok)
next
  case (CompletePackets n)
  assume "feedback_ok s"
  then show ?thesis using CompletePackets
    by (simp add: complete_frame_packets_def feedback_ok_def map_update_newest)
next
  case (RetireFrame n)
  assume "feedback_ok s"
  then show ?thesis using RetireFrame
    by (simp add: retire_undelivered_frame_def feedback_ok_alt filter_timing_ok feedback_stage_ok)
next
  case (ResolveNack i)
  assume "feedback_ok s"
  then show ?thesis using ResolveNack
    by (simp add: feedback_resolve_nack_def feedback_ok_def split_beta feedback_nacks)
next
  case (TakeNack t r)
  assume "feedback_ok s"
  then show ?thesis using TakeNack
    by (simp add: feedback_take_nack_def feedback_ok_def split_beta feedback_nacks)
qed (auto simp: feedback_ok_def feedback_step_defs publish_timing_ok feedback_nacks feedback_stage_ok
    bandwidth_ok_default Let_def split: option.splits prod.splits list.splits StreamSocket.splits)

lemma feedback_run_ok:
  assumes "feedback_ok s" and "\<forall>x\<in>set ops. feedback_op_ok x"
  shows "feedback_ok (fold (feedback_step fl) ops s)"
  using assms by (induction ops arbitrary: s) (auto simp: feedback_step_ok)

lemma feedback_ok_default: "feedback_ok (NvstFeedbackState_default fl)"
  by (simp add: feedback_ok_def NvstFeedbackState_default_def ReceptionTiming_default_def
      bandwidth_ok_default stage_ok_default)

text \<open>Whatever the receiver and the bundle worker do with the shared state, at most 512 frames wait for their
  acknowledgement, at most 512 frames have packet timings and none twice, the NACK ranges stay well formed,
  and building a QoS report never panics.\<close>

theorem feedback_invariant:
  assumes "\<forall>x\<in>set ops. feedback_op_ok x"
    and "s = fold (feedback_step fl) ops (NvstFeedbackState_default fl)"
  shows "length (nf_pending_frame_acks s) \<le> 512 \<and> length (nf_frame_packet_timings s) \<le> 512
    \<and> distinct (map pt_frame_number (nf_frame_packet_timings s)) \<and> nacks_ok (nf_pending_nacks s)
    \<and> qos_report_at fl previous elapsed now s \<noteq> None"
proof -
  have ok: "feedback_ok s" unfolding assms(2) by (rule feedback_run_ok [OF feedback_ok_default assms(1)])
  then have "report fl now (rt_bandwidth (nf_reception_timing s)) \<noteq> None"
    by (intro report_some) (simp add: feedback_ok_def)
  then have "qos_report_at fl previous elapsed now s \<noteq> None"
    by (auto simp: qos_report_at_def Let_def split: option.splits)
  with ok show ?thesis by (simp add: feedback_ok_def MAX_PENDING_FRAME_ACKS_def)
qed

theorem feedback_invariant_witness:
  "qos_report_at int_float_ops \<lparr> qr_sequence = 0, qr_sender_frame_number = 0, qr_bytes_received = 0,
       qr_loss_per_ten_thousand = 0, qr_client_time_90khz = 0, qr_packet_snapshot = None,
       qr_bandwidth = BandwidthFeedback_default \<rparr> 5 7
     (fold (feedback_step int_float_ops) [RequestNack 3 9 0, AcceptedFrame 1 100 2, Report True]
        (NvstFeedbackState_default int_float_ops)) \<noteq> None"
  using feedback_invariant [OF _ refl, of "[RequestNack 3 9 0, AcceptedFrame 1 100 2, Report True]" int_float_ops]
  by simp

section \<open>Key frame requests\<close>

lemma keyframe_needed_step:
  "nf_keyframe_needed (feedback_step fl x s) =
     (case x of RequestKeyframe \<Rightarrow> True
      | CompletedFrame f \<Rightarrow> nf_keyframe_needed s \<and> \<not> au_keyframe f
      | _ \<Rightarrow> nf_keyframe_needed s)"
  by (cases x) (auto simp: feedback_step_defs publish_accepted_frame_def Let_def
      split: option.splits prod.splits list.splits StreamSocket.splits)

fun brings_keyframe :: "feedback_op \<Rightarrow> bool" where
  "brings_keyframe (CompletedFrame f) = au_keyframe f"
| "brings_keyframe _ = False"

text \<open>C35: a requested key frame stays requested through every other operation, sends included, until a key frame has
  been assembled, and from then on it is no longer asked for; meanwhile it is retried on the control channel
  whenever 250 ms have passed since the last attempt.\<close>

theorem keyframe_request_persists:
  assumes "\<forall>x\<in>set ops. \<not> brings_keyframe x" and "au_keyframe key"
    and "s = fold (feedback_step fl) ops (request_keyframe s0)" and "last_attempt + millis 250 \<le> now"
  shows "keyframe_request_pending s
    \<and> keyframe_request_routes now last_attempt rtcp_open control_open s
        = (rtcp_open \<and> nf_video_ssrc s \<noteq> 0, control_open)
    \<and> \<not> keyframe_request_pending (publish_completed_frame key s)"
proof -
  have "nf_keyframe_needed (fold (feedback_step fl) ops t)" if "nf_keyframe_needed t" for t
    using assms(1) that
  proof (induction ops arbitrary: t)
    case (Cons x ops)
    then have "nf_keyframe_needed (feedback_step fl x t)"
      by (auto simp: keyframe_needed_step split: feedback_op.splits)
    with Cons show ?case by simp
  qed simp
  then have "nf_keyframe_needed s" unfolding assms(3) by (simp add: request_keyframe_def)
  then show ?thesis using assms(2,4)
    by (auto simp: keyframe_request_pending_def keyframe_request_routes_def stream_snapshot_def
        publish_completed_frame_def KEYFRAME_REQUEST_COOLDOWN_def millis_def)
qed

theorem keyframe_request_persists_witness:
  "keyframe_request_routes (millis 300) 0 True True
     (fold (feedback_step int_float_ops) [StreamPacket 7 100 0 0 None, TakeNack 1 None]
        (request_keyframe (NvstFeedbackState_default int_float_ops))) = (True, True)"
  using keyframe_request_persists [OF _ _ refl, of "[StreamPacket 7 100 0 0 None, TakeNack 1 None]"
      "\<lparr> au_codec = H264, au_timestamp = 0, au_frame_index = 1, au_first_stream_packet_index = 0,
         au_keyframe = True, au_contiguous = True, au_bytes = [] \<rparr>" 0 "millis 300" int_float_ops
      "NvstFeedbackState_default int_float_ops" True True]
  by (simp add: millis_def publish_stream_packet_def feedback_take_nack_def split_beta)

section \<open>Loss reports\<close>

lemma u32_sub_nat: "(b :: u32) \<le> a \<Longrightarrow> unat (a - b) = unat a - unat b"
  by (simp add: unat_sub_if' word_le_nat_alt)

lemma u32_max_nat: "unat (max a b :: u32) = max (unat a) (unat b)"
  by (simp add: max_def word_le_nat_alt)

text \<open>The counters after a stream of packets with one SSRC.\<close>

lemma stream_counters:
  assumes "seqs \<noteq> []" and "\<forall>q\<in>set seqs. q \<noteq> 0xffffffff" and "length seqs < 2 ^ 32"
    and "s = fold (\<lambda>(q, t, now, v). publish_stream_packet fl ssrc q t now v)
           (map (\<lambda>q. (q, ts q, at q, vid q)) seqs) (NvstFeedbackState_default fl)"
  shows "nf_video_ssrc s = ssrc \<and> nf_base_sequence s = hd seqs
    \<and> nf_highest_sequence s = Max (set seqs) \<and> unat (nf_received_packets s) = length seqs"
  using assms
proof (induction seqs arbitrary: s rule: rev_induct)
  case (snoc q seqs)
  let ?f = "\<lambda>(q, t, now, v). publish_stream_packet fl ssrc q t now v"
  let ?s0 = "fold ?f (map (\<lambda>q. (q, ts q, at q, vid q)) seqs) (NvstFeedbackState_default fl)"
  have s: "s = publish_stream_packet fl ssrc q (ts q) (at q) (vid q) ?s0" using snoc.prems(4) by simp
  show ?case
  proof (cases "seqs = []")
    case True
    then show ?thesis by (simp add: s publish_stream_packet_def NvstFeedbackState_default_def)
  next
    case False
    with snoc have ih: "nf_base_sequence ?s0 = hd seqs" "nf_highest_sequence ?s0 = Max (set seqs)"
      "unat (nf_received_packets ?s0) = length seqs" by auto
    have "hd seqs \<noteq> 0xffffffff" using snoc.prems(2) False by (cases seqs) auto
    moreover have "Max (set (seqs @ [q])) = max (Max (set seqs)) q"
      using False by (simp add: max.commute)
    moreover have "unat (nf_received_packets ?s0 + 1) = Suc (length seqs)"
      using ih(3) snoc.prems(3) by (subst unat_add_lem [THEN iffD1]) simp_all
    ultimately show ?thesis using ih False by (simp add: s publish_stream_packet_def)
  qed
qed simp

text \<open>What a receiver report says of a stream of fewer than \<open>2^32\<close> packets: the loss since the first packet is
  the span of the sequence numbers less the packets counted, limited to the signed 24 bits of the field, so
  that the four report bytes carry it; and the highest sequence is the greatest received.\<close>

theorem receiver_report_counts:
  assumes "seqs \<noteq> []" and "\<forall>q\<in>set seqs. q \<noteq> 0xffffffff" and "length seqs < 2 ^ 32" and "ssrc \<noteq> 0"
    and "s = fold (\<lambda>(q, t, now, v). publish_stream_packet fl ssrc q t now v)
           (map (\<lambda>q. (q, ts q, at q, vid q)) seqs) (NvstFeedbackState_default fl)"
  shows "\<exists>block. fst (report_snapshot fl update s) = Some block \<and> rp_media_ssrc block = ssrc
    \<and> rp_highest_sequence block = Max (set seqs)
    \<and> sint (rp_cumulative_lost block) = clamp_int (- 0x800000) 0x7fffff
        (int (unat (Max (set seqs)) - unat (hd seqs) + 1) - int (length seqs))"
proof -
  note c = stream_counters [OF assms(1-3,5)]
  have hd: "hd seqs \<in> set seqs" using assms(1) by simp
  then have le: "hd seqs \<le> Max (set seqs)" by simp
  have "Max (set seqs) \<in> set seqs" using assms(1) by (intro Max_in) auto
  with assms(2) have "Max (set seqs) \<noteq> 0xffffffff" by blast
  then have "unat (Max (set seqs)) < 2 ^ 32 - 1"
    using word_u32_bound [of "Max (set seqs)"] word_unat_eq_iff [of "Max (set seqs)" "0xffffffff"] by simp
  then have "unat (expected_packets s) = unat (Max (set seqs)) - unat (hd seqs) + 1"
    using c u32_sub_nat [OF le] unfolding expected_packets_def
    by (subst unat_add_lem [THEN iffD1]) auto
  then have lost: "cumulative_lost s = clamp_int (- 0x800000) 0x7fffff
      (int (unat (Max (set seqs)) - unat (hd seqs) + 1) - int (length seqs))"
    using c by (simp add: cumulative_lost_def uint_nat)
  have "sint (word_of_int (cumulative_lost s) :: 32 word) = cumulative_lost s"
  proof -
    have "- (2 ^ 31) \<le> cumulative_lost s" "cumulative_lost s < 2 ^ 31"
      by (simp_all add: cumulative_lost_def clamp_int_def)
    then have "signed_take_bit 31 (cumulative_lost s) = cumulative_lost s"
      by (intro signed_take_bit_int_eq_self) simp_all
    then show ?thesis by (simp only: sint_sbintrunc') simp
  qed
  moreover have "hd seqs \<noteq> 0xffffffff" using assms(2) hd by blast
  ultimately show ?thesis using c assms(4) lost
    by (auto simp: report_snapshot_def Let_def split_beta)
qed

theorem receiver_report_counts_witness:
  "\<exists>block. fst (report_snapshot int_float_ops True
       (fold (\<lambda>(q, t, now, v). publish_stream_packet int_float_ops 7 q t now v)
          (map (\<lambda>q. (q, 0, 0, None)) [10, 12, 15]) (NvstFeedbackState_default int_float_ops))) = Some block
     \<and> sint (rp_cumulative_lost block) = 3"
  using receiver_report_counts [OF _ _ _ _ refl, where seqs = "[10, 12, 15]" and ssrc = 7 and fl = int_float_ops
      and ts = "\<lambda>_. 0" and at = "\<lambda>_. 0" and vid = "\<lambda>_. None" and update = True]
  by (auto simp: clamp_int_def)

text \<open>The loss fields are the loss ratio of the interval, rounded down and never truncated by their narrow types:
  at most 10000 in the QoS report and at most 255 in the receiver report.\<close>

theorem interval_loss_exact:
  assumes "snapshots_comparable prior current" and "qs_highest prior < qs_highest current"
    and "expected = unat (qs_highest current) - unat (qs_highest prior)"
    and "received = unat (qs_received current) - unat (qs_received prior)"
  shows "unat (qos_loss (Some prior) (Some current)) = (expected - received) * 10000 div expected
    \<and> unat (qos_loss (Some prior) (Some current)) \<le> 10000
    \<and> unat (fraction_lost (of_nat expected) (of_nat received)) = min ((expected - received) * 256 div expected) 255"
proof -
  have e: "unat (qs_highest current - qs_highest prior) = expected"
    and r: "unat (qs_received current - qs_received prior) = received"
    using assms by (simp_all add: u32_sub_nat snapshots_comparable_def)
  have pos: "0 < expected" using assms(2,3) by (simp add: word_less_nat_alt)
  have le: "(expected - received) * 10000 div expected \<le> 10000"
    using pos by (metis diff_le_self div_le_mono mult.commute mult_le_mono1 nonzero_mult_div_cancel_left not_gr0)
  have b: "expected < 2 ^ 32" "received < 2 ^ 32"
    using assms(3,4) word_u32_bound [of "qs_highest current"] word_u32_bound [of "qs_received current"] by auto
  have "unat (qos_loss (Some prior) (Some current)) = (expected - received) * 10000 div expected"
    using assms(1) pos le by (simp add: qos_loss_def interval_loss_def e r Let_def unat_of_nat)
  moreover have "(of_nat expected :: u32) \<noteq> 0" using pos b(1) by (simp add: word_of_nat_eq_0_iff nat_dvd_not_less)
  then have "unat (fraction_lost (of_nat expected) (of_nat received))
      = min ((expected - received) * 256 div expected) 255"
    using b by (simp add: fraction_lost_def Let_def unat_of_nat)
  ultimately show ?thesis using le by simp
qed

theorem interval_loss_exact_witness:
  "unat (qos_loss (Some \<lparr> qs_ssrc = 7, qs_base = 1, qs_highest = 10, qs_received = 10 \<rparr>)
      (Some \<lparr> qs_ssrc = 7, qs_base = 1, qs_highest = 30, qs_received = 25 \<rparr>)) = 2500"
  using interval_loss_exact [OF _ _ refl refl, of "\<lparr> qs_ssrc = 7, qs_base = 1, qs_highest = 10, qs_received = 10 \<rparr>"
      "\<lparr> qs_ssrc = 7, qs_base = 1, qs_highest = 30, qs_received = 25 \<rparr>"]
  by (simp add: snapshots_comparable_def)

end
