(* ===== verification/ControlReports.thy ===== *)
theory ControlReports
  imports Feedback
begin

text \<open>
  The batch of control reports of \<open>nvst.rs\<close> and the part of the bundle worker that fills and sends it: frame
  acknowledgements and QoS reports are collected up to a limit of bytes and written to the partially
  reliable control channel as one message. The channel belongs to the WebRTC stack: it is the parameter
  \<open>send\<close>, which accepts or refuses a message and changes the channel state.
\<close>

section \<open>Model\<close>

definition FRAME_ACK_RECORD_LEN :: nat where "FRAME_ACK_RECORD_LEN = 4 + FRAME_ACK_PAYLOAD_LEN"
definition MAX_CONTROL_REPORT_BYTES :: nat where "MAX_CONTROL_REPORT_BYTES = 1071"
definition MIN_CONTROL_REPORT_BYTES :: nat where "MIN_CONTROL_REPORT_BYTES = 4 + FRAME_ACK_PAYLOAD_LEN"
definition QOS_REPORT_INTERVAL :: duration where "QOS_REPORT_INTERVAL = millis 50"
definition FRAME_PACING_INTERVAL :: duration where "FRAME_PACING_INTERVAL = 55556000"

record ControlReportBatch =
  cb_max_bytes :: nat
  cb_bytes :: bytes
  cb_queued_at :: "instant option"
  cb_frames :: "CompletedFrameFeedback list"
  cb_qos :: "QosReport option"
  cb_last_qos_report :: QosReport
  cb_last_qos_send :: instant
  cb_frame_acks_sent :: nat
  cb_qos_reports_sent :: nat
  cb_last_ack_frame :: "u32 option"

definition QosReport_default :: QosReport where
  "QosReport_default = \<lparr> qr_sequence = 0, qr_sender_frame_number = 0, qr_bytes_received = 0,
     qr_loss_per_ten_thousand = 0, qr_client_time_90khz = 0, qr_packet_snapshot = None,
     qr_bandwidth = BandwidthFeedback_default \<rparr>"

text \<open>The subtraction from an \<open>Instant\<close> panics below the origin of the clock.\<close>

definition ControlReportBatch_new :: "instant \<Rightarrow> nat \<Rightarrow> ControlReportBatch option" where
  "ControlReportBatch_new now max_bytes =
     (if now < QOS_REPORT_INTERVAL then None
      else Some \<lparr> cb_max_bytes = max_bytes, cb_bytes = [], cb_queued_at = None, cb_frames = [], cb_qos = None,
                  cb_last_qos_report = QosReport_default, cb_last_qos_send = now - QOS_REPORT_INTERVAL,
                  cb_frame_acks_sent = 0, cb_qos_reports_sent = 0, cb_last_ack_frame = None \<rparr>)"

definition fits :: "nat \<Rightarrow> ControlReportBatch \<Rightarrow> bool" where
  "fits record_len b \<longleftrightarrow> sat_add_usize (length (cb_bytes b)) record_len \<le> cb_max_bytes b"

text \<open>\<open>append\<close> asserts that the record fits.\<close>

definition batch_append :: "bytes \<Rightarrow> instant \<Rightarrow> ControlReportBatch \<Rightarrow> ControlReportBatch option" where
  "batch_append rec now b =
     (if fits (length rec) b
      then Some (b\<lparr> cb_queued_at := Some (case cb_queued_at b of None \<Rightarrow> now | Some t \<Rightarrow> t),
                    cb_bytes := cb_bytes b @ rec \<rparr>)
      else None)"

definition append_ack ::
  "CompletedFrameFeedback \<Rightarrow> bytes \<Rightarrow> instant \<Rightarrow> ControlReportBatch \<Rightarrow> ControlReportBatch option" where
  "append_ack frame rec now b =
     map_option (\<lambda>b. b\<lparr> cb_frames := cb_frames b @ [frame] \<rparr>) (batch_append rec now b)"

definition append_qos :: "QosReport \<Rightarrow> bytes \<Rightarrow> instant \<Rightarrow> ControlReportBatch \<Rightarrow> ControlReportBatch option" where
  "append_qos qos rec now b = map_option (\<lambda>b. b\<lparr> cb_qos := Some qos \<rparr>) (batch_append rec now b)"

definition flush_due :: "instant \<Rightarrow> ControlReportBatch \<Rightarrow> bool" where
  "flush_due now b \<longleftrightarrow> cb_qos b \<noteq> None
     \<or> (case cb_queued_at b of None \<Rightarrow> False | Some t \<Rightarrow> now - t \<ge> QOS_REPORT_INTERVAL)"

definition ack_queued :: "instant \<Rightarrow> CompletedFrameFeedback \<Rightarrow> 'f NvstFeedbackState \<Rightarrow> 'f NvstFeedbackState" where
  "ack_queued now frame s = s\<lparr> nf_frame_stage_timings :=
     record_ack_queued (cf_assembled_at frame) (cf_accepted_at frame) now (nf_frame_stage_timings s) \<rparr>"

definition count_ack :: "CompletedFrameFeedback \<Rightarrow> ControlReportBatch \<Rightarrow> ControlReportBatch" where
  "count_ack frame b = b\<lparr> cb_frame_acks_sent := sat_add_u64 (cb_frame_acks_sent b) 1,
     cb_last_ack_frame := Some (cf_frame_number frame) \<rparr>"

definition count_qos :: "instant \<Rightarrow> ControlReportBatch \<Rightarrow> ControlReportBatch" where
  "count_qos now b = (case cb_qos b of
     None \<Rightarrow> b
   | Some qos \<Rightarrow> b\<lparr> cb_qos := None, cb_last_qos_report := qos, cb_last_qos_send := now,
                    cb_qos_reports_sent := sat_add_u64 (cb_qos_reports_sent b) 1 \<rparr>)"

type_synonym ('f, 'c) pump_state = "ControlReportBatch \<times> 'f NvstFeedbackState \<times> 'c"

definition flush ::
  "(bytes \<Rightarrow> 'c \<Rightarrow> bool \<times> 'c) \<Rightarrow> instant \<Rightarrow> ('f, 'c) pump_state \<Rightarrow> bool \<times> ('f, 'c) pump_state" where
  "flush send now st = (case st of (b, s, c) \<Rightarrow>
     if cb_bytes b = [] then (True, b, s, c)
     else case send (cb_bytes b) c of
            (False, c) \<Rightarrow> (False, b, s, c)
          | (True, c) \<Rightarrow>
              let s = fold (ack_queued now) (cb_frames b) s;
                  b = (fold count_ack (cb_frames b) b)\<lparr> cb_frames := [] \<rparr>;
                  b = count_qos now b
              in (True, b\<lparr> cb_bytes := [], cb_queued_at := None \<rparr>, s, c))"

text \<open>The worker's settings and the state of its pacing reports.\<close>

record pump_config =
  pc_frame_pacing_feedback :: bool
  pc_frame_time_us :: u32
  pc_transport_origin :: instant

record pacing_state =
  ps_last_send :: instant
  ps_reports_sent :: nat

definition send_pacing ::
  "(bytes \<Rightarrow> 'c \<Rightarrow> bool \<times> 'c) \<Rightarrow> pump_config \<Rightarrow> instant \<Rightarrow> u32 \<Rightarrow> pacing_state \<Rightarrow> 'c \<Rightarrow> pacing_state \<times> 'c" where
  "send_pacing send cfg now frame_number p c =
     (if pc_frame_pacing_feedback cfg \<and> now - ps_last_send p \<ge> FRAME_PACING_INTERVAL
      then case send (encoded (frame_pacing_report frame_number (pc_frame_time_us cfg) 0)) c of
             (sent, c) \<Rightarrow> (\<lparr> ps_last_send = now,
                ps_reports_sent = (if sent then sat_add_u64 (ps_reports_sent p) 1 else ps_reports_sent p) \<rparr>, c)
      else (p, c))"

text \<open>One turn of the \<open>while writable\<close> loop: \<open>Inl\<close> leaves the loop, \<open>Inr\<close> goes round with the new \<open>writable\<close>;
  \<open>None\<close> is the failed assertion of \<open>append\<close>.\<close>

definition make_room ::
  "(bytes \<Rightarrow> 'c \<Rightarrow> bool \<times> 'c) \<Rightarrow> instant \<Rightarrow> nat \<Rightarrow> ('f, 'c) pump_state \<Rightarrow> bool \<times> ('f, 'c) pump_state" where
  "make_room send now n st = (if fits n (fst st) then (True, st) else flush send now st)"

definition ack_turn ::
  "'f float_ops \<Rightarrow> (bytes \<Rightarrow> 'c \<Rightarrow> bool \<times> 'c) \<Rightarrow> pump_config \<Rightarrow> instant \<Rightarrow> pacing_state \<Rightarrow> ('f, 'c) pump_state
   \<Rightarrow> ((bool \<times> pacing_state \<times> ('f, 'c) pump_state) + (bool \<times> pacing_state \<times> ('f, 'c) pump_state)) option" where
  "ack_turn fl send cfg now p st =
     (case make_room send now FRAME_ACK_RECORD_LEN st of
        (False, st) \<Rightarrow> Some (Inl (False, p, st))
      | (True, b, s, c) \<Rightarrow>
          (case take_completed_frame s of
             (None, s) \<Rightarrow> Some (Inl (True, p, b, s, c))
           | (Some frame, s) \<Rightarrow>
               let (p, c) = send_pacing send cfg now (cf_frame_number frame) p c;
                   ack = encoded (CompletedFrameFeedback_command fl (pc_transport_origin cfg) frame)
               in case append_ack frame ack now b of
                    None \<Rightarrow> None
                  | Some b \<Rightarrow>
                      let (writable, st) = make_room send now FRAME_ACK_RECORD_LEN (b, s, c)
                      in Some (Inr (writable, p, st))))"

lemma fold_ack_queued_acks: "nf_pending_frame_acks (fold (ack_queued now) fs s) = nf_pending_frame_acks s"
  by (induction fs arbitrary: s) (auto simp: ack_queued_def)

lemma flush_keeps_acks:
  "flush send now (b, s, c) = (w, b', s', c') \<Longrightarrow> nf_pending_frame_acks s' = nf_pending_frame_acks s"
  by (auto simp: flush_def Let_def fold_ack_queued_acks split: if_splits prod.splits bool.splits)

lemma make_room_keeps_acks:
  "make_room send now n (b, s, c) = (w, b', s', c') \<Longrightarrow> nf_pending_frame_acks s' = nf_pending_frame_acks s"
  by (auto simp: make_room_def split: if_splits dest: flush_keeps_acks)

lemma ack_turn_takes:
  assumes "ack_turn fl send cfg now p (b, s, c) = Some (Inr (w, p', b', s', c'))"
  shows "\<exists>frame. nf_pending_frame_acks s = frame # nf_pending_frame_acks s'"
proof -
  obtain b1 s1 c1 where r: "make_room send now FRAME_ACK_RECORD_LEN (b, s, c) = (True, b1, s1, c1)"
    using assms by (auto simp: ack_turn_def split: prod.splits bool.splits)
  then obtain frame s2 where t: "take_completed_frame s1 = (Some frame, s2)"
    using assms by (auto simp: ack_turn_def split: prod.splits option.splits)
  with r assms have "nf_pending_frame_acks s' = nf_pending_frame_acks s2"
    by (auto simp: ack_turn_def Let_def split: prod.splits option.splits dest: make_room_keeps_acks)
  moreover have "nf_pending_frame_acks s1 = frame # nf_pending_frame_acks s2"
    using t by (auto simp: take_completed_frame_def split: list.splits)
  ultimately show ?thesis using make_room_keeps_acks [OF r] by simp
qed

function ack_loop ::
  "'f float_ops \<Rightarrow> (bytes \<Rightarrow> 'c \<Rightarrow> bool \<times> 'c) \<Rightarrow> pump_config \<Rightarrow> instant \<Rightarrow> bool \<Rightarrow> pacing_state \<Rightarrow> ('f, 'c) pump_state
   \<Rightarrow> (bool \<times> pacing_state \<times> ('f, 'c) pump_state) option" where
  "ack_loop fl send cfg now writable p st =
     (if \<not> writable then Some (False, p, st)
      else case ack_turn fl send cfg now p st of
             None \<Rightarrow> None
           | Some (Inl r) \<Rightarrow> Some r
           | Some (Inr (w, p', st')) \<Rightarrow> ack_loop fl send cfg now w p' st')"
  by pat_completeness auto
termination
  by (relation "measure (\<lambda>(fl, send, cfg, now, w, p, b, s, c). length (nf_pending_frame_acks s))")
    (auto dest: ack_turn_takes)

declare ack_loop.simps [simp del]

text \<open>The QoS report that follows the loop.\<close>

definition qos_step ::
  "'f float_ops \<Rightarrow> (bytes \<Rightarrow> 'c \<Rightarrow> bool \<times> 'c) \<Rightarrow> pump_config \<Rightarrow> instant \<Rightarrow> bool \<Rightarrow> ('f, 'c) pump_state
   \<Rightarrow> ('f, 'c) pump_state option" where
  "qos_step fl send cfg now writable st =
     (let b = fst st; s = fst (snd st)
      in if writable \<and> cb_qos b = None \<and> now - cb_last_qos_send b \<ge> QOS_REPORT_INTERVAL
         then case qos_report_at fl (cb_last_qos_report b) (now - pc_transport_origin cfg) now s of
                None \<Rightarrow> None
              | Some qos \<Rightarrow>
                  let rec = encoded (QosReport_command qos);
                      (writable, st) = make_room send now (length rec) st
                  in if writable
                     then map_option (\<lambda>b. snd (flush send now (b, snd st))) (append_qos qos rec now (fst st))
                     else Some st
         else Some st)"

definition pump_control_reports ::
  "'f float_ops \<Rightarrow> (bytes \<Rightarrow> 'c \<Rightarrow> bool \<times> 'c) \<Rightarrow> pump_config \<Rightarrow> instant \<Rightarrow> pacing_state \<Rightarrow> ('f, 'c) pump_state
   \<Rightarrow> (pacing_state \<times> ('f, 'c) pump_state) option" where
  "pump_control_reports fl send cfg now p st =
     (let (writable, st) = (if flush_due now (fst st) then flush send now st else (True, st))
      in case ack_loop fl send cfg now writable p st of
           None \<Rightarrow> None
         | Some (writable, p, st) \<Rightarrow>
             map_option (\<lambda>st. (p, st)) (qos_step fl send cfg now writable st))"

section \<open>What reaches the channel\<close>

text \<open>\<open>log\<close> reads the bytes the channel has accepted: an accepted message is appended, a refused one is not.\<close>

definition channel_logs :: "(bytes \<Rightarrow> 'c \<Rightarrow> bool \<times> 'c) \<Rightarrow> ('c \<Rightarrow> bytes) \<Rightarrow> bool" where
  "channel_logs send log \<longleftrightarrow> (\<forall>m c. log (snd (send m c)) = log c @ (if fst (send m c) then m else []))"

definition batch_ok :: "ControlReportBatch \<Rightarrow> bool" where
  "batch_ok b \<longleftrightarrow> MIN_CONTROL_REPORT_BYTES \<le> cb_max_bytes b \<and> cb_max_bytes b \<le> MAX_CONTROL_REPORT_BYTES
     \<and> length (cb_bytes b) \<le> cb_max_bytes b"

definition pump_ok :: "('f, 'c) pump_state \<Rightarrow> bool" where
  "pump_ok st \<longleftrightarrow> batch_ok (fst st) \<and> feedback_ok (fst (snd st))"

definition bytes_so_far :: "('c \<Rightarrow> bytes) \<Rightarrow> ('f, 'c) pump_state \<Rightarrow> bytes" where
  "bytes_so_far log st = log (snd (snd st)) @ cb_bytes (fst st)"

lemma fits_iff: "batch_ok b \<Longrightarrow> fits n b \<longleftrightarrow> length (cb_bytes b) + n \<le> cb_max_bytes b"
  by (auto simp: batch_ok_def fits_def sat_add_usize_def MAX_CONTROL_REPORT_BYTES_def)

lemma feedback_ok_ack_queued: "feedback_ok s \<Longrightarrow> feedback_ok (ack_queued now f s)"
  using stage_step_ok [of "nf_frame_stage_timings s" "AckQueued (cf_assembled_at f) (cf_accepted_at f) now"]
  by (simp add: feedback_ok_def ack_queued_def)

lemma feedback_ok_ack_queued_fold: "feedback_ok s \<Longrightarrow> feedback_ok (fold (ack_queued now) fs s)"
  by (induction fs arbitrary: s) (simp_all add: feedback_ok_ack_queued)

lemma count_keeps:
  "cb_max_bytes (fold count_ack fs b) = cb_max_bytes b" "cb_bytes (fold count_ack fs b) = cb_bytes b"
  "cb_max_bytes (count_qos now b) = cb_max_bytes b" "cb_bytes (count_qos now b) = cb_bytes b"
  by (induction fs arbitrary: b) (auto simp: count_ack_def count_qos_def split: option.splits)

lemma flush_ok:
  assumes "flush send now st = (w, st')" and "pump_ok st"
  shows "pump_ok st'" and "w \<Longrightarrow> cb_bytes (fst st') = []" and "cb_max_bytes (fst st') = cb_max_bytes (fst st)"
    and "nf_pending_frame_acks (fst (snd st')) = nf_pending_frame_acks (fst (snd st))"
  using assms
  by (auto simp: flush_def pump_ok_def batch_ok_def Let_def count_keeps feedback_ok_ack_queued_fold
      fold_ack_queued_acks split: if_splits prod.splits bool.splits)

lemma flush_bytes:
  assumes "flush send now st = (w, st')" and "channel_logs send log"
  shows "bytes_so_far log st' = bytes_so_far log st"
proof -
  obtain b s c where st: "st = (b, s, c)" by (cases st)
  have "log (snd (send (cb_bytes b) c)) = log c @ (if fst (send (cb_bytes b) c) then cb_bytes b else [])"
    using assms(2) by (simp add: channel_logs_def)
  then show ?thesis using assms(1)
    by (auto simp: st flush_def bytes_so_far_def Let_def split: if_splits prod.splits bool.splits)
qed

lemma make_room_ok:
  assumes "make_room send now n st = (w, st')" and "pump_ok st" and "n \<le> MIN_CONTROL_REPORT_BYTES"
  shows "pump_ok st'" and "w \<Longrightarrow> fits n (fst st')"
    and "nf_pending_frame_acks (fst (snd st')) = nf_pending_frame_acks (fst (snd st))"
    and "channel_logs send log \<Longrightarrow> bytes_so_far log st' = bytes_so_far log st"
proof -
  show ok: "pump_ok st'" using assms flush_ok(1) [of send now st w st'] by (auto simp: make_room_def split: if_splits)
  show "fits n (fst st')" if w
  proof (cases "fits n (fst st)")
    case False
    then have "flush send now st = (w, st')" using assms(1) by (simp add: make_room_def)
    then have "cb_bytes (fst st') = []" using flush_ok(2) assms(2) that by blast
    then show ?thesis using ok assms(3) by (auto simp: fits_iff pump_ok_def batch_ok_def)
  qed (use assms(1) in \<open>auto simp: make_room_def\<close>)
  show "nf_pending_frame_acks (fst (snd st')) = nf_pending_frame_acks (fst (snd st))"
    using assms flush_ok(4) [of send now st w st'] by (auto simp: make_room_def split: if_splits)
  show "channel_logs send log \<Longrightarrow> bytes_so_far log st' = bytes_so_far log st"
    using assms(1) flush_bytes [of send now st w st' log] by (auto simp: make_room_def split: if_splits)
qed

lemma batch_append_ok:
  assumes "fits (length r) b" and "batch_ok b"
  shows "\<exists>b'. batch_append r now b = Some b' \<and> batch_ok b' \<and> cb_bytes b' = cb_bytes b @ r"
  using assms fits_iff [OF assms(2)] by (auto simp: batch_append_def batch_ok_def)

definition ack_record :: "'f float_ops \<Rightarrow> pump_config \<Rightarrow> CompletedFrameFeedback \<Rightarrow> bytes" where
  "ack_record fl cfg frame = encoded (CompletedFrameFeedback_command fl (pc_transport_origin cfg) frame)"

lemma ack_record_length: "length (ack_record fl cfg frame) = FRAME_ACK_RECORD_LEN"
  using report_sizes by (simp add: ack_record_def CompletedFrameFeedback_command_def FRAME_ACK_RECORD_LEN_def)

lemma ack_record_small: "FRAME_ACK_RECORD_LEN \<le> MIN_CONTROL_REPORT_BYTES"
  by (simp add: FRAME_ACK_RECORD_LEN_def MIN_CONTROL_REPORT_BYTES_def)

text \<open>The effect of a stretch of the loop: the frames \<open>taken\<close> leave the queue and their records are on the channel
  or in the batch, in order.\<close>

definition pump_post ::
  "'f float_ops \<Rightarrow> (bytes \<Rightarrow> 'c \<Rightarrow> bool \<times> 'c) \<Rightarrow> pump_config \<Rightarrow> ('c \<Rightarrow> bytes) \<Rightarrow> CompletedFrameFeedback list \<Rightarrow>
   ('f, 'c) pump_state \<Rightarrow> ('f, 'c) pump_state \<Rightarrow> bool" where
  "pump_post fl send cfg log taken st st' \<longleftrightarrow> pump_ok st'
     \<and> nf_pending_frame_acks (fst (snd st)) = taken @ nf_pending_frame_acks (fst (snd st'))
     \<and> (channel_logs send log \<and> \<not> pc_frame_pacing_feedback cfg \<longrightarrow>
          bytes_so_far log st' = bytes_so_far log st @ concat (map (ack_record fl cfg) taken))"

lemma pump_post_trans:
  "pump_post fl send cfg log xs st st' \<Longrightarrow> pump_post fl send cfg log ys st' st''
   \<Longrightarrow> pump_post fl send cfg log (xs @ ys) st st''"
  by (auto simp: pump_post_def)

lemma make_room_post:
  assumes "make_room send now n st = (w, st')" and "pump_ok st" and "n \<le> MIN_CONTROL_REPORT_BYTES"
  shows "pump_post fl send cfg log [] st st'"
  using make_room_ok [OF assms] by (simp add: pump_post_def)

lemma take_and_append_post:
  assumes ok: "pump_ok (b, s, c)" and t: "take_completed_frame s = (Some frame, s')"
    and f: "fits FRAME_ACK_RECORD_LEN b" and p: "send_pacing send cfg now n p c = (p', c')"
  shows "\<exists>b'. append_ack frame (ack_record fl cfg frame) now b = Some b'
    \<and> pump_post fl send cfg log [frame] (b, s, c) (b', s', c')"
proof -
  have "fits (length (ack_record fl cfg frame)) b" using f by (simp add: ack_record_length)
  then obtain b' where b': "batch_append (ack_record fl cfg frame) now b = Some b'" "batch_ok b'"
    "cb_bytes b' = cb_bytes b @ ack_record fl cfg frame"
    using batch_append_ok [of "ack_record fl cfg frame" b now] ok by (auto simp: pump_ok_def)
  have s': "nf_pending_frame_acks s = frame # nf_pending_frame_acks s'" "s' = feedback_step fl TakeFrame s"
    using t by (auto simp: take_completed_frame_def split: list.splits)
  have "feedback_ok s'" unfolding s'(2) using ok by (intro feedback_step_ok) (simp_all add: pump_ok_def)
  moreover have "\<not> pc_frame_pacing_feedback cfg \<Longrightarrow> c' = c" using p by (simp add: send_pacing_def)
  ultimately show ?thesis using b' s'(1)
    by (auto simp: append_ack_def pump_post_def pump_ok_def batch_ok_def bytes_so_far_def)
qed

lemma ack_turn_ok:
  assumes "pump_ok st"
  shows "(\<exists>w p' st'. ack_turn fl send cfg now p st = Some (Inl (w, p', st')) \<and> pump_post fl send cfg log [] st st')
    \<or> (\<exists>w p' st' frame. ack_turn fl send cfg now p st = Some (Inr (w, p', st'))
         \<and> pump_post fl send cfg log [frame] st st')"
proof -
  obtain w b s c where r: "make_room send now FRAME_ACK_RECORD_LEN st = (w, b, s, c)"
    by (metis prod.exhaust)
  note m = make_room_ok [OF r assms ack_record_small]
  note mp = make_room_post [OF r assms ack_record_small, of fl cfg log]
  show ?thesis
  proof (cases w)
    case False
    then show ?thesis using r mp by (auto simp: ack_turn_def)
  next
    case True
    show ?thesis
    proof (cases "take_completed_frame s")
      case (Pair o1 s1)
      show ?thesis
      proof (cases o1)
        case None
        then have "s1 = s" using Pair by (auto simp: take_completed_frame_def split: list.splits)
        then show ?thesis using r True Pair None mp by (auto simp: ack_turn_def)
      next
        case (Some frame)
        obtain p1 c1 where pc: "send_pacing send cfg now (cf_frame_number frame) p c = (p1, c1)" by force
        obtain b1 where b1: "append_ack frame (ack_record fl cfg frame) now b = Some b1"
          and post: "pump_post fl send cfg log [frame] (b, s, c) (b1, s1, c1)"
          using take_and_append_post [OF m(1), of frame s1 send cfg now "cf_frame_number frame" p p1 c1 fl log]
            Pair Some m(2) True pc by auto
        obtain w2 st2 where r2: "make_room send now FRAME_ACK_RECORD_LEN (b1, s1, c1) = (w2, st2)" by (metis surj_pair)
        have "pump_ok (b1, s1, c1)" using post by (simp add: pump_post_def)
        then have "pump_post fl send cfg log [] (b1, s1, c1) st2"
          by (rule make_room_post [OF r2 _ ack_record_small])
        from pump_post_trans [OF pump_post_trans [OF mp post] this]
        have "pump_post fl send cfg log [frame] st st2" by simp
        moreover have "ack_turn fl send cfg now p st = Some (Inr (w2, p1, st2))"
          using r True Pair Some pc b1 r2 by (simp add: ack_turn_def ack_record_def)
        ultimately show ?thesis by blast
      qed
    qed
  qed
qed

lemma ack_loop_ok:
  assumes "pump_ok st"
  shows "\<exists>w' p' st' taken. ack_loop fl send cfg now w p st = Some (w', p', st') \<and> pump_post fl send cfg log taken st st'"
  using assms
proof (induction fl send cfg now w p st rule: ack_loop.induct)
  case (1 fl send cfg now w p st)
  have idle: "pump_post fl send cfg log [] st st" using 1(2) by (simp add: pump_post_def)
  show ?case
  proof (cases w)
    case False
    then show ?thesis using idle by (auto simp: ack_loop.simps)
  next
    case True
    from ack_turn_ok [OF 1(2), of fl send cfg now p log] show ?thesis
    proof (elim disjE exE conjE)
      fix w' p' st' assume t: "ack_turn fl send cfg now p st = Some (Inl (w', p', st'))"
        and post: "pump_post fl send cfg log [] st st'"
      then show ?thesis using True by (subst ack_loop.simps) auto
    next
      fix w' p' st' frame assume t: "ack_turn fl send cfg now p st = Some (Inr (w', p', st'))"
        and post: "pump_post fl send cfg log [frame] st st'"
      then have ok': "pump_ok st'" by (simp add: pump_post_def)
      from 1(1) [OF _ t refl refl refl ok'] True obtain w2 p2 st2 taken where
        l: "ack_loop fl send cfg now w' p' st' = Some (w2, p2, st2)" and "pump_post fl send cfg log taken st' st2"
        by blast
      then have "pump_post fl send cfg log ([frame] @ taken) st st2" by (intro pump_post_trans [OF post])
      moreover have "ack_loop fl send cfg now w p st = Some (w2, p2, st2)"
        using True t l by (subst ack_loop.simps) simp
      ultimately show ?thesis by blast
    qed
  qed
qed

lemma qos_step_ok:
  assumes ok: "pump_ok st"
  shows "\<exists>st' rec. qos_step fl send cfg now w st = Some st' \<and> pump_ok st'
    \<and> nf_pending_frame_acks (fst (snd st')) = nf_pending_frame_acks (fst (snd st))
    \<and> (rec = [] \<or> (\<exists>qos. rec = encoded (QosReport_command qos)))
    \<and> (channel_logs send log \<longrightarrow> bytes_so_far log st' = bytes_so_far log st @ rec)"
proof (cases "w \<and> cb_qos (fst st) = None \<and> now - cb_last_qos_send (fst st) \<ge> QOS_REPORT_INTERVAL")
  case False
  then show ?thesis using ok by (intro exI [of _ st] exI [of _ "[]"]) (auto simp: qos_step_def Let_def)
next
  case True
  have "report fl now (rt_bandwidth (nf_reception_timing (fst (snd st)))) \<noteq> None"
    using ok by (intro report_some) (simp add: pump_ok_def feedback_ok_def)
  then obtain qos where q: "qos_report_at fl (cb_last_qos_report (fst st)) (now - pc_transport_origin cfg) now (fst (snd st))
      = Some qos"
    by (auto simp: qos_report_at_def Let_def split: option.splits)
  let ?rec = "encoded (QosReport_command qos)"
  have len: "length ?rec \<le> MIN_CONTROL_REPORT_BYTES"
    using report_sizes by (simp add: MIN_CONTROL_REPORT_BYTES_def QOS_REPORT_PAYLOAD_LEN_def FRAME_ACK_PAYLOAD_LEN_def)
  obtain w1 st1 where r: "make_room send now (length ?rec) st = (w1, st1)" by (metis surj_pair)
  note m = make_room_ok [OF r ok len]
  show ?thesis
  proof (cases w1)
    case False
    then show ?thesis using True q r m
      by (intro exI [of _ st1] exI [of _ "[]"]) (auto simp: qos_step_def Let_def)
  next
    case w1: True
    then obtain b2 where b2: "batch_append ?rec now (fst st1) = Some b2" "batch_ok b2"
      "cb_bytes b2 = cb_bytes (fst st1) @ ?rec"
      using batch_append_ok [of ?rec "fst st1" now] m(1,2) by (auto simp: pump_ok_def)
    let ?st2 = "(b2\<lparr> cb_qos := Some qos \<rparr>, snd st1)"
    have ok2: "pump_ok ?st2" using m(1) b2(2) by (simp add: pump_ok_def batch_ok_def)
    obtain w3 st3 where f: "flush send now ?st2 = (w3, st3)" by (metis surj_pair)
    have "qos_step fl send cfg now w st = Some st3"
      using True q r w1 b2(1) f by (simp add: qos_step_def Let_def append_qos_def)
    moreover have "channel_logs send log \<Longrightarrow> bytes_so_far log st3 = bytes_so_far log st @ ?rec"
      using flush_bytes [OF f] m(4) [of log] b2(3) by (simp add: bytes_so_far_def)
    ultimately show ?thesis using flush_ok [OF f ok2] m(3) by auto
  qed
qed

lemma pump_ok_steps:
  assumes "pump_ok st"
  shows "\<exists>p' st' taken rec. pump_control_reports fl send cfg now p st = Some (p', st') \<and> pump_ok st'
    \<and> nf_pending_frame_acks (fst (snd st)) = taken @ nf_pending_frame_acks (fst (snd st'))
    \<and> (rec = [] \<or> (\<exists>qos. rec = encoded (QosReport_command qos)))
    \<and> (channel_logs send log \<and> \<not> pc_frame_pacing_feedback cfg \<longrightarrow>
         bytes_so_far log st' = bytes_so_far log st @ concat (map (ack_record fl cfg) taken) @ rec)"
proof -
  obtain w1 st1 where r: "(if flush_due now (fst st) then flush send now st else (True, st)) = (w1, st1)"
    by (metis surj_pair)
  have p1: "pump_post fl send cfg log [] st st1"
    using assms r flush_ok [of send now st w1 st1] flush_bytes [of send now st w1 st1 log]
    by (auto simp: pump_post_def split: if_splits)
  then have "pump_ok st1" by (simp add: pump_post_def)
  then obtain w2 p2 st2 taken where l: "ack_loop fl send cfg now w1 p st1 = Some (w2, p2, st2)"
    and p2: "pump_post fl send cfg log taken st1 st2"
    using ack_loop_ok [of st1 fl send cfg now w1 p log] by blast
  have "pump_ok st2" using p2 by (simp add: pump_post_def)
  then obtain st3 rec where "qos_step fl send cfg now w2 st2 = Some st3" "pump_ok st3"
    "nf_pending_frame_acks (fst (snd st3)) = nf_pending_frame_acks (fst (snd st2))"
    "rec = [] \<or> (\<exists>qos. rec = encoded (QosReport_command qos))"
    "channel_logs send log \<longrightarrow> bytes_so_far log st3 = bytes_so_far log st2 @ rec"
    using qos_step_ok [of st2 fl send cfg now w2 log] by blast
  with p1 p2 r l show ?thesis
    by (intro exI [of _ p2] exI [of _ st3] exI [of _ taken] exI [of _ rec])
      (auto simp: pump_control_reports_def pump_post_def)
qed

text \<open>C36: a round of the control reports always returns: the assertion that a record fits never fails, building
  the QoS report does not panic, the loop ends, and the batch keeps within its limit.\<close>

theorem pump_no_panic:
  assumes "batch_ok b" and "feedback_ok s"
  shows "\<exists>p' b' s' c'. pump_control_reports fl send cfg now p (b, s, c) = Some (p', b', s', c') \<and> batch_ok b'"
  using pump_ok_steps [of "(b, s, c)" fl send cfg now p] assms by (fastforce simp: pump_ok_def)

theorem pump_no_panic_witness:
  "\<exists>b p' b' s' c'. ControlReportBatch_new (millis 100) 200 = Some b
     \<and> pump_control_reports int_float_ops (\<lambda>m c. (True, c)) \<lparr> pc_frame_pacing_feedback = True,
         pc_frame_time_us = 16666, pc_transport_origin = 0 \<rparr> (millis 200) \<lparr> ps_last_send = 0, ps_reports_sent = 0 \<rparr>
         (b, NvstFeedbackState_default int_float_ops, ()) = Some (p', b', s', c')"
proof -
  obtain b where b: "ControlReportBatch_new (millis 100) 200 = Some b"
    by (simp add: ControlReportBatch_new_def QOS_REPORT_INTERVAL_def millis_def)
  then have "batch_ok b"
    by (auto simp: ControlReportBatch_new_def batch_ok_def MIN_CONTROL_REPORT_BYTES_def
        MAX_CONTROL_REPORT_BYTES_def FRAME_ACK_PAYLOAD_LEN_def split: if_splits)
  from pump_no_panic [OF this feedback_ok_default [of int_float_ops], of int_float_ops "\<lambda>m c. (True, c)"
      "\<lparr> pc_frame_pacing_feedback = True, pc_frame_time_us = 16666, pc_transport_origin = 0 \<rparr>" "millis 200"
      "\<lparr> ps_last_send = 0, ps_reports_sent = 0 \<rparr>" "()"] b
  show ?thesis by blast
qed

text \<open>Acknowledgements are written exactly once and in order. When no pacing reports are mixed in, the bytes on the
  channel together with those still in the batch grow by the records of the frames taken from the queue,
  followed by at most one QoS report, whichever messages the channel refuses.\<close>

theorem acks_written_in_order:
  assumes "batch_ok b" and "feedback_ok s" and "channel_logs send log" and "\<not> pc_frame_pacing_feedback cfg"
    and "pump_control_reports fl send cfg now p (b, s, c) = Some (p', b', s', c')"
  shows "\<exists>taken rec. nf_pending_frame_acks s = taken @ nf_pending_frame_acks s'
    \<and> log c' @ cb_bytes b' = log c @ cb_bytes b @ concat (map (ack_record fl cfg) taken) @ rec
    \<and> (rec = [] \<or> (\<exists>qos. rec = encoded (QosReport_command qos)))"
  using pump_ok_steps [of "(b, s, c)" fl send cfg now p log] assms
  by (fastforce simp: pump_ok_def bytes_so_far_def)

theorem acks_written_in_order_witness:
  "\<exists>b p' b' s' c' taken. ControlReportBatch_new (millis 100) 200 = Some b
     \<and> pump_control_reports int_float_ops (\<lambda>m c. (True, c @ m)) \<lparr> pc_frame_pacing_feedback = False,
         pc_frame_time_us = 16666, pc_transport_origin = 0 \<rparr> (millis 200) \<lparr> ps_last_send = 0, ps_reports_sent = 0 \<rparr>
         (b, NvstFeedbackState_default int_float_ops, []) = Some (p', b', s', c')
     \<and> nf_pending_frame_acks (NvstFeedbackState_default int_float_ops) = taken @ nf_pending_frame_acks s'"
proof -
  let ?cfg = "\<lparr> pc_frame_pacing_feedback = False, pc_frame_time_us = 16666, pc_transport_origin = 0 \<rparr>"
  let ?s = "NvstFeedbackState_default int_float_ops"
  obtain b where b: "ControlReportBatch_new (millis 100) 200 = Some b"
    by (simp add: ControlReportBatch_new_def QOS_REPORT_INTERVAL_def millis_def)
  then have bo: "batch_ok b"
    by (auto simp: ControlReportBatch_new_def batch_ok_def MIN_CONTROL_REPORT_BYTES_def
        MAX_CONTROL_REPORT_BYTES_def FRAME_ACK_PAYLOAD_LEN_def split: if_splits)
  have ch: "channel_logs (\<lambda>m c. (True, c @ m)) (\<lambda>c. c)" by (simp add: channel_logs_def)
  obtain p' b' s' c' where r: "pump_control_reports int_float_ops (\<lambda>m c. (True, c @ m)) ?cfg (millis 200)
      \<lparr> ps_last_send = 0, ps_reports_sent = 0 \<rparr> (b, ?s, []) = Some (p', b', s', c')"
    using pump_ok_steps [of "(b, ?s, [])" int_float_ops "\<lambda>m c. (True, c @ m)" ?cfg "millis 200"
        "\<lparr> ps_last_send = 0, ps_reports_sent = 0 \<rparr>"] bo feedback_ok_default [of int_float_ops]
    by (fastforce simp: pump_ok_def)
  from acks_written_in_order [OF bo feedback_ok_default ch _ r] b r show ?thesis by auto
qed

end
