(* ===== verification/Receiver.thy ===== *)
theory Receiver
  imports FecReorder Assembler Srtp Feedback
begin

text \<open>
  \<open>NvstVideoReceiver\<close> of \<open>nvst.rs\<close>: the receive path put together. A datagram passes the source check, SRTP,
  the payload type and SSRC checks, one of the two reorder buffers and the assembler; the receiver keeps a
  life cycle state, a frame progress watchdog and the shared feedback state. The \<open>Arc\<close> of the feedback state
  is a component of the record, \<open>Instant::now()\<close> is an argument. The \<open>u64\<close> statistics counters count in
  \<open>nat\<close>; none of them steers the receiver except \<open>authenticated_packets > 1\<close>.
\<close>

section \<open>Configuration\<close>

record NvstAudioTrack =
  at_payload_type :: u8
  at_clock_rate_hz :: u32
  at_channels :: u8
  at_mid :: bytes
  at_ssrc :: "u32 option"

record NvstStunCredentials =
  sc_local_username_fragment :: bytes
  sc_local_password :: bytes
  sc_remote_username_fragment :: bytes
  sc_remote_password :: bytes

record NvstVideoConfig =
  vc_client_udp_port :: u16
  vc_video_peer :: SocketAddr
  vc_video_peer_port_end :: "u16 option"
  vc_bundle_peer :: "SocketAddr option"
  vc_srtp :: NvstSrtpMaterial
  vc_ping_payload :: bytes
  vc_ping_version :: "u8 option"
  vc_bundle_natt_remote_username :: "bytes option"
  vc_stun_credentials :: "NvstStunCredentials option"
  vc_remote_dtls_fingerprint :: "bytes option"
  vc_rtcp_on_sctp :: bool
  vc_qos_timings_v5 :: bool
  vc_frame_pacing_feedback :: bool
  vc_max_control_report_bytes :: nat
  vc_hid_device_mask :: u32
  vc_mjolnir_udp_port :: "u16 option"
  vc_codec :: NvstVideoCodec
  vc_audio_track :: "NvstAudioTrack option"
  vc_microphone_available :: bool
  vc_expected_payload_type :: "u8 option"
  vc_expected_ssrc :: "u32 option"
  vc_reorder_window_packets :: nat
  vc_max_access_unit_bytes :: nat
  vc_timeout :: duration
  vc_startup_timeout :: duration
  vc_frame_time_us :: u32
  vc_video_packet_size :: nat

definition accepts_video_source :: "NvstVideoConfig \<Rightarrow> SocketAddr \<Rightarrow> bool" where
  "accepts_video_source cfg source \<longleftrightarrow>
     sa_ip source = sa_ip (vc_video_peer cfg)
     \<and> sa_port (vc_video_peer cfg) \<le> sa_port source
     \<and> sa_port source \<le> (case vc_video_peer_port_end cfg of None \<Rightarrow> sa_port (vc_video_peer cfg) | Some e \<Rightarrow> e)"

section \<open>Frame progress watchdog\<close>

record FrameProgressWatchdog =
  fw_first_authenticated_at :: "instant option"
  fw_first_keyframe_assembled :: bool
  fw_last_assembled_frame_index :: "u32 option"
  fw_stage :: NvstFrameProgressStage
  fw_keyframe_requested_at :: "instant option"

definition Watchdog_default :: FrameProgressWatchdog where
  "Watchdog_default = \<lparr> fw_first_authenticated_at = None, fw_first_keyframe_assembled = False,
     fw_last_assembled_frame_index = None, fw_stage = Tracking, fw_keyframe_requested_at = None \<rparr>"

definition watchdog_authenticated :: "instant \<Rightarrow> FrameProgressWatchdog \<Rightarrow> FrameProgressWatchdog" where
  "watchdog_authenticated now w = w\<lparr> fw_first_authenticated_at :=
     Some (case fw_first_authenticated_at w of None \<Rightarrow> now | Some t \<Rightarrow> t) \<rparr>"

definition watchdog_assembled :: "u32 \<Rightarrow> bool \<Rightarrow> FrameProgressWatchdog \<Rightarrow> bool \<times> FrameProgressWatchdog" where
  "watchdog_assembled frame_index keyframe w =
     (let w = w\<lparr> fw_last_assembled_frame_index := Some frame_index \<rparr>
      in if \<not> fw_first_keyframe_assembled w \<and> \<not> keyframe then (False, w)
         else (fw_stage w \<noteq> Tracking,
               w\<lparr> fw_first_keyframe_assembled := True, fw_stage := Tracking, fw_keyframe_requested_at := None \<rparr>))"

section \<open>Receiver\<close>

record 'f NvstVideoReceiver =
  vr_config :: NvstVideoConfig
  vr_feedback :: "'f NvstFeedbackState"
  vr_srtp :: SrtpReceiver
  vr_srtcp :: "SrtcpSender option"
  vr_reorder :: RtpReorderBuffer
  vr_fec_reorder :: FecReorderBuffer
  vr_assembler :: VideoAccessUnitAssembler
  vr_last_stream_packet_index :: "u32 option"
  vr_next_frame_contiguous :: bool
  vr_state :: NvstReceiverState
  vr_bound_ssrc :: "u32 option"
  vr_highest_sequence_received :: u32
  vr_authenticated_packets :: nat
  vr_fec_packets :: nat
  vr_fec_repaired_packets :: nat
  vr_frames_emitted :: nat
  vr_replay_rejections :: nat
  vr_stale_packets :: nat
  vr_recovered_retransmissions :: nat
  vr_packet_gap_recoveries :: nat
  vr_timeout_origin :: instant
  vr_last_authenticated_packet :: "instant option"
  vr_initial_timeout_pending :: bool
  vr_frame_progress :: FrameProgressWatchdog

definition NvstVideoReceiver_new ::
  "crypto \<Rightarrow> NvstVideoConfig \<Rightarrow> 'f NvstFeedbackState \<Rightarrow> instant \<Rightarrow> 'f NvstVideoReceiver" where
  "NvstVideoReceiver_new c cfg feedback now =
     \<lparr> vr_config = cfg, vr_feedback = feedback,
       vr_srtp = SrtpReceiver_from_material c (vc_srtp cfg),
       vr_srtcp = (if vc_rtcp_on_sctp cfg then None else SrtcpSender_from_material c (vc_srtp cfg)),
       vr_reorder = RtpReorderBuffer_new (vc_reorder_window_packets cfg),
       vr_fec_reorder = FecReorderBuffer_new (vc_video_packet_size cfg),
       vr_assembler = Assembler_new (vc_codec cfg) (vc_max_access_unit_bytes cfg),
       vr_last_stream_packet_index = None, vr_next_frame_contiguous = True, vr_state = Running,
       vr_bound_ssrc = None, vr_highest_sequence_received = 0, vr_authenticated_packets = 0,
       vr_fec_packets = 0, vr_fec_repaired_packets = 0, vr_frames_emitted = 0, vr_replay_rejections = 0,
       vr_stale_packets = 0, vr_recovered_retransmissions = 0, vr_packet_gap_recoveries = 0,
       vr_timeout_origin = now, vr_last_authenticated_packet = None, vr_initial_timeout_pending = True,
       vr_frame_progress = Watchdog_default \<rparr>"

definition with_feedback ::
  "('f NvstFeedbackState \<Rightarrow> 'f NvstFeedbackState) \<Rightarrow> 'f NvstVideoReceiver \<Rightarrow> 'f NvstVideoReceiver" where
  "with_feedback f r = r\<lparr> vr_feedback := f (vr_feedback r) \<rparr>"

definition reset_media_state :: "'f float_ops \<Rightarrow> instant \<Rightarrow> 'f NvstVideoReceiver \<Rightarrow> 'f NvstVideoReceiver" where
  "reset_media_state fl now r =
     with_feedback (\<lambda>s. reset_frame_stage_epoch fl now (s\<lparr> nf_frame_packet_timings := [] \<rparr>))
       (r\<lparr> vr_reorder := RtpReorderBuffer_reset (vr_reorder r),
           vr_fec_reorder := FecReorderBuffer_reset (vr_fec_reorder r),
           vr_assembler := Assembler_reset (vr_assembler r),
           vr_last_stream_packet_index := None,
           vr_next_frame_contiguous := False,
           vr_frame_progress := Watchdog_default \<rparr>)"

definition invalidate_picture :: "'f NvstVideoReceiver \<Rightarrow> 'f NvstVideoReceiver" where
  "invalidate_picture r =
     with_feedback request_keyframe
       (r\<lparr> vr_assembler := Assembler_reset (vr_assembler r), vr_last_stream_packet_index := None,
           vr_next_frame_contiguous := False \<rparr>)"

subsection \<open>Life cycle\<close>

definition pause :: "'f float_ops \<Rightarrow> instant \<Rightarrow> 'f NvstVideoReceiver \<Rightarrow> NvstReceiveEvent option \<times> 'f NvstVideoReceiver"
  where
  "pause fl now r =
     (if vr_state r \<noteq> Running then (None, r)
      else (Some (Lifecycle Paused), (reset_media_state fl now r)\<lparr> vr_state := Paused \<rparr>))"

definition restart :: "'f float_ops \<Rightarrow> instant \<Rightarrow> 'f NvstVideoReceiver \<Rightarrow> 'f NvstVideoReceiver" where
  "restart fl now r = (reset_media_state fl now r)\<lparr> vr_last_authenticated_packet := None,
     vr_timeout_origin := now, vr_initial_timeout_pending := False, vr_state := Running \<rparr>"

definition resume :: "'f float_ops \<Rightarrow> instant \<Rightarrow> 'f NvstVideoReceiver \<Rightarrow> NvstReceiveEvent option \<times> 'f NvstVideoReceiver"
  where
  "resume fl now r =
     (if vr_state r \<noteq> Paused then (None, r) else (Some (Lifecycle Running), restart fl now r))"

definition recover :: "'f float_ops \<Rightarrow> instant \<Rightarrow> 'f NvstVideoReceiver \<Rightarrow> NvstReceiveEvent option \<times> 'f NvstVideoReceiver"
  where
  "recover fl now r =
     (if vr_state r \<noteq> RecoveryRequired then (None, r) else (Some (Lifecycle Running), restart fl now r))"

definition stop :: "'f float_ops \<Rightarrow> instant \<Rightarrow> 'f NvstVideoReceiver \<Rightarrow> NvstReceiveEvent option \<times> 'f NvstVideoReceiver"
  where
  "stop fl now r =
     (if vr_state r = Stopped then (None, r)
      else (Some (Lifecycle Stopped), (reset_media_state fl now r)\<lparr> vr_state := Stopped \<rparr>))"

definition poll_timeout ::
  "'f float_ops \<Rightarrow> instant \<Rightarrow> 'f NvstVideoReceiver \<Rightarrow> NvstReceiveEvent option \<times> 'f NvstVideoReceiver" where
  "poll_timeout fl now r =
     (if vr_state r \<noteq> Running then (None, r)
      else
        let last_packet = (case vr_last_authenticated_packet r of None \<Rightarrow> vr_timeout_origin r | Some t \<Rightarrow> t);
            idle_for = now - last_packet;
            timeout = (if vr_initial_timeout_pending r then vc_startup_timeout (vr_config r)
                       else vc_timeout (vr_config r))
        in if idle_for < timeout then (None, r)
           else (Some (RecoveryNeeded (Timeout idle_for)),
                 (reset_media_state fl now r)\<lparr> vr_state := RecoveryRequired \<rparr>))"

definition frame_progress :: "'f NvstVideoReceiver \<Rightarrow> NvstFrameProgress" where
  "frame_progress r =
     \<lparr> pr_authenticated_packets = vr_authenticated_packets r,
       pr_last_authenticated_packet = vr_last_authenticated_packet r,
       pr_assembled_frames_total = fa_assembled_frames_total (nf_frame_stage_timings (vr_feedback r)),
       pr_last_assembled_frame_index = fw_last_assembled_frame_index (vr_frame_progress r),
       pr_last_assembled_at = fa_last_assembled_at (nf_frame_stage_timings (vr_feedback r)),
       pr_stage = fw_stage (vr_frame_progress r) \<rparr>"

definition progress_base :: "'f NvstVideoReceiver \<Rightarrow> instant option" where
  "progress_base r =
     (let assembled_at = last_assembled_frame_at (vr_feedback r);
          epoch_at = fw_first_authenticated_at (vr_frame_progress r)
      in if \<not> fw_first_keyframe_assembled (vr_frame_progress r) then epoch_at
         else case (assembled_at, epoch_at) of
                (Some assembled, Some epoch) \<Rightarrow> Some (max assembled epoch)
              | (Some assembled, None) \<Rightarrow> Some assembled
              | (None, epoch) \<Rightarrow> epoch)"

definition poll_frame_progress ::
  "instant \<Rightarrow> NvstFrameProgressPolicy \<Rightarrow> 'f NvstVideoReceiver \<Rightarrow> NvstFrameProgressEvent option \<times> 'f NvstVideoReceiver"
  where
  "poll_frame_progress now policy r =
     (if vr_state r \<noteq> Running then (None, r)
      else case progress_base r of
        None \<Rightarrow> (None, r)
      | Some base \<Rightarrow>
          let idle_for = now - base; w = vr_frame_progress r
          in case fw_stage w of
               Tracking \<Rightarrow>
                 if idle_for < fp_stall policy then (None, r)
                 else (Some (KeyframeRequested idle_for (fw_last_assembled_frame_index w)),
                       with_feedback request_keyframe
                         (r\<lparr> vr_frame_progress :=
                            w\<lparr> fw_stage := KeyframePending, fw_keyframe_requested_at := Some now \<rparr> \<rparr>))
             | KeyframePending \<Rightarrow>
                 let grace_started = (case fw_keyframe_requested_at w of None \<Rightarrow> now | Some t \<Rightarrow> t)
                 in if now - grace_started < fp_keyframe_grace policy then (None, r)
                    else (Some (ProgressRecoveryNeeded idle_for (fw_last_assembled_frame_index w)),
                          r\<lparr> vr_frame_progress := w\<lparr> fw_stage := StageRecoveryRequired \<rparr>,
                             vr_state := RecoveryRequired \<rparr>)
             | StageRecoveryRequired \<Rightarrow> (None, r))"

definition poll_receiver_report ::
  "'f float_ops \<Rightarrow> crypto \<Rightarrow> instant \<Rightarrow> 'f NvstVideoReceiver \<Rightarrow> (bytes option \<times> 'f NvstVideoReceiver) option" where
  "poll_receiver_report fl c now r =
     (if vr_state r \<noteq> Running then Some (None, r)
      else case vr_srtcp r of
        None \<Rightarrow> Some (None, r)
      | Some sender \<Rightarrow>
          (case report_snapshot fl True (vr_feedback r) of
             (block, feedback) \<Rightarrow>
               map_option (\<lambda>(sender, packet).
                   (packet, r\<lparr> vr_feedback := feedback, vr_srtcp := Some sender \<rparr>))
                 (SrtcpSender_poll c sender block now)))"

subsection \<open>Packets in order\<close>

definition deliver_frame :: "EncodedVideoAccessUnit \<Rightarrow> 'f NvstVideoReceiver \<Rightarrow> NvstReceiveEvent list \<times> 'f NvstVideoReceiver"
  where
  "deliver_frame frame r =
     (let frame = frame\<lparr> au_contiguous := vr_next_frame_contiguous r \<rparr>;
          (resumed, w) = watchdog_assembled (au_frame_index frame) (au_keyframe frame) (vr_frame_progress r)
      in ((if resumed then [FrameProgressResumed] else []) @ [Frame frame],
          with_feedback (\<lambda>s. complete_frame_packets (au_frame_index frame) (publish_completed_frame frame s))
            (r\<lparr> vr_next_frame_contiguous := True, vr_frames_emitted := vr_frames_emitted r + 1,
                vr_frame_progress := w \<rparr>)))"

definition assemble_packet ::
  "NvVideoPacket \<Rightarrow> u32 \<Rightarrow> bytes \<Rightarrow> 'f NvstVideoReceiver \<Rightarrow> (NvstReceiveEvent list \<times> 'f NvstVideoReceiver) option" where
  "assemble_packet nv timestamp media r =
     (let r = r\<lparr> vr_last_stream_packet_index := Some (nv_stream_packet_index nv) \<rparr>
      in case Assembler_push (vr_assembler r) nv timestamp media of
           None \<Rightarrow> None
         | Some (a, res) \<Rightarrow>
             let r = r\<lparr> vr_assembler := a \<rparr>
             in Some (case res of
                  Inr (Some frame) \<Rightarrow> deliver_frame frame r
                | Inr None \<Rightarrow> ([], r)
                | Inl reason \<Rightarrow> ([Dropped reason], invalidate_picture r)))"

definition video_packet ::
  "NvVideoPacket \<Rightarrow> u32 \<Rightarrow> bytes \<Rightarrow> 'f NvstVideoReceiver \<Rightarrow> (NvstReceiveEvent list \<times> 'f NvstVideoReceiver) option" where
  "video_packet nv timestamp media r =
     (let current = va_current_frame (vr_assembler r);
          early_start = (is_start_of_frame nv \<and> current \<noteq> None \<and> current \<noteq> Some (nv_frame_index nv));
          r = (if early_start then with_feedback feedback_clear_nacks (invalidate_picture r) else r);
          events = (if early_start then [Dropped FrameDiscontinuity] else []);
          same_frame_continuation =
            (\<not> is_start_of_frame nv \<and> va_current_frame (vr_assembler r) = Some (nv_frame_index nv))
      in if same_frame_continuation \<and>
            (case vr_last_stream_packet_index r of
               None \<Rightarrow> False
             | Some l \<Rightarrow> (l + 1) AND STREAM_PACKET_INDEX_MASK \<noteq> nv_stream_packet_index nv)
         then Some (events @ [Dropped FrameDiscontinuity], invalidate_picture r)
         else map_option (\<lambda>(es, r). (events @ es, r)) (assemble_packet nv timestamp media r))"

definition ready_packet :: "RtpPacket \<Rightarrow> 'f NvstVideoReceiver \<Rightarrow> (NvstReceiveEvent list \<times> 'f NvstVideoReceiver) option"
  where
  "ready_packet packet r =
     (case RtpHeader_payload (pk_header packet) (pk_plaintext packet) of
        Inl e \<Rightarrow> Some ([Dropped (MalformedRtp e)], invalidate_picture r)
      | Inr payload \<Rightarrow>
          (case NvVideoPacket_parse (pk_header packet) payload of
             Inl e \<Rightarrow> Some ([Dropped (MalformedRtp e)], invalidate_picture r)
           | Inr (nv, media) \<Rightarrow>
               let nv = (if pk_origin packet = RecoveredData then nv\<lparr> nv_is_fec := False \<rparr> else nv)
               in if nv_is_fec nv
                  then Some ([Dropped (Unsupported FecRepair)], r\<lparr> vr_fec_packets := vr_fec_packets r + 1 \<rparr>)
                  else video_packet nv (rh_timestamp (pk_header packet)) media r))"

fun ready_packets :: "RtpPacket list \<Rightarrow> 'f NvstVideoReceiver \<Rightarrow> (NvstReceiveEvent list \<times> 'f NvstVideoReceiver) option"
  where
  "ready_packets [] r = Some ([], r)"
| "ready_packets (p # ps) r =
     (case ready_packet p r of
        None \<Rightarrow> None
      | Some (es, r) \<Rightarrow> map_option (\<lambda>(es', r). (es @ es', r)) (ready_packets ps r))"

subsection \<open>Datagrams\<close>

definition is_stale :: "NvstDropReason \<Rightarrow> bool" where
  "is_stale reason = (case reason of StaleRtpPacket _ \<Rightarrow> True | _ \<Rightarrow> False)"

definition is_unsupported :: "NvstDropReason option \<Rightarrow> bool" where
  "is_unsupported reason = (case reason of Some (Unsupported _) \<Rightarrow> True | _ \<Rightarrow> False)"

text \<open>What a push into a reorder buffer leads to, before the ready packets are looked at.\<close>

definition reorder_outcome ::
  "ReorderResult \<Rightarrow> instant \<Rightarrow> 'f NvstVideoReceiver \<Rightarrow> NvstReceiveEvent list \<times> 'f NvstVideoReceiver" where
  "reorder_outcome result now r =
     (let r = r\<lparr> vr_fec_repaired_packets := vr_fec_repaired_packets r + rr_fec_repaired result \<rparr>;
          r = (case rr_nack result of None \<Rightarrow> r | Some (a, b) \<Rightarrow> with_feedback (feedback_request_nack a b now) r);
          (drops, r) = (case rr_dropped result of
             None \<Rightarrow> ([], r)
           | Some reason \<Rightarrow>
               ([Dropped reason],
                if is_stale reason then r\<lparr> vr_stale_packets := vr_stale_packets r + 1 \<rparr> else r));
          (gaps, r) = (case rr_recovery result of
             None \<Rightarrow> ([], r)
           | Some recovery \<Rightarrow>
               ([RecoveryNeeded recovery],
                with_feedback feedback_clear_nacks
                  (invalidate_picture (r\<lparr> vr_packet_gap_recoveries := vr_packet_gap_recoveries r + 1 \<rparr>))))
      in (drops @ gaps, r))"

definition reorder_packet ::
  "RtpPacket \<Rightarrow> instant \<Rightarrow> 'f NvstVideoReceiver \<Rightarrow> (ReorderResult \<times> 'f NvstVideoReceiver) option" where
  "reorder_packet packet now r = (case FecPacketLayout_from_packet packet of
     Some layout \<Rightarrow>
       let r = (if fl_shard_index layout \<ge> fl_data_shards layout
                then r\<lparr> vr_fec_packets := vr_fec_packets r + 1 \<rparr> else r)
       in (case FecReorderBuffer_push (vr_fec_reorder r) packet layout now of
             None \<Rightarrow> None
           | Some (b, result) \<Rightarrow>
               let r = r\<lparr> vr_fec_reorder := b \<rparr>
               in Some (result,
                    if fl_shard_index layout < fl_data_shards layout \<and> is_unsupported (rr_dropped result)
                    then invalidate_picture r else r))
   | None \<Rightarrow>
       (case RtpReorderBuffer_push (vr_reorder r) packet now of
          (b, result) \<Rightarrow> Some (result, r\<lparr> vr_reorder := b \<rparr>)))"

definition video_note :: "RtpPacket \<Rightarrow> u32 \<Rightarrow> VideoPacketNote option" where
  "video_note packet sequence =
     (case RtpHeader_payload (pk_header packet) (pk_plaintext packet) of
        Inl _ \<Rightarrow> None
      | Inr payload \<Rightarrow>
          (case NvVideoPacket_parse (pk_header packet) payload of
             Inl _ \<Rightarrow> None
           | Inr (nv, media) \<Rightarrow>
               Some \<lparr> vn_frame_number = nv_frame_index nv, vn_sequence = sequence, vn_bytes = length media,
                      vn_started = is_start_of_frame nv, vn_ended = is_end_of_frame nv,
                      vn_parity = nv_is_fec nv \<rparr>))"

text \<open>The bookkeeping of an authenticated packet of the right stream.\<close>

definition note_authenticated ::
  "'f float_ops \<Rightarrow> RtpPacket \<Rightarrow> instant \<Rightarrow> 'f NvstVideoReceiver \<Rightarrow> 'f NvstVideoReceiver" where
  "note_authenticated fl packet now r =
     (let header = pk_header packet;
          r = (case rh_gs_video_header header of
                 None \<Rightarrow> r
               | Some extension \<Rightarrow> with_feedback (record_frame_packet (le32_at extension 4) now) r);
          authenticated = vr_authenticated_packets r + 1;
          sequence = (of_nat (pk_index packet mod 2 ^ 32) :: u32);
          reordered = (authenticated > 1 \<and> sequence \<le> vr_highest_sequence_received r);
          highest = max (vr_highest_sequence_received r) sequence;
          (retransmitted, feedback) = feedback_resolve_nack (pk_index packet) (vr_feedback r);
          video = (if \<not> retransmitted \<and> \<not> reordered then video_note packet sequence else None)
      in r\<lparr> vr_bound_ssrc := Some (case vr_bound_ssrc r of None \<Rightarrow> rh_ssrc header | Some s \<Rightarrow> s),
            vr_last_authenticated_packet := Some now,
            vr_initial_timeout_pending := False,
            vr_frame_progress := watchdog_authenticated now (vr_frame_progress r),
            vr_authenticated_packets := authenticated,
            vr_highest_sequence_received := highest,
            vr_recovered_retransmissions :=
              (if retransmitted then vr_recovered_retransmissions r + 1 else vr_recovered_retransmissions r),
            vr_feedback :=
              publish_stream_packet fl (rh_ssrc header) highest (rh_timestamp header) now video feedback \<rparr>)"

definition accept_packet ::
  "'f float_ops \<Rightarrow> RtpPacket \<Rightarrow> instant \<Rightarrow> 'f NvstVideoReceiver \<Rightarrow> (NvstReceiveEvent list \<times> 'f NvstVideoReceiver) option"
  where
  "accept_packet fl packet now r =
     (case reorder_packet packet now (note_authenticated fl packet now r) of
        None \<Rightarrow> None
      | Some (result, r) \<Rightarrow>
          (case reorder_outcome result now r of
             (events, r) \<Rightarrow>
               map_option (\<lambda>(es, r). (events @ es, r)) (ready_packets (rr_ready result) r)))"

definition idle_reason :: "NvstReceiverState \<Rightarrow> NvstDropReason option" where
  "idle_reason s = (case s of
     Paused \<Rightarrow> Some DropPaused | Stopped \<Rightarrow> Some DropStopped | RecoveryRequired \<Rightarrow> Some DropRecoveryRequired
   | Running \<Rightarrow> None)"

definition wrong_stream :: "RtpPacket \<Rightarrow> 'f NvstVideoReceiver \<Rightarrow> NvstDropReason option" where
  "wrong_stream packet r =
     (let header = pk_header packet;
          expected_ssrc = (case vc_expected_ssrc (vr_config r) of None \<Rightarrow> vr_bound_ssrc r | Some s \<Rightarrow> Some s)
      in case vc_expected_payload_type (vr_config r) of
           Some expected \<Rightarrow>
             if rh_payload_type header \<noteq> expected
             then Some (UnexpectedPayloadType expected (rh_payload_type header))
             else (case expected_ssrc of
                     Some e \<Rightarrow> if rh_ssrc header \<noteq> e then Some (UnexpectedSsrc e (rh_ssrc header)) else None
                   | None \<Rightarrow> None)
         | None \<Rightarrow> (case expected_ssrc of
                     Some e \<Rightarrow> if rh_ssrc header \<noteq> e then Some (UnexpectedSsrc e (rh_ssrc header)) else None
                   | None \<Rightarrow> None))"

definition process_datagram ::
  "'f float_ops \<Rightarrow> crypto \<Rightarrow> SocketAddr \<Rightarrow> bytes \<Rightarrow> instant \<Rightarrow> 'f NvstVideoReceiver
   \<Rightarrow> (NvstReceiveEvent list \<times> 'f NvstVideoReceiver) option" where
  "process_datagram fl c source datagram now r =
     (if \<not> accepts_video_source (vr_config r) source
      then Some ([Dropped (UnexpectedSource (vc_video_peer (vr_config r)) source)], r)
      else case idle_reason (vr_state r) of
        Some reason \<Rightarrow> Some ([Dropped reason], r)
      | None \<Rightarrow>
          (case SrtpReceiver_unprotect c (vr_srtp r) datagram of
             None \<Rightarrow> None
           | Some (srtp, Inl reason) \<Rightarrow>
               Some ([Dropped reason],
                 r\<lparr> vr_srtp := srtp,
                    vr_replay_rejections := (if reason = ReplayRejected then vr_replay_rejections r + 1
                                             else vr_replay_rejections r) \<rparr>)
           | Some (srtp, Inr packet) \<Rightarrow>
               let r = r\<lparr> vr_srtp := srtp \<rparr>
               in case wrong_stream packet r of
                    Some reason \<Rightarrow> Some ([Dropped reason], r)
                  | None \<Rightarrow> accept_packet fl packet now r))"

text \<open>RTP that arrives on the bundle path is only counted as a sign of life.\<close>

definition process_mjolnir_payload ::
  "u32 \<Rightarrow> instant \<Rightarrow> 'f NvstVideoReceiver \<Rightarrow> NvstReceiveEvent list \<times> 'f NvstVideoReceiver" where
  "process_mjolnir_payload ssrc now r =
     (case idle_reason (vr_state r) of
        Some reason \<Rightarrow> ([Dropped reason], r)
      | None \<Rightarrow>
          ([], r\<lparr> vr_bound_ssrc := Some (case vr_bound_ssrc r of None \<Rightarrow> ssrc | Some s \<Rightarrow> s),
                  vr_last_authenticated_packet := Some now, vr_initial_timeout_pending := False \<rparr>))"

end
