(* ===== verification/ReceiverSafety.thy ===== *)
theory ReceiverSafety
  imports Receiver
begin

text \<open>
  The receive path never panics: the invariant of \<open>NvstVideoReceiver\<close> collects those of its parts and adds
  the bound that ties them together, the packet indices that reach the NACK queue. Every operation of the
  receiver keeps it, and \<open>process_datagram\<close> always returns.
\<close>

section \<open>Indices in the reorder buffers\<close>

text \<open>SRTP packet indices have 48 bits and a FEC block has at most 1023 packets.\<close>

definition index_limit :: nat where "index_limit = 2 ^ 48 + 1023"

definition nack_below :: "(nat \<times> nat) option \<Rightarrow> bool" where
  "nack_below nack = (case nack of None \<Rightarrow> True | Some (_, b) \<Rightarrow> b \<le> index_limit)"

lemma nack_below_simps [simp]: "nack_below None" "nack_below (Some (a, b)) \<longleftrightarrow> b \<le> index_limit"
  by (simp_all add: nack_below_def)

definition gap_only :: "NvstRecovery option \<Rightarrow> bool" where
  "gap_only v = (case v of None \<Rightarrow> True | Some (PacketGap _ _) \<Rightarrow> True | _ \<Rightarrow> False)"

lemma gap_only_simps [simp]: "gap_only None" "gap_only (Some (PacketGap a b))"
  by (simp_all add: gap_only_def)

definition keys_below :: "(nat, 'a) btree \<Rightarrow> bool" where
  "keys_below m \<longleftrightarrow> (\<forall>k\<in>fst ` set m. k \<le> index_limit)"

lemma keys_below_simps [simp]: "keys_below []"
  "keys_below (bt_insert k v m) \<longleftrightarrow> k \<le> index_limit \<and> keys_below m"
  using bt_insert_keys [of k v m] by (simp_all add: keys_below_def)

lemma keys_below_remove: "keys_below m \<Longrightarrow> keys_below (bt_remove k m)"
  by (auto simp: keys_below_def bt_remove_def)

lemma keys_below_first: "keys_below m \<Longrightarrow> bt_first m = Some (k, v) \<Longrightarrow> k \<le> index_limit"
  by (cases m) (auto simp: keys_below_def bt_first_def)

lemma drain_below: "keys_below m \<Longrightarrow> drain n m r = (n', m', r') \<Longrightarrow> keys_below m'"
proof (induction n m r rule: drain.induct)
  case (1 n m r)
  then show ?case
    using keys_below_remove [of m n] by (subst (asm) (2) drain.simps) (auto split: option.splits)
qed

lemma reorder_loop_below:
  assumes "keys_below (lo_packets st)" and "nack_below (lo_nack st)" and "gap_only (lo_recovery st)"
  shows "keys_below (lo_packets (reorder_loop n now st)) \<and> nack_below (lo_nack (reorder_loop n now st))
    \<and> gap_only (lo_recovery (reorder_loop n now st))"
  using assms
proof (induction n now st rule: reorder_loop.induct)
  case (1 n now st)
  obtain e m r where d: "drain (lo_next st) (lo_packets st) (lo_ready st) = (e, m, r)"
    by (cases "drain (lo_next st) (lo_packets st) (lo_ready st)")
  have m: "keys_below m" using drain_below [OF 1(2) d] .
  show ?case
  proof (cases "bt_first m")
    case None
    with d m 1(3,4) show ?thesis by (subst (1 2 3) reorder_loop.simps) (simp add: Let_def)
  next
    case (Some kv)
    then obtain k v where first: "bt_first m = Some (k, v)" by (cases kv) auto
    note IH = 1(1) [OF d [symmetric] refl refl first refl refl refl refl]
    show ?thesis
      using IH m keys_below_first [OF m first] d first 1(4)
      by (subst (1 2 3) reorder_loop.simps) (auto simp: Let_def not_less)
  qed
qed

lemma reorder_push_below:
  assumes "keys_below (rb_packets b)" and "pk_index packet \<le> index_limit"
    and "RtpReorderBuffer_push b packet now = (b', r)"
  shows "keys_below (rb_packets b') \<and> nack_below (rr_nack r) \<and> gap_only (rr_recovery r)"
proof -
  have "keys_below (lo_packets (reorder_loop n now st)) \<and> nack_below (lo_nack (reorder_loop n now st))
      \<and> gap_only (lo_recovery (reorder_loop n now st))"
    if "lo_packets st = bt_insert (pk_index packet) packet (rb_packets b)" "lo_nack st = None" "gap_only (lo_recovery st)"
    for n st
    by (rule reorder_loop_below) (simp_all add: that assms)
  then show ?thesis
    using assms by (auto simp: RtpReorderBuffer_push_def Let_def dropped_result_def split: if_splits)
qed

definition block_below :: "FecBlock \<Rightarrow> bool" where
  "block_below blk \<longleftrightarrow> fb_base_index blk + length (fb_shards blk) \<le> index_limit"

definition fec_below :: "FecReorderBuffer \<Rightarrow> bool" where
  "fec_below b \<longleftrightarrow> keys_below (fr_blocks b) \<and> (\<forall>blk\<in>snd ` set (fr_blocks b). block_below blk)"

lemma bt_insert_subset: "set (bt_insert k v m) \<subseteq> insert (k, v) (set m)"
  by (induction m) (auto split: if_splits)

lemma fec_below_insert:
  "fec_below b \<Longrightarrow> base \<le> index_limit \<Longrightarrow> block_below blk \<Longrightarrow> fr_blocks b' = bt_insert base blk (fr_blocks b) \<Longrightarrow> fec_below b'"
  using bt_insert_subset [of base blk "fr_blocks b"] by (fastforce simp: fec_below_def)

lemma fec_below_remove: "fec_below b \<Longrightarrow> fr_blocks b' = bt_remove base (fr_blocks b) \<Longrightarrow> fec_below b'"
  by (auto simp: fec_below_def keys_below_remove) (auto simp: bt_remove_def)

lemma fec_below_same: "fec_below b \<Longrightarrow> fr_blocks b' = fr_blocks b \<Longrightarrow> fec_below b'"
  by (simp add: fec_below_def)

lemma fec_below_first:
  "fec_below b \<Longrightarrow> bt_first (fr_blocks b) = Some (base, head) \<Longrightarrow> base \<le> index_limit \<and> block_below head"
  using keys_below_first [of "fr_blocks b"] by (cases "fr_blocks b") (auto simp: fec_below_def bt_first_def)

lemma missing_run_below:
  assumes "block_below blk" and "first_missing_data_run blk = Some (a, b)"
  shows "b \<le> index_limit"
proof -
  from assms(2) obtain i where i: "position_none (data_slots blk) = Some i"
    and b: "b = fb_base_index blk + i + (length (takeWhile (\<lambda>s. s = None) (drop i (data_slots blk))) - 1)"
    by (auto simp: first_missing_data_run_def Let_def split: option.splits)
  have "length (takeWhile (\<lambda>s. s = None) (drop i (data_slots blk))) \<le> length (fb_shards blk) - i"
    using length_takeWhile_le [of "\<lambda>s. s = None" "drop i (data_slots blk)"] by simp
  moreover have "i < length (fb_shards blk)" using position_none_Some [OF i] by simp
  ultimately show ?thesis using b assms(1) unfolding block_below_def by linarith
qed

definition result_below :: "ReorderResult \<Rightarrow> bool" where
  "result_below r \<longleftrightarrow> nack_below (rr_nack r) \<and> gap_only (rr_recovery r)"

lemma fec_turn_below:
  assumes "fec_below b" and "result_below r" and "fec_turn now (b, r) = Some res"
  shows "fec_below (fst (outcome res)) \<and> result_below (snd (outcome res))"
proof (cases "bt_first (fr_blocks b)")
  case None
  with assms show ?thesis by (auto simp: fec_turn_def intro: fec_below_same)
next
  case (Some kv)
  then obtain base head where first: "bt_first (fr_blocks b) = Some (base, head)" by (cases kv) auto
  note h = fec_below_first [OF assms(1) first]
  let ?failed = "head\<lparr> fb_repair_failed := True \<rparr>"
  have failed: "block_below ?failed" using h by (simp add: block_below_def)
  have removed: "fec_below (b\<lparr> fr_blocks := bt_remove base (fr_blocks b) \<rparr>)"
    using assms(1) by (rule fec_below_remove) simp
  have put_back: "fec_below (b\<lparr> fr_blocks := bt_insert base ?failed (bt_remove base (fr_blocks b)), fr_gap_wait := w \<rparr>)" for w
    by (rule fec_below_insert [OF removed conjunct1 [OF h] failed]) simp
  have gap: "fec_below (fst (outcome (fec_gap now base e (b, r))))
      \<and> result_below (snd (outcome (fec_gap now base e (b, r))))" for e
    using assms(1,2) h by (auto simp: fec_gap_def result_below_def Let_def intro: fec_below_same)
  have completed: ?thesis if "fec_complete now base head (b, r) = Some res"
    using that assms(2) put_back missing_run_below [OF failed] fec_below_remove [OF assms(1)]
    by (auto simp: fec_complete_def result_below_def Let_def split: option.splits sum.splits prod.splits)
  have waiting: ?thesis if "fec_wait now base head (b, r) = Some res"
    using that assms(2) missing_run_below [OF conjunct2 [OF h]] fec_below_remove [OF assms(1)] fec_below_same [OF assms(1)]
    by (auto simp: fec_wait_def result_below_def Let_def split: option.splits if_splits)
  show ?thesis using assms first gap completed waiting by (auto simp: fec_turn_def split: if_splits)
qed

lemma fec_loop_below:
  assumes "fec_below b" and "result_below r" and "fec_loop now (b, r) = Some s"
  shows "fec_below (fst s) \<and> result_below (snd s)"
  using assms
proof (induction now "(b, r)" arbitrary: b r rule: fec_loop.induct)
  case (1 now b r)
  from 1(4) obtain res where res: "fec_turn now (b, r) = Some res"
    by (auto simp: fec_loop.simps [of now "(b, r)"] split: option.splits)
  note below = fec_turn_below [OF 1(2,3) res]
  show ?case
  proof (cases res)
    case (Inl s')
    with res 1(4) below show ?thesis by (simp add: fec_loop.simps [of now "(b, r)"])
  next
    case (Inr s')
    obtain b' r' where s': "s' = (b', r')" by (cases s')
    from 1(4) res Inr s' have "fec_loop now (b', r') = Some s" by (simp add: fec_loop.simps [of now "(b, r)"])
    from 1(1) [OF res Inr [unfolded s'] _ _ this] below Inr s' show ?thesis by simp
  qed
qed

lemma fec_push_below:
  assumes "fec_below b" and "pk_index packet < 2 ^ 48" and "FecPacketLayout_from_packet packet = Some layout"
    and "FecReorderBuffer_push b packet layout now = Some (b', r)"
  shows "fec_below b' \<and> result_below r"
proof -
  note l = FecPacketLayout_bounds [OF assms(3)]
  let ?base = "pk_index packet - fl_shard_index layout"
  let ?block = "target_block b layout (pk_index packet)"
  have base: "?base \<le> index_limit" using assms(2) by (simp add: index_limit_def)
  have "block_below (FecBlock_new layout (pk_index packet))"
    using assms(2) l(4) by (simp add: block_below_def FecBlock_new_def index_limit_def)
  moreover have "blk \<in> snd ` set (fr_blocks b)" if "bt_get (fr_blocks b) k = Some blk" for k blk
    using that by (force simp: bt_get_def dest: map_of_SomeD)
  ultimately have block: "block_below ?block"
    using assms(1) by (auto simp: target_block_def fec_below_def split: option.splits)
  have inserted: "block_below blk" if "FecBlock_insert ?block layout packet = Some (blk, d)" for blk d
    using that block by (auto simp: FecBlock_insert_def block_below_def Let_def split: if_splits)
  let ?b1 = "b\<lparr> fr_blocks := bt_insert ?base ?block (fr_blocks b) \<rparr>"
  have b1: "fec_below ?b1" by (rule fec_below_insert [OF assms(1) base block]) simp
  have b2: "fec_below (?b1\<lparr> fr_blocks := bt_insert ?base blk (fr_blocks ?b1) \<rparr>)" if "block_below blk" for blk
    by (rule fec_below_insert [OF b1 base that]) simp
  have none: "result_below (dropped_result d)" for d by (simp add: result_below_def dropped_result_def)
  show ?thesis
  proof (cases "FecBlock_insert ?block layout packet")
    case None
    then show ?thesis using assms(1,4) b1 none by (auto simp: FecReorderBuffer_push_def Let_def split: if_splits)
  next
    case (Some ins)
    then obtain blk d where ins: "FecBlock_insert ?block layout packet = Some (blk, d)" by (cases ins) auto
    note two = b2 [OF inserted [OF ins]]
    show ?thesis
      using assms(1,4) b1 two ins none fec_loop_below [OF two none, of now]
      by (auto simp: FecReorderBuffer_push_def Let_def split: if_splits)
  qed
qed

section \<open>The invariant\<close>

definition sender_ok :: "SrtcpSender \<Rightarrow> bool" where
  "sender_ok s \<longleftrightarrow> (length (ss_encryption_key s) = 16 \<or> length (ss_encryption_key s) = 32) \<and> ss_tag_len s \<le> 16"

lemma sender_ok_material: "material_ok m \<Longrightarrow> SrtcpSender_from_material c m = Some s \<Longrightarrow> sender_ok s"
  by (cases m) (auto simp: material_ok_def SrtcpSender_from_material_def sender_ok_def)

lemma sender_poll_ok:
  assumes "crypto_ok c" and "sender_ok s"
  shows "\<exists>s' packet. SrtcpSender_poll c s block now = Some (s', packet) \<and> sender_ok s'"
proof -
  have k: "length (ss_encryption_key s) = 16 \<or> length (ss_encryption_key s) = 32" "ss_tag_len s \<le> 16"
    using assms(2) by (simp_all add: sender_ok_def)
  show ?thesis
  proof (cases block)
    case None
    then show ?thesis using assms(2) by (simp add: SrtcpSender_poll_def)
  next
    case (Some b)
    obtain packet where "protect_srtcp_receiver_report_gcm c b (ss_next_index s) (ss_encryption_key s)
        (ss_session_salt s) (ss_tag_len s) = Some packet"
      using srtcp_report_size [OF assms(1) k] by blast
    then show ?thesis using Some k by (simp add: SrtcpSender_poll_def sender_ok_def Let_def)
  qed
qed

definition receiver_ok :: "'f NvstVideoReceiver \<Rightarrow> bool" where
  "receiver_ok r \<longleftrightarrow> (\<exists>S. receiver_tracks (vr_srtp r) S) \<and> reorder_ok (vr_reorder r) \<and> keys_below (rb_packets (vr_reorder r))
     \<and> fec_ok (vr_fec_reorder r) \<and> fec_below (vr_fec_reorder r) \<and> assembler_ok (vr_assembler r)
     \<and> feedback_ok (vr_feedback r) \<and> (\<forall>s. vr_srtcp r = Some s \<longrightarrow> sender_ok s)"

section \<open>Contiguity of frames\<close>

text \<open>Events after which the next frame does not continue the picture decoded so far.\<close>

fun breaks :: "NvstReceiveEvent \<Rightarrow> bool" where
  "breaks (RecoveryNeeded (PacketGap _ _)) = True"
| "breaks (RecoveryNeeded (Timeout _)) = True"
| "breaks (Lifecycle _) = True"
| "breaks (Dropped FrameDiscontinuity) = True"
| "breaks (Dropped AwaitingStartOfFrame) = True"
| "breaks (Dropped MissingAnnexBStartCode) = True"
| "breaks (Dropped (InvalidLastPacketPayloadLength _ _ _)) = True"
| "breaks (Dropped (AccessUnitTooLarge _)) = True"
| "breaks _ = False"

text \<open>The flag after some events, and that every frame after a break is marked as not contiguous.\<close>

fun broken_after :: "bool \<Rightarrow> NvstReceiveEvent list \<Rightarrow> bool" where
  "broken_after broken [] = broken"
| "broken_after broken (Frame _ # es) = broken_after False es"
| "broken_after broken (e # es) = broken_after (broken \<or> breaks e) es"

fun marked :: "bool \<Rightarrow> NvstReceiveEvent list \<Rightarrow> bool" where
  "marked broken [] = True"
| "marked broken (Frame f # es) = ((broken \<longrightarrow> \<not> au_contiguous f) \<and> marked False es)"
| "marked broken (e # es) = marked (broken \<or> breaks e) es"

lemma broken_after_append: "broken_after b (xs @ ys) = broken_after (broken_after b xs) ys"
  by (induction b xs rule: broken_after.induct) simp_all

lemma marked_append: "marked b (xs @ ys) \<longleftrightarrow> marked b xs \<and> marked (broken_after b xs) ys"
  by (induction b xs rule: marked.induct) auto

definition is_frame :: "NvstReceiveEvent \<Rightarrow> bool" where
  "is_frame e = (case e of Frame _ \<Rightarrow> True | _ \<Rightarrow> False)"

lemma is_frame_simps [simp]: "is_frame (Frame f)" "\<not> is_frame (Dropped d)" "\<not> is_frame (RecoveryNeeded v)"
  "\<not> is_frame FrameProgressResumed" "\<not> is_frame (Lifecycle q)"
  "\<not> is_frame (FrameProgressStall t i q')"
  by (simp_all add: is_frame_def)

section \<open>Life cycle\<close>

text \<open>
  The life cycle as an automaton over the events a receiver announces: the state an event leads to, \<open>None\<close>
  where the event must not occur.
\<close>

fun life :: "NvstReceiverState \<Rightarrow> NvstReceiveEvent \<Rightarrow> NvstReceiverState option" where
  "life s (Lifecycle Paused) = (if s = Running then Some Paused else None)"
| "life s (Lifecycle Running) = (if s = Paused \<or> s = RecoveryRequired then Some Running else None)"
| "life s (Lifecycle Stopped) = (if s = Stopped then None else Some Stopped)"
| "life s (RecoveryNeeded (PacketGap _ _)) = (if s = Running then Some Running else None)"
| "life s (RecoveryNeeded _) = (if s = Running then Some RecoveryRequired else None)"
| "life s (Dropped DropPaused) = (if s = Paused then Some s else None)"
| "life s (Dropped DropStopped) = (if s = Stopped then Some s else None)"
| "life s (Dropped DropRecoveryRequired) = (if s = RecoveryRequired then Some s else None)"
| "life s (Dropped (UnexpectedSource _ _)) = Some s"
| "life s (Dropped _) = (if s = Running then Some s else None)"
| "life s (Frame _) = (if s = Running then Some s else None)"
| "life s FrameProgressResumed = (if s = Running then Some s else None)"
| "life s (FrameProgressStall _ _ _) = (if s = Running then Some s else None)"
| "life s _ = None"

fun life_run :: "NvstReceiverState \<Rightarrow> NvstReceiveEvent list \<Rightarrow> NvstReceiverState option" where
  "life_run s [] = Some s"
| "life_run s (e # es) = (case life s e of None \<Rightarrow> None | Some s' \<Rightarrow> life_run s' es)"

lemma life_run_append:
  "life_run s (xs @ ys) = (case life_run s xs of None \<Rightarrow> None | Some s' \<Rightarrow> life_run s' ys)"
  by (induction xs arbitrary: s) (auto split: option.splits)

lemma life_run_const: "\<forall>e\<in>set es. life s e = Some s \<Longrightarrow> life_run s es = Some s"
  by (induction es) auto

section \<open>Steps of the receive path\<close>

text \<open>What the handling of packets keeps and changes, as a relation that composes.\<close>

definition watchdog_kept :: "FrameProgressWatchdog \<Rightarrow> FrameProgressWatchdog \<Rightarrow> bool" where
  "watchdog_kept w w' \<longleftrightarrow> fw_stage w' = fw_stage w \<and> fw_keyframe_requested_at w' = fw_keyframe_requested_at w
     \<and> fw_first_keyframe_assembled w' = fw_first_keyframe_assembled w
     \<and> fw_last_assembled_frame_index w' = fw_last_assembled_frame_index w
     \<and> (fw_first_authenticated_at w \<noteq> None \<longrightarrow> fw_first_authenticated_at w' = fw_first_authenticated_at w)"

lemma watchdog_kept_self [simp]: "watchdog_kept w w"
  and watchdog_kept_trans: "watchdog_kept w w' \<Longrightarrow> watchdog_kept w' w'' \<Longrightarrow> watchdog_kept w w''"
  by (auto simp: watchdog_kept_def)

definition media_step :: "'f NvstVideoReceiver \<Rightarrow> NvstReceiveEvent list \<Rightarrow> 'f NvstVideoReceiver \<Rightarrow> bool" where
  "media_step r es r' \<longleftrightarrow>
     (receiver_ok r \<longrightarrow> receiver_ok r')
     \<and> vr_state r' = vr_state r \<and> vr_config r' = vr_config r
     \<and> (vr_state r = Running \<longrightarrow> (\<forall>e\<in>set es. life Running e = Some Running))
     \<and> (\<forall>b. (b \<longrightarrow> \<not> vr_next_frame_contiguous r) \<longrightarrow>
          marked b es \<and> (broken_after b es \<longrightarrow> \<not> vr_next_frame_contiguous r'))
     \<and> vr_frames_emitted r' = vr_frames_emitted r + length (filter is_frame es)
     \<and> ((\<forall>e\<in>set es. \<not> is_frame e) \<longrightarrow> watchdog_kept (vr_frame_progress r) (vr_frame_progress r')
          \<and> (nf_keyframe_needed (vr_feedback r) \<longrightarrow> nf_keyframe_needed (vr_feedback r')))"

lemma media_step_trans:
  assumes "media_step r es r'" and "media_step r' es' r''"
  shows "media_step r (es @ es') r''"
  using assms by (auto simp: media_step_def marked_append broken_after_append
      intro: watchdog_kept_trans)

lemma media_step_none: "media_step r [] r"
  by (simp add: media_step_def)

text \<open>The feedback operations of the receive path.\<close>

lemma feedback_ops_ok:
  assumes "feedback_ok s"
  shows "feedback_ok (request_keyframe s)" and "feedback_ok (feedback_clear_nacks s)"
    and "feedback_ok (publish_completed_frame f s)" and "feedback_ok (complete_frame_packets n s)"
    and "feedback_ok (record_frame_packet n t s)" and "feedback_ok (snd (feedback_resolve_nack i s))"
    and "feedback_ok (publish_stream_packet fl ssrc q ts t v s)"
    and "b \<le> u64_max \<Longrightarrow> feedback_ok (feedback_request_nack a b t s)"
    and "feedback_ok (reset_frame_stage_epoch fl t s)"
    and "feedback_ok (snd (report_snapshot fl u s))"
  using feedback_step_ok [OF assms, of RequestKeyframe] feedback_step_ok [OF assms, of ClearNacks]
    feedback_step_ok [OF assms, of "CompletedFrame f"] feedback_step_ok [OF assms, of "CompletePackets n"]
    feedback_step_ok [OF assms, of "FramePacket n t"] feedback_step_ok [OF assms, of "ResolveNack i"]
    feedback_step_ok [OF assms, of "StreamPacket ssrc q ts t v"] feedback_step_ok [OF assms, of "RequestNack a b t"]
    feedback_step_ok [OF assms, of "StageEpoch t"] feedback_step_ok [OF assms, of "Report u"]
  by simp_all

section \<open>Packets in order\<close>

lemma invalidate_picture_ok: "receiver_ok r \<Longrightarrow> receiver_ok (invalidate_picture r)"
  by (simp add: receiver_ok_def invalidate_picture_def with_feedback_def feedback_ops_ok assembler_ok_reset)

lemma invalidate_picture_fields [simp]:
  "\<not> vr_next_frame_contiguous (invalidate_picture r)"
  "vr_state (invalidate_picture r) = vr_state r" "vr_config (invalidate_picture r) = vr_config r"
  "vr_frames_emitted (invalidate_picture r) = vr_frames_emitted r"
  "vr_frame_progress (invalidate_picture r) = vr_frame_progress r"
  "nf_keyframe_needed (vr_feedback (invalidate_picture r))"
  by (simp_all add: invalidate_picture_def with_feedback_def request_keyframe_def)

text \<open>An event that is no frame, followed by the reset of the picture.\<close>

lemma media_step_invalidate:
  "\<not> is_frame e \<Longrightarrow> life Running e = Some Running \<Longrightarrow> media_step r [e] (invalidate_picture r)"
  by (cases e) (auto simp: media_step_def invalidate_picture_ok)

lemma media_step_reset: "media_step r [] (invalidate_picture r)"
  by (auto simp: media_step_def invalidate_picture_ok)

lemma media_step_quiet:
  assumes "\<not> is_frame e" and "\<not> breaks e" and "vr_state r = Running \<longrightarrow> life Running e = Some Running"
  shows "media_step r [e] r"
  using assms by (cases e) (auto simp: media_step_def)

lemma media_step_counter:
  assumes "media_step r es r'" and "receiver_ok r' \<longrightarrow> receiver_ok r''" and "vr_state r'' = vr_state r'"
    and "vr_config r'' = vr_config r'" and "vr_next_frame_contiguous r'' = vr_next_frame_contiguous r'"
    and "vr_frames_emitted r'' = vr_frames_emitted r'" and "vr_frame_progress r'' = vr_frame_progress r'"
    and "nf_keyframe_needed (vr_feedback r') \<longrightarrow> nf_keyframe_needed (vr_feedback r'')"
  shows "media_step r es r''"
  using assms unfolding media_step_def by simp

lemma deliver_frame_step: "deliver_frame f r = (es, r') \<Longrightarrow> media_step r es r'"
  by (auto simp: deliver_frame_def media_step_def Let_def with_feedback_def receiver_ok_def feedback_ops_ok
      split: prod.splits if_splits)

lemma clear_nacks_step:
  assumes "media_step r es r'"
  shows "media_step r es (with_feedback feedback_clear_nacks r')"
proof (rule media_step_counter [OF assms])
  show "receiver_ok r' \<longrightarrow> receiver_ok (with_feedback feedback_clear_nacks r')"
    by (simp add: with_feedback_def receiver_ok_def feedback_ops_ok)
qed (simp_all add: with_feedback_def feedback_clear_nacks_def)

lemma Assembler_push_drops:
  assumes "Assembler_push a header ts media = Some (a', Inl d)"
  shows "life Running (Dropped d) = Some Running"
proof -
  have "life Running (Dropped d) = Some Running" if "finish_frame a0 header ts n = Some (a', Inl d)" for a0 n
    using that by (auto simp: finish_frame_def Let_def split: option.splits if_splits)
  moreover have "life Running (Dropped d) = Some Running" if "start_frame a header media = (a0, Inl d)" for a0
    using that by (auto simp: start_frame_def Let_def split: option.splits if_splits)
  ultimately show ?thesis using assms
    by (fastforce simp: Assembler_push_def Let_def split: if_splits prod.splits sum.splits)
qed

lemma assemble_packet_step:
  assumes "receiver_ok r"
  shows "\<exists>es r'. assemble_packet nv ts media r = Some (es, r') \<and> media_step r es r'"
proof -
  have "assembler_ok (vr_assembler r)" using assms by (simp add: receiver_ok_def)
  from Assembler_push_ok [OF this] obtain a res where
    push: "Assembler_push (vr_assembler r) nv ts media = Some (a, res)" "assembler_ok a"
    by (fastforce simp: push_post_def)
  let ?r = "r\<lparr> vr_last_stream_packet_index := Some (nv_stream_packet_index nv), vr_assembler := a \<rparr>"
  have step: "media_step r [] ?r"
    by (rule media_step_counter [OF media_step_none]) (simp_all add: receiver_ok_def push(2))
  have reason: "life Running (Dropped d) = Some Running" if "res = Inl d" for d
    using Assembler_push_drops [of "vr_assembler r" nv ts media a d] push(1) that by auto
  obtain es r' where "(case res of Inr (Some frame) \<Rightarrow> deliver_frame frame ?r | Inr None \<Rightarrow> ([], ?r)
      | Inl reason \<Rightarrow> ([Dropped reason], invalidate_picture ?r)) = (es, r')" by (metis surj_pair)
  moreover from this have "media_step ?r es r'"
    using reason by (auto simp: media_step_none media_step_invalidate deliver_frame_step split: sum.splits option.splits)
  ultimately show ?thesis using push(1) media_step_trans [OF step]
    by (auto simp: assemble_packet_def Let_def)
qed

lemma video_packet_step:
  assumes "receiver_ok r"
  shows "\<exists>es r'. video_packet nv ts media r = Some (es, r') \<and> media_step r es r'"
proof -
  define early where "early \<longleftrightarrow> is_start_of_frame nv \<and> va_current_frame (vr_assembler r) \<noteq> None
    \<and> va_current_frame (vr_assembler r) \<noteq> Some (nv_frame_index nv)"
  define r1 where "r1 = (if early then with_feedback feedback_clear_nacks (invalidate_picture r) else r)"
  define es1 where "es1 = (if early then [Dropped FrameDiscontinuity] else [])"
  have s1: "media_step r es1 r1"
    by (simp add: r1_def es1_def media_step_none clear_nacks_step media_step_invalidate)
  then have ok1: "receiver_ok r1" using assms by (simp add: media_step_def)
  define gap where "gap \<longleftrightarrow> (\<not> is_start_of_frame nv \<and> va_current_frame (vr_assembler r1) = Some (nv_frame_index nv))
    \<and> (case vr_last_stream_packet_index r1 of None \<Rightarrow> False
       | Some l \<Rightarrow> (l + 1) AND STREAM_PACKET_INDEX_MASK \<noteq> nv_stream_packet_index nv)"
  have eq: "video_packet nv ts media r =
    (if gap then Some (es1 @ [Dropped FrameDiscontinuity], invalidate_picture r1)
     else map_option (\<lambda>(es, r). (es1 @ es, r)) (assemble_packet nv ts media r1))"
    by (simp only: video_packet_def Let_def early_def r1_def es1_def gap_def)
  from assemble_packet_step [OF ok1] obtain es r' where
    "assemble_packet nv ts media r1 = Some (es, r')" "media_step r1 es r'" by blast
  then show ?thesis
    using eq media_step_trans [OF s1] media_step_invalidate [of "Dropped FrameDiscontinuity" r1] by auto
qed

lemma ready_packet_step:
  assumes "receiver_ok r"
  shows "\<exists>es r'. ready_packet p r = Some (es, r') \<and> media_step r es r'"
proof -
  have fec: "media_step r [Dropped (Unsupported FecRepair)] (r\<lparr> vr_fec_packets := n \<rparr>)" for n
    by (rule media_step_counter [OF media_step_quiet]) (simp_all add: receiver_ok_def)
  show ?thesis
    using assms fec video_packet_step [OF assms] media_step_invalidate [of "Dropped _" r]
    by (auto simp: ready_packet_def Let_def split: sum.splits prod.splits)
qed

lemma ready_packets_step:
  "receiver_ok r \<Longrightarrow> \<exists>es r'. ready_packets ps r = Some (es, r') \<and> media_step r es r'"
proof (induction ps arbitrary: r)
  case Nil
  then show ?case by (simp add: media_step_none)
next
  case (Cons p ps)
  from ready_packet_step [OF Cons.prems] obtain es1 r1 where
    p: "ready_packet p r = Some (es1, r1)" "media_step r es1 r1" by blast
  then have "receiver_ok r1" using Cons.prems by (simp add: media_step_def)
  from Cons.IH [OF this] obtain es2 r2 where
    ps: "ready_packets ps r1 = Some (es2, r2)" "media_step r1 es2 r2" by blast
  show ?case using p ps media_step_trans [OF p(2) ps(2)] by simp
qed

section \<open>Datagrams\<close>

text \<open>A packet is left out, but the picture stays intact.\<close>

definition quiet_drop :: "NvstDropReason \<Rightarrow> bool" where
  "quiet_drop d \<longleftrightarrow> \<not> breaks (Dropped d) \<and> life Running (Dropped d) = Some Running"

lemma note_authenticated_feedback:
  "\<exists>q v. vr_feedback (note_authenticated fl packet now r) =
     publish_stream_packet fl (rh_ssrc (pk_header packet)) q (rh_timestamp (pk_header packet)) now v
       (snd (feedback_resolve_nack (pk_index packet)
          (case rh_gs_video_header (pk_header packet) of None \<Rightarrow> vr_feedback r
           | Some e \<Rightarrow> record_frame_packet (le32_at e 4) now (vr_feedback r))))"
  by (auto simp: note_authenticated_def Let_def with_feedback_def split_beta split: option.splits)

lemma note_authenticated_fields:
  "vr_state (note_authenticated fl packet now r) = vr_state r"
  "vr_config (note_authenticated fl packet now r) = vr_config r"
  "vr_next_frame_contiguous (note_authenticated fl packet now r) = vr_next_frame_contiguous r"
  "vr_frames_emitted (note_authenticated fl packet now r) = vr_frames_emitted r"
  "vr_frame_progress (note_authenticated fl packet now r) = watchdog_authenticated now (vr_frame_progress r)"
  "vr_srtp (note_authenticated fl packet now r) = vr_srtp r"
  "vr_srtcp (note_authenticated fl packet now r) = vr_srtcp r"
  "vr_reorder (note_authenticated fl packet now r) = vr_reorder r"
  "vr_fec_reorder (note_authenticated fl packet now r) = vr_fec_reorder r"
  "vr_assembler (note_authenticated fl packet now r) = vr_assembler r"
  by (auto simp: note_authenticated_def Let_def with_feedback_def split_beta split: option.splits)

lemma note_authenticated_step: "media_step r [] (note_authenticated fl packet now r)"
proof -
  let ?r = "note_authenticated fl packet now r"
  from note_authenticated_feedback [of fl packet now r] obtain q v where
    fb: "vr_feedback ?r = publish_stream_packet fl (rh_ssrc (pk_header packet)) q (rh_timestamp (pk_header packet)) now v
       (snd (feedback_resolve_nack (pk_index packet)
          (case rh_gs_video_header (pk_header packet) of None \<Rightarrow> vr_feedback r
           | Some e \<Rightarrow> record_frame_packet (le32_at e 4) now (vr_feedback r))))" by blast
  have "feedback_ok (vr_feedback ?r)" if "feedback_ok (vr_feedback r)"
    unfolding fb using that by (simp add: feedback_ops_ok split: option.splits)
  moreover have "nf_keyframe_needed (vr_feedback ?r) = nf_keyframe_needed (vr_feedback r)"
    unfolding fb by (simp add: publish_stream_packet_def feedback_resolve_nack_def record_frame_packet_def split_beta
        split: option.splits)
  moreover have "watchdog_kept w (watchdog_authenticated now w)" for w
    by (auto simp: watchdog_kept_def watchdog_authenticated_def)
  ultimately show ?thesis by (simp add: media_step_def receiver_ok_def note_authenticated_fields)
qed

lemma fec_turn_dropped:
  "fec_turn now (b, r) = Some res \<Longrightarrow> rr_dropped (snd (outcome res)) = rr_dropped r"
  by (auto simp: fec_turn_def fec_gap_def fec_complete_def fec_wait_def Let_def
      split: option.splits if_splits sum.splits prod.splits)

lemma fec_loop_dropped: "fec_loop now (b, r) = Some s \<Longrightarrow> rr_dropped (snd s) = rr_dropped r"
proof (induction now "(b, r)" arbitrary: b r rule: fec_loop.induct)
  case (1 now b r)
  then show ?case using fec_turn_dropped [of now b r]
    by (cases "fec_turn now (b, r)") (fastforce simp: fec_loop.simps [of now "(b, r)"] split: sum.splits)+
qed

lemma fec_push_dropped:
  assumes "FecReorderBuffer_push b packet layout now = Some (b', r)" and "rr_dropped r = Some d"
  shows "d = unsupported_repair \<or> d = DuplicateRtpPacket (pk_index packet)"
  using assms fec_loop_dropped [of now _ "dropped_result None"]
  by (fastforce simp: FecReorderBuffer_push_def FecBlock_insert_def Let_def dropped_result_def
      split: if_splits option.splits)

lemma reorder_push_dropped:
  assumes "rr_dropped (snd (RtpReorderBuffer_push b packet now)) = Some d"
  shows "d = StaleRtpPacket (pk_index packet) \<or> d = DuplicateRtpPacket (pk_index packet)"
  using assms by (auto simp: RtpReorderBuffer_push_def Let_def dropped_result_def split: if_splits)

definition result_ok :: "ReorderResult \<Rightarrow> bool" where
  "result_ok res \<longleftrightarrow> result_below res \<and> (\<forall>d. rr_dropped res = Some d \<longrightarrow> quiet_drop d)"

lemma reorder_packet_step:
  assumes "receiver_ok r" and "received_ok packet"
  shows "\<exists>res r'. reorder_packet packet now r = Some (res, r') \<and> media_step r [] r' \<and> result_ok res"
proof (cases "FecPacketLayout_from_packet packet")
  case None
  obtain b res where push: "RtpReorderBuffer_push (vr_reorder r) packet now = (b, res)" by (metis surj_pair)
  have "reorder_ok b" using push_ok [of "vr_reorder r" packet now] assms(1) push by (simp add: receiver_ok_def)
  moreover have "keys_below (rb_packets b) \<and> result_below res"
    using reorder_push_below [OF _ _ push] assms by (simp add: result_below_def receiver_ok_def received_ok_def index_limit_def)
  moreover have "quiet_drop d" if "rr_dropped res = Some d" for d
    using reorder_push_dropped [of "vr_reorder r" packet now d] push that by (auto simp: quiet_drop_def)
  moreover have "media_step r [] (r\<lparr> vr_reorder := b \<rparr>)"
    using calculation by (intro media_step_counter [OF media_step_none]) (simp_all add: receiver_ok_def)
  ultimately show ?thesis using None push by (auto simp: reorder_packet_def result_ok_def)
next
  case (Some layout)
  have pre: "fec_ok (vr_fec_reorder r)" "fec_below (vr_fec_reorder r)" "packet_ok packet" "pk_index packet < 2 ^ 48"
    using assms by (simp_all add: receiver_ok_def received_ok_def)
  from fec_push_ok [OF pre(1,3) Some] obtain b res where
    push: "FecReorderBuffer_push (vr_fec_reorder r) packet layout now = Some (b, res)" "fec_ok b" by blast
  note below = fec_push_below [OF pre(2,4) Some push(1)]
  have drop: "quiet_drop d" if "rr_dropped res = Some d" for d
    using fec_push_dropped [OF push(1) that] by (auto simp: quiet_drop_def)
  have "media_step r [] (r\<lparr> vr_fec_packets := n, vr_fec_reorder := b \<rparr>)" for n
    using push(2) below by (intro media_step_counter [OF media_step_none]) (simp_all add: receiver_ok_def)
  from this [of "vr_fec_packets r"] this [of "vr_fec_packets r + 1"]
  have s: "media_step r [] (r\<lparr> vr_fec_reorder := b \<rparr>)" "media_step r [] (r\<lparr> vr_fec_packets := vr_fec_packets r + 1, vr_fec_reorder := b \<rparr>)"
    by simp_all
  then show ?thesis
    using Some push below drop media_step_trans [OF s(1) media_step_reset] media_step_trans [OF s(2) media_step_reset]
    by (auto simp: reorder_packet_def result_ok_def Let_def)
qed

lemma reorder_outcome_step:
  assumes "receiver_ok r" and "result_ok res" and "reorder_outcome res now r = (es, r')"
  shows "media_step r es r'"
proof -
  define r0 where "r0 = r\<lparr> vr_fec_repaired_packets := vr_fec_repaired_packets r + rr_fec_repaired res \<rparr>"
  define r1 where "r1 = (case rr_nack res of None \<Rightarrow> r0 | Some (a, b) \<Rightarrow> with_feedback (feedback_request_nack a b now) r0)"
  define drops where "drops = (case rr_dropped res of None \<Rightarrow> [] | Some d \<Rightarrow> [Dropped d])"
  define r2 where "r2 = (case rr_dropped res of None \<Rightarrow> r1
    | Some d \<Rightarrow> if is_stale d then r1\<lparr> vr_stale_packets := vr_stale_packets r1 + 1 \<rparr> else r1)"
  have "media_step r [] r1"
    using assms(2) by (intro media_step_counter [OF media_step_none])
      (auto simp: r1_def r0_def with_feedback_def receiver_ok_def feedback_ops_ok result_ok_def result_below_def index_limit_def
        feedback_request_nack_def [THEN arg_cong [of _ _ nf_keyframe_needed]] split: option.splits)
  moreover have "media_step r1 drops r1"
    using assms(2) by (auto simp: drops_def result_ok_def quiet_drop_def media_step_none media_step_quiet split: option.splits)
  then have "media_step r1 drops r2"
    by (rule media_step_counter) (auto simp: r2_def receiver_ok_def split: option.splits)
  ultimately have s2: "media_step r drops r2" using media_step_trans by fastforce
  show ?thesis
  proof (cases "rr_recovery res")
    case None
    then have "(es, r') = (drops, r2)"
      using assms(3) by (auto simp: reorder_outcome_def Let_def r2_def r1_def r0_def drops_def split: option.splits)
    with s2 show ?thesis by simp
  next
    case (Some recovery)
    then have gap: "life Running (RecoveryNeeded recovery) = Some Running"
      using assms(2) by (auto simp: result_ok_def result_below_def gap_only_def split: NvstRecovery.splits)
    let ?r2 = "r2\<lparr> vr_packet_gap_recoveries := vr_packet_gap_recoveries r2 + 1 \<rparr>"
    have "(es, r') = (drops @ [RecoveryNeeded recovery], with_feedback feedback_clear_nacks (invalidate_picture ?r2))"
      using assms(3) Some by (auto simp: reorder_outcome_def Let_def r2_def r1_def r0_def drops_def split: option.splits)
    moreover have "media_step r drops ?r2"
      by (rule media_step_counter [OF s2]) (simp_all add: receiver_ok_def)
    ultimately show ?thesis
      using media_step_trans clear_nacks_step [OF media_step_invalidate [of "RecoveryNeeded recovery" ?r2, OF _ gap]] by fastforce
  qed
qed

lemma accept_packet_step:
  assumes "receiver_ok r" and "received_ok packet"
  shows "\<exists>es r'. accept_packet fl packet now r = Some (es, r') \<and> media_step r es r'"
proof -
  let ?r = "note_authenticated fl packet now r"
  note noted = note_authenticated_step [of r fl packet now]
  then have ok: "receiver_ok ?r" using assms(1) by (simp add: media_step_def)
  from reorder_packet_step [OF ok assms(2)] obtain res r1 where
    r1: "reorder_packet packet now ?r = Some (res, r1)" "media_step ?r [] r1" "result_ok res" by blast
  obtain es r2 where r2: "reorder_outcome res now r1 = (es, r2)" by (metis surj_pair)
  have ok1: "receiver_ok r1" using ok r1(2) by (simp add: media_step_def)
  note s2 = reorder_outcome_step [OF ok1 r1(3) r2]
  then have "receiver_ok r2" using ok1 by (simp add: media_step_def)
  from ready_packets_step [OF this] obtain es3 r3 where
    r3: "ready_packets (rr_ready res) r2 = Some (es3, r3)" "media_step r2 es3 r3" by blast
  have "media_step r (es @ es3) r3"
    using media_step_trans [OF media_step_trans [OF media_step_trans [OF noted r1(2)] s2] r3(2)] by simp
  then show ?thesis using r1(1) r2 r3(1) by (simp add: accept_packet_def)
qed

lemma unprotect_with_drops:
  assumes "unprotect_with c cipher datagram h i roc = Some (Inl d)"
  shows "quiet_drop d"
proof -
  have "d = MalformedRtp MissingAuthenticationTag \<or> d = AuthenticationFailed"
    if "unprotect_aes_gcm c datagram h roc k s t = Some (Inl d)" for k s t
    using that by (auto simp: unprotect_aes_gcm_def Let_def split: option.splits if_splits)
  moreover have "d = MalformedRtp MissingAuthenticationTag \<or> d = AuthenticationFailed"
    if "unprotect_aes_cm_hmac_sha1 c datagram h i roc k a s t = Some (Inl d)" for k a s t
    using that by (auto simp: unprotect_aes_cm_hmac_sha1_def Let_def split: if_splits)
  ultimately show ?thesis using assms by (cases cipher) (fastforce simp: unprotect_with_def quiet_drop_def)+
qed

lemma replay_drops:
  "guess_packet_index w q = Inl d \<Longrightarrow> quiet_drop d" "replay_check w i = Inl d \<Longrightarrow> quiet_drop d"
  by (auto simp: guess_packet_index_def replay_check_def quiet_drop_def Let_def split: option.splits if_splits)

lemma unprotect_drops:
  assumes "SrtpReceiver_unprotect c s datagram = Some (s', Inl d)"
  shows "quiet_drop d"
  using assms replay_drops unprotect_with_drops
  by (fastforce simp: SrtpReceiver_unprotect_def Let_def quiet_drop_def split: sum.splits option.splits if_splits)

lemma process_datagram_step:
  assumes "crypto_ok c" and "receiver_ok r"
  shows "\<exists>es r'. process_datagram fl c source datagram now r = Some (es, r') \<and> media_step r es r'"
proof -
  obtain S where S: "receiver_tracks (vr_srtp r) S" using assms(2) by (auto simp: receiver_ok_def)
  from unprotect_step [OF assms(1) S] obtain srtp res where
    un: "SrtpReceiver_unprotect c (vr_srtp r) datagram = Some (srtp, res)" "step_post (vr_srtp r) S srtp res" by blast
  have quiet: "media_step r [Dropped d] (r\<lparr> vr_srtp := srtp, vr_replay_rejections := n \<rparr>)"
    if "quiet_drop d" "\<exists>S. receiver_tracks srtp S" for d n
    by (rule media_step_counter [OF media_step_quiet]) (use that in \<open>simp_all add: receiver_ok_def quiet_drop_def\<close>)
  have idle: "\<not> breaks (Dropped d) \<and> s \<noteq> Running" if "idle_reason s = Some d" for s d
    using that by (auto simp: idle_reason_def split: NvstReceiverState.splits)
  have tracks: "\<exists>S. receiver_tracks srtp S" using un(2) S by (auto simp: step_post_def split: sum.splits)
  have accepted: "\<exists>es r'. accept_packet fl p now (r\<lparr> vr_srtp := srtp \<rparr>) = Some (es, r') \<and> media_step r es r'"
    if "res = Inr p" for p
  proof -
    have s: "media_step r [] (r\<lparr> vr_srtp := srtp \<rparr>)"
      by (rule media_step_counter [OF media_step_none]) (simp_all add: receiver_ok_def tracks)
    then have "receiver_ok (r\<lparr> vr_srtp := srtp \<rparr>)" using assms(2) by (simp add: media_step_def)
    moreover have "received_ok p" using un(2) that by (simp add: step_post_def)
    ultimately show ?thesis using accept_packet_step media_step_trans [OF s] by fastforce
  qed
  have wrong: "quiet_drop d" if "wrong_stream p r' = Some d" for p d and r' :: "'a NvstVideoReceiver"
    using that by (auto simp: wrong_stream_def quiet_drop_def Let_def split: option.splits if_splits)
  show ?thesis
  proof (cases "accepts_video_source (vr_config r) source \<and> idle_reason (vr_state r) = None")
    case False
    then have "\<exists>d. process_datagram fl c source datagram now r = Some ([Dropped d], r) \<and> \<not> breaks (Dropped d)
        \<and> (vr_state r = Running \<longrightarrow> life Running (Dropped d) = Some Running)"
      using idle by (cases "accepts_video_source (vr_config r) source") (auto simp: process_datagram_def)
    then obtain d where "process_datagram fl c source datagram now r = Some ([Dropped d], r)" "\<not> breaks (Dropped d)"
      "vr_state r = Running \<longrightarrow> life Running (Dropped d) = Some Running" by blast
    then show ?thesis using media_step_quiet [of "Dropped d" r] by auto
  next
    case True
    show ?thesis
    proof (cases res)
      case (Inl d)
      then have "quiet_drop d" using unprotect_drops un(1) by blast
      with True Inl un(1) quiet [OF _ tracks] show ?thesis by (simp add: process_datagram_def)
    next
      case (Inr p)
      have "media_step r [Dropped d] (r\<lparr> vr_srtp := srtp \<rparr>)" if "wrong_stream p (r\<lparr> vr_srtp := srtp \<rparr>) = Some d" for d
        using quiet [OF wrong [OF that] tracks, of "vr_replay_rejections r"] by simp
      with True un(1) Inr accepted show ?thesis
        by (auto simp: process_datagram_def Let_def split: option.splits)
    qed
  qed
qed

end
