(* ===== verification/ReceiverRuns.thy ===== *)
theory ReceiverRuns
  imports ReceiverSafety
begin

text \<open>
  Runs of the video receiver as a step relation: datagrams, commands, polls and the operations other threads
  apply to the shared feedback state, in any order. The events of a run are a word of the life cycle
  automaton, no reachable state panics, a frame after a loss is never marked contiguous, and a stalled
  stream escalates to a recovery.
\<close>

section \<open>Steps and runs\<close>

definition event_list :: "NvstReceiveEvent option \<Rightarrow> NvstReceiveEvent list" where
  "event_list e = (case e of None \<Rightarrow> [] | Some e \<Rightarrow> [e])"

lemma event_list_simps [simp]: "event_list None = []" "event_list (Some e) = [e]"
  by (simp_all add: event_list_def)

text \<open>What the worker sends for a progress event.\<close>

definition progress_events :: "NvstFrameProgressEvent option \<Rightarrow> NvstReceiveEvent list" where
  "progress_events e = (case e of
     None \<Rightarrow> []
   | Some (KeyframeRequested idle_for i) \<Rightarrow> [FrameProgressStall idle_for i False]
   | Some (ProgressRecoveryNeeded idle_for i) \<Rightarrow>
       [FrameProgressStall idle_for i True, RecoveryNeeded (FrameProgress idle_for i)])"

inductive receiver_step ::
  "'f float_ops \<Rightarrow> crypto \<Rightarrow> 'f NvstVideoReceiver \<Rightarrow> NvstReceiveEvent list \<Rightarrow> 'f NvstVideoReceiver \<Rightarrow> bool"
  for fl c where
  Datagram: "process_datagram fl c source datagram now r = Some (es, r') \<Longrightarrow> receiver_step fl c r es r'"
| Mjolnir: "process_mjolnir_payload ssrc now r = (es, r') \<Longrightarrow> receiver_step fl c r es r'"
| Pause: "pause fl now r = (e, r') \<Longrightarrow> receiver_step fl c r (event_list e) r'"
| Resume: "resume fl now r = (e, r') \<Longrightarrow> receiver_step fl c r (event_list e) r'"
| Recover: "recover fl now r = (e, r') \<Longrightarrow> receiver_step fl c r (event_list e) r'"
| Stop: "stop fl now r = (e, r') \<Longrightarrow> receiver_step fl c r (event_list e) r'"
| PollTimeout: "poll_timeout fl now r = (e, r') \<Longrightarrow> receiver_step fl c r (event_list e) r'"
| PollProgress: "poll_frame_progress now policy r = (e, r') \<Longrightarrow> receiver_step fl c r (progress_events e) r'"
| PollReport: "poll_receiver_report fl c now r = Some (report_bytes, r') \<Longrightarrow> receiver_step fl c r [] r'"
| Shared: "feedback_op_ok x \<Longrightarrow> \<not> brings_keyframe x \<Longrightarrow> receiver_step fl c r [] (with_feedback (feedback_step fl x) r)"

inductive receiver_run ::
  "'f float_ops \<Rightarrow> crypto \<Rightarrow> 'f NvstVideoReceiver \<Rightarrow> NvstReceiveEvent list \<Rightarrow> 'f NvstVideoReceiver \<Rightarrow> bool"
  for fl c where
  run_nil: "receiver_run fl c r [] r"
| run_step: "receiver_step fl c r es r' \<Longrightarrow> receiver_run fl c r' es' r'' \<Longrightarrow> receiver_run fl c r (es @ es') r''"

inductive_cases receiver_runE: "receiver_run fl c r es r'"

section \<open>The control operations\<close>

text \<open>
  What every step keeps: the invariant, the life cycle automaton and the marking of frames. The media steps
  are instances of it, and it composes along a run.
\<close>

definition control_step :: "'f NvstVideoReceiver \<Rightarrow> NvstReceiveEvent list \<Rightarrow> 'f NvstVideoReceiver \<Rightarrow> bool" where
  "control_step r es r' \<longleftrightarrow>
     (receiver_ok r \<longrightarrow> receiver_ok r') \<and> vr_config r' = vr_config r
     \<and> life_run (vr_state r) es = Some (vr_state r')
     \<and> (\<forall>b. (b \<longrightarrow> \<not> vr_next_frame_contiguous r) \<longrightarrow>
          marked b es \<and> (broken_after b es \<longrightarrow> \<not> vr_next_frame_contiguous r'))
     \<and> vr_frames_emitted r' = vr_frames_emitted r + length (filter is_frame es)"

lemma control_step_trans:
  "control_step r es r' \<Longrightarrow> control_step r' es' r'' \<Longrightarrow> control_step r (es @ es') r''"
  by (auto simp: control_step_def marked_append broken_after_append life_run_append)

lemma control_step_none: "control_step r [] r"
  by (simp add: control_step_def)

lemma media_control: "media_step r es r' \<Longrightarrow> vr_state r = Running \<Longrightarrow> control_step r es r'"
  by (simp add: media_step_def control_step_def life_run_const)

lemma reset_media_state_ok: "receiver_ok r \<Longrightarrow> receiver_ok (reset_media_state fl now r)"
proof -
  assume r: "receiver_ok r"
  then have "feedback_ok ((vr_feedback r)\<lparr> nf_frame_packet_timings := [] \<rparr>)"
    by (simp add: receiver_ok_def feedback_ok_def)
  from feedback_ops_ok(9) [OF this, of fl now] r show ?thesis
    by (simp add: receiver_ok_def reset_media_state_def with_feedback_def reorder_ok_reset fec_ok_reset
        assembler_ok_reset) (simp add: RtpReorderBuffer_reset_def FecReorderBuffer_reset_def fec_below_def)
qed

lemma reset_media_state_fields [simp]:
  "vr_state (reset_media_state fl now r) = vr_state r" "vr_config (reset_media_state fl now r) = vr_config r"
  "\<not> vr_next_frame_contiguous (reset_media_state fl now r)"
  "vr_frames_emitted (reset_media_state fl now r) = vr_frames_emitted r"
  "vr_frame_progress (reset_media_state fl now r) = Watchdog_default"
  by (simp_all add: reset_media_state_def with_feedback_def)

lemma reset_control:
  assumes "life (vr_state r) e = Some (vr_state r')" and "\<not> is_frame e"
    and "receiver_ok (reset_media_state fl now r) \<Longrightarrow> receiver_ok r'" and "vr_config r' = vr_config r"
    and "\<not> vr_next_frame_contiguous r'" and "vr_frames_emitted r' = vr_frames_emitted r"
  shows "control_step r [e] r'"
  using assms reset_media_state_ok [of r fl now] by (cases e) (auto simp: control_step_def)

lemma lifecycle_control:
  "pause fl now r = (e, r') \<Longrightarrow> control_step r (event_list e) r'"
  "resume fl now r = (e, r') \<Longrightarrow> control_step r (event_list e) r'"
  "recover fl now r = (e, r') \<Longrightarrow> control_step r (event_list e) r'"
  "stop fl now r = (e, r') \<Longrightarrow> control_step r (event_list e) r'"
  "poll_timeout fl now r = (e, r') \<Longrightarrow> control_step r (event_list e) r'"
  by (auto simp: pause_def resume_def recover_def stop_def poll_timeout_def restart_def Let_def control_step_none
      intro!: reset_control [where fl = fl and now = now] split: if_splits) (simp_all add: receiver_ok_def)

lemma control_step_quiet:
  assumes "receiver_ok r \<longrightarrow> receiver_ok r'" and "vr_config r' = vr_config r"
    and "vr_next_frame_contiguous r' = vr_next_frame_contiguous r" and "vr_frames_emitted r' = vr_frames_emitted r"
    and "vr_state r' = vr_state r"
  shows "control_step r [] r'"
  using assms by (simp add: control_step_def)

lemma request_keyframe_receiver_ok: "receiver_ok r \<Longrightarrow> receiver_ok (with_feedback request_keyframe r)"
  by (simp add: receiver_ok_def with_feedback_def feedback_ops_ok)

lemma poll_progress_control:
  assumes "poll_frame_progress now policy r = (e, r')"
  shows "control_step r (progress_events e) r'"
  using assms request_keyframe_receiver_ok
  by (auto simp: poll_frame_progress_def progress_events_def Let_def control_step_none control_step_def
      with_feedback_def receiver_ok_def feedback_ops_ok
      split: if_splits option.splits NvstFrameProgressStage.splits)

lemma poll_report_total:
  assumes "crypto_ok c" and "receiver_ok r"
  shows "\<exists>p r'. poll_receiver_report fl c now r = Some (p, r') \<and> control_step r [] r'"
proof (cases "vr_state r \<noteq> Running \<or> vr_srtcp r = None")
  case True
  then show ?thesis by (auto simp: poll_receiver_report_def control_step_none)
next
  case False
  then obtain sender where s: "vr_state r = Running" "vr_srtcp r = Some sender" by auto
  then have "sender_ok sender" using assms(2) by (simp add: receiver_ok_def)
  from sender_poll_ok [OF assms(1) this, of "fst (report_snapshot fl True (vr_feedback r))" now] obtain sender' p where
    poll: "SrtcpSender_poll c sender (fst (report_snapshot fl True (vr_feedback r))) now = Some (sender', p)" "sender_ok sender'"
    by blast
  let ?r = "r\<lparr> vr_feedback := snd (report_snapshot fl True (vr_feedback r)), vr_srtcp := Some sender' \<rparr>"
  have "poll_receiver_report fl c now r = Some (p, ?r)"
    using s poll(1) by (simp add: poll_receiver_report_def split_beta)
  moreover have "control_step r [] ?r"
    by (rule control_step_quiet) (use poll(2) feedback_ops_ok(10) in \<open>auto simp: receiver_ok_def\<close>)
  ultimately show ?thesis by blast
qed

lemma poll_report_control:
  "crypto_ok c \<Longrightarrow> receiver_ok r \<Longrightarrow> poll_receiver_report fl c now r = Some (p, r') \<Longrightarrow> control_step r [] r'"
  by (metis poll_report_total option.inject prod.inject)

lemma datagram_control:
  assumes "crypto_ok c" and "receiver_ok r" and "process_datagram fl c source datagram now r = Some (es, r')"
  shows "control_step r es r'"
proof (cases "vr_state r = Running")
  case True
  from process_datagram_step [OF assms(1,2)] assms(3) have "media_step r es r'"
    by (metis option.inject prod.inject)
  with True show ?thesis by (simp add: media_control)
next
  case False
  then obtain d where "es = [Dropped d]" "r' = r" "life (vr_state r) (Dropped d) = Some (vr_state r)" "\<not> breaks (Dropped d)"
    using assms(3) by (auto simp: process_datagram_def idle_reason_def split: if_splits NvstReceiverState.splits)
  then show ?thesis by (auto simp: control_step_def)
qed

lemma mjolnir_control: "process_mjolnir_payload ssrc now r = (es, r') \<Longrightarrow> control_step r es r'"
  by (auto simp: process_mjolnir_payload_def idle_reason_def control_step_def receiver_ok_def
      split: NvstReceiverState.splits)

lemma receiver_step_control:
  assumes "crypto_ok c" and "receiver_step fl c r es r'" and "receiver_ok r"
  shows "control_step r es r'"
  using assms(2,3)
proof cases
  case Datagram
  then show ?thesis by (intro datagram_control [OF assms(1,3)])
next
  case PollReport
  then show ?thesis by (simp add: poll_report_control [OF assms(1,3)])
next
  case (Shared x)
  then show ?thesis using feedback_step_ok [of "vr_feedback r" x fl]
    by (auto simp: with_feedback_def receiver_ok_def intro!: control_step_quiet)
qed (simp_all add: mjolnir_control lifecycle_control poll_progress_control)

lemma receiver_run_control:
  assumes "crypto_ok c" and "receiver_run fl c r es r'" and "receiver_ok r"
  shows "control_step r es r'"
  using assms(2,3)
proof (induction rule: receiver_run.induct)
  case (run_nil r)
  then show ?case by (simp add: control_step_none)
next
  case (run_step r es r' es' r'')
  then have s: "control_step r es r'" using receiver_step_control [OF assms(1)] by blast
  then have "receiver_ok r'" using run_step.prems by (simp add: control_step_def)
  with s run_step.IH show ?case by (blast intro: control_step_trans)
qed

section \<open>A new receiver\<close>

lemma receiver_ok_new:
  assumes "material_ok (vc_srtp cfg)" and "feedback_ok s"
  shows "receiver_ok (NvstVideoReceiver_new c cfg s now)"
proof -
  have "keys_below (rb_packets (RtpReorderBuffer_new n))" "fec_below (FecReorderBuffer_new m)" for n m
    by (simp_all add: RtpReorderBuffer_new_def FecReorderBuffer_new_def fec_below_def)
  then show ?thesis
    using from_material_tracks [OF assms(1), of c] sender_ok_material [OF assms(1), of c] assms(2)
    by (auto simp: receiver_ok_def NvstVideoReceiver_new_def reorder_ok_new fec_ok_new assembler_ok_new)
qed

lemma run_from_new:
  assumes "crypto_ok c" and "material_ok (vc_srtp cfg)"
    and "receiver_run fl c (NvstVideoReceiver_new c cfg (NvstFeedbackState_default fl) now) es r"
  shows "control_step (NvstVideoReceiver_new c cfg (NvstFeedbackState_default fl) now) es r" and "receiver_ok r"
proof -
  have ok: "receiver_ok (NvstVideoReceiver_new c cfg (NvstFeedbackState_default fl) now)"
    by (rule receiver_ok_new [OF assms(2) feedback_ok_default])
  show s: "control_step (NvstVideoReceiver_new c cfg (NvstFeedbackState_default fl) now) es r"
    using receiver_run_control [OF assms(1,3) ok] .
  with ok show "receiver_ok r" by (simp add: control_step_def)
qed

text \<open>A configuration for the examples below.\<close>

definition sample_config :: NvstVideoConfig where
  "sample_config = \<lparr> vc_client_udp_port = 0, vc_video_peer = \<lparr> sa_ip = V4 [10, 0, 0, 1], sa_port = 4000 \<rparr>,
     vc_video_peer_port_end = None, vc_bundle_peer = None,
     vc_srtp = MatAeadAes128Gcm (replicate 16 1) (replicate 12 2) 16,
     vc_ping_payload = [], vc_ping_version = None, vc_bundle_natt_remote_username = None,
     vc_stun_credentials = None, vc_remote_dtls_fingerprint = None, vc_rtcp_on_sctp = True,
     vc_qos_timings_v5 = True, vc_frame_pacing_feedback = True, vc_max_control_report_bytes = 1024,
     vc_hid_device_mask = 0, vc_mjolnir_udp_port = None, vc_codec = H264, vc_audio_track = None,
     vc_microphone_available = False, vc_expected_payload_type = None, vc_expected_ssrc = None,
     vc_reorder_window_packets = 64, vc_max_access_unit_bytes = 4096, vc_timeout = secs 2,
     vc_startup_timeout = secs 10, vc_frame_time_us = 16666, vc_video_packet_size = 1024 \<rparr>"

definition sample_receiver :: "int NvstVideoReceiver" where
  "sample_receiver = NvstVideoReceiver_new sample_crypto sample_config (NvstFeedbackState_default int_float_ops) 0"

lemma sample_material: "material_ok (vc_srtp sample_config)"
  by (simp add: sample_config_def material_ok_def)

section \<open>Properties\<close>

text \<open>C1: a receiver set up from valid key material never panics: after any run of datagrams, commands, polls and
  concurrent use of the feedback state, handling the next datagram and building the next receiver report
  return, and the reorder buffers, the frame being assembled and the NACK ranges are well formed.\<close>

theorem receive_path_no_panic:
  assumes "crypto_ok c" and "material_ok (vc_srtp cfg)"
    and "receiver_run fl c (NvstVideoReceiver_new c cfg (NvstFeedbackState_default fl) start) es r"
  shows "process_datagram fl c source datagram now r \<noteq> None \<and> poll_receiver_report fl c now r \<noteq> None
    \<and> reorder_ok (vr_reorder r) \<and> fec_ok (vr_fec_reorder r) \<and> assembler_ok (vr_assembler r)
    \<and> feedback_ok (vr_feedback r)"
proof -
  have ok: "receiver_ok r" by (rule run_from_new [OF assms])
  then show ?thesis
    using process_datagram_step [OF assms(1) ok, of fl source datagram now] poll_report_total [OF assms(1) ok, of fl now]
    by (auto simp: receiver_ok_def)
qed

lemma sample_pause: "receiver_run int_float_ops sample_crypto sample_receiver [Lifecycle Paused]
    (snd (pause int_float_ops 5 sample_receiver))"
proof -
  have "vr_state sample_receiver = Running" by (simp add: sample_receiver_def NvstVideoReceiver_new_def)
  then have "pause int_float_ops 5 sample_receiver = (Some (Lifecycle Paused), snd (pause int_float_ops 5 sample_receiver))"
    by (simp add: pause_def)
  from run_step [OF Pause [OF this] run_nil, of sample_crypto] show ?thesis by simp
qed

theorem receive_path_no_panic_witness:
  "process_datagram int_float_ops sample_crypto \<lparr> sa_ip = V4 [10, 0, 0, 1], sa_port = 4000 \<rparr> [0x80, 96] 9
     (snd (pause int_float_ops 5 sample_receiver)) \<noteq> None"
  using receive_path_no_panic [OF sample_crypto_ok sample_material sample_pause [unfolded sample_receiver_def]]
  by (simp add: sample_receiver_def)

text \<open>C10: the events of a receiver, in the order it announces them, form a word of the life cycle automaton, which
  ends in the receiver's state: frames and recoveries are announced only while it runs, it runs again only
  after a resume or a recovery, and nothing follows a stop but dropped datagrams.\<close>

theorem lifecycle_refined:
  assumes "crypto_ok c" and "material_ok (vc_srtp cfg)"
    and "receiver_run fl c (NvstVideoReceiver_new c cfg (NvstFeedbackState_default fl) start) es r"
  shows "life_run Running es = Some (vr_state r)"
  using run_from_new(1) [OF assms] by (simp add: control_step_def NvstVideoReceiver_new_def)

theorem lifecycle_refined_witness:
  "vr_state (snd (pause int_float_ops 5 sample_receiver)) = Paused"
  using lifecycle_refined [OF sample_crypto_ok sample_material sample_pause [unfolded sample_receiver_def]]
  by (simp add: sample_receiver_def)

text \<open>The first frame after a break, from the marking of a whole run.\<close>

lemma marked_broken: "marked True (ys @ Frame f # zs) \<Longrightarrow> \<forall>y\<in>set ys. \<not> is_frame y \<Longrightarrow> \<not> au_contiguous f"
proof (induction ys)
  case (Cons y ys)
  then have "marked (True \<or> breaks y) (ys @ Frame f # zs)" by (cases y) auto
  with Cons show ?case by simp
qed simp

text \<open>C7: whenever a packet gap, a timeout, a discontinuity, an unusable access unit or a change of the life cycle has
  been announced, the next frame handed on is marked as not contiguous, so a decoder never takes it for the
  successor of the picture it has.\<close>

theorem frame_after_loss_not_contiguous:
  assumes "crypto_ok c" and "material_ok (vc_srtp cfg)"
    and "receiver_run fl c (NvstVideoReceiver_new c cfg (NvstFeedbackState_default fl) start)
          (xs @ e # ys @ Frame f # zs) r"
    and "breaks e" and "\<forall>y\<in>set ys. \<not> is_frame y"
  shows "\<not> au_contiguous f"
proof -
  have m: "marked False (xs @ e # ys @ Frame f # zs)"
    using run_from_new(1) [OF assms(1-3)] by (auto simp: control_step_def)
  then have "marked (broken_after False xs \<or> breaks e) (ys @ Frame f # zs)"
    using assms(4) by (cases e) (auto simp: marked_append)
  then show ?thesis using assms(4,5) marked_broken by simp
qed

subsection \<open>A frame on the wire\<close>

text \<open>One packet that carries a whole key frame, and the datagram a sender makes of it.\<close>

definition frame_extension :: bytes where
  "frame_extension = [0, 1, 0, 0, 1, 0, 0, 0, 7, 0, 0, 0, 0, 0, 0, 0]"

definition frame_plaintext :: bytes where
  "frame_plaintext = gs_datagram 0 [] False 96 5 7 11 frame_extension [0, 0, 0, 1, 0x65, 7]"

definition frame_packet :: RtpPacket where
  "frame_packet = \<lparr> pk_index = 5,
     pk_header = \<lparr> rh_payload_type = 96, rh_sequence_number = 5, rh_timestamp = 7, rh_ssrc = 11,
       rh_payload_offset = 32, rh_has_padding = False, rh_gs_video_header = Some frame_extension \<rparr>,
     pk_plaintext = frame_plaintext, pk_origin = Authenticated \<rparr>"

definition frame_unit :: "bool \<Rightarrow> EncodedVideoAccessUnit" where
  "frame_unit contiguous = \<lparr> au_codec = H264, au_timestamp = 7, au_frame_index = 1,
     au_first_stream_packet_index = 1, au_keyframe = True, au_contiguous = contiguous,
     au_bytes = [0, 0, 0, 1, 0x65, 7] \<rparr>"

lemma frame_parse: "RtpHeader_parse frame_plaintext = Inr (pk_header frame_packet)"
  using gs_datagram_parse [of 0 "[]" frame_extension 96 False 5 7 11 "[0, 0, 0, 1, 0x65, 7]"]
  by (simp add: frame_plaintext_def frame_packet_def frame_extension_def)

lemma frame_payload: "RtpHeader_payload (pk_header frame_packet) frame_plaintext = Inr [0, 0, 0, 1, 0x65, 7]"
  by (simp add: RtpHeader_payload_def frame_packet_def frame_plaintext_def gs_datagram_def frame_extension_def be16_def be32_def)

lemma frame_nv: "NvVideoPacket_parse (pk_header frame_packet) media =
    Inr (\<lparr> nv_stream_packet_index = 1, nv_frame_index = 1, nv_flags = 7, nv_fec_current_block = 0,
          nv_fec_last_block = 0, nv_is_fec = False \<rparr>, media)"
  by (simp add: NvVideoPacket_parse_def frame_packet_def frame_extension_def le32_at_def from_le32_def from_be32_def
      STREAM_PACKET_INDEX_MASK_def)

lemma frame_layout: "FecPacketLayout_from_packet frame_packet = None"
  by (simp add: FecPacketLayout_from_packet_def frame_packet_def frame_extension_def le32_at_def from_le32_def
      from_be32_def Let_def)

lemma frame_datagram:
  "\<exists>datagram srtp. SrtpReceiver_unprotect sample_crypto (SrtpReceiver_from_material sample_crypto (vc_srtp sample_config)) datagram
     = Some (srtp, Inr frame_packet)"
proof -
  let ?r = "SrtpReceiver_from_material sample_crypto (vc_srtp sample_config)"
  obtain k s where r: "sr_cipher ?r = AeadAes128Gcm k s 16" and k: "length k = 16"
    by (simp add: SrtpReceiver_from_material_def sample_config_def)
  have w: "sr_replay ?r = ReplayWindow_default" by (simp add: SrtpReceiver_from_material_def)
  let ?iv = "srtp_gcm_iv s (rh_ssrc (pk_header frame_packet)) (of_nat (5 div 65536)) (rh_sequence_number (pk_header frame_packet))"
  obtain d where d: "protect_aes_gcm sample_crypto frame_plaintext (rh_payload_offset (pk_header frame_packet)) k ?iv 16 = Some d"
    using protect_some [OF sample_crypto_ok disjI1 [OF k], of 16] by blast
  have guess: "guess_packet_index (sr_replay ?r) (rh_sequence_number (pk_header frame_packet)) = Inr 5"
    by (simp add: w guess_packet_index_def ReplayWindow_default_def frame_packet_def)
  have check: "replay_check (sr_replay ?r) 5 = Inr ()"
    by (simp add: w replay_check_def ReplayWindow_default_def)
  have tr: "replay_tracks (sr_replay ?r) {}" unfolding w by (rule srtp.start_tracks)
  have "\<lparr> pk_index = 5, pk_header = pk_header frame_packet, pk_plaintext = frame_plaintext, pk_origin = Authenticated \<rparr> = frame_packet"
    by (simp add: frame_packet_def)
  with unprotect_protected [OF disjI2 [OF r] frame_parse frame_payload guess _ tr check d] show ?thesis by auto
qed

lemma frame_reordered:
  assumes "rb_next_index b = None" and "rb_packets b = []" and "0 < rb_max_packets b"
  shows "\<exists>b'. RtpReorderBuffer_push b frame_packet now = (b', (dropped_result None)\<lparr> rr_ready := [frame_packet] \<rparr>)"
  using assms by (simp add: RtpReorderBuffer_push_def reorder_loop.simps drain.simps
      bt_get_def bt_remove_def bt_first_def dropped_result_def Let_def)

lemma frame_assembled:
  assumes "va_codec a = H264" and "va_max_access_unit_bytes a = 4096"
  shows "\<exists>a'. Assembler_push a \<lparr> nv_stream_packet_index = 1, nv_frame_index = 1, nv_flags = 7, nv_fec_current_block = 0,
          nv_fec_last_block = 0, nv_is_fec = False \<rparr> 7 [0, 0, 0, 1, 0x65, 7] = Some (a', Inr (Some (frame_unit True)))"
  using assms
  by (simp add: Assembler_push_def start_frame_def trim_last_packet_def finish_frame_def Let_def is_start_of_frame_def
      is_end_of_frame_def FLAG_SOF_def FLAG_EOF_def video_picture_payload_def find_annex_b_start_code_def
      MAX_GS_FRAME_HEADER_BYTES_def strip_trailing_access_unit_delimiter_def annex_b_nals.simps is_aud_def
      video_access_unit_is_keyframe_def is_random_access_nal_def frame_unit_def)

lemma frame_accepted:
  assumes "rb_next_index (vr_reorder r) = None" and "rb_packets (vr_reorder r) = []" and "0 < rb_max_packets (vr_reorder r)"
    and "va_codec (vr_assembler r) = H264" and "va_max_access_unit_bytes (vr_assembler r) = 4096"
    and "va_current_frame (vr_assembler r) = None" and "vr_frame_progress r = Watchdog_default"
  shows "\<exists>r'. accept_packet fl frame_packet now r = Some ([Frame (frame_unit (vr_next_frame_contiguous r))], r')"
proof -
  note n = note_authenticated_fields [of fl frame_packet now r]
  let ?r = "note_authenticated fl frame_packet now r"
  obtain b where push: "RtpReorderBuffer_push (vr_reorder ?r) frame_packet now =
      (b, (dropped_result None)\<lparr> rr_ready := [frame_packet] \<rparr>)"
    using frame_reordered [of "vr_reorder ?r" now] assms(1-3) n by auto
  obtain a where a: "Assembler_push (vr_assembler ?r) \<lparr> nv_stream_packet_index = 1, nv_frame_index = 1, nv_flags = 7,
      nv_fec_current_block = 0, nv_fec_last_block = 0, nv_is_fec = False \<rparr> 7 [0, 0, 0, 1, 0x65, 7]
      = Some (a, Inr (Some (frame_unit True)))"
    using frame_assembled [of "vr_assembler ?r"] assms(4,5) n by auto
  have p: "pk_plaintext frame_packet = frame_plaintext" "pk_origin frame_packet = Authenticated"
    "rh_timestamp (pk_header frame_packet) = 7"
    by (simp_all add: frame_packet_def)
  show ?thesis
    using push a assms(6,7) n frame_payload frame_nv frame_layout p
    by (simp add: accept_packet_def reorder_packet_def reorder_outcome_def dropped_result_def ready_packet_def
        video_packet_def assemble_packet_def deliver_frame_def watchdog_assembled_def watchdog_authenticated_def
        Watchdog_default_def Let_def frame_unit_def is_start_of_frame_def FLAG_SOF_def)
qed

definition resumed_receiver :: "int NvstVideoReceiver" where
  "resumed_receiver = restart int_float_ops 8 ((reset_media_state int_float_ops 5 sample_receiver)\<lparr> vr_state := Paused \<rparr>)"

lemma resumed_fields:
  "vr_config resumed_receiver = sample_config" "vr_state resumed_receiver = Running"
  "vr_srtp resumed_receiver = SrtpReceiver_from_material sample_crypto (vc_srtp sample_config)"
  "rb_next_index (vr_reorder resumed_receiver) = None" "rb_packets (vr_reorder resumed_receiver) = []"
  "rb_max_packets (vr_reorder resumed_receiver) = 64" "va_codec (vr_assembler resumed_receiver) = H264"
  "va_max_access_unit_bytes (vr_assembler resumed_receiver) = 4096" "va_current_frame (vr_assembler resumed_receiver) = None"
  "vr_frame_progress resumed_receiver = Watchdog_default" "\<not> vr_next_frame_contiguous resumed_receiver"
  "vr_bound_ssrc resumed_receiver = None"
  by (simp_all add: resumed_receiver_def restart_def) (simp_all add: reset_media_state_def with_feedback_def
      sample_receiver_def NvstVideoReceiver_new_def RtpReorderBuffer_reset_def RtpReorderBuffer_new_def Assembler_new_def
      sample_config_def)

lemma frame_received:
  "\<exists>datagram r'. process_datagram int_float_ops sample_crypto \<lparr> sa_ip = V4 [10, 0, 0, 1], sa_port = 4000 \<rparr> datagram 9
     resumed_receiver = Some ([Frame (frame_unit False)], r')"
proof -
  note f = resumed_fields
  obtain datagram srtp where
    un: "SrtpReceiver_unprotect sample_crypto (vr_srtp resumed_receiver) datagram = Some (srtp, Inr frame_packet)"
    using frame_datagram f(3) by auto
  have "wrong_stream frame_packet (resumed_receiver\<lparr> vr_srtp := srtp \<rparr>) = None"
    using f(1,12) by (simp add: wrong_stream_def sample_config_def)
  moreover obtain r' where "accept_packet int_float_ops frame_packet 9 (resumed_receiver\<lparr> vr_srtp := srtp \<rparr>)
      = Some ([Frame (frame_unit False)], r')"
    using frame_accepted [of "resumed_receiver\<lparr> vr_srtp := srtp \<rparr>" int_float_ops 9] f by auto
  moreover have "accepts_video_source (vr_config resumed_receiver) \<lparr> sa_ip = V4 [10, 0, 0, 1], sa_port = 4000 \<rparr>"
    using f(1) by (simp add: accepts_video_source_def sample_config_def)
  ultimately have "process_datagram int_float_ops sample_crypto \<lparr> sa_ip = V4 [10, 0, 0, 1], sa_port = 4000 \<rparr> datagram 9
      resumed_receiver = Some ([Frame (frame_unit False)], r')"
    using un f(2) by (simp add: process_datagram_def idle_reason_def)
  then show ?thesis by blast
qed

lemma frame_run:
  "\<exists>r'. receiver_run int_float_ops sample_crypto sample_receiver
     [Lifecycle Paused, Lifecycle Running, Frame (frame_unit False)] r'"
proof -
  let ?p = "(reset_media_state int_float_ops 5 sample_receiver)\<lparr> vr_state := Paused \<rparr>"
  have "vr_state sample_receiver = Running" by (simp add: sample_receiver_def NvstVideoReceiver_new_def)
  then have p: "pause int_float_ops 5 sample_receiver = (Some (Lifecycle Paused), ?p)" by (simp add: pause_def)
  have r: "resume int_float_ops 8 ?p = (Some (Lifecycle Running), resumed_receiver)"
    by (simp add: resume_def resumed_receiver_def)
  obtain datagram r' where "process_datagram int_float_ops sample_crypto \<lparr> sa_ip = V4 [10, 0, 0, 1], sa_port = 4000 \<rparr>
      datagram 9 resumed_receiver = Some ([Frame (frame_unit False)], r')"
    using frame_received by blast
  from run_step [OF Pause [OF p] run_step [OF Resume [OF r] run_step [OF Datagram [OF this] run_nil]]]
  show ?thesis by auto
qed

theorem frame_after_loss_not_contiguous_witness:
  "\<exists>r'. receiver_run int_float_ops sample_crypto sample_receiver
     [Lifecycle Paused, Lifecycle Running, Frame (frame_unit False)] r' \<and> \<not> au_contiguous (frame_unit False)"
proof -
  obtain r' where r': "receiver_run int_float_ops sample_crypto sample_receiver
     [Lifecycle Paused, Lifecycle Running, Frame (frame_unit False)] r'" using frame_run by blast
  then have "receiver_run int_float_ops sample_crypto (NvstVideoReceiver_new sample_crypto sample_config
      (NvstFeedbackState_default int_float_ops) 0) ([Lifecycle Paused] @ Lifecycle Running # [] @ Frame (frame_unit False) # []) r'"
    by (simp add: sample_receiver_def)
  from frame_after_loss_not_contiguous [OF sample_crypto_ok sample_material this] r' show ?thesis by auto
qed

section \<open>Escalation of a stall\<close>

text \<open>Datagrams, one after another.\<close>

fun process_datagrams :: "'f float_ops \<Rightarrow> crypto \<Rightarrow> (SocketAddr \<times> bytes \<times> instant) list \<Rightarrow> 'f NvstVideoReceiver
    \<Rightarrow> (NvstReceiveEvent list \<times> 'f NvstVideoReceiver) option" where
  "process_datagrams fl c [] r = Some ([], r)"
| "process_datagrams fl c ((source, datagram, now) # ds) r =
     (case process_datagram fl c source datagram now r of
        None \<Rightarrow> None
      | Some (es, r) \<Rightarrow> map_option (\<lambda>(es', r). (es @ es', r)) (process_datagrams fl c ds r))"

lemma process_datagrams_step:
  assumes "crypto_ok c" and "receiver_ok r"
  shows "\<exists>es r'. process_datagrams fl c ds r = Some (es, r') \<and> media_step r es r'"
  using assms(2)
proof (induction ds arbitrary: r)
  case Nil
  then show ?case by (simp add: media_step_none)
next
  case (Cons d ds)
  obtain source datagram now where d: "d = (source, datagram, now)" by (cases d)
  from process_datagram_step [OF assms(1) Cons.prems] obtain es1 r1 where
    p: "process_datagram fl c source datagram now r = Some (es1, r1)" "media_step r es1 r1" by blast
  then have "receiver_ok r1" using Cons.prems by (simp add: media_step_def)
  from Cons.IH [OF this] obtain es2 r2 where
    ps: "process_datagrams fl c ds r1 = Some (es2, r2)" "media_step r1 es2 r2" by blast
  show ?case using d p ps media_step_trans [OF p(2) ps(2)] by simp
qed

lemma progress_base_kept:
  assumes "watchdog_kept (vr_frame_progress r) (vr_frame_progress r')" and "fw_first_authenticated_at (vr_frame_progress r) \<noteq> None"
  shows "progress_base r' \<noteq> None"
  using assms by (auto simp: progress_base_def watchdog_kept_def Let_def split: option.splits)

text \<open>C16: a stream whose packets still arrive but from which no frame is assembled any more does not stall for ever:
  once the stall limit has passed a key frame is requested, whatever packets arrive meanwhile the request
  stays pending, and when the grace period has passed too the receiver asks for a recovery, from which
  \<open>recover\<close> brings it back.\<close>

theorem stall_escalates:
  assumes "crypto_ok c" and "receiver_ok r" and "vr_state r = Running" and "fw_stage (vr_frame_progress r) = Tracking"
    and "fw_first_authenticated_at (vr_frame_progress r) \<noteq> None"
    and "progress_base r = Some base" and "base + fp_stall policy \<le> t1" and "t1 + fp_keyframe_grace policy \<le> t2"
    and "poll_frame_progress t1 policy r = (e1, r1)" and "process_datagrams fl c ds r1 = Some (es, r2)"
    and "\<forall>e\<in>set es. \<not> is_frame e" and "poll_frame_progress t2 policy r2 = (e2, r3)"
    and "recover fl t3 r3 = (e3, r4)"
  shows "(\<exists>i. e1 = Some (KeyframeRequested (t1 - base) i)) \<and> keyframe_request_pending (vr_feedback r2)
    \<and> (\<exists>idle i. e2 = Some (ProgressRecoveryNeeded idle i)) \<and> vr_state r3 = RecoveryRequired
    \<and> e3 = Some (Lifecycle Running) \<and> vr_state r4 = Running \<and> vr_frame_progress r4 = Watchdog_default"
proof -
  have "\<not> t1 - base < fp_stall policy" using assms(7) by simp
  then have e1: "\<exists>i. e1 = Some (KeyframeRequested (t1 - base) i)"
    and w1: "fw_stage (vr_frame_progress r1) = KeyframePending" "fw_keyframe_requested_at (vr_frame_progress r1) = Some t1"
      "fw_first_authenticated_at (vr_frame_progress r1) \<noteq> None" "nf_keyframe_needed (vr_feedback r1)" "vr_state r1 = Running"
    and ok: "receiver_ok r1"
    using assms(2-6,9) poll_progress_control [OF assms(9)]
    by (auto simp: poll_frame_progress_def Let_def with_feedback_def request_keyframe_def control_step_def)
  from process_datagrams_step [OF assms(1) ok] assms(10) have s: "media_step r1 es r2"
    by (metis option.inject prod.inject)
  have kept: "watchdog_kept (vr_frame_progress r1) (vr_frame_progress r2)" and key: "nf_keyframe_needed (vr_feedback r2)"
    and run2: "vr_state r2 = Running"
    using s assms(11) w1 by (auto simp: media_step_def)
  obtain base2 where b2: "progress_base r2 = Some base2" using progress_base_kept [OF kept w1(3)] by blast
  have w2: "fw_stage (vr_frame_progress r2) = KeyframePending" "fw_keyframe_requested_at (vr_frame_progress r2) = Some t1"
    using kept w1 by (simp_all add: watchdog_kept_def)
  have "\<not> t2 - t1 < fp_keyframe_grace policy" using assms(8) by simp
  then have e2: "\<exists>idle i. e2 = Some (ProgressRecoveryNeeded idle i)" "vr_state r3 = RecoveryRequired"
    using assms(12) b2 w2 run2 by (auto simp: poll_frame_progress_def Let_def)
  then have "e3 = Some (Lifecycle Running) \<and> vr_state r4 = Running \<and> vr_frame_progress r4 = Watchdog_default"
    using assms(13) by (auto simp: recover_def restart_def)
  with e1 e2 key show ?thesis by (simp add: keyframe_request_pending_def)
qed

definition stalled_receiver :: "int NvstVideoReceiver" where
  "stalled_receiver = sample_receiver\<lparr> vr_frame_progress := watchdog_authenticated 3 Watchdog_default \<rparr>"

theorem stall_escalates_witness:
  "\<exists>e r4. poll_frame_progress 20 \<lparr> fp_stall = 10, fp_keyframe_grace = 5 \<rparr>
       (snd (poll_frame_progress 14 \<lparr> fp_stall = 10, fp_keyframe_grace = 5 \<rparr> stalled_receiver)) = (e, r4) \<and> e \<noteq> None"
proof -
  let ?p = "\<lparr> fp_stall = 10, fp_keyframe_grace = 5 \<rparr>"
  have ok: "receiver_ok stalled_receiver"
    using receiver_ok_new [OF sample_material feedback_ok_default, of sample_crypto int_float_ops 0]
    by (simp add: stalled_receiver_def sample_receiver_def receiver_ok_def)
  have s: "vr_state stalled_receiver = Running" "fw_stage (vr_frame_progress stalled_receiver) = Tracking"
    "fw_first_authenticated_at (vr_frame_progress stalled_receiver) \<noteq> None" "progress_base stalled_receiver = Some 3"
    by (simp_all add: stalled_receiver_def sample_receiver_def NvstVideoReceiver_new_def watchdog_authenticated_def
        Watchdog_default_def progress_base_def)
  obtain e1 r1 where p1: "poll_frame_progress 14 ?p stalled_receiver = (e1, r1)" by (metis surj_pair)
  obtain e2 r3 where p2: "poll_frame_progress 20 ?p r1 = (e2, r3)" by (metis surj_pair)
  obtain e3 r4 where p3: "recover int_float_ops 21 r3 = (e3, r4)" by (metis surj_pair)
  have "process_datagrams int_float_ops sample_crypto [] r1 = Some ([], r1)" by simp
  from stall_escalates [OF sample_crypto_ok ok s _ _ p1 this _ p2 p3] p1 p2 show ?thesis by auto
qed

text \<open>A stream from which no authenticated packet arrives any more is noticed: a poll at or after the limit, the
  longer start-up limit before the first packet of a new receiver and the shorter one afterwards, reports a
  timeout once, drops what was buffered, and \<open>recover\<close> starts the clock again.\<close>

theorem silence_times_out:
  assumes "vr_state r = Running"
    and "origin = (case vr_last_authenticated_packet r of None \<Rightarrow> vr_timeout_origin r | Some t \<Rightarrow> t)"
    and "limit = (if vr_initial_timeout_pending r then vc_startup_timeout (vr_config r) else vc_timeout (vr_config r))"
    and "poll_timeout fl now r = (e, r1)" and "0 < limit" and "0 < vc_timeout (vr_config r)"
  shows "(now < origin + limit \<longrightarrow> e = None \<and> r1 = r)
    \<and> (origin + limit \<le> now \<longrightarrow>
        e = Some (RecoveryNeeded (Timeout (now - origin))) \<and> vr_state r1 = RecoveryRequired
        \<and> rb_packets (vr_reorder r1) = [] \<and> fr_blocks (vr_fec_reorder r1) = [] \<and> va_bytes (vr_assembler r1) = []
        \<and> fst (poll_timeout fl later r1) = None
        \<and> (\<forall>e2 r2. recover fl t r1 = (e2, r2) \<longrightarrow> e2 = Some (Lifecycle Running)
             \<and> (fst (poll_timeout fl later r2) \<noteq> None \<longleftrightarrow> t + vc_timeout (vr_config r) \<le> later)))"
proof -
  have c: "now - origin < limit \<longleftrightarrow> now < origin + limit" using assms(5) by arith
  have eq: "poll_timeout fl now r = (if now < origin + limit then (None, r)
      else (Some (RecoveryNeeded (Timeout (now - origin))), (reset_media_state fl now r)\<lparr> vr_state := RecoveryRequired \<rparr>))"
    using assms(1) c by (simp add: poll_timeout_def Let_def assms(2,3))
  have empty: "rb_packets (vr_reorder (reset_media_state fl now r)) = []" "fr_blocks (vr_fec_reorder (reset_media_state fl now r)) = []"
    "va_bytes (vr_assembler (reset_media_state fl now r)) = []"
    by (simp_all add: reset_media_state_def with_feedback_def RtpReorderBuffer_reset_def FecReorderBuffer_reset_def)
  show ?thesis
    using eq assms(4,6) empty by (auto simp: poll_timeout_def recover_def restart_def Let_def split: if_splits)
qed

theorem silence_times_out_witness:
  "fst (poll_timeout int_float_ops (secs 11) sample_receiver) = Some (RecoveryNeeded (Timeout (secs 11)))"
proof -
  obtain e r1 where p: "poll_timeout int_float_ops (secs 11) sample_receiver = (e, r1)" by (metis surj_pair)
  have f: "vr_state sample_receiver = Running" "vr_last_authenticated_packet sample_receiver = None"
    "vr_timeout_origin sample_receiver = 0" "vr_initial_timeout_pending sample_receiver"
    "vc_startup_timeout (vr_config sample_receiver) = secs 10" "vc_timeout (vr_config sample_receiver) = secs 2"
    by (simp_all add: sample_receiver_def NvstVideoReceiver_new_def sample_config_def)
  from silence_times_out [OF f(1) refl refl p] f have "e = Some (RecoveryNeeded (Timeout (secs 11)))"
    by (simp add: secs_def)
  with p show ?thesis by simp
qed

end
