(* ===== verification/Utf8.thy ===== *)
theory Utf8
  imports Prelude
begin

text \<open>
  UTF-8 as the Rust standard library handles it: \<open>String::from_utf8_lossy\<close>, \<open>str::from_utf8\<close>, the characters of
  a string and its character boundaries. A \<open>char\<close> is represented by its encoding, a \<open>str\<close> by its bytes.
\<close>

section \<open>Well-formed characters\<close>

definition continuation :: "bytes \<Rightarrow> nat \<Rightarrow> bool" where
  "continuation bs i \<longleftrightarrow> i < length bs \<and> 0x80 \<le> bs ! i \<and> bs ! i \<le> 0xbf"

definition second_ok :: "bytes \<Rightarrow> bool" where
  "second_ok bs \<longleftrightarrow> 1 < length bs \<and>
     (if bs ! 0 = 0xe0 then 0xa0 \<le> bs ! 1 \<and> bs ! 1 \<le> 0xbf
      else if bs ! 0 = 0xed then 0x80 \<le> bs ! 1 \<and> bs ! 1 \<le> 0x9f
      else if bs ! 0 = 0xf0 then 0x90 \<le> bs ! 1 \<and> bs ! 1 \<le> 0xbf
      else if bs ! 0 = 0xf4 then 0x80 \<le> bs ! 1 \<and> bs ! 1 \<le> 0x8f
      else 0x80 \<le> bs ! 1 \<and> bs ! 1 \<le> 0xbf)"

text \<open>
  The length of the next piece and whether it is kept: a well-formed character is kept, the longest prefix of
  one that is cut short or any other byte is not.
\<close>

definition utf8_piece :: "bytes \<Rightarrow> nat \<times> bool" where
  "utf8_piece bs =
     (if bs ! 0 < 0x80 then (1, True)
      else if 0xc2 \<le> bs ! 0 \<and> bs ! 0 \<le> 0xdf then (if second_ok bs then (2, True) else (1, False))
      else if 0xe0 \<le> bs ! 0 \<and> bs ! 0 \<le> 0xef then
        (if \<not> second_ok bs then (1, False) else if continuation bs 2 then (3, True) else (2, False))
      else if 0xf0 \<le> bs ! 0 \<and> bs ! 0 \<le> 0xf4 then
        (if \<not> second_ok bs then (1, False) else if \<not> continuation bs 2 then (2, False)
         else if continuation bs 3 then (4, True) else (3, False))
      else (1, False))"

lemma utf8_piece_pos: "0 < fst (utf8_piece bs)"
  by (simp add: utf8_piece_def)

function from_utf8_lossy :: "bytes \<Rightarrow> bytes" where
  "from_utf8_lossy bs =
     (if bs = [] then []
      else let (n, keep) = utf8_piece bs
           in (if keep then take n bs else [0xef, 0xbf, 0xbd]) @ from_utf8_lossy (drop n bs))"
  by pat_completeness auto
termination
proof (relation "measure length", goal_cases)
  case (2 bs x n keep)
  then have "0 < n" by (metis fst_conv utf8_piece_pos)
  with 2 show ?case by (cases bs) auto
qed simp

declare from_utf8_lossy.simps [simp del]

text \<open>\<open>str::from_utf8\<close>, with the characters (\<open>chars()\<close>) of the string.\<close>

function from_utf8 :: "bytes \<Rightarrow> bytes list option" where
  "from_utf8 bs =
     (if bs = [] then Some []
      else let (n, keep) = utf8_piece bs
           in if keep then map_option ((#) (take n bs)) (from_utf8 (drop n bs)) else None)"
  by pat_completeness auto
termination
proof (relation "measure length", goal_cases)
  case (2 bs x n keep)
  then have "0 < n" by (metis fst_conv utf8_piece_pos)
  with 2 show ?case by (cases bs) auto
qed simp

declare from_utf8.simps [simp del]

text \<open>\<open>str::is_char_boundary\<close>.\<close>

definition is_char_boundary :: "bytes \<Rightarrow> nat \<Rightarrow> bool" where
  "is_char_boundary bs i \<longleftrightarrow> i = 0 \<or> i = length bs \<or> (i < length bs \<and> (bs ! i < 0x80 \<or> 0xc0 \<le> bs ! i))"

section \<open>Characters of a valid string\<close>

definition char_bytes :: "bytes \<Rightarrow> bool" where
  "char_bytes c \<longleftrightarrow> c \<noteq> [] \<and> length c \<le> 4 \<and> utf8_piece c = (length c, True) \<and> (\<forall>i<length c. 0 < i \<longrightarrow> continuation c i)"

lemma utf8_piece_keep:
  assumes "utf8_piece bs = (n, True)" and "bs \<noteq> []"
  shows "n \<le> length bs" and "char_bytes (take n bs)"
proof -
  have c: "continuation (take m bs) i \<longleftrightarrow> i < m \<and> continuation bs i" for m i
    by (auto simp: continuation_def)
  have z: "take m bs ! 0 = bs ! 0" if "0 < m" for m using that by simp
  have s: "second_ok (take m bs) \<longleftrightarrow> second_ok bs" if "1 < m" for m using that by (auto simp: second_ok_def)
  have one: "second_ok bs \<Longrightarrow> continuation bs 1"
    by (auto simp: second_ok_def continuation_def split: if_splits elim: order_trans order_trans [rotated])
  have n: "n = 1 \<and> bs ! 0 < 0x80 \<or> n = 2 \<and> second_ok bs \<or> n = 3 \<and> second_ok bs \<and> continuation bs 2
      \<or> n = 4 \<and> second_ok bs \<and> continuation bs 2 \<and> continuation bs 3"
    using assms(1) by (auto simp: utf8_piece_def split: if_splits)
  have "second_ok bs \<Longrightarrow> 1 < length bs" "continuation bs 2 \<Longrightarrow> 2 < length bs" "continuation bs 3 \<Longrightarrow> 3 < length bs"
    by (auto simp: second_ok_def continuation_def)
  moreover have "0 < length bs" using assms(2) by simp
  ultimately show le: "n \<le> length bs" using n by linarith
  have p: "utf8_piece (take n bs) = (n, True)"
    using n assms(1) by (auto simp: utf8_piece_def z s c split: if_splits)
  have "continuation (take n bs) i" if "0 < i" "i < n" for i
  proof -
    from that n have "i = 1 \<or> i = 2 \<or> i = 3" by auto
    then show ?thesis using n that one by (auto simp: c)
  qed
  then show "char_bytes (take n bs)" using p le n assms(2) by (auto simp: char_bytes_def)
qed

lemma utf8_piece_append: "char_bytes c \<Longrightarrow> utf8_piece (c @ bs) = (length c, True)"
proof -
  assume c: "char_bytes c"
  then have ne: "c \<noteq> []" and p: "utf8_piece c = (length c, True)" by (simp_all add: char_bytes_def)
  have z: "(c @ bs) ! 0 = c ! 0" using ne by (simp add: nth_append)
  have s: "second_ok c \<Longrightarrow> second_ok (c @ bs)" by (auto simp: second_ok_def nth_append split: if_splits)
  have k: "continuation c i \<Longrightarrow> continuation (c @ bs) i" for i by (auto simp: continuation_def nth_append)
  from p show ?thesis by (auto simp: utf8_piece_def z split: if_splits dest: s k)
qed

lemma from_utf8_Some:
  assumes "from_utf8 bs = Some cs"
  shows "concat cs = bs \<and> (\<forall>c\<in>set cs. char_bytes c)"
  using assms
proof (induction bs arbitrary: cs rule: from_utf8.induct)
  case (1 bs)
  show ?case
  proof (cases "bs = []")
    case True
    with "1.prems" show ?thesis by (simp add: from_utf8.simps)
  next
    case False
    obtain n keep where p: "utf8_piece bs = (n, keep)" by (metis surj_pair)
    with "1.prems" False obtain cs' where keep and cs: "cs = take n bs # cs'" "from_utf8 (drop n bs) = Some cs'"
      by (auto simp: from_utf8.simps [of bs] split: if_splits)
    with "1.IH" [OF False p [symmetric] refl] have "concat cs' = drop n bs \<and> (\<forall>c\<in>set cs'. char_bytes c)" by simp
    with cs utf8_piece_keep [of bs n] p \<open>keep\<close> False show ?thesis by simp
  qed
qed

lemma from_utf8_concat: "\<forall>c\<in>set cs. char_bytes c \<Longrightarrow> from_utf8 (concat cs) = Some cs"
proof (induction cs)
  case (Cons c cs)
  then have "c \<noteq> []" by (simp add: char_bytes_def)
  with Cons utf8_piece_append [of c "concat cs"] show ?case by (simp add: from_utf8.simps [of "c @ concat cs"])
qed (simp add: from_utf8.simps)

definition valid_utf8 :: "bytes \<Rightarrow> bool" where
  "valid_utf8 bs \<longleftrightarrow> from_utf8 bs \<noteq> None"

lemma valid_utf8_iff: "valid_utf8 bs \<longleftrightarrow> (\<exists>cs. bs = concat cs \<and> (\<forall>c\<in>set cs. char_bytes c))"
  using from_utf8_Some from_utf8_concat by (fastforce simp: valid_utf8_def)

section \<open>Boundaries\<close>

text \<open>A boundary lies between two characters, and every window of four bytes has one.\<close>

lemma continuation_no_boundary: "continuation bs i \<Longrightarrow> 0 < i \<Longrightarrow> \<not> is_char_boundary bs i"
  by (auto simp: continuation_def is_char_boundary_def word_le_nat_alt word_less_nat_alt)

lemma boundary_split:
  assumes "\<forall>c\<in>set cs. char_bytes c" and "is_char_boundary (concat cs) i"
  shows "\<exists>cs1 cs2. cs = cs1 @ cs2 \<and> length (concat cs1) = i"
  using assms
proof (induction cs arbitrary: i)
  case (Cons c cs)
  show ?case
  proof (cases "i < length c")
    case True
    have "i = 0"
    proof (rule ccontr)
      assume "i \<noteq> 0"
      with True Cons.prems have "continuation c i" by (simp add: char_bytes_def)
      then have "continuation (concat (c # cs)) i" by (auto simp: continuation_def nth_append)
      with continuation_no_boundary \<open>i \<noteq> 0\<close> Cons.prems show False by blast
    qed
    then show ?thesis by (rule_tac x = "[]" in exI) auto
  next
    case False
    from Cons.prems(1) have "0 < length c" by (simp add: char_bytes_def)
    with False have pos: "i \<noteq> 0" by linarith
    have at: "concat (c # cs) ! i = concat cs ! (i - length c)" using False by (simp add: nth_append)
    from Cons.prems(2) have "i = length (concat (c # cs)) \<or> i < length (concat (c # cs)) \<and> (concat (c # cs) ! i < 0x80 \<or> 0xc0 \<le> concat (c # cs) ! i)"
      unfolding is_char_boundary_def using pos by blast
    moreover have "i = length (concat (c # cs)) \<Longrightarrow> i - length c = length (concat cs)"
      "i < length (concat (c # cs)) \<Longrightarrow> i - length c < length (concat cs)" using False by auto
    ultimately have "is_char_boundary (concat cs) (i - length c)"
      unfolding at is_char_boundary_def by blast
    moreover have "\<forall>c\<in>set cs. char_bytes c" using Cons.prems(1) by simp
    ultimately obtain cs1 cs2 where "cs = cs1 @ cs2" "length (concat cs1) = i - length c" using Cons.IH by blast
    with False have "c # cs = (c # cs1) @ cs2 \<and> length (concat (c # cs1)) = i" by simp
    then show ?thesis by blast
  qed
qed (auto simp: is_char_boundary_def)

text \<open>The loop \<open>while !is_char_boundary(end) { end -= 1 }\<close>.\<close>

fun boundary_below :: "bytes \<Rightarrow> nat \<Rightarrow> nat" where
  "boundary_below bs 0 = 0"
| "boundary_below bs (Suc i) = (if is_char_boundary bs (Suc i) then Suc i else boundary_below bs i)"

lemma boundary_below_is: "is_char_boundary bs (boundary_below bs i)"
  by (induction bs i rule: boundary_below.induct) (auto simp: is_char_boundary_def)

lemma boundary_below_le: "boundary_below bs i \<le> i"
  by (induction bs i rule: boundary_below.induct) auto

lemma boundary_below_ge: "is_char_boundary bs j \<Longrightarrow> j \<le> i \<Longrightarrow> j \<le> boundary_below bs i"
  by (induction bs i rule: boundary_below.induct) (auto simp: le_Suc_eq)

lemma boundary_concat: "\<forall>c\<in>set cs2. char_bytes c \<Longrightarrow> is_char_boundary (concat (cs1 @ cs2)) (length (concat cs1))"
proof (cases cs2)
  case (Cons c cs)
  assume "\<forall>c\<in>set cs2. char_bytes c"
  with Cons have "c \<noteq> []" and p: "utf8_piece c = (length c, True)" by (simp_all add: char_bytes_def)
  then have "concat (cs1 @ cs2) ! length (concat cs1) = c ! 0" "length (concat cs1) < length (concat (cs1 @ cs2))"
    using Cons by (simp_all add: nth_append)
  moreover have "c ! 0 < 0x80 \<or> 0xc0 \<le> c ! 0"
    using p by (auto simp: utf8_piece_def word_le_nat_alt split: if_splits)
  ultimately show ?thesis by (simp add: is_char_boundary_def)
qed (simp add: is_char_boundary_def)

end
