(* ===== verification/Stun.thy ===== *)
theory Stun
  imports Receiver Utf8
begin

text \<open>
  STUN as the transport uses it (\<open>nvst.rs\<close>): building authenticated messages, finding attributes, checking
  fingerprint and integrity, answering binding requests, and the two trackers that match responses to
  requests. HMAC-SHA1 is the primitive of \<open>crypto\<close>; \<open>crc32fast::hash\<close> is the parameter \<open>crc32\<close>.
\<close>

section \<open>Messages\<close>

definition STUN_HEADER_LEN :: nat where "STUN_HEADER_LEN = 20"
definition STUN_MAGIC_COOKIE :: u32 where "STUN_MAGIC_COOKIE = 0x2112a442"
definition STUN_BINDING_REQUEST :: u16 where "STUN_BINDING_REQUEST = 0x0001"
definition STUN_BINDING_SUCCESS_RESPONSE :: u16 where "STUN_BINDING_SUCCESS_RESPONSE = 0x0101"
definition STUN_ATTR_USERNAME :: u16 where "STUN_ATTR_USERNAME = 0x0006"
definition STUN_ATTR_MESSAGE_INTEGRITY :: u16 where "STUN_ATTR_MESSAGE_INTEGRITY = 0x0008"
definition STUN_ATTR_XOR_MAPPED_ADDRESS :: u16 where "STUN_ATTR_XOR_MAPPED_ADDRESS = 0x0020"
definition STUN_ATTR_FINGERPRINT :: u16 where "STUN_ATTR_FINGERPRINT = 0x8028"
definition STUN_FINGERPRINT_XOR :: u32 where "STUN_FINGERPRINT_XOR = 0x5354554e"
definition MAX_PENDING_STREAM_PINGS :: nat where "MAX_PENDING_STREAM_PINGS = 64"

lemmas stun_consts = STUN_HEADER_LEN_def STUN_MAGIC_COOKIE_def STUN_BINDING_REQUEST_def
  STUN_BINDING_SUCCESS_RESPONSE_def STUN_ATTR_USERNAME_def STUN_ATTR_MESSAGE_INTEGRITY_def
  STUN_ATTR_XOR_MAPPED_ADDRESS_def STUN_ATTR_FINGERPRINT_def STUN_FINGERPRINT_XOR_def

text \<open>\<open>usize::next_multiple_of(4)\<close>.\<close>

definition next_multiple_of_4 :: "nat \<Rightarrow> nat" where
  "next_multiple_of_4 n = (n + 3) div 4 * 4"

definition append_stun_attribute :: "bytes \<Rightarrow> u16 \<Rightarrow> bytes \<Rightarrow> bytes" where
  "append_stun_attribute packet attribute_type value =
     (let packet = packet @ be16 attribute_type @ be16 (of_nat (length value)) @ value
      in packet @ replicate (next_multiple_of_4 (length packet) - length packet) 0)"

definition build_authenticated_stun_packet ::
  "crypto \<Rightarrow> (bytes \<Rightarrow> u32) \<Rightarrow> u16 \<Rightarrow> bytes \<Rightarrow> bytes \<Rightarrow> (u16 \<times> bytes) list \<Rightarrow> bytes" where
  "build_authenticated_stun_packet c crc32 message_type transaction_id key attributes =
     (let packet = be16 message_type @ be16 0 @ be32 STUN_MAGIC_COOKIE @ transaction_id;
          packet = fold (\<lambda>(attribute_type, value) packet. append_stun_attribute packet attribute_type value)
                     attributes packet;
          length_through_integrity = length packet - STUN_HEADER_LEN + 24;
          packet = write_at 2 (be16 (of_nat length_through_integrity)) packet;
          packet = append_stun_attribute packet STUN_ATTR_MESSAGE_INTEGRITY (cr_hmac_sha1 c key packet);
          final_length = length packet - STUN_HEADER_LEN + 8;
          packet = write_at 2 (be16 (of_nat final_length)) packet;
          fingerprint = crc32 packet XOR STUN_FINGERPRINT_XOR
      in append_stun_attribute packet STUN_ATTR_FINGERPRINT (be32 fingerprint))"

text \<open>The byte \<open>':'\<close> of the user names.\<close>

definition colon :: u8 where "colon = 0x3a"

definition build_stun_binding_request ::
  "crypto \<Rightarrow> (bytes \<Rightarrow> u32) \<Rightarrow> NvstStunCredentials \<Rightarrow> bytes \<Rightarrow> bytes" where
  "build_stun_binding_request c crc32 credentials transaction_id =
     build_authenticated_stun_packet c crc32 STUN_BINDING_REQUEST transaction_id (sc_remote_password credentials)
       [(STUN_ATTR_USERNAME,
         sc_remote_username_fragment credentials @ [colon] @ sc_local_username_fragment credentials)]"

definition build_natt_hole_punch_request ::
  "crypto \<Rightarrow> (bytes \<Rightarrow> u32) \<Rightarrow> bytes \<Rightarrow> bytes \<Rightarrow> bytes \<Rightarrow> bytes \<Rightarrow> bytes" where
  "build_natt_hole_punch_request c crc32 local_username_fragment ping_payload remote_password transaction_id =
     build_authenticated_stun_packet c crc32 STUN_BINDING_REQUEST transaction_id remote_password
       [(STUN_ATTR_USERNAME, from_utf8_lossy ping_payload @ [colon] @ local_username_fragment)]"

definition xor_mapped_address :: "SocketAddr \<Rightarrow> bytes \<Rightarrow> bytes" where
  "xor_mapped_address source transaction_id =
     [0, (case sa_ip source of V4 _ \<Rightarrow> 1 | V6 _ \<Rightarrow> 2)]
       @ be16 (sa_port source XOR ucast (drop_bit 16 STUN_MAGIC_COOKIE))
       @ (case sa_ip source of
            V4 octets \<Rightarrow> map2 (XOR) octets (be32 STUN_MAGIC_COOKIE)
          | V6 octets \<Rightarrow> map2 (XOR) octets (be32 STUN_MAGIC_COOKIE @ transaction_id))"

function find_stun_from :: "bytes \<Rightarrow> u16 \<Rightarrow> nat \<Rightarrow> (nat \<times> bytes) option" where
  "find_stun_from packet wanted_type offset =
     (if offset + 4 \<le> length packet then
        let attribute_type = from_be16 (packet ! offset) (packet ! (offset + 1));
            len = unat (from_be16 (packet ! (offset + 2)) (packet ! (offset + 3)));
            value_start = offset + 4;
            value_end = value_start + len
        in if value_end > length packet then None
           else if attribute_type = wanted_type then Some (offset, drop value_start (take value_end packet))
           else find_stun_from packet wanted_type (next_multiple_of_4 value_end)
      else None)"
  by pat_completeness auto
termination
proof (relation "measure (\<lambda>(packet, _, offset). length packet - offset)", goal_cases)
  case (2 packet wanted offset t l s e)
  have "offset < next_multiple_of_4 (offset + 4 + l)" unfolding next_multiple_of_4_def by presburger
  with 2 show ?case by auto
qed simp

declare find_stun_from.simps [simp del]

definition find_stun_attribute :: "bytes \<Rightarrow> u16 \<Rightarrow> (nat \<times> bytes) option" where
  "find_stun_attribute packet wanted_type = find_stun_from packet wanted_type STUN_HEADER_LEN"

definition valid_stun_fingerprint :: "(bytes \<Rightarrow> u32) \<Rightarrow> bytes \<Rightarrow> bool" where
  "valid_stun_fingerprint crc32 packet =
     (case find_stun_attribute packet STUN_ATTR_FINGERPRINT of
        None \<Rightarrow> False
      | Some (offset, value) \<Rightarrow>
          if length value \<noteq> 4 \<or> offset + 8 \<noteq> length packet then False
          else be32 (crc32 (take offset packet) XOR STUN_FINGERPRINT_XOR) = value)"

definition valid_stun_message_integrity :: "crypto \<Rightarrow> bytes \<Rightarrow> bytes \<Rightarrow> bool" where
  "valid_stun_message_integrity c packet key =
     (case find_stun_attribute packet STUN_ATTR_MESSAGE_INTEGRITY of
        None \<Rightarrow> False
      | Some (integrity_offset, integrity) \<Rightarrow>
          if length integrity \<noteq> 20 then False
          else
            let fingerprint_bytes =
                  (if find_stun_attribute packet STUN_ATTR_FINGERPRINT \<noteq> None then 8 else 0)
            in if length packet < STUN_HEADER_LEN + fingerprint_bytes then False
               else
                 let adjusted_length = length packet - (STUN_HEADER_LEN + fingerprint_bytes);
                     authenticated = write_at 2 (be16 (of_nat adjusted_length)) (take integrity_offset packet)
                 in cr_hmac_sha1 c key authenticated = integrity)"

section \<open>Answers\<close>

datatype StunDatagram = NotStun | InvalidStun | Handled "bytes option"

definition be16_of :: "bytes \<Rightarrow> nat \<Rightarrow> u16" where
  "be16_of bs i = from_be16 (bs ! i) (bs ! (i + 1))"

definition handle_stun_datagram ::
  "crypto \<Rightarrow> (bytes \<Rightarrow> u32) \<Rightarrow> bytes \<Rightarrow> SocketAddr \<Rightarrow> NvstStunCredentials \<Rightarrow> StunDatagram" where
  "handle_stun_datagram c crc32 datagram source credentials =
     (if length datagram < STUN_HEADER_LEN \<or> datagram ! 0 AND 0xc0 \<noteq> 0
         \<or> from_be32 (datagram ! 4) (datagram ! 5) (datagram ! 6) (datagram ! 7) \<noteq> STUN_MAGIC_COOKIE
      then NotStun
      else if STUN_HEADER_LEN + unat (be16_of datagram 2) \<noteq> length datagram
              \<or> \<not> valid_stun_fingerprint crc32 datagram
      then InvalidStun
      else
        let message_type = be16_of datagram 0;
            transaction_id = drop 8 (take 20 datagram)
        in if message_type = STUN_BINDING_REQUEST then
             (case find_stun_attribute datagram STUN_ATTR_USERNAME of
                None \<Rightarrow> InvalidStun
              | Some (_, username) \<Rightarrow>
                  if username \<noteq> sc_local_username_fragment credentials @ [colon] @ sc_remote_username_fragment credentials
                     \<or> \<not> valid_stun_message_integrity c datagram (sc_local_password credentials)
                  then InvalidStun
                  else Handled (Some (build_authenticated_stun_packet c crc32 STUN_BINDING_SUCCESS_RESPONSE
                         transaction_id (sc_local_password credentials)
                         [(STUN_ATTR_XOR_MAPPED_ADDRESS, xor_mapped_address source transaction_id)])))
           else if message_type = STUN_BINDING_SUCCESS_RESPONSE then
             (if valid_stun_message_integrity c datagram (sc_remote_password credentials)
              then Handled None else InvalidStun)
           else InvalidStun)"

section \<open>Trackers\<close>

definition looks_like_stun :: "bytes \<Rightarrow> bool" where
  "looks_like_stun datagram \<longleftrightarrow>
     STUN_HEADER_LEN \<le> length datagram \<and> drop 4 (take 8 datagram) = be32 STUN_MAGIC_COOKIE"

text \<open>The check both trackers make of a response: integrity, and the fingerprint where there is one.\<close>

definition authentic_response :: "crypto \<Rightarrow> (bytes \<Rightarrow> u32) \<Rightarrow> bytes \<Rightarrow> bytes \<Rightarrow> bool" where
  "authentic_response c crc32 packet remote_password \<longleftrightarrow>
     valid_stun_message_integrity c packet remote_password
     \<and> \<not> (find_stun_attribute packet STUN_ATTR_FINGERPRINT \<noteq> None \<and> \<not> valid_stun_fingerprint crc32 packet)"

type_synonym ice_tracker = "(bytes \<times> bool) list"

definition ice_sent :: "bytes \<Rightarrow> ice_tracker \<Rightarrow> ice_tracker" where
  "ice_sent packet requests =
     (if \<not> looks_like_stun packet \<or> take 2 packet \<noteq> be16 STUN_BINDING_REQUEST then requests
      else
        let transaction_id = drop 8 (take 20 packet)
        in if \<exists>r\<in>set requests. fst r = transaction_id then requests
           else (if length requests = MAX_PENDING_STREAM_PINGS then drop 1 requests else requests)
                  @ [(transaction_id, False)])"

definition ice_accept :: "crypto \<Rightarrow> (bytes \<Rightarrow> u32) \<Rightarrow> bytes \<Rightarrow> bytes \<Rightarrow> ice_tracker \<Rightarrow> bool \<times> ice_tracker" where
  "ice_accept c crc32 packet remote_password requests =
     (if \<not> looks_like_stun packet \<or> take 2 packet \<noteq> be16 STUN_BINDING_SUCCESS_RESPONSE
         \<or> STUN_HEADER_LEN + unat (be16_of packet 2) \<noteq> length packet
      then (True, requests)
      else case find (\<lambda>r. fst r = drop 8 (take 20 packet)) requests of
        None \<Rightarrow> (True, requests)
      | Some (_, completed) \<Rightarrow>
          if \<not> authentic_response c crc32 packet remote_password then (True, requests)
          else (\<not> completed,
                update_first (\<lambda>r. fst r = drop 8 (take 20 packet)) (\<lambda>(i, _). (i, True)) requests))"

type_synonym ping_tracker = "(bytes \<times> instant) list"

definition ping_sent :: "bytes \<Rightarrow> instant \<Rightarrow> ping_tracker \<Rightarrow> ping_tracker" where
  "ping_sent transaction_id now pending =
     (let pending = filter (\<lambda>(_, sent). now - sent < STREAM_PING_TIMEOUT) pending
      in (if length pending = MAX_PENDING_STREAM_PINGS then drop 1 pending else pending) @ [(transaction_id, now)])"

definition ping_receive ::
  "crypto \<Rightarrow> (bytes \<Rightarrow> u32) \<Rightarrow> bytes \<Rightarrow> NvstStunCredentials \<Rightarrow> instant \<Rightarrow> ping_tracker
   \<Rightarrow> duration option \<times> ping_tracker" where
  "ping_receive c crc32 packet credentials now pending =
     (if length packet < 2 \<or> take 2 packet \<noteq> be16 STUN_BINDING_SUCCESS_RESPONSE \<or> length packet < 20
      then (None, pending)
      else case find_position (\<lambda>(i, _). i = drop 8 (take 20 packet)) pending of
        None \<Rightarrow> (None, pending)
      | Some index \<Rightarrow>
          if \<not> authentic_response c crc32 packet (sc_remote_password credentials) then (None, pending)
          else
            let sent = snd (pending ! index)
            in (if sent \<le> now \<and> now - sent < STREAM_PING_TIMEOUT then Some (now - sent) else None,
                remove_at index pending))"

section \<open>The layout of a message\<close>

text \<open>An attribute as it is written at an aligned offset.\<close>

definition stun_attribute :: "u16 \<times> bytes \<Rightarrow> bytes" where
  "stun_attribute a = be16 (fst a) @ be16 (of_nat (length (snd a))) @ snd a
     @ replicate (next_multiple_of_4 (length (snd a)) - length (snd a)) 0"

lemma next_multiple_of_4_add:
  assumes "4 dvd a"
  shows "next_multiple_of_4 (a + n) = a + next_multiple_of_4 n"
proof -
  obtain k where k: "a = 4 * k" using assms by (elim dvdE)
  have "(4 * k + (n + 3)) div 4 = k + (n + 3) div 4" by simp
  then show ?thesis by (simp add: next_multiple_of_4_def k add.assoc)
qed

lemma length_stun_attribute: "length (stun_attribute a) = 4 + next_multiple_of_4 (length (snd a))"
proof -
  have "length (snd a) \<le> next_multiple_of_4 (length (snd a))" unfolding next_multiple_of_4_def by presburger
  then show ?thesis by (simp add: stun_attribute_def)
qed

lemma stun_attribute_aligned: "4 dvd length (stun_attribute a)"
  by (simp add: length_stun_attribute next_multiple_of_4_def)

lemma append_stun_attribute_aligned:
  assumes "4 dvd length packet"
  shows "append_stun_attribute packet t v = packet @ stun_attribute (t, v)"
proof -
  have len: "length (packet @ be16 t @ be16 (of_nat (length v)) @ v) = length packet + 4 + length v" by simp
  have "next_multiple_of_4 (length packet + 4 + length v) = length packet + 4 + next_multiple_of_4 (length v)"
    using next_multiple_of_4_add [of "length packet + 4" "length v"] assms by simp
  then show ?thesis
    unfolding append_stun_attribute_def Let_def len by (simp add: stun_attribute_def)
qed

definition stun_attributes :: "(u16 \<times> bytes) list \<Rightarrow> bytes" where
  "stun_attributes as = concat (map stun_attribute as)"

lemma stun_attributes_simps [simp]:
  "stun_attributes [] = []" "stun_attributes (a # as) = stun_attribute a @ stun_attributes as"
  by (simp_all add: stun_attributes_def)

lemma stun_attributes_aligned: "4 dvd length (stun_attributes as)"
  by (induction as) (auto simp: stun_attribute_aligned)

lemma append_stun_attributes:
  "4 dvd length packet \<Longrightarrow>
   fold (\<lambda>(t, v) packet. append_stun_attribute packet t v) as packet = packet @ stun_attributes as"
proof (induction as arbitrary: packet)
  case (Cons a as)
  obtain t v where a: "a = (t, v)" by (cases a)
  have "4 dvd length (packet @ stun_attribute a)"
    using Cons.prems by (simp add: stun_attribute_aligned)
  with Cons a show ?case by (simp add: append_stun_attribute_aligned)
qed simp

definition stun_header :: "u16 \<Rightarrow> nat \<Rightarrow> bytes \<Rightarrow> bytes" where
  "stun_header t n transaction_id = be16 t @ be16 (of_nat n) @ be32 STUN_MAGIC_COOKIE @ transaction_id"

definition stun_integrity :: "crypto \<Rightarrow> u16 \<Rightarrow> bytes \<Rightarrow> bytes \<Rightarrow> bytes \<Rightarrow> bytes" where
  "stun_integrity c t transaction_id key body =
     stun_attribute (STUN_ATTR_MESSAGE_INTEGRITY, cr_hmac_sha1 c key (stun_header t (length body + 24) transaction_id @ body))"

lemma length_stun_header: "length transaction_id = 12 \<Longrightarrow> length (stun_header t n transaction_id) = 20"
  by (simp add: stun_header_def)

lemma write_length:
  "write_at 2 (be16 (of_nat m)) (stun_header t n transaction_id @ body) = stun_header t m transaction_id @ body"
  by (simp add: write_at_def stun_header_def be16_def)

text \<open>What the builder writes: header, attributes, integrity and fingerprint.\<close>

lemma build_authenticated_layout:
  assumes "crypto_ok c" and "length transaction_id = 12"
    and "body = stun_attributes as" and "integrity = stun_integrity c t transaction_id key body"
    and "front = stun_header t (length body + 32) transaction_id @ body @ integrity"
  shows "build_authenticated_stun_packet c crc32 t transaction_id key as =
      front @ stun_attribute (STUN_ATTR_FINGERPRINT, be32 (crc32 front XOR STUN_FINGERPRINT_XOR))"
    and "length integrity = 24"
proof -
  let ?h = "\<lambda>n. stun_header t n transaction_id"
  have hmac: "length (cr_hmac_sha1 c k m) = 20" for k m using assms(1) by (simp add: crypto_ok_def)
  have start: "be16 t @ be16 0 @ be32 STUN_MAGIC_COOKIE @ transaction_id = ?h 0" by (simp add: stun_header_def)
  have len: "length (?h n) = 20" for n by (rule length_stun_header [OF assms(2)])
  show int: "length integrity = 24"
    by (simp add: assms(4) stun_integrity_def length_stun_attribute hmac next_multiple_of_4_def)
  have al: "4 dvd length (?h n @ body)" for n
    using stun_attributes_aligned [of as] len by (simp add: assms(3))
  have al2: "4 dvd length (?h n @ body @ integrity)" for n
    using dvd_add [OF al [of n], of 24] int by (simp add: add.assoc)
  have body: "fold (\<lambda>(t, v) packet. append_stun_attribute packet t v) as (?h 0) = ?h 0 @ body"
    unfolding assms(3) by (rule append_stun_attributes) (simp add: len)
  have i: "append_stun_attribute (?h (length body + 24) @ body) STUN_ATTR_MESSAGE_INTEGRITY
      (cr_hmac_sha1 c key (?h (length body + 24) @ body)) = ?h (length body + 24) @ body @ integrity"
    by (simp add: append_stun_attribute_aligned [OF al] assms(4) stun_integrity_def)
  have l1: "length (?h 0 @ body) - STUN_HEADER_LEN + 24 = length body + 24"
    and l2: "length (?h (length body + 24) @ body @ integrity) - STUN_HEADER_LEN + 8 = length body + 32"
    by (simp_all add: len int STUN_HEADER_LEN_def)
  show "build_authenticated_stun_packet c crc32 t transaction_id key as =
      front @ stun_attribute (STUN_ATTR_FINGERPRINT, be32 (crc32 front XOR STUN_FINGERPRINT_XOR))"
    unfolding build_authenticated_stun_packet_def Let_def start body l1 write_length i l2
      append_stun_attribute_aligned [OF al2] assms(5) by simp
qed

section \<open>Finding attributes\<close>

lemma find_at_attribute:
  assumes "length pre = offset" and "4 dvd offset" and "length v < 65536"
  shows "find_stun_from (pre @ stun_attribute (t, v) @ rest) wanted offset =
     (if t = wanted then Some (offset, v)
      else find_stun_from (pre @ stun_attribute (t, v) @ rest) wanted (offset + length (stun_attribute (t, v))))"
proof -
  let ?p = "pre @ stun_attribute (t, v) @ rest"
  have le: "length v \<le> next_multiple_of_4 (length v)" unfolding next_multiple_of_4_def by presburger
  have nth: "?p ! (offset + k) = stun_attribute (t, v) ! k" if "k < 4" for k
    using that assms(1) by (simp add: nth_append length_stun_attribute)
  have ty: "from_be16 (?p ! offset) (?p ! (offset + 1)) = t"
    using nth [of 0] nth [of 1] by (simp add: stun_attribute_def be16_def from_be16_be16)
  have ln: "unat (from_be16 (?p ! (offset + 2)) (?p ! (offset + 3))) = length v"
    using nth [of 2] nth [of 3] assms(3)
    by (simp add: stun_attribute_def be16_def from_be16_be16 unat_of_nat nth_append)
  have val: "drop (offset + 4) (take (offset + 4 + length v) ?p) = v"
    using assms(1) by (simp add: stun_attribute_def)
  have fits: "offset + 4 + length v \<le> length ?p" using assms(1) le by (simp add: length_stun_attribute)
  have nxt: "next_multiple_of_4 (offset + 4 + length v) = offset + length (stun_attribute (t, v))"
    using assms(2) next_multiple_of_4_add [of "offset + 4" "length v"] by (simp add: length_stun_attribute)
  show ?thesis
    unfolding find_stun_from.simps [of ?p wanted offset] Let_def ty ln val nxt using fits by simp
qed

lemma find_past_attributes:
  assumes "4 dvd length pre" and "\<forall>a\<in>set as. fst a \<noteq> wanted \<and> length (snd a) < 65536"
  shows "find_stun_from (pre @ stun_attributes as @ rest) wanted (length pre) =
    find_stun_from (pre @ stun_attributes as @ rest) wanted (length pre + length (stun_attributes as))"
  using assms
proof (induction as arbitrary: pre)
  case (Cons a as)
  obtain t v where a: "a = (t, v)" by (cases a)
  let ?pre = "pre @ stun_attribute a"
  have "4 dvd length ?pre" using Cons.prems(1) by (simp add: stun_attribute_aligned)
  from Cons.IH [OF this] Cons.prems a show ?case
    using find_at_attribute [of pre "length pre" v t "stun_attributes as @ rest" wanted] by (simp add: add.assoc)
qed simp

section \<open>Messages the builder makes are valid\<close>

text \<open>Attributes a message may carry beside integrity and fingerprint.\<close>

definition plain_attributes :: "(u16 \<times> bytes) list \<Rightarrow> bool" where
  "plain_attributes as \<longleftrightarrow> length (stun_attributes as) + 32 < 65536 \<and>
     (\<forall>a\<in>set as. fst a \<noteq> STUN_ATTR_MESSAGE_INTEGRITY \<and> fst a \<noteq> STUN_ATTR_FINGERPRINT \<and> length (snd a) < 65536)"

lemma header_fields:
  assumes "length transaction_id = 12" and "n < 65536" and "p = stun_header t n transaction_id @ rest"
  shows "be16_of p 0 = t" and "unat (be16_of p 2) = n" and "drop 8 (take 20 p) = transaction_id"
    and "take 2 p = be16 t" and "looks_like_stun p"
    and "from_be32 (p ! 4) (p ! 5) (p ! 6) (p ! 7) = STUN_MAGIC_COOKIE" and "p ! 0 = ucast (drop_bit 8 t)"
proof -
  have p: "p = ucast (drop_bit 8 t) # ucast t # ucast (drop_bit 8 (of_nat n :: u16)) # ucast (of_nat n :: u16)
      # be32 STUN_MAGIC_COOKIE @ transaction_id @ rest"
    by (simp add: assms(3) stun_header_def be16_def)
  show "be16_of p 0 = t" "unat (be16_of p 2) = n" "p ! 0 = ucast (drop_bit 8 t)" "take 2 p = be16 t"
    using assms(2) by (simp_all add: p be16_of_def from_be16_be16 unat_of_nat be16_def)
  show "drop 8 (take 20 p) = transaction_id" "looks_like_stun p"
    using assms(1) by (simp_all add: assms(3) looks_like_stun_def stun_header_def STUN_HEADER_LEN_def)
  show "from_be32 (p ! 4) (p ! 5) (p ! 6) (p ! 7) = STUN_MAGIC_COOKIE"
    by (simp add: p be32_def from_be32_be32)
qed

lemma built_packet:
  assumes "crypto_ok c" and "length transaction_id = 12" and "plain_attributes as"
    and "p = build_authenticated_stun_packet c crc32 t transaction_id key as"
  shows "\<exists>rest. p = stun_header t (length (stun_attributes as) + 32) transaction_id @ rest"
    and "length p = 20 + (length (stun_attributes as) + 32)"
    and "valid_stun_fingerprint crc32 p" and "valid_stun_message_integrity c p key"
    and "\<And>a v as'. as = (a, v) # as' \<Longrightarrow> find_stun_attribute p a = Some (20, v)"
proof -
  define body where "body = stun_attributes as"
  define integrity where "integrity = stun_integrity c t transaction_id key body"
  let ?h = "\<lambda>n. stun_header t n transaction_id"
  define front where "front = ?h (length body + 32) @ body @ integrity"
  define fp where "fp = be32 (crc32 front XOR STUN_FINGERPRINT_XOR)"
  note layout = build_authenticated_layout [OF assms(1,2) body_def integrity_def front_def]
  have p: "p = front @ stun_attribute (STUN_ATTR_FINGERPRINT, fp)" unfolding assms(4) fp_def by (rule layout(1))
  have fplen: "length fp = 4" by (simp add: fp_def)
  have hl: "length (?h n) = 20" for n by (rule length_stun_header [OF assms(2)])
  have last: "length (stun_attribute (STUN_ATTR_FINGERPRINT, fp)) = 8"
    by (simp add: length_stun_attribute fplen next_multiple_of_4_def)
  have flen: "length front = 20 + length body + 24" by (simp add: front_def hl layout(2))
  show "\<exists>rest. p = ?h (length (stun_attributes as) + 32) @ rest" by (simp add: p front_def body_def)
  show len: "length p = 20 + (length (stun_attributes as) + 32)" using flen last by (simp add: p body_def)
  have al: "4 dvd length body" by (simp add: body_def stun_attributes_aligned)
  have past: "find_stun_attribute p wanted = find_stun_from p wanted (20 + length body)"
    if "\<forall>a\<in>set as. fst a \<noteq> wanted \<and> length (snd a) < 65536" for wanted
    using find_past_attributes [of "?h (length body + 32)" as wanted "integrity @ stun_attribute (STUN_ATTR_FINGERPRINT, fp)"]
      that hl by (simp add: find_stun_attribute_def STUN_HEADER_LEN_def p front_def body_def)
  have plain: "\<forall>a\<in>set as. fst a \<noteq> STUN_ATTR_MESSAGE_INTEGRITY \<and> length (snd a) < 65536"
    "\<forall>a\<in>set as. fst a \<noteq> STUN_ATTR_FINGERPRINT \<and> length (snd a) < 65536"
    using assms(3) by (simp_all add: plain_attributes_def)
  define mac where "mac = cr_hmac_sha1 c key (?h (length body + 24) @ body)"
  have mlen: "length mac = 20" using assms(1) by (simp add: mac_def crypto_ok_def)
  have int: "integrity = stun_attribute (STUN_ATTR_MESSAGE_INTEGRITY, mac)" by (simp add: integrity_def stun_integrity_def mac_def)
  have at_int: "find_stun_from p wanted (20 + length body) =
      (if STUN_ATTR_MESSAGE_INTEGRITY = wanted then Some (20 + length body, mac)
       else find_stun_from p wanted (20 + length body + 24))" for wanted
    using find_at_attribute [of "?h (length body + 32) @ body" "20 + length body" mac STUN_ATTR_MESSAGE_INTEGRITY
        "stun_attribute (STUN_ATTR_FINGERPRINT, fp)" wanted] hl al mlen layout(2)
    by (simp add: p front_def int)
  have at_fp: "find_stun_from p STUN_ATTR_FINGERPRINT (20 + length body + 24) = Some (20 + length body + 24, fp)"
    using find_at_attribute [of front "20 + length body + 24" fp STUN_ATTR_FINGERPRINT "[]" STUN_ATTR_FINGERPRINT]
      flen al fplen by (simp add: p)
  have found_int: "find_stun_attribute p STUN_ATTR_MESSAGE_INTEGRITY = Some (20 + length body, mac)"
    using past [OF plain(1)] at_int by simp
  have found_fp: "find_stun_attribute p STUN_ATTR_FINGERPRINT = Some (20 + length body + 24, fp)"
    using past [OF plain(2)] at_int at_fp by (simp add: STUN_ATTR_MESSAGE_INTEGRITY_def STUN_ATTR_FINGERPRINT_def)
  have "take (20 + length body + 24) p = front" using flen by (simp add: p)
  then show "valid_stun_fingerprint crc32 p"
    using found_fp fplen len by (simp add: valid_stun_fingerprint_def fp_def body_def)
  have cut: "take (20 + length body) p = ?h (length body + 32) @ body" using hl by (simp add: p front_def)
  have adj: "length p - (STUN_HEADER_LEN + 8) = length body + 24" "\<not> length p < STUN_HEADER_LEN + 8"
    using len by (simp_all add: STUN_HEADER_LEN_def body_def)
  have "write_at 2 (be16 (of_nat (length p - (STUN_HEADER_LEN + 8)))) (take (20 + length body) p) = ?h (length body + 24) @ body"
    unfolding adj cut by (rule write_length)
  then show "valid_stun_message_integrity c p key"
    using adj(2) mlen unfolding valid_stun_message_integrity_def found_int found_fp mac_def
    by (simp only: Let_def option.case prod.case option.distinct not_False_eq_True if_True if_False simp_thms)
  show "find_stun_attribute p a = Some (20, v)" if "as = (a, v) # as'" for a v as'
    using find_at_attribute [of "?h (length body + 32)" 20 v a "stun_attributes as' @ integrity @ stun_attribute (STUN_ATTR_FINGERPRINT, fp)" a]
      that assms(3) hl
    by (simp add: find_stun_attribute_def STUN_HEADER_LEN_def p front_def body_def plain_attributes_def)
qed

section \<open>An exchange\<close>

text \<open>The credentials of the two ends.\<close>

definition mirrored :: "NvstStunCredentials \<Rightarrow> NvstStunCredentials \<Rightarrow> bool" where
  "mirrored a b \<longleftrightarrow> sc_local_username_fragment b = sc_remote_username_fragment a
     \<and> sc_remote_username_fragment b = sc_local_username_fragment a
     \<and> sc_local_password b = sc_remote_password a \<and> sc_remote_password b = sc_local_password a"

lemma plain_single:
  assumes "length v < 65000" and "t \<noteq> STUN_ATTR_MESSAGE_INTEGRITY" and "t \<noteq> STUN_ATTR_FINGERPRINT"
  shows "plain_attributes [(t, v)]"
proof -
  have "next_multiple_of_4 (length v) \<le> length v + 3" unfolding next_multiple_of_4_def by presburger
  then show ?thesis using assms by (simp add: plain_attributes_def length_stun_attribute)
qed

lemma built_fields:
  assumes "crypto_ok c" and "length transaction_id = 12" and "plain_attributes as"
    and "p = build_authenticated_stun_packet c crc32 t transaction_id key as"
  shows "be16_of p 0 = t" and "STUN_HEADER_LEN + unat (be16_of p 2) = length p" and "drop 8 (take 20 p) = transaction_id"
    and "take 2 p = be16 t" and "looks_like_stun p"
    and "from_be32 (p ! 4) (p ! 5) (p ! 6) (p ! 7) = STUN_MAGIC_COOKIE" and "p ! 0 = ucast (drop_bit 8 t)"
    and "20 \<le> length p" and "authentic_response c crc32 p key"
proof -
  note b = built_packet [OF assms]
  obtain rest where rest: "p = stun_header t (length (stun_attributes as) + 32) transaction_id @ rest" using b(1) by blast
  have n: "length (stun_attributes as) + 32 < 65536" using assms(3) by (simp add: plain_attributes_def)
  note f = header_fields [OF assms(2) n rest]
  show "be16_of p 0 = t" "drop 8 (take 20 p) = transaction_id" "take 2 p = be16 t" "looks_like_stun p"
    "from_be32 (p ! 4) (p ! 5) (p ! 6) (p ! 7) = STUN_MAGIC_COOKIE" "p ! 0 = ucast (drop_bit 8 t)"
    by (fact f)+
  show "STUN_HEADER_LEN + unat (be16_of p 2) = length p" "20 \<le> length p"
    using f(2) b(2) by (simp_all add: STUN_HEADER_LEN_def)
  show "authentic_response c crc32 p key" using b(3,4) by (simp add: authentic_response_def)
qed

lemma length_xor_mapped_address: "length transaction_id = 12 \<Longrightarrow> length (xor_mapped_address a transaction_id) \<le> 20"
  by (auto simp: xor_mapped_address_def split: IpAddr.splits)

text \<open>A response to a tracked ping.\<close>

lemma ping_answered:
  assumes "authentic_response c crc32 p (sc_remote_password cred)" and "drop 8 (take 20 p) = transaction_id"
    and "take 2 p = be16 STUN_BINDING_SUCCESS_RESPONSE" and "20 \<le> length p"
    and "\<forall>e\<in>set pending. fst e \<noteq> transaction_id" and "t0 \<le> t1" and "t1 < t0 + STREAM_PING_TIMEOUT"
  shows "fst (ping_receive c crc32 p cred t1 (ping_sent transaction_id t0 pending)) = Some (t1 - t0)
    \<and> (\<forall>e\<in>set (snd (ping_receive c crc32 p cred t1 (ping_sent transaction_id t0 pending))). fst e \<noteq> transaction_id)"
proof -
  define live where "live = filter (\<lambda>(_, sent). t0 - sent < STREAM_PING_TIMEOUT) pending"
  define kept where "kept = (if length live = MAX_PENDING_STREAM_PINGS then drop 1 live else live)"
  have sent: "ping_sent transaction_id t0 pending = kept @ [(transaction_id, t0)]"
    by (simp add: ping_sent_def live_def kept_def Let_def)
  have "set kept \<subseteq> set pending" by (auto simp: kept_def live_def dest: in_set_dropD)
  then have fresh: "\<forall>e\<in>set kept. fst e \<noteq> transaction_id" using assms(5) by blast
  have "find_position (\<lambda>(i, _). i = transaction_id) (kept @ [(transaction_id, t0)]) = Some (length kept)"
    using fresh by (induction kept) auto
  moreover have "remove_at (length kept) (kept @ [(transaction_id, t0)]) = kept" by (simp add: remove_at_def)
  ultimately show ?thesis
    using assms(1-4,6,7) fresh unfolding sent by (auto simp: ping_receive_def Let_def)
qed

text \<open>Two ends with matching credentials complete a STUN exchange: the request that one builds is accepted and
  answered by the other, the answer carries the requester's address as seen there, the requester accepts it,
  and the ping tracker takes the round trip time from it exactly once.\<close>

theorem stun_exchange_completes:
  assumes "crypto_ok c" and "length transaction_id = 12" and "mirrored cred peer"
    and "length (sc_remote_username_fragment cred) + length (sc_local_username_fragment cred) < 64000"
    and "\<forall>e\<in>set pending. fst e \<noteq> transaction_id" and "t0 \<le> t1" and "t1 < t0 + secs 5"
  shows "\<exists>response.
    handle_stun_datagram c crc32 (build_stun_binding_request c crc32 cred transaction_id) source peer = Handled (Some response)
    \<and> find_stun_attribute response STUN_ATTR_XOR_MAPPED_ADDRESS = Some (20, xor_mapped_address source transaction_id)
    \<and> handle_stun_datagram c crc32 response source2 cred = Handled None
    \<and> fst (ping_receive c crc32 response cred t1 (ping_sent transaction_id t0 pending)) = Some (t1 - t0)
    \<and> fst (ping_receive c crc32 response cred t2
        (snd (ping_receive c crc32 response cred t1 (ping_sent transaction_id t0 pending)))) = None"
proof -
  define user where "user = sc_remote_username_fragment cred @ [colon] @ sc_local_username_fragment cred"
  define request where "request = build_stun_binding_request c crc32 cred transaction_id"
  define response where "response = build_authenticated_stun_packet c crc32 STUN_BINDING_SUCCESS_RESPONSE transaction_id
    (sc_local_password peer) [(STUN_ATTR_XOR_MAPPED_ADDRESS, xor_mapped_address source transaction_id)]"
  have req: "request = build_authenticated_stun_packet c crc32 STUN_BINDING_REQUEST transaction_id
      (sc_remote_password cred) [(STUN_ATTR_USERNAME, user)]"
    by (simp add: request_def build_stun_binding_request_def user_def)
  have plain1: "plain_attributes [(STUN_ATTR_USERNAME, user)]"
    using assms(4) by (intro plain_single) (simp_all add: user_def stun_consts)
  have plain2: "plain_attributes [(STUN_ATTR_XOR_MAPPED_ADDRESS, xor_mapped_address source transaction_id)]"
    using length_xor_mapped_address [OF assms(2), of source] by (intro plain_single) (simp_all add: stun_consts)
  note b1 = built_packet [OF assms(1,2) plain1 req] and f1 = built_fields [OF assms(1,2) plain1 req]
  note b2 = built_packet [OF assms(1,2) plain2 response_def] and f2 = built_fields [OF assms(1,2) plain2 response_def]
  have hi: "(ucast (drop_bit 8 STUN_BINDING_REQUEST) :: u8) AND 0xc0 = 0"
    "(ucast (drop_bit 8 STUN_BINDING_SUCCESS_RESPONSE) :: u8) AND 0xc0 = 0"
    by (simp_all add: stun_consts)
  have "handle_stun_datagram c crc32 request source peer = Handled (Some response)"
    using f1 b1(3,4) b1(5) [OF refl] assms(3) hi
    by (simp add: handle_stun_datagram_def Let_def mirrored_def user_def response_def)
  moreover have neq: "STUN_BINDING_SUCCESS_RESPONSE \<noteq> STUN_BINDING_REQUEST" by (simp add: stun_consts)
  have "handle_stun_datagram c crc32 response source2 cred = Handled None"
    using f2 b2(3,4) assms(3) hi neq
    by (simp add: handle_stun_datagram_def Let_def mirrored_def)
  moreover have "authentic_response c crc32 response (sc_remote_password cred)"
    using f2(9) assms(3) by (simp add: mirrored_def)
  note answered = ping_answered [OF this f2(3,4,8) assms(5,6), unfolded STREAM_PING_TIMEOUT_def, OF assms(7)]
  have "find_position (\<lambda>(i, _). i = drop 8 (take 20 response)) rest = None" if "\<forall>e\<in>set rest. fst e \<noteq> transaction_id"
    for rest :: ping_tracker
    using that f2(3) by (auto simp: find_position_None)
  then have "fst (ping_receive c crc32 response cred t2 rest) = None" if "\<forall>e\<in>set rest. fst e \<noteq> transaction_id"
    for rest :: ping_tracker
    using that by (simp add: ping_receive_def)
  ultimately show ?thesis using answered b2(5) [OF refl] unfolding request_def by blast
qed

theorem stun_exchange_completes_witness:
  "\<exists>response. fst (ping_receive sample_crypto (\<lambda>_. 7) response
     \<lparr> sc_local_username_fragment = [1], sc_local_password = [2], sc_remote_username_fragment = [3], sc_remote_password = [4] \<rparr>
     9 (ping_sent (replicate 12 5) 2 [])) = Some 7"
proof -
  let ?a = "\<lparr> sc_local_username_fragment = [1], sc_local_password = [2], sc_remote_username_fragment = [3], sc_remote_password = [4] \<rparr>"
  let ?b = "\<lparr> sc_local_username_fragment = [3], sc_local_password = [4], sc_remote_username_fragment = [1], sc_remote_password = [2] \<rparr>"
  have "mirrored ?a ?b" by (simp add: mirrored_def)
  from stun_exchange_completes [OF sample_crypto_ok _ this, of "replicate 12 5" "[]" 2 9 "\<lambda>_. 7"
      "\<lparr> sa_ip = V4 [10, 0, 0, 1], sa_port = 4000 \<rparr>" "\<lparr> sa_ip = V4 [10, 0, 0, 2], sa_port = 4001 \<rparr>" 0]
  show ?thesis by (auto simp: secs_def)
qed

section \<open>Responses pass once\<close>

text \<open>The packets the bundle sends and receives, and whether each received one is handed on.\<close>

datatype ice_op = IceSent bytes | IceReceived bytes

fun ice_step :: "crypto \<Rightarrow> (bytes \<Rightarrow> u32) \<Rightarrow> bytes \<Rightarrow> ice_op \<Rightarrow> ice_tracker \<Rightarrow> ice_tracker" where
  "ice_step c crc32 pw (IceSent p) s = ice_sent p s"
| "ice_step c crc32 pw (IceReceived p) s = snd (ice_accept c crc32 p pw s)"

definition ice_ok :: "ice_tracker \<Rightarrow> bool" where
  "ice_ok s \<longleftrightarrow> length s \<le> MAX_PENDING_STREAM_PINGS \<and> distinct (map fst s)"

lemma map_fst_complete: "map fst (update_first q (\<lambda>(i, _). (i, True)) s) = map fst s"
  by (induction s) (auto split: prod.splits)

lemma ice_step_ok:
  assumes "ice_ok s"
  shows "ice_ok (ice_step c crc32 pw x s)"
proof (cases x)
  case (IceSent p)
  have "length (drop 1 s) < 64 \<and> distinct (map fst (drop 1 s))" if "length s = 64"
    using assms that by (simp add: ice_ok_def distinct_drop drop_map [symmetric])
  moreover have "fst r \<noteq> i" if "\<forall>r\<in>set s. fst r \<noteq> i" "r \<in> set (drop 1 s)" for r i
    using that in_set_dropD [of r 1 s] by blast
  ultimately show ?thesis
    using assms IceSent by (auto simp: ice_sent_def ice_ok_def Let_def MAX_PENDING_STREAM_PINGS_def) blast
next
  case (IceReceived p)
  then show ?thesis using assms
    by (auto simp: ice_accept_def ice_ok_def map_fst_complete split: option.splits)
qed

lemma ice_completed_stays:
  assumes "(i, True) \<in> set s"
  shows "(i, True) \<in> set (snd (ice_accept c crc32 p pw s))"
proof -
  have "(i, True) \<in> set (update_first q (\<lambda>(i, _). (i, True)) s)" for q
    using assms by (induction s) (auto split: prod.splits)
  with assms show ?thesis by (auto simp: ice_accept_def split: option.splits)
qed

lemma ice_accept_tracked:
  assumes "ice_ok s" and "(i, done) \<in> set s" and "drop 8 (take 20 p) = i" and "looks_like_stun p"
    and "take 2 p = be16 STUN_BINDING_SUCCESS_RESPONSE" and "STUN_HEADER_LEN + unat (be16_of p 2) = length p"
    and "authentic_response c crc32 p pw"
  shows "fst (ice_accept c crc32 p pw s) = (\<not> done)" and "(i, True) \<in> set (snd (ice_accept c crc32 p pw s))"
proof -
  have "distinct (map fst s)" using assms(1) by (simp add: ice_ok_def)
  with assms(2) have f: "find (\<lambda>r. fst r = i) s = Some (i, done)"
    and u: "(i, True) \<in> set (update_first (\<lambda>r. fst r = i) (\<lambda>(i, _). (i, True)) s)"
    by (induction s) (auto simp: rev_image_eqI split: prod.splits)
  show "fst (ice_accept c crc32 p pw s) = (\<not> done)" "(i, True) \<in> set (snd (ice_accept c crc32 p pw s))"
    using assms f u by (simp_all add: ice_accept_def)
qed

text \<open>Duplicated ICE responses are filtered: the tracker never holds more than 64 requests nor one twice, the
  first authentic response to a request on record is handed on, and every later authentic response to it is
  held back as long as only responses arrive in between, however many and whichever they are.\<close>

theorem ice_response_passes_once:
  assumes "s = fold (ice_step c crc32 pw) ops []" and "(i, False) \<in> set s"
    and "\<forall>p\<in>{p1, p2}. drop 8 (take 20 p) = i \<and> looks_like_stun p \<and> take 2 p = be16 STUN_BINDING_SUCCESS_RESPONSE
          \<and> STUN_HEADER_LEN + unat (be16_of p 2) = length p \<and> authentic_response c crc32 p pw"
    and "s' = fold (\<lambda>p s. snd (ice_accept c crc32 p pw s)) others (snd (ice_accept c crc32 p1 pw s))"
  shows "length s \<le> 64 \<and> distinct (map fst s)
    \<and> fst (ice_accept c crc32 p1 pw s) \<and> \<not> fst (ice_accept c crc32 p2 pw s')"
proof -
  have run: "ice_ok (fold (ice_step c crc32 pw) xs t)" if "ice_ok t" for xs t
    using that by (induction xs arbitrary: t) (simp_all add: ice_step_ok)
  have ok: "ice_ok s" unfolding assms(1) by (rule run) (simp add: ice_ok_def)
  note first = ice_accept_tracked [OF ok assms(2), of p1]
  have "(i, True) \<in> set t \<and> ice_ok t \<Longrightarrow> (i, True) \<in> set (fold (\<lambda>p s. snd (ice_accept c crc32 p pw s)) xs t)
      \<and> ice_ok (fold (\<lambda>p s. snd (ice_accept c crc32 p pw s)) xs t)" for xs t
  proof (induction xs arbitrary: t)
    case (Cons x xs)
    then have "(i, True) \<in> set (snd (ice_accept c crc32 x pw t))" "ice_ok (snd (ice_accept c crc32 x pw t))"
      using ice_completed_stays ice_step_ok [of t c crc32 pw "IceReceived x"] by auto
    with Cons.IH show ?case by simp
  qed simp
  moreover have "(i, True) \<in> set (snd (ice_accept c crc32 p1 pw s))" "ice_ok (snd (ice_accept c crc32 p1 pw s))"
    using first(2) assms(3) ice_step_ok [OF ok, of c crc32 pw "IceReceived p1"] by auto
  ultimately have "(i, True) \<in> set s'" "ice_ok s'" unfolding assms(4) by blast+
  then have "\<not> fst (ice_accept c crc32 p2 pw s')" using ice_accept_tracked(1) [of s' i True p2] assms(3) by auto
  with first(1) assms(3) ok show ?thesis by (simp add: ice_ok_def MAX_PENDING_STREAM_PINGS_def)
qed

theorem ice_response_passes_once_witness:
  "\<exists>request response. \<not> fst (ice_accept sample_crypto (\<lambda>_. 7) response [4]
     (snd (ice_accept sample_crypto (\<lambda>_. 7) response [4] (ice_sent request []))))"
proof -
  let ?tid = "replicate 12 5"
  have plain: "plain_attributes [(STUN_ATTR_USERNAME, [1])]" by (rule plain_single) (simp_all add: stun_consts)
  define request where "request = build_authenticated_stun_packet sample_crypto (\<lambda>_. 7) STUN_BINDING_REQUEST ?tid [4]
    [(STUN_ATTR_USERNAME, [1])]"
  define response where "response = build_authenticated_stun_packet sample_crypto (\<lambda>_. 7) STUN_BINDING_SUCCESS_RESPONSE ?tid [4]
    [(STUN_ATTR_USERNAME, [1])]"
  note q = built_fields [OF sample_crypto_ok _ plain request_def] and r = built_fields [OF sample_crypto_ok _ plain response_def]
  have "(?tid, False) \<in> set (fold (ice_step sample_crypto (\<lambda>_. 7) [4]) [IceSent request] [])"
    using q by (simp add: ice_sent_def MAX_PENDING_STREAM_PINGS_def)
  from ice_response_passes_once [OF refl this, of response response _ "[]", OF _ refl] r
  have "\<not> fst (ice_accept sample_crypto (\<lambda>_. 7) response [4]
     (snd (ice_accept sample_crypto (\<lambda>_. 7) response [4] (ice_sent request []))))" by simp
  then show ?thesis by blast
qed

end
