(* ===== verification/UdpWorker.thy ===== *)
theory UdpWorker
  imports ReceiverRuns Stun
begin

text \<open>
  The thread of the dedicated video socket (\<open>run_nvst_udp_receiver\<close> of \<open>nvst.rs\<close>) and the hand-over of frames
  to the media consumer (\<open>forward_receive_event\<close>, \<open>deliver_media_frame\<close> of \<open>lib.rs\<close>). One turn of the thread's
  loop is a function of the worker state and of what the outside does in it: the queued commands, the
  random bytes, the results of the socket calls, the clock readings and what the consumer takes from its
  channel. What the source only logs is left out.
\<close>

section \<open>Media frames and their channel\<close>

datatype TransportError = InputNotReady | TransportMediaConsumerClosed | TransportMediaConsumerBackpressured | Closed

record EncodedMediaFrame =
  mf_mid :: string
  mf_codec :: string
  mf_payload :: bytes
  mf_frame_index :: "u32 option"
  mf_rtp_timestamp :: nat
  mf_clock_rate_hz :: u32
  mf_channels :: "u8 option"
  mf_received_at_us :: nat
  mf_keyframe :: bool
  mf_contiguous :: bool
  mf_ssrc :: "u32 option"

text \<open>\<open>std::sync::mpsc::sync_channel\<close>: a bounded queue and whether the receiving end is gone.\<close>

record media_channel =
  mc_queue :: "EncodedMediaFrame list"
  mc_capacity :: nat
  mc_closed :: bool

definition deliver_media_frame :: "media_channel \<Rightarrow> EncodedMediaFrame \<Rightarrow> (TransportError + unit) \<times> media_channel" where
  "deliver_media_frame consumer frame =
     (if mc_closed consumer then (Inl TransportMediaConsumerClosed, consumer)
      else if mc_capacity consumer \<le> length (mc_queue consumer) then (Inl TransportMediaConsumerBackpressured, consumer)
      else (Inr (), consumer\<lparr> mc_queue := mc_queue consumer @ [frame] \<rparr>))"

definition codec_label :: "NvstVideoCodec \<Rightarrow> string" where
  "codec_label codec = (case codec of H264 \<Rightarrow> ''H264'' | H265 \<Rightarrow> ''H265'' | Av1 \<Rightarrow> ''AV1'')"

section \<open>Worker state\<close>

datatype UdpReceiverCommand =
    SendText bytes u64
  | PauseCommand
  | ResumeCommand
  | RecoverCommand
  | SendInput bytes "instant option" "instant option" bool
  | StopCommand

datatype send_result = Sent | PortUnreachable | SendFailed
datatype receive_result = ReceivedFrom bytes SocketAddr | ReceiveIdle | ReceiveFailed

record 'f udp_worker =
  uw_receiver :: "'f NvstVideoReceiver"
  uw_consumer :: media_channel
  uw_events :: "NvstReceiveEvent list"
  uw_datagrams :: "(bytes \<times> SocketAddr) list"
  uw_input_replies :: "TransportError list"
  uw_video_delivery_gap :: bool
  uw_peer_seen :: bool
  uw_last_ping :: instant
  uw_pings_sent :: nat
  uw_ping_tracker :: ping_tracker
  uw_inbound_datagrams :: nat
  uw_handled_stun :: nat
  uw_invalid_stun :: nat
  uw_non_stun :: nat
  uw_wrong_source :: nat
  uw_receiver_reports_sent :: nat

text \<open>What happens outside during one turn of the loop.\<close>

record turn_env =
  te_commands :: "UdpReceiverCommand list"
  te_disconnected :: bool
  te_now :: instant
  te_random :: "bytes option"
  te_sent_at :: instant
  te_ping_send :: send_result
  te_receive :: receive_result
  te_received_at :: instant
  te_stun_send :: send_result
  te_forwarded_at :: instant
  te_taken :: "nat list"
  te_polled_at :: instant
  te_report_send :: send_result

definition PING_INTERVAL_BEFORE_CONNECTION :: duration where "PING_INTERVAL_BEFORE_CONNECTION = millis 20"
definition PING_INTERVAL_AFTER_CONNECTION :: duration where "PING_INTERVAL_AFTER_CONNECTION = millis 100"

definition send_event :: "NvstReceiveEvent \<Rightarrow> 'f udp_worker \<Rightarrow> 'f udp_worker" where
  "send_event e w = w\<lparr> uw_events := uw_events w @ [e] \<rparr>"

definition forward_optional :: "NvstReceiveEvent option \<Rightarrow> 'f udp_worker \<Rightarrow> 'f udp_worker" where
  "forward_optional e w = (case e of None \<Rightarrow> w | Some e \<Rightarrow> send_event e w)"

text \<open>A method of the receiver that answers with an event, and the event sent.\<close>

definition receiver_event ::
  "('f NvstVideoReceiver \<Rightarrow> NvstReceiveEvent option \<times> 'f NvstVideoReceiver) \<Rightarrow> 'f udp_worker \<Rightarrow> 'f udp_worker" where
  "receiver_event f w = (case f (uw_receiver w) of (e, r) \<Rightarrow> forward_optional e (w\<lparr> uw_receiver := r \<rparr>))"

definition worker_feedback ::
  "('f NvstFeedbackState \<Rightarrow> 'f NvstFeedbackState) \<Rightarrow> 'f udp_worker \<Rightarrow> 'f udp_worker" where
  "worker_feedback f w = w\<lparr> uw_receiver := with_feedback f (uw_receiver w) \<rparr>"

section \<open>Frames to the consumer\<close>

definition media_frame :: "instant \<Rightarrow> instant \<Rightarrow> bool \<Rightarrow> EncodedVideoAccessUnit \<Rightarrow> EncodedMediaFrame" where
  "media_frame transport_origin now delivery_gap frame =
     \<lparr> mf_mid = ''nvst-video-0'', mf_codec = codec_label (au_codec frame), mf_payload = au_bytes frame,
       mf_frame_index = Some (au_frame_index frame), mf_rtp_timestamp = unat (au_timestamp frame),
       mf_clock_rate_hz = 90000, mf_channels = None,
       mf_received_at_us = min ((now - transport_origin) div 1000) u64_max,
       mf_keyframe = au_keyframe frame, mf_contiguous = (au_contiguous frame \<and> \<not> delivery_gap), mf_ssrc = None \<rparr>"

definition forward_receive_event ::
  "instant \<Rightarrow> instant \<Rightarrow> instant \<Rightarrow> NvstReceiveEvent \<Rightarrow> 'f udp_worker \<Rightarrow> bool \<times> 'f udp_worker" where
  "forward_receive_event transport_origin now delivered_at event w =
     (case event of
        Frame frame \<Rightarrow>
          let w = worker_feedback (publish_assembled_frame (au_frame_index frame) delivered_at) w
          in (case deliver_media_frame (uw_consumer w)
                     (media_frame transport_origin now (uw_video_delivery_gap w) frame) of
                (Inr _, consumer) \<Rightarrow> (True, w\<lparr> uw_consumer := consumer, uw_video_delivery_gap := False \<rparr>)
              | (Inl TransportMediaConsumerBackpressured, consumer) \<Rightarrow>
                  (True, send_event (Dropped MediaConsumerBackpressured)
                     ((worker_feedback (retire_undelivered_frame (au_frame_index frame)) w)
                        \<lparr> uw_consumer := consumer, uw_video_delivery_gap := True \<rparr>))
              | (Inl _, consumer) \<Rightarrow>
                  (False, send_event (Dropped MediaConsumerClosed)
                     ((worker_feedback (retire_undelivered_frame (au_frame_index frame)) w)\<lparr> uw_consumer := consumer \<rparr>)))
      | _ \<Rightarrow> (True, send_event event w))"

text \<open>The consumer may take frames off its channel before each event.\<close>

definition consumer_takes :: "nat \<Rightarrow> 'f udp_worker \<Rightarrow> 'f udp_worker" where
  "consumer_takes n w = w\<lparr> uw_consumer := (uw_consumer w)\<lparr> mc_queue := drop n (mc_queue (uw_consumer w)) \<rparr> \<rparr>"

fun forward_events ::
  "instant \<Rightarrow> instant \<Rightarrow> instant \<Rightarrow> NvstReceiveEvent list \<Rightarrow> nat list \<Rightarrow> 'f udp_worker \<Rightarrow> bool \<times> 'f udp_worker" where
  "forward_events transport_origin now delivered_at [] taken w = (True, w)"
| "forward_events transport_origin now delivered_at (e # es) taken w =
     (let w = consumer_takes (case taken of [] \<Rightarrow> 0 | n # _ \<Rightarrow> n) w
      in case forward_receive_event transport_origin now delivered_at e w of
           (False, w) \<Rightarrow> (False, w)
         | (True, w) \<Rightarrow> forward_events transport_origin now delivered_at es (drop 1 taken) w)"

section \<open>One turn of the loop\<close>

definition stop_worker :: "'f float_ops \<Rightarrow> instant \<Rightarrow> 'f udp_worker \<Rightarrow> 'f udp_worker" where
  "stop_worker fl now w = receiver_event (stop fl now) w"

text \<open>The inner command loop; the first component says whether the thread goes on.\<close>

fun run_commands ::
  "'f float_ops \<Rightarrow> instant \<Rightarrow> UdpReceiverCommand list \<Rightarrow> bool \<Rightarrow> 'f udp_worker \<Rightarrow> bool \<times> 'f udp_worker" where
  "run_commands fl now [] disconnected w = (if disconnected then (False, stop_worker fl now w) else (True, w))"
| "run_commands fl now (PauseCommand # cs) disconnected w =
     run_commands fl now cs disconnected (receiver_event (pause fl now) w)"
| "run_commands fl now (ResumeCommand # cs) disconnected w =
     run_commands fl now cs disconnected (receiver_event (resume fl now) w)"
| "run_commands fl now (RecoverCommand # cs) disconnected w =
     run_commands fl now cs disconnected (receiver_event (recover fl now) w)"
| "run_commands fl now (SendText _ _ # cs) disconnected w = run_commands fl now cs disconnected w"
| "run_commands fl now (SendInput _ _ _ reply # cs) disconnected w =
     run_commands fl now cs disconnected
       (if reply then w\<lparr> uw_input_replies := uw_input_replies w @ [InputNotReady] \<rparr> else w)"
| "run_commands fl now (StopCommand # cs) disconnected w = (False, stop_worker fl now w)"

text \<open>A datagram to the video peer: the worker afterwards, \<open>None\<close> where the thread gives up.\<close>

definition send_to_peer :: "send_result \<Rightarrow> bytes \<Rightarrow> SocketAddr \<Rightarrow> 'f udp_worker \<Rightarrow> 'f udp_worker option" where
  "send_to_peer result bs peer w = (case result of
     Sent \<Rightarrow> Some (w\<lparr> uw_datagrams := uw_datagrams w @ [(bs, peer)] \<rparr>)
   | PortUnreachable \<Rightarrow> Some w
   | SendFailed \<Rightarrow> None)"

definition ping_interval :: "'f udp_worker \<Rightarrow> duration" where
  "ping_interval w = (if uw_peer_seen w then PING_INTERVAL_AFTER_CONNECTION else PING_INTERVAL_BEFORE_CONNECTION)"

definition count_ping :: "send_result \<Rightarrow> 'f udp_worker \<Rightarrow> 'f udp_worker" where
  "count_ping result w = (if result = Sent then w\<lparr> uw_pings_sent := uw_pings_sent w + 1 \<rparr> else w)"

definition send_ping ::
  "'f float_ops \<Rightarrow> crypto \<Rightarrow> (bytes \<Rightarrow> u32) \<Rightarrow> turn_env \<Rightarrow> 'f udp_worker \<Rightarrow> bool \<times> 'f udp_worker" where
  "send_ping fl c crc32 env w =
     (let cfg = vr_config (uw_receiver w); give_up = (False, stop_worker fl (te_now env) w)
      in if te_now env - uw_last_ping w < ping_interval w then (True, w)
         else case vc_stun_credentials cfg of
           Some credentials \<Rightarrow>
             (case te_random env of
                None \<Rightarrow> give_up
              | Some transaction_id \<Rightarrow>
                  let ping = build_natt_hole_punch_request c crc32 (sc_local_username_fragment credentials)
                        (vc_ping_payload cfg) (sc_remote_password credentials) transaction_id
                  in (case send_to_peer (te_ping_send env) ping (vc_video_peer cfg) w of
                        None \<Rightarrow> give_up
                      | Some w \<Rightarrow>
                          (True, (count_ping (te_ping_send env) w)
                             \<lparr> uw_ping_tracker := ping_sent transaction_id (te_sent_at env) (uw_ping_tracker w),
                               uw_last_ping := te_now env \<rparr>)))
         | None \<Rightarrow>
             (case send_to_peer (te_ping_send env) (vc_ping_payload cfg) (vc_video_peer cfg) w of
                None \<Rightarrow> give_up
              | Some w \<Rightarrow> (True, (count_ping (te_ping_send env) w)\<lparr> uw_last_ping := te_now env \<rparr>)))"

text \<open>Whether a datagram was taken as STUN, which ends the turn, and whether the thread goes on.\<close>

definition receive_stun ::
  "'f float_ops \<Rightarrow> crypto \<Rightarrow> (bytes \<Rightarrow> u32) \<Rightarrow> turn_env \<Rightarrow> bytes \<Rightarrow> SocketAddr \<Rightarrow> NvstStunCredentials
   \<Rightarrow> 'f udp_worker \<Rightarrow> bool \<times> bool \<times> 'f udp_worker" where
  "receive_stun fl c crc32 env datagram source credentials w =
     (let (elapsed, tracker) = ping_receive c crc32 datagram credentials (te_received_at env) (uw_ping_tracker w);
          w = w\<lparr> uw_ping_tracker := tracker \<rparr>;
          w = (case elapsed of None \<Rightarrow> w | Some d \<Rightarrow> worker_feedback (publish_ping True (te_received_at env) d) w)
      in case handle_stun_datagram c crc32 datagram source credentials of
           Handled response \<Rightarrow>
             let w = w\<lparr> uw_handled_stun := uw_handled_stun w + 1, uw_peer_seen := True \<rparr>
             in (case response of
                   None \<Rightarrow> (True, True, w)
                 | Some bs \<Rightarrow>
                     (case send_to_peer (te_stun_send env) bs source w of
                        None \<Rightarrow> (True, False, stop_worker fl (te_received_at env) w)
                      | Some w \<Rightarrow> (True, True, w)))
         | InvalidStun \<Rightarrow> (True, True, w\<lparr> uw_invalid_stun := uw_invalid_stun w + 1 \<rparr>)
         | NotStun \<Rightarrow> (False, True, w\<lparr> uw_non_stun := uw_non_stun w + 1 \<rparr>))"

definition receive_media ::
  "'f float_ops \<Rightarrow> crypto \<Rightarrow> instant \<Rightarrow> turn_env \<Rightarrow> bytes \<Rightarrow> SocketAddr \<Rightarrow> bool \<Rightarrow> bool \<Rightarrow> 'f udp_worker
   \<Rightarrow> (bool \<times> 'f udp_worker) option" where
  "receive_media fl c transport_origin env datagram source expected_source authenticated_before w =
     (case process_datagram fl c source datagram (te_received_at env) (uw_receiver w) of
        None \<Rightarrow> None
      | Some (events, r) \<Rightarrow>
          let w = w\<lparr> uw_receiver := r \<rparr>;
              w = (if authenticated_before then w
                   else worker_feedback (record_socket_receive Video expected_source
                          (vr_last_authenticated_packet r \<noteq> None) (length datagram)) w)
          in Some (case forward_events transport_origin (te_forwarded_at env) (te_received_at env) events (te_taken env) w of
                     (True, w) \<Rightarrow> (True, w)
                   | (False, w) \<Rightarrow> (False, stop_worker fl (te_received_at env) w)))"

text \<open>The answer: a panic, the end of the thread, the next turn, or on to the polls of this turn.\<close>

datatype 'w progress = Ended 'w | NextTurn 'w | GoOn 'w

definition receive_step ::
  "'f float_ops \<Rightarrow> crypto \<Rightarrow> (bytes \<Rightarrow> u32) \<Rightarrow> instant \<Rightarrow> turn_env \<Rightarrow> 'f udp_worker \<Rightarrow> 'f udp_worker progress option" where
  "receive_step fl c crc32 transport_origin env w = (case te_receive env of
     ReceiveIdle \<Rightarrow> Some (GoOn w)
   | ReceiveFailed \<Rightarrow> Some (Ended (stop_worker fl (te_received_at env) w))
   | ReceivedFrom datagram source \<Rightarrow>
       let cfg = vr_config (uw_receiver w);
           expected_source = accepts_video_source cfg source;
           authenticated_before = (vr_last_authenticated_packet (uw_receiver w) \<noteq> None);
           w = worker_feedback (record_socket_receive Video expected_source authenticated_before (length datagram))
                 (w\<lparr> uw_inbound_datagrams := uw_inbound_datagrams w + 1 \<rparr>);
           w = (if expected_source then w else w\<lparr> uw_wrong_source := uw_wrong_source w + 1 \<rparr>);
           (taken_as_stun, running, w) =
             (case vc_stun_credentials cfg of
                Some credentials \<Rightarrow>
                  if expected_source then receive_stun fl c crc32 env datagram source credentials w else (False, True, w)
              | None \<Rightarrow> (False, True, w))
       in if \<not> running then Some (Ended w)
          else if taken_as_stun then Some (NextTurn w)
          else map_option (\<lambda>(running, w). if running then GoOn w else Ended w)
                 (receive_media fl c transport_origin env datagram source expected_source authenticated_before w))"

definition poll_step ::
  "'f float_ops \<Rightarrow> crypto \<Rightarrow> turn_env \<Rightarrow> 'f udp_worker \<Rightarrow> (bool \<times> 'f udp_worker) option" where
  "poll_step fl c env w =
     (let now = te_polled_at env
      in case poll_receiver_report fl c now (uw_receiver w) of
           None \<Rightarrow> None
         | Some (report_packet, r) \<Rightarrow>
             let w = w\<lparr> uw_receiver := r \<rparr>;
                 sent = (case report_packet of
                   None \<Rightarrow> Some w
                 | Some bs \<Rightarrow>
                     map_option (\<lambda>w. if te_report_send env = Sent
                                     then w\<lparr> uw_receiver_reports_sent := uw_receiver_reports_sent w + 1 \<rparr> else w)
                       (send_to_peer (te_report_send env) bs (vc_video_peer (vr_config r)) w))
             in (case sent of
                   None \<Rightarrow> Some (False, stop_worker fl now w)
                 | Some w \<Rightarrow>
                     (case poll_timeout fl now (uw_receiver w) of
                        (timeout, r) \<Rightarrow>
                          let w = forward_optional timeout (w\<lparr> uw_receiver := r \<rparr>);
                              limit = vc_timeout (vr_config r)
                          in if timeout \<noteq> None then Some (True, w)
                             else (case poll_frame_progress now \<lparr> fp_stall = limit, fp_keyframe_grace = limit \<rparr> r of
                                     (e, r) \<Rightarrow>
                                       Some (True, fold send_event (progress_events e) (w\<lparr> uw_receiver := r \<rparr>))))))"

definition udp_turn ::
  "'f float_ops \<Rightarrow> crypto \<Rightarrow> (bytes \<Rightarrow> u32) \<Rightarrow> instant \<Rightarrow> turn_env \<Rightarrow> 'f udp_worker \<Rightarrow> (bool \<times> 'f udp_worker) option" where
  "udp_turn fl c crc32 transport_origin env w =
     (case run_commands fl (te_now env) (te_commands env) (te_disconnected env) w of
        (False, w) \<Rightarrow> Some (False, w)
      | (True, w) \<Rightarrow>
          (case send_ping fl c crc32 env w of
             (False, w) \<Rightarrow> Some (False, w)
           | (True, w) \<Rightarrow>
               (case receive_step fl c crc32 transport_origin env w of
                  None \<Rightarrow> None
                | Some (Ended w) \<Rightarrow> Some (False, w)
                | Some (NextTurn w) \<Rightarrow> Some (True, w)
                | Some (GoOn w) \<Rightarrow> poll_step fl c env w)))"

text \<open>\<open>Instant - Duration\<close> panics when the result would lie before the epoch of the clock.\<close>

definition udp_start ::
  "crypto \<Rightarrow> NvstVideoConfig \<Rightarrow> 'f NvstFeedbackState \<Rightarrow> media_channel \<Rightarrow> instant \<Rightarrow> 'f udp_worker option" where
  "udp_start c cfg feedback consumer now =
     (if now < PING_INTERVAL_BEFORE_CONNECTION then None else Some
     \<lparr> uw_receiver = NvstVideoReceiver_new c cfg feedback now, uw_consumer = consumer, uw_events = [],
       uw_datagrams = [], uw_input_replies = [], uw_video_delivery_gap = False, uw_peer_seen = False,
       uw_last_ping = now - PING_INTERVAL_BEFORE_CONNECTION, uw_pings_sent = 0, uw_ping_tracker = [],
       uw_inbound_datagrams = 0, uw_handled_stun = 0, uw_invalid_stun = 0, uw_non_stun = 0, uw_wrong_source = 0,
       uw_receiver_reports_sent = 0 \<rparr>)"

text \<open>Turns until the thread ends.\<close>

fun udp_run ::
  "'f float_ops \<Rightarrow> crypto \<Rightarrow> (bytes \<Rightarrow> u32) \<Rightarrow> instant \<Rightarrow> turn_env list \<Rightarrow> 'f udp_worker \<Rightarrow> (bool \<times> 'f udp_worker) option" where
  "udp_run fl c crc32 transport_origin [] w = Some (True, w)"
| "udp_run fl c crc32 transport_origin (env # envs) w =
     (case udp_turn fl c crc32 transport_origin env w of
        None \<Rightarrow> None
      | Some (False, w) \<Rightarrow> Some (False, w)
      | Some (True, w) \<Rightarrow> udp_run fl c crc32 transport_origin envs w)"

section \<open>What a turn keeps\<close>

text \<open>
  The receiver stays well formed, and the events sent are a word of the life cycle automaton from the state of
  the receiver before to its state after.
\<close>

definition worker_step :: "'f udp_worker \<Rightarrow> 'f udp_worker \<Rightarrow> bool" where
  "worker_step w w' \<longleftrightarrow> (receiver_ok (uw_receiver w) \<longrightarrow> receiver_ok (uw_receiver w'))
     \<and> (\<exists>es. uw_events w' = uw_events w @ es
          \<and> life_run (vr_state (uw_receiver w)) es = Some (vr_state (uw_receiver w')))"

lemma worker_step_trans:
  assumes "worker_step w w'" and "worker_step w' w''"
  shows "worker_step w w''"
proof -
  from assms obtain es es' where "uw_events w' = uw_events w @ es" "uw_events w'' = uw_events w' @ es'"
    "life_run (vr_state (uw_receiver w)) es = Some (vr_state (uw_receiver w'))"
    "life_run (vr_state (uw_receiver w')) es' = Some (vr_state (uw_receiver w''))"
    by (auto simp: worker_step_def)
  then show ?thesis using assms by (auto simp: worker_step_def life_run_append intro!: exI [of _ "es @ es'"])
qed

lemma worker_step_quiet:
  assumes "uw_events w' = uw_events w" and "control_step (uw_receiver w) [] (uw_receiver w')"
  shows "worker_step w w'"
  using assms by (auto simp: worker_step_def control_step_def intro!: exI [of _ "[]"])

lemma worker_step_same: "uw_events w' = uw_events w \<Longrightarrow> uw_receiver w' = uw_receiver w \<Longrightarrow> worker_step w w'"
  by (rule worker_step_quiet) (simp_all add: control_step_none)

lemma worker_step_then:
  "worker_step w v \<Longrightarrow> uw_events w' = uw_events v \<Longrightarrow> uw_receiver w' = uw_receiver v \<Longrightarrow> worker_step w w'"
  by (simp add: worker_step_def)

lemma worker_step_events:
  assumes "uw_events w' = uw_events w @ es" and "control_step (uw_receiver w) es (uw_receiver w')"
  shows "worker_step w w'"
  using assms by (auto simp: worker_step_def control_step_def)

lemma receiver_event_step:
  assumes "\<And>e r'. f (uw_receiver w) = (e, r') \<Longrightarrow> control_step (uw_receiver w) (event_list e) r'"
  shows "worker_step w (receiver_event f w)"
proof -
  obtain e r' where f: "f (uw_receiver w) = (e, r')" by (metis surj_pair)
  from assms [OF f] f show ?thesis
    by (auto simp: receiver_event_def forward_optional_def send_event_def split: option.splits
        intro: worker_step_events worker_step_quiet)
qed

lemma lifecycle_event_step:
  "worker_step w (receiver_event (pause fl now) w)" "worker_step w (receiver_event (resume fl now) w)"
  "worker_step w (receiver_event (recover fl now) w)" "worker_step w (receiver_event (stop fl now) w)"
  by (rule receiver_event_step, erule lifecycle_control)+

lemma stop_worker_step: "worker_step w (stop_worker fl now w)"
  unfolding stop_worker_def by (rule lifecycle_event_step)

lemma stop_worker_stopped: "vr_state (uw_receiver (stop_worker fl now w)) = Stopped"
  by (auto simp: stop_worker_def receiver_event_def stop_def forward_optional_def send_event_def split: prod.splits)

lemma worker_feedback_step:
  assumes "\<And>s. feedback_ok s \<Longrightarrow> feedback_ok (f s)"
  shows "worker_step w (worker_feedback f w)"
  by (rule worker_step_quiet)
    (auto simp: worker_feedback_def with_feedback_def receiver_ok_def assms intro!: control_step_quiet)

lemma worker_feedback_ops:
  "worker_step w (worker_feedback (publish_assembled_frame n t) w)"
  "worker_step w (worker_feedback (retire_undelivered_frame n) w)"
  "worker_step w (worker_feedback (publish_ping v t d) w)"
  "worker_step w (worker_feedback (record_socket_receive k p a l) w)"
  using feedback_step_ok [of _ "AssembledFrame n t"] feedback_step_ok [of _ "RetireFrame n"]
    feedback_step_ok [of _ "Ping v t d"] feedback_step_ok [of _ "SocketReceive k p a l"]
  by (auto intro!: worker_feedback_step)

lemma run_commands_step:
  assumes "run_commands fl now cs disconnected w = (go, w')"
  shows "worker_step w w' \<and> (\<not> go \<longrightarrow> vr_state (uw_receiver w') = Stopped)"
  using assms
proof (induction fl now cs disconnected w arbitrary: go w' rule: run_commands.induct)
  case (1 fl now disconnected w)
  then show ?case by (auto simp: stop_worker_step stop_worker_stopped worker_step_same split: if_splits)
next
  case (2 fl now cs disconnected w)
  then show ?case using worker_step_trans [OF lifecycle_event_step(1)] by auto
next
  case (3 fl now cs disconnected w)
  then show ?case using worker_step_trans [OF lifecycle_event_step(2)] by auto
next
  case (4 fl now cs disconnected w)
  then show ?case using worker_step_trans [OF lifecycle_event_step(3)] by auto
next
  case (6 fl now b o1 o2 reply cs disconnected w)
  let ?w = "if reply then w\<lparr> uw_input_replies := uw_input_replies w @ [InputNotReady] \<rparr> else w"
  have "worker_step w ?w" by (auto intro: worker_step_same)
  moreover have "worker_step ?w w' \<and> (\<not> go \<longrightarrow> vr_state (uw_receiver w') = Stopped)" using 6 by simp
  ultimately show ?case using worker_step_trans by blast
qed (auto simp: stop_worker_step stop_worker_stopped)

lemma send_to_peer_step: "send_to_peer result bs peer w = Some w' \<Longrightarrow> worker_step w w'"
  by (auto simp: send_to_peer_def split: send_result.splits intro: worker_step_same)

lemma send_ping_step:
  assumes "send_ping fl c crc32 env w = (go, w')"
  shows "worker_step w w' \<and> (\<not> go \<longrightarrow> vr_state (uw_receiver w') = Stopped)"
proof -
  have sent: "worker_step w (count_ping x v\<lparr> uw_ping_tracker := y, uw_last_ping := z \<rparr>)"
    "worker_step w (count_ping x v\<lparr> uw_last_ping := z \<rparr>)" if "worker_step w v" for v x y z
    by (auto simp: count_ping_def intro: worker_step_then [OF that])
  show ?thesis
    using assms sent [OF send_to_peer_step]
    by (auto simp: send_ping_def Let_def worker_step_same stop_worker_step stop_worker_stopped
        split: if_splits option.splits)
qed

lemma receive_stun_step:
  assumes "receive_stun fl c crc32 env datagram source credentials w = (stun, go, w')"
  shows "worker_step w w' \<and> (\<not> go \<longrightarrow> vr_state (uw_receiver w') = Stopped)"
proof -
  obtain elapsed tracker where p: "ping_receive c crc32 datagram credentials (te_received_at env) (uw_ping_tracker w) = (elapsed, tracker)"
    by (metis surj_pair)
  define w1 where "w1 = w\<lparr> uw_ping_tracker := tracker \<rparr>"
  define w2 where "w2 = (case elapsed of None \<Rightarrow> w1 | Some d \<Rightarrow> worker_feedback (publish_ping True (te_received_at env) d) w1)"
  have "worker_step w w1" by (rule worker_step_same) (simp_all add: w1_def)
  then have s2: "worker_step w w2"
    by (auto simp: w2_def intro: worker_step_trans worker_feedback_ops(3) split: option.splits)
  have upd: "worker_step w (w2\<lparr> uw_handled_stun := a, uw_peer_seen := b \<rparr>)" "worker_step w (w2\<lparr> uw_invalid_stun := a \<rparr>)"
    "worker_step w (w2\<lparr> uw_non_stun := a \<rparr>)" for a b
    by (auto intro: worker_step_then [OF s2])
  have sent: "worker_step w v" if "send_to_peer x bs y (w2\<lparr> uw_handled_stun := a, uw_peer_seen := b \<rparr>) = Some v" for x bs y a b v
    using worker_step_trans [OF upd(1) send_to_peer_step [OF that]] .
  have stopped: "worker_step w (stop_worker fl t (w2\<lparr> uw_handled_stun := a, uw_peer_seen := b \<rparr>))" for t a b
    using worker_step_trans [OF upd(1) stop_worker_step] .
  show ?thesis
    using assms upd sent stopped unfolding receive_stun_def Let_def p prod.case w1_def [symmetric] w2_def [symmetric]
    by (auto simp: stop_worker_stopped split: StunDatagram.splits option.splits)
qed

text \<open>An event the receiver may announce in its state, and what is sent for it.\<close>

lemma forward_receive_event_step:
  assumes "forward_receive_event origin now at e w = (go, w')"
    and "life (vr_state (uw_receiver w)) e = Some (vr_state (uw_receiver w))"
  shows "worker_step w w' \<and> vr_state (uw_receiver w') = vr_state (uw_receiver w)"
proof -
  let ?s = "vr_state (uw_receiver w)"
  have fb: "vr_state (uw_receiver (worker_feedback f v)) = vr_state (uw_receiver v)" for f and v :: "'a udp_worker"
    by (simp add: worker_feedback_def with_feedback_def)
  have send: "worker_step w (send_event x v)" "vr_state (uw_receiver (send_event x v)) = ?s"
    if "worker_step w v" "vr_state (uw_receiver v) = ?s" "life ?s x = Some ?s" for v x
    using that by (auto simp: send_event_def worker_step_def life_run_append)
  show ?thesis
  proof (cases e)
    case (Frame f)
    then have run: "?s = Running" using assms(2) by (auto split: if_splits)
    let ?w1 = "worker_feedback (publish_assembled_frame (au_frame_index f) at) w"
    let ?w2 = "worker_feedback (retire_undelivered_frame (au_frame_index f)) ?w1"
    have s1: "worker_step w ?w1" by (rule worker_feedback_ops)
    have s2: "worker_step w ?w2" using worker_step_trans [OF s1] worker_feedback_ops(2) by blast
    have upd: "worker_step w (?w1\<lparr> uw_consumer := m, uw_video_delivery_gap := g \<rparr>)"
      "worker_step w (?w2\<lparr> uw_consumer := m, uw_video_delivery_gap := g \<rparr>)" "worker_step w (?w2\<lparr> uw_consumer := m \<rparr>)" for m g
      by (auto intro: worker_step_then [OF s1] worker_step_then [OF s2])
    show ?thesis
      using assms(1) Frame run send(1) [OF upd(2)] send(1) [OF upd(3)] upd(1)
      by (auto simp: forward_receive_event_def Let_def fb send_event_def
          split: prod.splits sum.splits TransportError.splits)
  qed (use assms send [OF worker_step_same [of w w]] in \<open>auto simp: forward_receive_event_def\<close>)
qed

lemma forward_events_step:
  assumes "forward_events origin now at es taken w = (go, w')"
    and "\<forall>e\<in>set es. life (vr_state (uw_receiver w)) e = Some (vr_state (uw_receiver w))"
  shows "worker_step w w'"
  using assms
proof (induction origin now at es taken w rule: forward_events.induct)
  case (1 origin now at taken w)
  then show ?case by (simp add: worker_step_same)
next
  case (2 origin now at e es taken w)
  let ?w = "consumer_takes (case taken of [] \<Rightarrow> 0 | n # _ \<Rightarrow> n) w"
  have s0: "worker_step w ?w" "uw_receiver ?w = uw_receiver w" by (auto simp: consumer_takes_def intro: worker_step_same)
  obtain g v where f: "forward_receive_event origin now at e ?w = (g, v)" by (metis surj_pair)
  have s1: "worker_step ?w v" "vr_state (uw_receiver v) = vr_state (uw_receiver w)"
    using forward_receive_event_step [OF f] 2(3) s0(2) by simp_all
  show ?case
  proof (cases g)
    case True
    with 2(2) f have "forward_events origin now at es (drop 1 taken) v = (go, w')" by (simp add: Let_def)
    with 2(1) [OF refl f [symmetric]] True 2(3) s1(2) have "worker_step v w'" by simp
    with s0(1) s1(1) show ?thesis by (blast intro: worker_step_trans)
  next
    case False
    with 2(2) f have "w' = v" by (simp add: Let_def)
    with s0(1) s1(1) show ?thesis by (blast intro: worker_step_trans)
  qed
qed

lemma receive_media_step:
  assumes "crypto_ok c" and "receiver_ok (uw_receiver w)"
  shows "\<exists>go w'. receive_media fl c origin env datagram source expected before w = Some (go, w') \<and> worker_step w w'
    \<and> (\<not> go \<longrightarrow> vr_state (uw_receiver w') = Stopped)"
proof -
  let ?r = "uw_receiver w"
  from process_datagram_step [OF assms, of fl source datagram "te_received_at env"] obtain es r where
    p: "process_datagram fl c source datagram (te_received_at env) ?r = Some (es, r)" "media_step ?r es r" by blast
  have quiet: "\<forall>e\<in>set es. life (vr_state r) e = Some (vr_state r)"
  proof (cases "vr_state ?r = Running")
    case True
    then show ?thesis using p(2) by (simp add: media_step_def)
  next
    case False
    then show ?thesis using p(1)
      by (auto simp: process_datagram_def idle_reason_def split: if_splits NvstReceiverState.splits)
  qed
  define w1 where "w1 = w\<lparr> uw_receiver := r \<rparr>"
  define w2 where "w2 = (if before then w1 else worker_feedback (record_socket_receive Video expected
      (vr_last_authenticated_packet r \<noteq> None) (length datagram)) w1)"
  have "worker_step w w1"
    using p(2) by (auto simp: w1_def worker_step_def media_step_def intro!: exI [of _ "[]"])
  then have s2: "worker_step w w2" by (auto simp: w2_def intro: worker_step_trans worker_feedback_ops(4))
  have st: "vr_state (uw_receiver w2) = vr_state r" by (simp add: w2_def w1_def worker_feedback_def with_feedback_def)
  obtain go w3 where f: "forward_events origin (te_forwarded_at env) (te_received_at env) es (te_taken env) w2 = (go, w3)"
    by (metis surj_pair)
  have "worker_step w2 w3" using forward_events_step [OF f] quiet st by simp
  then have s3: "worker_step w w3" using s2 by (blast intro: worker_step_trans)
  have "receive_media fl c origin env datagram source expected before w =
      Some (if go then (True, w3) else (False, stop_worker fl (te_received_at env) w3))"
    using f unfolding receive_media_def p(1) option.case prod.case Let_def w1_def [symmetric] w2_def [symmetric]
    by (simp split: bool.splits)
  with s3 show ?thesis
    by (auto simp: stop_worker_stopped intro: worker_step_trans stop_worker_step)
qed

definition progress_worker :: "'w progress \<Rightarrow> 'w" where
  "progress_worker p = (case p of Ended w \<Rightarrow> w | NextTurn w \<Rightarrow> w | GoOn w \<Rightarrow> w)"

lemma progress_worker_simps [simp]: "progress_worker (Ended w) = w" "progress_worker (NextTurn w) = w" "progress_worker (GoOn w) = w"
  by (simp_all add: progress_worker_def)

lemma receive_step_step:
  assumes "crypto_ok c" and "receiver_ok (uw_receiver w)"
  shows "\<exists>p. receive_step fl c crc32 origin env w = Some p \<and> worker_step w (progress_worker p)
    \<and> (\<forall>w'. p = Ended w' \<longrightarrow> vr_state (uw_receiver w') = Stopped)"
proof (cases "te_receive env")
  case (ReceivedFrom datagram source)
  let ?cfg = "vr_config (uw_receiver w)"
  define expected where "expected = accepts_video_source ?cfg source"
  define before where "before \<longleftrightarrow> vr_last_authenticated_packet (uw_receiver w) \<noteq> None"
  define w1 where "w1 = worker_feedback (record_socket_receive Video expected before (length datagram))
      (w\<lparr> uw_inbound_datagrams := uw_inbound_datagrams w + 1 \<rparr>)"
  define w2 where "w2 = (if expected then w1 else w1\<lparr> uw_wrong_source := uw_wrong_source w1 + 1 \<rparr>)"
  have "worker_step w w1"
    unfolding w1_def by (rule worker_step_trans [OF worker_step_same worker_feedback_ops(4)]) simp_all
  then have s2: "worker_step w w2" by (auto simp: w2_def intro: worker_step_then)
  obtain stun go w3 where t: "(case vc_stun_credentials ?cfg of
      Some credentials \<Rightarrow> if expected then receive_stun fl c crc32 env datagram source credentials w2 else (False, True, w2)
    | None \<Rightarrow> (False, True, w2)) = (stun, go, w3)" by (metis surj_pair)
  have "worker_step w2 w3 \<and> (\<not> go \<longrightarrow> vr_state (uw_receiver w3) = Stopped)"
    using t receive_stun_step [of fl c crc32 env datagram source _ w2 stun go w3]
    by (auto simp: worker_step_same split: option.splits if_splits)
  then have s3: "worker_step w w3" and stop3: "\<not> go \<longrightarrow> vr_state (uw_receiver w3) = Stopped"
    using s2 by (auto intro: worker_step_trans)
  then have "receiver_ok (uw_receiver w3)" using assms(2) by (simp add: worker_step_def)
  from receive_media_step [OF assms(1) this, of fl origin env datagram source expected before] obtain go' w4 where
    m: "receive_media fl c origin env datagram source expected before w3 = Some (go', w4)" "worker_step w3 w4"
      "\<not> go' \<longrightarrow> vr_state (uw_receiver w4) = Stopped" by blast
  have "receive_step fl c crc32 origin env w =
      Some (if \<not> go then Ended w3 else if stun then NextTurn w3 else if go' then GoOn w4 else Ended w4)"
    using t m(1) unfolding receive_step_def ReceivedFrom receive_result.case Let_def expected_def [symmetric]
      before_def [symmetric] w1_def [symmetric] w2_def [symmetric] by simp
  with s3 stop3 m(2,3) worker_step_trans [OF s3 m(2)] show ?thesis by auto
qed (auto simp: receive_step_def worker_step_same stop_worker_step stop_worker_stopped)

lemma fold_send_event: "fold send_event es w = w\<lparr> uw_events := uw_events w @ es \<rparr>"
  by (induction es arbitrary: w) (simp_all add: send_event_def)

lemma poll_step_step:
  assumes "crypto_ok c" and "receiver_ok (uw_receiver w)"
  shows "\<exists>go w'. poll_step fl c env w = Some (go, w') \<and> worker_step w w' \<and> (\<not> go \<longrightarrow> vr_state (uw_receiver w') = Stopped)"
proof -
  let ?now = "te_polled_at env"
  from poll_report_total [OF assms, of fl ?now] obtain p r where
    r: "poll_receiver_report fl c ?now (uw_receiver w) = Some (p, r)" "control_step (uw_receiver w) [] r" by blast
  define w1 where "w1 = w\<lparr> uw_receiver := r \<rparr>"
  have s1: "worker_step w w1" using r(2) by (auto simp: w1_def intro: worker_step_quiet)
  define sent where "sent = (case p of None \<Rightarrow> Some w1
    | Some bs \<Rightarrow> map_option (\<lambda>w. if te_report_send env = Sent then w\<lparr> uw_receiver_reports_sent := uw_receiver_reports_sent w + 1 \<rparr> else w)
        (send_to_peer (te_report_send env) bs (vc_video_peer (vr_config r)) w1))"
  have sent_step: "worker_step w v" if "sent = Some v" for v
    using that s1 by (auto simp: sent_def send_to_peer_def intro: worker_step_then split: option.splits send_result.splits if_splits)
  show ?thesis
  proof (cases sent)
    case None
    then have "poll_step fl c env w = Some (False, stop_worker fl ?now w1)"
      unfolding poll_step_def Let_def r(1) option.case prod.case w1_def [symmetric] sent_def [symmetric] by simp
    then show ?thesis using worker_step_trans [OF s1 stop_worker_step] stop_worker_stopped by blast
  next
    case (Some v)
    obtain e r2 where t: "poll_timeout fl ?now (uw_receiver v) = (e, r2)" by (metis surj_pair)
    let ?v = "forward_optional e (v\<lparr> uw_receiver := r2 \<rparr>)"
    let ?policy = "\<lparr> fp_stall = vc_timeout (vr_config r2), fp_keyframe_grace = vc_timeout (vr_config r2) \<rparr>"
    obtain e3 r3 where g: "poll_frame_progress ?now ?policy r2 = (e3, r3)" by (metis surj_pair)
    have "worker_step v (receiver_event (poll_timeout fl ?now) v)"
      by (rule receiver_event_step) (rule lifecycle_control)
    then have s2: "worker_step w ?v"
      using worker_step_trans [OF sent_step [OF Some]] t by (simp add: receiver_event_def)
    have "control_step (uw_receiver ?v) (progress_events e3) r3"
      using poll_progress_control [OF g] by (simp add: forward_optional_def send_event_def split: option.splits)
    then have "worker_step ?v (fold send_event (progress_events e3) (?v\<lparr> uw_receiver := r3 \<rparr>))"
      by (intro worker_step_events) (simp_all add: fold_send_event)
    then have s3: "worker_step w (fold send_event (progress_events e3) (?v\<lparr> uw_receiver := r3 \<rparr>))"
      using worker_step_trans [OF s2] by blast
    have "poll_step fl c env w = Some (True, if e \<noteq> None then ?v
        else fold send_event (progress_events e3) (?v\<lparr> uw_receiver := r3 \<rparr>))"
      unfolding poll_step_def Let_def r(1) option.case prod.case w1_def [symmetric] sent_def [symmetric] Some t g by simp
    with s2 s3 show ?thesis by auto
  qed
qed

lemma udp_turn_step:
  assumes "crypto_ok c" and "receiver_ok (uw_receiver w)"
  shows "\<exists>go w'. udp_turn fl c crc32 origin env w = Some (go, w') \<and> worker_step w w'
    \<and> (\<not> go \<longrightarrow> vr_state (uw_receiver w') = Stopped)"
proof -
  obtain g1 w1 where c: "run_commands fl (te_now env) (te_commands env) (te_disconnected env) w = (g1, w1)" by (metis surj_pair)
  note s1 = run_commands_step [OF c]
  obtain g2 w2 where p: "send_ping fl c crc32 env w1 = (g2, w2)" by (metis surj_pair)
  note s2 = send_ping_step [OF p]
  have s12: "worker_step w w2" using s1 s2 by (blast intro: worker_step_trans)
  then have "receiver_ok (uw_receiver w2)" using assms(2) by (simp add: worker_step_def)
  from receive_step_step [OF assms(1) this, of fl crc32 origin env] obtain q where
    q: "receive_step fl c crc32 origin env w2 = Some q" "worker_step w2 (progress_worker q)"
      "\<forall>w'. q = Ended w' \<longrightarrow> vr_state (uw_receiver w') = Stopped" by blast
  have s3: "worker_step w (progress_worker q)" using worker_step_trans [OF s12 q(2)] .
  then have "receiver_ok (uw_receiver (progress_worker q))" using assms(2) by (simp add: worker_step_def)
  from poll_step_step [OF assms(1) this, of fl env] obtain g4 w4 where
    w4: "poll_step fl c env (progress_worker q) = Some (g4, w4)" "worker_step (progress_worker q) w4"
      "\<not> g4 \<longrightarrow> vr_state (uw_receiver w4) = Stopped" by blast
  note s4 = worker_step_trans [OF s3 w4(2)]
  show ?thesis
  proof (cases "g1 \<and> g2")
    case True
    then show ?thesis using c p q(1,3) s3 s4 w4 by (cases q) (auto simp: udp_turn_def)
  next
    case False
    then show ?thesis using c p s1 s2 s12 by (cases g1; cases g2) (auto simp: udp_turn_def)
  qed
qed

lemma udp_run_step:
  assumes "crypto_ok c" and "receiver_ok (uw_receiver w)"
  shows "\<exists>go w'. udp_run fl c crc32 origin envs w = Some (go, w') \<and> worker_step w w'
    \<and> (\<not> go \<longrightarrow> vr_state (uw_receiver w') = Stopped)"
  using assms(2)
proof (induction envs arbitrary: w)
  case Nil
  then show ?case by (auto simp: worker_step_same)
next
  case (Cons env envs)
  from udp_turn_step [OF assms(1) Cons.prems, of fl crc32 origin env] obtain g w1 where
    t: "udp_turn fl c crc32 origin env w = Some (g, w1)" "worker_step w w1"
      "\<not> g \<longrightarrow> vr_state (uw_receiver w1) = Stopped" by blast
  then have "receiver_ok (uw_receiver w1)" using Cons.prems by (simp add: worker_step_def)
  from Cons.IH [OF this] obtain g' w2 where
    r: "udp_run fl c crc32 origin envs w1 = Some (g', w2)" "worker_step w1 w2"
      "\<not> g' \<longrightarrow> vr_state (uw_receiver w2) = Stopped" by blast
  show ?case
  proof (cases g)
    case True
    with t r worker_step_trans [OF t(2) r(2)] show ?thesis by auto
  next
    case False
    with t show ?thesis by auto
  qed
qed

section \<open>Properties\<close>

text \<open>C3: the thread of the video socket never panics, whatever commands, datagrams, errors of the socket and states of
  the media channel it meets; the events it has sent always form a word of the life cycle automaton that
  leads to the state of its receiver; and it ends only with a stopped receiver, so that its last life cycle
  event is the stop.\<close>

theorem udp_worker_safe:
  assumes "crypto_ok c" and "material_ok (vc_srtp cfg)" and "millis 20 \<le> start"
  shows "\<exists>w go w'. udp_start c cfg (NvstFeedbackState_default fl) consumer start = Some w
    \<and> udp_run fl c crc32 origin envs w = Some (go, w')
    \<and> life_run Running (uw_events w') = Some (vr_state (uw_receiver w'))
    \<and> (\<not> go \<longrightarrow> vr_state (uw_receiver w') = Stopped)"
proof -
  obtain w where w: "udp_start c cfg (NvstFeedbackState_default fl) consumer start = Some w"
    and r: "uw_receiver w = NvstVideoReceiver_new c cfg (NvstFeedbackState_default fl) start" "uw_events w = []"
    using assms(3) by (simp add: udp_start_def PING_INTERVAL_BEFORE_CONNECTION_def)
  have "receiver_ok (uw_receiver w)" unfolding r(1) by (rule receiver_ok_new [OF assms(2) feedback_ok_default])
  from udp_run_step [OF assms(1) this, of fl crc32 origin envs] obtain go w' where
    u: "udp_run fl c crc32 origin envs w = Some (go, w')" "worker_step w w'" "\<not> go \<longrightarrow> vr_state (uw_receiver w') = Stopped"
    by blast
  have "vr_state (uw_receiver w) = Running" by (simp add: r(1) NvstVideoReceiver_new_def)
  with u(2) r(2) have "life_run Running (uw_events w') = Some (vr_state (uw_receiver w'))"
    by (auto simp: worker_step_def)
  with w u show ?thesis by blast
qed

theorem udp_worker_safe_witness:
  "\<exists>w go w'. udp_start sample_crypto sample_config (NvstFeedbackState_default int_float_ops)
       \<lparr> mc_queue = [], mc_capacity = 2, mc_closed = False \<rparr> (secs 1) = Some w
     \<and> udp_run int_float_ops sample_crypto (\<lambda>_. 7) 0
         [\<lparr> te_commands = [PauseCommand, StopCommand], te_disconnected = False, te_now = secs 2, te_random = None,
            te_sent_at = 0, te_ping_send = Sent, te_receive = ReceiveIdle, te_received_at = 0, te_stun_send = Sent,
            te_forwarded_at = 0, te_taken = [], te_polled_at = 0, te_report_send = Sent \<rparr>] w = Some (go, w')
     \<and> life_run Running (uw_events w') = Some (vr_state (uw_receiver w'))"
  using udp_worker_safe [OF sample_crypto_ok sample_material, of "secs 1" int_float_ops] by (fastforce simp: millis_def secs_def)

section \<open>What the consumer sees\<close>

text \<open>The fate of each event: a frame accepted by the channel, a frame refused, any other event.\<close>

datatype delivery = Accepted EncodedMediaFrame | Refused | Passed NvstReceiveEvent

definition delivery_of :: "instant \<Rightarrow> instant \<Rightarrow> NvstReceiveEvent \<Rightarrow> 'f udp_worker \<Rightarrow> delivery" where
  "delivery_of origin now e w = (case e of
     Frame f \<Rightarrow>
       (case deliver_media_frame (uw_consumer w) (media_frame origin now (uw_video_delivery_gap w) f) of
          (Inr _, _) \<Rightarrow> Accepted (media_frame origin now (uw_video_delivery_gap w) f)
        | _ \<Rightarrow> Refused)
   | _ \<Rightarrow> Passed e)"

text \<open>Events, each with the clock readings of its delivery and the number of frames the consumer has taken since the
  event before.\<close>

fun delivery_log :: "instant \<Rightarrow> (NvstReceiveEvent \<times> instant \<times> instant \<times> nat) list \<Rightarrow> 'f udp_worker \<Rightarrow> delivery list" where
  "delivery_log origin [] w = []"
| "delivery_log origin ((e, now, at, taken) # es) w =
     (let w = consumer_takes taken w
      in delivery_of origin now e w #
         (case forward_receive_event origin now at e w of
            (False, _) \<Rightarrow> []
          | (True, w) \<Rightarrow> delivery_log origin es w))"

text \<open>Whether a loss is pending when the next frame is accepted.\<close>

fun losses_marked :: "bool \<Rightarrow> delivery list \<Rightarrow> bool" where
  "losses_marked lost [] = True"
| "losses_marked lost (Accepted m # ds) = ((lost \<longrightarrow> \<not> mf_contiguous m) \<and> losses_marked False ds)"
| "losses_marked lost (Refused # ds) = losses_marked True ds"
| "losses_marked lost (Passed e # ds) = losses_marked (lost \<or> breaks e) ds"

lemma forward_gap:
  assumes "forward_receive_event origin now at e w = (True, w')"
  shows "delivery_of origin now e w = (case e of
      Frame f \<Rightarrow> if uw_video_delivery_gap w' then Refused
                 else Accepted (media_frame origin now (uw_video_delivery_gap w) f)
    | _ \<Rightarrow> Passed e)"
    and "\<not> is_frame e \<Longrightarrow> uw_video_delivery_gap w' = uw_video_delivery_gap w"
proof -
  have fb: "uw_consumer (worker_feedback f v) = uw_consumer v" "uw_video_delivery_gap (worker_feedback f v) = uw_video_delivery_gap v"
    for f and v :: "'a udp_worker"
    by (simp_all add: worker_feedback_def)
  show "delivery_of origin now e w = (case e of
      Frame f \<Rightarrow> if uw_video_delivery_gap w' then Refused
                 else Accepted (media_frame origin now (uw_video_delivery_gap w) f)
    | _ \<Rightarrow> Passed e)" "\<not> is_frame e \<Longrightarrow> uw_video_delivery_gap w' = uw_video_delivery_gap w"
    using assms by (cases e; auto simp: forward_receive_event_def delivery_of_def Let_def fb send_event_def
        split: prod.splits sum.splits TransportError.splits)+
qed

lemma delivery_log_marked:
  assumes "marked b (map fst es)" and "lost \<longrightarrow> b \<or> uw_video_delivery_gap w"
  shows "losses_marked lost (delivery_log origin es w)"
  using assms
proof (induction es arbitrary: b lost w)
  case (Cons x es)
  obtain e now at taken where x: "x = (e, now, at, taken)" by (cases x)
  let ?w = "consumer_takes taken w"
  have gap: "uw_video_delivery_gap ?w = uw_video_delivery_gap w" by (simp add: consumer_takes_def)
  obtain g v where f: "forward_receive_event origin now at e ?w = (g, v)" by (metis surj_pair)
  show ?case
  proof (cases e)
    case (Frame frame)
    have contiguous: "lost \<longrightarrow> \<not> mf_contiguous (media_frame origin now (uw_video_delivery_gap ?w) frame)"
      using Cons.prems Frame gap x by (cases lost) (auto simp: media_frame_def)
    show ?thesis
    proof (cases g)
      case True
      with forward_gap(1) [of origin now at e ?w v] f Frame have d: "delivery_of origin now e ?w =
          (if uw_video_delivery_gap v then Refused else Accepted (media_frame origin now (uw_video_delivery_gap ?w) frame))" by simp
      have "losses_marked (uw_video_delivery_gap v) (delivery_log origin es v)"
        using Cons.IH [of False "uw_video_delivery_gap v" v] Cons.prems Frame x by simp
      with True f d contiguous x show ?thesis by (cases "uw_video_delivery_gap v") (simp_all add: Let_def)
    next
      case False
      have "losses_marked lost [delivery_of origin now e ?w]"
        using contiguous Frame by (auto simp: delivery_of_def split: prod.splits sum.splits)
      with False f x show ?thesis by (simp add: Let_def)
    qed
  qed (use f x forward_gap [of origin now at e ?w v] gap Cons in
    \<open>auto simp: Let_def forward_receive_event_def delivery_of_def send_event_def\<close>)
qed simp

definition is_accepted :: "delivery \<Rightarrow> bool" where
  "is_accepted d = (case d of Accepted _ \<Rightarrow> True | _ \<Rightarrow> False)"

definition is_loss :: "delivery \<Rightarrow> bool" where
  "is_loss d = (case d of Accepted _ \<Rightarrow> False | Refused \<Rightarrow> True | Passed e \<Rightarrow> breaks e)"

lemma losses_marked_append: "losses_marked lost (xs @ ys) \<Longrightarrow> \<exists>lost'. losses_marked lost' ys"
  by (induction lost xs rule: losses_marked.induct) auto

lemma losses_marked_lost:
  "losses_marked True (ds @ Accepted m # rest) \<Longrightarrow> \<forall>d\<in>set ds. \<not> is_accepted d \<Longrightarrow> \<not> mf_contiguous m"
proof (induction ds)
  case (Cons d ds)
  then show ?case by (cases d) (auto simp: is_accepted_def)
qed simp

text \<open>C14: the media consumer is never told that a frame follows on the one it took before when something was lost
  in between: whenever an event of the receiver breaks the picture, or the full channel refuses a frame, the
  next frame the channel accepts is marked as not contiguous, whatever the consumer takes and when.\<close>

theorem consumer_sees_losses:
  assumes "crypto_ok c" and "material_ok (vc_srtp cfg)"
    and "receiver_run fl c (NvstVideoReceiver_new c cfg (NvstFeedbackState_default fl) start) (map fst es) r"
    and "delivery_log origin es w = before @ d # between @ Accepted m # rest"
    and "is_loss d" and "\<forall>d\<in>set between. \<not> is_accepted d"
  shows "\<not> mf_contiguous m"
proof -
  have "marked False (map fst es)" using run_from_new(1) [OF assms(1,2,3)] by (simp add: control_step_def)
  from delivery_log_marked [OF this, of False w origin] have "losses_marked False (delivery_log origin es w)" by simp
  then obtain lost where "losses_marked lost (d # between @ Accepted m # rest)"
    using losses_marked_append assms(4) by fastforce
  then have "losses_marked True (between @ Accepted m # rest)"
    using assms(5) by (cases d) (auto simp: is_loss_def)
  from losses_marked_lost [OF this assms(6)] show ?thesis .
qed

definition sample_worker :: "int udp_worker" where
  "sample_worker = the (udp_start sample_crypto sample_config (NvstFeedbackState_default int_float_ops)
     \<lparr> mc_queue = [], mc_capacity = 2, mc_closed = False \<rparr> (secs 1))"

lemma sample_log:
  "delivery_log 0 [(Lifecycle Paused, 6, 6, 0), (Lifecycle Running, 8, 8, 0), (Frame (frame_unit False), 9, 9, 0)] sample_worker
     = [Passed (Lifecycle Paused)] @ Passed (Lifecycle Running) # [] @ Accepted (media_frame 0 9 False (frame_unit False)) # []"
  by (simp add: sample_worker_def udp_start_def PING_INTERVAL_BEFORE_CONNECTION_def millis_def secs_def Let_def
      delivery_of_def forward_receive_event_def send_event_def consumer_takes_def deliver_media_frame_def worker_feedback_def)

theorem consumer_sees_losses_witness:
  "\<not> mf_contiguous (media_frame 0 9 False (frame_unit False))"
proof -
  obtain r where "receiver_run int_float_ops sample_crypto sample_receiver
     [Lifecycle Paused, Lifecycle Running, Frame (frame_unit False)] r" using frame_run by blast
  then have "receiver_run int_float_ops sample_crypto (NvstVideoReceiver_new sample_crypto sample_config
      (NvstFeedbackState_default int_float_ops) 0)
      (map fst [(Lifecycle Paused, 6 :: instant, 6 :: instant, 0 :: nat), (Lifecycle Running, 8, 8, 0), (Frame (frame_unit False), 9, 9, 0)]) r"
    by (simp add: sample_receiver_def)
  from consumer_sees_losses [OF sample_crypto_ok sample_material this sample_log] show ?thesis by (simp add: is_loss_def)
qed

end
