(* ===== verification/InputWire.thy ===== *)
theory InputWire
  imports Control Utf8
begin

text \<open>
  The wire formats of native input (\<open>nvst_input.rs\<close>): the control command frame, the remote input packet, the
  builders of every message the client sends on the input channels, the splitter of captured packets into
  native events, and the parsers of the reliable control stream.
\<close>

section \<open>Codes\<close>

definition COMMAND_SYSTEM_CURSOR :: u16 where "COMMAND_SYSTEM_CURSOR = 0x010f"
definition COMMAND_BITMAP_CURSOR :: u16 where "COMMAND_BITMAP_CURSOR = 0x0110"
definition COMMAND_KEEPALIVE :: u16 where "COMMAND_KEEPALIVE = 0x0200"
definition COMMAND_REMOTE_INPUT :: u16 where "COMMAND_REMOTE_INPUT = 0x0206"
definition COMMAND_ENABLE_INPUT :: u16 where "COMMAND_ENABLE_INPUT = 0x020b"
definition COMMAND_GAMEPAD :: u16 where "COMMAND_GAMEPAD = 0x020d"
definition COMMAND_INPUT_VERSION :: u16 where "COMMAND_INPUT_VERSION = 0x020e"
definition COMMAND_MOUSE_CURSOR_CAPTURE :: u16 where "COMMAND_MOUSE_CURSOR_CAPTURE = 0x0308"
definition COMMAND_TRACK_REMOTE_CURSOR_IMAGE :: u16 where "COMMAND_TRACK_REMOTE_CURSOR_IMAGE = 0x030d"
definition COMMAND_WINDOW_STATE :: u16 where "COMMAND_WINDOW_STATE = 0x0320"
definition COMMAND_SYSTEM_STATE :: u16 where "COMMAND_SYSTEM_STATE = 0x0321"
definition COMMAND_MOUSE_SETTINGS :: u16 where "COMMAND_MOUSE_SETTINGS = 0x0323"
definition MOUSE_SETTINGS_SPEED :: u32 where "MOUSE_SETTINGS_SPEED = 10"
definition MOUSE_SETTINGS_ACCEL :: u32 where "MOUSE_SETTINGS_ACCEL = 0"

definition INPUT_HEARTBEAT :: u32 where "INPUT_HEARTBEAT = 2"
definition INPUT_KEY_DOWN :: u32 where "INPUT_KEY_DOWN = 3"
definition INPUT_KEY_UP :: u32 where "INPUT_KEY_UP = 4"
definition INPUT_MOUSE_ABSOLUTE :: u32 where "INPUT_MOUSE_ABSOLUTE = 5"
definition INPUT_MOUSE_RELATIVE :: u32 where "INPUT_MOUSE_RELATIVE = 7"
definition INPUT_MOUSE_BUTTON_DOWN :: u32 where "INPUT_MOUSE_BUTTON_DOWN = 8"
definition INPUT_MOUSE_BUTTON_UP :: u32 where "INPUT_MOUSE_BUTTON_UP = 9"
definition INPUT_MOUSE_WHEEL :: u32 where "INPUT_MOUSE_WHEEL = 10"
definition INPUT_GAMEPAD :: u32 where "INPUT_GAMEPAD = 12"
definition INPUT_HAPTICS_ENABLED :: u32 where "INPUT_HAPTICS_ENABLED = 13"
definition INPUT_LOCK_KEYS_SYNC :: u32 where "INPUT_LOCK_KEYS_SYNC = 19"
definition INPUT_TEXT :: u32 where "INPUT_TEXT = 23"

lemmas command_codes = COMMAND_SYSTEM_CURSOR_def COMMAND_BITMAP_CURSOR_def COMMAND_KEEPALIVE_def COMMAND_REMOTE_INPUT_def
  COMMAND_ENABLE_INPUT_def COMMAND_GAMEPAD_def COMMAND_INPUT_VERSION_def COMMAND_MOUSE_CURSOR_CAPTURE_def
  COMMAND_TRACK_REMOTE_CURSOR_IMAGE_def COMMAND_WINDOW_STATE_def COMMAND_SYSTEM_STATE_def COMMAND_MOUSE_SETTINGS_def

lemmas input_codes = INPUT_HEARTBEAT_def INPUT_KEY_DOWN_def INPUT_KEY_UP_def INPUT_MOUSE_ABSOLUTE_def
  INPUT_MOUSE_RELATIVE_def INPUT_MOUSE_BUTTON_DOWN_def INPUT_MOUSE_BUTTON_UP_def INPUT_MOUSE_WHEEL_def INPUT_GAMEPAD_def
  INPUT_HAPTICS_ENABLED_def INPUT_LOCK_KEYS_SYNC_def INPUT_TEXT_def

section \<open>Reading integers\<close>

definition from_be64 :: "bytes \<Rightarrow> u64" where
  "from_be64 bs = foldl (\<lambda>w b. push_bit 8 w OR ucast b) 0 bs"

definition from_le64 :: "bytes \<Rightarrow> u64" where
  "from_le64 bs = from_be64 (rev bs)"

definition read_u16_be :: "bytes \<Rightarrow> nat \<Rightarrow> u16 option" where
  "read_u16_be bs offset = (case take 2 (drop offset bs) of [a, b] \<Rightarrow> Some (from_be16 a b) | _ \<Rightarrow> None)"

definition read_u16_le :: "bytes \<Rightarrow> nat \<Rightarrow> u16 option" where
  "read_u16_le bs offset = (case take 2 (drop offset bs) of [a, b] \<Rightarrow> Some (from_le16 a b) | _ \<Rightarrow> None)"

definition read_u32_le :: "bytes \<Rightarrow> nat \<Rightarrow> u32 option" where
  "read_u32_le bs offset = (case take 4 (drop offset bs) of [a, b, c, d] \<Rightarrow> Some (from_le32 a b c d) | _ \<Rightarrow> None)"

definition read_u64_be :: "bytes \<Rightarrow> nat \<Rightarrow> u64 option" where
  "read_u64_be bs offset = (if offset + 8 \<le> length bs then Some (from_be64 (take 8 (drop offset bs))) else None)"

definition read_u64_le :: "bytes \<Rightarrow> nat \<Rightarrow> u64 option" where
  "read_u64_le bs offset = (if offset + 8 \<le> length bs then Some (from_le64 (take 8 (drop offset bs))) else None)"

text \<open>\<open>bytes[i]\<close>: a panic outside the slice.\<close>

definition byte_at :: "bytes \<Rightarrow> nat \<Rightarrow> u8 option" where
  "byte_at bs i = (if i < length bs then Some (bs ! i) else None)"

section \<open>Messages\<close>

datatype NvstInputRoute = ControlReliable | ControlPartial | InputPartial

record NvstEncodedInput =
  ei_route :: NvstInputRoute
  ei_bytes :: bytes

datatype NvstInputCodecError = Malformed string | UnsupportedType u32 | UnsupportedText

definition require_len :: "bytes \<Rightarrow> nat \<Rightarrow> string \<Rightarrow> NvstInputCodecError + unit" where
  "require_len bs minimum reason = (if length bs < minimum then Inl (Malformed reason) else Inr ())"

definition control_command :: "u16 \<Rightarrow> bytes \<Rightarrow> bytes" where
  "control_command code payload = le16 code @ le16 (of_nat (length payload)) @ payload"

definition remote_input_packet :: "u32 \<Rightarrow> bytes \<Rightarrow> bytes" where
  "remote_input_packet input_type body = be32 (4 + of_nat (length body)) @ le32 input_type @ body"

definition remote_input_message :: "bytes \<Rightarrow> u64 \<Rightarrow> NvstEncodedInput option" where
  "remote_input_message inner timestamp_us =
     (case read_u32_le inner 4 of
        None \<Rightarrow> None
      | Some input_type \<Rightarrow>
          let body = resize (max 24 (div_ceil (length inner) 8 * 8)) inner;
              timestamp_count =
                (if input_type \<in> {INPUT_KEY_DOWN, INPUT_KEY_UP, INPUT_MOUSE_ABSOLUTE} then 1 else 0) + (1 :: nat);
              body = body @ concat (replicate timestamp_count (le64 timestamp_us))
          in Some \<lparr> ei_route = (if input_type \<in> {INPUT_MOUSE_RELATIVE, INPUT_MOUSE_ABSOLUTE} then ControlPartial
                                else ControlReliable),
                   ei_bytes = control_command COMMAND_REMOTE_INPUT (remote_input_packet 0x0e body) \<rparr>)"

definition gamepad_command :: "bytes \<Rightarrow> u64 \<Rightarrow> u16 \<Rightarrow> bytes option" where
  "gamepad_command packet timestamp_us sequence =
     (case byte_at packet 6 of
        None \<Rightarrow> None
      | Some b \<Rightarrow>
          if length packet < 38 then None
          else Some (control_command COMMAND_GAMEPAD
                 ([0x23] @ be64 timestamp_us @ [0x26, b] @ be16 sequence @ [0x21] @ be16 38 @ take 38 packet)))"

definition device_descriptor :: "u64 \<Rightarrow> u16 \<Rightarrow> bytes" where
  "device_descriptor timestamp_us bitmap =
     control_command COMMAND_GAMEPAD ([0x23] @ be64 timestamp_us @
       write_at 9 (le16 bitmap)
         [0x22, 0x0c, 0x00, 0x00, 0x00, 0x1a, 0x00, 0x00, 0x00, 0x02, 0x00, 0x14, 0x00, 0x00, 0x00,
          0x00, 0x00, 0x00, 0x00, 0x00, 0x00, 0x00, 0x00, 0x00, 0x00, 0x00, 0x00, 0x55, 0x00, 0x00,
          0x00, 0x00, 0x00, 0x00, 0x00, 0x00, 0x00, 0x00, 0x00])"

definition haptics_state :: "bool \<Rightarrow> u64 \<Rightarrow> NvstEncodedInput option" where
  "haptics_state enabled timestamp_us =
     remote_input_message (remote_input_packet INPUT_HAPTICS_ENABLED (le16 (if enabled then 1 else 0))) timestamp_us"

definition mouse_cursor_capture :: "bool \<Rightarrow> bytes" where
  "mouse_cursor_capture enabled = control_command COMMAND_MOUSE_CURSOR_CAPTURE [if enabled then 1 else 0]"

definition remote_cursor_tracking :: "bool \<Rightarrow> bytes" where
  "remote_cursor_tracking enabled = control_command COMMAND_TRACK_REMOTE_CURSOR_IMAGE [if enabled then 1 else 0]"

definition mouse_settings :: "u32 \<Rightarrow> u32 \<Rightarrow> bool \<Rightarrow> bytes" where
  "mouse_settings speed accel accel_first =
     control_command COMMAND_MOUSE_SETTINGS (if accel_first then le32 accel @ le32 speed else le32 speed @ le32 accel)"

definition control_keepalive :: "u32 \<Rightarrow> bytes" where
  "control_keepalive stream_value = control_command COMMAND_KEEPALIVE (le32 stream_value)"

definition enable_input :: "u32 \<Rightarrow> bool \<Rightarrow> bytes" where
  "enable_input counter enabled =
     control_command COMMAND_ENABLE_INPUT (le32 0 @ le32 counter @ le32 (if enabled then 1 else 0))"

definition state_change :: "u16 \<Rightarrow> u32 \<Rightarrow> u32 \<Rightarrow> bytes" where
  "state_change code state frame_number = control_command code (le32 0 @ le32 state @ le32 frame_number)"

text \<open>
  The two environment variables of the mouse settings are arguments: whether the frame is sent and in which
  order.
\<close>

definition activation_chain :: "bool \<Rightarrow> bool \<Rightarrow> u64 \<Rightarrow> bytes list option" where
  "activation_chain mouse_settings_enabled mouse_settings_accel_first timestamp_us =
     (case haptics_state True timestamp_us of
        None \<Rightarrow> None
      | Some haptics \<Rightarrow> Some
          ([enable_input 1 False, device_descriptor timestamp_us 0, mouse_cursor_capture True, remote_cursor_tracking True,
            state_change COMMAND_WINDOW_STATE 19 0, state_change COMMAND_SYSTEM_STATE 0 0, enable_input 1 True,
            ei_bytes haptics]
           @ (if mouse_settings_enabled
              then [mouse_settings MOUSE_SETTINGS_SPEED MOUSE_SETTINGS_ACCEL mouse_settings_accel_first] else [])))"

section \<open>Native events\<close>

record NativeEvent =
  ne_bytes :: bytes
  ne_timestamp_us :: u64

definition native_event_length :: "u32 \<Rightarrow> nat \<Rightarrow> NvstInputCodecError + nat" where
  "native_event_length input_type remaining =
     (if input_type = INPUT_HEARTBEAT then Inr 4
      else if input_type \<in> {INPUT_KEY_DOWN, INPUT_KEY_UP, INPUT_MOUSE_BUTTON_DOWN, INPUT_MOUSE_BUTTON_UP} then Inr 18
      else if input_type \<in> {INPUT_MOUSE_RELATIVE, INPUT_MOUSE_WHEEL} then Inr 22
      else if input_type = INPUT_MOUSE_ABSOLUTE then Inr 26
      else if input_type = INPUT_GAMEPAD then Inr 38
      else if input_type = INPUT_HAPTICS_ENABLED then Inr 6
      else if input_type = INPUT_LOCK_KEYS_SYNC then Inr 5
      else if input_type = INPUT_TEXT then Inr remaining
      else Inl (UnsupportedType input_type))"

text \<open>
  The loop over the markers of a version 3 packet; the argument is what is left of the packet from the cursor
  on. Where a pattern has too few bytes the source answers with an error before it reads them.
\<close>

definition event_then :: "bytes \<Rightarrow> u64 \<Rightarrow> NvstInputCodecError + NativeEvent list \<Rightarrow> NvstInputCodecError + NativeEvent list" where
  "event_then bs timestamp_us rest = map_sum id ((#) \<lparr> ne_bytes = bs, ne_timestamp_us = timestamp_us \<rparr>) rest"

function wrapped_events :: "u64 \<Rightarrow> bytes \<Rightarrow> NvstInputCodecError + NativeEvent list" where
  "wrapped_events timestamp_us [] = Inr []"
| "wrapped_events timestamp_us (marker # r) =
     (if marker = 0x22 then
        (case read_u32_le r 0 of
           None \<Rightarrow> Inl (Malformed ''short single-event wrapper'')
         | Some input_type \<Rightarrow>
             (case native_event_length input_type (length r) of
                Inl e \<Rightarrow> Inl e
              | Inr n \<Rightarrow>
                  if length r < n then Inl (Malformed ''truncated single event'')
                  else event_then (take n r) timestamp_us (wrapped_events timestamp_us (drop n r))))
      else if marker = 0x21 then
        (case r of
           a # b # s \<Rightarrow>
             let n = unat (from_be16 a b)
             in if length s < n then Inl (Malformed ''truncated length-prefixed event'')
                else event_then (take n s) timestamp_us (wrapped_events timestamp_us (drop n s))
         | _ \<Rightarrow> Inl (Malformed ''short length-prefixed wrapper''))
      else if marker = 0x26 then
        (case r of
           _ # _ # _ # m # a # b # s \<Rightarrow>
             if m \<noteq> 0x21 then Inl (Malformed ''missing gamepad payload marker'')
             else let n = unat (from_be16 a b)
                  in if length s < n then Inl (Malformed ''truncated gamepad event'')
                     else event_then (take n s) timestamp_us (wrapped_events timestamp_us (drop n s))
         | _ \<Rightarrow> Inl (Malformed ''short partially-reliable wrapper''))
      else Inl (Malformed ''unknown protocol-v3 marker''))"
  by pat_completeness auto
termination by (relation "measure (length \<circ> snd)") auto

definition native_events :: "bytes \<Rightarrow> u64 \<Rightarrow> NvstInputCodecError + NativeEvent list" where
  "native_events packet fallback_timestamp_us =
     (case packet of
        [] \<Rightarrow> Inl (Malformed ''empty packet'')
      | first # r \<Rightarrow>
          if first = 0x22 then
            if length packet < 5 \<or> read_u32_le packet 1 \<noteq> Some INPUT_TEXT
            then Inl (Malformed ''unknown leading 0x22 packet'')
            else Inr [\<lparr> ne_bytes = r, ne_timestamp_us = fallback_timestamp_us \<rparr>]
          else if first \<noteq> 0x23 then Inr [\<lparr> ne_bytes = packet, ne_timestamp_us = fallback_timestamp_us \<rparr>]
          else (case require_len packet 10 ''short protocol-v3 wrapper'' of
                  Inl e \<Rightarrow> Inl e
                | Inr _ \<Rightarrow> wrapped_events (from_be64 (take 8 r)) (drop 9 packet)))"

definition native_input_types :: "bytes \<Rightarrow> NvstInputCodecError + u32 list" where
  "native_input_types packet =
     map_sum id (List.map_filter (\<lambda>event. read_u32_le (ne_bytes event) 0)) (native_events packet 0)"

definition native_input_type_is_motion :: "u32 \<Rightarrow> bool" where
  "native_input_type_is_motion input_type \<longleftrightarrow> input_type \<in> {INPUT_MOUSE_ABSOLUTE, INPUT_MOUSE_RELATIVE}"

section \<open>Frames\<close>

lemma control_command_encoded:
  "length payload \<le> u16_max \<Longrightarrow> control_command code payload = encoded \<lparr> cc_code = code, cc_payload = payload \<rparr>"
  by (simp add: control_command_def encoded_def)

lemma decode_control_command:
  "length payload \<le> u16_max \<Longrightarrow>
     decode_command (control_command code payload @ rest) = Some (\<lparr> cc_code = code, cc_payload = payload \<rparr>, rest)"
  by (simp add: control_command_encoded encoded_roundtrip)

lemma length_control_command [simp]: "length (control_command code payload) = 4 + length payload"
  by (simp add: control_command_def)

lemma length_remote_input_packet [simp]: "length (remote_input_packet t body) = 8 + length body"
  by (simp add: remote_input_packet_def)

lemma resize_id [simp]: "length bs \<le> n \<Longrightarrow> resize n bs = bs @ replicate (n - length bs) 0"
  by (simp add: resize_def)

lemma bit_fold_be64:
  fixes bs :: bytes
  shows "bit (foldl (\<lambda>w b. push_bit 8 w OR ucast b) (acc :: u64) bs) n \<longleftrightarrow>
     n < 64 \<and> (if n < 8 * length bs then bit (bs ! (length bs - 1 - n div 8)) (n mod 8) else bit acc (n - 8 * length bs))"
proof (induction bs arbitrary: acc)
  case Nil
  then show ?case using bit_imp_le_length [of acc n] by auto
next
  case (Cons b bs)
  let ?m = "n - 8 * length bs"
  have "n div 8 = length bs" "n mod 8 = ?m" if "8 * length bs \<le> n" "n < 8 + 8 * length bs"
  proof -
    from that obtain k where "n = 8 * length bs + k" "k < 8" by (metis add_less_cancel_left add.commute le_iff_add)
    then show "n div 8 = length bs" "n mod 8 = ?m" by auto
  qed
  moreover have "length bs - n div 8 = Suc (length bs - 1 - n div 8)" if "n < 8 * length bs" using that by linarith
  ultimately show ?case
    using Cons.IH [of "push_bit 8 acc OR ucast b"] byte_bit_beyond [of ?m b]
    by (auto simp: bit_simps nth_Cons' diff_diff_eq add.commute [of 8 "8 * length bs"])
qed

lemma from_be64_be64 [codec]: "from_be64 (be64 w) = w"
proof (rule bit_word_eqI)
  fix n assume n: "n < LENGTH(64)"
  then have k: "7 - n div 8 < 8" "56 - 8 * (7 - n div 8) = 8 * (n div 8)" "n mod 8 + 8 * (n div 8) = n" by simp_all
  have "bit (from_be64 (be64 w)) n \<longleftrightarrow> bit (be64 w ! (7 - n div 8)) (n mod 8)"
    unfolding from_be64_def bit_fold_be64 using n by simp
  also have "be64 w ! (7 - n div 8) = ucast (drop_bit (8 * (n div 8)) w)"
    using k by (simp add: be64_def)
  also have "bit (ucast (drop_bit (8 * (n div 8)) w) :: u8) (n mod 8) \<longleftrightarrow> bit w n"
    using k(3) mod_less_divisor [of 8 n] by (simp add: bit_simps add.commute del: mod_less_divisor)
  finally show "bit (from_be64 (be64 w)) n = bit w n" .
qed

lemma from_le64_le64 [codec]: "from_le64 (le64 w) = w"
proof -
  have "rev (le64 w) = be64 w" by (simp add: le64_def be64_def upt_rec)
  then show ?thesis by (simp add: from_le64_def codec)
qed

lemma read_type [simp]: "read_u32_le (remote_input_packet t body) 4 = Some t"
  by (simp add: read_u32_le_def remote_input_packet_def le32_def from_le32_def codec)

lemma remote_input_message_Some:
  "remote_input_message (remote_input_packet t body) timestamp = Some
     \<lparr> ei_route = (if t \<in> {INPUT_MOUSE_RELATIVE, INPUT_MOUSE_ABSOLUTE} then ControlPartial else ControlReliable),
       ei_bytes = control_command COMMAND_REMOTE_INPUT (remote_input_packet 0x0e
         (resize (max 24 (div_ceil (8 + length body) 8 * 8)) (remote_input_packet t body)
          @ concat (replicate ((if t \<in> {INPUT_KEY_DOWN, INPUT_KEY_UP, INPUT_MOUSE_ABSOLUTE} then 1 else 0) + 1) (le64 timestamp)))) \<rparr>"
  by (simp add: remote_input_message_def Let_def)

end
