(* ===== verification/InputText.thy ===== *)
theory InputText
  imports InputWire
begin

text \<open>
  Pasted text on the wire (\<open>unicode_text_messages\<close> of \<open>nvst_input.rs\<close>): the text is cut at character boundaries
  into chunks of at most 1016 bytes, one command each.
\<close>

section \<open>Messages\<close>

definition text_packet :: "bytes \<Rightarrow> u64 \<Rightarrow> bytes" where
  "text_packet chunk timestamp_us =
     (let packet = remote_input_packet INPUT_TEXT chunk
      in if length packet < 0x7e * 8
         then remote_input_packet 0x0e (resize ((length packet + 8) div 8 * 8 + 8) packet @ le64 timestamp_us)
         else packet)"

definition text_message :: "bytes \<Rightarrow> u64 \<Rightarrow> NvstEncodedInput" where
  "text_message chunk timestamp_us =
     \<lparr> ei_route = ControlReliable, ei_bytes = control_command COMMAND_REMOTE_INPUT (text_packet chunk timestamp_us) \<rparr>"

text \<open>The loop; \<open>None\<close> is a loop that never ends, which a first character of more than 1016 bytes would cause.\<close>

partial_function (option) unicode_text_messages :: "bytes \<Rightarrow> u64 \<Rightarrow> NvstEncodedInput list option" where
  "unicode_text_messages remaining timestamp_us =
     (if remaining = [] then Some []
      else let chunk_end = boundary_below remaining (min (length remaining) 0x3f8)
           in do {
             messages \<leftarrow> unicode_text_messages (drop chunk_end remaining) timestamp_us;
             Some (text_message (take chunk_end remaining) timestamp_us # messages)
           })"

declare unicode_text_messages.simps [code]

section \<open>What the server reads\<close>

definition read_u32_be :: "bytes \<Rightarrow> nat \<Rightarrow> u32 option" where
  "read_u32_be bs offset = (case take 4 (drop offset bs) of [a, b, c, d] \<Rightarrow> Some (from_be32 a b c d) | _ \<Rightarrow> None)"

text \<open>A text packet, wrapped with a time stamp or not; its length field covers the type and the text.\<close>

definition read_text :: "bytes \<Rightarrow> bytes option" where
  "read_text p = do {
     t \<leftarrow> read_u32_le p 4;
     let inner = (if t = 0x0e then drop 8 p else p);
     n \<leftarrow> read_u32_be inner 0;
     inner_type \<leftarrow> read_u32_le inner 4;
     (if inner_type = INPUT_TEXT then Some (take (unat n - 4) (drop 8 inner)) else None)
   }"

definition text_of :: "NvstEncodedInput \<Rightarrow> bytes option" where
  "text_of m = (case decode_command (ei_bytes m) of
     Some (command, []) \<Rightarrow> if cc_code command = COMMAND_REMOTE_INPUT then read_text (cc_payload command) else None
   | _ \<Rightarrow> None)"

section \<open>Chunks\<close>

lemma length_text_packet:
  assumes "length chunk \<le> 0x3f8"
  shows "8 + length chunk \<le> length (text_packet chunk timestamp)" and "length (text_packet chunk timestamp) \<le> 1032"
  using assms by (auto simp: text_packet_def Let_def)

lemma read_text_packet:
  assumes "length chunk \<le> 0x3f8"
  shows "read_text (text_packet chunk timestamp) = Some chunk"
proof -
  have n: "unat (4 + of_nat (length chunk) :: u32) = 4 + length chunk"
    using assms by (simp add: unat_word_ariths unsigned_of_nat take_bit_nat_eq_self)
  have inner: "read_u32_be (remote_input_packet INPUT_TEXT chunk @ rest) 0 = Some (4 + of_nat (length chunk))"
    "read_u32_le (remote_input_packet INPUT_TEXT chunk @ rest) 4 = Some INPUT_TEXT"
    "drop 8 (remote_input_packet INPUT_TEXT chunk @ rest) = chunk @ rest" for rest
    by (simp_all add: read_u32_be_def read_u32_le_def remote_input_packet_def be32_def le32_def from_le32_def codec)
  have outer: "read_u32_le (remote_input_packet 0x0e body) 4 = Some 0x0e" "drop 8 (remote_input_packet 0x0e body) = body" for body
    by simp (simp add: remote_input_packet_def)
  show ?thesis
  proof (cases "length (remote_input_packet INPUT_TEXT chunk) < 0x7e * 8")
    case True
    define rest where "rest = replicate ((length (remote_input_packet INPUT_TEXT chunk) + 8) div 8 * 8 + 8
      - length (remote_input_packet INPUT_TEXT chunk)) 0 @ le64 timestamp"
    have "text_packet chunk timestamp = remote_input_packet 0x0e (remote_input_packet INPUT_TEXT chunk @ rest)"
      using True by (simp add: text_packet_def Let_def rest_def)
    then show ?thesis using n inner(3) [of "[]"] by (simp add: read_text_def outer inner)
  next
    case False
    then have "text_packet chunk timestamp = remote_input_packet INPUT_TEXT chunk @ []" by (simp add: text_packet_def Let_def)
    then show ?thesis using n inner [of "[]"] by (simp add: read_text_def input_codes)
  qed
qed

lemma text_of_message:
  assumes "length chunk \<le> 0x3f8"
  shows "text_of (text_message chunk timestamp) = Some chunk"
    and "12 + length chunk \<le> length (ei_bytes (text_message chunk timestamp))"
    and "length (ei_bytes (text_message chunk timestamp)) \<le> 1036"
  using decode_control_command [of "text_packet chunk timestamp" COMMAND_REMOTE_INPUT "[]"] length_text_packet [OF assms, of timestamp]
    read_text_packet [OF assms, of timestamp]
  by (simp_all add: text_of_def text_message_def)

text \<open>The next chunk of a valid text is a non-empty run of whole characters.\<close>

lemma next_chunk:
  assumes "valid_utf8 bs" and "bs \<noteq> []" and "n = boundary_below bs (min (length bs) 0x3f8)"
  shows "0 < n" and "n \<le> 0x3f8" and "n \<le> length bs" and "valid_utf8 (take n bs)" and "valid_utf8 (drop n bs)"
proof -
  obtain cs where cs: "bs = concat cs" "\<forall>c\<in>set cs. char_bytes c" using assms(1) by (auto simp: valid_utf8_iff)
  with assms(2) obtain c rest where c: "cs = c # rest" by (cases cs) auto
  have len: "0 < length c" "length c \<le> 4" using cs(2) c by (simp_all add: char_bytes_def)
  have "is_char_boundary bs (length c)" using boundary_concat [of rest "[c]"] cs c by simp
  moreover have "length c \<le> min (length bs) 0x3f8" using len cs(1) c by simp
  ultimately have "length c \<le> n" unfolding assms(3) by (rule boundary_below_ge)
  with len show "0 < n" by linarith
  show "n \<le> 0x3f8" "n \<le> length bs" using boundary_below_le [of bs "min (length bs) 0x3f8"] by (simp_all add: assms(3))
  have "is_char_boundary (concat cs) n" using boundary_below_is [of bs] cs(1) assms(3) by simp
  from boundary_split [OF cs(2) this] obtain cs1 cs2 where split: "cs = cs1 @ cs2" "length (concat cs1) = n" by blast
  then have "take n bs = concat cs1" "drop n bs = concat cs2" using cs(1) by auto
  with split(1) cs(2) show "valid_utf8 (take n bs)" "valid_utf8 (drop n bs)" unfolding valid_utf8_iff by auto
qed

definition text_chunk_ok :: "NvstEncodedInput \<Rightarrow> bool" where
  "text_chunk_ok m \<longleftrightarrow> (\<exists>chunk. text_of m = Some chunk \<and> chunk \<noteq> [] \<and> valid_utf8 chunk \<and> length chunk \<le> 0x3f8
     \<and> 12 + length chunk \<le> length (ei_bytes m) \<and> length (ei_bytes m) \<le> 1036 \<and> ei_route m = ControlReliable)"

lemma unicode_text_messages_exact:
  assumes "valid_utf8 bs"
  shows "\<exists>ms. unicode_text_messages bs timestamp = Some ms \<and> concat (map (the \<circ> text_of) ms) = bs \<and> (\<forall>m\<in>set ms. text_chunk_ok m)"
  using assms
proof (induction "length bs" arbitrary: bs rule: less_induct)
  case less
  show ?case
  proof (cases "bs = []")
    case True
    then show ?thesis by (simp add: unicode_text_messages.simps)
  next
    case False
    define n where "n = boundary_below bs (min (length bs) 0x3f8)"
    note chunk = next_chunk [OF less.prems False n_def]
    have "length (drop n bs) < length bs" using chunk(1,3) by simp
    from less.hyps [OF this chunk(5)] obtain ms where
      ms: "unicode_text_messages (drop n bs) timestamp = Some ms" "concat (map (the \<circ> text_of) ms) = drop n bs"
        "\<forall>m\<in>set ms. text_chunk_ok m" by blast
    have len: "length (take n bs) \<le> 0x3f8" using chunk(2) by simp
    note m = text_of_message [OF len, of timestamp]
    have "text_chunk_ok (text_message (take n bs) timestamp)"
      unfolding text_chunk_ok_def using m len chunk(1,4) False by (intro exI [of _ "take n bs"]) (simp add: text_message_def)
    moreover have "unicode_text_messages bs timestamp = Some (text_message (take n bs) timestamp # ms)"
      using False ms(1) by (simp add: unicode_text_messages.simps [of bs] Let_def n_def [symmetric])
    ultimately show ?thesis using ms(2,3) m(1) by simp
  qed
qed

text \<open>C37: every text is sent whole: for valid UTF-8 the cutting into messages ends, the texts the server reads from the
  messages put together are the text, and every message is one command of at most 1036 bytes on the reliable
  channel whose text is valid UTF-8 of its own, so that no character is split.\<close>

theorem unicode_text_roundtrip:
  assumes "valid_utf8 bs"
  shows "\<exists>ms. unicode_text_messages bs timestamp = Some ms \<and> concat (map (the \<circ> text_of) ms) = bs
    \<and> (\<forall>m\<in>set ms. ei_route m = ControlReliable \<and> length (ei_bytes m) \<le> 1036
         \<and> (\<exists>chunk. text_of m = Some chunk \<and> chunk \<noteq> [] \<and> valid_utf8 chunk))"
proof -
  have "ei_route m = ControlReliable \<and> length (ei_bytes m) \<le> 1036 \<and> (\<exists>chunk. text_of m = Some chunk \<and> chunk \<noteq> [] \<and> valid_utf8 chunk)"
    if "text_chunk_ok m" for m
    using that unfolding text_chunk_ok_def by blast
  with unicode_text_messages_exact [OF assms, of timestamp] show ?thesis by blast
qed

theorem unicode_text_roundtrip_witness:
  "\<exists>ms. unicode_text_messages [0xc3, 0xa9, 0x21] 5 = Some ms \<and> concat (map (the \<circ> text_of) ms) = [0xc3, 0xa9, 0x21]"
proof -
  have "valid_utf8 [0xc3, 0xa9, 0x21]" by code_simp
  from unicode_text_roundtrip [OF this, of 5] show ?thesis by blast
qed

end
