(* ===== verification/InputCodec.thy ===== *)
theory InputCodec
  imports InputWire
begin

text \<open>
  The native input codec (\<open>NvstInputCodec\<close> of \<open>nvst_input.rs\<close>): captured packets become control commands for
  the server. It keeps the announced gamepad slots, a sequence number per slot, the slots that a rich
  controller session has taken over and the last report. \<open>None\<close> is a panic, \<open>Inl\<close> an error of the codec.
\<close>

section \<open>State\<close>

record NvstInputCodec =
  ic_gamepad_sequences :: "u16 list"
  ic_gamepad_bitmap :: "u16 option"
  ic_rich_slot_mask :: u16
  ic_last_gamepad_report :: "bytes option"

definition NvstInputCodec_default :: NvstInputCodec where
  "NvstInputCodec_default = \<lparr> ic_gamepad_sequences = replicate 4 0, ic_gamepad_bitmap = None, ic_rich_slot_mask = 0,
     ic_last_gamepad_report = None \<rparr>"

type_synonym encode_result = "((NvstInputCodecError + NvstEncodedInput list) \<times> NvstInputCodec) option"

section \<open>Gamepad topology\<close>

definition slot_in :: "u16 \<Rightarrow> nat \<Rightarrow> bool" where
  "slot_in bitmap slot \<longleftrightarrow> bitmap AND push_bit slot 1 \<noteq> 0"

definition neutral_report :: "NvstInputCodec \<Rightarrow> u16 \<Rightarrow> u64 \<Rightarrow> nat \<Rightarrow> bytes" where
  "neutral_report codec previous timestamp_us slot =
     (let neutral = (case ic_last_gamepad_report codec of None \<Rightarrow> replicate 38 0 | Some report_bytes \<Rightarrow> report_bytes);
          neutral = write_at 6 (le16 (of_nat slot)) neutral;
          neutral = write_at 8 (le16 previous) neutral;
          neutral = write_at 12 (replicate 12 0) neutral
      in write_at 30 (be64 timestamp_us) neutral)"

definition release_message :: "NvstInputCodec \<Rightarrow> u16 \<Rightarrow> u64 \<Rightarrow> nat \<Rightarrow> NvstEncodedInput" where
  "release_message codec previous timestamp_us slot =
     \<lparr> ei_route = ControlReliable,
       ei_bytes = control_command COMMAND_GAMEPAD
         ([0x23] @ be64 timestamp_us @ [0x22] @ neutral_report codec previous timestamp_us slot) \<rparr>"

definition emit_topology_transition :: "u16 \<Rightarrow> u16 \<Rightarrow> u64 \<Rightarrow> NvstInputCodec \<Rightarrow> NvstEncodedInput list \<times> NvstInputCodec" where
  "emit_topology_transition previous filtered timestamp_us codec =
     (let ids = [0..<length (ic_gamepad_sequences codec)];
          releases = map (release_message codec previous timestamp_us)
            (filter (\<lambda>slot. slot_in previous slot \<and> \<not> slot_in filtered slot) ids);
          sequences = map (\<lambda>slot. if slot_in filtered slot then ic_gamepad_sequences codec ! slot else 0) ids
      in (releases @ [\<lparr> ei_route = ControlReliable, ei_bytes = device_descriptor timestamp_us filtered \<rparr>],
          codec\<lparr> ic_gamepad_sequences := sequences, ic_gamepad_bitmap := Some filtered \<rparr>))"

definition set_rich_slot_mask :: "u16 \<Rightarrow> u64 \<Rightarrow> NvstInputCodec \<Rightarrow> NvstEncodedInput list \<times> NvstInputCodec" where
  "set_rich_slot_mask new_mask timestamp_us codec =
     (if ic_rich_slot_mask codec = new_mask then ([], codec)
      else let codec = codec\<lparr> ic_rich_slot_mask := new_mask \<rparr>
           in (case ic_gamepad_bitmap codec of
                 None \<Rightarrow> ([], codec)
               | Some previous \<Rightarrow>
                   let filtered = previous AND NOT new_mask
                   in if filtered \<noteq> previous then emit_topology_transition previous filtered timestamp_us codec
                      else ([], codec)))"

section \<open>Encoding one event\<close>

definition with_len :: "bytes \<Rightarrow> nat \<Rightarrow> string \<Rightarrow> NvstInputCodec \<Rightarrow> encode_result \<Rightarrow> encode_result" where
  "with_len bs minimum reason codec k =
     (case require_len bs minimum reason of Inl e \<Rightarrow> Some (Inl e, codec) | Inr _ \<Rightarrow> k)"

definition one_message :: "NvstInputCodec \<Rightarrow> NvstEncodedInput option \<Rightarrow> encode_result" where
  "one_message codec m = map_option (\<lambda>m. (Inr [m], codec)) m"

definition unwrap_or :: "'a option \<Rightarrow> 'a \<Rightarrow> 'a" where
  "unwrap_or x d = (case x of None \<Rightarrow> d | Some v \<Rightarrow> v)"

definition encode_key :: "u32 \<Rightarrow> NativeEvent \<Rightarrow> NvstInputCodec \<Rightarrow> encode_result" where
  "encode_key input_type event codec = with_len (ne_bytes event) 18 ''short keyboard packet'' codec (do {
     key \<leftarrow> read_u16_be (ne_bytes event) 4;
     modifiers \<leftarrow> read_u16_be (ne_bytes event) 6;
     one_message codec (remote_input_message
       (remote_input_packet input_type
          [ucast (drop_bit 8 key), ucast key, ucast (drop_bit 8 modifiers), ucast modifiers, 0, 0, 0, 0, 0, 0, 0, 0, 0, 0])
       (unwrap_or (read_u64_be (ne_bytes event) 10) (ne_timestamp_us event)))
   })"

text \<open>The relative motion and the wheel, which have the same layout.\<close>

definition encode_delta :: "string \<Rightarrow> u32 \<Rightarrow> NativeEvent \<Rightarrow> NvstInputCodec \<Rightarrow> encode_result" where
  "encode_delta reason input_type event codec = with_len (ne_bytes event) 22 reason codec (do {
     b4 \<leftarrow> byte_at (ne_bytes event) 4;
     b5 \<leftarrow> byte_at (ne_bytes event) 5;
     b6 \<leftarrow> byte_at (ne_bytes event) 6;
     b7 \<leftarrow> byte_at (ne_bytes event) 7;
     one_message codec (remote_input_message
       (remote_input_packet input_type [b4, b5, b6, b7, 0, 0])
       (unwrap_or (read_u64_be (ne_bytes event) 14) (ne_timestamp_us event)))
   })"

definition encode_absolute :: "u32 \<Rightarrow> NativeEvent \<Rightarrow> NvstInputCodec \<Rightarrow> encode_result" where
  "encode_absolute input_type event codec = with_len (ne_bytes event) 26 ''short absolute mouse packet'' codec (do {
     b4 \<leftarrow> byte_at (ne_bytes event) 4;
     b5 \<leftarrow> byte_at (ne_bytes event) 5;
     b6 \<leftarrow> byte_at (ne_bytes event) 6;
     b7 \<leftarrow> byte_at (ne_bytes event) 7;
     b10 \<leftarrow> byte_at (ne_bytes event) 10;
     b11 \<leftarrow> byte_at (ne_bytes event) 11;
     b12 \<leftarrow> byte_at (ne_bytes event) 12;
     b13 \<leftarrow> byte_at (ne_bytes event) 13;
     one_message codec (remote_input_message
       (remote_input_packet input_type [b4, b5, b6, b7, 0x08, 0x00, b10, b11, b12, b13])
       (unwrap_or (read_u64_be (ne_bytes event) 18) (ne_timestamp_us event)))
   })"

definition encode_button :: "u32 \<Rightarrow> NativeEvent \<Rightarrow> NvstInputCodec \<Rightarrow> encode_result" where
  "encode_button input_type event codec = with_len (ne_bytes event) 18 ''short mouse button packet'' codec (do {
     b4 \<leftarrow> byte_at (ne_bytes event) 4;
     one_message codec (remote_input_message
       (remote_input_packet input_type [b4, 0])
       (unwrap_or (read_u64_be (ne_bytes event) 10) (ne_timestamp_us event)))
   })"

definition encode_gamepad :: "NativeEvent \<Rightarrow> NvstInputCodec \<Rightarrow> encode_result" where
  "encode_gamepad event codec = with_len (ne_bytes event) 38 ''short gamepad packet'' codec
     (let timestamp = unwrap_or (read_u64_le (ne_bytes event) 30) (ne_timestamp_us event)
      in case read_u16_le (ne_bytes event) 6 of
           None \<Rightarrow> Some (Inl (Malformed ''missing gamepad id''), codec)
         | Some id_word \<Rightarrow>
             let controller_id = unat id_word
             in if length (ic_gamepad_sequences codec) \<le> controller_id
                then Some (Inl (Malformed ''gamepad id is outside the supported range''), codec)
                else do {
                  bitmap \<leftarrow> read_u16_le (ne_bytes event) 8;
                  let codec = codec\<lparr> ic_last_gamepad_report := Some (take 38 (ne_bytes event)) \<rparr>;
                  let filtered = bitmap AND NOT (ic_rich_slot_mask codec);
                  let (topology, codec) =
                    (if ic_gamepad_bitmap codec \<noteq> Some filtered
                     then emit_topology_transition (unwrap_or (ic_gamepad_bitmap codec) 0) filtered timestamp codec
                     else ([], codec));
                  if \<not> slot_in filtered controller_id then Some (Inr topology, codec)
                  else do {
                    let sequence = ic_gamepad_sequences codec ! controller_id + 1;
                    let codec = codec\<lparr> ic_gamepad_sequences := (ic_gamepad_sequences codec)[controller_id := sequence] \<rparr>;
                    command \<leftarrow> gamepad_command (ne_bytes event) timestamp sequence;
                    Some (Inr (topology @ [\<lparr> ei_route = InputPartial, ei_bytes = command \<rparr>]), codec)
                  }
                })"

definition encode_haptics :: "NativeEvent \<Rightarrow> NvstInputCodec \<Rightarrow> encode_result" where
  "encode_haptics event codec = with_len (ne_bytes event) 6 ''short haptics packet'' codec
     (one_message codec (haptics_state (unwrap_or (read_u16_be (ne_bytes event) 4) 0 \<noteq> 0) (ne_timestamp_us event)))"

definition encode_lock_keys :: "u32 \<Rightarrow> NativeEvent \<Rightarrow> NvstInputCodec \<Rightarrow> encode_result" where
  "encode_lock_keys input_type event codec = with_len (ne_bytes event) 5 ''short lock-key sync packet'' codec (do {
     b4 \<leftarrow> byte_at (ne_bytes event) 4;
     one_message codec (remote_input_message (remote_input_packet input_type [b4]) (ne_timestamp_us event))
   })"

section \<open>Text as key strokes\<close>

text \<open>A \<open>char\<close> is its UTF-8 encoding; every character with a key is one ASCII byte. The shifted keys:\<close>

definition shifted_keys :: "(u8 \<times> u16) list" where
  "shifted_keys =
     [(0x21, 0x31), (0x40, 0x32), (0x23, 0x33), (0x24, 0x34), (0x25, 0x35), (0x5e, 0x36), (0x26, 0x37), (0x2a, 0x38),
      (0x28, 0x39), (0x29, 0x30), (0x5f, 0xbd), (0x2b, 0xbb), (0x7b, 0xdb), (0x7d, 0xdd), (0x7c, 0xdc), (0x3a, 0xba),
      (0x22, 0xde), (0x3c, 0xbc), (0x3e, 0xbe), (0x3f, 0xbf), (0x7e, 0xc0)]"

definition plain_keys :: "(u8 \<times> u16) list" where
  "plain_keys =
     [(0x20, 0x20), (0x09, 0x09), (0x0a, 0x0d), (0x0d, 0x0d), (0x2d, 0xbd), (0x3d, 0xbb), (0x5b, 0xdb), (0x5d, 0xdd),
      (0x5c, 0xdc), (0x3b, 0xba), (0x27, 0xde), (0x2c, 0xbc), (0x2e, 0xbe), (0x2f, 0xbf), (0x60, 0xc0)]"

definition text_keystroke :: "bytes \<Rightarrow> (u16 \<times> u16) option" where
  "text_keystroke character = (case character of
     [b] \<Rightarrow>
       if 0x41 \<le> b \<and> b \<le> 0x5a then Some (ucast b, 1)
       else if 0x61 \<le> b \<and> b \<le> 0x7a then Some (ucast (b - 0x20), 0)
       else if 0x30 \<le> b \<and> b \<le> 0x39 then Some (ucast b, 0)
       else (case map_of plain_keys b of
               Some key \<Rightarrow> Some (key, 0)
             | None \<Rightarrow> map_option (\<lambda>key. (key, 1)) (map_of shifted_keys b))
   | _ \<Rightarrow> None)"

definition key_stroke_message :: "u64 \<Rightarrow> u16 \<Rightarrow> u16 \<Rightarrow> u32 \<Rightarrow> NvstEncodedInput option" where
  "key_stroke_message timestamp_us virtual_key modifiers input_type =
     remote_input_message (remote_input_packet input_type (resize 14 (be16 virtual_key @ be16 modifiers))) timestamp_us"

fun text_strokes :: "u64 \<Rightarrow> bytes list \<Rightarrow> (NvstInputCodecError + NvstEncodedInput list) option" where
  "text_strokes timestamp_us [] = Some (Inr [])"
| "text_strokes timestamp_us (character # rest) =
     (case text_keystroke character of
        None \<Rightarrow> Some (Inl UnsupportedText)
      | Some (virtual_key, modifiers) \<Rightarrow> do {
          down \<leftarrow> key_stroke_message timestamp_us virtual_key modifiers INPUT_KEY_DOWN;
          up \<leftarrow> key_stroke_message timestamp_us virtual_key modifiers INPUT_KEY_UP;
          map_option (map_sum id (\<lambda>messages. down # up # messages)) (text_strokes timestamp_us rest)
        })"

definition text_messages :: "NativeEvent \<Rightarrow> NvstInputCodec \<Rightarrow> encode_result" where
  "text_messages event codec = with_len (ne_bytes event) 5 ''short text packet'' codec
     (case from_utf8 (drop 5 (ne_bytes event)) of
        None \<Rightarrow> Some (Inl UnsupportedText, codec)
      | Some characters \<Rightarrow> map_option (\<lambda>r. (r, codec)) (text_strokes (ne_timestamp_us event) characters))"

section \<open>The codec\<close>

definition encode_event :: "NativeEvent \<Rightarrow> NvstInputCodec \<Rightarrow> encode_result" where
  "encode_event event codec =
     (case read_u32_le (ne_bytes event) 0 of
        None \<Rightarrow> Some (Inl (Malformed ''missing input type''), codec)
      | Some input_type \<Rightarrow>
          if input_type = INPUT_HEARTBEAT then Some (Inr [], codec)
          else if input_type \<in> {INPUT_KEY_DOWN, INPUT_KEY_UP} then encode_key input_type event codec
          else if input_type = INPUT_MOUSE_RELATIVE then encode_delta ''short relative mouse packet'' input_type event codec
          else if input_type = INPUT_MOUSE_ABSOLUTE then encode_absolute input_type event codec
          else if input_type \<in> {INPUT_MOUSE_BUTTON_DOWN, INPUT_MOUSE_BUTTON_UP} then encode_button input_type event codec
          else if input_type = INPUT_MOUSE_WHEEL then encode_delta ''short mouse wheel packet'' input_type event codec
          else if input_type = INPUT_GAMEPAD then encode_gamepad event codec
          else if input_type = INPUT_HAPTICS_ENABLED then encode_haptics event codec
          else if input_type = INPUT_LOCK_KEYS_SYNC then encode_lock_keys input_type event codec
          else if input_type = INPUT_TEXT then text_messages event codec
          else Some (Inl (UnsupportedType input_type), codec))"

fun encode_events :: "NvstEncodedInput list \<Rightarrow> NativeEvent list \<Rightarrow> NvstInputCodec \<Rightarrow> encode_result" where
  "encode_events encoded_so_far [] codec = Some (Inr encoded_so_far, codec)"
| "encode_events encoded_so_far (event # events) codec =
     (case encode_event event codec of
        None \<Rightarrow> None
      | Some (Inl e, codec) \<Rightarrow> Some (Inl e, codec)
      | Some (Inr messages, codec) \<Rightarrow> encode_events (encoded_so_far @ messages) events codec)"

definition encode :: "bytes \<Rightarrow> u64 \<Rightarrow> NvstInputCodec \<Rightarrow> encode_result" where
  "encode packet fallback_timestamp_us codec =
     (case native_events packet fallback_timestamp_us of
        Inl e \<Rightarrow> Some (Inl e, codec)
      | Inr events \<Rightarrow> encode_events [] events codec)"

section \<open>What the server makes of the messages\<close>

text \<open>
  A reference reader of the gamepad messages in the order they are sent: the announced slots and the controls
  of every slot (buttons, triggers and sticks, bytes 12 to 23 of a report). A message marked 0x22 announces the
  slots and sets the controls of one; a message marked 0x26 sets the controls of one.
\<close>

record pad_server =
  ps_bitmap :: u16
  ps_controls :: "nat \<Rightarrow> bytes"

definition report_slot :: "bytes \<Rightarrow> nat" where
  "report_slot bs = unat (unwrap_or (read_u16_le bs 6) 0)"

definition report_bitmap :: "bytes \<Rightarrow> u16" where
  "report_bitmap bs = unwrap_or (read_u16_le bs 8) 0"

definition report_controls :: "bytes \<Rightarrow> bytes" where
  "report_controls bs = take 12 (drop 12 bs)"

definition pad_update :: "bytes \<Rightarrow> pad_server \<Rightarrow> pad_server" where
  "pad_update bs s = s\<lparr> ps_controls := (ps_controls s)(report_slot bs := report_controls bs) \<rparr>"

definition pad_payload :: "bytes \<Rightarrow> pad_server \<Rightarrow> pad_server" where
  "pad_payload p s = (case byte_at p 9 of
     Some marker \<Rightarrow>
       if marker = 0x22 then (pad_update (drop 10 p) s)\<lparr> ps_bitmap := report_bitmap (drop 10 p) \<rparr>
       else if marker = 0x26 then pad_update (drop 16 p) s
       else s
   | None \<Rightarrow> s)"

definition pad_receive :: "NvstEncodedInput \<Rightarrow> pad_server \<Rightarrow> pad_server" where
  "pad_receive m s = (case decode_command (ei_bytes m) of
     Some (command, _) \<Rightarrow> if cc_code command = COMMAND_GAMEPAD then pad_payload (cc_payload command) s else s
   | None \<Rightarrow> s)"

definition neutral :: bytes where "neutral = replicate 12 0"

definition pads_agree :: "NvstInputCodec \<Rightarrow> pad_server \<Rightarrow> bool" where
  "pads_agree codec s \<longleftrightarrow> ps_bitmap s = unwrap_or (ic_gamepad_bitmap codec) 0
     \<and> (\<forall>slot<4. \<not> slot_in (ps_bitmap s) slot \<longrightarrow> ps_controls s slot = neutral)"

section \<open>Invariant and well-formed messages\<close>

definition codec_ok :: "NvstInputCodec \<Rightarrow> bool" where
  "codec_ok codec \<longleftrightarrow> length (ic_gamepad_sequences codec) = 4
     \<and> (\<forall>bs. ic_last_gamepad_report codec = Some bs \<longrightarrow> length bs = 38)
     \<and> unwrap_or (ic_gamepad_bitmap codec) 0 AND ic_rich_slot_mask codec = 0
     \<and> (\<forall>slot<4. \<not> slot_in (unwrap_or (ic_gamepad_bitmap codec) 0) slot \<longrightarrow> ic_gamepad_sequences codec ! slot = 0)"

definition message_ok :: "NvstEncodedInput \<Rightarrow> bool" where
  "message_ok m \<longleftrightarrow> (\<exists>code payload. ei_bytes m = control_command code payload \<and> length payload \<le> 54
     \<and> (code = COMMAND_GAMEPAD \<and> ei_route m \<noteq> ControlPartial
        \<or> code = COMMAND_REMOTE_INPUT \<and> ei_route m \<noteq> InputPartial
          \<and> (ei_route m = ControlPartial \<longleftrightarrow> (\<exists>t. read_u32_le payload 12 = Some t \<and> native_input_type_is_motion t))))"

definition codec_step :: "NvstInputCodec \<Rightarrow> NvstEncodedInput list \<Rightarrow> NvstInputCodec \<Rightarrow> bool" where
  "codec_step codec ms codec' \<longleftrightarrow> (\<forall>m\<in>set ms. message_ok m)
     \<and> (codec_ok codec \<longrightarrow> codec_ok codec' \<and> ic_rich_slot_mask codec' = ic_rich_slot_mask codec
         \<and> (\<forall>s. pads_agree codec s \<longrightarrow> pads_agree codec' (fold pad_receive ms s)))"

lemma codec_step_trans: "codec_step a xs b \<Longrightarrow> codec_step b ys c \<Longrightarrow> codec_step a (xs @ ys) c"
  by (auto simp: codec_step_def)

lemma pad_receive_command:
  assumes "length p \<le> u16_max" and "ei_bytes m = control_command code p"
  shows "pad_receive m s = (if code = COMMAND_GAMEPAD then pad_payload p s else s)"
  using decode_control_command [OF assms(1), of code "[]"] assms(2) by (simp add: pad_receive_def)

lemma div_ceil_8: "div_ceil (8 + n) 8 * 8 \<le> n + 15"
  by (simp add: div_ceil_def)

lemma remote_message:
  assumes "length body \<le> 16" and "remote_input_message (remote_input_packet t body) timestamp = Some m"
  shows "message_ok m" and "pad_receive m s = s"
proof -
  let ?n = "max 24 (div_ceil (8 + length body) 8 * 8)"
  let ?stamps = "concat (replicate ((if t \<in> {INPUT_KEY_DOWN, INPUT_KEY_UP, INPUT_MOUSE_ABSOLUTE} then 1 else 0) + 1) (le64 timestamp))"
  let ?p = "remote_input_packet 0x0e (resize ?n (remote_input_packet t body) @ ?stamps)"
  have n: "?n \<le> 31" "8 + length body \<le> ?n" using assms(1) div_ceil_8 [of "length body"] by (simp_all add: div_ceil_def)
  have "length ?p \<le> 8 + (?n + 16)" by simp
  moreover have "?n \<le> 24" using assms(1) by (simp add: div_ceil_def)
  ultimately have len: "length ?p \<le> 54" by linarith
  have m: "m = \<lparr> ei_route = (if t \<in> {INPUT_MOUSE_RELATIVE, INPUT_MOUSE_ABSOLUTE} then ControlPartial else ControlReliable),
      ei_bytes = control_command COMMAND_REMOTE_INPUT ?p \<rparr>"
    using assms(2) unfolding remote_input_message_Some by simp
  have "read_u32_le ?p 12 = Some t"
    using n(2) by (simp add: read_u32_le_def remote_input_packet_def le32_def be32_def from_le32_def codec)
  with m len show "message_ok m"
    unfolding message_ok_def
    by (intro exI [of _ COMMAND_REMOTE_INPUT] exI [of _ ?p]) (auto simp: native_input_type_is_motion_def)
  have "length ?p \<le> u16_max" using len by simp
  from pad_receive_command [OF this, of m COMMAND_REMOTE_INPUT s] m show "pad_receive m s = s"
    by (simp add: command_codes)
qed

section \<open>Gamepads\<close>

lemma slot_in_bit: "slot_in b slot \<longleftrightarrow> bit b slot"
  by (simp add: slot_in_def bit_iff_and_push_bit_not_eq_0)

lemma read_u16_le_nth: "offset + 2 \<le> length bs \<Longrightarrow> read_u16_le bs offset = Some (from_le16 (bs ! offset) (bs ! Suc offset))"
proof -
  assume a: "offset + 2 \<le> length bs"
  then have "take 2 (drop offset bs) = [bs ! offset, bs ! Suc offset]"
    by (simp add: Cons_nth_drop_Suc [symmetric] numeral_2_eq_2)
  then show ?thesis by (simp add: read_u16_le_def)
qed

lemma from_le16_nth: "from_le16 (le16 w ! 0) (le16 w ! Suc 0) = w"
  by (simp add: le16_def from_le16_def codec)

lemma neutral_report_fields:
  assumes "codec_ok codec" and "slot < 4"
  shows "length (neutral_report codec previous timestamp slot) = 38"
    and "report_slot (neutral_report codec previous timestamp slot) = slot"
    and "report_bitmap (neutral_report codec previous timestamp slot) = previous"
    and "report_controls (neutral_report codec previous timestamp slot) = neutral"
proof -
  define r0 where "r0 = (case ic_last_gamepad_report codec of None \<Rightarrow> replicate 38 0 | Some bs \<Rightarrow> bs)"
  define r1 where "r1 = write_at 6 (le16 (of_nat slot)) r0"
  define r2 where "r2 = write_at 8 (le16 previous) r1"
  define r3 where "r3 = write_at 12 (replicate 12 0) r2"
  define r4 where "r4 = write_at 30 (be64 timestamp) r3"
  have eq: "neutral_report codec previous timestamp slot = r4"
    by (simp add: neutral_report_def r0_def r1_def r2_def r3_def r4_def Let_def)
  have l0: "length r0 = 38" using assms(1) by (auto simp: r0_def codec_ok_def split: option.splits)
  then have l1: "length r1 = 38" by (simp add: r1_def length_write_at)
  then have l2: "length r2 = 38" by (simp add: r2_def length_write_at)
  then have l3: "length r3 = 38" by (simp add: r3_def length_write_at)
  then have l4: "length r4 = 38" by (simp add: r4_def length_write_at)
  have n4: "r4 ! k = r3 ! k" if "k < 30" for k using that l3 by (simp add: r4_def nth_write_at)
  have n3: "r3 ! k = (if 12 \<le> k \<and> k < 24 then 0 else r2 ! k)" if "k < 38" for k
    using that l2 by (auto simp: r3_def nth_write_at)
  have n2: "r2 ! k = (if 8 \<le> k \<and> k < 10 then le16 previous ! (k - 8) else r1 ! k)" if "k < 38" for k
    using that l1 by (simp add: r2_def nth_write_at)
  have n1: "r1 ! k = (if 6 \<le> k \<and> k < 8 then le16 (of_nat slot) ! (k - 6) else r0 ! k)" if "k < 38" for k
    using that l0 by (simp add: r1_def nth_write_at)
  show "length (neutral_report codec previous timestamp slot) = 38" by (simp add: eq l4)
  have "read_u16_le r4 6 = Some (of_nat slot)"
    using read_u16_le_nth [of 6 r4] l4 from_le16_nth [of "of_nat slot"] by (simp add: n4 n3 n2 n1)
  then show "report_slot (neutral_report codec previous timestamp slot) = slot"
    using assms(2) by (simp add: eq report_slot_def unwrap_or_def unsigned_of_nat take_bit_nat_eq_self)
  have "read_u16_le r4 8 = Some previous"
    using read_u16_le_nth [of 8 r4] l4 from_le16_nth [of previous] by (simp add: n4 n3 n2)
  then show "report_bitmap (neutral_report codec previous timestamp slot) = previous"
    by (simp add: eq report_bitmap_def unwrap_or_def)
  show "report_controls (neutral_report codec previous timestamp slot) = neutral"
    by (rule nth_equalityI) (auto simp: eq report_controls_def neutral_def l4 n4 n3)
qed

lemma drop_headers:
  "drop 10 ([0x23] @ be64 t @ [m] @ bs) = bs" "byte_at ([0x23] @ be64 t @ [m] @ bs) 9 = Some m"
  "drop 16 ([0x23] @ be64 t @ [m, b] @ be16 q @ [k] @ be16 n @ bs) = bs"
  "byte_at ([0x23] @ be64 t @ [m, b] @ be16 q @ [k] @ be16 n @ bs) 9 = Some m"
  by (simp_all add: byte_at_def be64_def be16_def upt_rec)

lemma gamepad_message_ok:
  "ei_bytes m = control_command COMMAND_GAMEPAD p \<Longrightarrow> length p \<le> 54 \<Longrightarrow> ei_route m \<noteq> ControlPartial \<Longrightarrow> message_ok m"
  unfolding message_ok_def by blast

lemma release_message_step:
  assumes "codec_ok codec" and "slot < 4"
  shows "message_ok (release_message codec previous timestamp slot)"
    and "pad_receive (release_message codec previous timestamp slot) s =
      s\<lparr> ps_controls := (ps_controls s)(slot := neutral), ps_bitmap := previous \<rparr>"
proof -
  note f = neutral_report_fields [OF assms, of previous timestamp]
  let ?p = "[0x23] @ be64 timestamp @ [0x22] @ neutral_report codec previous timestamp slot"
  have len: "length ?p = 48" by (simp add: f)
  show "message_ok (release_message codec previous timestamp slot)"
    by (rule gamepad_message_ok [where p = ?p]) (use len in \<open>simp_all add: release_message_def\<close>)
  have "pad_payload ?p s = s\<lparr> ps_controls := (ps_controls s)(slot := neutral), ps_bitmap := previous \<rparr>"
    unfolding pad_payload_def drop_headers by (simp add: pad_update_def f)
  then show "pad_receive (release_message codec previous timestamp slot) s =
      s\<lparr> ps_controls := (ps_controls s)(slot := neutral), ps_bitmap := previous \<rparr>"
    using pad_receive_command [of ?p "release_message codec previous timestamp slot" COMMAND_GAMEPAD s] len
    by (simp add: release_message_def)
qed

lemma descriptor_step:
  "message_ok \<lparr> ei_route = ControlReliable, ei_bytes = device_descriptor timestamp bitmap \<rparr>"
  "pad_receive \<lparr> ei_route = ControlReliable, ei_bytes = device_descriptor timestamp bitmap \<rparr> s =
     s\<lparr> ps_controls := (ps_controls s)(0 := neutral), ps_bitmap := bitmap \<rparr>"
proof -
  define r where "r = [0x0c, 0x00, 0x00, 0x00, 0x1a, 0x00, 0x00, 0x00] @ le16 bitmap @
    ([0x14, 0x00, 0x00, 0x00, 0x00, 0x00, 0x00, 0x00, 0x00, 0x00, 0x00, 0x00, 0x00, 0x00, 0x00, 0x00, 0x55, 0x00, 0x00,
      0x00, 0x00, 0x00, 0x00, 0x00, 0x00, 0x00, 0x00, 0x00] :: bytes)"
  let ?p = "[0x23] @ be64 timestamp @ [0x22] @ r"
  have d: "device_descriptor timestamp bitmap = control_command COMMAND_GAMEPAD ?p"
    by (simp add: device_descriptor_def write_at_def r_def)
  have len: "length ?p = 48" by (simp add: r_def)
  show "message_ok \<lparr> ei_route = ControlReliable, ei_bytes = device_descriptor timestamp bitmap \<rparr>"
    by (rule gamepad_message_ok [where p = ?p]) (use len d in simp_all)
  have "read_u16_le r 6 = Some 0" by (simp add: r_def read_u16_le_def from_le16_def from_be16_def)
  moreover have "read_u16_le r 8 = Some bitmap" by (simp add: r_def read_u16_le_def le16_def from_le16_def codec)
  moreover have "report_controls r = neutral" by (simp add: r_def report_controls_def neutral_def eval_nat_numeral)
  ultimately have f: "report_slot r = 0" "report_bitmap r = bitmap" "report_controls r = neutral"
    by (simp_all add: report_slot_def report_bitmap_def unwrap_or_def)
  have "pad_payload ?p s = s\<lparr> ps_controls := (ps_controls s)(0 := neutral), ps_bitmap := bitmap \<rparr>"
    unfolding pad_payload_def drop_headers by (simp add: pad_update_def f)
  then show "pad_receive \<lparr> ei_route = ControlReliable, ei_bytes = device_descriptor timestamp bitmap \<rparr> s =
     s\<lparr> ps_controls := (ps_controls s)(0 := neutral), ps_bitmap := bitmap \<rparr>"
    using pad_receive_command [of ?p "\<lparr> ei_route = ControlReliable, ei_bytes = device_descriptor timestamp bitmap \<rparr>" COMMAND_GAMEPAD s]
      len d by simp
qed

lemma releases_received:
  assumes "codec_ok codec" and "\<forall>slot\<in>set slots. slot < 4" and "ps_bitmap s = previous"
  shows "fold pad_receive (map (release_message codec previous timestamp) slots) s =
    s\<lparr> ps_controls := (\<lambda>slot. if slot \<in> set slots then neutral else ps_controls s slot) \<rparr>"
  using assms(2,3)
proof (induction slots arbitrary: s)
  case (Cons slot slots)
  have "pad_receive (release_message codec previous timestamp slot) s = s\<lparr> ps_controls := (ps_controls s)(slot := neutral) \<rparr>"
    using Cons.prems release_message_step(2) [OF assms(1), of slot previous timestamp s] by simp
  moreover have "(\<lambda>x. if x \<in> set slots then neutral else ((ps_controls s)(slot := neutral)) x) =
      (\<lambda>x. if x \<in> set (slot # slots) then neutral else ps_controls s x)" by auto
  ultimately show ?case using Cons.IH [of "s\<lparr> ps_controls := (ps_controls s)(slot := neutral) \<rparr>"] Cons.prems
    by (simp cong: if_cong)
qed simp

lemma topology_step:
  assumes "emit_topology_transition (unwrap_or (ic_gamepad_bitmap codec) 0) filtered timestamp codec = (ms, codec')"
    and "codec_ok codec" and "filtered AND ic_rich_slot_mask codec = 0"
  shows "(\<forall>m\<in>set ms. message_ok m) \<and> codec_ok codec' \<and> ic_rich_slot_mask codec' = ic_rich_slot_mask codec
    \<and> ic_gamepad_bitmap codec' = Some filtered
    \<and> (\<forall>s. pads_agree codec s \<longrightarrow> pads_agree codec' (fold pad_receive ms s))"
proof -
  let ?previous = "unwrap_or (ic_gamepad_bitmap codec) 0"
  let ?gone = "filter (\<lambda>slot. slot_in ?previous slot \<and> \<not> slot_in filtered slot) [0..<4]"
  have four: "length (ic_gamepad_sequences codec) = 4" using assms(2) by (simp add: codec_ok_def)
  have ms: "ms = map (release_message codec ?previous timestamp) ?gone
      @ [\<lparr> ei_route = ControlReliable, ei_bytes = device_descriptor timestamp filtered \<rparr>]"
    and codec': "codec' = codec\<lparr> ic_gamepad_sequences :=
        map (\<lambda>slot. if slot_in filtered slot then ic_gamepad_sequences codec ! slot else 0) [0..<4],
      ic_gamepad_bitmap := Some filtered \<rparr>"
    using assms(1) four by (auto simp: emit_topology_transition_def Let_def)
  have ok: "\<forall>m\<in>set ms. message_ok m"
    using release_message_step(1) [OF assms(2)] descriptor_step(1) by (auto simp: ms)
  have "pads_agree codec' (fold pad_receive ms s)" if "pads_agree codec s" for s
  proof -
    from that have "ps_bitmap s = ?previous" by (simp add: pads_agree_def)
    with releases_received [OF assms(2), of ?gone s ?previous timestamp] have
      "fold pad_receive (map (release_message codec ?previous timestamp) ?gone) s =
        s\<lparr> ps_controls := (\<lambda>slot. if slot \<in> set ?gone then neutral else ps_controls s slot) \<rparr>" by simp
    then show ?thesis using that unfolding ms
      by (auto simp: descriptor_step(2) pads_agree_def codec' unwrap_or_def)
  qed
  moreover have "codec_ok codec'" using assms(2,3) by (auto simp: codec_ok_def codec' unwrap_or_def)
  ultimately show ?thesis using ok by (simp add: codec')
qed

lemma masked_disjoint: "((a :: u16) AND NOT m) AND m = 0"
  by (rule bit_word_eqI) (simp add: bit_simps)

text \<open>The report of one slot, and the three ways an event of a gamepad can go.\<close>

definition pad_message :: "bytes \<Rightarrow> u64 \<Rightarrow> u16 \<Rightarrow> NvstEncodedInput" where
  "pad_message bs timestamp sequence = \<lparr> ei_route = InputPartial, ei_bytes = control_command COMMAND_GAMEPAD
     ([0x23] @ be64 timestamp @ [0x26, bs ! 6] @ be16 sequence @ [0x21] @ be16 38 @ take 38 bs) \<rparr>"

lemma encode_gamepad_eq:
  assumes "length (ic_gamepad_sequences codec) = 4" and "38 \<le> length (ne_bytes event)"
    and "read_u16_le (ne_bytes event) 6 = Some i" and "read_u16_le (ne_bytes event) 8 = Some b"
    and "timestamp = unwrap_or (read_u64_le (ne_bytes event) 30) (ne_timestamp_us event)"
    and "codec1 = codec\<lparr> ic_last_gamepad_report := Some (take 38 (ne_bytes event)) \<rparr>"
    and "filtered = b AND NOT (ic_rich_slot_mask codec)"
    and "(if ic_gamepad_bitmap codec \<noteq> Some filtered
          then emit_topology_transition (unwrap_or (ic_gamepad_bitmap codec) 0) filtered timestamp codec1 else ([], codec1)) = (ms, codec2)"
    and "sequence = ic_gamepad_sequences codec2 ! unat i + 1"
  shows "encode_gamepad event codec =
    (if 4 \<le> unat i then Some (Inl (Malformed ''gamepad id is outside the supported range''), codec)
     else if \<not> slot_in filtered (unat i) then Some (Inr ms, codec2)
     else Some (Inr (ms @ [pad_message (ne_bytes event) timestamp sequence]),
       codec2\<lparr> ic_gamepad_sequences := (ic_gamepad_sequences codec2)[unat i := sequence] \<rparr>))"
proof -
  have c: "ic_gamepad_bitmap codec1 = ic_gamepad_bitmap codec" "ic_rich_slot_mask codec1 = ic_rich_slot_mask codec"
    by (simp_all add: assms(6))
  show ?thesis
    using assms(1-4) assms(8) c
    by (auto simp: encode_gamepad_def with_len_def require_len_def Let_def assms(5) [symmetric] assms(6) [symmetric]
        assms(7) [symmetric] assms(9) [symmetric] gamepad_command_def byte_at_def pad_message_def split: if_splits)
qed

lemma pad_message_step:
  assumes "38 \<le> length bs"
  shows "message_ok (pad_message bs timestamp sequence)"
    and "pad_receive (pad_message bs timestamp sequence) s = pad_update (take 38 bs) s"
proof -
  let ?m = "pad_message bs timestamp sequence"
  define p where "p = [0x23] @ be64 timestamp @ [0x26, bs ! 6] @ be16 sequence @ [0x21] @ be16 38 @ take 38 bs"
  have m: "ei_bytes ?m = control_command COMMAND_GAMEPAD p" "ei_route ?m \<noteq> ControlPartial"
    by (simp_all add: pad_message_def p_def)
  have len: "length p \<le> 54" by (simp add: p_def)
  show "message_ok ?m" by (rule gamepad_message_ok [OF m(1) len m(2)])
  show "pad_receive ?m s = pad_update (take 38 bs) s"
    using pad_receive_command [OF _ m(1)] len unfolding pad_payload_def p_def drop_headers by simp
qed

lemma gamepad_step:
  assumes "codec_ok codec"
  shows "\<exists>r codec'. encode_gamepad event codec = Some (r, codec') \<and> codec_ok codec'
    \<and> ic_rich_slot_mask codec' = ic_rich_slot_mask codec
    \<and> (\<forall>ms. r = Inr ms \<longrightarrow> codec_step codec ms codec')"
proof (cases "length (ne_bytes event) < 38")
  case True
  with assms show ?thesis by (simp add: encode_gamepad_def with_len_def require_len_def)
next
  case False
  let ?bs = "ne_bytes event"
  obtain i b where i: "read_u16_le ?bs 6 = Some i" and b: "read_u16_le ?bs 8 = Some b"
    using False read_u16_le_nth [of 6 ?bs] read_u16_le_nth [of 8 ?bs] by auto
  have four: "length (ic_gamepad_sequences codec) = 4" using assms by (simp add: codec_ok_def)
  define t where "t = unwrap_or (read_u64_le ?bs 30) (ne_timestamp_us event)"
  define codec1 where "codec1 = codec\<lparr> ic_last_gamepad_report := Some (take 38 ?bs) \<rparr>"
  have ok1: "codec_ok codec1" using assms False by (auto simp: codec1_def codec_ok_def)
  define filtered where "filtered = b AND NOT (ic_rich_slot_mask codec)"
  obtain ms codec2 where step: "(if ic_gamepad_bitmap codec \<noteq> Some filtered
      then emit_topology_transition (unwrap_or (ic_gamepad_bitmap codec) 0) filtered t codec1 else ([], codec1)) = (ms, codec2)"
    by (metis surj_pair)
  define q where "q = ic_gamepad_sequences codec2 ! unat i + 1"
  note enc = encode_gamepad_eq [OF four _ i b t_def codec1_def filtered_def step q_def]
  have same: "ic_gamepad_bitmap codec1 = ic_gamepad_bitmap codec" "ic_rich_slot_mask codec1 = ic_rich_slot_mask codec"
    "pads_agree codec1 s = pads_agree codec s" for s by (simp_all add: codec1_def pads_agree_def)
  have "filtered AND ic_rich_slot_mask codec1 = 0" by (simp add: filtered_def same masked_disjoint)
  from topology_step [OF _ ok1 this, of t ms codec2] step same ok1
  have s2: "(\<forall>m\<in>set ms. message_ok m) \<and> codec_ok codec2 \<and> ic_rich_slot_mask codec2 = ic_rich_slot_mask codec
      \<and> ic_gamepad_bitmap codec2 = Some filtered \<and> (\<forall>s. pads_agree codec s \<longrightarrow> pads_agree codec2 (fold pad_receive ms s))"
    by (auto split: if_splits)
  let ?m = "pad_message ?bs t q"
  let ?codec3 = "codec2\<lparr> ic_gamepad_sequences := (ic_gamepad_sequences codec2)[unat i := q] \<rparr>"
  have slot: "report_slot (take 38 ?bs) = unat i"
    using i False read_u16_le_nth [of 6 "take 38 ?bs"] read_u16_le_nth [of 6 ?bs] by (auto simp: report_slot_def unwrap_or_def)
  have m: "message_ok ?m" "pad_receive ?m s = pad_update (take 38 ?bs) s" for s
    using pad_message_step [of ?bs t q] False by auto
  have "pads_agree ?codec3 (pad_receive ?m s)" if "pads_agree codec2 s" "slot_in filtered (unat i)" for s
    using that s2 by (auto simp: m(2) pads_agree_def pad_update_def slot unwrap_or_def)
  moreover have "codec_ok ?codec3" if "slot_in filtered (unat i)"
  proof -
    have "(ic_gamepad_sequences codec2)[unat i := q] ! k = ic_gamepad_sequences codec2 ! k" if "\<not> slot_in filtered k" for k
      using that \<open>slot_in filtered (unat i)\<close> by (intro nth_list_update_neq) auto
    then show ?thesis using s2 by (auto simp: codec_ok_def unwrap_or_def)
  qed
  ultimately show ?thesis using enc s2 assms m(1) False by (auto simp: codec_step_def)
qed

section \<open>All events\<close>

definition encodes :: "NvstInputCodec \<Rightarrow> encode_result \<Rightarrow> bool" where
  "encodes codec result \<longleftrightarrow> (\<exists>r codec'. result = Some (r, codec') \<and> codec_ok codec'
     \<and> ic_rich_slot_mask codec' = ic_rich_slot_mask codec \<and> (\<forall>ms. r = Inr ms \<longrightarrow> codec_step codec ms codec'))"

lemma codec_step_none [simp]: "codec_step codec [] codec"
  by (simp add: codec_step_def)

lemma encodes_error: "codec_ok codec \<Longrightarrow> encodes codec (Some (Inl e, codec))"
  by (simp add: encodes_def)

lemma encodes_nothing: "codec_ok codec \<Longrightarrow> encodes codec (Some (Inr [], codec))"
  by (simp add: encodes_def)

lemma encodes_with_len:
  "codec_ok codec \<Longrightarrow> (n \<le> length bs \<Longrightarrow> encodes codec k) \<Longrightarrow> encodes codec (with_len bs n reason codec k)"
  by (auto simp: with_len_def require_len_def encodes_error)

lemma remote_step:
  assumes "length body \<le> 16" and "remote_input_message (remote_input_packet t body) timestamp = Some m"
  shows "codec_step codec [m] codec"
  using remote_message [OF assms] by (simp add: codec_step_def)

lemma encodes_remote:
  assumes "codec_ok codec" and "length body \<le> 16"
  shows "encodes codec (one_message codec (remote_input_message (remote_input_packet t body) timestamp))"
proof -
  obtain m where m: "remote_input_message (remote_input_packet t body) timestamp = Some m"
    unfolding remote_input_message_Some by blast
  with remote_step [OF assms(2) m] assms(1) show ?thesis by (simp add: encodes_def one_message_def)
qed

lemma byte_at_less: "i < length bs \<Longrightarrow> byte_at bs i = Some (bs ! i)"
  by (simp add: byte_at_def)

lemma read_u16_be_nth: "offset + 2 \<le> length bs \<Longrightarrow> read_u16_be bs offset = Some (from_be16 (bs ! offset) (bs ! Suc offset))"
proof -
  assume a: "offset + 2 \<le> length bs"
  then have "take 2 (drop offset bs) = [bs ! offset, bs ! Suc offset]"
    by (simp add: Cons_nth_drop_Suc [symmetric] numeral_2_eq_2)
  then show ?thesis by (simp add: read_u16_be_def)
qed

lemma text_strokes_step:
  "\<exists>r. text_strokes timestamp cs = Some r \<and> (\<forall>ms. r = Inr ms \<longrightarrow> codec_step codec ms codec \<and> length ms = 2 * length cs)"
proof (induction cs)
  case (Cons c cs)
  then obtain r where r: "text_strokes timestamp cs = Some r"
    "\<forall>ms. r = Inr ms \<longrightarrow> codec_step codec ms codec \<and> length ms = 2 * length cs" by blast
  show ?case
  proof (cases "text_keystroke c")
    case (Some k)
    obtain key modifiers where k: "k = (key, modifiers)" by (cases k)
    obtain down up where m: "key_stroke_message timestamp key modifiers INPUT_KEY_DOWN = Some down"
        "key_stroke_message timestamp key modifiers INPUT_KEY_UP = Some up"
      unfolding key_stroke_message_def remote_input_message_Some by blast
    then have "codec_step codec [down] codec" "codec_step codec [up] codec"
      unfolding key_stroke_message_def by (auto intro: remote_step [rotated])
    then have "codec_step codec (down # up # ms) codec" if "codec_step codec ms codec" for ms
      using that codec_step_trans [of codec "[down]" codec "up # ms" codec] codec_step_trans [of codec "[up]" codec ms codec] by simp
    with Some k m r show ?thesis by (cases r) auto
  qed simp
qed simp

lemma encodes_text:
  assumes "codec_ok codec"
  shows "encodes codec (text_messages event codec)"
  unfolding text_messages_def
proof (rule encodes_with_len [OF assms])
  show "encodes codec (case from_utf8 (drop 5 (ne_bytes event)) of
        None \<Rightarrow> Some (Inl UnsupportedText, codec)
      | Some characters \<Rightarrow> map_option (\<lambda>r. (r, codec)) (text_strokes (ne_timestamp_us event) characters))"
  proof (cases "from_utf8 (drop 5 (ne_bytes event))")
    case (Some cs)
    from text_strokes_step [of "ne_timestamp_us event" cs codec] obtain r where
      "text_strokes (ne_timestamp_us event) cs = Some r" "\<forall>ms. r = Inr ms \<longrightarrow> codec_step codec ms codec" by blast
    with Some assms show ?thesis by (auto simp: encodes_def)
  qed (simp add: encodes_error assms)
qed

lemma encode_event_step:
  assumes "codec_ok codec"
  shows "encodes codec (encode_event event codec)"
proof -
  note ok = assms
  have "encodes codec (encode_key t event codec)" for t
    unfolding encode_key_def
    by (rule encodes_with_len [OF ok]) (auto simp: read_u16_be_nth intro: encodes_remote [OF ok])
  moreover have "encodes codec (encode_delta reason t event codec)" for reason t
    unfolding encode_delta_def
    by (rule encodes_with_len [OF ok]) (auto simp: byte_at_less intro: encodes_remote [OF ok])
  moreover have "encodes codec (encode_absolute t event codec)" for t
    unfolding encode_absolute_def
    by (rule encodes_with_len [OF ok]) (auto simp: byte_at_less intro: encodes_remote [OF ok])
  moreover have "encodes codec (encode_button t event codec)" for t
    unfolding encode_button_def
    by (rule encodes_with_len [OF ok]) (auto simp: byte_at_less intro: encodes_remote [OF ok])
  moreover have "encodes codec (encode_haptics event codec)"
    unfolding encode_haptics_def haptics_state_def
    by (rule encodes_with_len [OF ok]) (auto intro: encodes_remote [OF ok])
  moreover have "encodes codec (encode_lock_keys t event codec)" for t
    unfolding encode_lock_keys_def
    by (rule encodes_with_len [OF ok]) (auto simp: byte_at_less intro: encodes_remote [OF ok])
  moreover have "encodes codec (encode_gamepad event codec)"
    using gamepad_step [OF ok] by (simp add: encodes_def)
  ultimately show ?thesis
    unfolding encode_event_def using encodes_text [OF ok] encodes_error [OF ok] encodes_nothing [OF ok]
    by (simp split: option.split)
qed

lemma encode_events_step:
  assumes "codec_ok codec" and "codec_ok start" and "codec_step start sofar codec"
    and "ic_rich_slot_mask codec = ic_rich_slot_mask start"
  shows "encodes start (encode_events sofar events codec)"
  using assms
proof (induction events arbitrary: sofar codec)
  case Nil
  then show ?case by (simp add: encodes_def)
next
  case (Cons event events)
  from encode_event_step [OF Cons.prems(1), of event] obtain r codec' where
    e: "encode_event event codec = Some (r, codec')" "codec_ok codec'" "ic_rich_slot_mask codec' = ic_rich_slot_mask codec"
      "\<forall>ms. r = Inr ms \<longrightarrow> codec_step codec ms codec'" by (auto simp: encodes_def)
  show ?case
  proof (cases r)
    case (Inl error)
    with e Cons.prems show ?thesis by (simp add: encodes_def)
  next
    case (Inr ms)
    with e Cons.prems codec_step_trans [of start sofar codec ms codec']
    have "codec_step start (sofar @ ms) codec'" by simp
    from Cons.IH [OF e(2) Cons.prems(2) this] e Inr Cons.prems(4) show ?thesis by simp
  qed
qed

lemma encode_step:
  assumes "codec_ok codec"
  shows "encodes codec (encode packet timestamp codec)"
  using encode_events_step [OF assms assms codec_step_none refl] encodes_error [OF assms]
  by (simp add: encode_def split: sum.split)

lemma codec_ok_default: "codec_ok NvstInputCodec_default"
  by (simp add: codec_ok_def NvstInputCodec_default_def unwrap_or_def)

lemma rich_slot_mask_step:
  assumes "codec_ok codec" and "set_rich_slot_mask new_mask timestamp codec = (ms, codec')"
  shows "(\<forall>m\<in>set ms. message_ok m) \<and> codec_ok codec' \<and> ic_rich_slot_mask codec' = new_mask
    \<and> (\<forall>s. pads_agree codec s \<longrightarrow> pads_agree codec' (fold pad_receive ms s))"
proof -
  define codec1 where "codec1 = codec\<lparr> ic_rich_slot_mask := new_mask \<rparr>"
  have agree: "pads_agree codec1 s = pads_agree codec s" for s by (simp add: codec1_def pads_agree_def)
  have eq: "(ms, codec') = (if ic_rich_slot_mask codec = new_mask then ([], codec) else
      (case ic_gamepad_bitmap codec of None \<Rightarrow> ([], codec1) | Some previous \<Rightarrow>
        if previous AND NOT new_mask \<noteq> previous
        then emit_topology_transition previous (previous AND NOT new_mask) timestamp codec1 else ([], codec1)))"
    unfolding assms(2) [symmetric] set_rich_slot_mask_def Let_def codec1_def by simp
  consider "ic_rich_slot_mask codec = new_mask" | "ic_rich_slot_mask codec \<noteq> new_mask" "ic_gamepad_bitmap codec = None"
    | previous where "ic_rich_slot_mask codec \<noteq> new_mask" "ic_gamepad_bitmap codec = Some previous" "previous AND NOT new_mask = previous"
    | previous where "ic_rich_slot_mask codec \<noteq> new_mask" "ic_gamepad_bitmap codec = Some previous" "previous AND NOT new_mask \<noteq> previous"
    by (cases "ic_gamepad_bitmap codec") auto
  then show ?thesis
  proof cases
    case 1
    with eq assms(1) show ?thesis by simp
  next
    case 2
    with eq have "ms = []" "codec' = codec1" by simp_all
    with 2 assms(1) agree show ?thesis by (simp add: codec_ok_def codec1_def unwrap_or_def)
  next
    case 3
    with eq have r: "ms = []" "codec' = codec1" by simp_all
    have "previous AND new_mask = 0" using masked_disjoint [of previous new_mask] unfolding 3(3) .
    with r 3(2) assms(1) agree show ?thesis by (simp add: codec_ok_def codec1_def unwrap_or_def)
  next
    case 4
    with eq have emit: "emit_topology_transition previous (previous AND NOT new_mask) timestamp codec1 = (ms, codec')" by simp
    let ?unmasked = "codec1\<lparr> ic_rich_slot_mask := 0 \<rparr>"
    have ok: "codec_ok ?unmasked" using assms(1) by (simp add: codec_ok_def codec1_def)
    have "emit_topology_transition previous (previous AND NOT new_mask) timestamp ?unmasked
        = (ms, codec'\<lparr> ic_rich_slot_mask := 0 \<rparr>)"
      using emit by (auto simp: emit_topology_transition_def Let_def release_message_def neutral_report_def)
    then have "(\<forall>m\<in>set ms. message_ok m) \<and> codec_ok (codec'\<lparr> ic_rich_slot_mask := 0 \<rparr>)
      \<and> ic_gamepad_bitmap codec' = Some (previous AND NOT new_mask)
      \<and> (\<forall>s. pads_agree ?unmasked s \<longrightarrow> pads_agree (codec'\<lparr> ic_rich_slot_mask := 0 \<rparr>) (fold pad_receive ms s))"
      using topology_step [of ?unmasked "previous AND NOT new_mask" timestamp ms "codec'\<lparr> ic_rich_slot_mask := 0 \<rparr>"] ok 4(2) by (simp add: codec1_def unwrap_or_def)
    moreover have "ic_rich_slot_mask codec' = new_mask"
      using emit by (auto simp: emit_topology_transition_def Let_def codec1_def)
    ultimately show ?thesis
      using masked_disjoint [of previous new_mask] by (auto simp: codec_ok_def pads_agree_def codec1_def unwrap_or_def)
  qed
qed

section \<open>Properties\<close>

text \<open>C31: whatever bytes it is given, the codec never panics and keeps its invariant, and every message it produces is
  exactly one control command of at most 58 bytes that fits its length field; the partially reliable control
  channel carries mouse motion and nothing else, and mouse motion nowhere else.\<close>

theorem input_messages_wellformed:
  assumes "codec_ok codec"
  shows "\<exists>r codec'. encode packet timestamp codec = Some (r, codec') \<and> codec_ok codec'
    \<and> (\<forall>ms m. r = Inr ms \<longrightarrow> m \<in> set ms \<longrightarrow>
         (\<exists>command. decode_command (ei_bytes m) = Some (command, []) \<and> length (ei_bytes m) \<le> 58
            \<and> (ei_route m = InputPartial \<longrightarrow> cc_code command = COMMAND_GAMEPAD)
            \<and> (ei_route m = ControlPartial \<longleftrightarrow> cc_code command = COMMAND_REMOTE_INPUT
                 \<and> (\<exists>t. read_u32_le (cc_payload command) 12 = Some t \<and> native_input_type_is_motion t))))"
proof -
  from encode_step [OF assms, of packet timestamp] obtain r codec' where
    e: "encode packet timestamp codec = Some (r, codec')" "codec_ok codec'" "\<forall>ms. r = Inr ms \<longrightarrow> (\<forall>m\<in>set ms. message_ok m)"
    by (auto simp: encodes_def codec_step_def)
  have "\<exists>command. decode_command (ei_bytes m) = Some (command, []) \<and> length (ei_bytes m) \<le> 58
            \<and> (ei_route m = InputPartial \<longrightarrow> cc_code command = COMMAND_GAMEPAD)
            \<and> (ei_route m = ControlPartial \<longleftrightarrow> cc_code command = COMMAND_REMOTE_INPUT
                 \<and> (\<exists>t. read_u32_le (cc_payload command) 12 = Some t \<and> native_input_type_is_motion t))"
    if "message_ok m" for m
  proof -
    from that obtain code payload where c: "ei_bytes m = control_command code payload" "length payload \<le> 54"
      "code = COMMAND_GAMEPAD \<and> ei_route m \<noteq> ControlPartial
        \<or> code = COMMAND_REMOTE_INPUT \<and> ei_route m \<noteq> InputPartial
          \<and> (ei_route m = ControlPartial \<longleftrightarrow> (\<exists>t. read_u32_le payload 12 = Some t \<and> native_input_type_is_motion t))"
      by (auto simp: message_ok_def)
    have "decode_command (ei_bytes m) = Some (\<lparr> cc_code = code, cc_payload = payload \<rparr>, [])"
      using decode_control_command [of payload code "[]"] c(1,2) by simp
    with c show ?thesis by (auto simp: command_codes)
  qed
  with e show ?thesis by blast
qed

theorem input_messages_wellformed_witness:
  "\<exists>r codec'. encode [7, 0, 0, 0, 0, 5, 0, 6, 0, 0, 0, 0, 0, 0, 0, 0, 0, 0, 0, 0, 0, 9] 1 NvstInputCodec_default = Some (r, codec')
     \<and> codec_ok codec'"
  using input_messages_wellformed [OF codec_ok_default,
      of "[7, 0, 0, 0, 0, 5, 0, 6, 0, 0, 0, 0, 0, 0, 0, 0, 0, 0, 0, 0, 0, 9]" 1] by blast

text \<open>
  The time stamp inside a report of a gamepad is little endian: so the packets are built and so \<open>encode_gamepad\<close>
  reads it. The release of a slot writes it big endian.
\<close>

lemma release_timestamp_big_endian:
  "read_u64_le (neutral_report NvstInputCodec_default 1 1 0) 30 = Some 0x0100000000000000"
  by code_simp

end
