(* ===== verification/InputCapture.thy ===== *)
theory InputCapture
  imports Utf8
begin

text \<open>
  Capturing input on the client: the single-flight text slot (\<open>text_input.rs\<close> of the protocol crate), the bounded
  queue of captured input (\<open>CapturedInputQueue\<close> of the platform crate's \<open>media.rs\<close>) and the focus gate in front of
  it (\<open>EmbeddedInputCapture\<close> of \<open>embedded_input.rs\<close>). The operations run under the locks of the source, so each
  is one step. The wake callback and the raw input threads are left out; signed 16 bit deltas are words of
  that width.
\<close>

section \<open>Captured input\<close>

datatype StreamShortcutAction =
    ToggleStats | TogglePointerLock | ToggleFullscreen | StopStream | ToggleAntiAfk
  | ShortcutScreenshot | ToggleRecording | SaveClip

datatype CapturedInput =
    Text bytes
  | Key u16 u16 bool
  | MouseMove u16 u16
  | MouseAbsolute u16 u16 u16 u16
  | MouseButton u8 bool
  | MouseWheel u16 u16
  | Gamepad u8 u16 u16 u8 u8 u16 u16 u16 u16
  | Guide
  | Screenshot
  | RecordingToggle
  | Shortcut StreamShortcutAction

record CapturedInputSample =
  cs_input :: CapturedInput
  cs_captured_at :: instant

definition is_text :: "CapturedInput \<Rightarrow> bool" where
  "is_text input = (case input of Text _ \<Rightarrow> True | _ \<Rightarrow> False)"

definition is_absolute :: "CapturedInput \<Rightarrow> bool" where
  "is_absolute input = (case input of MouseAbsolute _ _ _ _ \<Rightarrow> True | _ \<Rightarrow> False)"

definition is_motion :: "CapturedInput \<Rightarrow> bool" where
  "is_motion input = (case input of MouseMove _ _ \<Rightarrow> True | MouseAbsolute _ _ _ _ \<Rightarrow> True | _ \<Rightarrow> False)"

definition gamepad_of :: "CapturedInput \<Rightarrow> nat option" where
  "gamepad_of input = (case input of Gamepad controller_id _ _ _ _ _ _ _ _ \<Rightarrow> Some (unat controller_id) | _ \<Rightarrow> None)"

section \<open>Text slot\<close>

definition MAX_TEXT_BYTES :: nat where "MAX_TEXT_BYTES = 65536"

datatype TextInputError = Invalid | TooLarge | Busy | Unavailable

text \<open>
  The slot holds a weak pointer to the payload. While a strong handle lives no other payload can be made, so
  every live handle (\<open>UnicodeText\<close>) is one of the payload of the slot, counted here.
\<close>

record text_payload =
  tp_text :: bytes
  tp_cancelled :: bool
  tp_handles :: nat

type_synonym TextInputSlot = "text_payload option"

definition slot_live :: "TextInputSlot \<Rightarrow> bool" where
  "slot_live slot = (case slot of None \<Rightarrow> False | Some payload \<Rightarrow> 0 < tp_handles payload)"

definition slot_submit :: "bytes \<Rightarrow> TextInputSlot \<Rightarrow> (TextInputError + bytes) \<times> TextInputSlot" where
  "slot_submit bs slot =
     (if MAX_TEXT_BYTES < length bs then (Inl TooLarge, slot)
      else if bs = [] \<or> 0 \<in> set bs then (Inl Invalid, slot)
      else if from_utf8 bs = None then (Inl Invalid, slot)
      else if slot_live slot then (Inl Busy, slot)
      else (Inr bs, Some \<lparr> tp_text = bs, tp_cancelled = False, tp_handles = 1 \<rparr>))"

definition slot_cancel :: "TextInputSlot \<Rightarrow> TextInputSlot" where
  "slot_cancel slot =
     (if slot_live slot then map_option (\<lambda>payload. payload\<lparr> tp_cancelled := True \<rparr>) slot else slot)"

text \<open>Dropping handles, and \<open>UnicodeText::is_cancelled\<close> on one.\<close>

definition slot_drop :: "nat \<Rightarrow> TextInputSlot \<Rightarrow> TextInputSlot" where
  "slot_drop n slot = map_option (\<lambda>payload. payload\<lparr> tp_handles := tp_handles payload - n \<rparr>) slot"

definition is_cancelled :: "TextInputSlot \<Rightarrow> bool" where
  "is_cancelled slot = (case slot of None \<Rightarrow> False | Some payload \<Rightarrow> tp_cancelled payload)"

section \<open>Queue\<close>

definition CAPTURED_INPUT_CAPACITY :: nat where "CAPTURED_INPUT_CAPACITY = 256"

record CapturedInputQueue =
  cq_pending :: "CapturedInputSample list"
  cq_overflowed :: bool
  cq_text_ready :: bool
  cq_text_generation :: u64
  cq_text_slot :: TextInputSlot

definition CapturedInputQueue_default :: CapturedInputQueue where
  "CapturedInputQueue_default = \<lparr> cq_pending = [], cq_overflowed = False, cq_text_ready = False, cq_text_generation = 0,
     cq_text_slot = None \<rparr>"

text \<open>\<open>pending.retain(|sample| !matches!(sample.input, Text(_)))\<close>, which drops the handles it removes.\<close>

definition retain_no_text :: "CapturedInputQueue \<Rightarrow> CapturedInputQueue" where
  "retain_no_text q = q\<lparr> cq_pending := filter (\<lambda>s. \<not> is_text (cs_input s)) (cq_pending q),
     cq_text_slot := slot_drop (length (filter (\<lambda>s. is_text (cs_input s)) (cq_pending q))) (cq_text_slot q) \<rparr>"

definition set_text_ready :: "u64 \<Rightarrow> bool \<Rightarrow> CapturedInputQueue \<Rightarrow> CapturedInputQueue" where
  "set_text_ready generation ready q =
     (let previous = cq_text_generation q
      in if u64_max div 2 < unat (generation - previous) then q
         else let q = q\<lparr> cq_text_generation := generation, cq_text_ready := ready \<rparr>
              in if \<not> ready \<or> generation \<noteq> previous
                 then retain_no_text (q\<lparr> cq_text_slot := slot_cancel (cq_text_slot q) \<rparr>)
                 else q)"

definition submit_text :: "bytes \<Rightarrow> instant \<Rightarrow> CapturedInputQueue \<Rightarrow> (TextInputError + unit) \<times> CapturedInputQueue" where
  "submit_text bs now q =
     (if \<not> cq_text_ready q then (Inl Unavailable, q)
      else if CAPTURED_INPUT_CAPACITY \<le> length (cq_pending q) then (Inl Busy, q)
      else (case slot_submit bs (cq_text_slot q) of
              (Inl e, slot) \<Rightarrow> (Inl e, q\<lparr> cq_text_slot := slot \<rparr>)
            | (Inr text, slot) \<Rightarrow>
                (Inr (), q\<lparr> cq_text_slot := slot,
                   cq_pending := cq_pending q @ [\<lparr> cs_input = Text text, cs_captured_at = now \<rparr>] \<rparr>)))"

definition discard_text :: "CapturedInputQueue \<Rightarrow> CapturedInputQueue" where
  "discard_text q = retain_no_text (q\<lparr> cq_text_slot := slot_cancel (cq_text_slot q) \<rparr>)"

definition queue_push_sample :: "CapturedInputSample \<Rightarrow> CapturedInputQueue \<Rightarrow> CapturedInputQueue" where
  "queue_push_sample sample q =
     (let pending = cq_pending q;
          pending = (if is_absolute (cs_input sample) \<and> pending \<noteq> [] \<and> is_absolute (cs_input (last pending))
                     then butlast pending else pending)
      in if CAPTURED_INPUT_CAPACITY \<le> length pending then
           (case find_position (\<lambda>event. is_motion (cs_input event)) pending of
              Some i \<Rightarrow> q\<lparr> cq_pending := remove_at i pending @ [sample] \<rparr>
            | None \<Rightarrow> q\<lparr> cq_pending := pending, cq_overflowed := True \<rparr>)
         else q\<lparr> cq_pending := pending @ [sample] \<rparr>)"

text \<open>The assertions of the source are checks of the model: \<open>None\<close> is a failed one.\<close>

definition release_gamepad :: "u8 \<Rightarrow> u16 \<Rightarrow> instant \<Rightarrow> CapturedInputQueue \<Rightarrow> CapturedInputQueue option" where
  "release_gamepad controller_id bitmap now q =
     (if 4 \<le> controller_id then None
      else let pending = filter (\<lambda>s. gamepad_of (cs_input s) \<noteq> Some (unat controller_id)) (cq_pending q)
                 @ [\<lparr> cs_input = Gamepad controller_id bitmap 0 0 0 0 0 0 0, cs_captured_at = now \<rparr>]
           in if length pending \<le> CAPTURED_INPUT_CAPACITY + 4 then Some (q\<lparr> cq_pending := pending \<rparr>) else None)"

definition take_sample :: "CapturedInputQueue \<Rightarrow> CapturedInputSample option \<times> CapturedInputQueue" where
  "take_sample q = (case cq_pending q of
     [] \<Rightarrow> (None, q)
   | s # pending \<Rightarrow> (Some s, q\<lparr> cq_pending := pending \<rparr>))"

definition take_overflowed :: "CapturedInputQueue \<Rightarrow> bool \<times> CapturedInputQueue" where
  "take_overflowed q = (cq_overflowed q, q\<lparr> cq_overflowed := False \<rparr>)"

definition queue_clear :: "CapturedInputQueue \<Rightarrow> CapturedInputQueue" where
  "queue_clear q = q\<lparr> cq_pending := [], cq_overflowed := False,
     cq_text_slot := slot_drop (length (filter (\<lambda>s. is_text (cs_input s)) (cq_pending q))) (cq_text_slot q) \<rparr>"

section \<open>Focus gate\<close>

record EmbeddedInputCapture =
  ec_queue :: CapturedInputQueue
  ec_active :: bool
  ec_gamepads :: "u16 option list"

definition EmbeddedInputCapture_new :: "CapturedInputQueue \<Rightarrow> EmbeddedInputCapture" where
  "EmbeddedInputCapture_new q = \<lparr> ec_queue = q, ec_active = False, ec_gamepads = replicate 4 None \<rparr>"

definition is_neutral :: "CapturedInput \<Rightarrow> bool" where
  "is_neutral input = (case input of
     Gamepad _ _ buttons lt rt lx ly rx ry \<Rightarrow> buttons = 0 \<and> lt = 0 \<and> rt = 0 \<and> lx = 0 \<and> ly = 0 \<and> rx = 0 \<and> ry = 0
   | _ \<Rightarrow> False)"

definition submit_pushed :: "CapturedInput \<Rightarrow> instant \<Rightarrow> EmbeddedInputCapture \<Rightarrow> EmbeddedInputCapture" where
  "submit_pushed input now e =
     (if ec_active e then e\<lparr> ec_queue := queue_push_sample \<lparr> cs_input = input, cs_captured_at = now \<rparr> (ec_queue e) \<rparr> else e)"

definition submit :: "CapturedInput \<Rightarrow> instant \<Rightarrow> EmbeddedInputCapture \<Rightarrow> EmbeddedInputCapture option" where
  "submit input now e = (case input of
     Gamepad controller_id bitmap _ _ _ _ _ _ _ \<Rightarrow>
       if length (ec_gamepads e) \<le> unat controller_id then Some e
       else if \<not> ec_active e \<and> \<not> is_neutral input then Some e
       else let gamepads = map (map_option (\<lambda>_. bitmap)) (ec_gamepads e);
                e = e\<lparr> ec_gamepads := gamepads[unat controller_id := Some bitmap] \<rparr>
            in if is_neutral input \<and> \<not> ec_active e
               then map_option (\<lambda>q. e\<lparr> ec_queue := q \<rparr>) (release_gamepad controller_id bitmap now (ec_queue e))
               else Some (submit_pushed input now e)
   | _ \<Rightarrow> Some (submit_pushed input now e))"

definition capture_submit_text :: "bytes \<Rightarrow> instant \<Rightarrow> EmbeddedInputCapture \<Rightarrow> (TextInputError + unit) \<times> EmbeddedInputCapture" where
  "capture_submit_text bs now e =
     (if \<not> ec_active e then (Inl Unavailable, e)
      else (case submit_text bs now (ec_queue e) of (r, q) \<Rightarrow> (r, e\<lparr> ec_queue := q \<rparr>)))"

text \<open>The loop of \<open>set_active(false)\<close> over the slots.\<close>

fun release_slots :: "nat \<Rightarrow> u16 option list \<Rightarrow> instant \<Rightarrow> CapturedInputQueue \<Rightarrow> CapturedInputQueue option" where
  "release_slots i [] now q = Some q"
| "release_slots i (None # gamepads) now q = release_slots (Suc i) gamepads now q"
| "release_slots i (Some bitmap # gamepads) now q =
     (case release_gamepad (of_nat i) bitmap now q of
        None \<Rightarrow> None
      | Some q \<Rightarrow> release_slots (Suc i) gamepads now q)"

definition set_active :: "bool \<Rightarrow> instant \<Rightarrow> EmbeddedInputCapture \<Rightarrow> EmbeddedInputCapture option" where
  "set_active active now e =
     (if active then Some (e\<lparr> ec_active := True \<rparr>)
      else let q = discard_text (ec_queue e)
           in if ec_active e
              then map_option (\<lambda>q. e\<lparr> ec_queue := q, ec_gamepads := replicate (length (ec_gamepads e)) None, ec_active := False \<rparr>)
                     (release_slots 0 (ec_gamepads e) now q)
              else Some (e\<lparr> ec_queue := q, ec_active := False \<rparr>))"

section \<open>Runs\<close>

text \<open>
  What the user interface, the raw input threads and the session do, in any order; the second component of the
  state is what the session has taken so far. The raw input threads push no text and no gamepad.
\<close>

datatype capture_op =
    Submit CapturedInput instant
  | SubmitText bytes instant
  | SetActive bool instant
  | RawPush CapturedInput instant
  | TakeSample
  | TextReady u64 bool
  | DropTextHandle

definition op_ok :: "capture_op \<Rightarrow> bool" where
  "op_ok op = (case op of
     Submit input _ \<Rightarrow> \<not> is_text input
   | RawPush input _ \<Rightarrow> \<not> is_text input \<and> gamepad_of input = None
   | _ \<Rightarrow> True)"

definition on_queue :: "(CapturedInputQueue \<Rightarrow> CapturedInputQueue) \<Rightarrow> EmbeddedInputCapture \<Rightarrow> EmbeddedInputCapture" where
  "on_queue f e = e\<lparr> ec_queue := f (ec_queue e) \<rparr>"

fun capture_step :: "capture_op \<Rightarrow> EmbeddedInputCapture \<times> CapturedInput list \<Rightarrow> (EmbeddedInputCapture \<times> CapturedInput list) option" where
  "capture_step (Submit input now) (e, taken) = map_option (\<lambda>e. (e, taken)) (submit input now e)"
| "capture_step (SubmitText bs now) (e, taken) = Some (snd (capture_submit_text bs now e), taken)"
| "capture_step (SetActive active now) (e, taken) = map_option (\<lambda>e. (e, taken)) (set_active active now e)"
| "capture_step (RawPush input now) (e, taken) =
     Some (on_queue (queue_push_sample \<lparr> cs_input = input, cs_captured_at = now \<rparr>) e, taken)"
| "capture_step TakeSample (e, taken) =
     (case take_sample (ec_queue e) of
        (None, q) \<Rightarrow> Some (e\<lparr> ec_queue := q \<rparr>, taken)
      | (Some s, q) \<Rightarrow> Some (e\<lparr> ec_queue := q \<rparr>, taken @ [cs_input s]))"
| "capture_step (TextReady generation ready) (e, taken) = Some (on_queue (set_text_ready generation ready) e, taken)"
| "capture_step DropTextHandle (e, taken) =
     Some (on_queue (\<lambda>q. if length (filter (\<lambda>s. is_text (cs_input s)) (cq_pending q))
                            < (case cq_text_slot q of None \<Rightarrow> 0 | Some payload \<Rightarrow> tp_handles payload)
                         then q\<lparr> cq_text_slot := slot_drop 1 (cq_text_slot q) \<rparr> else q) e, taken)"

fun capture_run :: "capture_op list \<Rightarrow> EmbeddedInputCapture \<times> CapturedInput list \<Rightarrow> (EmbeddedInputCapture \<times> CapturedInput list) option" where
  "capture_run [] st = Some st"
| "capture_run (op # ops) st = (case capture_step op st of None \<Rightarrow> None | Some st \<Rightarrow> capture_run ops st)"

section \<open>Bounds\<close>

definition pads :: "CapturedInputSample list \<Rightarrow> nat set" where
  "pads ss = {i. i < 4 \<and> (\<exists>s\<in>set ss. gamepad_of (cs_input s) = Some i)}"

lemma finite_pads [simp]: "finite (pads ss)"
  by (rule finite_subset [of _ "{..<4}"]) (auto simp: pads_def)

lemma card_pads: "card (pads ss) \<le> 4"
proof -
  have "card (pads ss) \<le> card {..<4 :: nat}" by (rule card_mono) (auto simp: pads_def)
  then show ?thesis by simp
qed

lemma pads_append: "pads (xs @ ys) = pads xs \<union> pads ys"
  by (auto simp: pads_def)

lemma pads_filter:
  "(\<And>s. s \<in> set xs \<Longrightarrow> \<not> p s \<Longrightarrow> gamepad_of (cs_input s) = None) \<Longrightarrow> pads (filter p xs) = pads xs"
  by (fastforce simp: pads_def)

definition text_count :: "CapturedInputSample list \<Rightarrow> nat" where
  "text_count ss = length (filter (\<lambda>s. is_text (cs_input s)) ss)"

definition live_handles :: "TextInputSlot \<Rightarrow> nat" where
  "live_handles slot = (case slot of None \<Rightarrow> 0 | Some payload \<Rightarrow> tp_handles payload)"

definition within :: "CapturedInputSample list \<Rightarrow> bool" where
  "within ss \<longleftrightarrow> length ss \<le> CAPTURED_INPUT_CAPACITY + card (pads ss)"

definition queue_ok :: "CapturedInputQueue \<Rightarrow> bool" where
  "queue_ok q \<longleftrightarrow> within (cq_pending q) \<and> text_count (cq_pending q) \<le> 1
     \<and> text_count (cq_pending q) \<le> live_handles (cq_text_slot q)"

text \<open>What a step does to the pending inputs, for the claims below: the old ones without some motion, then the new.\<close>

lemma push_sample_cases:
  assumes "\<not> is_text (cs_input sample)"
  obtains (pushed) kept where "cq_pending (queue_push_sample sample q) = kept @ [sample]"
      "cq_overflowed (queue_push_sample sample q) = cq_overflowed q"
      "filter (\<lambda>s. \<not> is_motion (cs_input s)) kept = filter (\<lambda>s. \<not> is_motion (cs_input s)) (cq_pending q)"
      "length kept < max CAPTURED_INPUT_CAPACITY (length (cq_pending q))"
      "cq_text_slot (queue_push_sample sample q) = cq_text_slot q"
    | (refused) kept where "cq_pending (queue_push_sample sample q) = kept" "cq_overflowed (queue_push_sample sample q)"
      "filter (\<lambda>s. \<not> is_motion (cs_input s)) kept = filter (\<lambda>s. \<not> is_motion (cs_input s)) (cq_pending q)"
      "length kept \<le> length (cq_pending q)" "cq_text_slot (queue_push_sample sample q) = cq_text_slot q"
proof -
  let ?np = "\<lambda>s. \<not> is_motion (cs_input s)"
  define pending where "pending = (if is_absolute (cs_input sample) \<and> cq_pending q \<noteq> [] \<and> is_absolute (cs_input (last (cq_pending q)))
      then butlast (cq_pending q) else cq_pending q)"
  have motion: "is_absolute x \<Longrightarrow> is_motion x" for x by (cases x) (simp_all add: is_absolute_def is_motion_def)
  have le: "length pending \<le> length (cq_pending q)" by (simp add: pending_def)
  have same: "filter ?np pending = filter ?np (cq_pending q)"
  proof (cases "pending = cq_pending q")
    case False
    then have "cq_pending q = pending @ [last (cq_pending q)]" "is_absolute (cs_input (last (cq_pending q)))"
      by (auto simp: pending_def split: if_splits)
    then show ?thesis using motion by (metis append_Nil2 filter.simps filter_append)
  qed simp
  show thesis
  proof (cases "CAPTURED_INPUT_CAPACITY \<le> length pending")
    case True
    show ?thesis
    proof (cases "find_position (\<lambda>s. is_motion (cs_input s)) pending")
      case None
      with True have "queue_push_sample sample q = q\<lparr> cq_pending := pending, cq_overflowed := True \<rparr>"
        by (simp add: queue_push_sample_def Let_def pending_def [symmetric])
      with same le show ?thesis by (intro refused [of pending]) simp_all
    next
      case (Some i)
      then obtain ys x zs where split: "pending = ys @ x # zs" "is_motion (cs_input x)" "remove_at i pending = ys @ zs"
        by (elim find_position_split)
      from True Some have "queue_push_sample sample q = q\<lparr> cq_pending := remove_at i pending @ [sample] \<rparr>"
        by (simp add: queue_push_sample_def Let_def pending_def [symmetric])
      then show ?thesis using split same le by (intro pushed [of "ys @ zs"]) auto
    qed
  next
    case False
    then have "queue_push_sample sample q = q\<lparr> cq_pending := pending @ [sample] \<rparr>"
      by (simp add: queue_push_sample_def Let_def pending_def [symmetric])
    with same False show ?thesis by (intro pushed [of pending]) simp_all
  qed
qed

lemma motion_plain: "is_motion x \<Longrightarrow> gamepad_of x = None \<and> \<not> is_text x"
  by (cases x) (simp_all add: is_motion_def gamepad_of_def is_text_def)

lemma same_but_motion:
  assumes "filter (\<lambda>s. \<not> is_motion (cs_input s)) xs = filter (\<lambda>s. \<not> is_motion (cs_input s)) ys"
    and "\<And>x. is_motion x \<Longrightarrow> \<not> p x"
  shows "filter p (map cs_input xs) = filter p (map cs_input ys)"
proof -
  have "filter p (map cs_input zs) = filter p (map cs_input (filter (\<lambda>s. \<not> is_motion (cs_input s)) zs))" for zs
    using assms(2) by (induction zs) auto
  then show ?thesis using assms(1) by metis
qed

lemma pads_inputs: "pads ss = {i. i < 4 \<and> filter (\<lambda>x. gamepad_of x = Some i) (map cs_input ss) \<noteq> []}"
  by (auto simp: pads_def filter_empty_conv)

lemma text_count_inputs: "text_count ss = length (filter is_text (map cs_input ss))"
  by (induction ss) (simp_all add: text_count_def)

lemma kept_counts:
  assumes "filter (\<lambda>s. \<not> is_motion (cs_input s)) xs = filter (\<lambda>s. \<not> is_motion (cs_input s)) ys"
  shows "pads xs = pads ys" and "text_count xs = text_count ys"
  using same_but_motion [OF assms, of is_text] same_but_motion [OF assms, of "\<lambda>x. gamepad_of x = Some i" for i] motion_plain
  unfolding pads_inputs text_count_inputs by auto

lemma push_sample_ok:
  assumes "queue_ok q" and "\<not> is_text (cs_input sample)"
  shows "queue_ok (queue_push_sample sample q)"
  using assms(2)
proof (cases rule: push_sample_cases [of sample q])
  case (pushed kept)
  have "card (pads kept) \<le> card (pads (kept @ [sample]))" by (rule card_mono) (auto simp: pads_append)
  moreover have "text_count (kept @ [sample]) = text_count kept" using assms(2) by (simp add: text_count_def)
  ultimately show ?thesis using pushed kept_counts [OF pushed(3)] assms(1) by (auto simp: queue_ok_def within_def)
next
  case (refused kept)
  then show ?thesis using kept_counts [OF refused(3)] assms(1) by (auto simp: queue_ok_def within_def)
qed

lemma within_no_text:
  assumes "within ss"
  shows "within (filter (\<lambda>s. \<not> is_text (cs_input s)) ss)"
proof -
  have "gamepad_of (cs_input s) = None" if "\<not> \<not> is_text (cs_input s)" for s
    using that by (cases "cs_input s") (simp_all add: is_text_def gamepad_of_def)
  then have "pads (filter (\<lambda>s. \<not> is_text (cs_input s)) ss) = pads ss" by (intro pads_filter) blast
  then show ?thesis using assms order_trans [OF length_filter_le] by (auto simp: within_def)
qed

lemma retain_no_text_ok: "within (cq_pending q) \<Longrightarrow> queue_ok (retain_no_text q)"
  by (simp add: queue_ok_def retain_no_text_def within_no_text text_count_def filter_filter)

lemma text_ops_ok:
  "queue_ok q \<Longrightarrow> queue_ok (set_text_ready generation ready q)" "queue_ok q \<Longrightarrow> queue_ok (discard_text q)"
  by (auto simp: set_text_ready_def discard_text_def Let_def queue_ok_def [of q] intro!: retain_no_text_ok)
    (simp add: queue_ok_def)

lemma slot_submit_Inr:
  assumes "slot_submit bs slot = (Inr text, slot')"
  shows "\<not> slot_live slot" and "live_handles slot = 0" and "live_handles slot' = 1" and "text = bs" and "valid_utf8 bs"
    and "length bs \<le> MAX_TEXT_BYTES"
  using assms by (auto simp: slot_submit_def live_handles_def slot_live_def valid_utf8_def split: if_splits option.splits)

lemma submit_text_ok:
  assumes "queue_ok q" and "submit_text bs now q = (r, q')"
  shows "queue_ok q'"
proof (cases "slot_submit bs (cq_text_slot q)")
  case (Pair r1 slot)
  show ?thesis
  proof (cases r1)
    case (Inl e)
    then have "slot = cq_text_slot q" using Pair by (auto simp: slot_submit_def split: if_splits)
    then show ?thesis using assms Pair Inl by (auto simp: submit_text_def queue_ok_def split: if_splits)
  next
    case (Inr t)
    with Pair have "slot_submit bs (cq_text_slot q) = (Inr t, slot)" by simp
    note i = slot_submit_Inr [OF this]
    from assms(1) i(2) have none: "text_count (cq_pending q) = 0" by (simp add: queue_ok_def)
    show ?thesis
    proof (cases "cq_text_ready q \<and> length (cq_pending q) < CAPTURED_INPUT_CAPACITY")
      case True
      then have "q' = q\<lparr> cq_text_slot := slot, cq_pending := cq_pending q @ [\<lparr> cs_input = Text t, cs_captured_at = now \<rparr>] \<rparr>"
        using assms(2) Pair Inr by (auto simp: submit_text_def split: if_splits)
      moreover have "text_count (cq_pending q @ [\<lparr> cs_input = Text t, cs_captured_at = now \<rparr>]) = 1"
        using none by (simp add: text_count_def is_text_def)
      ultimately show ?thesis using True i(3) by (simp add: queue_ok_def within_def)
    qed (use assms in \<open>auto simp: submit_text_def split: if_splits\<close>)
  qed
qed

lemma release_gamepad_ok:
  assumes "queue_ok q" and "controller_id < 4"
  shows "\<exists>q'. release_gamepad controller_id bitmap now q = Some q' \<and> queue_ok q' \<and> cq_overflowed q' = cq_overflowed q
    \<and> cq_pending q' = filter (\<lambda>s. gamepad_of (cs_input s) \<noteq> Some (unat controller_id)) (cq_pending q)
         @ [\<lparr> cs_input = Gamepad controller_id bitmap 0 0 0 0 0 0 0, cs_captured_at = now \<rparr>]"
proof -
  let ?i = "unat controller_id"
  let ?rest = "filter (\<lambda>s. gamepad_of (cs_input s) \<noteq> Some ?i) (cq_pending q)"
  let ?new = "\<lparr> cs_input = Gamepad controller_id bitmap 0 0 0 0 0 0 0, cs_captured_at = now \<rparr>"
  have i: "?i < 4" using assms(2) by (simp add: word_less_nat_alt)
  have pads: "pads (?rest @ [?new]) = insert ?i (pads (cq_pending q))"
    using i by (auto simp: pads_def gamepad_of_def)
  have "length (?rest @ [?new]) \<le> CAPTURED_INPUT_CAPACITY + card (pads (?rest @ [?new]))"
  proof (cases "?i \<in> pads (cq_pending q)")
    case True
    then obtain s where "s \<in> set (cq_pending q)" "\<not> gamepad_of (cs_input s) \<noteq> Some ?i" by (auto simp: pads_def)
    then have "length ?rest < length (cq_pending q)" by (rule length_filter_less)
    with True pads assms(1) show ?thesis by (simp add: queue_ok_def within_def insert_absorb)
  next
    case False
    with pads assms(1) show ?thesis using order_trans [OF length_filter_le] by (auto simp: queue_ok_def within_def)
  qed
  then have w: "within (?rest @ [?new])" by (simp add: within_def)
  then have l: "length (?rest @ [?new]) \<le> CAPTURED_INPUT_CAPACITY + 4"
    using card_pads [of "?rest @ [?new]"] unfolding within_def by linarith
  have t: "text_count (?rest @ [?new]) = text_count (cq_pending q)"
  proof -
    have "is_text x \<Longrightarrow> gamepad_of x \<noteq> Some ?i" for x by (cases x) (simp_all add: is_text_def gamepad_of_def)
    then have "filter (\<lambda>s. is_text (cs_input s)) ?rest = filter (\<lambda>s. is_text (cs_input s)) (cq_pending q)"
      by (auto simp: filter_filter intro: filter_cong)
    then show ?thesis by (simp add: text_count_def is_text_def)
  qed
  have "\<not> 4 \<le> controller_id" using assms(2) by simp
  with l have "release_gamepad controller_id bitmap now q = Some (q\<lparr> cq_pending := ?rest @ [?new] \<rparr>)"
    by (simp add: release_gamepad_def Let_def)
  with w t assms(1) show ?thesis by (auto simp: queue_ok_def)
qed

lemma take_sample_ok:
  assumes "queue_ok q" and "take_sample q = (s, q')"
  shows "queue_ok q'"
proof (cases "cq_pending q")
  case (Cons x rest)
  then have q': "q' = q\<lparr> cq_pending := rest \<rparr>" using assms(2) by (simp add: take_sample_def)
  have "pads (x # rest) \<subseteq> insert (the (gamepad_of (cs_input x))) (pads rest)" by (auto simp: pads_def)
  then have "card (pads (x # rest)) \<le> card (insert (the (gamepad_of (cs_input x))) (pads rest))" by (intro card_mono) simp_all
  also have "\<dots> \<le> Suc (card (pads rest))" by (simp add: card_insert_if)
  finally have "within rest" using assms(1) Cons by (simp add: queue_ok_def within_def)
  moreover have "text_count rest \<le> text_count (x # rest)" by (simp add: text_count_def)
  ultimately show ?thesis using assms(1) Cons q' by (auto simp: queue_ok_def)
qed (use assms in \<open>simp add: take_sample_def\<close>)

section \<open>Losing the focus\<close>

text \<open>The last report of a gamepad among some inputs leaves it at rest.\<close>

definition settled :: "nat \<Rightarrow> CapturedInput list \<Rightarrow> bool" where
  "settled i xs \<longleftrightarrow> (let ys = filter (\<lambda>x. gamepad_of x = Some i) xs in ys = [] \<or> is_neutral (last ys))"

definition focus_ok :: "EmbeddedInputCapture \<Rightarrow> CapturedInput list \<Rightarrow> bool" where
  "focus_ok e taken \<longleftrightarrow> queue_ok (ec_queue e) \<and> length (ec_gamepads e) = 4
     \<and> (\<forall>i<4. \<not> ec_active e \<or> ec_gamepads e ! i = None \<longrightarrow> settled i (taken @ map cs_input (cq_pending (ec_queue e))))"

lemma settled_cong:
  "filter (\<lambda>x. gamepad_of x = Some i) xs = filter (\<lambda>x. gamepad_of x = Some i) ys \<Longrightarrow> settled i (zs @ xs) = settled i (zs @ ys)"
  by (simp add: settled_def)

text \<open>Operations that leave the gamepads of the queue alone.\<close>

definition same_pads :: "CapturedInputQueue \<Rightarrow> CapturedInputQueue \<Rightarrow> bool" where
  "same_pads q q' \<longleftrightarrow> (\<forall>i. filter (\<lambda>x. gamepad_of x = Some i) (map cs_input (cq_pending q')) =
     filter (\<lambda>x. gamepad_of x = Some i) (map cs_input (cq_pending q)))"

lemma focus_ok_queue:
  assumes "focus_ok e taken" and "queue_ok q'" and "same_pads (ec_queue e) q'"
  shows "focus_ok (e\<lparr> ec_queue := q' \<rparr>) taken"
  using assms by (auto simp: focus_ok_def same_pads_def cong: settled_cong)

lemma same_pads_no_text: "same_pads q (retain_no_text q)"
proof -
  have "is_text x \<Longrightarrow> gamepad_of x \<noteq> Some i" for x i by (cases x) (simp_all add: is_text_def gamepad_of_def)
  then show ?thesis
    by (auto simp: same_pads_def retain_no_text_def filter_map comp_def filter_filter intro!: arg_cong [of _ _ "map cs_input"] filter_cong)
qed

lemma same_pads_text: "same_pads q (set_text_ready generation ready q)" "same_pads q (discard_text q)"
  using same_pads_no_text [of "q\<lparr> cq_text_slot := slot_cancel (cq_text_slot q) \<rparr>"]
    same_pads_no_text [of "q\<lparr> cq_text_generation := generation, cq_text_ready := ready, cq_text_slot := slot_cancel (cq_text_slot q) \<rparr>"]
  by (auto simp: same_pads_def set_text_ready_def discard_text_def Let_def)

lemma same_pads_submit_text: "submit_text bs now q = (r, q') \<Longrightarrow> same_pads q q'"
  by (auto simp: submit_text_def same_pads_def gamepad_of_def split: if_splits prod.splits sum.splits)

lemma push_pads:
  assumes "\<not> is_text (cs_input sample)" and "gamepad_of (cs_input sample) \<noteq> Some i"
  shows "filter (\<lambda>x. gamepad_of x = Some i) (map cs_input (cq_pending (queue_push_sample sample q))) =
    filter (\<lambda>x. gamepad_of x = Some i) (map cs_input (cq_pending q))"
  using assms(1)
proof (cases rule: push_sample_cases [of sample q])
  case (pushed kept)
  then show ?thesis using same_but_motion [OF pushed(3), of "\<lambda>x. gamepad_of x = Some i"] motion_plain assms(2) by auto
next
  case (refused kept)
  then show ?thesis using same_but_motion [OF refused(3), of "\<lambda>x. gamepad_of x = Some i"] motion_plain by auto
qed

lemma released_settled:
  assumes "cq_pending q' = filter (\<lambda>s. gamepad_of (cs_input s) \<noteq> Some (unat c)) (cq_pending q)
         @ [\<lparr> cs_input = Gamepad c bitmap 0 0 0 0 0 0 0, cs_captured_at = now \<rparr>]"
  shows "settled i (taken @ map cs_input (cq_pending q')) \<longleftrightarrow> i = unat c \<or> settled i (taken @ map cs_input (cq_pending q))"
proof (cases "i = unat c")
  case True
  then show ?thesis by (simp add: assms settled_def gamepad_of_def is_neutral_def)
next
  case False
  then have "filter (\<lambda>x. gamepad_of x = Some i) (map cs_input (cq_pending q')) =
      filter (\<lambda>x. gamepad_of x = Some i) (map cs_input (cq_pending q))"
    by (auto simp: assms gamepad_of_def filter_map comp_def filter_filter intro!: arg_cong [of _ _ "map cs_input"] filter_cong)
  with False show ?thesis by (simp cong: settled_cong)
qed

lemma release_slots_ok:
  assumes "queue_ok q" and "i + length gs \<le> 4"
  shows "\<exists>q'. release_slots i gs now q = Some q' \<and> queue_ok q' \<and> cq_overflowed q' = cq_overflowed q
    \<and> (\<forall>p. (\<forall>x. p x \<longrightarrow> gamepad_of x = None) \<longrightarrow> filter p (map cs_input (cq_pending q')) = filter p (map cs_input (cq_pending q)))
    \<and> (\<forall>k. settled k (taken @ map cs_input (cq_pending q')) \<longleftrightarrow>
         i \<le> k \<and> k < i + length gs \<and> gs ! (k - i) \<noteq> None \<or> settled k (taken @ map cs_input (cq_pending q)))"
  using assms
proof (induction i gs now q rule: release_slots.induct)
  case (2 i gs now q)
  then obtain q' where q': "release_slots (Suc i) gs now q = Some q'" "queue_ok q'" "cq_overflowed q' = cq_overflowed q"
      "\<forall>p. (\<forall>x. p x \<longrightarrow> gamepad_of x = None) \<longrightarrow> filter p (map cs_input (cq_pending q')) = filter p (map cs_input (cq_pending q))"
      "\<forall>k. settled k (taken @ map cs_input (cq_pending q')) \<longleftrightarrow>
         Suc i \<le> k \<and> k < Suc i + length gs \<and> gs ! (k - Suc i) \<noteq> None \<or> settled k (taken @ map cs_input (cq_pending q))"
    by fastforce
  then show ?case by (auto simp: nth_Cons' le_Suc_eq Suc_le_eq)
next
  case (3 i bitmap gs now q)
  let ?c = "of_nat i :: u8"
  have i: "i < 4" "unat ?c = i" using 3(3) by (simp_all add: unsigned_of_nat take_bit_nat_eq_self)
  then have "?c < 4" by (simp add: word_less_nat_alt)
  from release_gamepad_ok [OF 3(2) this, of bitmap now] obtain q1 where
    q1: "release_gamepad ?c bitmap now q = Some q1" "queue_ok q1" "cq_overflowed q1 = cq_overflowed q"
      "cq_pending q1 = filter (\<lambda>s. gamepad_of (cs_input s) \<noteq> Some (unat ?c)) (cq_pending q)
         @ [\<lparr> cs_input = Gamepad ?c bitmap 0 0 0 0 0 0 0, cs_captured_at = now \<rparr>]" by blast
  have keep: "filter p (map cs_input (cq_pending q1)) = filter p (map cs_input (cq_pending q))"
    if "\<forall>x. p x \<longrightarrow> gamepad_of x = None" for p
    using that by (auto simp: q1(4) filter_map comp_def filter_filter gamepad_of_def intro!: arg_cong [of _ _ "map cs_input"] filter_cong)
  from 3(1) [OF q1(1) q1(2)] 3(3) obtain q' where q': "release_slots (Suc i) gs now q1 = Some q'" "queue_ok q'"
      "cq_overflowed q' = cq_overflowed q1"
      "\<forall>p. (\<forall>x. p x \<longrightarrow> gamepad_of x = None) \<longrightarrow> filter p (map cs_input (cq_pending q')) = filter p (map cs_input (cq_pending q1))"
      "\<forall>k. settled k (taken @ map cs_input (cq_pending q')) \<longleftrightarrow>
         Suc i \<le> k \<and> k < Suc i + length gs \<and> gs ! (k - Suc i) \<noteq> None \<or> settled k (taken @ map cs_input (cq_pending q1))"
    by fastforce
  have "settled k (taken @ map cs_input (cq_pending q1)) \<longleftrightarrow> k = i \<or> settled k (taken @ map cs_input (cq_pending q))" for k
    using released_settled [OF q1(4)] i(2) by simp
  with q1 q' keep show ?case by (auto simp: nth_Cons' le_Suc_eq Suc_le_eq)
qed auto

text \<open>The inputs other than motion, gamepads and text that reach the queue while the gate is open.\<close>

definition discrete :: "CapturedInput \<Rightarrow> bool" where
  "discrete x \<longleftrightarrow> \<not> is_motion x \<and> gamepad_of x = None \<and> \<not> is_text x"

definition offered :: "capture_op \<Rightarrow> bool \<Rightarrow> CapturedInput list" where
  "offered op active = (case op of
     Submit input _ \<Rightarrow> if active then [input] else []
   | RawPush input _ \<Rightarrow> [input]
   | _ \<Rightarrow> [])"

definition active_after :: "capture_op \<Rightarrow> bool \<Rightarrow> bool" where
  "active_after op active = (case op of SetActive a _ \<Rightarrow> a | _ \<Rightarrow> active)"

fun offered_inputs :: "capture_op list \<Rightarrow> bool \<Rightarrow> CapturedInput list" where
  "offered_inputs [] active = []"
| "offered_inputs (op # ops) active = offered op active @ offered_inputs ops (active_after op active)"

definition delivered :: "EmbeddedInputCapture \<times> CapturedInput list \<Rightarrow> CapturedInput list" where
  "delivered st = snd st @ map cs_input (cq_pending (ec_queue (fst st)))"

text \<open>What one step keeps.\<close>

definition capture_post :: "capture_op \<Rightarrow> EmbeddedInputCapture \<times> CapturedInput list \<Rightarrow> EmbeddedInputCapture \<times> CapturedInput list \<Rightarrow> bool" where
  "capture_post op st st' \<longleftrightarrow> focus_ok (fst st') (snd st') \<and> ec_active (fst st') = active_after op (ec_active (fst st))
     \<and> (cq_overflowed (ec_queue (fst st)) \<longrightarrow> cq_overflowed (ec_queue (fst st')))
     \<and> (cq_overflowed (ec_queue (fst st'))
        \<or> filter discrete (delivered st') = filter discrete (delivered st) @ filter discrete (offered op (ec_active (fst st))))"

lemma push_discrete:
  assumes "\<not> is_text (cs_input sample)"
  shows "cq_overflowed (queue_push_sample sample q) \<or> filter discrete (map cs_input (cq_pending (queue_push_sample sample q))) =
      filter discrete (map cs_input (cq_pending q)) @ filter discrete [cs_input sample]"
    and "cq_overflowed q \<Longrightarrow> cq_overflowed (queue_push_sample sample q)"
proof -
  have d: "is_motion x \<Longrightarrow> \<not> discrete x" for x by (simp add: discrete_def)
  from assms have "(cq_overflowed (queue_push_sample sample q) \<or> filter discrete (map cs_input (cq_pending (queue_push_sample sample q))) =
      filter discrete (map cs_input (cq_pending q)) @ filter discrete [cs_input sample])
      \<and> (cq_overflowed q \<longrightarrow> cq_overflowed (queue_push_sample sample q))"
  proof (cases rule: push_sample_cases [of sample q])
    case (pushed kept)
    then show ?thesis using same_but_motion [OF pushed(3) d] by simp
  qed simp
  then show "cq_overflowed (queue_push_sample sample q) \<or> filter discrete (map cs_input (cq_pending (queue_push_sample sample q))) =
      filter discrete (map cs_input (cq_pending q)) @ filter discrete [cs_input sample]"
    "cq_overflowed q \<Longrightarrow> cq_overflowed (queue_push_sample sample q)" by blast+
qed

lemma submit_pushed_post:
  assumes "focus_ok e taken" and "\<not> is_text input" and "gamepad_of input = None" and "op = Submit input now"
  shows "capture_post op (e, taken) (submit_pushed input now e, taken)"
proof (cases "ec_active e")
  case True
  let ?s = "\<lparr> cs_input = input, cs_captured_at = now \<rparr>"
  have "queue_ok (queue_push_sample ?s (ec_queue e))" using assms by (intro push_sample_ok) (simp_all add: focus_ok_def)
  moreover have "same_pads (ec_queue e) (queue_push_sample ?s (ec_queue e))"
    using push_pads [of ?s _ "ec_queue e"] assms(2,3) by (simp add: same_pads_def)
  ultimately have "focus_ok (e\<lparr> ec_queue := queue_push_sample ?s (ec_queue e) \<rparr>) taken" by (rule focus_ok_queue [OF assms(1)])
  then show ?thesis
    using True assms(2,4) push_discrete [of ?s "ec_queue e"]
    by (auto simp: capture_post_def submit_pushed_def active_after_def offered_def delivered_def)
qed (use assms in \<open>simp add: capture_post_def submit_pushed_def active_after_def offered_def delivered_def\<close>)

lemma submit_gamepad_post:
  assumes "focus_ok e taken" and "input = Gamepad c bitmap buttons lt rt lx ly rx ry"
  shows "\<exists>e'. submit input now e = Some e' \<and> capture_post (Submit input now) (e, taken) (e', taken)"
proof -
  let ?i = "unat c"
  have four: "length (ec_gamepads e) = 4" and ok: "queue_ok (ec_queue e)" using assms(1) by (simp_all add: focus_ok_def)
  have pad: "gamepad_of input = Some ?i" "\<not> is_text input" "\<not> discrete input"
    by (simp_all add: assms(2) gamepad_of_def is_text_def discrete_def)
  let ?gs = "(map (map_option (\<lambda>_. bitmap)) (ec_gamepads e))[?i := Some bitmap]"
  have gs: "?gs ! k = None \<longleftrightarrow> k \<noteq> ?i \<and> ec_gamepads e ! k = None" if "k < 4" for k
    using that four by (cases "?i = k") auto
  have none: "capture_post (Submit input now) (e, taken) (e, taken)"
    using assms(1) pad(3) by (simp add: capture_post_def active_after_def offered_def)
  show ?thesis
  proof (cases "?i < 4 \<and> (ec_active e \<or> is_neutral input)")
    case False
    then have "submit input now e = Some e" using four by (auto simp: submit_def assms(2))
    with none show ?thesis by blast
  next
    case reaches: True
    show ?thesis
    proof (cases "ec_active e")
      case True
      let ?s = "\<lparr> cs_input = input, cs_captured_at = now \<rparr>"
      let ?e = "e\<lparr> ec_gamepads := ?gs, ec_queue := queue_push_sample ?s (ec_queue e) \<rparr>"
      have sub: "submit input now e = Some ?e"
        using reaches True four by (simp add: submit_def assms(2) Let_def submit_pushed_def)
      have "settled k (taken @ map cs_input (cq_pending (queue_push_sample ?s (ec_queue e)))) =
          settled k (taken @ map cs_input (cq_pending (ec_queue e)))" if "k \<noteq> ?i" for k
        using push_pads [of ?s k "ec_queue e"] that pad by (intro settled_cong) simp
      with push_sample_ok [OF ok, of ?s] assms(1) pad four gs True have "focus_ok ?e taken"
        by (auto simp: focus_ok_def)
      with sub True pad push_discrete [of ?s "ec_queue e"] show ?thesis
        by (auto simp: capture_post_def active_after_def offered_def delivered_def)
    next
      case False
      with reaches have c: "c < 4" by (simp add: word_less_nat_alt)
      from release_gamepad_ok [OF ok c, of bitmap now] obtain q' where
        q': "release_gamepad c bitmap now (ec_queue e) = Some q'" "queue_ok q'" "cq_overflowed q' = cq_overflowed (ec_queue e)"
          "cq_pending q' = filter (\<lambda>s. gamepad_of (cs_input s) \<noteq> Some ?i) (cq_pending (ec_queue e))
             @ [\<lparr> cs_input = Gamepad c bitmap 0 0 0 0 0 0 0, cs_captured_at = now \<rparr>]" by blast
      let ?e = "e\<lparr> ec_gamepads := ?gs, ec_queue := q' \<rparr>"
      have sub: "submit input now e = Some ?e"
        using reaches False four q'(1) by (simp add: submit_def assms(2) Let_def)
      have "focus_ok ?e taken" using assms(1) q'(2) released_settled [OF q'(4)] False four by (auto simp: focus_ok_def)
      moreover have "filter discrete (map cs_input (cq_pending q')) = filter discrete (map cs_input (cq_pending (ec_queue e)))"
        by (auto simp: q'(4) discrete_def filter_map comp_def filter_filter gamepad_of_def
            intro!: arg_cong [of _ _ "map cs_input"] filter_cong)
      ultimately show ?thesis using sub False q'(3)
        by (auto simp: capture_post_def active_after_def offered_def delivered_def)
    qed
  qed
qed

lemma queue_step_post:
  assumes "focus_ok e taken" and "queue_ok q'" and "same_pads (ec_queue e) q'" and "cq_overflowed q' = cq_overflowed (ec_queue e)"
    and "filter discrete (map cs_input (cq_pending q')) = filter discrete (map cs_input (cq_pending (ec_queue e)))"
    and "offered op (ec_active e) = []" and "active_after op (ec_active e) = ec_active e"
  shows "capture_post op (e, taken) (e\<lparr> ec_queue := q' \<rparr>, taken)"
  using assms focus_ok_queue [OF assms(1-3)] by (simp add: capture_post_def delivered_def)

lemma discrete_no_text:
  "filter discrete (map cs_input (cq_pending (retain_no_text q))) = filter discrete (map cs_input (cq_pending q))"
  by (auto simp: retain_no_text_def discrete_def filter_map comp_def filter_filter
      intro!: arg_cong [of _ _ "map cs_input"] filter_cong)

lemma set_active_post:
  assumes "focus_ok e taken"
  shows "\<exists>e'. set_active active now e = Some e' \<and> capture_post (SetActive active now) (e, taken) (e', taken)"
proof -
  have four: "length (ec_gamepads e) = 4" and ok: "queue_ok (ec_queue e)" using assms by (simp_all add: focus_ok_def)
  let ?q = "discard_text (ec_queue e)"
  have q: "queue_ok ?q" "same_pads (ec_queue e) ?q" "cq_overflowed ?q = cq_overflowed (ec_queue e)"
    "filter discrete (map cs_input (cq_pending ?q)) = filter discrete (map cs_input (cq_pending (ec_queue e)))"
    using text_ops_ok(2) [OF ok] same_pads_text(2) [of "ec_queue e"] discrete_no_text
    by (simp_all add: discard_text_def) (simp add: retain_no_text_def)
  have settled: "settled k (taken @ map cs_input (cq_pending ?q)) = settled k (taken @ map cs_input (cq_pending (ec_queue e)))" for k
    using q(2) by (intro settled_cong) (simp add: same_pads_def)
  show ?thesis
  proof (cases active)
    case True
    then show ?thesis using assms
      by (auto simp: set_active_def capture_post_def focus_ok_def active_after_def offered_def delivered_def)
  next
    case off: False
    show ?thesis
    proof (cases "ec_active e")
      case True
      from release_slots_ok [OF q(1), of 0 "ec_gamepads e" now taken] four obtain q' where
        q': "release_slots 0 (ec_gamepads e) now ?q = Some q'" "queue_ok q'" "cq_overflowed q' = cq_overflowed ?q"
          "\<forall>p. (\<forall>x. p x \<longrightarrow> gamepad_of x = None) \<longrightarrow> filter p (map cs_input (cq_pending q')) = filter p (map cs_input (cq_pending ?q))"
          "\<forall>k. settled k (taken @ map cs_input (cq_pending q')) \<longleftrightarrow>
             k < 4 \<and> ec_gamepads e ! k \<noteq> None \<or> settled k (taken @ map cs_input (cq_pending ?q))" by auto
      have "settled k (taken @ map cs_input (cq_pending q'))" if "k < 4" for k
        using q'(5) settled assms True that by (auto simp: focus_ok_def)
      moreover have "filter discrete (map cs_input (cq_pending q')) = filter discrete (map cs_input (cq_pending ?q))"
        using q'(4) by (simp add: discrete_def)
      ultimately show ?thesis using off True q q' four
        by (auto simp: set_active_def Let_def capture_post_def focus_ok_def active_after_def offered_def delivered_def)
    next
      case False
      then show ?thesis using off q assms settled
        by (auto simp: set_active_def Let_def capture_post_def focus_ok_def active_after_def offered_def delivered_def)
    qed
  qed
qed

lemma take_sample_post:
  assumes "focus_ok e taken" and "take_sample (ec_queue e) = (s, q')"
  shows "capture_post TakeSample (e, taken) (e\<lparr> ec_queue := q' \<rparr>, taken @ (case s of None \<Rightarrow> [] | Some s \<Rightarrow> [cs_input s]))"
proof -
  have "queue_ok q'" using take_sample_ok [OF _ assms(2)] assms(1) by (simp add: focus_ok_def)
  moreover have "(taken @ (case s of None \<Rightarrow> [] | Some s \<Rightarrow> [cs_input s])) @ map cs_input (cq_pending q') =
      taken @ map cs_input (cq_pending (ec_queue e))" "cq_overflowed q' = cq_overflowed (ec_queue e)"
    using assms(2) by (auto simp: take_sample_def split: list.splits)
  ultimately show ?thesis using assms(1)
    by (simp add: capture_post_def focus_ok_def active_after_def offered_def delivered_def del: append_assoc)
qed

lemma capture_step_post:
  assumes "focus_ok e taken" and "op_ok op"
  shows "\<exists>st'. capture_step op (e, taken) = Some st' \<and> capture_post op (e, taken) st'"
proof -
  have ok: "queue_ok (ec_queue e)" using assms(1) by (simp add: focus_ok_def)
  show ?thesis
  proof (cases op)
    case (Submit input now)
    show ?thesis
    proof (cases "gamepad_of input")
      case None
      then have "submit input now e = Some (submit_pushed input now e)"
        by (cases input) (simp_all add: submit_def gamepad_of_def)
      with Submit None assms submit_pushed_post [OF assms(1) _ None] show ?thesis by (simp add: op_ok_def)
    next
      case (Some i)
      then obtain c bitmap b lt rt lx ly rx ry where "input = Gamepad c bitmap b lt rt lx ly rx ry"
        by (cases input) (simp_all add: gamepad_of_def)
      from submit_gamepad_post [OF assms(1) this] Submit show ?thesis by auto
    qed
  next
    case (SubmitText bs now)
    obtain r q' where t: "submit_text bs now (ec_queue e) = (r, q')" by (metis surj_pair)
    have "cq_overflowed q' = cq_overflowed (ec_queue e)"
      "filter discrete (map cs_input (cq_pending q')) = filter discrete (map cs_input (cq_pending (ec_queue e)))"
      using t by (auto simp: submit_text_def discrete_def is_text_def split: if_splits prod.splits sum.splits)
    with submit_text_ok [OF ok t] same_pads_submit_text [OF t]
    have "capture_post op (e, taken) (e\<lparr> ec_queue := q' \<rparr>, taken)"
      by (intro queue_step_post [OF assms(1)]) (simp_all add: SubmitText offered_def active_after_def)
    moreover have "capture_post op (e, taken) (e, taken)"
      using assms(1) by (simp add: capture_post_def SubmitText offered_def active_after_def)
    ultimately show ?thesis using SubmitText t by (auto simp: capture_submit_text_def)
  next
    case (SetActive active now)
    with set_active_post [OF assms(1), of active now] show ?thesis by auto
  next
    case (RawPush input now)
    let ?s = "\<lparr> cs_input = input, cs_captured_at = now \<rparr>"
    have nt: "\<not> is_text (cs_input ?s)" "gamepad_of (cs_input ?s) = None" using assms(2) RawPush by (simp_all add: op_ok_def)
    have "same_pads (ec_queue e) (queue_push_sample ?s (ec_queue e))"
      using push_pads [OF nt(1), of _ "ec_queue e"] nt(2) by (simp add: same_pads_def)
    with focus_ok_queue [OF assms(1) push_sample_ok [OF ok nt(1)]] push_discrete [OF nt(1), of "ec_queue e"] RawPush
    show ?thesis by (auto simp: on_queue_def capture_post_def offered_def active_after_def delivered_def)
  next
    case TakeSample
    obtain s q' where t: "take_sample (ec_queue e) = (s, q')" by (metis surj_pair)
    with take_sample_post [OF assms(1) t] TakeSample show ?thesis by (cases s) auto
  next
    case (TextReady generation ready)
    let ?q = "set_text_ready generation ready (ec_queue e)"
    have "cq_overflowed ?q = cq_overflowed (ec_queue e)"
      "filter discrete (map cs_input (cq_pending ?q)) = filter discrete (map cs_input (cq_pending (ec_queue e)))"
      by (simp_all add: set_text_ready_def Let_def discrete_no_text) (simp add: retain_no_text_def)
    with text_ops_ok(1) [OF ok] same_pads_text(1) have "capture_post op (e, taken) (e\<lparr> ec_queue := ?q \<rparr>, taken)"
      by (intro queue_step_post [OF assms(1)]) (simp_all add: TextReady offered_def active_after_def)
    with TextReady show ?thesis by (simp add: on_queue_def)
  next
    case DropTextHandle
    let ?q = "ec_queue e"
    define q' where "q' = (if text_count (cq_pending ?q) < live_handles (cq_text_slot ?q)
        then ?q\<lparr> cq_text_slot := slot_drop 1 (cq_text_slot ?q) \<rparr> else ?q)"
    have "queue_ok q'" using ok
      by (cases "cq_text_slot ?q") (auto simp: q'_def queue_ok_def live_handles_def slot_drop_def)
    moreover have "same_pads ?q q'" "cq_overflowed q' = cq_overflowed ?q" "cq_pending q' = cq_pending ?q"
      by (simp_all add: q'_def same_pads_def)
    ultimately have "capture_post op (e, taken) (e\<lparr> ec_queue := q' \<rparr>, taken)"
      by (intro queue_step_post [OF assms(1)]) (simp_all add: DropTextHandle offered_def active_after_def)
    with DropTextHandle show ?thesis by (simp add: on_queue_def q'_def text_count_def live_handles_def)
  qed
qed

lemma capture_run_post:
  assumes "focus_ok (fst st) (snd st)" and "\<forall>op\<in>set ops. op_ok op"
  shows "\<exists>st'. capture_run ops st = Some st' \<and> focus_ok (fst st') (snd st')
    \<and> (cq_overflowed (ec_queue (fst st)) \<longrightarrow> cq_overflowed (ec_queue (fst st')))
    \<and> (cq_overflowed (ec_queue (fst st'))
       \<or> filter discrete (delivered st') = filter discrete (delivered st) @ filter discrete (offered_inputs ops (ec_active (fst st))))"
  using assms
proof (induction ops arbitrary: st)
  case (Cons op ops)
  from capture_step_post [of "fst st" "snd st" op] Cons.prems obtain st1 where
    s: "capture_step op st = Some st1" "capture_post op st st1" by auto
  from Cons.IH [of st1] s(2) Cons.prems(2) obtain st' where
    r: "capture_run ops st1 = Some st'" "focus_ok (fst st') (snd st')"
      "cq_overflowed (ec_queue (fst st1)) \<longrightarrow> cq_overflowed (ec_queue (fst st'))"
      "cq_overflowed (ec_queue (fst st'))
       \<or> filter discrete (delivered st') = filter discrete (delivered st1) @ filter discrete (offered_inputs ops (ec_active (fst st1)))"
    by (auto simp: capture_post_def)
  with s show ?case by (auto simp: capture_post_def)
qed simp

lemma focus_ok_new: "focus_ok (EmbeddedInputCapture_new CapturedInputQueue_default) []"
  by (simp add: focus_ok_def EmbeddedInputCapture_new_def CapturedInputQueue_default_def queue_ok_def within_def
      text_count_def settled_def)



end
