(* ===== verification/InputSession.thy ===== *)
theory InputSession
  imports InputCodec InputCapture NvstTypes
begin

text \<open>
  Input from the capture to the wire: the packet of a captured input (\<open>captured_input_packet\<close> of the core crate's
  \<open>lib.rs\<close>), its encoding and the delivery of the messages with the roll-back of the codec
  (\<open>send_nvst_captured_input\<close> of \<open>nvst.rs\<close>), and the hand-over of slots to a rich controller session (the topology
  part of \<open>pump_hid_pending\<close>).
\<close>

section \<open>Packets\<close>

text \<open>
  The floating point tuning of relative motion (\<open>tune_relative_mouse\<close>) is the argument \<open>tune\<close>; \<open>None\<close> is the
  \<open>unreachable!\<close> of text, which has a path of its own.
\<close>

definition captured_input_packet :: "(u16 \<Rightarrow> u16 \<Rightarrow> u16 \<times> u16) \<Rightarrow> CapturedInput \<Rightarrow> u64 \<Rightarrow> bytes option" where
  "captured_input_packet tune input timestamp_us = (case input of
     Text _ \<Rightarrow> None
   | Key virtual_key modifiers pressed \<Rightarrow>
       Some (le32 (if pressed then 3 else 4) @ be16 virtual_key @ be16 modifiers @ be16 0 @ be64 timestamp_us)
   | MouseMove delta_x delta_y \<Rightarrow>
       (case tune delta_x delta_y of (delta_x, delta_y) \<Rightarrow>
          Some (le32 7 @ be16 delta_x @ be16 delta_y @ replicate 6 0 @ be64 timestamp_us))
   | MouseAbsolute x y width height \<Rightarrow>
       Some (le32 5 @ be16 x @ be16 y @ be16 0 @ be16 width @ be16 height @ be32 0 @ be64 timestamp_us)
   | MouseButton button pressed \<Rightarrow>
       Some (le32 (if pressed then 8 else 9) @ [button, 0] @ replicate 4 0 @ be64 timestamp_us)
   | MouseWheel delta_x delta_y \<Rightarrow>
       Some (le32 10 @ be16 delta_x @ be16 delta_y @ replicate 6 0 @ be64 timestamp_us)
   | Gamepad controller_id bitmap buttons left_trigger right_trigger left_x left_y right_x right_y \<Rightarrow>
       Some (le32 12 @ le16 26 @ le16 (ucast (controller_id AND 3)) @ le16 bitmap @ le16 20 @ le16 buttons
         @ le16 (ucast left_trigger OR push_bit 8 (ucast right_trigger))
         @ le16 left_x @ le16 left_y @ le16 right_x @ le16 right_y @ le16 0 @ le16 85 @ le16 0 @ le64 timestamp_us)
   | Guide \<Rightarrow> Some []
   | Screenshot \<Rightarrow> Some []
   | RecordingToggle \<Rightarrow> Some []
   | Shortcut _ \<Rightarrow> Some [])"

section \<open>Delivery\<close>

text \<open>Sending the messages until one is refused; \<open>'s\<close> is the state of the transport.\<close>

fun send_all :: "(NvstEncodedInput \<Rightarrow> 's \<Rightarrow> bool \<times> 's) \<Rightarrow> NvstEncodedInput list \<Rightarrow> 's \<Rightarrow> bool \<times> 's" where
  "send_all send [] s = (True, s)"
| "send_all send (m # ms) s = (case send m s of (True, s) \<Rightarrow> send_all send ms s | (False, s) \<Rightarrow> (False, s))"

record 's input_session =
  is_codec :: NvstInputCodec
  is_input_ready :: bool
  is_events :: "NvstReceiveEvent list"
  is_replies :: "bool list"
  is_transport :: 's

definition all_motion :: "bytes \<Rightarrow> bool" where
  "all_motion bs = (case native_input_types bs of
     Inl _ \<Rightarrow> False
   | Inr types \<Rightarrow> types \<noteq> [] \<and> list_all native_input_type_is_motion types)"

definition send_nvst_captured_input ::
  "(NvstEncodedInput \<Rightarrow> 's \<Rightarrow> bool \<times> 's) \<Rightarrow> bytes \<Rightarrow> u64 \<Rightarrow> bool \<Rightarrow> 's input_session \<Rightarrow> (bool \<times> 's input_session) option" where
  "send_nvst_captured_input send bs timestamp_us reply session =
     (case encode bs timestamp_us (is_codec session) of
        None \<Rightarrow> None
      | Some (r, codec) \<Rightarrow>
          let (ok, transport) = (case r of Inl _ \<Rightarrow> (False, is_transport session) | Inr messages \<Rightarrow> send_all send messages (is_transport session));
              session = session\<lparr> is_codec := (if ok then codec else is_codec session), is_transport := transport \<rparr>
          in Some (if reply then (True, session\<lparr> is_replies := is_replies session @ [ok] \<rparr>)
                   else if ok \<or> all_motion bs then (True, session)
                   else (False, session\<lparr> is_input_ready := False,
                           is_events := is_events session @
                             [InputUnavailable ''discrete input delivery failed; stopping to prevent stuck input''] \<rparr>)))"

text \<open>The topology part of \<open>pump_hid_pending\<close>: the published mask changes only when every message was taken.\<close>

definition publish_rich_mask ::
  "(NvstEncodedInput \<Rightarrow> 's \<Rightarrow> bool \<times> 's) \<Rightarrow> u16 \<Rightarrow> u64 \<Rightarrow> u16 \<Rightarrow> 's input_session \<Rightarrow> bool \<times> u16 \<times> 's input_session" where
  "publish_rich_mask send new_mask timestamp_us published session =
     (if new_mask = published then (True, published, session)
      else case set_rich_slot_mask new_mask timestamp_us (is_codec session) of
             (retirement, codec) \<Rightarrow>
               (case send_all send retirement (is_transport session) of
                  (ok, transport) \<Rightarrow>
                    (ok, if ok then new_mask else published, session\<lparr> is_codec := codec, is_transport := transport \<rparr>)))"

section \<open>What the server reads\<close>

text \<open>
  A reference reader: the input a message carries and its time stamp. Messages that only announce gamepads carry
  no input.
\<close>

definition read_body :: "u32 \<Rightarrow> bytes \<Rightarrow> CapturedInput option" where
  "read_body t body =
     (if t = INPUT_KEY_DOWN \<or> t = INPUT_KEY_UP then do {
        key \<leftarrow> read_u16_be body 0;
        modifiers \<leftarrow> read_u16_be body 2;
        Some (Key key modifiers (t = INPUT_KEY_DOWN)) }
      else if t = INPUT_MOUSE_RELATIVE \<or> t = INPUT_MOUSE_WHEEL then do {
        dx \<leftarrow> read_u16_be body 0;
        dy \<leftarrow> read_u16_be body 2;
        Some (if t = INPUT_MOUSE_RELATIVE then MouseMove dx dy else MouseWheel dx dy) }
      else if t = INPUT_MOUSE_ABSOLUTE then do {
        x \<leftarrow> read_u16_be body 0;
        y \<leftarrow> read_u16_be body 2;
        width \<leftarrow> read_u16_be body 6;
        height \<leftarrow> read_u16_be body 8;
        Some (MouseAbsolute x y width height) }
      else if t = INPUT_MOUSE_BUTTON_DOWN \<or> t = INPUT_MOUSE_BUTTON_UP then do {
        button \<leftarrow> byte_at body 0;
        Some (MouseButton button (t = INPUT_MOUSE_BUTTON_DOWN)) }
      else None)"

definition read_remote :: "bytes \<Rightarrow> (CapturedInput \<times> u64) option" where
  "read_remote p = do {
     t \<leftarrow> read_u32_le p 12;
     timestamp \<leftarrow> read_u64_le p (length p - 8);
     input \<leftarrow> read_body t (drop 16 p);
     Some (input, timestamp)
   }"

definition read_pad :: "bytes \<Rightarrow> (CapturedInput \<times> u64) option" where
  "read_pad r = do {
     slot \<leftarrow> read_u16_le r 6;
     bitmap \<leftarrow> read_u16_le r 8;
     buttons \<leftarrow> read_u16_le r 12;
     left_trigger \<leftarrow> byte_at r 14;
     right_trigger \<leftarrow> byte_at r 15;
     left_x \<leftarrow> read_u16_le r 16;
     left_y \<leftarrow> read_u16_le r 18;
     right_x \<leftarrow> read_u16_le r 20;
     right_y \<leftarrow> read_u16_le r 22;
     timestamp \<leftarrow> read_u64_le r 30;
     Some (Gamepad (ucast slot) bitmap buttons left_trigger right_trigger left_x left_y right_x right_y, timestamp)
   }"

definition server_reads :: "NvstEncodedInput \<Rightarrow> (CapturedInput \<times> u64) option" where
  "server_reads m = (case decode_command (ei_bytes m) of
     Some (command, []) \<Rightarrow>
       if cc_code command = COMMAND_REMOTE_INPUT then read_remote (cc_payload command)
       else if cc_code command = COMMAND_GAMEPAD \<and> byte_at (cc_payload command) 9 = Some 0x26
       then read_pad (drop 16 (cc_payload command))
       else None
   | _ \<Rightarrow> None)"

definition tuned :: "(u16 \<Rightarrow> u16 \<Rightarrow> u16 \<times> u16) \<Rightarrow> CapturedInput \<Rightarrow> CapturedInput" where
  "tuned tune input = (case input of
     MouseMove dx dy \<Rightarrow> (case tune dx dy of (dx, dy) \<Rightarrow> MouseMove dx dy)
   | Gamepad c bitmap buttons lt rt lx ly rx ry \<Rightarrow> Gamepad (c AND 3) bitmap buttons lt rt lx ly rx ry
   | _ \<Rightarrow> input)"

lemma single_event:
  assumes "b \<noteq> 0x22" and "b \<noteq> 0x23"
  shows "encode (b # bs) fallback codec = (case encode_event \<lparr> ne_bytes = b # bs, ne_timestamp_us = fallback \<rparr> codec of
      None \<Rightarrow> None | Some (Inl e, codec) \<Rightarrow> Some (Inl e, codec) | Some (Inr ms, codec) \<Rightarrow> Some (Inr ms, codec))"
  using assms by (simp add: encode_def native_events_def split: option.split sum.split)

lemma server_reads_command:
  assumes "length p \<le> u16_max" and "ei_bytes m = control_command code p"
  shows "server_reads m = (if code = COMMAND_REMOTE_INPUT then read_remote p
    else if code = COMMAND_GAMEPAD \<and> byte_at p 9 = Some 0x26 then read_pad (drop 16 p) else None)"
  using decode_control_command [OF assms(1), of code "[]"] assms(2) by (simp add: server_reads_def)

lemma server_reads_remote:
  assumes "length body \<le> 16"
  shows "\<exists>m r. remote_input_message (remote_input_packet t body) timestamp = Some m
    \<and> server_reads m = map_option (\<lambda>input. (input, timestamp)) (read_body t (body @ r))"
proof -
  define zeros :: bytes where "zeros = replicate (16 - length body) 0"
  define front where "front = resize 24 (remote_input_packet t body) @
    (if t \<in> {INPUT_KEY_DOWN, INPUT_KEY_UP, INPUT_MOUSE_ABSOLUTE} then le64 timestamp else [])"
  define p where "p = remote_input_packet 0x0e front @ le64 timestamp"
  have pad: "max 24 (div_ceil (8 + length body) 8 * 8) = 24" using assms by (simp add: div_ceil_def)
  let ?n = "(if t \<in> {INPUT_KEY_DOWN, INPUT_KEY_UP, INPUT_MOUSE_ABSOLUTE} then 1 else 0) + (1 :: nat)"
  have stamps: "resize 24 (remote_input_packet t body) @ concat (replicate ?n (le64 timestamp)) = front @ le64 timestamp"
    by (simp add: front_def)
  obtain m where m: "remote_input_message (remote_input_packet t body) timestamp = Some m"
    and bytes: "ei_bytes m = control_command COMMAND_REMOTE_INPUT (remote_input_packet 0x0e (front @ le64 timestamp))"
    unfolding remote_input_message_Some pad stamps by simp
  define q where "q = remote_input_packet 0x0e (front @ le64 timestamp)"
  have front: "front = be32 (4 + of_nat (length body)) @ le32 t @ body @ zeros @
      (if t \<in> {INPUT_KEY_DOWN, INPUT_KEY_UP, INPUT_MOUSE_ABSOLUTE} then le64 timestamp else [])"
    using assms by (simp add: front_def zeros_def remote_input_packet_def)
  obtain r where r: "drop 16 q = body @ r" and t: "read_u32_le q 12 = Some t"
    by (simp add: q_def front remote_input_packet_def read_u32_le_def le32_def be32_def from_le32_def codec)
  have len: "length q \<le> 60" using assms by (simp add: q_def front zeros_def)
  have q: "q = (be32 (4 + of_nat (length (front @ le64 timestamp))) @ le32 0x0e @ front) @ le64 timestamp"
    by (simp add: q_def remote_input_packet_def)
  have ts: "read_u64_le q (length q - 8) = Some timestamp"
    unfolding q read_u64_le_def by (simp add: codec)
  have "server_reads m = read_remote q"
    using server_reads_command [of q m COMMAND_REMOTE_INPUT] len bytes by (simp add: q_def [symmetric])
  also have "\<dots> = map_option (\<lambda>input. (input, timestamp)) (read_body t (body @ r))"
    by (simp add: read_remote_def t ts r) (cases "read_body t (body @ r)"; simp)
  finally show ?thesis using m by blast
qed

lemma read_be16 [simp]: "read_u16_be (be16 w @ bs) 0 = Some w"
  by (simp add: read_u16_be_def be16_def codec)

text \<open>The events of the packets.\<close>

lemma encode_packet:
  assumes "t \<in> {3, 4, 5, 7, 8, 9, 10, 12}"
  shows "encode (le32 t @ bs) fallback codec = encode_event \<lparr> ne_bytes = le32 t @ bs, ne_timestamp_us = fallback \<rparr> codec"
proof -
  have "(ucast t :: u8) \<noteq> 0x22 \<and> (ucast t :: u8) \<noteq> 0x23" using assms by auto
  then show ?thesis
    by (simp add: le32_def single_event split: option.split sum.split)
qed

lemma read_le32 [simp]: "read_u32_le (le32 t @ bs) 0 = Some t"
  by (simp add: read_u32_le_def le32_def from_le32_def codec)

lemma encode_pointer_packets:
  assumes "pressed \<in> {3, 4}" and "clicked \<in> {8, 9}"
  shows "encode (le32 pressed @ be16 key @ be16 modifiers @ be16 0 @ be64 timestamp) fallback codec =
      one_message codec (remote_input_message (remote_input_packet pressed
        [ucast (drop_bit 8 key), ucast key, ucast (drop_bit 8 modifiers), ucast modifiers, 0, 0, 0, 0, 0, 0, 0, 0, 0, 0]) timestamp)"
    and "encode (le32 7 @ be16 dx @ be16 dy @ replicate 6 0 @ be64 timestamp) fallback codec =
      one_message codec (remote_input_message (remote_input_packet 7
        [ucast (drop_bit 8 dx), ucast dx, ucast (drop_bit 8 dy), ucast dy, 0, 0]) timestamp)"
    and "encode (le32 10 @ be16 dx @ be16 dy @ replicate 6 0 @ be64 timestamp) fallback codec =
      one_message codec (remote_input_message (remote_input_packet 10
        [ucast (drop_bit 8 dx), ucast dx, ucast (drop_bit 8 dy), ucast dy, 0, 0]) timestamp)"
    and "encode (le32 5 @ be16 x @ be16 y @ be16 0 @ be16 width @ be16 height @ be32 0 @ be64 timestamp) fallback codec =
      one_message codec (remote_input_message (remote_input_packet 5
        [ucast (drop_bit 8 x), ucast x, ucast (drop_bit 8 y), ucast y, 8, 0, ucast (drop_bit 8 width), ucast width,
         ucast (drop_bit 8 height), ucast height]) timestamp)"
    and "encode (le32 clicked @ [button, 0] @ replicate 4 0 @ be64 timestamp) fallback codec =
      one_message codec (remote_input_message (remote_input_packet clicked [button, 0]) timestamp)"
proof -
  note event = encode_event_def input_codes
  note defs = with_len_def require_len_def unwrap_or_def read_u64_be_def byte_at_def read_u16_be_def nth_append le32_def be16_def
    be32_def codec
  let ?e = "\<lambda>bs. \<lparr> ne_bytes = bs, ne_timestamp_us = fallback \<rparr>"
  have "encode (le32 pressed @ bs) fallback codec = encode_key pressed (?e (le32 pressed @ bs)) codec" for bs
    using assms(1) encode_packet [of pressed] by (auto simp: event)
  then show "encode (le32 pressed @ be16 key @ be16 modifiers @ be16 0 @ be64 timestamp) fallback codec =
      one_message codec (remote_input_message (remote_input_packet pressed
        [ucast (drop_bit 8 key), ucast key, ucast (drop_bit 8 modifiers), ucast modifiers, 0, 0, 0, 0, 0, 0, 0, 0, 0, 0]) timestamp)"
    by (simp add: encode_key_def defs)
  have "encode (le32 7 @ bs) fallback codec = encode_delta ''short relative mouse packet'' 7 (?e (le32 7 @ bs)) codec"
    "encode (le32 10 @ bs) fallback codec = encode_delta ''short mouse wheel packet'' 10 (?e (le32 10 @ bs)) codec" for bs
    using encode_packet [of 7] encode_packet [of 10] by (auto simp: event)
  then show "encode (le32 7 @ be16 dx @ be16 dy @ replicate 6 0 @ be64 timestamp) fallback codec =
      one_message codec (remote_input_message (remote_input_packet 7
        [ucast (drop_bit 8 dx), ucast dx, ucast (drop_bit 8 dy), ucast dy, 0, 0]) timestamp)"
    "encode (le32 10 @ be16 dx @ be16 dy @ replicate 6 0 @ be64 timestamp) fallback codec =
      one_message codec (remote_input_message (remote_input_packet 10
        [ucast (drop_bit 8 dx), ucast dx, ucast (drop_bit 8 dy), ucast dy, 0, 0]) timestamp)"
    by (simp_all add: encode_delta_def defs)
  have "encode (le32 5 @ bs) fallback codec = encode_absolute 5 (?e (le32 5 @ bs)) codec" for bs
    using encode_packet [of 5] by (auto simp: event)
  then show "encode (le32 5 @ be16 x @ be16 y @ be16 0 @ be16 width @ be16 height @ be32 0 @ be64 timestamp) fallback codec =
      one_message codec (remote_input_message (remote_input_packet 5
        [ucast (drop_bit 8 x), ucast x, ucast (drop_bit 8 y), ucast y, 8, 0, ucast (drop_bit 8 width), ucast width,
         ucast (drop_bit 8 height), ucast height]) timestamp)"
    by (simp add: encode_absolute_def defs)
  have "encode (le32 clicked @ bs) fallback codec = encode_button clicked (?e (le32 clicked @ bs)) codec" for bs
    using assms(2) encode_packet [of clicked] by (auto simp: event)
  then show "encode (le32 clicked @ [button, 0] @ replicate 4 0 @ be64 timestamp) fallback codec =
      one_message codec (remote_input_message (remote_input_packet clicked [button, 0]) timestamp)"
    by (simp add: encode_button_def defs)
qed

lemma one_message_read:
  assumes "length body \<le> 16" and "\<And>r. read_body t (body @ r) = Some input"
  shows "\<exists>m. one_message codec (remote_input_message (remote_input_packet t body) timestamp) = Some (Inr [m], codec)
    \<and> server_reads m = Some (input, timestamp)"
proof -
  from server_reads_remote [OF assms(1), of t timestamp] obtain m r where
    "remote_input_message (remote_input_packet t body) timestamp = Some m"
    "server_reads m = map_option (\<lambda>input. (input, timestamp)) (read_body t (body @ r))" by blast
  with assms(2) show ?thesis by (simp add: one_message_def)
qed

text \<open>The keyboard and the mouse.\<close>

lemma pointer_roundtrip:
  assumes "captured_input_packet tune input timestamp = Some packet" and "packet \<noteq> []" and "gamepad_of input = None"
  shows "\<exists>m. encode packet fallback codec = Some (Inr [m], codec) \<and> server_reads m = Some (tuned tune input, timestamp)"
proof -
  note body = read_body_def input_codes read_u16_be_def byte_at_def codec tuned_def
  show ?thesis
  proof (cases input)
    case (Key key modifiers pressed)
    then show ?thesis
      using assms(1) encode_pointer_packets(1) [of "if pressed then 3 else 4" 8 key modifiers timestamp fallback codec]
      by (auto simp: captured_input_packet_def body intro!: one_message_read)
  next
    case (MouseMove dx dy)
    then show ?thesis
      using assms(1) encode_pointer_packets(2) [of 3 8 _ _ timestamp fallback codec]
      by (auto simp: captured_input_packet_def body split: prod.splits intro!: one_message_read)
  next
    case (MouseAbsolute x y width height)
    then show ?thesis
      using assms(1) encode_pointer_packets(4) [of 3 8 x y width height timestamp fallback codec]
      by (auto simp: captured_input_packet_def body intro!: one_message_read)
  next
    case (MouseButton button pressed)
    then show ?thesis
      using assms(1) encode_pointer_packets(5) [of 3 "if pressed then 8 else 9" button timestamp fallback codec]
      by (auto simp: captured_input_packet_def body intro!: one_message_read)
  next
    case (MouseWheel dx dy)
    then show ?thesis
      using assms(1) encode_pointer_packets(3) [of 3 8 dx dy timestamp fallback codec]
      by (auto simp: captured_input_packet_def body intro!: one_message_read)
  qed (use assms in \<open>auto simp: captured_input_packet_def gamepad_of_def\<close>)
qed

text \<open>Gamepads.\<close>

lemma le16_triggers: "le16 (ucast (a :: u8) OR push_bit 8 (ucast (b :: u8))) = [a, b]"
  by (auto simp: le16_def intro!: bit_word_eqI) (auto simp: bit_simps byte_bit_beyond)

lemma ucast_u8_u16: "ucast (ucast (a :: u8) :: u16) = a"
  by (rule bit_word_eqI) (auto simp: bit_simps)

lemma from_le16_le16: "from_le16 (ucast w) (ucast (drop_bit 8 w)) = w"
  by (simp add: from_le16_def codec)

lemma gamepad_packet_fields:
  assumes "captured_input_packet tune (Gamepad c bitmap buttons lt rt lx ly rx ry) timestamp = Some packet"
  shows "length packet = 38" and "read_u32_le packet 0 = Some 12" and "read_u16_le packet 6 = Some (ucast (c AND 3))"
    and "read_u16_le packet 8 = Some bitmap" and "read_u64_le packet 30 = Some timestamp"
    and "read_pad packet = Some (Gamepad (c AND 3) bitmap buttons lt rt lx ly rx ry, timestamp)"
proof -
  have p: "packet = le32 12 @ le16 26 @ le16 (ucast (c AND 3)) @ le16 bitmap @ le16 20 @ le16 buttons @ [lt, rt]
      @ le16 lx @ le16 ly @ le16 rx @ le16 ry @ le16 0 @ le16 85 @ le16 0 @ le64 timestamp"
    using assms by (simp add: captured_input_packet_def le16_triggers)
  show "length packet = 38" "read_u32_le packet 0 = Some 12" unfolding p by simp_all
  show i: "read_u16_le packet 6 = Some (ucast (c AND 3))" and b: "read_u16_le packet 8 = Some bitmap"
    unfolding p by (simp_all add: read_u16_le_def le32_def) (simp_all add: le16_def from_le16_le16)
  show t: "read_u64_le packet 30 = Some timestamp" unfolding p by (simp add: read_u64_le_def codec)
  have "read_u16_le packet 12 = Some buttons" "byte_at packet 14 = Some lt" "byte_at packet 15 = Some rt"
    "read_u16_le packet 16 = Some lx" "read_u16_le packet 18 = Some ly" "read_u16_le packet 20 = Some rx"
    "read_u16_le packet 22 = Some ry"
    unfolding p by (simp_all add: read_u16_le_def byte_at_def le32_def le16_def from_le16_le16)
  with i b t show "read_pad packet = Some (Gamepad (c AND 3) bitmap buttons lt rt lx ly rx ry, timestamp)"
    by (simp add: read_pad_def ucast_u8_u16)
qed

lemma topology_carries_no_input:
  assumes "emit_topology_transition previous filtered timestamp codec = (ms, codec')" and "codec_ok codec"
  shows "List.map_filter server_reads ms = []"
proof -
  have none: "server_reads m = None" if "ei_bytes m = control_command COMMAND_GAMEPAD ([0x23] @ be64 t @ [0x22] @ bs)"
      "length bs \<le> 1000" for m t bs
  proof -
    have "length ([0x23] @ be64 t @ [0x22] @ bs) \<le> u16_max" using that(2) by simp
    from server_reads_command [OF this that(1)] show ?thesis unfolding drop_headers by (simp add: command_codes)
  qed
  have "server_reads (release_message codec previous timestamp slot) = None" if "slot < 4" for slot
    using neutral_report_fields(1) [OF assms(2) that, of previous timestamp]
    by (intro none [of _ timestamp "neutral_report codec previous timestamp slot"]) (simp_all add: release_message_def)
  moreover have "server_reads \<lparr> ei_route = ControlReliable, ei_bytes = device_descriptor timestamp filtered \<rparr> = None"
    by (rule none [of _ timestamp "[0x0c, 0x00, 0x00, 0x00, 0x1a, 0x00, 0x00, 0x00] @ le16 filtered @
      [0x14, 0x00, 0x00, 0x00, 0x00, 0x00, 0x00, 0x00, 0x00, 0x00, 0x00, 0x00, 0x00, 0x00, 0x00, 0x00, 0x55, 0x00, 0x00,
       0x00, 0x00, 0x00, 0x00, 0x00, 0x00, 0x00, 0x00, 0x00]"]) (simp_all add: device_descriptor_def write_at_def)
  moreover have "length (ic_gamepad_sequences codec) = 4" using assms(2) by (simp add: codec_ok_def)
  ultimately have "\<forall>m\<in>set ms. server_reads m = None" using assms(1) by (auto simp: emit_topology_transition_def Let_def)
  then show ?thesis by (induction ms) (auto simp: List.map_filter_simps)
qed

lemma pad_message_read:
  assumes "length bs = 38"
  shows "server_reads (pad_message bs timestamp q) = read_pad bs"
proof -
  define p where "p = [0x23] @ be64 timestamp @ [0x26, bs ! 6] @ be16 q @ [0x21] @ be16 38 @ bs"
  have "ei_bytes (pad_message bs timestamp q) = control_command COMMAND_GAMEPAD p" using assms by (simp add: pad_message_def p_def)
  moreover have "length p \<le> u16_max" using assms by (simp add: p_def)
  ultimately have "server_reads (pad_message bs timestamp q) = (if byte_at p 9 = Some 0x26 then read_pad (drop 16 p) else None)"
    using server_reads_command [of p "pad_message bs timestamp q" COMMAND_GAMEPAD] by (simp add: command_codes)
  then show ?thesis unfolding p_def drop_headers by simp
qed

lemma gamepad_roundtrip:
  assumes "captured_input_packet tune (Gamepad c bitmap buttons lt rt lx ly rx ry) timestamp = Some packet"
    and "codec_ok codec" and "slot_in (bitmap AND NOT (ic_rich_slot_mask codec)) (unat (c AND 3))"
  shows "\<exists>ms codec'. encode packet fallback codec = Some (Inr ms, codec')
    \<and> List.map_filter server_reads ms = [(Gamepad (c AND 3) bitmap buttons lt rt lx ly rx ry, timestamp)]"
proof -
  note f = gamepad_packet_fields [OF assms(1)]
  let ?event = "\<lparr> ne_bytes = packet, ne_timestamp_us = fallback \<rparr>"
  obtain rest where rest: "packet = le32 12 @ rest" using assms(1) by (auto simp: captured_input_packet_def)
  have enc: "encode packet fallback codec = encode_gamepad ?event codec"
    using encode_packet [of 12 rest fallback codec] f(2) by (simp add: rest [symmetric]) (simp add: encode_event_def input_codes)
  define codec1 where "codec1 = codec\<lparr> ic_last_gamepad_report := Some (take 38 packet) \<rparr>"
  define filtered where "filtered = bitmap AND NOT (ic_rich_slot_mask codec)"
  obtain ms codec2 where step: "(if ic_gamepad_bitmap codec \<noteq> Some filtered
      then emit_topology_transition (unwrap_or (ic_gamepad_bitmap codec) 0) filtered timestamp codec1 else ([], codec1)) = (ms, codec2)"
    by (metis surj_pair)
  define q where "q = ic_gamepad_sequences codec2 ! unat (c AND 3) + 1"
  have small: "unat (c AND 3) < 4"
    using word_and_le1 [of c 3] by (simp add: word_le_nat_alt)
  then have u: "unat (ucast (c AND 3) :: u16) = unat (c AND 3)" by (simp add: unsigned_ucast_eq take_bit_nat_eq_self)
  have "encode_gamepad ?event codec = Some (Inr (ms @ [pad_message packet timestamp q]),
      codec2\<lparr> ic_gamepad_sequences := (ic_gamepad_sequences codec2)[unat (c AND 3) := q] \<rparr>)"
    using encode_gamepad_eq [of codec ?event "ucast (c AND 3)" bitmap timestamp codec1 filtered ms codec2 q] f assms(2,3) step small
    by (simp add: u q_def codec_ok_def unwrap_or_def codec1_def filtered_def)
  moreover have "List.map_filter server_reads ms = []"
  proof -
    have "codec_ok codec1" using assms(2) f(1) by (simp add: codec_ok_def codec1_def)
    with topology_carries_no_input [of _ filtered timestamp codec1 ms codec2] step show ?thesis
      by (auto split: if_splits simp: List.map_filter_simps)
  qed
  ultimately show ?thesis
    using enc f(6) pad_message_read [OF f(1), of timestamp q] by (simp add: List.map_filter_def)
qed

section \<open>Sessions\<close>

text \<open>
  A transport that logs what it takes and refuses as a list of answers says. A session handles captured packets
  without a reply and changes of the rich slots until one of them ends it.
\<close>

type_synonym logging = "NvstEncodedInput list \<times> bool list"

fun offer :: "NvstEncodedInput \<Rightarrow> logging \<Rightarrow> bool \<times> logging" where
  "offer m (taken, []) = (True, taken @ [m], [])"
| "offer m (taken, ok # answers) = (ok, if ok then taken @ [m] else taken, answers)"

datatype session_op = Captured bytes u64 | RichSlots u16 u64

fun session_run :: "session_op list \<Rightarrow> u16 \<Rightarrow> logging input_session \<Rightarrow> (bool \<times> u16 \<times> logging input_session) option" where
  "session_run [] published session = Some (True, published, session)"
| "session_run (Captured bs timestamp # ops) published session =
     (case send_nvst_captured_input offer bs timestamp False session of
        None \<Rightarrow> None
      | Some (False, session) \<Rightarrow> Some (False, published, session)
      | Some (True, session) \<Rightarrow> session_run ops published session)"
| "session_run (RichSlots new_mask timestamp # ops) published session =
     (case publish_rich_mask offer new_mask timestamp published session of
        (False, published, session) \<Rightarrow> Some (False, published, session)
      | (True, published, session) \<Rightarrow> session_run ops published session)"

definition new_session :: "bool list \<Rightarrow> logging input_session" where
  "new_session answers = \<lparr> is_codec = NvstInputCodec_default, is_input_ready = True, is_events = [], is_replies = [],
     is_transport = ([], answers) \<rparr>"

definition no_pads :: pad_server where
  "no_pads = \<lparr> ps_bitmap = 0, ps_controls = (\<lambda>_. neutral) \<rparr>"

definition server_view :: "logging input_session \<Rightarrow> pad_server" where
  "server_view session = fold pad_receive (fst (is_transport session)) no_pads"

lemma send_all_offer:
  assumes "send_all offer ms (taken, answers) = (ok, st)"
  shows "\<exists>sent rest answers'. ms = sent @ rest \<and> st = (taken @ sent, answers') \<and> (ok \<longrightarrow> rest = [])"
  using assms
proof (induction ms arbitrary: taken answers)
  case (Cons m ms)
  obtain ok1 taken1 answers1 where o: "offer m (taken, answers) = (ok1, taken1, answers1)" by (metis surj_pair)
  show ?case
  proof (cases ok1)
    case True
    with o have "taken1 = taken @ [m]" by (cases answers) auto
    moreover from Cons.IH [of taken1 answers1] Cons.prems o True obtain sent rest answers' where
      "ms = sent @ rest \<and> st = (taken1 @ sent, answers') \<and> (ok \<longrightarrow> rest = [])" by auto
    ultimately show ?thesis by (intro exI [of _ "m # sent"] exI [of _ rest] exI [of _ answers']) simp
  next
    case False
    with o have "taken1 = taken" by (cases answers) auto
    with False o Cons.prems show ?thesis by (intro exI [of _ "[]"] exI [of _ "m # ms"] exI [of _ answers1]) auto
  qed
qed auto

text \<open>A packet of motion alone touches neither the codec nor the gamepads of the server.\<close>

lemma encode_event_motion:
  assumes "encode_event event codec = Some (Inr ms, codec')"
    and "\<And>t. read_u32_le (ne_bytes event) 0 = Some t \<Longrightarrow> native_input_type_is_motion t"
  shows "codec' = codec \<and> (\<forall>m\<in>set ms. \<forall>s. pad_receive m s = s)"
proof -
  have one: "c' = codec \<and> (\<forall>m\<in>set ms. \<forall>s. pad_receive m s = s)"
    if "one_message codec (remote_input_message (remote_input_packet t body) timestamp) = Some (Inr ms, c')" "length body \<le> 16"
    for t body timestamp c'
    using that remote_message(2) [OF that(2)] by (auto simp: one_message_def)
  from assms(1) obtain t where t: "read_u32_le (ne_bytes event) 0 = Some t"
    by (auto simp: encode_event_def split: option.splits)
  then have "t = INPUT_MOUSE_ABSOLUTE \<or> t = INPUT_MOUSE_RELATIVE"
    using assms(2) by (auto simp: native_input_type_is_motion_def)
  then show ?thesis
  proof
    assume "t = INPUT_MOUSE_ABSOLUTE"
    then have "encode_absolute t event codec = Some (Inr ms, codec')" using assms(1) t by (simp add: encode_event_def input_codes)
    then show ?thesis
      by (auto simp: encode_absolute_def with_len_def bind_eq_Some_conv split: sum.splits dest!: one)
  next
    assume "t = INPUT_MOUSE_RELATIVE"
    then have "encode_delta ''short relative mouse packet'' t event codec = Some (Inr ms, codec')"
      using assms(1) t by (simp add: encode_event_def input_codes)
    then show ?thesis
      by (auto simp: encode_delta_def with_len_def bind_eq_Some_conv split: sum.splits dest!: one)
  qed
qed

lemma encode_events_motion:
  assumes "encode_events sofar events codec = Some (Inr ms, codec')"
    and "\<And>event t. event \<in> set events \<Longrightarrow> read_u32_le (ne_bytes event) 0 = Some t \<Longrightarrow> native_input_type_is_motion t"
    and "\<forall>m\<in>set sofar. \<forall>s. pad_receive m s = s"
  shows "codec' = codec \<and> (\<forall>m\<in>set ms. \<forall>s. pad_receive m s = s)"
  using assms
proof (induction events arbitrary: sofar)
  case (Cons event events)
  from Cons.prems(1) obtain new codec1 where e: "encode_event event codec = Some (Inr new, codec1)"
    "encode_events (sofar @ new) events codec1 = Some (Inr ms, codec')"
    by (auto split: option.splits sum.splits)
  with encode_event_motion [OF e(1)] Cons.prems(2) have n: "codec1 = codec" "\<forall>m\<in>set new. \<forall>s. pad_receive m s = s"
    by (metis list.set_intros(1))+
  from Cons.IH [of "sofar @ new"] e(2) n Cons.prems(2,3) show ?case by (metis Un_iff list.set_intros(2) set_append)
qed simp

lemma wrapped_events_bytes:
  "map_sum (\<lambda>e. e) (map ne_bytes) (wrapped_events a bs) = map_sum (\<lambda>e. e) (map ne_bytes) (wrapped_events b bs)"
proof (induction a bs rule: wrapped_events.induct)
  case (2 a marker r)
  have then_eq: "map_sum (\<lambda>e. e) (map ne_bytes) (event_then x a y) = map_sum (\<lambda>e. e) (map ne_bytes) (event_then x b z)"
    if "map_sum (\<lambda>e. e) (map ne_bytes) y = map_sum (\<lambda>e. e) (map ne_bytes) z" for x y z
    using that by (cases y; cases z) (auto simp: event_then_def)
  consider (single) "marker = 0x22" | (prefixed) "marker = 0x21" | (partial) "marker = 0x26"
    | (unknown) "marker \<noteq> 0x22" "marker \<noteq> 0x21" "marker \<noteq> 0x26" by blast
  then show ?case
  proof cases
    case single
    show ?thesis
    proof (cases "read_u32_le r 0")
      case (Some t)
      show ?thesis
      proof (cases "native_event_length t (length r)")
        case (Inr n)
        show ?thesis using 2(1) [OF single Some Inr] then_eq single Some Inr by (cases "length r < n") auto
      qed (use single Some in simp)
    qed (use single in simp)
  next
    case prefixed
    show ?thesis
    proof (cases "\<exists>x y s. r = x # y # s")
      case True
      then obtain x y s where r: "r = x # y # s" by blast
      show ?thesis using 2(2) [OF _ prefixed r refl refl] then_eq prefixed r by (cases "length s < unat (from_be16 x y)") (auto simp: Let_def)
    next
      case False
      then show ?thesis using prefixed by (auto split: list.split)
    qed
  next
    case partial
    show ?thesis
    proof (cases "\<exists>u v w m x y s. r = u # v # w # m # x # y # s")
      case True
      then obtain u v w m x y s where r: "r = u # v # w # m # x # y # s" by blast
      show ?thesis
      proof (cases "m = 0x21 \<and> unat (from_be16 x y) \<le> length s")
        case True
        then show ?thesis using 2(3) [OF _ _ partial r refl refl refl refl refl _ refl] then_eq partial r by (auto simp: Let_def)
      next
        case False
        then show ?thesis using partial r by (auto simp: Let_def)
      qed
    next
      case False
      then show ?thesis using partial by (auto split: list.split)
    qed
  qed simp
qed simp

lemma native_events_bytes:
  "map_sum (\<lambda>e. e) (map ne_bytes) (native_events bs a) = map_sum (\<lambda>e. e) (map ne_bytes) (native_events bs b)"
  by (simp add: native_events_def split: list.split sum.split)

lemma encode_motion:
  assumes "all_motion bs" and "encode bs timestamp codec = Some (Inr ms, codec')"
  shows "codec' = codec \<and> (\<forall>m\<in>set ms. \<forall>s. pad_receive m s = s)"
proof -
  from assms(2) obtain events where e: "native_events bs timestamp = Inr events" "encode_events [] events codec = Some (Inr ms, codec')"
    by (auto simp: encode_def split: sum.splits)
  obtain events0 where e0: "native_events bs 0 = Inr events0"
    using native_events_bytes [of bs timestamp 0] e(1) by (cases "native_events bs 0") auto
  with assms(1) have motion: "list_all native_input_type_is_motion (List.map_filter (\<lambda>event. read_u32_le (ne_bytes event) 0) events0)"
    by (simp add: all_motion_def native_input_types_def)
  have "map ne_bytes events = map ne_bytes events0"
    using native_events_bytes [of bs timestamp 0] e(1) e0 by simp
  then have "\<exists>event'\<in>set events0. ne_bytes event' = ne_bytes event" if "event \<in> set events" for event
    using that by (metis (no_types, opaque_lifting) imageE image_eqI list.set_map)
  then have "native_input_type_is_motion t" if "event \<in> set events" "read_u32_le (ne_bytes event) 0 = Some t" for event t
    using that motion by (fastforce simp: list_all_iff List.map_filter_def image_iff)
  from encode_events_motion [OF e(2) this] show ?thesis by auto
qed

definition session_ok :: "logging input_session \<Rightarrow> bool" where
  "session_ok session \<longleftrightarrow> codec_ok (is_codec session) \<and> pads_agree (is_codec session) (server_view session)"

lemma fold_unchanged: "\<forall>m\<in>set ms. \<forall>s. f m s = s \<Longrightarrow> fold f ms s = s"
  by (induction ms) auto

lemma captured_step:
  assumes "session_ok session"
  shows "\<exists>go session'. send_nvst_captured_input offer bs timestamp False session = Some (go, session')
    \<and> codec_ok (is_codec session') \<and> (go \<longrightarrow> session_ok session')
    \<and> (\<not> go \<longrightarrow> \<not> is_input_ready session' \<and> is_codec session' = is_codec session)"
proof -
  have ok: "codec_ok (is_codec session)" and agree: "pads_agree (is_codec session) (server_view session)"
    using assms by (simp_all add: session_ok_def)
  from encode_step [OF ok, of bs timestamp] obtain r codec where
    e: "encode bs timestamp (is_codec session) = Some (r, codec)" "codec_ok codec"
      "\<forall>ms. r = Inr ms \<longrightarrow> codec_step (is_codec session) ms codec" by (auto simp: encodes_def)
  show ?thesis
  proof (cases r)
    case (Inl error)
    with e ok agree show ?thesis
      by (auto simp: send_nvst_captured_input_def Let_def session_ok_def server_view_def)
  next
    case (Inr ms)
    obtain taken answers where tr: "is_transport session = (taken, answers)" by (metis surj_pair)
    obtain sent_ok st where s: "send_all offer ms (taken, answers) = (sent_ok, st)" by (metis surj_pair)
    from send_all_offer [OF s] obtain sent rest answers' where
      st: "ms = sent @ rest" "st = (taken @ sent, answers')" "sent_ok \<longrightarrow> rest = []" by blast
    have view: "server_view session = fold pad_receive taken no_pads" by (simp add: server_view_def tr)
    have done_agree: "pads_agree codec (fold pad_receive (taken @ sent) no_pads)" if sent_ok
      using that st e(3) Inr ok agree by (auto simp: codec_step_def view)
    have motion_agree: "pads_agree (is_codec session) (fold pad_receive (taken @ sent) no_pads)" if "all_motion bs"
    proof -
      have "\<forall>m\<in>set sent. \<forall>s. pad_receive m s = s" using encode_motion [OF that] e(1) Inr st(1) by auto
      then show ?thesis using agree by (simp add: view fold_unchanged)
    qed
    show ?thesis
      using e Inr tr s st(2) ok done_agree motion_agree
      by (cases sent_ok; cases "all_motion bs")
        (auto simp: send_nvst_captured_input_def Let_def session_ok_def server_view_def)
  qed
qed

lemma rich_step:
  assumes "session_ok session" and "publish_rich_mask offer new_mask timestamp published session = (go, published', session')"
  shows "codec_ok (is_codec session') \<and> (go \<longrightarrow> session_ok session')"
proof (cases "new_mask = published")
  case True
  with assms show ?thesis by (simp add: publish_rich_mask_def session_ok_def)
next
  case False
  have ok: "codec_ok (is_codec session)" and agree: "pads_agree (is_codec session) (server_view session)"
    using assms by (simp_all add: session_ok_def)
  obtain ms codec where m: "set_rich_slot_mask new_mask timestamp (is_codec session) = (ms, codec)" by (metis surj_pair)
  obtain taken answers where tr: "is_transport session = (taken, answers)" by (metis surj_pair)
  obtain sent_ok st where s: "send_all offer ms (taken, answers) = (sent_ok, st)" by (metis surj_pair)
  from send_all_offer [OF s] obtain sent rest answers' where
    st: "ms = sent @ rest" "st = (taken @ sent, answers')" "sent_ok \<longrightarrow> rest = []" by blast
  from rich_slot_mask_step [OF ok m] agree have "codec_ok codec"
    "sent_ok \<longrightarrow> pads_agree codec (fold pad_receive (taken @ sent) no_pads)"
    using st by (auto simp: server_view_def tr)
  then show ?thesis using assms(2) False m tr s st(2) by (auto simp: publish_rich_mask_def session_ok_def server_view_def)
qed

lemma session_run_ok:
  assumes "session_ok session"
  shows "\<exists>go published' session'. session_run ops published session = Some (go, published', session')
    \<and> (go \<longrightarrow> session_ok session')"
  using assms
proof (induction ops published session rule: session_run.induct)
  case (2 bs timestamp ops published session)
  from captured_step [OF 2(2), of bs timestamp] obtain go session1 where
    c: "send_nvst_captured_input offer bs timestamp False session = Some (go, session1)" "go \<longrightarrow> session_ok session1" by blast
  then show ?case using 2(1) [OF c(1)] by (cases go) auto
next
  case (3 new_mask timestamp ops published session)
  obtain go published1 session1 where r: "publish_rich_mask offer new_mask timestamp published session = (go, published1, session1)"
    by (metis surj_pair)
  with rich_step [OF 3(2) r] 3(1) [OF r [symmetric]] show ?case by (cases go) auto
qed auto

lemma session_ok_new: "session_ok (new_session answers)"
  by (simp add: session_ok_def new_session_def codec_ok_default server_view_def no_pads_def pads_agree_def
      NvstInputCodec_default_def unwrap_or_def) (use codec_ok_default in \<open>simp add: NvstInputCodec_default_def\<close>)

text \<open>C8: whatever is captured, however the rich slots change and whatever the transport refuses, as long as the session
  goes on the server, reading the messages in the order they were taken, knows exactly the gamepad slots the
  codec has announced, and every slot that is not announced is at rest: no button or stick of a controller
  that was unplugged or handed over stays pressed.\<close>

theorem gamepads_never_stuck:
  "\<exists>go published session. session_run ops 0 (new_session answers) = Some (go, published, session)
     \<and> (go \<longrightarrow> ps_bitmap (server_view session) = unwrap_or (ic_gamepad_bitmap (is_codec session)) 0
          \<and> (\<forall>slot<4. \<not> slot_in (ps_bitmap (server_view session)) slot \<longrightarrow> ps_controls (server_view session) slot = neutral))"
  using session_run_ok [OF session_ok_new, of ops 0 answers] by (auto simp: session_ok_def pads_agree_def)

definition sample_ops :: "session_op list" where
  "sample_ops = [Captured ([12, 0, 0, 0, 26, 0, 1, 0, 2, 0, 20, 0, 7, 0] @ replicate 24 0) 3, RichSlots 2 4]"

theorem gamepads_never_stuck_witness:
  "\<exists>published session. session_run sample_ops 0 (new_session []) = Some (True, published, session)
     \<and> ps_bitmap (server_view session) = 0 \<and> ps_controls (server_view session) 1 = neutral"
proof -
  have run: "case session_run sample_ops 0 (new_session []) of None \<Rightarrow> False
      | Some (go, published, session) \<Rightarrow> go \<and> ic_gamepad_bitmap (is_codec session) = Some 0" by code_simp
  have "\<not> slot_in 0 1" by (simp add: slot_in_def)
  with gamepads_never_stuck [of sample_ops "[]"] run show ?thesis by (auto simp: unwrap_or_def)
qed

text \<open>A gamepad report is admitted when its slot is present and not handed over to a rich session.\<close>

definition pad_admitted :: "NvstInputCodec \<Rightarrow> CapturedInput \<Rightarrow> bool" where
  "pad_admitted codec input = (case input of
     Gamepad c bitmap _ _ _ _ _ _ _ \<Rightarrow> slot_in (bitmap AND NOT (ic_rich_slot_mask codec)) (unat (c AND 3))
   | _ \<Rightarrow> True)"

text \<open>C17: every captured key, mouse and gamepad input reaches the server as it was captured: the packet built for it is
  accepted by the codec, and among the messages exactly one carries input, from which the server reads the same
  input (the relative motion after its tuning) with its time stamp.\<close>

theorem captured_input_roundtrip:
  assumes "captured_input_packet tune input timestamp = Some packet" and "packet \<noteq> []" and "codec_ok codec"
    and "pad_admitted codec input"
  shows "\<exists>ms codec'. encode packet fallback codec = Some (Inr ms, codec')
    \<and> List.map_filter server_reads ms = [(tuned tune input, timestamp)]"
proof (cases "gamepad_of input")
  case None
  from pointer_roundtrip [OF assms(1,2) None, of fallback codec] show ?thesis by (auto simp: List.map_filter_simps)
next
  case (Some i)
  then obtain c bitmap buttons lt rt lx ly rx ry where input: "input = Gamepad c bitmap buttons lt rt lx ly rx ry"
    by (cases input) (simp_all add: gamepad_of_def)
  have "tuned tune input = Gamepad (c AND 3) bitmap buttons lt rt lx ly rx ry" by (simp add: input tuned_def)
  with gamepad_roundtrip [OF assms(1) [unfolded input] assms(3), of fallback] assms(4) input show ?thesis
    by (simp add: pad_admitted_def)
qed

theorem captured_input_roundtrip_witness:
  "\<exists>ms codec'. encode (the (captured_input_packet Pair (Gamepad 1 2 7 8 9 10 11 12 13) 99)) 1 NvstInputCodec_default = Some (Inr ms, codec')
    \<and> List.map_filter server_reads ms = [(tuned Pair (Gamepad 1 2 7 8 9 10 11 12 13), 99)]"
proof -
  let ?input = "Gamepad 1 2 7 8 9 10 11 12 13"
  obtain packet where p: "captured_input_packet Pair ?input 99 = Some packet" "packet \<noteq> []"
    by (simp add: captured_input_packet_def le32_def)
  have "pad_admitted NvstInputCodec_default ?input" by code_simp
  from captured_input_roundtrip [OF p codec_ok_default this, of 1] p show ?thesis by simp
qed

end
