(* ===== verification/InputChannels.thy ===== *)
theory InputChannels
  imports InputText InputSession
begin

text \<open>
  The data channels of native input (\<open>nvst_input.rs\<close>): the channel profile, writing under the shared budget, the
  handshake that makes input available, and the parsers of the reliable control stream. The SCTP stack is the
  record \<open>rtc\<close> of the three calls the source makes on it, with \<open>rtc_ok\<close> as what it promises.
\<close>

section \<open>Channels\<close>

datatype NvstChannelReliability = Reliable | Lifetime u16 | MaxRetransmits u16

record NvstChannelDefinition =
  cd_sid :: u16
  cd_label :: string
  cd_ordered :: bool
  cd_reliability :: NvstChannelReliability

definition PARTIAL_RELIABLE_LIFETIME_MS :: u16 where "PARTIAL_RELIABLE_LIFETIME_MS = 300"
definition CUSTOM_PARTIAL_MAX_RETRANSMITS :: u16 where "CUSTOM_PARTIAL_MAX_RETRANSMITS = 2"

definition NVST_CHANNEL_PROFILE :: "NvstChannelDefinition list" where
  "NVST_CHANNEL_PROFILE =
     [\<lparr> cd_sid = 0, cd_label = ''control_channel_reliable'', cd_ordered = True, cd_reliability = Reliable \<rparr>,
      \<lparr> cd_sid = 2, cd_label = ''custom_message_on_sctp_private_reliable'', cd_ordered = True, cd_reliability = Reliable \<rparr>,
      \<lparr> cd_sid = 4, cd_label = ''custom_message_on_sctp_private_partially_reliable'', cd_ordered = True,
         cd_reliability = MaxRetransmits CUSTOM_PARTIAL_MAX_RETRANSMITS \<rparr>,
      \<lparr> cd_sid = 6, cd_label = ''control_channel_partially_reliable'', cd_ordered = False,
         cd_reliability = Lifetime PARTIAL_RELIABLE_LIFETIME_MS \<rparr>,
      \<lparr> cd_sid = 8, cd_label = ''control_channel_unreliable'', cd_ordered = False, cd_reliability = MaxRetransmits 0 \<rparr>,
      \<lparr> cd_sid = 10, cd_label = ''input_channel_partially_reliable'', cd_ordered = False,
         cd_reliability = Lifetime PARTIAL_RELIABLE_LIFETIME_MS \<rparr>,
      \<lparr> cd_sid = 12, cd_label = ''cursor_channel'', cd_ordered = True, cd_reliability = Reliable \<rparr>,
      \<lparr> cd_sid = 14, cd_label = ''rtcp_on_sctp_private'', cd_ordered = True, cd_reliability = Reliable \<rparr>]"

type_synonym channel_id = nat

record NvstInputChannels =
  ch_control_reliable :: channel_id
  ch_custom_reliable :: channel_id
  ch_custom_partial :: channel_id
  ch_control_partial :: channel_id
  ch_control_unreliable :: channel_id
  ch_input_partial :: channel_id
  ch_cursor :: "channel_id option"
  ch_rtcp :: "channel_id option"

definition all_channels :: "NvstInputChannels \<Rightarrow> channel_id list" where
  "all_channels channels =
     [ch_control_reliable channels, ch_custom_reliable channels, ch_custom_partial channels, ch_control_partial channels,
      ch_control_unreliable channels, ch_input_partial channels]
     @ (case ch_cursor channels of None \<Rightarrow> [] | Some i \<Rightarrow> [i]) @ (case ch_rtcp channels of None \<Rightarrow> [] | Some i \<Rightarrow> [i])"

definition channels_contains :: "channel_id \<Rightarrow> NvstInputChannels \<Rightarrow> bool" where
  "channels_contains i channels \<longleftrightarrow> ch_rtcp channels \<noteq> Some i \<and> i \<in> set (all_channels channels)"

section \<open>Writes\<close>

text \<open>\<open>rtc.channel(id).is_some()\<close>, \<open>buffered_amount()\<close> of that channel and \<open>write(true, bytes).unwrap_or(false)\<close>.\<close>

record 'r rtc =
  rtc_channel :: "channel_id \<Rightarrow> 'r \<Rightarrow> bool"
  rtc_buffered_amount :: "channel_id \<Rightarrow> 'r \<Rightarrow> nat"
  rtc_write :: "channel_id \<Rightarrow> bytes \<Rightarrow> 'r \<Rightarrow> bool \<times> 'r"

text \<open>
  A write keeps the set of channels, adds at most its bytes to its own channel when it is taken and nothing
  otherwise.
\<close>

definition rtc_ok :: "'r rtc \<Rightarrow> bool" where
  "rtc_ok ops \<longleftrightarrow> (\<forall>i bs r ok r'. rtc_write ops i bs r = (ok, r') \<longrightarrow>
     (\<forall>j. rtc_channel ops j r' = rtc_channel ops j r
        \<and> rtc_buffered_amount ops j r' \<le> rtc_buffered_amount ops j r + (if ok \<and> j = i then length bs else 0)))"

definition buffered_total :: "'r rtc \<Rightarrow> NvstInputChannels \<Rightarrow> 'r \<Rightarrow> nat" where
  "buffered_total ops channels r =
     sum_list (map (\<lambda>i. rtc_buffered_amount ops i r) (filter (\<lambda>i. rtc_channel ops i r) (all_channels channels)))"

definition channels_write :: "'r rtc \<Rightarrow> NvstInputChannels \<Rightarrow> channel_id \<Rightarrow> bytes \<Rightarrow> WriteClass \<Rightarrow> 'r \<Rightarrow> bool \<times> 'r" where
  "channels_write ops channels i bs write_class r =
     (if \<not> Control.is_admitted (admit_write (buffered_total ops channels r) (length bs) write_class) then (False, r)
      else if rtc_channel ops i r then rtc_write ops i bs r else (False, r))"

definition send_control :: "'r rtc \<Rightarrow> NvstInputChannels \<Rightarrow> bytes \<Rightarrow> 'r \<Rightarrow> bool \<times> 'r" where
  "send_control ops channels bs r = channels_write ops channels (ch_control_reliable channels) bs Normal r"

definition send_control_teardown :: "'r rtc \<Rightarrow> NvstInputChannels \<Rightarrow> bytes \<Rightarrow> 'r \<Rightarrow> bool \<times> 'r" where
  "send_control_teardown ops channels bs r = channels_write ops channels (ch_control_reliable channels) bs Teardown r"

definition send_rtcp :: "'r rtc \<Rightarrow> NvstInputChannels \<Rightarrow> bytes \<Rightarrow> 'r \<Rightarrow> bool \<times> 'r" where
  "send_rtcp ops channels bs r = (case ch_rtcp channels of
     None \<Rightarrow> (False, r) | Some i \<Rightarrow> channels_write ops channels i bs Normal r)"

definition send_partial_control :: "'r rtc \<Rightarrow> NvstInputChannels \<Rightarrow> bytes \<Rightarrow> 'r \<Rightarrow> bool \<times> 'r" where
  "send_partial_control ops channels bs r = channels_write ops channels (ch_control_partial channels) bs Normal r"

definition send_keepalive :: "'r rtc \<Rightarrow> NvstInputChannels \<Rightarrow> u32 \<Rightarrow> 'r \<Rightarrow> bool \<times> 'r" where
  "send_keepalive ops channels stream_value r = send_control ops channels (control_keepalive stream_value) r"

definition send_mouse_cursor_capture :: "'r rtc \<Rightarrow> NvstInputChannels \<Rightarrow> bool \<Rightarrow> 'r \<Rightarrow> bool \<times> 'r" where
  "send_mouse_cursor_capture ops channels enabled r = send_control ops channels (mouse_cursor_capture enabled) r"

definition send_remote_cursor_tracking :: "'r rtc \<Rightarrow> NvstInputChannels \<Rightarrow> bool \<Rightarrow> 'r \<Rightarrow> bool \<times> 'r" where
  "send_remote_cursor_tracking ops channels enabled r = send_control ops channels (remote_cursor_tracking enabled) r"

text \<open>\<open>iter().all(...)\<close> over writes.\<close>

fun all_sent :: "('m \<Rightarrow> 'r \<Rightarrow> bool \<times> 'r) \<Rightarrow> 'm list \<Rightarrow> 'r \<Rightarrow> bool \<times> 'r" where
  "all_sent f [] r = (True, r)"
| "all_sent f (m # ms) r = (case f m r of (True, r) \<Rightarrow> all_sent f ms r | (False, r) \<Rightarrow> (False, r))"

definition send_activation :: "'r rtc \<Rightarrow> bool \<Rightarrow> bool \<Rightarrow> NvstInputChannels \<Rightarrow> u64 \<Rightarrow> 'r \<Rightarrow> (bool \<times> 'r) option" where
  "send_activation ops settings_enabled accel_first channels timestamp_us r =
     map_option (\<lambda>chain. all_sent (send_control ops channels) chain r) (activation_chain settings_enabled accel_first timestamp_us)"

definition route_channel :: "NvstInputChannels \<Rightarrow> NvstInputRoute \<Rightarrow> channel_id" where
  "route_channel channels route = (case route of
     ControlReliable \<Rightarrow> ch_control_reliable channels
   | ControlPartial \<Rightarrow> ch_control_partial channels
   | InputPartial \<Rightarrow> ch_input_partial channels)"

definition send_encoded :: "'r rtc \<Rightarrow> NvstInputChannels \<Rightarrow> NvstEncodedInput \<Rightarrow> 'r \<Rightarrow> bool \<times> 'r" where
  "send_encoded ops channels m r = channels_write ops channels (route_channel channels (ei_route m)) (ei_bytes m) Normal r"

definition TEXT_BATCH_GUARD :: nat where "TEXT_BATCH_GUARD = 128 * 1024"

definition text_batch_fits :: "nat \<Rightarrow> nat \<Rightarrow> nat \<Rightarrow> bool" where
  "text_batch_fits buffered batch_bytes guard \<longleftrightarrow> sat_add_usize buffered batch_bytes \<le> guard"

text \<open>\<open>cancelled\<close> is what \<open>is_cancelled()\<close> answers when it is asked.\<close>

definition send_text :: "'r rtc \<Rightarrow> NvstInputChannels \<Rightarrow> bytes \<Rightarrow> bool \<Rightarrow> u64 \<Rightarrow> 'r \<Rightarrow> (bool \<times> 'r) option" where
  "send_text ops channels bs cancelled timestamp_us r =
     (case unicode_text_messages bs timestamp_us of
        None \<Rightarrow> None
      | Some messages \<Rightarrow>
          let total_bytes = sum_list (map (length \<circ> ei_bytes) messages);
              buffered = buffered_total ops channels r;
              control = ch_control_reliable channels
          in Some (if \<not> text_batch_fits buffered total_bytes TEXT_BATCH_GUARD then (False, r)
                   else if \<not> Control.is_admitted (admit_write buffered total_bytes Normal) then (False, r)
                   else if \<not> rtc_channel ops control r then (False, r)
                   else if cancelled then (True, r)
                   else all_sent (\<lambda>m. rtc_write ops control (ei_bytes m)) messages r))"

section \<open>Handshake\<close>

text \<open>\<open>input_protocol_version\<close>: the loop over the commands of a message, then the two short forms.\<close>

function version_loop :: "bytes \<Rightarrow> u16 option" where
  "version_loop bs = (case bs of
     c0 # c1 # l0 # l1 # rest \<Rightarrow>
       let code = from_le16 c0 c1; payload_len = unat (from_le16 l0 l1)
       in if length rest < payload_len then None
          else if code = COMMAND_INPUT_VERSION \<and> 2 \<le> payload_len then Some (from_le16 (rest ! 0) (rest ! 1))
          else version_loop (drop payload_len rest)
   | _ \<Rightarrow> None)"
  by pat_completeness auto
termination by (relation "measure length") auto

declare version_loop.simps [simp del]

definition input_protocol_version :: "bytes \<Rightarrow> u16 option" where
  "input_protocol_version bs =
     (if length bs < 2 then None
      else case version_loop bs of
        Some version \<Rightarrow> Some version
      | None \<Rightarrow>
          let first = from_le16 (bs ! 0) (bs ! 1)
          in if first = COMMAND_INPUT_VERSION
             then Some (if 4 \<le> length bs then from_le16 (bs ! 2) (bs ! 3) else 2)
             else if bs ! 0 = 0x0e then Some first else None)"

record NvstInputChannelState =
  cst_control_open :: bool
  cst_negotiated_version :: "u16 option"
  cst_ready_reported :: bool
  cst_activation_sent :: bool

definition NvstInputChannelState_default :: NvstInputChannelState where
  "NvstInputChannelState_default = \<lparr> cst_control_open = False, cst_negotiated_version = None, cst_ready_reported = False,
     cst_activation_sent = False \<rparr>"

definition is_ready :: "NvstInputChannelState \<Rightarrow> bool" where
  "is_ready st \<longleftrightarrow> cst_control_open st \<and> cst_negotiated_version st \<noteq> None"

definition take_new_ready_version :: "NvstInputChannelState \<Rightarrow> u16 option \<times> NvstInputChannelState" where
  "take_new_ready_version st =
     (if cst_ready_reported st \<or> \<not> is_ready st then (None, st)
      else (cst_negotiated_version st, st\<lparr> cst_ready_reported := True \<rparr>))"

definition channel_opened :: "NvstInputChannels \<Rightarrow> channel_id \<Rightarrow> NvstInputChannelState \<Rightarrow> u16 option \<times> NvstInputChannelState" where
  "channel_opened channels i st =
     take_new_ready_version (if i = ch_control_reliable channels then st\<lparr> cst_control_open := True \<rparr> else st)"

definition channel_data :: "NvstInputChannels \<Rightarrow> channel_id \<Rightarrow> bytes \<Rightarrow> NvstInputChannelState \<Rightarrow> u16 option \<times> NvstInputChannelState" where
  "channel_data channels i bs st =
     take_new_ready_version
       (if i = ch_control_reliable channels
        then case input_protocol_version bs of None \<Rightarrow> st | Some version \<Rightarrow> st\<lparr> cst_negotiated_version := Some version \<rparr>
        else st)"

definition channel_closed :: "NvstInputChannels \<Rightarrow> channel_id \<Rightarrow> NvstInputChannelState \<Rightarrow> bool \<times> NvstInputChannelState" where
  "channel_closed channels i st =
     (if i = ch_input_partial channels then (is_ready st, st)
      else if i \<noteq> ch_control_reliable channels then (False, st)
      else (is_ready st, st\<lparr> cst_control_open := False, cst_negotiated_version := None, cst_ready_reported := False,
              cst_activation_sent := False \<rparr>))"

definition INPUT_HANDSHAKE_TIMEOUT :: duration where "INPUT_HANDSHAKE_TIMEOUT = secs 5"

definition handshake_timed_out :: "instant option \<Rightarrow> instant \<Rightarrow> NvstInputChannelState \<Rightarrow> bool" where
  "handshake_timed_out started_at now st \<longleftrightarrow> \<not> is_ready st \<and>
     (case started_at of None \<Rightarrow> False | Some started \<Rightarrow> INPUT_HANDSHAKE_TIMEOUT \<le> now - started)"

definition mark_activation_sent :: "NvstInputChannelState \<Rightarrow> NvstInputChannelState" where
  "mark_activation_sent st = st\<lparr> cst_activation_sent := True \<rparr>"

text \<open>\<open>finish_nvst_input_handshake\<close> of \<open>nvst.rs\<close>: the answer, the channel state, the readiness flag, the events and the
  transport.\<close>

definition finish_nvst_input_handshake ::
  "'r rtc \<Rightarrow> bool \<Rightarrow> bool \<Rightarrow> NvstInputChannels \<Rightarrow> u64 \<Rightarrow> u16 \<Rightarrow> NvstInputChannelState \<Rightarrow> bool \<Rightarrow> NvstReceiveEvent list \<Rightarrow> 'r
   \<Rightarrow> (bool \<times> NvstInputChannelState \<times> bool \<times> NvstReceiveEvent list \<times> 'r) option" where
  "finish_nvst_input_handshake ops settings_enabled accel_first channels timestamp_us version st input_ready events r =
     (if cst_activation_sent st then Some (True, st, True, events @ [InputReady version], r)
      else case send_activation ops settings_enabled accel_first channels timestamp_us r of
             None \<Rightarrow> None
           | Some (False, r) \<Rightarrow>
               Some (False, st, input_ready, events @ [InputUnavailable ''input activation could not be queued''], r)
           | Some (True, r) \<Rightarrow> Some (True, mark_activation_sent st, True, events @ [InputReady version], r))"

section \<open>Cursor messages\<close>

record NvstServerCursorMessage =
  sm_command :: u16
  sm_offset :: nat
  sm_raw :: bytes
  sm_cursor_id :: "u32 option"
  sm_position :: "(u16 \<times> u16) option"
  sm_visible :: "bool option"
  sm_normalized :: "bytes option"

definition cursor_message :: "u16 \<Rightarrow> nat \<Rightarrow> bytes \<Rightarrow> bytes \<Rightarrow> NvstServerCursorMessage list" where
  "cursor_message code offset raw payload =
     (if code = COMMAND_SYSTEM_CURSOR \<and> 4 \<le> length payload then
        let cursor_id = from_le32 (payload ! 0) (payload ! 1) (payload ! 2) (payload ! 3)
        in [\<lparr> sm_command = code, sm_offset = offset, sm_raw = raw, sm_cursor_id = Some cursor_id,
              sm_position = (if 8 \<le> length payload
                then Some (from_le16 (payload ! 4) (payload ! 5), from_le16 (payload ! 6) (payload ! 7)) else None),
              sm_visible = (if 8 < length payload then Some (payload ! 8 \<noteq> 0) else None),
              sm_normalized = (if unat cursor_id \<le> 255
                then Some ([0, ucast cursor_id, 0, 0, 0, 0, 0]
                           @ (if 8 \<le> length payload then take 4 (drop 4 payload) else [])) else None) \<rparr>]
      else if code = COMMAND_BITMAP_CURSOR \<and> 6 \<le> length payload
        \<and> (case read_u16_le payload 4 of None \<Rightarrow> False | Some n \<Rightarrow> n = 0 \<or> 12 + unat n \<le> length payload) then
        [\<lparr> sm_command = code, sm_offset = offset, sm_raw = raw,
           sm_cursor_id = Some (from_le32 (payload ! 0) (payload ! 1) (payload ! 2) (payload ! 3)),
           sm_position = None, sm_visible = None, sm_normalized = None \<rparr>]
      else [])"

text \<open>The loop, on what is left of the message from the offset on.\<close>

function cursor_loop :: "nat \<Rightarrow> bytes \<Rightarrow> NvstServerCursorMessage list" where
  "cursor_loop offset bs = (case bs of
     c0 # c1 # l0 # l1 # rest \<Rightarrow>
       let code = from_le16 c0 c1; payload_len = unat (from_le16 l0 l1)
       in if length rest < payload_len then []
          else cursor_message code offset (take (4 + payload_len) bs) (take payload_len rest)
               @ cursor_loop (offset + 4 + payload_len) (drop payload_len rest)
   | _ \<Rightarrow> [])"
  by pat_completeness auto
termination by (relation "measure (length \<circ> snd)") auto

declare cursor_loop.simps [simp del]

definition server_cursor_messages :: "bytes \<Rightarrow> NvstServerCursorMessage list" where
  "server_cursor_messages bs = cursor_loop 0 bs"

section \<open>The budget is kept\<close>

lemma sum_list_one_grows:
  fixes f g :: "'a \<Rightarrow> nat"
  assumes "distinct xs" and "\<And>x. x \<in> set xs \<Longrightarrow> g x \<le> f x + (if x = i then n else 0)"
  shows "sum_list (map g xs) \<le> sum_list (map f xs) + n"
proof -
  have "sum_list (map g xs) \<le> sum_list (map (\<lambda>x. f x + (if x = i then n else 0)) xs)" using assms(2) by (rule sum_list_mono)
  also have "\<dots> = sum_list (map f xs) + sum_list (map (\<lambda>x. if x = i then n else 0) xs)" by (rule sum_list_addf)
  also have "sum_list (map (\<lambda>x. if x = i then n else 0) xs) \<le> n"
    using assms(1) by (induction xs) (auto simp: sum_list_eq_0_iff)
  finally show ?thesis by simp
qed

lemma rtc_write_total:
  assumes "rtc_ok ops" and "distinct (all_channels channels)" and "rtc_write ops i bs r = (ok, r')"
  shows "buffered_total ops channels r' \<le> buffered_total ops channels r + (if ok then length bs else 0)"
proof -
  have law: "rtc_channel ops j r' = rtc_channel ops j r"
    "rtc_buffered_amount ops j r' \<le> rtc_buffered_amount ops j r + (if ok \<and> j = i then length bs else 0)" for j
    using assms(1,3) unfolding rtc_ok_def by blast+
  then have "(\<lambda>j. rtc_channel ops j r') = (\<lambda>j. rtc_channel ops j r)" by blast
  moreover have "rtc_buffered_amount ops j r' \<le> rtc_buffered_amount ops j r + (if j = i then if ok then length bs else 0 else 0)" for j
    using law(2) [of j] by (cases "j = i") auto
  ultimately show ?thesis unfolding buffered_total_def
    by (simp only:) (intro sum_list_one_grows [where i = i] distinct_filter assms(2))
qed

definition write_limit :: "WriteClass \<Rightarrow> nat" where
  "write_limit write_class = (case write_class of Normal \<Rightarrow> NORMAL_BUDGET | Teardown \<Rightarrow> TRANSPORT_AGGREGATE_CAPACITY)"

lemma channels_write_total:
  assumes "rtc_ok ops" and "distinct (all_channels channels)" and "channels_write ops channels i bs write_class r = (ok, r')"
  shows "buffered_total ops channels r' \<le> max (buffered_total ops channels r) (write_limit write_class)"
  using assms(3) rtc_write_total [OF assms(1,2), of i bs r ok r']
  by (auto simp: channels_write_def admitted_iff write_limit_def split: if_splits WriteClass.splits)

lemma all_sent_total:
  assumes "all_sent (send_control ops channels) chain r = (ok, r')" and "rtc_ok ops" and "distinct (all_channels channels)"
  shows "buffered_total ops channels r' \<le> max (buffered_total ops channels r) NORMAL_BUDGET"
  using assms(1)
proof (induction chain arbitrary: r)
  case (Cons bs chain)
  obtain ok1 r1 where s: "send_control ops channels bs r = (ok1, r1)" by (metis surj_pair)
  then have "buffered_total ops channels r1 \<le> max (buffered_total ops channels r) NORMAL_BUDGET"
    using channels_write_total [OF assms(2,3)] by (fastforce simp: send_control_def write_limit_def)
  with Cons.IH [of r1] Cons.prems s show ?case by (cases ok1) auto
qed simp

lemma text_writes_total:
  assumes "rtc_ok ops" and "distinct (all_channels channels)"
    and "all_sent (\<lambda>m. rtc_write ops i (ei_bytes m)) ms r = (ok, r')"
  shows "buffered_total ops channels r' \<le> buffered_total ops channels r + sum_list (map (length \<circ> ei_bytes) ms)"
  using assms(3)
proof (induction ms arbitrary: r)
  case (Cons m ms)
  obtain ok1 r1 where s: "rtc_write ops i (ei_bytes m) r = (ok1, r1)" by (metis surj_pair)
  with rtc_write_total [OF assms(1,2) s] Cons.IH [of r1] Cons.prems show ?case by (cases ok1) auto
qed simp

lemma send_text_total:
  assumes "rtc_ok ops" and "distinct (all_channels channels)" and "send_text ops channels bs cancelled timestamp r = Some (ok, r')"
  shows "buffered_total ops channels r' \<le> max (buffered_total ops channels r) NORMAL_BUDGET"
proof -
  from assms(3) obtain ms where ms: "unicode_text_messages bs timestamp = Some ms" by (auto simp: send_text_def split: option.splits)
  show ?thesis
  proof (cases "Control.is_admitted (admit_write (buffered_total ops channels r) (sum_list (map (length \<circ> ei_bytes) ms)) Normal)")
    case True
    then have fits: "buffered_total ops channels r + sum_list (map (length \<circ> ei_bytes) ms) \<le> NORMAL_BUDGET"
      by (simp add: admitted_iff)
    show ?thesis
      using assms(3) ms fits text_writes_total [OF assms(1,2), of "ch_control_reliable channels" ms r ok r']
      by (auto simp: send_text_def Let_def split: if_splits)
  next
    case False
    then show ?thesis using assms(3) ms by (auto simp: send_text_def Let_def split: if_splits)
  qed
qed

text \<open>What a session writes, in any order; the stack may also send bytes off in between.\<close>

datatype channel_op =
    WriteEncoded NvstEncodedInput
  | WriteControl bytes
  | WritePartialControl bytes
  | WriteRtcp bytes
  | WriteText bytes bool u64
  | WriteActivation bool bool u64
  | WriteTeardown bytes

fun channel_step :: "'r rtc \<Rightarrow> NvstInputChannels \<Rightarrow> channel_op \<Rightarrow> 'r \<Rightarrow> (bool \<times> 'r) option" where
  "channel_step ops channels (WriteEncoded m) r = Some (send_encoded ops channels m r)"
| "channel_step ops channels (WriteControl bs) r = Some (send_control ops channels bs r)"
| "channel_step ops channels (WritePartialControl bs) r = Some (send_partial_control ops channels bs r)"
| "channel_step ops channels (WriteRtcp bs) r = Some (send_rtcp ops channels bs r)"
| "channel_step ops channels (WriteText bs cancelled timestamp) r = send_text ops channels bs cancelled timestamp r"
| "channel_step ops channels (WriteActivation enabled accel_first timestamp) r =
     send_activation ops enabled accel_first channels timestamp r"
| "channel_step ops channels (WriteTeardown bs) r = Some (send_control_teardown ops channels bs r)"

fun channel_run :: "'r rtc \<Rightarrow> NvstInputChannels \<Rightarrow> channel_op list \<Rightarrow> 'r \<Rightarrow> 'r option" where
  "channel_run ops channels [] r = Some r"
| "channel_run ops channels (op # rest) r =
     (case channel_step ops channels op r of None \<Rightarrow> None | Some (_, r) \<Rightarrow> channel_run ops channels rest r)"

definition is_teardown :: "channel_op \<Rightarrow> bool" where
  "is_teardown op = (case op of WriteTeardown _ \<Rightarrow> True | _ \<Rightarrow> False)"

lemma channel_step_total:
  assumes "rtc_ok ops" and "distinct (all_channels channels)" and "channel_step ops channels op r = Some (ok, r')"
  shows "buffered_total ops channels r' \<le>
    max (buffered_total ops channels r) (if is_teardown op then TRANSPORT_AGGREGATE_CAPACITY else NORMAL_BUDGET)"
proof -
  note w = channels_write_total [OF assms(1,2)]
  show ?thesis
    using assms(3) send_text_total [OF assms(1,2)] all_sent_total [OF _ assms(1,2)]
    by (cases op) (fastforce simp: is_teardown_def send_encoded_def send_control_def send_partial_control_def send_rtcp_def
        send_control_teardown_def send_activation_def write_limit_def dest: w split: option.splits)+
qed

text \<open>However much input, control traffic and text a session offers, the data channels never hold more than the normal
  budget of 64 KiB, so that a teardown write of up to 64 KiB is always admitted, and with it never more than the
  128 KiB the transport can hold.\<close>

theorem channel_budget_kept:
  assumes "rtc_ok ops" and "distinct (all_channels channels)" and "buffered_total ops channels r \<le> NORMAL_BUDGET"
    and "channel_run ops channels writes r = Some r'" and "\<forall>op\<in>set writes. \<not> is_teardown op"
    and "bs \<noteq> []" and "length bs \<le> TEARDOWN_RESERVE"
  shows "buffered_total ops channels r' \<le> NORMAL_BUDGET
    \<and> admit_write (buffered_total ops channels r') (length bs) Teardown = Admitted
    \<and> buffered_total ops channels (snd (send_control_teardown ops channels bs r')) \<le> TRANSPORT_AGGREGATE_CAPACITY"
proof -
  have total: "buffered_total ops channels r' \<le> NORMAL_BUDGET"
    using assms(3-5)
  proof (induction writes arbitrary: r)
    case (Cons op rest)
    from Cons.prems(2) obtain ok r1 where s: "channel_step ops channels op r = Some (ok, r1)" "channel_run ops channels rest r1 = Some r'"
      by (auto split: option.splits)
    have "buffered_total ops channels r1 \<le> NORMAL_BUDGET"
      using channel_step_total [OF assms(1,2) s(1)] Cons.prems by simp
    from Cons.IH [OF this s(2)] Cons.prems show ?case by simp
  qed simp
  have "Control.is_admitted (admit_write (buffered_total ops channels r') (length bs) Teardown)"
    using total assms(6,7) by (simp add: admitted_iff budget_consts)
  then have "admit_write (buffered_total ops channels r') (length bs) Teardown = Admitted"
    by (auto simp: Control.is_admitted_def split: WriteAdmission.splits)
  moreover have "buffered_total ops channels (snd (send_control_teardown ops channels bs r')) \<le> TRANSPORT_AGGREGATE_CAPACITY"
    using channels_write_total [OF assms(1,2), of "ch_control_reliable channels" bs Teardown r'] total
    by (cases "channels_write ops channels (ch_control_reliable channels) bs Teardown r'")
      (auto simp: send_control_teardown_def write_limit_def budget_consts)
  ultimately show ?thesis using total by blast
qed

text \<open>A stack that takes every write on an open channel.\<close>

definition plain_rtc :: "(channel_id \<Rightarrow> nat) rtc" where
  "plain_rtc = \<lparr> rtc_channel = (\<lambda>_ _. True), rtc_buffered_amount = (\<lambda>i r. r i),
     rtc_write = (\<lambda>i bs r. (True, r(i := r i + length bs))) \<rparr>"

definition sample_channels :: NvstInputChannels where
  "sample_channels = \<lparr> ch_control_reliable = 0, ch_custom_reliable = 1, ch_custom_partial = 2, ch_control_partial = 3,
     ch_control_unreliable = 4, ch_input_partial = 5, ch_cursor = Some 6, ch_rtcp = Some 7 \<rparr>"

lemma plain_rtc_ok: "rtc_ok plain_rtc"
  by (auto simp: rtc_ok_def plain_rtc_def)

lemma sample_channels_distinct: "distinct (all_channels sample_channels)"
  by (simp add: all_channels_def sample_channels_def)

theorem channel_budget_kept_witness:
  "\<exists>r. channel_run plain_rtc sample_channels [WriteControl [1, 2, 3], WriteRtcp [4]] (\<lambda>_. 0) = Some r
     \<and> admit_write (buffered_total plain_rtc sample_channels r) 5 Teardown = Admitted"
proof -
  obtain a r1 where 1: "send_control plain_rtc sample_channels [1, 2, 3] (\<lambda>_. 0) = (a, r1)" by (metis surj_pair)
  obtain b r where 2: "send_rtcp plain_rtc sample_channels [4] r1 = (b, r)" by (metis surj_pair)
  from 1 2 have r: "channel_run plain_rtc sample_channels [WriteControl [1, 2, 3], WriteRtcp [4]] (\<lambda>_. 0) = Some r" by simp
  have "buffered_total plain_rtc sample_channels (\<lambda>_. 0) \<le> NORMAL_BUDGET"
    by (simp add: buffered_total_def plain_rtc_def all_channels_def sample_channels_def)
  moreover have "length [1, 2, 3, 4, 5 :: u8] = 5" "length [1, 2, 3, 4, 5 :: u8] \<le> TEARDOWN_RESERVE"
    by (simp_all add: TEARDOWN_RESERVE_def)
  ultimately have "admit_write (buffered_total plain_rtc sample_channels r) 5 Teardown = Admitted"
    using channel_budget_kept [OF plain_rtc_ok sample_channels_distinct _ r, of "[1, 2, 3, 4, 5]"] by (simp only: is_teardown_def) simp
  with r show ?thesis by blast
qed

section \<open>Text beyond the budget\<close>

lemma text_total_bytes:
  assumes "\<forall>m\<in>set ms. text_chunk_ok m"
  shows "12 * length ms + length (concat (map (the \<circ> text_of) ms)) \<le> sum_list (map (length \<circ> ei_bytes) ms)"
    and "length (concat (map (the \<circ> text_of) ms)) \<le> 0x3f8 * length ms"
  using assms by (induction ms) (auto simp: text_chunk_ok_def)

text \<open>C38: every message of a pasted text adds at least twelve bytes, and the whole batch has to fit the normal budget of
  64 KiB. A text that with this overhead exceeds the budget is therefore never sent, even on idle channels;
  the longest texts the text slot accepts (65536 bytes) are among them.\<close>

theorem long_text_never_sent:
  assumes "valid_utf8 bs" and "NORMAL_BUDGET < length bs + 12 * (length bs div 0x3f8)"
  shows "send_text ops channels bs cancelled timestamp r = Some (False, r)"
proof -
  from unicode_text_messages_exact [OF assms(1), of timestamp] obtain ms where
    ms: "unicode_text_messages bs timestamp = Some ms" "concat (map (the \<circ> text_of) ms) = bs" "\<forall>m\<in>set ms. text_chunk_ok m" by blast
  note t = text_total_bytes [OF ms(3), unfolded ms(2)]
  have "length bs div 0x3f8 \<le> length ms" using t(2) by (simp add: div_le_mono less_eq_div_iff_mult_less_eq)
  with t(1) assms(2) have "NORMAL_BUDGET < sum_list (map (length \<circ> ei_bytes) ms)" by linarith
  then have "\<not> Control.is_admitted (admit_write (buffered_total ops channels r) (sum_list (map (length \<circ> ei_bytes) ms)) Normal)"
    by (simp add: admitted_iff)
  then show ?thesis using ms(1) by (simp add: send_text_def Let_def)
qed

lemma ascii_valid: "valid_utf8 (replicate n 0x61)"
proof -
  have "replicate n (0x61 :: u8) = concat (replicate n [0x61])" by (induction n) auto
  moreover have "char_bytes [0x61]" by (simp add: char_bytes_def utf8_piece_def)
  ultimately show ?thesis unfolding valid_utf8_iff by (intro exI [of _ "replicate n [0x61]"]) simp
qed

theorem long_text_never_sent_witness:
  "fst (slot_submit (replicate MAX_TEXT_BYTES 0x61) None) = Inr (replicate MAX_TEXT_BYTES 0x61)
   \<and> send_text plain_rtc sample_channels (replicate MAX_TEXT_BYTES 0x61) False 1 (\<lambda>_. 0) = Some (False, \<lambda>_. 0)"
proof -
  have "NORMAL_BUDGET < length (replicate MAX_TEXT_BYTES (0x61 :: u8)) + 12 * (length (replicate MAX_TEXT_BYTES (0x61 :: u8)) div 0x3f8)"
    unfolding length_replicate by (simp add: budget_consts MAX_TEXT_BYTES_def)
  from long_text_never_sent [OF ascii_valid this, of plain_rtc sample_channels False 1 "\<lambda>_. 0"]
  show ?thesis
    using ascii_valid [of MAX_TEXT_BYTES] unfolding slot_submit_def valid_utf8_def
    by (simp add: slot_live_def MAX_TEXT_BYTES_def)
qed

section \<open>The handshake\<close>

datatype handshake_event = Opened channel_id | Data channel_id bytes | ClosedChannel channel_id | ActivationSent

definition handshake_step :: "NvstInputChannels \<Rightarrow> handshake_event \<Rightarrow> NvstInputChannelState \<Rightarrow> u16 option \<times> NvstInputChannelState" where
  "handshake_step channels event st = (case event of
     Opened i \<Rightarrow> channel_opened channels i st
   | Data i bs \<Rightarrow> channel_data channels i bs st
   | ClosedChannel i \<Rightarrow> (None, snd (channel_closed channels i st))
   | ActivationSent \<Rightarrow> (None, mark_activation_sent st))"

fun handshake_run :: "NvstInputChannels \<Rightarrow> handshake_event list \<Rightarrow> NvstInputChannelState \<Rightarrow> u16 option list \<times> NvstInputChannelState" where
  "handshake_run channels [] st = ([], st)"
| "handshake_run channels (event # events) st =
     (case handshake_step channels event st of (v, st) \<Rightarrow>
       (case handshake_run channels events st of (vs, st) \<Rightarrow> (v # vs, st)))"

text \<open>The abstract handshake: whether the control channel is open and the version the server announced on it.\<close>

record handshake_spec =
  hs_open :: bool
  hs_version :: "u16 option"

definition spec_ready :: "handshake_spec \<Rightarrow> bool" where
  "spec_ready h \<longleftrightarrow> hs_open h \<and> hs_version h \<noteq> None"

definition spec_step :: "NvstInputChannels \<Rightarrow> handshake_event \<Rightarrow> handshake_spec \<Rightarrow> handshake_spec" where
  "spec_step channels event h = (case event of
     Opened i \<Rightarrow> if i = ch_control_reliable channels then h\<lparr> hs_open := True \<rparr> else h
   | Data i bs \<Rightarrow> if i = ch_control_reliable channels \<and> input_protocol_version bs \<noteq> None
                  then h\<lparr> hs_version := input_protocol_version bs \<rparr> else h
   | ClosedChannel i \<Rightarrow> if i = ch_control_reliable channels then \<lparr> hs_open = False, hs_version = None \<rparr> else h
   | ActivationSent \<Rightarrow> h)"

text \<open>It reports a version at each step that makes it ready.\<close>

fun spec_run :: "NvstInputChannels \<Rightarrow> handshake_event list \<Rightarrow> handshake_spec \<Rightarrow> u16 option list \<times> handshake_spec" where
  "spec_run channels [] h = ([], h)"
| "spec_run channels (event # events) h =
     (let h' = spec_step channels event h;
          v = (if \<not> spec_ready h \<and> spec_ready h' then hs_version h' else None)
      in case spec_run channels events h' of (vs, h') \<Rightarrow> (v # vs, h'))"

definition handshake_abs :: "NvstInputChannelState \<Rightarrow> handshake_spec" where
  "handshake_abs st = \<lparr> hs_open = cst_control_open st, hs_version = cst_negotiated_version st \<rparr>"

lemma handshake_step_refines:
  assumes "cst_ready_reported st = is_ready st" and "handshake_step channels event st = (v, st')"
    and "ch_input_partial channels \<noteq> ch_control_reliable channels"
  shows "cst_ready_reported st' = is_ready st' \<and> handshake_abs st' = spec_step channels event (handshake_abs st)
    \<and> v = (if \<not> spec_ready (handshake_abs st) \<and> spec_ready (handshake_abs st') then hs_version (handshake_abs st') else None)"
  using assms
  by (cases event)
    (auto simp: handshake_step_def channel_opened_def channel_data_def channel_closed_def take_new_ready_version_def
      mark_activation_sent_def handshake_abs_def spec_step_def spec_ready_def is_ready_def split: if_splits option.splits)

lemma handshake_run_refines:
  assumes "cst_ready_reported st = is_ready st" and "ch_input_partial channels \<noteq> ch_control_reliable channels"
    and "handshake_run channels events st = (vs, st')"
  shows "spec_run channels events (handshake_abs st) = (vs, handshake_abs st')"
  using assms(1,3)
proof (induction events arbitrary: st vs st')
  case (Cons event events)
  obtain v st1 where s: "handshake_step channels event st = (v, st1)" by (metis surj_pair)
  obtain vs1 st2 where r: "handshake_run channels events st1 = (vs1, st2)" by (metis surj_pair)
  from handshake_step_refines [OF Cons.prems(1) s assms(2)] Cons.IH [OF _ r] Cons.prems(2) s r
  show ?case by (auto simp: Let_def)
qed simp

text \<open>The input handshake reports a protocol version exactly when the control channel is open and a version has been
  announced, once, as soon as both hold in whichever order they come, and again only after the control channel
  was closed in between: the run of the channel state is that of the abstract handshake.\<close>

theorem handshake_refines_spec:
  assumes "ch_input_partial channels \<noteq> ch_control_reliable channels"
    and "handshake_run channels events NvstInputChannelState_default = (vs, st)"
  shows "spec_run channels events \<lparr> hs_open = False, hs_version = None \<rparr> = (vs, handshake_abs st)"
  using handshake_run_refines [OF _ assms] by (simp add: NvstInputChannelState_default_def is_ready_def handshake_abs_def)

theorem handshake_refines_spec_witness:
  "fst (spec_run sample_channels [Data 0 [0x0e, 0x02, 0x02, 0x00, 0x03, 0x00], Opened 0, Opened 0] \<lparr> hs_open = False, hs_version = None \<rparr>)
     = [None, Some 3, None]"
proof -
  let ?events = "[Data 0 [0x0e, 0x02, 0x02, 0x00, 0x03, 0x00], Opened 0, Opened 0]"
  obtain vs st where r: "handshake_run sample_channels ?events NvstInputChannelState_default = (vs, st)" by (metis surj_pair)
  have "fst (handshake_run sample_channels ?events NvstInputChannelState_default) = [None, Some 3, None]" by code_simp
  with handshake_refines_spec [OF _ r] r show ?thesis by (simp add: sample_channels_def)
qed

end
