(* ===== verification/DecoderQueue.thy ===== *)
theory DecoderQueue
  imports Prelude
begin

text \<open>
  The queue of compressed video in front of the decoder (\<open>video_queue.rs\<close> of the platform crate). A frame that
  depends on another may only reach the decoder directly after it, so the queue drops whole chains and not
  single frames. Every method takes the one lock of the queue, so a method is one transition of its state;
  the wait of \<open>pop_packet\<close> on an empty open queue is the value \<open>None\<close>.
\<close>

section \<open>Model\<close>

datatype MediaCodec = MediaH264 | MediaH265 | MediaAv1 | Opus u8 | UnsupportedCodec string

record EncodedFrame =
  ef_mid :: string
  ef_codec :: MediaCodec
  ef_data :: bytes
  ef_frame_index :: "u32 option"
  ef_timestamp :: nat
  ef_clock_rate_hz :: u32
  ef_keyframe :: bool
  ef_contiguous :: bool
  ef_ssrc :: "u32 option"

record VideoPacket =
  vp_frame :: EncodedFrame
  vp_generation :: u64
  vp_reset_decoder :: bool

record VideoPush =
  vh_dropped :: nat
  vh_request_keyframe :: bool

record VideoQueue =
  vq_capacity :: nat
  vq_frames :: "VideoPacket list"
  vq_generation :: u64
  vq_waiting_for_keyframe :: bool
  vq_request_pending :: bool
  vq_closed :: bool

definition VideoQueue_new :: "nat \<Rightarrow> VideoQueue option" where
  "VideoQueue_new capacity =
     (if capacity > 0
      then Some \<lparr> vq_capacity = capacity, vq_frames = [], vq_generation = 1, vq_waiting_for_keyframe = True,
                  vq_request_pending = False, vq_closed = False \<rparr>
      else None)"

definition invalidate_locked :: "VideoQueue \<Rightarrow> nat \<times> VideoQueue" where
  "invalidate_locked q =
     (length (vq_frames q),
      q\<lparr> vq_frames := [], vq_generation := vq_generation q + 1, vq_waiting_for_keyframe := True, vq_request_pending := False \<rparr>)"

text \<open>What \<open>push\<close> does after a gap or an overflow has been dealt with: \<open>dropped\<close> frames are gone already.\<close>

definition admit_frame :: "EncodedFrame \<Rightarrow> nat \<Rightarrow> VideoQueue \<Rightarrow> VideoPush \<times> VideoQueue" where
  "admit_frame frame dropped q =
     (if vq_waiting_for_keyframe q \<and> \<not> ef_keyframe frame
      then (\<lparr> vh_dropped = dropped + 1, vh_request_keyframe = \<not> vq_request_pending q \<rparr>, q\<lparr> vq_request_pending := True \<rparr>)
      else let (dropped, q) = (if vq_waiting_for_keyframe q \<and> vq_frames q \<noteq> []
                               then let (n, q) = invalidate_locked q in (dropped + n, q)
                               else (dropped, q));
               packet = \<lparr> vp_frame = frame, vp_generation = vq_generation q, vp_reset_decoder = vq_waiting_for_keyframe q \<rparr>
           in (\<lparr> vh_dropped = dropped, vh_request_keyframe = False \<rparr>,
               q\<lparr> vq_waiting_for_keyframe := False, vq_request_pending := False, vq_frames := vq_frames q @ [packet] \<rparr>))"

definition push_frame :: "EncodedFrame \<Rightarrow> VideoQueue \<Rightarrow> (unit + VideoPush) \<times> VideoQueue" where
  "push_frame frame q =
     (if vq_closed q then (Inl (), q)
      else if \<not> vq_waiting_for_keyframe q \<and> (\<not> ef_contiguous frame \<or> length (vq_frames q) = vq_capacity q)
      then if ef_contiguous frame \<and> \<not> ef_keyframe frame \<and> (\<exists>queued\<in>set (vq_frames q). ef_keyframe (vp_frame queued))
           then (Inr \<lparr> vh_dropped = 1, vh_request_keyframe = True \<rparr>,
                 q\<lparr> vq_waiting_for_keyframe := True, vq_request_pending := True \<rparr>)
           else let (dropped, q) = invalidate_locked q; (result, q) = admit_frame frame dropped q in (Inr result, q)
      else let (result, q) = admit_frame frame 0 q in (Inr result, q))"

definition pop_packet :: "VideoQueue \<Rightarrow> (VideoPacket option \<times> VideoQueue) option" where
  "pop_packet q = (case vq_frames q of
     packet # rest \<Rightarrow> Some (Some packet, q\<lparr> vq_frames := rest \<rparr>)
   | [] \<Rightarrow> if vq_closed q then Some (None, q) else None)"

definition pop_frame :: "VideoPacket \<Rightarrow> EncodedFrame" where
  "pop_frame packet = (vp_frame packet)\<lparr> ef_contiguous := ef_contiguous (vp_frame packet) \<and> \<not> vp_reset_decoder packet \<rparr>"

definition pop :: "VideoQueue \<Rightarrow> (EncodedFrame option \<times> VideoQueue) option" where
  "pop q = map_option (\<lambda>(packet, q). (map_option pop_frame packet, q)) (pop_packet q)"

definition submit_if_current :: "u64 \<Rightarrow> (unit \<Rightarrow> 't) \<Rightarrow> VideoQueue \<Rightarrow> 't option" where
  "submit_if_current generation enqueue q =
     (if vq_closed q \<or> vq_generation q \<noteq> generation then None else Some (enqueue ()))"

definition clear :: "VideoQueue \<Rightarrow> VideoQueue" where
  "clear q = snd (invalidate_locked q)"

definition hold_keyframe_request :: "VideoQueue \<Rightarrow> VideoQueue" where
  "hold_keyframe_request q = q\<lparr> vq_waiting_for_keyframe := True, vq_request_pending := True \<rparr>"

definition close :: "VideoQueue \<Rightarrow> VideoQueue" where
  "close q = (clear q)\<lparr> vq_closed := True \<rparr>"

section \<open>Runs\<close>

text \<open>What the threads do with the queue, what was offered to it and what the decoder took, in order.\<close>

datatype vq_op = PushFrame EncodedFrame | PopPacket | Clear | HoldKeyframeRequest | CloseQueue

record vq_run =
  qr_queue :: VideoQueue
  qr_offered :: "EncodedFrame list"
  qr_taken :: "VideoPacket list"
  qr_requests :: nat

fun vq_step :: "vq_op \<Rightarrow> vq_run \<Rightarrow> vq_run" where
  "vq_step (PushFrame frame) s =
     (case push_frame frame (qr_queue s) of
        (Inl _, q) \<Rightarrow> s\<lparr> qr_queue := q \<rparr>
      | (Inr result, q) \<Rightarrow>
          s\<lparr> qr_queue := q, qr_offered := qr_offered s @ [frame],
             qr_requests := qr_requests s + (if vh_request_keyframe result then 1 else 0) \<rparr>)"
| "vq_step PopPacket s =
     (case pop_packet (qr_queue s) of
        Some (Some packet, q) \<Rightarrow> s\<lparr> qr_queue := q, qr_taken := qr_taken s @ [packet] \<rparr>
      | _ \<Rightarrow> s)"
| "vq_step Clear s = s\<lparr> qr_queue := clear (qr_queue s) \<rparr>"
| "vq_step HoldKeyframeRequest s = s\<lparr> qr_queue := hold_keyframe_request (qr_queue s) \<rparr>"
| "vq_step CloseQueue s = s\<lparr> qr_queue := close (qr_queue s) \<rparr>"

definition vq_start :: "VideoQueue \<Rightarrow> vq_run" where
  "vq_start q = \<lparr> qr_queue = q, qr_offered = [], qr_taken = [], qr_requests = 0 \<rparr>"

section \<open>Chains\<close>

text \<open>Packets with the positions at which their frames were offered: a packet either opens a new chain with a key
  frame and a reset of the decoder, or its frame was offered directly after that of the packet before it and follows on it.\<close>

fun links :: "nat \<times> VideoPacket \<Rightarrow> nat \<times> VideoPacket \<Rightarrow> bool" where
  "links (i, p) (j, p') =
     (i < j \<and> (if vp_reset_decoder p' then ef_keyframe (vp_frame p') else j = Suc i \<and> ef_contiguous (vp_frame p')))"

definition decode_chain :: "EncodedFrame list \<Rightarrow> (nat \<times> VideoPacket) list \<Rightarrow> bool" where
  "decode_chain offered ips \<longleftrightarrow> successively links ips
     \<and> (ips \<noteq> [] \<longrightarrow> vp_reset_decoder (snd (hd ips)) \<and> ef_keyframe (vp_frame (snd (hd ips))))
     \<and> (\<forall>(i, p)\<in>set ips. i < length offered \<and> offered ! i = vp_frame p)"

lemma decode_chain_prefix: "decode_chain offered (ips @ jps) \<Longrightarrow> decode_chain offered ips"
  by (auto simp: decode_chain_def successively_append_iff)

lemma decode_chain_offered: "decode_chain offered ips \<Longrightarrow> decode_chain (offered @ later) ips"
  by (fastforce simp: decode_chain_def nth_append)

lemma decode_chain_snoc:
  assumes "decode_chain offered ips" and "j < length offered" and "offered ! j = vp_frame p"
    and "\<forall>i p. (i, p) \<in> set ips \<longrightarrow> i < j"
    and "if vp_reset_decoder p then ef_keyframe (vp_frame p)
         else ips \<noteq> [] \<and> j = Suc (fst (last ips)) \<and> ef_contiguous (vp_frame p)"
  shows "decode_chain offered (ips @ [(j, p)])"
proof -
  have "links (last ips) (j, p)" if "ips \<noteq> []"
    using assms(4,5) that by (cases "last ips") (metis last_in_set links.simps fst_conv)
  with assms show ?thesis by (auto simp: decode_chain_def successively_append_iff hd_append split: if_splits)
qed

text \<open>The invariant: what the decoder took followed by what is queued is such a chain, and while the queue is not
  waiting for a key frame the chain ends with the frame offered last.\<close>

definition chain_open :: "VideoQueue \<Rightarrow> EncodedFrame list \<Rightarrow> (nat \<times> VideoPacket) list \<Rightarrow> bool" where
  "chain_open q offered ips \<longleftrightarrow> (\<not> vq_waiting_for_keyframe q \<longrightarrow> ips \<noteq> [] \<and> Suc (fst (last ips)) = length offered)"

definition queue_inv :: "VideoQueue \<Rightarrow> bool" where
  "queue_inv q \<longleftrightarrow> length (vq_frames q) \<le> vq_capacity q \<and> 0 < vq_capacity q
     \<and> (\<forall>p\<in>set (vq_frames q). vp_generation p = vq_generation q)
     \<and> (vq_request_pending q \<longrightarrow> vq_waiting_for_keyframe q)"

definition run_inv :: "vq_run \<Rightarrow> bool" where
  "run_inv s \<longleftrightarrow> queue_inv (qr_queue s) \<and>
     (\<exists>ips. map snd ips = qr_taken s @ vq_frames (qr_queue s) \<and> decode_chain (qr_offered s) ips
        \<and> chain_open (qr_queue s) (qr_offered s) ips)"

lemma run_inv_waiting:
  assumes "run_inv s" and "queue_inv q" and "vq_waiting_for_keyframe q" and "\<exists>dropped. vq_frames (qr_queue s) = vq_frames q @ dropped"
  shows "run_inv (s\<lparr> qr_queue := q, qr_offered := qr_offered s @ later \<rparr>)"
proof -
  from assms(1) obtain ips where ips: "map snd ips = qr_taken s @ vq_frames (qr_queue s)" "decode_chain (qr_offered s) ips"
    by (auto simp: run_inv_def)
  from assms(4) obtain dropped where "vq_frames (qr_queue s) = vq_frames q @ dropped" by blast
  with ips(1) obtain kept rest where k: "ips = kept @ rest" "map snd kept = qr_taken s @ vq_frames q"
    by (metis append.assoc map_eq_append_conv)
  from decode_chain_offered [OF decode_chain_prefix [OF ips(2) [unfolded k(1)]]] k(2) assms(2,3) show ?thesis
    by (auto simp: run_inv_def chain_open_def)
qed

lemma queue_inv_invalidate: "queue_inv q \<Longrightarrow> queue_inv (snd (invalidate_locked q))"
  by (simp add: queue_inv_def invalidate_locked_def)

lemma run_inv_accepted:
  assumes "run_inv s" and "q' = q\<lparr> vq_waiting_for_keyframe := False, vq_request_pending := False, vq_frames := vq_frames q @ [p] \<rparr>"
    and "queue_inv q" and "length (vq_frames q) < vq_capacity q" and "vp_frame p = frame" and "vp_generation p = vq_generation q"
    and "if vp_reset_decoder p then ef_keyframe frame \<and> vq_frames q = []
         else ef_contiguous frame \<and> \<not> vq_waiting_for_keyframe (qr_queue s) \<and> vq_frames q = vq_frames (qr_queue s)"
  shows "run_inv (s\<lparr> qr_queue := q', qr_offered := qr_offered s @ [frame] \<rparr>)"
proof -
  from assms(1) obtain ips where ips: "map snd ips = qr_taken s @ vq_frames (qr_queue s)" "decode_chain (qr_offered s) ips"
    and chain: "chain_open (qr_queue s) (qr_offered s) ips"
    by (auto simp: run_inv_def)
  define kept where "kept = take (length (qr_taken s) + length (vq_frames q)) ips"
  have kept: "map snd kept = qr_taken s @ vq_frames q" using ips(1) assms(7) by (auto simp: kept_def take_map [symmetric] split: if_splits)
  have whole: "kept = ips" if "\<not> vp_reset_decoder p"
    using that ips(1) assms(7) by (metis (no_types, lifting) kept_def length_append length_map take_all_iff order_refl)
  let ?offered = "qr_offered s @ [frame]" and ?j = "length (qr_offered s)"
  have "decode_chain ?offered kept"
    unfolding kept_def using decode_chain_offered [OF decode_chain_prefix] ips(2) by (metis append_take_drop_id)
  moreover have "\<forall>i p. (i, p) \<in> set kept \<longrightarrow> i < ?j"
    using ips(2) by (auto simp: kept_def decode_chain_def dest!: in_set_takeD)
  moreover have "if vp_reset_decoder p then ef_keyframe (vp_frame p)
      else kept \<noteq> [] \<and> ?j = Suc (fst (last kept)) \<and> ef_contiguous (vp_frame p)"
    using assms(5,7) whole chain by (auto simp: chain_open_def)
  ultimately have "decode_chain ?offered (kept @ [(?j, p)])" by (intro decode_chain_snoc) (simp_all add: assms(5))
  moreover have "queue_inv q'" using assms(2-4,6) by (auto simp: queue_inv_def)
  ultimately show ?thesis using kept assms(2) by (auto simp: run_inv_def chain_open_def intro!: exI [of _ "kept @ [(?j, p)]"])
qed

text \<open>The steps keep the invariant.\<close>

lemma run_inv_admit:
  assumes "run_inv s" and "queue_inv q" and "admit_frame frame dropped q = (result, q')"
    and "vq_waiting_for_keyframe q \<Longrightarrow> vq_frames q = [] \<or> vq_frames q = vq_frames (qr_queue s)"
    and "\<not> vq_waiting_for_keyframe q \<Longrightarrow> ef_contiguous frame \<and> q = qr_queue s \<and> length (vq_frames q) < vq_capacity q"
  shows "run_inv (s\<lparr> qr_queue := q', qr_offered := qr_offered s @ [frame] \<rparr>)"
proof (cases "vq_waiting_for_keyframe q \<and> \<not> ef_keyframe frame")
  case True
  with assms(3) have q': "q' = q\<lparr> vq_request_pending := True \<rparr>" by (simp add: admit_frame_def)
  from True assms(2) have "queue_inv q'" "vq_waiting_for_keyframe q'" by (simp_all add: q' queue_inv_def)
  moreover have "\<exists>gone. vq_frames (qr_queue s) = vq_frames q' @ gone" using assms(4) True by (auto simp: q')
  ultimately show ?thesis by (rule run_inv_waiting [OF assms(1)])
next
  case False
  define q1 where "q1 = (if vq_waiting_for_keyframe q \<and> vq_frames q \<noteq> [] then snd (invalidate_locked q) else q)"
  define p where "p = \<lparr> vp_frame = frame, vp_generation = vq_generation q1, vp_reset_decoder = vq_waiting_for_keyframe q1 \<rparr>"
  have q1: "queue_inv q1" using assms(2) queue_inv_invalidate by (simp add: q1_def)
  have q': "q' = q1\<lparr> vq_waiting_for_keyframe := False, vq_request_pending := False, vq_frames := vq_frames q1 @ [p] \<rparr>"
    using False assms(3) by (auto simp: admit_frame_def Let_def q1_def p_def split: prod.splits if_splits)
  have waiting: "vq_waiting_for_keyframe q1 = vq_waiting_for_keyframe q" by (auto simp: q1_def invalidate_locked_def)
  have frames: "vq_frames q1 = (if vq_waiting_for_keyframe q then [] else vq_frames q)" by (auto simp: q1_def invalidate_locked_def)
  have cap: "vq_capacity q1 = vq_capacity q" by (simp add: q1_def invalidate_locked_def)
  show ?thesis
    by (rule run_inv_accepted [OF assms(1) q' q1]) (use False assms(2,5) waiting frames cap in \<open>auto simp: p_def queue_inv_def\<close>)
qed

lemma push_frame_inv:
  assumes "run_inv s" and "push_frame frame (qr_queue s) = (Inr result, q')"
  shows "run_inv (s\<lparr> qr_queue := q', qr_offered := qr_offered s @ [frame] \<rparr>)"
proof -
  let ?q = "qr_queue s"
  have inv: "queue_inv ?q" using assms(1) by (simp add: run_inv_def)
  have len: "length (vq_frames ?q) \<le> vq_capacity ?q" using inv by (simp add: queue_inv_def)
  consider (stuck) "q' = ?q\<lparr> vq_waiting_for_keyframe := True, vq_request_pending := True \<rparr>"
    | (broken) "admit_frame frame (fst (invalidate_locked ?q)) (snd (invalidate_locked ?q)) = (result, q')"
    | (plain) "admit_frame frame 0 ?q = (result, q')"
        "vq_waiting_for_keyframe ?q \<or> ef_contiguous frame \<and> length (vq_frames ?q) < vq_capacity ?q"
    using assms(2) len by (auto simp: push_frame_def Let_def split: if_splits prod.splits)
  then show ?thesis
  proof cases
    case stuck
    with inv have "queue_inv q'" "vq_waiting_for_keyframe q'" "vq_frames ?q = vq_frames q'" by (simp_all add: queue_inv_def)
    then show ?thesis using run_inv_waiting [OF assms(1), of q' "[frame]"] by auto
  next
    case broken
    show ?thesis
      by (rule run_inv_admit [OF assms(1) queue_inv_invalidate [OF inv] broken]) (simp_all add: invalidate_locked_def)
  next
    case plain
    show ?thesis by (rule run_inv_admit [OF assms(1) inv plain(1)]) (use plain(2) in auto)
  qed
qed

lemma run_inv_requests: "run_inv (s\<lparr> qr_requests := n \<rparr>) = run_inv s"
  by (simp add: run_inv_def)

lemma vq_step_inv: "run_inv s \<Longrightarrow> run_inv (vq_step op s)"
proof (cases op)
  case (PushFrame frame)
  assume inv: "run_inv s"
  obtain r q where p: "push_frame frame (qr_queue s) = (r, q)" by (metis surj_pair)
  show ?thesis
  proof (cases r)
    case (Inl u)
    with p have "q = qr_queue s" by (auto simp: push_frame_def Let_def split: if_splits prod.splits)
    with p PushFrame Inl inv show ?thesis by simp
  next
    case (Inr result)
    from push_frame_inv [OF inv p [unfolded Inr]] p PushFrame Inr
    show ?thesis by (simp add: run_inv_def)
  qed
next
  case PopPacket
  assume inv: "run_inv s"
  show ?thesis
  proof (cases "vq_frames (qr_queue s)")
    case Nil
    with PopPacket inv show ?thesis by (simp add: pop_packet_def)
  next
    case (Cons p ps)
    with PopPacket inv show ?thesis by (auto simp: pop_packet_def run_inv_def queue_inv_def chain_open_def)
  qed
next
  case Clear
  assume inv: "run_inv s"
  have "queue_inv (clear (qr_queue s))" using inv queue_inv_invalidate by (simp add: clear_def run_inv_def)
  from run_inv_waiting [OF inv this, of "[]"] Clear show ?thesis by (simp add: clear_def invalidate_locked_def)
next
  case HoldKeyframeRequest
  assume inv: "run_inv s"
  have "queue_inv (hold_keyframe_request (qr_queue s))" using inv by (simp add: hold_keyframe_request_def run_inv_def queue_inv_def)
  from run_inv_waiting [OF inv this, of "[]"] HoldKeyframeRequest show ?thesis by (simp add: hold_keyframe_request_def)
next
  case CloseQueue
  assume inv: "run_inv s"
  have "queue_inv (close (qr_queue s))" using inv queue_inv_invalidate by (simp add: close_def clear_def run_inv_def queue_inv_def)
  from run_inv_waiting [OF inv this, of "[]"] CloseQueue show ?thesis by (simp add: close_def clear_def invalidate_locked_def)
qed

interpretation vq: state_machine vq_step run_inv
  by unfold_locales (rule vq_step_inv)

lemma run_inv_start: "VideoQueue_new capacity = Some q \<Longrightarrow> run_inv (vq_start q)"
  by (auto simp: VideoQueue_new_def vq_start_def run_inv_def queue_inv_def decode_chain_def chain_open_def split: if_splits)

lemma vq_capacity_step: "vq_capacity (qr_queue (vq_step op s)) = vq_capacity (qr_queue s)"
  by (cases op) (auto simp: push_frame_def admit_frame_def invalidate_locked_def pop_packet_def clear_def close_def
      hold_keyframe_request_def Let_def split: list.split prod.splits if_splits)

lemma vq_capacity_run: "vq_capacity (qr_queue (fold vq_step ops s)) = vq_capacity (qr_queue s)"
  by (induction ops arbitrary: s) (simp_all add: vq_capacity_step)

section \<open>What the decoder gets\<close>

text \<open>C15: whatever is offered to the queue and whenever it is cleared, held back or closed, the packets the decoder
  takes form intact reference chains: each opens with a key frame and a reset of the decoder, and every other
  packet carries the very frame offered after that of the packet before it and follows on it without a gap. The queue never
  holds more than its capacity.\<close>

theorem decoder_gets_intact_chains:
  assumes "VideoQueue_new capacity = Some q" and "s = fold vq_step ops (vq_start q)"
  shows "(\<exists>positions. length positions = length (qr_taken s) \<and> decode_chain (qr_offered s) (zip positions (qr_taken s)))
    \<and> length (vq_frames (qr_queue s)) \<le> capacity"
proof (rule conjI)
  have inv: "run_inv s" unfolding assms(2) by (rule vq.run_keeps [OF run_inv_start [OF assms(1)]])
  then obtain ips where ips: "map snd ips = qr_taken s @ vq_frames (qr_queue s)" "decode_chain (qr_offered s) ips"
    by (auto simp: run_inv_def)
  then obtain kept rest where k: "ips = kept @ rest" "map snd kept = qr_taken s" by (metis map_eq_append_conv)
  have "zip (map fst kept) (qr_taken s) = kept" by (metis k(2) zip_map_fst_snd)
  moreover have "length kept = length (qr_taken s)" by (metis k(2) length_map)
  ultimately show "\<exists>positions. length positions = length (qr_taken s) \<and> decode_chain (qr_offered s) (zip positions (qr_taken s))"
    using decode_chain_prefix [OF ips(2) [unfolded k(1)]] by (intro exI [of _ "map fst kept"]) simp
  have "vq_capacity (qr_queue s) = capacity"
    using assms(1) by (auto simp: assms(2) vq_capacity_run vq_start_def VideoQueue_new_def split: if_splits)
  with inv show "length (vq_frames (qr_queue s)) \<le> capacity" by (simp add: run_inv_def queue_inv_def)
qed

definition sample_frame :: "u32 \<Rightarrow> bool \<Rightarrow> EncodedFrame" where
  "sample_frame n keyframe = \<lparr> ef_mid = ''video'', ef_codec = MediaH264, ef_data = [1], ef_frame_index = Some n,
     ef_timestamp = unat n * 750, ef_clock_rate_hz = 90000, ef_keyframe = keyframe, ef_contiguous = True, ef_ssrc = None \<rparr>"

definition sample_queue :: VideoQueue where
  "sample_queue = \<lparr> vq_capacity = 2, vq_frames = [], vq_generation = 1, vq_waiting_for_keyframe = True,
     vq_request_pending = False, vq_closed = False \<rparr>"

definition sample_pushes :: "vq_op list" where
  "sample_pushes = [PushFrame (sample_frame 1 True), PopPacket, PushFrame (sample_frame 2 False), PushFrame (sample_frame 3 False),
     PushFrame (sample_frame 4 False), PushFrame (sample_frame 5 False), PushFrame (sample_frame 6 True),
     PushFrame (sample_frame 7 False), PopPacket, PopPacket]"

lemma sample_queue_new: "VideoQueue_new 2 = Some sample_queue"
  by (simp add: VideoQueue_new_def sample_queue_def)

lemma sample_taken:
  "map (ef_frame_index \<circ> vp_frame) (qr_taken (fold vq_step sample_pushes (vq_start sample_queue))) = [Some 1, Some 6, Some 7]"
  by code_simp

theorem decoder_gets_intact_chains_witness:
  "map (ef_frame_index \<circ> vp_frame) (qr_taken (fold vq_step sample_pushes (vq_start sample_queue))) = [Some 1, Some 6, Some 7]
     \<and> (\<exists>positions. length positions = 3
          \<and> decode_chain (qr_offered (fold vq_step sample_pushes (vq_start sample_queue)))
              (zip positions (qr_taken (fold vq_step sample_pushes (vq_start sample_queue)))))"
proof -
  have "length (qr_taken (fold vq_step sample_pushes (vq_start sample_queue))) = 3"
    using arg_cong [OF sample_taken, of length] by simp
  with decoder_gets_intact_chains [OF sample_queue_new refl, of sample_pushes] sample_taken show ?thesis by simp
qed

text \<open>A refused frame and a later key frame: the queue asks for a key frame, once, and takes the next one.\<close>

lemma admit_frame_cases:
  assumes "admit_frame frame dropped q = (result, q')"
  obtains (refused) "\<not> ef_keyframe frame" "vq_waiting_for_keyframe q'" "vq_request_pending q'"
      "vh_request_keyframe result = (\<not> vq_request_pending q)" "vq_waiting_for_keyframe q"
    | (taken) p where "vq_frames q' \<noteq> []" "last (vq_frames q') = p" "vp_frame p = frame" "\<not> vq_waiting_for_keyframe q'"
        "\<not> vh_request_keyframe result"
  using assms by (auto simp: admit_frame_def Let_def split: if_splits prod.splits)

text \<open>The queue recovers from every loss. An open queue takes every key frame. A frame it refuses leaves it
  waiting with a request for a key frame outstanding, and the request is reported exactly when none was
  outstanding in the chain that is still waited for, so a decoder never waits for a key frame nobody has asked for.\<close>

theorem queue_recovers:
  assumes "VideoQueue_new capacity = Some q0" and "q = qr_queue (fold vq_step ops (vq_start q0))" and "\<not> vq_closed q"
    and "push_frame frame q = (r, q')"
  shows "\<exists>result. r = Inr result
    \<and> (if vq_frames q' \<noteq> [] \<and> vp_frame (last (vq_frames q')) = frame \<and> \<not> vq_waiting_for_keyframe q'
       then \<not> vh_request_keyframe result
       else \<not> ef_keyframe frame \<and> vq_waiting_for_keyframe q' \<and> vq_request_pending q'
         \<and> vh_request_keyframe result = (\<not> (vq_waiting_for_keyframe q \<and> vq_request_pending q)))"
proof -
  have "run_inv (fold vq_step ops (vq_start q0))" by (rule vq.run_keeps [OF run_inv_start [OF assms(1)]])
  then have pending: "vq_request_pending q \<Longrightarrow> vq_waiting_for_keyframe q" by (simp add: run_inv_def queue_inv_def assms(2))
  consider (stuck) "\<not> ef_keyframe frame" "r = Inr \<lparr> vh_dropped = 1, vh_request_keyframe = True \<rparr>"
      "q' = q\<lparr> vq_waiting_for_keyframe := True, vq_request_pending := True \<rparr>" "\<not> vq_waiting_for_keyframe q"
    | (broken) result where "r = Inr result" "\<not> vq_waiting_for_keyframe q"
        "admit_frame frame (fst (invalidate_locked q)) (snd (invalidate_locked q)) = (result, q')"
    | (plain) result where "r = Inr result" "admit_frame frame 0 q = (result, q')"
    using assms(3,4) by (auto simp: push_frame_def Let_def split: if_splits prod.splits)
  then show ?thesis
  proof cases
    case stuck
    then show ?thesis by simp
  next
    case broken
    from broken(3) show ?thesis
      by (cases rule: admit_frame_cases) (use broken(1,2) in \<open>auto simp: invalidate_locked_def\<close>)
  next
    case plain
    from plain(2) show ?thesis by (cases rule: admit_frame_cases) (use plain(1) pending in auto)
  qed
qed

theorem queue_recovers_witness:
  "let q = qr_queue (fold vq_step (take 4 sample_pushes) (vq_start sample_queue)); (r, q') = push_frame (sample_frame 4 False) q
   in r = Inr \<lparr> vh_dropped = 3, vh_request_keyframe = True \<rparr> \<and> vq_waiting_for_keyframe q' \<and> vq_request_pending q'"
proof -
  define q where "q = qr_queue (fold vq_step (take 4 sample_pushes) (vq_start sample_queue))"
  obtain r q' where p: "push_frame (sample_frame 4 False) q = (r, q')" by (metis surj_pair)
  have c: "\<not> vq_closed q" unfolding q_def by code_simp
  have "fst (push_frame (sample_frame 4 False) (qr_queue (fold vq_step (take 4 sample_pushes) (vq_start sample_queue))))
      = Inr \<lparr> vh_dropped = 3, vh_request_keyframe = True \<rparr>" by code_simp
  then have "r = Inr \<lparr> vh_dropped = 3, vh_request_keyframe = True \<rparr>" using p by (simp add: q_def)
  with queue_recovers [OF sample_queue_new q_def c p] p show ?thesis by (simp add: q_def [symmetric] Let_def split: if_splits)
qed

text \<open>Generations: a step bumps the generation at most once, \<open>Clear\<close> always.\<close>

lemma vq_step_generation:
  "\<exists>k. k \<le> 1 \<and> vq_generation (qr_queue (vq_step op s)) = vq_generation (qr_queue s) + of_nat k \<and> (op = Clear \<longrightarrow> k = 1)"
proof (cases op)
  case (PushFrame frame)
  obtain r q where p: "push_frame frame (qr_queue s) = (r, q)" by (metis surj_pair)
  then have "vq_generation q = vq_generation (qr_queue s) \<or> vq_generation q = vq_generation (qr_queue s) + 1"
    by (auto simp: push_frame_def admit_frame_def invalidate_locked_def Let_def split: if_splits prod.splits)
  then show ?thesis using p PushFrame by (cases r) (auto intro: exI [of _ 0] exI [of _ 1])
next
  case PopPacket
  then show ?thesis by (auto simp: pop_packet_def split: list.split)
next
  case Clear
  then show ?thesis by (auto simp: clear_def invalidate_locked_def)
next
  case HoldKeyframeRequest
  then show ?thesis by (auto simp: hold_keyframe_request_def)
next
  case CloseQueue
  then show ?thesis by (auto simp: close_def clear_def invalidate_locked_def intro: exI [of _ 1])
qed

lemma vq_run_generation:
  "\<exists>k. k \<le> length ops \<and> vq_generation (qr_queue (fold vq_step ops s)) = vq_generation (qr_queue s) + of_nat k
     \<and> (Clear \<in> set ops \<longrightarrow> 0 < k)"
proof (induction ops arbitrary: s)
  case (Cons op ops)
  obtain k where k: "k \<le> length ops" "Clear \<in> set ops \<longrightarrow> 0 < k"
    "vq_generation (qr_queue (fold vq_step ops (vq_step op s))) = vq_generation (qr_queue (vq_step op s)) + of_nat k"
    using Cons.IH by blast
  obtain j where j: "j \<le> 1" "op = Clear \<longrightarrow> j = 1" "vq_generation (qr_queue (vq_step op s)) = vq_generation (qr_queue s) + of_nat j"
    using vq_step_generation by blast
  show ?case by (rule exI [of _ "j + k"]) (use k j in \<open>auto simp: algebra_simps\<close>)
qed auto

lemma pop_packet_generation:
  assumes "run_inv s" and "pop_packet (qr_queue s) = Some (Some p, q)"
  shows "vp_generation p = vq_generation (qr_queue s)"
  using assms by (auto simp: pop_packet_def run_inv_def queue_inv_def split: list.splits if_splits)

text \<open>A packet taken before the queue was cleared is never handed to the decoder afterwards: its submission is
  refused, as long as fewer than 2 to the 64 operations lie in between.\<close>

theorem stale_submission_refused:
  assumes "VideoQueue_new capacity = Some q0" and "s = fold vq_step before (vq_start q0)"
    and "pop_packet (qr_queue s) = Some (Some p, q)" and "Clear \<in> set after" and "length after < 2 ^ 64 - 1"
  shows "submit_if_current (vp_generation p) enqueue (qr_queue (fold vq_step (PopPacket # after) s)) = None"
proof -
  have "run_inv s" unfolding assms(2) by (rule vq.run_keeps [OF run_inv_start [OF assms(1)]])
  from pop_packet_generation [OF this assms(3)] have g: "vp_generation p = vq_generation (qr_queue s)" .
  from vq_run_generation [of "PopPacket # after" s] obtain k where
    k: "k \<le> Suc (length after)" "0 < k" "vq_generation (qr_queue (fold vq_step (PopPacket # after) s)) = vq_generation (qr_queue s) + of_nat k"
    using assms(4) by auto
  have "of_nat k \<noteq> (0 :: u64)" using k(1,2) assms(5) by (simp add: word_of_nat_eq_0_iff nat_dvd_not_less)
  with k(3) g show ?thesis by (simp add: submit_if_current_def del: fold_simps)
qed

theorem stale_submission_refused_witness:
  "submit_if_current 1 (\<lambda>_. ()) (qr_queue (fold vq_step [PopPacket, Clear] (fold vq_step [PushFrame (sample_frame 1 True)] (vq_start sample_queue)))) = None"
proof -
  let ?s = "fold vq_step [PushFrame (sample_frame 1 True)] (vq_start sample_queue)"
  obtain p q where p: "pop_packet (qr_queue ?s) = Some (Some p, q)" "vp_generation p = 1"
    by (auto simp: vq_start_def sample_queue_def push_frame_def admit_frame_def sample_frame_def pop_packet_def Let_def)
  from stale_submission_refused [OF sample_queue_new refl p(1), of "[Clear]" "\<lambda>_. ()"] p(2) show ?thesis by simp
qed

end
