(* ===== verification/ReplayBuffer.thy ===== *)
theory ReplayBuffer
  imports DecoderQueue "HOL-Library.Sublist"
begin

text \<open>
  The replay buffer of the platform crate (\<open>replay.rs\<close>): the compressed frames of the last seconds, from which a
  clip can be saved at any time. \<open>partial_function\<close> models the loops that drop old frames, so that neither a loop
  that does not end nor an underflow of the byte count (\<open>None\<close>) is defined away. The seconds
  of a clock delta are computed in \<open>f64\<close> and a parameter. Whether \<open>try_lock\<close> succeeds is an input of \<open>publish\<close>; the flag
  that cancels a snapshot lives in a store indexed by the number of its buffer.
\<close>

section \<open>Model\<close>

definition MAX_FRAMES :: nat where "MAX_FRAMES = 32768"
definition FRAME_OVERHEAD :: nat where "FRAME_OVERHEAD = 256"

record ReplayBufferConfig =
  rc_enabled :: bool
  rc_duration :: duration
  rc_memory_bytes :: nat

record ReplayFrame =
  rf_frame :: EncodedFrame
  rf_time :: duration

record Clock =
  ck_timestamp :: nat
  ck_rate :: u32
  ck_time :: duration
  ck_codec :: MediaCodec

definition Clock_advance :: "(nat \<Rightarrow> u32 \<Rightarrow> duration) \<Rightarrow> EncodedFrame \<Rightarrow> Clock \<Rightarrow> (duration \<times> Clock) option" where
  "Clock_advance seconds frame clock =
     (if ef_clock_rate_hz frame = 0 \<or> ck_rate clock \<noteq> ef_clock_rate_hz frame \<or> ck_codec clock \<noteq> ef_codec frame then None
      else case (if ck_timestamp clock \<le> u32_max \<and> ef_timestamp frame \<le> u32_max
                 then Some (unat (of_nat (ef_timestamp frame) - of_nat (ck_timestamp clock) :: u32))
                 else if ck_timestamp clock \<le> ef_timestamp frame then Some (ef_timestamp frame - ck_timestamp clock) else None) of
             None \<Rightarrow> None
           | Some delta \<Rightarrow>
               if delta > unat (ck_rate clock) * 10 then None
               else let t = ck_time clock + seconds delta (ck_rate clock)
                    in Some (t, clock\<lparr> ck_time := t, ck_timestamp := ef_timestamp frame \<rparr>))"

record Buffer =
  bf_config :: ReplayBufferConfig
  bf_frames :: "ReplayFrame list"
  bf_bytes :: nat
  bf_origin :: instant
  bf_video :: "Clock option"
  bf_audio :: "Clock option"
  bf_latest :: duration
  bf_number :: nat

definition Buffer_clear :: "instant \<Rightarrow> Buffer \<Rightarrow> Buffer" where
  "Buffer_clear now b = b\<lparr> bf_frames := [], bf_bytes := 0, bf_video := None, bf_audio := None, bf_origin := now, bf_latest := 0 \<rparr>"

definition frame_bytes :: "EncodedFrame \<Rightarrow> nat" where
  "frame_bytes frame = length (ef_data frame) + length (ef_mid frame) + FRAME_OVERHEAD"

definition pop_front :: "Buffer \<Rightarrow> Buffer option" where
  "pop_front b = (case bf_frames b of
     [] \<Rightarrow> Some b
   | frame # rest \<Rightarrow>
       if bf_bytes b < frame_bytes (rf_frame frame) then None
       else Some (b\<lparr> bf_frames := rest, bf_bytes := bf_bytes b - frame_bytes (rf_frame frame) \<rparr>))"

definition is_opus :: "MediaCodec \<Rightarrow> bool" where
  "is_opus codec = (case codec of Opus _ \<Rightarrow> True | _ \<Rightarrow> False)"

definition over_limit :: "nat \<Rightarrow> Buffer \<Rightarrow> bool" where
  "over_limit budget b \<longleftrightarrow> bf_bytes b > budget \<or> length (bf_frames b) > MAX_FRAMES
     \<or> (bf_frames b \<noteq> [] \<and> bf_latest b - rf_time (hd (bf_frames b)) > rc_duration (bf_config b))"

definition headless :: "Buffer \<Rightarrow> bool" where
  "headless b \<longleftrightarrow> bf_frames b \<noteq> []
     \<and> (\<not> ef_keyframe (rf_frame (hd (bf_frames b))) \<or> is_opus (ef_codec (rf_frame (hd (bf_frames b)))))"

partial_function (option) pop_while :: "(Buffer \<Rightarrow> bool) \<Rightarrow> Buffer \<Rightarrow> Buffer option" where
  "pop_while p b = (if p b then Option.bind (pop_front b) (pop_while p) else Some b)"

definition append_frame :: "EncodedFrame \<Rightarrow> nat \<Rightarrow> duration \<Rightarrow> instant \<Rightarrow> Buffer \<Rightarrow> Buffer option" where
  "append_frame frame reserved t now b =
     (let budget = rc_memory_bytes (bf_config b) - reserved
      in if frame_bytes frame > budget then Some (Buffer_clear now b)
         else Option.bind
           (pop_while (over_limit budget)
             (b\<lparr> bf_frames := bf_frames b @ [\<lparr> rf_frame = frame, rf_time = t \<rparr>], bf_bytes := bf_bytes b + frame_bytes frame \<rparr>))
           (pop_while headless))"

definition store_frame :: "EncodedFrame \<Rightarrow> nat \<Rightarrow> duration \<Rightarrow> instant \<Rightarrow> Buffer \<Rightarrow> Buffer option" where
  "store_frame frame reserved t now b =
     (let b = b\<lparr> bf_latest := max (bf_latest b) t \<rparr>
      in if bf_frames b \<noteq> [] \<and> t < rf_time (hd (bf_frames b)) then Some b
         else if bf_frames b = [] \<and> \<not> (\<not> is_opus (ef_codec frame) \<and> ef_keyframe frame) then Some b
         else append_frame frame reserved t now b)"

text \<open>\<open>now\<close> is the reading of the clock in \<open>clear\<close>, \<open>received_at\<close> that of the caller.\<close>

definition Buffer_push :: "(nat \<Rightarrow> u32 \<Rightarrow> duration) \<Rightarrow> EncodedFrame \<Rightarrow> nat \<Rightarrow> instant \<Rightarrow> instant \<Rightarrow> Buffer \<Rightarrow> Buffer option" where
  "Buffer_push seconds frame reserved received_at now b =
     (if \<not> ef_contiguous frame then Some (Buffer_clear now b)
      else let video = \<not> is_opus (ef_codec frame);
               with_clock = (\<lambda>c. if video then b\<lparr> bf_video := Some c \<rparr> else b\<lparr> bf_audio := Some c \<rparr>)
           in case (if video then bf_video b else bf_audio b) of
                Some clock \<Rightarrow>
                  (case Clock_advance seconds frame clock of
                     None \<Rightarrow> Some (Buffer_clear now b)
                   | Some (t, clock) \<Rightarrow> store_frame frame reserved t now (with_clock clock))
              | None \<Rightarrow>
                  if ef_clock_rate_hz frame = 0 then Some b
                  else let t = received_at - bf_origin b
                       in store_frame frame reserved t now
                            (with_clock \<lparr> ck_timestamp = ef_timestamp frame, ck_rate = ef_clock_rate_hz frame, ck_time = t, ck_codec = ef_codec frame \<rparr>))"

record ReplaySnapshot =
  rs_frames :: "ReplayFrame list"
  rs_number :: nat

text \<open>The tap with what it shares with its snapshots: the reserved bytes and the cancelled buffers.\<close>

record ReplayTap =
  rt_enabled :: bool
  rt_reset :: bool
  rt_buffer :: "Buffer option"
  rt_reserved :: nat
  rt_cancelled :: "nat set"
  rt_next_number :: nat

definition ReplayTap_default :: ReplayTap where
  "ReplayTap_default = \<lparr> rt_enabled = False, rt_reset = False, rt_buffer = None, rt_reserved = 0, rt_cancelled = {}, rt_next_number = 0 \<rparr>"

definition replay_stop :: "ReplayTap \<Rightarrow> ReplayTap" where
  "replay_stop tap = tap\<lparr> rt_enabled := False, rt_buffer := None, rt_reset := False,
     rt_cancelled := (case rt_buffer tap of None \<Rightarrow> rt_cancelled tap | Some b \<Rightarrow> insert (bf_number b) (rt_cancelled tap)) \<rparr>"

definition start_with_budget :: "ReplayBufferConfig \<Rightarrow> instant \<Rightarrow> ReplayTap \<Rightarrow> ReplayTap" where
  "start_with_budget config now tap =
     (let tap = replay_stop tap
      in if \<not> rc_enabled config then tap
         else tap\<lparr> rt_buffer := Some \<lparr> bf_config = config, bf_frames = [], bf_bytes = 0, bf_origin = now, bf_video = None,
                     bf_audio = None, bf_latest = 0, bf_number = rt_next_number tap \<rparr>,
                   rt_enabled := True, rt_next_number := rt_next_number tap + 1 \<rparr>)"

definition after_reset :: "instant \<Rightarrow> ReplayTap \<Rightarrow> Buffer \<Rightarrow> Buffer" where
  "after_reset now tap b = (if rt_reset tap then Buffer_clear now b else b)"

definition replay_publish :: "(nat \<Rightarrow> u32 \<Rightarrow> duration) \<Rightarrow> EncodedFrame \<Rightarrow> bool \<Rightarrow> instant \<Rightarrow> ReplayTap \<Rightarrow> ReplayTap option" where
  "replay_publish seconds frame locked now tap =
     (if \<not> rt_enabled tap then Some tap
      else if \<not> locked then Some (tap\<lparr> rt_reset := True \<rparr>)
      else case rt_buffer tap of
             None \<Rightarrow> Some tap
           | Some b \<Rightarrow>
               map_option (\<lambda>b. tap\<lparr> rt_buffer := Some b, rt_reset := False \<rparr>)
                 (Buffer_push seconds frame (rt_reserved tap) now now (after_reset now tap b)))"

definition replay_snapshot :: "instant \<Rightarrow> ReplayTap \<Rightarrow> (string + ReplaySnapshot) \<times> ReplayTap" where
  "replay_snapshot now tap = (case rt_buffer tap of
     None \<Rightarrow> (Inl ''replay-not-enabled'', tap)
   | Some b \<Rightarrow>
       let b = after_reset now tap b; tap = tap\<lparr> rt_buffer := Some b, rt_reset := False \<rparr>
       in if rt_reserved tap \<noteq> 0 then (Inl ''clip-already-saving'', tap)
          else if bf_frames b = [] then (Inl ''replay-not-ready'', tap)
          else (Inr \<lparr> rs_frames = bf_frames b, rs_number = bf_number b \<rparr>,
                tap\<lparr> rt_reserved := bf_bytes b, rt_buffer := Some (b\<lparr> bf_bytes := 0, bf_frames := [] \<rparr>) \<rparr>))"

text \<open>\<open>Drop\<close> of a snapshot.\<close>

definition snapshot_drop :: "ReplayTap \<Rightarrow> ReplayTap" where
  "snapshot_drop tap = tap\<lparr> rt_reserved := 0 \<rparr>"

section \<open>The loops\<close>

lemma pop_while_stop: "\<not> p b \<Longrightarrow> pop_while p b = Some b"
  by (simp add: pop_while.simps)

definition clip_bytes :: "ReplayFrame list \<Rightarrow> nat" where
  "clip_bytes frames = sum_list (map (frame_bytes \<circ> rf_frame) frames)"

lemma clip_bytes_simps [simp]:
  "clip_bytes [] = 0" "clip_bytes (f # fs) = frame_bytes (rf_frame f) + clip_bytes fs" "clip_bytes (xs @ ys) = clip_bytes xs + clip_bytes ys"
  by (simp_all add: clip_bytes_def)

lemma clip_bytes_pos: "0 < clip_bytes frames \<longleftrightarrow> frames \<noteq> []"
  by (cases frames) (simp_all add: frame_bytes_def FRAME_OVERHEAD_def)

definition keep_last :: "nat \<Rightarrow> Buffer \<Rightarrow> Buffer" where
  "keep_last n b = b\<lparr> bf_frames := drop n (bf_frames b), bf_bytes := clip_bytes (drop n (bf_frames b)) \<rparr>"

text \<open>When the byte count is that of the frames, a loop whose condition is false on an empty buffer ends, without
  underflow, and leaves a suffix of the frames on which the condition is false.\<close>

lemma pop_while_ends:
  assumes "bf_bytes b = clip_bytes (bf_frames b)" and "\<And>b. bf_frames b = [] \<Longrightarrow> bf_bytes b = 0 \<Longrightarrow> \<not> p b"
  shows "\<exists>n. pop_while p b = Some (keep_last n b) \<and> \<not> p (keep_last n b)"
  using assms(1)
proof (induction "bf_frames b" arbitrary: b)
  case Nil
  then have "\<not> p b" "keep_last 0 b = b" using assms(2) [of b] by (simp_all add: keep_last_def)
  then show ?case by (intro exI [of _ 0]) (simp add: pop_while.simps)
next
  case (Cons f fs)
  have same: "keep_last 0 b = b" using Cons.prems by (simp add: keep_last_def)
  show ?case
  proof (cases "p b")
    case True
    let ?b = "b\<lparr> bf_frames := fs, bf_bytes := clip_bytes fs \<rparr>"
    have front: "pop_front b = Some ?b" using Cons.hyps(2) Cons.prems by (auto simp: pop_front_def split: list.splits)
    have "\<exists>n. pop_while p ?b = Some (keep_last n ?b) \<and> \<not> p (keep_last n ?b)" by (rule Cons.hyps(1)) simp_all
    then obtain n where n: "pop_while p ?b = Some (keep_last n ?b)" "\<not> p (keep_last n ?b)" by blast
    have "keep_last n ?b = keep_last (Suc n) b" using Cons.hyps(2) by (simp add: keep_last_def flip: Cons.hyps(2))
    with n front True show ?thesis by (intro exI [of _ "Suc n"]) (simp add: pop_while.simps [of p b])
  next
    case False
    with same show ?thesis by (intro exI [of _ 0]) (simp add: pop_while.simps)
  qed
qed

lemma keep_last_simps [simp]:
  "bf_frames (keep_last n b) = drop n (bf_frames b)" "bf_bytes (keep_last n b) = clip_bytes (drop n (bf_frames b))"
  "bf_latest (keep_last n b) = bf_latest b" "bf_config (keep_last n b) = bf_config b" "bf_video (keep_last n b) = bf_video b"
  "bf_audio (keep_last n b) = bf_audio b" "bf_number (keep_last n b) = bf_number b"
  by (simp_all add: keep_last_def)

lemma clip_bytes_drop: "clip_bytes (drop n fs) \<le> clip_bytes fs"
  by (metis append_take_drop_id clip_bytes_simps(3) le_add2)

lemma trim_ends:
  assumes "bf_bytes b = clip_bytes (bf_frames b)"
  obtains n where "Option.bind (pop_while (over_limit budget) b) (pop_while headless) = Some (keep_last n b)"
    and "\<not> headless (keep_last n b)" and "\<exists>m\<le>n. \<not> over_limit budget (keep_last m b)"
proof -
  obtain m where m: "pop_while (over_limit budget) b = Some (keep_last m b)" "\<not> over_limit budget (keep_last m b)"
    using pop_while_ends [OF assms, of "over_limit budget"] by (auto simp: over_limit_def)
  have "bf_bytes (keep_last m b) = clip_bytes (bf_frames (keep_last m b))" by simp
  from pop_while_ends [OF this, of headless] obtain n where
    n: "pop_while headless (keep_last m b) = Some (keep_last n (keep_last m b))" "\<not> headless (keep_last n (keep_last m b))"
    by (auto simp: headless_def)
  have eq: "keep_last n (keep_last m b) = keep_last (m + n) b" by (simp add: keep_last_def add.commute)
  show thesis by (rule that [of "m + n"]) (use m n eq in \<open>auto intro: exI [of _ m]\<close>)
qed

section \<open>The clip\<close>

definition is_video :: "EncodedFrame \<Rightarrow> bool" where
  "is_video frame \<longleftrightarrow> \<not> is_opus (ef_codec frame)"

definition clip_video :: "Buffer \<Rightarrow> EncodedFrame list" where
  "clip_video b = filter is_video (map rf_frame (bf_frames b))"

text \<open>A clip that can be played: it starts with a key frame of the video, nothing in it follows on a loss, and it is within
  the bounds.\<close>

definition clip_ok :: "ReplayFrame list \<Rightarrow> bool" where
  "clip_ok frames \<longleftrightarrow> (frames \<noteq> [] \<longrightarrow> is_video (rf_frame (hd frames)) \<and> ef_keyframe (rf_frame (hd frames)))
     \<and> (\<forall>f\<in>set frames. ef_contiguous (rf_frame f)) \<and> length frames \<le> MAX_FRAMES"

definition times_ok :: "Buffer \<Rightarrow> bool" where
  "times_ok b \<longleftrightarrow> (\<forall>f\<in>set (bf_frames b). rf_time f \<le> bf_latest b
     \<and> (is_video (rf_frame f) \<longrightarrow> (\<exists>c. bf_video b = Some c \<and> rf_time f \<le> ck_time c)))"

definition buffer_ok :: "nat \<Rightarrow> Buffer \<Rightarrow> bool" where
  "buffer_ok reserved b \<longleftrightarrow> bf_bytes b = clip_bytes (bf_frames b) \<and> bf_bytes b \<le> rc_memory_bytes (bf_config b) - reserved
     \<and> clip_ok (bf_frames b) \<and> times_ok b"

lemma buffer_ok_clear [simp]: "buffer_ok reserved (Buffer_clear now b)"
  by (simp add: buffer_ok_def Buffer_clear_def clip_ok_def times_ok_def)

lemma clip_video_clear [simp]: "clip_video (Buffer_clear now b) = []"
  by (simp add: clip_video_def Buffer_clear_def)

lemma suffix_drop_filter: "suffix (filter p (map f (drop n xs))) (filter p (map f xs))"
proof -
  have "filter p (map f xs) = filter p (map f (take n xs)) @ filter p (map f (drop n xs))"
    by (metis append_take_drop_id filter_append map_append)
  then show ?thesis by (simp add: suffix_def)
qed

text \<open>\<open>b\<close> is the buffer with the clock advanced to \<open>t\<close> and its latest time; the frame is appended.\<close>

lemma append_frame_ok:
  assumes "buffer_ok reserved b0" and "bf_frames b = bf_frames b0" and "bf_bytes b = bf_bytes b0" and "bf_config b = bf_config b0"
    and "bf_latest b = max (bf_latest b0) t" and "ef_contiguous frame"
    and "\<forall>f\<in>set (bf_frames b0). is_video (rf_frame f) \<longrightarrow> (\<exists>c. bf_video b = Some c \<and> rf_time f \<le> ck_time c)"
    and "is_video frame \<Longrightarrow> \<exists>c. bf_video b = Some c \<and> t \<le> ck_time c"
  obtains b' where "append_frame frame reserved t now b = Some b'" and "buffer_ok reserved b'" and "bf_config b' = bf_config b"
    and "clip_video b' = [] \<or> suffix (clip_video b') (clip_video b0 @ filter is_video [frame])"
proof (cases "frame_bytes frame > rc_memory_bytes (bf_config b) - reserved")
  case True
  show ?thesis
    by (rule that [of "Buffer_clear now b"]) (use True in \<open>simp_all add: append_frame_def, simp add: Buffer_clear_def\<close>)
next
  case False
  let ?budget = "rc_memory_bytes (bf_config b) - reserved" and ?f = "\<lparr> rf_frame = frame, rf_time = t \<rparr>"
  let ?b = "b\<lparr> bf_frames := bf_frames b @ [?f], bf_bytes := bf_bytes b + frame_bytes frame \<rparr>"
  have "bf_bytes ?b = clip_bytes (bf_frames ?b)" using assms(1-3) by (simp add: buffer_ok_def)
  then obtain n m where n: "Option.bind (pop_while (over_limit ?budget) ?b) (pop_while headless) = Some (keep_last n ?b)"
    "\<not> headless (keep_last n ?b)" "m \<le> n" "\<not> over_limit ?budget (keep_last m ?b)"
    using trim_ends [of ?b ?budget] by metis
  let ?frames = "drop n (bf_frames b @ [?f])"
  have sub: "set ?frames \<subseteq> set (bf_frames b @ [?f])" by (rule set_drop_subset)
  have lim: "clip_bytes (drop m (bf_frames b @ [?f])) \<le> ?budget" "length (drop m (bf_frames b @ [?f])) \<le> MAX_FRAMES"
    using n(4) by (auto simp: over_limit_def)
  have tail: "?frames = drop (n - m) (drop m (bf_frames b @ [?f]))" using n(3) by (simp only: drop_drop) simp
  have bytes: "clip_bytes ?frames \<le> ?budget"
    using lim(1) clip_bytes_drop [of "n - m" "drop m (bf_frames b @ [?f])"] tail by (metis order_trans)
  have count: "length ?frames \<le> MAX_FRAMES" using lim(2) n(3) by (simp only: length_drop)
  have clip: "clip_ok ?frames"
    using n(2) count sub assms(1,2,6) by (auto simp: clip_ok_def headless_def is_video_def buffer_ok_def)
  have "\<forall>f\<in>set (bf_frames b @ [?f]). rf_time f \<le> bf_latest b \<and> (is_video (rf_frame f) \<longrightarrow> (\<exists>c. bf_video b = Some c \<and> rf_time f \<le> ck_time c))"
    using assms(1,2,5,7,8) by (auto simp: times_ok_def buffer_ok_def max.coboundedI1)
  with sub have "times_ok (keep_last n ?b)" unfolding times_ok_def by (simp del: set_append drop_append) blast
  moreover have "suffix (clip_video (keep_last n ?b)) (clip_video b0 @ filter is_video [frame])"
    using suffix_drop_filter [of is_video rf_frame n "bf_frames b @ [?f]"] assms(2) by (simp add: clip_video_def)
  ultimately show ?thesis
    by (intro that [of "keep_last n ?b"]) (use n(1) False bytes clip in \<open>simp_all add: append_frame_def buffer_ok_def\<close>)
qed

lemma store_frame_ok:
  assumes "buffer_ok reserved b0" and "bf_frames b = bf_frames b0" and "bf_bytes b = bf_bytes b0" and "bf_config b = bf_config b0"
    and "bf_latest b = bf_latest b0" and "ef_contiguous frame"
    and "\<forall>f\<in>set (bf_frames b0). is_video (rf_frame f) \<longrightarrow> (\<exists>c. bf_video b = Some c \<and> rf_time f \<le> ck_time c \<and> (is_video frame \<longrightarrow> rf_time f \<le> t))"
    and "is_video frame \<Longrightarrow> \<exists>c. bf_video b = Some c \<and> t \<le> ck_time c"
  obtains b' where "store_frame frame reserved t now b = Some b'" and "buffer_ok reserved b'" and "bf_config b' = bf_config b"
    and "clip_video b' = [] \<or> suffix (clip_video b') (clip_video b0 @ filter is_video [frame])"
proof -
  let ?b = "b\<lparr> bf_latest := max (bf_latest b) t \<rparr>"
  have same: "buffer_ok reserved ?b" "clip_video ?b = clip_video b0"
    using assms(1-7) by (fastforce simp: buffer_ok_def times_ok_def, simp add: clip_video_def)
  consider (late) "bf_frames b \<noteq> []" "t < rf_time (hd (bf_frames b))"
    | (early) "bf_frames b = []" "\<not> (\<not> is_opus (ef_codec frame) \<and> ef_keyframe frame)"
    | (kept) "store_frame frame reserved t now b = append_frame frame reserved t now ?b"
    by (fastforce simp: store_frame_def Let_def cong: if_cong)
  then show ?thesis
  proof cases
    case late
    have "is_video (rf_frame (hd (bf_frames b)))" "hd (bf_frames b) \<in> set (bf_frames b0)"
      using late(1) assms(1,2) by (auto simp: buffer_ok_def clip_ok_def)
    with assms(7) late(2) have "\<not> is_video frame" by fastforce
    then show ?thesis using late same by (intro that [of ?b]) (simp_all add: store_frame_def)
  next
    case early
    then show ?thesis using same assms(2) by (intro that [of ?b]) (auto simp: store_frame_def clip_video_def)
  next
    case kept
    from assms(7) have video: "\<forall>f\<in>set (bf_frames b0). is_video (rf_frame f) \<longrightarrow> (\<exists>c. bf_video ?b = Some c \<and> rf_time f \<le> ck_time c)"
      by fastforce
    obtain b' where "append_frame frame reserved t now ?b = Some b'" "buffer_ok reserved b'" "bf_config b' = bf_config ?b"
      "clip_video b' = [] \<or> suffix (clip_video b') (clip_video b0 @ filter is_video [frame])"
      by (rule append_frame_ok [OF assms(1) _ _ _ _ assms(6) video]) (use assms(2-5,8) in simp_all)
    with kept show ?thesis by (intro that [of b']) simp_all
  qed
qed

lemma Clock_advance_time: "Clock_advance seconds frame clock = Some (t, clock') \<Longrightarrow> ck_time clock \<le> t \<and> ck_time clock' = t"
  by (auto simp: Clock_advance_def Let_def split: if_splits option.splits)

lemma Buffer_push_ok:
  assumes "buffer_ok reserved b"
  obtains b' where "Buffer_push seconds frame reserved received_at now b = Some b'" and "buffer_ok reserved b'"
    and "bf_config b' = bf_config b" and "clip_video b' = [] \<or> suffix (clip_video b') (clip_video b @ filter is_video [frame])"
proof -
  let ?goal = "\<exists>b'. Buffer_push seconds frame reserved received_at now b = Some b' \<and> buffer_ok reserved b' \<and> bf_config b' = bf_config b
    \<and> (clip_video b' = [] \<or> suffix (clip_video b') (clip_video b @ filter is_video [frame]))"
  have cleared: ?goal if "Buffer_push seconds frame reserved received_at now b = Some (Buffer_clear now b)"
    using that by (simp add: Buffer_clear_def [of now b]) (simp flip: Buffer_clear_def [of now b])
  have stored: ?goal if "Buffer_push seconds frame reserved received_at now b = store_frame frame reserved t now b1" and "ef_contiguous frame"
    and "b1 = (if is_video frame then b\<lparr> bf_video := Some c \<rparr> else b\<lparr> bf_audio := Some c \<rparr>)" and "ck_time c = t"
    and "is_video frame \<Longrightarrow> case bf_video b of None \<Rightarrow> True | Some c0 \<Rightarrow> ck_time c0 \<le> t" for t b1 c
  proof -
    note hyp = that
    have video: "\<forall>f\<in>set (bf_frames b). is_video (rf_frame f) \<longrightarrow>
        (\<exists>c. bf_video b1 = Some c \<and> rf_time f \<le> ck_time c \<and> (is_video frame \<longrightarrow> rf_time f \<le> t))"
      using hyp(3-5) assms by (fastforce simp: buffer_ok_def times_ok_def)
    obtain b' where "store_frame frame reserved t now b1 = Some b'" "buffer_ok reserved b'" "bf_config b' = bf_config b1"
      "clip_video b' = [] \<or> suffix (clip_video b') (clip_video b @ filter is_video [frame])"
      by (rule store_frame_ok [OF assms _ _ _ _ hyp(2) video, of now]) (use hyp(3,4) in auto)
    moreover have "bf_config b1 = bf_config b" using hyp(3) by simp
    ultimately show ?thesis using hyp(1) by (intro exI [of _ b']) simp
  qed
  have ?goal
  proof (cases "ef_contiguous frame")
    case False
    then show ?thesis by (intro cleared) (simp add: Buffer_push_def)
  next
    case True
    show ?thesis
    proof (cases "if is_video frame then bf_video b else bf_audio b")
      case None
      show ?thesis
      proof (cases "ef_clock_rate_hz frame = 0")
        case True
        have "clip_video b = []" if "is_video frame"
        proof -
          have "bf_video b = None" using None that by simp
          with assms show ?thesis by (auto simp: buffer_ok_def times_ok_def clip_video_def filter_empty_conv)
        qed
        then have "clip_video b = [] \<or> suffix (clip_video b) (clip_video b @ filter is_video [frame])" by (cases "is_video frame") simp_all
        moreover have "Buffer_push seconds frame reserved received_at now b = Some b"
          using True None \<open>ef_contiguous frame\<close> by (cases "is_video frame") (simp_all add: Buffer_push_def is_video_def Let_def)
        ultimately show ?thesis using assms by blast
      next
        case False
        let ?clock = "\<lparr> ck_timestamp = ef_timestamp frame, ck_rate = ef_clock_rate_hz frame, ck_time = received_at - bf_origin b, ck_codec = ef_codec frame \<rparr>"
        show ?thesis
          by (rule stored [OF _ True refl, of "received_at - bf_origin b" ?clock]) (use False True None in \<open>auto simp: Buffer_push_def is_video_def Let_def split: if_splits\<close>)
      qed
    next
      case (Some clock)
      show ?thesis
      proof (cases "Clock_advance seconds frame clock")
        case None
        with Some True show ?thesis by (intro cleared) (auto simp: Buffer_push_def is_video_def Let_def split: if_splits)
      next
        case (Some a)
        obtain t clock' where a: "a = (t, clock')" by (cases a)
        note time = Clock_advance_time [OF Some [unfolded a]]
        show ?thesis
          by (rule stored [OF _ True refl, of t clock'])
            (use Some a \<open>(if is_video frame then bf_video b else bf_audio b) = _\<close> True time in
              \<open>auto simp: Buffer_push_def is_video_def Let_def split: if_splits\<close>)
      qed
    qed
  qed
  then show thesis using that by blast
qed

section \<open>Runs\<close>

datatype replay_op =
    StartReplay ReplayBufferConfig instant
  | PublishFrame EncodedFrame bool instant
  | TakeSnapshot instant
  | DropSnapshot
  | StopReplay

text \<open>The tap, the video frames published to it and the clips taken from it.\<close>

record replay_run =
  rp_tap :: ReplayTap
  rp_published :: "EncodedFrame list"
  rp_clips :: "ReplayFrame list list"

fun replay_step :: "(nat \<Rightarrow> u32 \<Rightarrow> duration) \<Rightarrow> replay_op \<Rightarrow> replay_run \<Rightarrow> replay_run option" where
  "replay_step seconds (StartReplay config now) s = Some (s\<lparr> rp_tap := start_with_budget config now (rp_tap s) \<rparr>)"
| "replay_step seconds (PublishFrame frame locked now) s =
     map_option (\<lambda>tap. s\<lparr> rp_tap := tap, rp_published := rp_published s @ filter is_video [frame] \<rparr>)
       (replay_publish seconds frame locked now (rp_tap s))"
| "replay_step seconds (TakeSnapshot now) s =
     (case replay_snapshot now (rp_tap s) of
        (Inl _, tap) \<Rightarrow> Some (s\<lparr> rp_tap := tap \<rparr>)
      | (Inr snapshot, tap) \<Rightarrow> Some (s\<lparr> rp_tap := tap, rp_clips := rp_clips s @ [rs_frames snapshot] \<rparr>))"
| "replay_step seconds DropSnapshot s = Some (s\<lparr> rp_tap := snapshot_drop (rp_tap s) \<rparr>)"
| "replay_step seconds StopReplay s = Some (s\<lparr> rp_tap := replay_stop (rp_tap s) \<rparr>)"

definition tap_ok :: "EncodedFrame list \<Rightarrow> ReplayTap \<Rightarrow> bool" where
  "tap_ok published tap \<longleftrightarrow> rt_enabled tap = (rt_buffer tap \<noteq> None)
     \<and> (\<forall>b. rt_buffer tap = Some b \<longrightarrow> buffer_ok (rt_reserved tap) b \<and> (rt_reset tap \<or> suffix (clip_video b) published))"

definition playable :: "EncodedFrame list \<Rightarrow> ReplayFrame list \<Rightarrow> bool" where
  "playable published clip \<longleftrightarrow> clip \<noteq> [] \<and> clip_ok clip \<and> sublist (filter is_video (map rf_frame clip)) published"

definition replay_inv :: "replay_run \<Rightarrow> bool" where
  "replay_inv s \<longleftrightarrow> tap_ok (rp_published s) (rp_tap s) \<and> (\<forall>clip\<in>set (rp_clips s). playable (rp_published s) clip)"

lemma after_reset_ok:
  assumes "tap_ok published tap" and "rt_buffer tap = Some b"
  shows "buffer_ok (rt_reserved tap) (after_reset now tap b)" and "suffix (clip_video (after_reset now tap b)) published"
  using assms by (auto simp: tap_ok_def after_reset_def)

lemma replay_publish_ok:
  assumes "tap_ok published tap"
  obtains tap' where "replay_publish seconds frame locked now tap = Some tap'" and "tap_ok (published @ filter is_video [frame]) tap'"
proof (cases "rt_enabled tap \<and> locked")
  case False
  with assms show ?thesis
    by (intro that [of "if rt_enabled tap then tap\<lparr> rt_reset := True \<rparr> else tap"]) (auto simp: replay_publish_def tap_ok_def)
next
  case True
  with assms obtain b where b: "rt_buffer tap = Some b" by (auto simp: tap_ok_def)
  note ok = after_reset_ok [OF assms b, of now]
  obtain b' where "Buffer_push seconds frame (rt_reserved tap) now now (after_reset now tap b) = Some b'" "buffer_ok (rt_reserved tap) b'"
    "clip_video b' = [] \<or> suffix (clip_video b') (clip_video (after_reset now tap b) @ filter is_video [frame])"
    by (rule Buffer_push_ok [OF ok(1)])
  moreover have "suffix (clip_video (after_reset now tap b) @ filter is_video [frame]) (published @ filter is_video [frame])"
    using ok(2) by (metis same_append_eq suffix_def append.assoc)
  ultimately show ?thesis using True b
    by (intro that [of "tap\<lparr> rt_buffer := Some b', rt_reset := False \<rparr>"])
      (auto simp: replay_publish_def tap_ok_def intro: suffix_order.trans simp del: filter.simps)
qed

lemma replay_snapshot_ok:
  assumes "tap_ok published tap" and "replay_snapshot now tap = (r, tap')"
  shows "tap_ok published tap'" and "r = Inr snapshot \<Longrightarrow> playable published (rs_frames snapshot)"
proof -
  have "tap_ok published tap' \<and> (\<forall>snapshot. r = Inr snapshot \<longrightarrow> playable published (rs_frames snapshot))"
  proof (cases "rt_buffer tap")
    case None
    with assms show ?thesis by (auto simp: replay_snapshot_def)
  next
    case (Some b)
    note ok = after_reset_ok [OF assms(1) Some, of now]
    have enabled: "rt_enabled tap" using assms(1) Some by (simp add: tap_ok_def)
    let ?b = "after_reset now tap b"
    have "playable published (bf_frames ?b)" if "bf_frames ?b \<noteq> []"
      using that ok by (auto simp: playable_def buffer_ok_def clip_video_def)
    moreover have "buffer_ok (bf_bytes ?b) (?b\<lparr> bf_bytes := 0, bf_frames := [] \<rparr>)"
      by (simp add: buffer_ok_def clip_ok_def times_ok_def)
    ultimately show ?thesis using assms(2) Some ok enabled
      by (auto simp: replay_snapshot_def Let_def tap_ok_def clip_video_def split: if_splits)
  qed
  then show "tap_ok published tap'" "r = Inr snapshot \<Longrightarrow> playable published (rs_frames snapshot)" by blast+
qed

lemma playable_later: "playable published clip \<Longrightarrow> playable (published @ later) clip"
  by (auto simp: playable_def sublist_def) (metis append.assoc)

lemma replay_step_ok: "replay_inv s \<Longrightarrow> \<exists>s'. replay_step seconds op s = Some s' \<and> replay_inv s'"
proof (cases op)
  case (PublishFrame frame locked now)
  assume inv: "replay_inv s"
  then obtain tap where "replay_publish seconds frame locked now (rp_tap s) = Some tap"
    "tap_ok (rp_published s @ filter is_video [frame]) tap" using replay_publish_ok unfolding replay_inv_def by metis
  with inv PublishFrame show ?thesis by (auto simp: replay_inv_def playable_later simp del: filter.simps)
next
  case (TakeSnapshot now)
  assume inv: "replay_inv s"
  obtain r tap where r: "replay_snapshot now (rp_tap s) = (r, tap)" by (metis surj_pair)
  from inv have "tap_ok (rp_published s) (rp_tap s)" by (simp add: replay_inv_def)
  from replay_snapshot_ok [OF this r] inv TakeSnapshot r show ?thesis by (cases r) (auto simp: replay_inv_def)
next
  case (StartReplay config now)
  assume "replay_inv s"
  with StartReplay show ?thesis
    by (auto simp: replay_inv_def tap_ok_def start_with_budget_def replay_stop_def Let_def buffer_ok_def clip_ok_def times_ok_def clip_video_def)
next
  case DropSnapshot
  assume "replay_inv s"
  with DropSnapshot show ?thesis by (fastforce simp: replay_inv_def tap_ok_def snapshot_drop_def buffer_ok_def)
next
  case StopReplay
  assume "replay_inv s"
  with StopReplay show ?thesis by (simp add: replay_inv_def tap_ok_def replay_stop_def)
qed

interpretation replay: panic_free "replay_step seconds" replay_inv "\<lambda>_. True"
  by unfold_locales (rule replay_step_ok)

definition replay_start :: replay_run where
  "replay_start = \<lparr> rp_tap = ReplayTap_default, rp_published = [], rp_clips = [] \<rparr>"

lemma replay_inv_start: "replay_inv replay_start"
  by (simp add: replay_start_def replay_inv_def tap_ok_def ReplayTap_default_def)

text \<open>C20: however frames are published, locks are missed, clips are taken and the buffer is started and stopped, the
  byte count never underflows and the loops that drop old frames end. Every clip starts with a key
  frame of the video, holds no frame that follows on a loss, and its video is an unbroken run of what was
  published; the buffer and a clip being saved stay within the memory configured.\<close>

theorem replay_clips_playable:
  "\<exists>s. run_steps (replay_step seconds) ops replay_start = Some s
     \<and> (\<forall>clip\<in>set (rp_clips s). playable (rp_published s) clip)
     \<and> (case rt_buffer (rp_tap s) of None \<Rightarrow> True
        | Some b \<Rightarrow> bf_bytes b \<le> rc_memory_bytes (bf_config b) - rt_reserved (rp_tap s) \<and> length (bf_frames b) \<le> MAX_FRAMES)"
proof -
  obtain s where "run_steps (replay_step seconds) ops replay_start = Some s" "replay_inv s"
    using replay.run_defined [OF replay_inv_start] by blast
  then show ?thesis by (auto simp: replay_inv_def tap_ok_def buffer_ok_def clip_ok_def split: option.split)
qed

definition sample_seconds :: "nat \<Rightarrow> u32 \<Rightarrow> duration" where
  "sample_seconds delta rate = delta * 1000000000 div unat rate"

theorem replay_clips_playable_witness:
  "(case run_steps (replay_step sample_seconds)
       [StartReplay \<lparr> rc_enabled = True, rc_duration = secs 30, rc_memory_bytes = 100000 \<rparr> 0, PublishFrame (sample_frame 1 False) True 1,
        PublishFrame (sample_frame 2 True) True 2, PublishFrame (sample_frame 3 False) True 3, TakeSnapshot 4] replay_start of
      None \<Rightarrow> False
    | Some s \<Rightarrow> map (map (ef_frame_index \<circ> rf_frame)) (rp_clips s) = [[Some 2, Some 3]]
        \<and> (\<forall>clip\<in>set (rp_clips s). playable (rp_published s) clip))"
proof -
  let ?ops = "[StartReplay \<lparr> rc_enabled = True, rc_duration = secs 30, rc_memory_bytes = 100000 \<rparr> 0, PublishFrame (sample_frame 1 False) True 1,
        PublishFrame (sample_frame 2 True) True 2, PublishFrame (sample_frame 3 False) True 3, TakeSnapshot 4]"
  have eval: "map_option (\<lambda>s. map (map (ef_frame_index \<circ> rf_frame)) (rp_clips s)) (run_steps (replay_step sample_seconds) ?ops replay_start)
      = Some [[Some 2, Some 3]]"
    by (simp add: replay_start_def ReplayTap_default_def start_with_budget_def replay_stop_def replay_publish_def after_reset_def
        Buffer_push_def store_frame_def append_frame_def sample_frame_def is_opus_def frame_bytes_def FRAME_OVERHEAD_def pop_while_stop
        over_limit_def headless_def MAX_FRAMES_def secs_def Clock_advance_def sample_seconds_def replay_snapshot_def Let_def is_video_def)
  obtain s where s: "run_steps (replay_step sample_seconds) ?ops replay_start = Some s"
    "\<forall>clip\<in>set (rp_clips s). playable (rp_published s) clip"
    using replay_clips_playable [of sample_seconds ?ops] by blast
  from eval s(2) show ?thesis unfolding s(1) by simp
qed

end
