(* ===== verification/DecodeProgress.thy ===== *)
theory DecodeProgress
  imports Prelude
begin

text \<open>
  The watchdog of the decoder (\<open>decode_progress.rs\<close> of the core crate): a decoder that has frames and gives none back is
  first asked for a key frame and then declared in need of recovery.
\<close>

section \<open>Model\<close>

record DecodeStageTimings =
  st_p50_us :: nat
  st_p95_us :: nat
  st_max_us :: nat

record DecodeTimingsReport =
  tr_call :: "DecodeStageTimings option"
  tr_residence :: "DecodeStageTimings option"
  tr_call_window_samples :: nat
  tr_residence_window_samples :: nat
  tr_submissions_total :: nat
  tr_outputs_total :: nat
  tr_output_calls_total :: nat
  tr_last_submission_at :: "instant option"
  tr_last_output_at :: "instant option"
  tr_in_flight :: nat
  tr_oldest_in_flight_at :: "instant option"
  tr_epoch :: nat
  tr_epoch_started_at :: "instant option"
  tr_unmatched_outputs :: nat
  tr_unmatched_submissions :: nat

record DecodeProgressPolicy =
  dp_stall :: duration
  dp_keyframe_grace :: duration

datatype DecodeProgressStage = DecodeTracking | DecodeKeyframePending | DecodeRecoveryRequired

datatype DecodeProgressEvent = DecodeKeyframeRequested duration nat | DecodeRecoveryNeeded duration nat

record DecodeProgressWatchdog =
  dw_stage :: DecodeProgressStage
  dw_keyframe_requested_at :: "instant option"
  dw_decoder_epoch :: "nat option"
  dw_unsubmitted_since :: "instant option"

definition DecodeProgressWatchdog_default :: DecodeProgressWatchdog where
  "DecodeProgressWatchdog_default = \<lparr> dw_stage = DecodeTracking, dw_keyframe_requested_at = None, dw_decoder_epoch = None,
     dw_unsubmitted_since = None \<rparr>"

definition clear_episode :: "DecodeProgressWatchdog \<Rightarrow> DecodeProgressWatchdog" where
  "clear_episode w = w\<lparr> dw_stage := DecodeTracking, dw_keyframe_requested_at := None \<rparr>"

definition forget_unsubmitted :: "DecodeProgressWatchdog \<Rightarrow> DecodeProgressWatchdog" where
  "forget_unsubmitted w = w\<lparr> dw_unsubmitted_since := None \<rparr>"

definition progress_reference :: "DecodeTimingsReport \<Rightarrow> instant option" where
  "progress_reference t =
     (let this_epoch_output = (case tr_last_output_at t of
            None \<Rightarrow> None
          | Some at \<Rightarrow> (case tr_epoch_started_at t of None \<Rightarrow> Some at | Some floor \<Rightarrow> if floor \<le> at then Some at else None))
      in case (this_epoch_output, tr_oldest_in_flight_at t) of
           (Some at, Some oldest) \<Rightarrow> Some (max at oldest)
         | (Some at, None) \<Rightarrow> Some at
         | (None, Some oldest) \<Rightarrow> Some (case tr_epoch_started_at t of None \<Rightarrow> oldest | Some floor \<Rightarrow> max oldest floor)
         | (None, None) \<Rightarrow> None)"

text \<open>The instant since which nothing came out, or None with the watchdog as it is left when the poll returns early.\<close>

definition idle_reference ::
  "DecodeTimingsReport \<Rightarrow> instant option \<Rightarrow> instant \<Rightarrow> DecodeProgressPolicy \<Rightarrow> DecodeProgressWatchdog \<Rightarrow> instant option \<times> DecodeProgressWatchdog" where
  "idle_reference t last_assembled_at now policy w =
     (if tr_in_flight t = 0 then
        if \<not> (case last_assembled_at of
                None \<Rightarrow> False
              | Some assembled \<Rightarrow> now - assembled < dp_stall policy \<and> (case tr_last_output_at t of None \<Rightarrow> True | Some out \<Rightarrow> out < assembled))
        then (None, forget_unsubmitted (clear_episode w))
        else let first = (case dw_unsubmitted_since w of None \<Rightarrow> now | Some first \<Rightarrow> first);
                 w = w\<lparr> dw_unsubmitted_since := Some first \<rparr>
             in if (case tr_last_output_at t of None \<Rightarrow> False | Some out \<Rightarrow> first \<le> out)
                then (None, forget_unsubmitted (clear_episode w)) else (Some first, w)
      else (progress_reference t, forget_unsubmitted w))"

definition escalate :: "DecodeTimingsReport \<Rightarrow> duration \<Rightarrow> instant \<Rightarrow> DecodeProgressPolicy \<Rightarrow> DecodeProgressWatchdog \<Rightarrow> DecodeProgressEvent option \<times> DecodeProgressWatchdog" where
  "escalate t idle_for now policy w =
     (case dw_stage w of
        DecodeTracking \<Rightarrow>
          (Some (DecodeKeyframeRequested idle_for (tr_in_flight t)),
           w\<lparr> dw_stage := DecodeKeyframePending, dw_keyframe_requested_at := Some now \<rparr>)
      | DecodeKeyframePending \<Rightarrow>
          let grace_started = (case dw_keyframe_requested_at w of None \<Rightarrow> now | Some at \<Rightarrow> at)
          in if now - grace_started < dp_keyframe_grace policy then (None, w)
             else (Some (DecodeRecoveryNeeded idle_for (tr_in_flight t)), w\<lparr> dw_stage := DecodeRecoveryRequired \<rparr>)
      | DecodeRecoveryRequired \<Rightarrow> (None, w))"

definition enter_epoch :: "nat \<Rightarrow> DecodeProgressWatchdog \<Rightarrow> DecodeProgressWatchdog" where
  "enter_epoch epoch w =
     (if dw_decoder_epoch w \<noteq> Some epoch then forget_unsubmitted (clear_episode (w\<lparr> dw_decoder_epoch := Some epoch \<rparr>)) else w)"

definition decode_poll ::
  "DecodeTimingsReport \<Rightarrow> bool \<Rightarrow> instant option \<Rightarrow> instant \<Rightarrow> DecodeProgressPolicy \<Rightarrow> DecodeProgressWatchdog
   \<Rightarrow> DecodeProgressEvent option \<times> DecodeProgressWatchdog" where
  "decode_poll t upstream_stalled last_assembled_at now policy w =
     (let w = enter_epoch (tr_epoch t) w
      in if dw_stage w = DecodeRecoveryRequired then (None, w)
         else if upstream_stalled then (None, forget_unsubmitted (clear_episode w))
         else case idle_reference t last_assembled_at now policy w of
                (None, w) \<Rightarrow> (None, w)
              | (Some reference, w) \<Rightarrow>
                  let idle_for = now - reference
                  in if idle_for < dp_stall policy then (None, clear_episode w) else escalate t idle_for now policy w)"

section \<open>Runs\<close>

record decode_sample =
  ds_timings :: DecodeTimingsReport
  ds_upstream_stalled :: bool
  ds_last_assembled_at :: "instant option"
  ds_now :: instant

text \<open>The events of a run of polls, each with the epoch and the time of its poll, newest first.\<close>

type_synonym decode_log = "(nat \<times> instant \<times> DecodeProgressEvent option) list"

definition decode_step :: "DecodeProgressPolicy \<Rightarrow> decode_sample \<Rightarrow> DecodeProgressWatchdog \<times> decode_log \<Rightarrow> DecodeProgressWatchdog \<times> decode_log" where
  "decode_step policy x s =
     (case decode_poll (ds_timings x) (ds_upstream_stalled x) (ds_last_assembled_at x) (ds_now x) policy (fst s) of
        (event, w) \<Rightarrow> (w, (tr_epoch (ds_timings x), ds_now x, event) # snd s))"

text \<open>The newest event of an epoch, if no poll of another epoch came after it.\<close>

fun last_event :: "nat \<Rightarrow> decode_log \<Rightarrow> (instant \<times> DecodeProgressEvent) option" where
  "last_event epoch [] = None"
| "last_event epoch ((e, now, event) # log) =
     (if e \<noteq> epoch then None else case event of None \<Rightarrow> last_event epoch log | Some x \<Rightarrow> Some (now, x))"

fun asked_for_keyframe :: "(instant \<times> DecodeProgressEvent) option \<Rightarrow> instant option" where
  "asked_for_keyframe (Some (at, DecodeKeyframeRequested _ _)) = Some at"
| "asked_for_keyframe _ = None"

fun recovered :: "(instant \<times> DecodeProgressEvent) option \<Rightarrow> bool" where
  "recovered (Some (_, DecodeRecoveryNeeded _ _)) = True"
| "recovered _ = False"

text \<open>Every recovery follows a key frame request by at least the grace, and is the last event of its epoch.\<close>

fun recoveries_justified :: "DecodeProgressPolicy \<Rightarrow> decode_log \<Rightarrow> bool" where
  "recoveries_justified policy [] = True"
| "recoveries_justified policy ((epoch, now, event) # log) =
     ((case event of
         Some (DecodeRecoveryNeeded idle _) \<Rightarrow> dp_stall policy \<le> idle
           \<and> (case asked_for_keyframe (last_event epoch log) of Some at \<Rightarrow> dp_keyframe_grace policy \<le> now - at | None \<Rightarrow> False)
       | Some (DecodeKeyframeRequested idle _) \<Rightarrow> dp_stall policy \<le> idle
       | None \<Rightarrow> True)
      \<and> (recovered (last_event epoch log) \<longrightarrow> event = None) \<and> recoveries_justified policy log)"

definition watch_ok :: "DecodeProgressPolicy \<Rightarrow> DecodeProgressWatchdog \<times> decode_log \<Rightarrow> bool" where
  "watch_ok policy s \<longleftrightarrow> (case s of (w, log) \<Rightarrow> recoveries_justified policy log
     \<and> (\<forall>e. recovered (last_event e log) \<longrightarrow> dw_decoder_epoch w = Some e \<and> dw_stage w = DecodeRecoveryRequired)
     \<and> (dw_stage w = DecodeKeyframePending \<longrightarrow> (\<exists>e at. dw_decoder_epoch w = Some e \<and> dw_keyframe_requested_at w = Some at
          \<and> asked_for_keyframe (last_event e log) = Some at))
     \<and> (dw_stage w = DecodeRecoveryRequired \<longrightarrow> (\<exists>e. dw_decoder_epoch w = Some e \<and> recovered (last_event e log))))"

lemma enter_epoch_cases: "enter_epoch e w = w \<and> dw_decoder_epoch w = Some e \<or> dw_decoder_epoch (enter_epoch e w) = Some e \<and> dw_stage (enter_epoch e w) = DecodeTracking"
  by (simp add: enter_epoch_def clear_episode_def forget_unsubmitted_def)

lemma idle_reference_keeps:
  assumes "idle_reference t a now policy w = (reference, w')"
  shows "dw_decoder_epoch w' = dw_decoder_epoch w" and "dw_stage w' = dw_stage w \<and> dw_keyframe_requested_at w' = dw_keyframe_requested_at w \<or> dw_stage w' = DecodeTracking"
  using assms by (auto simp: idle_reference_def clear_episode_def forget_unsubmitted_def Let_def split: if_splits option.splits)

text \<open>What a poll does to the watchdog: it stays where it is or goes back to tracking without an event, or it escalates.\<close>

lemma decode_poll_cases:
  assumes "decode_poll t up a now policy w = (event, w')" and "w1 = enter_epoch (tr_epoch t) w"
  obtains (same) "event = None" "dw_stage w' = dw_stage w1" "dw_keyframe_requested_at w' = dw_keyframe_requested_at w1"
      "dw_decoder_epoch w' = dw_decoder_epoch w1"
    | (clear) "event = None" "dw_stage w' = DecodeTracking" "dw_stage w1 \<noteq> DecodeRecoveryRequired" "dw_decoder_epoch w' = dw_decoder_epoch w1"
    | (ask) idle where "dp_stall policy \<le> idle" "event = Some (DecodeKeyframeRequested idle (tr_in_flight t))" "dw_stage w1 \<noteq> DecodeRecoveryRequired"
      "dw_stage w' = DecodeKeyframePending" "dw_keyframe_requested_at w' = Some now" "dw_decoder_epoch w' = dw_decoder_epoch w1"
    | (recover) idle where "dp_stall policy \<le> idle" "event = Some (DecodeRecoveryNeeded idle (tr_in_flight t))" "dw_stage w1 = DecodeKeyframePending"
      "dp_keyframe_grace policy \<le> now - (case dw_keyframe_requested_at w1 of None \<Rightarrow> now | Some at \<Rightarrow> at)"
      "dw_stage w' = DecodeRecoveryRequired" "dw_decoder_epoch w' = dw_decoder_epoch w1"
proof (cases "dw_stage w1 = DecodeRecoveryRequired \<or> up")
  case True
  with assms same clear show ?thesis
    by (auto simp: decode_poll_def Let_def clear_episode_def forget_unsubmitted_def split: if_splits)
next
  case False
  obtain reference w2 where i: "idle_reference t a now policy w1 = (reference, w2)" by (metis surj_pair)
  note keeps = idle_reference_keeps [OF i]
  show ?thesis
  proof (cases reference)
    case None
    with False i assms have "event = None" "w' = w2" by (auto simp: decode_poll_def Let_def)
    with keeps same clear False show ?thesis by auto
  next
    case (Some at)
    show ?thesis
    proof (cases "now - at < dp_stall policy")
      case True
      with False i Some assms have "event = None" "w' = clear_episode w2" by (auto simp: decode_poll_def Let_def)
      with keeps(1) clear False show ?thesis by (simp add: clear_episode_def)
    next
      case idle: False
      with False i Some assms have e: "escalate t (now - at) now policy w2 = (event, w')" by (auto simp: decode_poll_def Let_def)
      have stall: "dp_stall policy \<le> now - at" using idle by simp
      show ?thesis
      proof (cases "dw_stage w2")
        case DecodeTracking
        with e have "event = Some (DecodeKeyframeRequested (now - at) (tr_in_flight t))"
          "w' = w2\<lparr> dw_stage := DecodeKeyframePending, dw_keyframe_requested_at := Some now \<rparr>" by (auto simp: escalate_def)
        with ask stall False keeps(1) show ?thesis by simp
      next
        case DecodeKeyframePending
        with keeps(2) have w2: "dw_stage w1 = DecodeKeyframePending" "dw_keyframe_requested_at w2 = dw_keyframe_requested_at w1" by auto
        with e DecodeKeyframePending same recover stall keeps(1) show ?thesis
          by (auto simp: escalate_def Let_def not_less split: if_splits)
      next
        case DecodeRecoveryRequired
        with keeps(2) False show ?thesis by auto
      qed
    qed
  qed
qed

lemma decode_step_ok:
  assumes "watch_ok policy s"
  shows "watch_ok policy (decode_step policy x s)"
proof -
  obtain w log where s: "s = (w, log)" by (metis surj_pair)
  let ?t = "ds_timings x" and ?e = "tr_epoch (ds_timings x)" and ?now = "ds_now x"
  define w1 where "w1 = enter_epoch ?e w"
  obtain event w' where p: "decode_poll ?t (ds_upstream_stalled x) (ds_last_assembled_at x) ?now policy w = (event, w')" by (metis surj_pair)
  from assms s have ok: "recoveries_justified policy log" "\<And>e. recovered (last_event e log) \<Longrightarrow> dw_decoder_epoch w = Some e \<and> dw_stage w = DecodeRecoveryRequired"
    "dw_stage w = DecodeKeyframePending \<Longrightarrow> \<exists>e at. dw_decoder_epoch w = Some e \<and> dw_keyframe_requested_at w = Some at \<and> asked_for_keyframe (last_event e log) = Some at"
    "dw_stage w = DecodeRecoveryRequired \<Longrightarrow> \<exists>e. dw_decoder_epoch w = Some e \<and> recovered (last_event e log)"
    by (auto simp: watch_ok_def)
  have epoch: "dw_decoder_epoch w1 = Some ?e" using enter_epoch_cases [of ?e w] by (auto simp: w1_def)
  have rec: "dw_stage w1 = DecodeRecoveryRequired" if "recovered (last_event ?e log)" using enter_epoch_cases [of ?e w] ok(2) [OF that] by (auto simp: w1_def enter_epoch_def)
  have was: "recovered (last_event ?e log)" if "dw_stage w1 = DecodeRecoveryRequired"
    using enter_epoch_cases [of ?e w] ok(4) that by (auto simp: w1_def)
  have key: "\<exists>at. dw_keyframe_requested_at w1 = Some at \<and> asked_for_keyframe (last_event ?e log) = Some at" if "dw_stage w1 = DecodeKeyframePending"
    using enter_epoch_cases [of ?e w] ok(3) that by (auto simp: w1_def)
  have "watch_ok policy (w', (?e, ?now, event) # log)"
    using p w1_def
  proof (cases rule: decode_poll_cases)
    case same
    with ok(1) epoch rec key was show ?thesis by (auto simp: watch_ok_def split: if_splits)
  next
    case clear
    with ok(1) epoch rec show ?thesis by (auto simp: watch_ok_def split: if_splits)
  next
    case (ask idle)
    with ok(1) epoch rec show ?thesis by (auto simp: watch_ok_def split: if_splits)
  next
    case (recover idle)
    with ok(1) epoch rec key show ?thesis by (auto simp: watch_ok_def split: if_splits)
  qed
  with s p show ?thesis by (simp add: decode_step_def)
qed

interpretation decode_watch: state_machine "decode_step policy" "watch_ok policy"
  by unfold_locales (rule decode_step_ok)

lemma watch_ok_default: "watch_ok policy (DecodeProgressWatchdog_default, [])"
  by (simp add: watch_ok_def DecodeProgressWatchdog_default_def)

text \<open>C22: whatever the decoder and the receiver report, the watchdog asks for a recovery only when a key frame was asked
  for at least the grace earlier in the same epoch of the decoder and no progress was seen since, and after it has asked for
  a recovery it stays silent until the decoder starts a new epoch.\<close>

theorem decode_recovery_justified:
  "recoveries_justified policy (snd (fold (decode_step policy) samples (DecodeProgressWatchdog_default, [])))"
  using decode_watch.run_keeps [OF watch_ok_default, of policy samples] by (simp add: watch_ok_def case_prod_beta)

section \<open>A stuck decoder is recovered\<close>

text \<open>A poll that finds the decoder of the epoch holding frames and silent since the reference.\<close>

definition stuck :: "nat \<Rightarrow> instant \<Rightarrow> decode_sample \<Rightarrow> bool" where
  "stuck epoch reference x \<longleftrightarrow> tr_epoch (ds_timings x) = epoch \<and> \<not> ds_upstream_stalled x \<and> tr_in_flight (ds_timings x) \<noteq> 0
     \<and> progress_reference (ds_timings x) = Some reference"

definition pending_since :: "nat \<Rightarrow> instant \<Rightarrow> DecodeProgressWatchdog \<Rightarrow> bool" where
  "pending_since epoch limit w \<longleftrightarrow> dw_decoder_epoch w = Some epoch
     \<and> (dw_stage w = DecodeRecoveryRequired
        \<or> dw_stage w = DecodeKeyframePending \<and> (\<exists>at. dw_keyframe_requested_at w = Some at \<and> at \<le> limit))"

definition asked_before :: "instant \<Rightarrow> DecodeProgressWatchdog \<Rightarrow> bool" where
  "asked_before limit w \<longleftrightarrow> (dw_stage w = DecodeKeyframePending \<longrightarrow> (\<exists>at. dw_keyframe_requested_at w = Some at \<and> at \<le> limit))"

lemma stuck_poll:
  assumes "stuck epoch reference x" and "reference + dp_stall policy \<le> ds_now x" and "w1 = enter_epoch epoch w" and "dw_stage w1 \<noteq> DecodeRecoveryRequired"
  shows "decode_poll (ds_timings x) (ds_upstream_stalled x) (ds_last_assembled_at x) (ds_now x) policy w
    = escalate (ds_timings x) (ds_now x - reference) (ds_now x) policy (forget_unsubmitted w1)"
  using assms by (auto simp: stuck_def decode_poll_def idle_reference_def Let_def)

lemma stuck_step:
  assumes "stuck epoch reference x" and "reference + dp_stall policy \<le> ds_now x" and "asked_before limit w"
  shows "pending_since epoch (max limit (ds_now x)) (fst (decode_step policy x (w, log)))"
    and "pending_since epoch limit w \<Longrightarrow> pending_since epoch limit (fst (decode_step policy x (w, log)))"
    and "pending_since epoch limit w \<Longrightarrow> limit + dp_keyframe_grace policy \<le> ds_now x
      \<Longrightarrow> dw_stage (fst (decode_step policy x (w, log))) = DecodeRecoveryRequired"
proof -
  define w1 where "w1 = enter_epoch epoch w"
  have w1: "dw_decoder_epoch w1 = Some epoch" "asked_before limit w1"
    using enter_epoch_cases [of epoch w] assms(3) by (auto simp: w1_def asked_before_def)
  have same: "w1 = w" if "pending_since epoch limit w" using that by (simp add: w1_def enter_epoch_def pending_since_def)
  let ?w = "fst (decode_step policy x (w, log))"
  show "pending_since epoch (max limit (ds_now x)) ?w"
  proof (cases "dw_stage w1 = DecodeRecoveryRequired")
    case True
    with assms(1) w1_def w1(1) show ?thesis by (simp add: decode_step_def decode_poll_def stuck_def pending_since_def)
  next
    case False
    with stuck_poll [OF assms(1,2) w1_def] w1 show ?thesis
      by (cases "dw_stage w1") (auto simp: decode_step_def escalate_def forget_unsubmitted_def pending_since_def asked_before_def Let_def)
  qed
  show "pending_since epoch limit ?w" if p: "pending_since epoch limit w"
  proof (cases "dw_stage w1 = DecodeRecoveryRequired")
    case True
    with assms(1) w1_def w1(1) show ?thesis by (simp add: decode_step_def decode_poll_def stuck_def pending_since_def)
  next
    case False
    with stuck_poll [OF assms(1,2) w1_def] same [OF p] p w1 show ?thesis
      by (auto simp: decode_step_def escalate_def forget_unsubmitted_def pending_since_def Let_def)
  qed
  show "dw_stage ?w = DecodeRecoveryRequired" if p: "pending_since epoch limit w" and late: "limit + dp_keyframe_grace policy \<le> ds_now x"
  proof (cases "dw_stage w1 = DecodeRecoveryRequired")
    case True
    with assms(1) w1_def w1(1) show ?thesis by (simp add: decode_step_def decode_poll_def stuck_def)
  next
    case False
    with stuck_poll [OF assms(1,2) w1_def] same [OF p] p late show ?thesis
      by (auto simp: decode_step_def escalate_def forget_unsubmitted_def pending_since_def Let_def)
  qed
qed

lemma asked_before_step:
  assumes "asked_before limit (fst s)" and "ds_now x \<le> limit"
  shows "asked_before limit (fst (decode_step policy x s))"
proof -
  obtain event w' where p: "decode_poll (ds_timings x) (ds_upstream_stalled x) (ds_last_assembled_at x) (ds_now x) policy (fst s) = (event, w')" by (metis surj_pair)
  have w1: "asked_before limit (enter_epoch (tr_epoch (ds_timings x)) (fst s))"
    using enter_epoch_cases [of "tr_epoch (ds_timings x)" "fst s"] assms(1) by (auto simp: asked_before_def)
  from p refl have "asked_before limit w'"
    by (cases rule: decode_poll_cases) (use w1 assms(2) in \<open>auto simp: asked_before_def\<close>)
  with p show ?thesis by (simp add: decode_step_def case_prod_beta)
qed

text \<open>A decoder that holds frames and gives none back is always recovered: whatever happened before, once polls
  find it silent for the stall limit and again after the grace, a recovery has been asked for in its epoch.\<close>

theorem decode_stall_escalates:
  assumes "\<forall>z\<in>set earlier. ds_now z \<le> ds_now x" and "stuck epoch reference x" and "reference + dp_stall policy \<le> ds_now x"
    and "\<forall>z\<in>set between. stuck epoch reference z \<and> ds_now x \<le> ds_now z"
    and "stuck epoch reference y" and "ds_now x + dp_keyframe_grace policy \<le> ds_now y"
  shows "recovered (last_event epoch (snd (fold (decode_step policy) (earlier @ x # between @ [y]) (DecodeProgressWatchdog_default, []))))"
proof -
  let ?run = "\<lambda>xs. fold (decode_step policy) xs (DecodeProgressWatchdog_default, [])"
  have "asked_before (ds_now x) (fst (fold (decode_step policy) earlier s))" if "asked_before (ds_now x) (fst s)" for s
    using that assms(1) by (induction earlier arbitrary: s) (simp_all add: asked_before_step)
  then have asked: "asked_before (ds_now x) (fst (?run earlier))" by (simp add: asked_before_def DecodeProgressWatchdog_default_def)
  have one: "fst (decode_step policy z s) = fst (decode_step policy z (fst s, snd s))" for z s by simp
  have first: "pending_since epoch (ds_now x) (fst (?run (earlier @ [x])))"
    using stuck_step(1) [OF assms(2,3) asked, of "snd (?run earlier)"] by simp
  have mid: "pending_since epoch (ds_now x) (fst (fold (decode_step policy) between s))" if "pending_since epoch (ds_now x) (fst s)" for s
    using that assms(4)
  proof (induction between arbitrary: s)
    case (Cons z zs)
    have "asked_before (ds_now x) (fst s)" using Cons.prems(1) by (auto simp: pending_since_def asked_before_def)
    with stuck_step(2) [of epoch reference z policy "ds_now x" "fst s" "snd s"] Cons.prems assms(3)
    have "pending_since epoch (ds_now x) (fst (decode_step policy z s))" by simp
    with Cons.IH Cons.prems(2) show ?case by simp
  qed simp
  let ?s = "?run (earlier @ x # between)"
  have pend: "pending_since epoch (ds_now x) (fst ?s)" using mid first by simp
  then have "asked_before (ds_now x) (fst ?s)" by (auto simp: pending_since_def asked_before_def)
  with stuck_step(2,3) [OF assms(5), of policy "ds_now x" "fst ?s" "snd ?s"] pend assms(3,6)
  have last: "dw_stage (fst (decode_step policy y ?s)) = DecodeRecoveryRequired" "pending_since epoch (ds_now x) (fst (decode_step policy y ?s))"
    by simp_all
  have "watch_ok policy (?run (earlier @ x # between @ [y]))" by (rule decode_watch.run_keeps [OF watch_ok_default])
  with last show ?thesis by (auto simp: watch_ok_def pending_since_def case_prod_beta)
qed

definition sample_timings :: DecodeTimingsReport where
  "sample_timings = \<lparr> tr_call = None, tr_residence = None, tr_call_window_samples = 0, tr_residence_window_samples = 0, tr_submissions_total = 3,
     tr_outputs_total = 0, tr_output_calls_total = 0, tr_last_submission_at = Some 4, tr_last_output_at = None, tr_in_flight = 3,
     tr_oldest_in_flight_at = Some 2, tr_epoch = 5, tr_epoch_started_at = None, tr_unmatched_outputs = 0, tr_unmatched_submissions = 0 \<rparr>"

definition sample_poll :: "instant \<Rightarrow> decode_sample" where
  "sample_poll now = \<lparr> ds_timings = sample_timings, ds_upstream_stalled = False, ds_last_assembled_at = None, ds_now = now \<rparr>"

theorem decode_stall_escalates_witness:
  "recovered (last_event 5 (snd (fold (decode_step \<lparr> dp_stall = 3, dp_keyframe_grace = 4 \<rparr>) [sample_poll 4, sample_poll 10, sample_poll 12, sample_poll 14]
     (DecodeProgressWatchdog_default, []))))"
proof -
  let ?p = "\<lparr> dp_stall = 3, dp_keyframe_grace = 4 \<rparr>"
  have st: "stuck 5 2 (sample_poll now)" "ds_now (sample_poll now) = now" for now
    by (simp_all add: stuck_def sample_poll_def sample_timings_def progress_reference_def)
  have "recovered (last_event 5 (snd (fold (decode_step ?p) ([sample_poll 4] @ sample_poll 10 # [sample_poll 12] @ [sample_poll 14])
     (DecodeProgressWatchdog_default, []))))"
    by (rule decode_stall_escalates [where reference = 2]) (simp_all add: st)
  then show ?thesis by simp
qed

end
