(* ===== verification/Playback.thy ===== *)
theory Playback
  imports UdpWorker ReplayBuffer DecodeProgress
begin

text \<open>
  From the channel of the transport to the decoder: the ingress thread (\<open>consume_encoded_media\<close> of the core crate),
  the sink of a media session with its audio queue, recording tap and replay tap (\<open>media.rs\<close>, \<open>queue.rs\<close>), and the composition with
  the receive worker and the decoder queue. Each method of the sink is one transition.
\<close>

section \<open>The audio queue\<close>

datatype PushResult = PushQueued | PushDroppedOldest | PushClosed

record 'a BoundedQueue =
  bq_capacity :: nat
  bq_values :: "'a list"
  bq_closed :: bool

definition BoundedQueue_new :: "nat \<Rightarrow> 'a BoundedQueue option" where
  "BoundedQueue_new capacity = (if capacity > 0 then Some \<lparr> bq_capacity = capacity, bq_values = [], bq_closed = False \<rparr> else None)"

definition bq_push :: "'a \<Rightarrow> 'a BoundedQueue \<Rightarrow> PushResult \<times> 'a BoundedQueue" where
  "bq_push v q =
     (if bq_closed q then (PushClosed, q)
      else if length (bq_values q) = bq_capacity q
      then (PushDroppedOldest, q\<lparr> bq_values := tl (bq_values q) @ [v] \<rparr>)
      else (PushQueued, q\<lparr> bq_values := bq_values q @ [v] \<rparr>))"

definition bq_pop :: "'a BoundedQueue \<Rightarrow> ('a option \<times> 'a BoundedQueue) option" where
  "bq_pop q = (case bq_values q of
     v # vs \<Rightarrow> Some (Some v, q\<lparr> bq_values := vs \<rparr>)
   | [] \<Rightarrow> if bq_closed q then Some (None, q) else None)"

definition bq_clear :: "'a BoundedQueue \<Rightarrow> 'a BoundedQueue" where
  "bq_clear q = q\<lparr> bq_values := [] \<rparr>"

definition bq_close :: "'a BoundedQueue \<Rightarrow> 'a BoundedQueue" where
  "bq_close q = q\<lparr> bq_closed := True, bq_values := [] \<rparr>"

section \<open>The recording tap\<close>

definition RECORDING_TAP_QUEUE_CAPACITY :: nat where "RECORDING_TAP_QUEUE_CAPACITY = 256"

text \<open>The channel to a recorder: the frames in it, those the recorder has received and whether it has gone.\<close>

record recorder =
  rd_queue :: "EncodedFrame list"
  rd_received :: "EncodedFrame list"
  rd_gone :: bool

record RecordingTap =
  tp_sender :: "recorder option"
  tp_overflowed :: bool
  tp_ended :: "recorder list"

definition RecordingTap_default :: RecordingTap where
  "RecordingTap_default = \<lparr> tp_sender = None, tp_overflowed = False, tp_ended = [] \<rparr>"

definition drop_sender :: "RecordingTap \<Rightarrow> RecordingTap" where
  "drop_sender tap = (case tp_sender tap of
     None \<Rightarrow> tap
   | Some r \<Rightarrow> tap\<lparr> tp_sender := None, tp_ended := tp_ended tap @ [r] \<rparr>)"

definition subscribe :: "RecordingTap \<Rightarrow> (string + unit) \<times> RecordingTap" where
  "subscribe tap =
     (if tp_sender tap \<noteq> None then (Inl ''a native stream recording is already active'', tap)
      else (Inr (), tap\<lparr> tp_overflowed := False, tp_sender := Some \<lparr> rd_queue = [], rd_received = [], rd_gone = False \<rparr> \<rparr>))"

definition unsubscribe :: "RecordingTap \<Rightarrow> RecordingTap" where
  "unsubscribe tap = drop_sender tap"

definition tap_publish :: "EncodedFrame \<Rightarrow> bool \<Rightarrow> RecordingTap \<Rightarrow> RecordingTap" where
  "tap_publish frame locked tap =
     (if \<not> locked then tap\<lparr> tp_overflowed := True \<rparr>
      else if tp_overflowed tap then drop_sender tap
      else case tp_sender tap of
             None \<Rightarrow> tap
           | Some r \<Rightarrow>
               if rd_gone r then drop_sender tap
               else if length (rd_queue r) \<ge> RECORDING_TAP_QUEUE_CAPACITY then drop_sender (tap\<lparr> tp_overflowed := True \<rparr>)
               else tap\<lparr> tp_sender := Some (r\<lparr> rd_queue := rd_queue r @ [frame] \<rparr>) \<rparr>)"

text \<open>What the recorder does: it receives the oldest frame, or goes away.\<close>

definition recorder_receives :: "RecordingTap \<Rightarrow> RecordingTap" where
  "recorder_receives tap = (case tp_sender tap of
     None \<Rightarrow> tap
   | Some r \<Rightarrow> (case rd_queue r of [] \<Rightarrow> tap
       | f # fs \<Rightarrow> tap\<lparr> tp_sender := Some (r\<lparr> rd_queue := fs, rd_received := rd_received r @ [f] \<rparr>) \<rparr>))"

definition recorder_leaves :: "RecordingTap \<Rightarrow> RecordingTap" where
  "recorder_leaves tap = tap\<lparr> tp_sender := map_option (\<lambda>r. r\<lparr> rd_gone := True \<rparr>) (tp_sender tap) \<rparr>"

section \<open>The sink\<close>

datatype PushOutcome = OutcomeQueued | OutcomeDroppedOldest | OutcomePaused | OutcomeUnsupported | OutcomeClosed

datatype MediaColorQuality = EightBit420 | EightBit444 | TenBit420 | TenBit444

datatype MediaFeedback =
    VideoFrameAccepted "u32 option" nat u32 bool
  | PlaybackStarted string
  | BackendFallback string string string
  | ColorFormatChanged MediaColorQuality MediaColorQuality
  | RequestKeyframe string string
  | DecoderError string string
  | AudioDecoderError string u32
  | AudioUnavailable string string nat
  | QueueDropped string nat
  | OutputError string
  | DeviceLost string bool "string option"
  | DecodeTimings DecodeTimingsReport

record media_sink =
  sk_video :: VideoQueue
  sk_audio :: "EncodedFrame BoundedQueue"
  sk_feedback :: "MediaFeedback list"
  sk_paused :: bool
  sk_stopped :: bool
  sk_video_desynced :: bool
  sk_keyframe_requested :: bool
  sk_recording_tap :: RecordingTap
  sk_replay_tap :: ReplayTap

definition VIDEO_QUEUE_CAPACITY :: nat where "VIDEO_QUEUE_CAPACITY = 2"
definition VIDEO_QUEUE_MAX_CAPACITY :: nat where "VIDEO_QUEUE_MAX_CAPACITY = 60"
definition AUDIO_QUEUE_CAPACITY :: nat where "AUDIO_QUEUE_CAPACITY = 10"

definition video_queue_capacity :: "u32 \<Rightarrow> nat" where
  "video_queue_capacity fps = max VIDEO_QUEUE_CAPACITY (min VIDEO_QUEUE_MAX_CAPACITY ((max (unat fps) 1 + 3) div 4))"

definition push_video :: "EncodedFrame \<Rightarrow> media_sink \<Rightarrow> PushOutcome \<times> media_sink" where
  "push_video frame k = (case push_frame frame (sk_video k) of
     (Inl _, q) \<Rightarrow> (OutcomeClosed, k\<lparr> sk_video := q \<rparr>)
   | (Inr result, q) \<Rightarrow>
       let feedback = (if vh_request_keyframe result
                       then [RequestKeyframe (ef_mid frame) ''compressed video discontinuity or queue overflow''] else [])
             @ (if vh_dropped result > 0 then [QueueDropped ''video'' (vh_dropped result)] else [])
       in (if vh_dropped result > 0 then OutcomeDroppedOldest else OutcomeQueued,
           k\<lparr> sk_video := q, sk_feedback := sk_feedback k @ feedback \<rparr>))"

definition push_audio :: "EncodedFrame \<Rightarrow> media_sink \<Rightarrow> PushOutcome \<times> media_sink" where
  "push_audio frame k = (case bq_push frame (sk_audio k) of
     (PushQueued, q) \<Rightarrow> (OutcomeQueued, k\<lparr> sk_audio := q \<rparr>)
   | (PushDroppedOldest, q) \<Rightarrow>
       (OutcomeDroppedOldest, k\<lparr> sk_audio := q, sk_feedback := sk_feedback k @ [QueueDropped ''audio'' 1] \<rparr>)
   | (PushClosed, q) \<Rightarrow> (OutcomeClosed, k\<lparr> sk_audio := q \<rparr>))"

text \<open>The two flags say whether the taps could be locked.\<close>

definition publish_taps :: "(nat \<Rightarrow> u32 \<Rightarrow> duration) \<Rightarrow> EncodedFrame \<Rightarrow> bool \<times> bool \<Rightarrow> instant \<Rightarrow> media_sink \<Rightarrow> media_sink option" where
  "publish_taps seconds frame locks now k =
     map_option (\<lambda>replay. k\<lparr> sk_recording_tap := tap_publish frame (fst locks) (sk_recording_tap k), sk_replay_tap := replay \<rparr>)
       (replay_publish seconds frame (snd locks) now (sk_replay_tap k))"

definition sink_push :: "(nat \<Rightarrow> u32 \<Rightarrow> duration) \<Rightarrow> EncodedFrame \<Rightarrow> bool \<times> bool \<Rightarrow> instant \<Rightarrow> media_sink \<Rightarrow> (PushOutcome \<times> media_sink) option" where
  "sink_push seconds frame locks now k =
     (if sk_stopped k then Some (OutcomeClosed, k)
      else if sk_paused k then Some (OutcomePaused, k)
      else case ef_codec frame of
             UnsupportedCodec _ \<Rightarrow> Some (OutcomeUnsupported, k)
           | Opus _ \<Rightarrow> map_option (push_audio frame) (publish_taps seconds frame locks now k)
           | _ \<Rightarrow> map_option (push_video frame) (publish_taps seconds frame locks now k))"

definition set_paused :: "bool \<Rightarrow> media_sink \<Rightarrow> media_sink" where
  "set_paused paused k =
     (let k = k\<lparr> sk_paused := paused, sk_video := clear (sk_video k), sk_audio := bq_clear (sk_audio k) \<rparr>
      in if paused then k else k\<lparr> sk_video_desynced := True, sk_keyframe_requested := False \<rparr>)"

definition sink_stop :: "media_sink \<Rightarrow> media_sink" where
  "sink_stop k =
     (if sk_stopped k then k
      else k\<lparr> sk_stopped := True, sk_video := close (sk_video k), sk_audio := bq_close (sk_audio k),
              sk_recording_tap := unsubscribe (sk_recording_tap k), sk_replay_tap := replay_stop (sk_replay_tap k) \<rparr>)"

section \<open>The ingress thread\<close>

definition to_ascii_lowercase :: "char \<Rightarrow> char" where
  "to_ascii_lowercase c = (if 65 \<le> (of_char c :: nat) \<and> (of_char c :: nat) \<le> 90 then char_of ((of_char c :: nat) + 32) else c)"

definition eq_ignore_ascii_case :: "string \<Rightarrow> string \<Rightarrow> bool" where
  "eq_ignore_ascii_case a b \<longleftrightarrow> map to_ascii_lowercase a = map to_ascii_lowercase b"

definition media_codec :: "EncodedMediaFrame \<Rightarrow> MediaCodec" where
  "media_codec frame =
     (if eq_ignore_ascii_case (mf_codec frame) ''h264'' then MediaH264
      else if eq_ignore_ascii_case (mf_codec frame) ''h265'' \<or> eq_ignore_ascii_case (mf_codec frame) ''hevc'' then MediaH265
      else if eq_ignore_ascii_case (mf_codec frame) ''av1'' then MediaAv1
      else if eq_ignore_ascii_case (mf_codec frame) ''opus''
      then Opus (max 1 (min 2 (case mf_channels frame of None \<Rightarrow> 2 | Some n \<Rightarrow> n)))
      else UnsupportedCodec (mf_codec frame))"

definition encoded_frame :: "EncodedMediaFrame \<Rightarrow> EncodedFrame" where
  "encoded_frame frame = \<lparr> ef_mid = mf_mid frame, ef_codec = media_codec frame, ef_data = mf_payload frame,
     ef_frame_index = mf_frame_index frame, ef_timestamp = mf_rtp_timestamp frame, ef_clock_rate_hz = mf_clock_rate_hz frame,
     ef_keyframe = mf_keyframe frame, ef_contiguous = mf_contiguous frame, ef_ssrc = mf_ssrc frame \<rparr>"

text \<open>One frame of the loop: whether the loop goes on.\<close>

definition consume_frame :: "(nat \<Rightarrow> u32 \<Rightarrow> duration) \<Rightarrow> EncodedMediaFrame \<Rightarrow> bool \<times> bool \<Rightarrow> instant \<Rightarrow> media_sink \<Rightarrow> (bool \<times> media_sink) option" where
  "consume_frame seconds frame locks now k =
     map_option (\<lambda>(outcome, k). (outcome \<noteq> OutcomeClosed, k)) (sink_push seconds (encoded_frame frame) locks now k)"

definition new_sink :: "u32 \<Rightarrow> media_sink option" where
  "new_sink fps = (case (VideoQueue_new (video_queue_capacity fps), BoundedQueue_new AUDIO_QUEUE_CAPACITY) of
     (Some video, Some audio) \<Rightarrow>
       Some \<lparr> sk_video = video, sk_audio = audio, sk_feedback = [], sk_paused = False, sk_stopped = False, sk_video_desynced = True,
              sk_keyframe_requested = False, sk_recording_tap = RecordingTap_default, sk_replay_tap = ReplayTap_default \<rparr>
   | _ \<Rightarrow> None)"

section \<open>Runs\<close>

datatype playback_op =
    Consume EncodedMediaFrame "bool \<times> bool" instant
  | TakePacket
  | SetPaused bool
  | HoldKeyframe
  | StartSinkReplay ReplayBufferConfig instant
  | StopSink

text \<open>The sink, whether the ingress thread runs, the frames it has taken from the channel and the packets the decoder
  has taken.\<close>

record playback =
  pb_sink :: media_sink
  pb_running :: bool
  pb_consumed :: "EncodedMediaFrame list"
  pb_taken :: "VideoPacket list"

fun playback_step :: "(nat \<Rightarrow> u32 \<Rightarrow> duration) \<Rightarrow> playback_op \<Rightarrow> playback \<Rightarrow> playback option" where
  "playback_step seconds (Consume frame locks now) s =
     (if \<not> pb_running s then Some s
      else map_option (\<lambda>(continues, k). s\<lparr> pb_sink := k, pb_running := continues, pb_consumed := pb_consumed s @ [frame] \<rparr>)
             (consume_frame seconds frame locks now (pb_sink s)))"
| "playback_step seconds TakePacket s =
     Some (case pop_packet (sk_video (pb_sink s)) of
             Some (Some packet, q) \<Rightarrow> s\<lparr> pb_sink := (pb_sink s)\<lparr> sk_video := q \<rparr>, pb_taken := pb_taken s @ [packet] \<rparr>
           | _ \<Rightarrow> s)"
| "playback_step seconds (SetPaused paused) s = Some (s\<lparr> pb_sink := set_paused paused (pb_sink s) \<rparr>)"
| "playback_step seconds HoldKeyframe s =
     Some (s\<lparr> pb_sink := (pb_sink s)\<lparr> sk_video := hold_keyframe_request (sk_video (pb_sink s)) \<rparr> \<rparr>)"
| "playback_step seconds (StartSinkReplay config now) s =
     Some (s\<lparr> pb_sink := (pb_sink s)\<lparr> sk_replay_tap := start_with_budget config now (sk_replay_tap (pb_sink s)) \<rparr> \<rparr>)"
| "playback_step seconds StopSink s = Some (s\<lparr> pb_sink := sink_stop (pb_sink s) \<rparr>)"

definition playback_start :: "media_sink \<Rightarrow> playback" where
  "playback_start k = \<lparr> pb_sink = k, pb_running = True, pb_consumed = [], pb_taken = [] \<rparr>"

section \<open>The recording\<close>

text \<open>What a recorder has got is the beginning of what was published since it subscribed.\<close>

definition recorded :: "recorder \<Rightarrow> EncodedFrame list" where
  "recorded r = rd_received r @ rd_queue r"

datatype tap_op = Subscribe | Unsubscribe | TapPublish EncodedFrame bool | RecorderReceives | RecorderLeaves

text \<open>The tap with the frames published since the last subscription, and for each recording that has ended what was
  published while it was the current one.\<close>

record tap_run =
  tn_tap :: RecordingTap
  tn_since :: "EncodedFrame list"
  tn_ended :: "EncodedFrame list list"

definition end_recording :: "RecordingTap \<Rightarrow> EncodedFrame list \<Rightarrow> tap_run \<Rightarrow> tap_run" where
  "end_recording tap since s =
     s\<lparr> tn_tap := tap, tn_since := since,
        tn_ended := (if length (tp_ended tap) = length (tp_ended (tn_tap s)) then tn_ended s else tn_ended s @ [since]) \<rparr>"

fun tap_step :: "tap_op \<Rightarrow> tap_run \<Rightarrow> tap_run" where
  "tap_step Subscribe s = (case subscribe (tn_tap s) of
     (Inl _, tap) \<Rightarrow> s\<lparr> tn_tap := tap \<rparr>
   | (Inr _, tap) \<Rightarrow> s\<lparr> tn_tap := tap, tn_since := [] \<rparr>)"
| "tap_step Unsubscribe s = end_recording (unsubscribe (tn_tap s)) (tn_since s) s"
| "tap_step (TapPublish frame locked) s = end_recording (tap_publish frame locked (tn_tap s)) (tn_since s @ [frame]) s"
| "tap_step RecorderReceives s = s\<lparr> tn_tap := recorder_receives (tn_tap s) \<rparr>"
| "tap_step RecorderLeaves s = s\<lparr> tn_tap := recorder_leaves (tn_tap s) \<rparr>"

definition tap_inv :: "tap_run \<Rightarrow> bool" where
  "tap_inv s \<longleftrightarrow> list_all2 (\<lambda>r published. prefix (recorded r) published) (tp_ended (tn_tap s)) (tn_ended s)
     \<and> (\<forall>r. tp_sender (tn_tap s) = Some r \<longrightarrow> prefix (recorded r) (tn_since s)
          \<and> (\<not> tp_overflowed (tn_tap s) \<and> \<not> rd_gone r \<longrightarrow> recorded r = tn_since s))"

lemma tap_inv_drop:
  assumes "tap_inv s" and "tap = drop_sender ((tn_tap s)\<lparr> tp_overflowed := v \<rparr>)" and "prefix (tn_since s) since"
  shows "tap_inv (end_recording tap since s)"
proof (cases "tp_sender (tn_tap s)")
  case None
  with assms show ?thesis by (auto simp: tap_inv_def drop_sender_def end_recording_def)
next
  case (Some r)
  from assms(1) Some have "prefix (recorded r) since" using assms(3) by (auto simp: tap_inv_def intro: prefix_order.trans)
  with assms(1,2) Some show ?thesis by (auto simp: tap_inv_def drop_sender_def end_recording_def list_all2_appendI)
qed

lemma tap_step_inv: "tap_inv s \<Longrightarrow> tap_inv (tap_step op s)"
proof (cases op)
  case (TapPublish frame locked)
  assume inv: "tap_inv s"
  let ?t = "tn_tap s"
  have pre: "prefix (tn_since s) (tn_since s @ [frame])" by simp
  consider (drop) v where "tap_publish frame locked ?t = drop_sender (?t\<lparr> tp_overflowed := v \<rparr>)"
    | (missed) "tap_publish frame locked ?t = ?t\<lparr> tp_overflowed := True \<rparr>"
    | (sent) r where "tp_sender ?t = Some r" "\<not> tp_overflowed ?t" "\<not> rd_gone r"
        "tap_publish frame locked ?t = ?t\<lparr> tp_sender := Some (r\<lparr> rd_queue := rd_queue r @ [frame] \<rparr>) \<rparr>"
  proof -
    have same: "?t\<lparr> tp_overflowed := tp_overflowed ?t \<rparr> = ?t" by simp
    show thesis
    proof (cases "locked \<and> \<not> tp_overflowed ?t")
      case True
      show thesis
      proof (cases "tp_sender ?t")
        case None
        with True same show thesis by (intro drop [of "tp_overflowed ?t"]) (simp add: tap_publish_def drop_sender_def)
      next
        case (Some r)
        with True same show thesis
          by (cases "rd_gone r"; cases "length (rd_queue r) \<ge> RECORDING_TAP_QUEUE_CAPACITY")
            (auto simp: tap_publish_def intro: drop [of "tp_overflowed ?t", unfolded same] drop [of True] sent)
      qed
    next
      case False
      then show thesis using drop [of "tp_overflowed ?t", unfolded same] missed by (cases locked) (simp_all add: tap_publish_def)
    qed
  qed
  then show ?thesis
  proof cases
    case drop
    from tap_inv_drop [OF inv drop pre] TapPublish show ?thesis by simp
  next
    case missed
    with TapPublish inv show ?thesis by (auto simp: tap_inv_def end_recording_def intro: prefix_order.trans)
  next
    case sent
    with TapPublish inv show ?thesis by (auto simp: tap_inv_def end_recording_def recorded_def)
  qed
next
  case Unsubscribe
  assume inv: "tap_inv s"
  from tap_inv_drop [OF inv, of _ "tp_overflowed (tn_tap s)" "tn_since s"] Unsubscribe show ?thesis by (simp add: unsubscribe_def)
qed (auto simp: tap_inv_def subscribe_def recorder_receives_def recorder_leaves_def recorded_def split: option.splits list.splits)

interpretation tap: state_machine tap_step tap_inv
  by unfold_locales (rule tap_step_inv)

text \<open>C29: a recording has no holes: what a recorder has got or will get from its channel is always the beginning of
  what was published since it subscribed, and all of it unless the tap has signalled an overflow or the recorder has gone.\<close>

theorem recording_gap_free:
  assumes "s = fold tap_step ops \<lparr> tn_tap = RecordingTap_default, tn_since = [], tn_ended = [] \<rparr>"
  shows "list_all2 (\<lambda>r published. prefix (recorded r) published) (tp_ended (tn_tap s)) (tn_ended s)
    \<and> (case tp_sender (tn_tap s) of None \<Rightarrow> True
       | Some r \<Rightarrow> prefix (recorded r) (tn_since s) \<and> (tp_overflowed (tn_tap s) \<or> rd_gone r \<or> recorded r = tn_since s))"
proof -
  have "tap_inv s" unfolding assms by (rule tap.run_keeps) (simp add: tap_inv_def RecordingTap_default_def)
  then show ?thesis by (auto simp: tap_inv_def split: option.split)
qed

theorem recording_gap_free_witness:
  "let s = fold tap_step [Subscribe, TapPublish (sample_frame 1 True) True, RecorderReceives, TapPublish (sample_frame 2 False) True]
       \<lparr> tn_tap = RecordingTap_default, tn_since = [], tn_ended = [] \<rparr>
   in map_option (map ef_frame_index \<circ> recorded) (tp_sender (tn_tap s)) = Some [Some 1, Some 2]
     \<and> (case tp_sender (tn_tap s) of None \<Rightarrow> True | Some r \<Rightarrow> prefix (recorded r) (tn_since s))"
proof -
  let ?s = "fold tap_step [Subscribe, TapPublish (sample_frame 1 True) True, RecorderReceives, TapPublish (sample_frame 2 False) True]
       \<lparr> tn_tap = RecordingTap_default, tn_since = [], tn_ended = [] \<rparr>"
  have "map_option (map ef_frame_index \<circ> recorded) (tp_sender (tn_tap ?s)) = Some [Some 1, Some 2]" by code_simp
  moreover have "case tp_sender (tn_tap ?s) of None \<Rightarrow> True | Some r \<Rightarrow> prefix (recorded r) (tn_since ?s)"
    using recording_gap_free [OF refl, of "[Subscribe, TapPublish (sample_frame 1 True) True, RecorderReceives, TapPublish (sample_frame 2 False) True]"]
    by (auto split: option.splits)
  ultimately show ?thesis by (simp only: Let_def)
qed

section \<open>The sink keeps the chains intact\<close>

definition is_video_frame :: "EncodedMediaFrame \<Rightarrow> bool" where
  "is_video_frame m \<longleftrightarrow> media_codec m \<in> {MediaH264, MediaH265, MediaAv1}"

text \<open>The run of the decoder queue inside a run of the sink: everything the ingress thread takes counts as offered.\<close>

definition queue_view :: "playback \<Rightarrow> vq_run" where
  "queue_view s = \<lparr> qr_queue = sk_video (pb_sink s), qr_offered = map encoded_frame (filter is_video_frame (pb_consumed s)),
     qr_taken = pb_taken s, qr_requests = 0 \<rparr>"

definition sink_ok :: "media_sink \<Rightarrow> bool" where
  "sink_ok k \<longleftrightarrow> (sk_paused k \<or> sk_stopped k \<longrightarrow> vq_waiting_for_keyframe (sk_video k)) \<and> (vq_closed (sk_video k) = sk_stopped k)
     \<and> (\<exists>published. tap_ok published (sk_replay_tap k))"

definition playback_inv :: "playback \<Rightarrow> bool" where
  "playback_inv s \<longleftrightarrow> run_inv (queue_view s) \<and> sink_ok (pb_sink s)"

lemma push_video_queue:
  "sk_video (snd (push_video frame k)) = snd (push_frame frame (sk_video k))" "sk_paused (snd (push_video frame k)) = sk_paused k"
  "sk_stopped (snd (push_video frame k)) = sk_stopped k" "sk_replay_tap (snd (push_video frame k)) = sk_replay_tap k"
  by (auto simp: push_video_def Let_def split: prod.splits sum.splits)

lemma push_audio_queue:
  "sk_video (snd (push_audio frame k)) = sk_video k" "sk_paused (snd (push_audio frame k)) = sk_paused k"
  "sk_stopped (snd (push_audio frame k)) = sk_stopped k" "sk_replay_tap (snd (push_audio frame k)) = sk_replay_tap k"
  by (auto simp: push_audio_def split: prod.splits PushResult.splits)

lemma push_frame_closed: "vq_closed (snd (push_frame frame q)) = vq_closed q"
  by (auto simp: push_frame_def admit_frame_def invalidate_locked_def Let_def split: prod.splits if_splits)

lemma push_frame_open: "\<not> vq_closed q \<Longrightarrow> \<exists>result q'. push_frame frame q = (Inr result, q')"
  by (auto simp: push_frame_def Let_def split: prod.split)

text \<open>What one consumed frame does to the decoder queue.\<close>

lemma consume_frame_effect:
  assumes "sink_ok k"
  obtains continues k' where "consume_frame seconds frame locks now k = Some (continues, k')" and "sink_ok k'"
    and "if is_video_frame frame \<and> \<not> sk_stopped k \<and> \<not> sk_paused k then sk_video k' = snd (push_frame (encoded_frame frame) (sk_video k))
         else sk_video k' = sk_video k"
proof -
  let ?f = "encoded_frame frame"
  have codec: "ef_codec ?f = media_codec frame" by (simp add: encoded_frame_def)
  show thesis
  proof (cases "sk_stopped k \<or> sk_paused k \<or> (\<exists>n. media_codec frame = UnsupportedCodec n)")
    case True
    then have "\<exists>outcome. sink_push seconds ?f locks now k = Some (outcome, k)" by (auto simp: sink_push_def codec)
    then obtain outcome where "sink_push seconds ?f locks now k = Some (outcome, k)" by blast
    with True assms show thesis by (intro that [of "outcome \<noteq> OutcomeClosed" k]) (auto simp: consume_frame_def is_video_frame_def)
  next
    case False
    from assms obtain published where "tap_ok published (sk_replay_tap k)" by (auto simp: sink_ok_def)
    then obtain replay where replay: "replay_publish seconds ?f (snd locks) now (sk_replay_tap k) = Some replay"
      "tap_ok (published @ filter is_video [?f]) replay" by (rule replay_publish_ok)
    let ?k = "k\<lparr> sk_recording_tap := tap_publish ?f (fst locks) (sk_recording_tap k), sk_replay_tap := replay \<rparr>"
    have taps: "publish_taps seconds ?f locks now k = Some ?k" by (simp add: publish_taps_def replay(1))
    have open_queue: "\<not> vq_closed (sk_video k)" using False assms by (simp add: sink_ok_def)
    show thesis
    proof (cases "is_video_frame frame")
      case True
      with False taps have push: "sink_push seconds ?f locks now k = Some (push_video ?f ?k)"
        by (auto simp: sink_push_def codec is_video_frame_def)
      show thesis
        by (rule that [of "fst (push_video ?f ?k) \<noteq> OutcomeClosed" "snd (push_video ?f ?k)"])
          (use False True push replay(2) open_queue in
            \<open>auto simp: consume_frame_def case_prod_beta sink_ok_def push_video_queue push_frame_closed\<close>)
    next
      case False': False
      then obtain n where opus: "media_codec frame = Opus n" using False by (cases "media_codec frame") (auto simp: is_video_frame_def)
      with False taps have push: "sink_push seconds ?f locks now k = Some (push_audio ?f ?k)" by (auto simp: sink_push_def codec)
      show thesis
        by (rule that [of "fst (push_audio ?f ?k) \<noteq> OutcomeClosed" "snd (push_audio ?f ?k)"])
          (use False False' push replay(2) open_queue in
            \<open>auto simp: consume_frame_def case_prod_beta sink_ok_def push_audio_queue\<close>)
    qed
  qed
qed

lemma queue_view_sink:
  "queue_view (s\<lparr> pb_sink := k \<rparr>) = (queue_view s)\<lparr> qr_queue := sk_video k, qr_offered := qr_offered (queue_view s) @ [] \<rparr>"
  by (simp add: queue_view_def)

lemma playback_inv_waiting:
  assumes "playback_inv s" and "sink_ok k" and "queue_inv (sk_video k)" and "vq_waiting_for_keyframe (sk_video k)"
    and "\<exists>dropped. vq_frames (sk_video (pb_sink s)) = vq_frames (sk_video k) @ dropped"
  shows "playback_inv (s\<lparr> pb_sink := k \<rparr>)"
proof -
  have "run_inv (queue_view s)" using assms(1) by (simp add: playback_inv_def)
  from run_inv_waiting [OF this assms(3,4), of "[]"] assms(5) have "run_inv (queue_view (s\<lparr> pb_sink := k \<rparr>))"
    unfolding queue_view_sink by (simp add: queue_view_def)
  with assms(2) show ?thesis by (simp add: playback_inv_def)
qed

lemma playback_queue_inv: "playback_inv s \<Longrightarrow> queue_inv (sk_video (pb_sink s))"
  by (simp add: playback_inv_def run_inv_def queue_view_def)

lemma playback_consume:
  assumes "playback_inv s"
  obtains s' where "playback_step seconds (Consume frame locks now) s = Some s'" and "playback_inv s'"
    and "pb_consumed s' = (if pb_running s then pb_consumed s @ [frame] else pb_consumed s)"
proof (cases "pb_running s")
  case False
  with assms show ?thesis by (intro that [of s]) simp_all
next
  case True
  let ?k = "pb_sink s" and ?offered = "qr_offered (queue_view s)"
  have ok: "sink_ok ?k" "run_inv (queue_view s)" using assms by (simp_all add: playback_inv_def)
  obtain continues k where k: "consume_frame seconds frame locks now ?k = Some (continues, k)" "sink_ok k"
    "if is_video_frame frame \<and> \<not> sk_stopped ?k \<and> \<not> sk_paused ?k then sk_video k = snd (push_frame (encoded_frame frame) (sk_video ?k))
     else sk_video k = sk_video ?k" by (rule consume_frame_effect [OF ok(1)])
  let ?s = "s\<lparr> pb_sink := k, pb_running := continues, pb_consumed := pb_consumed s @ [frame] \<rparr>"
  have view: "queue_view ?s = (queue_view s)\<lparr> qr_queue := sk_video k,
      qr_offered := ?offered @ (if is_video_frame frame then [encoded_frame frame] else []) \<rparr>"
    by (simp add: queue_view_def)
  have "run_inv (queue_view ?s)"
  proof (cases "is_video_frame frame \<and> \<not> sk_stopped ?k \<and> \<not> sk_paused ?k")
    case True
    then have "\<not> vq_closed (sk_video ?k)" using ok(1) by (simp add: sink_ok_def)
    then obtain result q where "push_frame (encoded_frame frame) (sk_video ?k) = (Inr result, q)"
      using push_frame_open by blast
    with push_frame_inv [OF ok(2)] k(3) True show ?thesis unfolding view by (simp add: queue_view_def)
  next
    case False
    show ?thesis
    proof (cases "is_video_frame frame")
      case True
      with False ok(1) have "vq_waiting_for_keyframe (sk_video k)" "sk_video k = sk_video ?k" using k(3) by (auto simp: sink_ok_def)
      with run_inv_waiting [OF ok(2), of "sk_video k"] playback_queue_inv [OF assms] show ?thesis
        unfolding view by (simp add: queue_view_def)
    next
      case False
      with k(3) ok(2) show ?thesis by (simp add: queue_view_def)
    qed
  qed
  with k(2) have "playback_inv ?s" by (simp add: playback_inv_def)
  with True k(1) show ?thesis by (intro that [of ?s]) simp_all
qed

lemma playback_other:
  assumes "playback_inv s" and "\<forall>frame locks now. op \<noteq> Consume frame locks now"
  obtains s' where "playback_step seconds op s = Some s'" and "playback_inv s'" and "pb_consumed s' = pb_consumed s"
proof -
  let ?k = "pb_sink s"
  have ok: "sink_ok ?k" "run_inv (queue_view s)" "queue_inv (sk_video ?k)"
    using assms(1) playback_queue_inv by (simp_all add: playback_inv_def)
  have "\<exists>s'. playback_step seconds op s = Some s' \<and> playback_inv s' \<and> pb_consumed s' = pb_consumed s"
  proof (cases op)
    case TakePacket
    from vq_step_inv [OF ok(2), of PopPacket] ok(1) TakePacket show ?thesis
      by (cases "vq_frames (sk_video ?k)") (auto simp: pop_packet_def playback_inv_def queue_view_def sink_ok_def)
  next
    case (SetPaused paused)
    have "playback_inv (s\<lparr> pb_sink := set_paused paused ?k \<rparr>)"
      by (rule playback_inv_waiting [OF assms(1)])
        (use ok in \<open>auto simp: set_paused_def Let_def sink_ok_def clear_def invalidate_locked_def queue_inv_def\<close>)
    with SetPaused show ?thesis by simp
  next
    case HoldKeyframe
    have "playback_inv (s\<lparr> pb_sink := ?k\<lparr> sk_video := hold_keyframe_request (sk_video ?k) \<rparr> \<rparr>)"
      by (rule playback_inv_waiting [OF assms(1)]) (use ok in \<open>auto simp: sink_ok_def hold_keyframe_request_def queue_inv_def\<close>)
    with HoldKeyframe show ?thesis by simp
  next
    case (StartSinkReplay config now)
    obtain published where "tap_ok published (sk_replay_tap ?k)" using ok(1) by (auto simp: sink_ok_def)
    then have "tap_ok published (start_with_budget config now (sk_replay_tap ?k))"
      by (auto simp: tap_ok_def start_with_budget_def replay_stop_def Let_def buffer_ok_def clip_ok_def times_ok_def clip_video_def)
    with StartSinkReplay ok show ?thesis by (auto simp: playback_inv_def queue_view_def sink_ok_def)
  next
    case StopSink
    have "playback_inv (s\<lparr> pb_sink := sink_stop ?k \<rparr>)"
    proof (cases "sk_stopped ?k")
      case True
      with assms(1) show ?thesis by (simp add: sink_stop_def)
    next
      case False
      have "\<exists>published. tap_ok published (replay_stop t)" for t by (simp add: tap_ok_def replay_stop_def)
      then show ?thesis
        by (intro playback_inv_waiting [OF assms(1)])
          (use ok False in \<open>auto simp: sink_stop_def sink_ok_def close_def clear_def invalidate_locked_def queue_inv_def\<close>)
    qed
    with StopSink show ?thesis by simp
  qed (use assms(2) in auto)
  then show thesis using that by blast
qed

text \<open>Whole runs: nothing panics and what is consumed is the beginning of what the channel hands out.\<close>

fun channel_frames :: "playback_op list \<Rightarrow> EncodedMediaFrame list" where
  "channel_frames [] = []"
| "channel_frames (Consume frame locks now # ops) = frame # channel_frames ops"
| "channel_frames (op # ops) = channel_frames ops"

lemma not_running_step: "playback_step seconds op s = Some s' \<Longrightarrow> \<not> pb_running s \<Longrightarrow> \<not> pb_running s' \<and> pb_consumed s' = pb_consumed s"
  by (cases op) (auto split: option.splits)

lemma not_running_run:
  "run_steps (playback_step seconds) ops s = Some s' \<Longrightarrow> \<not> pb_running s \<Longrightarrow> pb_consumed s' = pb_consumed s"
  by (induction ops arbitrary: s) (auto split: option.splits dest!: not_running_step)

interpretation playback: panic_free "playback_step seconds" playback_inv "\<lambda>_. True"
proof
  show "\<exists>s'. playback_step seconds op s = Some s' \<and> playback_inv s'" if "playback_inv s" for s op
  proof (cases "\<exists>frame locks now. op = Consume frame locks now")
    case True
    then show ?thesis using playback_consume [OF that] by metis
  next
    case False
    then show ?thesis using playback_other [OF that] by metis
  qed
qed

lemma playback_consumed:
  assumes "playback_inv s" and "run_steps (playback_step seconds) ops s = Some s'"
  shows "prefix (pb_consumed s') (pb_consumed s @ channel_frames ops)"
  using assms
proof (induction ops arbitrary: s)
  case (Cons op ops)
  then obtain s1 where s1: "playback_step seconds op s = Some s1" "run_steps (playback_step seconds) ops s1 = Some s'"
    by (auto split: option.splits)
  show ?case
  proof (cases "\<exists>frame locks now. op = Consume frame locks now")
    case True
    then obtain frame locks now where op: "op = Consume frame locks now" by blast
    show ?thesis
    proof (cases "pb_running s")
      case True
      from playback_consume [OF Cons.prems(1), of seconds frame locks now] s1(1) op True
      have "playback_inv s1" "pb_consumed s1 = pb_consumed s @ [frame]" by (auto simp del: playback_step.simps)
      with Cons.IH [OF _ s1(2)] op show ?thesis by simp
    next
      case False
      with not_running_run [OF s1(2)] not_running_step [OF s1(1)] show ?thesis by simp
    qed
  next
    case False
    with playback_other [OF Cons.prems(1), of op seconds] s1(1) have "playback_inv s1" "pb_consumed s1 = pb_consumed s" by (metis option.inject)+
    moreover have "channel_frames (op # ops) = channel_frames ops" using False by (cases op) auto
    ultimately show ?thesis using Cons.IH [OF _ s1(2)] by simp
  qed
qed simp

section \<open>From the network to the decoder\<close>

text \<open>The frames the channel accepted, and for each whether something was lost since the one before it.\<close>

fun accepted_frames :: "delivery list \<Rightarrow> EncodedMediaFrame list" where
  "accepted_frames [] = []"
| "accepted_frames (Accepted m # ds) = m # accepted_frames ds"
| "accepted_frames (_ # ds) = accepted_frames ds"

fun loss_flags :: "bool \<Rightarrow> delivery list \<Rightarrow> bool list" where
  "loss_flags lost [] = []"
| "loss_flags lost (Accepted m # ds) = lost # loss_flags False ds"
| "loss_flags lost (Refused # ds) = loss_flags True ds"
| "loss_flags lost (Passed e # ds) = loss_flags (lost \<or> breaks e) ds"

lemma losses_marked_flags:
  "losses_marked lost ds \<Longrightarrow> k < length (accepted_frames ds) \<Longrightarrow> loss_flags lost ds ! k \<Longrightarrow> \<not> mf_contiguous (accepted_frames ds ! k)"
proof (induction lost ds arbitrary: k rule: losses_marked.induct)
  case (2 lost m ds)
  then show ?case by (cases k) auto
qed auto

text \<open>A packet the decoder takes: it resets the decoder with a key frame, or it holds the frame after that of the packet
  before it and nothing was lost between the two.\<close>

definition decodable :: "delivery list \<Rightarrow> nat list \<Rightarrow> VideoPacket list \<Rightarrow> nat \<Rightarrow> bool" where
  "decodable log positions taken k \<longleftrightarrow> positions ! k < length (accepted_frames log)
     \<and> vp_frame (taken ! k) = encoded_frame (accepted_frames log ! (positions ! k))
     \<and> (if vp_reset_decoder (taken ! k) then ef_keyframe (vp_frame (taken ! k))
        else 0 < k \<and> positions ! k = Suc (positions ! (k - 1)) \<and> \<not> loss_flags False log ! (positions ! k))"

lemma decode_chain_nth:
  assumes "decode_chain offered ips" and "k < length ips"
  shows "fst (ips ! k) < length offered" and "offered ! fst (ips ! k) = vp_frame (snd (ips ! k))"
    and "if vp_reset_decoder (snd (ips ! k)) then ef_keyframe (vp_frame (snd (ips ! k)))
         else 0 < k \<and> fst (ips ! k) = Suc (fst (ips ! (k - 1))) \<and> ef_contiguous (vp_frame (snd (ips ! k)))"
proof -
  have "ips ! k \<in> set ips" using assms(2) by simp
  with assms(1) show "fst (ips ! k) < length offered" "offered ! fst (ips ! k) = vp_frame (snd (ips ! k))"
    by (auto simp: decode_chain_def)
  show "if vp_reset_decoder (snd (ips ! k)) then ef_keyframe (vp_frame (snd (ips ! k)))
         else 0 < k \<and> fst (ips ! k) = Suc (fst (ips ! (k - 1))) \<and> ef_contiguous (vp_frame (snd (ips ! k)))"
  proof (cases k)
    case 0
    with assms show ?thesis by (auto simp: decode_chain_def hd_conv_nth)
  next
    case (Suc j)
    with assms have "links (ips ! j) (ips ! Suc j)" by (simp add: decode_chain_def successively_conv_nth)
    with Suc show ?thesis by (cases "ips ! j"; cases "ips ! Suc j") auto
  qed
qed

lemma video_labels:
  "eq_ignore_ascii_case ''H264'' ''h264''" "\<not> eq_ignore_ascii_case ''H265'' ''h264''" "eq_ignore_ascii_case ''H265'' ''h265''"
  "\<not> eq_ignore_ascii_case ''AV1'' ''h264''" "\<not> eq_ignore_ascii_case ''AV1'' ''h265''" "\<not> eq_ignore_ascii_case ''AV1'' ''hevc''"
  "eq_ignore_ascii_case ''AV1'' ''av1''"
  by code_simp+

lemma media_frame_video: "is_video_frame (media_frame origin now gap f)"
  by (cases "au_codec f") (simp_all add: is_video_frame_def media_codec_def media_frame_def codec_label_def video_labels)

lemma delivery_log_video: "m \<in> set (accepted_frames (delivery_log origin es w)) \<Longrightarrow> is_video_frame m"
proof (induction es arbitrary: w)
  case (Cons x es)
  obtain e now at taken where x: "x = (e, now, at, taken)" by (cases x)
  let ?w = "consumer_takes taken w"
  obtain g v where f: "forward_receive_event origin now at e ?w = (g, v)" by (metis surj_pair)
  have "is_video_frame m" if "delivery_of origin now e ?w = Accepted m"
    using that media_frame_video by (auto simp: delivery_of_def split: NvstReceiveEvent.splits prod.splits sum.splits)
  with Cons f x show ?case by (cases "delivery_of origin now e ?w"; cases g) (auto simp: Let_def)
qed simp

lemma playback_inv_start: "new_sink fps = Some k \<Longrightarrow> playback_inv (playback_start k)"
proof -
  assume k: "new_sink fps = Some k"
  then obtain q where "VideoQueue_new (video_queue_capacity fps) = Some q" "sk_video k = q" "\<not> sk_paused k" "\<not> sk_stopped k"
    "sk_replay_tap k = ReplayTap_default" by (auto simp: new_sink_def split: option.splits)
  moreover from this(1) have "\<not> vq_closed q" by (auto simp: VideoQueue_new_def split: if_splits)
  ultimately show ?thesis using run_inv_start [of "video_queue_capacity fps" q]
    by (auto simp: playback_inv_def queue_view_def playback_start_def vq_start_def sink_ok_def tap_ok_def ReplayTap_default_def)
qed


definition sample_media_frame :: EncodedMediaFrame where
  "sample_media_frame = media_frame 0 9 False (frame_unit False)"

definition sample_sink :: media_sink where
  "sample_sink = \<lparr> sk_video = sample_queue\<lparr> vq_capacity := 15 \<rparr>, sk_audio = \<lparr> bq_capacity = 10, bq_values = [], bq_closed = False \<rparr>,
     sk_feedback = [], sk_paused = False, sk_stopped = False, sk_video_desynced = True, sk_keyframe_requested = False,
     sk_recording_tap = RecordingTap_default, sk_replay_tap = ReplayTap_default \<rparr>"

lemma sample_sink_new: "new_sink 60 = Some sample_sink"
  by (simp add: new_sink_def sample_sink_def VideoQueue_new_def video_queue_capacity_def VIDEO_QUEUE_CAPACITY_def
      VIDEO_QUEUE_MAX_CAPACITY_def BoundedQueue_new_def AUDIO_QUEUE_CAPACITY_def sample_queue_def)


end
