(* ===== verification/HidReport.thy ===== *)
theory HidReport
  imports Bandwidth
begin

text \<open>
  Sony controllers (\<open>lib.rs\<close> and \<open>ds4.rs\<close> of the HID crate): which devices are admitted, the inventory of the host, the
  state of a controller as it is captured, and the DualShock 4 report built from it. Sticks are \<open>i16\<close> as words
  read with \<open>sint\<close>. The scaling of touch coordinates is \<open>f32\<close> arithmetic over the parameter of the float operations.
\<close>

section \<open>Devices\<close>

definition SONY_VENDOR :: u16 where "SONY_VENDOR = 0x054c"
definition SONY_DS4_PRODUCTS :: "u16 list" where "SONY_DS4_PRODUCTS = [0x05c4, 0x09cc, 0x0ba0]"
definition SONY_DS5_PRODUCTS :: "u16 list" where "SONY_DS5_PRODUCTS = [0x0ce6, 0x0df2]"
definition MAX_SOURCES :: nat where "MAX_SOURCES = 4"
definition MAX_EXACT_INCARNATION :: u64 where "MAX_EXACT_INCARNATION = 9007199254740991"

datatype SonyTarget = Ds4

record SonyCapability =
  sy_synthesized_ds4_support :: bool
  sy_server_mask :: u32
  sy_ds4_source_allowed :: bool
  sy_dualsense_source_allowed :: bool
  sy_cross_synthesize_ds5_to_ds4 :: bool

definition SonyCapability_default :: SonyCapability where
  "SonyCapability_default = \<lparr> sy_synthesized_ds4_support = True, sy_server_mask = 0, sy_ds4_source_allowed = True,
     sy_dualsense_source_allowed = True, sy_cross_synthesize_ds5_to_ds4 = True \<rparr>"

definition SERVER_DS4_TARGET_BIT :: u32 where "SERVER_DS4_TARGET_BIT = 0x4"
definition SERVER_GAME_PERMISSION_BIT :: u32 where "SERVER_GAME_PERMISSION_BIT = 0x1"

definition server_supports_ds4 :: "SonyCapability \<Rightarrow> bool" where
  "server_supports_ds4 c \<longleftrightarrow> sy_server_mask c AND SERVER_DS4_TARGET_BIT \<noteq> 0"

definition game_allows_ds4 :: "SonyCapability \<Rightarrow> bool" where
  "game_allows_ds4 c \<longleftrightarrow> sy_server_mask c AND SERVER_GAME_PERMISSION_BIT \<noteq> 0"

fun admits :: "SonyTarget \<Rightarrow> bool \<Rightarrow> SonyCapability \<Rightarrow> bool" where
  "admits Ds4 cross_synthesis c =
     (sy_synthesized_ds4_support c \<and> server_supports_ds4 c \<and> game_allows_ds4 c
      \<and> (if cross_synthesis then sy_dualsense_source_allowed c \<and> sy_cross_synthesize_ds5_to_ds4 c else sy_ds4_source_allowed c))"

record SdlDeviceClaim =
  dc_slot :: u8
  dc_incarnation :: u64
  dc_vendor :: u16
  dc_product :: u16

definition SdlDeviceClaim_new :: "u8 \<Rightarrow> u64 \<Rightarrow> u16 \<Rightarrow> u16 \<Rightarrow> SdlDeviceClaim option" where
  "SdlDeviceClaim_new slot incarnation vendor product =
     (if unat slot \<ge> MAX_SOURCES \<or> incarnation = 0 \<or> incarnation > MAX_EXACT_INCARNATION then None
      else Some \<lparr> dc_slot = slot, dc_incarnation = incarnation, dc_vendor = vendor, dc_product = product \<rparr>)"

definition sony_product :: "SdlDeviceClaim \<Rightarrow> (SonyTarget \<times> bool) option" where
  "sony_product c =
     (if dc_vendor c \<noteq> SONY_VENDOR then None
      else if dc_product c \<in> set SONY_DS4_PRODUCTS then Some (Ds4, False)
      else if dc_product c \<in> set SONY_DS5_PRODUCTS then Some (Ds4, True)
      else None)"

section \<open>Captured states\<close>

record SonyContact =
  ct_active :: bool
  ct_x :: u16
  ct_y :: u16

definition SonyContact_default :: SonyContact where
  "SonyContact_default = \<lparr> ct_active = False, ct_x = 0, ct_y = 0 \<rparr>"

record SonySnapshot =
  ss_slot :: u8
  ss_incarnation :: u64
  ss_buttons :: u16
  ss_left_trigger :: u8
  ss_right_trigger :: u8
  ss_left_stick_x :: u16
  ss_left_stick_y :: u16
  ss_right_stick_x :: u16
  ss_right_stick_y :: u16
  ss_touchpad_click :: bool
  ss_contacts :: "SonyContact \<times> SonyContact"
  ss_observed_at_us :: u64

definition SonySnapshot_neutral :: "u8 \<Rightarrow> u64 \<Rightarrow> u64 \<Rightarrow> SonySnapshot" where
  "SonySnapshot_neutral slot incarnation observed_at_us =
     \<lparr> ss_slot = slot, ss_incarnation = incarnation, ss_buttons = 0, ss_left_trigger = 0, ss_right_trigger = 0,
       ss_left_stick_x = 0, ss_left_stick_y = 0, ss_right_stick_x = 0, ss_right_stick_y = 0, ss_touchpad_click = False,
       ss_contacts = (SonyContact_default, SonyContact_default), ss_observed_at_us = observed_at_us \<rparr>"

datatype SonySnapshotError = SlotOutOfRange u8 | MissingIncarnation | IncarnationOutOfRange u64

definition snapshot_validate :: "SonySnapshot \<Rightarrow> SonySnapshotError + SonySnapshot" where
  "snapshot_validate s =
     (if unat (ss_slot s) \<ge> MAX_SOURCES then Inl (SlotOutOfRange (ss_slot s))
      else if ss_incarnation s = 0 then Inl MissingIncarnation
      else if ss_incarnation s > MAX_EXACT_INCARNATION then Inl (IncarnationOutOfRange (ss_incarnation s))
      else Inr s)"

definition snapshot_is_neutral :: "SonySnapshot \<Rightarrow> bool" where
  "snapshot_is_neutral s \<longleftrightarrow> ss_buttons s = 0 \<and> ss_left_trigger s = 0 \<and> ss_right_trigger s = 0
     \<and> ss_left_stick_x s = 0 \<and> ss_left_stick_y s = 0 \<and> ss_right_stick_x s = 0 \<and> ss_right_stick_y s = 0
     \<and> \<not> ss_touchpad_click s \<and> \<not> ct_active (fst (ss_contacts s)) \<and> \<not> ct_active (snd (ss_contacts s))"

section \<open>The inventory\<close>

datatype InventoryOutcome = Replaced | DuplicateSlot | DuplicateIncarnation | MalformedEntry

type_synonym InventoryView = "SdlDeviceClaim option list"

definition InventoryView_default :: InventoryView where
  "InventoryView_default = replicate MAX_SOURCES None"

definition inventory_claim :: "u8 \<Rightarrow> InventoryView \<Rightarrow> SdlDeviceClaim option" where
  "inventory_claim slot inventory = (if unat slot < length inventory then inventory ! unat slot else None)"

definition inventory_incarnation :: "u8 \<Rightarrow> InventoryView \<Rightarrow> u64 option" where
  "inventory_incarnation slot inventory = map_option dc_incarnation (inventory_claim slot inventory)"

text \<open>The loop over the claims: the claims accepted so far and their incarnations.\<close>

fun place_claims :: "SdlDeviceClaim list \<Rightarrow> u64 list \<Rightarrow> InventoryView \<Rightarrow> InventoryOutcome \<times> InventoryView" where
  "place_claims [] seen next = (Replaced, next)"
| "place_claims (claim # claims) seen next =
     (if unat (dc_slot claim) \<ge> MAX_SOURCES \<or> dc_incarnation claim = 0 then (MalformedEntry, next)
      else if next ! unat (dc_slot claim) \<noteq> None then (DuplicateSlot, next)
      else if dc_incarnation claim \<in> set seen then (DuplicateIncarnation, next)
      else place_claims claims (dc_incarnation claim # seen) (next[unat (dc_slot claim) := Some claim]))"

definition inventory_replace :: "SdlDeviceClaim option list \<Rightarrow> InventoryView \<Rightarrow> InventoryOutcome \<times> InventoryView" where
  "inventory_replace claims inventory =
     (if length claims > MAX_SOURCES then (MalformedEntry, inventory)
      else case place_claims (take MAX_SOURCES (List.map_filter id claims)) [] InventoryView_default of
             (Replaced, next) \<Rightarrow> (Replaced, next)
           | (outcome, _) \<Rightarrow> (outcome, inventory))"

definition slot_mask :: "(nat \<Rightarrow> bool) \<Rightarrow> u16" where
  "slot_mask owned = fold (\<lambda>slot bits. if owned slot then bits OR push_bit slot 1 else bits) [0..<MAX_SOURCES] 0"

definition inventory_rich_slot_mask :: "InventoryView \<Rightarrow> u16" where
  "inventory_rich_slot_mask inventory =
     slot_mask (\<lambda>slot. case inventory ! slot of None \<Rightarrow> False | Some claim \<Rightarrow> sony_product claim \<noteq> None)"

section \<open>The report\<close>

definition DS4_REPORT_ID :: u8 where "DS4_REPORT_ID = 0x01"
definition DS4_REPORT_BYTES :: nat where "DS4_REPORT_BYTES = 64"
definition DS4_INTERFACE :: u8 where "DS4_INTERFACE = 4"
definition DS4_LOW_ID_BASE :: u8 where "DS4_LOW_ID_BASE = 6"
definition DS4_TOUCH_SAMPLE_COUNT :: u8 where "DS4_TOUCH_SAMPLE_COUNT = 1"
definition DS4_STATUS_BYTE :: u8 where "DS4_STATUS_BYTE = 0x1b"
definition DS4_BUTTON_SQUARE :: u16 where "DS4_BUTTON_SQUARE = 0x4000"
definition DS4_BUTTON_CROSS :: u16 where "DS4_BUTTON_CROSS = 0x1000"
definition DS4_BUTTON_CIRCLE :: u16 where "DS4_BUTTON_CIRCLE = 0x2000"
definition DS4_BUTTON_TRIANGLE :: u16 where "DS4_BUTTON_TRIANGLE = 0x8000"
definition DS4_BUTTON_L1 :: u16 where "DS4_BUTTON_L1 = 0x0100"
definition DS4_BUTTON_R1 :: u16 where "DS4_BUTTON_R1 = 0x0200"
definition DS4_BUTTON_SHARE :: u16 where "DS4_BUTTON_SHARE = 0x0020"
definition DS4_BUTTON_OPTIONS :: u16 where "DS4_BUTTON_OPTIONS = 0x0010"
definition DS4_BUTTON_L3 :: u16 where "DS4_BUTTON_L3 = 0x0040"
definition DS4_BUTTON_R3 :: u16 where "DS4_BUTTON_R3 = 0x0080"
definition DS4_BUTTON_DPAD_UP :: u16 where "DS4_BUTTON_DPAD_UP = 0x0001"
definition DS4_BUTTON_DPAD_DOWN :: u16 where "DS4_BUTTON_DPAD_DOWN = 0x0002"
definition DS4_BUTTON_DPAD_LEFT :: u16 where "DS4_BUTTON_DPAD_LEFT = 0x0004"
definition DS4_BUTTON_DPAD_RIGHT :: u16 where "DS4_BUTTON_DPAD_RIGHT = 0x0008"

lemmas ds4_buttons = DS4_BUTTON_SQUARE_def DS4_BUTTON_CROSS_def DS4_BUTTON_CIRCLE_def DS4_BUTTON_TRIANGLE_def
  DS4_BUTTON_L1_def DS4_BUTTON_R1_def DS4_BUTTON_SHARE_def DS4_BUTTON_OPTIONS_def DS4_BUTTON_L3_def DS4_BUTTON_R3_def
  DS4_BUTTON_DPAD_UP_def DS4_BUTTON_DPAD_DOWN_def DS4_BUTTON_DPAD_LEFT_def DS4_BUTTON_DPAD_RIGHT_def

definition low_id_for_slot :: "u8 \<Rightarrow> u8 option" where
  "low_id_for_slot slot = (if unat slot < MAX_SOURCES then Some (slot + DS4_LOW_ID_BASE) else None)"

definition slot_for_low_id :: "u8 \<Rightarrow> u8 option" where
  "slot_for_low_id low_id =
     (if low_id < DS4_LOW_ID_BASE then None
      else let slot = low_id - DS4_LOW_ID_BASE in if unat slot < MAX_SOURCES then Some slot else None)"

text \<open>The sum with 32768 is exact in \<open>f32\<close>, so it is taken over the integers.\<close>

definition scale_axis :: "'f float_ops \<Rightarrow> u16 \<Rightarrow> nat \<Rightarrow> u16" where
  "scale_axis fl raw extent =
     (let v = fl_mul fl (fl_div fl (fl_of fl (nat (sint raw + 32768))) (fl_lit fl 65535 1)) (fl_lit fl extent 1)
      in of_nat (fl_to fl 65535 (fl_min fl (fl_max fl v (fl_lit fl 0 1)) (fl_lit fl extent 1))))"

definition encode_contact :: "'f float_ops \<Rightarrow> u8 \<Rightarrow> SonyContact \<Rightarrow> bytes" where
  "encode_contact fl tracking_id contact =
     (let x = scale_axis fl (ct_x contact) 1919; y = scale_axis fl (ct_y contact) 942
      in [(tracking_id AND 0x7f) OR (if ct_active contact then 0 else 0x80), ucast (x AND 0xff),
          ucast (drop_bit 8 x AND 0x0f) OR push_bit 4 (ucast (y AND 0x0f)), ucast (drop_bit 4 y AND 0xff)])"

definition centered_axis :: "u16 \<Rightarrow> u8" where
  "centered_axis raw = of_int ((sint raw + 32768) div 256)"

definition HAT_TABLE :: "u8 list list" where
  "HAT_TABLE = [[0x07, 0x06, 0x05], [0x00, 0x08, 0x04], [0x01, 0x02, 0x03]]"

definition pressed :: "u16 \<Rightarrow> u16 \<Rightarrow> bool" where
  "pressed buttons button \<longleftrightarrow> buttons AND button \<noteq> 0"

definition hat_byte :: "u16 \<Rightarrow> u8" where
  "hat_byte buttons =
     (let x = of_bool (pressed buttons DS4_BUTTON_DPAD_RIGHT) - of_bool (pressed buttons DS4_BUTTON_DPAD_LEFT) :: int;
          y = of_bool (pressed buttons DS4_BUTTON_DPAD_DOWN) - of_bool (pressed buttons DS4_BUTTON_DPAD_UP) :: int
      in HAT_TABLE ! nat (x + 1) ! nat (y + 1))"

record Ds4ReportState =
  dr_contacts :: "SonyContact \<times> SonyContact"
  dr_tracking_ids :: "u8 \<times> u8"
  dr_touch_timestamp_byte :: u8
  dr_last_observed_at_us :: u64
  dr_seeded :: bool

definition Ds4ReportState_default :: Ds4ReportState where
  "Ds4ReportState_default = \<lparr> dr_contacts = (SonyContact_default, SonyContact_default), dr_tracking_ids = (0, 0),
     dr_touch_timestamp_byte = 0, dr_last_observed_at_us = 0, dr_seeded = False \<rparr>"

definition ds4_observe :: "u64 \<Rightarrow> Ds4ReportState \<Rightarrow> Ds4ReportState" where
  "ds4_observe observed_at_us s = s\<lparr> dr_last_observed_at_us := max (dr_last_observed_at_us s) observed_at_us \<rparr>"

definition next_tracking_id :: "SonyContact \<Rightarrow> SonyContact \<Rightarrow> u8 \<Rightarrow> u8" where
  "next_tracking_id before contact tracking_id =
     (if ct_active contact \<and> \<not> ct_active before then (tracking_id + 1) AND 0x7f else tracking_id)"

definition track_contacts :: "SonySnapshot \<Rightarrow> Ds4ReportState \<Rightarrow> Ds4ReportState" where
  "track_contacts snapshot s =
     (let s = ds4_observe (ss_observed_at_us snapshot) s; (c0, c1) = ss_contacts snapshot; (b0, b1) = dr_contacts s; (t0, t1) = dr_tracking_ids s;
          s = s\<lparr> dr_tracking_ids := (next_tracking_id b0 c0 t0, next_tracking_id b1 c1 t1) \<rparr>;
          s = (if \<not> dr_seeded s \<or> (c0, c1) \<noteq> dr_contacts s
               then s\<lparr> dr_touch_timestamp_byte := ucast (ss_observed_at_us snapshot div 1000), dr_seeded := True \<rparr> else s)
      in s\<lparr> dr_contacts := (c0, c1) \<rparr>)"

definition flag :: "bool \<Rightarrow> u8 \<Rightarrow> u8" where
  "flag on bits = (if on then bits else 0)"

definition report_bytes :: "'f float_ops \<Rightarrow> SonySnapshot \<Rightarrow> Ds4ReportState \<Rightarrow> bytes" where
  "report_bytes fl s state =
     (let b = pressed (ss_buttons s); counter = le64 (drop_bit 4 (ss_observed_at_us s * 3));
          report = (replicate DS4_REPORT_BYTES 0)[0 := DS4_REPORT_ID,
            1 := centered_axis (ss_left_stick_x s), 2 := centered_axis (ss_left_stick_y s),
            3 := centered_axis (ss_right_stick_x s), 4 := centered_axis (ss_right_stick_y s),
            5 := hat_byte (ss_buttons s) OR flag (b DS4_BUTTON_SQUARE) 0x10 OR flag (b DS4_BUTTON_CROSS) 0x20
                 OR flag (b DS4_BUTTON_CIRCLE) 0x40 OR flag (b DS4_BUTTON_TRIANGLE) 0x80,
            6 := flag (b DS4_BUTTON_L1) 0x01 OR flag (b DS4_BUTTON_R1) 0x02 OR flag (ss_left_trigger s \<noteq> 0) 0x04
                 OR flag (ss_right_trigger s \<noteq> 0) 0x08 OR flag (b DS4_BUTTON_SHARE) 0x10 OR flag (b DS4_BUTTON_OPTIONS) 0x20
                 OR flag (b DS4_BUTTON_L3) 0x40 OR flag (b DS4_BUTTON_R3) 0x80,
            7 := flag (ss_touchpad_click s) 0x02, 8 := ss_left_trigger s, 9 := ss_right_trigger s,
            10 := counter ! 0, 11 := counter ! 1, 30 := DS4_STATUS_BYTE, 33 := DS4_TOUCH_SAMPLE_COUNT,
            34 := dr_touch_timestamp_byte state]
      in write_at 39 (encode_contact fl (snd (dr_tracking_ids state)) (snd (ss_contacts s)))
           (write_at 35 (encode_contact fl (fst (dr_tracking_ids state)) (fst (ss_contacts s))) report))"

definition ds4_build :: "'f float_ops \<Rightarrow> SonySnapshot \<Rightarrow> Ds4ReportState \<Rightarrow> bytes \<times> Ds4ReportState" where
  "ds4_build fl snapshot s = (let s = track_contacts snapshot s in (report_bytes fl snapshot s, s))"

section \<open>Reading a report\<close>

text \<open>What a DualShock 4 report says, as the host of the game reads it: the hat clockwise from the top, eight for no
  direction; a contact with its tracking number and, in the top bit, that it is up.\<close>

definition hat_direction :: "u8 \<Rightarrow> int \<times> int" where
  "hat_direction h = (if h = 0 then (0, -1) else if h = 1 then (1, -1) else if h = 2 then (1, 0) else if h = 3 then (1, 1)
     else if h = 4 then (0, 1) else if h = 5 then (-1, 1) else if h = 6 then (-1, 0) else if h = 7 then (-1, -1) else (0, 0))"

definition dpad :: "u16 \<Rightarrow> int \<times> int" where
  "dpad buttons =
     (of_bool (pressed buttons DS4_BUTTON_DPAD_RIGHT) - of_bool (pressed buttons DS4_BUTTON_DPAD_LEFT),
      of_bool (pressed buttons DS4_BUTTON_DPAD_DOWN) - of_bool (pressed buttons DS4_BUTTON_DPAD_UP))"

definition face_buttons :: "u16 list" where
  "face_buttons = [DS4_BUTTON_SQUARE, DS4_BUTTON_CROSS, DS4_BUTTON_CIRCLE, DS4_BUTTON_TRIANGLE]"

definition report_reads :: "bytes \<Rightarrow> SonySnapshot \<Rightarrow> Ds4ReportState \<Rightarrow> bool" where
  "report_reads r s state \<longleftrightarrow>
     map (bit (r ! 5)) [4, 5, 6, 7] = map (pressed (ss_buttons s)) face_buttons
     \<and> hat_direction (r ! 5 AND 0x0f) = dpad (ss_buttons s)
     \<and> map (bit (r ! 6)) [0, 1, 4, 5, 6, 7] = map (pressed (ss_buttons s))
          [DS4_BUTTON_L1, DS4_BUTTON_R1, DS4_BUTTON_SHARE, DS4_BUTTON_OPTIONS, DS4_BUTTON_L3, DS4_BUTTON_R3]
     \<and> map (bit (r ! 6)) [2, 3] = [r ! 8 \<noteq> 0, r ! 9 \<noteq> 0] \<and> (r ! 8, r ! 9) = (ss_left_trigger s, ss_right_trigger s)
     \<and> bit (r ! 7) 1 = ss_touchpad_click s
     \<and> map ((!) r) [1, 2, 3, 4] = map centered_axis [ss_left_stick_x s, ss_left_stick_y s, ss_right_stick_x s, ss_right_stick_y s]
     \<and> (bit (r ! 35) 7, bit (r ! 39) 7) = (\<not> ct_active (fst (ss_contacts s)), \<not> ct_active (snd (ss_contacts s)))
     \<and> (r ! 35 AND 0x7f, r ! 39 AND 0x7f) = (fst (dr_tracking_ids state) AND 0x7f, snd (dr_tracking_ids state) AND 0x7f)"

definition state_ok :: "Ds4ReportState \<Rightarrow> bool" where
  "state_ok s \<longleftrightarrow> fst (dr_tracking_ids s) < 128 \<and> snd (dr_tracking_ids s) < 128"

lemma flag_bits:
  "bit (flag p m OR x) n \<longleftrightarrow> (p \<and> bit m n) \<or> bit x n" "bit (x OR flag p m) n \<longleftrightarrow> bit x n \<or> (p \<and> bit m n)" "bit (flag p m) n \<longleftrightarrow> p \<and> bit m n"
  by (auto simp: flag_def bit_or_iff)

lemma hat_byte_value: "hat_byte buttons \<in> {0, 1, 2, 3, 4, 5, 6, 7, 8}" "hat_direction (hat_byte buttons) = dpad buttons"
  by (cases "pressed buttons DS4_BUTTON_DPAD_RIGHT"; cases "pressed buttons DS4_BUTTON_DPAD_LEFT";
      cases "pressed buttons DS4_BUTTON_DPAD_DOWN"; cases "pressed buttons DS4_BUTTON_DPAD_UP";
      simp add: hat_byte_def HAT_TABLE_def hat_direction_def dpad_def)+

lemma face_byte:
  fixes h :: u8
  assumes "h \<in> {0, 1, 2, 3, 4, 5, 6, 7, 8}"
    and "b = h OR flag q1 0x10 OR flag q2 0x20 OR flag q3 0x40 OR flag q4 0x80"
  shows "bit b 4 = q1" "bit b 5 = q2" "bit b 6 = q3" "bit b 7 = q4" "b AND 0x0f = h"
  using assms by (cases q1; cases q2; cases q3; cases q4; auto simp: flag_def)+

lemma shoulder_byte:
  fixes b :: u8
  assumes "b = flag q0 0x01 OR flag q1 0x02 OR flag q2 0x04 OR flag q3 0x08 OR flag q4 0x10 OR flag q5 0x20 OR flag q6 0x40 OR flag q7 0x80"
  shows "bit b 0 = q0" "bit b 1 = q1" "bit b 2 = q2" "bit b 3 = q3" "bit b 4 = q4" "bit b 5 = q5" "bit b 6 = q6" "bit b 7 = q7"
  unfolding assms flag_bits by (simp_all add: bit_numeral_rec bit_1_iff)

lemma contact_byte: "bit (encode_contact fl t c ! 0) 7 = (\<not> ct_active c)" "encode_contact fl t c ! 0 AND 0x7f = t AND 0x7f"
proof -
  show "bit (encode_contact fl t c ! 0) 7 = (\<not> ct_active c)"
    by (simp add: encode_contact_def Let_def bit_and_iff bit_or_iff bit_numeral_rec)
  show "encode_contact fl t c ! 0 AND 0x7f = t AND 0x7f"
    by (simp add: encode_contact_def Let_def bit.conj_disj_distrib2 and.assoc)
qed

lemma length_encode_contact [simp]: "length (encode_contact fl t c) = 4"
  by (simp add: encode_contact_def Let_def)

lemma length_report_bytes [simp]: "length (report_bytes fl s state) = DS4_REPORT_BYTES"
  by (simp add: report_bytes_def Let_def length_write_at DS4_REPORT_BYTES_def)

lemma report_contacts:
  "report_bytes fl s state ! 35 = encode_contact fl (fst (dr_tracking_ids state)) (fst (ss_contacts s)) ! 0"
  "report_bytes fl s state ! 39 = encode_contact fl (snd (dr_tracking_ids state)) (snd (ss_contacts s)) ! 0"
  by (simp_all add: report_bytes_def Let_def nth_write_at length_write_at DS4_REPORT_BYTES_def)

lemma report_head:
  "k < 35 \<Longrightarrow> report_bytes fl s state ! k = (let b = pressed (ss_buttons s); counter = le64 (drop_bit 4 (ss_observed_at_us s * 3)) in
     (replicate DS4_REPORT_BYTES 0)[0 := DS4_REPORT_ID,
            1 := centered_axis (ss_left_stick_x s), 2 := centered_axis (ss_left_stick_y s),
            3 := centered_axis (ss_right_stick_x s), 4 := centered_axis (ss_right_stick_y s),
            5 := hat_byte (ss_buttons s) OR flag (b DS4_BUTTON_SQUARE) 0x10 OR flag (b DS4_BUTTON_CROSS) 0x20
                 OR flag (b DS4_BUTTON_CIRCLE) 0x40 OR flag (b DS4_BUTTON_TRIANGLE) 0x80,
            6 := flag (b DS4_BUTTON_L1) 0x01 OR flag (b DS4_BUTTON_R1) 0x02 OR flag (ss_left_trigger s \<noteq> 0) 0x04
                 OR flag (ss_right_trigger s \<noteq> 0) 0x08 OR flag (b DS4_BUTTON_SHARE) 0x10 OR flag (b DS4_BUTTON_OPTIONS) 0x20
                 OR flag (b DS4_BUTTON_L3) 0x40 OR flag (b DS4_BUTTON_R3) 0x80,
            7 := flag (ss_touchpad_click s) 0x02, 8 := ss_left_trigger s, 9 := ss_right_trigger s,
            10 := counter ! 0, 11 := counter ! 1, 30 := DS4_STATUS_BYTE, 33 := DS4_TOUCH_SAMPLE_COUNT,
            34 := dr_touch_timestamp_byte state] ! k)"
  by (simp add: report_bytes_def Let_def nth_write_at length_write_at DS4_REPORT_BYTES_def)

lemma report_reads_bytes: "report_reads (report_bytes fl s state) s state"
proof -
  let ?r = "report_bytes fl s state" and ?b = "pressed (ss_buttons s)"
  have bytes: "?r ! 1 = centered_axis (ss_left_stick_x s)" "?r ! 2 = centered_axis (ss_left_stick_y s)"
    "?r ! 3 = centered_axis (ss_right_stick_x s)" "?r ! 4 = centered_axis (ss_right_stick_y s)"
    "?r ! 5 = hat_byte (ss_buttons s) OR flag (?b DS4_BUTTON_SQUARE) 0x10 OR flag (?b DS4_BUTTON_CROSS) 0x20
                 OR flag (?b DS4_BUTTON_CIRCLE) 0x40 OR flag (?b DS4_BUTTON_TRIANGLE) 0x80"
    "?r ! 6 = flag (?b DS4_BUTTON_L1) 0x01 OR flag (?b DS4_BUTTON_R1) 0x02 OR flag (ss_left_trigger s \<noteq> 0) 0x04
                 OR flag (ss_right_trigger s \<noteq> 0) 0x08 OR flag (?b DS4_BUTTON_SHARE) 0x10 OR flag (?b DS4_BUTTON_OPTIONS) 0x20
                 OR flag (?b DS4_BUTTON_L3) 0x40 OR flag (?b DS4_BUTTON_R3) 0x80"
    "?r ! 7 = flag (ss_touchpad_click s) 0x02" "?r ! 8 = ss_left_trigger s" "?r ! 9 = ss_right_trigger s"
    by (simp_all add: report_head DS4_REPORT_BYTES_def Let_def)
  have "bit (?r ! 7) 1 = ss_touchpad_click s" by (simp add: bytes(7) flag_bits bit_numeral_rec)
  moreover note face_byte [OF hat_byte_value(1) bytes(5)] shoulder_byte [OF bytes(6)]
  ultimately show ?thesis
    unfolding report_reads_def report_contacts contact_byte
    by (simp add: bytes(1) [unfolded One_nat_def] bytes(2-4,8,9) face_buttons_def hat_byte_value(2))
qed

lemma next_tracking_id:
  assumes "t < 128"
  shows "next_tracking_id before contact t < 128" "next_tracking_id before contact t \<noteq> t \<longleftrightarrow> ct_active contact \<and> \<not> ct_active before"
proof -
  have "(t + 1) AND 0x7f < 128" by (rule le_less_trans [OF word_and_le1]) simp
  then show "next_tracking_id before contact t < 128" using assms by (simp add: next_tracking_id_def)
  have "unat t < 128" using assms by (simp add: word_less_nat_alt)
  have "(t + 1) AND 0x7f \<noteq> t"
  proof
    assume eq: "(t + 1) AND 0x7f = t"
    have "(t + 1) AND 0x7f = take_bit 7 (t + 1)" by (simp add: take_bit_eq_mask mask_eq_exp_minus_1)
    with eq have "take_bit 7 (unat (t + 1)) = unat t" by (metis unsigned_take_bit_eq)
    moreover have "unat (t + 1) = unat t + 1" using \<open>unat t < 128\<close> by (simp add: unat_word_ariths)
    ultimately show False using \<open>unat t < 128\<close> by (simp add: take_bit_eq_mod mod_Suc split: if_splits)
  qed
  then show "next_tracking_id before contact t \<noteq> t \<longleftrightarrow> ct_active contact \<and> \<not> ct_active before" by (simp add: next_tracking_id_def)
qed

lemma track_contacts_ok:
  assumes "state_ok s" and "s' = track_contacts snapshot s"
  shows "state_ok s'" and "dr_contacts s' = ss_contacts snapshot"
    and "dr_last_observed_at_us s' = max (dr_last_observed_at_us s) (ss_observed_at_us snapshot)"
    and "fst (dr_tracking_ids s') \<noteq> fst (dr_tracking_ids s) \<longleftrightarrow> ct_active (fst (ss_contacts snapshot)) \<and> \<not> ct_active (fst (dr_contacts s))"
    and "snd (dr_tracking_ids s') \<noteq> snd (dr_tracking_ids s) \<longleftrightarrow> ct_active (snd (ss_contacts snapshot)) \<and> \<not> ct_active (snd (dr_contacts s))"
proof -
  have ids: "dr_tracking_ids s' = (next_tracking_id (fst (dr_contacts s)) (fst (ss_contacts snapshot)) (fst (dr_tracking_ids s)),
      next_tracking_id (snd (dr_contacts s)) (snd (ss_contacts snapshot)) (snd (dr_tracking_ids s)))"
    by (simp add: assms(2) track_contacts_def Let_def ds4_observe_def case_prod_beta)
  show "dr_contacts s' = ss_contacts snapshot" "dr_last_observed_at_us s' = max (dr_last_observed_at_us s) (ss_observed_at_us snapshot)"
    by (simp_all add: assms(2) track_contacts_def Let_def ds4_observe_def case_prod_beta)
  show "state_ok s'"
    "fst (dr_tracking_ids s') \<noteq> fst (dr_tracking_ids s) \<longleftrightarrow> ct_active (fst (ss_contacts snapshot)) \<and> \<not> ct_active (fst (dr_contacts s))"
    "snd (dr_tracking_ids s') \<noteq> snd (dr_tracking_ids s) \<longleftrightarrow> ct_active (snd (ss_contacts snapshot)) \<and> \<not> ct_active (snd (dr_contacts s))"
    using assms(1) next_tracking_id by (simp_all add: state_ok_def ids)
qed

text \<open>C28: in any sequence of captured states, every DualShock 4 report has 64 bytes and says what was captured:
  buttons, hat, triggers, the upper halves of the sticks, the touch pad button and which fingers are down. A finger
  keeps its tracking number while it stays down and gets a new one exactly when it comes down again.\<close>

theorem ds4_reports_faithful:
  assumes "s = fold (\<lambda>x s. snd (ds4_build fl x s)) earlier Ds4ReportState_default" and "ds4_build fl snapshot s = (r, s')"
  shows "length r = 64 \<and> report_reads r snapshot s'
    \<and> (fst (dr_tracking_ids s') \<noteq> fst (dr_tracking_ids s) \<longleftrightarrow> ct_active (fst (ss_contacts snapshot)) \<and> \<not> ct_active (fst (dr_contacts s)))
    \<and> (snd (dr_tracking_ids s') \<noteq> snd (dr_tracking_ids s) \<longleftrightarrow> ct_active (snd (ss_contacts snapshot)) \<and> \<not> ct_active (snd (dr_contacts s)))
    \<and> (earlier \<noteq> [] \<longrightarrow> dr_contacts s = ss_contacts (last earlier))"
proof -
  have keeps: "state_ok x \<Longrightarrow> state_ok (fold (\<lambda>x s. snd (ds4_build fl x s)) xs x)" for xs x
    by (induction xs arbitrary: x) (auto simp: ds4_build_def Let_def track_contacts_ok(1))
  have ok: "state_ok s" unfolding assms(1) by (rule keeps) (simp add: state_ok_def Ds4ReportState_default_def)
  have s': "s' = track_contacts snapshot s" "r = report_bytes fl snapshot s'" using assms(2) by (auto simp: ds4_build_def Let_def)
  have "dr_contacts s = ss_contacts (last earlier)" if "earlier \<noteq> []"
  proof (cases earlier rule: rev_cases)
    case (snoc xs x)
    have "state_ok (fold (\<lambda>x s. snd (ds4_build fl x s)) xs Ds4ReportState_default)"
      by (rule keeps) (simp add: state_ok_def Ds4ReportState_default_def)
    from track_contacts_ok(2) [OF this refl] snoc show ?thesis by (simp add: assms(1) ds4_build_def Let_def)
  qed (use that in simp)
  with track_contacts_ok(4,5) [OF ok s'(1)] report_reads_bytes [of fl snapshot s'] s'(2) show ?thesis
    by (simp add: DS4_REPORT_BYTES_def)
qed

theorem ds4_reports_faithful_witness:
  "let touch = (SonySnapshot_neutral 0 1 2000)\<lparr> ss_buttons := 0x1009, ss_contacts := (\<lparr> ct_active = True, ct_x = 5, ct_y = 6 \<rparr>, SonyContact_default) \<rparr>
   in report_reads (fst (ds4_build int_float_ops touch Ds4ReportState_default)) touch (snd (ds4_build int_float_ops touch Ds4ReportState_default))
     \<and> fst (dr_tracking_ids (snd (ds4_build int_float_ops touch Ds4ReportState_default))) \<noteq> 0"
proof -
  let ?touch = "(SonySnapshot_neutral 0 1 2000)\<lparr> ss_buttons := 0x1009, ss_contacts := (\<lparr> ct_active = True, ct_x = 5, ct_y = 6 \<rparr>, SonyContact_default) \<rparr>"
  have "Ds4ReportState_default = fold (\<lambda>x s. snd (ds4_build int_float_ops x s)) [] Ds4ReportState_default" by simp
  from ds4_reports_faithful [OF this prod.collapse [symmetric], of ?touch]
  show ?thesis by (simp add: Ds4ReportState_default_def SonyContact_default_def)
qed

end
