(* ===== verification/HidMailbox.thy ===== *)
theory HidMailbox
  imports HidReport
begin

text \<open>
  The mailbox between the capture of Sony controllers and the transport (\<open>runtime.rs\<close> of the HID crate): one bounded lane
  per slot, the inventory, and the endpoint, session and admission they are gated by. Every method takes the one lock of
  the runtime, so a method is one transition. The size of a snapshot in memory is a parameter.
\<close>

section \<open>Lanes\<close>

definition MAX_QUEUED_STATES :: nat where "MAX_QUEUED_STATES = 64"
definition MAX_QUEUED_STATE_BYTES :: nat where "MAX_QUEUED_STATE_BYTES = 8 * 1024"
definition DRAIN_PER_ITERATION :: nat where "DRAIN_PER_ITERATION = 32"

record ReleaseRequest =
  rq_slot :: u8
  rq_incarnation :: u64
  rq_observed_at_us :: u64

datatype LaneFault = LaneOverflow

datatype SourceMode = Rich | OrdinaryFallback

datatype SnapshotAdmission = SnapshotAdmitted | AdmittedInactive | Unbound | Faulted | StaleSource | AdmissionOverflow

datatype IngressItem =
    SnapshotItem SonySnapshot
  | ReleaseItem u8 u64 u64
  | FaultItem u8 u64 u64

record SourceLane =
  ln_states :: "SonySnapshot list"
  ln_bytes :: nat
  ln_release :: "ReleaseRequest option"
  ln_fault :: "LaneFault option"
  ln_last_observed_at_us :: u64
  ln_dropped :: nat

definition SourceLane_default :: SourceLane where
  "SourceLane_default = \<lparr> ln_states = [], ln_bytes = 0, ln_release = None, ln_fault = None, ln_last_observed_at_us = 0, ln_dropped = 0 \<rparr>"

definition lane_reset :: "SourceLane \<Rightarrow> SourceLane" where
  "lane_reset lane = lane\<lparr> ln_states := [], ln_bytes := 0, ln_release := None, ln_fault := None, ln_last_observed_at_us := 0 \<rparr>"

definition drop_buffered :: "SourceLane \<Rightarrow> SourceLane" where
  "drop_buffered lane = lane\<lparr> ln_states := [], ln_bytes := 0 \<rparr>"

definition arm_release :: "u8 \<Rightarrow> u64 \<Rightarrow> SourceLane \<Rightarrow> SourceLane" where
  "arm_release slot incarnation lane =
     (case ln_release lane of
        None \<Rightarrow> lane\<lparr> ln_release := Some \<lparr> rq_slot = slot, rq_incarnation = incarnation, rq_observed_at_us = ln_last_observed_at_us lane \<rparr> \<rparr>
      | Some _ \<Rightarrow> lane)"

definition lane_push :: "nat \<Rightarrow> SonySnapshot \<Rightarrow> SourceLane \<Rightarrow> SnapshotAdmission \<times> SourceLane" where
  "lane_push size_of snapshot lane =
     (if ln_fault lane \<noteq> None then (Faulted, lane\<lparr> ln_dropped := sat_add_u64 (ln_dropped lane) 1 \<rparr>)
      else let lane = lane\<lparr> ln_last_observed_at_us := max (ln_last_observed_at_us lane) (ss_observed_at_us snapshot) \<rparr>
           in if length (ln_states lane) \<ge> MAX_QUEUED_STATES \<or> ln_bytes lane + size_of > MAX_QUEUED_STATE_BYTES
              then (AdmissionOverflow,
                    arm_release (ss_slot snapshot) (ss_incarnation snapshot)
                      ((drop_buffered lane)\<lparr> ln_fault := Some LaneOverflow, ln_dropped := sat_add_u64 (ln_dropped lane) 1 \<rparr>))
              else (SnapshotAdmitted, lane\<lparr> ln_bytes := ln_bytes lane + size_of, ln_states := ln_states lane @ [snapshot] \<rparr>))"

section \<open>The runtime\<close>

record HidRuntime =
  hr_binding :: "u64 option"
  hr_capture_active :: bool
  hr_inventory :: InventoryView
  hr_inventory_epoch :: u64
  hr_endpoint :: "u64 option"
  hr_lanes :: "SourceLane list"
  hr_session_evaluated_epoch :: "u64 option"
  hr_session_admitted :: u16
  hr_incarnation_source :: u64
  hr_endpoint_source :: u64

definition HidRuntime_new :: HidRuntime where
  "HidRuntime_new = \<lparr> hr_binding = None, hr_capture_active = False, hr_inventory = InventoryView_default, hr_inventory_epoch = 0,
     hr_endpoint = None, hr_lanes = replicate MAX_SOURCES SourceLane_default, hr_session_evaluated_epoch = None,
     hr_session_admitted = 0, hr_incarnation_source = 1, hr_endpoint_source = 1 \<rparr>"

definition next_incarnation :: "HidRuntime \<Rightarrow> u64 \<times> HidRuntime" where
  "next_incarnation r = (hr_incarnation_source r, r\<lparr> hr_incarnation_source := hr_incarnation_source r + 1 \<rparr>)"

definition forget_admission :: "HidRuntime \<Rightarrow> HidRuntime" where
  "forget_admission r = r\<lparr> hr_session_evaluated_epoch := None, hr_session_admitted := 0 \<rparr>"

definition reset_lanes :: "HidRuntime \<Rightarrow> HidRuntime" where
  "reset_lanes r = forget_admission (r\<lparr> hr_lanes := map lane_reset (hr_lanes r) \<rparr>)"

definition replace_inventory :: "SdlDeviceClaim option list \<Rightarrow> HidRuntime \<Rightarrow> (InventoryOutcome \<times> u64) \<times> HidRuntime" where
  "replace_inventory claims r =
     (case inventory_replace claims (hr_inventory r) of
        (Replaced, inventory) \<Rightarrow>
          let lanes = map (\<lambda>slot. if inventory_incarnation (of_nat slot) (hr_inventory r) = inventory_incarnation (of_nat slot) inventory
                                  then hr_lanes r ! slot else lane_reset (hr_lanes r ! slot)) [0..<MAX_SOURCES];
              r = forget_admission (r\<lparr> hr_inventory := inventory, hr_lanes := lanes, hr_inventory_epoch := hr_inventory_epoch r + 1 \<rparr>)
          in ((Replaced, hr_inventory_epoch r), r)
      | (outcome, _) \<Rightarrow> ((outcome, hr_inventory_epoch r), r))"

definition inventory_snapshot :: "HidRuntime \<Rightarrow> InventoryView \<times> u64" where
  "inventory_snapshot r = (hr_inventory r, hr_inventory_epoch r)"

definition open_endpoint :: "HidRuntime \<Rightarrow> u64 \<times> HidRuntime" where
  "open_endpoint r =
     (let token = hr_endpoint_source r
      in (token, (reset_lanes r)\<lparr> hr_endpoint := Some token, hr_endpoint_source := token + 1 \<rparr>))"

definition close_endpoint :: "u64 \<Rightarrow> HidRuntime \<Rightarrow> HidRuntime" where
  "close_endpoint token r =
     (if hr_endpoint r \<noteq> Some token then r else (reset_lanes r)\<lparr> hr_endpoint := None, hr_binding := None \<rparr>)"

definition bind_session :: "u64 \<Rightarrow> HidRuntime \<Rightarrow> u64 option \<times> HidRuntime" where
  "bind_session generation r =
     (if hr_endpoint r = None then (None, r) else (Some generation, (reset_lanes r)\<lparr> hr_binding := Some generation \<rparr>))"

definition unbind_session :: "u64 \<Rightarrow> HidRuntime \<Rightarrow> HidRuntime" where
  "unbind_session generation r =
     (if hr_binding r \<noteq> None \<and> hr_binding r \<noteq> Some generation then r else (reset_lanes r)\<lparr> hr_binding := None \<rparr>)"

definition set_session_admission :: "u16 \<Rightarrow> u64 \<Rightarrow> HidRuntime \<Rightarrow> bool \<times> HidRuntime" where
  "set_session_admission admitted epoch r =
     (if epoch \<noteq> hr_inventory_epoch r then (False, r)
      else (True, r\<lparr> hr_session_evaluated_epoch := Some epoch, hr_session_admitted := admitted \<rparr>))"

definition mode_for_epoch :: "u8 \<Rightarrow> HidRuntime \<Rightarrow> SourceMode option" where
  "mode_for_epoch slot r =
     (if hr_session_evaluated_epoch r \<noteq> Some (hr_inventory_epoch r) then None
      else if inventory_incarnation slot (hr_inventory r) = None then None
      else Some (if hr_session_admitted r AND push_bit (unat slot) 1 \<noteq> 0 then Rich else OrdinaryFallback))"

definition release_lane :: "InventoryView \<Rightarrow> nat \<Rightarrow> SourceLane \<Rightarrow> SourceLane" where
  "release_lane inventory slot lane =
     (case inventory_incarnation (of_nat slot) inventory of
        None \<Rightarrow> lane
      | Some incarnation \<Rightarrow> arm_release (of_nat slot) incarnation (drop_buffered lane))"

definition runtime_set_active :: "bool \<Rightarrow> HidRuntime \<Rightarrow> HidRuntime" where
  "runtime_set_active active r =
     (if hr_capture_active r = active then r
      else let r = r\<lparr> hr_capture_active := active \<rparr>
           in if active then r
              else r\<lparr> hr_lanes := map (\<lambda>slot. release_lane (hr_inventory r) slot (hr_lanes r ! slot)) [0..<MAX_SOURCES] \<rparr>)"

definition output_admitted :: "u8 \<Rightarrow> HidRuntime \<Rightarrow> bool" where
  "output_admitted slot r \<longleftrightarrow> hr_capture_active r \<and> hr_binding r \<noteq> None \<and> inventory_incarnation slot (hr_inventory r) \<noteq> None
     \<and> unat slot < length (hr_lanes r) \<and> ln_fault (hr_lanes r ! unat slot) = None"

definition ordinary_bitmap :: "InventoryView \<Rightarrow> u16" where
  "ordinary_bitmap inventory =
     fold (\<lambda>slot bits. if inventory_incarnation (of_nat slot) inventory \<noteq> None
                       then bits OR (push_bit slot 1 OR push_bit (slot + 8) 1) else bits) [0..<MAX_SOURCES] 0"

text \<open>The second component is what the callback for ordinary game pads is called with.\<close>

definition submit_snapshot_with :: "nat \<Rightarrow> SonySnapshot \<Rightarrow> HidRuntime \<Rightarrow> SnapshotAdmission \<times> (SonySnapshot \<times> u16) option \<times> HidRuntime" where
  "submit_snapshot_with size_of snapshot r =
     (case snapshot_validate snapshot of
        Inl _ \<Rightarrow> (StaleSource, None, r)
      | Inr snapshot \<Rightarrow>
          if hr_binding r = None then (Unbound, None, r)
          else if inventory_incarnation (ss_slot snapshot) (hr_inventory r) \<noteq> Some (ss_incarnation snapshot) then (StaleSource, None, r)
          else case mode_for_epoch (ss_slot snapshot) r of
                 None \<Rightarrow> (StaleSource, None, r)
               | Some OrdinaryFallback \<Rightarrow> (SnapshotAdmitted, Some (snapshot, ordinary_bitmap (hr_inventory r)), r)
               | Some Rich \<Rightarrow>
                   let i = unat (ss_slot snapshot); lane = hr_lanes r ! i;
                       lane = lane\<lparr> ln_last_observed_at_us := max (ln_last_observed_at_us lane) (ss_observed_at_us snapshot) \<rparr>
                   in if \<not> hr_capture_active r
                      then let lane = (if snapshot_is_neutral snapshot then arm_release (ss_slot snapshot) (ss_incarnation snapshot) lane else lane)
                           in (AdmittedInactive, None, r\<lparr> hr_lanes := (hr_lanes r)[i := lane] \<rparr>)
                      else case lane_push size_of snapshot lane of
                             (admission, lane) \<Rightarrow> (admission, None, r\<lparr> hr_lanes := (hr_lanes r)[i := lane] \<rparr>))"

section \<open>Draining\<close>

definition take_release :: "SourceLane \<Rightarrow> IngressItem list \<times> SourceLane" where
  "take_release lane = (case ln_release lane of
     None \<Rightarrow> ([], lane)
   | Some release \<Rightarrow>
       ([case ln_fault lane of
           Some _ \<Rightarrow> FaultItem (rq_slot release) (rq_incarnation release) (rq_observed_at_us release)
         | None \<Rightarrow> ReleaseItem (rq_slot release) (rq_incarnation release) (rq_observed_at_us release)],
        lane\<lparr> ln_release := None, ln_fault := None \<rparr>))"

definition take_states :: "nat \<Rightarrow> nat \<Rightarrow> SourceLane \<Rightarrow> IngressItem list \<times> SourceLane" where
  "take_states size_of n lane =
     (map SnapshotItem (take n (ln_states lane)),
      lane\<lparr> ln_states := drop n (ln_states lane), ln_bytes := ln_bytes lane - min n (length (ln_states lane)) * size_of \<rparr>)"

fun drain_lanes :: "nat \<Rightarrow> nat \<Rightarrow> SourceLane list \<Rightarrow> IngressItem list \<times> SourceLane list" where
  "drain_lanes size_of budget [] = ([], [])"
| "drain_lanes size_of budget (lane # lanes) =
     (if budget = 0 then ([], lane # lanes)
      else let (released, lane) = take_release lane;
               (states, lane) = take_states size_of (budget - length released) lane;
               (rest, lanes) = drain_lanes size_of (budget - length released - length states) lanes
           in (released @ states @ rest, lane # lanes))"

definition drain_runtime :: "nat \<Rightarrow> nat \<Rightarrow> HidRuntime \<Rightarrow> IngressItem list \<times> HidRuntime" where
  "drain_runtime size_of budget r =
     (case drain_lanes size_of budget (hr_lanes r) of (items, lanes) \<Rightarrow> (items, r\<lparr> hr_lanes := lanes \<rparr>))"

definition pending_states :: "HidRuntime \<Rightarrow> nat" where
  "pending_states r = sum_list (map (length \<circ> ln_states) (hr_lanes r))"

section \<open>The mailbox\<close>

text \<open>What a lane holds, in the order it is drained, and the mailbox of all lanes.\<close>

definition lane_items :: "SourceLane \<Rightarrow> IngressItem list" where
  "lane_items lane = fst (take_release lane) @ map SnapshotItem (ln_states lane)"

definition mailbox :: "HidRuntime \<Rightarrow> IngressItem list" where
  "mailbox r = concat (map lane_items (hr_lanes r))"

fun item_source :: "IngressItem \<Rightarrow> u8 \<times> u64" where
  "item_source (SnapshotItem s) = (ss_slot s, ss_incarnation s)"
| "item_source (ReleaseItem slot incarnation _) = (slot, incarnation)"
| "item_source (FaultItem slot incarnation _) = (slot, incarnation)"

text \<open>A lane: a fault always has its release, the bytes are those of the states, and everything in it
  comes from the device now in the slot.\<close>

definition lane_ok :: "nat \<Rightarrow> bool \<Rightarrow> (u8 \<times> u64) option \<Rightarrow> SourceLane \<Rightarrow> bool" where
  "lane_ok size_of active source lane \<longleftrightarrow> (ln_fault lane \<noteq> None \<longrightarrow> ln_release lane \<noteq> None)
     \<and> ln_bytes lane = length (ln_states lane) * size_of \<and> length (ln_states lane) \<le> MAX_QUEUED_STATES
     \<and> (\<forall>item\<in>set (lane_items lane). Some (item_source item) = source) \<and> (\<not> active \<longrightarrow> ln_states lane = [])"

definition lane_source :: "InventoryView \<Rightarrow> nat \<Rightarrow> (u8 \<times> u64) option" where
  "lane_source inventory slot = map_option (Pair (of_nat slot)) (inventory_incarnation (of_nat slot) inventory)"

definition runtime_ok :: "nat \<Rightarrow> HidRuntime \<Rightarrow> bool" where
  "runtime_ok size_of r \<longleftrightarrow> length (hr_lanes r) = MAX_SOURCES
     \<and> (\<forall>slot<MAX_SOURCES. lane_ok size_of (hr_capture_active r) (lane_source (hr_inventory r) slot) (hr_lanes r ! slot))"

lemma lane_ok_reset [simp]: "lane_ok size_of active source (lane_reset lane)"
  by (simp add: lane_ok_def lane_reset_def lane_items_def take_release_def)

lemma take_release_simps:
  "ln_release lane = None \<Longrightarrow> take_release lane = ([], lane)"
  "ln_release lane = Some q \<Longrightarrow> \<exists>item. take_release lane = ([item], lane\<lparr> ln_release := None, ln_fault := None \<rparr>)
     \<and> item_source item = (rq_slot q, rq_incarnation q)"
  by (auto simp: take_release_def split: option.split)

lemma arm_release_ok:
  assumes "lane_ok size_of active source lane" and "source = Some (slot, incarnation)"
  shows "lane_ok size_of active source (arm_release slot incarnation lane)" and "ln_release (arm_release slot incarnation lane) \<noteq> None"
  using assms by (auto simp: arm_release_def lane_ok_def lane_items_def take_release_def split: option.splits)

lemma lane_observe_ok: "lane_ok size_of active source lane \<Longrightarrow> lane_ok size_of active source (lane\<lparr> ln_last_observed_at_us := t \<rparr>)"
  by (simp add: lane_ok_def lane_items_def take_release_def split: option.splits)

lemma drop_buffered_ok:
  "lane_ok size_of active source lane \<Longrightarrow> lane_ok size_of active' source (drop_buffered lane)"
  by (auto simp: lane_ok_def drop_buffered_def lane_items_def take_release_def split: option.splits)

lemma lane_ok_active: "lane_ok size_of active source lane \<Longrightarrow> lane_ok size_of True source lane"
  by (simp add: lane_ok_def)

lemma lane_push_ok:
  assumes "lane_ok size_of True source lane" and "source = Some (ss_slot snapshot, ss_incarnation snapshot)"
  shows "lane_ok size_of True source (snd (lane_push size_of snapshot lane))"
proof (cases "ln_fault lane")
  case (Some f)
  with assms(1) show ?thesis by (auto simp: lane_push_def lane_ok_def lane_items_def take_release_def split: option.splits)
next
  case None
  let ?lane = "lane\<lparr> ln_last_observed_at_us := max (ln_last_observed_at_us lane) (ss_observed_at_us snapshot) \<rparr>"
  have ok: "lane_ok size_of True source ?lane" by (rule lane_observe_ok [OF assms(1)])
  let ?full = "(drop_buffered ?lane)\<lparr> ln_fault := Some LaneOverflow, ln_dropped := sat_add_u64 (ln_dropped ?lane) 1 \<rparr>"
  have "lane_ok size_of True source (arm_release (ss_slot snapshot) (ss_incarnation snapshot) ?full)"
    using drop_buffered_ok [OF ok, of True] assms(2)
    by (cases "ln_release lane") (auto simp: lane_ok_def lane_items_def take_release_def arm_release_def drop_buffered_def split: option.splits)
  with None ok assms(2) show ?thesis
    by (auto simp: lane_push_def Let_def lane_ok_def lane_items_def take_release_def algebra_simps split: option.splits)
qed

text \<open>Draining takes the mailbox from the front.\<close>

lemma take_states_items:
  assumes "ln_release lane = None" and "take_states size_of n lane = (items, lane')"
  shows "items = take n (lane_items lane)" and "lane_items lane' = drop n (lane_items lane)"
  using assms by (auto simp: take_states_def lane_items_def take_release_def take_map drop_map)

lemma take_states_ok: "lane_ok size_of active source lane \<Longrightarrow> lane_ok size_of active source (snd (take_states size_of n lane))"
  by (auto simp: take_states_def lane_ok_def lane_items_def take_release_def diff_mult_distrib min_def split: option.splits dest: in_set_dropD)

lemma drain_lane:
  assumes "0 < budget" and "lane_ok size_of active source lane" and "take_release lane = (released, lane1)"
    and "take_states size_of (budget - length released) lane1 = (states, lane2)"
  shows "released @ states = take budget (lane_items lane)" and "lane_items lane2 = drop budget (lane_items lane)"
    and "lane_ok size_of active source lane2"
proof -
  have "released @ states = take budget (lane_items lane) \<and> lane_items lane2 = drop budget (lane_items lane) \<and> lane_ok size_of active source lane1"
  proof (cases "ln_release lane")
    case None
    with assms take_states_items [OF None, of size_of budget] show ?thesis by (auto simp: take_release_simps(1))
  next
    case (Some q)
    then obtain item where item: "take_release lane = ([item], lane\<lparr> ln_release := None, ln_fault := None \<rparr>)" using take_release_simps(2) by blast
    with assms(3) have l1: "released = [item]" "lane1 = lane\<lparr> ln_release := None, ln_fault := None \<rparr>" by auto
    have items: "lane_items lane = item # lane_items lane1" using item by (simp add: lane_items_def l1 take_release_def)
    have "lane_ok size_of active source lane1"
      using assms(2) items by (simp add: lane_ok_def) (simp add: l1)
    with items l1(1) assms(1) take_states_items [OF _ assms(4)] show ?thesis by (cases budget) (auto simp: l1(2))
  qed
  then show "released @ states = take budget (lane_items lane)" "lane_items lane2 = drop budget (lane_items lane)"
    "lane_ok size_of active source lane2"
    using take_states_ok [of size_of active source lane1 "budget - length released"] assms(4) by auto
qed

lemma drain_lanes_take:
  assumes "drain_lanes size_of budget lanes = (items, lanes')" and "list_all2 (lane_ok size_of active) sources lanes"
  shows "items = take budget (concat (map lane_items lanes))" and "concat (map lane_items lanes') = drop budget (concat (map lane_items lanes))"
    and "list_all2 (lane_ok size_of active) sources lanes'"
proof -
  have "items = take budget (concat (map lane_items lanes)) \<and> concat (map lane_items lanes') = drop budget (concat (map lane_items lanes))
    \<and> list_all2 (lane_ok size_of active) sources lanes'"
    using assms
  proof (induction lanes arbitrary: budget items lanes' sources)
    case (Cons lane lanes)
    show ?case
    proof (cases "budget = 0")
      case True
      with Cons.prems show ?thesis by auto
    next
      case False
      from Cons.prems(2) obtain source rest where sources: "sources = source # rest" "lane_ok size_of active source lane"
        "list_all2 (lane_ok size_of active) rest lanes" by (auto simp: list_all2_Cons2)
      obtain released lane1 where r: "take_release lane = (released, lane1)" by (metis surj_pair)
      obtain states lane2 where t: "take_states size_of (budget - length released) lane1 = (states, lane2)" by (metis surj_pair)
      obtain more lanes2 where m: "drain_lanes size_of (budget - length released - length states) lanes = (more, lanes2)" by (metis surj_pair)
      note d = drain_lane [OF _ sources(2) r t]
      from Cons.prems(1) False r t m have eq: "items = released @ states @ more" "lanes' = lane2 # lanes2" by auto
      have left: "budget - length released - length states = budget - length (lane_items lane)" using d(1) False
        by (metis append_take_drop_id diff_diff_eq length_append length_take min_def diff_is_0_eq' nat_le_linear neq0_conv diff_diff_cancel)
      from Cons.IH [OF m sources(3)] d False eq sources(1) show ?thesis
        unfolding left by (simp flip: append_assoc)
    qed
  qed simp
  then show "items = take budget (concat (map lane_items lanes))" "concat (map lane_items lanes') = drop budget (concat (map lane_items lanes))"
    "list_all2 (lane_ok size_of active) sources lanes'" by blast+
qed

section \<open>Runs\<close>

datatype hid_op =
    NextIncarnation
  | ReplaceInventory "SdlDeviceClaim option list"
  | OpenEndpoint
  | CloseEndpoint u64
  | BindSession u64
  | UnbindSession u64
  | SetAdmission u16 u64
  | SetActive bool
  | SubmitSnapshot SonySnapshot
  | Drain nat

fun hid_step :: "nat \<Rightarrow> hid_op \<Rightarrow> HidRuntime \<Rightarrow> HidRuntime" where
  "hid_step size_of NextIncarnation r = snd (next_incarnation r)"
| "hid_step size_of (ReplaceInventory claims) r = snd (replace_inventory claims r)"
| "hid_step size_of OpenEndpoint r = snd (open_endpoint r)"
| "hid_step size_of (CloseEndpoint token) r = close_endpoint token r"
| "hid_step size_of (BindSession generation) r = snd (bind_session generation r)"
| "hid_step size_of (UnbindSession generation) r = unbind_session generation r"
| "hid_step size_of (SetAdmission admitted epoch) r = snd (set_session_admission admitted epoch r)"
| "hid_step size_of (SetActive active) r = runtime_set_active active r"
| "hid_step size_of (SubmitSnapshot snapshot) r = snd (snd (submit_snapshot_with size_of snapshot r))"
| "hid_step size_of (Drain budget) r = snd (drain_runtime size_of budget r)"

lemma runtime_ok_reset: "runtime_ok size_of r \<Longrightarrow> runtime_ok size_of (reset_lanes r)"
  by (simp add: runtime_ok_def reset_lanes_def forget_admission_def)

lemma runtime_ok_fields:
  "runtime_ok size_of (r\<lparr> hr_binding := b \<rparr>) = runtime_ok size_of r" "runtime_ok size_of (r\<lparr> hr_endpoint := e \<rparr>) = runtime_ok size_of r"
  "runtime_ok size_of (r\<lparr> hr_endpoint_source := t \<rparr>) = runtime_ok size_of r"
  "runtime_ok size_of (r\<lparr> hr_incarnation_source := t \<rparr>) = runtime_ok size_of r"
  "runtime_ok size_of (r\<lparr> hr_session_evaluated_epoch := x, hr_session_admitted := a \<rparr>) = runtime_ok size_of r"
  by (simp_all add: runtime_ok_def)

lemma runtime_ok_lanes:
  assumes "runtime_ok size_of r" and "i < MAX_SOURCES" and "lane_ok size_of (hr_capture_active r) (lane_source (hr_inventory r) i) lane"
  shows "runtime_ok size_of (r\<lparr> hr_lanes := (hr_lanes r)[i := lane] \<rparr>)"
  using assms by (auto simp: runtime_ok_def nth_list_update)

lemma runtime_ok_inventory:
  assumes "runtime_ok size_of r"
  shows "runtime_ok size_of (snd (replace_inventory claims r))"
proof -
  obtain outcome inventory where i: "inventory_replace claims (hr_inventory r) = (outcome, inventory)" by (metis surj_pair)
  show ?thesis
  proof (cases outcome)
    case Replaced
    with i assms show ?thesis
      by (auto simp: replace_inventory_def Let_def runtime_ok_def forget_admission_def lane_source_def)
  qed (use i assms in \<open>simp_all add: replace_inventory_def\<close>)
qed

lemma runtime_ok_active:
  assumes "runtime_ok size_of r"
  shows "runtime_ok size_of (runtime_set_active active r)"
proof (cases "hr_capture_active r = active \<or> active")
  case True
  with assms lane_ok_active show ?thesis by (auto simp: runtime_set_active_def runtime_ok_def)
next
  case False
  have "lane_ok size_of False (lane_source (hr_inventory r) slot) (release_lane (hr_inventory r) slot (hr_lanes r ! slot))"
    if "slot < MAX_SOURCES" for slot
  proof (cases "inventory_incarnation (of_nat slot) (hr_inventory r)")
    case None
    then have none: "lane_source (hr_inventory r) slot = None" by (simp add: lane_source_def)
    have ok: "lane_ok size_of True (lane_source (hr_inventory r) slot) (hr_lanes r ! slot)"
      using assms that lane_ok_active by (auto simp: runtime_ok_def)
    then have "ln_states (hr_lanes r ! slot) = []"
      by (cases "ln_states (hr_lanes r ! slot)") (auto simp: lane_ok_def lane_items_def none)
    with ok None show ?thesis by (simp add: release_lane_def lane_ok_def)
  next
    case (Some incarnation)
    have "lane_ok size_of False (lane_source (hr_inventory r) slot) (drop_buffered (hr_lanes r ! slot))"
      using assms that drop_buffered_ok by (auto simp: runtime_ok_def)
    from arm_release_ok(1) [OF this] Some show ?thesis by (simp add: release_lane_def lane_source_def)
  qed
  with False show ?thesis by (simp add: runtime_set_active_def Let_def runtime_ok_def)
qed

lemma runtime_ok_submit:
  assumes "runtime_ok size_of r"
  shows "runtime_ok size_of (snd (snd (submit_snapshot_with size_of snapshot r)))"
proof (cases "snapshot_validate snapshot")
  case (Inl e)
  with assms show ?thesis by (simp add: submit_snapshot_with_def)
next
  case (Inr s)
  then have s: "s = snapshot" "unat (ss_slot snapshot) < MAX_SOURCES" by (auto simp: snapshot_validate_def split: if_splits)
  let ?i = "unat (ss_slot snapshot)"
  let ?lane = "(hr_lanes r ! ?i)\<lparr> ln_last_observed_at_us := max (ln_last_observed_at_us (hr_lanes r ! ?i)) (ss_observed_at_us snapshot) \<rparr>"
  have ok: "lane_ok size_of (hr_capture_active r) (lane_source (hr_inventory r) ?i) ?lane"
    using assms s(2) by (intro lane_observe_ok) (simp add: runtime_ok_def)
  show ?thesis
  proof (cases "hr_binding r \<noteq> None \<and> inventory_incarnation (ss_slot snapshot) (hr_inventory r) = Some (ss_incarnation snapshot)
      \<and> mode_for_epoch (ss_slot snapshot) r = Some Rich")
    case False
    with Inr s assms show ?thesis by (auto simp: submit_snapshot_with_def split: option.splits SourceMode.splits)
  next
    case True
    then have source: "lane_source (hr_inventory r) ?i = Some (ss_slot snapshot, ss_incarnation snapshot)" by (simp add: lane_source_def)
    show ?thesis
    proof (cases "hr_capture_active r")
      case active: True
      with ok have "lane_ok size_of True (lane_source (hr_inventory r) ?i) ?lane" by simp
      from lane_push_ok [OF this source] runtime_ok_lanes [OF assms s(2)] active Inr s True show ?thesis
        by (auto simp: submit_snapshot_with_def Let_def case_prod_beta)
    next
      case inactive: False
      from arm_release_ok(1) [OF ok source] ok runtime_ok_lanes [OF assms s(2)] inactive Inr s True show ?thesis
        by (auto simp: submit_snapshot_with_def Let_def)
    qed
  qed
qed

lemma runtime_sources:
  "runtime_ok size_of r \<longleftrightarrow> list_all2 (lane_ok size_of (hr_capture_active r)) (map (lane_source (hr_inventory r)) [0..<MAX_SOURCES]) (hr_lanes r)"
  by (auto simp: runtime_ok_def list_all2_conv_all_nth)

lemma drain_runtime_mailbox:
  assumes "runtime_ok size_of r" and "drain_runtime size_of budget r = (items, r')"
  shows "items = take budget (mailbox r)" and "mailbox r' = drop budget (mailbox r)" and "runtime_ok size_of r'"
  using drain_lanes_take [of size_of budget "hr_lanes r" items "hr_lanes r'"] assms
  by (auto simp: drain_runtime_def mailbox_def runtime_sources split: prod.splits)

lemma hid_step_ok: "runtime_ok size_of r \<Longrightarrow> runtime_ok size_of (hid_step size_of op r)"
proof (cases op)
  case (Drain budget)
  assume "runtime_ok size_of r"
  then show ?thesis using drain_runtime_mailbox(3) [of size_of r budget] Drain by (metis hid_step.simps(10) prod.collapse)
qed (simp_all add: runtime_ok_fields runtime_ok_reset runtime_ok_inventory runtime_ok_active runtime_ok_submit next_incarnation_def
    open_endpoint_def Let_def close_endpoint_def bind_session_def unbind_session_def set_session_admission_def)

interpretation hid: state_machine "hid_step size_of" "runtime_ok size_of"
  by unfold_locales (rule hid_step_ok)

lemma runtime_ok_new: "runtime_ok size_of HidRuntime_new"
  by (simp add: runtime_ok_def HidRuntime_new_def lane_ok_def SourceLane_default_def lane_items_def take_release_def)

lemma mailbox_fresh:
  assumes "runtime_ok size_of r" and "item \<in> set (mailbox r)" and "item_source item = (slot, incarnation)"
  shows "inventory_incarnation slot (hr_inventory r) = Some incarnation"
proof -
  from assms(2) obtain lane where "lane \<in> set (hr_lanes r)" "item \<in> set (lane_items lane)" by (auto simp: mailbox_def)
  then obtain i where "i < MAX_SOURCES" "item \<in> set (lane_items (hr_lanes r ! i))" using assms(1) by (auto simp: runtime_ok_def in_set_conv_nth)
  with assms(1,3) have "Some (slot, incarnation) = lane_source (hr_inventory r) i" unfolding runtime_ok_def lane_ok_def by metis
  then show ?thesis by (cases "inventory_incarnation (word_of_nat i) (hr_inventory r)") (auto simp: lane_source_def)
qed


definition sample_claim :: SdlDeviceClaim where
  "sample_claim = \<lparr> dc_slot = 1, dc_incarnation = 7, dc_vendor = 0x054c, dc_product = 0x05c4 \<rparr>"

definition sample_hid_ops :: "hid_op list" where
  "sample_hid_ops = [OpenEndpoint, BindSession 3, ReplaceInventory [Some sample_claim], SetAdmission 2 1, SetActive True,
     SubmitSnapshot ((SonySnapshot_neutral 1 7 50)\<lparr> ss_buttons := 0x1000 \<rparr>)]"


fun is_release :: "IngressItem \<Rightarrow> bool" where
  "is_release (SnapshotItem _) = False"
| "is_release _ = True"

lemma released_lane:
  assumes "lane_ok size_of active (Some source) lane" and "ln_states lane = []" and "ln_release lane \<noteq> None"
  shows "\<exists>item. lane_items lane = [item] \<and> is_release item \<and> item_source item = source"
  using assms by (auto simp: lane_ok_def lane_items_def take_release_def split: option.splits)

text \<open>C19: when the window loses the focus, everything the controllers did since is dropped and every controller in a slot is
  left with exactly one release in the mailbox, whatever it held before; until the focus comes back only releases
  are added.\<close>

theorem focus_loss_releases:
  assumes "r = fold (hid_step size_of) ops HidRuntime_new" and "hr_capture_active r" and "slot < MAX_SOURCES"
    and "inventory_incarnation (of_nat slot) (hr_inventory r) = Some incarnation"
    and "s = fold (hid_step size_of) (map SubmitSnapshot snapshots) (runtime_set_active False r)"
  shows "\<exists>item. lane_items (hr_lanes s ! slot) = [item] \<and> is_release item \<and> item_source item = (of_nat slot, incarnation)"
proof -
  have ok: "runtime_ok size_of (runtime_set_active False r)"
    unfolding assms(1) by (rule runtime_ok_active [OF hid.run_keeps [OF runtime_ok_new]])
  have keeps: "\<not> hr_capture_active s \<and> hr_inventory s = hr_inventory r \<and> runtime_ok size_of s \<and> ln_release (hr_lanes s ! slot) \<noteq> None"
    unfolding assms(5)
  proof (induction snapshots rule: rev_induct)
    case Nil
    show ?case using assms(2-4) ok by (auto simp: runtime_set_active_def Let_def release_lane_def arm_release_def split: option.split)
  next
    case (snoc x xs)
    let ?r = "fold (hid_step size_of) (map SubmitSnapshot xs) (runtime_set_active False r)"
    from hid_step_ok [of size_of ?r "SubmitSnapshot x"] snoc have "runtime_ok size_of (hid_step size_of (SubmitSnapshot x) ?r)" by blast
    moreover have "length (hr_lanes ?r) = MAX_SOURCES" using snoc by (simp add: runtime_ok_def)
    ultimately show ?case using snoc assms(3)
      by (auto simp: submit_snapshot_with_def Let_def nth_list_update arm_release_def snapshot_validate_def
          split: option.splits sum.splits SourceMode.splits if_splits)
  qed
  then have "lane_ok size_of False (Some (of_nat slot, incarnation)) (hr_lanes s ! slot)"
    using assms(3,4) by (auto simp: runtime_ok_def lane_source_def)
  with keeps show ?thesis by (intro released_lane) (auto simp: lane_ok_def)
qed

theorem focus_loss_releases_witness:
  "let r = fold (hid_step 56) sample_hid_ops HidRuntime_new; s = fold (hid_step 56) (map SubmitSnapshot []) (runtime_set_active False r)
   in \<exists>item. lane_items (hr_lanes s ! 1) = [item] \<and> is_release item \<and> item_source item = (1, 7)"
proof -
  have "hr_capture_active (fold (hid_step 56) sample_hid_ops HidRuntime_new)" by code_simp
  moreover have "inventory_incarnation (of_nat 1) (hr_inventory (fold (hid_step 56) sample_hid_ops HidRuntime_new)) = Some 7" by code_simp
  ultimately show ?thesis using focus_loss_releases [OF refl, of 56 sample_hid_ops 1 7 _ "[]"] by (simp add: MAX_SOURCES_def Let_def)
qed

end
