(* ===== verification/HidDevices.thy ===== *)
theory HidDevices
  imports HidMailbox
begin

text \<open>
  The Sony devices of one stream (\<open>session.rs\<close> of the HID crate): which controllers are attached on the server, the
  reports sent for them, and the messages that attach and remove them. A slot that was retired is never attached
  again in the same session.
\<close>

section \<open>Model\<close>

definition DS4_OUTPUT_REPORT_ID :: u8 where "DS4_OUTPUT_REPORT_ID = 5"
definition DS4_OUTPUT_ENABLE_BIT :: u8 where "DS4_OUTPUT_ENABLE_BIT = 0x01"
definition DS4_OUTPUT_MIN_BYTES :: nat where "DS4_OUTPUT_MIN_BYTES = 6"
definition DS4_OUTPUT_LOW_BYTE :: nat where "DS4_OUTPUT_LOW_BYTE = 4"
definition DS4_OUTPUT_HIGH_BYTE :: nat where "DS4_OUTPUT_HIGH_BYTE = 5"

record SonyRumble =
  sr_slot :: u8
  sr_incarnation :: u64
  sr_low_frequency :: u16
  sr_high_frequency :: u16

datatype HidAttachment = Attached | Removed | Refused

datatype HidOutbound =
    AttachOut u8
  | ReportOut u8 bytes
  | ReleaseOut u8 bytes
  | RemovalOut u8

record AdmittedSource =
  as_slot :: u8
  as_incarnation :: u64
  as_vendor :: u16
  as_product :: u16

record HidSession =
  hd_capability :: SonyCapability
  hd_sources :: "AdmittedSource option list"
  hd_tombstones :: "u64 option list"
  hd_report_states :: "Ds4ReportState list"

definition HidSession_new :: "SonyCapability \<Rightarrow> HidSession" where
  "HidSession_new capability = \<lparr> hd_capability = capability, hd_sources = replicate MAX_SOURCES None,
     hd_tombstones = replicate MAX_SOURCES None, hd_report_states = replicate MAX_SOURCES Ds4ReportState_default \<rparr>"

definition set_server_mask :: "u32 \<Rightarrow> HidSession \<Rightarrow> HidSession" where
  "set_server_mask server_mask h = h\<lparr> hd_capability := (hd_capability h)\<lparr> sy_server_mask := server_mask \<rparr> \<rparr>"

definition source_at :: "u8 \<Rightarrow> HidSession \<Rightarrow> AdmittedSource option" where
  "source_at slot h = (if unat slot < length (hd_sources h) then hd_sources h ! unat slot else None)"

definition attached :: "u8 \<Rightarrow> HidSession \<Rightarrow> u64 option" where
  "attached slot h = map_option as_incarnation (source_at slot h)"

definition is_tombstoned :: "u8 \<Rightarrow> HidSession \<Rightarrow> bool" where
  "is_tombstoned slot h \<longleftrightarrow> unat slot < length (hd_tombstones h) \<and> hd_tombstones h ! unat slot \<noteq> None"

definition rich_slot_mask :: "HidSession \<Rightarrow> u16" where
  "rich_slot_mask h = slot_mask (\<lambda>slot. hd_sources h ! slot \<noteq> None)"

definition admit :: "SdlDeviceClaim \<Rightarrow> HidSession \<Rightarrow> (HidAttachment \<times> HidOutbound list) \<times> HidSession" where
  "admit claim h =
     (let index = unat (dc_slot claim); refused = ((Refused, []), h)
      in if index \<ge> MAX_SOURCES \<or> dc_incarnation claim = 0 then refused
         else case sony_product claim of
                None \<Rightarrow> refused
              | Some (target, cross_synthesis) \<Rightarrow>
                  if \<not> admits target cross_synthesis (hd_capability h) then refused
                  else case low_id_for_slot (dc_slot claim) of
                         None \<Rightarrow> refused
                       | Some low_id \<Rightarrow>
                           if hd_tombstones h ! index \<noteq> None then refused
                           else ((Attached, [AttachOut low_id]),
                                 h\<lparr> hd_sources := (hd_sources h)[index := Some \<lparr> as_slot = dc_slot claim, as_incarnation = dc_incarnation claim,
                                       as_vendor = dc_vendor claim, as_product = dc_product claim \<rparr>],
                                    hd_report_states := (hd_report_states h)[index := Ds4ReportState_default] \<rparr>))"

definition release_contact :: "SonyContact \<Rightarrow> SonyContact" where
  "release_contact c = c\<lparr> ct_active := False \<rparr>"

definition release_report :: "'f float_ops \<Rightarrow> u8 \<Rightarrow> HidSession \<Rightarrow> bytes \<times> HidSession" where
  "release_report fl slot h =
     (let index = unat slot; state = hd_report_states h ! index;
          release = (SonySnapshot_neutral slot 1 (dr_last_observed_at_us state))
            \<lparr> ss_contacts := map_prod release_contact release_contact (dr_contacts state) \<rparr>;
          (report, state) = ds4_build fl release state
      in (report, h\<lparr> hd_report_states := (hd_report_states h)[index := state] \<rparr>))"

definition retire_slot :: "'f float_ops \<Rightarrow> u8 \<Rightarrow> HidSession \<Rightarrow> HidOutbound list \<times> HidSession" where
  "retire_slot fl slot h =
     (let index = unat slot in
      case source_at slot h of
        None \<Rightarrow> ([], h)
      | Some source \<Rightarrow>
          let h = h\<lparr> hd_sources := (hd_sources h)[index := None],
                     hd_tombstones := (hd_tombstones h)[index := Some (as_incarnation source)] \<rparr>
          in case low_id_for_slot slot of
               Some low_id \<Rightarrow>
                 let (report, h) = release_report fl slot h
                 in ([ReleaseOut low_id report, RemovalOut low_id],
                     h\<lparr> hd_report_states := (hd_report_states h)[index := Ds4ReportState_default] \<rparr>)
             | None \<Rightarrow> ([], h\<lparr> hd_report_states := (hd_report_states h)[index := Ds4ReportState_default] \<rparr>))"

definition reconcile_slot :: "'f float_ops \<Rightarrow> InventoryView \<Rightarrow> u8 \<Rightarrow> HidSession \<Rightarrow> HidOutbound list \<times> HidSession" where
  "reconcile_slot fl inventory slot h =
     (case (hd_sources h ! unat slot, inventory_claim slot inventory) of
        (Some current, Some claim) \<Rightarrow>
          if as_incarnation current = dc_incarnation claim then ([], h)
          else let (out, h) = retire_slot fl slot h; ((_, attach), h) = admit claim h in (out @ attach, h)
      | (Some current, None) \<Rightarrow> retire_slot fl slot h
      | (None, Some claim) \<Rightarrow> let ((_, out), h) = admit claim h in (out, h)
      | (None, None) \<Rightarrow> ([], h))"

fun for_slots :: "(u8 \<Rightarrow> HidSession \<Rightarrow> HidOutbound list \<times> HidSession) \<Rightarrow> nat list \<Rightarrow> HidSession \<Rightarrow> HidOutbound list \<times> HidSession" where
  "for_slots f [] h = ([], h)"
| "for_slots f (slot # slots) h = (let (out, h) = f (of_nat slot) h; (rest, h) = for_slots f slots h in (out @ rest, h))"

definition reconcile :: "'f float_ops \<Rightarrow> InventoryView \<Rightarrow> HidSession \<Rightarrow> HidOutbound list \<times> HidSession" where
  "reconcile fl inventory h = for_slots (reconcile_slot fl inventory) [0..<MAX_SOURCES] h"

definition retire :: "'f float_ops \<Rightarrow> u8 \<Rightarrow> HidSession \<Rightarrow> HidOutbound list \<times> HidSession" where
  "retire fl slot h = retire_slot fl slot h"

definition retire_all :: "'f float_ops \<Rightarrow> HidSession \<Rightarrow> HidOutbound list \<times> HidSession" where
  "retire_all fl h = for_slots (retire_slot fl) [0..<MAX_SOURCES] h"

definition observe_slot :: "u8 \<Rightarrow> u64 \<Rightarrow> HidSession \<Rightarrow> HidSession" where
  "observe_slot slot observed_at_us h =
     (if unat slot < length (hd_report_states h)
      then h\<lparr> hd_report_states := (hd_report_states h)[unat slot := ds4_observe observed_at_us (hd_report_states h ! unat slot)] \<rparr>
      else h)"

definition build_report :: "'f float_ops \<Rightarrow> SonySnapshot \<Rightarrow> HidSession \<Rightarrow> (u8 \<times> bytes) option \<times> HidSession" where
  "build_report fl snapshot h =
     (case source_at (ss_slot snapshot) h of
        None \<Rightarrow> (None, h)
      | Some source \<Rightarrow>
          if as_incarnation source \<noteq> ss_incarnation snapshot then (None, h)
          else case low_id_for_slot (ss_slot snapshot) of
                 None \<Rightarrow> (None, h)
               | Some low_id \<Rightarrow>
                   let (report, state) = ds4_build fl snapshot (hd_report_states h ! unat (ss_slot snapshot))
                   in (Some (low_id, report), h\<lparr> hd_report_states := (hd_report_states h)[unat (ss_slot snapshot) := state] \<rparr>))"

definition release_snapshot :: "'f float_ops \<Rightarrow> u8 \<Rightarrow> HidSession \<Rightarrow> (u8 \<times> bytes) option \<times> HidSession" where
  "release_snapshot fl slot h =
     (case source_at slot h of
        None \<Rightarrow> (None, h)
      | Some _ \<Rightarrow>
          (case low_id_for_slot slot of
             None \<Rightarrow> (None, h)
           | Some low_id \<Rightarrow> let (report, h) = release_report fl slot h in (Some (low_id, report), h)))"

definition take_output :: "bytes \<Rightarrow> u8 \<Rightarrow> HidSession \<Rightarrow> SonyRumble option" where
  "take_output payload low_id h =
     (case slot_for_low_id low_id of
        None \<Rightarrow> None
      | Some slot \<Rightarrow>
          (case source_at slot h of
             None \<Rightarrow> None
           | Some source \<Rightarrow>
               if length payload < DS4_OUTPUT_MIN_BYTES then None
               else if payload ! 0 \<noteq> DS4_OUTPUT_REPORT_ID then None
               else if payload ! 1 AND DS4_OUTPUT_ENABLE_BIT = 0 then None
               else Some \<lparr> sr_slot = slot, sr_incarnation = as_incarnation source,
                      sr_low_frequency = push_bit 8 (ucast (payload ! DS4_OUTPUT_LOW_BYTE)),
                      sr_high_frequency = push_bit 8 (ucast (payload ! DS4_OUTPUT_HIGH_BYTE)) \<rparr>))"

datatype HidSessionError = UnsupportedIdentity

definition adopt :: "SdlDeviceClaim \<Rightarrow> HidSession \<Rightarrow> (HidSessionError + HidAttachment) \<times> HidSession" where
  "adopt claim h =
     (if sony_product claim = None then (Inl UnsupportedIdentity, h)
      else let ((attachment, _), h) = admit claim h in (Inr attachment, h))"

section \<open>The protocol of a device\<close>

text \<open>A report that presses nothing: hat and sticks centred, no button, no trigger, no finger down.\<close>

definition report_neutral :: "bytes \<Rightarrow> bool" where
  "report_neutral r \<longleftrightarrow> length r = 64 \<and> map ((!) r) [1, 2, 3, 4, 5, 6, 7, 8, 9] = [128, 128, 128, 128, 8, 0, 0, 0, 0] \<and> bit (r ! 35) 7 \<and> bit (r ! 39) 7"

text \<open>A device on the server: attached once, removed only after a neutral report, then gone for good.\<close>

datatype device = DeviceAbsent | DeviceLive | DeviceReleased | DeviceGone

fun device_step :: "HidOutbound \<Rightarrow> device \<Rightarrow> device option" where
  "device_step (AttachOut _) d = (if d = DeviceAbsent then Some DeviceLive else None)"
| "device_step (ReportOut _ r) d =
     (if d = DeviceLive \<or> d = DeviceReleased then Some (if report_neutral r then DeviceReleased else DeviceLive) else None)"
| "device_step (ReleaseOut _ r) d =
     (if d = DeviceLive \<or> d = DeviceReleased then Some (if report_neutral r then DeviceReleased else DeviceLive) else None)"
| "device_step (RemovalOut _) d = (if d = DeviceReleased then Some DeviceGone else None)"

fun out_id :: "HidOutbound \<Rightarrow> u8" where
  "out_id (AttachOut low_id) = low_id"
| "out_id (ReportOut low_id _) = low_id"
| "out_id (ReleaseOut low_id _) = low_id"
| "out_id (RemovalOut low_id) = low_id"

definition device_run :: "u8 \<Rightarrow> HidOutbound list \<Rightarrow> device option" where
  "device_run low_id log = run_steps device_step (filter (\<lambda>out. out_id out = low_id) log) DeviceAbsent"

definition slot_id :: "nat \<Rightarrow> u8" where
  "slot_id i = of_nat i + DS4_LOW_ID_BASE"

definition device_of :: "HidSession \<Rightarrow> nat \<Rightarrow> device \<Rightarrow> bool" where
  "device_of h i d = (case (hd_sources h ! i, hd_tombstones h ! i) of
     (Some _, None) \<Rightarrow> d = DeviceLive \<or> d = DeviceReleased
   | (None, None) \<Rightarrow> d = DeviceAbsent
   | (None, Some _) \<Rightarrow> d = DeviceGone
   | (Some _, Some _) \<Rightarrow> False)"

definition session_shape :: "HidSession \<Rightarrow> bool" where
  "session_shape h \<longleftrightarrow> length (hd_sources h) = MAX_SOURCES \<and> length (hd_tombstones h) = MAX_SOURCES \<and> length (hd_report_states h) = MAX_SOURCES
     \<and> (\<forall>state\<in>set (hd_report_states h). state_ok state)"

definition devices_ok :: "HidSession \<Rightarrow> HidOutbound list \<Rightarrow> bool" where
  "devices_ok h log \<longleftrightarrow> session_shape h \<and> (\<forall>i<MAX_SOURCES. \<exists>d. device_run (slot_id i) log = Some d \<and> device_of h i d)"

text \<open>An operation on one slot: its messages are those of the slot and follow the protocol, the other slots are left alone.\<close>

definition slot_step :: "nat \<Rightarrow> HidSession \<Rightarrow> HidOutbound list \<Rightarrow> HidSession \<Rightarrow> bool" where
  "slot_step i h out h' \<longleftrightarrow> session_shape h' \<and> (\<forall>out1\<in>set out. out_id out1 = slot_id i)
     \<and> (\<forall>j<MAX_SOURCES. j \<noteq> i \<longrightarrow> hd_sources h' ! j = hd_sources h ! j \<and> hd_tombstones h' ! j = hd_tombstones h ! j)
     \<and> (\<forall>d. device_of h i d \<longrightarrow> (\<exists>d'. run_steps device_step out d = Some d' \<and> device_of h' i d'))"

lemma unat_slot: "i < MAX_SOURCES \<Longrightarrow> unat (of_nat i :: u8) = i"
  by (simp add: MAX_SOURCES_def unat_of_nat)

lemma slot_id_eq: "i < MAX_SOURCES \<Longrightarrow> j < MAX_SOURCES \<Longrightarrow> slot_id i = slot_id j \<longleftrightarrow> i = j"
  unfolding slot_id_def add_right_cancel by (metis unat_slot)

lemma slot_step_ok:
  assumes "devices_ok h log" and "slot_step i h out h'" and "i < MAX_SOURCES"
  shows "devices_ok h' (log @ out)"
  unfolding devices_ok_def
proof (intro conjI allI impI)
  show "session_shape h'" using assms(2) by (simp add: slot_step_def)
  fix j assume j: "j < MAX_SOURCES"
  from assms(1) j obtain d where d: "device_run (slot_id j) log = Some d" "device_of h j d" by (auto simp: devices_ok_def)
  show "\<exists>d. device_run (slot_id j) (log @ out) = Some d \<and> device_of h' j d"
  proof (cases "j = i")
    case True
    with assms(2) have "filter (\<lambda>out1. out_id out1 = slot_id j) out = out" by (auto simp: slot_step_def)
    with True assms(2) d show ?thesis by (auto simp: slot_step_def device_run_def run_steps_append)
  next
    case False
    with assms(2,3) j have "filter (\<lambda>out1. out_id out1 = slot_id j) out = []" by (auto simp: slot_step_def slot_id_eq)
    with False assms(2) d j show ?thesis by (auto simp: slot_step_def device_run_def device_of_def)
  qed
qed

lemma slot_step_trans:
  assumes "slot_step i h out h1" and "slot_step i h1 out1 h2"
  shows "slot_step i h (out @ out1) h2"
proof -
  have "\<exists>d2. run_steps device_step (out @ out1) d = Some d2 \<and> device_of h2 i d2" if "device_of h i d" for d
  proof -
    from assms(1) that obtain d1 where "run_steps device_step out d = Some d1" "device_of h1 i d1" by (auto simp: slot_step_def)
    with assms(2) show ?thesis by (auto simp: slot_step_def run_steps_append)
  qed
  with assms show ?thesis by (auto simp: slot_step_def)
qed

lemma slot_step_refl: "session_shape h \<Longrightarrow> slot_step i h [] h"
  by (simp add: slot_step_def)

lemma low_id_slot: "low_id_for_slot slot = (if unat slot < MAX_SOURCES then Some (slot_id (unat slot)) else None)"
  by (simp add: low_id_for_slot_def slot_id_def)

lemma neutral_bytes:
  assumes "snapshot_is_neutral s"
  shows "report_neutral (report_bytes fl s state)"
proof -
  have "hat_byte 0 = 8" by (simp add: hat_byte_def HAT_TABLE_def pressed_def)
  moreover have "centered_axis 0 = 128" by (simp add: centered_axis_def)
  ultimately show ?thesis using assms
    by (simp add: report_neutral_def report_contacts contact_byte(1) snapshot_is_neutral_def report_head Let_def
        DS4_REPORT_BYTES_def pressed_def flag_def)
qed

lemma shape_report_state:
  assumes "session_shape h" and "state_ok state"
  shows "session_shape (h\<lparr> hd_report_states := (hd_report_states h)[i := state] \<rparr>)"
  using assms set_update_subset_insert [of "hd_report_states h" i state] by (auto simp: session_shape_def)

lemma state_ok_default [simp]: "state_ok Ds4ReportState_default"
  by (simp add: state_ok_def Ds4ReportState_default_def)

lemma shape_state: "session_shape h \<Longrightarrow> i < MAX_SOURCES \<Longrightarrow> state_ok (hd_report_states h ! i)"
  by (auto simp: session_shape_def)

lemma release_report:
  assumes "session_shape h" and "unat slot < MAX_SOURCES" and "release_report fl slot h = (bs, h')"
  shows "report_neutral bs" and "session_shape h'" and "hd_sources h' = hd_sources h" and "hd_tombstones h' = hd_tombstones h"
proof -
  let ?state = "hd_report_states h ! unat slot"
  let ?release = "(SonySnapshot_neutral slot 1 (dr_last_observed_at_us ?state))
    \<lparr> ss_contacts := map_prod release_contact release_contact (dr_contacts ?state) \<rparr>"
  have eq: "bs = report_bytes fl ?release (track_contacts ?release ?state)"
    "h' = h\<lparr> hd_report_states := (hd_report_states h)[unat slot := track_contacts ?release ?state] \<rparr>"
    using assms(3) by (auto simp: release_report_def ds4_build_def Let_def)
  have "snapshot_is_neutral ?release" by (simp add: snapshot_is_neutral_def SonySnapshot_neutral_def release_contact_def)
  with eq(1) show "report_neutral bs" by (simp add: neutral_bytes)
  have "state_ok (track_contacts ?release ?state)" using track_contacts_ok(1) shape_state assms(1,2) by blast
  with assms(1) show "session_shape h'" unfolding eq(2) by (rule shape_report_state)
  show "hd_sources h' = hd_sources h" "hd_tombstones h' = hd_tombstones h" unfolding eq(2) by simp_all
qed

text \<open>An operation on one slot leaves the other slots and the messages to their devices alone.\<close>

lemma slot_stepI:
  assumes "session_shape h'" and "\<forall>m\<in>set out. out_id m = slot_id i"
    and "hd_sources h' = (hd_sources h)[i := source]" and "hd_tombstones h' = (hd_tombstones h)[i := tombstone]"
    and "\<And>d. device_of h i d \<Longrightarrow> \<exists>d'. run_steps device_step out d = Some d' \<and> device_of h' i d'"
  shows "slot_step i h out h'"
  using assms by (simp add: slot_step_def)

lemma admit_step:
  assumes "session_shape h" and "unat (dc_slot claim) = i" and "i < MAX_SOURCES" and "hd_sources h ! i = None"
    and "admit claim h = ((attachment, out), h')"
  shows "slot_step i h out h'" and "out = [] \<or> out = [AttachOut (slot_id i)]" and "hd_tombstones h ! i \<noteq> None \<Longrightarrow> out = []"
proof -
  have i: "\<not> MAX_SOURCES \<le> i" using assms(3) by simp
  consider "out = []" "h' = h" | source where "out = [AttachOut (slot_id i)]" "hd_tombstones h ! i = None"
    "h' = h\<lparr> hd_sources := (hd_sources h)[i := Some source], hd_report_states := (hd_report_states h)[i := Ds4ReportState_default] \<rparr>"
  proof (cases "dc_incarnation claim = 0 \<or> sony_product claim = None")
    case True
    with assms(5) that(1) show ?thesis by (auto simp: admit_def Let_def split: option.splits)
  next
    case False
    then obtain target cross where p: "sony_product claim = Some (target, cross)" by auto
    show ?thesis
    proof (cases "admits target cross (hd_capability h) \<and> hd_tombstones h ! i = None")
      case True
      with assms(2,5) that(2) False p i show ?thesis by (simp add: admit_def low_id_slot) metis
    next
      case notok: False
      with assms(2,5) that(1) False p i show ?thesis by (auto simp: admit_def low_id_slot Let_def split: if_splits)
    qed
  qed
  then have "slot_step i h out h' \<and> (out = [] \<or> out = [AttachOut (slot_id i)]) \<and> (hd_tombstones h ! i \<noteq> None \<longrightarrow> out = [])"
  proof cases
    case 1
    with assms(1) show ?thesis by (simp add: slot_step_refl)
  next
    case 2
    have "slot_step i h out h'"
    proof (rule slot_stepI)
      have "session_shape (h\<lparr> hd_sources := (hd_sources h)[i := Some source] \<rparr>)" using assms(1) by (simp add: session_shape_def)
      from shape_report_state [OF this state_ok_default, of i] show "session_shape h'" by (simp add: 2(3))
      show "hd_sources h' = (hd_sources h)[i := Some source]" "hd_tombstones h' = (hd_tombstones h)[i := hd_tombstones h ! i]" by (simp_all add: 2(3))
      show "\<exists>d'. run_steps device_step out d = Some d' \<and> device_of h' i d'" if "device_of h i d" for d
        using that assms(1,3,4) 2 by (simp add: device_of_def session_shape_def)
    qed (simp add: 2(1))
    with 2 show ?thesis by simp
  qed
  then show "slot_step i h out h'" "out = [] \<or> out = [AttachOut (slot_id i)]" "hd_tombstones h ! i \<noteq> None \<Longrightarrow> out = []" by auto
qed

lemma retire_step:
  assumes "session_shape h" and "unat slot = i" and "i < MAX_SOURCES" and "retire_slot fl slot h = (out, h')"
  shows "slot_step i h out h'" and "out = [] \<and> h' = h \<and> hd_sources h ! i = None \<or> hd_tombstones h' ! i \<noteq> None"
    and "hd_sources h' ! i = None" and "out = [] \<or> (\<exists>r. length r = DS4_REPORT_BYTES \<and> out = [ReleaseOut (slot_id i) r, RemovalOut (slot_id i)])"
proof -
  have at: "source_at slot h = hd_sources h ! i" using assms(1-3) by (simp add: source_at_def session_shape_def)
  have "slot_step i h out h' \<and> (out = [] \<and> h' = h \<and> hd_sources h ! i = None \<or> hd_tombstones h' ! i \<noteq> None)
    \<and> hd_sources h' ! i = None \<and> (out = [] \<or> (\<exists>r. length r = DS4_REPORT_BYTES \<and> out = [ReleaseOut (slot_id i) r, RemovalOut (slot_id i)]))"
  proof (cases "hd_sources h ! i")
    case None
    with assms at show ?thesis by (simp add: retire_slot_def slot_step_refl)
  next
    case (Some source)
    define h1 where "h1 = h\<lparr> hd_sources := (hd_sources h)[i := None], hd_tombstones := (hd_tombstones h)[i := Some (as_incarnation source)] \<rparr>"
    obtain r h2 where r: "release_report fl slot h1 = (r, h2)" by (metis surj_pair)
    have "session_shape h1" using assms(1) by (simp add: h1_def session_shape_def)
    note rel = release_report [OF this _ r]
    have eq: "out = [ReleaseOut (slot_id i) r, RemovalOut (slot_id i)]"
      "h' = h2\<lparr> hd_report_states := (hd_report_states h2)[i := Ds4ReportState_default] \<rparr>"
      using assms(2-4) Some at r by (simp_all add: retire_slot_def h1_def low_id_slot Let_def)
    have "slot_step i h out h'"
    proof (rule slot_stepI)
      show "session_shape h'" unfolding eq(2) using assms(2,3) rel(2) by (simp add: shape_report_state)
      show "hd_sources h' = (hd_sources h)[i := None]" "hd_tombstones h' = (hd_tombstones h)[i := Some (as_incarnation source)]"
        using assms(2,3) rel(3,4) by (simp_all add: eq(2) h1_def)
      show "\<exists>d'. run_steps device_step out d = Some d' \<and> device_of h' i d'" if "device_of h i d" for d
        using that assms(1-3) rel Some by (auto simp: device_of_def eq h1_def session_shape_def split: option.splits)
    qed (simp add: eq(1))
    moreover have "length r = DS4_REPORT_BYTES" using rel(1) assms(2,3) by (simp add: report_neutral_def DS4_REPORT_BYTES_def)
    ultimately show ?thesis using eq assms(1-3) rel(3,4) by (simp add: h1_def session_shape_def)
  qed
  then show "slot_step i h out h'" "out = [] \<and> h' = h \<and> hd_sources h ! i = None \<or> hd_tombstones h' ! i \<noteq> None"
    "hd_sources h' ! i = None" "out = [] \<or> (\<exists>r. length r = DS4_REPORT_BYTES \<and> out = [ReleaseOut (slot_id i) r, RemovalOut (slot_id i)])" by blast+
qed

text \<open>A well-formed inventory has every claim in the place of its slot.\<close>

definition inventory_ok :: "InventoryView \<Rightarrow> bool" where
  "inventory_ok inventory \<longleftrightarrow> (\<forall>slot claim. inventory_claim slot inventory = Some claim \<longrightarrow> dc_slot claim = slot)"

lemma reconcile_slot_step:
  assumes "session_shape h" and "inventory_ok inventory" and "unat slot = i" and "i < MAX_SOURCES" and "reconcile_slot fl inventory slot h = (out, h')"
  shows "slot_step i h out h'" and "out \<in> {[], [AttachOut (slot_id i)]} \<union> {[ReleaseOut (slot_id i) r, RemovalOut (slot_id i)] | r. length r = DS4_REPORT_BYTES}"
proof -
  obtain out1 h1 where r: "retire_slot fl slot h = (out1, h1)" by (metis surj_pair)
  note retired = retire_step [OF assms(1,3,4) r]
  have claim: "unat (dc_slot claim) = i" if "inventory_claim slot inventory = Some claim" for claim
    using assms(2,3) that by (auto simp: inventory_ok_def)
  consider "out = []" "h' = h" | "out = out1" "h' = h1"
    | claim attachment where "inventory_claim slot inventory = Some claim" "hd_sources h ! i = None" "admit claim h = ((attachment, out), h')"
    | claim attachment out2 where "inventory_claim slot inventory = Some claim" "hd_sources h ! i \<noteq> None" "admit claim h1 = ((attachment, out2), h')" "out = out1 @ out2"
    using assms(3,5) r by (fastforce simp: reconcile_slot_def split: option.splits if_splits prod.splits)
  then have "slot_step i h out h' \<and> out \<in> {[], [AttachOut (slot_id i)]} \<union> {[ReleaseOut (slot_id i) r, RemovalOut (slot_id i)] | r. length r = DS4_REPORT_BYTES}"
  proof cases
    case 1
    with assms(1) show ?thesis by (simp add: slot_step_refl)
  next
    case 2
    with retired show ?thesis by auto
  next
    case 3
    with admit_step [OF assms(1) claim assms(4)] show ?thesis by blast
  next
    case 4
    have "session_shape h1" using retired(1) by (simp add: slot_step_def)
    note admitted = admit_step [OF this claim [OF 4(1)] assms(4) retired(3) 4(3)]
    with retired(2) 4(2) have "out2 = []" by auto
    with slot_step_trans [OF retired(1) admitted(1)] 4(4) retired(4) show ?thesis by auto
  qed
  then show "slot_step i h out h'" "out \<in> {[], [AttachOut (slot_id i)]} \<union> {[ReleaseOut (slot_id i) r, RemovalOut (slot_id i)] | r. length r = DS4_REPORT_BYTES}" by blast+
qed

lemma for_slots_ok:
  assumes "devices_ok h log" and "\<And>i h out h'. i \<in> set slots \<Longrightarrow> session_shape h \<Longrightarrow> f (of_nat i) h = (out, h') \<Longrightarrow> slot_step i h out h'"
    and "set slots \<subseteq> {..<MAX_SOURCES}" and "for_slots f slots h = (out, h')"
  shows "devices_ok h' (log @ out)"
  using assms
proof (induction slots arbitrary: h log out h')
  case (Cons i slots)
  obtain out1 h1 where one: "f (of_nat i) h = (out1, h1)" by (metis surj_pair)
  obtain out2 h2 where rest: "for_slots f slots h1 = (out2, h2)" by (metis surj_pair)
  have "devices_ok h1 (log @ out1)"
    using slot_step_ok [OF Cons.prems(1), of i out1 h1] Cons.prems(1-3) one by (auto simp: devices_ok_def)
  from Cons.IH [OF this _ _ rest] Cons.prems(2,3) have "devices_ok h2 ((log @ out1) @ out2)" by simp
  with Cons.prems(4) one rest show ?case by simp
qed simp

lemma reconcile_ok:
  assumes "devices_ok h log" and "inventory_ok inventory" and "reconcile fl inventory h = (out, h')"
  shows "devices_ok h' (log @ out)"
proof (rule for_slots_ok [OF assms(1) _ _ assms(3) [unfolded reconcile_def]])
  show "slot_step i h out h'" if "i \<in> set [0..<MAX_SOURCES]" "session_shape h" "reconcile_slot fl inventory (of_nat i) h = (out, h')" for i h out h'
    using reconcile_slot_step(1) [OF that(2) assms(2) unat_slot _ that(3)] that(1) by simp
qed auto

lemma retire_all_ok:
  assumes "devices_ok h log" and "retire_all fl h = (out, h')"
  shows "devices_ok h' (log @ out)"
proof (rule for_slots_ok [OF assms(1) _ _ assms(2) [unfolded retire_all_def]])
  show "slot_step i h out h'" if "i \<in> set [0..<MAX_SOURCES]" "session_shape h" "retire_slot fl (of_nat i) h = (out, h')" for i h out h'
    using retire_step(1) [OF that(2) unat_slot _ that(3)] that(1) by simp
qed auto

text \<open>Reports, releases and observations of one slot.\<close>

lemma shape_fields: "session_shape (h\<lparr> hd_capability := c \<rparr>) = session_shape h" "device_of (h\<lparr> hd_capability := c \<rparr>) = device_of h"
  "device_of (h\<lparr> hd_report_states := states \<rparr>) = device_of h"
  by (simp_all add: session_shape_def device_of_def fun_eq_iff)

lemma set_server_mask_ok: "devices_ok h log \<Longrightarrow> devices_ok (set_server_mask server_mask h) log"
  by (simp add: devices_ok_def set_server_mask_def shape_fields)

lemma observe_ok:
  assumes "devices_ok h log"
  shows "devices_ok (observe_slot slot t h) log"
proof -
  have "state_ok (ds4_observe t (hd_report_states h ! unat slot))" if "unat slot < length (hd_report_states h)"
    using that assms by (auto simp: devices_ok_def session_shape_def state_ok_def ds4_observe_def)
  with assms show ?thesis by (simp add: devices_ok_def observe_slot_def shape_report_state shape_fields)
qed

lemma device_run_snoc:
  "device_run low_id (log @ [m]) = (if out_id m = low_id then Option.bind (device_run low_id log) (device_step m) else device_run low_id log)"
  by (cases "run_steps device_step (filter (\<lambda>out. out_id out = low_id) log) DeviceAbsent")
    (simp_all add: device_run_def run_steps_append split: option.split)

lemma report_ok:
  assumes "devices_ok h log" and "hd_sources h ! i \<noteq> None" and "i < MAX_SOURCES"
    and "session_shape h'" and "hd_sources h' = hd_sources h" and "hd_tombstones h' = hd_tombstones h"
  shows "devices_ok h' (log @ [ReportOut (slot_id i) r])" and "devices_ok h' (log @ [ReleaseOut (slot_id i) r])"
proof -
  have same: "device_of h' = device_of h" by (simp add: fun_eq_iff device_of_def assms(5,6))
  have live: "d = DeviceLive \<or> d = DeviceReleased" if "device_of h i d" for d
    using assms(2) that by (auto simp: device_of_def split: option.splits)
  then have stays: "device_of h i DeviceLive" "device_of h i DeviceReleased" if "device_of h i d" for d
    using assms(2) that by (auto simp: device_of_def split: option.splits)
  have "\<exists>d. device_run (slot_id j) (log @ [m]) = Some d \<and> device_of h' j d"
    if "j < MAX_SOURCES" and m: "m = ReportOut (slot_id i) r \<or> m = ReleaseOut (slot_id i) r" for j m
  proof -
    from that(1) assms(1) obtain d where d: "device_run (slot_id j) log = Some d" "device_of h j d" by (auto simp: devices_ok_def)
    show ?thesis
    proof (cases "j = i")
      case True
      with live stays d m show ?thesis by (auto simp: device_run_snoc same)
    next
      case False
      with slot_id_eq [of i j] that(1) assms(3) d m show ?thesis by (auto simp: device_run_snoc same)
    qed
  qed
  with assms(4) show "devices_ok h' (log @ [ReportOut (slot_id i) r])" "devices_ok h' (log @ [ReleaseOut (slot_id i) r])"
    by (simp_all add: devices_ok_def)
qed

lemma source_slot: "session_shape h \<Longrightarrow> source_at slot h \<noteq> None \<Longrightarrow> unat slot < MAX_SOURCES \<and> hd_sources h ! unat slot = source_at slot h"
  by (auto simp: source_at_def session_shape_def split: if_splits)

lemma build_report_ok:
  assumes "devices_ok h log" and "build_report fl snapshot h = (sent, h')"
  shows "devices_ok h' (log @ (case sent of None \<Rightarrow> [] | Some (low_id, r) \<Rightarrow> [ReportOut low_id r]))"
    and "sent = Some (low_id, r) \<Longrightarrow> low_id = slot_id (unat (ss_slot snapshot)) \<and> unat (ss_slot snapshot) < MAX_SOURCES \<and> length r = DS4_REPORT_BYTES"
proof -
  let ?i = "unat (ss_slot snapshot)"
  have shape: "session_shape h" using assms(1) by (simp add: devices_ok_def)
  consider "sent = None" "h' = h" | source where "source_at (ss_slot snapshot) h = Some source"
      "sent = Some (slot_id ?i, report_bytes fl snapshot (track_contacts snapshot (hd_report_states h ! ?i)))"
      "h' = h\<lparr> hd_report_states := (hd_report_states h)[?i := track_contacts snapshot (hd_report_states h ! ?i)] \<rparr>"
  proof (cases "source_at (ss_slot snapshot) h")
    case None
    with assms(2) have "sent = None" "h' = h" by (simp_all add: build_report_def)
    then show ?thesis by (rule that(1))
  next
    case (Some source)
    with source_slot [OF shape, of "ss_slot snapshot"] have "low_id_for_slot (ss_slot snapshot) = Some (slot_id ?i)" by (simp add: low_id_slot)
    with Some assms(2) show ?thesis by (auto intro: that simp: build_report_def ds4_build_def Let_def split: if_splits)
  qed
  then have "devices_ok h' (log @ (case sent of None \<Rightarrow> [] | Some (low_id, r) \<Rightarrow> [ReportOut low_id r]))
    \<and> (sent = Some (low_id, r) \<longrightarrow> low_id = slot_id ?i \<and> ?i < MAX_SOURCES \<and> length r = DS4_REPORT_BYTES)"
  proof cases
    case 1
    with assms(1) show ?thesis by simp
  next
    case 2
    with source_slot [OF shape, of "ss_slot snapshot"] have i: "?i < MAX_SOURCES" "hd_sources h ! ?i \<noteq> None" by simp_all
    have "state_ok (track_contacts snapshot (hd_report_states h ! ?i))" using track_contacts_ok(1) shape_state [OF shape i(1)] by blast
    then have "session_shape h'" unfolding 2(3) by (rule shape_report_state [OF shape])
    from report_ok(1) [OF assms(1) i(2,1) this] 2 i show ?thesis by auto
  qed
  then show "devices_ok h' (log @ (case sent of None \<Rightarrow> [] | Some (low_id, r) \<Rightarrow> [ReportOut low_id r]))"
    and "sent = Some (low_id, r) \<Longrightarrow> low_id = slot_id ?i \<and> ?i < MAX_SOURCES \<and> length r = DS4_REPORT_BYTES" by blast+
qed

lemma release_snapshot_ok:
  assumes "devices_ok h log" and "release_snapshot fl slot h = (sent, h')"
  shows "devices_ok h' (log @ (case sent of None \<Rightarrow> [] | Some (low_id, r) \<Rightarrow> [ReleaseOut low_id r]))"
    and "sent = Some (low_id, r) \<Longrightarrow> low_id = slot_id (unat slot) \<and> unat slot < MAX_SOURCES \<and> report_neutral r"
    and "sent = None \<longleftrightarrow> source_at slot h = None"
proof -
  have shape: "session_shape h" using assms(1) by (simp add: devices_ok_def)
  obtain bs h1 where r: "release_report fl slot h = (bs, h1)" by (metis surj_pair)
  consider "source_at slot h = None" "sent = None" "h' = h"
    | source where "source_at slot h = Some source" "sent = Some (slot_id (unat slot), bs)" "h' = h1"
  proof (cases "source_at slot h")
    case None
    with assms(2) have "sent = None" "h' = h" by (simp_all add: release_snapshot_def)
    with None show ?thesis by (rule that(1))
  next
    case (Some source)
    with source_slot [OF shape, of slot] have "low_id_for_slot slot = Some (slot_id (unat slot))" by (simp add: low_id_slot)
    with Some assms(2) r have "sent = Some (slot_id (unat slot), bs)" "h' = h1" by (simp_all add: release_snapshot_def)
    with Some show ?thesis by (rule that(2))
  qed
  then have "devices_ok h' (log @ (case sent of None \<Rightarrow> [] | Some (low_id, r) \<Rightarrow> [ReleaseOut low_id r]))
    \<and> (sent = Some (low_id, r) \<longrightarrow> low_id = slot_id (unat slot) \<and> unat slot < MAX_SOURCES \<and> report_neutral r)
    \<and> (sent = None \<longleftrightarrow> source_at slot h = None)"
  proof cases
    case 1
    with assms(1) show ?thesis by simp
  next
    case 2
    with source_slot [OF shape, of slot] have i: "unat slot < MAX_SOURCES" "hd_sources h ! unat slot \<noteq> None" by simp_all
    note rel = release_report [OF shape i(1) r]
    from report_ok(2) [OF assms(1) i(2,1)] rel 2 i show ?thesis by auto
  qed
  then show "devices_ok h' (log @ (case sent of None \<Rightarrow> [] | Some (low_id, r) \<Rightarrow> [ReleaseOut low_id r]))"
    and "sent = Some (low_id, r) \<Longrightarrow> low_id = slot_id (unat slot) \<and> unat slot < MAX_SOURCES \<and> report_neutral r"
    and "sent = None \<longleftrightarrow> source_at slot h = None" by blast+
qed

text \<open>The inventory of the mailbox is well-formed at every moment.\<close>

lemma place_claims_ok:
  assumes "inventory_ok inventory" and "length inventory = MAX_SOURCES" and "place_claims claims seen inventory = (outcome, inventory')"
  shows "inventory_ok inventory'" and "length inventory' = MAX_SOURCES"
proof -
  have "inventory_ok inventory' \<and> length inventory' = MAX_SOURCES"
    using assms
  proof (induction claims arbitrary: seen inventory)
    case (Cons claim claims)
    have step: "inventory_ok (inventory[unat (dc_slot claim) := Some claim])"
      unfolding inventory_ok_def
    proof (intro allI impI)
      fix slot c assume c: "inventory_claim slot (inventory[unat (dc_slot claim) := Some claim]) = Some c"
      show "dc_slot c = slot"
      proof (cases "slot = dc_slot claim")
        case True
        with c show ?thesis by (simp add: inventory_claim_def split: if_splits)
      next
        case False
        then have "unat (dc_slot claim) \<noteq> unat slot" by (metis word_unat_eq_iff)
        with c Cons.prems(1) show ?thesis by (simp add: inventory_claim_def inventory_ok_def split: if_splits)
      qed
    qed
    with Cons.prems Cons.IH [OF step, of "dc_incarnation claim # seen"] show ?case by (auto split: if_splits)
  qed simp
  then show "inventory_ok inventory'" "length inventory' = MAX_SOURCES" by auto
qed

lemma inventory_ok_default: "inventory_ok InventoryView_default" "length InventoryView_default = MAX_SOURCES"
  by (simp_all add: inventory_ok_def inventory_claim_def InventoryView_default_def)

lemma inventory_replace_ok:
  assumes "inventory_ok inventory" and "inventory_replace claims inventory = (outcome, inventory')"
  shows "inventory_ok inventory'"
proof -
  obtain o1 next1 where p: "place_claims (take MAX_SOURCES (List.map_filter id claims)) [] InventoryView_default = (o1, next1)" by (metis surj_pair)
  from place_claims_ok(1) [OF inventory_ok_default p] assms p show ?thesis
    by (auto simp: inventory_replace_def split: if_splits InventoryOutcome.splits)
qed

lemma hid_step_inventory:
  assumes "inventory_ok (hr_inventory r)"
  shows "inventory_ok (hr_inventory (hid_step size_of op r))"
proof (cases op)
  case (ReplaceInventory claims)
  obtain outcome inventory where i: "inventory_replace claims (hr_inventory r) = (outcome, inventory)" by (metis surj_pair)
  from inventory_replace_ok [OF assms i] assms ReplaceInventory i show ?thesis
    by (cases outcome) (simp_all add: replace_inventory_def Let_def forget_admission_def)
next
  case (SubmitSnapshot snapshot)
  with assms show ?thesis
    by (auto simp: submit_snapshot_with_def Let_def split: sum.split option.split SourceMode.split prod.split)
next
  case (Drain budget)
  with assms show ?thesis by (simp add: drain_runtime_def split: prod.split)
qed (use assms in \<open>simp_all add: next_incarnation_def open_endpoint_def close_endpoint_def bind_session_def unbind_session_def
    set_session_admission_def runtime_set_active_def reset_lanes_def forget_admission_def Let_def\<close>)

text \<open>One reconciliation sends a device either its attachment or its release and removal, so that sending the
  attachments last keeps the order of every device.\<close>

definition is_attach :: "HidOutbound \<Rightarrow> bool" where
  "is_attach m = (case m of AttachOut _ \<Rightarrow> True | _ \<Rightarrow> False)"

lemma is_attach_simps [simp]: "is_attach (AttachOut i)" "\<not> is_attach (ReportOut i r)" "\<not> is_attach (ReleaseOut i r)" "\<not> is_attach (RemovalOut i)"
  by (simp_all add: is_attach_def)

definition uniform :: "HidOutbound list \<Rightarrow> bool" where
  "uniform out \<longleftrightarrow> (\<forall>m\<in>set out. is_attach m) \<or> (\<forall>m\<in>set out. \<not> is_attach m)"

lemma for_slots_uniform:
  assumes "\<And>i h out h'. i \<in> set slots \<Longrightarrow> session_shape h \<Longrightarrow> f (of_nat i) h = (out, h') \<Longrightarrow> slot_step i h out h' \<and> uniform out"
    and "distinct slots" and "set slots \<subseteq> {..<MAX_SOURCES}" and "session_shape h" and "for_slots f slots h = (out, h')"
  shows "session_shape h'" and "(\<forall>m\<in>set out. \<exists>i\<in>set slots. out_id m = slot_id i) \<and> (\<forall>low_id. uniform (filter (\<lambda>m. out_id m = low_id) out))"
proof -
  have "session_shape h' \<and> (\<forall>m\<in>set out. \<exists>i\<in>set slots. out_id m = slot_id i) \<and> (\<forall>low_id. uniform (filter (\<lambda>m. out_id m = low_id) out))"
    using assms
  proof (induction slots arbitrary: h out h')
    case Nil
    then show ?case by (simp add: uniform_def)
  next
    case (Cons i slots)
    obtain out1 h1 where one: "f (of_nat i) h = (out1, h1)" by (metis surj_pair)
    obtain out2 h2 where rest: "for_slots f slots h1 = (out2, h2)" by (metis surj_pair)
    have out: "out = out1 @ out2" "h' = h2" using Cons.prems(5) one rest by auto
    have step: "slot_step i h out1 h1" "uniform out1" using Cons.prems(1,4) one by auto
    then have ids: "\<forall>m\<in>set out1. out_id m = slot_id i" and "session_shape h1" by (simp_all add: slot_step_def)
    have "slot_step j h out h' \<and> uniform out"
      if "j \<in> set slots" "session_shape h" "f (of_nat j) h = (out, h')" for j h out h' using Cons.prems(1) [OF _ that(2,3)] that(1) by simp
    note sub = this
    have "distinct slots" "set slots \<subseteq> {..<MAX_SOURCES}" using Cons.prems(2,3) by simp_all
    note all = Cons.IH [OF sub this \<open>session_shape h1\<close> rest]
    then have IH: "session_shape h2" "\<forall>m\<in>set out2. \<exists>j\<in>set slots. out_id m = slot_id j"
      "\<And>low_id. uniform (filter (\<lambda>m. out_id m = low_id) out2)" by blast+
    have "uniform (filter (\<lambda>m. out_id m = low_id) out)" for low_id
    proof (cases "low_id = slot_id i")
      case True
      have "out_id m \<noteq> low_id" if m: "m \<in> set out2" for m
      proof -
        from IH(2) m obtain j where "j \<in> set slots" "out_id m = slot_id j" by blast
        with Cons.prems(2,3) True show ?thesis using slot_id_eq [of i j] by auto
      qed
      then have "filter (\<lambda>m. out_id m = low_id) out2 = []" by (simp add: filter_empty_conv)
      with step(2) show ?thesis by (auto simp: out(1) uniform_def)
    next
      case False
      with ids have "filter (\<lambda>m. out_id m = low_id) out1 = []" by (auto simp: filter_empty_conv)
      with IH(3) show ?thesis by (simp add: out(1))
    qed
    with IH ids show ?case by (auto simp: out)
  qed
  then show "session_shape h'" "(\<forall>m\<in>set out. \<exists>i\<in>set slots. out_id m = slot_id i) \<and> (\<forall>low_id. uniform (filter (\<lambda>m. out_id m = low_id) out))" by blast+
qed

text \<open>What a reconciliation or a retirement asks for can be put on the wire.\<close>

definition sendable :: "HidOutbound \<Rightarrow> bool" where
  "sendable m \<longleftrightarrow> out_id m \<in> slot_id ` {..<MAX_SOURCES}
     \<and> (case m of ReportOut _ _ \<Rightarrow> False | ReleaseOut _ r \<Rightarrow> length r = DS4_REPORT_BYTES | _ \<Rightarrow> True)"

lemma for_slots_sendable:
  assumes "\<And>i h out h'. i \<in> set slots \<Longrightarrow> session_shape h \<Longrightarrow> f (of_nat i) h = (out, h') \<Longrightarrow> session_shape h' \<and> (\<forall>m\<in>set out. sendable m)"
    and "session_shape h" and "for_slots f slots h = (out, h')"
  shows "\<forall>m\<in>set out. sendable m"
  using assms
proof (induction slots arbitrary: h out h')
  case (Cons i slots)
  obtain out1 h1 where one: "f (of_nat i) h = (out1, h1)" by (metis surj_pair)
  obtain out2 h2 where rest: "for_slots f slots h1 = (out2, h2)" by (metis surj_pair)
  have "session_shape h1 \<and> (\<forall>m\<in>set out1. sendable m)" using Cons.prems(1) [OF _ Cons.prems(2) one] by simp
  moreover have "\<forall>m\<in>set out2. sendable m" if "session_shape h1"
    by (rule Cons.IH [OF Cons.prems(1) that rest]) simp_all
  ultimately show ?case using Cons.prems(3) one rest by auto
qed simp

lemma retire_all_sendable:
  assumes "session_shape h" and "retire_all fl h = (out, h')"
  shows "\<forall>m\<in>set out. sendable m"
proof (rule for_slots_sendable [OF _ assms(1) assms(2) [unfolded retire_all_def]])
  show "session_shape h' \<and> (\<forall>m\<in>set out. sendable m)"
    if "i \<in> set [0..<MAX_SOURCES]" "session_shape h" "retire_slot fl (of_nat i) h = (out, h')" for i h out h'
    using retire_step(1,4) [OF that(2) unat_slot _ that(3)] that(1) by (auto simp: slot_step_def sendable_def)
qed

lemma for_slots_all:
  assumes "\<And>slot h. \<forall>m\<in>set (fst (f slot h)). P m"
  shows "\<forall>m\<in>set (fst (for_slots f slots h)). P m"
proof (induction slots arbitrary: h)
  case (Cons i slots)
  obtain out1 h1 where one: "f (of_nat i) h = (out1, h1)" by (metis surj_pair)
  obtain out2 h2 where rest: "for_slots f slots h1 = (out2, h2)" by (metis surj_pair)
  have "\<forall>m\<in>set out1. P m" using assms [of "of_nat i" h] one by simp
  with Cons.IH [of h1] one rest show ?case by auto
qed simp

lemma retire_all_no_attach: "retire_all fl h = (out, h') \<Longrightarrow> \<forall>m\<in>set out. \<not> is_attach m"
proof -
  have "\<forall>m\<in>set (fst (retire_slot fl slot h)). \<not> is_attach m" for slot h
    by (auto simp: retire_slot_def Let_def split: option.splits prod.splits)
  from for_slots_all [of "retire_slot fl" "\<lambda>m. \<not> is_attach m", OF this, of "[0..<MAX_SOURCES]" h]
  show "\<forall>m\<in>set out. \<not> is_attach m" if "retire_all fl h = (out, h')" using that by (simp add: retire_all_def)
qed

lemma reconcile_sendable:
  assumes "session_shape h" and "inventory_ok inventory" and "reconcile fl inventory h = (out, h')"
  shows "\<forall>m\<in>set out. sendable m"
proof (rule for_slots_sendable [OF _ assms(1) assms(3) [unfolded reconcile_def]])
  show "session_shape h' \<and> (\<forall>m\<in>set out. sendable m)"
    if "i \<in> set [0..<MAX_SOURCES]" "session_shape h" "reconcile_slot fl inventory (of_nat i) h = (out, h')" for i h out h'
    using reconcile_slot_step [OF that(2) assms(2) unat_slot _ that(3)] that(1) by (auto simp: slot_step_def sendable_def)
qed

lemma uniform_split: "uniform out \<Longrightarrow> filter (\<lambda>m. \<not> is_attach m) out @ filter is_attach out = out"
  by (auto simp: uniform_def filter_empty_conv)

lemma devices_ok_cong:
  assumes "devices_ok h (log @ out)" and "\<And>low_id. filter (\<lambda>m. out_id m = low_id) out' = filter (\<lambda>m. out_id m = low_id) out"
  shows "devices_ok h (log @ out')"
  using assms by (simp add: devices_ok_def device_run_def)

lemma reconcile_sent:
  assumes "devices_ok h log" and "inventory_ok inventory" and "reconcile fl inventory h = (out, h')"
  shows "devices_ok h' (log @ filter (\<lambda>m. \<not> is_attach m) out @ filter is_attach out)"
proof (rule devices_ok_cong [OF reconcile_ok [OF assms]])
  have "uniform (filter (\<lambda>m. out_id m = low_id) out)" for low_id
  proof -
    have shape: "session_shape h" using assms(1) by (simp add: devices_ok_def)
    have slot: "slot_step i h out h' \<and> uniform out"
      if "i \<in> set [0..<MAX_SOURCES]" "session_shape h" "reconcile_slot fl inventory (of_nat i) h = (out, h')" for i h out h'
      using reconcile_slot_step [OF that(2) assms(2) unat_slot _ that(3)] that(1) by (auto simp: uniform_def)
    have "set [0..<MAX_SOURCES] \<subseteq> {..<MAX_SOURCES}" by auto
    from for_slots_uniform(2) [OF slot distinct_upt this shape assms(3) [unfolded reconcile_def]] show ?thesis by blast
  qed
  note split = uniform_split [OF this]
  have comm: "filter P (filter Q xs) = filter Q (filter P xs)" for P Q and xs :: "HidOutbound list" by (induction xs) simp_all
  show "filter (\<lambda>m. out_id m = low_id) (filter (\<lambda>m. \<not> is_attach m) out @ filter is_attach out) = filter (\<lambda>m. out_id m = low_id) out" for low_id
    unfolding filter_append comm [where P = "\<lambda>m. out_id m = low_id"] by (rule split)
qed

end
