(* ===== verification/HidPump.thy ===== *)
theory HidPump
  imports HidDevices InputChannels
begin

text \<open>
  The Sony devices on the wire (\<open>nvst_input.rs\<close> and \<open>nvst.rs\<close>): the commands that attach and
  remove a device and carry its reports, the output reports that come back, the pump that brings the mailbox and the devices
  of the stream together once per iteration of the bundle loop, and the shutdown.
\<close>

section \<open>Commands\<close>

definition RI_TYPE_DEVICE_CHANGE :: u32 where "RI_TYPE_DEVICE_CHANGE = 0x12"
definition RI_TYPE_HID_REPORT :: u32 where "RI_TYPE_HID_REPORT = 0x11"
definition HID_REPORT_MARKER :: u8 where "HID_REPORT_MARKER = 0x22"
definition SONY_DEVICE_CHANGE_FLAGS :: u32 where "SONY_DEVICE_CHANGE_FLAGS = 1"

datatype SonyDeviceControl = AttachControl | RemovalControl

definition device_control_code :: "SonyDeviceControl \<Rightarrow> u8" where
  "device_control_code control = (case control of AttachControl \<Rightarrow> 1 | RemovalControl \<Rightarrow> 3)"

definition sony_low_id_in_range :: "u8 \<Rightarrow> bool" where
  "sony_low_id_in_range low_id \<longleftrightarrow> DS4_LOW_ID_BASE \<le> low_id \<and> unat (low_id - DS4_LOW_ID_BASE) < MAX_SOURCES"

definition sony_device_change_command :: "SonyDeviceControl \<Rightarrow> u8 \<Rightarrow> bytes option" where
  "sony_device_change_command control low_id =
     (if \<not> sony_low_id_in_range low_id then None
      else Some (control_command COMMAND_REMOTE_INPUT (remote_input_packet RI_TYPE_DEVICE_CHANGE
             ([low_id, device_control_code control] @ be32 SONY_DEVICE_CHANGE_FLAGS @ be16 0 @ be16 0 @ be16 0 @ be16 0))))"

definition sony_report_command :: "u8 \<Rightarrow> bytes \<Rightarrow> bytes option" where
  "sony_report_command low_id bs =
     (if \<not> sony_low_id_in_range low_id then None
      else Some (control_command COMMAND_GAMEPAD
             ([HID_REPORT_MARKER] @ le32 RI_TYPE_HID_REPORT @ [low_id, DS4_INTERFACE, 0] @ bs)))"

definition parse_sony_output :: "bytes \<Rightarrow> (u8 \<times> bytes) option" where
  "parse_sony_output payload =
     (if length payload < 13 then None
      else if from_le32 (payload ! 0) (payload ! 1) (payload ! 2) (payload ! 3) \<noteq> RI_TYPE_HID_REPORT then None
      else if \<not> sony_low_id_in_range (payload ! 4) then None
      else Some (payload ! 4, drop 7 payload))"

text \<open>\<open>for_each_sony_output\<close>: the calls of the handler, in order.\<close>

function for_each_sony_output :: "bytes \<Rightarrow> (u8 \<times> bytes) list" where
  "for_each_sony_output bs = (case bs of
     c0 # c1 # l0 # l1 # rest \<Rightarrow>
       let code = from_le16 c0 c1; n = unat (from_le16 l0 l1)
       in if length rest < n then []
          else (if code \<noteq> COMMAND_REMOTE_INPUT then []
                else case parse_sony_output (take n rest) of None \<Rightarrow> [] | Some output \<Rightarrow> [output])
               @ for_each_sony_output (drop n rest)
   | _ \<Rightarrow> [])"
  by pat_completeness auto
termination by (relation "measure length") auto

declare for_each_sony_output.simps [simp del]

section \<open>The pump\<close>

record 'r hid_loop =
  hl_runtime :: HidRuntime
  hl_session :: HidSession
  hl_codec :: NvstInputCodec
  hl_published :: u16
  hl_rtc :: 'r

text \<open>\<open>if let Some(command) = command && !send(command)\<close>: whether the loop goes on.\<close>

definition send_command :: "(bytes \<Rightarrow> 'r \<Rightarrow> bool \<times> 'r) \<Rightarrow> bytes option \<Rightarrow> 'r \<Rightarrow> bool \<times> 'r" where
  "send_command send command r = (case command of None \<Rightarrow> (True, r) | Some bs \<Rightarrow> send bs r)"

text \<open>The loop over what the reconciliation asks for: releases and removals are sent, attachments are kept for later.\<close>

fun send_retirements :: "'r rtc \<Rightarrow> NvstInputChannels \<Rightarrow> HidOutbound list \<Rightarrow> u8 list \<Rightarrow> 'r \<Rightarrow> (bool \<times> u8 list) \<times> 'r" where
  "send_retirements ops channels [] attaches r = ((True, attaches), r)"
| "send_retirements ops channels (item # items) attaches r =
     (case item of
        ReleaseOut low_id bs \<Rightarrow>
          (case send_command (send_control_teardown ops channels) (sony_report_command low_id bs) r of
             (True, r) \<Rightarrow> send_retirements ops channels items attaches r
           | (False, r) \<Rightarrow> ((False, attaches), r))
      | RemovalOut low_id \<Rightarrow>
          (case send_command (send_control_teardown ops channels) (sony_device_change_command RemovalControl low_id) r of
             (True, r) \<Rightarrow> send_retirements ops channels items attaches r
           | (False, r) \<Rightarrow> ((False, attaches), r))
      | AttachOut low_id \<Rightarrow> send_retirements ops channels items (attaches @ [low_id]) r
      | ReportOut _ _ \<Rightarrow> send_retirements ops channels items attaches r)"

definition pump_release :: "'f float_ops \<Rightarrow> 'r rtc \<Rightarrow> NvstInputChannels \<Rightarrow> u8 \<Rightarrow> u64 \<Rightarrow> HidSession \<Rightarrow> 'r \<Rightarrow> bool \<times> HidSession \<times> 'r" where
  "pump_release fl ops channels slot observed_at_us session r =
     (case release_snapshot fl slot (observe_slot slot observed_at_us session) of
        (None, session) \<Rightarrow> (True, session, r)
      | (Some (low_id, bs), session) \<Rightarrow>
          (case send_command (send_control_teardown ops channels) (sony_report_command low_id bs) r of (ok, r) \<Rightarrow> (ok, session, r)))"

definition pump_item :: "'f float_ops \<Rightarrow> 'r rtc \<Rightarrow> NvstInputChannels \<Rightarrow> IngressItem \<Rightarrow> HidSession \<Rightarrow> 'r \<Rightarrow> bool \<times> HidSession \<times> 'r" where
  "pump_item fl ops channels item session r =
     (case item of
        SnapshotItem snapshot \<Rightarrow>
          (case build_report fl snapshot session of
             (None, session) \<Rightarrow> (True, session, r)
           | (Some (low_id, bs), session) \<Rightarrow>
               (case send_command (send_control ops channels) (sony_report_command low_id bs) r of (ok, r) \<Rightarrow> (ok, session, r)))
      | ReleaseItem slot _ observed_at_us \<Rightarrow> pump_release fl ops channels slot observed_at_us session r
      | FaultItem slot _ observed_at_us \<Rightarrow> pump_release fl ops channels slot observed_at_us session r)"

text \<open>The loop goes through all items, also after one could not be sent.\<close>

fun pump_items :: "'f float_ops \<Rightarrow> 'r rtc \<Rightarrow> NvstInputChannels \<Rightarrow> IngressItem list \<Rightarrow> HidSession \<Rightarrow> 'r \<Rightarrow> bool \<times> HidSession \<times> 'r" where
  "pump_items fl ops channels [] session r = (True, session, r)"
| "pump_items fl ops channels (item # items) session r =
     (case pump_item fl ops channels item session r of (ok, session, r) \<Rightarrow>
        (case pump_items fl ops channels items session r of (published, session, r) \<Rightarrow> (ok \<and> published, session, r)))"

text \<open>Every call on the runtime takes its lock on its own: \<open>others\<close> is what other threads do to it before the
  inventory is read, before the admission is set and before the mailbox is drained.\<close>

definition pump_drain ::
  "'f float_ops \<Rightarrow> 'r rtc \<Rightarrow> NvstInputChannels \<Rightarrow> nat \<Rightarrow> hid_op list \<Rightarrow> 'r hid_loop \<Rightarrow> bool \<times> 'r hid_loop" where
  "pump_drain fl ops channels size_of others s =
     (case drain_runtime size_of DRAIN_PER_ITERATION (fold (hid_step size_of) others (hl_runtime s)) of
        (items, runtime) \<Rightarrow>
          (case pump_items fl ops channels items (hl_session s) (hl_rtc s) of
             (published, session, r) \<Rightarrow> (published, s\<lparr> hl_runtime := runtime, hl_session := session, hl_rtc := r \<rparr>)))"

definition pump_topology :: "'r rtc \<Rightarrow> NvstInputChannels \<Rightarrow> u16 \<Rightarrow> u64 \<Rightarrow> 'r hid_loop \<Rightarrow> bool \<times> 'r hid_loop" where
  "pump_topology ops channels slots timestamp_us s =
     (if slots = hl_published s then (True, s)
      else case set_rich_slot_mask slots timestamp_us (hl_codec s) of
             (retirement, codec) \<Rightarrow>
               (case all_sent (send_encoded ops channels) retirement (hl_rtc s) of
                  (ok, r) \<Rightarrow> (ok, s\<lparr> hl_codec := codec, hl_rtc := r, hl_published := (if ok then slots else hl_published s) \<rparr>)))"

definition pump_attaches :: "'r rtc \<Rightarrow> NvstInputChannels \<Rightarrow> u8 list \<Rightarrow> 'r hid_loop \<Rightarrow> bool \<times> 'r hid_loop" where
  "pump_attaches ops channels attaches s =
     (case all_sent (\<lambda>low_id. send_command (send_control ops channels) (sony_device_change_command AttachControl low_id)) attaches (hl_rtc s) of
        (ok, r) \<Rightarrow> (ok, s\<lparr> hl_rtc := r \<rparr>))"

definition pump_hid_pending ::
  "'f float_ops \<Rightarrow> 'r rtc \<Rightarrow> NvstInputChannels \<Rightarrow> nat \<Rightarrow> u64 \<Rightarrow> hid_op list \<times> hid_op list \<times> hid_op list \<Rightarrow> 'r hid_loop \<Rightarrow> bool \<times> 'r hid_loop" where
  "pump_hid_pending fl ops channels size_of timestamp_us others s =
     (if hr_binding (hl_runtime s) = None then (True, s)
      else let (before_inventory, before_admission, before_drain) = others;
               runtime = fold (hid_step size_of) before_inventory (hl_runtime s);
               (inventory, inventory_epoch) = inventory_snapshot runtime;
               (outbound, session) = reconcile fl inventory (hl_session s)
           in case send_retirements ops channels outbound [] (hl_rtc s) of
                ((False, _), r) \<Rightarrow> (False, s\<lparr> hl_runtime := runtime, hl_session := session, hl_rtc := r \<rparr>)
              | ((True, attaches), r) \<Rightarrow>
                  let slots = rich_slot_mask session;
                      runtime = snd (set_session_admission slots inventory_epoch (fold (hid_step size_of) before_admission runtime))
                  in case pump_topology ops channels slots timestamp_us (s\<lparr> hl_runtime := runtime, hl_session := session, hl_rtc := r \<rparr>) of
                       (False, s) \<Rightarrow> (False, s)
                     | (True, s) \<Rightarrow>
                         (case pump_attaches ops channels attaches s of
                            (False, s) \<Rightarrow> (False, s)
                          | (True, s) \<Rightarrow> pump_drain fl ops channels size_of before_drain s))"

text \<open>\<open>queue_hid_shutdown\<close> and the same loop after the bundle loop: the answers are ignored.\<close>

definition shutdown_command :: "HidOutbound \<Rightarrow> bytes option" where
  "shutdown_command m = (case m of
     ReleaseOut low_id bs \<Rightarrow> sony_report_command low_id bs
   | RemovalOut low_id \<Rightarrow> sony_device_change_command RemovalControl low_id
   | _ \<Rightarrow> None)"

definition queue_hid_shutdown :: "'f float_ops \<Rightarrow> 'r rtc \<Rightarrow> NvstInputChannels \<Rightarrow> HidSession \<Rightarrow> 'r \<Rightarrow> HidSession \<times> 'r" where
  "queue_hid_shutdown fl ops channels session r =
     (case retire_all fl session of (outbound, session) \<Rightarrow>
        (session, fold (\<lambda>m r. snd (send_command (send_control_teardown ops channels) (shutdown_command m) r)) outbound r))"

section \<open>Reading the wire\<close>

text \<open>A reference reader of the Sony commands on the reliable control channel. A release is a report like any other.\<close>

definition read_device_change :: "bytes \<Rightarrow> HidOutbound option" where
  "read_device_change payload =
     (if length payload = 22 \<and> from_le32 (payload ! 4) (payload ! 5) (payload ! 6) (payload ! 7) = 0x12
      then if payload ! 9 = 1 then Some (AttachOut (payload ! 8)) else if payload ! 9 = 3 then Some (RemovalOut (payload ! 8)) else None
      else None)"

definition read_sony_report :: "bytes \<Rightarrow> HidOutbound option" where
  "read_sony_report payload =
     (if 8 \<le> length payload \<and> payload ! 0 = 0x22 \<and> from_le32 (payload ! 1) (payload ! 2) (payload ! 3) (payload ! 4) = 0x11
      then Some (ReportOut (payload ! 5) (drop 8 payload)) else None)"

definition read_sony :: "bytes \<Rightarrow> HidOutbound option" where
  "read_sony bs = (case decode_command bs of
     Some (command, []) \<Rightarrow>
       if cc_code command = COMMAND_REMOTE_INPUT then read_device_change (cc_payload command)
       else if cc_code command = COMMAND_GAMEPAD then read_sony_report (cc_payload command) else None
   | _ \<Rightarrow> None)"

text \<open>A stack that remembers what it took, and the Sony commands among it.\<close>

definition logged :: "'r rtc \<Rightarrow> ('r \<times> (channel_id \<times> bytes) list) rtc" where
  "logged ops = \<lparr> rtc_channel = (\<lambda>i (r, log). rtc_channel ops i r), rtc_buffered_amount = (\<lambda>i (r, log). rtc_buffered_amount ops i r),
     rtc_write = (\<lambda>i bs (r, log). case rtc_write ops i bs r of (ok, r) \<Rightarrow> (ok, r, if ok then log @ [(i, bs)] else log)) \<rparr>"

definition sony_log :: "NvstInputChannels \<Rightarrow> (channel_id \<times> bytes) list \<Rightarrow> HidOutbound list" where
  "sony_log channels log = concat (map (\<lambda>(i, bs). if i = ch_control_reliable channels
     then case read_sony bs of None \<Rightarrow> [] | Some m \<Rightarrow> [m] else []) log)"

fun as_read :: "HidOutbound \<Rightarrow> HidOutbound" where
  "as_read (ReleaseOut low_id bs) = ReportOut low_id bs"
| "as_read m = m"

lemma slot_id_range: "i < MAX_SOURCES \<Longrightarrow> sony_low_id_in_range (slot_id i)"
  by (auto simp: sony_low_id_in_range_def slot_id_def MAX_SOURCES_def DS4_LOW_ID_BASE_def word_le_nat_alt unat_word_ariths unat_of_nat)

lemma read_sony_report:
  assumes "length bs = DS4_REPORT_BYTES" and "sony_report_command low_id bs = Some c"
  shows "read_sony c = Some (ReportOut low_id bs)"
proof -
  let ?p = "[HID_REPORT_MARKER] @ le32 RI_TYPE_HID_REPORT @ [low_id, DS4_INTERFACE, 0] @ bs"
  have c: "c = control_command COMMAND_GAMEPAD ?p" using assms(2) by (simp add: sony_report_command_def split: if_splits)
  have "length ?p \<le> u16_max" using assms(1) by (simp add: DS4_REPORT_BYTES_def)
  from decode_control_command [OF this, of COMMAND_GAMEPAD "[]"] show ?thesis
    by (simp add: c read_sony_def command_codes read_sony_report_def HID_REPORT_MARKER_def le32_def RI_TYPE_HID_REPORT_def from_le32_def from_be32_def)
qed

lemma read_device_change:
  assumes "sony_device_change_command control low_id = Some c"
  shows "read_sony c = Some (case control of AttachControl \<Rightarrow> AttachOut low_id | RemovalControl \<Rightarrow> RemovalOut low_id)"
proof -
  let ?p = "remote_input_packet RI_TYPE_DEVICE_CHANGE
    ([low_id, device_control_code control] @ be32 SONY_DEVICE_CHANGE_FLAGS @ be16 0 @ be16 0 @ be16 0 @ be16 0)"
  have c: "c = control_command COMMAND_REMOTE_INPUT ?p" using assms by (simp add: sony_device_change_command_def split: if_splits)
  from decode_control_command [of ?p COMMAND_REMOTE_INPUT "[]"] show ?thesis
    by (simp add: c read_sony_def read_device_change_def remote_input_packet_def le32_def be32_def be16_def RI_TYPE_DEVICE_CHANGE_def
        from_le32_def from_be32_def device_control_code_def split: SonyDeviceControl.split)
qed

lemma sony_log_append [simp]: "sony_log channels (xs @ ys) = sony_log channels xs @ sony_log channels ys"
  by (simp add: sony_log_def)

lemma logged_write:
  assumes "channels_write (logged ops) channels i bs cls (r, log) = (ok, rl)"
  shows "\<exists>r'. rl = (r', log @ (if ok then [(i, bs)] else []))"
  using assms by (auto simp: channels_write_def logged_def split: if_splits prod.splits)

lemma logged_read:
  assumes "channels_write (logged ops) channels (ch_control_reliable channels) bs cls rl = (ok, rl')" and "read_sony bs = Some m"
  shows "sony_log channels (snd rl') = sony_log channels (snd rl) @ (if ok then [m] else [])"
proof -
  obtain r log where rl: "rl = (r, log)" by (metis surj_pair)
  from logged_write [OF assms(1) [unfolded rl]] obtain r' where "rl' = (r', log @ (if ok then [(ch_control_reliable channels, bs)] else []))" by blast
  with assms(2) rl show ?thesis by (simp add: sony_log_def)
qed

lemma logged_other:
  assumes "channels_write (logged ops) channels i bs cls rl = (ok, rl')" and "read_sony bs = None"
  shows "sony_log channels (snd rl') = sony_log channels (snd rl)"
proof -
  obtain r log where rl: "rl = (r, log)" by (metis surj_pair)
  from logged_write [OF assms(1) [unfolded rl]] obtain r' where "rl' = (r', log @ (if ok then [(i, bs)] else []))" by blast
  with assms(2) rl show ?thesis by (simp add: sony_log_def)
qed

lemmas sends = send_control_def send_control_teardown_def

lemma send_report:
  assumes "send_command (send (logged ops) channels) (sony_report_command (slot_id i) bs) rl = (ok, rl')"
    and "send = send_control \<or> send = send_control_teardown" and "i < MAX_SOURCES" and "length bs = DS4_REPORT_BYTES"
  shows "sony_log channels (snd rl') = sony_log channels (snd rl) @ (if ok then [ReportOut (slot_id i) bs] else [])"
proof -
  obtain c where c: "sony_report_command (slot_id i) bs = Some c" using slot_id_range [OF assms(3)] by (simp add: sony_report_command_def)
  from read_sony_report [OF assms(4) c] assms(1,2) c logged_read [of ops channels c _ rl ok rl'] show ?thesis
    by (auto simp: send_command_def sends)
qed

lemma send_device_change:
  assumes "send_command (send (logged ops) channels) (sony_device_change_command control (slot_id i)) rl = (ok, rl')"
    and "send = send_control \<or> send = send_control_teardown" and "i < MAX_SOURCES"
  shows "sony_log channels (snd rl') = sony_log channels (snd rl)
    @ (if ok then [case control of AttachControl \<Rightarrow> AttachOut (slot_id i) | RemovalControl \<Rightarrow> RemovalOut (slot_id i)] else [])"
proof -
  obtain c where c: "sony_device_change_command control (slot_id i) = Some c" using slot_id_range [OF assms(3)] by (simp add: sony_device_change_command_def)
  from read_device_change [OF c] assms(1,2) c logged_read [of ops channels c _ rl ok rl'] show ?thesis
    by (auto simp: send_command_def sends)
qed

text \<open>The reader sees every message that follows the protocol as one.\<close>

lemma as_read_same [simp]: "out_id (as_read m) = out_id m" "device_step (as_read m) = device_step m"
  by (cases m; simp add: fun_eq_iff)+

lemma run_as_read: "run_steps device_step (map as_read log) d = run_steps device_step log d"
  by (induction log arbitrary: d) (simp_all split: option.split)

lemma devices_ok_as_read: "devices_ok h (map as_read log) = devices_ok h log"
proof -
  have "filter (\<lambda>m. out_id m = low_id) (map as_read log) = map as_read (filter (\<lambda>m. out_id m = low_id) log)" for low_id
    by (simp add: filter_map comp_def)
  then show ?thesis by (simp add: devices_ok_def device_run_def run_as_read)
qed

lemma as_read_idem [simp]: "as_read (as_read m) = as_read m"
  by (cases m) simp_all

lemma read_sony_as_read: "read_sony bs = Some m \<Longrightarrow> as_read m = m"
  by (auto simp: read_sony_def read_device_change_def read_sony_report_def split: option.splits list.splits if_splits prod.splits)

lemma sony_log_as_read: "map as_read (sony_log channels log) = sony_log channels log"
  by (induction log) (auto simp: sony_log_def read_sony_as_read split: option.split)

lemma log_extends:
  assumes "devices_ok h (sony_log channels log @ out)" and "sony_log channels log' = sony_log channels log @ map as_read out"
  shows "devices_ok h (sony_log channels log')"
  using assms devices_ok_as_read [of h "sony_log channels log @ out"] by (simp add: sony_log_as_read)

lemma sendable_id: "sendable m \<Longrightarrow> \<exists>i<MAX_SOURCES. out_id m = slot_id i"
  by (auto simp: sendable_def)

lemma send_retirements_log:
  assumes "send_retirements (logged ops) channels items attaches rl = ((True, attaches'), rl')" and "\<forall>m\<in>set items. sendable m"
  shows "attaches' = attaches @ map out_id (filter is_attach items)
    \<and> sony_log channels (snd rl') = sony_log channels (snd rl) @ map as_read (filter (\<lambda>m. \<not> is_attach m) items)"
  using assms
proof (induction items arbitrary: attaches rl)
  case (Cons m items)
  obtain i where i: "i < MAX_SOURCES" "out_id m = slot_id i" using sendable_id Cons.prems(2) by auto
  show ?case
  proof (cases m)
    case (AttachOut low_id)
    with Cons.IH [of "attaches @ [low_id]" rl] Cons.prems show ?thesis by simp
  next
    case (ReportOut low_id r)
    with Cons.prems(2) show ?thesis by (simp add: sendable_def)
  next
    case (ReleaseOut low_id r)
    obtain ok rl1 where s: "send_command (send_control_teardown (logged ops) channels) (sony_report_command low_id r) rl = (ok, rl1)" by (metis surj_pair)
    with Cons.prems(1) ReleaseOut have ok: "ok" "send_retirements (logged ops) channels items attaches rl1 = ((True, attaches'), rl')"
      by (auto split: bool.splits)
    have "length r = DS4_REPORT_BYTES" using Cons.prems(2) ReleaseOut by (simp add: sendable_def)
    with send_report [OF _ _ i(1), of send_control_teardown ops channels r rl ok rl1] s i(2) ok(1) ReleaseOut
    have "sony_log channels (snd rl1) = sony_log channels (snd rl) @ [as_read m]" by simp
    with Cons.IH [OF ok(2)] Cons.prems(2) ReleaseOut show ?thesis by simp
  next
    case (RemovalOut low_id)
    obtain ok rl1 where s: "send_command (send_control_teardown (logged ops) channels) (sony_device_change_command RemovalControl low_id) rl = (ok, rl1)"
      by (metis surj_pair)
    with Cons.prems(1) RemovalOut have ok: "ok" "send_retirements (logged ops) channels items attaches rl1 = ((True, attaches'), rl')"
      by (auto split: bool.splits)
    from send_device_change [OF _ _ i(1), of send_control_teardown ops channels RemovalControl rl ok rl1] s i(2) ok(1) RemovalOut
    have "sony_log channels (snd rl1) = sony_log channels (snd rl) @ [as_read m]" by simp
    with Cons.IH [OF ok(2)] Cons.prems(2) RemovalOut show ?thesis by simp
  qed
qed simp

lemma send_attaches_log:
  assumes "all_sent (\<lambda>low_id. send_command (send_control (logged ops) channels) (sony_device_change_command AttachControl low_id)) attaches rl
      = (True, rl')" and "set attaches \<subseteq> slot_id ` {..<MAX_SOURCES}"
  shows "sony_log channels (snd rl') = sony_log channels (snd rl) @ map AttachOut attaches"
  using assms
proof (induction attaches arbitrary: rl)
  case (Cons low_id attaches)
  from Cons.prems(2) obtain i where i: "i < MAX_SOURCES" "low_id = slot_id i" by auto
  obtain ok rl1 where s: "send_command (send_control (logged ops) channels) (sony_device_change_command AttachControl low_id) rl = (ok, rl1)" by (metis surj_pair)
  with Cons.prems(1) have ok: "ok" "all_sent (\<lambda>low_id. send_command (send_control (logged ops) channels) (sony_device_change_command AttachControl low_id)) attaches rl1 = (True, rl')"
    by (auto split: bool.splits)
  from send_device_change [OF _ _ i(1), of send_control ops channels AttachControl rl ok rl1] s i(2) ok(1)
  have "sony_log channels (snd rl1) = sony_log channels (snd rl) @ [AttachOut low_id]" by simp
  with Cons.IH [OF ok(2)] Cons.prems(2) show ?case by simp
qed simp

text \<open>The messages about ordinary game pads are not Sony commands.\<close>

lemma retirement_not_sony:
  assumes "codec_ok codec" and "set_rich_slot_mask new_mask timestamp codec = (ms, codec')" and "m \<in> set ms"
  shows "read_sony (ei_bytes m) = None"
proof -
  have release: "\<exists>p. ei_bytes (release_message c previous timestamp slot) = control_command COMMAND_GAMEPAD (0x23 # p)" for c previous slot
    by (simp add: release_message_def) blast
  have descriptor: "\<exists>p. device_descriptor timestamp bitmap = control_command COMMAND_GAMEPAD (0x23 # p)" for bitmap
    by (simp add: device_descriptor_def) blast
  have "\<exists>p. ei_bytes m = control_command COMMAND_GAMEPAD (0x23 # p)"
    using assms(2,3) release descriptor
    by (auto simp: set_rich_slot_mask_def Let_def emit_topology_transition_def split: if_splits option.splits)
  then obtain p where p: "ei_bytes m = control_command COMMAND_GAMEPAD (0x23 # p)" by blast
  from rich_slot_mask_step [OF assms(1,2)] assms(3) obtain code payload where
    "ei_bytes m = control_command code payload" "length payload \<le> 54" by (auto simp: message_ok_def)
  with p have "length p \<le> 54" by (simp add: control_command_def)
  with decode_control_command [of "0x23 # p" COMMAND_GAMEPAD "[]"] p show ?thesis
    by (simp add: read_sony_def command_codes read_sony_report_def)
qed

lemma send_pads_log:
  assumes "all_sent (send_encoded (logged ops) channels) ms rl = (ok, rl')" and "\<forall>m\<in>set ms. read_sony (ei_bytes m) = None"
  shows "sony_log channels (snd rl') = sony_log channels (snd rl)"
  using assms
proof (induction ms arbitrary: rl)
  case (Cons m ms)
  obtain ok1 rl1 where s: "send_encoded (logged ops) channels m rl = (ok1, rl1)" by (metis surj_pair)
  with logged_other [of ops channels _ "ei_bytes m" Normal rl ok1 rl1] Cons.prems(2)
  have "sony_log channels (snd rl1) = sony_log channels (snd rl)" by (simp add: send_encoded_def)
  with Cons s show ?case by (cases ok1) auto
qed simp

text \<open>The invariant of the loop, and that every part of the pump keeps it as long as the stack takes its messages.\<close>

definition hid_pump_ok :: "NvstInputChannels \<Rightarrow> ('r \<times> (channel_id \<times> bytes) list) hid_loop \<Rightarrow> bool" where
  "hid_pump_ok channels s \<longleftrightarrow> devices_ok (hl_session s) (sony_log channels (snd (hl_rtc s)))
     \<and> inventory_ok (hr_inventory (hl_runtime s)) \<and> codec_ok (hl_codec s)"

lemma hid_steps_inventory: "inventory_ok (hr_inventory r) \<Longrightarrow> inventory_ok (hr_inventory (fold (hid_step size_of) others r))"
  by (induction others arbitrary: r) (simp_all add: hid_step_inventory)

lemma report_neutral_length: "report_neutral r \<Longrightarrow> length r = DS4_REPORT_BYTES"
  by (simp add: report_neutral_def DS4_REPORT_BYTES_def)

lemma pump_release_ok:
  assumes "pump_release fl (logged ops) channels slot t h rl = (True, h', rl')" and "devices_ok h (sony_log channels (snd rl))"
  shows "devices_ok h' (sony_log channels (snd rl'))"
proof -
  let ?h = "observe_slot slot t h"
  obtain sent h1 where r: "release_snapshot fl slot ?h = (sent, h1)" by (metis surj_pair)
  note ok = release_snapshot_ok [OF observe_ok [OF assms(2)] r]
  show ?thesis
  proof (cases sent)
    case None
    with assms(1) r ok(1) show ?thesis by (simp add: pump_release_def)
  next
    case (Some p)
    then obtain low_id bs where p: "sent = Some (low_id, bs)" by (cases p) auto
    note low = ok(2) [OF p]
    obtain o1 rl1 where s: "send_command (send_control_teardown (logged ops) channels) (sony_report_command low_id bs) rl = (o1, rl1)" by (metis surj_pair)
    with assms(1) r p have eq: "o1" "h' = h1" "rl' = rl1" by (auto simp: pump_release_def)
    from send_report [of send_control_teardown ops channels "unat slot" bs rl o1 rl1] s low eq(1,3)
    have "sony_log channels (snd rl') = sony_log channels (snd rl) @ map as_read [ReleaseOut low_id bs]" by (simp add: report_neutral_length)
    from log_extends [OF _ this, of h'] ok(1) p eq(2) show ?thesis by simp
  qed
qed

lemma pump_item_ok:
  assumes "pump_item fl (logged ops) channels item h rl = (True, h', rl')" and "devices_ok h (sony_log channels (snd rl))"
  shows "devices_ok h' (sony_log channels (snd rl'))"
proof (cases item)
  case (SnapshotItem snapshot)
  obtain sent h1 where r: "build_report fl snapshot h = (sent, h1)" by (metis surj_pair)
  note ok = build_report_ok [OF assms(2) r]
  show ?thesis
  proof (cases sent)
    case None
    with assms(1) r ok(1) SnapshotItem show ?thesis by (simp add: pump_item_def)
  next
    case (Some p)
    then obtain low_id bs where p: "sent = Some (low_id, bs)" by (cases p) auto
    note low = ok(2) [OF p]
    obtain o1 rl1 where s: "send_command (send_control (logged ops) channels) (sony_report_command low_id bs) rl = (o1, rl1)" by (metis surj_pair)
    with assms(1) r p SnapshotItem have eq: "o1" "h' = h1" "rl' = rl1" by (auto simp: pump_item_def)
    from send_report [of send_control ops channels "unat (ss_slot snapshot)" bs rl o1 rl1] s low eq(1,3)
    have "sony_log channels (snd rl') = sony_log channels (snd rl) @ map as_read [ReportOut low_id bs]" by simp
    from log_extends [OF _ this, of h'] ok(1) p eq(2) show ?thesis by simp
  qed
qed (use assms pump_release_ok in \<open>simp_all add: pump_item_def\<close>)

lemma pump_items_ok:
  "pump_items fl (logged ops) channels items h rl = (True, h', rl') \<Longrightarrow> devices_ok h (sony_log channels (snd rl))
     \<Longrightarrow> devices_ok h' (sony_log channels (snd rl'))"
proof (induction items arbitrary: h rl)
  case (Cons item items)
  obtain ok1 h1 rl1 where one: "pump_item fl (logged ops) channels item h rl = (ok1, h1, rl1)" by (metis surj_pair)
  obtain ok2 h2 rl2 where rest: "pump_items fl (logged ops) channels items h1 rl1 = (ok2, h2, rl2)" by (metis surj_pair)
  from Cons.prems(1) one rest have eq: "ok1" "ok2" "h' = h2" "rl' = rl2" by auto
  have "devices_ok h1 (sony_log channels (snd rl1))" using pump_item_ok [of fl ops channels item h rl h1 rl1] one eq(1) Cons.prems(2) by simp
  with Cons.IH [of h1 rl1] rest eq show ?case by simp
qed simp

lemma pump_topology_ok:
  assumes "pump_topology (logged ops) channels slots timestamp s = (ok, s')" and "codec_ok (hl_codec s)"
  shows "codec_ok (hl_codec s') \<and> hl_session s' = hl_session s \<and> hl_runtime s' = hl_runtime s
    \<and> sony_log channels (snd (hl_rtc s')) = sony_log channels (snd (hl_rtc s))"
proof (cases "slots = hl_published s")
  case True
  with assms show ?thesis by (simp add: pump_topology_def)
next
  case False
  obtain ms codec where m: "set_rich_slot_mask slots timestamp (hl_codec s) = (ms, codec)" by (metis surj_pair)
  obtain ok1 rl where sent: "all_sent (send_encoded (logged ops) channels) ms (hl_rtc s) = (ok1, rl)" by (metis surj_pair)
  from send_pads_log [OF sent] retirement_not_sony [OF assms(2) m] have "sony_log channels (snd rl) = sony_log channels (snd (hl_rtc s))" by blast
  with rich_slot_mask_step [OF assms(2) m] assms False m sent show ?thesis by (auto simp: pump_topology_def)
qed

lemma attach_messages: "map AttachOut (map out_id (filter is_attach out)) = map as_read (filter is_attach out)"
proof -
  have "AttachOut (out_id m) = as_read m" if "is_attach m" for m using that by (cases m) simp_all
  then show ?thesis by (induction out) simp_all
qed

text \<open>The parts of a pump that succeeds, in their order.\<close>

lemma pump_phases:
  assumes "pump_hid_pending fl ops channels size_of timestamp others s = (True, s')" and "hr_binding (hl_runtime s) \<noteq> None"
  obtains o1 o2 o3 runtime out session attaches r1 s1 s2 s3 items runtime4 h4 r4
  where "others = (o1, o2, o3)" "runtime = fold (hid_step size_of) o1 (hl_runtime s)"
    "reconcile fl (hr_inventory runtime) (hl_session s) = (out, session)"
    "send_retirements ops channels out [] (hl_rtc s) = ((True, attaches), r1)"
    "s1 = s\<lparr> hl_runtime := snd (set_session_admission (rich_slot_mask session) (hr_inventory_epoch runtime) (fold (hid_step size_of) o2 runtime)),
       hl_session := session, hl_rtc := r1 \<rparr>"
    "pump_topology ops channels (rich_slot_mask session) timestamp s1 = (True, s2)" "pump_attaches ops channels attaches s2 = (True, s3)"
    "drain_runtime size_of DRAIN_PER_ITERATION (fold (hid_step size_of) o3 (hl_runtime s3)) = (items, runtime4)"
    "pump_items fl ops channels items (hl_session s3) (hl_rtc s3) = (True, h4, r4)"
    "s' = s3\<lparr> hl_runtime := runtime4, hl_session := h4, hl_rtc := r4 \<rparr>"
proof -
  obtain o1 o2 o3 where others: "others = (o1, o2, o3)" by (metis surj_pair)
  define runtime where "runtime = fold (hid_step size_of) o1 (hl_runtime s)"
  obtain out session where rec: "reconcile fl (hr_inventory runtime) (hl_session s) = (out, session)" by (metis surj_pair)
  obtain ok1 attaches r1 where ret: "send_retirements ops channels out [] (hl_rtc s) = ((ok1, attaches), r1)" by (metis surj_pair)
  define s1 where "s1 = s\<lparr> hl_runtime := snd (set_session_admission (rich_slot_mask session) (hr_inventory_epoch runtime) (fold (hid_step size_of) o2 runtime)),
    hl_session := session, hl_rtc := r1 \<rparr>"
  obtain ok2 s2 where top: "pump_topology ops channels (rich_slot_mask session) timestamp s1 = (ok2, s2)" by (metis surj_pair)
  obtain ok3 s3 where att: "pump_attaches ops channels attaches s2 = (ok3, s3)" by (metis surj_pair)
  obtain items runtime4 where dr: "drain_runtime size_of DRAIN_PER_ITERATION (fold (hid_step size_of) o3 (hl_runtime s3)) = (items, runtime4)" by (metis surj_pair)
  obtain ok4 h4 r4 where pi: "pump_items fl ops channels items (hl_session s3) (hl_rtc s3) = (ok4, h4, r4)" by (metis surj_pair)
  have "ok1" "ok2" "ok3" "ok4" and s': "s' = s3\<lparr> hl_runtime := runtime4, hl_session := h4, hl_rtc := r4 \<rparr>"
    using assms others rec ret top att dr pi
    by (auto simp: pump_hid_pending_def inventory_snapshot_def runtime_def [symmetric] s1_def [symmetric] pump_drain_def split: bool.splits)
  with that [OF others runtime_def rec _ s1_def _ _ dr _ s'] ret top att pi show ?thesis by simp
qed

lemma pump_hid_pending_ok:
  assumes "pump_hid_pending fl (logged ops) channels size_of timestamp others s = (True, s')" and "hid_pump_ok channels s"
  shows "hid_pump_ok channels s'"
proof (cases "hr_binding (hl_runtime s) = None")
  case True
  with assms show ?thesis by (simp add: pump_hid_pending_def)
next
  case False
  from pump_phases [OF assms(1) False] obtain o1 o2 o3 runtime out session attaches rl1 s1 s2 s3 items runtime4 h4 rl4 where
    runtime: "runtime = fold (hid_step size_of) o1 (hl_runtime s)" and rec: "reconcile fl (hr_inventory runtime) (hl_session s) = (out, session)"
    and ret: "send_retirements (logged ops) channels out [] (hl_rtc s) = ((True, attaches), rl1)"
    and s1: "s1 = s\<lparr> hl_runtime := snd (set_session_admission (rich_slot_mask session) (hr_inventory_epoch runtime) (fold (hid_step size_of) o2 runtime)),
       hl_session := session, hl_rtc := rl1 \<rparr>"
    and top: "pump_topology (logged ops) channels (rich_slot_mask session) timestamp s1 = (True, s2)"
    and att: "pump_attaches (logged ops) channels attaches s2 = (True, s3)"
    and dr: "drain_runtime size_of DRAIN_PER_ITERATION (fold (hid_step size_of) o3 (hl_runtime s3)) = (items, runtime4)"
    and pi: "pump_items fl (logged ops) channels items (hl_session s3) (hl_rtc s3) = (True, h4, rl4)"
    and s': "s' = s3\<lparr> hl_runtime := runtime4, hl_session := h4, hl_rtc := rl4 \<rparr>" by metis
  have inv: "inventory_ok (hr_inventory runtime)" using assms(2) by (simp add: runtime hid_pump_ok_def hid_steps_inventory)
  have shape: "session_shape (hl_session s)" "codec_ok (hl_codec s)" using assms(2) by (simp_all add: hid_pump_ok_def devices_ok_def)
  note out = reconcile_sendable [OF shape(1) inv rec]
  note l1 = send_retirements_log [OF ret out]
  from pump_topology_ok [OF top] shape(2) have t: "codec_ok (hl_codec s2)" "hl_session s2 = session" "hl_runtime s2 = hl_runtime s1"
    "sony_log channels (snd (hl_rtc s2)) = sony_log channels (snd rl1)" by (simp_all add: s1)
  obtain rl3 where s3: "s3 = s2\<lparr> hl_rtc := rl3 \<rparr>" "all_sent (\<lambda>low_id. send_command (send_control (logged ops) channels)
      (sony_device_change_command AttachControl low_id)) attaches (hl_rtc s2) = (True, rl3)"
    using att by (auto simp: pump_attaches_def split: prod.splits)
  have "set attaches \<subseteq> slot_id ` {..<MAX_SOURCES}" using out l1 by (auto simp: sendable_def)
  from send_attaches_log [OF s3(2) this] t(4) l1 attach_messages [of out]
  have "sony_log channels (snd rl3) = sony_log channels (snd (hl_rtc s)) @ map as_read (filter (\<lambda>m. \<not> is_attach m) out @ filter is_attach out)" by simp
  moreover have "devices_ok session (sony_log channels (snd (hl_rtc s)) @ filter (\<lambda>m. \<not> is_attach m) out @ filter is_attach out)"
    using reconcile_sent [OF _ inv rec] assms(2) by (simp add: hid_pump_ok_def)
  ultimately have "devices_ok session (sony_log channels (snd rl3))" using log_extends by blast
  with pump_items_ok [OF pi] s3(1) t(2) have "devices_ok h4 (sony_log channels (snd rl4))" by simp
  moreover have "inventory_ok (hr_inventory runtime4)"
  proof -
    have "inventory_ok (hr_inventory (hl_runtime s3))" using hid_steps_inventory [OF inv] t(3) s3(1) by (simp add: s1 set_session_admission_def)
    from hid_step_inventory [OF hid_steps_inventory [OF this, of size_of o3], of size_of "Drain DRAIN_PER_ITERATION"] dr show ?thesis by simp
  qed
  ultimately show ?thesis using t(1) s3(1) by (simp add: hid_pump_ok_def s')
qed

section \<open>Runs\<close>

text \<open>A machine that may stop keeps an invariant that each of its steps keeps.\<close>

locale stopping_machine =
  fixes step :: "'op \<Rightarrow> 's \<Rightarrow> 's option" and inv :: "'s \<Rightarrow> bool"
  assumes step_keeps: "inv s \<Longrightarrow> step op s = Some s' \<Longrightarrow> inv s'"
begin

lemma run_keeps: "inv s \<Longrightarrow> run_steps step ops s = Some s' \<Longrightarrow> inv s'"
  by (induction ops arbitrary: s) (auto split: option.splits dest: step_keeps)

end

text \<open>What happens in a stream: other threads use the runtime, input is encoded, and the loop pumps. A pump that
  fails ends the stream.\<close>

datatype hid_event =
    OtherThread hid_op
  | EncodeInput bytes u64
  | PumpHid u64 "hid_op list \<times> hid_op list \<times> hid_op list"

fun hid_loop_step :: "'f float_ops \<Rightarrow> 'r rtc \<Rightarrow> NvstInputChannels \<Rightarrow> nat \<Rightarrow> hid_event \<Rightarrow> 'r hid_loop \<Rightarrow> 'r hid_loop option" where
  "hid_loop_step fl ops channels size_of (OtherThread op) s = Some (s\<lparr> hl_runtime := hid_step size_of op (hl_runtime s) \<rparr>)"
| "hid_loop_step fl ops channels size_of (EncodeInput packet timestamp_us) s =
     map_option (\<lambda>(_, codec). s\<lparr> hl_codec := codec \<rparr>) (encode packet timestamp_us (hl_codec s))"
| "hid_loop_step fl ops channels size_of (PumpHid timestamp_us others) s =
     (case pump_hid_pending fl ops channels size_of timestamp_us others s of (True, s) \<Rightarrow> Some s | (False, _) \<Rightarrow> None)"

definition hid_loop_new :: "SonyCapability \<Rightarrow> 'r \<Rightarrow> 'r hid_loop" where
  "hid_loop_new capability r = \<lparr> hl_runtime = HidRuntime_new, hl_session = HidSession_new capability, hl_codec = NvstInputCodec_default,
     hl_published = 0, hl_rtc = r \<rparr>"

interpretation hid_loop: stopping_machine "hid_loop_step fl (logged ops) channels size_of" "hid_pump_ok channels"
proof
  fix s op s'
  assume ok: "hid_pump_ok channels s" and step: "hid_loop_step fl (logged ops) channels size_of op s = Some s'"
  show "hid_pump_ok channels s'"
  proof (cases op)
    case (OtherThread hop)
    with ok step hid_step_inventory [of "hl_runtime s" size_of hop] show ?thesis by (auto simp: hid_pump_ok_def)
  next
    case (EncodeInput packet timestamp)
    from ok have "codec_ok (hl_codec s)" by (simp add: hid_pump_ok_def)
    from encode_step [OF this, of packet timestamp] ok step EncodeInput show ?thesis by (auto simp: hid_pump_ok_def encodes_def)
  next
    case (PumpHid timestamp others)
    obtain go s1 where p: "pump_hid_pending fl (logged ops) channels size_of timestamp others s = (go, s1)" by (metis surj_pair)
    with step PumpHid have "go" "s' = s1" by (auto split: bool.splits)
    with pump_hid_pending_ok [of fl ops channels size_of timestamp others s s1] p ok show ?thesis by simp
  qed
qed

lemma hid_pump_ok_new: "hid_pump_ok channels (hid_loop_new capability (r, []))"
  by (auto simp: hid_pump_ok_def hid_loop_new_def devices_ok_def session_shape_def HidSession_new_def device_run_def sony_log_def device_of_def
      HidRuntime_new_def inventory_ok_default codec_ok_default)

text \<open>C5: whatever other threads do to the mailbox and whatever input is encoded in between, as long as the stack takes
  what the pump sends, the commands on the control channel make sense for every Sony device: it is attached once, gets
  reports only while it is attached, is removed only straight after a report that releases everything, and never
  comes back; and the devices the client holds attached or retired are those of the server.\<close>

theorem sony_device_protocol:
  assumes "run_steps (hid_loop_step fl (logged ops) channels size_of) events (hid_loop_new capability (r, [])) = Some s" and "i < MAX_SOURCES"
  shows "\<exists>d. device_run (slot_id i) (sony_log channels (snd (hl_rtc s))) = Some d \<and> device_of (hl_session s) i d"
  using hid_loop.run_keeps [OF hid_pump_ok_new assms(1)] assms(2) by (simp add: hid_pump_ok_def devices_ok_def)

text \<open>The shutdown.\<close>

lemma for_slots_retired:
  assumes "session_shape h" and "for_slots (retire_slot fl) slots h = (out, h')" and "set slots \<subseteq> {..<MAX_SOURCES}"
  shows "\<forall>i<MAX_SOURCES. i \<in> set slots \<or> hd_sources h ! i = None \<longrightarrow> hd_sources h' ! i = None"
  using assms
proof (induction slots arbitrary: h out)
  case (Cons j slots)
  obtain out1 h1 where one: "retire_slot fl (of_nat j) h = (out1, h1)" by (metis surj_pair)
  obtain out2 h2 where rest: "for_slots (retire_slot fl) slots h1 = (out2, h2)" by (metis surj_pair)
  from Cons.prems(3) have j: "j < MAX_SOURCES" by simp
  note step = retire_step [OF Cons.prems(1) unat_slot [OF j] j one]
  then have "session_shape h1" "\<forall>i<MAX_SOURCES. i \<noteq> j \<longrightarrow> hd_sources h1 ! i = hd_sources h ! i" by (simp_all add: slot_step_def)
  with Cons.IH [of h1 out2] rest Cons.prems(2,3) one step(3) show ?case by (auto simp: Let_def)
qed simp

lemma shutdown_command_short: "sendable m \<Longrightarrow> shutdown_command m = Some c \<Longrightarrow> c \<noteq> [] \<and> length c \<le> 76"
  by (auto simp: shutdown_command_def sendable_def sony_report_command_def sony_device_change_command_def control_command_def
      le16_def DS4_REPORT_BYTES_def split: HidOutbound.splits if_splits)

lemma logged_teardown: "fst (send_control_teardown (logged ops) channels bs rl) = fst (send_control_teardown ops channels bs (fst rl))"
  by (cases rl) (simp add: send_control_teardown_def channels_write_def logged_def buffered_total_def split: prod.split)

lemma shutdown_log:
  assumes "\<forall>bs r. bs \<noteq> [] \<and> length bs \<le> 76 \<longrightarrow> fst (send_control_teardown ops channels bs r)" and "\<forall>m\<in>set out. sendable m \<and> \<not> is_attach m"
  shows "sony_log channels (snd (fold (\<lambda>m rl. snd (send_command (send_control_teardown (logged ops) channels) (shutdown_command m) rl)) out rl))
    = sony_log channels (snd rl) @ map as_read out"
  using assms(2)
proof (induction out arbitrary: rl)
  case (Cons m out)
  obtain i where i: "i < MAX_SOURCES" "out_id m = slot_id i" using sendable_id Cons.prems by auto
  obtain ok rl1 where s: "send_command (send_control_teardown (logged ops) channels) (shutdown_command m) rl = (ok, rl1)" by (metis surj_pair)
  have ok
  proof (cases "shutdown_command m")
    case None
    with s show ?thesis by (simp add: send_command_def)
  next
    case (Some c)
    with shutdown_command_short Cons.prems have "c \<noteq> []" "length c \<le> 76" by auto
    with assms(1) logged_teardown [of ops channels c rl] Some s show ?thesis by (simp add: send_command_def)
  qed
  have "sony_log channels (snd rl1) = sony_log channels (snd rl) @ [as_read m]"
  proof (cases m)
    case (ReleaseOut low_id r)
    with Cons.prems have "length r = DS4_REPORT_BYTES" by (simp add: sendable_def)
    with send_report [OF _ _ i(1), of send_control_teardown ops channels r rl ok rl1] s i(2) ReleaseOut \<open>ok\<close> show ?thesis
      by (simp add: shutdown_command_def)
  next
    case (RemovalOut low_id)
    with send_device_change [OF _ _ i(1), of send_control_teardown ops channels RemovalControl rl ok rl1] s i(2) \<open>ok\<close> show ?thesis
      by (simp add: shutdown_command_def)
  qed (use Cons.prems in \<open>auto simp: sendable_def\<close>)
  with Cons.IH [of rl1] Cons.prems s show ?case by simp
qed simp

lemma rich_slot_mask_none: "\<forall>i<MAX_SOURCES. hd_sources h ! i = None \<Longrightarrow> rich_slot_mask h = 0"
  by (simp add: rich_slot_mask_def slot_mask_def MAX_SOURCES_def upt_rec)

text \<open>C30: at the end of a stream nothing stays pressed: when the stack takes the last messages, the shutdown leaves every
  Sony device of the server either never attached, or released by a neutral report and then removed.\<close>

theorem hid_shutdown_releases:
  assumes "run_steps (hid_loop_step fl (logged ops) channels size_of) events (hid_loop_new capability (r, [])) = Some s"
    and "\<forall>bs r. bs \<noteq> [] \<and> length bs \<le> 76 \<longrightarrow> fst (send_control_teardown ops channels bs r)"
    and "queue_hid_shutdown fl (logged ops) channels (hl_session s) (hl_rtc s) = (h', rl')" and "i < MAX_SOURCES"
  shows "device_run (slot_id i) (sony_log channels (snd rl')) \<in> {Some DeviceAbsent, Some DeviceGone} \<and> rich_slot_mask h' = 0"
proof -
  have ok: "devices_ok (hl_session s) (sony_log channels (snd (hl_rtc s)))" using hid_loop.run_keeps [OF hid_pump_ok_new assms(1)] by (simp add: hid_pump_ok_def)
  then have shape: "session_shape (hl_session s)" by (simp add: devices_ok_def)
  obtain out h1 where r: "retire_all fl (hl_session s) = (out, h1)" by (metis surj_pair)
  from assms(3) r have eq: "h' = h1"
    "rl' = fold (\<lambda>m rl. snd (send_command (send_control_teardown (logged ops) channels) (shutdown_command m) rl)) out (hl_rtc s)"
    by (auto simp: queue_hid_shutdown_def)
  have "sony_log channels (snd rl') = sony_log channels (snd (hl_rtc s)) @ map as_read out"
    unfolding eq(2) using shutdown_log [OF assms(2)] retire_all_sendable [OF shape r] retire_all_no_attach [OF r] by blast
  from log_extends [OF retire_all_ok [OF ok r] this] eq(1) have "devices_ok h' (sony_log channels (snd rl'))" by simp
  then obtain d where d: "device_run (slot_id i) (sony_log channels (snd rl')) = Some d" "device_of h' i d"
    using assms(4) by (auto simp: devices_ok_def)
  have none: "\<forall>i<MAX_SOURCES. hd_sources h' ! i = None"
    using for_slots_retired [OF shape r [unfolded retire_all_def]] eq(1) by (auto simp: atLeast0LessThan)
  with d assms(4) rich_slot_mask_none [OF none] show ?thesis by (auto simp: device_of_def split: option.splits)
qed

text \<open>A stream in which a DualShock 4 is plugged in, on a stack that sends at once.\<close>

definition prompt_rtc :: "unit rtc" where
  "prompt_rtc = \<lparr> rtc_channel = (\<lambda>_ _. True), rtc_buffered_amount = (\<lambda>_ _. 0), rtc_write = (\<lambda>_ _ r. (True, r)) \<rparr>"

definition plugged_claim :: SdlDeviceClaim where
  "plugged_claim = \<lparr> dc_slot = 0, dc_incarnation = 1, dc_vendor = SONY_VENDOR, dc_product = 0x05c4 \<rparr>"

definition sample_capability :: SonyCapability where
  "sample_capability = SonyCapability_default\<lparr> sy_server_mask := 5 \<rparr>"

definition sample_events :: "hid_event list" where
  "sample_events = [OtherThread OpenEndpoint, OtherThread (BindSession 1), OtherThread (ReplaceInventory [Some plugged_claim]), PumpHid 9 ([], [], [])]"

lemma prompt_takes: "\<forall>bs r. bs \<noteq> [] \<and> length bs \<le> 76 \<longrightarrow> fst (send_control_teardown prompt_rtc sample_channels bs r)"
  by (simp add: send_control_teardown_def channels_write_def prompt_rtc_def buffered_total_def all_channels_def sample_channels_def
      admit_write_def Control.is_admitted_def sat_add_usize_def TRANSPORT_AGGREGATE_CAPACITY_def)

definition sample_runtime :: HidRuntime where
  "sample_runtime = fold (hid_step 80) [OpenEndpoint, BindSession 1, ReplaceInventory [Some plugged_claim]] HidRuntime_new"

definition sample_session :: HidSession where
  "sample_session = (HidSession_new sample_capability)\<lparr> hd_sources :=
   [Some \<lparr> as_slot = 0, as_incarnation = 1, as_vendor = SONY_VENDOR, as_product = 0x05c4 \<rparr>, None, None, None] \<rparr>"

lemma sample_runtime: "hr_binding sample_runtime = Some 1" "hr_inventory sample_runtime = [Some plugged_claim, None, None, None]"
  "hr_lanes sample_runtime = replicate 4 SourceLane_default"
  by (simp_all add: sample_runtime_def open_endpoint_def bind_session_def replace_inventory_def HidRuntime_new_def reset_lanes_def forget_admission_def
     inventory_replace_def plugged_claim_def MAX_SOURCES_def InventoryView_default_def Let_def List.map_filter_def numeral_eq_Suc lane_reset_def SourceLane_default_def inventory_incarnation_def inventory_claim_def upt_rec)

lemma sample_product: "sony_product plugged_claim = Some (Ds4, False)" "admits Ds4 False sample_capability"
  by (simp_all add: sony_product_def plugged_claim_def SONY_DS4_PRODUCTS_def sample_capability_def SonyCapability_default_def server_supports_ds4_def
     game_allows_ds4_def SERVER_DS4_TARGET_BIT_def SERVER_GAME_PERMISSION_BIT_def)

lemma sample_admit: "admit plugged_claim (HidSession_new sample_capability) = ((Attached, [AttachOut 6]), sample_session)"
  by (simp add: admit_def sample_product Let_def del: admits.simps) (simp add: plugged_claim_def HidSession_new_def MAX_SOURCES_def low_id_for_slot_def DS4_LOW_ID_BASE_def
   numeral_eq_Suc sample_session_def sample_product(2) del: admits.simps)

lemma sample_reconcile: "reconcile fl [Some plugged_claim, None, None, None] (HidSession_new sample_capability) = ([AttachOut 6], sample_session)"
proof -
  have slots: "[0..<MAX_SOURCES] = [0, 1, 2, 3]" by (simp add: MAX_SOURCES_def upt_rec)
  have "reconcile_slot fl [Some plugged_claim, None, None, None] 0 (HidSession_new sample_capability) = ([AttachOut 6], sample_session)"
  proof -
    have "hd_sources (HidSession_new sample_capability) ! 0 = None" by (simp add: HidSession_new_def MAX_SOURCES_def)
    then show ?thesis by (simp add: reconcile_slot_def inventory_claim_def sample_admit)
  qed
  moreover have "reconcile_slot fl [Some plugged_claim, None, None, None] k sample_session = ([], sample_session)" if "k \<in> {1, 2, 3}" for k
    using that by (auto simp: reconcile_slot_def inventory_claim_def sample_session_def)
  ultimately show ?thesis by (simp add: reconcile_def slots)
qed

lemma sample_mask: "rich_slot_mask sample_session = 1"
  by (simp add: rich_slot_mask_def slot_mask_def MAX_SOURCES_def upt_rec sample_session_def)

lemma sample_run: "\<exists>s. run_steps (hid_loop_step fl (logged prompt_rtc) sample_channels 80) sample_events (hid_loop_new sample_capability ((), [])) = Some s
  \<and> sony_log sample_channels (snd (hl_rtc s)) = [AttachOut 6] \<and> hl_session s = sample_session"
proof -
  obtain bs where bs: "sony_device_change_command AttachControl 6 = Some bs" by (simp add: sony_device_change_command_def sony_low_id_in_range_def DS4_LOW_ID_BASE_def MAX_SOURCES_def)
  have len: "length bs = 26" using bs by (auto simp: sony_device_change_command_def control_command_def split: if_splits)
  have taken: "send_control (logged prompt_rtc) sample_channels bs ((), []) = (True, (), [(0, bs)])"
    using len by (simp add: send_control_def channels_write_def logged_def prompt_rtc_def buffered_total_def all_channels_def sample_channels_def admit_write_def
      sat_add_usize_def NORMAL_BUDGET_def Control.is_admitted_def TRANSPORT_AGGREGATE_CAPACITY_def TEARDOWN_RESERVE_def)
  have mask: "set_rich_slot_mask 1 9 NvstInputCodec_default = ([], NvstInputCodec_default\<lparr> ic_rich_slot_mask := 1 \<rparr>)"
    by (simp add: set_rich_slot_mask_def NvstInputCodec_default_def)
  have drain: "drain_runtime 80 n r = ([], r\<lparr> hr_lanes := replicate 4 SourceLane_default \<rparr>)" if "hr_lanes r = replicate 4 SourceLane_default" for n r
  proof -
    have "drain_lanes 80 n (replicate k SourceLane_default) = ([], replicate k SourceLane_default)" for k
      by (induction k) (simp_all add: take_release_def take_states_def SourceLane_default_def)
    with that show ?thesis by (simp add: drain_runtime_def)
  qed
  have runtime: "hid_step 80 (ReplaceInventory [Some plugged_claim]) (hid_step 80 (BindSession 1) (hid_step 80 OpenEndpoint HidRuntime_new)) = sample_runtime"
    by (simp add: sample_runtime_def)
  have start: "hl_runtime (hid_loop_new c r) = HidRuntime_new" "hl_session (hid_loop_new c r) = HidSession_new c" "hl_codec (hid_loop_new c r) = NvstInputCodec_default"
     "hl_published (hid_loop_new c r) = 0" "hl_rtc (hid_loop_new c r) = r" for c and r :: "unit \<times> (channel_id \<times> bytes) list"
    by (simp_all add: hid_loop_new_def)
  have log: "sony_log sample_channels [(0, bs)] = [AttachOut 6]" using read_device_change [OF bs] by (simp add: sony_log_def sample_channels_def)
  show ?thesis
    unfolding sample_events_def
    by (simp add: runtime start del: hid_step.simps)
     (simp add: pump_hid_pending_def sample_runtime inventory_snapshot_def sample_reconcile sample_mask pump_topology_def start mask pump_attaches_def send_command_def bs taken pump_drain_def
     drain set_session_admission_def log)
qed

theorem sony_device_protocol_witness:
  "\<exists>s. run_steps (hid_loop_step int_float_ops (logged prompt_rtc) sample_channels 80) sample_events (hid_loop_new sample_capability ((), [])) = Some s
     \<and> device_run (slot_id 0) (sony_log sample_channels (snd (hl_rtc s))) = Some DeviceLive"
proof -
  obtain s where s: "run_steps (hid_loop_step int_float_ops (logged prompt_rtc) sample_channels 80) sample_events (hid_loop_new sample_capability ((), [])) = Some s"
    "sony_log sample_channels (snd (hl_rtc s)) = [AttachOut 6]" using sample_run by blast
  have "0 < MAX_SOURCES" by (simp add: MAX_SOURCES_def)
  from sony_device_protocol [OF s(1) this] s show ?thesis by (auto simp: device_run_def slot_id_def DS4_LOW_ID_BASE_def)
qed

theorem hid_shutdown_releases_witness:
  "\<exists>s h' rl'. run_steps (hid_loop_step int_float_ops (logged prompt_rtc) sample_channels 80) sample_events (hid_loop_new sample_capability ((), [])) = Some s
     \<and> queue_hid_shutdown int_float_ops (logged prompt_rtc) sample_channels (hl_session s) (hl_rtc s) = (h', rl')
     \<and> rich_slot_mask (hl_session s) = 1 \<and> rich_slot_mask h' = 0"
proof -
  obtain s where s: "run_steps (hid_loop_step int_float_ops (logged prompt_rtc) sample_channels 80) sample_events (hid_loop_new sample_capability ((), [])) = Some s"
    "hl_session s = sample_session" using sample_run by blast
  obtain h' rl' where q: "queue_hid_shutdown int_float_ops (logged prompt_rtc) sample_channels (hl_session s) (hl_rtc s) = (h', rl')" by (metis surj_pair)
  have "0 < MAX_SOURCES" by (simp add: MAX_SOURCES_def)
  from hid_shutdown_releases [OF s(1) prompt_takes q this] s q show ?thesis
    by (intro exI [of _ s] exI [of _ h'] exI [of _ rl']) (simp add: sample_mask)
qed

end
