(* ===== verification/Haptics.thy ===== *)
theory Haptics
  imports HidPump
begin

text \<open>
  Rumble (\<open>nvst_haptics.rs\<close>, and \<open>store_sony_output\<close> of \<open>nvst.rs\<close>): the commands of the server are kept per controller, the
  newest wins, until the player's thread takes them. The rumble of a Sony device comes as an output report of the
  device and is kept only while that device is the one in its slot.
\<close>

section \<open>Model\<close>

definition HAPTIC_COMMAND_CODE :: u16 where "HAPTIC_COMMAND_CODE = 0x010b"

record NvstControllerRumble =
  cr_controller_id :: u8
  cr_low_frequency :: u16
  cr_high_frequency :: u16
  cr_duration_ms :: u32
  cr_source_incarnation :: "u64 option"

record NvstHaptics =
  hp_pending :: "NvstControllerRumble option list"
  hp_superseded :: nat

definition NvstHaptics_default :: NvstHaptics where
  "NvstHaptics_default = \<lparr> hp_pending = replicate 4 None, hp_superseded = 0 \<rparr>"

definition store_rumble :: "NvstControllerRumble \<Rightarrow> NvstHaptics \<Rightarrow> NvstHaptics" where
  "store_rumble command h =
     (let i = unat (cr_controller_id command)
      in \<lparr> hp_pending = (hp_pending h)[i := Some command],
           hp_superseded = (if hp_pending h ! i \<noteq> None then sat_add_usize (hp_superseded h) 1 else hp_superseded h) \<rparr>)"

text \<open>\<open>chunks_exact\<close>: the chunks of \<open>n\<close> elements, an incomplete last one left out.\<close>

function chunks_exact :: "nat \<Rightarrow> 'a list \<Rightarrow> 'a list list" where
  "chunks_exact n xs = (if n = 0 \<or> length xs < n then [] else take n xs # chunks_exact n (drop n xs))"
  by pat_completeness auto
termination by (relation "measure (length \<circ> snd)") auto

declare chunks_exact.simps [simp del]

definition receive_record :: "nat \<Rightarrow> bytes \<Rightarrow> NvstHaptics \<Rightarrow> NvstHaptics" where
  "receive_record record_length rec h =
     (let controller_id = from_le16 (rec ! 0) (rec ! 1)
      in if 4 \<le> controller_id then h
         else let duration = (if record_length = 8 then from_le16 (rec ! 6) (rec ! 7) else 0)
              in store_rumble \<lparr> cr_controller_id = ucast controller_id, cr_low_frequency = from_le16 (rec ! 2) (rec ! 3),
                   cr_high_frequency = from_le16 (rec ! 4) (rec ! 5), cr_duration_ms = (if duration = 0 then 1000 else ucast duration),
                   cr_source_incarnation = None \<rparr> h)"

definition receive_command :: "u16 \<Rightarrow> bytes \<Rightarrow> NvstHaptics \<Rightarrow> NvstHaptics" where
  "receive_command code payload h =
     (if code \<noteq> HAPTIC_COMMAND_CODE \<or> length payload < 4 then h
      else case (let kind = from_le16 (payload ! 0) (payload ! 1) in if kind = 1 then Some 6 else if kind = 2 then Some 8 else None) of
             None \<Rightarrow> h
           | Some record_length \<Rightarrow>
               let available = min (unat (from_le16 (payload ! 2) (payload ! 3))) (length payload - 4)
               in fold (receive_record record_length) (chunks_exact record_length (take available (drop 4 payload))) h)"

function haptics_receive :: "bytes \<Rightarrow> NvstHaptics \<Rightarrow> NvstHaptics" where
  "haptics_receive bs h = (case bs of
     c0 # c1 # l0 # l1 # rest \<Rightarrow>
       let n = unat (from_le16 l0 l1)
       in if length rest < n then h
          else haptics_receive (drop n rest) (receive_command (from_le16 c0 c1) (take n rest) h)
   | _ \<Rightarrow> h)"
  by pat_completeness auto
termination by (relation "measure (length \<circ> fst)") auto

declare haptics_receive.simps [simp del]

definition haptics_take :: "NvstHaptics \<Rightarrow> NvstHaptics \<times> NvstHaptics" where
  "haptics_take h = (h, NvstHaptics_default)"

definition store_sony :: "SonyRumble \<Rightarrow> NvstHaptics \<Rightarrow> NvstHaptics" where
  "store_sony rumble h = store_rumble \<lparr> cr_controller_id = sr_slot rumble, cr_low_frequency = sr_low_frequency rumble,
     cr_high_frequency = sr_high_frequency rumble, cr_duration_ms = 0, cr_source_incarnation = Some (sr_incarnation rumble) \<rparr> h"

definition store_sony_output :: "HidSession \<Rightarrow> HidRuntime \<Rightarrow> u8 \<times> bytes \<Rightarrow> NvstHaptics \<Rightarrow> NvstHaptics" where
  "store_sony_output session runtime out h =
     (case out of (low_id, operation) \<Rightarrow>
        (case take_output operation low_id session of
           None \<Rightarrow> h
         | Some rumble \<Rightarrow> if \<not> output_admitted (sr_slot rumble) runtime then h else store_sony rumble h))"

text \<open>What the bundle loop does with the data of the reliable control channel.\<close>

definition receive_reliable :: "HidSession \<Rightarrow> HidRuntime \<Rightarrow> bytes \<Rightarrow> NvstHaptics \<Rightarrow> NvstHaptics" where
  "receive_reliable session runtime bs h =
     fold (store_sony_output session runtime) (for_each_sony_output bs) (haptics_receive bs h)"

section \<open>The newest command wins\<close>

text \<open>A command of the server: rumble records of the short or the long form, or anything else.\<close>

datatype server_command =
    ShortRumble "(u16 \<times> u16 \<times> u16) list"
  | LongRumble "(u16 \<times> u16 \<times> u16 \<times> u16) list"
  | OtherCommand u16 bytes

fun command_bytes :: "server_command \<Rightarrow> bytes" where
  "command_bytes (ShortRumble rs) = (let body = concat (map (\<lambda>(i, low, high). le16 i @ le16 low @ le16 high) rs)
     in control_command HAPTIC_COMMAND_CODE (le16 1 @ le16 (of_nat (length body)) @ body))"
| "command_bytes (LongRumble rs) = (let body = concat (map (\<lambda>(i, low, high, duration). le16 i @ le16 low @ le16 high @ le16 duration) rs)
     in control_command HAPTIC_COMMAND_CODE (le16 2 @ le16 (of_nat (length body)) @ body))"
| "command_bytes (OtherCommand code payload) = control_command code payload"

fun command_ok :: "server_command \<Rightarrow> bool" where
  "command_ok (ShortRumble rs) = (4 + 6 * length rs \<le> u16_max)"
| "command_ok (LongRumble rs) = (4 + 8 * length rs \<le> u16_max)"
| "command_ok (OtherCommand code payload) = (code \<noteq> HAPTIC_COMMAND_CODE \<and> length payload \<le> u16_max)"

definition rumble :: "u16 \<Rightarrow> u16 \<Rightarrow> u16 \<Rightarrow> u32 \<Rightarrow> NvstControllerRumble list" where
  "rumble i low high duration = (if 4 \<le> i then [] else [\<lparr> cr_controller_id = ucast i, cr_low_frequency = low, cr_high_frequency = high,
     cr_duration_ms = duration, cr_source_incarnation = None \<rparr>])"

fun command_rumbles :: "server_command \<Rightarrow> NvstControllerRumble list" where
  "command_rumbles (ShortRumble rs) = concat (map (\<lambda>(i, low, high). rumble i low high 1000) rs)"
| "command_rumbles (LongRumble rs) = concat (map (\<lambda>(i, low, high, duration). rumble i low high (if duration = 0 then 1000 else ucast duration)) rs)"
| "command_rumbles (OtherCommand _ _) = []"

lemma le16_read: "from_le16 (le16 w ! 0) (le16 w ! 1) = w"
  using from_be16_be16 [of w] by (simp add: le16_def from_le16_def)

lemma chunks_exact_concat:
  assumes "0 < n" and "\<forall>x\<in>set xs. length x = n"
  shows "chunks_exact n (concat xs) = xs"
  using assms(2) by (induction xs) (use assms(1) in \<open>simp_all add: chunks_exact.simps\<close>)

lemma receive_step:
  assumes "length p \<le> u16_max"
  shows "haptics_receive (control_command code p @ rest) h = haptics_receive rest (receive_command code p h)"
proof -
  obtain l0 l1 where l: "le16 (of_nat (length p)) = [l0, l1]" "from_le16 l0 l1 = of_nat (length p)"
    using le16_read [of "of_nat (length p)"] by (simp add: le16_def)
  obtain c0 c1 where c: "le16 code = [c0, c1]" "from_le16 c0 c1 = code" using le16_read [of code] by (simp add: le16_def)
  have "unat (of_nat (length p) :: u16) = length p" using assms by (simp add: unat_of_nat)
  then show ?thesis by (simp add: control_command_def l c haptics_receive.simps [of "_ # _"])
qed

lemma short_record: "receive_record 6 (le16 i @ le16 low @ le16 high) = fold store_rumble (rumble i low high 1000)"
  by (simp add: receive_record_def rumble_def fun_eq_iff Let_def le16_def from_le16_le16)

lemma long_record:
  "receive_record 8 (le16 i @ le16 low @ le16 high @ le16 duration) = fold store_rumble (rumble i low high (if duration = 0 then 1000 else ucast duration))"
  by (simp add: receive_record_def rumble_def fun_eq_iff Let_def le16_def from_le16_le16)

lemma receive_records:
  assumes "(kind, n) = (1, 6) \<or> (kind, n) = (2, 8)" and "\<forall>x\<in>set xs. length x = n" and "length (concat xs) \<le> u16_max"
  shows "receive_command HAPTIC_COMMAND_CODE (le16 kind @ le16 (of_nat (length (concat xs))) @ concat xs) h = fold (receive_record n) xs h"
proof -
  define body where "body = concat xs"
  have "unat (of_nat (length body) :: u16) = length body" using assms(3) by (simp add: unat_of_nat body_def)
  moreover have "chunks_exact n body = xs" unfolding body_def by (rule chunks_exact_concat) (use assms(1,2) in auto)
  moreover have "from_le16 1 0 = 1" "from_le16 2 0 = 2" by (simp_all add: from_le16_def from_be16_def)
  ultimately show ?thesis using assms(1) unfolding body_def [symmetric]
    by (auto simp: receive_command_def Let_def le16_def from_le16_le16 HAPTIC_COMMAND_CODE_def)
qed

lemma fold_concat_map: "(\<And>x. x \<in> set xs \<Longrightarrow> f (b x) = fold g (r x)) \<Longrightarrow> fold f (map b xs) h = fold g (concat (map r xs)) h"
  by (induction xs arbitrary: h) simp_all

lemma receive_command_rumbles:
  assumes "command_ok c"
  shows "haptics_receive (command_bytes c @ rest) h = haptics_receive rest (fold store_rumble (command_rumbles c) h)"
proof (cases c)
  case (ShortRumble rs)
  let ?b = "\<lambda>(i, low, high). le16 i @ le16 low @ le16 high :: bytes"
  have b: "\<forall>x\<in>set (map ?b rs). length x = 6" by auto
  have len: "length (concat (map ?b rs)) = 6 * length rs" by (induction rs) auto
  have "fold (receive_record 6) (map ?b rs) h = fold store_rumble (concat (map (\<lambda>(i, low, high). rumble i low high 1000) rs)) h"
    by (rule fold_concat_map) (auto simp: short_record)
  with receive_records [of 1 6 "map ?b rs" h] b assms ShortRumble len show ?thesis by (simp add: Let_def receive_step)
next
  case (LongRumble rs)
  let ?b = "\<lambda>(i, low, high, duration). le16 i @ le16 low @ le16 high @ le16 duration :: bytes"
  have b: "\<forall>x\<in>set (map ?b rs). length x = 8" by auto
  have len: "length (concat (map ?b rs)) = 8 * length rs" by (induction rs) auto
  have "fold (receive_record 8) (map ?b rs) h
      = fold store_rumble (concat (map (\<lambda>(i, low, high, duration). rumble i low high (if duration = 0 then 1000 else ucast duration)) rs)) h"
    by (rule fold_concat_map) (auto simp: long_record)
  with receive_records [of 2 8 "map ?b rs" h] b assms LongRumble len show ?thesis by (simp add: Let_def receive_step)
next
  case (OtherCommand code payload)
  with assms show ?thesis by (simp add: receive_step receive_command_def)
qed

lemma receive_commands:
  "\<forall>c\<in>set cs. command_ok c \<Longrightarrow> haptics_receive (concat (map command_bytes cs)) h = fold store_rumble (concat (map command_rumbles cs)) h"
  by (induction cs arbitrary: h) (simp_all add: receive_command_rumbles haptics_receive.simps [of "[]"])

text \<open>The pending commands after a sequence of them.\<close>

definition pending_of :: "NvstControllerRumble list \<Rightarrow> nat \<Rightarrow> NvstControllerRumble option" where
  "pending_of rs i = (case rev (filter (\<lambda>c. unat (cr_controller_id c) = i) rs) of [] \<Rightarrow> None | c # _ \<Rightarrow> Some c)"

lemma pending_of_snoc: "pending_of (rs @ [c]) i = (if unat (cr_controller_id c) = i then Some c else pending_of rs i)"
  by (simp add: pending_of_def)

lemma store_all:
  assumes "\<forall>c\<in>set rs. unat (cr_controller_id c) < 4" and "length rs \<le> u64_max"
  defines "h \<equiv> fold store_rumble rs NvstHaptics_default"
  shows "hp_pending h = map (pending_of rs) [0..<4]" and "hp_superseded h + card {i. i < 4 \<and> pending_of rs i \<noteq> None} = length rs"
proof -
  have "hp_pending (fold store_rumble rs NvstHaptics_default) = map (pending_of rs) [0..<4]
    \<and> hp_superseded (fold store_rumble rs NvstHaptics_default) + card {i. i < 4 \<and> pending_of rs i \<noteq> None} = length rs"
    using assms(1,2)
  proof (induction rs rule: rev_induct)
    case Nil
    show ?case by (simp add: NvstHaptics_default_def pending_of_def map_replicate_trivial flip: map_replicate_const)
  next
    case (snoc c rs)
    let ?h = "fold store_rumble rs NvstHaptics_default" and ?i = "unat (cr_controller_id c)"
    let ?S = "{i. i < 4 \<and> pending_of rs i \<noteq> None}" and ?T = "{i. i < 4 \<and> pending_of (rs @ [c]) i \<noteq> None}"
    from snoc have IH: "hp_pending ?h = map (pending_of rs) [0..<4]" "hp_superseded ?h + card ?S = length rs" and i: "?i < 4" by auto
    have "hp_pending (store_rumble c ?h) = map (pending_of (rs @ [c])) [0..<4]"
      using i by (intro nth_equalityI) (auto simp: store_rumble_def Let_def IH(1) nth_list_update pending_of_snoc)
    moreover have "?T = insert ?i ?S" using i by (auto simp: pending_of_snoc)
    then have "card ?T = card ?S + (if pending_of rs ?i \<noteq> None then 0 else 1)" using i by (auto simp: card_insert_if insert_absorb)
    then have "hp_superseded (store_rumble c ?h) + card ?T = Suc (length rs)"
      using IH snoc.prems(2) i by (auto simp: store_rumble_def Let_def sat_add_usize_def)
    ultimately show ?case by simp
  qed
  then show "hp_pending h = map (pending_of rs) [0..<4]" "hp_superseded h + card {i. i < 4 \<and> pending_of rs i \<noteq> None} = length rs"
    by (simp_all add: h_def)
qed

lemma rumbles_in_range: "r \<in> set (command_rumbles c) \<Longrightarrow> unat (cr_controller_id r) < 4"
proof -
  have "unat (ucast i :: u8) < 4" if "\<not> 4 \<le> i" for i :: u16
    using that by (simp add: unsigned_ucast_eq word_le_nat_alt not_le) (metis take_bit_nat_less_eq_self order_le_less_trans)
  then have "r \<in> set (rumble i low high d) \<Longrightarrow> unat (cr_controller_id r) < 4" for i low high d by (auto simp: rumble_def split: if_splits)
  then show "unat (cr_controller_id r) < 4" if "r \<in> set (command_rumbles c)" using that by (cases c) auto
qed

text \<open>Whatever commands the server sends, the player's thread takes for every controller exactly the newest rumble
  command for it, and the count of superseded commands accounts for all the others.\<close>

theorem haptics_latest_wins:
  assumes "\<forall>c\<in>set cs. command_ok c" and "rs = concat (map command_rumbles cs)" and "length rs \<le> u64_max"
    and "haptics_take (haptics_receive (concat (map command_bytes cs)) NvstHaptics_default) = (taken, h')"
  shows "hp_pending taken = map (pending_of rs) [0..<4]
    \<and> hp_superseded taken + card {i. i < 4 \<and> pending_of rs i \<noteq> None} = length rs \<and> h' = NvstHaptics_default"
proof -
  have "\<forall>c\<in>set rs. unat (cr_controller_id c) < 4" using rumbles_in_range by (auto simp: assms(2))
  from store_all [OF this assms(3)] assms(4) receive_commands [OF assms(1), of NvstHaptics_default] show ?thesis
    by (simp add: haptics_take_def assms(2) flip: assms(2))
qed

theorem haptics_latest_wins_witness:
  "let taken = fst (haptics_take (haptics_receive (concat (map command_bytes
       [ShortRumble [(3, 2, 3), (9, 9, 9)], OtherCommand 5 [7], LongRumble [(3, 4, 5, 60), (2, 6, 7, 0)]])) NvstHaptics_default))
   in map_option cr_low_frequency (hp_pending taken ! 3) = Some 4 \<and> map_option cr_duration_ms (hp_pending taken ! 2) = Some 1000
     \<and> hp_pending taken ! 0 = None"
proof -
  let ?cs = "[ShortRumble [(3, 2, 3), (9, 9, 9)], OtherCommand 5 [7], LongRumble [(3, 4, 5, 60), (2, 6, 7, 0)]]"
  obtain taken h' where t: "haptics_take (haptics_receive (concat (map command_bytes ?cs)) NvstHaptics_default) = (taken, h')" by (metis surj_pair)
  have "\<forall>c\<in>set ?cs. command_ok c" "length (concat (map command_rumbles ?cs)) \<le> u64_max" by (simp_all add: HAPTIC_COMMAND_CODE_def rumble_def)
  from haptics_latest_wins [OF this(1) refl this(2) t] have "hp_pending taken = map (pending_of (concat (map command_rumbles ?cs))) [0..<4]" by blast
  then show ?thesis unfolding t by (simp add: pending_of_def rumble_def)
qed

section \<open>The rumble of a Sony device\<close>

text \<open>An output report of the server rumbles a Sony device exactly when the device is attached in the stream and its
  slot is captured, bound and not faulted; the command then names the attached device, so that the player's thread can tell
  it from another one plugged into the same slot, and no other controller is touched.\<close>

theorem sony_rumble_gated:
  assumes "session_shape session" and "length (hp_pending h) = 4" and "h' = store_sony_output session runtime (low_id, operation) h"
  shows "(h' \<noteq> h \<longrightarrow> (\<exists>slot rumble. slot_for_low_id low_id = Some slot \<and> unat slot < MAX_SOURCES \<and> output_admitted slot runtime
        \<and> attached slot session \<noteq> None \<and> h' = store_rumble rumble h \<and> cr_controller_id rumble = slot
        \<and> cr_source_incarnation rumble = attached slot session
        \<and> (\<forall>i<4. i \<noteq> unat slot \<longrightarrow> hp_pending h' ! i = hp_pending h ! i)))
    \<and> (\<forall>slot. slot_for_low_id low_id = Some slot \<longrightarrow> attached slot session \<noteq> None \<longrightarrow> output_admitted slot runtime
        \<longrightarrow> DS4_OUTPUT_MIN_BYTES \<le> length operation \<longrightarrow> operation ! 0 = DS4_OUTPUT_REPORT_ID \<longrightarrow> operation ! 1 AND DS4_OUTPUT_ENABLE_BIT \<noteq> 0
        \<longrightarrow> map_option cr_source_incarnation (hp_pending h' ! unat slot) = Some (attached slot session))"
proof (cases "take_output operation low_id session")
  case None
  with assms(3) have "h' = h" by (simp add: store_sony_output_def)
  with None show ?thesis by (auto simp: take_output_def attached_def split: option.splits if_splits)
next
  case (Some rumble)
  then obtain source where r: "slot_for_low_id low_id = Some (sr_slot rumble)" "source_at (sr_slot rumble) session = Some source"
    "sr_incarnation rumble = as_incarnation source" by (auto simp: take_output_def split: option.splits if_splits)
  have slot: "unat (sr_slot rumble) < MAX_SOURCES" using source_slot [OF assms(1)] r(2) by auto
  show ?thesis
  proof (cases "output_admitted (sr_slot rumble) runtime")
    case True
    with Some assms(3) have h': "h' = store_sony rumble h" by (simp add: store_sony_output_def)
    let ?c = "\<lparr> cr_controller_id = sr_slot rumble, cr_low_frequency = sr_low_frequency rumble, cr_high_frequency = sr_high_frequency rumble,
      cr_duration_ms = 0, cr_source_incarnation = Some (sr_incarnation rumble) \<rparr>"
    have h'c: "h' = store_rumble ?c h" using h' by (simp add: store_sony_def)
    have at: "attached (sr_slot rumble) session = Some (sr_incarnation rumble)" using r by (simp add: attached_def)
    have stored: "hp_pending h' ! unat (sr_slot rumble) = Some ?c" "\<forall>i<4. i \<noteq> unat (sr_slot rumble) \<longrightarrow> hp_pending h' ! i = hp_pending h ! i"
      using slot assms(2) by (simp_all add: h'c store_rumble_def Let_def MAX_SOURCES_def)
    have "\<exists>slot rumble. slot_for_low_id low_id = Some slot \<and> unat slot < MAX_SOURCES \<and> output_admitted slot runtime
        \<and> attached slot session \<noteq> None \<and> h' = store_rumble rumble h \<and> cr_controller_id rumble = slot
        \<and> cr_source_incarnation rumble = attached slot session
        \<and> (\<forall>i<4. i \<noteq> unat slot \<longrightarrow> hp_pending h' ! i = hp_pending h ! i)"
      by (intro exI [of _ "sr_slot rumble"] exI [of _ ?c]) (use r slot True at stored(2) h'c in simp)
    moreover have "\<forall>slot. slot_for_low_id low_id = Some slot \<longrightarrow> map_option cr_source_incarnation (hp_pending h' ! unat slot) = Some (attached slot session)"
      using r(1) at stored(1) by simp
    ultimately show ?thesis by blast
  next
    case False
    with Some assms(3) have "h' = h" by (simp add: store_sony_output_def)
    with False r(1) show ?thesis by auto
  qed
qed

theorem sony_rumble_gated_witness:
  "map_option cr_source_incarnation (hp_pending (store_sony_output sample_session (sample_runtime\<lparr> hr_capture_active := True \<rparr>)
     (6, [5, 1, 0, 0, 9, 9]) NvstHaptics_default) ! 0) = Some (Some 1)"
proof -
  let ?r = "sample_runtime\<lparr> hr_capture_active := True \<rparr>"
  have shape: "session_shape sample_session" by (simp add: session_shape_def sample_session_def HidSession_new_def MAX_SOURCES_def)
  have "length (hp_pending NvstHaptics_default) = 4" by (simp add: NvstHaptics_default_def)
  moreover have "slot_for_low_id 6 = Some 0" by (simp add: slot_for_low_id_def DS4_LOW_ID_BASE_def MAX_SOURCES_def)
  moreover have at: "attached 0 sample_session = Some 1" by (simp add: attached_def source_at_def sample_session_def)
  moreover have "output_admitted 0 ?r"
    by (simp add: output_admitted_def sample_runtime inventory_incarnation_def inventory_claim_def SourceLane_default_def)
  ultimately show ?thesis
    using sony_rumble_gated [OF shape _ refl, of NvstHaptics_default ?r 6 "[5, 1, 0, 0, 9, 9]"]
    by (simp add: DS4_OUTPUT_MIN_BYTES_def DS4_OUTPUT_REPORT_ID_def DS4_OUTPUT_ENABLE_BIT_def)
qed

end
