(* ===== verification/SessionEvents.thy ===== *)
theory SessionEvents
  imports Playback Haptics InputSession
begin

text \<open>
  The session thread (\<open>forward_nvst_session_events\<close> and what it calls in \<open>lib.rs\<close> of the core crate): it brings together
  the events of the receiver, the feedback of the media pipeline, captured input and rumble, drives recovery, and ends
  the session. One turn of its loop is one definition; what the channels hand over in a turn is an input of the turn. The
  transport and the media pipeline are reached through calls that are recorded in order, with the answers of the fallible
  ones as functions of the calls so far; events for the host are recorded as they are offered, and a function says which
  of them the channel takes. The human-readable text of an event and the telemetry report are left out.
\<close>

section \<open>State\<close>

datatype State = Idle | Connected

text \<open>Of the context of a session only its session id is read here.\<close>

record Lifecycle_state =
  lc_state :: State
  lc_context :: "string option"
  lc_generation :: u64

text \<open>What the engine does to the lifecycle under its lock when a command starts or stops a session.\<close>

datatype engine_op = EngineStart string | EngineStop

definition engine_stop :: "Lifecycle_state \<Rightarrow> Lifecycle_state" where
  "engine_stop l = l\<lparr> lc_generation := lc_generation l + 1, lc_context := None, lc_state := Idle \<rparr>"

definition engine_start :: "string \<Rightarrow> Lifecycle_state \<Rightarrow> Lifecycle_state" where
  "engine_start context l =
     (if lc_state l \<noteq> Idle then l
      else l\<lparr> lc_generation := lc_generation l + 1, lc_context := Some context, lc_state := Connected \<rparr>)"

fun engine_step :: "engine_op \<Rightarrow> Lifecycle_state \<Rightarrow> Lifecycle_state" where
  "engine_step (EngineStart context) l = engine_start context l"
| "engine_step EngineStop l = engine_stop l"

datatype resource_call =
    RequestKeyframeCall
  | AcknowledgeCall u32 u32
  | SendInputCall bytes instant
  | SendTextCall bytes u64
  | ApplyCursorCall bytes
  | RecoverCall
  | StopCall
  | TextReadyCall bool
  | ClearInputCall

datatype session_output =
    LogEvent string
  | ErrorEvent string
  | StatusEvent string "string option"
  | CursorCaptureEvent string bool
  | RumbleEvent string NvstControllerRumble
  | TransportReadyEvent string
  | InputReadyEvent u16
  | InputUnavailableEvent string
  | OverlayRequestEvent
  | ScreenshotRequestEvent
  | RecordingToggleEvent
  | ShortcutActionEvent StreamShortcutAction
  | QueueDroppedEvent string nat

record QueueDropReports =
  qr_pending :: "(string \<times> nat) list"
  qr_last_flush :: instant

record session_env =
  en_generation :: u64
  en_start_id :: string
  en_accepts :: "nat \<Rightarrow> bool"
  en_recover_error :: "resource_call list \<Rightarrow> string option"
  en_send_error :: "resource_call list \<Rightarrow> string option"
  en_tune :: "u16 \<Rightarrow> u16 \<Rightarrow> u16 \<times> u16"
  en_policy :: DecodeProgressPolicy
  en_input_origin :: instant
  en_runtime_embedded :: "bool option"
  en_control_fails :: bool

record session =
  sv_lifecycle :: Lifecycle_state
  sv_drop_reports :: QueueDropReports
  sv_recovery_attempts :: nat
  sv_input_available :: bool
  sv_decode_timings :: "DecodeTimingsReport option"
  sv_decode_progress :: DecodeProgressWatchdog
  sv_transport_stalled :: bool
  sv_pending_cursor :: "bool option"
  sv_pending_rumble :: "NvstControllerRumble option list"
  sv_calls :: "resource_call list"
  sv_offered :: "session_output list"

definition NVST_RECOVERY_ATTEMPT_LIMIT :: nat where "NVST_RECOVERY_ATTEMPT_LIMIT = 1"

definition call :: "resource_call \<Rightarrow> session \<Rightarrow> session" where
  "call c s = s\<lparr> sv_calls := sv_calls s @ [c] \<rparr>"

definition offer_event :: "session_env \<Rightarrow> session_output \<Rightarrow> session \<Rightarrow> bool \<times> session" where
  "offer_event env e s = (en_accepts env (length (sv_offered s)), s\<lparr> sv_offered := sv_offered s @ [e] \<rparr>)"

definition tell :: "session_env \<Rightarrow> session_output \<Rightarrow> session \<Rightarrow> session" where
  "tell env e s = snd (offer_event env e s)"

definition current :: "session_env \<Rightarrow> session \<Rightarrow> bool" where
  "current env s \<longleftrightarrow> lc_generation (sv_lifecycle s) = en_generation env"

section \<open>Drop reports\<close>

definition drop_record :: "string \<Rightarrow> nat \<Rightarrow> QueueDropReports \<Rightarrow> QueueDropReports" where
  "drop_record media amount q =
     (if amount = 0 then q
      else q\<lparr> qr_pending := (case map_of (qr_pending q) media of
         None \<Rightarrow> qr_pending q @ [(media, sat_add_usize 0 amount)]
       | Some _ \<Rightarrow> map (\<lambda>(m, n). if m = media then (m, sat_add_usize n amount) else (m, n)) (qr_pending q)) \<rparr>)"

text \<open>\<open>retain\<close> over the reports, in the order the map yields them.\<close>

fun flush_reports :: "session_env \<Rightarrow> bool \<Rightarrow> (string \<times> nat) list \<Rightarrow> session \<Rightarrow> (string \<times> nat) list \<times> session" where
  "flush_reports env final_flush [] s = ([], s)"
| "flush_reports env final_flush ((media, amount) # pending) s =
     (case offer_event env (QueueDroppedEvent media amount) s of (taken, s) \<Rightarrow>
        (case flush_reports env final_flush pending s of (kept, s) \<Rightarrow>
           (if taken \<or> final_flush then kept else (media, amount) # kept, s)))"

definition drop_flush :: "session_env \<Rightarrow> instant \<Rightarrow> bool \<Rightarrow> session \<Rightarrow> session" where
  "drop_flush env now final_flush s =
     (let q = sv_drop_reports s
      in if \<not> final_flush \<and> now - qr_last_flush q < secs 1 then s
         else case flush_reports env final_flush (qr_pending q) s of
                (kept, s) \<Rightarrow> s\<lparr> sv_drop_reports := \<lparr> qr_pending = kept, qr_last_flush = now \<rparr> \<rparr>)"

definition record_drop :: "string \<Rightarrow> nat \<Rightarrow> session \<Rightarrow> session" where
  "record_drop media amount s = s\<lparr> sv_drop_reports := drop_record media amount (sv_drop_reports s) \<rparr>"

section \<open>Ending and recovering\<close>

definition emit_nvst_terminal :: "session_env \<Rightarrow> string \<Rightarrow> session \<Rightarrow> bool \<times> session" where
  "emit_nvst_terminal env code s =
     (if \<not> current env s then (True, s)
      else let s = s\<lparr> sv_lifecycle := (sv_lifecycle s)\<lparr> lc_context := None, lc_state := Idle \<rparr> \<rparr>;
               s = call StopCall s;
               s = tell env (ErrorEvent code) s
           in (True, tell env (StatusEvent ''stopped'' (Some code)) s))"

definition attempt_nvst_recovery :: "session_env \<Rightarrow> session \<Rightarrow> bool \<times> session" where
  "attempt_nvst_recovery env s =
     (if NVST_RECOVERY_ATTEMPT_LIMIT \<le> sv_recovery_attempts s then emit_nvst_terminal env ''nvst-recovery-exhausted'' s
      else let s = call RequestKeyframeCall (s\<lparr> sv_recovery_attempts := sv_recovery_attempts s + 1 \<rparr>);
               failure = en_recover_error env (sv_calls s);
               s = call RecoverCall s
           in case failure of
                Some _ \<Rightarrow> emit_nvst_terminal env ''nvst-recovery-failed'' s
              | None \<Rightarrow> (False, tell env (LogEvent ''warn'') s))"

section \<open>Events of the receiver\<close>

definition flush_cursor_capture :: "session_env \<Rightarrow> session \<Rightarrow> session" where
  "flush_cursor_capture env s =
     (case sv_pending_cursor s of
        None \<Rightarrow> s
      | Some composited \<Rightarrow>
          if \<not> current env s \<or> lc_context (sv_lifecycle s) = None then s\<lparr> sv_pending_cursor := None \<rparr>
          else case offer_event env (CursorCaptureEvent (en_start_id env) composited) s of
                 (taken, s) \<Rightarrow> if taken then s\<lparr> sv_pending_cursor := None \<rparr> else s)"

text \<open>\<open>between\<close> is what the engine does after the generation was checked and before the state is stored: the two take the
  lock separately.\<close>

definition forward_nvst_event :: "session_env \<Rightarrow> engine_op list \<Rightarrow> NvstReceiveEvent \<Rightarrow> session \<Rightarrow> bool \<times> session" where
  "forward_nvst_event env between event s =
     (if \<not> current env s then (True, s)
      else case event of
        InputQueued \<Rightarrow> (False, s)
      | MicrophoneError _ \<Rightarrow> (False, s)
      | FrameProgressStall _ _ recovery_required \<Rightarrow> (False, if recovery_required then s else tell env (LogEvent ''warn'') s)
      | FrameProgressResumed \<Rightarrow> (False, s)
      | RecoveryNeeded (PacketGap _ _) \<Rightarrow> (False, tell env (LogEvent ''warn'') (call RequestKeyframeCall s))
      | RecoveryNeeded _ \<Rightarrow> attempt_nvst_recovery env s
      | Lifecycle RecoveryRequired \<Rightarrow> attempt_nvst_recovery env s
      | Lifecycle Stopped \<Rightarrow> emit_nvst_terminal env ''nvst-transport-stopped'' s
      | Dropped MediaConsumerBackpressured \<Rightarrow> (False, tell env (LogEvent ''warn'') (call RequestKeyframeCall s))
      | Dropped MediaConsumerClosed \<Rightarrow> emit_nvst_terminal env ''media-consumer-closed'' s
      | Lifecycle Running \<Rightarrow>
          let l = fold engine_step between (sv_lifecycle s)
          in (False, tell env (StatusEvent ''streaming'' None) (s\<lparr> sv_lifecycle := l\<lparr> lc_state := Connected \<rparr> \<rparr>))
      | Lifecycle Paused \<Rightarrow> (False, tell env (StatusEvent ''paused'' None) s)
      | TransportReady phase \<Rightarrow> (False, tell env (TransportReadyEvent phase) s)
      | InputReady version \<Rightarrow> (False, tell env (InputReadyEvent version) s)
      | InputUnavailable reason \<Rightarrow> (False, tell env (InputUnavailableEvent reason) s)
      | Cursor bs \<Rightarrow> (False, call (ApplyCursorCall bs) s)
      | CursorCapture composited \<Rightarrow> (False, flush_cursor_capture env (s\<lparr> sv_pending_cursor := Some composited \<rparr>))
      | Dropped AwaitingStartOfFrame \<Rightarrow> (False, s)
      | Dropped (StaleRtpPacket _) \<Rightarrow> (False, s)
      | Dropped (DuplicateRtpPacket _) \<Rightarrow> (False, s)
      | Dropped _ \<Rightarrow> (False, tell env (LogEvent ''debug'') s)
      | Frame _ \<Rightarrow> (False, s))"

section \<open>Feedback of the media pipeline\<close>

definition forward_nvst_media_feedback :: "session_env \<Rightarrow> MediaFeedback \<Rightarrow> session \<Rightarrow> session" where
  "forward_nvst_media_feedback env feedback s =
     (case feedback of
        QueueDropped media amount \<Rightarrow> record_drop media amount s
      | _ \<Rightarrow>
        if \<not> current env s then s
        else case feedback of
          VideoFrameAccepted frame_index _ accepted_bytes keyframe \<Rightarrow>
            let s = s\<lparr> sv_transport_stalled := False \<rparr>;
                s = (case frame_index of None \<Rightarrow> s | Some i \<Rightarrow> call (AcknowledgeCall i accepted_bytes) s)
            in if keyframe then s\<lparr> sv_recovery_attempts := 0 \<rparr> else s
        | PlaybackStarted _ \<Rightarrow> tell env (StatusEvent ''streaming'' None) s
        | BackendFallback _ _ _ \<Rightarrow> tell env (LogEvent ''warn'') s
        | ColorFormatChanged requested actual \<Rightarrow>
            (if lc_context (sv_lifecycle s) = None then s
             else tell env (LogEvent (if requested = actual then ''info'' else ''warn'')) s)
        | RequestKeyframe _ _ \<Rightarrow> tell env (LogEvent ''info'') (call RequestKeyframeCall s)
        | DecoderError _ _ \<Rightarrow> tell env (ErrorEvent ''media-decode-error'') s
        | AudioDecoderError _ _ \<Rightarrow> tell env (LogEvent ''warn'') s
        | AudioUnavailable _ _ _ \<Rightarrow> tell env (LogEvent ''warn'') s
        | OutputError _ \<Rightarrow> tell env (ErrorEvent ''media-output-error'') s
        | DeviceLost _ back _ \<Rightarrow> tell env (LogEvent (if back then ''info'' else ''warn'')) s
        | DecodeTimings timings \<Rightarrow> s\<lparr> sv_decode_timings := Some timings \<rparr>
        | QueueDropped _ _ \<Rightarrow> s)"

section \<open>Rumble and captured input\<close>

definition forward_controller_rumble :: "session_env \<Rightarrow> NvstControllerRumble \<Rightarrow> session \<Rightarrow> bool \<times> session" where
  "forward_controller_rumble env command s =
     (if \<not> current env s \<or> lc_state (sv_lifecycle s) \<noteq> Connected then (True, s)
      else offer_event env (RumbleEvent (en_start_id env) command) s)"

definition keep_rumble :: "NvstControllerRumble \<Rightarrow> session \<Rightarrow> session" where
  "keep_rumble command s =
     (let i = unat (cr_controller_id command); earlier = sv_pending_rumble s ! i;
          s = s\<lparr> sv_pending_rumble := (sv_pending_rumble s)[i := Some command] \<rparr>
      in if earlier \<noteq> None then record_drop ''controller-rumble-coalesced'' 1 s else s)"

definition forward_rumble_slot :: "session_env \<Rightarrow> nat \<Rightarrow> session \<Rightarrow> session" where
  "forward_rumble_slot env i s =
     (case sv_pending_rumble s ! i of
        None \<Rightarrow> s
      | Some command \<Rightarrow>
          (case forward_controller_rumble env command s of
             (done, s) \<Rightarrow> if done then s\<lparr> sv_pending_rumble := (sv_pending_rumble s)[i := None] \<rparr> else s))"

definition forward_rumble :: "session_env \<Rightarrow> NvstHaptics \<Rightarrow> session \<Rightarrow> session" where
  "forward_rumble env taken s =
     (let s = record_drop ''controller-rumble-coalesced'' (hp_superseded taken) s;
          s = fold keep_rumble (List.map_filter id (hp_pending taken)) s
      in fold (forward_rumble_slot env) [0..<4] s)"

definition forward_shortcut_action :: "session_env \<Rightarrow> StreamShortcutAction \<Rightarrow> session \<Rightarrow> session" where
  "forward_shortcut_action env action s =
     (if action = TogglePointerLock \<and> en_runtime_embedded env = Some True then tell env (ShortcutActionEvent action) s
      else if action = TogglePointerLock
           then if en_runtime_embedded env = None \<or> en_control_fails env then tell env (LogEvent ''warn'') s else s
      else tell env (ShortcutActionEvent action) s)"

text \<open>The call of \<open>captured_input_packet\<close> may panic: then there is no next state.\<close>

definition forward_nvst_captured_sample :: "session_env \<Rightarrow> CapturedInputSample \<Rightarrow> session \<Rightarrow> (string option \<times> session) option" where
  "forward_nvst_captured_sample env sample s =
     (let timestamp_us = of_nat (min ((cs_captured_at sample - en_input_origin env) div 1000) u64_max)
      in case cs_input sample of
           Guide \<Rightarrow> Some (None, s)
         | Screenshot \<Rightarrow> Some (None, s)
         | RecordingToggle \<Rightarrow> Some (None, s)
         | Shortcut _ \<Rightarrow> Some (None, s)
         | Text bs \<Rightarrow> Some (en_send_error env (sv_calls s), call (SendTextCall bs timestamp_us) s)
         | input \<Rightarrow>
             map_option (\<lambda>packet. (en_send_error env (sv_calls s), call (SendInputCall packet (cs_captured_at sample)) s))
               (captured_input_packet (en_tune env) input timestamp_us))"

text \<open>The loop over the samples of a turn; the first component says that the session goes on.\<close>

fun forward_samples :: "session_env \<Rightarrow> CapturedInputSample list \<Rightarrow> session \<Rightarrow> (bool \<times> session) option" where
  "forward_samples env [] s = Some (True, s)"
| "forward_samples env (sample # samples) s =
     (case cs_input sample of
        Guide \<Rightarrow> forward_samples env samples (tell env OverlayRequestEvent s)
      | Screenshot \<Rightarrow> forward_samples env samples (tell env ScreenshotRequestEvent s)
      | RecordingToggle \<Rightarrow> forward_samples env samples (tell env RecordingToggleEvent s)
      | Shortcut action \<Rightarrow> forward_samples env samples (forward_shortcut_action env action s)
      | _ \<Rightarrow>
          (case forward_nvst_captured_sample env sample s of
             None \<Rightarrow> None
           | Some (Some _, s) \<Rightarrow> Some (False, snd (emit_nvst_terminal env ''native-input-capture-failed'' s))
           | Some (None, s) \<Rightarrow> forward_samples env samples s))"

section \<open>One turn\<close>

datatype received = ReceivedEvent NvstReceiveEvent | ReceiveTimeout | ReceiveDisconnected

record session_turn =
  tu_feedback :: "MediaFeedback list"
  tu_rumble :: NvstHaptics
  tu_capture :: bool
  tu_overflowed :: bool
  tu_samples :: "CapturedInputSample list"
  tu_received :: received
  tu_between :: "engine_op list"
  tu_last_assembled_at :: "instant option"
  tu_now :: instant

definition forward_input :: "session_env \<Rightarrow> session_turn \<Rightarrow> session \<Rightarrow> (bool \<times> session) option" where
  "forward_input env t s =
     (if \<not> tu_capture t then Some (True, s)
      else if \<not> sv_input_available s then Some (True, call ClearInputCall s)
      else if tu_overflowed t then Some (False, snd (emit_nvst_terminal env ''native-input-capture-overflow'' s))
      else forward_samples env (take 32 (tu_samples t)) s)"

definition note_availability :: "bool \<Rightarrow> NvstReceiveEvent \<Rightarrow> session \<Rightarrow> session" where
  "note_availability capture event s =
     (let set_ready = (\<lambda>ready s. if capture then call (TextReadyCall ready) s else s)
      in case event of
           InputReady _ \<Rightarrow> set_ready True (s\<lparr> sv_input_available := True \<rparr>)
         | InputUnavailable _ \<Rightarrow> set_ready False (s\<lparr> sv_input_available := False \<rparr>)
         | FrameProgressStall _ _ _ \<Rightarrow> s\<lparr> sv_transport_stalled := True \<rparr>
         | RecoveryNeeded (FrameProgress _ _) \<Rightarrow> s\<lparr> sv_transport_stalled := True \<rparr>
         | FrameProgressResumed \<Rightarrow> s\<lparr> sv_transport_stalled := False \<rparr>
         | _ \<Rightarrow> s)"

definition receive_event :: "session_env \<Rightarrow> session_turn \<Rightarrow> session \<Rightarrow> bool \<times> session" where
  "receive_event env t s =
     (case tu_received t of
        ReceivedEvent event \<Rightarrow>
          (case forward_nvst_event env (tu_between t) event (note_availability (tu_capture t) event s) of (terminal, s) \<Rightarrow> (\<not> terminal, s))
      | ReceiveTimeout \<Rightarrow> (True, s)
      | ReceiveDisconnected \<Rightarrow> (False, snd (emit_nvst_terminal env ''nvst-event-channel-closed'' s)))"

definition poll_decoder :: "session_env \<Rightarrow> session_turn \<Rightarrow> session \<Rightarrow> bool \<times> session" where
  "poll_decoder env t s =
     (case sv_decode_timings s of
        None \<Rightarrow> (True, s)
      | Some timings \<Rightarrow>
          (case decode_poll timings (sv_transport_stalled s) (if tr_in_flight timings = 0 then tu_last_assembled_at t else None)
                  (tu_now t) (en_policy env) (sv_decode_progress s) of
             (event, w) \<Rightarrow>
               let s = s\<lparr> sv_decode_progress := w \<rparr>
               in (case event of
                     None \<Rightarrow> (True, s)
                   | Some (DecodeKeyframeRequested _ _) \<Rightarrow> (True, tell env (LogEvent ''warn'') (call RequestKeyframeCall s))
                   | Some (DecodeRecoveryNeeded _ _) \<Rightarrow> (case attempt_nvst_recovery env s of (terminal, s) \<Rightarrow> (\<not> terminal, s)))))"

definition session_turn_step :: "session_env \<Rightarrow> session_turn \<Rightarrow> session \<Rightarrow> (bool \<times> session) option" where
  "session_turn_step env t s =
     (let s = flush_cursor_capture env s;
          s = fold (forward_nvst_media_feedback env) (tu_feedback t) s;
          s = drop_flush env (tu_now t) False s
      in if \<not> current env s then Some (False, s)
         else case forward_input env t (forward_rumble env (tu_rumble t) s) of
                None \<Rightarrow> None
              | Some (False, s) \<Rightarrow> Some (False, s)
              | Some (True, s) \<Rightarrow>
                  (case receive_event env t s of
                     (False, s) \<Rightarrow> Some (False, s)
                   | (True, s) \<Rightarrow> Some (poll_decoder env t s)))"

definition session_new :: "session_env \<Rightarrow> bool \<Rightarrow> instant \<Rightarrow> Lifecycle_state \<Rightarrow> session" where
  "session_new env capture now l =
     (let s = \<lparr> sv_lifecycle = l, sv_drop_reports = \<lparr> qr_pending = [], qr_last_flush = now \<rparr>, sv_recovery_attempts = 0,
                sv_input_available = False, sv_decode_timings = None, sv_decode_progress = DecodeProgressWatchdog_default,
                sv_transport_stalled = False, sv_pending_cursor = None, sv_pending_rumble = replicate 4 None, sv_calls = [], sv_offered = [] \<rparr>
      in if capture then call (TextReadyCall False) s else s)"

text \<open>After the loop.\<close>

definition session_close :: "session_env \<Rightarrow> bool \<Rightarrow> instant \<Rightarrow> session \<Rightarrow> session" where
  "session_close env capture now s = drop_flush env now True (if capture then call (TextReadyCall False) s else s)"

text \<open>The loop: between two turns the engine may start or stop a session.\<close>

datatype session_event = Turn session_turn | EngineOp engine_op

fun run_session :: "session_env \<Rightarrow> session_event list \<Rightarrow> session \<Rightarrow> (bool \<times> session) option" where
  "run_session env [] s = Some (True, s)"
| "run_session env (EngineOp op # events) s = run_session env events (s\<lparr> sv_lifecycle := engine_step op (sv_lifecycle s) \<rparr>)"
| "run_session env (Turn t # events) s =
     (case session_turn_step env t s of
        None \<Rightarrow> None
      | Some (True, s) \<Rightarrow> run_session env events s
      | Some (False, s) \<Rightarrow> Some (False, s))"

section \<open>What a turn does\<close>

text \<open>
  Part of a turn that does not end the session: it adds calls without a stop, and at least \<open>d\<close> recoveries; where no key
  frame is accepted (\<open>k\<close>), the recoveries are counted and stay within the limit.
\<close>

definition moved :: "bool \<Rightarrow> nat \<Rightarrow> session \<Rightarrow> session \<Rightarrow> bool" where
  "moved k d s s' \<longleftrightarrow> (\<exists>cs. sv_calls s' = sv_calls s @ cs \<and> StopCall \<notin> set cs \<and> d \<le> count_list cs RecoverCall
     \<and> (k \<longrightarrow> sv_recovery_attempts s' = sv_recovery_attempts s + count_list cs RecoverCall
            \<and> (sv_recovery_attempts s \<le> NVST_RECOVERY_ATTEMPT_LIMIT \<longrightarrow> sv_recovery_attempts s' \<le> NVST_RECOVERY_ATTEMPT_LIMIT)))"

text \<open>The end of a session: everything is stopped, the lifecycle is idle and the host is told why.\<close>

definition stopped :: "session \<Rightarrow> session \<Rightarrow> bool" where
  "stopped s s' \<longleftrightarrow> sv_calls s' = sv_calls s @ [StopCall] \<and> sv_recovery_attempts s' = sv_recovery_attempts s
     \<and> lc_state (sv_lifecycle s') = Idle \<and> lc_context (sv_lifecycle s') = None
     \<and> (\<exists>code. sv_offered s' = sv_offered s @ [ErrorEvent code, StatusEvent ''stopped'' (Some code)])"

definition ended :: "bool \<Rightarrow> session \<Rightarrow> session \<Rightarrow> bool" where
  "ended k s s' \<longleftrightarrow> (\<exists>s1. moved k 0 s s1 \<and> (s' = s1 \<or> stopped s1 s'))"

lemma moved_refl [simp]: "moved k 0 s s"
  by (auto simp: moved_def)

lemma moved_trans:
  assumes "moved k d s s1" and "moved k d1 s1 s2"
  shows "moved k (d + d1) s s2"
proof -
  from assms obtain cs cs1 where "sv_calls s1 = sv_calls s @ cs" "StopCall \<notin> set cs" "d \<le> count_list cs RecoverCall"
    "sv_calls s2 = sv_calls s1 @ cs1" "StopCall \<notin> set cs1" "d1 \<le> count_list cs1 RecoverCall"
    "k \<Longrightarrow> sv_recovery_attempts s1 = sv_recovery_attempts s + count_list cs RecoverCall"
    "k \<Longrightarrow> sv_recovery_attempts s2 = sv_recovery_attempts s1 + count_list cs1 RecoverCall"
    by (auto simp: moved_def)
  with assms show ?thesis unfolding moved_def [of k "d + d1"] by (intro exI [of _ "cs @ cs1"]) (auto simp: moved_def)
qed

lemma moved_quiet [intro]: "moved k 0 s s1 \<Longrightarrow> moved k d s1 s2 \<Longrightarrow> moved k d s s2"
  using moved_trans [of k 0 s s1 d s2] by simp

lemma moved_then_quiet: "moved k d s s1 \<Longrightarrow> moved k 0 s1 s2 \<Longrightarrow> moved k d s s2"
  using moved_trans [of k d s s1 0 s2] by simp

lemma moved_less: "moved k d s s1 \<Longrightarrow> moved k 0 s s1"
  unfolding moved_def by blast

lemma moved_ended: "moved k d s s1 \<Longrightarrow> ended k s1 s2 \<Longrightarrow> ended k s s2"
  unfolding ended_def using moved_less moved_quiet by blast

lemma ended_refl: "ended k s s"
  unfolding ended_def using moved_refl by blast

lemma moved_eq: "sv_calls s' = sv_calls s \<Longrightarrow> sv_recovery_attempts s' = sv_recovery_attempts s \<Longrightarrow> moved k 0 s s'"
  by (auto simp: moved_def)

lemma moved_call: "c \<noteq> StopCall \<Longrightarrow> c \<noteq> RecoverCall \<Longrightarrow> moved k 0 s (call c s)"
  by (auto simp: moved_def call_def)

lemma tell_simps [simp]:
  "sv_calls (tell env e s) = sv_calls s" "sv_recovery_attempts (tell env e s) = sv_recovery_attempts s" "sv_lifecycle (tell env e s) = sv_lifecycle s"
  "sv_offered (tell env e s) = sv_offered s @ [e]" "sv_input_available (tell env e s) = sv_input_available s"
  "sv_pending_rumble (tell env e s) = sv_pending_rumble s"
  by (simp_all add: tell_def offer_event_def)

lemma tell_moved: "moved k 0 s (tell env e s)"
  by (rule moved_eq) simp_all

lemma call_tell_moved: "c \<noteq> StopCall \<Longrightarrow> c \<noteq> RecoverCall \<Longrightarrow> moved k 0 s (tell env e (call c s))"
  using moved_call tell_moved moved_quiet by blast

lemma emit_terminal: "emit_nvst_terminal env code s = (b, s') \<Longrightarrow> b \<and> ended k s s'"
  by (auto simp: emit_nvst_terminal_def ended_def stopped_def call_def Let_def split: if_splits intro!: exI [of _ s])

lemma attempt_recovery:
  assumes "attempt_nvst_recovery env s = (terminal, s')"
  shows "if terminal then ended k s s' else moved k 1 s s'"
proof (cases "NVST_RECOVERY_ATTEMPT_LIMIT \<le> sv_recovery_attempts s")
  case True
  with assms have "emit_nvst_terminal env ''nvst-recovery-exhausted'' s = (terminal, s')" by (simp add: attempt_nvst_recovery_def)
  from emit_terminal [OF this] show ?thesis by auto
next
  case False
  define s1 where "s1 = call RecoverCall (call RequestKeyframeCall (s\<lparr> sv_recovery_attempts := sv_recovery_attempts s + 1 \<rparr>))"
  have m: "moved k 1 s s1"
    using False by (auto simp: s1_def moved_def call_def NVST_RECOVERY_ATTEMPT_LIMIT_def)
  consider "emit_nvst_terminal env ''nvst-recovery-failed'' s1 = (terminal, s')" | "\<not> terminal" "s' = tell env (LogEvent ''warn'') s1"
  proof (cases "en_recover_error env (sv_calls (call RequestKeyframeCall (s\<lparr> sv_recovery_attempts := sv_recovery_attempts s + 1 \<rparr>)))")
    case None
    with assms False have "(False, tell env (LogEvent ''warn'') s1) = (terminal, s')" by (simp add: attempt_nvst_recovery_def s1_def Let_def)
    with that(2) show ?thesis by blast
  next
    case (Some e)
    with assms False have "emit_nvst_terminal env ''nvst-recovery-failed'' s1 = (terminal, s')" by (simp add: attempt_nvst_recovery_def s1_def Let_def)
    then show ?thesis by (rule that(1))
  qed
  then show ?thesis
  proof cases
    case 1
    from emit_terminal [OF 1] moved_ended [OF m] show ?thesis by auto
  next
    case 2
    with moved_then_quiet [OF m tell_moved] show ?thesis by simp
  qed
qed

lemma moved_flush_cursor: "moved k 0 s (flush_cursor_capture env s)"
  by (rule moved_eq) (auto simp: flush_cursor_capture_def offer_event_def split: option.split)

lemma moved_record_drop: "moved k 0 s (record_drop m n s)"
  by (rule moved_eq) (simp_all add: record_drop_def)

lemma flush_reports_same:
  "flush_reports env f pending s = (kept, s') \<Longrightarrow> sv_calls s' = sv_calls s \<and> sv_recovery_attempts s' = sv_recovery_attempts s \<and> sv_lifecycle s' = sv_lifecycle s"
  by (induction env f pending s arbitrary: kept s' rule: flush_reports.induct) (auto simp: offer_event_def split: prod.splits)

lemma moved_drop_flush: "moved k 0 s (drop_flush env now f s)"
  using flush_reports_same by (intro moved_eq) (fastforce simp: drop_flush_def Let_def split: prod.split)+

lemma moved_fold: "(\<And>x s. x \<in> set xs \<Longrightarrow> moved k 0 s (f x s)) \<Longrightarrow> moved k 0 s (fold f xs s)"
  by (induction xs arbitrary: s) (auto intro: moved_quiet)

definition is_keyframe :: "MediaFeedback \<Rightarrow> bool" where
  "is_keyframe f = (case f of VideoFrameAccepted _ _ _ keyframe \<Rightarrow> keyframe | _ \<Rightarrow> False)"

lemma moved_feedback: "\<not> (k \<and> is_keyframe f) \<Longrightarrow> moved k 0 s (forward_nvst_media_feedback env f s)"
proof (cases f)
  case (VideoFrameAccepted i t n keyframe)
  assume k: "\<not> (k \<and> is_keyframe f)"
  define s1 where "s1 = (case i of None \<Rightarrow> s\<lparr> sv_transport_stalled := False \<rparr> | Some j \<Rightarrow> call (AcknowledgeCall j n) (s\<lparr> sv_transport_stalled := False \<rparr>))"
  have "moved k 0 s s1" unfolding s1_def by (auto split: option.split simp: moved_def call_def)
  moreover have "moved k 0 s1 (s1\<lparr> sv_recovery_attempts := 0 \<rparr>)" if "\<not> k" using that by (auto simp: moved_def)
  ultimately show ?thesis using VideoFrameAccepted k
    by (auto simp: forward_nvst_media_feedback_def is_keyframe_def s1_def [symmetric] Let_def intro: moved_quiet)
qed (auto simp: forward_nvst_media_feedback_def moved_record_drop tell_moved call_tell_moved intro: moved_eq)

lemma offer_event_moved: "offer_event env e s = (b, s') \<Longrightarrow> moved k 0 s s'"
  by (auto simp: offer_event_def intro: moved_eq)

lemma moved_rumble: "moved k 0 s (forward_rumble env taken s)"
proof -
  have keep: "moved k 0 s (keep_rumble c s)" for c s
    by (auto simp: keep_rumble_def Let_def record_drop_def intro: moved_eq)
  have slot: "moved k 0 s (forward_rumble_slot env i s)" for i s
    by (auto simp: forward_rumble_slot_def forward_controller_rumble_def offer_event_def split: option.split intro: moved_eq)
  have "moved k 0 s (record_drop m n s)" for m n s by (rule moved_record_drop)
  with moved_fold [of _ k keep_rumble, OF keep] moved_fold [of _ k "forward_rumble_slot env", OF slot] show ?thesis
    unfolding forward_rumble_def Let_def by (meson moved_quiet)
qed

lemma moved_shortcut: "moved k 0 s (forward_shortcut_action env a s)"
  by (simp add: forward_shortcut_action_def tell_moved)

lemma moved_sample:
  "\<exists>error s'. forward_nvst_captured_sample env sample s = Some (error, s') \<and> moved k 0 s s'"
  by (auto simp: forward_nvst_captured_sample_def captured_input_packet_def Let_def intro!: moved_call split: CapturedInput.split prod.split)

fun for_host :: "CapturedInput \<Rightarrow> bool" where
  "for_host Guide = True" | "for_host Screenshot = True" | "for_host RecordingToggle = True" | "for_host (Shortcut _) = True" | "for_host _ = False"

lemma forward_samples_ok:
  "\<exists>going s'. forward_samples env samples s = Some (going, s') \<and> (if going then moved k 0 s s' else ended k s s')"
proof (induction samples arbitrary: s)
  case (Cons x xs)
  have go: ?case if "moved k 0 s s1" "forward_samples env (x # xs) s = forward_samples env xs s1" for s1
    using Cons.IH [of s1] that moved_ended [OF that(1)] by (auto split: if_splits intro: moved_quiet)
  obtain error s1 where one: "forward_nvst_captured_sample env x s = Some (error, s1)" "moved k 0 s s1" using moved_sample by blast
  obtain b s2 where e: "emit_nvst_terminal env ''native-input-capture-failed'' s1 = (b, s2)" by (metis surj_pair)
  have fail: "ended k s s2" using emit_terminal [OF e] moved_ended [OF one(2)] by blast
  show ?case
  proof (cases "for_host (cs_input x)")
    case True
    then consider "cs_input x = Guide" | "cs_input x = Screenshot" | "cs_input x = RecordingToggle" | a where "cs_input x = Shortcut a"
      by (cases "cs_input x") simp_all
    then show ?thesis
      by cases (intro go [OF tell_moved] go [OF moved_shortcut]; simp)+
  next
    case False
    then have eq: "forward_samples env (x # xs) s = (case forward_nvst_captured_sample env x s of
        None \<Rightarrow> None
      | Some (Some _, s) \<Rightarrow> Some (False, snd (emit_nvst_terminal env ''native-input-capture-failed'' s))
      | Some (None, s) \<Rightarrow> forward_samples env xs s)" by (cases "cs_input x") simp_all
    show ?thesis
    proof (cases error)
      case None
      with eq one(1) show ?thesis by (intro go [OF one(2)]) simp
    next
      case (Some err)
      with eq one(1) e have "forward_samples env (x # xs) s = Some (False, s2)" by simp
      with fail show ?thesis by auto
    qed
  qed
qed (simp add: exI [of _ True])

definition demands :: "session_turn \<Rightarrow> bool" where
  "demands t = (case tu_received t of
     ReceivedEvent (RecoveryNeeded (PacketGap _ _)) \<Rightarrow> False
   | ReceivedEvent (RecoveryNeeded _) \<Rightarrow> True
   | ReceivedEvent (Lifecycle RecoveryRequired) \<Rightarrow> True
   | _ \<Rightarrow> False)"

lemma moved_note: "moved k 0 s (note_availability capture e s)"
proof -
  have ready: "moved k 0 s (call (TextReadyCall b) (s\<lparr> sv_input_available := b \<rparr>))" for b
    by (rule moved_quiet [OF moved_eq moved_call]) simp_all
  have fields: "moved k 0 s (s\<lparr> sv_input_available := b \<rparr>)" "moved k 0 s (s\<lparr> sv_transport_stalled := b \<rparr>)" for b
    by (rule moved_eq; simp)+
  show ?thesis
  proof (cases e)
    case (RecoveryNeeded r)
    then show ?thesis by (cases r) (simp_all add: note_availability_def fields)
  qed (simp_all add: note_availability_def ready fields)
qed

lemma forward_event_ok:
  assumes "forward_nvst_event env between e s = (terminal, s')"
  shows "if terminal then ended k s s' else moved k (of_bool (demands t)) s s' \<or> tu_received t \<noteq> ReceivedEvent e"
proof (cases "current env s")
  case False
  with assms show ?thesis by (auto simp: forward_nvst_event_def ended_refl)
next
  case True
  have quiet: ?thesis if "\<not> terminal" "moved k 0 s s'" "tu_received t = ReceivedEvent e \<Longrightarrow> \<not> demands t" using that by auto
  have fin: ?thesis if "emit_nvst_terminal env code s = (terminal, s')" for code using emit_terminal [OF that] by auto
  have rec: ?thesis if "attempt_nvst_recovery env s = (terminal, s')"
    using attempt_recovery [OF that, of k] by (cases "demands t") (auto intro: moved_less)
  show ?thesis
  proof (cases e)
    case (RecoveryNeeded r)
    then show ?thesis
      by (cases r) (use True assms rec in \<open>auto simp: forward_nvst_event_def demands_def call_tell_moved\<close>)
  next
    case (Lifecycle l)
    then show ?thesis
      by (cases l) (use True assms rec fin in \<open>auto simp: forward_nvst_event_def demands_def Let_def intro: moved_eq\<close>)
  next
    case (Dropped r)
    then show ?thesis
      by (cases r) (use True assms fin in \<open>auto simp: forward_nvst_event_def demands_def call_tell_moved tell_moved\<close>)
  next
    case (CursorCapture c)
    have "moved k 0 s (flush_cursor_capture env (s\<lparr> sv_pending_cursor := Some c \<rparr>))"
      by (rule moved_quiet [OF moved_eq moved_flush_cursor]) simp_all
    with CursorCapture True assms show ?thesis by (auto simp: forward_nvst_event_def demands_def)
  next
    case (FrameProgressStall i l r)
    with True assms show ?thesis by (cases r) (auto simp: forward_nvst_event_def demands_def tell_moved)
  qed (use True assms in \<open>auto simp: forward_nvst_event_def demands_def tell_moved intro: moved_call\<close>)
qed

lemma receive_event_ok:
  assumes "receive_event env t s = (going, s')"
  shows "if going then moved k (of_bool (demands t)) s s' else ended k s s'"
proof (cases "tu_received t")
  case (ReceivedEvent e)
  obtain terminal s1 where f: "forward_nvst_event env (tu_between t) e (note_availability (tu_capture t) e s) = (terminal, s1)" by (metis surj_pair)
  with assms ReceivedEvent have "going = (\<not> terminal)" "s' = s1" by (auto simp: receive_event_def)
  with forward_event_ok [OF f, of k t] ReceivedEvent moved_note [of k s "tu_capture t" e] show ?thesis
    by (auto split: if_splits intro: moved_quiet moved_ended)
next
  case ReceiveTimeout
  with assms show ?thesis by (auto simp: receive_event_def demands_def)
next
  case ReceiveDisconnected
  obtain b s1 where e: "emit_nvst_terminal env ''nvst-event-channel-closed'' s = (b, s1)" by (metis surj_pair)
  with assms ReceiveDisconnected emit_terminal [OF e, of k] show ?thesis by (auto simp: receive_event_def)
qed

lemma poll_decoder_ok:
  assumes "poll_decoder env t s = (going, s')"
  shows "if going then moved k 0 s s' else ended k s s'"
proof (cases "sv_decode_timings s")
  case None
  with assms show ?thesis by (auto simp: poll_decoder_def)
next
  case (Some timings)
  obtain event w where p: "decode_poll timings (sv_transport_stalled s) (if tr_in_flight timings = 0 then tu_last_assembled_at t else None)
    (tu_now t) (en_policy env) (sv_decode_progress s) = (event, w)" by (metis surj_pair)
  let ?s = "s\<lparr> sv_decode_progress := w \<rparr>"
  have m: "moved k 0 s ?s" by (rule moved_eq) simp_all
  obtain terminal s1 where a: "attempt_nvst_recovery env ?s = (terminal, s1)" by (metis surj_pair)
  consider "event = None" | i n where "event = Some (DecodeKeyframeRequested i n)" | i n where "event = Some (DecodeRecoveryNeeded i n)"
    by (metis DecodeProgressEvent.exhaust not_Some_eq)
  then show ?thesis
  proof cases
    case 1
    with assms Some p m show ?thesis by (auto simp: poll_decoder_def)
  next
    case 2
    with assms Some p moved_quiet [OF m call_tell_moved] show ?thesis by (auto simp: poll_decoder_def)
  next
    case 3
    with assms Some p a have "going = (\<not> terminal)" "s' = s1" by (auto simp: poll_decoder_def)
    with attempt_recovery [OF a, of k] moved_ended [OF m] moved_quiet [OF m moved_less] show ?thesis by (auto split: if_splits)
  qed
qed

lemma forward_input_ok:
  "\<exists>going s'. forward_input env t s = Some (going, s') \<and> (if going then moved k 0 s s' else ended k s s')"
proof -
  obtain b s1 where e: "emit_nvst_terminal env ''native-input-capture-overflow'' s = (b, s1)" by (metis surj_pair)
  from emit_terminal [OF e, of k] forward_samples_ok [of env "take 32 (tu_samples t)" s k] e show ?thesis
    by (auto simp: forward_input_def moved_call intro: exI [of _ True] exI [of _ False])
qed

definition keyframe_free :: "session_turn \<Rightarrow> bool" where
  "keyframe_free t = (\<forall>f\<in>set (tu_feedback t). \<not> is_keyframe f)"

lemma turn_ok:
  assumes "k \<longrightarrow> keyframe_free t"
  shows "\<exists>going s'. session_turn_step env t s = Some (going, s') \<and> (if going then moved k (of_bool (demands t)) s s' else ended k s s')"
proof -
  define s1 where "s1 = drop_flush env (tu_now t) False (fold (forward_nvst_media_feedback env) (tu_feedback t) (flush_cursor_capture env s))"
  have "moved k 0 s' (fold (forward_nvst_media_feedback env) (tu_feedback t) s')" for s'
    by (rule moved_fold) (use assms moved_feedback in \<open>auto simp: keyframe_free_def\<close>)
  then have m1: "moved k 0 s s1" unfolding s1_def by (meson moved_quiet moved_flush_cursor moved_drop_flush)
  define s2 where "s2 = forward_rumble env (tu_rumble t) s1"
  have m2: "moved k 0 s s2" unfolding s2_def using m1 moved_rumble by (rule moved_quiet)
  obtain g3 s3 where i: "forward_input env t s2 = Some (g3, s3)" "if g3 then moved k 0 s2 s3 else ended k s2 s3" using forward_input_ok by blast
  obtain g4 s4 where r: "receive_event env t s3 = (g4, s4)" by (metis surj_pair)
  obtain g5 s5 where p: "poll_decoder env t s4 = (g5, s5)" by (metis surj_pair)
  have step: "session_turn_step env t s = (if \<not> current env s1 then Some (False, s1) else if \<not> g3 then Some (False, s3)
      else if \<not> g4 then Some (False, s4) else Some (g5, s5))"
    using i(1) r p by (simp add: session_turn_step_def s1_def [symmetric] s2_def [symmetric])
  show ?thesis
  proof (cases "current env s1 \<and> g3")
    case False
    with step i(2) m1 moved_ended [OF m2] moved_ended [OF m1 ended_refl] show ?thesis by (cases "current env s1") auto
  next
    case True
    then have m3: "moved k 0 s s3" using i(2) m2 by (auto intro: moved_quiet)
    show ?thesis
    proof (cases g4)
      case False
      with True step receive_event_ok [OF r, of k] moved_ended [OF m3] show ?thesis by auto
    next
      case g4: True
      with receive_event_ok [OF r, of k] have m4: "moved k (of_bool (demands t)) s s4" using moved_quiet [OF m3] by simp
      with True g4 step poll_decoder_ok [OF p, of k] moved_ended [OF m4] moved_then_quiet [OF m4] show ?thesis by (cases g5) auto
    qed
  qed
qed

fun event_turn :: "session_event \<Rightarrow> session_turn list" where
  "event_turn (Turn t) = [t]"
| "event_turn (EngineOp _) = []"

definition turns :: "session_event list \<Rightarrow> session_turn list" where
  "turns events = concat (map event_turn events)"

lemma run_ok:
  assumes "k \<longrightarrow> (\<forall>t\<in>set (turns events). keyframe_free t)"
  shows "\<exists>going s'. run_session env events s = Some (going, s')
    \<and> (if going then moved k (length (filter demands (turns events))) s s' else ended k s s')"
  using assms
proof (induction env events s rule: run_session.induct)
  case (2 env op events s)
  have m: "moved k 0 s (s\<lparr> sv_lifecycle := engine_step op (sv_lifecycle s) \<rparr>)" by (rule moved_eq) simp_all
  from 2 show ?case using moved_quiet [OF m] moved_ended [OF m] by (fastforce simp: turns_def split: if_splits)
next
  case (3 env t events s)
  have "k \<longrightarrow> keyframe_free t" "k \<longrightarrow> (\<forall>t\<in>set (turns events). keyframe_free t)" using 3(2) by (simp_all add: turns_def)
  from turn_ok [OF this(1), of env s] obtain g s1 where one: "session_turn_step env t s = Some (g, s1)"
    "if g then moved k (of_bool (demands t)) s s1 else ended k s s1" by blast
  show ?case
  proof (cases g)
    case False
    with one show ?thesis by (simp add: exI [of _ False])
  next
    case True
    with one have m: "moved k (of_bool (demands t)) s s1" by simp
    from 3(1) [OF one(1)] True \<open>k \<longrightarrow> (\<forall>t\<in>set (turns events). keyframe_free t)\<close> obtain g2 s2 where
      rest: "run_session env events s1 = Some (g2, s2)" "if g2 then moved k (length (filter demands (turns events))) s1 s2 else ended k s1 s2" by blast
    have "length (filter demands (turns (Turn t # events))) = of_bool (demands t) + length (filter demands (turns events))" by (simp add: turns_def)
    with one(1) True rest moved_trans [OF m] moved_ended [OF m] show ?thesis by (cases g2) auto
  qed
qed (simp add: turns_def exI [of _ True])

section \<open>Properties\<close>


definition sample_env :: session_env where
  "sample_env = \<lparr> en_generation = 4, en_start_id = ''a'', en_accepts = (\<lambda>_. True), en_recover_error = (\<lambda>_. None), en_send_error = (\<lambda>_. None),
     en_tune = (\<lambda>x y. (x, y)), en_policy = \<lparr> dp_stall = 3, dp_keyframe_grace = 4 \<rparr>, en_input_origin = 0, en_runtime_embedded = None,
     en_control_fails = False \<rparr>"

definition sample_turn :: "NvstReceiveEvent \<Rightarrow> session_turn" where
  "sample_turn event = \<lparr> tu_feedback = [], tu_rumble = NvstHaptics_default, tu_capture = False, tu_overflowed = False, tu_samples = [],
     tu_received = ReceivedEvent event, tu_between = [], tu_last_assembled_at = None, tu_now = 0 \<rparr>"

definition sample_lifecycle :: Lifecycle_state where
  "sample_lifecycle = \<lparr> lc_state = Connected, lc_context = Some ''b'', lc_generation = 4 \<rparr>"

lemma sample_turn_quiet:
  assumes "sv_pending_cursor s = None" and "sv_drop_reports s = \<lparr> qr_pending = [], qr_last_flush = 0 \<rparr>" and "sv_pending_rumble s = replicate 4 None"
    and "current sample_env s" and "sv_decode_timings s = None" and "note_availability False event s = s"
    and "forward_nvst_event sample_env [] event s = (terminal, s')" and "sv_decode_timings s' = None"
  shows "session_turn_step sample_env (sample_turn event) s = Some (\<not> terminal, s')"
proof -
  have "forward_rumble sample_env NvstHaptics_default s = s"
    using assms(3) by (simp add: forward_rumble_def record_drop_def drop_record_def NvstHaptics_default_def List.map_filter_def
        forward_rumble_slot_def upt_rec)
  then show ?thesis using assms
    by (cases terminal) (auto simp: session_turn_step_def sample_turn_def flush_cursor_capture_def drop_flush_def secs_def forward_input_def
        receive_event_def poll_decoder_def)
qed

definition sample_start :: session where
  "sample_start = session_new sample_env False 0 sample_lifecycle"

definition sample_demands :: "session_event list" where
  "sample_demands = [Turn (sample_turn (Lifecycle RecoveryRequired)), Turn (sample_turn (Lifecycle RecoveryRequired))]"

text \<open>Two demands for a recovery: the first is tried, the second ends the session.\<close>

lemma sample_demands_run:
  "\<exists>s'. run_session sample_env sample_demands sample_start = Some (False, s') \<and> sv_calls s' = [RequestKeyframeCall, RecoverCall, StopCall]"
proof -
  obtain t1 s1 where a: "forward_nvst_event sample_env [] (Lifecycle RecoveryRequired) sample_start = (t1, s1)" by (metis surj_pair)
  have s1: "\<not> t1 \<and> sv_pending_cursor s1 = None \<and> sv_drop_reports s1 = \<lparr> qr_pending = [], qr_last_flush = 0 \<rparr> \<and> sv_pending_rumble s1 = replicate 4 None
      \<and> current sample_env s1 \<and> sv_decode_timings s1 = None \<and> sv_calls s1 = [RequestKeyframeCall, RecoverCall] \<and> sv_recovery_attempts s1 = 1"
    using a by (auto simp: forward_nvst_event_def sample_start_def session_new_def current_def sample_env_def sample_lifecycle_def attempt_nvst_recovery_def
        NVST_RECOVERY_ATTEMPT_LIMIT_def call_def tell_def offer_event_def Let_def)
  obtain t2 s2 where b: "forward_nvst_event sample_env [] (Lifecycle RecoveryRequired) s1 = (t2, s2)" by (metis surj_pair)
  have s2: "t2 \<and> sv_decode_timings s2 = None \<and> sv_calls s2 = [RequestKeyframeCall, RecoverCall, StopCall]"
    using b s1 by (auto simp: forward_nvst_event_def attempt_nvst_recovery_def NVST_RECOVERY_ATTEMPT_LIMIT_def emit_nvst_terminal_def call_def tell_def offer_event_def Let_def)
  have avail: "note_availability False (Lifecycle RecoveryRequired) s = s" for s by (simp add: note_availability_def)
  have "session_turn_step sample_env (sample_turn (Lifecycle RecoveryRequired)) sample_start = Some (True, s1)"
    using sample_turn_quiet [OF _ _ _ _ _ avail a] s1
    by (simp add: sample_start_def session_new_def current_def sample_env_def sample_lifecycle_def)
  moreover have "session_turn_step sample_env (sample_turn (Lifecycle RecoveryRequired)) s1 = Some (False, s2)"
    using sample_turn_quiet [OF _ _ _ _ _ avail b] s1 s2 by simp
  ultimately show ?thesis using s2 by (simp add: sample_demands_def)
qed




text \<open>C39: the generation is checked and the state stored under two separate locks. When the engine stops the session in
  between, the thread that is told that the receiver runs leaves the stopped engine marked as connected, without a
  context, and the engine then refuses to start another session.\<close>

theorem stop_race_leaves_connected:
  assumes "current env s" and "forward_nvst_event env [EngineStop] (Lifecycle Running) s = (terminal, s')"
  shows "lc_state (sv_lifecycle s') = Connected \<and> lc_context (sv_lifecycle s') = None \<and> \<not> current env s'
    \<and> engine_start context (sv_lifecycle s') = sv_lifecycle s'"
  using assms by (auto simp: forward_nvst_event_def engine_stop_def engine_start_def current_def)

theorem stop_race_leaves_connected_witness:
  "lc_state (sv_lifecycle (snd (forward_nvst_event sample_env [EngineStop] (Lifecycle Running) sample_start))) = Connected
   \<and> engine_start ''c'' (sv_lifecycle (snd (forward_nvst_event sample_env [EngineStop] (Lifecycle Running) sample_start)))
     = sv_lifecycle (snd (forward_nvst_event sample_env [EngineStop] (Lifecycle Running) sample_start))"
proof -
  have "current sample_env sample_start" by (simp add: current_def sample_env_def sample_start_def session_new_def sample_lifecycle_def)
  from stop_race_leaves_connected [OF this prod.collapse [symmetric]] show ?thesis by simp
qed

end
