(* ===== verification/Cursor.thy ===== *)
theory Cursor
  imports InputChannels
begin

text \<open>
  Cursors of the server (\<open>nvst_bitmap_cursor.rs\<close>, \<open>nvst_cursor.rs\<close> and their use in the bundle loop of \<open>nvst.rs\<close>): bitmap
  cursors are brought into the form the host expects and kept in a small cache by their identifier, and an automaton
  moves the drawing of the cursor from the server to the client. The encoding in base 64 is a library and the
  parameter \<open>base64\<close>.
\<close>

section \<open>Bitmaps\<close>

definition MAX_CURSORS :: nat where "MAX_CURSORS = 16"
definition MAX_IMAGE_BYTES :: nat where "MAX_IMAGE_BYTES = 49000"

definition bmp_masks :: "u32 list" where
  "bmp_masks = [0x00ff0000, 0x0000ff00, 0x000000ff, 0xff000000]"

text \<open>The fields of a bitmap file, and what is asked of them. Every step of \<open>normalized_bmp\<close> that fails returns \<open>None\<close>.\<close>

record bitmap =
  bm_header :: u32
  bm_offset :: u32
  bm_width :: u32
  bm_height :: u32
  bm_planes :: u16
  bm_depth :: u16
  bm_compression :: u32

definition ensure :: "bool \<Rightarrow> unit option" where
  "ensure b = (if b then Some () else None)"

definition read_bitmap :: "bytes \<Rightarrow> bitmap option" where
  "read_bitmap img = do {
     header \<leftarrow> read_u32_le img 14;
     planes \<leftarrow> read_u16_le img 26;
     depth \<leftarrow> read_u16_le img 28;
     width \<leftarrow> read_u32_le img 18;
     height \<leftarrow> read_u32_le img 22;
     compression \<leftarrow> read_u32_le img 30;
     offset \<leftarrow> read_u32_le img 10;
     Some \<lparr> bm_header = header, bm_offset = offset, bm_width = width, bm_height = height, bm_planes = planes, bm_depth = depth,
            bm_compression = compression \<rparr>
   }"

text \<open>The dimensions are signed, and a negative height turns the rows round.\<close>

definition width_of :: "bitmap \<Rightarrow> nat" where "width_of bm = nat (sint (bm_width bm))"
definition height_of :: "bitmap \<Rightarrow> nat" where "height_of bm = nat \<bar>sint (bm_height bm)\<bar>"
definition pixels_len :: "bitmap \<Rightarrow> nat" where "pixels_len bm = width_of bm * height_of bm * 4"

definition bitmap_accepted :: "bytes \<Rightarrow> bitmap \<Rightarrow> bool" where
  "bitmap_accepted img bm \<longleftrightarrow>
     length img \<le> MAX_IMAGE_BYTES \<and> take 2 img = [0x42, 0x4d]
     \<and> bm_header bm \<in> {40, 108, 124} \<and> bm_planes bm = 1 \<and> bm_depth bm = 32
     \<and> width_of bm \<in> {1..256} \<and> height_of bm \<in> {1..256}
     \<and> bm_compression bm \<in> {0, 3}
     \<and> (bm_compression bm = 3 \<longrightarrow> 108 \<le> bm_header bm \<and> map (\<lambda>i. read_u32_le img (54 + i * 4)) [0, 1, 2, 3] = map Some bmp_masks)
     \<and> 14 + unat (bm_header bm) \<le> unat (bm_offset bm)
     \<and> unat (bm_offset bm) + pixels_len bm \<le> length img \<and> 122 + pixels_len bm \<le> MAX_IMAGE_BYTES"

text \<open>The fourth byte of each pixel.\<close>

fun all_transparent :: "bytes \<Rightarrow> bool" where
  "all_transparent (b # g # r # a # rest) \<longleftrightarrow> a = 0 \<and> all_transparent rest"
| "all_transparent _ \<longleftrightarrow> True"

fun make_opaque :: "bytes \<Rightarrow> bytes" where
  "make_opaque (b # g # r # a # rest) = b # g # r # 255 # make_opaque rest"
| "make_opaque rest = rest"

definition bmp_head :: "bytes \<Rightarrow> nat \<Rightarrow> bytes" where
  "bmp_head img n =
     (let bmp = take 54 img @ replicate 68 0;
          bmp = write_at 2 (le32 (of_nat (122 + n))) bmp;
          bmp = write_at 10 (le32 122) bmp;
          bmp = write_at 14 (le32 108) bmp;
          bmp = write_at 30 (le32 3) bmp;
          bmp = write_at 34 (le32 (of_nat n)) bmp;
          bmp = write_at 46 (replicate 8 0) bmp;
          bmp = fold (\<lambda>(i, m). write_at (54 + i * 4) (le32 m)) (enumerate 0 bmp_masks) bmp
      in write_at 70 (le32 0x73524742) bmp)"

definition bitmap_pixels :: "bytes \<Rightarrow> bitmap \<Rightarrow> bytes" where
  "bitmap_pixels img bm =
     (let pixels = take (pixels_len bm) (drop (unat (bm_offset bm)) img)
      in if bm_header bm = 40 \<and> bm_compression bm = 0 \<and> all_transparent pixels then make_opaque pixels else pixels)"

definition normalized_bmp :: "bytes \<Rightarrow> (bytes \<times> u16 \<times> u16) option" where
  "normalized_bmp img = do {
     bm \<leftarrow> read_bitmap img;
     ensure (bitmap_accepted img bm \<and> 54 \<le> length img);
     Some (bmp_head img (pixels_len bm) @ bitmap_pixels img bm, of_nat (width_of bm), of_nat (height_of bm))
   }"

section \<open>The cache\<close>

type_synonym BitmapCursors = "(u32 \<times> bytes) list"

definition cache_recall :: "u32 \<Rightarrow> BitmapCursors \<Rightarrow> (bytes \<times> BitmapCursors) option" where
  "cache_recall k entries = (case find_position (\<lambda>entry. fst entry = k) entries of
     None \<Rightarrow> None
   | Some index \<Rightarrow> Some (snd (entries ! index), remove_at index entries @ [entries ! index]))"

definition cache_store :: "u32 \<Rightarrow> bytes \<Rightarrow> BitmapCursors \<Rightarrow> BitmapCursors" where
  "cache_store k cursor entries =
     (let entries = filter (\<lambda>entry. fst entry \<noteq> k) entries;
          entries = (if length entries = MAX_CURSORS then tl entries else entries)
      in entries @ [(k, cursor)])"

text \<open>The cursor of a full image: a custom image with its hot spot, its type and the encoded bitmap.\<close>

definition custom_cursor :: "(bytes \<Rightarrow> bytes) \<Rightarrow> bytes \<Rightarrow> nat \<Rightarrow> bytes option" where
  "custom_cursor base64 body image_size = do {
     ensure (12 + image_size \<le> length body);
     (bmp, width, height) \<leftarrow> normalized_bmp (take image_size (drop 12 body));
     hotspot_x \<leftarrow> read_u16_le body 8;
     hotspot_y \<leftarrow> read_u16_le body 10;
     ensure (hotspot_x < width \<and> hotspot_y < height);
     ensure (length (base64 bmp) \<le> u16_max);
     Some ([1, 0, ucast hotspot_x, ucast hotspot_y, 9] @ map (of_nat \<circ> of_char) ''image/bmp''
           @ le16 (of_nat (length (base64 bmp))) @ base64 bmp)
   }"

definition cursor_suffix :: "bytes \<Rightarrow> bytes" where
  "cursor_suffix suffix =
     (if 4 \<le> length suffix then take 4 suffix @ (if 7 \<le> length suffix then take 2 (drop 5 suffix) else []) else [])"

definition bitmap_normalize :: "(bytes \<Rightarrow> bytes) \<Rightarrow> bytes \<Rightarrow> BitmapCursors \<Rightarrow> bytes option \<times> BitmapCursors" where
  "bitmap_normalize base64 message entries =
     (case (read_u16_le message 0, read_u16_le message 2, read_u32_le (drop 4 message) 0, read_u16_le (drop 4 message) 4) of
        (Some code, Some n, Some k, Some image_len) \<Rightarrow>
          if code \<noteq> 0x0110 \<or> length message \<noteq> unat n + 4 then (None, entries)
          else let body = drop 4 message
               in if image_len = 0
                  then (case cache_recall k entries of
                          None \<Rightarrow> (None, entries)
                        | Some (cursor, entries) \<Rightarrow> (Some (cursor @ cursor_suffix (drop 6 body)), entries))
                  else (case custom_cursor base64 body (unat image_len) of
                          None \<Rightarrow> (None, entries)
                        | Some cursor \<Rightarrow>
                            (Some (cursor @ cursor_suffix (drop (12 + unat image_len) body)), cache_store k cursor entries))
      | _ \<Rightarrow> (None, entries))"

section \<open>Who draws the cursor\<close>

definition CURSOR_RETRY_INTERVAL :: duration where "CURSOR_RETRY_INTERVAL = millis 250"
definition MAX_CURSOR_ATTEMPTS :: nat where "MAX_CURSOR_ATTEMPTS = 8"
definition SILENT_HOST_TIMEOUT :: duration where "SILENT_HOST_TIMEOUT = secs 3"

datatype CursorCommand = CaptureCommand bool | TrackingCommand

datatype CaptureState =
    CaptureInactive
  | Waiting instant instant nat
  | Disabling instant nat string
  | CaptureLocal
  | Exhausted

definition capture_activate :: "instant \<Rightarrow> CaptureState \<Rightarrow> CaptureState" where
  "capture_activate now st = Waiting (now + SILENT_HOST_TIMEOUT) (now + CURSOR_RETRY_INTERVAL) 1"

definition capture_reset :: "CaptureState \<Rightarrow> CaptureState" where
  "capture_reset st = CaptureInactive"

fun capture_notify :: "instant \<Rightarrow> CaptureState \<Rightarrow> CaptureState" where
  "capture_notify now (Waiting _ _ _) = Disabling now 0 ''cursor-notification''"
| "capture_notify now st = st"

text \<open>The deadline of a silent server, and then a command that is due; \<open>'s\<close> is the state of the transport.\<close>

fun capture_timeout :: "instant \<Rightarrow> CaptureState \<Rightarrow> CaptureState" where
  "capture_timeout now (Waiting deadline retry_at attempts) =
     (if deadline \<le> now then Disabling now 0 ''silent-host-timeout'' else Waiting deadline retry_at attempts)"
| "capture_timeout now st = st"

definition capture_update :: "instant \<Rightarrow> (CursorCommand \<Rightarrow> 's \<Rightarrow> bool \<times> 's) \<Rightarrow> CaptureState \<Rightarrow> 's \<Rightarrow> bool \<times> CaptureState \<times> 's" where
  "capture_update now send st s =
     (case capture_timeout now st of
        Waiting deadline retry_at attempts \<Rightarrow>
          if attempts < MAX_CURSOR_ATTEMPTS \<and> retry_at \<le> now
          then (case send (CaptureCommand True) s of (_, s) \<Rightarrow> case send TrackingCommand s of (_, s) \<Rightarrow>
                  (False, Waiting deadline (now + CURSOR_RETRY_INTERVAL) (attempts + 1), s))
          else (False, Waiting deadline retry_at attempts, s)
      | Disabling retry_at attempts reason \<Rightarrow>
          if retry_at \<le> now
          then (case send (CaptureCommand False) s of
                  (True, s) \<Rightarrow> (True, CaptureLocal, s)
                | (False, s) \<Rightarrow>
                    (False, if attempts + 1 = MAX_CURSOR_ATTEMPTS then Exhausted
                            else Disabling (now + CURSOR_RETRY_INTERVAL) (attempts + 1) reason, s))
          else (False, Disabling retry_at attempts reason, s)
      | st \<Rightarrow> (False, st, s))"

record CursorTrackingRefresh =
  tk_started :: bool
  tk_due :: "instant option"
  tk_attempts :: nat

definition CursorTrackingRefresh_default :: CursorTrackingRefresh where
  "CursorTrackingRefresh_default = \<lparr> tk_started = False, tk_due = None, tk_attempts = 0 \<rparr>"

definition refresh_hidden :: "instant \<Rightarrow> CursorTrackingRefresh \<Rightarrow> CursorTrackingRefresh" where
  "refresh_hidden now t = (if tk_started t then t else t\<lparr> tk_started := True, tk_due := Some now \<rparr>)"

definition refresh_update :: "instant \<Rightarrow> ('s \<Rightarrow> bool \<times> 's) \<Rightarrow> CursorTrackingRefresh \<Rightarrow> 's \<Rightarrow> CursorTrackingRefresh \<times> 's" where
  "refresh_update now send t s =
     (case tk_due t of
        None \<Rightarrow> (t, s)
      | Some due \<Rightarrow>
          if now < due then (t, s)
          else case send s of (queued, s) \<Rightarrow>
                 (t\<lparr> tk_attempts := tk_attempts t + 1,
                     tk_due := (if queued \<or> 3 \<le> tk_attempts t + 1 then None else Some (now + CURSOR_RETRY_INTERVAL)) \<rparr>, s))"

section \<open>The bundle loop\<close>

definition valid_cursor_channel_message :: "bytes \<Rightarrow> bool" where
  "valid_cursor_channel_message bs =
     (if length bs < 7 \<or> bs ! 0 \<notin> {0, 1} then False
      else let image_length_offset = 5 + unat (bs ! 4)
           in case read_u16_le bs image_length_offset of
                None \<Rightarrow> False
              | Some n \<Rightarrow>
                  let image_end = image_length_offset + 2 + unat n
                  in image_end \<le> length bs \<and> length bs - image_end \<in> {0, 4, 6}
                     \<and> (bs ! 0 \<noteq> 0 \<or> (bs ! 4 = 0 \<and> n = 0)))"

record cursor_state =
  cu_capture :: CaptureState
  cu_bitmaps :: BitmapCursors
  cu_refresh :: "CursorTrackingRefresh option"

definition cursor_new :: "CursorTrackingRefresh option \<Rightarrow> cursor_state" where
  "cursor_new refresh = \<lparr> cu_capture = CaptureInactive, cu_bitmaps = [], cu_refresh = refresh \<rparr>"

text \<open>One message of a control channel, with the reading of the clock for it; the cursors are those sent to the host.\<close>

definition receive_cursor_message ::
  "(bytes \<Rightarrow> bytes) \<Rightarrow> instant \<Rightarrow> NvstServerCursorMessage \<Rightarrow> bytes list \<times> cursor_state \<Rightarrow> bytes list \<times> cursor_state" where
  "receive_cursor_message base64 now message = (\<lambda>(cursors, st).
     let st = (if sm_command message = 0x010f \<and> sm_cursor_id message = Some 0
               then st\<lparr> cu_refresh := map_option (refresh_hidden now) (cu_refresh st) \<rparr> else st);
         st = st\<lparr> cu_capture := capture_notify now (cu_capture st) \<rparr>;
         (cursor, bitmaps) = (case sm_normalized message of
                                Some cursor \<Rightarrow> (Some cursor, cu_bitmaps st)
                              | None \<Rightarrow> bitmap_normalize base64 (sm_raw message) (cu_bitmaps st))
     in (cursors @ (case cursor of None \<Rightarrow> [] | Some cursor \<Rightarrow> [cursor]), st\<lparr> cu_bitmaps := bitmaps \<rparr>))"

definition receive_cursor_data ::
  "(bytes \<Rightarrow> bytes) \<Rightarrow> instant \<Rightarrow> bool \<Rightarrow> bytes \<Rightarrow> cursor_state \<Rightarrow> bytes list \<times> cursor_state" where
  "receive_cursor_data base64 now on_cursor_channel data st =
     (if on_cursor_channel
      then if valid_cursor_channel_message data then ([data], st\<lparr> cu_capture := capture_notify now (cu_capture st) \<rparr>) else ([], st)
      else fold (receive_cursor_message base64 now) (server_cursor_messages data) ([], st))"

text \<open>The turn of the loop: the second component is whether the host is told that it draws the cursor now.\<close>

definition cursor_turn ::
  "'r rtc \<Rightarrow> NvstInputChannels \<Rightarrow> bool \<Rightarrow> instant \<Rightarrow> cursor_state \<Rightarrow> 'r \<Rightarrow> bool \<times> cursor_state \<times> 'r" where
  "cursor_turn ops channels upstream_allowed now st r =
     (let send = (\<lambda>command r. case command of
                    CaptureCommand enabled \<Rightarrow> send_mouse_cursor_capture ops channels enabled r
                  | TrackingCommand \<Rightarrow> send_remote_cursor_tracking ops channels True r);
          (local, capture, r) = (if upstream_allowed then capture_update now send (cu_capture st) r else (False, cu_capture st, r));
          st = st\<lparr> cu_capture := capture \<rparr>
      in case cu_refresh st of
           None \<Rightarrow> (local, st, r)
         | Some t \<Rightarrow> (case refresh_update now (send_remote_cursor_tracking ops channels True) t r of
                        (t, r) \<Rightarrow> (local, st\<lparr> cu_refresh := Some t \<rparr>, r)))"

section \<open>What the host gets\<close>

lemma ensure_bind [simp]: "Option.bind (ensure b) f = (if b then f () else None)"
  by (simp add: ensure_def)

definition mime_bmp :: bytes where
  "mime_bmp = map (of_nat \<circ> of_char) ''image/bmp''"

lemma length_mime [simp]: "length mime_bmp = 9"
  by (simp add: mime_bmp_def)

text \<open>A custom cursor without a suffix.\<close>

definition custom_ok :: "bytes \<Rightarrow> bool" where
  "custom_ok cursor \<longleftrightarrow> (\<exists>x y encoded. length encoded \<le> u16_max
     \<and> cursor = [1, 0, x, y, 9] @ mime_bmp @ le16 (of_nat (length encoded)) @ encoded)"

lemma read_le16_append: "length xs = i \<Longrightarrow> read_u16_le (xs @ le16 n @ ys) i = Some n"
  by (simp add: read_u16_le_def le16_def from_le16_def codec)

lemma custom_valid:
  assumes "custom_ok cursor"
  shows "valid_cursor_channel_message (cursor @ cursor_suffix suffix)"
proof -
  obtain x y encoded where c: "cursor = [1, 0, x, y, 9] @ mime_bmp @ le16 (of_nat (length encoded)) @ encoded"
    and n: "length encoded \<le> u16_max" using assms by (auto simp: custom_ok_def)
  let ?n = "of_nat (length encoded) :: u16"
  have "read_u16_le (([1, 0, x, y, 9] @ mime_bmp) @ le16 ?n @ (encoded @ cursor_suffix suffix)) 14 = Some ?n"
    by (rule read_le16_append) simp
  then have r: "read_u16_le (cursor @ cursor_suffix suffix) 14 = Some ?n" by (simp add: c)
  have u: "unat ?n = length encoded" using n by (simp add: unat_of_nat)
  have l: "length (cursor_suffix suffix) \<in> {0, 4, 6}" by (auto simp: cursor_suffix_def)
  have h: "(cursor @ cursor_suffix suffix) ! 0 = 1" "(cursor @ cursor_suffix suffix) ! 4 = 9" "length cursor = 16 + length encoded"
    by (simp_all add: c)
  show ?thesis using l h by (auto simp: valid_cursor_channel_message_def r u Let_def)
qed

lemma custom_cursor_ok: "custom_cursor base64 body n = Some cursor \<Longrightarrow> custom_ok cursor"
  by (fastforce simp: custom_cursor_def custom_ok_def mime_bmp_def bind_eq_Some_conv split: if_splits)

lemma normalized_bmp_Some:
  assumes "normalized_bmp img = Some (bmp, width, height)"
  obtains bm where "read_bitmap img = Some bm" "bitmap_accepted img bm" "54 \<le> length img"
    "bmp = bmp_head img (pixels_len bm) @ bitmap_pixels img bm" "width = of_nat (width_of bm)" "height = of_nat (height_of bm)"
  using assms by (auto simp: normalized_bmp_def bind_eq_Some_conv split: if_splits)

lemma normalized_bmp_dimensions:
  assumes "normalized_bmp img = Some (bmp, width, height)"
  shows "unat width \<le> 256 \<and> unat height \<le> 256"
  using assms by (elim normalized_bmp_Some) (simp add: bitmap_accepted_def unat_of_nat)

text \<open>The hot spot lies in the image, so one byte is enough for it.\<close>

lemma small_word: "unat (x :: u16) < 256 \<Longrightarrow> ucast (ucast x :: u8) = x"
  by (simp add: word_unat_eq_iff unsigned_ucast_eq unsigned_take_bit_eq take_bit_nat_eq_self_iff)

lemma custom_cursor_hotspot:
  assumes "custom_cursor base64 body n = Some cursor"
  shows "read_u16_le body 8 = Some (ucast (cursor ! 2)) \<and> read_u16_le body 10 = Some (ucast (cursor ! 3))"
proof -
  from assms obtain bmp width height x y where b: "normalized_bmp (take n (drop 12 body)) = Some (bmp, width, height)"
    "read_u16_le body 8 = Some x" "read_u16_le body 10 = Some y" "x < width" "y < height" "cursor ! 2 = ucast x" "cursor ! 3 = ucast y"
    by (auto simp: custom_cursor_def bind_eq_Some_conv split: if_splits)
  then have "unat x < 256" "unat y < 256" using normalized_bmp_dimensions [OF b(1)] by (auto simp: word_less_nat_alt)
  then show ?thesis by (simp add: b small_word)
qed

definition cache_ok :: "BitmapCursors \<Rightarrow> bool" where
  "cache_ok entries \<longleftrightarrow> length entries \<le> MAX_CURSORS \<and> distinct (map fst entries) \<and> (\<forall>entry\<in>set entries. custom_ok (snd entry))"

lemma cache_recall_ok:
  assumes "cache_recall k entries = Some (cursor, entries')" and "cache_ok entries"
  shows "cache_ok entries' \<and> custom_ok cursor \<and> set entries' = set entries"
proof -
  from assms(1) obtain i where i: "find_position (\<lambda>entry. fst entry = k) entries = Some i"
    "cursor = snd (entries ! i)" "entries' = remove_at i entries @ [entries ! i]"
    by (auto simp: cache_recall_def split: option.splits)
  from find_position_split [OF i(1)] obtain ys x zs where
    "entries = ys @ x # zs" "length ys = i" "remove_at i entries = ys @ zs" by metis
  then have e: "entries = ys @ x # zs" "entries' = ys @ zs @ [x]" "cursor = snd x" using i by auto
  have "distinct (map fst entries')" using assms(2) unfolding cache_ok_def e by auto
  then show ?thesis using assms(2) unfolding cache_ok_def e by auto
qed

lemma cache_store_ok:
  assumes "cache_ok entries" and "custom_ok cursor"
  shows "cache_ok (cache_store k cursor entries)"
proof -
  define others where "others = filter (\<lambda>entry. fst entry \<noteq> k) entries"
  have o: "length others \<le> MAX_CURSORS" "distinct (map fst others)" "k \<notin> fst ` set others" "\<forall>entry\<in>set others. custom_ok (snd entry)"
    using assms(1) by (auto simp: others_def cache_ok_def distinct_map_filter intro: le_trans [OF length_filter_le])
  have "set (tl others) \<subseteq> set others" by (cases others) auto
  with o assms(2) show ?thesis
    by (auto simp: cache_store_def cache_ok_def others_def [symmetric] Let_def map_tl distinct_tl MAX_CURSORS_def)
qed

lemma bitmap_normalize_ok:
  assumes "bitmap_normalize base64 message entries = (cursor, entries')" and "cache_ok entries"
  shows "cache_ok entries' \<and> (\<forall>c. cursor = Some c \<longrightarrow> valid_cursor_channel_message c)"
  using assms cache_recall_ok [of _ entries] custom_cursor_ok cache_store_ok [OF assms(2)] custom_valid
  by (fastforce simp: bitmap_normalize_def Let_def split: option.splits if_splits prod.splits)

lemma system_cursor_valid:
  "m \<in> set (cursor_loop offset bs) \<Longrightarrow> sm_normalized m = Some c \<Longrightarrow> valid_cursor_channel_message c"
proof (induction offset bs rule: cursor_loop.induct)
  case (1 offset bs)
  have one: "valid_cursor_channel_message c" if "m \<in> set (cursor_message code n raw payload)" for code n raw payload
    using that 1(3) by (auto simp: cursor_message_def Let_def valid_cursor_channel_message_def read_u16_le_def from_le16_def from_be16_def
        split: if_splits)
  show ?case using 1 one by (auto simp: cursor_loop.simps [of offset bs] Let_def split: list.splits if_splits)
qed

lemma receive_cursor_messages_ok:
  assumes "cache_ok (cu_bitmaps st)" and "\<forall>c\<in>set cursors. valid_cursor_channel_message c"
    and "\<forall>m\<in>set ms. \<forall>c. sm_normalized m = Some c \<longrightarrow> valid_cursor_channel_message c"
    and "fold (receive_cursor_message base64 now) ms (cursors, st) = (cursors', st')"
  shows "cache_ok (cu_bitmaps st') \<and> (\<forall>c\<in>set cursors'. valid_cursor_channel_message c)"
  using assms
proof (induction ms arbitrary: cursors st)
  case (Cons m ms)
  obtain cursors1 st1 where one: "receive_cursor_message base64 now m (cursors, st) = (cursors1, st1)" by (metis surj_pair)
  obtain cursor bitmaps where n: "bitmap_normalize base64 (sm_raw m) (cu_bitmaps st) = (cursor, bitmaps)" by (metis surj_pair)
  have "cache_ok (cu_bitmaps st1) \<and> (\<forall>c\<in>set cursors1. valid_cursor_channel_message c)"
    using one n bitmap_normalize_ok [OF n Cons.prems(1)] Cons.prems(1-3)
    by (auto simp: receive_cursor_message_def Let_def split: option.splits if_splits)
  with Cons.IH [of st1 cursors1] Cons.prems(3,4) one show ?case by simp
qed simp

text \<open>The cursors sent to the host in a run of data on the channels; the flag says whether it is the channel for cursors.\<close>

fun cursor_step :: "(bytes \<Rightarrow> bytes) \<Rightarrow> instant \<times> bool \<times> bytes \<Rightarrow> bytes list \<times> cursor_state \<Rightarrow> bytes list \<times> cursor_state" where
  "cursor_step base64 (now, on_cursor_channel, data) (host, st) =
     (case receive_cursor_data base64 now on_cursor_channel data st of (cursors, st) \<Rightarrow> (host @ cursors, st))"

definition cursor_inv :: "bytes list \<times> cursor_state \<Rightarrow> bool" where
  "cursor_inv s \<longleftrightarrow> cache_ok (cu_bitmaps (snd s)) \<and> (\<forall>c\<in>set (fst s). valid_cursor_channel_message c)"

lemma cursor_step_inv:
  assumes "cursor_inv s"
  shows "cursor_inv (cursor_step base64 op s)"
proof -
  obtain now on_cursor_channel data host st where op: "op = (now, on_cursor_channel, data)" "s = (host, st)" by (metis surj_pair)
  have ms: "\<forall>m\<in>set (server_cursor_messages data). \<forall>c. sm_normalized m = Some c \<longrightarrow> valid_cursor_channel_message c"
    using system_cursor_valid by (auto simp: server_cursor_messages_def)
  obtain cursors st' where r: "fold (receive_cursor_message base64 now) (server_cursor_messages data) ([], st) = (cursors, st')"
    by (metis surj_pair)
  from receive_cursor_messages_ok [OF _ _ ms r] assms show ?thesis
    by (auto simp: op cursor_inv_def receive_cursor_data_def r)
qed

interpretation cursors: state_machine "cursor_step base64" cursor_inv
  by unfold_locales (rule cursor_step_inv)

text \<open>C25: Whatever arrives on the channels, every cursor handed to the host is well formed: a system cursor without an
  image or an image with its type and length, followed by nothing, a position, or a position and a scale. The cache
  holds at most sixteen cursors, each under its own identifier.\<close>

theorem host_cursors_valid:
  "(\<forall>c\<in>set (fst (fold (cursor_step base64) ops ([], cursor_new refresh))). valid_cursor_channel_message c)
   \<and> length (cu_bitmaps (snd (fold (cursor_step base64) ops ([], cursor_new refresh)))) \<le> MAX_CURSORS
   \<and> distinct (map fst (cu_bitmaps (snd (fold (cursor_step base64) ops ([], cursor_new refresh)))))"
proof -
  have "cursor_inv ([], cursor_new refresh)" by (simp add: cursor_inv_def cursor_new_def cache_ok_def)
  from cursors.run_keeps [OF this, of base64 ops] show ?thesis by (auto simp: cursor_inv_def cache_ok_def)
qed

section \<open>Normalised bitmaps\<close>

lemma split_at: "length xs = m + n \<Longrightarrow> \<exists>ys zs. xs = ys @ zs \<and> length ys = m \<and> length zs = n"
  by (rule exI [of _ "take m xs"], rule exI [of _ "drop m xs"]) simp

text \<open>The fields of the first 54 bytes.\<close>

lemma head_fields:
  assumes "54 \<le> length img"
  obtains a b c d e f g h i j rest where "img = a @ b @ c @ d @ e @ f @ g @ h @ i @ j @ rest"
    "length a = 2" "length b = 4" "length c = 4" "length d = 4" "length e = 4" "length f = 12" "length g = 4" "length h = 4"
    "length i = 8" "length j = 8"
proof
  show "img = take 2 img @ take 4 (drop 2 img) @ take 4 (drop 6 img) @ take 4 (drop 10 img) @ take 4 (drop 14 img)
    @ take 12 (drop 18 img) @ take 4 (drop 30 img) @ take 4 (drop 34 img) @ take 8 (drop 38 img) @ take 8 (drop 46 img) @ drop 54 img"
    using append_take_drop_id [of 2 img] append_take_drop_id [of 4 "drop 2 img"] append_take_drop_id [of 4 "drop 6 img"]
      append_take_drop_id [of 4 "drop 10 img"] append_take_drop_id [of 4 "drop 14 img"] append_take_drop_id [of 12 "drop 18 img"]
      append_take_drop_id [of 4 "drop 30 img"] append_take_drop_id [of 4 "drop 34 img"] append_take_drop_id [of 8 "drop 38 img"]
      append_take_drop_id [of 8 "drop 46 img"] by (simp del: append_take_drop_id add: add.commute)
qed (use assms in simp_all)

lemma write_at_field: "length xs = i \<Longrightarrow> length ys = length bs \<Longrightarrow> write_at i bs (xs @ ys @ zs) = xs @ bs @ zs"
  by (simp add: write_at_def)

lemma bmp_head_fields:
  assumes len: "length a = 2" "length b = 4" "length c = 4" "length d = 4" "length e = 4" "length f = 12" "length g = 4" "length h = 4"
    "length i = 8" "length j = 8"
  shows "bmp_head (a @ b @ c @ d @ e @ f @ g @ h @ i @ j @ rest) n =
    a @ le32 (of_nat (122 + n)) @ c @ le32 122 @ le32 108 @ f @ le32 3 @ le32 (of_nat n) @ i @ replicate 8 0
    @ concat (map le32 bmp_masks) @ le32 0x73524742 @ replicate 48 0"
proof -
  define z :: bytes where "z = replicate 4 0"
  define tail :: bytes where "tail = replicate 48 0"
  have z: "length z = 4" by (simp add: z_def)
  have r: "replicate 68 0 = z @ z @ z @ z @ z @ tail" by (simp add: z_def tail_def replicate_add [symmetric])
  let ?B = "le32 (of_nat (122 + n))" and ?N = "le32 (of_nat n)"
  have t: "take 54 (a @ b @ c @ d @ e @ f @ g @ h @ i @ j @ rest) = a @ b @ c @ d @ e @ f @ g @ h @ i @ j" by (simp add: len)
  have 1: "write_at 2 ?B (a @ b @ rest) = a @ ?B @ rest" for rest by (rule write_at_field) (simp_all add: len)
  have 2: "write_at 10 x ((a @ ?B @ c) @ d @ rest) = (a @ ?B @ c) @ x @ rest" if "length x = 4" for x rest
    by (rule write_at_field) (simp_all add: len that)
  have 3: "write_at 14 x ((a @ ?B @ c @ le32 122) @ e @ rest) = (a @ ?B @ c @ le32 122) @ x @ rest" if "length x = 4" for x rest
    by (rule write_at_field) (simp_all add: len that)
  let ?p = "a @ ?B @ c @ le32 122 @ le32 108 @ f"
  have 4: "write_at 30 x (?p @ g @ rest) = ?p @ x @ rest" if "length x = 4" for x rest
    by (rule write_at_field) (simp_all add: len that)
  have 5: "write_at 34 x ((?p @ le32 3) @ h @ rest) = (?p @ le32 3) @ x @ rest" if "length x = 4" for x rest
    by (rule write_at_field) (simp_all add: len that)
  let ?q = "?p @ le32 3 @ ?N @ i"
  have 6: "write_at 46 x (?q @ j @ rest) = ?q @ x @ rest" if "length x = 8" for x rest
    by (rule write_at_field) (simp_all add: len that)
  let ?s = "?q @ replicate 8 0"
  have 7: "write_at m x ((?s @ ys) @ z @ rest) = (?s @ ys) @ x @ rest" if "length x = 4" "m = 54 + length ys" for x rest ys m
    by (rule write_at_field) (simp_all add: len z that)
  show ?thesis
    unfolding bmp_head_def Let_def t r
    using 1 2 [of "le32 122"] 3 [of "le32 108"] 4 [of "le32 3"] 5 [of ?N] 6 [of "replicate 8 0"]
      7 [of "le32 0x00ff0000" 54 "[]"] 7 [of "le32 0x0000ff00" 58 "le32 0x00ff0000"]
      7 [of "le32 0x000000ff" 62 "le32 0x00ff0000 @ le32 0x0000ff00"]
      7 [of "le32 0xff000000" 66 "le32 0x00ff0000 @ le32 0x0000ff00 @ le32 0x000000ff"]
      7 [of "le32 0x73524742" 70 "le32 0x00ff0000 @ le32 0x0000ff00 @ le32 0x000000ff @ le32 0xff000000"]
    by (simp add: bmp_masks_def tail_def [symmetric])
qed

lemma read_le32_field: "length xs = k \<Longrightarrow> length ys = 4 \<Longrightarrow> read_u32_le (xs @ ys @ zs) k = read_u32_le ys 0"
  by (simp add: read_u32_le_def)

lemma read_le16_field: "length xs = k \<Longrightarrow> length ys = 2 \<Longrightarrow> read_u16_le (xs @ ys @ zs) k = read_u16_le ys 0"
  by (simp add: read_u16_le_def)

lemma read_le32_whole: "read_u32_le (le32 w) 0 = Some w"
  by (simp add: read_u32_le_def le32_def from_le32_def codec)

text \<open>The dimensions, planes and depth are in the twelve bytes from the eighteenth on.\<close>

lemma read_dimensions:
  assumes "length xs = 18" and "length f = 12"
  shows "read_u32_le (xs @ f @ zs) 18 = read_u32_le f 0" "read_u32_le (xs @ f @ zs) 22 = read_u32_le f 4"
    "read_u16_le (xs @ f @ zs) 26 = read_u16_le f 8" "read_u16_le (xs @ f @ zs) 28 = read_u16_le f 10"
  using assms by (simp_all add: read_u32_le_def read_u16_le_def)

lemma read_masks:
  assumes "length xs = 54"
  shows "map (\<lambda>i. read_u32_le (xs @ concat (map le32 bmp_masks) @ zs) (54 + i * 4)) [0, 1, 2, 3] = map Some bmp_masks"
proof -
  have "read_u32_le ((xs @ p) @ le32 w @ q) (54 + k * 4) = Some w" if "length p = k * 4" for p w q k
    using read_le32_field [of "xs @ p" "54 + k * 4" "le32 w" q] that assms by (simp add: read_le32_whole)
  from this [of "[]" 0] this [of "le32 0x00ff0000" 1] this [of "le32 0x00ff0000 @ le32 0x0000ff00" 2]
    this [of "le32 0x00ff0000 @ le32 0x0000ff00 @ le32 0x000000ff" 3]
  show ?thesis by (simp add: bmp_masks_def)
qed

lemma length_make_opaque [simp]: "length (make_opaque pixels) = length pixels"
  by (induction pixels rule: make_opaque.induct) auto

lemma read_written:
  assumes "read_bitmap (a @ b @ c @ d @ e @ f @ g @ h @ i @ j @ rest) = Some bm"
    and len: "length a = 2" "length b = 4" "length c = 4" "length d = 4" "length e = 4" "length f = 12" "length g = 4" "length h = 4"
    "length i = 8" "length j = 8"
  shows "read_bitmap (a @ le32 n @ c @ le32 122 @ le32 108 @ f @ le32 3 @ later) = Some (bm\<lparr> bm_header := 108, bm_offset := 122, bm_compression := 3 \<rparr>)"
proof -
  let ?img = "a @ b @ c @ d @ e @ f @ g @ h @ i @ j @ rest" and ?bmp = "a @ le32 n @ c @ le32 122 @ le32 108 @ f @ le32 3 @ later"
  have "read_u32_le ?bmp 10 = Some 122" "read_u32_le ?bmp 14 = Some 108" "read_u32_le ?bmp 30 = Some 3"
    using read_le32_field [of "a @ le32 n @ c" 10 "le32 122"] read_le32_field [of "a @ le32 n @ c @ le32 122" 14 "le32 108"]
      read_le32_field [of "a @ le32 n @ c @ le32 122 @ le32 108 @ f" 30 "le32 3"]
    by (simp_all add: len read_le32_whole)
  moreover have "read_u32_le ?bmp k = read_u32_le ?img k" if "k \<in> {18, 22}" for k
    using that read_dimensions(1,2) [of "a @ b @ c @ d @ e" f] read_dimensions(1,2) [of "a @ le32 n @ c @ le32 122 @ le32 108" f]
    by (auto simp: len)
  moreover have "read_u16_le ?bmp k = read_u16_le ?img k" if "k \<in> {26, 28}" for k
    using that read_dimensions(3,4) [of "a @ b @ c @ d @ e" f] read_dimensions(3,4) [of "a @ le32 n @ c @ le32 122 @ le32 108" f]
    by (auto simp: len)
  ultimately show ?thesis using assms(1) by (auto simp: read_bitmap_def bind_eq_Some_conv)
qed

text \<open>The bitmap a cursor is turned into is a bitmap the same reader accepts with the same dimensions, and it is left as it is
  when it is read again: its header, masks and pixels agree with one another.\<close>

theorem normalised_bitmap_stable:
  assumes "normalized_bmp img = Some (bmp, width, height)"
  shows "normalized_bmp bmp = Some (bmp, width, height)"
proof -
  obtain bm where bm: "read_bitmap img = Some bm" "bitmap_accepted img bm" "54 \<le> length img"
    "bmp = bmp_head img (pixels_len bm) @ bitmap_pixels img bm" "width = of_nat (width_of bm)" "height = of_nat (height_of bm)"
    using assms by (elim normalized_bmp_Some)
  obtain a b c d e f g h i j rest where img: "img = a @ b @ c @ d @ e @ f @ g @ h @ i @ j @ rest"
    and len: "length a = 2" "length b = 4" "length c = 4" "length d = 4" "length e = 4" "length f = 12" "length g = 4" "length h = 4"
    "length i = 8" "length j = 8" using head_fields [OF bm(3)] by metis
  define n where "n = pixels_len bm"
  define pixels where "pixels = bitmap_pixels img bm"
  have npix: "length pixels = n" using bm(2) by (auto simp: pixels_def bitmap_pixels_def Let_def bitmap_accepted_def n_def)
  have bmp: "bmp = a @ le32 (of_nat (122 + n)) @ c @ le32 122 @ le32 108 @ f @ le32 3 @ le32 (of_nat n) @ i @ replicate 8 0
    @ concat (map le32 bmp_masks) @ le32 0x73524742 @ replicate 48 0 @ pixels"
    using bm(4) by (simp add: img bmp_head_fields [OF len] n_def pixels_def)
  have head: "bmp_head bmp n = bmp_head img n"
    unfolding bmp img by (subst (1 2) bmp_head_fields) (simp_all add: len)
  have fields: "read_bitmap bmp = Some (bm\<lparr> bm_header := 108, bm_offset := 122, bm_compression := 3 \<rparr>)"
    using bm(1) unfolding bmp img by (rule read_written [OF _ len])
  define bm' where "bm' = bm\<lparr> bm_header := 108, bm_offset := 122, bm_compression := 3 \<rparr>"
  have same: "width_of bm' = width_of bm" "height_of bm' = height_of bm" "pixels_len bm' = n"
    by (simp_all add: bm'_def width_of_def height_of_def pixels_len_def n_def)
  have "take 2 bmp = take 2 img" by (simp add: bmp img len)
  moreover have total: "length bmp = 122 + n" by (simp add: bmp len npix bmp_masks_def)
  moreover have "map (\<lambda>i. read_u32_le bmp (54 + i * 4)) [0, 1, 2, 3] = map Some bmp_masks"
    using read_masks [of "a @ le32 (of_nat (122 + n)) @ c @ le32 122 @ le32 108 @ f @ le32 3 @ le32 (of_nat n) @ i @ replicate 8 0"]
    by (simp add: bmp len)
  ultimately have accepted: "bitmap_accepted bmp bm'"
    using bm(2) same by (simp add: bitmap_accepted_def bm'_def n_def)
  have "drop 122 bmp = pixels" by (simp add: bmp len bmp_masks_def)
  moreover have "bm_header bm' = 108" "bm_offset bm' = 122" by (simp_all add: bm'_def)
  ultimately have "bitmap_pixels bmp bm' = pixels" by (simp add: bitmap_pixels_def Let_def same npix)
  with fields accepted total head show ?thesis
    by (simp add: normalized_bmp_def bm'_def [symmetric] same bm n_def [symmetric] pixels_def [symmetric])
qed

definition sample_bmp :: bytes where
  "sample_bmp = [0x42, 0x4d] @ le32 62 @ replicate 4 0 @ le32 54 @ le32 40 @ le32 2 @ le32 1 @ le16 1 @ le16 32
     @ le32 0 @ replicate 20 0 @ [3, 2, 1, 255, 6, 5, 4, 0]"

lemma sample_fields:
  "read_bitmap sample_bmp = Some \<lparr> bm_header = 40, bm_offset = 54, bm_width = 2, bm_height = 1, bm_planes = 1, bm_depth = 32, bm_compression = 0 \<rparr>"
  by (simp add: sample_bmp_def read_bitmap_def read_u32_le_def read_u16_le_def le32_def le16_def from_le32_def from_be32_def
      from_le16_def from_be16_def)

lemma sample_bmp_read: "\<exists>bmp. normalized_bmp sample_bmp = Some (bmp, 2, 1)"
proof -
  have "length sample_bmp = 62" "take 2 sample_bmp = [0x42, 0x4d]" by (simp_all add: sample_bmp_def)
  then show ?thesis
    by (simp add: normalized_bmp_def sample_fields bitmap_accepted_def width_of_def height_of_def pixels_len_def MAX_IMAGE_BYTES_def)
qed

theorem normalised_bitmap_stable_witness:
  "\<exists>bmp. normalized_bmp sample_bmp = Some (bmp, 2, 1) \<and> normalized_bmp bmp = Some (bmp, 2, 1)"
  using sample_bmp_read normalised_bitmap_stable [of sample_bmp _ 2 1] by blast

theorem host_cursors_valid_witness:
  "fst (fold (cursor_step (\<lambda>bs. bs)) [(0, True, [0, 5, 0, 0, 0, 0, 0]), (1, False, [0x0f, 1, 4, 0, 7, 0, 0, 0])] ([], cursor_new None))
     = [[0, 5, 0, 0, 0, 0, 0], [0, 7, 0, 0, 0, 0, 0]]
   \<and> valid_cursor_channel_message [0, 7, 0, 0, 0, 0, 0]"
proof -
  have f: "fst (fold (cursor_step (\<lambda>bs. bs)) [(0, True, [0, 5, 0, 0, 0, 0, 0]), (1, False, [0x0f, 1, 4, 0, 7, 0, 0, 0])] ([], cursor_new None))
     = [[0, 5, 0, 0, 0, 0, 0], [0, 7, 0, 0, 0, 0, 0]]"
    by (simp add: cursor_new_def receive_cursor_data_def valid_cursor_channel_message_def read_u16_le_def from_le16_def from_be16_def from_le32_def
        from_be32_def server_cursor_messages_def cursor_loop.simps cursor_message_def COMMAND_SYSTEM_CURSOR_def receive_cursor_message_def Let_def)
  with host_cursors_valid [of "\<lambda>bs. bs" "[(0, True, [0, 5, 0, 0, 0, 0, 0]), (1, False, [0x0f, 1, 4, 0, 7, 0, 0, 0])]" None]
  show ?thesis by simp
qed

section \<open>The cache remembers\<close>

text \<open>On distinct identifiers, a recall is a lookup that moves the entry to the end.\<close>

lemma cache_recall_eq:
  assumes "distinct (map fst entries)"
  shows "cache_recall k entries = map_option (\<lambda>c. (c, filter (\<lambda>entry. fst entry \<noteq> k) entries @ [(k, c)])) (map_of entries k)"
proof (cases "find_position (\<lambda>entry. fst entry = k) entries")
  case None
  then have "map_of entries k = None" by (auto simp: find_position_None map_of_eq_None_iff)
  with None show ?thesis by (simp add: cache_recall_def)
next
  case (Some i)
  from find_position_split [OF Some] obtain ys x zs where s: "entries = ys @ x # zs" "length ys = i" "fst x = k" "remove_at i entries = ys @ zs"
    by metis
  obtain c where x: "x = (k, c)" using s(3) by (metis prod.collapse)
  have k: "k \<notin> fst ` set ys" "k \<notin> fst ` set zs" using assms by (auto simp: s(1) x)
  have "\<forall>e\<in>set ys. fst e \<noteq> k" "\<forall>e\<in>set zs. fst e \<noteq> k" using k by auto
  then have "filter (\<lambda>entry. fst entry \<noteq> k) entries = ys @ zs" by (simp add: s(1) x filter_id_conv)
  moreover have "map_of entries k = Some c" using k(1) by (simp add: s(1) x map_add_def map_of_eq_None_iff [THEN iffD2])
  moreover have "entries ! i = (k, c)" using s(1,2) x by (metis nth_append_length)
  ultimately show ?thesis using Some s(4) by (simp add: cache_recall_def)
qed

text \<open>A cursor in the cache, and the identifiers used after it.\<close>

definition used_after :: "u32 \<Rightarrow> u32 list \<Rightarrow> u32 list" where
  "used_after k keys = takeWhile (\<lambda>x. x \<noteq> k) (rev keys)"

definition kept :: "u32 \<Rightarrow> bytes \<Rightarrow> u32 set \<Rightarrow> BitmapCursors \<Rightarrow> bool" where
  "kept k cursor used entries \<longleftrightarrow> map_of entries k = Some cursor \<and> distinct (map fst entries) \<and> length entries \<le> MAX_CURSORS
     \<and> set (used_after k (map fst entries)) \<subseteq> used"

lemma used_after_filter: "k' \<noteq> k \<Longrightarrow> used_after k (filter (\<lambda>x. x \<noteq> k') keys) = filter (\<lambda>x. x \<noteq> k') (used_after k keys)"
proof -
  assume "k' \<noteq> k"
  then have "takeWhile (\<lambda>x. x \<noteq> k) (filter (\<lambda>x. x \<noteq> k') ys) = filter (\<lambda>x. x \<noteq> k') (takeWhile (\<lambda>x. x \<noteq> k) ys)" for ys
    by (induction ys) auto
  then show ?thesis by (simp add: used_after_def rev_filter)
qed

lemma used_after_snoc: "used_after k (keys @ [k']) = (if k' = k then [] else k' # used_after k keys)"
  by (simp add: used_after_def)

lemma map_fst_filter: "map fst (filter (\<lambda>entry. fst entry \<noteq> k) entries) = filter (\<lambda>x. x \<noteq> k) (map fst entries)"
  by (simp add: filter_map comp_def)

lemma map_of_filter_other: "k' \<noteq> k \<Longrightarrow> map_of (filter (\<lambda>entry. fst entry \<noteq> k') entries) k = map_of entries k"
  by (induction entries) auto

lemma map_of_filter_same: "map_of (filter (\<lambda>entry. fst entry \<noteq> k) entries) k = None"
  by (induction entries) auto

lemma kept_recall:
  assumes "kept k cursor used entries" and "cache_recall k' entries = Some (c, entries')"
  shows "kept k cursor (if k' = k then {} else insert k' used) entries' \<and> (k' = k \<longrightarrow> c = cursor)"
proof -
  have d: "distinct (map fst entries)" using assms(1) by (simp add: kept_def)
  from assms(2) have c: "map_of entries k' = Some c" "entries' = filter (\<lambda>entry. fst entry \<noteq> k') entries @ [(k', c)]"
    by (auto simp: cache_recall_eq [OF d])
  have "length (filter (\<lambda>entry. fst entry \<noteq> k') entries) < length entries"
    using map_of_SomeD [OF c(1)] by (intro length_filter_less) auto
  moreover have "distinct (map fst entries')" using d by (auto simp: c(2) map_fst_filter)
  moreover have "map_of entries' k = Some cursor"
    using assms(1) c by (auto simp: kept_def map_of_filter_other map_of_filter_same map_add_def split: option.splits)
  ultimately show ?thesis using assms(1) c(1)
    by (auto simp: kept_def c(2) map_fst_filter used_after_snoc used_after_filter)
qed

lemma kept_store:
  assumes "kept k cursor used entries" and "k' \<noteq> k" and "finite used" and "card (insert k' used) < MAX_CURSORS"
  shows "kept k cursor (insert k' used) (cache_store k' c entries)"
proof -
  define others where "others = filter (\<lambda>entry. fst entry \<noteq> k') entries"
  have others: "map_of others k = Some cursor" "distinct (map fst others)" "length others \<le> MAX_CURSORS" "k' \<notin> set (map fst others)"
    "set (used_after k (map fst others)) \<subseteq> used - {k'}"
    using assms(1,2) unfolding others_def kept_def
    by (auto simp: map_of_filter_other map_fst_filter used_after_filter intro: le_trans [OF length_filter_le])
  show ?thesis
  proof (cases "length others = MAX_CURSORS")
    case False
    with others assms(2) show ?thesis
      by (auto simp: kept_def cache_store_def others_def [symmetric] used_after_snoc map_add_def Let_def)
  next
    case True
    then obtain e es where e: "others = e # es" by (cases others) (auto simp: MAX_CURSORS_def)
    have "fst e \<noteq> k"
    proof
      assume k: "fst e = k"
      have "takeWhile (\<lambda>x. x \<noteq> k) (rev (map fst es) @ [k]) = rev (map fst es) @ takeWhile (\<lambda>x. x \<noteq> k) [k]"
        by (rule takeWhile_append2) (use others(2) k in \<open>auto simp: e intro: rev_image_eqI\<close>)
      then have "used_after k (map fst others) = rev (map fst es)" by (simp add: used_after_def e k)
      then have "card (set (map fst es)) \<le> card (used - {k'})" using others(5) assms(3) by (intro card_mono) auto
      then have "length es \<le> card (used - {k'})" using others(2) distinct_card [of "map fst es"] by (simp add: e)
      with True assms(3,4) show False by (auto simp: e card_insert_if card_Diff_singleton_if MAX_CURSORS_def split: if_splits)
    qed
    then have m: "map_of es k = Some cursor" using others(1) by (cases e) (auto simp: e)
    have "k \<in> set (rev (map fst es))" using map_of_SomeD [OF m] by force
    from takeWhile_append1 [OF this, of "\<lambda>x. x \<noteq> k"] have "used_after k (map fst es) = used_after k (map fst others)"
      by (simp add: e used_after_def)
    with m others True assms(2) e show ?thesis
      by (auto simp: kept_def cache_store_def others_def [symmetric] used_after_snoc map_add_def Let_def)
  qed
qed

text \<open>The identifier a message names, and whether it brings an image.\<close>

definition message_id :: "bytes \<Rightarrow> u32 option" where
  "message_id message = read_u32_le (drop 4 message) 0"

definition brings_image :: "bytes \<Rightarrow> bool" where
  "brings_image message \<longleftrightarrow> read_u16_le (drop 4 message) 4 \<noteq> Some 0"

definition reference_to :: "u32 \<Rightarrow> bytes" where
  "reference_to k = [0x10, 1, 6, 0] @ le32 k @ [0, 0]"

lemma bitmap_normalize_cases:
  assumes "bitmap_normalize base64 message entries = (cursor, entries')"
  obtains (nothing) "cursor = None" "entries' = entries"
    | (recall) k c where "message_id message = Some k" "\<not> brings_image message" "cache_recall k entries = Some (c, entries')"
    | (store) k c suffix where "message_id message = Some k" "brings_image message" "entries' = cache_store k c entries"
        "cursor = Some (c @ cursor_suffix suffix)"
  using assms unfolding bitmap_normalize_def message_id_def brings_image_def Let_def
  by (auto split: option.splits if_splits prod.splits)

lemma kept_run:
  assumes "kept k cursor used entries" and "finite used" and "k \<notin> used"
    and "card (used \<union> (Some -` message_id ` set later - {k})) < MAX_CURSORS"
    and "\<forall>m\<in>set later. message_id m = Some k \<longrightarrow> \<not> brings_image m"
  shows "kept k cursor (used \<union> (Some -` message_id ` set later - {k})) (fold (\<lambda>m es. snd (bitmap_normalize base64 m es)) later entries)"
  using assms
proof (induction later arbitrary: used entries)
  case (Cons m later)
  obtain c entries' where n: "bitmap_normalize base64 m entries = (c, entries')" by (metis surj_pair)
  let ?all = "used \<union> (Some -` message_id ` set (m # later) - {k})"
  let ?used = "used \<union> (Some -` {message_id m} - {k})"
  have all: "?used \<union> (Some -` message_id ` set later - {k}) = ?all" by auto
  have fin: "finite (Some -` message_id ` set (m # later))"
    by (simp add: finite_vimageI)
  have card: "card ?used < MAX_CURSORS"
    using Cons.prems(2,4) fin by (intro le_less_trans [OF card_mono Cons.prems(4)]) auto
  have "kept k cursor ?used entries'"
    using n
  proof (cases rule: bitmap_normalize_cases)
    case nothing
    with Cons.prems(1) show ?thesis by (auto simp: kept_def)
  next
    case (recall k' c)
    with kept_recall [OF Cons.prems(1) recall(3)] show ?thesis by (cases "k' = k") (auto simp: kept_def)
  next
    case (store k' c suffix)
    with Cons.prems(5) have "k' \<noteq> k" by auto
    then have "?used = insert k' used" using store(1) by auto
    with store \<open>k' \<noteq> k\<close> card kept_store [OF Cons.prems(1) _ Cons.prems(2), of k' c] show ?thesis by simp
  qed
  from Cons.IH [OF this] Cons.prems all n show ?case by (auto simp: finite_subset)
qed simp

text \<open>C33: A cursor the server sent as an image is found again by its identifier as long as fewer than sixteen other cursors were
  named since and no other image was sent under the same identifier: the cache drops the cursor that was not used for longest.\<close>

theorem cursor_cache_remembers:
  assumes "entries = fold (\<lambda>m es. snd (bitmap_normalize base64 m es)) earlier []"
    and "bitmap_normalize base64 message entries = (Some shown, entries1)" and "message_id message = Some k" and "brings_image message"
    and "card (Some -` message_id ` set later - {k}) < MAX_CURSORS" and "\<forall>m\<in>set later. message_id m = Some k \<longrightarrow> \<not> brings_image m"
  shows "\<exists>cursor suffix. shown = cursor @ cursor_suffix suffix
    \<and> fst (bitmap_normalize base64 (reference_to k) (fold (\<lambda>m es. snd (bitmap_normalize base64 m es)) later entries1)) = Some cursor"
proof -
  have keeps: "cache_ok (fold (\<lambda>m es. snd (bitmap_normalize base64 m es)) ms es)" if "cache_ok es" for ms es
    using that by (induction ms arbitrary: es) (auto simp: bitmap_normalize_ok prod_eq_iff dest: bitmap_normalize_ok [OF surjective_pairing])
  have ok: "cache_ok entries" unfolding assms(1) by (rule keeps) (simp add: cache_ok_def)
  from assms(2-4) obtain c suffix where c: "entries1 = cache_store k c entries" "shown = c @ cursor_suffix suffix"
    by (cases rule: bitmap_normalize_cases) auto
  have new: "cache_ok entries1" using bitmap_normalize_ok [OF assms(2) ok] by simp
  obtain es where es: "entries1 = es @ [(k, c)]" by (simp add: c(1) cache_store_def Let_def)
  have "map_of es k = None" using new by (simp add: map_of_eq_None_iff cache_ok_def es)
  with new have "kept k c {} entries1" by (simp add: kept_def cache_ok_def used_after_snoc es map_add_def)
  from kept_run [OF this, of later base64] assms(5,6)
  have "kept k c (Some -` message_id ` set later - {k}) (fold (\<lambda>m es. snd (bitmap_normalize base64 m es)) later entries1)" by simp
  then have "\<exists>es. cache_recall k (fold (\<lambda>m es. snd (bitmap_normalize base64 m es)) later entries1) = Some (c, es)"
    by (auto simp: kept_def cache_recall_eq)
  then have "fst (bitmap_normalize base64 (reference_to k) (fold (\<lambda>m es. snd (bitmap_normalize base64 m es)) later entries1)) = Some c"
    by (auto simp: bitmap_normalize_def reference_to_def read_u16_le_def read_u32_le_def le32_def from_le16_def from_be16_def from_le32_def codec
        cursor_suffix_def)
  with c(2) show ?thesis by blast
qed

definition sample_message :: bytes where
  "sample_message = [0x10, 1] @ le16 74 @ le32 1000 @ le16 62 @ [0, 0] @ le16 1 @ le16 0 @ sample_bmp"

lemma sample_normalize:
  "\<exists>shown entries. bitmap_normalize (\<lambda>bs. []) sample_message [] = (Some shown, entries)" "message_id sample_message = Some 1000"
  "brings_image sample_message"
proof -
  have n: "length sample_bmp = 62" by (simp add: sample_bmp_def)
  obtain bmp where "normalized_bmp sample_bmp = Some (bmp, 2, 1)" using sample_bmp_read by blast
  then show "\<exists>shown entries. bitmap_normalize (\<lambda>bs. []) sample_message [] = (Some shown, entries)"
    by (simp add: bitmap_normalize_def sample_message_def read_u16_le_def read_u32_le_def le16_def le32_def from_le16_def from_be16_def
        from_le32_def from_be32_def custom_cursor_def n)
  show "message_id sample_message = Some 1000" "brings_image sample_message"
    by (simp_all add: message_id_def brings_image_def sample_message_def read_u16_le_def read_u32_le_def le16_def le32_def from_le16_def
        from_be16_def from_le32_def from_be32_def)
qed

theorem cursor_cache_remembers_witness:
  "\<exists>shown entries cursor suffix. bitmap_normalize (\<lambda>bs. []) sample_message [] = (Some shown, entries) \<and> shown = cursor @ cursor_suffix suffix
     \<and> fst (bitmap_normalize (\<lambda>bs. []) (reference_to 1000) (snd (bitmap_normalize (\<lambda>bs. []) (reference_to 7) entries))) = Some cursor"
proof -
  obtain shown entries where s: "bitmap_normalize (\<lambda>bs. []) sample_message [] = (Some shown, entries)" using sample_normalize(1) by blast
  have r: "message_id (reference_to 7) = Some 7"
    by (simp add: message_id_def reference_to_def read_u32_le_def le32_def from_le32_def from_be32_def)
  have "Some -` message_id ` set [reference_to 7] - {1000 :: u32} = {7}" using r by auto
  then show ?thesis
    using cursor_cache_remembers [OF _ s sample_normalize(2,3), of "[]" "[reference_to 7]"] s r by (auto simp: MAX_CURSORS_def)
qed

section \<open>The cursor changes hands\<close>

text \<open>A run of the automaton: the commands sent and the times the host was told, since the last activation. The
  function of an update says which commands the channel takes.\<close>

record handover_run =
  ca_state :: CaptureState
  ca_sent :: "CursorCommand list"
  ca_told :: nat

datatype handover_op = Activate instant | ResetCapture | Notify instant | Update instant "CursorCommand \<Rightarrow> bool"

fun handover_step :: "handover_op \<Rightarrow> handover_run \<Rightarrow> handover_run" where
  "handover_step (Activate now) s = \<lparr> ca_state = capture_activate now (ca_state s), ca_sent = [], ca_told = 0 \<rparr>"
| "handover_step ResetCapture s = s\<lparr> ca_state := capture_reset (ca_state s) \<rparr>"
| "handover_step (Notify now) s = s\<lparr> ca_state := capture_notify now (ca_state s) \<rparr>"
| "handover_step (Update now takes) s =
     (case capture_update now (\<lambda>command sent. (takes command, sent @ [command])) (ca_state s) (ca_sent s) of
        (local, st, sent) \<Rightarrow> \<lparr> ca_state = st, ca_sent = sent, ca_told = ca_told s + of_bool local \<rparr>)"

definition capture_start :: handover_run where
  "capture_start = \<lparr> ca_state = CaptureInactive, ca_sent = [], ca_told = 0 \<rparr>"

definition requests :: "handover_run \<Rightarrow> nat" where "requests s = count_list (ca_sent s) (CaptureCommand True)"
definition handovers :: "handover_run \<Rightarrow> nat" where "handovers s = count_list (ca_sent s) (CaptureCommand False)"

definition capture_ok :: "handover_run \<Rightarrow> bool" where
  "capture_ok s \<longleftrightarrow> requests s < MAX_CURSOR_ATTEMPTS \<and> handovers s \<le> MAX_CURSOR_ATTEMPTS \<and> ca_told s \<le> 1
     \<and> (case ca_state s of
          Waiting _ _ attempts \<Rightarrow> requests s + 1 = attempts \<and> handovers s = 0 \<and> ca_told s = 0
        | Disabling _ attempts _ \<Rightarrow> handovers s = attempts \<and> attempts < MAX_CURSOR_ATTEMPTS \<and> ca_told s = 0
        | CaptureLocal \<Rightarrow> ca_told s = 1
        | Exhausted \<Rightarrow> ca_told s = 0 \<and> handovers s = MAX_CURSOR_ATTEMPTS
        | CaptureInactive \<Rightarrow> True)"

lemmas capture_defs = capture_ok_def requests_def handovers_def MAX_CURSOR_ATTEMPTS_def

lemma handover_step_ok: "capture_ok s \<Longrightarrow> capture_ok (handover_step op s)"
proof (cases op)
  case (Update now takes)
  assume "capture_ok s"
  then show ?thesis unfolding Update
    by (cases "ca_state s"; cases "takes (CaptureCommand False)") (auto simp: capture_defs capture_update_def split: if_splits)
next
  case (Notify now)
  assume "capture_ok s"
  then show ?thesis unfolding Notify by (cases "ca_state s") (auto simp: capture_defs)
qed (auto simp: capture_defs capture_activate_def capture_reset_def)

interpretation capture: state_machine handover_step capture_ok
  by unfold_locales (rule handover_step_ok)

text \<open>Since the last activation the client asks the server at most seven more times to draw the cursor and at most eight times
  to leave it to the client, and it tells its host at most once that it draws the cursor; when it stops trying, all eight
  commands were refused.\<close>

theorem cursor_handover_bounded:
  assumes "s = fold handover_step ops capture_start"
  shows "requests s < MAX_CURSOR_ATTEMPTS \<and> handovers s \<le> MAX_CURSOR_ATTEMPTS \<and> ca_told s \<le> 1
    \<and> (ca_state s = CaptureLocal \<longrightarrow> ca_told s = 1) \<and> (ca_state s = Exhausted \<longrightarrow> ca_told s = 0 \<and> handovers s = MAX_CURSOR_ATTEMPTS)"
proof -
  have "capture_ok s" unfolding assms by (rule capture.run_keeps) (simp add: capture_defs capture_start_def)
  then show ?thesis by (auto simp: capture_ok_def)
qed

theorem cursor_handover_bounded_witness:
  "handovers (fold handover_step (Activate 0 # Notify 1 # replicate 9 (Update 9000000000 (\<lambda>_. False))) capture_start) \<le> 8"
  using cursor_handover_bounded [OF refl, of "Activate 0 # Notify 1 # replicate 9 (Update 9000000000 (\<lambda>_. False))"]
  by (simp add: MAX_CURSOR_ATTEMPTS_def)

text \<open>What happens between the activation and an update after the deadline, when nothing is reset and the channel takes the
  command that hands the cursor over.\<close>

definition quiet :: "instant \<Rightarrow> handover_op \<Rightarrow> bool" where
  "quiet now op \<longleftrightarrow> (case op of Notify t \<Rightarrow> t \<le> now | Update t takes \<Rightarrow> t \<le> now \<and> takes (CaptureCommand False) | _ \<Rightarrow> False)"

definition handing_over :: "instant \<Rightarrow> CaptureState \<Rightarrow> bool" where
  "handing_over now st \<longleftrightarrow> (case st of Waiting deadline _ _ \<Rightarrow> deadline \<le> now | Disabling retry_at _ _ \<Rightarrow> retry_at \<le> now
     | CaptureLocal \<Rightarrow> True | _ \<Rightarrow> False)"

lemma handing_over_step:
  assumes "quiet now op" and "handing_over now (ca_state s)"
  shows "handing_over now (ca_state (handover_step op s))"
proof (cases op)
  case (Update t takes)
  with assms show ?thesis by (cases "ca_state s") (auto simp: quiet_def handing_over_def capture_update_def split: if_splits)
next
  case (Notify t)
  with assms show ?thesis by (cases "ca_state s") (auto simp: quiet_def handing_over_def)
qed (use assms in \<open>simp_all add: quiet_def\<close>)

text \<open>C32: The client gets the cursor: unless the channel closes, an update three seconds after the activation, with a channel
  that takes the command, leaves the cursor to the client, even when the server never says anything, and the host has been told once.\<close>

theorem cursor_handed_over:
  assumes "\<forall>op\<in>set between. quiet now op" and "start + SILENT_HOST_TIMEOUT \<le> now" and "takes (CaptureCommand False)"
    and "s = fold handover_step (earlier @ Activate start # between @ [Update now takes]) capture_start"
  shows "ca_state s = CaptureLocal \<and> ca_told s = 1"
proof -
  let ?s = "handover_step (Activate start) (fold handover_step earlier capture_start)"
  have "handing_over now (ca_state ?s)" using assms(2) by (simp add: handing_over_def capture_activate_def)
  then have "handing_over now (ca_state (fold handover_step between ?s))"
    using assms(1) by (induction between rule: rev_induct) (auto simp: handing_over_step)
  then have "ca_state s = CaptureLocal" using assms(3) unfolding assms(4)
    by (cases "ca_state (fold handover_step between ?s)") (auto simp: handing_over_def capture_update_def)
  moreover have "capture_ok s" unfolding assms(4) by (rule capture.run_keeps) (simp add: capture_defs capture_start_def)
  ultimately show ?thesis by (simp add: capture_ok_def)
qed

theorem cursor_handed_over_witness:
  "ca_told (fold handover_step [Activate 0, Update 250000000 (\<lambda>_. True), Update 3000000000 (\<lambda>_. True)] capture_start) = 1"
  using cursor_handed_over [of "[Update 250000000 (\<lambda>_. True)]" 3000000000 0 "\<lambda>_. True" _ "[]"]
  by (simp add: quiet_def SILENT_HOST_TIMEOUT_def secs_def)

end
