(* ===== verification/Microphone.thy ===== *)
theory Microphone
  imports Prelude "HOL-Library.Sublist"
begin

text \<open>
  The microphone on its way to the server (\<open>nvst_microphone.rs\<close> and its use in the bundle loop of \<open>nvst.rs\<close>): a short queue
  of encoded frames that forgets what is old and whatever was recorded before it was switched, and the RTP packets the
  loop makes of it. Every method holds the lock of the queue; the loop holds it for its turn.
\<close>

section \<open>The queue\<close>

definition MICROPHONE_QUEUE_CAPACITY :: nat where "MICROPHONE_QUEUE_CAPACITY = 5"
definition MAX_OPUS_BYTES :: nat where "MAX_OPUS_BYTES = 1275"
definition MAX_FRAME_AGE :: duration where "MAX_FRAME_AGE = millis 100"

text \<open>The errors of the receiver; an \<open>io::Error\<close> is its message. The queue returns \<open>ReceiverClosed\<close> (\<open>Closed\<close>) and the last three.\<close>

datatype NvstUdpReceiverError =
    ReceiverBind string
  | ReceiverConfigure string
  | ReceiverSpawn string
  | ReceiverClosed
  | WebrtcBundle string
  | MicrophoneUnavailable
  | MicrophoneDisabled
  | InvalidMicrophoneFrame

record MicrophoneFrame =
  mp_payload :: bytes
  mp_timestamp :: u32
  mp_queued_at :: instant

record MicrophoneQueue =
  mq_available :: bool
  mq_enabled :: bool
  mq_closed :: bool
  mq_generation :: u64
  mq_frames :: "MicrophoneFrame list"
  mq_dropped :: nat

definition MicrophoneQueue_new :: "bool \<Rightarrow> MicrophoneQueue" where
  "MicrophoneQueue_new available = \<lparr> mq_available = available, mq_enabled = False, mq_closed = False, mq_generation = 0,
     mq_frames = [], mq_dropped = 0 \<rparr>"

definition microphone_clear :: "MicrophoneQueue \<Rightarrow> MicrophoneQueue" where
  "microphone_clear q = q\<lparr> mq_dropped := mq_dropped q + length (mq_frames q), mq_frames := [] \<rparr>"

definition set_microphone_enabled :: "bool \<Rightarrow> MicrophoneQueue \<Rightarrow> (NvstUdpReceiverError + unit) \<times> MicrophoneQueue" where
  "set_microphone_enabled enabled q =
     (let q = microphone_clear q; q = q\<lparr> mq_generation := mq_generation q + 1 \<rparr>
      in if mq_closed q then (Inl ReceiverClosed, q)
         else if enabled \<and> \<not> mq_available q then (Inl MicrophoneUnavailable, q)
         else (Inr (), q\<lparr> mq_enabled := enabled \<rparr>))"

definition microphone_push :: "bytes \<Rightarrow> u32 \<Rightarrow> instant \<Rightarrow> MicrophoneQueue \<Rightarrow> (NvstUdpReceiverError + unit) \<times> MicrophoneQueue" where
  "microphone_push payload timestamp now q =
     (if mq_closed q then (Inl ReceiverClosed, q)
      else if \<not> mq_available q then (Inl MicrophoneUnavailable, q)
      else if \<not> mq_enabled q then (Inl MicrophoneDisabled, q)
      else if payload = [] \<or> length payload > MAX_OPUS_BYTES then (Inl InvalidMicrophoneFrame, q)
      else let q = (if length (mq_frames q) = MICROPHONE_QUEUE_CAPACITY
                    then q\<lparr> mq_frames := tl (mq_frames q), mq_dropped := mq_dropped q + 1 \<rparr> else q)
           in (Inr (), q\<lparr> mq_frames := mq_frames q @ [\<lparr> mp_payload = payload, mp_timestamp = timestamp, mp_queued_at = now \<rparr>] \<rparr>))"

text \<open>The loop of \<open>pop\<close>: the frames that are too old, and the rest.\<close>

definition stale :: "instant \<Rightarrow> MicrophoneFrame \<Rightarrow> bool" where
  "stale now frame \<longleftrightarrow> MAX_FRAME_AGE \<le> now - mp_queued_at frame"

definition microphone_pop :: "instant \<Rightarrow> MicrophoneQueue \<Rightarrow> MicrophoneFrame option \<times> MicrophoneQueue" where
  "microphone_pop now q =
     (let old = takeWhile (stale now) (mq_frames q); q = q\<lparr> mq_dropped := mq_dropped q + length old \<rparr>
      in case dropWhile (stale now) (mq_frames q) of
           [] \<Rightarrow> (None, q\<lparr> mq_frames := [] \<rparr>)
         | frame # rest \<Rightarrow> (Some frame, q\<lparr> mq_frames := rest \<rparr>))"

definition microphone_close :: "MicrophoneQueue \<Rightarrow> MicrophoneQueue" where
  "microphone_close q =
     (let q = microphone_clear q in q\<lparr> mq_enabled := False, mq_closed := True, mq_generation := mq_generation q + 1 \<rparr>)"

section \<open>The bundle loop\<close>

text \<open>What the loop does to the stack: a stream is removed, or a packet is written with its sequence number.\<close>

datatype uplink_call = RemoveStream | WriteRtp nat MicrophoneFrame

record uplink =
  up_generation :: u64
  up_sequence :: nat

lemma microphone_pop_shrinks: "microphone_pop now q = (Some frame, q') \<Longrightarrow> length (mq_frames q') < length (mq_frames q)"
  using length_dropWhile_le [of "stale now" "mq_frames q"] by (auto simp: microphone_pop_def Let_def split: list.splits)

text \<open>The loop over the frames, with the reading of the clock in its \<open>n\<close>-th round.\<close>

function send_frames :: "(nat \<Rightarrow> instant) \<Rightarrow> nat \<Rightarrow> uplink \<Rightarrow> MicrophoneQueue \<Rightarrow> uplink_call list \<times> uplink \<times> MicrophoneQueue" where
  "send_frames clock n u q =
     (case microphone_pop (clock n) q of
        (None, q) \<Rightarrow> ([], u, q)
      | (Some frame, q) \<Rightarrow>
          (case send_frames clock (n + 1) (u\<lparr> up_sequence := up_sequence u + 1 \<rparr>) q of
             (calls, u', q) \<Rightarrow> (WriteRtp (up_sequence u) frame # calls, u', q)))"
  by pat_completeness auto
termination by (relation "measure (\<lambda>(_, _, _, q). length (mq_frames q))") (auto dest: microphone_pop_shrinks [OF sym])

declare send_frames.simps [simp del]

definition microphone_turn ::
  "bool \<Rightarrow> bool \<Rightarrow> (nat \<Rightarrow> instant) \<Rightarrow> uplink \<Rightarrow> MicrophoneQueue \<Rightarrow> uplink_call list \<times> uplink \<times> MicrophoneQueue" where
  "microphone_turn upstream_allowed dtls_ready clock u q =
     (let (removed, u) = (if upstream_allowed \<and> up_generation u \<noteq> mq_generation q
                          then ([RemoveStream], u\<lparr> up_generation := mq_generation q \<rparr>) else ([], u))
      in if upstream_allowed \<and> dtls_ready
         then (case send_frames clock 0 u q of (calls, u, q) \<Rightarrow> (removed @ calls, u, q))
         else (removed, u, q))"

text \<open>A packet of the microphone that cannot be sent closes the queue.\<close>

definition microphone_send_failed :: "uplink \<Rightarrow> MicrophoneQueue \<Rightarrow> uplink_call list \<times> uplink \<times> MicrophoneQueue" where
  "microphone_send_failed u q =
     (let q = microphone_close q in ([RemoveStream], u\<lparr> up_generation := mq_generation q \<rparr>, q))"

section \<open>What the server hears\<close>

text \<open>The frames taken in with the generation they were recorded in, and those sent with the time and the generation of
  the queue then.\<close>

record microphone_run =
  mr_queue :: MicrophoneQueue
  mr_uplink :: uplink
  mr_calls :: "uplink_call list"
  mr_pushed :: "(u64 \<times> MicrophoneFrame) list"
  mr_sent :: "(instant \<times> u64 \<times> MicrophoneFrame) list"

fun written :: "uplink_call list \<Rightarrow> (nat \<times> MicrophoneFrame) list" where
  "written [] = []"
| "written (RemoveStream # calls) = written calls"
| "written (WriteRtp n frame # calls) = (n, frame) # written calls"

datatype microphone_op =
    SetEnabled bool
  | PushOpus bytes u32 instant
  | MicrophoneTurn bool bool "nat \<Rightarrow> instant"
  | MicrophoneSendFailed
  | CloseMicrophone

fun microphone_step :: "microphone_op \<Rightarrow> microphone_run \<Rightarrow> microphone_run" where
  "microphone_step (SetEnabled enabled) s = s\<lparr> mr_queue := snd (set_microphone_enabled enabled (mr_queue s)) \<rparr>"
| "microphone_step (PushOpus payload timestamp now) s =
     (case microphone_push payload timestamp now (mr_queue s) of
        (Inl _, q) \<Rightarrow> s\<lparr> mr_queue := q \<rparr>
      | (Inr _, q) \<Rightarrow> s\<lparr> mr_queue := q, mr_pushed := mr_pushed s @ [(mq_generation q, last (mq_frames q))] \<rparr>)"
| "microphone_step (MicrophoneTurn upstream_allowed dtls_ready clock) s =
     (case microphone_turn upstream_allowed dtls_ready clock (mr_uplink s) (mr_queue s) of
        (calls, u, q) \<Rightarrow>
          s\<lparr> mr_queue := q, mr_uplink := u, mr_calls := mr_calls s @ calls,
             mr_sent := mr_sent s @ map (\<lambda>(i, _, frame). (clock i, mq_generation (mr_queue s), frame)) (enumerate 0 (written calls)) \<rparr>)"
| "microphone_step MicrophoneSendFailed s =
     (case microphone_send_failed (mr_uplink s) (mr_queue s) of
        (calls, u, q) \<Rightarrow> s\<lparr> mr_queue := q, mr_uplink := u, mr_calls := mr_calls s @ calls \<rparr>)"
| "microphone_step CloseMicrophone s = s\<lparr> mr_queue := microphone_close (mr_queue s) \<rparr>"

definition microphone_start :: "bool \<Rightarrow> microphone_run" where
  "microphone_start available = \<lparr> mr_queue = MicrophoneQueue_new available, mr_uplink = \<lparr> up_generation = 0, up_sequence = 0 \<rparr>,
     mr_calls = [], mr_pushed = [], mr_sent = [] \<rparr>"

definition microphone_inv :: "microphone_run \<Rightarrow> bool" where
  "microphone_inv s \<longleftrightarrow>
     subseq (map snd (mr_sent s) @ map (Pair (mq_generation (mr_queue s))) (mq_frames (mr_queue s))) (mr_pushed s)
     \<and> (\<forall>(t, _, frame)\<in>set (mr_sent s). \<not> stale t frame)
     \<and> map fst (written (mr_calls s)) = [0..<length (mr_sent s)] \<and> up_sequence (mr_uplink s) = length (mr_sent s)
     \<and> length (mq_frames (mr_queue s)) \<le> MICROPHONE_QUEUE_CAPACITY
     \<and> length (mr_pushed s) = length (mr_sent s) + length (mq_frames (mr_queue s)) + mq_dropped (mr_queue s)"

lemma written_append [simp]: "written (xs @ ys) = written xs @ written ys"
  by (induction xs rule: written.induct) auto

text \<open>The frames of a queue after a round of the loop: those sent are fresh and in order, the others are counted.\<close>

lemma send_frames_ok:
  assumes "send_frames clock n u q = (calls, u', q')"
  shows "mq_frames q' = [] \<and> mq_generation q' = mq_generation q
    \<and> subseq (map snd (written calls)) (mq_frames q)
    \<and> map fst (written calls) = [up_sequence u..<up_sequence u + length (written calls)]
    \<and> up_sequence u' = up_sequence u + length (written calls)
    \<and> (\<forall>i<length (written calls). \<not> stale (clock (n + i)) (snd (written calls ! i)))
    \<and> mq_dropped q' = mq_dropped q + (length (mq_frames q) - length (written calls))"
  using assms
proof (induction clock n u q arbitrary: calls u' q' rule: send_frames.induct)
  case (1 clock n u q)
  obtain frame q1 where p: "microphone_pop (clock n) q = (frame, q1)" by (metis surj_pair)
  define old where "old = takeWhile (stale (clock n)) (mq_frames q)"
  have split: "mq_frames q = old @ dropWhile (stale (clock n)) (mq_frames q)" by (simp add: old_def)
  show ?case
  proof (cases frame)
    case None
    then have "dropWhile (stale (clock n)) (mq_frames q) = []" "q1 = q\<lparr> mq_dropped := mq_dropped q + length old, mq_frames := [] \<rparr>"
      using p by (auto simp: microphone_pop_def Let_def old_def split: list.splits)
    with split 1(2) p None show ?thesis by (auto simp: send_frames.simps [of clock n u q])
  next
    case (Some f)
    then obtain rest where r: "dropWhile (stale (clock n)) (mq_frames q) = f # rest"
      "q1 = q\<lparr> mq_dropped := mq_dropped q + length old, mq_frames := rest \<rparr>"
      using p by (auto simp: microphone_pop_def Let_def old_def split: list.splits)
    then have fresh: "\<not> stale (clock n) f" by (metis hd_dropWhile list.distinct(1) list.sel(1))
    obtain calls1 u1 q2 where s: "send_frames clock (n + 1) (u\<lparr> up_sequence := up_sequence u + 1 \<rparr>) q1 = (calls1, u1, q2)"
      by (metis surj_pair)
    from 1(1) [OF p [symmetric] Some s] have ih: "mq_frames q2 = []" "mq_generation q2 = mq_generation q1" "subseq (map snd (written calls1)) rest"
      "map fst (written calls1) = [up_sequence u + 1..<up_sequence u + 1 + length (written calls1)]"
      "up_sequence u1 = up_sequence u + 1 + length (written calls1)"
      "\<forall>i<length (written calls1). \<not> stale (clock (n + 1 + i)) (snd (written calls1 ! i))"
      "mq_dropped q2 = mq_dropped q1 + (length rest - length (written calls1))"
      by (auto simp: r(2))
    have calls: "calls = WriteRtp (up_sequence u) f # calls1" "u' = u1" "q' = q2"
      using 1(2) p Some s by (auto simp: send_frames.simps [of clock n u q])
    have frames: "mq_frames q = old @ f # rest" using split r(1) by simp
    have le: "length (written calls1) \<le> length rest" using list_emb_length [OF ih(3)] by simp
    have "subseq (f # map snd (written calls1)) (old @ f # rest)"
      using ih(3) by (metis append_Nil list_emb_append_mono list_emb_Nil subseq_Cons2)
    moreover have "\<forall>i<Suc (length (written calls1)). \<not> stale (clock (n + i)) (snd (((up_sequence u, f) # written calls1) ! i))"
      using ih(6) fresh by (auto simp: less_Suc_eq_0_disj)
    moreover have "map fst (written calls) = [up_sequence u..<up_sequence u + length (written calls)]"
      using ih(4) upt_conv_Cons [of "up_sequence u" "up_sequence u + 1 + length (written calls1)"] by (simp add: calls(1) del: upt_Suc)
    moreover have "mq_dropped q' = mq_dropped q + (length (mq_frames q) - length (written calls))"
      using ih(7) le by (simp add: calls frames r(2))
    ultimately show ?thesis using ih(1,2,5) by (simp add: calls(2,3) frames r(2) del: upt_Suc) (simp add: calls(1))
  qed
qed

lemma subseq_drop_queue: "subseq (xs @ ys) zs \<Longrightarrow> subseq ys' ys \<Longrightarrow> subseq (xs @ ys') zs"
  by (meson list_emb_append_mono subseq_order.order_refl subseq_order.order_trans)

lemma microphone_turn_ok:
  assumes "microphone_turn upstream_allowed dtls_ready clock u q = (calls, u', q')"
  shows "mq_generation q' = mq_generation q
    \<and> subseq (map snd (written calls) @ mq_frames q') (mq_frames q)
    \<and> map fst (written calls) = [up_sequence u..<up_sequence u + length (written calls)]
    \<and> up_sequence u' = up_sequence u + length (written calls)
    \<and> (\<forall>i<length (written calls). \<not> stale (clock i) (snd (written calls ! i)))
    \<and> length (mq_frames q) + mq_dropped q = length (written calls) + length (mq_frames q') + mq_dropped q'"
proof -
  define u1 where "u1 = (if upstream_allowed \<and> up_generation u \<noteq> mq_generation q then u\<lparr> up_generation := mq_generation q \<rparr> else u)"
  have u1: "up_sequence u1 = up_sequence u" by (simp add: u1_def)
  obtain calls1 u2 q2 where s: "send_frames clock 0 u1 q = (calls1, u2, q2)" by (metis surj_pair)
  from send_frames_ok [OF s] have ok: "subseq (map snd (written calls1)) (mq_frames q)" by simp
  from list_emb_length [OF ok] have le: "length (written calls1) \<le> length (mq_frames q)" by simp
  show ?thesis
  proof (cases "upstream_allowed \<and> dtls_ready")
    case True
    then have c: "written calls = written calls1" "u' = u2" "q' = q2"
      using assms s by (auto simp: microphone_turn_def u1_def Let_def split: if_splits)
    show ?thesis using send_frames_ok [OF s] le by (simp add: c u1 del: upt_Suc)
  next
    case False
    then have c: "written calls = []" "up_sequence u' = up_sequence u" "q' = q"
      using assms by (auto simp: microphone_turn_def Let_def split: if_splits)
    show ?thesis by (simp add: c)
  qed
qed

lemma microphone_step_inv: "microphone_inv s \<Longrightarrow> microphone_inv (microphone_step op s)"
proof (cases op)
  case (PushOpus payload timestamp now)
  assume inv: "microphone_inv s"
  show ?thesis
  proof (cases "microphone_push payload timestamp now (mr_queue s)")
    case (Pair r q)
    let ?frames = "if length (mq_frames (mr_queue s)) = MICROPHONE_QUEUE_CAPACITY then tl (mq_frames (mr_queue s)) else mq_frames (mr_queue s)"
    have "subseq (map (Pair g) ?frames) (map (Pair g) (mq_frames (mr_queue s)))" for g :: u64
      by (cases "mq_frames (mr_queue s)") (auto simp: subseq_map)
    from subseq_drop_queue [OF _ this] inv
    have "subseq (map snd (mr_sent s) @ map (Pair (mq_generation (mr_queue s))) ?frames) (mr_pushed s)" by (simp add: microphone_inv_def)
    from list_emb_append_mono [OF this subseq_order.order_refl, of "[x]" for x]
    show ?thesis using inv Pair unfolding PushOpus
      by (auto simp: microphone_inv_def microphone_push_def Let_def MICROPHONE_QUEUE_CAPACITY_def split: if_splits)
  qed
next
  case (MicrophoneTurn upstream_allowed dtls_ready clock)
  assume inv: "microphone_inv s"
  obtain calls u q where t: "microphone_turn upstream_allowed dtls_ready clock (mr_uplink s) (mr_queue s) = (calls, u, q)" by (metis surj_pair)
  note ok = microphone_turn_ok [OF t]
  let ?g = "mq_generation (mr_queue s)"
  let ?sent = "map (\<lambda>(i, _, frame). (clock i, ?g, frame)) (enumerate 0 (written calls))"
  have snd_sent: "map snd ?sent = map (Pair ?g) (map snd (written calls))"
    by (auto intro!: nth_equalityI simp: nth_enumerate_eq case_prod_beta)
  have "subseq (map (Pair ?g) (map snd (written calls) @ mq_frames q)) (map (Pair ?g) (mq_frames (mr_queue s)))"
    using ok by (intro subseq_map) simp
  moreover have "subseq (map snd (mr_sent s) @ map (Pair ?g) (mq_frames (mr_queue s))) (mr_pushed s)"
    using inv by (simp add: microphone_inv_def)
  ultimately have "subseq (map snd (mr_sent s) @ map (Pair ?g) (map snd (written calls) @ mq_frames q)) (mr_pushed s)"
    by (rule subseq_drop_queue [rotated])
  then have "subseq (map snd (mr_sent s @ ?sent) @ map (Pair ?g) (mq_frames q)) (mr_pushed s)"
    unfolding map_append snd_sent append_assoc .
  moreover have "\<forall>(t, _, frame)\<in>set ?sent. \<not> stale t frame"
    using ok by (auto simp: in_set_enumerate_eq)
  moreover have "map fst (written (mr_calls s @ calls)) = [0..<length (mr_sent s @ ?sent)]"
  proof -
    have "map fst (written (mr_calls s)) = [0..<length (mr_sent s)]" "up_sequence (mr_uplink s) = length (mr_sent s)"
      using inv unfolding microphone_inv_def by blast+
    then show ?thesis using ok upt_add_eq_append [of 0 "length (mr_sent s)" "length (written calls)"] by simp
  qed
  moreover have "length (map snd (written calls) @ mq_frames q) \<le> length (mq_frames (mr_queue s))" using ok by (intro list_emb_length) blast
  ultimately show ?thesis using inv ok unfolding MicrophoneTurn by (auto simp: microphone_inv_def t)
next
  case (SetEnabled enabled)
  assume inv: "microphone_inv s"
  then have "subseq (map snd (mr_sent s) @ []) (mr_pushed s)" unfolding microphone_inv_def by (blast intro: subseq_drop_queue)
  then show ?thesis using inv unfolding SetEnabled
    by (auto simp: microphone_inv_def set_microphone_enabled_def microphone_clear_def Let_def)
next
  case MicrophoneSendFailed
  assume inv: "microphone_inv s"
  then have "subseq (map snd (mr_sent s) @ []) (mr_pushed s)" unfolding microphone_inv_def by (blast intro: subseq_drop_queue)
  then show ?thesis using inv unfolding MicrophoneSendFailed
    by (auto simp: microphone_inv_def microphone_send_failed_def microphone_close_def microphone_clear_def Let_def)
next
  case CloseMicrophone
  assume inv: "microphone_inv s"
  then have "subseq (map snd (mr_sent s) @ []) (mr_pushed s)" unfolding microphone_inv_def by (blast intro: subseq_drop_queue)
  then show ?thesis using inv unfolding CloseMicrophone
    by (auto simp: microphone_inv_def microphone_close_def microphone_clear_def Let_def)
qed

interpretation microphone: state_machine microphone_step microphone_inv
  by unfold_locales (rule microphone_step_inv)

text \<open>C26: However the microphone is switched, recorded and closed while the loop turns, the server hears what was recorded, in order,
  each frame at most once and less than a tenth of a second after it was queued; no frame recorded before the microphone was
  switched is sent afterwards; the packets are numbered without a gap; the queue holds at most five frames and every frame
  that was neither sent nor is waiting is counted as dropped.\<close>

theorem microphone_fresh_in_order:
  assumes "s = fold microphone_step ops (microphone_start available)"
  shows "subseq (map snd (mr_sent s)) (mr_pushed s) \<and> (\<forall>(t, _, frame)\<in>set (mr_sent s). t - mp_queued_at frame < MAX_FRAME_AGE)
    \<and> map fst (written (mr_calls s)) = [0..<length (mr_sent s)] \<and> length (mq_frames (mr_queue s)) \<le> MICROPHONE_QUEUE_CAPACITY
    \<and> length (mr_pushed s) = length (mr_sent s) + length (mq_frames (mr_queue s)) + mq_dropped (mr_queue s)"
proof -
  have "microphone_inv s" unfolding assms
    by (rule microphone.run_keeps) (simp add: microphone_inv_def microphone_start_def MicrophoneQueue_new_def)
  moreover from this have "subseq (map snd (mr_sent s)) (mr_pushed s)" unfolding microphone_inv_def by (metis list_emb_append_mono append_Nil2 list_emb_Nil subseq_drop_queue)
  ultimately show ?thesis by (auto simp: microphone_inv_def stale_def not_le case_prod_beta)
qed

definition sample_recording :: "microphone_op list" where
  "sample_recording = [SetEnabled True, PushOpus [1] 0 0, SetEnabled True, PushOpus [2] 960 5, MicrophoneTurn True True (\<lambda>n. 9 + n)]"

theorem microphone_fresh_in_order_witness:
  "mr_sent (fold microphone_step sample_recording (microphone_start True)) = [(9, 2, \<lparr> mp_payload = [2], mp_timestamp = 960, mp_queued_at = 5 \<rparr>)]
   \<and> length (mr_pushed (fold microphone_step sample_recording (microphone_start True))) = 1 + 0 + 1"
proof -
  have run: "fold microphone_step sample_recording (microphone_start True) =
    \<lparr> mr_queue = \<lparr> mq_available = True, mq_enabled = True, mq_closed = False, mq_generation = 2, mq_frames = [], mq_dropped = 1 \<rparr>,
      mr_uplink = \<lparr> up_generation = 2, up_sequence = 1 \<rparr>, mr_calls = [RemoveStream, WriteRtp 0 \<lparr> mp_payload = [2], mp_timestamp = 960, mp_queued_at = 5 \<rparr>],
      mr_pushed = [(1, \<lparr> mp_payload = [1], mp_timestamp = 0, mp_queued_at = 0 \<rparr>), (2, \<lparr> mp_payload = [2], mp_timestamp = 960, mp_queued_at = 5 \<rparr>)],
      mr_sent = [(9, 2, \<lparr> mp_payload = [2], mp_timestamp = 960, mp_queued_at = 5 \<rparr>)] \<rparr>"
    by (simp add: sample_recording_def microphone_start_def MicrophoneQueue_new_def set_microphone_enabled_def microphone_clear_def
        microphone_push_def MICROPHONE_QUEUE_CAPACITY_def MAX_OPUS_BYTES_def microphone_turn_def send_frames.simps microphone_pop_def stale_def
        MAX_FRAME_AGE_def millis_def Let_def)
  with microphone_fresh_in_order [OF refl, of sample_recording True] show ?thesis by simp
qed

end
