(* ===== verification/FramePacing.thy ===== *)
theory FramePacing
  imports Bandwidth
begin

text \<open>
  The pacing of decoded frames on a display (\<open>linux_frame_pacing.rs\<close> of the platform crate): when the next frame may be
  presented, which frame is chosen and how many are kept back. The statistics of the jitter are floating point and
  given by the parameter \<open>fl\<close>; the clock of presentations is exact.
\<close>

section \<open>Model\<close>

text \<open>\<open>pf_ceil\<close> is \<open>f64::ceil\<close> and \<open>pf_duration\<close> is \<open>Duration::from_secs_f64\<close>.\<close>

record 'f pacing_floats = "'f float_ops" +
  pf_ceil :: "'f \<Rightarrow> 'f"
  pf_duration :: "'f \<Rightarrow> duration"

definition PACING_OUTLIER :: duration where "PACING_OUTLIER = millis 75"
definition MAX_ADAPTIVE_QUEUE_DEPTH :: nat where "MAX_ADAPTIVE_QUEUE_DEPTH = 2"

definition JITTER_QUEUE_THRESHOLD :: "'f pacing_floats \<Rightarrow> 'f" where
  "JITTER_QUEUE_THRESHOLD fl = fl_lit fl 1 4"

definition is_zero :: "'f pacing_floats \<Rightarrow> 'f \<Rightarrow> bool" where
  "is_zero fl x \<longleftrightarrow> fl_leq fl x (fl_lit fl 0 1) \<and> fl_leq fl (fl_lit fl 0 1) x"

datatype FrameSelectionPolicy = OldestReady | LatestReady

record PacingDecision =
  pd_selection :: FrameSelectionPolicy
  pd_target_queue_depth :: nat

record 'f LinuxFramePacer =
  lp_stream_interval :: duration
  lp_display_interval :: "duration option"
  lp_presentation_interval :: duration
  lp_fast_stream :: bool
  lp_framerate_mismatch :: bool
  lp_vrr_enabled :: bool
  lp_last_arrival :: "(instant \<times> nat) option"
  lp_jitter_ema_ns :: 'f
  lp_jitter_bound_ns :: 'f
  lp_next_deadline :: "instant option"

definition frame_interval :: "'f pacing_floats \<Rightarrow> u32 \<Rightarrow> duration" where
  "frame_interval fl fps = pf_duration fl (fl_div fl (fl_lit fl 1 1) (fl_of fl (max (unat fps) 1)))"

definition pacing_mode :: "duration \<Rightarrow> duration option \<Rightarrow> duration \<times> bool \<times> bool" where
  "pacing_mode stream_interval display_interval = (case display_interval of
     None \<Rightarrow> (stream_interval, False, False)
   | Some display \<Rightarrow>
       (max stream_interval display, 3 * stream_interval < 2 * display,
        4 * stream_interval < 3 * display \<or> 2 * stream_interval > 3 * display))"

definition LinuxFramePacer_new :: "'f pacing_floats \<Rightarrow> u32 \<Rightarrow> u32 option \<Rightarrow> bool \<Rightarrow> 'f LinuxFramePacer" where
  "LinuxFramePacer_new fl stream_fps display_refresh_hz vrr_enabled =
     (let stream_interval = frame_interval fl stream_fps;
          display_interval = map_option (frame_interval fl) display_refresh_hz
      in case pacing_mode stream_interval display_interval of (presentation, fast, mismatch) \<Rightarrow>
           \<lparr> lp_stream_interval = stream_interval, lp_display_interval = display_interval, lp_presentation_interval = presentation,
             lp_fast_stream = fast, lp_framerate_mismatch = mismatch, lp_vrr_enabled = vrr_enabled, lp_last_arrival = None,
             lp_jitter_ema_ns = fl_lit fl 0 1, lp_jitter_bound_ns = fl_lit fl 0 1, lp_next_deadline = None \<rparr>)"

text \<open>\<open>reset\<close> and \<open>clear_timing_history\<close> have the same body.\<close>

definition pacer_reset :: "'f pacing_floats \<Rightarrow> 'f LinuxFramePacer \<Rightarrow> 'f LinuxFramePacer" where
  "pacer_reset fl p = p\<lparr> lp_last_arrival := None, lp_jitter_ema_ns := fl_lit fl 0 1, lp_jitter_bound_ns := fl_lit fl 0 1,
     lp_next_deadline := None \<rparr>"

definition reconfigure :: "'f pacing_floats \<Rightarrow> u32 \<Rightarrow> u32 option \<Rightarrow> 'f LinuxFramePacer \<Rightarrow> bool \<times> 'f LinuxFramePacer" where
  "reconfigure fl stream_fps display_refresh_hz p =
     (let stream_interval = frame_interval fl stream_fps;
          display_interval = map_option (frame_interval fl) display_refresh_hz
      in if lp_stream_interval p = stream_interval \<and> lp_display_interval p = display_interval then (False, p)
         else case pacing_mode stream_interval display_interval of (presentation, fast, mismatch) \<Rightarrow>
           (True, pacer_reset fl (p\<lparr> lp_stream_interval := stream_interval, lp_display_interval := display_interval,
              lp_presentation_interval := presentation, lp_fast_stream := fast, lp_framerate_mismatch := mismatch \<rparr>)))"

definition is_due :: "instant \<Rightarrow> 'f LinuxFramePacer \<Rightarrow> bool" where
  "is_due now p \<longleftrightarrow> lp_vrr_enabled p \<or> (case lp_next_deadline p of None \<Rightarrow> True | Some deadline \<Rightarrow> deadline \<le> now)"

definition adaptive_queue_depth :: "'f pacing_floats \<Rightarrow> 'f LinuxFramePacer \<Rightarrow> nat" where
  "adaptive_queue_depth fl p =
     (if is_zero fl (lp_jitter_bound_ns p) then 0
      else let interval_ns = fl_of fl (lp_presentation_interval p);
               target_ns = fl_mul fl (fl_add fl (lp_jitter_ema_ns p) (fl_mul fl (lp_jitter_bound_ns p) (fl_lit fl 1 2))) (fl_lit fl 5 4)
           in if fl_less fl target_ns (fl_mul fl interval_ns (JITTER_QUEUE_THRESHOLD fl)) then 0
              else min (fl_to fl u64_max (pf_ceil fl (fl_div fl target_ns interval_ns))) MAX_ADAPTIVE_QUEUE_DEPTH)"

definition pacing_decision :: "'f pacing_floats \<Rightarrow> instant \<Rightarrow> 'f LinuxFramePacer \<Rightarrow> PacingDecision" where
  "pacing_decision fl now p =
     (let latest = \<lparr> pd_selection = LatestReady, pd_target_queue_depth = 0 \<rparr>
      in if lp_vrr_enabled p then latest
         else if lp_fast_stream p \<or> lp_framerate_mismatch p
           \<or> (case lp_next_deadline p of None \<Rightarrow> False | Some deadline \<Rightarrow> PACING_OUTLIER < now - deadline) then latest
         else \<lparr> pd_selection = OldestReady, pd_target_queue_depth = adaptive_queue_depth fl p \<rparr>)"

definition observe_arrival :: "'f pacing_floats \<Rightarrow> instant \<Rightarrow> nat \<Rightarrow> 'f LinuxFramePacer \<Rightarrow> 'f LinuxFramePacer" where
  "observe_arrival fl arrived_at timestamp_us p =
     (let previous = lp_last_arrival p; p = p\<lparr> lp_last_arrival := Some (arrived_at, timestamp_us) \<rparr>
      in case previous of
           None \<Rightarrow> p
         | Some (previous_arrival, previous_timestamp_us) \<Rightarrow>
             if timestamp_us < previous_timestamp_us then pacer_reset fl p
             else let arrival_interval = arrived_at - previous_arrival;
                      media_interval = (timestamp_us - previous_timestamp_us) * 1000
                  in if arrival_interval = 0 \<or> media_interval = 0 \<or> arrival_interval > PACING_OUTLIER \<or> media_interval > PACING_OUTLIER
                     then pacer_reset fl p
                     else let jitter_ns = fl_of fl (if arrival_interval < media_interval then media_interval - arrival_interval
                                                    else arrival_interval - media_interval)
                          in p\<lparr> lp_jitter_ema_ns := (if is_zero fl (lp_jitter_ema_ns p) then jitter_ns
                                  else fl_add fl (fl_mul fl (lp_jitter_ema_ns p) (fl_lit fl 9 10)) (fl_mul fl jitter_ns (fl_lit fl 1 10))),
                                lp_jitter_bound_ns := fl_max fl (fl_mul fl (lp_jitter_bound_ns p) (fl_lit fl 98 100)) jitter_ns \<rparr>)"

definition mark_presented :: "instant \<Rightarrow> 'f LinuxFramePacer \<Rightarrow> 'f LinuxFramePacer" where
  "mark_presented now p =
     (if lp_vrr_enabled p then p\<lparr> lp_next_deadline := None \<rparr>
      else let interval = lp_presentation_interval p;
               next = (case lp_next_deadline p of None \<Rightarrow> now + interval | Some deadline \<Rightarrow> deadline + interval)
           in p\<lparr> lp_next_deadline := Some (if next \<le> now then now + interval else next) \<rparr>)"

section \<open>The clock of presentations\<close>

text \<open>A run of the pacer, with the presentations since it last lost its clock. A frame is presented only when it is due, as
  the caller checks.\<close>

datatype pacer_op = ObserveFrame instant nat | Present instant | Reconfigure u32 "u32 option" | ResetPacer

record 'f pacer_run =
  pr_pacer :: "'f LinuxFramePacer"
  pr_presented :: "instant list"

definition keep_clock :: "'f LinuxFramePacer \<Rightarrow> 'f pacer_run \<Rightarrow> 'f pacer_run" where
  "keep_clock p s = \<lparr> pr_pacer = p, pr_presented = (if lp_next_deadline p = None then [] else pr_presented s) \<rparr>"

fun pacer_step :: "'f pacing_floats \<Rightarrow> pacer_op \<Rightarrow> 'f pacer_run \<Rightarrow> 'f pacer_run" where
  "pacer_step fl (ObserveFrame arrived_at timestamp_us) s = keep_clock (observe_arrival fl arrived_at timestamp_us (pr_pacer s)) s"
| "pacer_step fl (Reconfigure fps hz) s = keep_clock (snd (reconfigure fl fps hz (pr_pacer s))) s"
| "pacer_step fl ResetPacer s = keep_clock (pacer_reset fl (pr_pacer s)) s"
| "pacer_step fl (Present now) s =
     (if is_due now (pr_pacer s) then \<lparr> pr_pacer = mark_presented now (pr_pacer s), pr_presented = pr_presented s @ [now] \<rparr> else s)"

definition paced :: "duration \<Rightarrow> instant list \<Rightarrow> instant \<Rightarrow> bool" where
  "paced interval ts deadline \<longleftrightarrow> ts \<noteq> [] \<and> last ts \<le> deadline \<and> deadline \<le> last ts + interval
     \<and> (\<forall>i<length ts. ts ! i + (length ts - 1 - i) * interval \<le> deadline)
     \<and> (\<forall>j<length ts. \<forall>i<j. ts ! i + (j - 1 - i) * interval \<le> ts ! j)"

definition pacer_inv :: "'f pacer_run \<Rightarrow> bool" where
  "pacer_inv s \<longleftrightarrow> \<not> lp_vrr_enabled (pr_pacer s) \<and> (case lp_next_deadline (pr_pacer s) of
     None \<Rightarrow> pr_presented s = [] | Some deadline \<Rightarrow> paced (lp_presentation_interval (pr_pacer s)) (pr_presented s) deadline)"

lemma paced_present:
  assumes "paced interval ts deadline" and "deadline \<le> now"
  shows "paced interval (ts @ [now]) (if deadline + interval \<le> now then now + interval else deadline + interval)"
proof -
  let ?next = "if deadline + interval \<le> now then now + interval else deadline + interval"
  have later: "now \<le> ?next" "?next \<le> now + interval" "deadline + interval \<le> ?next" using assms(2) by auto
  have old: "ts ! i + (length ts - 1 - i) * interval \<le> deadline" if "i < length ts" for i
    using assms(1) that by (simp add: paced_def)
  have "(ts @ [now]) ! i + (length (ts @ [now]) - 1 - i) * interval \<le> ?next" if "i < length (ts @ [now])" for i
  proof (cases "i < length ts")
    case True
    then have "length ts - i = Suc (length ts - 1 - i)" by simp
    then have "ts ! i + (length ts - i) * interval \<le> deadline + interval" using old [OF True] by simp
    with True later(3) show ?thesis by (simp add: nth_append)
  qed (use that later(1) in \<open>simp add: nth_append\<close>)
  moreover have "(ts @ [now]) ! i + (j - 1 - i) * interval \<le> (ts @ [now]) ! j" if "j < length (ts @ [now])" "i < j" for i j
  proof (cases "j < length ts")
    case True
    with assms(1) that show ?thesis by (auto simp: nth_append paced_def)
  next
    case False
    with that have "j = length ts" by simp
    with old [of i] that assms(2) show ?thesis by (simp add: nth_append)
  qed
  ultimately show ?thesis using later(1,2) unfolding paced_def by simp
qed

lemma keep_clock_inv:
  assumes "pacer_inv s" and "lp_vrr_enabled p = lp_vrr_enabled (pr_pacer s)"
    and "lp_next_deadline p = None \<or> lp_next_deadline p = lp_next_deadline (pr_pacer s) \<and> lp_presentation_interval p = lp_presentation_interval (pr_pacer s)"
  shows "pacer_inv (keep_clock p s)"
  using assms by (auto simp: pacer_inv_def keep_clock_def split: option.splits)

lemma observe_arrival_clock:
  "lp_vrr_enabled (observe_arrival fl t m p) = lp_vrr_enabled p \<and> (lp_next_deadline (observe_arrival fl t m p) = None
     \<or> lp_next_deadline (observe_arrival fl t m p) = lp_next_deadline p \<and> lp_presentation_interval (observe_arrival fl t m p) = lp_presentation_interval p)"
  by (auto simp: observe_arrival_def pacer_reset_def Let_def split: option.split)

lemma pacer_step_inv:
  assumes "pacer_inv s"
  shows "pacer_inv (pacer_step fl op s)"
proof (cases op)
  case (ObserveFrame t m)
  with keep_clock_inv [OF assms] observe_arrival_clock [of fl t m "pr_pacer s"] show ?thesis by simp
next
  case (Reconfigure fps hz)
  moreover have "lp_vrr_enabled (snd (reconfigure fl fps hz (pr_pacer s))) = lp_vrr_enabled (pr_pacer s)"
    by (simp add: reconfigure_def pacer_reset_def Let_def split: prod.split)
  moreover have "snd (reconfigure fl fps hz (pr_pacer s)) = pr_pacer s \<or> lp_next_deadline (snd (reconfigure fl fps hz (pr_pacer s))) = None"
    by (simp add: reconfigure_def pacer_reset_def Let_def split: prod.split)
  ultimately show ?thesis by (auto intro: keep_clock_inv [OF assms])
next
  case ResetPacer
  then show ?thesis by (auto intro: keep_clock_inv [OF assms] simp: pacer_reset_def)
next
  case (Present now)
  show ?thesis
  proof (cases "is_due now (pr_pacer s)")
    case True
    show ?thesis
    proof (cases "lp_next_deadline (pr_pacer s)")
      case None
      with assms True show ?thesis by (auto simp: Present pacer_inv_def mark_presented_def Let_def paced_def)
    next
      case (Some deadline)
      with assms True have "paced (lp_presentation_interval (pr_pacer s)) (pr_presented s) deadline" "deadline \<le> now"
        by (auto simp: pacer_inv_def is_due_def)
      from paced_present [OF this] assms Some True show ?thesis by (simp add: Present pacer_inv_def mark_presented_def Let_def)
    qed
  qed (use assms Present in simp)
qed

interpretation pacer: state_machine "pacer_step fl" pacer_inv
  by unfold_locales (rule pacer_step_inv)

text \<open>C34: On a display without a variable rate frames are paced: between two presentations of a clock lie at least as many
  intervals as other presentations between them, so that no backlog is played back in a burst; and a frame is due again at the
  latest one interval after the last one. No more than two frames are ever kept back.\<close>

theorem presentations_paced:
  assumes "s = fold (pacer_step fl) ops \<lparr> pr_pacer = LinuxFramePacer_new fl fps hz False, pr_presented = [] \<rparr>"
    and "interval = lp_presentation_interval (pr_pacer s)"
  shows "(\<forall>j<length (pr_presented s). \<forall>i<j. pr_presented s ! i + (j - 1 - i) * interval \<le> pr_presented s ! j)
    \<and> (\<forall>now. pr_presented s = [] \<or> last (pr_presented s) + interval \<le> now \<longrightarrow> is_due now (pr_pacer s))
    \<and> (\<forall>now. pd_target_queue_depth (pacing_decision fl now (pr_pacer s)) \<le> MAX_ADAPTIVE_QUEUE_DEPTH)"
proof -
  have "pacer_inv s" unfolding assms(1)
    by (rule pacer.run_keeps) (simp add: pacer_inv_def LinuxFramePacer_new_def Let_def split: prod.split)
  then have "(\<forall>j<length (pr_presented s). \<forall>i<j. pr_presented s ! i + (j - 1 - i) * interval \<le> pr_presented s ! j)
    \<and> (\<forall>now. pr_presented s = [] \<or> last (pr_presented s) + interval \<le> now \<longrightarrow> is_due now (pr_pacer s))"
    unfolding pacer_inv_def assms(2) by (auto simp: paced_def is_due_def split: option.splits)
  then show ?thesis by (auto simp: pacing_decision_def adaptive_queue_depth_def Let_def)
qed

definition sample_floats :: "nat pacing_floats" where
  "sample_floats = \<lparr> fl_lit = (\<lambda>n d. n div d), fl_of = (\<lambda>n. n), fl_secs = (\<lambda>d. d), fl_add = (+), fl_sub = (-), fl_mul = (*), fl_div = (div),
     fl_min = min, fl_max = max, fl_abs = (\<lambda>x. x), fl_mul_add = (\<lambda>a b c. a * b + c), fl_bits = (\<lambda>x. of_nat x), fl_less = (<), fl_leq = (\<le>),
     fl_to = (\<lambda>m x. min m x), fl_key = int, pf_ceil = (\<lambda>x. x), pf_duration = (\<lambda>x. 16) \<rparr>"

theorem presentations_paced_witness:
  "pr_presented (fold (pacer_step sample_floats) [Present 5, Present 20, Present 21, Present 38] \<lparr> pr_pacer = LinuxFramePacer_new sample_floats 60 None False, pr_presented = [] \<rparr>)
     = [5, 21, 38] \<and> (5 :: nat) + (2 - 1 - 0) * 16 \<le> 38"
proof -
  define s where "s = fold (pacer_step sample_floats) [Present 5, Present 20, Present 21, Present 38] \<lparr> pr_pacer = LinuxFramePacer_new sample_floats 60 None False, pr_presented = [] \<rparr>"
  have run: "pr_presented s = [5, 21, 38]" "lp_presentation_interval (pr_pacer s) = 16"
    by (simp_all add: s_def LinuxFramePacer_new_def pacing_mode_def frame_interval_def sample_floats_def is_due_def mark_presented_def Let_def)
  from presentations_paced [OF s_def run(2) [symmetric]] have "\<forall>i<2. pr_presented s ! i + (2 - 1 - i) * 16 \<le> pr_presented s ! 2"
    by (auto simp: run)
  then have "pr_presented s ! 0 + (2 - 1 - 0) * 16 \<le> pr_presented s ! 2" by (rule spec [of _ 0, THEN mp]) simp
  with run(1) show ?thesis unfolding s_def by simp
qed

end
