(* ===== verification/AudioPlayout.thy ===== *)
theory AudioPlayout
  imports Bandwidth
begin

text \<open>
  The buffer between the audio decoder and the sound device (\<open>audio_playout.rs\<close> of the platform crate): interleaved stereo
  samples, bounded, with a gentle resampling that works off a backlog that lasts. The arithmetic on samples is floating point:
  the position of a resampled frame is computed by \<open>fl\<close>, and \<open>blend a b fraction\<close> is \<open>a + (b - a) * fraction\<close> in \<open>f32\<close>. An
  index out of range is \<open>None\<close>.
\<close>

section \<open>Model\<close>

definition CHANNELS :: nat where "CHANNELS = 2"
definition SAMPLE_RATE :: nat where "SAMPLE_RATE = 48000"
definition TARGET_FRAMES :: nat where "TARGET_FRAMES = SAMPLE_RATE * 40 div 1000"
definition HIGH_FRAMES :: nat where "HIGH_FRAMES = SAMPLE_RATE * 60 div 1000"
definition PERSISTENT_FRAMES :: nat where "PERSISTENT_FRAMES = SAMPLE_RATE * 200 div 1000"

record 's AudioPlayoutBuffer =
  ap_samples :: "'s list"
  ap_capacity :: nat
  ap_high_frames :: nat
  ap_recovering :: bool

definition AudioPlayoutBuffer_new :: "nat \<Rightarrow> 's AudioPlayoutBuffer option" where
  "AudioPlayoutBuffer_new capacity =
     (if CHANNELS \<le> capacity \<and> capacity mod CHANNELS = 0
      then Some \<lparr> ap_samples = [], ap_capacity = capacity, ap_high_frames = 0, ap_recovering = False \<rparr> else None)"

definition playout_push :: "'s list \<Rightarrow> 's AudioPlayoutBuffer \<Rightarrow> nat \<times> 's AudioPlayoutBuffer" where
  "playout_push samples b =
     (let samples = take (length samples div CHANNELS * CHANNELS) samples;
          overflow = length (ap_samples b) + length samples - ap_capacity b
      in (overflow, b\<lparr> ap_samples := drop (min overflow (length (ap_samples b))) (ap_samples b)
                         @ drop (length samples - ap_capacity b) samples \<rparr>))"

definition playout_clear :: "'s AudioPlayoutBuffer \<Rightarrow> 's AudioPlayoutBuffer" where
  "playout_clear b = b\<lparr> ap_samples := [], ap_high_frames := 0, ap_recovering := False \<rparr>"

text \<open>The state after the backlog was looked at, and the frames to be saved.\<close>

definition watch_backlog :: "nat \<Rightarrow> 's AudioPlayoutBuffer \<Rightarrow> 's AudioPlayoutBuffer" where
  "watch_backlog output_frames b =
     (let backlog = length (ap_samples b) div CHANNELS - output_frames;
          b = (if HIGH_FRAMES < backlog
               then let high = sat_add_u64 (ap_high_frames b) output_frames
                    in b\<lparr> ap_high_frames := high, ap_recovering := ap_recovering b \<or> PERSISTENT_FRAMES \<le> high \<rparr>
               else b\<lparr> ap_high_frames := 0 \<rparr>)
      in if backlog \<le> TARGET_FRAMES then b\<lparr> ap_recovering := False \<rparr> else b)"

definition extra_frames :: "nat \<Rightarrow> 's AudioPlayoutBuffer \<Rightarrow> nat" where
  "extra_frames output_frames b =
     (if ap_recovering b then min (output_frames div 50) (length (ap_samples b) div CHANNELS - output_frames - TARGET_FRAMES) else 0)"

definition sample_at :: "'s list \<Rightarrow> nat \<Rightarrow> 's option" where
  "sample_at samples i = (if i < length samples then Some (samples ! i) else None)"

definition position :: "'f float_ops \<Rightarrow> nat \<Rightarrow> nat \<Rightarrow> nat \<Rightarrow> 'f" where
  "position fl output_frames consumed frame = fl_div fl (fl_mul fl (fl_of fl frame) (fl_of fl consumed)) (fl_of fl output_frames)"

fun resample :: "'f float_ops \<Rightarrow> ('s \<Rightarrow> 's \<Rightarrow> 'f \<Rightarrow> 's) \<Rightarrow> 's list \<Rightarrow> nat \<Rightarrow> nat \<Rightarrow> (nat \<times> nat) list \<Rightarrow> 's list option" where
  "resample fl blend samples output_frames consumed [] = Some []"
| "resample fl blend samples output_frames consumed ((frame, channel) # rest) =
     (let p = position fl output_frames consumed frame; first = fl_to fl u64_max p; fraction = fl_sub fl p (fl_of fl first)
      in do {
        a \<leftarrow> sample_at samples (first * CHANNELS + channel);
        b \<leftarrow> sample_at samples ((first + 1) * CHANNELS + channel);
        out \<leftarrow> resample fl blend samples output_frames consumed rest;
        Some (blend a b fraction # out)
      })"

text \<open>Filling a destination of \<open>n\<close> samples; \<open>silence\<close> is \<open>0.0\<close>.\<close>

definition playout_fill ::
  "'f float_ops \<Rightarrow> ('s \<Rightarrow> 's \<Rightarrow> 'f \<Rightarrow> 's) \<Rightarrow> 's \<Rightarrow> nat \<Rightarrow> 's AudioPlayoutBuffer \<Rightarrow> ('s list \<times> 's AudioPlayoutBuffer) option" where
  "playout_fill fl blend silence n b =
     (let output_frames = n div CHANNELS;
          b = watch_backlog output_frames b;
          extra = extra_frames output_frames b;
          samples = ap_samples b;
          wanted = output_frames * CHANNELS;
          rest = (if n mod CHANNELS \<noteq> 0 then [silence] else [])
      in if extra = 0
         then Some (take wanted (samples @ replicate wanted silence) @ rest, b\<lparr> ap_samples := drop wanted samples \<rparr>)
         else let consumed = output_frames + extra
              in do {
                out \<leftarrow> resample fl blend samples output_frames consumed (List.product [0..<output_frames] [0..<CHANNELS]);
                if length samples < consumed * CHANNELS then None
                else Some (out @ rest, b\<lparr> ap_samples := drop (consumed * CHANNELS) samples \<rparr>)
              })"

section \<open>Bounded, aligned and complete\<close>

text \<open>What is relied on of \<open>f64\<close>: products below \<open>2 ^ 53\<close> are exact and a quotient is rounded to a neighbour.\<close>

definition position_ok :: "'f float_ops \<Rightarrow> bool" where
  "position_ok fl \<longleftrightarrow> (\<forall>output_frames consumed frame. frame < output_frames \<and> output_frames \<le> consumed \<and> frame * consumed < 2 ^ 53
     \<longrightarrow> fl_to fl u64_max (position fl output_frames consumed frame) \<le> frame * consumed div output_frames + 1)"

definition playout_ok :: "'s AudioPlayoutBuffer \<Rightarrow> bool" where
  "playout_ok b \<longleftrightarrow> even (length (ap_samples b)) \<and> length (ap_samples b) \<le> ap_capacity b \<and> even (ap_capacity b) \<and> ap_capacity b \<le> 2 ^ 26"

text \<open>A resampled sample lies between two neighbouring samples of its channel.\<close>

definition resampled :: "'f float_ops \<Rightarrow> ('s \<Rightarrow> 's \<Rightarrow> 'f \<Rightarrow> 's) \<Rightarrow> 's list \<Rightarrow> nat \<Rightarrow> nat \<Rightarrow> nat \<times> nat \<Rightarrow> 's" where
  "resampled fl blend samples output_frames consumed = (\<lambda>(frame, channel).
     let p = position fl output_frames consumed frame; first = fl_to fl u64_max p
     in blend (samples ! (first * CHANNELS + channel)) (samples ! ((first + 1) * CHANNELS + channel)) (fl_sub fl p (fl_of fl first)))"

lemma resample_some:
  assumes "\<And>frame channel. (frame, channel) \<in> set frames \<Longrightarrow>
    (fl_to fl u64_max (position fl output_frames consumed frame) + 1) * CHANNELS + channel < length samples"
  shows "resample fl blend samples output_frames consumed frames = Some (map (resampled fl blend samples output_frames consumed) frames)"
  using assms
proof (induction frames)
  case (Cons x frames)
  obtain frame channel where x: "x = (frame, channel)" by (metis surj_pair)
  have "resample fl blend samples output_frames consumed frames = Some (map (resampled fl blend samples output_frames consumed) frames)"
    by (rule Cons.IH) (use Cons.prems in auto)
  moreover have "(fl_to fl u64_max (position fl output_frames consumed frame) + 1) * CHANNELS + channel < length samples"
    using Cons.prems [of frame channel] by (simp add: x)
  ultimately show ?case by (simp add: x sample_at_def resampled_def Let_def)
qed simp

lemma frame_before:
  fixes consumed :: nat
  assumes "frame < output_frames" and "output_frames \<le> consumed"
  shows "frame * consumed div output_frames < consumed"
proof -
  have "frame * consumed < output_frames * consumed" by (rule mult_strict_right_mono) (use assms in auto)
  then show ?thesis by (simp add: less_mult_imp_div_less mult.commute)
qed

text \<open>What a call of \<open>fill\<close> does: without recovery it hands out the samples as they are and then silence; with recovery it
  uses up at most a fiftieth more frames than it hands out, leaves the target, and computes both channels of a frame at the same
  position.\<close>

definition stretched :: "('s \<Rightarrow> 's \<Rightarrow> 'f \<Rightarrow> 's) \<Rightarrow> nat \<Rightarrow> 's list \<Rightarrow> 's list \<Rightarrow> bool" where
  "stretched blend output_frames before out \<longleftrightarrow> (\<forall>frame < output_frames. \<exists>first fraction. 2 * first + 3 < length before
     \<and> out ! (2 * frame) = blend (before ! (2 * first)) (before ! (2 * first + 2)) fraction
     \<and> out ! (2 * frame + 1) = blend (before ! (2 * first + 1)) (before ! (2 * first + 3)) fraction)"

definition filled :: "('s \<Rightarrow> 's \<Rightarrow> 'f \<Rightarrow> 's) \<Rightarrow> 's \<Rightarrow> nat \<Rightarrow> 's list \<Rightarrow> 's list \<Rightarrow> 's list \<Rightarrow> bool" where
  "filled blend silence n before out after \<longleftrightarrow> length out = n
     \<and> (\<exists>used. after = drop used before \<and> even used
         \<and> (if 2 * (n div 2) < used
            then used \<le> 2 * (n div 2 + n div 2 div 50) \<and> used + 2 * TARGET_FRAMES \<le> length before \<and> stretched blend (n div 2) before out
            else used = 2 * (n div 2) \<and> take used out = take used (before @ replicate n silence)))"

lemma watch_backlog_samples [simp]:
  "ap_samples (watch_backlog n b) = ap_samples b" "ap_capacity (watch_backlog n b) = ap_capacity b"
  by (simp_all add: watch_backlog_def Let_def)

lemma recovering_inside:
  assumes "position_ok fl" and "consumed + TARGET_FRAMES \<le> len div 2" and "len \<le> 2 ^ 26"
    and "output_frames \<le> consumed" and "frame < output_frames" and "channel < 2"
  shows "(fl_to fl u64_max (position fl output_frames consumed frame) + 1) * CHANNELS + channel < len"
proof -
  have small: "consumed \<le> 2 ^ 25" using assms(2) div_le_mono [OF assms(3), of 2] by simp
  have "frame * consumed < 2 ^ 53" using mult_strict_mono' [of frame "2 ^ 25 + 1" consumed "2 ^ 25 + 1"] assms(4,5) small by simp
  then have "fl_to fl u64_max (position fl output_frames consumed frame) \<le> frame * consumed div output_frames + 1"
    using assms(1,4,5) by (simp add: position_ok_def)
  then have "fl_to fl u64_max (position fl output_frames consumed frame) \<le> consumed"
    using frame_before [OF assms(5,4)] by simp
  then show ?thesis using assms(2,6) by (simp add: CHANNELS_def TARGET_FRAMES_def SAMPLE_RATE_def)
qed

lemma stretched_resampled:
  assumes "\<And>frame channel. frame < output_frames \<Longrightarrow> channel < 2 \<Longrightarrow>
    (fl_to fl u64_max (position fl output_frames consumed frame) + 1) * CHANNELS + channel < length before"
  shows "stretched blend output_frames before
    (map (resampled fl blend before output_frames consumed) (List.product [0..<output_frames] [0..<CHANNELS]) @ rest)"
  unfolding stretched_def
proof (intro allI impI)
  fix frame assume frame: "frame < output_frames"
  let ?frames = "List.product [0..<output_frames] [0..<CHANNELS]"
  let ?out = "map (resampled fl blend before output_frames consumed) ?frames @ rest"
  define p where "p = position fl output_frames consumed frame"
  define first where "first = fl_to fl u64_max p"
  have out: "?out ! (2 * frame + channel) = blend (before ! (2 * first + channel)) (before ! (2 * first + 2 + channel)) (fl_sub fl p (fl_of fl first))"
    if "channel < 2" for channel
  proof -
    have "?frames ! (2 * frame + channel) = (frame, channel)" "2 * frame + channel < length ?frames"
      using frame that by (simp_all add: product_nth CHANNELS_def)
    then show ?thesis by (simp add: nth_append resampled_def Let_def p_def first_def CHANNELS_def mult.commute)
  qed
  have "2 * first + 2 + 1 = 2 * first + 3" by simp
  with out [of 0] out [of 1] assms [OF frame, of 1] show "\<exists>first fraction. 2 * first + 3 < length before
     \<and> ?out ! (2 * frame) = blend (before ! (2 * first)) (before ! (2 * first + 2)) fraction
     \<and> ?out ! (2 * frame + 1) = blend (before ! (2 * first + 1)) (before ! (2 * first + 3)) fraction"
    by (intro exI [of _ first] exI [of _ "fl_sub fl p (fl_of fl first)"])
      (simp only: add_0_right one_less_numeral_iff, simp add: p_def [symmetric] first_def [symmetric] CHANNELS_def)
qed

lemma playout_fill_ok:
  assumes "playout_ok b" and "position_ok fl"
  shows "\<exists>out b'. playout_fill fl blend silence n b = Some (out, b') \<and> playout_ok b' \<and> ap_capacity b' = ap_capacity b
    \<and> filled blend silence n (ap_samples b) out (ap_samples b')"
proof -
  define frames where "frames = n div CHANNELS"
  define w where "w = watch_backlog frames b"
  define extra where "extra = extra_frames frames w"
  define rest where "rest = (if n mod CHANNELS \<noteq> 0 then [silence] else [])"
  have w: "ap_samples w = ap_samples b" "ap_capacity w = ap_capacity b" by (simp_all add: w_def)
  have d: "n div 2 = frames" by (simp add: frames_def CHANNELS_def)
  have rest: "length rest = n mod 2" "n = 2 * frames + n mod 2" by (auto simp: rest_def frames_def CHANNELS_def mod_2_eq_odd)
  have ok: "playout_ok (w\<lparr> ap_samples := drop (2 * k) (ap_samples b) \<rparr>)" for k
    using assms(1) by (auto simp: playout_ok_def w)
  have fill: "playout_fill fl blend silence n b =
    (if extra = 0 then Some (take (frames * CHANNELS) (ap_samples b @ replicate (frames * CHANNELS) silence) @ rest,
                             w\<lparr> ap_samples := drop (frames * CHANNELS) (ap_samples b) \<rparr>)
     else do {
       out \<leftarrow> resample fl blend (ap_samples b) frames (frames + extra) (List.product [0..<frames] [0..<CHANNELS]);
       if length (ap_samples b) < (frames + extra) * CHANNELS then None
       else Some (out @ rest, w\<lparr> ap_samples := drop ((frames + extra) * CHANNELS) (ap_samples b) \<rparr>)
     })"
    unfolding playout_fill_def Let_def frames_def [symmetric] w_def [symmetric] extra_def [symmetric] rest_def [symmetric] w ..
  show ?thesis
  proof (cases "extra = 0")
    case True
    have "filled blend silence n (ap_samples b) (take (2 * frames) (ap_samples b @ replicate (2 * frames) silence) @ rest)
        (drop (2 * frames) (ap_samples b))"
      unfolding filled_def d using rest by (auto simp: min_def intro!: exI [of _ "2 * frames"])
    with fill ok [of frames] True w show ?thesis by (simp add: CHANNELS_def mult.commute)
  next
    case False
    have extra: "extra \<le> frames div 50" "extra \<le> length (ap_samples b) div 2 - frames - TARGET_FRAMES"
      using False by (auto simp: extra_def extra_frames_def w CHANNELS_def split: if_splits)
    have room: "frames + extra + TARGET_FRAMES \<le> length (ap_samples b) div 2" using extra(2) False by simp
    let ?out = "map (resampled fl blend (ap_samples b) frames (frames + extra)) (List.product [0..<frames] [0..<CHANNELS])"
    have inside: "(fl_to fl u64_max (position fl frames (frames + extra) frame) + 1) * CHANNELS + channel < length (ap_samples b)"
      if "frame < frames" "channel < 2" for frame channel
      by (rule recovering_inside [OF assms(2) room]) (use assms(1) that in \<open>auto simp: playout_ok_def\<close>)
    have "resample fl blend (ap_samples b) frames (frames + extra) (List.product [0..<frames] [0..<CHANNELS]) = Some ?out"
      by (rule resample_some) (use inside in \<open>auto simp: CHANNELS_def\<close>)
    then have f: "playout_fill fl blend silence n b = Some (?out @ rest, w\<lparr> ap_samples := drop (2 * (frames + extra)) (ap_samples b) \<rparr>)"
      using fill False room by (simp add: CHANNELS_def mult.commute)
    have "2 * frames < 2 * (frames + extra)" "2 * (frames + extra) \<le> 2 * (frames + frames div 50)"
      "2 * (frames + extra) + 2 * TARGET_FRAMES \<le> length (ap_samples b)" using False extra(1) room by simp_all
    moreover have "length (?out @ rest) = n" using rest by (simp add: CHANNELS_def)
    ultimately have "filled blend silence n (ap_samples b) (?out @ rest) (drop (2 * (frames + extra)) (ap_samples b))"
      unfolding filled_def d using stretched_resampled [of frames fl "frames + extra" "ap_samples b" blend rest] inside
      by (intro conjI exI [of _ "2 * (frames + extra)"]) simp_all
    with f ok [of "frames + extra"] w show ?thesis by simp
  qed
qed

lemma playout_push_newest:
  assumes "playout_ok b"
  shows "ap_samples (snd (playout_push samples b))
    = (let all = ap_samples b @ take (length samples div CHANNELS * CHANNELS) samples in drop (length all - ap_capacity b) all)"
  using assms by (auto simp: playout_push_def Let_def playout_ok_def min_def)

lemma playout_push_ok: "playout_ok b \<Longrightarrow> playout_ok (snd (playout_push samples b))"
  using playout_push_newest [of b samples] by (auto simp: playout_ok_def Let_def playout_push_def CHANNELS_def)

section \<open>Runs\<close>

text \<open>Each call holds the lock of the buffer. The log has the length asked for, the samples before, the ones handed out and the
  samples left, of every call of \<open>fill\<close>.\<close>

datatype 's playout_op = PushAudio "'s list" | ClearAudio | FillAudio nat

record 's playout_run =
  py_buffer :: "'s AudioPlayoutBuffer"
  py_fills :: "(nat \<times> 's list \<times> 's list \<times> 's list) list"

fun playout_step ::
  "'f float_ops \<Rightarrow> ('s \<Rightarrow> 's \<Rightarrow> 'f \<Rightarrow> 's) \<Rightarrow> 's \<Rightarrow> 's playout_op \<Rightarrow> 's playout_run \<Rightarrow> 's playout_run option" where
  "playout_step fl blend silence (PushAudio samples) r = Some (r\<lparr> py_buffer := snd (playout_push samples (py_buffer r)) \<rparr>)"
| "playout_step fl blend silence ClearAudio r = Some (r\<lparr> py_buffer := playout_clear (py_buffer r) \<rparr>)"
| "playout_step fl blend silence (FillAudio n) r = do {
     (out, b) \<leftarrow> playout_fill fl blend silence n (py_buffer r);
     Some \<lparr> py_buffer = b, py_fills = py_fills r @ [(n, ap_samples (py_buffer r), out, ap_samples b)] \<rparr>
   }"

definition playout_run_ok :: "('s \<Rightarrow> 's \<Rightarrow> 'f \<Rightarrow> 's) \<Rightarrow> 's \<Rightarrow> nat \<Rightarrow> 's playout_run \<Rightarrow> bool" where
  "playout_run_ok blend silence capacity r \<longleftrightarrow> playout_ok (py_buffer r) \<and> ap_capacity (py_buffer r) = capacity
     \<and> (\<forall>(n, before, out, after) \<in> set (py_fills r). filled blend silence n before out after)"

lemma playout_step_ok:
  assumes "playout_run_ok blend silence capacity r" and "position_ok fl"
  shows "\<exists>r'. playout_step fl blend silence op r = Some r' \<and> playout_run_ok blend silence capacity r'"
proof (cases op)
  case (PushAudio samples)
  with assms(1) playout_push_ok show ?thesis by (auto simp: playout_run_ok_def playout_push_def Let_def)
next
  case ClearAudio
  with assms(1) show ?thesis by (auto simp: playout_run_ok_def playout_clear_def playout_ok_def)
next
  case (FillAudio n)
  from playout_fill_ok [OF _ assms(2), of "py_buffer r" blend silence n] assms(1) obtain out b' where
    "playout_fill fl blend silence n (py_buffer r) = Some (out, b')" "playout_ok b'" "ap_capacity b' = capacity"
    "filled blend silence n (ap_samples (py_buffer r)) out (ap_samples b')" by (auto simp: playout_run_ok_def)
  with FillAudio assms(1) show ?thesis by (auto simp: playout_run_ok_def)
qed

interpretation playout: panic_free "playout_step fl blend silence" "\<lambda>r. position_ok fl \<and> playout_run_ok blend silence capacity r" "\<lambda>_. True"
  by unfold_locales (use playout_step_ok in fastforce)

section \<open>The property of the playout buffer\<close>

text \<open>C27: Whatever the decoder pushes, however long the buffers are that the device asks to be filled, and whenever the buffer
  is cleared, no call panics; the buffer never exceeds its capacity and always holds whole stereo frames; and every call of
  \<open>fill\<close> hands out as many samples as asked for: the oldest ones unchanged and then silence, or, while a backlog is
  worked off, samples between two neighbours of the same channel, both channels at the same position, using up at most a
  fiftieth more frames and leaving 40 ms. Of \<open>f64\<close> only the rounding of a position to a neighbouring frame is relied on.\<close>

theorem playout_bounded_aligned:
  assumes "position_ok fl" and "AudioPlayoutBuffer_new capacity = Some b" and "capacity \<le> 2 ^ 26"
  shows "\<exists>r. run_steps (playout_step fl blend silence) ops \<lparr> py_buffer = b, py_fills = [] \<rparr> = Some r
    \<and> length (ap_samples (py_buffer r)) \<le> capacity \<and> even (length (ap_samples (py_buffer r)))
    \<and> (\<forall>(n, before, out, after) \<in> set (py_fills r). filled blend silence n before out after)"
proof -
  have "playout_run_ok blend silence capacity \<lparr> py_buffer = b, py_fills = [] \<rparr>"
    using assms(2,3) by (auto simp: playout_run_ok_def playout_ok_def AudioPlayoutBuffer_new_def CHANNELS_def split: if_splits)
  with playout.run_defined [of fl blend silence capacity _ ops] assms(1) obtain r where
    "run_steps (playout_step fl blend silence) ops \<lparr> py_buffer = b, py_fills = [] \<rparr> = Some r" "playout_run_ok blend silence capacity r"
    by auto
  then show ?thesis by (auto simp: playout_run_ok_def playout_ok_def)
qed

definition whole_floats :: "nat float_ops" where
  "whole_floats = \<lparr> fl_lit = (\<lambda>a b. a div b), fl_of = (\<lambda>n. n), fl_secs = (\<lambda>d. d), fl_add = (+), fl_sub = (-), fl_mul = (*), fl_div = (div),
     fl_min = min, fl_max = max, fl_abs = (\<lambda>x. x), fl_mul_add = (\<lambda>a b c. a * b + c), fl_bits = (\<lambda>x. of_nat x), fl_less = (<), fl_leq = (\<le>),
     fl_to = (\<lambda>m x. min m x), fl_key = int \<rparr>"

theorem playout_bounded_aligned_witness:
  "\<exists>r. run_steps (playout_step whole_floats (\<lambda>a b _. a) (0 :: nat)) [PushAudio [1, 2, 3, 4, 5, 6, 7], FillAudio 3]
      \<lparr> py_buffer = \<lparr> ap_samples = [], ap_capacity = 4, ap_high_frames = 0, ap_recovering = False \<rparr>, py_fills = [] \<rparr> = Some r
    \<and> py_fills r = [(3, [3, 4, 5, 6], [3, 4, 0], [5, 6])] \<and> filled (\<lambda>(a :: nat) b (_ :: nat). a) 0 3 [3, 4, 5, 6] [3, 4, 0] [5, 6]"
proof -
  let ?b = "\<lparr> ap_samples = [], ap_capacity = 4, ap_high_frames = 0, ap_recovering = False \<rparr> :: nat AudioPlayoutBuffer"
  let ?ops = "[PushAudio [1, 2, 3, 4, 5, 6, 7], FillAudio 3]"
  have law: "position_ok whole_floats" by (auto simp: position_ok_def position_def whole_floats_def)
  have new: "AudioPlayoutBuffer_new 4 = Some ?b" by (simp add: AudioPlayoutBuffer_new_def CHANNELS_def)
  from playout_bounded_aligned [OF law new, of "\<lambda>a b _. a" 0 ?ops] obtain r where
    r: "run_steps (playout_step whole_floats (\<lambda>a b _. a) 0) ?ops \<lparr> py_buffer = ?b, py_fills = [] \<rparr> = Some r"
    "\<forall>(n, before, out, after) \<in> set (py_fills r). filled (\<lambda>a b (_ :: nat). a) 0 n before out after" by auto
  have push: "snd (playout_push [1, 2, 3, 4, 5, 6, 7] ?b) = ?b\<lparr> ap_samples := [3, 4, 5, 6] \<rparr>"
    by (simp add: playout_push_def CHANNELS_def)
  have quiet: "watch_backlog 1 (?b\<lparr> ap_samples := [3, 4, 5, 6] \<rparr>) = ?b\<lparr> ap_samples := [3, 4, 5, 6] \<rparr>"
    by (simp add: watch_backlog_def CHANNELS_def TARGET_FRAMES_def HIGH_FRAMES_def SAMPLE_RATE_def)
  have fill: "playout_fill whole_floats (\<lambda>a b _. a) 0 3 (?b\<lparr> ap_samples := [3, 4, 5, 6] \<rparr>) = Some ([3, 4, 0], ?b\<lparr> ap_samples := [5, 6] \<rparr>)"
    using quiet by (simp add: playout_fill_def extra_frames_def CHANNELS_def)
  have "py_fills r = [(3, [3, 4, 5, 6], [3, 4, 0], [5, 6])]" using r(1) push fill by auto
  with r show ?thesis by auto
qed

end
