(* ===== verification/Spec2Isabelle.thy ===== *)
theory Spec2Isabelle
  imports Cauchy Reorder FecReorder Assembler Control Srtp FrameStage Bandwidth Nack Feedback ControlReports ReceiverRuns UdpWorker InputChannels SessionEvents
    Cursor Microphone FramePacing AudioPlayout
begin

text \<open>
  OpenNOW is a client for cloud game streaming. This development verifies the streaming core of its native
  streamer, the Rust crates under \<open>src/native/opennow-streamer/crates\<close>: what happens to a datagram of the server
  until the decoder has its picture, and to a movement of the player until the server has its input. File names
  below are those of the crate \<open>opennow-streamer-transport\<close> unless another crate is named.

  \<^bold>\<open>The program.\<close> A video datagram reaches the thread of the video socket (\<open>run_nvst_udp_receiver\<close>), which answers STUN
  and hands media to \<open>NvstVideoReceiver\<close>: source check, SRTP with its replay window, RTP header, a reorder buffer with or
  without forward error correction, assembly of access units. Losses become NACKs and key frame requests in a feedback state
  that the thread of the WebRTC bundle shares, drains and sends as control reports. Frames go through a bounded channel to
  the ingress thread, which offers them to the sink of the media session: a recording tap, a replay buffer and the queue
  in front of the decoder. In the other direction captured input is queued, encoded by the input codec and written to
  data channels under a common budget; Sony controllers are reported through a mailbox and a device protocol of
  their own, and rumble comes back. Besides, recorded speech goes up through a small queue of its own, cursors come down as bitmaps,
  decoded audio passes a playout buffer and decoded pictures a frame pacer. A session thread brings all of it together, drives recovery and ends the session.

  \<^bold>\<open>Conventions.\<close> A Rust \<open>Result\<close> is a sum (\<open>Inl\<close> is \<open>Err\<close>), an \<open>Option\<close> an option, a panic (an index out of range, an
  overflowing subtraction, \<open>unwrap\<close> of nothing) the value \<open>None\<close> of an outer option. Header fields, sequence numbers, bit masks and
  identifiers are words and wrap; \<open>usize\<close> counters and \<open>u64\<close> packet indices are naturals with the saturation,
  the check or the truncation of the source written out. \<open>Instant\<close> and \<open>Duration\<close> are nanoseconds. A method that works under one lock, or on one
  thread, is one transition; threads are sequences of transitions in any order, and where the code takes a
  lock twice the model lets other threads in between (\<open>forward_nvst_event\<close>).

  \<^bold>\<open>Parameters.\<close> Third-party code and floating point arithmetic are arguments: the ciphers and hashes (record \<open>crypto\<close>, laws \<open>crypto_ok\<close>: the
  hashes have 16 and 20 bytes), the CRC of STUN, \<open>f64\<close> and \<open>f32\<close> operations (record \<open>float_ops\<close>; the one law, \<open>position_ok\<close>
  of \<open>AudioPlayout\<close>, says that a quotient is rounded to a neighbouring frame), base64, the
  str0m stack (record \<open>rtc\<close>, laws \<open>rtc_ok\<close>: an accepted write adds at most its bytes to its own channel), the size of a snapshot in memory, the conversion of ticks
  into seconds, the answers of the calls of the session thread, and clock readings. Each theorem with such a law has a
  witness on a concrete instance.

  \<^bold>\<open>Theories, in the order of the data.\<close>

  \<^item> \<open>Prelude\<close>: integers, byte codecs, slices; the locales \<open>state_machine\<close> and \<open>panic_free\<close> that lift an invariant or the absence of panics
    from a step to every run, interpreted on each component that is driven by operations. \<open>OrderedMap\<close>: \<open>BTreeMap\<close> as an
    interface (locale \<open>ordered_map\<close>) and its implementation. \<open>Utf8\<close>: the string functions of the standard library.
    \<open>NvstTypes\<close>: the data types of the receive path.
  \<^item> \<open>Gf256\<close>, \<open>Linear\<close>, \<open>Cauchy\<close> (\<open>nvst.rs\<close>, \<open>gf256_tables\<close> to \<open>reconstruct_nvst_cauchy_data\<close>): the tables multiply as polynomials modulo
    the field polynomial; Gaussian elimination on any Cauchy matrix never lacks a pivot, so the decoder restores exactly the lost shards.
  \<^item> \<open>Rtp\<close>, \<open>Replay\<close>, \<open>Srtp\<close>: header parsing within bounds, the replay window as a filter that accepts each index once, and SRTP and SRTCP:
    what a peer protected is received, nothing is accepted twice, nonces do not repeat.
  \<^item> \<open>Reorder\<close>, \<open>FecBlock\<close>, \<open>FecReorder\<close>, \<open>Assembler\<close>: both reorder buffers are instances of the locale \<open>reorder_stage\<close>, so packets
    leave them in strictly increasing order; a repaired block holds the packets that were sent; packets of a frame assemble into its payload.
  \<^item> \<open>Nack\<close>, \<open>FrameStage\<close>, \<open>Bandwidth\<close> (\<open>nvst_bandwidth.rs\<close>, \<open>frame_stage_timing.rs\<close>), \<open>Feedback\<close>, \<open>Control\<close> (\<open>nvst_control.rs\<close>, \<open>nvst_budget.rs\<close>),
    \<open>ControlReports\<close>: the queue of missing ranges, measurements, the shared feedback state with its invariant, and the batches of reports: the pump
    never panics, and a request for a key frame is not lost before it is sent.
  \<^item> \<open>Receiver\<close>, \<open>ReceiverSafety\<close>, \<open>ReceiverRuns\<close>: \<open>NvstVideoReceiver\<close> as a whole. No datagram, command or poll
    panics in any reachable state; its events refine a life cycle automaton; a frame after a loss is never marked contiguous; a stalled stream escalates to recovery.
  \<^item> \<open>Stun\<close>, \<open>UdpWorker\<close>: messages and consent checks, and the worker thread with its hand-over of frames to the channel.
  \<^item> \<open>DecoderQueue\<close>, \<open>ReplayBuffer\<close>, \<open>Playback\<close> (platform crate: \<open>video_queue.rs\<close>, \<open>replay.rs\<close>, \<open>queue.rs\<close>, \<open>media.rs\<close>; core crate: \<open>consume_encoded_media\<close>): the decoder gets
    intact reference chains, clips start at a key frame and play through, recordings have no gap. The composition with the receiver and the
    worker shows that from the wire to the decoder no frame is decoded after the loss of one it may depend on.
  \<^item> \<open>DecodeProgress\<close> (core crate: \<open>decode_progress.rs\<close>): the watchdog of the decoder.
  \<^item> \<open>InputWire\<close>, \<open>InputCodec\<close>, \<open>InputText\<close>, \<open>InputCapture\<close>, \<open>InputSession\<close>, \<open>InputChannels\<close> (\<open>nvst_input.rs\<close>; platform crate: \<open>embedded_input.rs\<close>; protocol crate:
    \<open>text_input.rs\<close>; core crate: \<open>captured_input_packet\<close>): bounded capture that never leaves a game pad pressed, a codec whose messages the server reads
    back as the input, text cut at character boundaries, and channels whose budget keeps room for the teardown.
  \<^item> \<open>HidReport\<close>, \<open>HidMailbox\<close>, \<open>HidDevices\<close>, \<open>HidPump\<close> (HID crate: \<open>lib.rs\<close>, \<open>ds4.rs\<close>, \<open>runtime.rs\<close>, \<open>session.rs\<close>; \<open>pump_hid_pending\<close> and \<open>queue_hid_shutdown\<close>): reports
    that say what was captured, a mailbox that delivers in order and releases on loss of focus, and a device protocol the server can follow: attached
    once, released before removal, gone for good. \<open>Haptics\<close> (\<open>nvst_haptics.rs\<close>): the latest rumble of each controller wins.
  \<^item> \<open>Cursor\<close> (\<open>nvst_bitmap_cursor.rs\<close>, \<open>nvst_cursor.rs\<close> and their use in \<open>run_nvst_webrtc_bundle\<close>): every cursor the host gets is well formed, the cache of sixteen
    drops the one that was not used for longest, normalising a bitmap twice changes nothing more, and the client gets to draw the cursor after a
    bounded number of commands even when the server is silent.
  \<^item> \<open>Microphone\<close> (\<open>nvst_microphone.rs\<close> and the uplink in \<open>run_nvst_webrtc_bundle\<close>): what the server hears is fresh, in order and from the current switching of the microphone.
  \<^item> \<open>FramePacing\<close>, \<open>AudioPlayout\<close> (platform crate: \<open>linux_frame_pacing.rs\<close>, \<open>audio_playout.rs\<close>): frames are presented no faster than the pace; the playout buffer never panics,
    stays bounded and aligned to stereo frames, and works off a backlog at no more than a fiftieth.
  \<^item> \<open>SessionEvents\<close> (core crate: \<open>forward_nvst_session_events\<close>, \<open>queue_drops.rs\<close>): one turn of the session thread, interleaved with start and stop of the engine. At most
    one recovery between accepted key frames, one end of the session, and a race of stop with the first picture.

  \<^bold>\<open>Bounds, measures and loops.\<close> No definition uses fuel. Loops over slices and queues are structural recursion or \<open>function\<close> with a measure: the bytes left
  (\<open>for_each_sony_output\<close>, \<open>haptics_receive\<close>, \<open>chunks_exact\<close>, the STUN attributes, UTF-8), the frames waiting (\<open>send_frames\<close>), the packets and blocks held (the drains of
  the reorder buffers). Two loops are \<open>partial_function\<close>, so that running for ever is \<open>None\<close>: \<open>pop_while\<close> of the replay buffer, which ends because an empty
  buffer is within every limit, and \<open>unicode_text_messages\<close>, which ends because a character has at most four bytes. Packet indices stay below \<open>2 ^ 48 + 1023\<close>
  (\<open>index_limit\<close>): SRTP yields 48 bits and a block of error correction has at most 1023 packets. Capacities are those of the constants of the source.

  \<^bold>\<open>What the model showed.\<close> Splitting ranges can push the NACK queue past its limit, after which it is not trimmed again (\<open>nack_limit_bypassed\<close> of \<open>Nack\<close>).
  The text slot accepts texts the channel budget always refuses. The neutral report of a retired pad has the other byte order in its
  time stamp (\<open>release_timestamp_big_endian\<close> of \<open>InputCodec\<close>). A stop between two locks leaves a stopped engine connected, and the next start is refused.

  \<^bold>\<open>Not modelled.\<close>
  \<^item> The loop of the WebRTC bundle around the parts above, the decoders, the audio devices around the playout buffer, windows, muxers, the platform back ends and the foreign function interface: calls of
    libraries and of the operating system with little logic of their own.
  \<^item> RTSP negotiation and the parsing of the hand-over from the host: strings, JSON, sockets; the model starts from the configuration they produce.
  \<^item> Capture and encoding of speech (calls of an audio device and of Opus); logging and telemetry, which feed nothing back; in the session thread also the wording of messages.
  \<^item> The crate \<open>opennow-core\<close> (accounts, catalogue, matchmaking, settings, updates): clients of web services.
\<close>

end
